(* ===== verification/Rooch_Prelude.thy ===== *)
theory Rooch_Prelude
  imports Main "HOL-Library.Word"
begin

text \<open>
  Shared vocabulary of the development: the machine integers of the Rust sources, the
  \<open>Result\<close> values their functions return (a panic, an early return with an error and a
  normal return are three kinds of outcome), the checked arithmetic of a release build
  (the workspace \<^verbatim>\<open>Cargo.toml\<close> sets \<^verbatim>\<open>overflow-checks = true\<close>), the bit-counting
  intrinsics of \<^verbatim>\<open>core\<close>, and generic facts on lists and words that the component
  theories use.
\<close>

unbundle bit_operations_syntax

section \<open>Machine integers\<close>

type_synonym u8 = "8 word"
type_synonym u16 = "16 word"
type_synonym u32 = "32 word"
type_synonym u64 = "64 word"
type_synonym bytes = "u8 list"

section \<open>Outcomes\<close>

text \<open>
  \<open>Panic\<close> is an abort (a failed \<^verbatim>\<open>assert!\<close>, an \<^verbatim>\<open>expect\<close> on \<^verbatim>\<open>None\<close>, an index out
  of range or an arithmetic overflow); \<open>Fail\<close> is an \<^verbatim>\<open>Err\<close> value returned by
  \<^verbatim>\<open>ensure!\<close>, \<^verbatim>\<open>bail!\<close> or \<^verbatim>\<open>ok_or_else\<close>; \<open>Diverge\<close> is a loop that does not end
  within the fuel of the model.
\<close>

datatype rust_error = Panic string | Fail string | Diverge

type_synonym 'a result = "rust_error + 'a"

text \<open>The \<^verbatim>\<open>?\<close> operator: the first error leaves the function.\<close>

definition and_then :: "'a result \<Rightarrow> ('a \<Rightarrow> 'b result) \<Rightarrow> 'b result" where
  "and_then r f = (case r of Inl e \<Rightarrow> Inl e | Inr x \<Rightarrow> f x)"

definition assert_that :: "bool \<Rightarrow> string \<Rightarrow> unit result" where
  "assert_that b msg = (if b then Inr () else Inl (Panic msg))"

definition ensure_that :: "bool \<Rightarrow> string \<Rightarrow> unit result" where
  "ensure_that b msg = (if b then Inr () else Inl (Fail msg))"

definition expect :: "'a option \<Rightarrow> string \<Rightarrow> 'a result" where
  "expect x msg = (case x of None \<Rightarrow> Inl (Panic msg) | Some y \<Rightarrow> Inr y)"

definition ok_or :: "'a option \<Rightarrow> string \<Rightarrow> 'a result" where
  "ok_or x msg = (case x of None \<Rightarrow> Inl (Fail msg) | Some y \<Rightarrow> Inr y)"

text \<open>Collecting an iterator of results stops at the first error.\<close>

fun try_map :: "('a \<Rightarrow> 'b result) \<Rightarrow> 'a list \<Rightarrow> 'b list result" where
  "try_map f [] = Inr []"
| "try_map f (x # xs) = and_then (f x) (\<lambda>y. and_then (try_map f xs) (\<lambda>ys. Inr (y # ys)))"

fun try_fold :: "('s \<Rightarrow> 'a \<Rightarrow> 's result) \<Rightarrow> 's \<Rightarrow> 'a list \<Rightarrow> 's result" where
  "try_fold f s [] = Inr s"
| "try_fold f s (x # xs) = and_then (f s x) (\<lambda>s'. try_fold f s' xs)"

text \<open>
  A method with a mutable receiver is an action on the receiver's state: it returns an outcome and
  the state it leaves behind, on every outcome.
\<close>

type_synonym ('s, 'a) action = "'s \<Rightarrow> 'a result \<times> 's"

definition bind_act :: "('s, 'a) action \<Rightarrow> ('a \<Rightarrow> ('s, 'b) action) \<Rightarrow> ('s, 'b) action" where
  "bind_act m f s = (case m s of (Inl e, s') \<Rightarrow> (Inl e, s') | (Inr x, s') \<Rightarrow> f x s')"

definition return_act :: "'a \<Rightarrow> ('s, 'a) action" where
  "return_act x s = (Inr x, s)"

definition lift_act :: "'a result \<Rightarrow> ('s, 'a) action" where
  "lift_act r s = (r, s)"

definition get_act :: "('s \<Rightarrow> 'a) \<Rightarrow> ('s, 'a) action" where
  "get_act f s = (Inr (f s), s)"

definition modify_act :: "('s \<Rightarrow> 's) \<Rightarrow> ('s, unit) action" where
  "modify_act f s = (Inr (), f s)"

fun try_map_act :: "('a \<Rightarrow> ('s, 'b) action) \<Rightarrow> 'a list \<Rightarrow> ('s, 'b list) action" where
  "try_map_act f [] = return_act []"
| "try_map_act f (x # xs) =
     bind_act (f x) (\<lambda>y. bind_act (try_map_act f xs) (\<lambda>ys. return_act (y # ys)))"

text \<open>\<^verbatim>\<open>Vec::pop\<close>: the last element and the rest.\<close>

definition vec_pop :: "'a list \<Rightarrow> ('a \<times> 'a list) option" where
  "vec_pop xs = (if xs = [] then None else Some (last xs, butlast xs))"

section \<open>Checked arithmetic and bit counting\<close>

definition checked_add :: "'a::len word \<Rightarrow> 'a word \<Rightarrow> 'a word result" where
  "checked_add a b =
     (if unat a + unat b < 2 ^ LENGTH('a) then Inr (a + b)
      else Inl (Panic ''attempt to add with overflow''))"

definition checked_sub :: "'a::len word \<Rightarrow> 'a word \<Rightarrow> 'a word result" where
  "checked_sub a b =
     (if b \<le> a then Inr (a - b) else Inl (Panic ''attempt to subtract with overflow''))"

text \<open>A shift panics when the amount reaches the width; bits shifted out are lost silently.\<close>

definition checked_shl :: "'a::len word \<Rightarrow> nat \<Rightarrow> 'a word result" where
  "checked_shl a n =
     (if n < LENGTH('a) then Inr (push_bit n a)
      else Inl (Panic ''attempt to shift left with overflow''))"

definition checked_shr :: "'a::len word \<Rightarrow> nat \<Rightarrow> 'a word result" where
  "checked_shr a n =
     (if n < LENGTH('a) then Inr (drop_bit n a)
      else Inl (Panic ''attempt to shift right with overflow''))"

definition trailing_zeros :: "'a::len word \<Rightarrow> nat" where
  "trailing_zeros w = length (takeWhile Not (map (bit w) [0..<LENGTH('a)]))"

definition leading_zeros :: "'a::len word \<Rightarrow> nat" where
  "leading_zeros w = length (takeWhile Not (map (bit w) (rev [0..<LENGTH('a)])))"

definition count_ones :: "'a::len word \<Rightarrow> nat" where
  "count_ones w = length (filter (bit w) [0..<LENGTH('a)])"

section \<open>Automation shared by the components\<close>

named_theorems outcome_simps \<open>evaluation of result values\<close>

lemma and_then_Inl [simp, outcome_simps]: "and_then (Inl e) f = Inl e"
  by (simp add: and_then_def)

lemma and_then_Inr [simp, outcome_simps]: "and_then (Inr x) f = f x"
  by (simp add: and_then_def)

lemma and_then_eq_Inr [simp]:
  "and_then r f = Inr y \<longleftrightarrow> (\<exists>x. r = Inr x \<and> f x = Inr y)"
  by (cases r) auto

lemma and_then_eq_Inl:
  "and_then r f = Inl e \<longleftrightarrow> r = Inl e \<or> (\<exists>x. r = Inr x \<and> f x = Inl e)"
  by (cases r) auto

lemma and_then_Inr_id [simp]: "and_then r Inr = r"
  by (cases r) auto

lemma and_then_assoc: "and_then (and_then r f) g = and_then r (\<lambda>x. and_then (f x) g)"
  by (cases r) auto

lemma and_then_cong [fundef_cong]:
  "r = r' \<Longrightarrow> (\<And>x. r' = Inr x \<Longrightarrow> f x = f' x) \<Longrightarrow> and_then r f = and_then r' f'"
  by (cases r') auto

lemma assert_that_simps [simp, outcome_simps]:
  "assert_that True msg = Inr ()" "assert_that False msg = Inl (Panic msg)"
  by (simp_all add: assert_that_def)

lemma ensure_that_simps [simp, outcome_simps]:
  "ensure_that True msg = Inr ()" "ensure_that False msg = Inl (Fail msg)"
  by (simp_all add: ensure_that_def)

lemma assert_that_eq_Inr [simp]: "assert_that b msg = Inr u \<longleftrightarrow> b"
  by (simp add: assert_that_def)

lemma ensure_that_eq_Inr [simp]: "ensure_that b msg = Inr u \<longleftrightarrow> b"
  by (simp add: ensure_that_def)

lemma expect_simps [simp, outcome_simps]:
  "expect (Some x) msg = Inr x" "expect None msg = Inl (Panic msg)"
  by (simp_all add: expect_def)

lemma ok_or_simps [simp, outcome_simps]:
  "ok_or (Some x) msg = Inr x" "ok_or None msg = Inl (Fail msg)"
  by (simp_all add: ok_or_def)

lemma expect_eq_Inr [simp]: "expect x msg = Inr y \<longleftrightarrow> x = Some y"
  by (cases x) auto

lemma ok_or_eq_Inr [simp]: "ok_or x msg = Inr y \<longleftrightarrow> x = Some y"
  by (cases x) auto

lemma bind_act_simps [simp]:
  "m s = (Inl e, s') \<Longrightarrow> bind_act m f s = (Inl e, s')"
  "m s = (Inr x, s') \<Longrightarrow> bind_act m f s = f x s'"
  by (simp_all add: bind_act_def)

lemma return_act_bind [simp]: "bind_act (return_act x) f s = f x s"
  by (simp add: return_act_def)

lemma get_act_bind [simp]: "bind_act (get_act g) f s = f (g s) s"
  by (simp add: get_act_def)

lemma modify_act_bind [simp]: "bind_act (modify_act g) f s = f () (g s)"
  by (simp add: modify_act_def)

lemma lift_act_bind [simp]:
  "bind_act (lift_act (Inr x)) f s = f x s" "bind_act (lift_act (Inl e)) f s = (Inl e, s)"
  by (simp_all add: lift_act_def)

lemma act_apply [simp]: "return_act x s = (Inr x, s)" "lift_act r s = (r, s)"
  "get_act g s = (Inr (g s), s)" "modify_act h s = (Inr (), h s)"
  by (simp_all add: return_act_def lift_act_def get_act_def modify_act_def)

lemma bind_act_eq_Inr:
  "bind_act m f s = (Inr y, s'') \<longleftrightarrow> (\<exists>x s'. m s = (Inr x, s') \<and> f x s' = (Inr y, s''))"
  by (auto simp: bind_act_def split: prod.splits sum.splits)

text \<open>Mapping an action that keeps an invariant of the state and returns a known value.\<close>

lemma try_map_act_eq_map:
  assumes "P s" and "\<And>x u. x \<in> set xs \<Longrightarrow> P u \<Longrightarrow> \<exists>u'. f x u = (Inr (g x), u') \<and> P u'"
  shows "\<exists>s'. try_map_act f xs s = (Inr (map g xs), s') \<and> P s'"
  using assms
proof (induction xs arbitrary: s)
  case (Cons x xs)
  from Cons.prems obtain u where u: "f x s = (Inr (g x), u)" and "P u" by fastforce
  with Cons.IH [of u] Cons.prems(2)
  obtain s' where "try_map_act f xs u = (Inr (map g xs), s')" and "P s'" by force
  with u show ?case by simp
qed simp

lemma try_map_act_map: "try_map_act f (map g xs) = try_map_act (f \<circ> g) xs"
  by (induction xs) simp_all

lemma vec_pop_snoc [simp]: "vec_pop (xs @ [x]) = Some (x, xs)"
  by (simp add: vec_pop_def)

lemma vec_pop_Nil [simp]: "vec_pop [] = None"
  by (simp add: vec_pop_def)

lemma vec_pop_length [termination_simp]: "vec_pop xs = Some (x, ys) \<Longrightarrow> length ys < length xs"
  by (auto simp: vec_pop_def split: if_splits)

lemma try_map_eq_map:
  "(\<And>x. x \<in> set xs \<Longrightarrow> f x = Inr (g x)) \<Longrightarrow> try_map f xs = Inr (map g xs)"
  by (induction xs) auto

lemma try_map_map: "try_map f (map g xs) = try_map (f \<circ> g) xs"
  by (induction xs) auto

lemma try_map_append:
  "try_map f (xs @ ys) =
     and_then (try_map f xs) (\<lambda>us. and_then (try_map f ys) (\<lambda>vs. Inr (us @ vs)))"
  by (induction xs) (auto simp: and_then_assoc)

lemma try_fold_append:
  "try_fold f s (xs @ ys) = and_then (try_fold f s xs) (\<lambda>s'. try_fold f s' ys)"
  by (induction xs arbitrary: s) (auto simp: and_then_assoc)

lemma try_fold_invariant:
  assumes "try_fold f s xs = Inr s'" and "P s"
    and "\<And>u v x. P u \<Longrightarrow> x \<in> set xs \<Longrightarrow> f u x = Inr v \<Longrightarrow> P v"
  shows "P s'"
  using assms
proof (induction xs arbitrary: s)
  case Nil
  then show ?case by simp
next
  case (Cons x xs)
  from Cons.prems(1) obtain u where u: "f s x = Inr u" and r: "try_fold f u xs = Inr s'"
    by auto
  have "P u" using Cons.prems(3) [OF Cons.prems(2) _ u] by simp
  with r show ?case
  proof (rule Cons.IH)
    show "P v" if "P u'" and "y \<in> set xs" and "f u' y = Inr v" for u' v y
      using Cons.prems(3) [OF that(1) _ that(3)] that(2) by simp
  qed
qed

lemma length_takeWhile_ge_iff:
  "n \<le> length xs \<Longrightarrow> n \<le> length (takeWhile P xs) \<longleftrightarrow> (\<forall>i < n. P (xs ! i))"
proof (induction xs arbitrary: n)
  case (Cons x xs)
  then show ?case by (cases n) (auto simp: All_less_Suc2)
qed simp

section \<open>Bit-counting lemmas\<close>

lemma length_takeWhile_Not_eqI:
  assumes "n < length xs" and "xs ! n" and "\<And>m. m < n \<Longrightarrow> \<not> xs ! m"
  shows "length (takeWhile Not xs) = n"
proof -
  have "takeWhile Not xs = take n xs"
    using assms by (intro takeWhile_eq_take_P_nth) auto
  with assms show ?thesis by simp
qed

lemma trailing_zeros_eqI:
  fixes w :: "'a::len word"
  assumes "bit w n" and "\<And>m. m < n \<Longrightarrow> \<not> bit w m"
  shows "trailing_zeros w = n"
proof -
  have "n < LENGTH('a)" using assms(1) by (rule bit_imp_le_length)
  with assms show ?thesis
    unfolding trailing_zeros_def by (intro length_takeWhile_Not_eqI) auto
qed

lemma trailing_zeros_0 [simp]: "trailing_zeros (0 :: 'a::len word) = LENGTH('a)"
proof -
  have "takeWhile Not (map (bit (0 :: 'a word)) [0..<LENGTH('a)]) =
      map (bit (0 :: 'a word)) [0..<LENGTH('a)]"
    by (subst takeWhile_eq_all_conv) auto
  then show ?thesis by (simp only: trailing_zeros_def length_map length_upt)
qed

lemma trailing_zeros_props:
  fixes w :: "'a::len word"
  assumes "w \<noteq> 0"
  shows bit_trailing_zeros: "bit w (trailing_zeros w)"
    and not_bit_below_trailing_zeros: "m < trailing_zeros w \<Longrightarrow> \<not> bit w m"
proof -
  from assms obtain k where k: "bit w k" by (auto simp: bit_eq_iff)
  define n where "n = (LEAST k. bit w k)"
  have n: "bit w n" unfolding n_def using k by (rule LeastI)
  have less: "\<not> bit w m" if "m < n" for m
    using that not_less_Least unfolding n_def by blast
  have "trailing_zeros w = n" using n less by (rule trailing_zeros_eqI)
  with n less show "bit w (trailing_zeros w)" and "m < trailing_zeros w \<Longrightarrow> \<not> bit w m"
    by auto
qed

lemma trailing_zeros_le: "trailing_zeros (w :: 'a::len word) \<le> LENGTH('a)"
  unfolding trailing_zeros_def by (rule order_trans [OF length_takeWhile_le]) simp

lemma trailing_zeros_less:
  "w \<noteq> 0 \<Longrightarrow> trailing_zeros (w :: 'a::len word) < LENGTH('a)"
  by (rule bit_imp_le_length) (rule bit_trailing_zeros)

lemma leading_zeros_eqI:
  fixes w :: "'a::len word"
  assumes "bit w n" and "\<And>m. n < m \<Longrightarrow> \<not> bit w m"
  shows "leading_zeros w = LENGTH('a) - 1 - n"
proof -
  have n: "n < LENGTH('a)" using assms(1) by (rule bit_imp_le_length)
  show ?thesis
    unfolding leading_zeros_def
  proof (rule length_takeWhile_Not_eqI)
    show "LENGTH('a) - 1 - n < length (map (bit w) (rev [0..<LENGTH('a)]))"
      using n by simp
    show "map (bit w) (rev [0..<LENGTH('a)]) ! (LENGTH('a) - 1 - n)"
      using n assms(1) by (simp add: rev_nth)
    show "\<not> map (bit w) (rev [0..<LENGTH('a)]) ! m" if "m < LENGTH('a) - 1 - n" for m
      using that n assms(2) by (simp add: rev_nth)
  qed
qed

lemma leading_zeros_0 [simp]: "leading_zeros (0 :: 'a::len word) = LENGTH('a)"
proof -
  have "takeWhile Not (map (bit (0 :: 'a word)) (rev [0..<LENGTH('a)])) =
      map (bit (0 :: 'a word)) (rev [0..<LENGTH('a)])"
    by (subst takeWhile_eq_all_conv) auto
  then show ?thesis by (simp only: leading_zeros_def length_map length_rev length_upt)
qed

section \<open>Word and arithmetic lemmas\<close>

lemma bit_unat_iff: "bit (unat w) n \<longleftrightarrow> bit w n" for w :: "'a::len word"
  by (simp add: bit_unsigned_iff)

lemma bit_word_of_nat_iff:
  "bit (word_of_nat k :: 'a::len word) n \<longleftrightarrow> n < LENGTH('a) \<and> bit k n"
  by (simp add: bit_of_nat_iff possible_bit_word)

lemma word_eq_iff_unat: "a = b \<longleftrightarrow> unat a = unat b" for a b :: "'a::len word"
  by (rule word_unat_eq_iff)

lemma bit_nat_iff_odd_div: "bit (n :: nat) k \<longleftrightarrow> odd (n div 2 ^ k)"
  by (simp add: bit_iff_odd)

lemma unat_drop_bit: "unat (drop_bit n w) = unat w div 2 ^ n" for w :: "'a::len word"
  by (metis drop_bit_eq_div unat_drop_bit_eq)

lemma bit_less_exp_nat: "(r :: nat) < 2 ^ k \<Longrightarrow> bit r n \<Longrightarrow> n < k"
proof (rule ccontr)
  assume r: "r < 2 ^ k" and b: "bit r n" and "\<not> n < k"
  then have "(2 :: nat) ^ k \<le> 2 ^ n" by (intro power_increasing) auto
  with r have "r < 2 ^ n" by (rule less_le_trans)
  then have "r div 2 ^ n = 0" by simp
  with b show False by (simp add: bit_iff_odd)
qed

end
