(* ===== verification/Node_Index.thy ===== *)
theory Node_Index
  imports Rooch_Prelude
begin

text \<open>
  The in-order numbering of the accumulator's binary tree
  (\<^verbatim>\<open>moveos-commons/accumulator/src/node_index.rs\<close>). A node index is a \<^verbatim>\<open>u64\<close> whose
  trailing ones give the level of the node; the operations of the source are bit tricks on
  that word. The second half relates each of them to the abstract coordinates
  (level, position on the level), which the accumulator theories use.
\<close>

section \<open>The operations of the source\<close>

type_synonym NodeIndex = u64
type_synonym LeafCount = u64

datatype NodeDirection = Left | Right

definition MAX_ACCUMULATOR_PROOF_DEPTH :: nat where
  "MAX_ACCUMULATOR_PROOF_DEPTH = 63"

definition MAX_ACCUMULATOR_LEAVES :: LeafCount where
  "MAX_ACCUMULATOR_LEAVES = push_bit MAX_ACCUMULATOR_PROOF_DEPTH 1"

definition smear_ones_for_u64 :: "u64 \<Rightarrow> u64" where
  "smear_ones_for_u64 v =
     (let n = v;
          n = n OR drop_bit 1 n;
          n = n OR drop_bit 2 n;
          n = n OR drop_bit 4 n;
          n = n OR drop_bit 8 n;
          n = n OR drop_bit 16 n;
          n = n OR drop_bit 32 n
      in n)"

definition isolate_rightmost_zero_bit :: "u64 \<Rightarrow> u64" where
  "isolate_rightmost_zero_bit v = NOT v AND (v + 1)"

definition turn_off_right_most_n_bits :: "u64 \<Rightarrow> nat \<Rightarrow> u64 result" where
  "turn_off_right_most_n_bits v n =
     and_then (checked_shr v n) (\<lambda>w. checked_shl w n)"

definition level :: "NodeIndex \<Rightarrow> nat" where
  "level x = trailing_zeros (NOT x)"

definition from_level_and_pos :: "nat \<Rightarrow> u64 \<Rightarrow> NodeIndex result" where
  "from_level_and_pos lv pos =
     and_then (checked_shl 1 lv) (\<lambda>one.
     and_then (checked_sub one 1) (\<lambda>level_one_bits.
     and_then (checked_shl pos (lv + 1)) (\<lambda>shifted_pos.
     Inr (shifted_pos OR level_one_bits))))"

definition from_leaf_index :: "u64 \<Rightarrow> NodeIndex result" where
  "from_leaf_index leaf_index = from_level_and_pos 0 leaf_index"

definition from_inorder_index :: "u64 \<Rightarrow> NodeIndex" where
  "from_inorder_index index = index"

definition to_inorder_index :: "NodeIndex \<Rightarrow> u64" where
  "to_inorder_index x = x"

definition G_NODE_ERROR_INDEX :: NodeIndex where
  "G_NODE_ERROR_INDEX = from_inorder_index (- 1)"

definition is_leaf :: "NodeIndex \<Rightarrow> bool" where
  "is_leaf x \<longleftrightarrow> x AND 1 = 0"

definition to_leaf_index :: "NodeIndex \<Rightarrow> u64 option" where
  "to_leaf_index x = (if level x \<noteq> 0 then None else Some (drop_bit 1 x))"

definition root_from_leaf_index :: "u64 \<Rightarrow> NodeIndex result" where
  "root_from_leaf_index leaf_index =
     and_then (from_leaf_index leaf_index) (\<lambda>leaf.
     Inr (drop_bit 1 (smear_ones_for_u64 leaf)))"

definition root_from_leaf_count :: "LeafCount \<Rightarrow> NodeIndex result" where
  "root_from_leaf_count leaf_count =
     and_then (assert_that (leaf_count > 0) ''assertion failed: leaf_count > 0'') (\<lambda>_.
     root_from_leaf_index (leaf_count - 1))"

definition root_level_from_leaf_count :: "LeafCount \<Rightarrow> nat result" where
  "root_level_from_leaf_count leaf_count =
     and_then (assert_that (leaf_count > 0) ''assertion failed: leaf_count > 0'') (\<lambda>_.
     let index = leaf_count - 1
     in Inr (MAX_ACCUMULATOR_PROOF_DEPTH + 1 - leading_zeros index))"

definition left_most_child :: "NodeIndex \<Rightarrow> NodeIndex result" where
  "left_most_child x = turn_off_right_most_n_bits x (level x)"

definition right_most_child :: "NodeIndex \<Rightarrow> NodeIndex result" where
  "right_most_child x =
     and_then (checked_shl 1 (level x)) (\<lambda>w.
     and_then (checked_add x w) (\<lambda>y. checked_sub y 1))"

definition is_freezable :: "NodeIndex \<Rightarrow> u64 \<Rightarrow> bool result" where
  "is_freezable x leaf_index =
     and_then (from_leaf_index leaf_index) (\<lambda>leaf.
     and_then (right_most_child x) (\<lambda>r. Inr (r \<le> leaf)))"

definition is_placeholder :: "NodeIndex \<Rightarrow> u64 \<Rightarrow> bool result" where
  "is_placeholder x leaf_index =
     and_then (from_leaf_index leaf_index) (\<lambda>leaf.
     if x \<le> leaf then Inr False
     else and_then (left_most_child x) (\<lambda>l. if l \<le> leaf then Inr False else Inr True))"

definition parent :: "NodeIndex \<Rightarrow> NodeIndex" where
  "parent x =
     (x OR isolate_rightmost_zero_bit x) AND NOT (push_bit 1 (isolate_rightmost_zero_bit x))"

text \<open>\<^verbatim>\<open>checked_precondition!\<close> asserts in every build.\<close>

definition child :: "NodeIndex \<Rightarrow> NodeDirection \<Rightarrow> NodeIndex result" where
  "child x dir =
     and_then (assert_that (\<not> is_leaf x) ''assertion failed: !self.is_leaf()'') (\<lambda>_.
     let direction_bit =
           (case dir of Left \<Rightarrow> 0 | Right \<Rightarrow> isolate_rightmost_zero_bit x)
     in Inr ((x OR direction_bit) AND NOT (drop_bit 1 (isolate_rightmost_zero_bit x))))"

definition left_child :: "NodeIndex \<Rightarrow> NodeIndex result" where
  "left_child x = and_then (assert_that (\<not> is_leaf x) ''assertion failed: !self.is_leaf()'') (\<lambda>_. child x Left)"

definition right_child :: "NodeIndex \<Rightarrow> NodeIndex result" where
  "right_child x = and_then (assert_that (\<not> is_leaf x) ''assertion failed: !self.is_leaf()'') (\<lambda>_. child x Right)"

definition sibling :: "NodeIndex \<Rightarrow> NodeIndex" where
  "sibling x = x XOR push_bit 1 (isolate_rightmost_zero_bit x)"

definition is_left_child :: "NodeIndex \<Rightarrow> bool" where
  "is_left_child x \<longleftrightarrow> x AND push_bit 1 (isolate_rightmost_zero_bit x) = 0"

definition is_right_child :: "NodeIndex \<Rightarrow> bool" where
  "is_right_child x \<longleftrightarrow> \<not> is_left_child x"

text \<open>
  \<^verbatim>\<open>iter_ancestor_sibling().take(n)\<close>: the iterator's state is the current node; each
  \<^verbatim>\<open>next\<close> yields the sibling and moves to the parent.
\<close>

fun ancestor_siblings :: "nat \<Rightarrow> NodeIndex \<Rightarrow> NodeIndex list" where
  "ancestor_siblings 0 x = []"
| "ancestor_siblings (Suc n) x = sibling x # ancestor_siblings n (parent x)"

section \<open>Iterators over frozen subtrees\<close>

record FrozenSubTreeIterator =
  bitmap :: u64
  seen_leaves :: u64

definition frozen_iter_new :: "LeafCount \<Rightarrow> FrozenSubTreeIterator" where
  "frozen_iter_new num_leaves = \<lparr>bitmap = num_leaves, seen_leaves = 0\<rparr>"

definition frozen_iter_next ::
    "FrozenSubTreeIterator \<Rightarrow> (NodeIndex option \<times> FrozenSubTreeIterator) result" where
  "frozen_iter_next it =
     (if bitmap it = 0 then Inr (None, it)
      else
        let root_offset = drop_bit 1 (smear_ones_for_u64 (bitmap it)) in
        and_then (checked_add root_offset 1) (\<lambda>num_leaves.
        and_then (from_leaf_index (seen_leaves it)) (\<lambda>leftmost_leaf.
        and_then (checked_add (to_inorder_index leftmost_leaf) root_offset) (\<lambda>root.
        and_then (checked_add (seen_leaves it) num_leaves) (\<lambda>seen.
        Inr (Some (from_inorder_index root),
             it\<lparr>bitmap := bitmap it AND NOT num_leaves, seen_leaves := seen\<rparr>))))))"

text \<open>
  Draining the iterator. Each \<^verbatim>\<open>next\<close> clears one bit of the bitmap, so 65 calls (64 bits and
  the final \<^verbatim>\<open>None\<close>) always reach the end.
\<close>

fun frozen_iter_collect :: "nat \<Rightarrow> FrozenSubTreeIterator \<Rightarrow> NodeIndex list result" where
  "frozen_iter_collect 0 it = Inl (Panic ''iterator fuel exhausted'')"
| "frozen_iter_collect (Suc fuel) it =
     and_then (frozen_iter_next it) (\<lambda>(x, it').
       case x of None \<Rightarrow> Inr []
       | Some r \<Rightarrow> and_then (frozen_iter_collect fuel it') (\<lambda>rs. Inr (r # rs)))"

definition frozen_subtrees :: "LeafCount \<Rightarrow> NodeIndex list result" where
  "frozen_subtrees num_leaves = frozen_iter_collect 65 (frozen_iter_new num_leaves)"

record FrozenSubtreeSiblingIterator =
  current_num_leaves :: LeafCount
  remaining_new_leaves :: LeafCount

definition sibling_iter_new ::
    "LeafCount \<Rightarrow> LeafCount \<Rightarrow> FrozenSubtreeSiblingIterator result" where
  "sibling_iter_new cur new =
     and_then (assert_that (new \<le> MAX_ACCUMULATOR_LEAVES)
                 ''An accumulator can have at most 2^63 leaves'') (\<lambda>_.
     and_then (assert_that (cur \<le> new) ''Number of leaves needs to be increasing'') (\<lambda>_.
     Inr \<lparr>current_num_leaves = cur, remaining_new_leaves = new - cur\<rparr>))"

text \<open>
  Called only with a non-zero number of remaining leaves, so that
  \<^verbatim>\<open>MAX_ACCUMULATOR_PROOF_DEPTH - zeros\<close> does not underflow; an underflow is a panic.
\<close>

definition next_new_leaf_batch :: "FrozenSubtreeSiblingIterator \<Rightarrow> LeafCount result" where
  "next_new_leaf_batch it =
     (let zeros = leading_zeros (remaining_new_leaves it)
      in if zeros \<le> MAX_ACCUMULATOR_PROOF_DEPTH
         then checked_shl 1 (MAX_ACCUMULATOR_PROOF_DEPTH - zeros)
         else Inl (Panic ''attempt to subtract with overflow''))"

definition sibling_iter_next ::
    "FrozenSubtreeSiblingIterator \<Rightarrow> (NodeIndex option \<times> FrozenSubtreeSiblingIterator) result" where
  "sibling_iter_next it =
     (if remaining_new_leaves it = 0 then Inr (None, it)
      else
        and_then
          (if current_num_leaves it > 0
           then and_then (checked_shl 1 (trailing_zeros (current_num_leaves it))) (\<lambda>rightmost.
                  if remaining_new_leaves it \<ge> rightmost then Inr rightmost
                  else next_new_leaf_batch it)
           else next_new_leaf_batch it) (\<lambda>next_subtree_leaves.
        let first_leaf_index = current_num_leaves it in
        and_then (checked_add first_leaf_index next_subtree_leaves) (\<lambda>end_leaf.
        and_then (checked_sub end_leaf 1) (\<lambda>last_leaf_index.
        and_then (checked_sub (remaining_new_leaves it) next_subtree_leaves) (\<lambda>rem.
        and_then (checked_add first_leaf_index last_leaf_index) (\<lambda>root.
        Inr (Some (from_inorder_index root),
             \<lparr>current_num_leaves = end_leaf, remaining_new_leaves = rem\<rparr>)))))))"

text \<open>Draining the iterator; every \<^verbatim>\<open>next\<close> takes at least one leaf off the remaining ones.\<close>

fun sibling_iter_collect :: "nat \<Rightarrow> FrozenSubtreeSiblingIterator \<Rightarrow> NodeIndex list result" where
  "sibling_iter_collect 0 it = Inl (Panic ''iterator fuel exhausted'')"
| "sibling_iter_collect (Suc fuel) it =
     and_then (sibling_iter_next it) (\<lambda>(x, it').
       case x of None \<Rightarrow> Inr []
       | Some r \<Rightarrow> and_then (sibling_iter_collect fuel it') (\<lambda>rs. Inr (r # rs)))"

section \<open>Abstract coordinates\<close>

text \<open>
  \<open>node_at l p\<close> is the in-order index of the \<open>p\<close>-th node of level \<open>l\<close>; it is
  representable exactly when \<open>valid_pos l p\<close>.
\<close>

definition node_at :: "nat \<Rightarrow> nat \<Rightarrow> NodeIndex" where
  "node_at l p = word_of_nat (p * 2 ^ Suc l + (2 ^ l - 1))"

definition valid_pos :: "nat \<Rightarrow> nat \<Rightarrow> bool" where
  "valid_pos l p \<longleftrightarrow> l \<le> 63 \<and> p < 2 ^ (63 - l)"

text \<open>Number of bits of a number, and the height of a tree with \<open>n\<close> leaves.\<close>

fun bit_width :: "nat \<Rightarrow> nat" where
  "bit_width n = (if n = 0 then 0 else Suc (bit_width (n div 2)))"

declare bit_width.simps [simp del]

definition tree_height :: "nat \<Rightarrow> nat" where
  "tree_height n = bit_width (n - 1)"

subsection \<open>Bits of sums\<close>

lemma bit_mult_exp_add_nat:
  fixes p r :: nat
  assumes "r < 2 ^ k"
  shows "bit (p * 2 ^ k + r) n \<longleftrightarrow> (if n < k then bit r n else bit p (n - k))"
proof -
  have "push_bit k p + r = push_bit k p OR r"
    by (rule disjunctive_add) (auto simp: bit_push_bit_iff dest: bit_less_exp_nat [OF assms])
  moreover have "p * 2 ^ k + r = push_bit k p + r" by (simp add: push_bit_eq_mult)
  ultimately show ?thesis
    using bit_less_exp_nat [OF assms] by (auto simp: bit_or_iff bit_push_bit_iff)
qed

lemma bit_exp_minus_1_nat: "bit (2 ^ l - Suc 0) n \<longleftrightarrow> n < l"
proof -
  have "(2 :: nat) ^ l - Suc 0 = mask l" by (simp add: mask_eq_exp_minus_1)
  then show ?thesis by (simp add: bit_mask_iff)
qed

lemma bit_node_at:
  "bit (node_at l p) n \<longleftrightarrow> n < 64 \<and> (n < l \<or> l < n \<and> bit p (n - Suc l))"
proof -
  have less: "(2 :: nat) ^ l - 1 < 2 ^ Suc l" by (simp add: less_imp_diff_less)
  show ?thesis
    unfolding node_at_def bit_word_of_nat_iff bit_mult_exp_add_nat [OF less]
    using bit_exp_minus_1_nat [of l n] by auto
qed

lemma valid_pos_bound:
  assumes "valid_pos l p"
  shows "p * 2 ^ Suc l + 2 ^ Suc l \<le> 2 ^ 64"
proof -
  have l: "l \<le> 63" and p: "Suc p \<le> 2 ^ (63 - l)" using assms by (auto simp: valid_pos_def)
  have "p * 2 ^ Suc l + 2 ^ Suc l = Suc p * 2 ^ Suc l" by simp
  also have "\<dots> \<le> 2 ^ (63 - l) * 2 ^ Suc l" using p by (rule mult_le_mono1)
  also have "\<dots> = 2 ^ (63 - l + Suc l)" by (simp only: power_add)
  also have "63 - l + Suc l = 64" using l by simp
  finally show ?thesis .
qed

lemma unat_node_at:
  assumes "valid_pos l p"
  shows "unat (node_at l p) = p * 2 ^ Suc l + (2 ^ l - 1)"
proof -
  have "p * 2 ^ Suc l + (2 ^ l - 1) < 2 ^ LENGTH(64)"
    using valid_pos_bound [OF assms] zero_less_power [of "2 :: nat" l] by simp
  then show ?thesis by (simp only: node_at_def unat_of_nat mod_less)
qed

lemma valid_pos_Suc: "valid_pos l p \<Longrightarrow> l < 63 \<Longrightarrow> valid_pos (Suc l) (p div 2)"
proof -
  assume v: "valid_pos l p" and l: "l < 63"
  then have "63 - l = Suc (63 - Suc l)" by simp
  with v have "p < 2 * 2 ^ (63 - Suc l)" by (simp add: valid_pos_def)
  with l show ?thesis by (simp add: valid_pos_def less_mult_imp_div_less mult.commute)
qed

lemma valid_pos_child:
  assumes "valid_pos (Suc l) p" and "q \<le> 2 * p + 1"
  shows "valid_pos l q"
proof -
  from assms(1) have l: "Suc l \<le> 63" and p: "p < 2 ^ (63 - Suc l)" by (auto simp: valid_pos_def)
  then have "63 - l = Suc (63 - Suc l)" by simp
  with p assms(2) have "q < 2 ^ (63 - l)" by simp
  with l show ?thesis by (simp add: valid_pos_def)
qed

subsection \<open>The bit tricks in coordinates\<close>

text \<open>
  Every lemma of this group reads one operation of the source on \<open>node_at l p\<close>. They are
  collected in \<open>node_laws\<close>.
\<close>

text \<open>A word with exactly one bit set; opaque, so that the proofs below stay bitwise.\<close>

definition one_bit :: "nat \<Rightarrow> u64" where
  "one_bit l = push_bit l 1"

lemma bit_one_bit: "bit (one_bit l) n \<longleftrightarrow> n < 64 \<and> n = l"
  by (auto simp: one_bit_def bit_exp_iff)

lemma push_one_bit [simp]: "one_bit l * 2 = one_bit (Suc l)"
  by (simp add: one_bit_def)

lemma drop_one_bit [simp]: "Suc l < 64 \<Longrightarrow> drop_bit (Suc 0) (one_bit (Suc l)) = one_bit l"
  by (rule bit_eqI) (auto simp: bit_drop_bit_eq bit_one_bit)

named_theorems node_laws \<open>the node index operations in (level, position) coordinates\<close>

lemma level_node_at [node_laws]: "l \<le> 63 \<Longrightarrow> level (node_at l p) = l"
  unfolding level_def by (rule trailing_zeros_eqI) (auto simp: bit_not_iff bit_node_at)

lemma node_at_plus_1:
  "l \<le> 63 \<Longrightarrow>
   bit (node_at l p + 1) n \<longleftrightarrow> n < 64 \<and> (n = l \<or> l < n \<and> bit p (n - Suc l))"
proof -
  assume l: "l \<le> 63"
  have "node_at l p + 1 = word_of_nat (p * 2 ^ Suc l + (2 ^ l - 1) + 1)"
    by (simp only: node_at_def of_nat_add of_nat_1)
  also have "p * 2 ^ Suc l + (2 ^ l - 1) + 1 = p * 2 ^ Suc l + 2 ^ l"
    using zero_less_power [of "2 :: nat" l] by simp
  finally have eq: "node_at l p + 1 = word_of_nat (p * 2 ^ Suc l + 2 ^ l)" .
  have less: "(2 :: nat) ^ l < 2 ^ Suc l" by simp
  show ?thesis
    unfolding eq bit_word_of_nat_iff bit_mult_exp_add_nat [OF less]
    using l by (auto simp: bit_exp_iff)
qed

lemma isolate_node_at [node_laws]:
  assumes "l \<le> 63"
  shows "isolate_rightmost_zero_bit (node_at l p) = one_bit l"
proof (rule bit_eqI)
  fix n
  show "bit (isolate_rightmost_zero_bit (node_at l p)) n \<longleftrightarrow> bit (one_bit l) n"
    using assms
    by (auto simp: isolate_rightmost_zero_bit_def bit_and_iff bit_not_iff bit_node_at
        node_at_plus_1 bit_one_bit)
qed

lemma is_leaf_node_at [node_laws]: "l \<le> 63 \<Longrightarrow> is_leaf (node_at l p) \<longleftrightarrow> l = 0"
proof -
  have "is_leaf x \<longleftrightarrow> \<not> bit x 0" for x :: u64
    unfolding is_leaf_def bit_eq_iff [of "x AND 1" 0]
    by (auto simp: bit_and_iff bit_1_iff intro: gr0I dest: spec [of _ 0])
  then show ?thesis by (simp add: bit_node_at)
qed

lemma to_leaf_index_node_at [node_laws]:
  assumes "valid_pos l p"
  shows "to_leaf_index (node_at l p) = (if l = 0 then Some (word_of_nat p) else None)"
proof (cases "l = 0")
  case True
  have "drop_bit 1 (node_at 0 p) = word_of_nat p"
  proof (rule bit_eqI)
    fix n
    have "bit p n \<Longrightarrow> n < 63"
      using assms True bit_less_exp_nat [of p 63 n] by (simp add: valid_pos_def)
    then show "bit (drop_bit 1 (node_at 0 p)) n \<longleftrightarrow> bit (word_of_nat p :: u64) n"
      by (auto simp: bit_drop_bit_eq bit_node_at bit_word_of_nat_iff)
  qed
  with True show ?thesis by (simp add: to_leaf_index_def level_node_at)
next
  case False
  with assms show ?thesis by (simp add: to_leaf_index_def level_node_at valid_pos_def)
qed

lemma bit_half_nat: "bit (p div 2 :: nat) n \<longleftrightarrow> bit p (Suc n)"
  by (simp add: bit_Suc)

lemma parent_node_at [node_laws]:
  assumes "l < 63"
  shows "parent (node_at l p) = node_at (Suc l) (p div 2)"
proof (rule bit_eqI)
  fix n
  have "n - Suc l = Suc (n - Suc (Suc l))" if "Suc l < n" using that by simp
  then show "bit (parent (node_at l p)) n \<longleftrightarrow> bit (node_at (Suc l) (p div 2)) n"
    using assms
    by (auto simp: parent_def isolate_node_at bit_and_iff bit_or_iff bit_not_iff bit_node_at
        bit_one_bit bit_half_nat less_Suc_eq)
qed

lemma left_child_node_at [node_laws]:
  assumes "Suc l \<le> 63"
  shows "left_child (node_at (Suc l) p) = Inr (node_at l (2 * p))"
proof -
  let ?x = "node_at (Suc l) p :: u64"
  have "?x AND NOT (drop_bit 1 (isolate_rightmost_zero_bit ?x)) = node_at l (2 * p)"
  proof (rule bit_eqI)
  fix n
  have "bit (2 * p) (n - Suc l) \<longleftrightarrow> Suc l < n \<and> bit p (n - Suc (Suc l))" if "l < n"
  proof -
    from that obtain m where m: "n = Suc l + m" using less_imp_Suc_add by auto
    show ?thesis unfolding m by (cases m) (auto simp: bit_0 bit_Suc)
  qed
  then show "bit (?x AND NOT (drop_bit 1 (isolate_rightmost_zero_bit ?x))) n \<longleftrightarrow> bit (node_at l (2 * p)) n"
    using assms
    by (auto simp: isolate_node_at bit_and_iff bit_not_iff bit_node_at bit_one_bit less_Suc_eq)
  qed
  then show ?thesis using assms by (simp add: left_child_def child_def is_leaf_node_at assert_that_def)
qed

lemma right_child_node_at [node_laws]:
  assumes "Suc l \<le> 63"
  shows "right_child (node_at (Suc l) p) = Inr (node_at l (2 * p + 1))"
proof -
  let ?x = "node_at (Suc l) p :: u64"
  have "(?x OR isolate_rightmost_zero_bit ?x) AND NOT (drop_bit 1 (isolate_rightmost_zero_bit ?x)) = node_at l (2 * p + 1)"
  proof (rule bit_eqI)
  fix n
  have "bit (2 * p + 1) (n - Suc l) \<longleftrightarrow> n = Suc l \<or> Suc l < n \<and> bit p (n - Suc (Suc l))"
    if "l < n"
  proof -
    from that obtain m where m: "n = Suc l + m" using less_imp_Suc_add by auto
    show ?thesis unfolding m by (cases m) (auto simp: bit_0 bit_Suc)
  qed
  then show "bit ((?x OR isolate_rightmost_zero_bit ?x) AND NOT (drop_bit 1 (isolate_rightmost_zero_bit ?x))) n \<longleftrightarrow>
      bit (node_at l (2 * p + 1)) n"
    using assms
    by (auto simp: isolate_node_at bit_and_iff bit_or_iff bit_not_iff bit_node_at bit_one_bit less_Suc_eq)
  qed
  then show ?thesis using assms by (simp add: right_child_def child_def is_leaf_node_at assert_that_def)
qed

text \<open>The position of the sibling on its level.\<close>

definition sibling_pos :: "nat \<Rightarrow> nat" where
  "sibling_pos p = (if even p then p + 1 else p - 1)"

lemma bit_sibling_pos: "bit (sibling_pos p) n \<longleftrightarrow> (if n = 0 then even p else bit p n)"
proof (cases n)
  case 0
  then show ?thesis by (auto simp: sibling_pos_def bit_0)
next
  case (Suc m)
  have "sibling_pos p div 2 = p div 2" by (auto simp: sibling_pos_def elim!: oddE)
  with Suc show ?thesis by (simp add: bit_Suc)
qed

lemma sibling_pos_div2 [simp]: "sibling_pos p div 2 = p div 2"
  by (auto simp: sibling_pos_def elim!: oddE)

lemma sibling_node_at [node_laws]:
  assumes "l < 63"
  shows "sibling (node_at l p) = node_at l (sibling_pos p)"
proof (rule bit_eqI)
  fix n
  have "bit p (n - Suc l) \<longleftrightarrow> odd p" if "n = Suc l" using that by (simp add: bit_0)
  then show "bit (sibling (node_at l p)) n \<longleftrightarrow> bit (node_at l (sibling_pos p)) n"
    using assms
    by (auto simp: sibling_def isolate_node_at bit_xor_iff bit_node_at bit_one_bit
        bit_sibling_pos less_Suc_eq)
qed

lemma is_left_child_node_at [node_laws]:
  assumes "l < 63"
  shows "is_left_child (node_at l p) \<longleftrightarrow> even p"
proof -
  have "is_left_child (node_at l p) \<longleftrightarrow> \<not> bit (node_at l p) (Suc l)"
    using assms
    unfolding is_left_child_def bit_eq_iff [of "node_at l p AND _" 0]
    by (auto simp: isolate_node_at bit_and_iff bit_one_bit dest: spec [of _ "Suc l"])
  with assms show ?thesis by (simp add: bit_node_at bit_0)
qed

lemma is_right_child_node_at [node_laws]:
  "l < 63 \<Longrightarrow> is_right_child (node_at l p) \<longleftrightarrow> odd p"
  by (simp add: is_right_child_def is_left_child_node_at)

subsection \<open>Leaves, subtree borders and roots\<close>

lemma from_leaf_index_eq: "from_leaf_index i = Inr (push_bit 1 i)"
  by (simp add: from_leaf_index_def from_level_and_pos_def checked_shl_def checked_sub_def)

lemma from_leaf_index_node_at [node_laws]:
  assumes "valid_pos 0 p"
  shows "from_leaf_index (word_of_nat p) = Inr (node_at 0 p)"
  by (simp add: from_leaf_index_eq node_at_def)

lemma from_leaf_index_unat:
  assumes "unat i < 2 ^ 63"
  shows "from_leaf_index i = Inr (node_at 0 (unat i))"
proof -
  from assms have "valid_pos 0 (unat i)" by (simp add: valid_pos_def)
  from from_leaf_index_node_at [OF this] show ?thesis by simp
qed

lemma one_less_exp64: "l \<le> 63 \<Longrightarrow> (2 :: nat) ^ l < 2 ^ 64"
  by (rule power_strict_increasing) auto

lemma unat_exp_64: "l \<le> 63 \<Longrightarrow> unat (2 ^ l :: u64) = 2 ^ l"
  using one_less_exp64 [of l] unat_of_nat [of "2 ^ l", where ?'a = 64] by simp

lemma valid_pos_right_most:
  assumes "valid_pos l p"
  shows "valid_pos 0 ((p + 1) * 2 ^ l - 1)"
proof -
  have "Suc p * 2 ^ Suc l \<le> 2 ^ 64" using valid_pos_bound [OF assms] by simp
  then have "Suc p * 2 ^ l \<le> 2 ^ 63" by simp
  moreover have "0 < Suc p * 2 ^ l" by simp
  ultimately have "Suc p * 2 ^ l - 1 < 2 ^ 63" by linarith
  then show ?thesis by (simp add: valid_pos_def)
qed

lemma valid_pos_left_most:
  assumes "valid_pos l p"
  shows "valid_pos 0 (p * 2 ^ l)"
proof -
  have "p * 2 ^ l < (p + 1) * 2 ^ l" by simp
  then have "p * 2 ^ l \<le> (p + 1) * 2 ^ l - 1" by linarith
  with valid_pos_right_most [OF assms] show ?thesis by (simp add: valid_pos_def)
qed

lemma right_most_child_node_at [node_laws]:
  assumes v: "valid_pos l p"
  shows "right_most_child (node_at l p) = Inr (node_at 0 ((p + 1) * 2 ^ l - 1))"
proof -
  have l: "l \<le> 63" using v by (simp add: valid_pos_def)
  have pos: "0 < (2 :: nat) ^ l" by simp
  define y where "y = node_at l p + 2 ^ l"
  have less: "unat (node_at l p) + 2 ^ l < 2 ^ 64"
    using valid_pos_bound [OF v] pos by (simp add: unat_node_at [OF v])
  then have y: "unat y = unat (node_at l p) + 2 ^ l"
    unfolding y_def by (subst unat_add_lem [THEN iffD1]) (simp_all add: unat_exp_64 [OF l])
  have y1: "unat (y - 1) = unat y - 1"
    using pos y by (intro unat_minus_one) (auto simp: word_eq_iff_unat)
  have "unat (y - 1) = unat (node_at 0 ((p + 1) * 2 ^ l - 1))"
    unfolding y1 y unat_node_at [OF v] unat_node_at [OF valid_pos_right_most [OF v]]
    using pos by (simp add: algebra_simps)
  moreover have "1 \<le> y" using y pos unfolding word_le_nat_alt unat_1 by linarith
  ultimately show ?thesis
    using l less y_def
    by (simp add: right_most_child_def level_node_at checked_shl_def checked_add_def
        checked_sub_def unat_exp_64 word_eq_iff_unat)
qed

lemma left_most_child_node_at [node_laws]:
  assumes v: "valid_pos l p"
  shows "left_most_child (node_at l p) = Inr (node_at 0 (p * 2 ^ l))"
proof -
  have l: "l \<le> 63" using v by (simp add: valid_pos_def)
  have "push_bit l (drop_bit l (node_at l p)) = node_at 0 (p * 2 ^ l)"
  proof (rule bit_eqI)
    fix n
    have "bit (p * 2 ^ l) (n - Suc 0) \<longleftrightarrow> l < n \<and> bit p (n - Suc l)" if "0 < n"
      using bit_mult_exp_add_nat [of 0 l p "n - Suc 0"] that by (auto simp: not_less)
    then show "bit (push_bit l (drop_bit l (node_at l p))) n \<longleftrightarrow> bit (node_at 0 (p * 2 ^ l)) n"
      by (auto simp: bit_push_bit_iff bit_drop_bit_eq bit_node_at)
  qed
  with l show ?thesis
    by (simp add: left_most_child_def turn_off_right_most_n_bits_def level_node_at
        checked_shl_def checked_shr_def)
qed

lemma node_at_0_le_iff:
  assumes "valid_pos 0 p" and "valid_pos 0 q"
  shows "node_at 0 p \<le> node_at 0 q \<longleftrightarrow> p \<le> q"
  using assms by (simp add: word_le_nat_alt unat_node_at)

lemma is_freezable_node_at [node_laws]:
  assumes v: "valid_pos l p" and i: "unat i < 2 ^ 63"
  shows "is_freezable (node_at l p) i = Inr ((p + 1) * 2 ^ l \<le> unat i + 1)"
proof -
  have "valid_pos 0 (unat i)" using i by (simp add: valid_pos_def)
  then have "node_at 0 ((p + 1) * 2 ^ l - 1) \<le> node_at 0 (unat i)
      \<longleftrightarrow> (p + 1) * 2 ^ l - 1 \<le> unat i"
    by (rule node_at_0_le_iff [OF valid_pos_right_most [OF v]])
  moreover have "(p + 1) * 2 ^ l - 1 \<le> unat i \<longleftrightarrow> (p + 1) * 2 ^ l \<le> unat i + 1" by linarith
  ultimately show ?thesis
    by (simp add: is_freezable_def from_leaf_index_unat [OF i] right_most_child_node_at [OF v])
qed

lemma is_placeholder_node_at [node_laws]:
  assumes v: "valid_pos l p" and i: "unat i < 2 ^ 63"
  shows "is_placeholder (node_at l p) i = Inr (unat i < p * 2 ^ l)"
proof -
  have vi: "valid_pos 0 (unat i)" using i by (simp add: valid_pos_def)
  have le: "node_at 0 (p * 2 ^ l) \<le> node_at 0 (unat i) \<longleftrightarrow> p * 2 ^ l \<le> unat i"
    by (rule node_at_0_le_iff [OF valid_pos_left_most [OF v] vi])
  have "p * 2 ^ l \<le> unat i" if "node_at l p \<le> node_at 0 (unat i)"
    using that by (simp add: word_le_nat_alt unat_node_at [OF v] unat_node_at [OF vi])
  with le show ?thesis
    by (auto simp: is_placeholder_def from_leaf_index_unat [OF i] left_most_child_node_at [OF v])
qed

lemma node_at_inject:
  assumes "valid_pos l p" and "valid_pos l' p'" and "node_at l p = node_at l' p'"
  shows "l = l' \<and> p = p'"
proof -
  have "level (node_at l p) = level (node_at l' p')" using assms(3) by simp
  with assms(1,2) have l: "l = l'" by (simp add: level_node_at valid_pos_def)
  moreover have "p * 2 ^ Suc l + (2 ^ l - 1) = p' * 2 ^ Suc l + (2 ^ l - 1)"
    using assms(3) l unat_node_at [OF assms(1)] unat_node_at [OF assms(2)] by metis
  then have "p * 2 ^ Suc l = p' * 2 ^ Suc l" by (simp only: add_right_cancel)
  then have "p = p'" by simp
  ultimately show ?thesis by simp
qed

text \<open>Every index but \<open>u64::MAX\<close> is the index of exactly one node.\<close>

lemma node_at_surj:
  fixes x :: NodeIndex
  assumes "x \<noteq> - 1"
  shows "\<exists>l p. valid_pos l p \<and> x = node_at l p"
proof -
  have nz: "NOT x \<noteq> 0"
  proof
    assume "NOT x = 0"
    then have "NOT (NOT x) = NOT 0" by simp
    with assms show False by simp
  qed
  define l where "l = level x"
  define p where "p = unat (drop_bit (Suc l) x)"
  have l: "l \<le> 63"
    using trailing_zeros_less [OF nz] by (simp add: l_def level_def)
  have zero: "\<not> bit x l" and ones: "\<And>m. m < l \<Longrightarrow> bit x m"
    using bit_trailing_zeros [OF nz] not_bit_below_trailing_zeros [OF nz] l
    by (auto simp: l_def level_def bit_not_iff)
  have "p < 2 ^ (63 - l)"
  proof -
    have "unat x < 2 ^ 64" using unsigned_less [of x] by simp
    also have "(2 :: nat) ^ 64 = 2 ^ Suc l * 2 ^ (63 - l)" using l by (simp flip: power_add)
    finally show ?thesis
      by (simp add: p_def unat_drop_bit less_mult_imp_div_less mult.commute)
  qed
  with l have "valid_pos l p" by (simp add: valid_pos_def)
  moreover have "x = node_at l p"
  proof (rule bit_eqI)
    fix n
    show "bit x n \<longleftrightarrow> bit (node_at l p) n"
      using zero ones bit_imp_le_length [of x n]
      by (cases n l rule: linorder_cases)
        (auto simp: bit_node_at p_def bit_unsigned_iff bit_drop_bit_eq)
  qed
  ultimately show ?thesis by blast
qed

subsection \<open>Smearing and the root of a tree\<close>

lemma smear_step:
  fixes v w :: "'a::len word"
  assumes "\<And>n. bit w n \<longleftrightarrow> (\<exists>j<k. bit v (n + j))"
  shows "bit (w OR drop_bit k w) n \<longleftrightarrow> (\<exists>j<2 * k. bit v (n + j))"
proof
  assume "bit (w OR drop_bit k w) n"
  then have "bit w n \<or> bit w (k + n)" by (auto simp: bit_or_iff bit_drop_bit_eq)
  then show "\<exists>j<2 * k. bit v (n + j)"
  proof
    assume "bit w n"
    then obtain j where "j < k" and "bit v (n + j)" using assms by blast
    then show ?thesis by (intro exI [of _ j]) simp
  next
    assume "bit w (k + n)"
    then obtain j where "j < k" and "bit v (k + n + j)" using assms by blast
    then show ?thesis by (intro exI [of _ "k + j"]) (simp add: ac_simps)
  qed
next
  assume "\<exists>j<2 * k. bit v (n + j)"
  then obtain j where j: "j < 2 * k" "bit v (n + j)" by blast
  show "bit (w OR drop_bit k w) n"
  proof (cases "j < k")
    case True
    with j assms have "bit w n" by blast
    then show ?thesis by (simp add: bit_or_iff)
  next
    case False
    with j have "j - k < k" and "bit v (k + n + (j - k))" by (auto simp: ac_simps)
    with assms have "bit w (k + n)" by blast
    then show ?thesis by (simp add: bit_or_iff bit_drop_bit_eq)
  qed
qed

lemma bit_smear_ones: "bit (smear_ones_for_u64 v) n \<longleftrightarrow> (\<exists>j<64. bit v (n + j))"
proof -
  define w1 where "w1 = v OR drop_bit 1 v"
  define w2 where "w2 = w1 OR drop_bit 2 w1"
  define w3 where "w3 = w2 OR drop_bit 4 w2"
  define w4 where "w4 = w3 OR drop_bit 8 w3"
  define w5 where "w5 = w4 OR drop_bit 16 w4"
  have 0: "bit v n \<longleftrightarrow> (\<exists>j<1. bit v (n + j))" for n by simp
  have 1: "bit w1 n \<longleftrightarrow> (\<exists>j<2. bit v (n + j))" for n
    using smear_step [OF 0] by (simp add: w1_def)
  have 2: "bit w2 n \<longleftrightarrow> (\<exists>j<4. bit v (n + j))" for n
    using smear_step [OF 1] by (simp add: w2_def)
  have 3: "bit w3 n \<longleftrightarrow> (\<exists>j<8. bit v (n + j))" for n
    using smear_step [OF 2] by (simp add: w3_def)
  have 4: "bit w4 n \<longleftrightarrow> (\<exists>j<16. bit v (n + j))" for n
    using smear_step [OF 3] by (simp add: w4_def)
  have 5: "bit w5 n \<longleftrightarrow> (\<exists>j<32. bit v (n + j))" for n
    using smear_step [OF 4] by (simp add: w5_def)
  have "smear_ones_for_u64 v = w5 OR drop_bit 32 w5"
    by (simp add: smear_ones_for_u64_def Let_def w1_def w2_def w3_def w4_def w5_def)
  with smear_step [OF 5] show ?thesis by simp
qed

text \<open>Smearing a word whose highest bit is \<open>k\<close> gives \<open>k + 1\<close> ones.\<close>

lemma smear_ones_highest:
  assumes "bit v k" and "\<And>m. k < m \<Longrightarrow> \<not> bit v m"
  shows "smear_ones_for_u64 v = mask (Suc k)"
proof (rule bit_eqI)
  fix n
  have k: "k < 64" using assms(1) bit_imp_le_length [of v k] by simp
  have "(\<exists>j<64. bit v (n + j)) \<longleftrightarrow> n \<le> k"
  proof
    assume "\<exists>j<64. bit v (n + j)"
    then obtain j where "bit v (n + j)" by blast
    then have "\<not> k < n + j" using assms(2) by blast
    then show "n \<le> k" by simp
  next
    assume "n \<le> k"
    with k assms(1) show "\<exists>j<64. bit v (n + j)" by (intro exI [of _ "k - n"]) simp
  qed
  with k show "bit (smear_ones_for_u64 v) n \<longleftrightarrow> bit (mask (Suc k) :: u64) n"
    by (auto simp: bit_smear_ones bit_mask_iff)
qed

lemma smear_ones_0 [simp]: "smear_ones_for_u64 0 = 0"
  by (rule bit_eqI) (simp add: bit_smear_ones)

lemma bit_width_0 [simp]: "bit_width 0 = 0"
  by (simp add: bit_width.simps)

lemma bit_width_pos: "0 < n \<Longrightarrow> bit_width n = Suc (bit_width (n div 2))"
  by (simp add: bit_width.simps)

lemma bit_width_bounds: "n < 2 ^ bit_width n \<and> (0 < n \<longrightarrow> 2 ^ bit_width n \<le> 2 * n)"
proof (induction n rule: bit_width.induct)
  case (1 n)
  show ?case
  proof (cases "n = 0")
    case False
    from "1.IH" [OF False] have "n div 2 < 2 ^ bit_width (n div 2)"
      and le: "0 < n div 2 \<Longrightarrow> 2 ^ bit_width (n div 2) \<le> 2 * (n div 2)" by auto
    then have "n < 2 ^ bit_width n" using False by (simp add: bit_width_pos)
    moreover have "2 ^ bit_width n \<le> 2 * n"
    proof (cases "n div 2 = 0")
      case True
      with False show ?thesis by (simp add: bit_width_pos)
    next
      case False
      with le have "2 ^ bit_width (n div 2) \<le> 2 * (n div 2)" by simp
      moreover have "2 * (n div 2) \<le> n" by simp
      ultimately show ?thesis using \<open>n \<noteq> 0\<close> by (simp add: bit_width_pos)
    qed
    ultimately show ?thesis by simp
  qed simp
qed

lemma bit_width_le: "n < 2 ^ k \<Longrightarrow> bit_width n \<le> k"
proof (cases "n = 0")
  case False
  assume "n < 2 ^ k"
  moreover have "2 ^ bit_width n \<le> 2 * n" using bit_width_bounds [of n] False by simp
  ultimately have "2 ^ bit_width n < 2 * (2 :: nat) ^ k" by linarith
  then have "(2 :: nat) ^ bit_width n < 2 ^ Suc k" by simp
  then have "bit_width n < Suc k" by (rule power_less_imp_less_exp [rotated]) simp
  then show ?thesis by simp
qed simp

lemma bit_width_highest:
  assumes "0 < n"
  shows "bit n (bit_width n - 1)" and "\<And>m. bit_width n - 1 < m \<Longrightarrow> \<not> bit n m"
proof -
  obtain w where w: "bit_width n = Suc w" using assms by (simp add: bit_width_pos)
  have lo: "2 ^ w \<le> n" and hi: "n < 2 * 2 ^ w"
    using bit_width_bounds [of n] assms by (auto simp: w)
  have "n div 2 ^ w = 1"
    using lo hi by (simp add: div_nat_eqI)
  then show "bit n (bit_width n - 1)" by (simp add: w bit_iff_odd)
  show "\<not> bit n m" if "bit_width n - 1 < m" for m
    using bit_less_exp_nat [of n "Suc w" m] hi that by (auto simp: w)
qed

lemma tree_height_le_63: "n \<le> 2 ^ 63 \<Longrightarrow> tree_height n \<le> 63"
  unfolding tree_height_def by (rule bit_width_le) (cases "n = 0", auto)

lemma tree_height_covers: "n \<le> 2 ^ tree_height n"
  using bit_width_bounds [of "n - 1"] by (auto simp: tree_height_def)

lemma tree_height_minimal: "n \<le> 2 ^ k \<Longrightarrow> tree_height n \<le> k"
  unfolding tree_height_def by (rule bit_width_le) (cases "n = 0", auto)

lemma node_at_0: "node_at l 0 = mask l"
  by (rule bit_eqI) (auto simp: bit_node_at bit_mask_iff)

lemma unat_pred: "0 < n \<Longrightarrow> unat (n - 1 :: u64) = unat n - 1"
  by (rule unat_minus_one) auto

lemma root_from_leaf_count_eq [node_laws]:
  assumes "0 < n" and "unat n \<le> 2 ^ 63"
  shows "root_from_leaf_count n = Inr (node_at (tree_height (unat n)) 0)"
proof -
  define m where "m = unat n - 1"
  have m: "unat (n - 1) = m" using unat_pred [OF assms(1)] by (simp add: m_def)
  have less: "m < 2 ^ 63"
    using assms by (simp add: m_def word_less_nat_alt)
  have "drop_bit 1 (smear_ones_for_u64 (push_bit 1 (n - 1))) = mask (bit_width m)"
  proof (cases "m = 0")
    case True
    with m have "n - 1 = 0" by (simp add: word_eq_iff_unat)
    with True show ?thesis by simp
  next
    case False
    then have pos: "0 < m" by simp
    define k where "k = bit_width m - 1"
    have k: "bit_width m = Suc k" using pos by (simp add: k_def bit_width_pos)
    have km: "bit m k" and ka: "\<And>j. k < j \<Longrightarrow> \<not> bit m j"
      using bit_width_highest [OF pos] by (auto simp: k_def)
    have k63: "k < 63" using bit_width_le [OF less] by (simp add: k)
    have b: "bit (push_bit 1 (n - 1)) j \<longleftrightarrow> 0 < j \<and> j < 64 \<and> bit m (j - 1)" for j
      unfolding m [symmetric] bit_unat_iff bit_push_bit_iff
      using bit_imp_le_length [of "n - 1" "j - 1"] by auto
    have "smear_ones_for_u64 (push_bit 1 (n - 1)) = mask (Suc (Suc k))"
    proof (rule smear_ones_highest)
      show "bit (push_bit 1 (n - 1)) (Suc k)" using b km k63 by simp
      show "\<not> bit (push_bit 1 (n - 1)) j" if "Suc k < j" for j
        using b ka [of "j - 1"] that by auto
    qed
    then have "drop_bit 1 (smear_ones_for_u64 (push_bit 1 (n - 1))) = drop_bit 1 (mask (Suc (Suc k)))"
      by simp
    also have "\<dots> = (mask (Suc k) :: u64)"
      using k63 by (intro bit_eqI) (auto simp: bit_drop_bit_eq bit_mask_iff)
    finally show ?thesis by (simp add: k)
  qed
  with assms(1) show ?thesis
    by (simp add: root_from_leaf_count_def root_from_leaf_index_def from_leaf_index_eq node_at_0
        tree_height_def m_def)
qed

lemma root_level_from_leaf_count_eq [node_laws]:
  assumes "0 < n" and "unat n \<le> 2 ^ 63"
  shows "root_level_from_leaf_count n = Inr (tree_height (unat n))"
proof -
  define m where "m = unat n - 1"
  have m: "unat (n - 1) = m" using unat_pred [OF assms(1)] by (simp add: m_def)
  have "64 - leading_zeros (n - 1) = bit_width m"
  proof (cases "m = 0")
    case True
    with m have "n - 1 = 0" by (simp add: word_eq_iff_unat)
    with True show ?thesis by simp
  next
    case False
    then have pos: "0 < m" by simp
    define k where "k = bit_width m - 1"
    have k: "bit_width m = Suc k" using pos by (simp add: k_def bit_width_pos)
    have b: "bit (n - 1) j \<longleftrightarrow> bit m j" for j using bit_unat_iff [of "n - 1" j] m by simp
    have "leading_zeros (n - 1) = LENGTH(64) - 1 - k"
      by (rule leading_zeros_eqI) (use bit_width_highest [OF pos] b in \<open>auto simp: k_def\<close>)
    moreover have "k < 64"
      using b [of k] bit_width_highest(1) [OF pos] bit_imp_le_length [of "n - 1" k] k by simp
    ultimately show ?thesis by (simp add: k)
  qed
  with assms(1) show ?thesis
    by (simp add: root_level_from_leaf_count_def MAX_ACCUMULATOR_PROOF_DEPTH_def tree_height_def
        m_def)
qed

subsection \<open>Draining the frozen-subtree iterator\<close>

text \<open>
  The full subtrees of a tree with \<open>n\<close> leaves: one per set bit \<open>b\<close> of \<open>n\<close>, from the
  highest to the lowest, at level \<open>b\<close> and position \<open>n div 2 ^ b - 1\<close>.
\<close>

definition set_bits_down :: "nat \<Rightarrow> nat \<Rightarrow> nat list" where
  "set_bits_down w n = filter (bit n) (rev [0..<w])"

definition frozen_pos :: "nat \<Rightarrow> nat \<Rightarrow> nat" where
  "frozen_pos n b = n div 2 ^ b - 1"

lemma set_bits_down_0 [simp]: "set_bits_down 0 n = []"
  by (simp add: set_bits_down_def)

lemma set_bits_down_Suc:
  "set_bits_down (Suc w) n = (if bit n w then w # set_bits_down w n else set_bits_down w n)"
  by (simp add: set_bits_down_def)

lemma set_bits_down_of_0 [simp]: "set_bits_down w 0 = []"
  by (induction w) (simp_all add: set_bits_down_Suc)

lemma set_set_bits_down: "set (set_bits_down w n) = {b. b < w \<and> bit n b}"
  by (auto simp: set_bits_down_def)

lemma set_bits_down_wider:
  assumes "n < 2 ^ w" and "w \<le> w'"
  shows "set_bits_down w' n = set_bits_down w n"
  using assms(2)
proof (induction w' rule: dec_induct)
  case (step k)
  have "\<not> bit n k" using bit_less_exp_nat [OF assms(1), of k] step(1) by auto
  with step show ?case by (simp add: set_bits_down_Suc)
qed simp

lemma bit_set_div:
  assumes "bit (n :: nat) b"
  shows "n div 2 ^ b = Suc (2 * (n div 2 ^ Suc b))"
proof -
  have "n div 2 ^ Suc b = n div 2 ^ b div 2" by (metis div_mult2_eq power_Suc2)
  moreover have "odd (n div 2 ^ b)" using assms by (simp add: bit_iff_odd)
  ultimately show ?thesis by (auto elim!: oddE)
qed

lemma frozen_pos_valid:
  assumes "bit n b" and "n \<le> 2 ^ 63"
  shows "valid_pos b (frozen_pos n b)"
proof -
  have "2 ^ b \<le> n"
    using assms(1) by (metis bit_iff_odd div_less even_zero not_le)
  then have b: "b \<le> 63"
    using assms(2) power_increasing_iff [of "2 :: nat" b 63] by simp
  have "n div 2 ^ b \<le> 2 ^ 63 div 2 ^ b" using assms(2) by (rule div_le_mono)
  also have "(2 :: nat) ^ 63 div 2 ^ b = 2 ^ (63 - b)" using b by (simp add: power_diff)
  finally have "n div 2 ^ b - 1 < 2 ^ (63 - b)"
    using bit_set_div [OF assms(1)] by linarith
  with b show ?thesis by (simp add: valid_pos_def frozen_pos_def)
qed

lemma take_bit_Suc_set: "bit (n :: nat) k \<Longrightarrow> take_bit (Suc k) n = 2 ^ k + take_bit k n"
  by (simp add: take_bit_Suc_from_most)

lemma frozen_iter_step:
  fixes N k :: nat
  assumes N: "N \<le> 2 ^ 63" and b: "bit N k"
  shows "frozen_iter_next
      \<lparr>bitmap = word_of_nat (take_bit (Suc k) N),
       seen_leaves = word_of_nat (N - take_bit (Suc k) N)\<rparr> =
    Inr (Some (node_at k (frozen_pos N k)),
      \<lparr>bitmap = word_of_nat (take_bit k N), seen_leaves = word_of_nat (N - take_bit k N)\<rparr>)"
proof -
  define B where "B = take_bit (Suc k) N"
  define S where "S = N - B"
  have v: "valid_pos k (frozen_pos N k)" using b N by (rule frozen_pos_valid)
  then have k: "k \<le> 63" by (simp add: valid_pos_def)
  have pow: "(2 :: nat) ^ k \<le> 2 ^ 63" using k by (rule power_increasing) simp
  have BN: "B \<le> N" by (simp add: B_def take_bit_nat_less_eq_self)
  have B: "B = 2 ^ k + take_bit k N" unfolding B_def by (rule take_bit_Suc_set [OF b])
  have S: "S + 2 ^ k = N - take_bit k N" "S + 2 ^ k \<le> N" using B BN by (auto simp: S_def)
  have S63: "S < 2 ^ 63" using S(2) N zero_less_power [of "2 :: nat" k] by linarith
  have Sdiv: "S = 2 ^ Suc k * (N div 2 ^ Suc k)"
    by (simp add: S_def B_def take_bit_eq_mod minus_mod_eq_mult_div)
  have bB: "bit (word_of_nat B :: u64) n \<longleftrightarrow> n < 64 \<and> n < Suc k \<and> bit N n" for n
    by (auto simp: B_def bit_word_of_nat_iff bit_take_bit_iff)
  have "smear_ones_for_u64 (word_of_nat B) = mask (Suc k)"
    by (rule smear_ones_highest) (use b k bB in auto)
  then have "drop_bit 1 (smear_ones_for_u64 (word_of_nat B)) = drop_bit 1 (mask (Suc k) :: u64)"
    by simp
  also have "\<dots> = mask k"
    using k by (intro bit_eqI) (auto simp: bit_drop_bit_eq bit_mask_iff)
  finally have off: "drop_bit 1 (smear_ones_for_u64 (word_of_nat B)) = mask k" .
  have um: "unat (mask k :: u64) = 2 ^ k - 1"
    using unat_node_at [of k 0] k by (simp add: node_at_0 valid_pos_def)
  have add1: "checked_add (mask k :: u64) 1 = Inr (2 ^ k)"
  proof -
    have "unat (mask k :: u64) + unat (1 :: u64) < 2 ^ LENGTH(64)"
      using pow unfolding um by simp
    then show ?thesis by (simp add: checked_add_def mask_eq_exp_minus_1)
  qed
  have uS: "unat (word_of_nat S :: u64) = S" using S63 by (simp add: unat_of_nat)
  have leaf: "from_leaf_index (word_of_nat S) = Inr (node_at 0 S)"
    using from_leaf_index_unat [of "word_of_nat S"] S63 uS by simp
  have vS: "valid_pos 0 S" using S63 by (simp add: valid_pos_def)
  have pos: "frozen_pos N k * 2 ^ Suc k = 2 * S"
    using bit_set_div [OF b] by (simp add: frozen_pos_def Sdiv)
  have root: "checked_add (node_at 0 S) (mask k) = Inr (node_at k (frozen_pos N k))"
  proof -
    have "unat (node_at 0 S) + unat (mask k :: u64) = unat (node_at k (frozen_pos N k))"
      by (simp add: unat_node_at [OF v] unat_node_at [OF vS] um pos del: power_Suc)
    moreover have "unat (node_at k (frozen_pos N k)) < 2 ^ 64"
      using unsigned_less [of "node_at k (frozen_pos N k)"] by simp
    ultimately show ?thesis
      by (simp add: checked_add_def word_eq_iff_unat unat_word_ariths)
  qed
  have seen: "checked_add (word_of_nat S) (2 ^ k) = Inr (word_of_nat (N - take_bit k N) :: u64)"
    using S N by (simp add: checked_add_def uS unat_exp_64 [OF k] flip: S(1))
  have clear: "word_of_nat B AND NOT (2 ^ k) = (word_of_nat (take_bit k N) :: u64)"
    by (rule bit_eqI)
      (auto simp: B_def bit_and_iff bit_not_iff bit_exp_iff bit_word_of_nat_iff bit_take_bit_iff
        less_Suc_eq)
  have nz: "word_of_nat B \<noteq> (0 :: u64)" using bB [of k] b k by auto
  show ?thesis
    unfolding B_def [symmetric] S_def [symmetric]
    using nz off add1 leaf root seen clear
    by (simp add: frozen_iter_next_def Let_def to_inorder_index_def from_inorder_index_def)
qed

lemma frozen_iter_collect_eq:
  assumes N: "N \<le> 2 ^ 63" and "k < fuel"
  shows "frozen_iter_collect fuel
      \<lparr>bitmap = word_of_nat (take_bit k N), seen_leaves = word_of_nat (N - take_bit k N)\<rparr> =
    Inr (map (\<lambda>b. node_at b (frozen_pos N b)) (set_bits_down k N))"
  using assms(2)
proof (induction k arbitrary: fuel)
  case 0
  then show ?case by (cases fuel) (simp_all add: frozen_iter_next_def)
next
  case (Suc k)
  show ?case
  proof (cases "bit N k")
    case True
    from Suc.prems obtain f where f: "fuel = Suc f" "k < f" by (cases fuel) auto
    show ?thesis
      unfolding f(1) frozen_iter_collect.simps frozen_iter_step [OF N True]
      using Suc.IH [OF f(2)] by (simp add: set_bits_down_Suc True del: of_nat_diff)
  next
    case False
    then have "take_bit (Suc k) N = take_bit k N" by (simp add: take_bit_Suc_from_most)
    with Suc.IH [of fuel] Suc.prems False show ?thesis by (simp add: set_bits_down_Suc)
  qed
qed

lemma frozen_subtrees_eq:
  assumes "unat n \<le> 2 ^ 63"
  shows "frozen_subtrees n =
    Inr (map (\<lambda>b. node_at b (frozen_pos (unat n) b)) (set_bits_down 64 (unat n)))"
proof -
  have "take_bit 64 (unat n) = unat n"
    using assms by (intro take_bit_nat_eq_self) simp
  then show ?thesis
    using frozen_iter_collect_eq [OF assms, of 64 65]
    by (simp add: frozen_subtrees_def frozen_iter_new_def)
qed

lemma length_set_bits_down_count_ones:
  "length (set_bits_down 64 (unat n)) = count_ones (n :: u64)"
proof -
  have "length (filter (bit (unat n)) (rev [0..<64])) = length (filter (bit n) [0..<64])"
    by (simp add: bit_unat_iff [abs_def] rev_filter flip: rev_filter)
  then show ?thesis by (simp add: set_bits_down_def count_ones_def)
qed

end
