(* ===== verification/Text_Format.thy ===== *)
theory Text_Format
  imports Rooch_Prelude
begin

text \<open>
  Text as the standard library writes and reads it: the bytes of an ASCII string, decimal numbers and
  splitting at a character.
\<close>

definition bytes_of_string :: "string \<Rightarrow> bytes" where
  "bytes_of_string s = map (\<lambda>c. word_of_nat (of_char c)) s"

section \<open>Decimal numbers\<close>

text \<open>\<^verbatim>\<open>Display\<close> and \<^verbatim>\<open>FromStr\<close> of unsigned integers.\<close>

definition digit_char :: "nat \<Rightarrow> char" where
  "digit_char d = char_of (48 + d)"

fun show_nat :: "nat \<Rightarrow> string" where
  "show_nat n = (if n < 10 then [digit_char n] else show_nat (n div 10) @ [digit_char (n mod 10)])"

declare show_nat.simps [simp del]

definition char_digit :: "char \<Rightarrow> nat option" where
  "char_digit c = (let k = of_char c in if 48 \<le> k \<and> k \<le> 57 then Some (k - 48) else None)"

text \<open>Each step is checked against the width of the type.\<close>

fun parse_digits :: "nat \<Rightarrow> nat \<Rightarrow> string \<Rightarrow> nat option" where
  "parse_digits bits n [] = Some n"
| "parse_digits bits n (c # cs) =
     (case char_digit c of
        None \<Rightarrow> None
      | Some d \<Rightarrow> if n * 10 + d < 2 ^ bits then parse_digits bits (n * 10 + d) cs else None)"

definition parse_uint :: "nat \<Rightarrow> string \<Rightarrow> nat option" where
  "parse_uint bits s =
     (case s of
        [] \<Rightarrow> None
      | c # cs \<Rightarrow> if c = CHR ''+'' then (if cs = [] then None else parse_digits bits 0 cs) else parse_digits bits 0 s)"

fun split_on :: "char \<Rightarrow> string \<Rightarrow> string list" where
  "split_on c [] = [[]]"
| "split_on c (x # xs) =
     (if x = c then [] # split_on c xs
      else (case split_on c xs of p # ps \<Rightarrow> (x # p) # ps | [] \<Rightarrow> [[x]]))"

lemma char_digit_digit: "d < 10 \<Longrightarrow> char_digit (digit_char d) = Some d"
  by (simp add: char_digit_def digit_char_def Let_def)

lemma digit_char_neq:
  "d < 10 \<Longrightarrow> digit_char d \<noteq> CHR ''_''" "d < 10 \<Longrightarrow> digit_char d \<noteq> CHR ''+''" "d < 10 \<Longrightarrow> digit_char d \<noteq> CHR '':''"
  using char_digit_digit [of d] by (auto simp: char_digit_def Let_def)

lemma show_nat_chars: "c \<in> set (show_nat n) \<Longrightarrow> c \<noteq> CHR ''_'' \<and> c \<noteq> CHR ''+'' \<and> c \<noteq> CHR '':''"
  by (induction n rule: show_nat.induct) (subst (asm) (2) show_nat.simps, auto simp: digit_char_neq split: if_splits)

lemma show_nat_neq_Nil: "show_nat n \<noteq> []"
  by (subst show_nat.simps) simp

lemma parse_digits_append:
  "parse_digits bits n (xs @ ys) = Option.bind (parse_digits bits n xs) (\<lambda>m. parse_digits bits m ys)"
  by (induction xs arbitrary: n) (auto split: option.split)

lemma parse_digits_show: "n < 2 ^ bits \<Longrightarrow> parse_digits bits 0 (show_nat n) = Some n"
proof (induction n rule: show_nat.induct)
  case (1 n)
  show ?case
  proof (cases "n < 10")
    case True
    with 1 show ?thesis by (subst show_nat.simps) (simp add: char_digit_digit)
  next
    case False
    have "n div 10 < 2 ^ bits" using 1(2) by (meson div_le_dividend le_less_trans)
    with 1 False show ?thesis
      by (subst show_nat.simps) (simp add: parse_digits_append char_digit_digit)
  qed
qed

lemma parse_uint_show: "n < 2 ^ bits \<Longrightarrow> parse_uint bits (show_nat n) = Some n"
  using show_nat_chars [of "hd (show_nat n)" n] show_nat_neq_Nil [of n] parse_digits_show [of n bits]
  by (cases "show_nat n") (auto simp: parse_uint_def)

lemma split_on_none: "c \<notin> set s \<Longrightarrow> split_on c s = [s]"
  by (induction s) auto

lemma split_on_append: "c \<notin> set a \<Longrightarrow> split_on c (a @ c # b) = a # split_on c b"
  by (induction a) auto

end
