(* ===== verification/Accumulator_Node.thy ===== *)
theory Accumulator_Node
  imports Node_Index Text_Format
begin

text \<open>
  Hashes (\<^verbatim>\<open>moveos-types/src/h256.rs\<close>), the nodes of the accumulator
  (\<^verbatim>\<open>accumulator/src/node.rs\<close>), its stored summary (\<^verbatim>\<open>accumulator_info.rs\<close>) and inclusion
  proofs (\<^verbatim>\<open>proof/mod.rs\<close>). SHA3-256 comes from the crate \<^verbatim>\<open>tiny_keccak\<close>: it is the
  parameter \<open>sha3\<close> of every definition that hashes. The second half gives the reference
  Merkle tree, a recursion over (level, position), and relates proof checking to it.
\<close>

section \<open>Hashes\<close>

type_synonym H256 = bytes
type_synonym hasher = "bytes \<Rightarrow> H256"

definition create_literal_hash :: "string \<Rightarrow> H256 result" where
  "create_literal_hash word =
     (let s = bytes_of_string word
      in and_then (assert_that (length s \<le> 32) ''assertion failed: s.len() <= LENGTH'') (\<lambda>_.
         Inr (s @ replicate (32 - length s) 0)))"

definition ACCUMULATOR_PLACEHOLDER_HASH :: H256 where
  "ACCUMULATOR_PLACEHOLDER_HASH =
     (case create_literal_hash ''ACCUMULATOR_PLACEHOLDER_HASH'' of Inr h \<Rightarrow> h | Inl e \<Rightarrow> [])"

section \<open>Nodes\<close>

record InternalNode =
  in_index :: NodeIndex
  in_left :: H256
  in_right :: H256
  in_is_frozen :: bool

record LeafNode =
  ln_index :: NodeIndex
  ln_hash :: H256

datatype AccumulatorNode = Internal InternalNode | Leaf LeafNode | Empty

definition internal_node_new :: "NodeIndex \<Rightarrow> H256 \<Rightarrow> H256 \<Rightarrow> InternalNode" where
  "internal_node_new index left right =
     \<lparr>in_index = index, in_left = left, in_right = right,
      in_is_frozen = (right \<noteq> ACCUMULATOR_PLACEHOLDER_HASH)\<rparr>"

definition internal_node_hash :: "hasher \<Rightarrow> InternalNode \<Rightarrow> H256" where
  "internal_node_hash sha3 n = sha3 (in_left n @ in_right n)"

definition set_frozen :: "InternalNode \<Rightarrow> InternalNode" where
  "set_frozen n = n\<lparr>in_is_frozen := True\<rparr>"

definition leaf_node_new :: "NodeIndex \<Rightarrow> H256 \<Rightarrow> LeafNode" where
  "leaf_node_new index hash = \<lparr>ln_index = index, ln_hash = hash\<rparr>"

definition new_internal :: "NodeIndex \<Rightarrow> H256 \<Rightarrow> H256 \<Rightarrow> AccumulatorNode" where
  "new_internal index left right = Internal (internal_node_new index left right)"

definition new_leaf :: "NodeIndex \<Rightarrow> H256 \<Rightarrow> AccumulatorNode" where
  "new_leaf index hash = Leaf (leaf_node_new index hash)"

fun node_hash :: "hasher \<Rightarrow> AccumulatorNode \<Rightarrow> H256" where
  "node_hash sha3 (Internal n) = internal_node_hash sha3 n"
| "node_hash sha3 (Leaf n) = ln_hash n"
| "node_hash sha3 Empty = ACCUMULATOR_PLACEHOLDER_HASH"

fun node_index :: "AccumulatorNode \<Rightarrow> NodeIndex" where
  "node_index (Internal n) = in_index n"
| "node_index (Leaf n) = ln_index n"
| "node_index Empty = G_NODE_ERROR_INDEX"

fun frozen :: "AccumulatorNode \<Rightarrow> AccumulatorNode" where
  "frozen (Internal n) = Internal (set_frozen n)"
| "frozen n = n"

fun is_frozen :: "AccumulatorNode \<Rightarrow> bool" where
  "is_frozen (Internal n) = in_is_frozen n"
| "is_frozen (Leaf n) = True"
| "is_frozen Empty = False"

section \<open>Stored summary\<close>

record AccumulatorInfo =
  ai_accumulator_root :: H256
  ai_frozen_subtree_roots :: "H256 list"
  ai_num_leaves :: u64
  ai_num_nodes :: u64

definition accumulator_info_default :: AccumulatorInfo where
  "accumulator_info_default =
     \<lparr>ai_accumulator_root = ACCUMULATOR_PLACEHOLDER_HASH, ai_frozen_subtree_roots = [],
      ai_num_leaves = 0, ai_num_nodes = 0\<rparr>"

section \<open>Inclusion proofs\<close>

record AccumulatorProof =
  siblings :: "H256 list"

definition proof_step :: "hasher \<Rightarrow> H256 \<times> u64 \<Rightarrow> H256 \<Rightarrow> H256 \<times> u64" where
  "proof_step sha3 s sibling_hash =
     (case s of (hash, index) \<Rightarrow>
       (if index mod 2 = 0
        then internal_node_hash sha3
               (internal_node_new (from_inorder_index index) hash sibling_hash)
        else internal_node_hash sha3
               (internal_node_new (from_inorder_index index) sibling_hash hash),
        index div 2))"

definition accumulator_verify ::
    "hasher \<Rightarrow> AccumulatorProof \<Rightarrow> H256 \<Rightarrow> H256 \<Rightarrow> u64 \<Rightarrow> unit result" where
  "accumulator_verify sha3 prf expected_root_hash element_hash element_index =
     and_then (ensure_that (length (siblings prf) \<le> MAX_ACCUMULATOR_PROOF_DEPTH)
                 ''Accumulator proof has more than 63 siblings.'') (\<lambda>_.
     let actual_root_hash =
           fst (foldl (proof_step sha3) (element_hash, element_index) (siblings prf))
     in ensure_that (actual_root_hash = expected_root_hash) ''Root hashes do not match.'')"

section \<open>The reference Merkle tree\<close>

text \<open>
  The hash of the \<open>p\<close>-th node of level \<open>l\<close> over a list of leaves padded to the right with
  placeholders: a subtree without leaves is the placeholder, whatever its level.
\<close>

definition combine :: "hasher \<Rightarrow> H256 \<Rightarrow> H256 \<Rightarrow> H256" where
  "combine sha3 l r = sha3 (l @ r)"

fun subtree_hash :: "hasher \<Rightarrow> H256 list \<Rightarrow> nat \<Rightarrow> nat \<Rightarrow> H256" where
  "subtree_hash sha3 ls 0 p =
     (if p < length ls then ls ! p else ACCUMULATOR_PLACEHOLDER_HASH)"
| "subtree_hash sha3 ls (Suc l) p =
     (if p * 2 ^ Suc l < length ls
      then combine sha3 (subtree_hash sha3 ls l (2 * p)) (subtree_hash sha3 ls l (2 * p + 1))
      else ACCUMULATOR_PLACEHOLDER_HASH)"

definition merkle_root :: "hasher \<Rightarrow> H256 list \<Rightarrow> H256" where
  "merkle_root sha3 ls = subtree_hash sha3 ls (tree_height (length ls)) 0"

text \<open>The siblings on the way up from leaf \<open>i\<close>.\<close>

definition merkle_path :: "hasher \<Rightarrow> H256 list \<Rightarrow> nat \<Rightarrow> nat \<Rightarrow> H256 list" where
  "merkle_path sha3 ls h i =
     map (\<lambda>l. subtree_hash sha3 ls l (sibling_pos (i div 2 ^ l))) [0..<h]"

lemma internal_node_hash_new [simp]:
  "internal_node_hash sha3 (internal_node_new i l r) = combine sha3 l r"
  by (simp add: internal_node_hash_def internal_node_new_def combine_def)

lemma internal_node_new_sel [simp]:
  "in_index (internal_node_new i l r) = i" "in_left (internal_node_new i l r) = l"
  "in_right (internal_node_new i l r) = r"
  by (simp_all add: internal_node_new_def)

lemma new_internal_sel [simp]:
  "node_hash sha3 (new_internal i l r) = combine sha3 l r" "node_index (new_internal i l r) = i"
  by (simp_all add: new_internal_def)

lemma new_leaf_sel [simp]:
  "node_hash sha3 (new_leaf i h) = h" "node_index (new_leaf i h) = i"
  by (simp_all add: new_leaf_def leaf_node_new_def)

lemma frozen_keeps [simp]: "node_hash sha3 (frozen n) = node_hash sha3 n" "node_index (frozen n) = node_index n"
  by (cases n; simp add: set_frozen_def internal_node_hash_def)+

lemma subtree_hash_outside:
  "length ls \<le> p * 2 ^ l \<Longrightarrow> subtree_hash sha3 ls l p = ACCUMULATOR_PLACEHOLDER_HASH"
  by (cases l) auto

lemma subtree_hash_combine:
  assumes "p * 2 ^ Suc l < length ls"
  shows "subtree_hash sha3 ls (Suc l) p =
    combine sha3 (subtree_hash sha3 ls l (2 * p)) (subtree_hash sha3 ls l (2 * p + 1))"
  using assms by simp

text \<open>A subtree that is full depends only on the leaves below it.\<close>

lemma subtree_hash_frozen:
  assumes "(p + 1) * 2 ^ l \<le> length ls"
  shows "subtree_hash sha3 (ls @ ls') l p = subtree_hash sha3 ls l p"
  using assms
proof (induction l arbitrary: p)
  case 0
  then show ?case by (simp add: nth_append)
next
  case (Suc l)
  have "(2 * p + 1 + 1) * 2 ^ l = (p + 1) * 2 ^ Suc l" by simp
  with Suc.prems have r: "(2 * p + 1 + 1) * 2 ^ l \<le> length ls" by simp
  then have l: "(2 * p + 1) * 2 ^ l \<le> length ls" by (simp add: algebra_simps)
  have "p * 2 ^ Suc l < (p + 1) * 2 ^ Suc l" by simp
  with Suc.prems have "p * 2 ^ Suc l < length ls" by (rule less_le_trans [rotated])
  then show ?case using Suc.IH [OF l] Suc.IH [OF r] by simp
qed

lemma foldl_proof_step_Cons:
  "foldl (proof_step sha3) (h, i) (s # ss) =
   foldl (proof_step sha3) (if even (unat i) then combine sha3 h s else combine sha3 s h, i div 2) ss"
proof -
  have "i mod 2 = 0 \<longleftrightarrow> even (unat i)"
    by (simp add: word_eq_iff_unat [of "i mod 2"] unat_mod_distrib even_iff_mod_2_eq_zero)
  then show ?thesis by (simp add: proof_step_def)
qed

text \<open>Folding the reference path over a leaf climbs the reference tree.\<close>

lemma path_climbs:
  assumes "unat i = n div 2 ^ l" and "n < length ls"
  shows "foldl (proof_step sha3) (subtree_hash sha3 ls l (n div 2 ^ l), i)
      (map (\<lambda>k. subtree_hash sha3 ls k (sibling_pos (n div 2 ^ k))) [l..<l + d]) =
    (subtree_hash sha3 ls (l + d) (n div 2 ^ (l + d)), drop_bit d i)"
  using assms
proof (induction d arbitrary: l i)
  case 0
  then show ?case by simp
next
  case (Suc d)
  define q where "q = n div 2 ^ l"
  have q2: "n div 2 ^ Suc l = q div 2" unfolding q_def by (metis div_mult2_eq power_Suc2)
  have i2: "unat (i div 2) = n div 2 ^ Suc l"
    unfolding q2 using Suc.prems(1) by (simp add: unat_div_distrib q_def)
  have "q div 2 * 2 ^ Suc l \<le> n"
  proof -
    have "q div 2 * 2 ^ Suc l = (q div 2 * 2) * 2 ^ l" by simp
    also have "\<dots> \<le> q * 2 ^ l" by (rule mult_le_mono1) simp
    also have "\<dots> \<le> n" by (simp add: q_def)
    finally show ?thesis .
  qed
  with Suc.prems(2) have in_range: "q div 2 * 2 ^ Suc l < length ls" by simp
  have step: "(if even q then combine sha3 (subtree_hash sha3 ls l q) (subtree_hash sha3 ls l (sibling_pos q))
      else combine sha3 (subtree_hash sha3 ls l (sibling_pos q)) (subtree_hash sha3 ls l q)) =
      subtree_hash sha3 ls (Suc l) (q div 2)"
    unfolding subtree_hash_combine [OF in_range]
    by (auto simp: sibling_pos_def elim!: evenE oddE)
  have upt: "[l..<l + Suc d] = l # [Suc l..<Suc l + d]" by (simp add: upt_conv_Cons)
  have div: "drop_bit d (i div 2) = drop_bit (Suc d) i" by (simp add: drop_bit_Suc)
  have hd: "foldl (proof_step sha3) (subtree_hash sha3 ls l q, i)
      (subtree_hash sha3 ls l (sibling_pos q) # ss) =
      foldl (proof_step sha3) (subtree_hash sha3 ls (Suc l) (n div 2 ^ Suc l), i div 2) ss" for ss
    unfolding foldl_proof_step_Cons q2 step [symmetric] using Suc.prems(1)
    by (simp only: q_def [symmetric])
  have "l + Suc d = Suc l + d" by simp
  then show ?case
    unfolding upt list.map q_def [symmetric] hd Suc.IH [OF i2 Suc.prems(2)] div by (simp only:)
qed

lemma tree_height_length_le:
  assumes "length ls \<le> 2 ^ 63"
  shows "tree_height (length ls) \<le> MAX_ACCUMULATOR_PROOF_DEPTH"
  using tree_height_le_63 [OF assms] by (simp add: MAX_ACCUMULATOR_PROOF_DEPTH_def)

lemma verify_merkle_path:
  assumes "i < length ls" and "length ls \<le> 2 ^ 63"
  shows "accumulator_verify sha3
      \<lparr>siblings = merkle_path sha3 ls (tree_height (length ls)) i\<rparr>
      (merkle_root sha3 ls) (ls ! i) (word_of_nat i) = Inr ()"
proof -
  define h where "h = tree_height (length ls)"
  have "i < 2 ^ h" using assms(1) tree_height_covers [of "length ls"] by (simp add: h_def)
  then have top: "i div 2 ^ h = 0" by simp
  have "unat (word_of_nat i :: u64) = i div 2 ^ 0" using assms by (simp add: unat_of_nat)
  from path_climbs [OF this assms(1), of sha3 h]
  have "foldl (proof_step sha3) (ls ! i, word_of_nat i) (merkle_path sha3 ls h i) =
      (subtree_hash sha3 ls h 0, drop_bit h (word_of_nat i))"
    using assms(1) top by (simp add: merkle_path_def)
  then show ?thesis
    using tree_height_length_le [OF assms(2)]
    by (simp add: accumulator_verify_def Let_def h_def merkle_root_def) (simp add: merkle_path_def)
qed

subsection \<open>What an accepted proof commits to\<close>

text \<open>The byte strings that checking a proof hashes, from the leaf to the root.\<close>

fun proof_inputs :: "hasher \<Rightarrow> H256 \<times> u64 \<Rightarrow> H256 list \<Rightarrow> bytes list" where
  "proof_inputs sha3 s [] = []"
| "proof_inputs sha3 (h, i) (sib # sibs) =
     (if i mod 2 = 0 then h @ sib else sib @ h) #
     proof_inputs sha3 (proof_step sha3 (h, i) sib) sibs"

lemma proof_step_eq:
  "proof_step sha3 (h, i) sib = (sha3 (if i mod 2 = 0 then h @ sib else sib @ h), i div 2)"
  by (simp add: proof_step_def combine_def)

lemma length_proof_inputs: "length (proof_inputs sha3 s sibs) = length sibs"
  by (induction sibs arbitrary: s) (auto simp: proof_step_eq)

lemma proof_collision:
  assumes "length ss = length ts" and "length e = length e'" and "e \<noteq> e'"
    and "\<forall>s \<in> set ss \<union> set ts. length s = 32" and "length e = 32"
    and "\<And>x. length (sha3 x) = 32"
    and "fst (foldl (proof_step sha3) (e, i) ss) = fst (foldl (proof_step sha3) (e', i) ts)"
  shows "\<exists>k < length ss. proof_inputs sha3 (e, i) ss ! k \<noteq> proof_inputs sha3 (e', i) ts ! k \<and>
    sha3 (proof_inputs sha3 (e, i) ss ! k) = sha3 (proof_inputs sha3 (e', i) ts ! k)"
  using assms
proof (induction ss ts arbitrary: e e' i rule: list_induct2)
  case Nil
  then show ?case by simp
next
  case (Cons s ss t ts)
  define x where "x = (if i mod 2 = 0 then e @ s else s @ e)"
  define y where "y = (if i mod 2 = 0 then e' @ t else t @ e')"
  have len: "length s = length t" using Cons.prems(3) by simp
  have xy: "x \<noteq> y" using Cons.prems(1,2) len by (auto simp: x_def y_def)
  have ins: "proof_inputs sha3 (e, i) (s # ss) = x # proof_inputs sha3 (sha3 x, i div 2) ss"
    "proof_inputs sha3 (e', i) (t # ts) = y # proof_inputs sha3 (sha3 y, i div 2) ts"
    by (simp_all add: x_def y_def proof_step_eq)
  show ?case
  proof (cases "sha3 x = sha3 y")
    case True
    with xy ins show ?thesis by (intro exI [of _ 0]) simp
  next
    case False
    have eq: "fst (foldl (proof_step sha3) (sha3 x, i div 2) ss) =
        fst (foldl (proof_step sha3) (sha3 y, i div 2) ts)"
      using Cons.prems(6) by (simp add: proof_step_eq x_def y_def)
    have "\<exists>k < length ss. proof_inputs sha3 (sha3 x, i div 2) ss ! k \<noteq>
        proof_inputs sha3 (sha3 y, i div 2) ts ! k \<and>
        sha3 (proof_inputs sha3 (sha3 x, i div 2) ss ! k) =
        sha3 (proof_inputs sha3 (sha3 y, i div 2) ts ! k)"
      by (rule Cons.IH) (use Cons.prems False eq in auto)
    then obtain k where "k < length ss"
      and "proof_inputs sha3 (sha3 x, i div 2) ss ! k \<noteq> proof_inputs sha3 (sha3 y, i div 2) ts ! k"
      and "sha3 (proof_inputs sha3 (sha3 x, i div 2) ss ! k) =
        sha3 (proof_inputs sha3 (sha3 y, i div 2) ts ! k)" by blast
    then show ?thesis unfolding ins by (intro exI [of _ "Suc k"]) simp
  qed
qed

end
