(* ===== verification/InMemory_Accumulator.thy ===== *)
theory InMemory_Accumulator
  imports Accumulator_Node
begin

text \<open>
  The in-memory accumulator (\<^verbatim>\<open>accumulator/src/inmemory/mod.rs\<close>): it keeps only the roots of
  the full subtrees. The theory models its construction, appending leaves and subtrees, the
  recursive hash and the proof extraction, and shows that they compute the reference Merkle
  tree of \<^verbatim>\<open>Accumulator_Node\<close>.
\<close>

section \<open>The operations of the source\<close>

record InMemoryAccumulator =
  im_frozen_subtree_roots :: "H256 list"
  im_num_leaves :: LeafCount
  im_root_hash :: H256

definition hash_internal_node :: "hasher \<Rightarrow> H256 \<Rightarrow> H256 \<Rightarrow> H256" where
  "hash_internal_node sha3 left right = sha3 (left @ right)"

text \<open>The \<^verbatim>\<open>while bitmap > 0\<close> loop; \<open>it\<close> is the reversed iterator over the roots.\<close>

function compute_root_loop :: "hasher \<Rightarrow> u64 \<Rightarrow> H256 list \<Rightarrow> H256 \<Rightarrow> H256 result" where
  "compute_root_loop sha3 bm it cur =
     (if bm > 0 then
        (if bm AND 1 \<noteq> 0
         then (case it of
                 [] \<Rightarrow> Inl (Panic ''This frozen subtree should exist.'')
               | r # it' \<Rightarrow>
                   compute_root_loop sha3 (drop_bit 1 bm) it' (hash_internal_node sha3 r cur))
         else compute_root_loop sha3 (drop_bit 1 bm) it
                (hash_internal_node sha3 cur ACCUMULATOR_PLACEHOLDER_HASH))
      else Inr cur)"
  by pat_completeness auto
termination
  by (relation "measure (\<lambda>(sha3, bm, it, cur). unat bm)")
    (auto simp: unat_drop_bit unat_gt_0 word_neq_0_conv simp del: drop_bit_0
      intro!: div_less_dividend)

declare compute_root_loop.simps [simp del]

definition compute_root_hash :: "hasher \<Rightarrow> H256 list \<Rightarrow> u64 \<Rightarrow> H256 result" where
  "compute_root_hash sha3 roots num_leaves =
     (case roots of
        [] \<Rightarrow> Inr ACCUMULATOR_PLACEHOLDER_HASH
      | [r] \<Rightarrow> Inr r
      | _ \<Rightarrow>
          and_then (checked_shr num_leaves (trailing_zeros num_leaves)) (\<lambda>bm.
          compute_root_loop sha3 bm (rev roots) ACCUMULATOR_PLACEHOLDER_HASH))"

definition in_memory_new :: "hasher \<Rightarrow> H256 list \<Rightarrow> u64 \<Rightarrow> InMemoryAccumulator result" where
  "in_memory_new sha3 roots num_leaves =
     and_then (ensure_that (length roots = count_ones num_leaves)
                 ''The number of frozen subtrees does not match the number of leaves.'') (\<lambda>_.
     and_then (compute_root_hash sha3 roots num_leaves) (\<lambda>root_hash.
     Inr \<lparr>im_frozen_subtree_roots = roots, im_num_leaves = num_leaves,
          im_root_hash = root_hash\<rparr>))"

definition in_memory_default :: "hasher \<Rightarrow> InMemoryAccumulator result" where
  "in_memory_default sha3 =
     (case in_memory_new sha3 [] 0 of
        Inr acc \<Rightarrow> Inr acc
      | Inl e \<Rightarrow> Inl (Panic ''Constructing empty accumulator should work.''))"

text \<open>The carry loop of \<^verbatim>\<open>append_one\<close>: merge the last two roots, \<open>k\<close> times.\<close>

fun merge_last :: "hasher \<Rightarrow> nat \<Rightarrow> H256 list \<Rightarrow> H256 list result" where
  "merge_last sha3 0 roots = Inr roots"
| "merge_last sha3 (Suc k) roots =
     and_then (expect (vec_pop roots) ''Invalid accumulator.'') (\<lambda>(right_hash, roots).
     and_then (expect (vec_pop roots) ''Invalid accumulator.'') (\<lambda>(left_hash, roots).
     merge_last sha3 k (roots @ [hash_internal_node sha3 left_hash right_hash])))"

definition append_one :: "hasher \<Rightarrow> H256 list \<Rightarrow> u64 \<Rightarrow> H256 \<Rightarrow> H256 list result" where
  "append_one sha3 roots num_existing_leaves leaf =
     (let roots = roots @ [leaf];
          num_trailing_ones = trailing_zeros (NOT num_existing_leaves)
      in merge_last sha3 num_trailing_ones roots)"

definition append_step ::
    "hasher \<Rightarrow> H256 list \<times> u64 \<Rightarrow> H256 \<Rightarrow> (H256 list \<times> u64) result" where
  "append_step sha3 s leaf =
     (case s of (roots, num_leaves) \<Rightarrow>
       and_then (append_one sha3 roots num_leaves leaf) (\<lambda>roots'.
       and_then (checked_add num_leaves 1) (\<lambda>num_leaves'.
       Inr (roots', num_leaves'))))"

definition in_memory_append ::
    "hasher \<Rightarrow> InMemoryAccumulator \<Rightarrow> H256 list \<Rightarrow> InMemoryAccumulator result" where
  "in_memory_append sha3 acc leaves =
     and_then (try_fold (append_step sha3) (im_frozen_subtree_roots acc, im_num_leaves acc) leaves)
       (\<lambda>(roots, num_leaves).
     case in_memory_new sha3 roots num_leaves of
       Inr acc' \<Rightarrow> Inr acc'
     | Inl e \<Rightarrow> Inl (Panic ''Appending leaves to a valid accumulator should create another valid accumulator.''))"

definition from_leaves :: "hasher \<Rightarrow> H256 list \<Rightarrow> InMemoryAccumulator result" where
  "from_leaves sha3 leaves =
     and_then (in_memory_default sha3) (\<lambda>acc. in_memory_append sha3 acc leaves)"

text \<open>
  Appending whole subtrees: the inner \<^verbatim>\<open>while\<close> carries a new subtree into the existing roots,
  the outer one consumes the subtree iterator while a subtree of the rightmost size fits.
\<close>

function carry_subtree ::
    "hasher \<Rightarrow> H256 list \<Rightarrow> u64 \<Rightarrow> u64 \<Rightarrow> H256 \<Rightarrow> (H256 list \<times> u64 \<times> H256) result" where
  "carry_subtree sha3 roots cur msk current_hash =
     (if cur AND msk \<noteq> 0
      then case vec_pop roots of
             None \<Rightarrow> Inl (Panic ''This frozen subtree must exist.'')
           | Some (left_hash, roots') \<Rightarrow>
               carry_subtree sha3 roots' cur (push_bit 1 msk)
                 (hash_internal_node sha3 left_hash current_hash)
      else Inr (roots, msk, current_hash))"
  by pat_completeness auto
termination
  by (relation "measure (\<lambda>(sha3, roots, cur, msk, h). length roots)") (auto dest: vec_pop_length)

declare carry_subtree.simps [simp del]

fun append_subtrees_loop ::
    "hasher \<Rightarrow> H256 list \<Rightarrow> H256 list \<Rightarrow> u64 \<Rightarrow> u64 \<Rightarrow> u64 \<Rightarrow>
     (H256 list \<times> u64 \<times> u64 \<times> H256 list) result" where
  "append_subtrees_loop sha3 it roots cur rem sz =
     (if rem \<ge> sz then
        (case it of
           [] \<Rightarrow> Inl (Fail ''Too few subtrees.'')
         | h # it' \<Rightarrow>
             and_then (carry_subtree sha3 roots cur sz h) (\<lambda>(roots', msk, h').
             and_then (checked_add cur sz) (\<lambda>cur'.
             and_then (checked_sub rem sz) (\<lambda>rem'.
             append_subtrees_loop sha3 it' (roots' @ [h']) cur' rem' msk))))
      else Inr (roots, cur, rem, it))"

declare append_subtrees_loop.simps [simp del]

definition append_subtrees ::
    "hasher \<Rightarrow> InMemoryAccumulator \<Rightarrow> H256 list \<Rightarrow> u64 \<Rightarrow> InMemoryAccumulator result" where
  "append_subtrees sha3 acc subtrees num_new_leaves =
     and_then (checked_sub MAX_ACCUMULATOR_LEAVES (im_num_leaves acc)) (\<lambda>room.
     and_then (ensure_that (num_new_leaves \<le> room) ''Too many new leaves.'') (\<lambda>_.
     if im_num_leaves acc = 0 then in_memory_new sha3 subtrees num_new_leaves
     else
       and_then (checked_shl 1 (trailing_zeros (im_num_leaves acc))) (\<lambda>sz.
       and_then (append_subtrees_loop sha3 subtrees (im_frozen_subtree_roots acc)
                   (im_num_leaves acc) num_new_leaves sz) (\<lambda>(roots, cur, rem, it).
       and_then (checked_add cur rem) (\<lambda>cur'.
       in_memory_new sha3 (roots @ it) cur')))))"

text \<open>
  The recursive hash of a node over a slice of leaves. The recursion goes down one level per
  call; a leaf is always either a placeholder or freezable, so it ends.
\<close>

definition slice_get :: "'a list \<Rightarrow> u64 \<Rightarrow> 'a result" where
  "slice_get xs i =
     (if unat i < length xs then Inr (xs ! unat i) else Inl (Panic ''index out of bounds''))"

definition in_memory_version :: "InMemoryAccumulator \<Rightarrow> u64" where
  "in_memory_version acc = (if im_num_leaves acc = 0 then 0 else im_num_leaves acc - 1)"

lemma level_child_less:
  assumes "x \<noteq> - 1" and "level x \<noteq> 0"
  shows "left_child x = Inr y \<Longrightarrow> level y < level x" and "right_child x = Inr z \<Longrightarrow> level z < level x"
proof -
  obtain l p where v: "valid_pos l p" and x: "x = node_at l p"
    using node_at_surj [OF assms(1)] by blast
  have l: "l \<le> 63" using v by (simp add: valid_pos_def)
  with assms(2) obtain k where "l = Suc k" by (cases l) (auto simp: x level_node_at)
  with l x show "left_child x = Inr y \<Longrightarrow> level y < level x" and "right_child x = Inr z \<Longrightarrow> level z < level x"
    by (auto simp: left_child_node_at right_child_node_at level_node_at)
qed

lemma is_placeholder_MAX: "is_placeholder (- 1) i \<noteq> Inr b"
proof -
  have "bit (- 1 :: u64) 0" by simp
  moreover have "\<not> bit (push_bit 1 i) 0" unfolding bit_push_bit_iff by simp
  ultimately have ne: "push_bit 1 i \<noteq> - 1" by metis
  have "\<not> - 1 \<le> push_bit 1 i" using ne word_order.extremum_unique by blast
  moreover have "level (- 1) = 64" by (simp add: level_def)
  ultimately show ?thesis
    by (simp add: is_placeholder_def from_leaf_index_eq left_most_child_def
        turn_off_right_most_n_bits_def checked_shr_def)
qed

lemma leaf_placeholder_or_freezable:
  assumes "level x = 0" and "is_placeholder x i = Inr False"
  shows "is_freezable x i \<noteq> Inr False"
proof -
  have "x \<noteq> - 1" using is_placeholder_MAX assms(2) by auto
  then obtain l p where v: "valid_pos l p" and x: "x = node_at l p"
    using node_at_surj by blast
  with assms(1) have "l = 0" by (simp add: level_node_at valid_pos_def)
  with assms(2) v x show ?thesis
    using left_most_child_node_at [OF v] right_most_child_node_at [OF v]
    by (auto simp: is_placeholder_def is_freezable_def from_leaf_index_eq split: if_splits)
qed

function get_hash :: "hasher \<Rightarrow> H256 list \<Rightarrow> NodeIndex \<Rightarrow> H256 result" where
  "get_hash sha3 leaves x =
     (if leaves = [] then Inl (Panic ''attempt to subtract with overflow'')
      else
        let rightmost_leaf_index = word_of_nat (length leaves - 1) in
        and_then (is_placeholder x rightmost_leaf_index) (\<lambda>placeholder.
        if placeholder then Inr ACCUMULATOR_PLACEHOLDER_HASH
        else
          and_then (is_freezable x rightmost_leaf_index) (\<lambda>freezable.
          if freezable then
            (case to_leaf_index x of
               Some leaf_index \<Rightarrow> slice_get leaves leaf_index
             | None \<Rightarrow>
                 and_then (left_child x) (\<lambda>left_index.
                 and_then (get_hash sha3 leaves left_index) (\<lambda>l.
                 and_then (right_child x) (\<lambda>right_index.
                 and_then (get_hash sha3 leaves right_index) (\<lambda>r.
                 Inr (hash_internal_node sha3 l r))))))
          else
            and_then (left_child x) (\<lambda>left_index.
            and_then (get_hash sha3 leaves left_index) (\<lambda>l.
            and_then (right_child x) (\<lambda>right_index.
            and_then (get_hash sha3 leaves right_index) (\<lambda>r.
            Inr (hash_internal_node sha3 l r))))))))"
  by pat_completeness auto
termination
proof (relation "measure (\<lambda>(sha3, leaves, x). level x)", goal_cases)
  case 1
  show ?case by simp
next
  case (2 sha3 leaves x i ph fz y)
  then show ?case using level_child_less(1) [of x y] is_placeholder_MAX [of i]
    by (auto simp: to_leaf_index_def split: if_splits)
next
  case (3 sha3 leaves x i ph fz y l z)
  then show ?case using level_child_less(2) [of x z] is_placeholder_MAX [of i]
    by (auto simp: to_leaf_index_def split: if_splits)
next
  case (4 sha3 leaves x i ph fz y)
  then show ?case
    using level_child_less(1) [of x y] is_placeholder_MAX [of i] leaf_placeholder_or_freezable [of x i]
    by auto
next
  case (5 sha3 leaves x i ph fz y l z)
  then show ?case
    using level_child_less(2) [of x z] is_placeholder_MAX [of i] leaf_placeholder_or_freezable [of x i]
    by auto
qed

declare get_hash.simps [simp del]

definition get_proof_from_leaves ::
    "hasher \<Rightarrow> H256 list \<Rightarrow> u64 \<Rightarrow> AccumulatorProof result" where
  "get_proof_from_leaves sha3 leaves leaf_index =
     (let leaf_count = word_of_nat (length leaves) in
      and_then (root_from_leaf_count leaf_count) (\<lambda>root_pos.
      and_then (from_leaf_index leaf_index) (\<lambda>leaf.
      and_then (try_map (get_hash sha3 leaves) (ancestor_siblings (level root_pos) leaf)) (\<lambda>sibs.
      Inr \<lparr>siblings = sibs\<rparr>))))"


section \<open>The roots of the full subtrees\<close>

text \<open>
  \<open>full_roots sub l q\<close> lists, from the largest to the smallest, the full subtrees of a tree
  whose level \<open>l\<close> has \<open>q\<close> full nodes; \<open>sub l p\<close> is the hash of node \<open>p\<close> of level \<open>l\<close>.
\<close>

fun full_roots :: "(nat \<Rightarrow> nat \<Rightarrow> 'a) \<Rightarrow> nat \<Rightarrow> nat \<Rightarrow> 'a list" where
  "full_roots sub l q =
     (if q = 0 then []
      else full_roots sub (Suc l) (q div 2) @ (if odd q then [sub l (q - 1)] else []))"

declare full_roots.simps [simp del]

function trailing_ones :: "nat \<Rightarrow> nat" where
  "trailing_ones n = (if odd n then Suc (trailing_ones (n div 2)) else 0)"
  by pat_completeness auto
termination
  by (relation "measure id") (auto elim!: oddE)

declare trailing_ones.simps [simp del]

definition frozen_roots :: "hasher \<Rightarrow> H256 list \<Rightarrow> H256 list" where
  "frozen_roots sha3 ls = full_roots (subtree_hash sha3 ls) 0 (length ls)"

text \<open>The accumulator \<open>acc\<close> represents the list of leaves \<open>ls\<close>.\<close>

definition im_repr :: "hasher \<Rightarrow> InMemoryAccumulator \<Rightarrow> H256 list \<Rightarrow> bool" where
  "im_repr sha3 acc ls \<longleftrightarrow>
     im_frozen_subtree_roots acc = frozen_roots sha3 ls \<and>
     im_num_leaves acc = word_of_nat (length ls) \<and>
     im_root_hash acc = merkle_root sha3 ls \<and> length ls \<le> 2 ^ 63"

lemma hash_internal_node_combine [simp]: "hash_internal_node = combine"
  by (intro ext) (simp add: hash_internal_node_def combine_def)

lemma full_roots_0 [simp]: "full_roots sub l 0 = []"
  by (simp add: full_roots.simps)

lemma full_roots_even: "full_roots sub l (2 * r) = full_roots sub (Suc l) r"
  by (cases "r = 0") (simp_all add: full_roots.simps [of sub l])

lemma full_roots_odd: "full_roots sub l (Suc (2 * r)) = full_roots sub (Suc l) r @ [sub l (2 * r)]"
  by (simp add: full_roots.simps [of sub l])

lemma full_roots_eq_Nil [simp]: "full_roots sub l q = [] \<longleftrightarrow> q = 0"
proof (induction sub l q rule: full_roots.induct)
  case (1 sub l q)
  then show ?case by (cases "q = 0") (auto simp: full_roots.simps [of sub l q])
qed

lemma full_roots_single:
  "length (full_roots sub l q) = 1 \<Longrightarrow> \<exists>k. q = 2 ^ k \<and> full_roots sub l q = [sub (l + k) 0]"
proof (induction sub l q rule: full_roots.induct)
  case (1 sub l q)
  have q: "q \<noteq> 0" using "1.prems" by (cases "q = 0") simp_all
  show ?case
  proof (cases "odd q")
    case True
    then obtain r where r: "q = Suc (2 * r)" by (auto elim: oddE)
    with "1.prems" show ?thesis
      using full_roots_odd [of sub l 0] by (intro exI [of _ 0]) (simp add: full_roots_odd)
  next
    case False
    then obtain r where r: "q = 2 * r" by auto
    with "1.prems" have "length (full_roots sub (Suc l) (q div 2)) = 1" by (simp add: full_roots_even)
    from "1.IH" [OF q this] obtain k where "q div 2 = 2 ^ k"
      and "full_roots sub (Suc l) (q div 2) = [sub (Suc l + k) 0]" by auto
    with r show ?thesis by (intro exI [of _ "Suc k"]) (simp add: full_roots_even)
  qed
qed

lemma set_bits_down_lsb:
  "set_bits_down (Suc w) n = map Suc (set_bits_down w (n div 2)) @ (if odd n then [0] else [])"
proof (induction w)
  case 0
  show ?case by (simp add: set_bits_down_Suc bit_0)
next
  case (Suc w)
  then show ?case unfolding set_bits_down_Suc [of "Suc w"] set_bits_down_Suc [of w "n div 2"]
    by (simp add: bit_Suc)
qed

text \<open>In closed form: one subtree per set bit of the leaf count.\<close>

lemma full_roots_set_bits:
  "q < 2 ^ w \<Longrightarrow> full_roots sub l q = map (\<lambda>b. sub (l + b) (frozen_pos q b)) (set_bits_down w q)"
proof (induction w arbitrary: l q)
  case 0
  then show ?case by simp
next
  case (Suc w)
  have "q div 2 < 2 ^ w" using Suc.prems by auto
  from Suc.IH [OF this, of "Suc l"] have "full_roots sub (Suc l) (q div 2) =
      map (\<lambda>b. sub (l + b) (frozen_pos q b)) (map Suc (set_bits_down w (q div 2)))"
    by (simp add: frozen_pos_def div_mult2_eq)
  then show ?case
    by (cases "q = 0")
      (simp_all add: full_roots.simps [of sub l q] set_bits_down_lsb frozen_pos_def)
qed

lemma length_full_roots:
  assumes "q < 2 ^ 64"
  shows "length (full_roots sub l q) = count_ones (word_of_nat q :: u64)"
proof -
  have "unat (word_of_nat q :: u64) = q" using assms by (simp add: unat_of_nat)
  with length_set_bits_down_count_ones [of "word_of_nat q"] show ?thesis
    by (simp add: full_roots_set_bits [OF assms])
qed

text \<open>Appending leaves does not change the subtrees that are already full.\<close>

lemma full_roots_append:
  assumes "q * 2 ^ l \<le> length ls"
  shows "full_roots (subtree_hash sha3 (ls @ ls')) l q = full_roots (subtree_hash sha3 ls) l q"
  using assms
proof (induction "subtree_hash sha3 ls" l q rule: full_roots.induct)
  case (1 l q)
  show ?case
  proof (cases "q = 0")
    case False
    have "q div 2 * 2 ^ Suc l = (q div 2 * 2) * 2 ^ l" by simp
    also have "\<dots> \<le> q * 2 ^ l" by (intro mult_le_mono1) simp
    finally have "q div 2 * 2 ^ Suc l \<le> length ls" using "1.prems" by linarith
    with "1.hyps" False have "full_roots (subtree_hash sha3 (ls @ ls')) (Suc l) (q div 2) =
        full_roots (subtree_hash sha3 ls) (Suc l) (q div 2)" by simp
    moreover have "subtree_hash sha3 (ls @ ls') l (q - 1) = subtree_hash sha3 ls l (q - 1)"
      using "1.prems" False by (intro subtree_hash_frozen) simp
    ultimately show ?thesis by (simp add: full_roots.simps [of _ l q])
  qed simp
qed


subsection \<open>Appending one leaf\<close>

lemma trailing_ones_odd: "trailing_ones (Suc (2 * r)) = Suc (trailing_ones r)"
  by (simp add: trailing_ones.simps [of "Suc (2 * r)"])

lemma trailing_ones_even [simp]: "trailing_ones (2 * r) = 0"
  by (simp add: trailing_ones.simps [of "2 * r"])

lemma trailing_ones_bits:
  "\<not> bit n (trailing_ones n) \<and> (\<forall>m < trailing_ones n. bit n m)"
proof (induction n rule: trailing_ones.induct)
  case (1 n)
  show ?case
  proof (cases "odd n")
    case True
    then have "trailing_ones n = Suc (trailing_ones (n div 2))"
      by (simp add: trailing_ones.simps [of n])
    moreover have "bit n m" if "m < Suc (trailing_ones (n div 2))" for m
      using "1.IH" [OF True] that True by (cases m) (auto simp: bit_Suc bit_0)
    ultimately show ?thesis using "1.IH" [OF True] by (simp add: bit_Suc)
  qed (simp add: trailing_ones.simps [of n] bit_0)
qed

lemma trailing_zeros_NOT:
  assumes "n < 2 ^ 63"
  shows "trailing_zeros (NOT (word_of_nat n :: u64)) = trailing_ones n"
proof (rule trailing_zeros_eqI)
  have "trailing_ones n < 64"
  proof (rule ccontr)
    assume "\<not> trailing_ones n < 64"
    then have "bit n 63" using trailing_ones_bits [of n] by simp
    with bit_less_exp_nat [OF assms, of 63] show False by simp
  qed
  then show "bit (NOT (word_of_nat n :: u64)) (trailing_ones n)"
    using trailing_ones_bits [of n] by (simp add: bit_not_iff bit_word_of_nat_iff)
  show "\<not> bit (NOT (word_of_nat n :: u64)) m" if "m < trailing_ones n" for m
    using trailing_ones_bits [of n] that \<open>trailing_ones n < 64\<close>
    by (simp add: bit_not_iff bit_word_of_nat_iff)
qed

text \<open>The carry loop is binary increment on the list of full subtrees.\<close>

lemma merge_last_full_roots:
  assumes "Suc q * 2 ^ l \<le> length ls"
  shows "merge_last sha3 (trailing_ones q)
      (full_roots (subtree_hash sha3 ls) l q @ [subtree_hash sha3 ls l q]) =
    Inr (full_roots (subtree_hash sha3 ls) l (Suc q))"
  using assms
proof (induction q arbitrary: l rule: trailing_ones.induct)
  case (1 q)
  let ?sub = "subtree_hash sha3 ls"
  show ?case
  proof (cases "odd q")
    case True
    then obtain r where r: "q = Suc (2 * r)" by (auto elim: oddE)
    have up: "Suc r * 2 ^ Suc l \<le> length ls" using "1.prems" by (simp add: r algebra_simps)
    have "r * 2 ^ Suc l < Suc r * 2 ^ Suc l" by simp
    with up have "r * 2 ^ Suc l < length ls" by (rule less_le_trans [rotated])
    then have hash: "combine sha3 (?sub l (2 * r)) (?sub l (Suc (2 * r))) = ?sub (Suc l) r"
      by simp
    have pop: "merge_last sha3 (Suc k) (xs @ [a, b]) = merge_last sha3 k (xs @ [combine sha3 a b])"
      for k xs a b
      using vec_pop_snoc [of "xs @ [a]" b] by simp
    have "merge_last sha3 (trailing_ones q) (full_roots ?sub l q @ [?sub l q]) =
        merge_last sha3 (trailing_ones r) (full_roots ?sub (Suc l) r @ [?sub (Suc l) r])"
      unfolding r trailing_ones_odd full_roots_odd append_assoc append_Cons append_Nil pop hash ..
    also have "\<dots> = Inr (full_roots ?sub (Suc l) (Suc r))"
    proof -
      have "q div 2 = r" by (simp add: r)
      from "1.IH" [OF True, unfolded this, OF up] show ?thesis .
    qed
    also have "full_roots ?sub (Suc l) (Suc r) = full_roots ?sub l (Suc q)"
      using full_roots_even [of ?sub l "Suc r"] by (simp add: r)
    finally show ?thesis .
  next
    case False
    then obtain r where r: "q = 2 * r" by auto
    show ?thesis unfolding r by (simp add: full_roots_odd full_roots_even)
  qed
qed

lemma append_one_frozen_roots:
  assumes "length ls < 2 ^ 63"
  shows "append_one sha3 (frozen_roots sha3 ls) (word_of_nat (length ls)) x =
    Inr (frozen_roots sha3 (ls @ [x]))"
proof -
  let ?n = "length ls"
  have "full_roots (subtree_hash sha3 (ls @ [x])) 0 ?n = frozen_roots sha3 ls"
    unfolding frozen_roots_def by (rule full_roots_append) simp
  then show ?thesis
    using merge_last_full_roots [of ?n 0 "ls @ [x]" sha3]
    by (simp add: append_one_def trailing_zeros_NOT [OF assms] frozen_roots_def)
qed

subsection \<open>The root\<close>

lemma bit_width_eqI: "2 ^ w \<le> n \<Longrightarrow> n < 2 ^ Suc w \<Longrightarrow> bit_width n = Suc w"
proof -
  assume lo: "2 ^ w \<le> n" and hi: "n < 2 ^ Suc w"
  have "n < 2 ^ bit_width n" using bit_width_bounds by simp
  with lo have "(2 :: nat) ^ w < 2 ^ bit_width n" by linarith
  then have "w < bit_width n" by (rule power_less_imp_less_exp [rotated]) simp
  moreover have "bit_width n \<le> Suc w" using hi by (rule bit_width_le)
  ultimately show ?thesis by simp
qed

lemma tree_height_power: "tree_height (2 ^ k) = k"
proof (rule antisym)
  show "tree_height (2 ^ k) \<le> k" by (rule tree_height_minimal) simp
  have "(2 :: nat) ^ k \<le> 2 ^ tree_height (2 ^ k)" by (rule tree_height_covers)
  then show "k \<le> tree_height (2 ^ k)" by (rule power_le_imp_le_exp [rotated]) simp
qed

lemma tree_height_no_power:
  assumes "0 < n" and "\<And>k. n \<noteq> 2 ^ k"
  shows "tree_height n = bit_width n"
proof -
  obtain w where w: "bit_width n = Suc w" using assms(1) by (simp add: bit_width_pos)
  have "2 ^ Suc w \<le> 2 * n" "n < 2 ^ Suc w" using bit_width_bounds [of n] assms(1) w by auto
  moreover from this assms(2) [of w] have "2 ^ w \<le> n - 1" by simp
  ultimately show ?thesis unfolding tree_height_def w by (intro bit_width_eqI) auto
qed

lemma bit_width_double: "0 < q \<Longrightarrow> bit_width (q * 2 ^ k) = bit_width q + k"
  by (induction k) (simp_all add: bit_width_pos [of "_ * (2 * _)"] mult.left_commute)

lemma word_of_nat_step:
  assumes "q < 2 ^ 64"
  shows "0 < (word_of_nat q :: u64) \<longleftrightarrow> 0 < q"
    and "(word_of_nat q :: u64) AND 1 \<noteq> 0 \<longleftrightarrow> odd q"
    and "drop_bit 1 (word_of_nat q :: u64) = word_of_nat (q div 2)"
proof -
  have u: "unat (word_of_nat q :: u64) = q" using assms by (simp add: unat_of_nat)
  have "q div 2 < 2 ^ 64" using assms by simp
  then have u2: "unat (word_of_nat (q div 2) :: u64) = q div 2" by (simp add: unat_of_nat)
  show "0 < (word_of_nat q :: u64) \<longleftrightarrow> 0 < q" using u by (simp add: word_less_nat_alt)
  have "(word_of_nat q :: u64) AND 1 = 0 \<longleftrightarrow> \<not> bit (word_of_nat q :: u64) 0"
    by (simp add: bit_0 and_one_eq even_iff_mod_2_eq_zero)
  then show "(word_of_nat q :: u64) AND 1 \<noteq> 0 \<longleftrightarrow> odd q"
    unfolding bit_word_of_nat_iff by (simp add: bit_0)
  show "drop_bit 1 (word_of_nat q :: u64) = word_of_nat (q div 2)"
    unfolding word_eq_iff_unat unat_drop_bit u u2 by simp
qed

lemma compute_root_loop_even:
  assumes "0 < r" and "2 * r < 2 ^ 64"
  shows "compute_root_loop sha3 (word_of_nat (2 * r)) it cur =
    compute_root_loop sha3 (word_of_nat r) it (combine sha3 cur ACCUMULATOR_PLACEHOLDER_HASH)"
  unfolding compute_root_loop.simps [of sha3 "word_of_nat (2 * r)"] word_of_nat_step [OF assms(2)]
  using assms(1) by simp

lemma compute_root_loop_odd:
  assumes "Suc (2 * r) < 2 ^ 64"
  shows "compute_root_loop sha3 (word_of_nat (Suc (2 * r))) (x # it) cur =
    compute_root_loop sha3 (word_of_nat r) it (combine sha3 x cur)"
  unfolding compute_root_loop.simps [of sha3 "word_of_nat (Suc (2 * r))"] word_of_nat_step [OF assms]
  by simp

text \<open>Climbing from the lowest full subtree computes the reference hash level by level.\<close>

lemma compute_root_loop_climbs:
  assumes "length ls < 2 ^ 64" and "q = length ls div 2 ^ l"
    and "odd q \<or> q * 2 ^ l < length ls"
  shows "compute_root_loop sha3 (word_of_nat q) (rev (full_roots (subtree_hash sha3 ls) l q))
      (subtree_hash sha3 ls l q) = Inr (subtree_hash sha3 ls (l + bit_width q) 0)"
  using assms(2,3)
proof (induction q arbitrary: l rule: bit_width.induct)
  case (1 q)
  let ?sub = "subtree_hash sha3 ls"
  show ?case
  proof (cases "q = 0")
    case True
    then show ?thesis by (simp add: compute_root_loop.simps)
  next
    case False
    have q64: "q < 2 ^ 64"
      using assms(1) div_le_dividend [of "length ls" "2 ^ l"] "1.prems"(1) by linarith
    have le: "q * 2 ^ l \<le> length ls" unfolding "1.prems"(1) by (rule div_times_less_eq_dividend)
    have half: "q div 2 = length ls div 2 ^ Suc l"
      unfolding "1.prems"(1) by (metis div_mult2_eq power_Suc2)
    have below: "q div 2 * 2 ^ Suc l < length ls"
    proof (cases "odd q")
      case True
      then have "q div 2 * 2 ^ Suc l + 2 ^ l = q * 2 ^ l" by (auto elim!: oddE simp: algebra_simps)
      with le zero_less_power [of "2 :: nat" l] show ?thesis by linarith
    qed (use "1.prems"(2) in \<open>auto elim!: evenE\<close>)
    have IH: "compute_root_loop sha3 (word_of_nat (q div 2)) (rev (full_roots ?sub (Suc l) (q div 2)))
        (?sub (Suc l) (q div 2)) = Inr (?sub (l + bit_width q) 0)"
      using "1.IH" [OF False half] below False by (simp add: bit_width_pos del: subtree_hash.simps)
    have up: "?sub (Suc l) (q div 2) = combine sha3 (?sub l (2 * (q div 2))) (?sub l (2 * (q div 2) + 1))"
      using below by (rule subtree_hash_combine)
    show ?thesis
    proof (cases "odd q")
      case True
      then obtain r where r: "q = Suc (2 * r)" by (auto elim: oddE)
      show ?thesis using IH q64 unfolding up unfolding r
        by (simp add: full_roots_odd compute_root_loop_odd del: subtree_hash.simps of_nat_Suc)
    next
      case False
      then obtain r where r: "q = 2 * r" by auto
      have "length ls < Suc q * 2 ^ l"
        unfolding "1.prems"(1) using dividend_less_div_times [of "2 ^ l" "length ls"] by simp
      then have "?sub l (2 * r + 1) = ACCUMULATOR_PLACEHOLDER_HASH"
        by (intro subtree_hash_outside) (simp add: r)
      with IH q64 \<open>q \<noteq> 0\<close> show ?thesis unfolding up unfolding r
        by (simp add: full_roots_even compute_root_loop_even del: subtree_hash.simps of_nat_mult)
    qed
  qed
qed


lemma full_roots_drop_zeros: "full_roots sub l (q * 2 ^ k) = full_roots sub (l + k) q"
proof (induction k arbitrary: l)
  case (Suc k)
  have "q * 2 ^ Suc k = 2 * (q * 2 ^ k)" by simp
  then show ?case using Suc.IH [of "Suc l"] by (simp only: full_roots_even) simp
qed simp

lemma div_trailing_zeros:
  assumes "0 < n" and "n < 2 ^ 64"
  defines "t \<equiv> trailing_zeros (word_of_nat n :: u64)"
  shows "t < 64" and "odd (n div 2 ^ t)" and "n div 2 ^ t * 2 ^ t = n"
proof -
  let ?w = "word_of_nat n :: u64"
  have u: "unat ?w = n" using assms(2) by (simp add: unat_of_nat)
  then have nz: "?w \<noteq> 0" using assms(1) by (auto simp: word_eq_iff_unat simp del: of_nat_eq_0_iff)
  then show "t < 64" using trailing_zeros_less [of ?w] by (simp add: t_def)
  have b: "bit ?w m \<longleftrightarrow> bit n m" for m using bit_unat_iff [of ?w m] u by simp
  show "odd (n div 2 ^ t)"
    using bit_trailing_zeros [OF nz] by (simp add: b t_def bit_nat_iff_odd_div)
  have "take_bit t n = 0"
    by (rule bit_eqI) (use not_bit_below_trailing_zeros [OF nz] b in \<open>auto simp: bit_take_bit_iff t_def\<close>)
  then show "n div 2 ^ t * 2 ^ t = n"
    using div_mult_mod_eq [of n "2 ^ t"] by (simp add: take_bit_eq_mod)
qed

lemma compute_root_hash_frozen_roots:
  assumes "length ls \<le> 2 ^ 63"
  shows "compute_root_hash sha3 (frozen_roots sha3 ls) (word_of_nat (length ls)) =
    Inr (merkle_root sha3 ls)"
proof -
  let ?sub = "subtree_hash sha3 ls"
  let ?n = "length ls"
  consider "?n = 0" | "length (frozen_roots sha3 ls) = 1" | "2 \<le> length (frozen_roots sha3 ls)"
    by (cases "frozen_roots sha3 ls") (auto simp: frozen_roots_def numeral_2_eq_2 Suc_le_eq)
  then show ?thesis
  proof cases
    case 1
    then show ?thesis
      by (simp add: frozen_roots_def compute_root_hash_def merkle_root_def tree_height_def)
  next
    case 2
    then obtain k where "?n = 2 ^ k" and "frozen_roots sha3 ls = [?sub k 0]"
      unfolding frozen_roots_def using full_roots_single [of ?sub 0 ?n] by auto
    then show ?thesis by (simp add: compute_root_hash_def merkle_root_def tree_height_power)
  next
    case 3
    define t where "t = trailing_zeros (word_of_nat ?n :: u64)"
    define q where "q = ?n div 2 ^ t"
    have n: "0 < ?n" using 3 by (cases ls) (auto simp: frozen_roots_def)
    have n64: "?n < 2 ^ 64" using assms by simp
    note tz = div_trailing_zeros [OF n n64, folded t_def, folded q_def]
    have np: "?n \<noteq> 2 ^ k" for k
    proof
      assume "?n = 2 ^ k"
      then have "frozen_roots sha3 ls = full_roots ?sub (0 + k) 1"
        unfolding frozen_roots_def using full_roots_drop_zeros [of ?sub 0 1 k] by simp
      with 3 show False using full_roots_odd [of ?sub k 0] by simp
    qed
    have h: "tree_height ?n = t + bit_width q"
      using tree_height_no_power [OF n np] bit_width_double [of q t] tz
      by (metis add.commute n nat_0_less_mult_iff)
    have u: "unat (word_of_nat ?n :: u64) = ?n" using n64 by (simp add: unat_of_nat)
    have "q \<le> ?n" by (simp add: q_def)
    then have "unat (word_of_nat q :: u64) = q" using n64 by (simp add: unat_of_nat)
    then have shr: "checked_shr (word_of_nat ?n :: u64) t = Inr (word_of_nat q)"
      using tz(1) by (simp add: checked_shr_def word_eq_iff_unat unat_drop_bit u q_def)
    have "?sub t q = ACCUMULATOR_PLACEHOLDER_HASH" by (rule subtree_hash_outside) (simp add: tz)
    with compute_root_loop_climbs [OF n64 q_def, of sha3] tz(2)
    have loop: "compute_root_loop sha3 (word_of_nat q) (rev (full_roots ?sub t q))
        ACCUMULATOR_PLACEHOLDER_HASH = Inr (merkle_root sha3 ls)"
      by (simp add: merkle_root_def h)
    have "frozen_roots sha3 ls = full_roots ?sub t q"
      using full_roots_drop_zeros [of ?sub 0 q t] by (simp add: frozen_roots_def tz)
    with loop 3 shr show ?thesis
      by (auto simp: compute_root_hash_def t_def split: list.splits)
  qed
qed

lemma in_memory_new_frozen_roots:
  assumes "length ls \<le> 2 ^ 63"
  shows "\<exists>acc. in_memory_new sha3 (frozen_roots sha3 ls) (word_of_nat (length ls)) = Inr acc \<and>
    im_repr sha3 acc ls"
proof -
  have "length (frozen_roots sha3 ls) = count_ones (word_of_nat (length ls) :: u64)"
    unfolding frozen_roots_def using assms by (intro length_full_roots) simp
  with assms show ?thesis
    by (simp add: in_memory_new_def compute_root_hash_frozen_roots im_repr_def)
qed

lemma append_steps_frozen_roots:
  assumes "length ls + length xs \<le> 2 ^ 63"
  shows "try_fold (append_step sha3) (frozen_roots sha3 ls, word_of_nat (length ls)) xs =
    Inr (frozen_roots sha3 (ls @ xs), word_of_nat (length (ls @ xs)))"
  using assms
proof (induction xs arbitrary: ls)
  case Nil
  then show ?case by simp
next
  case (Cons x xs)
  have n: "length ls < 2 ^ 63" using Cons.prems by simp
  have "checked_add (word_of_nat (length ls) :: u64) 1 = Inr (word_of_nat (length (ls @ [x])))"
    using n by (simp add: checked_add_def unat_of_nat)
  then have "append_step sha3 (frozen_roots sha3 ls, word_of_nat (length ls)) x =
      Inr (frozen_roots sha3 (ls @ [x]), word_of_nat (length (ls @ [x])))"
    by (simp add: append_step_def append_one_frozen_roots [OF n])
  then show ?case using Cons.IH [of "ls @ [x]"] Cons.prems by simp
qed

theorem in_memory_append_refines:
  assumes "im_repr sha3 acc ls" and "length ls + length xs \<le> 2 ^ 63"
  shows "\<exists>acc'. in_memory_append sha3 acc xs = Inr acc' \<and> im_repr sha3 acc' (ls @ xs)"
proof -
  have "length (ls @ xs) \<le> 2 ^ 63" using assms(2) by simp
  from in_memory_new_frozen_roots [OF this, of sha3] append_steps_frozen_roots [OF assms(2), of sha3]
  show ?thesis using assms(1) by (auto simp: in_memory_append_def im_repr_def)
qed

lemma in_memory_default_repr: "\<exists>acc. in_memory_default sha3 = Inr acc \<and> im_repr sha3 acc []"
  using in_memory_new_frozen_roots [of "[]" sha3]
  by (auto simp: in_memory_default_def frozen_roots_def)

lemma from_leaves_repr:
  assumes "length ls \<le> 2 ^ 63"
  shows "\<exists>acc. from_leaves sha3 ls = Inr acc \<and> im_repr sha3 acc ls"
proof -
  obtain acc where "in_memory_default sha3 = Inr acc" and "im_repr sha3 acc []"
    using in_memory_default_repr by blast
  moreover from in_memory_append_refines [OF this(2), of ls] assms
  obtain acc' where "in_memory_append sha3 acc ls = Inr acc'" and "im_repr sha3 acc' ls" by auto
  ultimately show ?thesis by (simp add: from_leaves_def)
qed


subsection \<open>Hashes and proofs over a slice of leaves\<close>

lemma slice_get_in: "i < length xs \<Longrightarrow> i < 2 ^ 64 \<Longrightarrow> slice_get xs (word_of_nat i) = Inr (xs ! i)"
  by (simp add: slice_get_def unat_of_nat)

lemma get_hash_unfold:
  assumes v: "valid_pos l p" and "ls \<noteq> []" and "length ls \<le> 2 ^ 63"
  shows "get_hash sha3 ls (node_at l p) =
    (if length ls \<le> p * 2 ^ l then Inr ACCUMULATOR_PLACEHOLDER_HASH
     else if l = 0 then slice_get ls (word_of_nat p)
     else and_then (get_hash sha3 ls (node_at (l - 1) (2 * p))) (\<lambda>a.
          and_then (get_hash sha3 ls (node_at (l - 1) (2 * p + 1))) (\<lambda>b.
          Inr (combine sha3 a b))))"
proof -
  define i :: u64 where "i = word_of_nat (length ls - 1)"
  have "unat i = length ls - 1" using assms(3) by (simp add: unat_of_nat i_def del: of_nat_diff)
  moreover have "0 < length ls" using assms(2) by simp
  ultimately have ib: "unat i < 2 ^ 63" "unat i + 1 = length ls" using assms(3) by linarith+
  have "is_placeholder (node_at l p) i = Inr (length ls \<le> p * 2 ^ l)"
  proof -
    have "unat i < p * 2 ^ l \<longleftrightarrow> length ls \<le> p * 2 ^ l" using ib(2) by linarith
    then show ?thesis unfolding is_placeholder_node_at [OF v ib(1)] by simp
  qed
  moreover have "is_freezable (node_at l p) i = Inr ((p + 1) * 2 ^ l \<le> length ls)"
    unfolding is_freezable_node_at [OF v ib(1)] ib(2) ..
  ultimately show ?thesis
    using assms(2) to_leaf_index_node_at [OF v] v left_child_node_at [of "l - 1" p] right_child_node_at [of "l - 1" p]
    by (cases "l = 0") (simp_all add: valid_pos_def get_hash.simps [of sha3 ls "node_at _ p", folded i_def] Let_def)
qed

lemma get_hash_node_at:
  assumes "valid_pos l p" and "ls \<noteq> []" and "length ls \<le> 2 ^ 63"
  shows "get_hash sha3 ls (node_at l p) = Inr (subtree_hash sha3 ls l p)"
  using assms(1)
proof (induction l arbitrary: p)
  case 0
  have "p < 2 ^ 63" using "0" by (simp add: valid_pos_def)
  then show ?case
    unfolding get_hash_unfold [OF "0" assms(2,3)] using slice_get_in [of p ls] by simp
next
  case (Suc l)
  have "get_hash sha3 ls (node_at l (2 * p)) = Inr (subtree_hash sha3 ls l (2 * p))"
    "get_hash sha3 ls (node_at l (2 * p + 1)) = Inr (subtree_hash sha3 ls l (2 * p + 1))"
    using Suc.IH valid_pos_child [OF Suc.prems] by simp_all
  then show ?case
    unfolding get_hash_unfold [OF Suc.prems assms(2,3)] by (simp add: subtree_hash_outside)
qed

lemma ancestor_siblings_node_at:
  assumes "l + d \<le> 63"
  shows "ancestor_siblings d (node_at l p) =
    map (\<lambda>k. node_at (l + k) (sibling_pos (p div 2 ^ k))) [0..<d]"
  using assms
proof (induction d arbitrary: l p)
  case 0
  then show ?case by simp
next
  case (Suc d)
  have l: "l < 63" using Suc.prems by simp
  have "[0..<Suc d] = 0 # map Suc [0..<d]" by (metis map_Suc_upt upt_conv_Cons zero_less_Suc)
  then show ?case
    using Suc.IH [of "Suc l" "p div 2"] Suc.prems
    by (simp add: sibling_node_at [OF l] parent_node_at [OF l] div_mult2_eq comp_def del: upt_Suc)
qed

lemma sibling_pos_valid:
  assumes "i < 2 ^ h" and "h \<le> 63" and "k < h"
  shows "valid_pos k (sibling_pos (i div 2 ^ k))"
proof -
  have "i div 2 ^ k < 2 ^ (h - k)"
    using assms by (intro less_mult_imp_div_less) (simp flip: power_add)
  moreover have "sibling_pos q < 2 ^ Suc m" if "q < 2 ^ Suc m" for q m
  proof -
    have "sibling_pos q div 2 < 2 ^ m" using that by simp
    then show ?thesis unfolding power_Suc by linarith
  qed
  moreover obtain m where "h - k = Suc m" using assms(3) by (cases "h - k") auto
  ultimately have "sibling_pos (i div 2 ^ k) < 2 ^ (h - k)" by simp
  also have "(2 :: nat) ^ (h - k) \<le> 2 ^ (63 - k)" using assms(2) by (intro power_increasing) auto
  finally show ?thesis using assms by (simp add: valid_pos_def)
qed

lemma get_proof_from_leaves_eq:
  assumes "i < length ls" and "length ls \<le> 2 ^ 63"
  shows "get_proof_from_leaves sha3 ls (word_of_nat i) =
    Inr \<lparr>siblings = merkle_path sha3 ls (tree_height (length ls)) i\<rparr>"
proof -
  let ?h = "tree_height (length ls)"
  have u: "unat (word_of_nat (length ls) :: u64) = length ls"
    using assms(2) by (simp add: unat_of_nat)
  have root: "root_from_leaf_count (word_of_nat (length ls)) = Inr (node_at ?h 0)"
  proof -
    have "0 < (word_of_nat (length ls) :: u64)" unfolding word_less_nat_alt u using assms(1) by auto
    with root_from_leaf_count_eq [of "word_of_nat (length ls)"] assms(2) show ?thesis by (simp only: u)
  qed
  have h: "?h \<le> 63" using assms(2) by (rule tree_height_le_63)
  have ui: "unat (word_of_nat i :: u64) = i" using assms by (simp add: unat_of_nat)
  have leaf: "from_leaf_index (word_of_nat i) = Inr (node_at 0 i)"
    using from_leaf_index_unat [of "word_of_nat i"] assms by (simp add: ui)
  have ih: "i < 2 ^ ?h" using assms(1) tree_height_covers [of "length ls"] by linarith
  have "try_map (get_hash sha3 ls) (map (\<lambda>k. node_at k (sibling_pos (i div 2 ^ k))) [0..<?h]) =
      Inr (merkle_path sha3 ls ?h i)"
    unfolding merkle_path_def
  proof -
    have "get_hash sha3 ls (node_at k (sibling_pos (i div 2 ^ k))) =
        Inr (subtree_hash sha3 ls k (sibling_pos (i div 2 ^ k)))" if "k < ?h" for k
      using sibling_pos_valid [OF ih h that] assms by (intro get_hash_node_at) auto
    then have "try_map (get_hash sha3 ls \<circ> (\<lambda>k. node_at k (sibling_pos (i div 2 ^ k)))) [0..<?h] =
        Inr (map (\<lambda>k. subtree_hash sha3 ls k (sibling_pos (i div 2 ^ k))) [0..<?h])"
      by (intro try_map_eq_map) simp
    then show "try_map (get_hash sha3 ls) (map (\<lambda>k. node_at k (sibling_pos (i div 2 ^ k))) [0..<?h]) =
        Inr (map (\<lambda>k. subtree_hash sha3 ls k (sibling_pos (i div 2 ^ k))) [0..<?h])"
      by (simp add: try_map_map)
  qed
  with h show ?thesis
    by (simp add: get_proof_from_leaves_def Let_def root leaf level_node_at ancestor_siblings_node_at)
qed


subsection \<open>Appending subtrees\<close>

text \<open>
  The coordinates of the subtrees that \<^verbatim>\<open>FrozenSubtreeSiblingIterator\<close> visits between \<open>n\<close> and
  \<open>n + m\<close> leaves: as long as a subtree as large as the rightmost full one fits, it comes next;
  then the remaining leaves are split into powers of two, largest first.
\<close>

fun zeros_below :: "nat \<Rightarrow> nat" where
  "zeros_below n = (if n = 0 \<or> odd n then 0 else Suc (zeros_below (n div 2)))"

declare zeros_below.simps [simp del]

definition batch_level :: "nat \<Rightarrow> nat \<Rightarrow> nat" where
  "batch_level n m =
     (if 0 < n \<and> 2 ^ zeros_below n \<le> m then zeros_below n else bit_width m - 1)"

lemma batch_level_le: "0 < m \<Longrightarrow> 2 ^ batch_level n m \<le> m"
proof -
  assume m: "0 < m"
  then have "2 ^ bit_width m \<le> 2 * m" "bit_width m \<noteq> 0"
    using bit_width_bounds [of m] bit_width_pos [OF m] by auto
  then have "2 ^ (bit_width m - 1) \<le> m" by (cases "bit_width m") auto
  then show ?thesis by (simp add: batch_level_def)
qed

function new_subtrees :: "nat \<Rightarrow> nat \<Rightarrow> (nat \<times> nat) list" where
  "new_subtrees n m =
     (if m = 0 then []
      else let k = batch_level n m
           in (k, n div 2 ^ k) # new_subtrees (n + 2 ^ k) (m - 2 ^ k))"
  by pat_completeness auto
termination
  by (relation "measure snd") auto

declare new_subtrees.simps [simp del]

lemma zeros_below_even: "0 < r \<Longrightarrow> zeros_below (2 * r) = Suc (zeros_below r)"
  by (simp add: zeros_below.simps [of "2 * r"])

lemma zeros_below_props:
  assumes "0 < n"
  shows "odd (n div 2 ^ zeros_below n)" and "n div 2 ^ zeros_below n * 2 ^ zeros_below n = n"
proof -
  have "odd (n div 2 ^ zeros_below n) \<and> n div 2 ^ zeros_below n * 2 ^ zeros_below n = n"
    using assms
  proof (induction n rule: zeros_below.induct)
    case (1 n)
    show ?case
    proof (cases "odd n")
      case True
      then show ?thesis by (simp add: zeros_below.simps [of n])
    next
      case False
      then obtain r where r: "n = 2 * r" by auto
      with "1" False show ?thesis by (simp add: zeros_below_even mult.left_commute)
    qed
  qed
  then show "odd (n div 2 ^ zeros_below n)" and "n div 2 ^ zeros_below n * 2 ^ zeros_below n = n"
    by auto
qed

lemma zeros_below_eqI: "odd q \<Longrightarrow> zeros_below (q * 2 ^ k) = k"
proof (induction k)
  case 0
  then show ?case by (simp add: zeros_below.simps)
next
  case (Suc k)
  have "q * 2 ^ Suc k div 2 = q * 2 ^ k" by simp
  with Suc show ?case using odd_pos by (subst zeros_below.simps) auto
qed

lemma trailing_zeros_below:
  assumes "0 < n" and "n < 2 ^ 64"
  shows "trailing_zeros (word_of_nat n :: u64) = zeros_below n"
  using div_trailing_zeros [OF assms] zeros_below_eqI by metis

lemma zeros_below_carry: "odd q \<Longrightarrow> zeros_below (Suc q * 2 ^ l) = l + trailing_ones q"
proof (induction q arbitrary: l rule: trailing_ones.induct)
  case (1 q)
  then obtain r where r: "q = Suc (2 * r)" by (auto elim: oddE)
  have eq: "Suc q * 2 ^ l = Suc r * 2 ^ Suc l" by (simp add: r)
  show ?case
  proof (cases "odd r")
    case True
    with "1.IH" [OF "1.prems", of "Suc l"] show ?thesis
      unfolding eq by (simp add: r trailing_ones_odd)
  next
    case False
    then have "zeros_below (Suc r * 2 ^ Suc l) = Suc l" by (intro zeros_below_eqI) simp
    moreover have "trailing_ones r = 0" using False by (simp add: trailing_ones.simps)
    ultimately show ?thesis unfolding eq by (simp add: r trailing_ones_odd)
  qed
qed

lemma and_exp_eq_0_iff: "l \<le> 63 \<Longrightarrow> cur AND 2 ^ l = 0 \<longleftrightarrow> \<not> bit cur l" for cur :: u64
  unfolding bit_eq_iff [of "cur AND 2 ^ l" 0] by (auto simp: bit_and_iff bit_exp_iff dest!: spec [of _ l])

lemma carry_subtree_full_roots:
  assumes "Suc q * 2 ^ l \<le> length ls" and "length ls \<le> 2 ^ 63" and "unat cur div 2 ^ l = q"
  shows "\<exists>roots' h. carry_subtree sha3 (full_roots (subtree_hash sha3 ls) l q) cur (2 ^ l)
      (subtree_hash sha3 ls l q) = Inr (roots', 2 ^ (l + trailing_ones q), h) \<and>
    roots' @ [h] = full_roots (subtree_hash sha3 ls) l (Suc q)"
  using assms(1,3)
proof (induction q arbitrary: l rule: trailing_ones.induct)
  case (1 q)
  let ?sub = "subtree_hash sha3 ls"
  have "2 ^ l \<le> Suc q * 2 ^ l" by simp
  with "1.prems"(1) assms(2) have "(2 :: nat) ^ l \<le> 2 ^ 63" by linarith
  then have l: "l \<le> 63" by (rule power_le_imp_le_exp [rotated]) simp
  have b: "cur AND 2 ^ l = 0 \<longleftrightarrow> even q"
    unfolding and_exp_eq_0_iff [OF l] bit_unat_iff [symmetric] bit_nat_iff_odd_div
    by (simp add: "1.prems"(2))
  show ?case
  proof (cases "odd q")
    case True
    then obtain r where r: "q = Suc (2 * r)" by (auto elim: oddE)
    have up: "Suc r * 2 ^ Suc l \<le> length ls" using "1.prems"(1) by (simp add: r algebra_simps)
    have "r * 2 ^ Suc l < Suc r * 2 ^ Suc l" by simp
    with up have "r * 2 ^ Suc l < length ls" by (rule less_le_trans [rotated])
    then have hash: "combine sha3 (?sub l (2 * r)) (?sub l (Suc (2 * r))) = ?sub (Suc l) r"
      by simp
    have q2: "q div 2 = r" by (simp add: r)
    have "unat cur div 2 ^ Suc l = unat cur div 2 ^ l div 2" by (metis div_mult2_eq power_Suc2)
    then have cur: "unat cur div 2 ^ Suc l = r" unfolding "1.prems"(2) q2 .
    have "carry_subtree sha3 (full_roots ?sub l q) cur (2 ^ l) (?sub l q) =
        carry_subtree sha3 (full_roots ?sub (Suc l) r) cur (2 ^ Suc l) (?sub (Suc l) r)"
    proof -
      have pop: "vec_pop (full_roots ?sub l q) = Some (?sub l (2 * r), full_roots ?sub (Suc l) r)"
        unfolding r full_roots_odd by (rule vec_pop_snoc)
      have "push_bit 1 (2 ^ l) = (2 ^ Suc l :: u64)" by simp
      moreover have "combine sha3 (?sub l (2 * r)) (?sub l q) = ?sub (Suc l) r"
        using hash by (simp only: r)
      ultimately show ?thesis
        unfolding carry_subtree.simps [of sha3 "full_roots ?sub l q"] pop
        using b True by (simp only: hash_internal_node_combine) simp
    qed
    with "1.IH" [OF True, unfolded q2, OF up cur] show ?thesis
      using full_roots_even [of ?sub l "Suc r"] by (simp add: r trailing_ones_odd)
  next
    case False
    then obtain r where r: "q = 2 * r" by auto
    show ?thesis using b False
      by (subst carry_subtree.simps) (simp add: r full_roots_odd full_roots_even)
  qed
qed


lemma zeros_below_mult: "0 < q \<Longrightarrow> zeros_below (q * 2 ^ c) = zeros_below q + c"
proof (induction c)
  case (Suc c)
  have "q * 2 ^ Suc c = 2 * (q * 2 ^ c)" by simp
  moreover have "zeros_below (2 * (q * 2 ^ c)) = Suc (zeros_below (q * 2 ^ c))"
    using Suc.prems by (intro zeros_below_even) simp
  ultimately show ?case using Suc by (simp add: mult.left_commute)
qed simp

lemma bit_width_pred_bounds:
  assumes "0 < m"
  shows "2 ^ (bit_width m - 1) \<le> m" and "m < 2 * 2 ^ (bit_width m - 1)"
  using bit_width_bounds [of m] assms bit_width_pos [OF assms] by auto

abbreviation at_coords :: "(nat \<Rightarrow> nat \<Rightarrow> 'a) \<Rightarrow> nat \<times> nat \<Rightarrow> 'a" where
  "at_coords sub \<equiv> (\<lambda>(k, p). sub k p)"

text \<open>Leaves that do not complete the rightmost subtree only add smaller subtrees.\<close>

lemma full_roots_extend:
  "m < 2 ^ c \<Longrightarrow> full_roots sub 0 (q * 2 ^ c + m) =
    full_roots sub 0 (q * 2 ^ c) @ map (at_coords sub) (new_subtrees (q * 2 ^ c) m)"
proof (induction m arbitrary: q c rule: less_induct)
  case (less m)
  show ?case
  proof (cases "m = 0")
    case True
    then show ?thesis by (simp add: new_subtrees.simps)
  next
    case False
    define k where "k = bit_width m - 1"
    define n where "n = q * 2 ^ c"
    have k: "2 ^ k \<le> m" "m < 2 * 2 ^ k"
      using bit_width_pred_bounds [of m] False by (auto simp: k_def)
    have "(2 :: nat) ^ k < 2 ^ c" using k(1) less.prems by linarith
    then have kc: "k < c" by (rule power_less_imp_less_exp [rotated]) simp
    define r where "r = q * 2 ^ (c - Suc k)"
    have "(2 :: nat) ^ c = 2 ^ (c - Suc k) * 2 ^ Suc k" using kc by (simp flip: power_add power_Suc)
    then have nr: "n = 2 * r * 2 ^ k" by (simp add: n_def r_def)
    have lv: "batch_level n m = k"
    proof -
      have "m < 2 ^ zeros_below n" if "0 < n"
      proof -
        from that have "c \<le> zeros_below n" by (auto simp: n_def zeros_below_mult)
        then have "(2 :: nat) ^ c \<le> 2 ^ zeros_below n" by (intro power_increasing) auto
        with less.prems show ?thesis by linarith
      qed
      then show ?thesis by (auto simp: batch_level_def k_def)
    qed
    have div: "n div 2 ^ k = 2 * r" by (simp add: nr)
    have step: "new_subtrees n m = (k, 2 * r) # new_subtrees (n + 2 ^ k) (m - 2 ^ k)"
      using False by (simp add: new_subtrees.simps [of n m] lv div Let_def)
    have n': "n + 2 ^ k = Suc (2 * r) * 2 ^ k" by (simp add: nr)
    have "m - 2 ^ k < 2 ^ k" "m - 2 ^ k < m" using k False by auto
    from less.IH [OF this(2,1), of "Suc (2 * r)"]
    have "full_roots sub 0 (n + m) =
        full_roots sub 0 (n + 2 ^ k) @ map (at_coords sub) (new_subtrees (n + 2 ^ k) (m - 2 ^ k))"
      unfolding n' [symmetric] using k(1) by (simp only: add.assoc le_add_diff_inverse)
    moreover have "full_roots sub 0 (n + 2 ^ k) = full_roots sub 0 n @ [sub k (2 * r)]"
      unfolding n' unfolding nr unfolding full_roots_drop_zeros
      by (simp add: full_roots_odd full_roots_even)
    ultimately show ?thesis by (simp add: step flip: n_def)
  qed
qed

lemma checked_add_nat:
  "a + b < 2 ^ 64 \<Longrightarrow> checked_add (word_of_nat a :: u64) (word_of_nat b) = Inr (word_of_nat (a + b))"
  by (simp add: checked_add_def unat_of_nat)

lemma checked_sub_nat:
  "b \<le> a \<Longrightarrow> a < 2 ^ 64 \<Longrightarrow>
   checked_sub (word_of_nat a :: u64) (word_of_nat b) = Inr (word_of_nat (a - b))"
  by (simp add: checked_sub_def word_le_nat_alt unat_of_nat)

lemma word_le_nat: "a < 2 ^ 64 \<Longrightarrow> b < 2 ^ 64 \<Longrightarrow> (word_of_nat a :: u64) \<le> word_of_nat b \<longleftrightarrow> a \<le> b"
  by (simp add: word_le_nat_alt unat_of_nat)

lemma word_exp_nat: "(2 ^ k :: u64) = word_of_nat (2 ^ k)"
  by simp

lemma append_subtrees_loop_eq:
  fixes sha3 :: hasher
  assumes "0 < n" and "n + m = length ls" and "length ls \<le> 2 ^ 63"
  defines "sub \<equiv> subtree_hash sha3 ls"
  shows "\<exists>roots cur rem it.
    append_subtrees_loop sha3 (map (at_coords sub) (new_subtrees n m)) (full_roots sub 0 n)
      (word_of_nat n) (word_of_nat m) (2 ^ zeros_below n) =
      Inr (roots, word_of_nat cur, word_of_nat rem, it) \<and>
    roots @ it = full_roots sub 0 (n + m) \<and> cur + rem = n + m"
  using assms(1,2)
proof (induction m arbitrary: n rule: less_induct)
  case (less m)
  define t where "t = zeros_below n"
  define q where "q = n div 2 ^ t"
  note q = zeros_below_props [OF less.prems(1), folded t_def, folded q_def]
  have "2 ^ t \<le> q * 2 ^ t" using q(1) odd_pos [of q] by simp
  then have "2 ^ t \<le> n" by (simp add: q)
  then have t64: "2 ^ t < (2 :: nat) ^ 64" and n64: "n < 2 ^ 64" and m64: "m < 2 ^ 64"
    using less.prems(2) assms(3) by auto
  have fit: "(2 ^ t :: u64) \<le> word_of_nat m \<longleftrightarrow> 2 ^ t \<le> m"
    using word_le_nat [OF t64 m64] by simp
  show ?case
  proof (cases "2 ^ t \<le> m")
    case True
    have lv: "batch_level n m = t" using True less.prems(1) by (simp add: batch_level_def t_def)
    have m0: "0 < m" using True zero_less_power [of "2 :: nat" t] by linarith
    have items: "map (at_coords sub) (new_subtrees n m) =
        sub t q # map (at_coords sub) (new_subtrees (n + 2 ^ t) (m - 2 ^ t))"
      using m0 by (simp add: new_subtrees.simps [of n m] lv Let_def q_def)
    have n': "n + 2 ^ t = Suc q * 2 ^ t" using q(2) by simp
    have "unat (word_of_nat n :: u64) div 2 ^ t = q" using n64 by (simp add: unat_of_nat q_def)
    moreover have "Suc q * 2 ^ t \<le> length ls" using n' True less.prems(2) by simp
    ultimately obtain roots' h where carry: "carry_subtree sha3 (full_roots sub 0 n) (word_of_nat n)
          (2 ^ t) (sub t q) = Inr (roots', 2 ^ (t + trailing_ones q), h)"
      and roots': "roots' @ [h] = full_roots sub t (Suc q)"
      using carry_subtree_full_roots [of q t ls "word_of_nat n" sha3] assms(3)
        full_roots_drop_zeros [of sub 0 q t] q(2) by (auto simp: sub_def)
    have roots'': "roots' @ [h] = full_roots sub 0 (n + 2 ^ t)"
      unfolding roots' n' full_roots_drop_zeros by simp
    have mask': "(2 :: u64) ^ (t + trailing_ones q) = 2 ^ zeros_below (n + 2 ^ t)"
      unfolding n' by (simp add: zeros_below_carry [OF q(1)] del: mult_Suc)
    have add: "checked_add (word_of_nat n :: u64) (2 ^ t) = Inr (word_of_nat (n + 2 ^ t))"
      unfolding word_exp_nat using True less.prems(2) assms(3) by (intro checked_add_nat) simp
    have sub: "checked_sub (word_of_nat m :: u64) (2 ^ t) = Inr (word_of_nat (m - 2 ^ t))"
      unfolding word_exp_nat using True m64 by (intro checked_sub_nat)
    have "append_subtrees_loop sha3 (map (at_coords sub) (new_subtrees n m)) (full_roots sub 0 n)
        (word_of_nat n) (word_of_nat m) (2 ^ t) =
      append_subtrees_loop sha3 (map (at_coords sub) (new_subtrees (n + 2 ^ t) (m - 2 ^ t)))
        (full_roots sub 0 (n + 2 ^ t)) (word_of_nat (n + 2 ^ t)) (word_of_nat (m - 2 ^ t))
        (2 ^ zeros_below (n + 2 ^ t))"
      unfolding items append_subtrees_loop.simps [of sha3 "_ # _"] mask' [symmetric] roots'' [symmetric]
      using fit True by (simp only: list.case carry and_then_Inr add sub split_conv if_True)
    moreover have "m - 2 ^ t < m" "0 < n + 2 ^ t" "n + 2 ^ t + (m - 2 ^ t) = n + m"
      using True m0 by auto
    ultimately show ?thesis
      using less.IH [of "m - 2 ^ t" "n + 2 ^ t"] less.prems(2) unfolding t_def [symmetric]
      by simp
  next
    case False
    then have "full_roots sub 0 (n + m) = full_roots sub 0 n @ map (at_coords sub) (new_subtrees n m)"
      using full_roots_extend [of m t sub q] by (simp add: q)
    with False fit show ?thesis
      unfolding t_def [symmetric] append_subtrees_loop.simps [of sha3 "map _ _"] by auto
  qed
qed


lemma append_subtrees_eq:
  assumes "im_repr sha3 acc ls" and "length ls + length xs \<le> 2 ^ 63"
  shows "\<exists>acc'. append_subtrees sha3 acc
      (map (at_coords (subtree_hash sha3 (ls @ xs))) (new_subtrees (length ls) (length xs)))
      (word_of_nat (length xs)) = Inr acc' \<and> im_repr sha3 acc' (ls @ xs)"
proof -
  define sub where "sub = subtree_hash sha3 (ls @ xs)"
  define subs where "subs = map (at_coords sub) (new_subtrees (length ls) (length xs))"
  have num: "im_num_leaves acc = word_of_nat (length ls)" using assms(1) by (simp add: im_repr_def)
  have roots: "im_frozen_subtree_roots acc = full_roots sub 0 (length ls)"
    using assms(1) full_roots_append [of "length ls" 0 ls sha3 xs]
    by (simp add: im_repr_def frozen_roots_def sub_def)
  have len: "length (ls @ xs) \<le> 2 ^ 63" using assms(2) by simp
  obtain acc' where acc': "in_memory_new sha3 (full_roots sub 0 (length ls + length xs))
      (word_of_nat (length ls + length xs)) = Inr acc'" "im_repr sha3 acc' (ls @ xs)"
    using in_memory_new_frozen_roots [OF len, of sha3] by (auto simp: frozen_roots_def sub_def)
  have "MAX_ACCUMULATOR_LEAVES = word_of_nat (2 ^ 63)"
    by (simp add: MAX_ACCUMULATOR_LEAVES_def MAX_ACCUMULATOR_PROOF_DEPTH_def)
  then have room: "checked_sub MAX_ACCUMULATOR_LEAVES (im_num_leaves acc) =
      Inr (word_of_nat (2 ^ 63 - length ls))"
    using checked_sub_nat [of "length ls" "2 ^ 63"] assms(2) unfolding num by simp
  have fits: "(word_of_nat (length xs) :: u64) \<le> word_of_nat (2 ^ 63 - length ls)"
    using assms(2) by (subst word_le_nat) simp_all
  show ?thesis
  proof (cases "length ls = 0")
    case True
    have "length xs < 2 ^ 64" using assms(2) by simp
    with full_roots_extend [of "length xs" 64 sub 0] True
    have "subs = full_roots sub 0 (length ls + length xs)" by (simp add: subs_def)
    with acc' room fits True show ?thesis
      unfolding sub_def [symmetric] subs_def [symmetric] append_subtrees_def
      by (simp add: num del: of_nat_diff)
  next
    case False
    then have n: "0 < length ls" and n64: "length ls < 2 ^ 64" using assms(2) by auto
    have "length (ls @ xs) = length ls + length xs" by simp
    from append_subtrees_loop_eq [OF n this [symmetric] len, of sha3]
    obtain rs cur rem it where loop: "append_subtrees_loop sha3 subs (full_roots sub 0 (length ls))
        (word_of_nat (length ls)) (word_of_nat (length xs)) (2 ^ zeros_below (length ls)) =
        Inr (rs, word_of_nat cur, word_of_nat rem, it)"
      and rs: "rs @ it = full_roots sub 0 (length ls + length xs)"
      and cr: "cur + rem = length ls + length xs"
      unfolding subs_def sub_def by blast
    have add: "checked_add (word_of_nat cur :: u64) (word_of_nat rem) =
        Inr (word_of_nat (length ls + length xs))"
      unfolding cr [symmetric] using cr assms(2) by (intro checked_add_nat) simp
    have "zeros_below (length ls) < 64"
      using div_trailing_zeros(1) [OF n n64] trailing_zeros_below [OF n n64] by simp
    then have shl: "checked_shl (1 :: u64) (trailing_zeros (word_of_nat (length ls) :: u64)) =
        Inr (2 ^ zeros_below (length ls))"
      by (simp add: checked_shl_def trailing_zeros_below [OF n n64])
    have nz: "(word_of_nat (length ls) :: u64) \<noteq> 0"
      using word_of_nat_step(1) [OF n64] n by (metis less_irrefl)
    show ?thesis
      unfolding sub_def [symmetric] subs_def [symmetric] append_subtrees_def room and_then_Inr
      unfolding num roots using fits nz acc' rs
      by (simp add: shl loop add del: of_nat_diff of_nat_add)
  qed
qed

subsection \<open>The sibling iterator visits those subtrees\<close>

lemma next_new_leaf_batch_eq:
  assumes "0 < m" and "m < 2 ^ 64"
  shows "next_new_leaf_batch \<lparr>current_num_leaves = c, remaining_new_leaves = word_of_nat m\<rparr> =
    Inr (2 ^ (bit_width m - 1))"
proof -
  define k where "k = bit_width m - 1"
  let ?w = "word_of_nat m :: u64"
  have b: "bit ?w j \<longleftrightarrow> j < 64 \<and> bit m j" for j by (simp add: bit_word_of_nat_iff)
  have bk: "bit m k" "\<And>j. k < j \<Longrightarrow> \<not> bit m j"
    using bit_width_highest [OF assms(1)] by (auto simp: k_def)
  have k: "k < 64" using bit_width_le [OF assms(2)] bit_width_pos [OF assms(1)] by (simp add: k_def)
  have "leading_zeros ?w = LENGTH(64) - 1 - k"
    by (rule leading_zeros_eqI) (use b bk k in auto)
  with k show ?thesis
    by (simp add: next_new_leaf_batch_def MAX_ACCUMULATOR_PROOF_DEPTH_def checked_shl_def k_def)
qed

lemma batch_level_aligned:
  assumes "0 < m"
  shows "n div 2 ^ batch_level n m * 2 ^ batch_level n m = n"
proof -
  have "2 ^ batch_level n m dvd n"
  proof (cases "0 < n")
    case True
    have "bit_width m - 1 \<le> zeros_below n" if "m < 2 ^ zeros_below n"
    proof -
      have "(2 :: nat) ^ (bit_width m - 1) < 2 ^ zeros_below n"
        using bit_width_pred_bounds(1) [OF assms] that by linarith
      then have "bit_width m - 1 < zeros_below n" by (rule power_less_imp_less_exp [rotated]) simp
      then show ?thesis by simp
    qed
    then have "batch_level n m \<le> zeros_below n" using True by (auto simp: batch_level_def not_le)
    then have "(2 :: nat) ^ batch_level n m dvd 2 ^ zeros_below n" by (rule le_imp_power_dvd)
    also have "2 ^ zeros_below n dvd n" by (metis zeros_below_props(2) [OF True] dvd_triv_right)
    finally show ?thesis .
  qed simp
  then show ?thesis by simp
qed

lemma sibling_iter_next_eq:
  assumes m: "0 < m" and le: "n + m \<le> 2 ^ 63"
  defines "k \<equiv> batch_level n m"
  shows "sibling_iter_next
      \<lparr>current_num_leaves = word_of_nat n, remaining_new_leaves = word_of_nat m\<rparr> =
    Inr (Some (node_at k (n div 2 ^ k)),
         \<lparr>current_num_leaves = word_of_nat (n + 2 ^ k), remaining_new_leaves = word_of_nat (m - 2 ^ k)\<rparr>)"
proof -
  define p where "p = n div 2 ^ k"
  have pn: "p * 2 ^ k = n" unfolding p_def k_def by (rule batch_level_aligned [OF m])
  have km: "2 ^ k \<le> m" unfolding k_def by (rule batch_level_le [OF m])
  have le': "n + 2 ^ k \<le> 2 ^ 63" using km le by linarith
  then have "(2 :: nat) ^ k \<le> 2 ^ 63" by linarith
  then have k: "k \<le> 63" by (rule power_le_imp_le_exp [rotated]) simp
  have n64: "n < 2 ^ 64" and m64: "m < 2 ^ 64" using le by simp_all
  note wn = word_of_nat_step(1) [OF n64] and wm = word_of_nat_step(1) [OF m64]
  have mnz: "(word_of_nat m :: u64) \<noteq> 0" using wm m by (metis less_irrefl)
  have size: "(if (0 :: u64) < word_of_nat n
        then and_then (checked_shl 1 (trailing_zeros (word_of_nat n :: u64))) (\<lambda>rightmost.
               if rightmost \<le> word_of_nat m then Inr rightmost
               else next_new_leaf_batch \<lparr>current_num_leaves = word_of_nat n, remaining_new_leaves = word_of_nat m\<rparr>)
        else next_new_leaf_batch \<lparr>current_num_leaves = word_of_nat n, remaining_new_leaves = word_of_nat m\<rparr>) =
      Inr (2 ^ k)"
  proof (cases "0 < n")
    case True
    define z where "z = zeros_below n"
    have z: "z < 64"
      using div_trailing_zeros(1) [OF True n64] trailing_zeros_below [OF True n64] by (simp add: z_def)
    have "(2 :: nat) ^ z < 2 ^ 64" using z by (rule power_strict_increasing) simp
    then have "(2 ^ z :: u64) \<le> word_of_nat m \<longleftrightarrow> 2 ^ z \<le> m"
      unfolding word_exp_nat using m64 by (rule word_le_nat)
    with True z show ?thesis
      unfolding wn trailing_zeros_below [OF True n64] next_new_leaf_batch_eq [OF m m64]
      by (simp add: checked_shl_def k_def batch_level_def flip: z_def)
  next
    case False
    then show ?thesis
      unfolding wn next_new_leaf_batch_eq [OF m m64] by (simp add: k_def batch_level_def)
  qed
  have add: "checked_add (word_of_nat n :: u64) (2 ^ k) = Inr (word_of_nat (n + 2 ^ k))"
    unfolding word_exp_nat using le' by (intro checked_add_nat) simp
  have last: "checked_sub (word_of_nat (n + 2 ^ k) :: u64) 1 = Inr (word_of_nat (n + 2 ^ k - 1))"
  proof -
    have "checked_sub (word_of_nat (n + 2 ^ k) :: u64) (word_of_nat 1) = Inr (word_of_nat (n + 2 ^ k - 1))"
    proof (rule checked_sub_nat)
      show "1 \<le> n + 2 ^ k" using one_le_power [of "2 :: nat" k] by linarith
      show "n + 2 ^ k < 2 ^ 64" using le' by simp
    qed
    then show ?thesis by (simp only: of_nat_1)
  qed
  have rem: "checked_sub (word_of_nat m :: u64) (2 ^ k) = Inr (word_of_nat (m - 2 ^ k))"
    unfolding word_exp_nat using km m64 by (intro checked_sub_nat)
  have sum: "n + (n + 2 ^ k - 1) = p * 2 ^ Suc k + (2 ^ k - 1)"
  proof -
    have "p * 2 ^ Suc k = n + n" using pn by simp
    with zero_less_power [of "2 :: nat" k] show ?thesis by simp
  qed
  have root: "checked_add (word_of_nat n :: u64) (word_of_nat (n + 2 ^ k - 1)) = Inr (node_at k p)"
    unfolding node_at_def sum [symmetric] using le' by (intro checked_add_nat) simp
  show ?thesis
    unfolding sibling_iter_next_def p_def [symmetric] Let_def from_inorder_index_def
      FrozenSubtreeSiblingIterator.select_convs size
    using mnz by (simp only: if_False and_then_Inr add last rem root)
qed

text \<open>Draining the iterator yields the node indices of the new subtrees, in order.\<close>

lemma sibling_iter_drains:
  assumes "n + m \<le> 2 ^ 63" and "m < fuel"
  shows "sibling_iter_collect fuel
      \<lparr>current_num_leaves = word_of_nat n, remaining_new_leaves = word_of_nat m\<rparr> =
    Inr (map (at_coords node_at) (new_subtrees n m))"
  using assms
proof (induction m arbitrary: n fuel rule: less_induct)
  case (less m)
  from less.prems(2) obtain f where f: "fuel = Suc f" by (cases fuel) auto
  show ?case
  proof (cases "m = 0")
    case True
    then show ?thesis by (simp add: f sibling_iter_next_def new_subtrees.simps)
  next
    case False
    then have m: "0 < m" by simp
    let ?k = "batch_level n m"
    have k: "2 ^ ?k \<le> m" by (rule batch_level_le [OF m])
    have "m - 2 ^ ?k < m" "n + 2 ^ ?k + (m - 2 ^ ?k) \<le> 2 ^ 63" "m - 2 ^ ?k < f"
      using m k less.prems f zero_less_power [of "2 :: nat" ?k] by linarith+
    from less.IH [OF this] show ?thesis
      unfolding f sibling_iter_collect.simps sibling_iter_next_eq [OF m less.prems(1)]
      using m by (simp add: new_subtrees.simps [of n m] Let_def del: of_nat_add of_nat_diff)
  qed
qed

end
