(* ===== verification/Accumulator_Tree.thy ===== *)
theory Accumulator_Tree
  imports InMemory_Accumulator "HOL-Library.AList"
begin

text \<open>
  The persistent accumulator (\<^verbatim>\<open>accumulator/src/tree.rs\<close>, the wrapper \<^verbatim>\<open>MerkleAccumulator\<close> of
  \<^verbatim>\<open>lib.rs\<close> and the store of \<^verbatim>\<open>tree_store/mock.rs\<close>). Nodes are kept by hash in a pending map and
  in a store behind a trait; an LRU cache from node index to hash and a map of the full subtrees
  speed up lookups. The cache is the crate \<^verbatim>\<open>lru\<close>: its operations are parameters, and what the
  code relies on is the predicate \<open>lru_contract\<close>.
\<close>

section \<open>The operations of the source\<close>

type_synonym NodeCount = u64

definition MAX_CACHE_SIZE :: nat where
  "MAX_CACHE_SIZE = 65535"

text \<open>The operations of \<^verbatim>\<open>LruCache\<close> that the tree uses; \<open>lru_new\<close> takes the capacity.\<close>

record 'c lru_ops =
  lru_new :: "nat \<Rightarrow> 'c"
  lru_get :: "'c \<Rightarrow> NodeIndex \<Rightarrow> H256 option \<times> 'c"
  lru_put :: "'c \<Rightarrow> NodeIndex \<Rightarrow> H256 \<Rightarrow> 'c"

text \<open>The trait \<^verbatim>\<open>AccumulatorTreeStore\<close>.\<close>

record 'st AccumulatorTreeStore =
  ts_get_node :: "'st \<Rightarrow> H256 \<Rightarrow> AccumulatorNode option result"
  ts_save_node :: "AccumulatorNode \<Rightarrow> ('st, unit) action"
  ts_save_nodes :: "AccumulatorNode list \<Rightarrow> ('st, unit) action"
  ts_delete_nodes :: "H256 list \<Rightarrow> ('st, unit) action"

record ('c, 'st) env =
  env_sha3 :: hasher
  env_lru :: "'c lru_ops"
  env_store :: "'st AccumulatorTreeStore"

record ('c, 'st) AccumulatorTree =
  at_frozen_subtree_roots :: "H256 list"
  at_num_leaves :: LeafCount
  at_num_nodes :: NodeCount
  at_root_hash :: H256
  at_index_cache :: 'c
  at_store :: 'st
  at_update_nodes :: "(H256 \<times> AccumulatorNode) list"
  at_index_frozen_subtrees :: "NodeIndex \<rightharpoonup> H256"
  at_index_to_freeze :: "NodeIndex \<rightharpoonup> H256"

text \<open>\<^verbatim>\<open>FrozenSubTreeIterator::new(n).zip(roots)\<close>: the iterator is advanced first.\<close>

fun zip_frozen :: "nat \<Rightarrow> FrozenSubTreeIterator \<Rightarrow> H256 list \<Rightarrow> (NodeIndex \<times> H256) list result" where
  "zip_frozen 0 it roots = Inl (Panic ''iterator fuel exhausted'')"
| "zip_frozen (Suc fuel) it roots =
     and_then (frozen_iter_next it) (\<lambda>(x, it').
       case x of None \<Rightarrow> Inr []
       | Some p \<Rightarrow>
           (case roots of [] \<Rightarrow> Inr []
            | r # rs \<Rightarrow> and_then (zip_frozen fuel it' rs) (\<lambda>zs. Inr ((p, r) # zs))))"

text \<open>Collecting pairs into a \<^verbatim>\<open>HashMap\<close>: the last pair of a key wins.\<close>

definition collect_map :: "('k \<times> 'v) list \<Rightarrow> 'k \<rightharpoonup> 'v" where
  "collect_map kvs = map_of (rev kvs)"

definition tree_new ::
    "('c, 'st) env \<Rightarrow> H256 list \<Rightarrow> LeafCount \<Rightarrow> NodeCount \<Rightarrow> H256 \<Rightarrow> 'st \<Rightarrow>
     ('c, 'st) AccumulatorTree result" where
  "tree_new env frozen_subtree_roots num_leaves num_nodes root_hash store =
     and_then (if frozen_subtree_roots \<noteq> []
               then zip_frozen 65 (frozen_iter_new num_leaves) frozen_subtree_roots
               else Inr []) (\<lambda>frozen_subtrees.
     Inr \<lparr>at_frozen_subtree_roots = frozen_subtree_roots, at_num_leaves = num_leaves,
          at_num_nodes = num_nodes, at_root_hash = root_hash,
          at_index_cache = lru_new (env_lru env) MAX_CACHE_SIZE, at_store = store,
          at_update_nodes = [], at_index_frozen_subtrees = collect_map frozen_subtrees,
          at_index_to_freeze = Map.empty\<rparr>)"

definition tree_new_empty :: "('c, 'st) env \<Rightarrow> 'st \<Rightarrow> ('c, 'st) AccumulatorTree result" where
  "tree_new_empty env store = tree_new env [] 0 0 ACCUMULATOR_PLACEHOLDER_HASH store"

definition get_node_frozen_hash ::
    "NodeIndex \<Rightarrow> (('c, 'st) AccumulatorTree, H256 option) action" where
  "get_node_frozen_hash index =
     get_act (\<lambda>t. case at_index_frozen_subtrees t index of
                  Some h \<Rightarrow> Some h
                | None \<Rightarrow> at_index_to_freeze t index)"

definition index_to_freeze_insert ::
    "NodeIndex \<Rightarrow> H256 \<Rightarrow> (('c, 'st) AccumulatorTree, unit) action" where
  "index_to_freeze_insert index hash =
     modify_act (\<lambda>t. t\<lparr>at_index_to_freeze := (at_index_to_freeze t)(index \<mapsto> hash)\<rparr>)"

text \<open>
  The left sibling of a right child: the last pending one, or one frozen earlier. Both loops of
  \<^verbatim>\<open>append\<close> build the parent this way.
\<close>

definition join_left ::
    "NodeIndex \<Rightarrow> H256 \<Rightarrow> (NodeIndex \<times> H256) list \<Rightarrow>
     (('c, 'st) AccumulatorTree, AccumulatorNode \<times> (NodeIndex \<times> H256) list) action" where
  "join_left pos hash left_siblings =
     (case vec_pop left_siblings of
        Some ((x, left_hash), left_siblings') \<Rightarrow>
          bind_act (lift_act (assert_that (x = sibling pos) ''assertion failed: left == right'')) (\<lambda>_.
          return_act (new_internal (parent pos) left_hash hash, left_siblings'))
      | None \<Rightarrow>
          bind_act (get_node_frozen_hash (sibling pos)) (\<lambda>left_hash.
          return_act (new_internal (parent pos)
             (case left_hash of Some h \<Rightarrow> h | None \<Rightarrow> ACCUMULATOR_PLACEHOLDER_HASH) hash,
             left_siblings)))"

text \<open>The \<^verbatim>\<open>while pos.is_right_child()\<close> loop: every step goes one level up.\<close>

lemma right_child_level:
  assumes "is_right_child x"
  shows "level x < 63" and "level (parent x) = Suc (level x)"
proof -
  have "x \<noteq> - 1" using assms by (auto simp: is_right_child_def is_left_child_def isolate_rightmost_zero_bit_def)
  then obtain l p where v: "valid_pos l p" and x: "x = node_at l p" using node_at_surj by blast
  have "l \<noteq> 63"
  proof
    assume l: "l = 63"
    with v have "x = node_at 63 0" by (simp add: x valid_pos_def)
    then have "is_left_child x"
      by (simp add: is_left_child_def isolate_node_at bit_eq_iff [of "_ AND _"] bit_and_iff
          bit_push_bit_iff bit_one_bit flip: push_bit_eq_mult)
    with assms show False by (simp add: is_right_child_def)
  qed
  with v have l: "l < 63" by (simp add: valid_pos_def)
  then show "level x < 63" and "level (parent x) = Suc (level x)"
    by (simp_all add: x parent_node_at level_node_at)
qed

function freeze_parents ::
    "hasher \<Rightarrow> NodeIndex \<Rightarrow> H256 \<Rightarrow> AccumulatorNode list \<Rightarrow> (NodeIndex \<times> H256) list \<Rightarrow> NodeCount \<Rightarrow>
     (('c, 'st) AccumulatorTree,
      NodeIndex \<times> H256 \<times> AccumulatorNode list \<times> (NodeIndex \<times> H256) list \<times> NodeCount) action" where
  "freeze_parents sha3 pos hash to_freeze left_siblings new_num_nodes =
     (if is_right_child pos then
        bind_act (join_left pos hash left_siblings) (\<lambda>(internal_node, left_siblings').
        let hash' = node_hash sha3 internal_node in
        bind_act (index_to_freeze_insert (node_index internal_node) hash') (\<lambda>_.
        bind_act (lift_act (checked_add new_num_nodes 1)) (\<lambda>new_num_nodes'.
        freeze_parents sha3 (parent pos) hash' (to_freeze @ [internal_node]) left_siblings'
          new_num_nodes')))
      else return_act (pos, hash, to_freeze, left_siblings, new_num_nodes))"
  by pat_completeness auto
termination
proof (relation "measure (\<lambda>(sha3, pos, hash, to_freeze, left_siblings, n). 64 - level pos)",
    goal_cases)
  case (2 sha3 pos)
  then show ?case using right_child_level [of pos] by simp
qed simp

declare freeze_parents.simps [simp del]

text \<open>One round of the loop over the new leaves.\<close>

type_synonym append_locals =
  "AccumulatorNode list \<times> (NodeIndex \<times> H256) list \<times> NodeCount"

definition append_leaf ::
    "hasher \<Rightarrow> u64 \<Rightarrow> H256 \<Rightarrow> append_locals \<Rightarrow> (('c, 'st) AccumulatorTree, append_locals) action" where
  "append_leaf sha3 leaf_offset leaf locals =
     (case locals of (to_freeze, left_siblings, new_num_nodes) \<Rightarrow>
       bind_act (get_act at_num_leaves) (\<lambda>num_leaves.
       bind_act (lift_act (checked_add num_leaves leaf_offset)) (\<lambda>leaf_index.
       bind_act (lift_act (from_leaf_index leaf_index)) (\<lambda>leaf_pos.
       bind_act (index_to_freeze_insert leaf_pos leaf) (\<lambda>_.
       bind_act (lift_act (checked_add new_num_nodes 1)) (\<lambda>new_num_nodes'.
       bind_act (freeze_parents sha3 leaf_pos leaf (to_freeze @ [new_leaf leaf_pos leaf])
                   left_siblings new_num_nodes') (\<lambda>(pos, hash, to_freeze', left_siblings', n').
       return_act (to_freeze', left_siblings' @ [(pos, hash)], n'))))))))"

fun append_leaves ::
    "hasher \<Rightarrow> u64 \<Rightarrow> H256 list \<Rightarrow> append_locals \<Rightarrow>
     (('c, 'st) AccumulatorTree, append_locals) action" where
  "append_leaves sha3 leaf_offset [] locals = return_act locals"
| "append_leaves sha3 leaf_offset (leaf # leaves) locals =
     bind_act (append_leaf sha3 leaf_offset leaf locals) (\<lambda>locals'.
     append_leaves sha3 (leaf_offset + 1) leaves locals')"

text \<open>The \<^verbatim>\<open>for _ in pos.level()..root_level\<close> loop up to the root.\<close>

fun climb_to_root ::
    "hasher \<Rightarrow> nat \<Rightarrow> NodeIndex \<Rightarrow> H256 \<Rightarrow> (NodeIndex \<times> H256) list \<Rightarrow> AccumulatorNode list \<Rightarrow>
     (('c, 'st) AccumulatorTree, H256 \<times> AccumulatorNode list) action" where
  "climb_to_root sha3 0 pos hash left_siblings not_frozen = return_act (hash, not_frozen)"
| "climb_to_root sha3 (Suc k) pos hash left_siblings not_frozen =
     bind_act
       (if is_left_child pos
        then return_act (new_internal (parent pos) hash ACCUMULATOR_PLACEHOLDER_HASH, left_siblings)
        else join_left pos hash left_siblings) (\<lambda>(node, left_siblings').
     climb_to_root sha3 k (parent pos) (node_hash sha3 node) left_siblings' (not_frozen @ [node]))"

definition update_temp_nodes ::
    "hasher \<Rightarrow> AccumulatorNode list \<Rightarrow> (('c, 'st) AccumulatorTree, unit) action" where
  "update_temp_nodes sha3 nodes =
     modify_act (\<lambda>t. t\<lparr>at_update_nodes :=
       foldl (\<lambda>m node. AList.update (node_hash sha3 node) node m) (at_update_nodes t) nodes\<rparr>)"

definition save_node_indexes ::
    "('c, 'st) env \<Rightarrow> AccumulatorNode list \<Rightarrow> (('c, 'st) AccumulatorTree, unit) action" where
  "save_node_indexes env nodes =
     modify_act (\<lambda>t. t\<lparr>at_index_cache :=
       foldl (\<lambda>c node. lru_put (env_lru env) c (node_index node) (node_hash (env_sha3 env) node))
         (at_index_cache t) nodes\<rparr>)"

text \<open>\<^verbatim>\<open>scan_frozen_subtree_roots\<close>: lazily, so that the first missing root ends the scan.\<close>

fun scan_frozen_loop ::
    "nat \<Rightarrow> FrozenSubTreeIterator \<Rightarrow> (('c, 'st) AccumulatorTree, H256 list) action" where
  "scan_frozen_loop 0 it = lift_act (Inl (Panic ''iterator fuel exhausted''))"
| "scan_frozen_loop (Suc fuel) it =
     bind_act (lift_act (frozen_iter_next it)) (\<lambda>(x, it').
       case x of None \<Rightarrow> return_act []
       | Some p \<Rightarrow>
           bind_act (get_node_frozen_hash p) (\<lambda>h.
           bind_act (lift_act (ok_or h ''frozen root must have value, but get none'')) (\<lambda>r.
           bind_act (scan_frozen_loop fuel it') (\<lambda>rs. return_act (r # rs)))))"

definition scan_frozen_subtree_roots :: "(('c, 'st) AccumulatorTree, H256 list) action" where
  "scan_frozen_subtree_roots =
     bind_act (get_act at_num_leaves) (\<lambda>n. scan_frozen_loop 65 (frozen_iter_new n))"

text \<open>
  \<^verbatim>\<open>max_to_freeze\<close> is the capacity of a vector; its \<^verbatim>\<open>precondition!\<close>s are annotations without
  effect at run time, its arithmetic is checked.
\<close>

definition max_to_freeze :: "u64 \<Rightarrow> nat \<Rightarrow> u64 result" where
  "max_to_freeze num_new_leaves root_level =
     and_then (if unat num_new_leaves * 2 < 2 ^ 64 then Inr (num_new_leaves * 2)
               else Inl (Panic ''attempt to multiply with overflow'')) (\<lambda>d.
     checked_add d (word_of_nat root_level))"

definition tree_append ::
    "('c, 'st) env \<Rightarrow> H256 list \<Rightarrow> (('c, 'st) AccumulatorTree, H256) action" where
  "tree_append env new_leaves =
     (if new_leaves = [] then
        get_act (\<lambda>t. if at_num_leaves t = 0 then ACCUMULATOR_PLACEHOLDER_HASH else at_root_hash t)
      else
        let sha3 = env_sha3 env; num_new_leaves = word_of_nat (length new_leaves) in
        bind_act (get_act at_num_leaves) (\<lambda>num_leaves.
        bind_act (lift_act (checked_add num_leaves num_new_leaves)) (\<lambda>last_new_leaf_count.
        bind_act (get_act at_num_nodes) (\<lambda>num_nodes.
        bind_act (lift_act (root_level_from_leaf_count last_new_leaf_count)) (\<lambda>root_level.
        bind_act (lift_act (max_to_freeze num_new_leaves root_level)) (\<lambda>_.
        bind_act (append_leaves sha3 0 new_leaves ([], [], num_nodes))
          (\<lambda>(to_freeze, left_siblings, new_num_nodes).
        bind_act (lift_act (expect (vec_pop left_siblings) ''Must have at least one node''))
          (\<lambda>((pos, hash), left_siblings').
        bind_act (climb_to_root sha3 (root_level - level pos) pos hash left_siblings' [])
          (\<lambda>(hash', not_frozen_nodes).
        let nodes = not_frozen_nodes @ to_freeze in
        bind_act (update_temp_nodes sha3 nodes) (\<lambda>_.
        bind_act (save_node_indexes env nodes) (\<lambda>_.
        bind_act (modify_act (\<lambda>t. t\<lparr>at_root_hash := hash', at_num_leaves := last_new_leaf_count\<rparr>)) (\<lambda>_.
        bind_act scan_frozen_subtree_roots (\<lambda>roots.
        bind_act (modify_act (\<lambda>t. t\<lparr>at_frozen_subtree_roots := roots\<rparr>)) (\<lambda>_.
        bind_act (lift_act (zip_frozen 65 (frozen_iter_new last_new_leaf_count) roots)) (\<lambda>pairs.
        bind_act (modify_act (\<lambda>t. t\<lparr>at_index_frozen_subtrees := collect_map pairs,
                    at_index_to_freeze := Map.empty, at_num_nodes := new_num_nodes\<rparr>)) (\<lambda>_.
        return_act hash'))))))))))))))))"

definition get_node ::
    "('c, 'st) env \<Rightarrow> ('c, 'st) AccumulatorTree \<Rightarrow> H256 \<Rightarrow> AccumulatorNode option result" where
  "get_node env t hash =
     (case map_of (at_update_nodes t) hash of
        Some node \<Rightarrow> Inr (Some node)
      | None \<Rightarrow> ts_get_node (env_store env) (at_store t) hash)"

definition tree_flush :: "('c, 'st) env \<Rightarrow> (('c, 'st) AccumulatorTree, unit) action" where
  "tree_flush env t =
     (if at_update_nodes t \<noteq> [] then
        (case ts_save_nodes (env_store env) (map snd (at_update_nodes t)) (at_store t) of
           (Inl e, store') \<Rightarrow> (Inl e, t\<lparr>at_store := store'\<rparr>)
         | (Inr _, store') \<Rightarrow> (Inr (), t\<lparr>at_store := store', at_update_nodes := []\<rparr>))
      else (Inr (), t))"


section \<open>Reading the tree\<close>

definition get_node_index ::
    "('c, 'st) env \<Rightarrow> NodeIndex \<Rightarrow> ('c, 'st) AccumulatorTree \<Rightarrow>
     H256 option \<times> ('c, 'st) AccumulatorTree" where
  "get_node_index env key t =
     (case lru_get (env_lru env) (at_index_cache t) key of
        (h, c) \<Rightarrow> (h, t\<lparr>at_index_cache := c\<rparr>))"

text \<open>The \<^verbatim>\<open>for _i in 0..level\<close> loop: the nearest ancestor in the cache.\<close>

fun find_cached_ancestor ::
    "('c, 'st) env \<Rightarrow> nat \<Rightarrow> NodeIndex \<Rightarrow> ('c, 'st) AccumulatorTree \<Rightarrow>
     H256 option \<times> ('c, 'st) AccumulatorTree" where
  "find_cached_ancestor env 0 temp_index t = (None, t)"
| "find_cached_ancestor env (Suc k) temp_index t =
     (case get_node_index env (parent temp_index) t of
        (Some h, t') \<Rightarrow> (Some h, t')
      | (None, t') \<Rightarrow> find_cached_ancestor env k (parent temp_index) t')"

text \<open>
  The \<^verbatim>\<open>while let\<close> loop over the stack of hashes. On a store whose nodes refer to each other in a
  cycle it does not end; each round takes one unit of fuel.
\<close>

fun walk_down ::
    "('c, 'st) env \<Rightarrow> ('c, 'st) AccumulatorTree \<Rightarrow> nat \<Rightarrow> NodeIndex \<Rightarrow> H256 list \<Rightarrow> H256 result" where
  "walk_down env t 0 index hash_vec = Inl (Panic ''lookup does not end'')"
| "walk_down env t (Suc fuel) index hash_vec =
     (case vec_pop hash_vec of
        None \<Rightarrow> Inl (Fail ''node hash not found'')
      | Some (temp_node_hash, hash_vec') \<Rightarrow>
          and_then (get_node env t temp_node_hash) (\<lambda>node.
          case node of
            Some (Internal internal) \<Rightarrow>
              (let internal_index = in_index internal in
               if internal_index = index then Inr (internal_node_hash (env_sha3 env) internal)
               else if internal_index = parent index then
                 and_then (left_child internal_index) (\<lambda>left_index.
                 if left_index = index then Inr (in_left internal)
                 else
                   and_then (right_child internal_index) (\<lambda>right_index.
                   if right_index = index then Inr (in_right internal)
                   else walk_down env t fuel index hash_vec'))
               else if to_inorder_index internal_index > to_inorder_index index then
                 (if in_left internal \<noteq> ACCUMULATOR_PLACEHOLDER_HASH then
                    and_then (left_child internal_index) (\<lambda>left_index.
                    walk_down env t fuel index (if \<not> is_leaf left_index then hash_vec' @ [in_left internal] else hash_vec'))
                  else walk_down env t fuel index hash_vec')
               else
                 (if in_right internal \<noteq> ACCUMULATOR_PLACEHOLDER_HASH then
                    and_then (right_child internal_index) (\<lambda>right_index.
                    walk_down env t fuel index (if \<not> is_leaf right_index then hash_vec' @ [in_right internal] else hash_vec'))
                  else walk_down env t fuel index hash_vec'))
          | Some (Leaf leaf) \<Rightarrow>
              if ln_index leaf = index then Inr (ln_hash leaf)
              else walk_down env t fuel index hash_vec'
          | _ \<Rightarrow> Inl (Fail ''can not find accumulator node by hash in store'')))"

definition get_node_hash_always ::
    "('c, 'st) env \<Rightarrow> nat \<Rightarrow> NodeIndex \<Rightarrow> (('c, 'st) AccumulatorTree, H256) action" where
  "get_node_hash_always env fuel index t =
     (case at_index_frozen_subtrees t index of
        Some h \<Rightarrow> (Inr h, t)
      | None \<Rightarrow>
          (case get_node_index env index t of
             (Some h, t') \<Rightarrow> (Inr h, t')
           | (None, t') \<Rightarrow>
               (case root_from_leaf_count (at_num_leaves t') of
                  Inl e \<Rightarrow> (Inl e, t')
                | Inr root_index \<Rightarrow>
                    (case find_cached_ancestor env (level root_index + 1) index t' of
                       (parent_hash, t'') \<Rightarrow>
                         (walk_down env t'' fuel index
                            [case parent_hash of Some h \<Rightarrow> h | None \<Rightarrow> at_root_hash t''], t'')))))"

definition rightmost_leaf_index :: "('c, 'st) AccumulatorTree \<Rightarrow> u64" where
  "rightmost_leaf_index t = (if at_num_leaves t = 0 then 0 else at_num_leaves t - 1)"

definition get_node_hash ::
    "('c, 'st) env \<Rightarrow> nat \<Rightarrow> NodeIndex \<Rightarrow> (('c, 'st) AccumulatorTree, H256 option) action" where
  "get_node_hash env fuel index =
     bind_act (get_act rightmost_leaf_index) (\<lambda>idx.
     bind_act (lift_act (is_placeholder index idx)) (\<lambda>placeholder.
     if placeholder then return_act None
     else bind_act (get_node_hash_always env fuel index) (\<lambda>h. return_act (Some h))))"

definition get_siblings ::
    "('c, 'st) env \<Rightarrow> nat \<Rightarrow> u64 \<Rightarrow> (NodeIndex \<Rightarrow> bool) \<Rightarrow>
     (('c, 'st) AccumulatorTree, H256 list) action" where
  "get_siblings env fuel leaf_index flt =
     bind_act (get_act at_num_leaves) (\<lambda>num_leaves.
     bind_act (lift_act (root_from_leaf_count num_leaves)) (\<lambda>root_pos.
     bind_act (lift_act (from_leaf_index leaf_index)) (\<lambda>leaf.
     try_map_act (get_node_hash_always env fuel)
       (filter flt (ancestor_siblings (level root_pos) leaf)))))"

section \<open>The wrapper \<^verbatim>\<open>MerkleAccumulator\<close>\<close>

text \<open>Its only field is the tree behind a lock, held for the length of each operation.\<close>

definition accumulator_new_with_info ::
    "('c, 'st) env \<Rightarrow> AccumulatorInfo \<Rightarrow> 'st \<Rightarrow> ('c, 'st) AccumulatorTree result" where
  "accumulator_new_with_info env acc_info store =
     tree_new env (ai_frozen_subtree_roots acc_info) (ai_num_leaves acc_info)
       (ai_num_nodes acc_info) (ai_accumulator_root acc_info) store"

definition accumulator_get_info :: "('c, 'st) AccumulatorTree \<Rightarrow> AccumulatorInfo" where
  "accumulator_get_info t =
     \<lparr>ai_accumulator_root = at_root_hash t, ai_frozen_subtree_roots = at_frozen_subtree_roots t,
      ai_num_leaves = at_num_leaves t, ai_num_nodes = at_num_nodes t\<rparr>"

definition accumulator_fork ::
    "('c, 'st) env \<Rightarrow> ('c, 'st) AccumulatorTree \<Rightarrow> AccumulatorInfo option \<Rightarrow>
     ('c, 'st) AccumulatorTree result" where
  "accumulator_fork env t info =
     accumulator_new_with_info env
       (case info of Some i \<Rightarrow> i | None \<Rightarrow> accumulator_get_info t) (at_store t)"

definition get_leaf ::
    "('c, 'st) env \<Rightarrow> nat \<Rightarrow> u64 \<Rightarrow> (('c, 'st) AccumulatorTree, H256 option) action" where
  "get_leaf env fuel leaf_index =
     bind_act (lift_act (from_leaf_index leaf_index)) (\<lambda>x. get_node_hash env fuel x)"

definition leaf_or_error ::
    "('c, 'st) env \<Rightarrow> nat \<Rightarrow> u64 \<Rightarrow> (('c, 'st) AccumulatorTree, H256) action" where
  "leaf_or_error env fuel idx =
     bind_act (get_leaf env fuel idx) (\<lambda>h.
     lift_act (ok_or h ''Can not find accumulator leaf by index''))"

definition saturating_add :: "u64 \<Rightarrow> u64 \<Rightarrow> u64" where
  "saturating_add a b = (if unat a + unat b < 2 ^ 64 then a + b else - 1)"

definition saturating_sub :: "u64 \<Rightarrow> u64 \<Rightarrow> u64" where
  "saturating_sub a b = (if b \<le> a then a - b else 0)"

definition index_range :: "u64 \<Rightarrow> u64 \<Rightarrow> u64 list" where
  "index_range first past = map word_of_nat [unat first..<unat past]"

definition get_leaves ::
    "('c, 'st) env \<Rightarrow> nat \<Rightarrow> u64 \<Rightarrow> bool \<Rightarrow> u64 \<Rightarrow> (('c, 'st) AccumulatorTree, H256 list) action" where
  "get_leaves env fuel start_index reverse max_size =
     bind_act (get_act at_num_leaves) (\<lambda>num_leaves.
     if reverse then
       let past = min (saturating_add start_index 1) num_leaves;
           first = saturating_sub past max_size
       in try_map_act (leaf_or_error env fuel) (rev (index_range first past))
     else
       let past = min (saturating_add start_index max_size) num_leaves
       in try_map_act (leaf_or_error env fuel) (index_range start_index past))"

definition get_node_by_position ::
    "('c, 'st) env \<Rightarrow> nat \<Rightarrow> u64 \<Rightarrow> (('c, 'st) AccumulatorTree, H256 option) action" where
  "get_node_by_position env fuel position = get_node_hash env fuel (from_inorder_index position)"

definition get_proof ::
    "('c, 'st) env \<Rightarrow> nat \<Rightarrow> u64 \<Rightarrow> (('c, 'st) AccumulatorTree, AccumulatorProof option) action" where
  "get_proof env fuel leaf_index =
     bind_act (get_act at_num_leaves) (\<lambda>num_leaves.
     if leaf_index > num_leaves then return_act None
     else bind_act (get_siblings env fuel leaf_index (\<lambda>_. True)) (\<lambda>sibs.
          return_act (Some \<lparr>siblings = sibs\<rparr>)))"

section \<open>The store of \<^verbatim>\<open>tree_store/mock.rs\<close>\<close>

type_synonym MockAccumulatorStore = "H256 \<rightharpoonup> AccumulatorNode"

definition mock_store_new :: MockAccumulatorStore where
  "mock_store_new = Map.empty"

definition mock_get_node :: "MockAccumulatorStore \<Rightarrow> H256 \<Rightarrow> AccumulatorNode option result" where
  "mock_get_node store hash =
     (case store hash of Some node \<Rightarrow> Inr (Some node) | None \<Rightarrow> Inl (Fail ''get node is null''))"

definition mock_save_node :: "hasher \<Rightarrow> AccumulatorNode \<Rightarrow> (MockAccumulatorStore, unit) action" where
  "mock_save_node sha3 node = modify_act (\<lambda>store. store(node_hash sha3 node \<mapsto> node))"

definition mock_save_nodes :: "hasher \<Rightarrow> AccumulatorNode list \<Rightarrow> (MockAccumulatorStore, unit) action" where
  "mock_save_nodes sha3 nodes =
     modify_act (\<lambda>store. foldl (\<lambda>m node. m(node_hash sha3 node \<mapsto> node)) store nodes)"

definition mock_delete_nodes :: "H256 list \<Rightarrow> (MockAccumulatorStore, unit) action" where
  "mock_delete_nodes hashes =
     modify_act (\<lambda>store. foldl (\<lambda>m h. m(h := None)) store hashes)"

definition mock_store :: "hasher \<Rightarrow> MockAccumulatorStore AccumulatorTreeStore" where
  "mock_store sha3 =
     \<lparr>ts_get_node = mock_get_node, ts_save_node = mock_save_node sha3,
      ts_save_nodes = mock_save_nodes sha3, ts_delete_nodes = mock_delete_nodes\<rparr>"

end
