(* ===== verification/Accumulator_Refinement.thy ===== *)
theory Accumulator_Refinement
  imports Accumulator_Tree
begin

text \<open>
  The persistent accumulator refines the reference Merkle tree: the representation invariant of
  \<^verbatim>\<open>AccumulatorTree\<close>, its preservation by \<^verbatim>\<open>append\<close> and \<^verbatim>\<open>flush\<close>, and what the lookups and
  proofs return. The interface to the node store is the locale \<open>accumulator_store\<close>, interpreted
  on the store of \<^verbatim>\<open>tree_store/mock.rs\<close>.
\<close>

section \<open>Nodes of the reference tree\<close>

definition tree_node :: "hasher \<Rightarrow> H256 list \<Rightarrow> nat \<Rightarrow> nat \<Rightarrow> AccumulatorNode" where
  "tree_node sha3 ls l p =
     (if l = 0 then new_leaf (node_at 0 p) (subtree_hash sha3 ls 0 p)
      else new_internal (node_at l p) (subtree_hash sha3 ls (l - 1) (2 * p))
             (subtree_hash sha3 ls (l - 1) (2 * p + 1)))"

lemma tree_node_index [simp]: "node_index (tree_node sha3 ls l p) = node_at l p"
  by (simp add: tree_node_def)

lemma tree_node_hash [simp]:
  "p * 2 ^ l < length ls \<Longrightarrow> node_hash sha3 (tree_node sha3 ls l p) = subtree_hash sha3 ls l p"
  by (cases l) (simp_all add: tree_node_def)

lemma tree_node_Suc:
  "tree_node sha3 ls (Suc l) p =
   new_internal (node_at (Suc l) p) (subtree_hash sha3 ls l (2 * p)) (subtree_hash sha3 ls l (2 * p + 1))"
  by (simp add: tree_node_def)

lemma valid_posI: "l \<le> 63 \<Longrightarrow> p * 2 ^ l < 2 ^ 63 \<Longrightarrow> valid_pos l p"
proof -
  assume l: "l \<le> 63" and p: "p * 2 ^ l < 2 ^ 63"
  have "(2 :: nat) ^ 63 = 2 ^ (63 - l) * 2 ^ l" using l by (simp flip: power_add)
  with p have "p * 2 ^ l < 2 ^ (63 - l) * 2 ^ l" by simp
  then have "p < 2 ^ (63 - l)" by (rule mult_less_cancel2 [THEN iffD1, THEN conjunct2])
  with l show ?thesis by (simp add: valid_pos_def)
qed

lemma valid_pos_full:
  assumes "Suc p * 2 ^ l \<le> 2 ^ 63"
  shows "valid_pos l p"
proof (rule valid_posI)
  have "(2 :: nat) ^ l \<le> Suc p * 2 ^ l" by simp
  with assms have "(2 :: nat) ^ l \<le> 2 ^ 63" by linarith
  then show "l \<le> 63" by (rule power_le_imp_le_exp [rotated]) simp
  have "p * 2 ^ l < Suc p * 2 ^ l" by simp
  with assms show "p * 2 ^ l < 2 ^ 63" by linarith
qed

section \<open>Pending left siblings\<close>

text \<open>
  The stack of \<^verbatim>\<open>append\<close>: the full subtrees among the first \<open>q\<close> nodes of level \<open>l\<close> that
  were not full in the tree of \<open>n0\<close> leaves.
\<close>

definition pending ::
    "hasher \<Rightarrow> H256 list \<Rightarrow> nat \<Rightarrow> nat \<Rightarrow> nat \<Rightarrow> (NodeIndex \<times> H256) list" where
  "pending sha3 ls n0 l q =
     map (\<lambda>(l, p). (node_at l p, subtree_hash sha3 ls l p))
       (filter (\<lambda>(l, p). n0 < Suc p * 2 ^ l) (full_roots Pair l q))"

lemma pending_0 [simp]: "pending sha3 ls n0 l 0 = []"
  by (simp add: pending_def)

lemma pending_even: "pending sha3 ls n0 l (2 * r) = pending sha3 ls n0 (Suc l) r"
  by (simp add: pending_def full_roots_even)

lemma pending_odd:
  "pending sha3 ls n0 l (Suc (2 * r)) = pending sha3 ls n0 (Suc l) r @
     (if n0 < Suc (2 * r) * 2 ^ l then [(node_at l (2 * r), subtree_hash sha3 ls l (2 * r))] else [])"
  by (simp add: pending_def full_roots_odd)

lemma full_roots_Pair_le:
  "(l', p') \<in> set (full_roots Pair l q) \<Longrightarrow> Suc p' * 2 ^ l' \<le> q * 2 ^ l"
proof (induction "Pair :: nat \<Rightarrow> nat \<Rightarrow> nat \<times> nat" l q rule: full_roots.induct)
  case (1 l q)
  show ?case
  proof (cases "(l', p') \<in> set (full_roots Pair (Suc l) (q div 2))")
    case True
    moreover from this have "q \<noteq> 0" by (cases "q = 0") auto
    ultimately have "Suc p' * 2 ^ l' \<le> q div 2 * 2 ^ Suc l" using "1.hyps" by blast
    also have "\<dots> = (q div 2 * 2) * 2 ^ l" by simp
    also have "\<dots> \<le> q * 2 ^ l" by (intro mult_le_mono1) simp
    finally show ?thesis .
  next
    case False
    with "1.prems" have "odd q" "l' = l" "p' = q - 1"
      by (auto simp: full_roots.simps [of Pair l q] split: if_splits)
    then show ?thesis using odd_pos [of q] by simp
  qed
qed

lemma pending_old: "q * 2 ^ l \<le> n0 \<Longrightarrow> pending sha3 ls n0 l q = []"
  by (auto simp: pending_def filter_empty_conv dest: full_roots_Pair_le)

section \<open>The index of full subtrees\<close>

text \<open>
  What the append loop knows of the two index maps: entries are right, and the full subtrees of
  the first \<open>n0\<close> leaves are there.
\<close>

definition frozen_index_ok ::
    "hasher \<Rightarrow> H256 list \<Rightarrow> nat \<Rightarrow> (NodeIndex \<rightharpoonup> H256) \<Rightarrow> bool" where
  "frozen_index_ok sha3 ls n0 m \<longleftrightarrow>
     (\<forall>x h. m x = Some h \<longrightarrow>
        (\<exists>l p. valid_pos l p \<and> Suc p * 2 ^ l \<le> n0 \<and> x = node_at l p \<and>
               h = subtree_hash sha3 ls l p)) \<and>
     (\<forall>b. bit n0 b \<longrightarrow> m (node_at b (frozen_pos n0 b)) \<noteq> None)"

definition to_freeze_ok ::
    "hasher \<Rightarrow> H256 list \<Rightarrow> (nat \<Rightarrow> nat \<Rightarrow> bool) \<Rightarrow> (NodeIndex \<rightharpoonup> H256) \<Rightarrow> bool" where
  "to_freeze_ok sha3 ls P m \<longleftrightarrow>
     (\<forall>l p. valid_pos l p \<and> P l p \<longrightarrow> m (node_at l p) = Some (subtree_hash sha3 ls l p))"

lemma frozen_index_lookup:
  assumes "frozen_index_ok sha3 ls n0 m" and "valid_pos l p" and "m (node_at l p) = Some h"
  shows "h = subtree_hash sha3 ls l p"
proof -
  from assms(1,3) obtain l' p' where v: "valid_pos l' p'" and "node_at l p = node_at l' p'"
    and h: "h = subtree_hash sha3 ls l' p'" unfolding frozen_index_ok_def by blast
  with assms(2) have "l = l' \<and> p = p'" using node_at_inject by blast
  with h show ?thesis by simp
qed

lemma get_node_frozen_hash_old:
  assumes "frozen_index_ok sha3 ls n0 (at_index_frozen_subtrees t)" and "valid_pos l p"
    and "bit n0 l" and "p = frozen_pos n0 l"
  shows "get_node_frozen_hash (node_at l p) t = (Inr (Some (subtree_hash sha3 ls l p)), t)"
proof -
  have "at_index_frozen_subtrees t (node_at l p) \<noteq> None"
    using assms(1,3,4) unfolding frozen_index_ok_def by blast
  then obtain h where h: "at_index_frozen_subtrees t (node_at l p) = Some h" by blast
  with frozen_index_lookup [OF assms(1,2) h] show ?thesis
    by (simp add: get_node_frozen_hash_def)
qed

lemma get_node_frozen_hash_new:
  assumes "frozen_index_ok sha3 ls n0 (at_index_frozen_subtrees t)" and "valid_pos l p"
    and "to_freeze_ok sha3 ls P (at_index_to_freeze t)" and "P l p"
  shows "get_node_frozen_hash (node_at l p) t = (Inr (Some (subtree_hash sha3 ls l p)), t)"
  using assms frozen_index_lookup [OF assms(1,2)]
  by (auto simp: get_node_frozen_hash_def to_freeze_ok_def split: option.splits)

lemma old_left_sibling:
  assumes "Suc (2 * r) * 2 ^ l \<le> n0" and "n0 < Suc (Suc (2 * r)) * 2 ^ l"
  shows "bit n0 l" and "frozen_pos n0 l = 2 * r"
proof -
  have "n0 div 2 ^ l = Suc (2 * r)" using assms by (intro div_nat_eqI) (simp_all add: mult.commute)
  then show "bit n0 l" and "frozen_pos n0 l = 2 * r" by (simp_all add: bit_iff_odd frozen_pos_def)
qed

text \<open>Joining a right child with its left sibling, in either loop.\<close>

lemma join_left_eq:
  assumes l: "l < 63" and idx: "frozen_index_ok sha3 ls n0 (at_index_frozen_subtrees t)"
    and n0: "n0 < Suc (Suc (2 * r)) * 2 ^ l" "n0 \<le> 2 ^ 63"
  shows "join_left (node_at l (Suc (2 * r))) h (pending sha3 ls n0 l (Suc (2 * r))) t =
    (Inr (new_internal (node_at (Suc l) r) (subtree_hash sha3 ls l (2 * r)) h,
          pending sha3 ls n0 (Suc l) r), t)"
proof -
  have sib: "sibling (node_at l (Suc (2 * r))) = node_at l (2 * r)"
    and par: "parent (node_at l (Suc (2 * r))) = node_at (Suc l) r"
    using l by (simp_all add: sibling_node_at parent_node_at sibling_pos_def)
  show ?thesis
  proof (cases "n0 < Suc (2 * r) * 2 ^ l")
    case True
    then show ?thesis by (simp add: join_left_def pending_odd sib par)
  next
    case False
    then have old: "Suc (2 * r) * 2 ^ l \<le> n0" by simp
    note sibling_old = old_left_sibling [OF old n0(1)]
    have "valid_pos l (2 * r)" using frozen_pos_valid [OF sibling_old(1) n0(2)] sibling_old(2) by simp
    with idx sibling_old have "get_node_frozen_hash (node_at l (2 * r)) t =
        (Inr (Some (subtree_hash sha3 ls l (2 * r))), t)"
      by (intro get_node_frozen_hash_old) auto
    moreover have "r * 2 ^ Suc l \<le> n0"
    proof -
      have "r * 2 ^ Suc l \<le> Suc (2 * r) * 2 ^ l" by simp
      with old show ?thesis by linarith
    qed
    then have "pending sha3 ls n0 (Suc l) r = []" by (rule pending_old)
    ultimately show ?thesis using pending_old [OF old]
      by (simp add: join_left_def sib par)
  qed
qed


lemma to_freeze_insert:
  assumes "to_freeze_ok sha3 ls P m" and "valid_pos l p"
    and "\<And>l' p'. Q l' p' \<Longrightarrow> P l' p' \<or> l' = l \<and> p' = p"
  shows "to_freeze_ok sha3 ls Q (m(node_at l p \<mapsto> subtree_hash sha3 ls l p))"
  unfolding to_freeze_ok_def
proof (intro allI impI, elim conjE)
  fix l' p'
  assume v: "valid_pos l' p'" and q: "Q l' p'"
  show "(m(node_at l p \<mapsto> subtree_hash sha3 ls l p)) (node_at l' p') =
      Some (subtree_hash sha3 ls l' p')"
  proof (cases "l' = l \<and> p' = p")
    case False
    then have "P l' p'" using assms(3) [OF q] by blast
    moreover have "node_at l' p' \<noteq> node_at l p" using False node_at_inject [OF v assms(2)] by blast
    ultimately show ?thesis using assms(1) v by (simp add: to_freeze_ok_def)
  qed simp
qed

lemma to_freeze_weaken:
  "to_freeze_ok sha3 ls P m \<Longrightarrow> (\<And>l p. Q l p \<Longrightarrow> P l p) \<Longrightarrow> to_freeze_ok sha3 ls Q m"
  by (auto simp: to_freeze_ok_def)

section \<open>The loops of append\<close>

text \<open>The full subtrees that end after leaf \<open>n0\<close> and up to leaf \<open>n\<close>.\<close>

abbreviation frozen_between :: "nat \<Rightarrow> nat \<Rightarrow> nat \<Rightarrow> nat \<Rightarrow> bool" where
  "frozen_between n0 n \<equiv> (\<lambda>l p. n0 < Suc p * 2 ^ l \<and> Suc p * 2 ^ l \<le> n)"

abbreviation frozen_climb :: "nat \<Rightarrow> nat \<Rightarrow> nat \<Rightarrow> nat \<Rightarrow> nat \<Rightarrow> bool" where
  "frozen_climb n0 n l \<equiv>
     (\<lambda>l' p'. frozen_between n0 n l' p' \<or> Suc p' * 2 ^ l' = Suc n \<and> l' \<le> l)"

lemma same_end_level:
  assumes "odd q" and "Suc p' * 2 ^ l' = q * 2 ^ l"
  shows "l' \<le> l"
proof -
  have "zeros_below (Suc p' * 2 ^ l') = zeros_below (Suc p') + l'" by (rule zeros_below_mult) simp
  moreover have "zeros_below (q * 2 ^ l) = l" using assms(1) by (rule zeros_below_eqI)
  ultimately show ?thesis using assms(2) by simp
qed

lemma same_end_pos: "Suc r * 2 ^ l = e \<Longrightarrow> Suc p * 2 ^ l = e \<Longrightarrow> p = r"
  by (metis mult_cancel2 nat.inject power_not_zero zero_neq_numeral)

definition ending_above :: "(nat \<Rightarrow> nat \<Rightarrow> 'a) \<Rightarrow> nat \<Rightarrow> nat \<Rightarrow> 'a set" where
  "ending_above f e l = {f l' p' |l' p'. Suc p' * 2 ^ l' = e \<and> l < l'}"

lemma ending_above_step:
  assumes "Suc r * 2 ^ Suc l = e"
  shows "ending_above f e l = insert (f (Suc l) r) (ending_above f e (Suc l))"
proof (intro equalityI subsetI)
  fix x
  assume "x \<in> ending_above f e l"
  then obtain l' p' where x: "x = f l' p'" and e: "Suc p' * 2 ^ l' = e" and l: "l < l'"
    unfolding ending_above_def by blast
  show "x \<in> insert (f (Suc l) r) (ending_above f e (Suc l))"
  proof (cases "l' = Suc l")
    case True
    with e have "p' = r" using same_end_pos [OF assms] by blast
    with True x show ?thesis by simp
  next
    case False
    with l have "Suc l < l'" by simp
    with x e show ?thesis unfolding ending_above_def by blast
  qed
next
  fix x
  assume "x \<in> insert (f (Suc l) r) (ending_above f e (Suc l))"
  then show "x \<in> ending_above f e l"
  proof (rule insertE)
    assume "x = f (Suc l) r"
    with assms show ?thesis unfolding ending_above_def by blast
  next
    assume "x \<in> ending_above f e (Suc l)"
    then show ?thesis unfolding ending_above_def using Suc_lessD by blast
  qed
qed

lemma freeze_parents_eq:
  assumes "length ls \<le> 2 ^ 63" and "n0 \<le> n" and "Suc n \<le> length ls"
    and "Suc q * 2 ^ l = Suc n"
    and "frozen_index_ok sha3 ls n0 (at_index_frozen_subtrees t)"
    and "to_freeze_ok sha3 ls (frozen_climb n0 n l) (at_index_to_freeze t)"
    and "num + trailing_ones q < 2 ^ 64"
  shows "\<exists>pos hash nodes left m.
    freeze_parents sha3 (node_at l q) (subtree_hash sha3 ls l q) tf (pending sha3 ls n0 l q)
      (word_of_nat num) t =
      (Inr (pos, hash, tf @ nodes, left, word_of_nat (num + trailing_ones q)),
       t\<lparr>at_index_to_freeze := m\<rparr>) \<and>
    left @ [(pos, hash)] = pending sha3 ls n0 l (Suc q) \<and>
    set nodes = ending_above (tree_node sha3 ls) (Suc n) l \<and>
    to_freeze_ok sha3 ls (frozen_between n0 (Suc n)) m"
  using assms(4-)
proof (induction q arbitrary: l tf num t rule: trailing_ones.induct)
  case (1 q)
  let ?sub = "subtree_hash sha3 ls"
  have vq: "valid_pos l q" using "1.prems"(1) assms(1,3) by (intro valid_pos_full) simp
  show ?case
  proof (cases "odd q")
    case True
    then obtain r where r: "q = Suc (2 * r)" by (auto elim: oddE)
    have q2: "q div 2 = r" and to1: "trailing_ones q = Suc (trailing_ones r)"
      by (simp_all add: r trailing_ones_odd)
    have up: "Suc r * 2 ^ Suc l = Suc n" using "1.prems"(1) by (simp add: r algebra_simps)
    have vr: "valid_pos (Suc l) r" using up assms(1,3) by (intro valid_pos_full) simp
    then have l: "l < 63" by (simp add: valid_pos_def)
    have "n0 < Suc (Suc (2 * r)) * 2 ^ l" "n0 \<le> 2 ^ 63"
      using "1.prems"(1) assms(1-3) by (simp_all add: r)
    note join = join_left_eq [OF l "1.prems"(2) this]
    have "r * 2 ^ Suc l < Suc r * 2 ^ Suc l" by simp
    then have below: "r * 2 ^ Suc l < length ls" using up assms(3) by linarith
    have node: "new_internal (node_at (Suc l) r) (?sub l (2 * r)) (?sub l q) = tree_node sha3 ls (Suc l) r"
      by (simp add: tree_node_Suc r)
    define m' where "m' = (at_index_to_freeze t)(node_at (Suc l) r \<mapsto> ?sub (Suc l) r)"
    define t' where "t' = t\<lparr>at_index_to_freeze := m'\<rparr>"
    have add: "checked_add (word_of_nat num :: u64) 1 = Inr (word_of_nat (Suc num))"
      using checked_add_nat [of num 1] "1.prems"(4) to1 by simp
    have "is_right_child (node_at l q)" "parent (node_at l q) = node_at (Suc l) r"
      using l by (simp_all add: is_right_child_node_at parent_node_at r)
    then have step: "freeze_parents sha3 (node_at l q) (?sub l q) tf (pending sha3 ls n0 l q)
        (word_of_nat num) t =
      freeze_parents sha3 (node_at (Suc l) r) (?sub (Suc l) r) (tf @ [tree_node sha3 ls (Suc l) r])
        (pending sha3 ls n0 (Suc l) r) (word_of_nat (Suc num)) t'"
      using join [of "?sub l q", folded r, unfolded node] below add
      by (subst freeze_parents.simps)
        (simp add: index_to_freeze_insert_def t'_def m'_def Let_def del: subtree_hash.simps of_nat_Suc)
    have ok: "to_freeze_ok sha3 ls (frozen_climb n0 n (Suc l)) m'"
      unfolding m'_def using "1.prems"(3) vr
    proof (rule to_freeze_insert)
      fix l' p'
      assume q: "frozen_climb n0 n (Suc l) l' p'"
      have "p' = r" if "l' = Suc l" "Suc p' * 2 ^ l' = Suc n"
        using same_end_pos [OF up] that by blast
      with q show "frozen_climb n0 n l l' p' \<or> l' = Suc l \<and> p' = r" by (auto simp: le_Suc_eq)
    qed
    have num: "Suc num + trailing_ones r < 2 ^ 64" using "1.prems"(4) by (simp add: to1)
    have idx': "frozen_index_ok sha3 ls n0 (at_index_frozen_subtrees t')"
      using "1.prems"(2) by (simp add: t'_def)
    have ok': "to_freeze_ok sha3 ls (frozen_climb n0 n (Suc l)) (at_index_to_freeze t')"
      using ok by (simp add: t'_def)
    obtain pos hash nodes left m where
      res: "freeze_parents sha3 (node_at (Suc l) r) (?sub (Suc l) r)
          (tf @ [tree_node sha3 ls (Suc l) r]) (pending sha3 ls n0 (Suc l) r)
          (word_of_nat (Suc num)) t' =
        (Inr (pos, hash, (tf @ [tree_node sha3 ls (Suc l) r]) @ nodes, left,
          word_of_nat (Suc num + trailing_ones r)), t'\<lparr>at_index_to_freeze := m\<rparr>)"
      and left: "left @ [(pos, hash)] = pending sha3 ls n0 (Suc l) (Suc r)"
      and nodes: "set nodes = ending_above (tree_node sha3 ls) (Suc n) (Suc l)"
      and m: "to_freeze_ok sha3 ls (frozen_between n0 (Suc n)) m"
      using "1.IH" [OF True, unfolded q2, OF up idx' ok' num,
          of "tf @ [tree_node sha3 ls (Suc l) r]"] by blast
    have "pending sha3 ls n0 l (Suc q) = pending sha3 ls n0 (Suc l) (Suc r)"
      using pending_even [of sha3 ls n0 l "Suc r"] by (simp add: r)
    moreover have "set (tree_node sha3 ls (Suc l) r # nodes) =
        ending_above (tree_node sha3 ls) (Suc n) l"
      using nodes by (simp add: ending_above_step [OF up])
    ultimately show ?thesis
      using res left m unfolding step
      by (intro exI [of _ pos] exI [of _ hash] exI [of _ "tree_node sha3 ls (Suc l) r # nodes"]
          exI [of _ left] exI [of _ m]) (simp add: t'_def to1)
  next
    case False
    then obtain r where r: "q = 2 * r" by auto
    have nr: "\<not> is_right_child (node_at l q)"
    proof
      assume "is_right_child (node_at l q)"
      moreover from this have "l < 63"
        using right_child_level(1) [of "node_at l q"] vq by (simp add: level_node_at valid_pos_def)
      ultimately show False using False by (simp add: is_right_child_node_at)
    qed
    have top: "l' \<le> l" if "Suc p' * 2 ^ l' = Suc n" for l' p'
      using same_end_level [of "Suc q" p' l' l] False "1.prems"(1) that by simp
    have "to_freeze_ok sha3 ls (frozen_between n0 (Suc n)) (at_index_to_freeze t)"
      using "1.prems"(3) by (rule to_freeze_weaken) (use top in \<open>auto simp: le_Suc_eq\<close>)
    moreover have "pending sha3 ls n0 l q @ [(node_at l q, ?sub l q)] = pending sha3 ls n0 l (Suc q)"
    proof -
      have "n0 < Suc (2 * r) * 2 ^ l" using "1.prems"(1) assms(2) by (simp add: r)
      then show ?thesis by (simp add: r pending_odd pending_even)
    qed
    moreover have "set [] = ending_above (tree_node sha3 ls) (Suc n) l"
      unfolding ending_above_def using top leD by auto
    moreover have "freeze_parents sha3 (node_at l q) (?sub l q) tf (pending sha3 ls n0 l q)
        (word_of_nat num) t =
      (Inr (node_at l q, ?sub l q, tf @ [], pending sha3 ls n0 l q,
        word_of_nat (num + trailing_ones q)), t\<lparr>at_index_to_freeze := at_index_to_freeze t\<rparr>)"
    proof -
      have "trailing_ones q = 0" by (simp add: r)
      with nr show ?thesis by (subst freeze_parents.simps) simp
    qed
    ultimately show ?thesis by blast
  qed
qed


text \<open>The number of frozen nodes of a tree with \<open>n\<close> leaves.\<close>

fun node_count :: "nat \<Rightarrow> nat" where
  "node_count 0 = 0"
| "node_count (Suc n) = node_count n + Suc (trailing_ones n)"

lemma length_full_roots_Suc:
  "length (full_roots f l (Suc q)) + trailing_ones q = Suc (length (full_roots f l q))"
proof (induction q arbitrary: l rule: trailing_ones.induct)
  case (1 q)
  show ?case
  proof (cases "odd q")
    case True
    then obtain r where r: "q = Suc (2 * r)" by (auto elim: oddE)
    have "q div 2 = r" by (simp add: r)
    from "1.IH" [OF True, unfolded this, of "Suc l"] show ?thesis
      using full_roots_even [of f l "Suc r"] by (simp add: r full_roots_odd trailing_ones_odd)
  next
    case False
    then obtain r where r: "q = 2 * r" by auto
    show ?thesis by (simp add: r full_roots_odd full_roots_even)
  qed
qed

text \<open>Two per leaf, less one per full subtree.\<close>

lemma node_count_full_roots: "node_count n + length (full_roots f 0 n) = 2 * n"
proof (induction n)
  case (Suc n)
  then show ?case using length_full_roots_Suc [of f 0 n] by simp
qed simp

lemma node_count_mono: "m \<le> n \<Longrightarrow> node_count m \<le> node_count n"
  by (induction n rule: dec_induct) auto

lemma node_count_less: "n \<le> 2 ^ 63 \<Longrightarrow> node_count n < 2 ^ 64"
proof (cases "n = 0")
  case False
  assume "n \<le> 2 ^ 63"
  then have "2 * n \<le> 2 ^ 64" by simp
  moreover have "0 < length (full_roots Pair 0 n)" using False by simp
  ultimately show ?thesis using node_count_full_roots [of n Pair] by linarith
qed simp

definition frozen_nodes :: "hasher \<Rightarrow> H256 list \<Rightarrow> nat \<Rightarrow> nat \<Rightarrow> AccumulatorNode set" where
  "frozen_nodes sha3 ls n0 n = {tree_node sha3 ls l p |l p. frozen_between n0 n l p}"

lemma frozen_nodes_Suc:
  assumes "n0 \<le> n"
  shows "frozen_nodes sha3 ls n0 (Suc n) =
    frozen_nodes sha3 ls n0 n \<union> insert (tree_node sha3 ls 0 n) (ending_above (tree_node sha3 ls) (Suc n) 0)"
proof -
  have split: "frozen_between n0 (Suc n) l p \<longleftrightarrow>
      frozen_between n0 n l p \<or> (l = 0 \<and> p = n) \<or> (Suc p * 2 ^ l = Suc n \<and> 0 < l)" for l p
    using assms by (cases "l = 0") auto
  show ?thesis unfolding frozen_nodes_def ending_above_def split by blast
qed

lemma frozen_nodes_empty [simp]: "frozen_nodes sha3 ls n n = {}"
  by (auto simp: frozen_nodes_def)

lemma append_leaf_eq:
  assumes ls: "length ls \<le> 2 ^ 63" and n: "n0 \<le> n" "n < length ls"
    and num0: "at_num_leaves t = word_of_nat n0"
    and idx: "frozen_index_ok sha3 ls n0 (at_index_frozen_subtrees t)"
    and itf: "to_freeze_ok sha3 ls (frozen_between n0 n) (at_index_to_freeze t)"
    and tf: "set tf = frozen_nodes sha3 ls n0 n"
  shows "\<exists>tf' m. append_leaf sha3 (word_of_nat (n - n0)) (ls ! n)
      (tf, pending sha3 ls n0 0 n, word_of_nat (node_count n)) t =
      (Inr (tf', pending sha3 ls n0 0 (Suc n), word_of_nat (node_count (Suc n))),
       t\<lparr>at_index_to_freeze := m\<rparr>) \<and>
    set tf' = frozen_nodes sha3 ls n0 (Suc n) \<and>
    to_freeze_ok sha3 ls (frozen_between n0 (Suc n)) m"
proof -
  define m0 where "m0 = (at_index_to_freeze t)(node_at 0 n \<mapsto> ls ! n)"
  define t0 where "t0 = t\<lparr>at_index_to_freeze := m0\<rparr>"
  have v: "valid_pos 0 n" using n ls by (simp add: valid_pos_def)
  have leaf: "subtree_hash sha3 ls 0 n = ls ! n" using n by simp
  have idx0: "frozen_index_ok sha3 ls n0 (at_index_frozen_subtrees t0)" using idx by (simp add: t0_def)
  have "to_freeze_ok sha3 ls (frozen_climb n0 n 0) m0"
    unfolding m0_def leaf [symmetric] using itf v by (rule to_freeze_insert) auto
  then have itf0: "to_freeze_ok sha3 ls (frozen_climb n0 n 0) (at_index_to_freeze t0)"
    by (simp add: t0_def)
  have c64: "node_count (Suc n) < 2 ^ 64" using n ls by (intro node_count_less) simp
  then have num: "Suc (node_count n) + trailing_ones n < 2 ^ 64" by simp
  have add: "checked_add (word_of_nat (node_count n) :: u64) 1 = Inr (word_of_nat (Suc (node_count n)))"
    using checked_add_nat [of "node_count n" 1] num by simp
  have pos: "checked_add (word_of_nat n0 :: u64) (word_of_nat (n - n0)) = Inr (word_of_nat n)"
    using checked_add_nat [of n0 "n - n0"] n ls by simp
  from freeze_parents_eq [OF ls n(1) _ _ idx0 itf0 num, of "tf @ [new_leaf (node_at 0 n) (ls ! n)]"] n
  obtain p hash nodes left m where
    res: "freeze_parents sha3 (node_at 0 n) (ls ! n) (tf @ [new_leaf (node_at 0 n) (ls ! n)])
        (pending sha3 ls n0 0 n) (word_of_nat (Suc (node_count n))) t0 =
      (Inr (p, hash, (tf @ [new_leaf (node_at 0 n) (ls ! n)]) @ nodes, left,
        word_of_nat (node_count (Suc n))), t0\<lparr>at_index_to_freeze := m\<rparr>)"
    and left: "left @ [(p, hash)] = pending sha3 ls n0 0 (Suc n)"
    and nodes: "set nodes = ending_above (tree_node sha3 ls) (Suc n) 0"
    and m: "to_freeze_ok sha3 ls (frozen_between n0 (Suc n)) m"
    by (auto simp: leaf)
  have "new_leaf (node_at 0 n) (ls ! n) = tree_node sha3 ls 0 n"
    using n by (simp add: tree_node_def)
  then have "set (tf @ [new_leaf (node_at 0 n) (ls ! n)] @ nodes) = frozen_nodes sha3 ls n0 (Suc n)"
    using tf nodes by (simp add: frozen_nodes_Suc [OF n(1)])
  moreover have "append_leaf sha3 (word_of_nat (n - n0)) (ls ! n)
      (tf, pending sha3 ls n0 0 n, word_of_nat (node_count n)) t =
    (Inr (tf @ [new_leaf (node_at 0 n) (ls ! n)] @ nodes, pending sha3 ls n0 0 (Suc n),
       word_of_nat (node_count (Suc n))), t\<lparr>at_index_to_freeze := m\<rparr>)"
    unfolding append_leaf_def
    using res left pos add
    by (simp add: num0 from_leaf_index_node_at [OF v] index_to_freeze_insert_def t0_def m0_def
        del: of_nat_Suc of_nat_diff node_count.simps)
  ultimately show ?thesis using m by blast
qed


lemma append_leaves_eq:
  assumes ls: "length ls \<le> 2 ^ 63" and n: "n0 \<le> n" "n + length xs = length ls" "drop n ls = xs"
    and num0: "at_num_leaves t = word_of_nat n0"
    and idx: "frozen_index_ok sha3 ls n0 (at_index_frozen_subtrees t)"
    and itf: "to_freeze_ok sha3 ls (frozen_between n0 n) (at_index_to_freeze t)"
    and tf: "set tf = frozen_nodes sha3 ls n0 n"
  shows "\<exists>tf' m. append_leaves sha3 (word_of_nat (n - n0)) xs
      (tf, pending sha3 ls n0 0 n, word_of_nat (node_count n)) t =
      (Inr (tf', pending sha3 ls n0 0 (length ls), word_of_nat (node_count (length ls))),
       t\<lparr>at_index_to_freeze := m\<rparr>) \<and>
    set tf' = frozen_nodes sha3 ls n0 (length ls) \<and>
    to_freeze_ok sha3 ls (frozen_between n0 (length ls)) m"
  using n num0 idx itf tf
proof (induction xs arbitrary: n t tf)
  case Nil
  then show ?case
    by (intro exI [of _ tf] exI [of _ "at_index_to_freeze t"]) simp
next
  case (Cons x xs)
  have nl: "n < length ls" using Cons.prems(2) by simp
  have x: "ls ! n = x" and dr: "drop (Suc n) ls = xs"
    using Cons.prems(3) nl by (simp_all add: Cons_nth_drop_Suc [symmetric])
  from append_leaf_eq [OF ls Cons.prems(1) nl Cons.prems(4-7)]
  obtain tf' m where step: "append_leaf sha3 (word_of_nat (n - n0)) x
      (tf, pending sha3 ls n0 0 n, word_of_nat (node_count n)) t =
      (Inr (tf', pending sha3 ls n0 0 (Suc n), word_of_nat (node_count (Suc n))),
       t\<lparr>at_index_to_freeze := m\<rparr>)"
    and tf': "set tf' = frozen_nodes sha3 ls n0 (Suc n)"
    and m: "to_freeze_ok sha3 ls (frozen_between n0 (Suc n)) m"
    unfolding x by blast
  have off: "(word_of_nat (n - n0) :: u64) + 1 = word_of_nat (Suc n - n0)"
    using Cons.prems(1) by (simp add: Suc_diff_le del: of_nat_diff)
  have "n0 \<le> Suc n" "Suc n + length xs = length ls" using Cons.prems(1,2) by simp_all
  from Cons.IH [OF this dr, of "t\<lparr>at_index_to_freeze := m\<rparr>" tf'] Cons.prems(4,5) m tf'
  obtain tf'' m' where "append_leaves sha3 (word_of_nat (Suc n - n0)) xs
      (tf', pending sha3 ls n0 0 (Suc n), word_of_nat (node_count (Suc n)))
      (t\<lparr>at_index_to_freeze := m\<rparr>) =
      (Inr (tf'', pending sha3 ls n0 0 (length ls), word_of_nat (node_count (length ls))),
       t\<lparr>at_index_to_freeze := m'\<rparr>)"
    and "set tf'' = frozen_nodes sha3 ls n0 (length ls)"
    and "to_freeze_ok sha3 ls (frozen_between n0 (length ls)) m'"
    by auto
  then show ?case using step unfolding append_leaves.simps
    by (auto simp: off simp del: of_nat_diff node_count.simps)
qed

text \<open>The nodes on the way from the last leaf to the root, from level \<open>l + 1\<close> to level \<open>h\<close>.\<close>

lemma climb_to_root_eq:
  assumes ls: "length ls \<le> 2 ^ 63" and n0: "n0 < length ls"
    and "l + k \<le> 63" and "p = (length ls - 1) div 2 ^ l"
    and idx: "frozen_index_ok sha3 ls n0 (at_index_frozen_subtrees t)"
  shows "climb_to_root sha3 k (node_at l p) (subtree_hash sha3 ls l p) (pending sha3 ls n0 l p) nf t =
    (Inr (subtree_hash sha3 ls (l + k) ((length ls - 1) div 2 ^ (l + k)),
       nf @ map (\<lambda>j. tree_node sha3 ls j ((length ls - 1) div 2 ^ j)) [Suc l..<Suc (l + k)]), t)"
  using assms(3,4)
proof (induction k arbitrary: l p nf)
  case 0
  then show ?case by simp
next
  case (Suc k)
  let ?sub = "subtree_hash sha3 ls"
  define r where "r = p div 2"
  have l: "l < 63" using Suc.prems by simp
  have r: "r = (length ls - 1) div 2 ^ Suc l"
    unfolding r_def Suc.prems(2) by (metis div_mult2_eq power_Suc2)
  have "r * 2 ^ Suc l \<le> length ls - 1" unfolding r by (rule div_times_less_eq_dividend)
  then have below: "r * 2 ^ Suc l < length ls" using n0 by linarith
  have pend: "length ls - 1 < Suc p * 2 ^ l"
    using dividend_less_div_times [of "2 ^ l" "length ls - 1"] unfolding Suc.prems(2) by simp
  have upt: "[Suc l..<Suc (l + Suc k)] = Suc l # [Suc (Suc l)..<Suc (Suc l + k)]"
    by (simp add: upt_conv_Cons del: upt_Suc)
  have node: "new_internal (node_at (Suc l) r) (?sub l (2 * r)) (?sub l (Suc (2 * r))) =
      tree_node sha3 ls (Suc l) r" by (simp add: tree_node_Suc)
  have "(if is_left_child (node_at l p)
        then return_act (new_internal (parent (node_at l p)) (?sub l p) ACCUMULATOR_PLACEHOLDER_HASH,
               pending sha3 ls n0 l p)
        else join_left (node_at l p) (?sub l p) (pending sha3 ls n0 l p)) t =
      (Inr (tree_node sha3 ls (Suc l) r, pending sha3 ls n0 (Suc l) r), t)"
  proof (cases "odd p")
    case True
    then have p: "p = Suc (2 * r)" by (auto simp: r_def)
    have "n0 < Suc (Suc (2 * r)) * 2 ^ l" using pend n0 by (simp add: p)
    moreover have "n0 \<le> 2 ^ 63" using n0 ls by simp
    ultimately show ?thesis
      using join_left_eq [OF l idx, of r "?sub l p"] l unfolding p node
      by (simp add: is_left_child_node_at)
  next
    case False
    then have p: "p = 2 * r" by (auto simp: r_def)
    have "?sub l (Suc (2 * r)) = ACCUMULATOR_PLACEHOLDER_HASH"
      using pend by (intro subtree_hash_outside) (simp add: p)
    with node show ?thesis
      using l by (simp add: p is_left_child_node_at parent_node_at pending_even)
  qed
  moreover have "parent (node_at l p) = node_at (Suc l) r"
    using l by (simp add: parent_node_at r_def)
  ultimately have "climb_to_root sha3 (Suc k) (node_at l p) (?sub l p) (pending sha3 ls n0 l p) nf t =
      climb_to_root sha3 k (node_at (Suc l) r) (?sub (Suc l) r) (pending sha3 ls n0 (Suc l) r)
        (nf @ [tree_node sha3 ls (Suc l) r]) t"
    using below by (simp del: subtree_hash.simps)
  also have "\<dots> = (Inr (?sub (Suc l + k) ((length ls - 1) div 2 ^ (Suc l + k)),
      (nf @ [tree_node sha3 ls (Suc l) r]) @
        map (\<lambda>j. tree_node sha3 ls j ((length ls - 1) div 2 ^ j)) [Suc (Suc l)..<Suc (Suc l + k)]), t)"
    by (rule Suc.IH) (use Suc.prems r in simp_all)
  finally show ?case unfolding upt list.map using r by (simp del: upt_Suc subtree_hash.simps)
qed


section \<open>Rebuilding the index of full subtrees\<close>

lemma zip_frozen_collect:
  "frozen_iter_collect fuel it = Inr ps \<Longrightarrow> zip_frozen fuel it rs = Inr (zip ps rs)"
proof (induction fuel arbitrary: it ps rs)
  case (Suc fuel)
  then show ?case
    by (cases rs) (force split: option.splits)+
qed simp

lemma scan_frozen_collect:
  assumes "frozen_iter_collect fuel it = Inr (map g bs)"
    and "\<And>b. b \<in> set bs \<Longrightarrow> get_node_frozen_hash (g b) t = (Inr (Some (f b)), t)"
  shows "scan_frozen_loop fuel it t = (Inr (map f bs), t)"
  using assms
proof (induction fuel arbitrary: it bs)
  case (Suc fuel)
  from Suc.prems(1) obtain x it' where nx: "frozen_iter_next it = Inr (x, it')" by auto
  show ?case
  proof (cases bs)
    case Nil
    with Suc.prems(1) nx show ?thesis by (auto split: option.splits)
  next
    case (Cons b bs')
    with Suc.prems(1) nx have x: "x = Some (g b)" "frozen_iter_collect fuel it' = Inr (map g bs')"
      by (auto split: option.splits)
    from Suc.IH [OF x(2)] Suc.prems(2) Cons
    have "scan_frozen_loop fuel it' t = (Inr (map f bs'), t)" by simp
    with nx x Suc.prems(2) Cons show ?thesis by simp
  qed
qed simp

lemma frozen_roots_set_bits:
  "length ls \<le> 2 ^ 63 \<Longrightarrow> frozen_roots sha3 ls =
   map (\<lambda>b. subtree_hash sha3 ls b (frozen_pos (length ls) b)) (set_bits_down 64 (length ls))"
  unfolding frozen_roots_def by (subst full_roots_set_bits [of _ 64]) simp_all

lemma frozen_positions:
  assumes "n \<le> 2 ^ 63"
  shows "frozen_iter_collect 65 (frozen_iter_new (word_of_nat n)) =
    Inr (map (\<lambda>b. node_at b (frozen_pos n b)) (set_bits_down 64 n))"
proof -
  have u: "unat (word_of_nat n :: u64) = n" using assms by (simp add: unat_of_nat)
  show ?thesis using frozen_subtrees_eq [of "word_of_nat n"] assms
    by (simp only: u frozen_subtrees_def)
qed

lemma full_pos_end: "bit n b \<Longrightarrow> Suc (frozen_pos n b) * 2 ^ b \<le> n"
  using bit_set_div [of n b] div_times_less_eq_dividend [of n "2 ^ b"] by (simp add: frozen_pos_def)

lemma frozen_index_rebuilt:
  assumes "length ls \<le> 2 ^ 63"
  shows "frozen_index_ok sha3 ls (length ls) (collect_map
    (zip (map (\<lambda>b. node_at b (frozen_pos (length ls) b)) (set_bits_down 64 (length ls)))
      (frozen_roots sha3 ls)))"
proof -
  define n where "n = length ls"
  define kv where "kv = (\<lambda>b. (node_at b (frozen_pos n b), subtree_hash sha3 ls b (frozen_pos n b)))"
  have zip: "zip (map (\<lambda>b. node_at b (frozen_pos n b)) bs)
      (map (\<lambda>b. subtree_hash sha3 ls b (frozen_pos n b)) bs) = map kv bs" for bs
    by (induction bs) (simp_all add: kv_def)
  have pos: "set (set_bits_down 64 n) = {b. bit n b}"
    using bit_less_exp_nat [of n 64] assms by (auto simp: set_set_bits_down n_def)
  show ?thesis
    unfolding frozen_index_ok_def collect_map_def frozen_roots_set_bits [OF assms] n_def [symmetric] zip
  proof (intro conjI allI impI)
    fix x h
    assume "map_of (rev (map kv (set_bits_down 64 n))) x = Some h"
    then have "(x, h) \<in> kv ` {b. bit n b}" using pos by (auto dest: map_of_SomeD)
    then obtain b where "bit n b" and "(x, h) = kv b" by blast
    then show "\<exists>l p. valid_pos l p \<and> Suc p * 2 ^ l \<le> n \<and> x = node_at l p \<and> h = subtree_hash sha3 ls l p"
      using frozen_pos_valid [of n b] full_pos_end [of n b] assms by (auto simp: kv_def n_def)
  next
    fix b
    assume "bit n b"
    then have "kv b \<in> set (map kv (set_bits_down 64 n))" using pos by simp
    then have "node_at b (frozen_pos n b) \<in> dom (map_of (rev (map kv (set_bits_down 64 n))))"
      unfolding dom_map_of_conv_image_fst by (force simp: kv_def)
    then show "map_of (rev (map kv (set_bits_down 64 n))) (node_at b (frozen_pos n b)) \<noteq> None"
      by blast
  qed
qed

lemma frozen_index_append:
  assumes "frozen_index_ok sha3 ls (length ls) m"
  shows "frozen_index_ok sha3 (ls @ xs) (length ls) m"
  unfolding frozen_index_ok_def
proof (intro conjI allI impI)
  fix x h
  assume "m x = Some h"
  with assms obtain l p where "valid_pos l p" and e: "Suc p * 2 ^ l \<le> length ls"
    and "x = node_at l p" and "h = subtree_hash sha3 ls l p"
    unfolding frozen_index_ok_def by blast
  moreover from e have "subtree_hash sha3 (ls @ xs) l p = subtree_hash sha3 ls l p"
    by (intro subtree_hash_frozen) simp
  ultimately show "\<exists>l p. valid_pos l p \<and> Suc p * 2 ^ l \<le> length ls \<and> x = node_at l p \<and>
      h = subtree_hash sha3 (ls @ xs) l p" by metis
qed (use assms in \<open>auto simp: frozen_index_ok_def\<close>)

text \<open>After the loops, every full subtree of the new tree is found by the scan.\<close>

lemma scan_after_append:
  assumes ls: "length ls \<le> 2 ^ 63" and n0: "n0 \<le> length ls"
    and num: "at_num_leaves t = word_of_nat (length ls)"
    and idx: "frozen_index_ok sha3 ls n0 (at_index_frozen_subtrees t)"
    and itf: "to_freeze_ok sha3 ls (frozen_between n0 (length ls)) (at_index_to_freeze t)"
  shows "scan_frozen_subtree_roots t = (Inr (frozen_roots sha3 ls), t)"
proof -
  let ?n = "length ls"
  have "get_node_frozen_hash (node_at b (frozen_pos ?n b)) t =
      (Inr (Some (subtree_hash sha3 ls b (frozen_pos ?n b))), t)"
    if "b \<in> set (set_bits_down 64 ?n)" for b
  proof -
    have b: "bit ?n b" using that by (simp add: set_set_bits_down)
    have v: "valid_pos b (frozen_pos ?n b)" using b ls by (rule frozen_pos_valid)
    define r where "r = ?n div 2 ^ Suc b"
    have pos: "frozen_pos ?n b = 2 * r" using bit_set_div [OF b] by (simp add: frozen_pos_def r_def)
    show ?thesis
    proof (cases "n0 < Suc (2 * r) * 2 ^ b")
      case True
      with full_pos_end [OF b] show ?thesis
        unfolding pos using v by (intro get_node_frozen_hash_new [OF idx _ itf]) (simp_all add: pos)
    next
      case False
      have "?n < Suc (Suc (2 * r)) * 2 ^ b"
        using dividend_less_div_times [of "2 ^ b" ?n] bit_set_div [OF b] by (simp add: r_def)
      then have "n0 < Suc (Suc (2 * r)) * 2 ^ b" using n0 by linarith
      with False old_left_sibling [of r b n0] v show ?thesis
        unfolding pos by (intro get_node_frozen_hash_old [OF idx]) (simp_all add: pos)
    qed
  qed
  then have "scan_frozen_loop 65 (frozen_iter_new (word_of_nat ?n)) t =
      (Inr (map (\<lambda>b. subtree_hash sha3 ls b (frozen_pos ?n b)) (set_bits_down 64 ?n)), t)"
    by (rule scan_frozen_collect [OF frozen_positions [OF ls]])
  then show ?thesis
    by (simp add: scan_frozen_subtree_roots_def frozen_roots_set_bits [OF ls] num)
qed


section \<open>Append\<close>

text \<open>The fields of the tree that determine what \<^verbatim>\<open>append\<close> returns.\<close>

definition tree_core :: "hasher \<Rightarrow> ('c, 'st) AccumulatorTree \<Rightarrow> H256 list \<Rightarrow> bool" where
  "tree_core sha3 t ls \<longleftrightarrow>
     length ls \<le> 2 ^ 63 \<and>
     at_num_leaves t = word_of_nat (length ls) \<and>
     at_num_nodes t = word_of_nat (node_count (length ls)) \<and>
     at_frozen_subtree_roots t = frozen_roots sha3 ls \<and>
     at_root_hash t = merkle_root sha3 ls \<and>
     frozen_index_ok sha3 ls (length ls) (at_index_frozen_subtrees t) \<and>
     at_index_to_freeze t = Map.empty"

text \<open>The nodes of the tree over \<open>ls\<close> that reach beyond leaf \<open>n0\<close>: those an append writes.\<close>

definition fresh_nodes :: "hasher \<Rightarrow> H256 list \<Rightarrow> nat \<Rightarrow> AccumulatorNode set" where
  "fresh_nodes sha3 ls n0 =
     {tree_node sha3 ls l p |l p.
        l \<le> tree_height (length ls) \<and> p * 2 ^ l < length ls \<and> n0 < Suc p * 2 ^ l}"

lemma level_le_height: "2 ^ l \<le> n \<Longrightarrow> l \<le> tree_height n"
proof -
  assume "2 ^ l \<le> n"
  with tree_height_covers [of n] have "(2 :: nat) ^ l \<le> 2 ^ tree_height n" by linarith
  then show ?thesis by (rule power_le_imp_le_exp [rotated]) simp
qed

lemma fresh_nodes_eq:
  assumes "n0 < length ls"
  defines "n \<equiv> length ls"
  shows "fresh_nodes sha3 ls n0 = frozen_nodes sha3 ls n0 n \<union>
    (\<lambda>j. tree_node sha3 ls j ((n - 1) div 2 ^ j)) ` {zeros_below n<..tree_height n}"
proof -
  have n: "0 < n" using assms(1) unfolding n_def by linarith
  define up where "up = (\<lambda>l p. zeros_below n < l \<and> l \<le> tree_height n \<and> p = (n - 1) div 2 ^ l)"
  have "l \<le> tree_height n \<and> p * 2 ^ l < n \<and> n0 < Suc p * 2 ^ l \<longleftrightarrow>
      frozen_between n0 n l p \<or> up l p" for l p
  proof (cases "Suc p * 2 ^ l \<le> n")
    case True
    have "2 ^ l \<le> Suc p * 2 ^ l" by simp
    then have "l \<le> tree_height n" using True by (intro level_le_height) linarith
    moreover have "p * 2 ^ l < Suc p * 2 ^ l" by simp
    then have "p * 2 ^ l < n" using True by linarith
    moreover have "\<not> up l p \<or> n0 < Suc p * 2 ^ l"
      using dividend_less_div_times [of "2 ^ l" "n - 1"] assms by (auto simp: up_def)
    ultimately show ?thesis using True by blast
  next
    case False
    have "p * 2 ^ l < n \<longleftrightarrow> p = (n - 1) div 2 ^ l"
    proof
      assume "p * 2 ^ l < n"
      then show "p = (n - 1) div 2 ^ l"
        using False by (intro div_nat_eqI [symmetric]) (simp_all add: mult.commute)
    next
      assume "p = (n - 1) div 2 ^ l"
      then have "p * 2 ^ l \<le> n - 1" using div_times_less_eq_dividend [of "n - 1" "2 ^ l"] by simp
      then show "p * 2 ^ l < n" using n by linarith
    qed
    moreover have "zeros_below n < l" if "p * 2 ^ l < n"
    proof (rule ccontr)
      assume "\<not> zeros_below n < l"
      then have "(2 :: nat) ^ l dvd 2 ^ zeros_below n" by (intro le_imp_power_dvd) simp
      also have "2 ^ zeros_below n dvd n" by (metis zeros_below_props(2) [OF n] dvd_triv_right)
      finally obtain c where c: "n = 2 ^ l * c" by (rule dvdE)
      with that False have "2 ^ l * p < 2 ^ l * c" "2 ^ l * c < 2 ^ l * Suc p"
        by (simp_all add: mult.commute)
      then have "p < c" "c < Suc p" unfolding mult_less_cancel1 by blast+
      then show False by simp
    qed
    moreover have "n0 < Suc p * 2 ^ l" using False assms by simp
    ultimately show ?thesis using False unfolding up_def by blast
  qed
  then have "fresh_nodes sha3 ls n0 =
      {tree_node sha3 ls l p |l p. frozen_between n0 n l p \<or> up l p}"
    unfolding fresh_nodes_def n_def [symmetric] by (simp only:)
  also have "\<dots> = frozen_nodes sha3 ls n0 n \<union> {tree_node sha3 ls l p |l p. up l p}"
    unfolding frozen_nodes_def by blast
  also have "{tree_node sha3 ls l p |l p. up l p} =
      (\<lambda>j. tree_node sha3 ls j ((n - 1) div 2 ^ j)) ` {zeros_below n<..tree_height n}"
    unfolding up_def by auto
  finally show ?thesis .
qed

lemma pending_drop_zeros: "pending sha3 ls n0 l (q * 2 ^ k) = pending sha3 ls n0 (l + k) q"
  unfolding pending_def full_roots_drop_zeros ..

lemma pop_pending:
  assumes "n0 < n"
  defines "z \<equiv> zeros_below n"
  shows "vec_pop (pending sha3 ls n0 0 n) =
    Some ((node_at z ((n - 1) div 2 ^ z), subtree_hash sha3 ls z ((n - 1) div 2 ^ z)),
          pending sha3 ls n0 z ((n - 1) div 2 ^ z))"
proof -
  have n: "0 < n" using assms by simp
  define q where "q = n div 2 ^ z"
  note q = zeros_below_props [OF n, folded z_def, folded q_def]
  then obtain r where r: "q = Suc (2 * r)" by (auto elim: oddE)
  have "(n - 1) div 2 ^ z = 2 * r"
  proof (rule div_nat_eqI)
    have "n = Suc (2 * r) * 2 ^ z" using q(2) by (simp add: r)
    then have "n = 2 ^ z * Suc (2 * r)" by (simp only: mult.commute)
    with n show "n - 1 < 2 ^ z * Suc (2 * r)" by simp
    have "2 ^ z * (2 * r) < 2 ^ z * Suc (2 * r)" by simp
    with \<open>n = 2 ^ z * Suc (2 * r)\<close> show "2 ^ z * (2 * r) \<le> n - 1" by linarith
  qed
  moreover have "pending sha3 ls n0 0 n = pending sha3 ls n0 z (Suc (2 * r))"
    using pending_drop_zeros [of sha3 ls n0 0 q z] unfolding q(2) by (simp add: r)
  moreover have "n0 < Suc (2 * r) * 2 ^ z" using assms(1) q(2) by (simp add: r)
  ultimately show ?thesis by (simp add: pending_odd pending_even)
qed

lemma max_to_freeze_ok:
  assumes "m < 2 ^ 62" and "h \<le> 63"
  shows "max_to_freeze (word_of_nat m) h = Inr (word_of_nat (m * 2 + h))"
proof -
  have "unat (word_of_nat m :: u64) = m" using assms(1) by (simp add: unat_of_nat)
  moreover have "(word_of_nat m :: u64) * 2 = word_of_nat (m * 2)" by simp
  ultimately show ?thesis
    using assms checked_add_nat [of "m * 2" h]
    by (simp add: max_to_freeze_def del: of_nat_mult of_nat_add)
qed

lemma tree_append_eq:
  assumes core: "tree_core (env_sha3 env) t ls" and xs: "xs \<noteq> []" "length xs < 2 ^ 62"
    and len: "length ls + length xs \<le> 2 ^ 63"
  defines "sha3 \<equiv> env_sha3 env" and "all \<equiv> ls @ xs"
  shows "\<exists>t' nodes. tree_append env xs t = (Inr (merkle_root sha3 all), t') \<and>
    tree_core sha3 t' all \<and> set nodes = fresh_nodes sha3 all (length ls) \<and>
    at_store t' = at_store t \<and>
    at_update_nodes t' = at_update_nodes (snd (update_temp_nodes sha3 nodes t)) \<and>
    at_index_cache t' = at_index_cache (snd (save_node_indexes env nodes t))"
proof -
  let ?n = "length all"
  define n0 where "n0 = length ls"
  define z where "z = zeros_below ?n"
  define h where "h = tree_height ?n"
  note core' = core [unfolded tree_core_def, folded sha3_def, folded n0_def]
  have lenall: "?n \<le> 2 ^ 63" and n0: "n0 < ?n" and n: "?n = n0 + length xs"
    using len xs by (auto simp: all_def n0_def)
  have drop: "drop n0 all = xs" by (simp add: all_def n0_def)
  have idx: "frozen_index_ok sha3 all n0 (at_index_frozen_subtrees t)"
    unfolding all_def n0_def using core' by (intro frozen_index_append) (simp add: n0_def)
  have itf: "to_freeze_ok sha3 all (frozen_between n0 n0) (at_index_to_freeze t)"
    by (simp add: to_freeze_ok_def) (meson leD)
  have pend0: "pending sha3 all n0 0 n0 = []" by (rule pending_old) simp
  obtain tf m where loop: "append_leaves sha3 0 xs ([], [], word_of_nat (node_count n0)) t =
      (Inr (tf, pending sha3 all n0 0 ?n, word_of_nat (node_count ?n)), t\<lparr>at_index_to_freeze := m\<rparr>)"
    and tf: "set tf = frozen_nodes sha3 all n0 ?n"
    and m: "to_freeze_ok sha3 all (frozen_between n0 ?n) m"
    using append_leaves_eq [OF lenall order_refl n [symmetric] drop _ idx itf, of "[]"] core' pend0
    by auto
  define p where "p = (?n - 1) div 2 ^ z"
  have pop: "vec_pop (pending sha3 all n0 0 ?n) =
      Some ((node_at z p, subtree_hash sha3 all z p), pending sha3 all n0 z p)"
    using pop_pending [OF n0] by (simp add: z_def p_def)
  have h63: "h \<le> 63" unfolding h_def using lenall by (rule tree_height_le_63)
  have "2 ^ z \<le> ?n"
  proof -
    have "0 < ?n" using n0 by linarith
    from zeros_below_props [OF this] odd_pos show ?thesis
      by (metis mult_le_mono1 nat_mult_1 One_nat_def Suc_leI z_def)
  qed
  then have zh: "z \<le> h" unfolding h_def by (rule level_le_height)
  define t1 where "t1 = t\<lparr>at_index_to_freeze := m\<rparr>"
  have idx1: "frozen_index_ok sha3 all n0 (at_index_frozen_subtrees t1)" using idx by (simp add: t1_def)
  have top: "(?n - 1) div 2 ^ h = 0"
    using tree_height_covers [of ?n] n0 unfolding h_def by (intro div_less) linarith
  define nf where "nf = map (\<lambda>j. tree_node sha3 all j ((?n - 1) div 2 ^ j)) [Suc z..<Suc h]"
  have climb: "climb_to_root sha3 (h - z) (node_at z p) (subtree_hash sha3 all z p)
      (pending sha3 all n0 z p) [] t1 = (Inr (merkle_root sha3 all, nf), t1)"
    using climb_to_root_eq [OF lenall n0 _ p_def idx1, of "h - z" "[]"] zh h63 top
    by (simp add: nf_def merkle_root_def h_def del: upt_Suc)
  define nodes where "nodes = nf @ tf"
  have "set nf = (\<lambda>j. tree_node sha3 all j ((?n - 1) div 2 ^ j)) ` {z<..h}"
    unfolding nf_def set_map set_upt by (rule image_cong) auto
  then have nodes: "set nodes = fresh_nodes sha3 all n0"
    using tf n0 by (auto simp: nodes_def fresh_nodes_eq z_def h_def)
  define t2 where "t2 = t1\<lparr>at_update_nodes := at_update_nodes (snd (update_temp_nodes sha3 nodes t)),
    at_index_cache := at_index_cache (snd (save_node_indexes env nodes t)),
    at_root_hash := merkle_root sha3 all, at_num_leaves := word_of_nat ?n\<rparr>"
  have scan: "scan_frozen_subtree_roots t2 = (Inr (frozen_roots sha3 all), t2)"
    using idx m n0 by (intro scan_after_append [OF lenall, of n0]) (simp_all add: t2_def t1_def)
  define pairs where "pairs = zip (map (\<lambda>b. node_at b (frozen_pos ?n b)) (set_bits_down 64 ?n))
      (frozen_roots sha3 all)"
  have zip: "zip_frozen 65 (frozen_iter_new (word_of_nat ?n)) (frozen_roots sha3 all) = Inr pairs"
    unfolding pairs_def by (rule zip_frozen_collect [OF frozen_positions [OF lenall]])
  define t' where "t' = t2\<lparr>at_frozen_subtree_roots := frozen_roots sha3 all,
    at_index_frozen_subtrees := collect_map pairs, at_index_to_freeze := Map.empty,
    at_num_nodes := word_of_nat (node_count ?n)\<rparr>"
  have core'': "tree_core sha3 t' all"
    using lenall frozen_index_rebuilt [OF lenall]
    by (simp add: tree_core_def t'_def t2_def t1_def pairs_def)
  have cnt: "checked_add (at_num_leaves t) (word_of_nat (length xs)) = Inr (word_of_nat ?n)"
    using core' checked_add_nat [of n0 "length xs"] lenall n by (simp del: of_nat_add)
  have un: "unat (word_of_nat ?n :: u64) = ?n" using lenall by (simp add: unat_of_nat)
  have "0 < (word_of_nat ?n :: u64)" unfolding word_less_nat_alt un using n0 by (simp only: unat_0)
  from root_level_from_leaf_count_eq [OF this] lenall
  have lvl: "root_level_from_leaf_count (word_of_nat ?n) = Inr h" by (simp only: un h_def)
  have lz: "level (node_at z p) = z" using zh h63 by (simp add: level_node_at)
  have "tree_append env xs t = (Inr (merkle_root sha3 all), t')"
  proof -
    have leaves: "at_num_leaves t = word_of_nat n0" "at_num_nodes t = word_of_nat (node_count n0)"
      using core' by simp_all
    have cnt': "checked_add (word_of_nat n0) (word_of_nat (length xs)) = Inr (word_of_nat ?n :: u64)"
      using cnt leaves by simp
    have upd: "update_temp_nodes sha3 nodes t1 = (Inr (),
        t1\<lparr>at_update_nodes := at_update_nodes (snd (update_temp_nodes sha3 nodes t))\<rparr>)"
      by (simp add: update_temp_nodes_def t1_def)
    have sav: "save_node_indexes env nodes
        (t1\<lparr>at_update_nodes := at_update_nodes (snd (update_temp_nodes sha3 nodes t))\<rparr>) = (Inr (),
        t1\<lparr>at_update_nodes := at_update_nodes (snd (update_temp_nodes sha3 nodes t)),
            at_index_cache := at_index_cache (snd (save_node_indexes env nodes t))\<rparr>)"
      by (simp add: save_node_indexes_def t1_def)
    note steps = leaves cnt' lvl max_to_freeze_ok [OF xs(2) h63] loop [folded t1_def] pop
      climb lz upd sav scan [unfolded t2_def] zip t'_def t2_def
    show ?thesis
      unfolding tree_append_def Let_def sha3_def [symmetric]
      using xs(1) by (simp add: steps flip: nodes_def del: of_nat_add)
  qed
  then show ?thesis
    using core'' nodes by (intro exI [of _ t'] exI [of _ nodes]) (simp add: t'_def t2_def t1_def n0_def)
qed


section \<open>Nodes in the store and in the cache\<close>

text \<open>
  The tree finds a node by its hash, so a lookup is only right when no two nodes of the tree have
  the same hash and none has the hash of the placeholder.
\<close>

definition tree_coords :: "nat \<Rightarrow> (nat \<times> nat) list" where
  "tree_coords n =
     [(l, p). l \<leftarrow> [0..<Suc (tree_height n)], p \<leftarrow> [0..<(n + 2 ^ l - 1) div 2 ^ l]]"

definition collision_free :: "hasher \<Rightarrow> H256 list \<Rightarrow> bool" where
  "collision_free sha3 ls \<longleftrightarrow>
     distinct (ACCUMULATOR_PLACEHOLDER_HASH # map (at_coords (subtree_hash sha3 ls)) (tree_coords (length ls)))"

definition in_tree :: "nat \<Rightarrow> nat \<Rightarrow> nat \<Rightarrow> bool" where
  "in_tree n l p \<longleftrightarrow> l \<le> tree_height n \<and> p * 2 ^ l < n"

lemma less_ceil_div: "p < (n + 2 ^ l - 1) div 2 ^ l \<longleftrightarrow> p * 2 ^ l < n" for n p l :: nat
proof -
  have "p < (n + 2 ^ l - 1) div 2 ^ l \<longleftrightarrow> Suc p * 2 ^ l \<le> n + 2 ^ l - 1"
    using less_eq_div_iff_mult_less_eq [of "2 ^ l" "Suc p" "n + 2 ^ l - 1"] by (simp only: Suc_le_eq) simp
  also have "\<dots> \<longleftrightarrow> p * 2 ^ l < n"
    using one_le_power [of "2 :: nat" l] by (simp add: le_diff_conv2 Suc_le_eq)
  finally show ?thesis .
qed

lemma set_tree_coords: "set (tree_coords n) = {(l, p). in_tree n l p}"
proof -
  have "set (tree_coords n) =
      (\<Union>l \<in> {0..<Suc (tree_height n)}. Pair l ` {0..<(n + 2 ^ l - 1) div 2 ^ l})"
    unfolding tree_coords_def by (simp only: set_concat set_map set_upt image_image)
  also have "\<dots> = {(l, p). in_tree n l p}"
    unfolding in_tree_def less_ceil_div [symmetric] by (auto simp: image_iff Bex_def less_Suc_eq_le)
  finally show ?thesis .
qed

lemma collision_freeD:
  assumes "collision_free sha3 ls" and "in_tree (length ls) l p"
  shows "subtree_hash sha3 ls l p \<noteq> ACCUMULATOR_PLACEHOLDER_HASH"
    and "in_tree (length ls) l' p' \<Longrightarrow> subtree_hash sha3 ls l' p' = subtree_hash sha3 ls l p \<Longrightarrow>
         l' = l \<and> p' = p"
proof -
  let ?f = "at_coords (subtree_hash sha3 ls)"
  have c: "(l, p) \<in> set (tree_coords (length ls))" using assms(2) by (simp add: set_tree_coords)
  then have "?f (l, p) \<in> set (map ?f (tree_coords (length ls)))" unfolding set_map by (rule imageI)
  moreover have "ACCUMULATOR_PLACEHOLDER_HASH \<notin> set (map ?f (tree_coords (length ls)))"
    using assms(1) by (simp only: collision_free_def distinct.simps not_False_eq_True simp_thms)
  ultimately show "subtree_hash sha3 ls l p \<noteq> ACCUMULATOR_PLACEHOLDER_HASH"
    unfolding prod.case by metis
  assume c': "in_tree (length ls) l' p'" and eq: "subtree_hash sha3 ls l' p' = subtree_hash sha3 ls l p"
  have "inj_on ?f (set (tree_coords (length ls)))"
    using assms(1) by (simp add: collision_free_def distinct_map)
  then have "(l', p') = (l, p)"
    by (rule inj_onD) (use c c' eq in \<open>simp_all add: set_tree_coords\<close>)
  then show "l' = l \<and> p' = p" by simp
qed

lemma tree_height_mono: "m \<le> n \<Longrightarrow> tree_height m \<le> tree_height n"
  using tree_height_covers [of n] by (intro tree_height_minimal) linarith

lemma in_tree_valid: "n \<le> 2 ^ 63 \<Longrightarrow> in_tree n l p \<Longrightarrow> valid_pos l p"
  using tree_height_le_63 [of n] by (intro valid_posI) (auto simp: in_tree_def)

text \<open>
  The contract of the LRU cache: a new cache is empty, reading does not change what it holds, and
  after a \<^verbatim>\<open>put\<close> the key has its value while any other key keeps its value or is evicted.
\<close>

definition lru_view :: "'c lru_ops \<Rightarrow> 'c \<Rightarrow> NodeIndex \<rightharpoonup> H256" where
  "lru_view lru c k = fst (lru_get lru c k)"

definition lru_contract :: "'c lru_ops \<Rightarrow> bool" where
  "lru_contract lru \<longleftrightarrow>
     (\<forall>cap k. lru_view lru (lru_new lru cap) k = None) \<and>
     (\<forall>c k k'. lru_view lru (snd (lru_get lru c k)) k' = lru_view lru c k') \<and>
     (\<forall>c k v. lru_view lru (lru_put lru c k v) k = Some v) \<and>
     (\<forall>c k v k'. k' \<noteq> k \<longrightarrow>
        lru_view lru (lru_put lru c k v) k' = lru_view lru c k' \<or>
        lru_view lru (lru_put lru c k v) k' = None)"

definition cache_ok ::
    "hasher \<Rightarrow> H256 list \<Rightarrow> (NodeIndex \<rightharpoonup> H256) \<Rightarrow> bool" where
  "cache_ok sha3 ls view \<longleftrightarrow>
     (\<forall>x h. view x = Some h \<longrightarrow>
        (\<exists>l p. in_tree (length ls) l p \<and> x = node_at l p \<and> h = subtree_hash sha3 ls l p))"

definition nodes_ok ::
    "hasher \<Rightarrow> H256 list \<Rightarrow> (H256 \<rightharpoonup> AccumulatorNode) \<Rightarrow> bool" where
  "nodes_ok sha3 ls found \<longleftrightarrow>
     (\<forall>l p. in_tree (length ls) l p \<longrightarrow> found (subtree_hash sha3 ls l p) = Some (tree_node sha3 ls l p))"

definition insert_nodes ::
    "hasher \<Rightarrow> (H256 \<rightharpoonup> AccumulatorNode) \<Rightarrow> AccumulatorNode list \<Rightarrow> (H256 \<rightharpoonup> AccumulatorNode)" where
  "insert_nodes sha3 m nodes = foldl (\<lambda>m node. m(node_hash sha3 node \<mapsto> node)) m nodes"

lemma insert_nodes_simps [simp]:
  "insert_nodes sha3 m [] = m"
  "insert_nodes sha3 m (n # ns) = insert_nodes sha3 (m(node_hash sha3 n \<mapsto> n)) ns"
  by (simp_all add: insert_nodes_def)

lemma insert_nodes_other:
  "(\<And>n. n \<in> set ns \<Longrightarrow> node_hash sha3 n \<noteq> h) \<Longrightarrow> insert_nodes sha3 m ns h = m h"
  by (induction ns arbitrary: m) auto

lemma insert_nodes_hit:
  assumes "a \<in> set ns" and "\<And>n. n \<in> set ns \<Longrightarrow> node_hash sha3 n = node_hash sha3 a \<Longrightarrow> n = a"
  shows "insert_nodes sha3 m ns (node_hash sha3 a) = Some a"
  using assms
proof (induction ns arbitrary: m)
  case (Cons n ns)
  show ?case
  proof (cases "a \<in> set ns")
    case True
    with Cons show ?thesis by simp
  next
    case False
    with Cons.prems have "n = a" and "\<And>k. k \<in> set ns \<Longrightarrow> node_hash sha3 k \<noteq> node_hash sha3 a" by auto
    then show ?thesis by (simp add: insert_nodes_other)
  qed
qed simp

lemma tree_node_append:
  assumes "Suc p * 2 ^ l \<le> length ls"
  shows "tree_node sha3 (ls @ xs) l p = tree_node sha3 ls l p"
proof (cases l)
  case 0
  with assms show ?thesis by (simp add: tree_node_def nth_append)
next
  case (Suc k)
  have "(2 * p + 1 + 1) * 2 ^ k = Suc p * 2 ^ l" by (simp add: Suc)
  with assms have r: "(2 * p + 1 + 1) * 2 ^ k \<le> length ls" by simp
  then have "(2 * p + 1) * 2 ^ k \<le> length ls" by (simp add: algebra_simps)
  with r show ?thesis unfolding Suc tree_node_Suc by (simp only: subtree_hash_frozen)
qed

text \<open>An append replaces exactly the nodes that are not frozen yet.\<close>

lemma nodes_ok_append:
  assumes "nodes_ok sha3 ls found" and "collision_free sha3 (ls @ xs)"
    and "set nodes = fresh_nodes sha3 (ls @ xs) (length ls)"
  shows "nodes_ok sha3 (ls @ xs) (insert_nodes sha3 found nodes)"
  unfolding nodes_ok_def
proof (intro allI impI)
  fix l p
  let ?all = "ls @ xs"
  assume t: "in_tree (length ?all) l p"
  have h: "node_hash sha3 (tree_node sha3 ?all l p) = subtree_hash sha3 ?all l p"
    using t by (intro tree_node_hash) (simp add: in_tree_def)
  have uniq: "l' = l \<and> p' = p" if "tree_node sha3 ?all l' p' \<in> set nodes"
    "in_tree (length ?all) l' p'"
    "node_hash sha3 (tree_node sha3 ?all l' p') = subtree_hash sha3 ?all l p" for l' p'
    using collision_freeD(2) [OF assms(2) t that(2)] that(2,3) by (simp add: in_tree_def)
  show "insert_nodes sha3 found nodes (subtree_hash sha3 ?all l p) = Some (tree_node sha3 ?all l p)"
  proof (cases "length ls < Suc p * 2 ^ l")
    case True
    then have "tree_node sha3 ?all l p \<in> set nodes"
      using t unfolding assms(3) fresh_nodes_def in_tree_def by blast
    moreover have "n = tree_node sha3 ?all l p"
      if "n \<in> set nodes" "node_hash sha3 n = subtree_hash sha3 ?all l p" for n
      using that uniq unfolding assms(3) fresh_nodes_def in_tree_def by blast
    ultimately show ?thesis using insert_nodes_hit [of "tree_node sha3 ?all l p" nodes sha3 found]
      unfolding h by blast
  next
    case False
    then have old: "Suc p * 2 ^ l \<le> length ls" by simp
    have "node_hash sha3 n \<noteq> subtree_hash sha3 ?all l p" if "n \<in> set nodes" for n
      using that uniq False unfolding assms(3) fresh_nodes_def in_tree_def by blast
    then have "insert_nodes sha3 found nodes (subtree_hash sha3 ?all l p) = found (subtree_hash sha3 ?all l p)"
      by (rule insert_nodes_other)
    moreover have "subtree_hash sha3 ?all l p = subtree_hash sha3 ls l p"
      using old by (intro subtree_hash_frozen) simp
    moreover have "in_tree (length ls) l p"
    proof -
      have "2 ^ l \<le> Suc p * 2 ^ l" "p * 2 ^ l < Suc p * 2 ^ l" by simp_all
      with old show ?thesis unfolding in_tree_def using level_le_height [of l "length ls"] by linarith
    qed
    ultimately show ?thesis
      using assms(1) tree_node_append [OF old] by (simp add: nodes_ok_def)
  qed
qed


lemma lru_put_fold:
  assumes "lru_contract lru"
    and "lru_view lru (foldl (\<lambda>c n. lru_put lru c (node_index n) (node_hash sha3 n)) c nodes) x = Some h"
  shows "(\<exists>n \<in> set nodes. node_index n = x \<and> node_hash sha3 n = h) \<or>
    (\<forall>n \<in> set nodes. node_index n \<noteq> x) \<and> lru_view lru c x = Some h"
  using assms(2)
proof (induction nodes arbitrary: c)
  case (Cons n nodes)
  let ?c = "lru_put lru c (node_index n) (node_hash sha3 n)"
  have "lru_view lru ?c x = Some h \<Longrightarrow>
      node_index n = x \<and> node_hash sha3 n = h \<or> node_index n \<noteq> x \<and> lru_view lru c x = Some h"
    using assms(1) unfolding lru_contract_def by (metis option.distinct(1) option.inject)
  moreover from Cons.IH [of ?c] Cons.prems have
    "(\<exists>n \<in> set nodes. node_index n = x \<and> node_hash sha3 n = h) \<or>
     (\<forall>n \<in> set nodes. node_index n \<noteq> x) \<and> lru_view lru ?c x = Some h" by simp
  ultimately show ?case by auto
qed simp

text \<open>
  A cached hash of a node that was not frozen is overwritten or evicted: every such node is
  written again by the append.
\<close>

lemma cache_ok_append:
  assumes "lru_contract lru" and "cache_ok sha3 ls (lru_view lru c)"
    and "set nodes = fresh_nodes sha3 (ls @ xs) (length ls)"
  shows "cache_ok sha3 (ls @ xs)
    (lru_view lru (foldl (\<lambda>c n. lru_put lru c (node_index n) (node_hash sha3 n)) c nodes))"
  unfolding cache_ok_def
proof (intro allI impI)
  fix x h
  let ?all = "ls @ xs"
  assume "lru_view lru (foldl (\<lambda>c n. lru_put lru c (node_index n) (node_hash sha3 n)) c nodes) x = Some h"
  from lru_put_fold [OF assms(1) this]
  consider (new) n where "n \<in> set nodes" "node_index n = x" "node_hash sha3 n = h"
    | (old) "\<forall>n \<in> set nodes. node_index n \<noteq> x" "lru_view lru c x = Some h" by blast
  then show "\<exists>l p. in_tree (length ?all) l p \<and> x = node_at l p \<and> h = subtree_hash sha3 ?all l p"
  proof cases
    case new
    then obtain l p where n: "n = tree_node sha3 ?all l p" and t: "in_tree (length ?all) l p"
      unfolding assms(3) fresh_nodes_def in_tree_def by blast
    have "h = subtree_hash sha3 ?all l p" using new(3) t by (simp add: n in_tree_def)
    moreover have "x = node_at l p" using new(2) by (simp add: n)
    ultimately show ?thesis using t by blast
  next
    case old
    with assms(2) obtain l p where t: "in_tree (length ls) l p" and x: "x = node_at l p"
      and h: "h = subtree_hash sha3 ls l p" unfolding cache_ok_def by blast
    have t': "in_tree (length ?all) l p"
      using t tree_height_mono [of "length ls" "length ?all"] unfolding in_tree_def by simp
    have "Suc p * 2 ^ l \<le> length ls"
    proof (rule ccontr)
      assume "\<not> Suc p * 2 ^ l \<le> length ls"
      then have "tree_node sha3 ?all l p \<in> set nodes"
        using t' unfolding assms(3) fresh_nodes_def in_tree_def not_le by blast
      with old(1) x show False by auto
    qed
    then have "subtree_hash sha3 ?all l p = subtree_hash sha3 ls l p"
      by (intro subtree_hash_frozen) simp
    with t' x h show ?thesis by metis
  qed
qed

definition found_nodes ::
    "('st \<Rightarrow> H256 \<rightharpoonup> AccumulatorNode) \<Rightarrow> ('c, 'st) AccumulatorTree \<Rightarrow> H256 \<rightharpoonup> AccumulatorNode" where
  "found_nodes contents t = contents (at_store t) ++ map_of (at_update_nodes t)"

definition keyed_nodes :: "hasher \<Rightarrow> ('c, 'st) AccumulatorTree \<Rightarrow> bool" where
  "keyed_nodes sha3 t \<longleftrightarrow> distinct (map fst (at_update_nodes t)) \<and>
     (\<forall>(h, n) \<in> set (at_update_nodes t). node_hash sha3 n = h)"

text \<open>The representation invariant: the tree \<open>t\<close> is the accumulator of the leaves \<open>ls\<close>.\<close>

definition acc_inv ::
    "hasher \<Rightarrow> 'c lru_ops \<Rightarrow> ('st \<Rightarrow> H256 \<rightharpoonup> AccumulatorNode) \<Rightarrow> ('c, 'st) AccumulatorTree \<Rightarrow>
     H256 list \<Rightarrow> bool" where
  "acc_inv sha3 lru contents t ls \<longleftrightarrow>
     tree_core sha3 t ls \<and> collision_free sha3 ls \<and> keyed_nodes sha3 t \<and>
     nodes_ok sha3 ls (found_nodes contents t) \<and>
     cache_ok sha3 ls (lru_view lru (at_index_cache t))"

section \<open>The interface to the store\<close>

text \<open>
  What the tree relies on of a store: \<open>contents\<close> is what it holds by hash; a stored node is
  found, and saving and deleting act on the contents.
\<close>

locale accumulator_store =
  fixes sha3 :: hasher
    and sto :: "'st AccumulatorTreeStore"
    and contents :: "'st \<Rightarrow> H256 \<rightharpoonup> AccumulatorNode"
  assumes get_node_found: "contents s h = Some n \<Longrightarrow> ts_get_node sto s h = Inr (Some n)"
    and save_node_contents:
      "\<exists>s'. ts_save_node sto n s = (Inr (), s') \<and> contents s' = insert_nodes sha3 (contents s) [n]"
    and save_nodes_contents:
      "\<exists>s'. ts_save_nodes sto ns s = (Inr (), s') \<and> contents s' = insert_nodes sha3 (contents s) ns"
    and delete_nodes_contents:
      "\<exists>s'. ts_delete_nodes sto hs s = (Inr (), s') \<and>
         contents s' = (\<lambda>h. if h \<in> set hs then None else contents s h)"
begin

lemma get_node_eq:
  assumes "env_store env = sto" and "found_nodes contents t h = Some n"
  shows "get_node env t h = Inr (Some n)"
  using assms get_node_found
  by (auto simp: get_node_def found_nodes_def map_add_def split: option.splits)

lemma update_fold:
  "map_of (foldl (\<lambda>m node. AList.update (node_hash sha3 node) node m) m0 nodes) =
   insert_nodes sha3 (map_of m0) nodes"
  by (induction nodes arbitrary: m0) (simp_all add: update_conv')

lemma keyed_fold:
  fixes nodes :: "AccumulatorNode list"
  assumes "distinct (map fst m0)" and "\<forall>(h, n) \<in> set m0. node_hash sha3 n = h"
  defines "m \<equiv> foldl (\<lambda>m node. AList.update (node_hash sha3 node) node m) m0 nodes"
  shows "distinct (map fst m) \<and> (\<forall>(h, n) \<in> set m. node_hash sha3 n = h)"
  unfolding m_def using assms(1,2)
proof (induction nodes arbitrary: m0)
  case (Cons n ns)
  have "distinct (map fst (AList.update (node_hash sha3 n) n m0))"
    using Cons.prems(1) by (rule distinct_update)
  moreover have "\<forall>(h, k) \<in> set (AList.update (node_hash sha3 n) n m0). node_hash sha3 k = h"
  proof -
    have "(h, k) \<in> set (AList.update (node_hash sha3 n) n m0) \<Longrightarrow>
        (h, k) \<in> set m0 \<or> h = node_hash sha3 n \<and> k = n" for h k
      by (induction m0) (auto split: if_splits)
    with Cons.prems(2) show ?thesis by fastforce
  qed
  ultimately show ?case using Cons.IH by simp
qed simp

lemma insert_nodes_map_add:
  "insert_nodes sha3 (m ++ m') ns = m ++ insert_nodes sha3 m' ns"
  by (induction ns arbitrary: m') (simp_all flip: map_add_upd)

lemma append_keeps:
  assumes "acc_inv sha3 (env_lru env) contents t ls" and env: "env_sha3 env = sha3"
    and "lru_contract (env_lru env)" and "length xs < 2 ^ 62" and "length ls + length xs \<le> 2 ^ 63"
    and "collision_free sha3 (ls @ xs)"
  shows "\<exists>t'. tree_append env xs t = (Inr (merkle_root sha3 (ls @ xs)), t') \<and>
    acc_inv sha3 (env_lru env) contents t' (ls @ xs)"
proof (cases "xs = []")
  case True
  have "tree_append env xs t = (Inr (merkle_root sha3 ls), t)"
  proof (cases "ls = []")
    case True
    with assms(1) \<open>xs = []\<close> show ?thesis
      by (simp add: tree_append_def acc_inv_def tree_core_def merkle_root_def tree_height_def)
  next
    case False
    have "length ls < 2 ^ 64" using assms(5) by simp
    then have "(word_of_nat (length ls) :: u64) \<noteq> 0"
      using word_of_nat_step(1) [of "length ls"] False by (metis length_greater_0_conv less_irrefl)
    with assms(1) \<open>xs = []\<close> show ?thesis
      by (simp add: tree_append_def acc_inv_def tree_core_def)
  qed
  with assms(1) True show ?thesis by simp
next
  case False
  note inv = assms(1) [unfolded acc_inv_def]
  from inv have core: "tree_core (env_sha3 env) t ls" by (simp add: env)
  from tree_append_eq [OF core False assms(4,5), unfolded env] obtain t' nodes where
    res: "tree_append env xs t = (Inr (merkle_root sha3 (ls @ xs)), t')"
    and core': "tree_core sha3 t' (ls @ xs)"
    and nodes: "set nodes = fresh_nodes sha3 (ls @ xs) (length ls)"
    and sto': "at_store t' = at_store t"
    and upd: "at_update_nodes t' = at_update_nodes (snd (update_temp_nodes sha3 nodes t))"
    and cache: "at_index_cache t' = at_index_cache (snd (save_node_indexes env nodes t))"
    by blast
  have "found_nodes contents t' = insert_nodes sha3 (found_nodes contents t) nodes"
    by (simp add: found_nodes_def sto' upd update_temp_nodes_def update_fold insert_nodes_map_add)
  with inv assms(6) nodes have "nodes_ok sha3 (ls @ xs) (found_nodes contents t')"
    by (simp add: nodes_ok_append)
  moreover have "keyed_nodes sha3 t'"
    using inv keyed_fold [of "at_update_nodes t" nodes]
    by (simp add: keyed_nodes_def upd update_temp_nodes_def)
  moreover have "cache_ok sha3 (ls @ xs) (lru_view (env_lru env) (at_index_cache t'))"
    using inv cache_ok_append [OF assms(3) _ nodes] by (simp add: cache save_node_indexes_def env)
  ultimately show ?thesis using res core' assms(6) by (auto simp: acc_inv_def)
qed

lemma flush_keeps:
  assumes "acc_inv sha3 lru contents t ls" and "env_store env = sto"
  shows "\<exists>t'. tree_flush env t = (Inr (), t') \<and> acc_inv sha3 lru contents t' ls \<and> at_update_nodes t' = [] \<and>
    contents (at_store t') = found_nodes contents t"
proof -
  note inv = assms(1) [unfolded acc_inv_def]
  have key: "insert_nodes sha3 m (map snd kvs) = m ++ map_of kvs"
    if "distinct (map fst kvs)" "\<forall>(h, n) \<in> set kvs. node_hash sha3 n = h" for m kvs
    using that
  proof (induction kvs arbitrary: m)
    case (Cons kv kvs)
    obtain h n where kv: "kv = (h, n)" by (cases kv)
    have "insert_nodes sha3 m (map snd (kv # kvs)) = insert_nodes sha3 (m(h \<mapsto> n)) (map snd kvs)"
      using Cons.prems(2) by (simp add: kv)
    also have "\<dots> = m(h \<mapsto> n) ++ map_of kvs" using Cons by simp
    also have "\<dots> = m ++ map_of (kv # kvs)"
      using Cons.prems(1)
      by (intro ext) (auto simp: kv map_add_def dom_map_of_conv_image_fst split: option.splits
          dest: map_of_SomeD intro: rev_image_eqI)
    finally show ?case .
  qed simp
  obtain s' where save: "ts_save_nodes sto (map snd (at_update_nodes t)) (at_store t) = (Inr (), s')"
    and s': "contents s' = found_nodes contents t"
    using save_nodes_contents [of "map snd (at_update_nodes t)" "at_store t"]
      key [of "at_update_nodes t" "contents (at_store t)"] inv
    by (auto simp: found_nodes_def keyed_nodes_def)
  show ?thesis
  proof (cases "at_update_nodes t = []")
    case True
    with assms show ?thesis by (simp add: tree_flush_def found_nodes_def)
  next
    case False
    define t' where "t' = t\<lparr>at_store := s', at_update_nodes := []\<rparr>"
    have "found_nodes contents t' = found_nodes contents t"
      unfolding t'_def by (subst found_nodes_def) (simp add: s')
    with inv have "acc_inv sha3 lru contents t' ls"
      by (simp add: acc_inv_def tree_core_def keyed_nodes_def t'_def)
    with False save s' show ?thesis by (simp add: tree_flush_def assms(2) t'_def)
  qed
qed

end

section \<open>Lookups\<close>

text \<open>Reading changes nothing but the order inside the cache.\<close>

definition same_tree ::
    "'c lru_ops \<Rightarrow> ('c, 'st) AccumulatorTree \<Rightarrow> ('c, 'st) AccumulatorTree \<Rightarrow> bool" where
  "same_tree lru t t' \<longleftrightarrow>
     (\<exists>c. t' = t\<lparr>at_index_cache := c\<rparr> \<and> lru_view lru c = lru_view lru (at_index_cache t))"

lemma same_tree_refl [simp]: "same_tree lru t t"
  by (auto simp: same_tree_def intro!: exI [of _ "at_index_cache t"])

lemma same_tree_trans: "same_tree lru t t' \<Longrightarrow> same_tree lru t' t'' \<Longrightarrow> same_tree lru t t''"
  by (auto simp: same_tree_def)

lemma same_tree_inv: "same_tree lru t t' \<Longrightarrow> acc_inv sha3 lru contents t ls \<Longrightarrow> acc_inv sha3 lru contents t' ls"
  by (auto simp: same_tree_def acc_inv_def tree_core_def keyed_nodes_def found_nodes_def)

lemma get_node_index_eq:
  assumes "lru_contract (env_lru env)"
  shows "\<exists>t'. get_node_index env x t = (lru_view (env_lru env) (at_index_cache t) x, t') \<and>
    same_tree (env_lru env) t t'"
proof -
  obtain h c where g: "lru_get (env_lru env) (at_index_cache t) x = (h, c)" by force
  have "lru_view (env_lru env) (snd (lru_get (env_lru env) (at_index_cache t) x)) k =
      lru_view (env_lru env) (at_index_cache t) k" for k
    using assms unfolding lru_contract_def by blast
  then have "lru_view (env_lru env) c = lru_view (env_lru env) (at_index_cache t)"
    by (intro ext) (simp add: g)
  then have "same_tree (env_lru env) t (t\<lparr>at_index_cache := c\<rparr>)"
    unfolding same_tree_def by blast
  moreover have "h = lru_view (env_lru env) (at_index_cache t) x" by (simp add: lru_view_def g)
  ultimately show ?thesis by (simp add: get_node_index_def g)
qed

lemma parent_top: "parent (node_at 63 0) = - 1" "parent (- 1) = - 1"
  by (rule bit_eqI, simp add: parent_def isolate_node_at bit_node_at bit_one_bit bit_and_iff bit_or_iff
        bit_not_iff, linarith?)
    (simp add: parent_def isolate_rightmost_zero_bit_def)

text \<open>The search for a cached ancestor finds the hash of a proper ancestor in the tree, or nothing.\<close>

lemma find_cached_ancestor_eq:
  assumes "lru_contract (env_lru env)" and len: "length ls \<le> 2 ^ 63"
    and "x = node_at l p \<and> valid_pos l p \<or> x = - 1"
    and "cache_ok sha3 ls (lru_view (env_lru env) (at_index_cache t))"
  shows "\<exists>h t'. find_cached_ancestor env k x t = (h, t') \<and> same_tree (env_lru env) t t' \<and>
    (h \<noteq> None \<longrightarrow> (\<exists>j. 0 < j \<and> in_tree (length ls) (l + j) (p div 2 ^ j) \<and>
       h = Some (subtree_hash sha3 ls (l + j) (p div 2 ^ j))))"
  using assms(3,4)
proof (induction k arbitrary: x l p t)
  case (Suc k)
  let ?view = "lru_view (env_lru env) (at_index_cache t)"
  obtain t1 where g: "get_node_index env (parent x) t = (?view (parent x), t1)"
    and s: "same_tree (env_lru env) t t1" using get_node_index_eq [OF assms(1)] by blast
  from s have c1: "cache_ok sha3 ls (lru_view (env_lru env) (at_index_cache t1))"
    using Suc.prems(2) by (auto simp: same_tree_def)
  have par: "parent x = node_at (Suc l) (p div 2) \<and> valid_pos (Suc l) (p div 2) \<or> parent x = - 1"
  proof (cases "x = - 1 \<or> l = 63")
    case True
    with Suc.prems(1) show ?thesis
      by (auto simp: parent_top valid_pos_def)
  next
    case False
    then show ?thesis
      using Suc.prems(1) valid_pos_Suc [of l p] by (auto simp: parent_node_at valid_pos_def)
  qed
  show ?case
  proof (cases "?view (parent x)")
    case None
    from Suc.IH [OF par c1] obtain h t' where
      r: "find_cached_ancestor env k (parent x) t1 = (h, t')" "same_tree (env_lru env) t1 t'"
      and j: "h \<noteq> None \<longrightarrow> (\<exists>j. 0 < j \<and> in_tree (length ls) (Suc l + j) (p div 2 div 2 ^ j) \<and>
         h = Some (subtree_hash sha3 ls (Suc l + j) (p div 2 div 2 ^ j)))" by blast
    have "\<exists>j. 0 < j \<and> in_tree (length ls) (l + j) (p div 2 ^ j) \<and>
         h = Some (subtree_hash sha3 ls (l + j) (p div 2 ^ j))" if "h \<noteq> None"
    proof -
      from j that obtain j where "in_tree (length ls) (Suc l + j) (p div 2 div 2 ^ j)"
        "h = Some (subtree_hash sha3 ls (Suc l + j) (p div 2 div 2 ^ j))" by blast
      moreover have "p div 2 div 2 ^ j = p div 2 ^ Suc j" by (simp add: div_mult2_eq)
      ultimately show ?thesis by (intro exI [of _ "Suc j"]) (simp del: subtree_hash.simps power_Suc)
    qed
    with r same_tree_trans [OF s r(2)] show ?thesis by (simp add: g None)
  next
    case (Some hh)
    with Suc.prems(2) obtain l' p' where t: "in_tree (length ls) l' p'" and x: "parent x = node_at l' p'"
      and h: "hh = subtree_hash sha3 ls l' p'" unfolding cache_ok_def by blast
    have v: "valid_pos l' p'" using in_tree_valid [OF len t] .
    have "node_at l' p' \<noteq> - 1"
      using level_node_at [of l' p'] v by (auto simp: level_def valid_pos_def)
    with par x have "node_at l' p' = node_at (Suc l) (p div 2)" "valid_pos (Suc l) (p div 2)" by auto
    with node_at_inject [OF v] have "l' = Suc l" "p' = p div 2" by blast+
    with t h s show ?thesis
      by (auto simp: g Some simp del: subtree_hash.simps intro!: exI [of _ "Suc 0"])
  qed
qed simp

text \<open>Which way to go at a node above the parent of the target.\<close>

lemma descend_compare:
  assumes "valid_pos l p" and "valid_pos (Suc (l + d)) (p div 2 ^ Suc d)"
  shows "node_at l p < node_at (Suc (l + d)) (p div 2 ^ Suc d) \<longleftrightarrow> even (p div 2 ^ d)"
proof -
  define m where "m = p div 2 ^ d"
  define q where "q = p div 2 ^ Suc d"
  have q: "q = m div 2" unfolding q_def m_def by (metis div_mult2_eq power_Suc2)
  have up: "unat (node_at (Suc (l + d)) q) = q * 2 * 2 ^ (Suc l + d) + (2 ^ (Suc l + d) - 1)"
    using unat_node_at [OF assms(2), folded q_def] by (simp add: mult.assoc)
  have low: "unat (node_at l p) = p * 2 ^ Suc l + (2 ^ l - 1)" by (rule unat_node_at [OF assms(1)])
  have lo: "m * 2 ^ d * 2 ^ Suc l \<le> p * 2 ^ Suc l"
    unfolding m_def by (intro mult_le_mono1) (rule div_times_less_eq_dividend)
  have hi: "Suc p * 2 ^ Suc l \<le> Suc m * 2 ^ d * 2 ^ Suc l"
    unfolding m_def using dividend_less_div_times [of "2 ^ d" p] by (intro mult_le_mono1) (simp add: Suc_leI)
  have pw: "m' * 2 ^ d * 2 ^ Suc l = m' * 2 ^ (Suc l + d)" for m' :: nat
    by (simp add: power_add)
  have one: "1 \<le> (2 :: nat) ^ l" "1 \<le> (2 :: nat) ^ (Suc l + d)" by simp_all
  show ?thesis
  proof (cases "even m")
    case True
    then have "q * 2 = m" by (simp add: q)
    then have "unat (node_at (Suc (l + d)) q) = Suc m * 2 ^ (Suc l + d) - 1"
      using one(2) by (simp add: up)
    moreover have "Suc p * 2 ^ Suc l = p * 2 ^ Suc l + 2 ^ l + 2 ^ l" by simp
    then have "p * 2 ^ Suc l + (2 ^ l - 1) < Suc p * 2 ^ Suc l - 1" using one(1) by linarith
    ultimately have "unat (node_at l p) < unat (node_at (Suc (l + d)) q)"
      using hi unfolding low pw by linarith
    with True show ?thesis unfolding q_def [symmetric] m_def [symmetric] word_less_nat_alt by simp
  next
    case False
    then have "q * 2 + 1 = m" by (simp add: q) presburger
    then have "unat (node_at (Suc (l + d)) q) = m * 2 ^ (Suc l + d) - 1"
      using one(2) up by (metis Nat.add_diff_assoc add_mult_distrib nat_mult_1)
    then have "unat (node_at (Suc (l + d)) q) \<le> unat (node_at l p)"
      using lo unfolding low pw by linarith
    with False show ?thesis unfolding q_def [symmetric] m_def [symmetric] word_less_nat_alt by simp
  qed
qed

lemma div_Suc_exp: "p div 2 ^ Suc d = p div 2 ^ d div 2" for p :: nat
  by (metis div_mult2_eq power_Suc2)

context accumulator_store
begin

lemma get_node_in_tree:
  assumes "env_store env = sto" and "nodes_ok sha3 ls (found_nodes contents t)"
    and "in_tree (length ls) l p"
  shows "get_node env t (subtree_hash sha3 ls l p) = Inr (Some (tree_node sha3 ls l p))"
  using assms get_node_eq [of env t] by (simp add: nodes_ok_def)

lemma walk_down_here:
  assumes "env_store env = sto" "env_sha3 env = sha3" "nodes_ok sha3 ls (found_nodes contents t)"
    and t: "in_tree (length ls) l p"
  shows "walk_down env t (Suc fuel) (node_at l p) [subtree_hash sha3 ls l p] =
    Inr (subtree_hash sha3 ls l p)"
proof -
  have "node_hash sha3 (tree_node sha3 ls l p) = subtree_hash sha3 ls l p"
    using t by (intro tree_node_hash) (simp add: in_tree_def)
  then show ?thesis
    using get_node_in_tree [OF assms(1,3) t] vec_pop_snoc [of "[]" "subtree_hash sha3 ls l p"] assms(2)
    by (cases l) (auto simp: tree_node_def new_leaf_def new_internal_def leaf_node_new_def Let_def
        simp del: subtree_hash.simps)
qed

lemma walk_down_eq:
  assumes env: "env_store env = sto" "env_sha3 env = sha3"
    and nodes: "nodes_ok sha3 ls (found_nodes contents t)" and cf: "collision_free sha3 ls"
    and len: "length ls \<le> 2 ^ 63" and v: "valid_pos l p"
    and par: "in_tree (length ls) (Suc l) (p div 2)"
    and "in_tree (length ls) (Suc (l + d)) (p div 2 ^ Suc d)" and "d < fuel"
  shows "walk_down env t fuel (node_at l p) [subtree_hash sha3 ls (Suc (l + d)) (p div 2 ^ Suc d)] =
    Inr (subtree_hash sha3 ls l p)"
  using assms(8,9)
proof (induction d arbitrary: fuel)
  case 0
  then obtain f where f: "fuel = Suc f" by (cases fuel) auto
  have l: "l < 63" using in_tree_valid [OF len par] by (simp add: valid_pos_def)
  let ?h = "subtree_hash sha3 ls (Suc l) (p div 2)"
  have g: "get_node env t ?h = Inr (Some (tree_node sha3 ls (Suc l) (p div 2)))"
    by (rule get_node_in_tree [OF env(1) nodes par])
  have ne: "node_at (Suc l) q \<noteq> node_at l p" for q
    using l level_node_at [of "Suc l" q] level_node_at [of l p] by auto
  have kids: "left_child (node_at (Suc l) (p div 2)) = Inr (node_at l (2 * (p div 2)))"
    "right_child (node_at (Suc l) (p div 2)) = Inr (node_at l (2 * (p div 2) + 1))"
    using l by (simp_all add: left_child_node_at right_child_node_at)
  have "node_at l (2 * (p div 2)) = node_at l p \<longleftrightarrow> even p"
  proof
    assume eq: "node_at l (2 * (p div 2)) = node_at l p"
    have "valid_pos l (2 * (p div 2))"
      using in_tree_valid [OF len par] by (rule valid_pos_child) simp
    with eq v have "2 * (p div 2) = p" using node_at_inject by blast
    then show "even p" by presburger
  qed auto
  then show ?case
    using g ne l vec_pop_snoc [of "[]" ?h]
    by (simp add: f tree_node_Suc new_internal_def parent_node_at kids Let_def
        del: subtree_hash.simps)
next
  case (Suc d)
  from Suc.prems obtain f where f: "fuel = Suc f" "d < f" by (cases fuel) auto
  define L where "L = Suc (l + d)"
  define m where "m = p div 2 ^ Suc d"
  define q where "q = p div 2 ^ Suc (Suc d)"
  have q: "q = m div 2" unfolding q_def m_def by (rule div_Suc_exp)
  have t: "in_tree (length ls) (Suc L) q" using Suc.prems(1) by (simp add: L_def q_def)
  have vq: "valid_pos (Suc L) q" by (rule in_tree_valid [OF len t])
  then have L: "L < 63" by (simp add: valid_pos_def)
  have child: "in_tree (length ls) L m"
  proof -
    have "m * 2 ^ L = (p div 2) div 2 ^ d * 2 ^ d * 2 ^ Suc l"
      by (simp add: m_def L_def div_mult2_eq power_add)
    also have "\<dots> \<le> (p div 2) * 2 ^ Suc l"
      by (intro mult_le_mono1) (rule div_times_less_eq_dividend)
    also have "\<dots> < length ls" using par by (simp add: in_tree_def)
    finally show ?thesis using t by (simp add: in_tree_def)
  qed
  have g: "get_node env t (subtree_hash sha3 ls (Suc L) q) = Inr (Some (tree_node sha3 ls (Suc L) q))"
    by (rule get_node_in_tree [OF env(1) nodes t])
  have lv: "level (node_at (Suc L) q) = Suc L" "level (node_at l p) = l"
    "level (parent (node_at l p)) = Suc l"
    using L v by (simp_all add: level_node_at parent_node_at valid_pos_def L_def)
  have ne: "node_at (Suc L) q \<noteq> node_at l p" "node_at (Suc L) q \<noteq> parent (node_at l p)"
    using lv by (auto simp: L_def)
  have kids: "left_child (node_at (Suc L) q) = Inr (node_at L (2 * q))"
    "right_child (node_at (Suc L) q) = Inr (node_at L (Suc (2 * q)))"
    using L by (simp_all add: left_child_node_at right_child_node_at)
  have noleaf: "\<not> is_leaf (node_at L r)" for r using L by (simp add: is_leaf_node_at) (simp add: L_def)
  have cmp: "node_at l p < node_at (Suc L) q \<longleftrightarrow> even m"
    using descend_compare [of l p "Suc d"] v vq by (simp add: L_def q_def m_def)
  have nph: "subtree_hash sha3 ls L m \<noteq> ACCUMULATOR_PLACEHOLDER_HASH"
    by (rule collision_freeD(1) [OF cf child])
  have IH: "walk_down env t f (node_at l p) [subtree_hash sha3 ls L m] = Inr (subtree_hash sha3 ls l p)"
    unfolding L_def m_def using child f(2) by (intro Suc.IH) (simp_all add: L_def m_def)
  have pop: "vec_pop [h] = Some (h, [])" for h :: H256 by (simp add: vec_pop_def)
  have "walk_down env t (Suc f) (node_at l p) [subtree_hash sha3 ls (Suc L) q] =
      Inr (subtree_hash sha3 ls l p)"
  proof (cases "even m")
    case True
    then have "2 * q = m" by (simp add: q)
    with g ne kids noleaf cmp True nph IH pop show ?thesis
      by (simp add: tree_node_Suc new_internal_def Let_def to_inorder_index_def
          del: subtree_hash.simps)
  next
    case False
    then have "Suc (2 * q) = m" by (auto simp: q)
    with g ne kids noleaf cmp False nph IH pop show ?thesis
      by (simp add: tree_node_Suc new_internal_def Let_def to_inorder_index_def
          del: subtree_hash.simps)
  qed
  then show ?case by (simp only: f L_def q_def add_Suc_right)
qed

lemma get_node_hash_always_eq:
  assumes inv: "acc_inv sha3 (env_lru env) contents t ls"
    and env: "env_store env = sto" "env_sha3 env = sha3" "lru_contract (env_lru env)"
    and n: "0 < length ls" and fuel: "64 \<le> fuel"
    and l: "l \<le> tree_height (length ls)" and p: "p < 2 ^ (tree_height (length ls) - l)"
    and par: "l < tree_height (length ls) \<Longrightarrow> in_tree (length ls) (Suc l) (p div 2)"
  shows "\<exists>t'. get_node_hash_always env fuel (node_at l p) t = (Inr (subtree_hash sha3 ls l p), t') \<and>
    same_tree (env_lru env) t t'"
proof -
  let ?n = "length ls"
  define h where "h = tree_height ?n"
  note inv' = inv [unfolded acc_inv_def tree_core_def]
  have len: "?n \<le> 2 ^ 63" and nodes: "nodes_ok sha3 ls (found_nodes contents t)"
    and cf: "collision_free sha3 ls" using inv' by simp_all
  have h63: "h \<le> 63" unfolding h_def by (rule tree_height_le_63 [OF len])
  have v: "valid_pos l p"
  proof -
    have "(2 :: nat) ^ (h - l) \<le> 2 ^ (63 - l)" using h63 by (intro power_increasing) auto
    with p have "p < 2 ^ (63 - l)" unfolding h_def by linarith
    with l h63 show ?thesis by (simp add: valid_pos_def h_def)
  qed
  obtain t1 where g: "get_node_index env (node_at l p) t =
      (lru_view (env_lru env) (at_index_cache t) (node_at l p), t1)"
    and s1: "same_tree (env_lru env) t t1" using get_node_index_eq [OF env(3)] by blast
  have inv1: "acc_inv sha3 (env_lru env) contents t1 ls" using same_tree_inv [OF s1 inv] .
  note inv1' = inv1 [unfolded acc_inv_def tree_core_def]
  have un: "unat (word_of_nat ?n :: u64) = ?n" using len by (simp add: unat_of_nat)
  have "0 < (word_of_nat ?n :: u64)" unfolding word_less_nat_alt un using n by (simp only: unat_0)
  with root_from_leaf_count_eq [of "word_of_nat ?n"] len inv1'
  have root: "root_from_leaf_count (at_num_leaves t1) = Inr (node_at h 0)" by (simp only: un h_def)
  have start: "node_at l p = node_at l p \<and> valid_pos l p \<or> node_at l p = - 1" using v by simp
  obtain anc t2 where a: "find_cached_ancestor env (h + 1) (node_at l p) t1 = (anc, t2)"
    and s2: "same_tree (env_lru env) t1 t2"
    and anc: "anc \<noteq> None \<longrightarrow> (\<exists>j. 0 < j \<and> in_tree ?n (l + j) (p div 2 ^ j) \<and>
       anc = Some (subtree_hash sha3 ls (l + j) (p div 2 ^ j)))"
    using find_cached_ancestor_eq [OF env(3) len start, of sha3 t1 "h + 1"] inv1' by blast
  have inv2: "acc_inv sha3 (env_lru env) contents t2 ls" using same_tree_inv [OF s2 inv1] .
  note inv2' = inv2 [unfolded acc_inv_def tree_core_def]
  have walk: "walk_down env t2 fuel (node_at l p)
      [case anc of Some h \<Rightarrow> h | None \<Rightarrow> at_root_hash t2] = Inr (subtree_hash sha3 ls l p)"
  proof -
    have from_above: "walk_down env t2 fuel (node_at l p) [subtree_hash sha3 ls (l + j) (p div 2 ^ j)] =
        Inr (subtree_hash sha3 ls l p)" if "0 < j" "in_tree ?n (l + j) (p div 2 ^ j)" for j
    proof -
      from that(1) obtain d where d: "j = Suc d" by (cases j) auto
      have "Suc (l + d) \<le> h" using that(2) by (simp add: d in_tree_def h_def)
      then have "l < tree_height ?n" "d < fuel" using h63 fuel by (simp_all add: h_def)
      then show ?thesis
        using walk_down_eq [OF env(1,2) _ cf len v par, of t2 d fuel] that(2) inv2'
        by (simp add: d del: subtree_hash.simps power_Suc)
    qed
    show ?thesis
    proof (cases anc)
      case (Some a')
      with anc from_above show ?thesis by auto
    next
      case None
      have top: "p div 2 ^ (h - l) = 0" using p by (simp add: h_def)
      have tr: "in_tree ?n h 0" using n by (simp add: in_tree_def h_def)
      have rh: "at_root_hash t2 = subtree_hash sha3 ls h 0" using inv2' by (simp add: merkle_root_def h_def)
      show ?thesis
      proof (cases "l = h")
        case True
        with p have "p = 0" by (simp add: h_def)
        moreover obtain f where "fuel = Suc f" using fuel by (cases fuel) auto
        ultimately show ?thesis
          using walk_down_here [OF env(1,2) _ tr, of t2 f] inv2' True rh None
          by (simp del: walk_down.simps)
      next
        case False
        with l have "0 < h - l" "l + (h - l) = h" by (simp_all add: h_def)
        with from_above [of "h - l"] top tr rh None show ?thesis by simp
      qed
    qed
  qed
  show ?thesis
  proof (cases "at_index_frozen_subtrees t (node_at l p)")
    case (Some hh)
    have "frozen_index_ok sha3 ls ?n (at_index_frozen_subtrees t)" using inv' by blast
    from frozen_index_lookup [OF this v Some] have "hh = subtree_hash sha3 ls l p" .
    with Some show ?thesis by (simp add: get_node_hash_always_def)
  next
    case none: None
    show ?thesis
    proof (cases "lru_view (env_lru env) (at_index_cache t) (node_at l p)")
      case (Some hh)
      then obtain l' p' where "in_tree ?n l' p'" "node_at l p = node_at l' p'"
        and hh: "hh = subtree_hash sha3 ls l' p'" using inv' unfolding cache_ok_def by blast
      then have "l = l' \<and> p = p'" using node_at_inject [OF v in_tree_valid [OF len]] by blast
      with Some none g s1 hh show ?thesis by (simp add: get_node_hash_always_def)
    next
      case None
      have "level (node_at h 0) = h" using h63 by (simp add: level_node_at)
      with None none g root a walk same_tree_trans [OF s1 s2] show ?thesis
        by (simp add: get_node_hash_always_def)
    qed
  qed
qed

lemma get_siblings_eq:
  assumes inv: "acc_inv sha3 (env_lru env) contents t ls"
    and env: "env_store env = sto" "env_sha3 env = sha3" "lru_contract (env_lru env)"
    and i: "i < length ls" and fuel: "64 \<le> fuel"
  shows "\<exists>t'. get_siblings env fuel (word_of_nat i) (\<lambda>_. True) t =
      (Inr (merkle_path sha3 ls (tree_height (length ls)) i), t') \<and> same_tree (env_lru env) t t'"
proof -
  let ?n = "length ls"
  define h where "h = tree_height ?n"
  note inv' = inv [unfolded acc_inv_def tree_core_def]
  have len: "?n \<le> 2 ^ 63" using inv' by simp
  have h63: "h \<le> 63" unfolding h_def by (rule tree_height_le_63 [OF len])
  have un: "unat (word_of_nat ?n :: u64) = ?n" using len by (simp add: unat_of_nat)
  have n: "0 < ?n" using i by linarith
  have "0 < (word_of_nat ?n :: u64)" unfolding word_less_nat_alt un using n by (simp only: unat_0)
  with root_from_leaf_count_eq [of "word_of_nat ?n"] len inv'
  have root: "root_from_leaf_count (at_num_leaves t) = Inr (node_at h 0)" by (simp only: un h_def)
  have vi: "valid_pos 0 i" using i len by (simp add: valid_pos_def)
  have ih: "i < 2 ^ h" using i tree_height_covers [of ?n] unfolding h_def by linarith
  have one: "\<exists>u'. get_node_hash_always env fuel (node_at k (sibling_pos (i div 2 ^ k))) u =
      (Inr (subtree_hash sha3 ls k (sibling_pos (i div 2 ^ k))), u') \<and> same_tree (env_lru env) t u'"
    if k: "k < h" and u: "same_tree (env_lru env) t u" for k u
  proof -
    have "sibling_pos (i div 2 ^ k) < 2 ^ (h - k)"
    proof -
      obtain m where m: "h - k = Suc m" using k by (cases "h - k") auto
      have "h = Suc m + k" using m k by simp
      then have "(2 :: nat) ^ h = 2 ^ Suc m * 2 ^ k" by (simp only: power_add)
      with ih have "i div 2 ^ k < 2 ^ Suc m" by (intro less_mult_imp_div_less) simp
      then have "sibling_pos (i div 2 ^ k) div 2 < 2 ^ m" by simp
      then show ?thesis unfolding m power_Suc by linarith
    qed
    moreover have "in_tree ?n (Suc k) (sibling_pos (i div 2 ^ k) div 2)"
    proof -
      have "i div 2 ^ Suc k * 2 ^ Suc k \<le> i" by (rule div_times_less_eq_dividend)
      then have "i div 2 ^ Suc k * 2 ^ Suc k < ?n" using i by linarith
      then show ?thesis using k by (simp add: in_tree_def h_def div_Suc_exp [symmetric] del: power_Suc)
    qed
    ultimately obtain u' where "get_node_hash_always env fuel (node_at k (sibling_pos (i div 2 ^ k))) u =
        (Inr (subtree_hash sha3 ls k (sibling_pos (i div 2 ^ k))), u')" "same_tree (env_lru env) u u'"
      using get_node_hash_always_eq [OF same_tree_inv [OF u inv] env n fuel, of k] k
      unfolding h_def by force
    with same_tree_trans [OF u] show ?thesis by blast
  qed
  have "\<exists>t'. try_map_act (\<lambda>k. get_node_hash_always env fuel (node_at k (sibling_pos (i div 2 ^ k)))) [0..<h] t =
      (Inr (map (\<lambda>k. subtree_hash sha3 ls k (sibling_pos (i div 2 ^ k))) [0..<h]), t') \<and>
      same_tree (env_lru env) t t'"
    by (rule try_map_act_eq_map) (use one in simp_all)
  then show ?thesis
    using h63 by (simp add: get_siblings_def root from_leaf_index_node_at [OF vi] level_node_at
        ancestor_siblings_node_at try_map_act_map comp_def merkle_path_def flip: h_def)
qed

lemma get_leaf_eq:
  assumes inv: "acc_inv sha3 (env_lru env) contents t ls"
    and env: "env_store env = sto" "env_sha3 env = sha3" "lru_contract (env_lru env)"
    and i: "i < 2 ^ 63" and n: "0 < length ls" and fuel: "64 \<le> fuel"
  shows "\<exists>t'. get_leaf env fuel (word_of_nat i) t =
      (Inr (if i < length ls then Some (ls ! i) else None), t') \<and> same_tree (env_lru env) t t'"
proof -
  let ?n = "length ls"
  note inv' = inv [unfolded acc_inv_def tree_core_def]
  have len: "?n \<le> 2 ^ 63" using inv' by simp
  have un: "unat (word_of_nat ?n :: u64) = ?n" using len by (simp add: unat_of_nat)
  have nz: "0 < (word_of_nat ?n :: u64)" unfolding word_less_nat_alt un using n by (simp only: unat_0)
  then have idx: "rightmost_leaf_index t = word_of_nat ?n - 1"
    using inv' by (auto simp: rightmost_leaf_index_def)
  have "unat (word_of_nat ?n - 1 :: u64) = ?n - 1" using unat_pred [OF nz] by (simp only: un)
  then have u: "unat (word_of_nat ?n - 1 :: u64) < 2 ^ 63" "unat (word_of_nat ?n - 1 :: u64) + 1 = ?n"
    using len n by linarith+
  have v: "valid_pos 0 i" using i by (simp add: valid_pos_def)
  have ph: "is_placeholder (node_at 0 i) (word_of_nat ?n - 1) = Inr (\<not> i < ?n)"
    unfolding is_placeholder_node_at [OF v u(1)] using u(2) by (simp del: of_nat_diff) linarith
  show ?thesis
  proof (cases "i < ?n")
    case False
    then show ?thesis
      using ph by (simp add: get_leaf_def get_node_hash_def from_leaf_index_node_at [OF v] idx)
  next
    case True
    have "i < 2 ^ tree_height ?n" using True tree_height_covers [of ?n] by linarith
    moreover have "in_tree ?n (Suc 0) (i div 2)" if "0 < tree_height ?n"
      using True that by (simp add: in_tree_def)
    ultimately obtain t' where "get_node_hash_always env fuel (node_at 0 i) t =
        (Inr (subtree_hash sha3 ls 0 i), t')" "same_tree (env_lru env) t t'"
      using get_node_hash_always_eq [OF inv env n fuel, of 0 i] by auto
    then show ?thesis
      using ph True by (simp add: get_leaf_def get_node_hash_def from_leaf_index_node_at [OF v] idx)
  qed
qed

lemma leaves_in_range:
  assumes inv: "acc_inv sha3 (env_lru env) contents t ls"
    and env: "env_store env = sto" "env_sha3 env = sha3" "lru_contract (env_lru env)"
    and "set is \<subseteq> {..<length ls}" and fuel: "64 \<le> fuel"
  shows "\<exists>t'. try_map_act (leaf_or_error env fuel) (map word_of_nat is) t =
      (Inr (map (nth ls) is), t') \<and> same_tree (env_lru env) t t'"
  unfolding try_map_act_map comp_def
proof (rule try_map_act_eq_map)
  fix i u
  assume i: "i \<in> set is" and u: "same_tree (env_lru env) t u"
  have il: "i < length ls" using i assms(5) by auto
  moreover have "length ls \<le> 2 ^ 63" using inv by (simp add: acc_inv_def tree_core_def)
  ultimately have "i < 2 ^ 63" "0 < length ls" by linarith+
  from get_leaf_eq [OF same_tree_inv [OF u inv] env this fuel] il
  obtain u' where "get_leaf env fuel (word_of_nat i) u = (Inr (Some (ls ! i)), u')"
    and "same_tree (env_lru env) u u'" by auto
  with same_tree_trans [OF u] show "\<exists>u'. leaf_or_error env fuel (word_of_nat i) u =
      (Inr (ls ! i), u') \<and> same_tree (env_lru env) t u'"
    by (auto simp: leaf_or_error_def)
qed simp

lemma nth_range: "a \<le> b \<Longrightarrow> b \<le> length ls \<Longrightarrow> map (nth ls) [a..<b] = take (b - a) (drop a ls)"
  by (auto intro!: nth_equalityI)

lemma get_leaves_eq:
  assumes inv: "acc_inv sha3 (env_lru env) contents t ls"
    and env: "env_store env = sto" "env_sha3 env = sha3" "lru_contract (env_lru env)"
    and fuel: "64 \<le> fuel"
  shows "\<exists>t'. get_leaves env fuel start reverse sz t =
      (Inr (if reverse then rev (drop (min (Suc (unat start)) (length ls) - unat sz)
                                  (take (Suc (unat start)) ls))
            else take (unat sz) (drop (unat start) ls)), t') \<and> same_tree (env_lru env) t t'"
proof -
  let ?n = "length ls"
  have len: "?n \<le> 2 ^ 63" and num: "at_num_leaves t = word_of_nat ?n"
    using inv by (simp_all add: acc_inv_def tree_core_def)
  have un: "unat (word_of_nat ?n :: u64) = ?n" using len by (simp add: unat_of_nat)
  have cap: "unat (min (saturating_add a b) (word_of_nat ?n)) = min (unat a + unat b) ?n" for a b
  proof -
    have "unat (saturating_add a b) = min (unat a + unat b) (2 ^ 64 - 1)"
      by (auto simp: saturating_add_def unat_word_ariths unsigned_minus_1_eq_mask mask_eq_exp_minus_1)
    then show ?thesis using un len by (auto simp: min_def word_le_nat_alt)
  qed
  have sub: "unat (saturating_sub a b) = unat a - unat b" for a b
    by (simp add: saturating_sub_def word_le_nat_alt unat_sub)
  show ?thesis
  proof (cases reverse)
    case True
    define b where "b = min (Suc (unat start)) ?n"
    define a where "a = b - unat sz"
    have ab: "a \<le> b" "b \<le> ?n" unfolding a_def b_def by linarith+
    have "map (nth ls) [a..<b] = drop a (take (Suc (unat start)) ls)"
      using nth_range [OF ab] by (auto simp: drop_take b_def min_def)
    then have "map (nth ls) (rev [a..<b]) = rev (drop a (take (Suc (unat start)) ls))"
      by (simp only: rev_map [symmetric])
    moreover obtain t' where "try_map_act (leaf_or_error env fuel) (map word_of_nat (rev [a..<b])) t =
        (Inr (map (nth ls) (rev [a..<b])), t')" "same_tree (env_lru env) t t'"
    proof -
      have "set (rev [a..<b]) \<subseteq> {..<?n}" using ab by auto
      from leaves_in_range [OF inv env this fuel] that show ?thesis by blast
    qed
    ultimately show ?thesis
      using True cap [of start 1] sub
      by (simp add: get_leaves_def num index_range_def rev_map a_def b_def Let_def)
  next
    case False
    define b where "b = min (unat start + unat sz) ?n"
    obtain t' where t': "try_map_act (leaf_or_error env fuel) (map word_of_nat [unat start..<b]) t =
        (Inr (map (nth ls) [unat start..<b]), t')" "same_tree (env_lru env) t t'"
    proof -
      have "set [unat start..<b] \<subseteq> {..<?n}" by (auto simp: b_def)
      from leaves_in_range [OF inv env this fuel] that show ?thesis by blast
    qed
    have "map (nth ls) [unat start..<b] = take (unat sz) (drop (unat start) ls)"
    proof (cases "unat start \<le> b")
      case True
      then show ?thesis using nth_range [of "unat start" b ls] by (auto simp: b_def min_def)
    qed (simp add: b_def)
    with t' False cap [of start sz] show ?thesis
      by (simp add: get_leaves_def num index_range_def b_def Let_def)
  qed
qed

text \<open>A tree rebuilt from the stored summary over a store that holds the nodes.\<close>

lemma new_with_info_eq:
  assumes inv: "acc_inv sha3 lru contents t ls" and "lru = env_lru env"
    and "lru_contract (env_lru env)" and "contents s = found_nodes contents t"
  shows "\<exists>t'. accumulator_new_with_info env (accumulator_get_info t) s = Inr t' \<and>
    acc_inv sha3 lru contents t' ls \<and> accumulator_get_info t' = accumulator_get_info t"
proof -
  note inv' = inv [unfolded acc_inv_def tree_core_def]
  have len: "length ls \<le> 2 ^ 63" using inv' by simp
  define pairs where "pairs = (if frozen_roots sha3 ls \<noteq> [] then
      zip (map (\<lambda>b. node_at b (frozen_pos (length ls) b)) (set_bits_down 64 (length ls)))
        (frozen_roots sha3 ls) else [])"
  have zip: "(if frozen_roots sha3 ls \<noteq> []
      then zip_frozen 65 (frozen_iter_new (word_of_nat (length ls))) (frozen_roots sha3 ls)
      else Inr []) = Inr pairs"
    unfolding pairs_def by (simp add: zip_frozen_collect [OF frozen_positions [OF len]])
  have "pairs = zip (map (\<lambda>b. node_at b (frozen_pos (length ls) b)) (set_bits_down 64 (length ls)))
        (frozen_roots sha3 ls)" by (simp add: pairs_def)
  with frozen_index_rebuilt [OF len]
  have idx: "frozen_index_ok sha3 ls (length ls) (collect_map pairs)" by simp
  have empty: "lru_view (env_lru env) (lru_new (env_lru env) cap) x = None" for cap x
    using assms(3) by (simp add: lru_contract_def)
  show ?thesis
    using inv' idx assms(2,4) zip
    by (auto simp: accumulator_new_with_info_def accumulator_get_info_def tree_new_def acc_inv_def
        tree_core_def keyed_nodes_def found_nodes_def nodes_ok_def cache_ok_def empty)
qed

end

section \<open>The mock store keeps the contract\<close>

interpretation mock: accumulator_store sha3 "mock_store sha3" "\<lambda>s. s" for sha3
proof
  show "\<exists>s'. ts_delete_nodes (mock_store sha3) hs s = (Inr (), s') \<and>
      s' = (\<lambda>h. if h \<in> set hs then None else s h)" for hs s
  proof -
    have "foldl (\<lambda>m h. m(h := None)) s hs = (\<lambda>h. if h \<in> set hs then None else s h)"
      by (induction hs arbitrary: s) auto
    then show ?thesis by (simp add: mock_store_def mock_delete_nodes_def)
  qed
qed (simp_all add: mock_store_def mock_get_node_def mock_save_node_def mock_save_nodes_def
    insert_nodes_def)

end
