(* ===== verification/Accumulator_Properties.thy ===== *)
theory Accumulator_Properties
  imports Accumulator_Refinement
begin

text \<open>
  The correctness statements of the accumulator crate, each with an instance on concrete data. The
  instances use a transparent hash (a tag byte in front of its input), an unbounded cache and the
  store of \<^verbatim>\<open>tree_store/mock.rs\<close>.
\<close>

section \<open>Concrete data for the instances\<close>

definition demo_sha3 :: hasher where
  "demo_sha3 x = 7 # x"

definition demo_lru :: "(NodeIndex \<rightharpoonup> H256) lru_ops" where
  "demo_lru = \<lparr>lru_new = \<lambda>_. Map.empty, lru_get = \<lambda>c k. (c k, c), lru_put = \<lambda>c k v. c(k \<mapsto> v)\<rparr>"

definition mock_env :: "hasher \<Rightarrow> 'c lru_ops \<Rightarrow> ('c, MockAccumulatorStore) env" where
  "mock_env sha3 lru = \<lparr>env_sha3 = sha3, env_lru = lru, env_store = mock_store sha3\<rparr>"

definition empty_tree :: "'c lru_ops \<Rightarrow> ('c, MockAccumulatorStore) AccumulatorTree" where
  "empty_tree lru =
     \<lparr>at_frozen_subtree_roots = [], at_num_leaves = 0, at_num_nodes = 0,
      at_root_hash = ACCUMULATOR_PLACEHOLDER_HASH, at_index_cache = lru_new lru MAX_CACHE_SIZE,
      at_store = mock_store_new, at_update_nodes = [], at_index_frozen_subtrees = Map.empty,
      at_index_to_freeze = Map.empty\<rparr>"

definition demo_leaves :: "H256 list" where
  "demo_leaves = [[1], [2], [3]]"

definition demo_tree :: "(NodeIndex \<rightharpoonup> H256, MockAccumulatorStore) AccumulatorTree" where
  "demo_tree = snd (tree_append (mock_env demo_sha3 demo_lru) demo_leaves (empty_tree demo_lru))"

lemma demo_lru_contract: "lru_contract demo_lru"
  by (simp add: lru_contract_def lru_view_def demo_lru_def)

lemma mock_env_sel [simp]:
  "env_sha3 (mock_env sha3 lru) = sha3" "env_lru (mock_env sha3 lru) = lru"
  "env_store (mock_env sha3 lru) = mock_store sha3"
  by (simp_all add: mock_env_def)

lemma empty_tree_new: "tree_new_empty (mock_env sha3 lru) mock_store_new = Inr (empty_tree lru)"
  by (simp add: tree_new_empty_def tree_new_def empty_tree_def collect_map_def)

lemma demo_collision_free: "collision_free demo_sha3 demo_leaves"
  by code_simp

lemma demo_collision_free_more: "collision_free demo_sha3 (demo_leaves @ [[4], [5]])"
  by code_simp


lemma merkle_root_Nil: "merkle_root sha3 [] = ACCUMULATOR_PLACEHOLDER_HASH"
  by (simp add: merkle_root_def tree_height_def)

lemma empty_tree_inv:
  assumes "lru_contract lru"
  shows "acc_inv sha3 lru (\<lambda>s. s) (empty_tree lru) []"
proof -
  have "lru_view lru (lru_new lru MAX_CACHE_SIZE) = (\<lambda>_. None)"
    using assms by (intro ext) (simp add: lru_contract_def)
  moreover have "collision_free sha3 []"
    by (simp add: collision_free_def tree_coords_def tree_height_def)
  ultimately show ?thesis
    by (simp add: acc_inv_def tree_core_def empty_tree_def frozen_roots_def merkle_root_Nil
        frozen_index_ok_def keyed_nodes_def nodes_ok_def in_tree_def cache_ok_def)
qed

lemma demo_tree_inv: "acc_inv demo_sha3 demo_lru (\<lambda>s. s) demo_tree demo_leaves"
proof -
  have "collision_free demo_sha3 ([] @ demo_leaves)" using demo_collision_free by simp
  from mock.append_keeps [of demo_sha3 "mock_env demo_sha3 demo_lru", OF _ _ _ _ _ this]
  obtain t' where "tree_append (mock_env demo_sha3 demo_lru) demo_leaves (empty_tree demo_lru) =
      (Inr (merkle_root demo_sha3 demo_leaves), t')"
    and "acc_inv demo_sha3 demo_lru (\<lambda>s. s) t' demo_leaves"
    using empty_tree_inv [OF demo_lru_contract] demo_lru_contract
    by (auto simp: demo_leaves_def)
  then show ?thesis by (simp add: demo_tree_def)
qed

section \<open>The persistent accumulator\<close>

text \<open>
  C2. Appending a batch of leaves to a tree that represents \<open>ls\<close> returns the root of the reference
  Merkle tree over \<open>ls @ xs\<close> and leaves a tree that represents \<open>ls @ xs\<close>: its summary, its index of
  full subtrees, its cache and its nodes are those of the longer list. Nodes are found by hash, so
  the hashes of the nodes of the tree must be distinct; the batch is shorter than \<open>2 ^ 62\<close>, beyond
  which the capacity estimate of the code overflows.
\<close>

theorem append_correct:
  assumes "acc_inv sha3 lru (\<lambda>s. s) t ls" and "lru_contract lru"
    and "length xs < 2 ^ 62" and "length ls + length xs \<le> 2 ^ 63"
    and "collision_free sha3 (ls @ xs)"
  shows "\<exists>t'. tree_append (mock_env sha3 lru) xs t = (Inr (merkle_root sha3 (ls @ xs)), t') \<and>
    acc_inv sha3 lru (\<lambda>s. s) t' (ls @ xs)"
  using mock.append_keeps [of sha3 "mock_env sha3 lru" t ls xs] assms by simp

theorem append_correct_witness:
  "\<exists>t'. tree_append (mock_env demo_sha3 demo_lru) [[4], [5]] demo_tree =
      (Inr (merkle_root demo_sha3 (demo_leaves @ [[4], [5]])), t') \<and>
    acc_inv demo_sha3 demo_lru (\<lambda>s. s) t' (demo_leaves @ [[4], [5]])"
  using append_correct [OF demo_tree_inv demo_lru_contract _ _ demo_collision_free_more]
  by (simp add: demo_leaves_def)

text \<open>
  C7. The persistent and the in-memory accumulator agree: from states over the same leaves, after
  the same batch they have the same root hash, the same full-subtree roots and the same leaf count.
  This needs no assumption on the hash function.
\<close>

theorem append_agrees_in_memory:
  assumes "tree_core sha3 t ls" and "im_repr sha3 acc ls" and "env_sha3 env = sha3"
    and "xs \<noteq> []" and "length xs < 2 ^ 62" and "length ls + length xs \<le> 2 ^ 63"
  shows "\<exists>t' acc'. tree_append env xs t = (Inr (im_root_hash acc'), t') \<and>
    in_memory_append sha3 acc xs = Inr acc' \<and>
    at_root_hash t' = im_root_hash acc' \<and>
    at_frozen_subtree_roots t' = im_frozen_subtree_roots acc' \<and>
    at_num_leaves t' = im_num_leaves acc'"
proof -
  obtain t' where "tree_append env xs t = (Inr (merkle_root sha3 (ls @ xs)), t')"
    and "tree_core sha3 t' (ls @ xs)"
    using tree_append_eq [of env t ls xs] assms by auto
  moreover obtain acc' where "in_memory_append sha3 acc xs = Inr acc'"
    and "im_repr sha3 acc' (ls @ xs)"
    using in_memory_append_refines [OF assms(2,6)] by blast
  ultimately show ?thesis by (auto simp: tree_core_def im_repr_def)
qed

lemma empty_tree_core: "tree_core sha3 (empty_tree lru) []"
  by (simp add: tree_core_def empty_tree_def frozen_roots_def merkle_root_Nil frozen_index_ok_def)

theorem append_agrees_in_memory_witness:
  "\<exists>t' acc acc'. in_memory_default demo_sha3 = Inr acc \<and>
    tree_append (mock_env demo_sha3 demo_lru) demo_leaves (empty_tree demo_lru) =
      (Inr (im_root_hash acc'), t') \<and>
    in_memory_append demo_sha3 acc demo_leaves = Inr acc' \<and>
    at_root_hash t' = im_root_hash acc' \<and>
    at_frozen_subtree_roots t' = im_frozen_subtree_roots acc' \<and>
    at_num_leaves t' = im_num_leaves acc'"
proof -
  obtain acc where "in_memory_default demo_sha3 = Inr acc" and "im_repr demo_sha3 acc []"
    using in_memory_default_repr by blast
  with append_agrees_in_memory [OF empty_tree_core this(2), of "mock_env demo_sha3 demo_lru" demo_leaves demo_lru]
  show ?thesis by (auto simp: demo_leaves_def)
qed

text \<open>
  C8. For every leaf of the tree, \<^verbatim>\<open>get_proof\<close> returns a proof that \<^verbatim>\<open>verify\<close> accepts for that
  leaf, its index and the root of the tree, and the tree still represents the same leaves. The
  search below a cached ancestor takes at most one round per level, so 64 rounds are enough.
\<close>

theorem get_proof_verifies:
  assumes "acc_inv sha3 lru (\<lambda>s. s) t ls" and "lru_contract lru" and "i < length ls" and "64 \<le> fuel"
  shows "\<exists>prf t'. get_proof (mock_env sha3 lru) fuel (word_of_nat i) t = (Inr (Some prf), t') \<and>
    accumulator_verify sha3 prf (at_root_hash t) (ls ! i) (word_of_nat i) = Inr () \<and>
    acc_inv sha3 lru (\<lambda>s. s) t' ls"
proof -
  have len: "length ls \<le> 2 ^ 63" and num: "at_num_leaves t = word_of_nat (length ls)"
    and root: "at_root_hash t = merkle_root sha3 ls"
    using assms(1) by (simp_all add: acc_inv_def tree_core_def)
  from mock.get_siblings_eq [of sha3 "mock_env sha3 lru" t ls i fuel] assms
  obtain t' where sib: "get_siblings (mock_env sha3 lru) fuel (word_of_nat i) (\<lambda>_. True) t =
      (Inr (merkle_path sha3 ls (tree_height (length ls)) i), t')"
    and s: "same_tree lru t t'" by auto
  have "\<not> (word_of_nat (length ls) :: u64) < word_of_nat i"
    using assms(3) len by (simp add: word_less_nat_alt unat_of_nat)
  with sib have "get_proof (mock_env sha3 lru) fuel (word_of_nat i) t =
      (Inr (Some \<lparr>siblings = merkle_path sha3 ls (tree_height (length ls)) i\<rparr>), t')"
    by (simp add: get_proof_def num)
  with verify_merkle_path [OF assms(3) len] root same_tree_inv [OF s assms(1)] show ?thesis by auto
qed

theorem get_proof_verifies_witness:
  "\<exists>prf t'. get_proof (mock_env demo_sha3 demo_lru) 64 (word_of_nat 2) demo_tree = (Inr (Some prf), t') \<and>
    accumulator_verify demo_sha3 prf (at_root_hash demo_tree) (demo_leaves ! 2) (word_of_nat 2) = Inr () \<and>
    acc_inv demo_sha3 demo_lru (\<lambda>s. s) t' demo_leaves"
  using get_proof_verifies [OF demo_tree_inv demo_lru_contract, of 2 64] by (simp add: demo_leaves_def)

text \<open>
  C9. An accepted proof commits to the element: two proofs of the same length that verify against
  the same root at the same index for different elements contain a collision of the hash function,
  at a common step of the two verifications.
\<close>

theorem verify_binds_element:
  assumes "accumulator_verify sha3 prf root e i = Inr ()"
    and "accumulator_verify sha3 prf' root e' i = Inr ()"
    and "length (siblings prf) = length (siblings prf')" and "e \<noteq> e'"
    and "\<forall>h \<in> set (siblings prf) \<union> set (siblings prf') \<union> {e, e'}. length h = 32"
    and "\<And>x. length (sha3 x) = 32"
  shows "\<exists>k < length (siblings prf).
    proof_inputs sha3 (e, i) (siblings prf) ! k \<noteq> proof_inputs sha3 (e', i) (siblings prf') ! k \<and>
    sha3 (proof_inputs sha3 (e, i) (siblings prf) ! k) =
      sha3 (proof_inputs sha3 (e', i) (siblings prf') ! k)"
  using assms by (intro proof_collision) (auto simp: accumulator_verify_def Let_def)

theorem verify_binds_element_witness:
  "\<exists>k < length (siblings \<lparr>siblings = [replicate 32 (9 :: u8)]\<rparr>).
    proof_inputs (\<lambda>_. replicate 32 0) (replicate 32 1, 0) (siblings \<lparr>siblings = [replicate 32 (9 :: u8)]\<rparr>) ! k \<noteq>
      proof_inputs (\<lambda>_. replicate 32 0) (replicate 32 2, 0) (siblings \<lparr>siblings = [replicate 32 (9 :: u8)]\<rparr>) ! k \<and>
    (\<lambda>_. replicate 32 (0 :: u8)) (proof_inputs (\<lambda>_. replicate 32 0) (replicate 32 1, 0)
        (siblings \<lparr>siblings = [replicate 32 (9 :: u8)]\<rparr>) ! k) =
      (\<lambda>_. replicate 32 (0 :: u8)) (proof_inputs (\<lambda>_. replicate 32 0) (replicate 32 2, 0)
        (siblings \<lparr>siblings = [replicate 32 (9 :: u8)]\<rparr>) ! k)"
proof (rule verify_binds_element [where root = "replicate 32 0"])
  show "replicate 32 (1 :: u8) \<noteq> replicate 32 2" by (simp add: replicate_eq_replicate)
qed (simp_all add: accumulator_verify_def MAX_ACCUMULATOR_PROOF_DEPTH_def proof_step_eq)


text \<open>
  C10. Reading ranges: \<^verbatim>\<open>get_leaves\<close> returns the slice of the leaves from the start index, or, in
  reverse, the leaves that end at the start index from the last to the first; both are cut at the
  ends of the list, and never fail.
\<close>

theorem get_leaves_slice:
  assumes "acc_inv sha3 lru (\<lambda>s. s) t ls" and "lru_contract lru" and "64 \<le> fuel"
  shows "\<exists>t'. get_leaves (mock_env sha3 lru) fuel start reverse max_size t =
      (Inr (if reverse
            then rev (drop (min (Suc (unat start)) (length ls) - unat max_size)
                        (take (Suc (unat start)) ls))
            else take (unat max_size) (drop (unat start) ls)), t') \<and>
    acc_inv sha3 lru (\<lambda>s. s) t' ls"
  using mock.get_leaves_eq [of sha3 "mock_env sha3 lru" t ls fuel start reverse max_size] assms
    same_tree_inv [of lru t _ sha3 "\<lambda>s. s" ls] by fastforce

theorem get_leaves_slice_witness:
  "\<exists>t'. get_leaves (mock_env demo_sha3 demo_lru) 64 1 True 2 demo_tree = (Inr [[2], [1]], t') \<and>
    acc_inv demo_sha3 demo_lru (\<lambda>s. s) t' demo_leaves"
  using get_leaves_slice [OF demo_tree_inv demo_lru_contract, of 64 1 True 2]
  by (simp add: demo_leaves_def)

text \<open>
  C11. Persistence: \<^verbatim>\<open>flush\<close> empties the pending nodes into the store, and an accumulator rebuilt
  from the stored summary over that store (\<^verbatim>\<open>fork\<close> without an explicit summary) represents the
  same leaves and has the same summary.
\<close>

theorem flush_then_fork:
  assumes "acc_inv sha3 lru (\<lambda>s. s) t ls" and "lru_contract lru"
  shows "\<exists>t' t''. tree_flush (mock_env sha3 lru) t = (Inr (), t') \<and> at_update_nodes t' = [] \<and>
    accumulator_fork (mock_env sha3 lru) t' None = Inr t'' \<and>
    acc_inv sha3 lru (\<lambda>s. s) t'' ls \<and> accumulator_get_info t'' = accumulator_get_info t'"
proof -
  obtain t' where fl: "tree_flush (mock_env sha3 lru) t = (Inr (), t')" "at_update_nodes t' = []"
    and inv: "acc_inv sha3 lru (\<lambda>s. s) t' ls"
    using mock.flush_keeps [OF assms(1), of "mock_env sha3 lru"] by auto
  have "at_store t' = found_nodes (\<lambda>s. s) t'" using fl(2) by (simp add: found_nodes_def)
  from mock.new_with_info_eq [OF inv, of "mock_env sha3 lru", OF _ _ this] assms(2)
  obtain t'' where "accumulator_new_with_info (mock_env sha3 lru) (accumulator_get_info t') (at_store t') = Inr t''"
    and "acc_inv sha3 lru (\<lambda>s. s) t'' ls" and "accumulator_get_info t'' = accumulator_get_info t'"
    by auto
  with fl show ?thesis by (simp add: accumulator_fork_def)
qed

theorem flush_then_fork_witness:
  "\<exists>t' t''. tree_flush (mock_env demo_sha3 demo_lru) demo_tree = (Inr (), t') \<and>
    at_update_nodes t' = [] \<and> accumulator_fork (mock_env demo_sha3 demo_lru) t' None = Inr t'' \<and>
    acc_inv demo_sha3 demo_lru (\<lambda>s. s) t'' demo_leaves \<and>
    accumulator_get_info t'' = accumulator_get_info t'"
  by (rule flush_then_fork [OF demo_tree_inv demo_lru_contract])

section \<open>The in-memory accumulator\<close>

text \<open>
  \<^verbatim>\<open>from_leaves\<close> and \<^verbatim>\<open>append\<close> compute the reference tree: an accumulator over \<open>ls\<close>
  extended by \<open>xs\<close> never panics below \<open>2 ^ 63\<close> leaves and represents \<open>ls @ xs\<close>, with the
  reference root and the roots of its full subtrees.
\<close>

lemma in_memory_append_correct:
  assumes "length ls + length xs \<le> 2 ^ 63"
  shows "\<exists>acc acc'. from_leaves sha3 ls = Inr acc \<and> in_memory_append sha3 acc xs = Inr acc' \<and>
    im_repr sha3 acc' (ls @ xs) \<and> from_leaves sha3 (ls @ xs) = Inr acc'"
proof -
  obtain acc where acc: "from_leaves sha3 ls = Inr acc" "im_repr sha3 acc ls"
    using from_leaves_repr [of ls sha3] assms by auto
  obtain acc' where acc': "in_memory_append sha3 acc xs = Inr acc'" "im_repr sha3 acc' (ls @ xs)"
    using in_memory_append_refines [OF acc(2) assms] by blast
  obtain acc'' where acc'': "from_leaves sha3 (ls @ xs) = Inr acc''" "im_repr sha3 acc'' (ls @ xs)"
    using from_leaves_repr [of "ls @ xs" sha3] assms by auto
  have "acc'' = acc'" using acc'(2) acc''(2) by (simp add: im_repr_def)
  with acc acc' acc'' show ?thesis by simp
qed

text \<open>
  A proof computed from the leaves alone is accepted against the root of the in-memory
  accumulator over the same leaves.
\<close>

lemma proof_from_leaves_verifies:
  assumes "i < length ls" and "length ls \<le> 2 ^ 63"
  shows "\<exists>prf acc. get_proof_from_leaves sha3 ls (word_of_nat i) = Inr prf \<and>
    from_leaves sha3 ls = Inr acc \<and>
    accumulator_verify sha3 prf (im_root_hash acc) (ls ! i) (word_of_nat i) = Inr ()"
proof -
  obtain acc where "from_leaves sha3 ls = Inr acc" "im_repr sha3 acc ls"
    using from_leaves_repr [OF assms(2)] by blast
  with get_proof_from_leaves_eq [OF assms] verify_merkle_path [OF assms] show ?thesis
    by (auto simp: im_repr_def)
qed

text \<open>
  C13. Appending subtrees is appending their leaves: given the hashes of the subtrees that
  \<^verbatim>\<open>FrozenSubtreeSiblingIterator\<close> visits between the old and the new leaf count, in its order,
  \<^verbatim>\<open>append_subtrees\<close> gives the accumulator over the longer list.
\<close>

theorem append_subtrees_correct:
  assumes "im_repr sha3 acc ls" and "length ls + length xs \<le> 2 ^ 63"
  shows "\<exists>it acc'. sibling_iter_new (word_of_nat (length ls)) (word_of_nat (length ls + length xs)) = Inr it \<and>
    sibling_iter_collect (Suc (length xs)) it =
      Inr (map (at_coords node_at) (new_subtrees (length ls) (length xs))) \<and>
    append_subtrees sha3 acc
      (map (at_coords (subtree_hash sha3 (ls @ xs))) (new_subtrees (length ls) (length xs)))
      (word_of_nat (length xs)) = Inr acc' \<and>
    im_repr sha3 acc' (ls @ xs) \<and> in_memory_append sha3 acc xs = Inr acc'"
proof -
  let ?n = "length ls" and ?m = "length xs"
  define it where "it = \<lparr>current_num_leaves = word_of_nat ?n, remaining_new_leaves = (word_of_nat ?m :: u64)\<rparr>"
  have u: "unat (word_of_nat (?n + ?m) :: u64) = ?n + ?m" "unat (word_of_nat ?n :: u64) = ?n"
    using assms(2) by (simp_all add: unat_of_nat del: of_nat_add)
  have "unat MAX_ACCUMULATOR_LEAVES = 2 ^ 63"
    by (simp add: MAX_ACCUMULATOR_LEAVES_def MAX_ACCUMULATOR_PROOF_DEPTH_def)
  then have "sibling_iter_new (word_of_nat ?n) (word_of_nat (?n + ?m)) = Inr it"
    using assms(2) by (simp add: sibling_iter_new_def word_le_nat_alt u it_def del: of_nat_add) simp
  moreover have "sibling_iter_collect (Suc ?m) it = Inr (map (at_coords node_at) (new_subtrees ?n ?m))"
    unfolding it_def using assms(2) by (intro sibling_iter_drains) simp_all
  moreover obtain acc' where "append_subtrees sha3 acc
      (map (at_coords (subtree_hash sha3 (ls @ xs))) (new_subtrees ?n ?m)) (word_of_nat ?m) = Inr acc'"
    "im_repr sha3 acc' (ls @ xs)" using append_subtrees_eq [OF assms] by blast
  moreover obtain acc'' where "in_memory_append sha3 acc xs = Inr acc''" "im_repr sha3 acc'' (ls @ xs)"
    using in_memory_append_refines [OF assms] by blast
  ultimately show ?thesis by (auto simp: im_repr_def)
qed

theorem append_subtrees_correct_witness:
  "\<exists>acc it acc'. in_memory_default demo_sha3 = Inr acc \<and>
    sibling_iter_new 0 3 = Inr it \<and>
    sibling_iter_collect 4 it = Inr (map (at_coords node_at) (new_subtrees 0 3)) \<and>
    append_subtrees demo_sha3 acc
      (map (at_coords (subtree_hash demo_sha3 demo_leaves)) (new_subtrees 0 3)) 3 = Inr acc' \<and>
    im_repr demo_sha3 acc' demo_leaves \<and> in_memory_append demo_sha3 acc demo_leaves = Inr acc'"
proof -
  obtain acc where acc: "in_memory_default demo_sha3 = Inr acc" "im_repr demo_sha3 acc []"
    using in_memory_default_repr by blast
  have "length ([] :: H256 list) + length demo_leaves \<le> 2 ^ 63" by (simp add: demo_leaves_def)
  from append_subtrees_correct [OF acc(2) this] acc(1) show ?thesis
    by (simp add: demo_leaves_def numeral_2_eq_2 [symmetric] numeral_3_eq_3 [symmetric])
qed


section \<open>Node indices\<close>

text \<open>
  C14. Every index but \<^verbatim>\<open>u64::MAX\<close> is the node of exactly one level and position, and the bit
  tricks navigate between them: the children of a node above the leaves exist, the parent of either is
  the node, they are told apart by \<^verbatim>\<open>is_left_child\<close>, and are each other's sibling; asking a leaf for a
  child panics.
\<close>

theorem node_index_navigation:
  assumes "x \<noteq> G_NODE_ERROR_INDEX"
  shows "(\<exists>!c. case c of (l, p) \<Rightarrow> valid_pos l p \<and> x = node_at l p) \<and>
    (if 0 < level x then \<exists>l r. left_child x = Inr l \<and> right_child x = Inr r \<and> parent l = x \<and> parent r = x \<and>
       is_left_child l \<and> is_right_child r \<and> sibling l = r \<and> sibling r = l
     else \<forall>dir. child x dir = Inl (Panic ''assertion failed: !self.is_leaf()''))"
proof (intro conjI)
  have "x \<noteq> - 1" using assms by (simp add: G_NODE_ERROR_INDEX_def from_inorder_index_def)
  then obtain l p where v: "valid_pos l p" and x: "x = node_at l p" using node_at_surj by blast
  show "\<exists>!c. case c of (l, p) \<Rightarrow> valid_pos l p \<and> x = node_at l p"
  proof (rule ex1I [of _ "(l, p)"])
    show "c = (l, p)" if "case c of (l, p) \<Rightarrow> valid_pos l p \<and> x = node_at l p" for c
      using that node_at_inject [OF v] x by (auto split: prod.splits)
  qed (use v x in simp)
  have l: "level x = l" using v by (simp add: x level_node_at valid_pos_def)
  show "if 0 < level x then \<exists>l r. left_child x = Inr l \<and> right_child x = Inr r \<and> parent l = x \<and> parent r = x \<and>
      is_left_child l \<and> is_right_child r \<and> sibling l = r \<and> sibling r = l
    else \<forall>dir. child x dir = Inl (Panic ''assertion failed: !self.is_leaf()'')"
  proof (cases l)
    case 0
    then show ?thesis using l by (simp add: x child_def is_leaf_node_at assert_that_def)
  next
    case (Suc k)
    then have "Suc k \<le> 63" "k < 63" using v by (simp_all add: valid_pos_def)
    then show ?thesis
      using l by (simp add: x Suc left_child_node_at right_child_node_at parent_node_at
          is_left_child_node_at is_right_child_node_at sibling_node_at sibling_pos_def)
  qed
qed

lemma level_11: "level 11 = 2"
  by (simp add: level_def trailing_zeros_def) code_simp

theorem node_index_navigation_witness:
  "(\<exists>!c. case c of (l, p) \<Rightarrow> valid_pos l p \<and> (11 :: u64) = node_at l p) \<and> level 11 = 2 \<and>
    (\<exists>l r. left_child 11 = Inr l \<and> right_child 11 = Inr r \<and> parent l = 11 \<and> parent r = 11 \<and>
       is_left_child l \<and> is_right_child r \<and> sibling l = r \<and> sibling r = l)"
  using node_index_navigation [of 11] by (simp add: G_NODE_ERROR_INDEX_def from_inorder_index_def level_11)

text \<open>
  Draining \<^verbatim>\<open>FrozenSubTreeIterator\<close> up to \<open>2 ^ 63\<close> leaves yields one node per set bit of the
  leaf count, from the highest: the last full node of that level.
\<close>

lemma frozen_subtrees_correct:
  assumes "n \<le> MAX_ACCUMULATOR_LEAVES"
  shows "frozen_subtrees n =
      Inr (map (\<lambda>b. node_at b (unat n div 2 ^ b - 1)) (filter (bit n) (rev [0..<64])))"
proof -
  have "unat n \<le> 2 ^ 63"
    using assms by (simp add: word_le_nat_alt MAX_ACCUMULATOR_LEAVES_def MAX_ACCUMULATOR_PROOF_DEPTH_def)
  moreover have "set_bits_down 64 (unat n) = filter (bit n) (rev [0..<64])"
    unfolding set_bits_down_def by (rule filter_cong) (simp_all add: bit_unat_iff)
  ultimately show ?thesis using frozen_subtrees_eq [of n] by (simp only: frozen_pos_def)
qed

text \<open>
  The root position: for 1 to \<open>2 ^ 63\<close> leaves the smeared index and the leading-zero count
  agree on the least level whose leftmost node covers every leaf; for no leaves both panic.
\<close>

lemma root_position_correct:
  assumes "n \<le> MAX_ACCUMULATOR_LEAVES"
  shows "if n = 0
    then root_from_leaf_count n = Inl (Panic ''assertion failed: leaf_count > 0'') \<and>
         root_level_from_leaf_count n = Inl (Panic ''assertion failed: leaf_count > 0'')
    else \<exists>h. root_from_leaf_count n = Inr (node_at h 0) \<and> root_level_from_leaf_count n = Inr h \<and>
         unat n \<le> 2 ^ h \<and> (\<forall>k. unat n \<le> 2 ^ k \<longrightarrow> h \<le> k)"
proof -
  have "unat n \<le> 2 ^ 63"
    using assms by (simp add: word_le_nat_alt MAX_ACCUMULATOR_LEAVES_def MAX_ACCUMULATOR_PROOF_DEPTH_def)
  then show ?thesis
    using root_from_leaf_count_eq [of n] root_level_from_leaf_count_eq [of n]
      tree_height_covers [of "unat n"] tree_height_minimal [of "unat n"]
    by (auto simp: root_from_leaf_count_def root_level_from_leaf_count_def word_neq_0_conv)
qed

text \<open>
  The guard of \<^verbatim>\<open>get_proof\<close> is \<^verbatim>\<open>>\<close>, not \<^verbatim>\<open>>=\<close>, and lets the index \<open>num_leaves\<close> through: on an empty
  accumulator leaf 0 panics in \<^verbatim>\<open>root_from_leaf_count\<close>.
\<close>

lemma get_proof_empty_panics:
  "get_proof (mock_env sha3 lru) fuel i (empty_tree lru) =
     (if i = 0 then Inl (Panic ''assertion failed: leaf_count > 0'') else Inr None, empty_tree lru)"
  by (simp add: get_proof_def get_siblings_def empty_tree_def root_from_leaf_count_def word_neq_0_conv)

end
