(* ===== verification/Hash_Value.thy ===== *)
theory Hash_Value
  imports Rooch_Prelude
begin

text \<open>
  Hash values of the sparse Merkle tree (\<^verbatim>\<open>smt/src/jellyfish_merkle/hash.rs\<close>): 32 bytes, read
  as 256 bits or 64 nibbles from the most significant end. The digest SHA3-256 (crate
  \<^verbatim>\<open>tiny_keccak\<close>) and the hex decoder (crate \<^verbatim>\<open>hex\<close>) are parameters. A value of the Rust type has
  exactly 32 bytes; the model keeps it as a byte list with the predicate \<open>hash_value\<close>.
\<close>

section \<open>The operations of the source\<close>

type_synonym HashValue = bytes
type_synonym digest = "bytes \<Rightarrow> HashValue"

definition LENGTH_BYTES :: nat where
  "LENGTH_BYTES = 32"

definition LENGTH_IN_BITS :: nat where
  "LENGTH_IN_BITS = LENGTH_BYTES * 8"

definition hash_value :: "HashValue \<Rightarrow> bool" where
  "hash_value h \<longleftrightarrow> length h = LENGTH_BYTES"

definition smt_merkle_hash :: "digest \<Rightarrow> HashValue \<Rightarrow> HashValue \<Rightarrow> HashValue" where
  "smt_merkle_hash sha3 left right = sha3 (left @ right)"

definition hv_from_slice :: "bytes \<Rightarrow> HashValue result" where
  "hv_from_slice bs =
     (if length bs = LENGTH_BYTES then Inr bs else Inl (Fail ''unable to parse HashValue''))"

definition hv_zero :: HashValue where
  "hv_zero = replicate LENGTH_BYTES 0"

text \<open>Indexing the byte array; out of range is a panic.\<close>

definition byte_at :: "bytes \<Rightarrow> nat \<Rightarrow> u8 result" where
  "byte_at bs i = (if i < length bs then Inr (bs ! i) else Inl (Panic ''index out of bounds''))"

definition hv_bit :: "HashValue \<Rightarrow> nat \<Rightarrow> bool result" where
  "hv_bit h index =
     and_then (assert_that (index < LENGTH_IN_BITS) ''assertion failed: index < LENGTH_IN_BITS'') (\<lambda>_.
     and_then (byte_at h (index div 8)) (\<lambda>b.
     Inr (drop_bit (7 - index mod 8) b AND 1 \<noteq> 0)))"

definition hv_nibble :: "HashValue \<Rightarrow> nat \<Rightarrow> u8 result" where
  "hv_nibble h index =
     and_then (assert_that (index < LENGTH_BYTES * 2) ''assertion failed: index < LENGTH * 2'') (\<lambda>_.
     and_then (byte_at h (index div 2)) (\<lambda>b.
     Inr (drop_bit (if index mod 2 = 0 then 4 else 0) b AND 15)))"

text \<open>The items of \<^verbatim>\<open>iter_bits()\<close>; the iterator has a known length and both ends.\<close>

definition hv_get_bit :: "HashValue \<Rightarrow> nat \<Rightarrow> bool" where
  "hv_get_bit h index \<longleftrightarrow> drop_bit (7 - index mod 8) (h ! (index div 8)) AND 1 \<noteq> 0"

definition iter_bits :: "HashValue \<Rightarrow> bool list" where
  "iter_bits h = map (hv_get_bit h) [0..<LENGTH_IN_BITS]"

definition set_buf_bit :: "bytes \<Rightarrow> nat \<times> bool \<Rightarrow> bytes" where
  "set_buf_bit buf ib =
     (case ib of (i, b) \<Rightarrow>
       if b then buf[i div 8 := buf ! (i div 8) OR push_bit (7 - i mod 8) 1] else buf)"

definition from_bit_iter :: "bool list \<Rightarrow> HashValue result" where
  "from_bit_iter bits =
     (if length bits \<noteq> LENGTH_IN_BITS then Inl (Fail ''unable to parse HashValue'')
      else Inr (foldl set_buf_bit (replicate LENGTH_BYTES 0) (zip [0..<length bits] bits)))"

definition common_prefix_bits_len :: "HashValue \<Rightarrow> HashValue \<Rightarrow> nat" where
  "common_prefix_bits_len h other =
     length (takeWhile (\<lambda>(x, y). x = y) (zip (iter_bits h) (iter_bits other)))"

text \<open>Lower-case hex, two digits per byte, with or without the prefix \<^verbatim>\<open>0x\<close>.\<close>

definition hex_digit :: "nat \<Rightarrow> char" where
  "hex_digit n = ''0123456789abcdef'' ! n"

definition hex_byte :: "u8 \<Rightarrow> string" where
  "hex_byte b = [hex_digit (unat b div 16), hex_digit (unat b mod 16)]"

definition as_hex :: "HashValue \<Rightarrow> string" where
  "as_hex h = concat (map hex_byte h)"

definition as_hex_literal :: "HashValue \<Rightarrow> string" where
  "as_hex_literal h = ''0x'' @ as_hex h"

text \<open>\<open>decode_hex\<close> is \<^verbatim>\<open>hex::FromHex\<close> for an array of 32 bytes.\<close>

definition from_hex :: "(string \<Rightarrow> bytes option) \<Rightarrow> string \<Rightarrow> HashValue result" where
  "from_hex decode_hex s = ok_or (decode_hex s) ''unable to parse HashValue''"

definition strip_0x :: "string \<Rightarrow> string" where
  "strip_0x s = (case s of a # b # r \<Rightarrow> if a = CHR ''0'' \<and> b = CHR ''x'' then r else s | _ \<Rightarrow> s)"

definition from_hex_literal :: "(string \<Rightarrow> bytes option) \<Rightarrow> string \<Rightarrow> HashValue result" where
  "from_hex_literal decode_hex literal =
     (if literal = [] then Inl (Fail ''unable to parse HashValue'')
      else
        let literal' = strip_0x literal; hex_len = length literal' in
        if hex_len < LENGTH_BYTES * 2
        then from_hex decode_hex (replicate (LENGTH_BYTES * 2 - hex_len) CHR ''0'' @ literal')
        else from_hex decode_hex literal')"

definition smt_create_literal_hash :: "string \<Rightarrow> HashValue result" where
  "smt_create_literal_hash word =
     (let s = map (\<lambda>c. word_of_nat (of_char c)) word in
      and_then (assert_that (length s \<le> LENGTH_BYTES) ''assertion failed: s.len() <= LENGTH'') (\<lambda>_.
      case hv_from_slice (s @ replicate (LENGTH_BYTES - length s) 0) of
        Inr h \<Rightarrow> Inr h
      | Inl e \<Rightarrow> Inl (Panic ''create literal hash should success'')))"

definition SPARSE_MERKLE_PLACEHOLDER_HASH :: HashValue where
  "SPARSE_MERKLE_PLACEHOLDER_HASH =
     (case smt_create_literal_hash ''SPARSE_MERKLE_PLACEHOLDER_HASH'' of Inr h \<Rightarrow> h | Inl e \<Rightarrow> [])"

section \<open>Bits and nibbles\<close>

lemma hash_value_length: "hash_value h \<longleftrightarrow> length h = 32"
  by (simp add: hash_value_def LENGTH_BYTES_def)

lemma LENGTH_IN_BITS_eq [simp]: "LENGTH_IN_BITS = 256"
  by (simp add: LENGTH_IN_BITS_def LENGTH_BYTES_def)

lemma placeholder_hash_value [simp]: "hash_value SPARSE_MERKLE_PLACEHOLDER_HASH"
  by (simp add: SPARSE_MERKLE_PLACEHOLDER_HASH_def smt_create_literal_hash_def hv_from_slice_def
      hash_value_length LENGTH_BYTES_def Let_def)

lemma bit_test: "drop_bit n b AND 1 \<noteq> 0 \<longleftrightarrow> bit b n" for b :: u8
proof -
  have "drop_bit n b AND 1 = 0 \<longleftrightarrow> \<not> bit (drop_bit n b) 0"
    by (simp add: bit_0 and_one_eq even_iff_mod_2_eq_zero)
  then show ?thesis by (simp add: bit_drop_bit_eq)
qed

lemma hv_get_bit_eq: "hv_get_bit h i \<longleftrightarrow> bit (h ! (i div 8)) (7 - i mod 8)"
  by (simp only: hv_get_bit_def bit_test)

lemma hv_bit_eq: "hash_value h \<Longrightarrow> i < 256 \<Longrightarrow> hv_bit h i = Inr (hv_get_bit h i)"
  by (auto simp: hv_bit_def byte_at_def hv_get_bit_def hash_value_length)

lemma length_iter_bits [simp]: "length (iter_bits h) = 256"
  by (simp add: iter_bits_def)

lemma nth_iter_bits: "i < 256 \<Longrightarrow> iter_bits h ! i = hv_get_bit h i"
  by (simp add: iter_bits_def)

text \<open>A hash value is determined by its bits.\<close>

lemma iter_bits_inject:
  assumes "hash_value g" and "hash_value h" and "iter_bits g = iter_bits h"
  shows "g = h"
proof (rule nth_equalityI)
  show len: "length g = length h" using assms(1,2) by (simp add: hash_value_length)
  fix k
  assume k: "k < length g"
  show "g ! k = h ! k"
  proof (rule bit_word_eqI)
    fix n
    assume n: "n < LENGTH(8)"
    define m where "m = 7 - n"
    define i where "i = k * 8 + m"
    have m: "m < 8" "7 - m = n" using n by (simp_all add: m_def)
    have "i < 256" using k m(1) assms(1) by (simp add: i_def hash_value_length)
    moreover have "i div 8 = k" "7 - i mod 8 = n" using m by (simp_all add: i_def)
    ultimately show "bit (g ! k) n \<longleftrightarrow> bit (h ! k) n"
      using arg_cong [OF assms(3), of "\<lambda>bs. bs ! i"] by (simp add: nth_iter_bits hv_get_bit_eq)
  qed
qed

lemma common_prefix_bits_len_le: "common_prefix_bits_len g h \<le> 256"
proof -
  have "common_prefix_bits_len g h \<le> length (zip (iter_bits g) (iter_bits h))"
    unfolding common_prefix_bits_len_def by (rule length_takeWhile_le)
  then show ?thesis by simp
qed

lemma common_prefix_bits_len_iff:
  "n \<le> 256 \<Longrightarrow> n \<le> common_prefix_bits_len g h \<longleftrightarrow> take n (iter_bits g) = take n (iter_bits h)"
proof -
  assume n: "n \<le> 256"
  define zs where "zs = zip (iter_bits g) (iter_bits h)"
  have len: "length zs = 256" by (simp add: zs_def)
  have "n \<le> length (takeWhile (\<lambda>(x, y). x = y) zs) \<longleftrightarrow> (\<forall>i < n. case zs ! i of (x, y) \<Rightarrow> x = y)"
    using n by (intro length_takeWhile_ge_iff) (simp add: len)
  moreover have "(\<forall>i < n. case zs ! i of (x, y) \<Rightarrow> x = y) \<longleftrightarrow>
      take n (iter_bits g) = take n (iter_bits h)"
    using n by (auto simp: zs_def list_eq_iff_nth_eq)
  ultimately show ?thesis by (simp add: common_prefix_bits_len_def zs_def)
qed


section \<open>Round trips\<close>

definition bit_buffer :: "bool list \<Rightarrow> nat \<Rightarrow> bytes" where
  "bit_buffer bits n = foldl set_buf_bit (replicate LENGTH_BYTES 0) (zip [0..<n] (take n bits))"

lemma bit_buffer_Suc:
  "n < length bits \<Longrightarrow> bit_buffer bits (Suc n) = set_buf_bit (bit_buffer bits n) (n, bits ! n)"
  by (simp add: bit_buffer_def take_Suc_conv_app_nth)

lemma bit_buffer_bits:
  assumes "length bits = 256" and "n \<le> 256"
  shows "length (bit_buffer bits n) = 32 \<and>
    (\<forall>k < 32. \<forall>j < 8. bit (bit_buffer bits n ! k) (7 - j) \<longleftrightarrow> k * 8 + j < n \<and> bits ! (k * 8 + j))"
  using assms(2)
proof (induction n)
  case 0
  then show ?case by (simp add: bit_buffer_def LENGTH_BYTES_def)
next
  case (Suc n)
  then have n: "n < 256" and IH: "length (bit_buffer bits n) = 32"
    "\<And>k j. k < 32 \<Longrightarrow> j < 8 \<Longrightarrow> bit (bit_buffer bits n ! k) (7 - j) \<longleftrightarrow>
       k * 8 + j < n \<and> bits ! (k * 8 + j)" by auto
  have step: "bit_buffer bits (Suc n) = set_buf_bit (bit_buffer bits n) (n, bits ! n)"
    using n assms(1) by (simp add: bit_buffer_Suc)
  have at_n: "k * 8 + j = n \<longleftrightarrow> n div 8 = k \<and> n mod 8 = j" if "j < 8" for k j
    using that by (metis div_mult_mod_eq mod_mult_self3 mod_less div_mult_self3 div_less
        add_0_right zero_neq_numeral)
  have "bit (bit_buffer bits (Suc n) ! k) (7 - j) \<longleftrightarrow> k * 8 + j < Suc n \<and> bits ! (k * 8 + j)"
    if k: "k < 32" and j: "j < 8" for k j
  proof (cases "bits ! n \<and> n div 8 = k")
    case True
    then have "bit (bit_buffer bits (Suc n) ! k) (7 - j) \<longleftrightarrow>
        bit (bit_buffer bits n ! k) (7 - j) \<or> 7 - j = 7 - n mod 8"
      using IH(1) k by (auto simp: step set_buf_bit_def bit_or_iff bit_exp_iff)
    also have "7 - j = 7 - n mod 8 \<longleftrightarrow> n mod 8 = j" using j mod_less_divisor [of 8 n] by auto
    finally show ?thesis using IH(2) [OF k j] at_n [OF j, of k] True by (auto simp: less_Suc_eq)
  next
    case False
    then have "bit_buffer bits (Suc n) ! k = bit_buffer bits n ! k"
      using IH(1) k by (auto simp: step set_buf_bit_def)
    with IH(2) [OF k j] at_n [OF j, of k] False show ?thesis by (auto simp: less_Suc_eq)
  qed
  moreover have "length (bit_buffer bits (Suc n)) = 32" using IH(1) by (simp add: step set_buf_bit_def)
  ultimately show ?case by blast
qed

lemma from_bit_iter_iter_bits:
  assumes "hash_value h"
  shows "from_bit_iter (iter_bits h) = Inr h"
proof -
  have len: "length (iter_bits h) = 256" by simp
  note buf = bit_buffer_bits [OF len, of 256]
  have "bit_buffer (iter_bits h) 256 = h"
  proof (rule nth_equalityI)
    show "length (bit_buffer (iter_bits h) 256) = length h"
      using buf assms by (simp add: hash_value_length)
    fix k
    assume "k < length (bit_buffer (iter_bits h) 256)"
    then have k: "k < 32" using buf by simp
    show "bit_buffer (iter_bits h) 256 ! k = h ! k"
    proof (rule bit_word_eqI)
      fix n
      assume n: "n < LENGTH(8)"
      define j where "j = 7 - n"
      have j: "j < 8" "7 - j = n" using n by (simp_all add: j_def)
      have i: "k * 8 + j < 256" "(k * 8 + j) div 8 = k" "(k * 8 + j) mod 8 = j" using k j(1) by simp_all
      then have "bit (bit_buffer (iter_bits h) 256 ! k) (7 - j) \<longleftrightarrow> hv_get_bit h (k * 8 + j)"
        using buf k j(1) by (simp add: nth_iter_bits)
      with i j(2) show "bit (bit_buffer (iter_bits h) 256 ! k) n \<longleftrightarrow> bit (h ! k) n"
        by (simp add: hv_get_bit_eq)
    qed
  qed
  then show ?thesis by (simp add: from_bit_iter_def bit_buffer_def)
qed

lemma hex_literal_round_trip:
  assumes "hash_value h" and "\<And>bs. length bs = 32 \<Longrightarrow> decode_hex (concat (map hex_byte bs)) = Some bs"
  shows "from_hex_literal decode_hex (as_hex_literal h) = Inr h"
    and "from_hex_literal decode_hex (as_hex h) = Inr h"
proof -
  have "length (as_hex h) = 2 * length h" by (induction h) (simp_all add: as_hex_def hex_byte_def)
  then have len: "length (as_hex h) = 64" using assms(1) by (simp add: hash_value_length)
  have "strip_0x (as_hex h) = as_hex h"
  proof -
    obtain b bs where h: "h = b # bs" using assms(1) by (cases h) (auto simp: hash_value_length)
    have "hex_digit n \<noteq> CHR ''x''" if "n < 16" for n
    proof -
      have "hex_digit n \<in> set ''0123456789abcdef''"
        unfolding hex_digit_def using that by (intro nth_mem) simp
      then show ?thesis by auto
    qed
    moreover have "unat b mod 16 < 16" by simp
    ultimately show ?thesis by (simp add: strip_0x_def as_hex_def h hex_byte_def)
  qed
  moreover have "decode_hex (as_hex h) = Some h"
    using assms by (simp add: as_hex_def hash_value_length)
  moreover have "as_hex h \<noteq> []" using len by auto
  ultimately show "from_hex_literal decode_hex (as_hex_literal h) = Inr h"
    and "from_hex_literal decode_hex (as_hex h) = Inr h"
    using len by (simp_all add: from_hex_literal_def as_hex_literal_def strip_0x_def from_hex_def
        LENGTH_BYTES_def)
qed

end
