(* ===== verification/Nibble_Path.thy ===== *)
theory Nibble_Path
  imports Hash_Value
begin

text \<open>
  Nibbles and nibble paths of the sparse Merkle tree (\<^verbatim>\<open>jellyfish_merkle/nibble.rs\<close> and
  \<^verbatim>\<open>nibble_path/mod.rs\<close>). A path is a byte vector with a nibble count; its iterators are a
  reference to the path with a range of positions. The second half relates every operation to the
  list of nibbles that a path stands for.
\<close>

section \<open>Nibbles\<close>

type_synonym Nibble = u8

definition nibble_from :: "u8 \<Rightarrow> Nibble result" where
  "nibble_from n = and_then (assert_that (n < 16) ''Nibble out of range'') (\<lambda>_. Inr n)"

definition ROOT_NIBBLE_HEIGHT :: nat where
  "ROOT_NIBBLE_HEIGHT = LENGTH_BYTES * 2"

section \<open>Paths\<close>

record NibblePath =
  np_num_nibbles :: nat
  np_bytes :: bytes

definition np_new :: "bytes \<Rightarrow> NibblePath result" where
  "np_new bs =
     and_then (assert_that (length bs \<le> ROOT_NIBBLE_HEIGHT div 2)
                 ''assertion failed: bytes.len() <= ROOT_NIBBLE_HEIGHT / 2'') (\<lambda>_.
     Inr \<lparr>np_num_nibbles = length bs * 2, np_bytes = bs\<rparr>)"

definition np_new_odd :: "bytes \<Rightarrow> NibblePath result" where
  "np_new_odd bs =
     and_then (assert_that (length bs \<le> ROOT_NIBBLE_HEIGHT div 2)
                 ''assertion failed: bytes.len() <= ROOT_NIBBLE_HEIGHT / 2'') (\<lambda>_.
     and_then (expect (if bs = [] then None else Some (last bs)) ''Should have odd number of nibbles.'') (\<lambda>b.
     and_then (assert_that (b AND 15 = 0) ''Last nibble must be 0.'') (\<lambda>_.
     Inr \<lparr>np_num_nibbles = length bs * 2 - 1, np_bytes = bs\<rparr>)))"

definition np_push :: "NibblePath \<Rightarrow> Nibble \<Rightarrow> NibblePath result" where
  "np_push p nibble =
     and_then (assert_that (ROOT_NIBBLE_HEIGHT > np_num_nibbles p)
                 ''assertion failed: ROOT_NIBBLE_HEIGHT > self.num_nibbles'') (\<lambda>_.
     and_then
       (if np_num_nibbles p mod 2 = 0 then Inr (np_bytes p @ [push_bit 4 nibble])
        else
          let i = np_num_nibbles p div 2 in
          and_then (byte_at (np_bytes p) i) (\<lambda>b. Inr ((np_bytes p)[i := b OR nibble]))) (\<lambda>bs.
     Inr \<lparr>np_num_nibbles = np_num_nibbles p + 1, np_bytes = bs\<rparr>))"

definition np_pop :: "NibblePath \<Rightarrow> (Nibble option \<times> NibblePath) result" where
  "np_pop p =
     (if np_bytes p = [] then Inr (None, p)
      else
        let last_byte = last (np_bytes p) in
        and_then
          (if np_num_nibbles p mod 2 = 0
           then and_then (nibble_from (last_byte AND 15)) (\<lambda>n.
                Inr (n, butlast (np_bytes p) @ [last_byte AND 240]))
           else and_then (nibble_from (drop_bit 4 last_byte)) (\<lambda>n.
                Inr (n, butlast (np_bytes p)))) (\<lambda>(n, bs).
        if np_num_nibbles p = 0 then Inl (Panic ''attempt to subtract with overflow'')
        else Inr (Some n, \<lparr>np_num_nibbles = np_num_nibbles p - 1, np_bytes = bs\<rparr>)))"

definition np_last :: "NibblePath \<Rightarrow> Nibble option result" where
  "np_last p =
     (let last_byte_option = (if np_bytes p = [] then None else Some (last (np_bytes p))) in
      if np_num_nibbles p mod 2 = 0
      then (case last_byte_option of
              None \<Rightarrow> Inr None
            | Some b \<Rightarrow> and_then (nibble_from (b AND 15)) (\<lambda>n. Inr (Some n)))
      else and_then (expect last_byte_option ''Last byte must exist if num_nibbles is odd.'') (\<lambda>b.
           and_then (nibble_from (drop_bit 4 b)) (\<lambda>n. Inr (Some n))))"

definition np_get_bit :: "NibblePath \<Rightarrow> nat \<Rightarrow> bool result" where
  "np_get_bit p i =
     and_then (assert_that (i div 4 < np_num_nibbles p) ''assertion failed: i / 4 < self.num_nibbles'') (\<lambda>_.
     and_then (byte_at (np_bytes p) (i div 8)) (\<lambda>b.
     Inr (drop_bit (7 - i mod 8) b AND 1 \<noteq> 0)))"

definition np_get_nibble :: "NibblePath \<Rightarrow> nat \<Rightarrow> Nibble result" where
  "np_get_nibble p i =
     and_then (assert_that (i < np_num_nibbles p) ''assertion failed: i < self.num_nibbles'') (\<lambda>_.
     and_then (byte_at (np_bytes p) (i div 2)) (\<lambda>b.
     nibble_from (drop_bit (if i mod 2 = 1 then 0 else 4) b AND 15)))"

text \<open>\<^verbatim>\<open>FromIterator<Nibble>\<close>: push one by one on the empty path.\<close>

definition np_from_iter :: "Nibble list \<Rightarrow> NibblePath result" where
  "np_from_iter ns = and_then (np_new []) (\<lambda>p. try_fold np_push p ns)"

section \<open>Iterators\<close>

record BitIterator =
  bi_path :: NibblePath
  bi_start :: nat
  bi_end :: nat

definition np_bits :: "NibblePath \<Rightarrow> BitIterator" where
  "np_bits p = \<lparr>bi_path = p, bi_start = 0, bi_end = np_num_nibbles p * 4\<rparr>"

definition bi_peek :: "BitIterator \<Rightarrow> bool option result" where
  "bi_peek it =
     (if bi_start it < bi_end it
      then and_then (np_get_bit (bi_path it) (bi_start it)) (\<lambda>b. Inr (Some b))
      else Inr None)"

definition bi_next :: "BitIterator \<Rightarrow> (bool option \<times> BitIterator) result" where
  "bi_next it =
     (if bi_start it < bi_end it
      then and_then (np_get_bit (bi_path it) (bi_start it)) (\<lambda>b.
           Inr (Some b, it\<lparr>bi_start := bi_start it + 1\<rparr>))
      else Inr (None, it))"

definition bi_next_back :: "BitIterator \<Rightarrow> (bool option \<times> BitIterator) result" where
  "bi_next_back it =
     (if bi_start it < bi_end it
      then and_then (np_get_bit (bi_path it) (bi_end it - 1)) (\<lambda>b.
           Inr (Some b, it\<lparr>bi_end := bi_end it - 1\<rparr>))
      else Inr (None, it))"

record NibbleIterator =
  ni_path :: NibblePath
  ni_pos :: nat
  ni_end :: nat
  ni_start :: nat

definition ni_new :: "NibblePath \<Rightarrow> nat \<Rightarrow> nat \<Rightarrow> NibbleIterator result" where
  "ni_new p start past =
     and_then (assert_that (start \<le> past) ''assertion failed: start <= end'') (\<lambda>_.
     and_then (assert_that (start \<le> ROOT_NIBBLE_HEIGHT) ''assertion failed: start <= ROOT_NIBBLE_HEIGHT'') (\<lambda>_.
     and_then (assert_that (past \<le> ROOT_NIBBLE_HEIGHT) ''assertion failed: end <= ROOT_NIBBLE_HEIGHT'') (\<lambda>_.
     Inr \<lparr>ni_path = p, ni_pos = start, ni_end = past, ni_start = start\<rparr>)))"

definition np_nibbles :: "NibblePath \<Rightarrow> NibbleIterator result" where
  "np_nibbles p = ni_new p 0 (np_num_nibbles p)"

definition ni_next :: "NibbleIterator \<Rightarrow> (Nibble option \<times> NibbleIterator) result" where
  "ni_next it =
     (if ni_pos it < ni_end it
      then and_then (np_get_nibble (ni_path it) (ni_pos it)) (\<lambda>n.
           Inr (Some n, it\<lparr>ni_pos := ni_pos it + 1\<rparr>))
      else Inr (None, it))"

definition ni_peek :: "NibbleIterator \<Rightarrow> Nibble option result" where
  "ni_peek it =
     (if ni_pos it < ni_end it
      then and_then (np_get_nibble (ni_path it) (ni_pos it)) (\<lambda>n. Inr (Some n))
      else Inr None)"

definition visited_nibbles :: "NibbleIterator \<Rightarrow> NibbleIterator result" where
  "visited_nibbles it = ni_new (ni_path it) (ni_start it) (ni_pos it)"

definition remaining_nibbles :: "NibbleIterator \<Rightarrow> NibbleIterator result" where
  "remaining_nibbles it = ni_new (ni_path it) (ni_pos it) (ni_end it)"

definition ni_bits :: "NibbleIterator \<Rightarrow> BitIterator" where
  "ni_bits it = \<lparr>bi_path = ni_path it, bi_start = ni_pos it * 4, bi_end = ni_end it * 4\<rparr>"

definition ni_num_nibbles :: "NibbleIterator \<Rightarrow> nat result" where
  "ni_num_nibbles it =
     (if ni_start it \<le> ni_end it then Inr (ni_end it - ni_start it)
      else Inl (Panic ''attempt to subtract with overflow''))"

definition ni_is_finished :: "NibbleIterator \<Rightarrow> bool result" where
  "ni_is_finished it = and_then (ni_peek it) (\<lambda>x. Inr (x = None))"

text \<open>Draining an iterator.\<close>

function ni_collect :: "NibbleIterator \<Rightarrow> Nibble list result" where
  "ni_collect it =
     (if ni_pos it < ni_end it
      then and_then (np_get_nibble (ni_path it) (ni_pos it)) (\<lambda>n.
           and_then (ni_collect (it\<lparr>ni_pos := ni_pos it + 1\<rparr>)) (\<lambda>ns. Inr (n # ns)))
      else Inr [])"
  by pat_completeness auto
termination
  by (relation "measure (\<lambda>it. ni_end it - ni_pos it)") auto

declare ni_collect.simps [simp del]

definition get_nibble_path :: "NibbleIterator \<Rightarrow> NibblePath result" where
  "get_nibble_path it =
     and_then (visited_nibbles it) (\<lambda>v.
     and_then (remaining_nibbles it) (\<lambda>r.
     and_then (ni_collect v) (\<lambda>vs.
     and_then (ni_collect r) (\<lambda>rs.
     np_from_iter (vs @ rs)))))"

text \<open>
  \<^verbatim>\<open>skip_common_prefix\<close> on two nibble iterators: the count of matched nibbles and both iterators
  afterwards.
\<close>

function skip_common_prefix ::
    "NibbleIterator \<Rightarrow> NibbleIterator \<Rightarrow> (nat \<times> NibbleIterator \<times> NibbleIterator) result" where
  "skip_common_prefix x y =
     and_then (ni_peek x) (\<lambda>x_peek.
     and_then (ni_peek y) (\<lambda>y_peek.
     if x_peek = None \<or> y_peek = None \<or> x_peek \<noteq> y_peek then Inr (0, x, y)
     else and_then (skip_common_prefix (x\<lparr>ni_pos := ni_pos x + 1\<rparr>) (y\<lparr>ni_pos := ni_pos y + 1\<rparr>))
            (\<lambda>(n, x', y'). Inr (n + 1, x', y'))))"
  by pat_completeness auto
termination
  by (relation "measure (\<lambda>(x, y). ni_end x - ni_pos x)") (auto simp: ni_peek_def split: if_splits)

declare skip_common_prefix.simps [simp del]


section \<open>The nibbles of a path\<close>

definition nib :: "u8 \<Rightarrow> nat \<Rightarrow> Nibble" where
  "nib b i = drop_bit (if i mod 2 = 1 then 0 else 4) b AND 15"

definition nibbles_of :: "NibblePath \<Rightarrow> Nibble list" where
  "nibbles_of p = map (\<lambda>i. nib (np_bytes p ! (i div 2)) i) [0..<np_num_nibbles p]"

text \<open>The invariant of the source: the byte count fits the nibble count, and a spare half byte is 0.\<close>

definition np_wf :: "NibblePath \<Rightarrow> bool" where
  "np_wf p \<longleftrightarrow>
     np_num_nibbles p \<le> 64 \<and> length (np_bytes p) = (np_num_nibbles p + 1) div 2 \<and>
     (odd (np_num_nibbles p) \<longrightarrow> last (np_bytes p) AND 15 = 0)"

lemma ROOT_NIBBLE_HEIGHT_eq [simp]: "ROOT_NIBBLE_HEIGHT = 64"
  by (simp add: ROOT_NIBBLE_HEIGHT_def LENGTH_BYTES_def)

lemma length_nibbles_of [simp]: "length (nibbles_of p) = np_num_nibbles p"
  by (simp add: nibbles_of_def)

lemma nth_nibbles_of: "i < np_num_nibbles p \<Longrightarrow> nibbles_of p ! i = nib (np_bytes p ! (i div 2)) i"
  by (simp add: nibbles_of_def)

lemma and_15: "b AND 15 = take_bit 4 b" for b :: u8
proof -
  have m: "(15 :: u8) = mask 4" by (simp add: mask_eq_exp_minus_1)
  show ?thesis unfolding m by (simp add: take_bit_eq_mask)
qed

lemma and_240: "b AND 240 = push_bit 4 (drop_bit 4 b)" for b :: u8
proof -
  have m: "(240 :: u8) = push_bit 4 (mask 4)" by (simp add: mask_eq_exp_minus_1)
  show ?thesis
    unfolding m by (rule bit_word_eqI)
      (auto simp: bit_and_iff bit_push_bit_iff bit_mask_iff bit_drop_bit_eq simp del: push_bit_mask_eq)
qed

lemma nibble_less_16_iff: "(n :: u8) < 16 \<longleftrightarrow> take_bit 4 n = n"
proof -
  have "take_bit 4 n = n \<longleftrightarrow> unat n mod 16 = unat n"
    by (simp add: word_eq_iff_unat unsigned_take_bit_eq) (simp add: take_bit_eq_mod)
  also have "\<dots> \<longleftrightarrow> unat n < 16" by (metis mod_less mod_less_divisor zero_less_numeral)
  finally show ?thesis by (simp add: word_less_nat_alt)
qed

lemma and_15_less_16 [simp]: "(b AND 15 :: u8) < 16"
  by (simp add: nibble_less_16_iff and_15)

lemma drop_4_less_16 [simp]: "(drop_bit 4 b :: u8) < 16"
  unfolding nibble_less_16_iff
  by (rule bit_word_eqI) (auto simp: bit_take_bit_iff bit_drop_bit_eq dest: bit_imp_le_length)

lemma drop_4_and_15 [simp]: "drop_bit 4 b AND 15 = drop_bit 4 b" for b :: u8
  using drop_4_less_16 [of b] by (simp only: and_15 nibble_less_16_iff)

lemma drop_4_nibble: "n < 16 \<Longrightarrow> drop_bit 4 n = 0" for n :: u8
proof -
  assume "n < 16"
  then have "drop_bit 4 n = drop_bit 4 (take_bit 4 n)" by (simp add: nibble_less_16_iff)
  also have "\<dots> = 0" by (rule drop_bit_take_bit [of 4 4 n, simplified])
  finally show ?thesis .
qed

lemma nib_less_16 [simp]: "nib b i < 16"
  by (simp add: nib_def)

lemma nib_odd: "odd i \<Longrightarrow> nib b i = b AND 15"
  by (simp add: nib_def odd_iff_mod_2_eq_one)

lemma nib_even: "even i \<Longrightarrow> nib b i = drop_bit 4 b"
  by (simp add: nib_def)

lemma nibble_from_eq [simp]: "n < 16 \<Longrightarrow> nibble_from n = Inr n"
  by (simp add: nibble_from_def)

lemma np_get_nibble_eq:
  assumes "np_wf p" and "i < np_num_nibbles p"
  shows "np_get_nibble p i = Inr (nibbles_of p ! i)"
proof -
  have "i div 2 < length (np_bytes p)" using assms by (simp add: np_wf_def)
  with assms(2) show ?thesis
    by (simp add: np_get_nibble_def byte_at_def nth_nibbles_of nib_def)
qed

lemma set_nibbles_of: "n \<in> set (nibbles_of p) \<Longrightarrow> n < 16"
  by (auto simp: nibbles_of_def)

text \<open>A path is determined by its nibbles.\<close>

lemma byte_from_nibs: "drop_bit 4 a = drop_bit 4 b \<Longrightarrow> a AND 15 = b AND 15 \<Longrightarrow> a = b" for a b :: u8
proof (rule bit_eqI)
  fix n
  assume hi: "drop_bit 4 a = drop_bit 4 b" and lo: "a AND 15 = b AND 15"
  show "bit a n \<longleftrightarrow> bit b n"
  proof (cases "n < 4")
    case True
    have "bit (take_bit 4 a) n \<longleftrightarrow> bit (take_bit 4 b) n" using lo by (simp only: and_15)
    with True show ?thesis by (simp add: bit_take_bit_iff)
  next
    case False
    have "bit (drop_bit 4 a) (n - 4) \<longleftrightarrow> bit (drop_bit 4 b) (n - 4)" using hi by simp
    with False show ?thesis by (simp add: bit_drop_bit_eq)
  qed
qed

lemma nibbles_of_inject:
  assumes "np_wf p" and "np_wf q" and eq: "nibbles_of p = nibbles_of q"
  shows "p = q"
proof -
  have n: "np_num_nibbles p = np_num_nibbles q" using arg_cong [OF eq, of length] by simp
  have "np_bytes p = np_bytes q"
  proof (rule nth_equalityI)
    show len: "length (np_bytes p) = length (np_bytes q)" using assms n by (simp add: np_wf_def)
    fix k
    assume k: "k < length (np_bytes p)"
    have at: "nib (np_bytes p ! (i div 2)) i = nib (np_bytes q ! (i div 2)) i" if "i < np_num_nibbles p" for i
      using that n eq by (metis nth_nibbles_of)
    have k2: "2 * k < np_num_nibbles p" using k assms(1) by (simp add: np_wf_def)
    have hi: "drop_bit 4 (np_bytes p ! k) = drop_bit 4 (np_bytes q ! k)"
      using at [OF k2] by (simp add: nib_even)
    have lo: "np_bytes p ! k AND 15 = np_bytes q ! k AND 15"
    proof (cases "2 * k + 1 < np_num_nibbles p")
      case True
      from at [OF this] show ?thesis by (simp add: nib_odd)
    next
      case False
      with k2 have odd: "np_num_nibbles p = 2 * k + 1" by simp
      then have "k = length (np_bytes p) - 1" "np_bytes p \<noteq> []" "np_bytes q \<noteq> []"
        using assms(1) k len by (auto simp: np_wf_def)
      then have "np_bytes p ! k = last (np_bytes p)" "np_bytes q ! k = last (np_bytes q)"
        using len by (simp_all add: last_conv_nth)
      with assms(1,2) odd n show ?thesis by (simp add: np_wf_def)
    qed
    from hi lo show "np_bytes p ! k = np_bytes q ! k" by (rule byte_from_nibs)
  qed
  with n show ?thesis by simp
qed

lemma np_new_eq:
  assumes "length bs \<le> 32"
  shows "np_new bs = Inr \<lparr>np_num_nibbles = length bs * 2, np_bytes = bs\<rparr>"
  using assms by (simp add: np_new_def)

lemma np_wf_bytes: "length bs \<le> 32 \<Longrightarrow> np_wf \<lparr>np_num_nibbles = length bs * 2, np_bytes = bs\<rparr>"
  by (simp add: np_wf_def)

lemma np_wf_last:
  assumes "np_wf p" and "0 < np_num_nibbles p"
  shows "np_bytes p \<noteq> []" and "last (np_bytes p) = np_bytes p ! ((np_num_nibbles p - 1) div 2)"
proof -
  have l: "length (np_bytes p) = (np_num_nibbles p + 1) div 2" using assms(1) by (simp add: np_wf_def)
  obtain m where "np_num_nibbles p = Suc m" using assms(2) by (cases "np_num_nibbles p") auto
  with l have "length (np_bytes p) - 1 = (np_num_nibbles p - 1) div 2" "0 < length (np_bytes p)" by simp_all
  then show "np_bytes p \<noteq> []" and "last (np_bytes p) = np_bytes p ! ((np_num_nibbles p - 1) div 2)"
    by (auto simp: last_conv_nth)
qed

lemma nibbles_of_eqI:
  assumes "length ns = np_num_nibbles p"
    and "\<And>i. i < np_num_nibbles p \<Longrightarrow> nib (np_bytes p ! (i div 2)) i = ns ! i"
  shows "nibbles_of p = ns"
  using assms by (intro nth_equalityI) (simp_all add: nth_nibbles_of)

lemma nib_mod: "i mod 2 = j mod 2 \<Longrightarrow> nib b i = nib b j"
  by (simp add: nib_def)

text \<open>The two half-byte updates of \<^verbatim>\<open>push\<close> and \<^verbatim>\<open>pop\<close>.\<close>

lemma drop_push_nibble: "n < 16 \<Longrightarrow> drop_bit 4 (push_bit 4 n) = n" for n :: u8
proof -
  assume "n < 16"
  then have t: "take_bit 4 n = n" by (simp add: nibble_less_16_iff)
  show ?thesis
  proof (rule bit_word_eqI)
    fix i
    assume "i < LENGTH(8)"
    then show "bit (drop_bit 4 (push_bit 4 n)) i \<longleftrightarrow> bit n i"
      using arg_cong [OF t, of "\<lambda>w. bit w i"] by (auto simp: bit_drop_bit_eq bit_push_bit_iff bit_take_bit_iff)
  qed
qed

lemma and_15_push_nibble: "push_bit 4 n AND 15 = 0" for n :: u8
  by (simp add: and_15 take_bit_push_bit)

lemma or_nibble:
  fixes b n :: u8
  assumes "b AND 15 = 0" and "n < 16"
  shows "drop_bit 4 (b OR n) = drop_bit 4 b" and "(b OR n) AND 15 = n"
proof -
  have n: "take_bit 4 n = n" using assms(2) by (simp add: nibble_less_16_iff)
  show "drop_bit 4 (b OR n) = drop_bit 4 b" by (simp add: drop_bit_or drop_4_nibble assms(2))
  show "(b OR n) AND 15 = n" using assms(1) n by (simp add: and_15 take_bit_or)
qed

lemma and_240_nibs: "drop_bit 4 (b AND 240) = drop_bit 4 b" "(b AND 240) AND 15 = 0" for b :: u8
proof -
  show "(b AND 240) AND 15 = 0" by (simp add: and_240 and_15_push_nibble)
  show "drop_bit 4 (b AND 240) = drop_bit 4 b" by (simp add: and_240 drop_push_nibble)
qed

lemma odd_same_half: "odd n \<Longrightarrow> j < n \<Longrightarrow> j div 2 = n div 2 \<Longrightarrow> even (j :: nat)"
  by (metis dvd_div_mult_self even_Suc odd_two_times_div_two_succ less_not_refl
      odd_iff_mod_2_eq_one div_mult_mod_eq Suc_eq_plus1 mult.commute)

lemma np_push_eq:
  assumes "np_wf p" and "np_num_nibbles p < 64" and "n < 16"
  shows "\<exists>q. np_push p n = Inr q \<and> np_wf q \<and> nibbles_of q = nibbles_of p @ [n]"
proof (cases "even (np_num_nibbles p)")
  case True
  define q where "q = \<lparr>np_num_nibbles = np_num_nibbles p + 1, np_bytes = np_bytes p @ [push_bit 4 n]\<rparr>"
  have "np_push p n = Inr q" using assms True by (simp add: np_push_def q_def)
  moreover have "np_wf q" using assms True by (simp add: np_wf_def q_def and_15_push_nibble)
  moreover have "nibbles_of q = nibbles_of p @ [n]"
  proof (rule nibbles_of_eqI)
    fix i
    assume i: "i < np_num_nibbles q"
    have len: "length (np_bytes p) = np_num_nibbles p div 2" using assms True by (simp add: np_wf_def)
    show "nib (np_bytes q ! (i div 2)) i = (nibbles_of p @ [n]) ! i"
    proof (cases "i < np_num_nibbles p")
      case lt: True
      then have "i div 2 < length (np_bytes p)" using True len by auto
      with lt show ?thesis by (simp add: q_def nth_append nth_nibbles_of)
    next
      case False
      with i have "i = np_num_nibbles p" by (simp add: q_def)
      with True len assms(3) show ?thesis
        by (simp add: q_def nth_append nib_even drop_push_nibble)
    qed
  qed (simp add: q_def)
  ultimately show ?thesis by blast
next
  case False
  define i where "i = np_num_nibbles p div 2"
  define b where "b = np_bytes p ! i"
  define q where "q = \<lparr>np_num_nibbles = np_num_nibbles p + 1, np_bytes = (np_bytes p)[i := b OR n]\<rparr>"
  have pos: "0 < np_num_nibbles p" using False by (simp add: odd_pos)
  have i: "i < length (np_bytes p)" "i = (np_num_nibbles p - 1) div 2"
    using assms(1) False by (auto simp: np_wf_def i_def elim!: oddE)
  have b0: "b AND 15 = 0" using assms(1) False np_wf_last [OF assms(1) pos] i by (simp add: np_wf_def b_def)
  have "np_push p n = Inr q"
    using assms(1-3) False i(1) unfolding i_def [symmetric] odd_iff_mod_2_eq_one
    by (simp add: np_push_def q_def byte_at_def Let_def b_def flip: i_def)
  moreover have "np_wf q" using assms False by (simp add: np_wf_def q_def)
  moreover have "nibbles_of q = nibbles_of p @ [n]"
  proof (rule nibbles_of_eqI)
    fix j
    assume j: "j < np_num_nibbles q"
    consider "j = np_num_nibbles p" | "j < np_num_nibbles p" "j div 2 = i" | "j < np_num_nibbles p" "j div 2 \<noteq> i"
      using j by (force simp: q_def)
    then show "nib (np_bytes q ! (j div 2)) j = (nibbles_of p @ [n]) ! j"
    proof cases
      case 1
      then show ?thesis
        using False i b0 assms(3) by (simp add: q_def nth_append nib_odd or_nibble flip: i_def)
    next
      case 2
      then have "even j" using odd_same_half [OF False] by (simp add: i_def)
      with 2 i b0 assms(3) show ?thesis
        by (simp add: q_def nth_append nth_nibbles_of nib_even drop_4_nibble b_def)
    next
      case 3
      then show ?thesis by (simp add: q_def nth_append nth_nibbles_of)
    qed
  qed (simp add: q_def)
  ultimately show ?thesis by blast
qed

lemma np_from_iter_eq:
  assumes "length ns \<le> 64" and "\<forall>n \<in> set ns. n < 16"
  shows "\<exists>p. np_from_iter ns = Inr p \<and> np_wf p \<and> nibbles_of p = ns"
proof -
  have "\<exists>q. try_fold np_push p ns = Inr q \<and> np_wf q \<and> nibbles_of q = nibbles_of p @ ns"
    if "np_wf p" "np_num_nibbles p + length ns \<le> 64" for p
    using that assms(2)
  proof (induction ns arbitrary: p)
    case Nil
    then show ?case by simp
  next
    case (Cons n ns)
    obtain q where q: "np_push p n = Inr q" "np_wf q" "nibbles_of q = nibbles_of p @ [n]"
      using np_push_eq [of p n] Cons.prems by auto
    then have "np_num_nibbles q + length ns \<le> 64"
      using Cons.prems(2) length_nibbles_of [of q] by (simp del: length_nibbles_of) (simp add: length_nibbles_of)
    then show ?case using Cons.IH [OF q(2)] Cons.prems(3) q by auto
  qed
  from this [of "\<lparr>np_num_nibbles = 0, np_bytes = []\<rparr>"] assms(1)
  show ?thesis by (simp add: np_from_iter_def np_new_eq np_wf_def nibbles_of_def)
qed

lemma pop_index:
  fixes i n :: nat
  assumes i: "i < n - 1" and last: "\<not> i div 2 < (n + 1) div 2 - 1"
  shows "even n" and "i div 2 = (n - 1) div 2" and "even i"
proof -
  show n: "even n"
  proof (rule ccontr)
    assume "odd n"
    then obtain m where "n = 2 * m + 1" by (rule oddE)
    with i last show False by auto
  qed
  then obtain m where m: "n = 2 * m" by (rule evenE)
  with i last have "m - 1 \<le> i div 2" "i < 2 * m - 1" by auto
  then have "i = 2 * (m - 1)" by linarith
  with m i show "i div 2 = (n - 1) div 2" and "even i" by (cases m; simp)+
qed

lemma np_pop_eq:
  assumes "np_wf p" and "0 < np_num_nibbles p"
  shows "\<exists>q. np_pop p = Inr (Some (last (nibbles_of p)), q) \<and> np_wf q \<and> nibbles_of q = butlast (nibbles_of p)"
proof -
  define n where "n = np_num_nibbles p"
  define b where "b = last (np_bytes p)"
  define bs where "bs = (if even n then butlast (np_bytes p) @ [b AND 240] else butlast (np_bytes p))"
  define q where "q = \<lparr>np_num_nibbles = n - 1, np_bytes = bs\<rparr>"
  note w = np_wf_last [OF assms]
  have n: "0 < n" "n \<le> 64" "length (np_bytes p) = (n + 1) div 2"
    using assms by (simp_all add: n_def np_wf_def)
  have nb: "b = np_bytes p ! ((n - 1) div 2)" using w by (simp add: b_def n_def)
  have lastn: "last (nibbles_of p) = nib b (n - 1)"
  proof -
    have "nibbles_of p \<noteq> []" using n by (simp flip: length_0_conv add: n_def)
    then show ?thesis using n by (simp add: last_conv_nth nth_nibbles_of nb flip: n_def)
  qed
  have pop: "np_pop p = Inr (Some (last (nibbles_of p)), q)"
  proof (cases "even n")
    case True
    then have "odd (n - 1)" using n by auto
    with True w n show ?thesis
      by (simp add: np_pop_def q_def bs_def lastn nib_odd Let_def flip: n_def b_def)
  next
    case False
    then have "even (n - 1)" "n mod 2 = 1" by (simp_all add: odd_iff_mod_2_eq_one)
    with False w n show ?thesis
      by (simp add: np_pop_def q_def bs_def lastn nib_even Let_def flip: n_def b_def)
  qed
  have len: "length bs = (n - 1 + 1) div 2"
    using n by (cases "even n") (auto simp: bs_def)
  have "np_wf q"
    using n len by (auto simp: np_wf_def q_def bs_def and_240_nibs)
  moreover have "nibbles_of q = butlast (nibbles_of p)"
  proof (rule nibbles_of_eqI)
    fix i
    assume i: "i < np_num_nibbles q"
    then have i1: "i < n - 1" by (simp add: q_def)
    have rhs: "butlast (nibbles_of p) ! i = nib (np_bytes p ! (i div 2)) i"
      using i1 by (simp add: nth_butlast nth_nibbles_of n_def)
    show "nib (np_bytes q ! (i div 2)) i = butlast (nibbles_of p) ! i"
    proof (cases "i div 2 < length (np_bytes p) - 1")
      case True
      then show ?thesis unfolding rhs by (simp add: q_def bs_def nth_append nth_butlast)
    next
      case False
      then have "\<not> i div 2 < (n + 1) div 2 - 1" using n(3) by metis
      note ev = pop_index [OF i1 this]
      then have "np_bytes q ! (i div 2) = b AND 240"
        using n by (auto simp: q_def bs_def nth_append)
      with ev show ?thesis unfolding rhs by (simp add: nib_even and_240_nibs nb)
    qed
  qed (simp add: q_def n_def)
  ultimately show ?thesis using pop by blast
qed

lemma np_pop_empty: "np_wf p \<Longrightarrow> np_num_nibbles p = 0 \<Longrightarrow> np_pop p = Inr (None, p)"
  by (simp add: np_pop_def np_wf_def)

lemma np_last_eq:
  assumes "np_wf p" and "0 < np_num_nibbles p"
  shows "np_last p = Inr (Some (last (nibbles_of p)))"
proof -
  define n where "n = np_num_nibbles p"
  note w = np_wf_last [OF assms]
  have "nibbles_of p \<noteq> []" using assms(2) by (simp flip: length_0_conv)
  then have lastn: "last (nibbles_of p) = nib (last (np_bytes p)) (n - 1)"
    using assms(2) w by (simp add: last_conv_nth nth_nibbles_of n_def)
  show ?thesis
  proof (cases "even n")
    case True
    then have "odd (n - 1)" using assms(2) by (auto simp: n_def)
    with True w show ?thesis by (simp add: np_last_def lastn nib_odd flip: n_def)
  next
    case False
    then have "even (n - 1)" "n mod 2 = 1" by (simp_all add: odd_iff_mod_2_eq_one)
    with False w show ?thesis by (simp add: np_last_def lastn nib_even flip: n_def)
  qed
qed

section \<open>The iterators over the nibbles of a path\<close>

definition ni_wf :: "NibbleIterator \<Rightarrow> bool" where
  "ni_wf it \<longleftrightarrow> np_wf (ni_path it) \<and> ni_start it \<le> ni_pos it \<and> ni_pos it \<le> ni_end it \<and>
     ni_end it \<le> np_num_nibbles (ni_path it)"

definition ni_rest :: "NibbleIterator \<Rightarrow> Nibble list" where
  "ni_rest it = take (ni_end it - ni_pos it) (drop (ni_pos it) (nibbles_of (ni_path it)))"

definition ni_seen :: "NibbleIterator \<Rightarrow> Nibble list" where
  "ni_seen it = take (ni_pos it - ni_start it) (drop (ni_start it) (nibbles_of (ni_path it)))"

lemma ni_wf_bounds:
  assumes "ni_wf it"
  shows "np_wf (ni_path it)" and "ni_start it \<le> ni_pos it" and "ni_pos it \<le> ni_end it"
    and "ni_end it \<le> np_num_nibbles (ni_path it)" and "ni_end it \<le> 64"
  using assms by (auto simp: ni_wf_def np_wf_def)

lemma length_ni_rest: "ni_wf it \<Longrightarrow> length (ni_rest it) = ni_end it - ni_pos it"
  using ni_wf_bounds [of it] by (simp add: ni_rest_def)

lemma ni_rest_Nil_iff: "ni_wf it \<Longrightarrow> ni_rest it = [] \<longleftrightarrow> ni_pos it = ni_end it"
  using length_ni_rest [of it] by (auto simp: ni_wf_def simp flip: length_0_conv)

lemma ni_rest_Cons:
  assumes "ni_wf it" and "ni_pos it < ni_end it"
  shows "ni_rest it = nibbles_of (ni_path it) ! ni_pos it # ni_rest (it\<lparr>ni_pos := ni_pos it + 1\<rparr>)"
    and "ni_wf (it\<lparr>ni_pos := ni_pos it + 1\<rparr>)"
    and "ni_seen (it\<lparr>ni_pos := ni_pos it + 1\<rparr>) = ni_seen it @ [nibbles_of (ni_path it) ! ni_pos it]"
proof -
  have p: "ni_pos it < length (nibbles_of (ni_path it))" using assms by (simp add: ni_wf_def)
  obtain k where k: "ni_end it - ni_pos it = Suc k" using assms(2) by (metis Suc_diff_Suc)
  then have "ni_end it - (ni_pos it + 1) = k" by simp
  with k show "ni_rest it = nibbles_of (ni_path it) ! ni_pos it # ni_rest (it\<lparr>ni_pos := ni_pos it + 1\<rparr>)"
    by (simp add: ni_rest_def Cons_nth_drop_Suc [OF p, symmetric])
  show "ni_wf (it\<lparr>ni_pos := ni_pos it + 1\<rparr>)" using assms by (simp add: ni_wf_def)
  have "ni_pos it + 1 - ni_start it = Suc (ni_pos it - ni_start it)" using ni_wf_bounds [OF assms(1)] by simp
  moreover have "ni_start it + (ni_pos it - ni_start it) = ni_pos it" using ni_wf_bounds [OF assms(1)] by simp
  ultimately show "ni_seen (it\<lparr>ni_pos := ni_pos it + 1\<rparr>) = ni_seen it @ [nibbles_of (ni_path it) ! ni_pos it]"
    using p ni_wf_bounds [OF assms(1)] by (simp add: ni_seen_def take_Suc_conv_app_nth)
qed

lemma ni_peek_eq:
  assumes "ni_wf it"
  shows "ni_peek it = Inr (case ni_rest it of [] \<Rightarrow> None | n # _ \<Rightarrow> Some n)"
proof (cases "ni_pos it < ni_end it")
  case True
  then show ?thesis
    using ni_rest_Cons(1) [OF assms True] assms by (simp add: ni_peek_def np_get_nibble_eq ni_wf_def)
next
  case False
  then show ?thesis using assms by (simp add: ni_peek_def ni_rest_def)
qed

lemma ni_next_eq:
  assumes "ni_wf it"
  shows "ni_next it = Inr (case ni_rest it of [] \<Rightarrow> (None, it) | n # _ \<Rightarrow> (Some n, it\<lparr>ni_pos := ni_pos it + 1\<rparr>))"
proof (cases "ni_pos it < ni_end it")
  case True
  then show ?thesis
    using ni_rest_Cons(1) [OF assms True] assms by (simp add: ni_next_def np_get_nibble_eq ni_wf_def)
next
  case False
  then show ?thesis using assms by (simp add: ni_next_def ni_rest_def)
qed

lemma ni_collect_eq: "ni_wf it \<Longrightarrow> ni_collect it = Inr (ni_rest it)"
  apply (induction it rule: ni_collect.induct)
  apply (subst ni_collect.simps)
  subgoal premises p for it
    apply (cases "ni_pos it < ni_end it")
    subgoal premises q using p(1) [OF q _ ni_rest_Cons(2) [OF p(2) q]] ni_rest_Cons(1) [OF p(2) q] p(2) q
      by (simp add: np_get_nibble_eq ni_wf_def)
    subgoal by (simp add: ni_rest_def)
    done
  done

lemma ni_is_finished_eq: "ni_wf it \<Longrightarrow> ni_is_finished it = Inr (ni_rest it = [])"
  by (simp add: ni_is_finished_def ni_peek_eq split: list.split)

lemma visited_nibbles_eq:
  assumes "ni_wf it"
  shows "\<exists>v. visited_nibbles it = Inr v \<and> ni_wf v \<and> ni_rest v = ni_seen it \<and> ni_seen v = []"
proof -
  define v where "v = \<lparr>ni_path = ni_path it, ni_pos = ni_start it, ni_end = ni_pos it, ni_start = ni_start it\<rparr>"
  have "visited_nibbles it = Inr v"
    using assms by (auto simp: visited_nibbles_def ni_new_def ni_wf_def np_wf_def v_def)
  moreover have "ni_wf v" using assms by (simp add: ni_wf_def v_def)
  ultimately show ?thesis by (auto simp: ni_rest_def ni_seen_def v_def)
qed

lemma remaining_nibbles_eq:
  assumes "ni_wf it"
  shows "\<exists>r. remaining_nibbles it = Inr r \<and> ni_wf r \<and> ni_rest r = ni_rest it \<and> ni_seen r = []"
proof -
  define r where "r = \<lparr>ni_path = ni_path it, ni_pos = ni_pos it, ni_end = ni_end it, ni_start = ni_pos it\<rparr>"
  have "remaining_nibbles it = Inr r"
    using assms by (auto simp: remaining_nibbles_def ni_new_def ni_wf_def np_wf_def r_def)
  moreover have "ni_wf r" using assms by (simp add: ni_wf_def r_def)
  ultimately show ?thesis by (auto simp: ni_rest_def ni_seen_def r_def)
qed

lemma ni_seen_rest:
  assumes "ni_wf it"
  shows "ni_seen it @ ni_rest it = take (ni_end it - ni_start it) (drop (ni_start it) (nibbles_of (ni_path it)))"
proof -
  define xs where "xs = drop (ni_start it) (nibbles_of (ni_path it))"
  have "ni_end it - ni_start it = (ni_pos it - ni_start it) + (ni_end it - ni_pos it)"
    using ni_wf_bounds [OF assms] by simp
  moreover have "drop (ni_pos it) (nibbles_of (ni_path it)) = drop (ni_pos it - ni_start it) xs"
    using ni_wf_bounds [OF assms] by (simp add: xs_def)
  ultimately show ?thesis by (simp add: ni_seen_def ni_rest_def take_add flip: xs_def)
qed

lemma get_nibble_path_eq:
  assumes "ni_wf it"
  shows "\<exists>p. get_nibble_path it = Inr p \<and> np_wf p \<and> nibbles_of p = ni_seen it @ ni_rest it"
proof -
  obtain v where v: "visited_nibbles it = Inr v" "ni_wf v" "ni_rest v = ni_seen it"
    using visited_nibbles_eq [OF assms] by blast
  obtain r where r: "remaining_nibbles it = Inr r" "ni_wf r" "ni_rest r = ni_rest it"
    using remaining_nibbles_eq [OF assms] by blast
  have "length (ni_seen it @ ni_rest it) \<le> 64"
    unfolding ni_seen_rest [OF assms] using ni_wf_bounds [OF assms] by simp
  moreover have "\<forall>n \<in> set (ni_seen it @ ni_rest it). n < 16"
    unfolding ni_seen_rest [OF assms] by (meson in_set_dropD in_set_takeD set_nibbles_of)
  ultimately show ?thesis
    using np_from_iter_eq v r by (simp add: get_nibble_path_def ni_collect_eq)
qed

fun common_len :: "'a list \<Rightarrow> 'a list \<Rightarrow> nat" where
  "common_len (x # xs) (y # ys) = (if x = y then Suc (common_len xs ys) else 0)"
| "common_len _ _ = 0"

definition ni_advance :: "nat \<Rightarrow> NibbleIterator \<Rightarrow> NibbleIterator" where
  "ni_advance n it = it\<lparr>ni_pos := ni_pos it + n\<rparr>"

lemma skip_common_prefix_eq:
  "ni_wf x \<Longrightarrow> ni_wf y \<Longrightarrow>
   skip_common_prefix x y =
     Inr (common_len (ni_rest x) (ni_rest y),
          ni_advance (common_len (ni_rest x) (ni_rest y)) x,
          ni_advance (common_len (ni_rest x) (ni_rest y)) y)"
proof (induction x y rule: skip_common_prefix.induct)
  case (1 x y)
  show ?case
  proof (cases "ni_pos x < ni_end x \<and> ni_pos y < ni_end y \<and>
      nibbles_of (ni_path x) ! ni_pos x = nibbles_of (ni_path y) ! ni_pos y")
    case True
    note cx = ni_rest_Cons [OF 1(2)] and cy = ni_rest_Cons [OF 1(3)]
    have px: "ni_peek x = Inr (Some (nibbles_of (ni_path x) ! ni_pos x))"
      using True cx(1) 1(2) by (simp add: ni_peek_eq)
    have py: "ni_peek y = Inr (Some (nibbles_of (ni_path y) ! ni_pos y))"
      using True cy(1) 1(3) by (simp add: ni_peek_eq)
    have "skip_common_prefix (x\<lparr>ni_pos := ni_pos x + 1\<rparr>) (y\<lparr>ni_pos := ni_pos y + 1\<rparr>) =
        (let n = common_len (ni_rest (x\<lparr>ni_pos := ni_pos x + 1\<rparr>)) (ni_rest (y\<lparr>ni_pos := ni_pos y + 1\<rparr>))
         in Inr (n, ni_advance n (x\<lparr>ni_pos := ni_pos x + 1\<rparr>), ni_advance n (y\<lparr>ni_pos := ni_pos y + 1\<rparr>)))"
      using 1(1) [OF px py _ cx(2) cy(2)] True by (simp add: Let_def)
    then show ?thesis
      using True cx(1) cy(1) px py by (simp add: skip_common_prefix.simps [of x y] ni_advance_def Let_def)
  next
    case False
    have "common_len (ni_rest x) (ni_rest y) = 0"
    proof (cases "ni_pos x < ni_end x \<and> ni_pos y < ni_end y")
      case True
      with False ni_rest_Cons(1) [OF 1(2)] ni_rest_Cons(1) [OF 1(3)] show ?thesis by simp
    next
      case no: False
      then have "ni_rest x = [] \<or> ni_rest y = []" by (auto simp: ni_rest_def)
      then show ?thesis by (cases "ni_rest x"; cases "ni_rest y") auto
    qed
    moreover have "skip_common_prefix x y = Inr (0, x, y)"
    proof (cases "ni_pos x < ni_end x \<and> ni_pos y < ni_end y")
      case True
      with False ni_rest_Cons(1) [OF 1(2)] ni_rest_Cons(1) [OF 1(3)] show ?thesis
        by (simp add: skip_common_prefix.simps [of x y] ni_peek_eq 1(2,3))
    next
      case no: False
      then have "ni_rest x = [] \<or> ni_rest y = []" by (auto simp: ni_rest_def)
      then show ?thesis
        by (auto simp: skip_common_prefix.simps [of x y] ni_peek_eq 1(2,3) split: list.splits)
    qed
    ultimately show ?thesis by (simp add: ni_advance_def)
  qed
qed

lemma ni_advance_wf:
  assumes "ni_wf it" and "n \<le> length (ni_rest it)"
  shows "ni_wf (ni_advance n it)" and "ni_rest (ni_advance n it) = drop n (ni_rest it)"
    and "ni_seen (ni_advance n it) = ni_seen it @ take n (ni_rest it)"
proof -
  note b = ni_wf_bounds [OF assms(1)]
  have n: "ni_pos it + n \<le> ni_end it" using assms(2) length_ni_rest [OF assms(1)] b by simp
  show w: "ni_wf (ni_advance n it)" using assms(1) n by (simp add: ni_wf_def ni_advance_def)
  show "ni_rest (ni_advance n it) = drop n (ni_rest it)"
    by (simp add: ni_rest_def ni_advance_def drop_take add.commute)
  define xs where "xs = drop (ni_start it) (nibbles_of (ni_path it))"
  have "ni_pos it + n - ni_start it = (ni_pos it - ni_start it) + n" using b by simp
  moreover have "drop (ni_pos it) (nibbles_of (ni_path it)) = drop (ni_pos it - ni_start it) xs"
    using b by (simp add: xs_def)
  moreover have "min (ni_end it - ni_pos it) n = n" using n by simp
  ultimately show "ni_seen (ni_advance n it) = ni_seen it @ take n (ni_rest it)"
    by (simp add: ni_seen_def ni_rest_def ni_advance_def take_add flip: xs_def)
qed

lemma common_len_le: "common_len xs ys \<le> length xs" "common_len xs ys \<le> length ys"
  by (induction xs ys rule: common_len.induct) auto

lemma common_len_prefix: "take (common_len xs ys) xs = take (common_len xs ys) ys"
  by (induction xs ys rule: common_len.induct) auto

lemma common_len_append [simp]: "common_len (zs @ xs) (zs @ ys) = length zs + common_len xs ys"
  by (induction zs) auto

lemma common_len_diff:
  "common_len xs ys < length xs \<Longrightarrow> common_len xs ys < length ys \<Longrightarrow>
   xs ! common_len xs ys \<noteq> ys ! common_len xs ys"
  by (induction xs ys rule: common_len.induct) auto

section \<open>The nibbles of a hash value\<close>

definition hash_nibbles :: "HashValue \<Rightarrow> Nibble list" where
  "hash_nibbles h = nibbles_of \<lparr>np_num_nibbles = length h * 2, np_bytes = h\<rparr>"

definition key_iter :: "HashValue \<Rightarrow> NibbleIterator" where
  "key_iter h = \<lparr>ni_path = \<lparr>np_num_nibbles = length h * 2, np_bytes = h\<rparr>, ni_pos = 0,
     ni_end = length h * 2, ni_start = 0\<rparr>"

lemma length_hash_nibbles: "hash_value h \<Longrightarrow> length (hash_nibbles h) = 64"
  by (simp add: hash_nibbles_def hash_value_length)

lemma hash_nibbles_less: "n \<in> set (hash_nibbles h) \<Longrightarrow> n < 16"
  by (auto simp: hash_nibbles_def dest: set_nibbles_of)

lemma hash_nibbles_inject:
  assumes "hash_value g" and "hash_value h" and "hash_nibbles g = hash_nibbles h"
  shows "g = h"
  using nibbles_of_inject [OF np_wf_bytes np_wf_bytes, of g h] assms
  by (simp add: hash_nibbles_def hash_value_length)

lemma key_iter_eq:
  assumes "hash_value h"
  shows "and_then (np_new h) np_nibbles = Inr (key_iter h)" and "ni_wf (key_iter h)"
    and "ni_rest (key_iter h) = hash_nibbles h" and "ni_seen (key_iter h) = []"
  using assms by (simp_all add: np_new_eq np_nibbles_def ni_new_def key_iter_def hash_value_length
      ni_wf_def np_wf_def ni_rest_def ni_seen_def hash_nibbles_def)

text \<open>The bits of a nibble, most significant first, are the bits of the hash value.\<close>

lemma bit_hash_nibbles:
  assumes "hash_value h" and "i < 64" and "j < 4"
  shows "bit (hash_nibbles h ! i) (3 - j) \<longleftrightarrow> hv_get_bit h (4 * i + j)"
proof -
  have n: "hash_nibbles h ! i = nib (h ! (i div 2)) i"
    using assms by (simp add: hash_nibbles_def nth_nibbles_of hash_value_length)
  show ?thesis
  proof (cases "even i")
    case True
    then obtain k where i: "i = 2 * k" by blast
    have "(4 * i + j) div 8 = k" "(4 * i + j) mod 8 = j" using assms(3) i by auto
    moreover have "4 + (3 - j) = 7 - j" using assms(3) by simp
    ultimately show ?thesis unfolding n hv_get_bit_eq using i by (simp add: nib_even bit_drop_bit_eq)
  next
    case False
    then obtain k where i: "i = 2 * k + 1" by (metis oddE)
    have e: "4 * i + j = (4 + j) + k * 8" using i by simp
    have "(4 * i + j) div 8 = k" "(4 * i + j) mod 8 = 4 + j" using assms(3) by (simp_all add: e)
    moreover have "7 - (4 + j) = 3 - j" "3 - j < 4" using assms(3) by simp_all
    ultimately show ?thesis unfolding n hv_get_bit_eq using i assms(3)
      by (simp add: nib_odd and_15 bit_take_bit_iff)
  qed
qed

end
