(* ===== verification/Smt_Object.thy ===== *)
theory Smt_Object
  imports Hash_Value
begin

text \<open>
  Keys and values of the sparse Merkle tree (\<^verbatim>\<open>smt_object.rs\<close>). A key is any type that
  converts to and from a 32-byte hash; a value travels with its serialized bytes in an
  \<^verbatim>\<open>SMTObject\<close>. The conversions of the key type, the BCS codec and SHA3-256 are the fields of
  an environment record. The memo cells \<^verbatim>\<open>cached_hash\<close> hold the result of a pure function and
  are left out.
\<close>

record ('k, 'v) smt_env =
  env_digest :: digest
  key_into :: "'k \<Rightarrow> HashValue"
  key_from :: "HashValue \<Rightarrow> 'k"
  bcs_to_bytes :: "'v \<Rightarrow> bytes result"
  bcs_from_bytes :: "bytes \<Rightarrow> 'v result"
  raw_kv_to_bytes :: "HashValue \<times> bytes \<Rightarrow> bytes result"
  raw_kv_from_bytes :: "bytes \<Rightarrow> (HashValue \<times> bytes) result"

definition key_merkle_hash :: "('k, 'v) smt_env \<Rightarrow> 'k \<Rightarrow> HashValue" where
  "key_merkle_hash env k = key_into env k"

record 'v SMTObject =
  obj_origin :: 'v
  obj_raw :: bytes

definition smt_object_new :: "'v \<Rightarrow> bytes \<Rightarrow> 'v SMTObject" where
  "smt_object_new origin raw = \<lparr>obj_origin = origin, obj_raw = raw\<rparr>"

definition obj_from_origin :: "('k, 'v) smt_env \<Rightarrow> 'v \<Rightarrow> 'v SMTObject result" where
  "obj_from_origin env origin =
     and_then (bcs_to_bytes env origin) (\<lambda>raw. Inr \<lparr>obj_origin = origin, obj_raw = raw\<rparr>)"

definition obj_from_raw :: "('k, 'v) smt_env \<Rightarrow> bytes \<Rightarrow> 'v SMTObject result" where
  "obj_from_raw env raw =
     and_then (bcs_from_bytes env raw) (\<lambda>origin. Inr \<lparr>obj_origin = origin, obj_raw = raw\<rparr>)"

text \<open>\<^verbatim>\<open>EncodeToObject\<close> of a serializable value.\<close>

definition into_object :: "('k, 'v) smt_env \<Rightarrow> 'v \<Rightarrow> 'v SMTObject result" where
  "into_object env v = obj_from_origin env v"

definition obj_merkle_hash :: "('k, 'v) smt_env \<Rightarrow> 'v SMTObject \<Rightarrow> HashValue" where
  "obj_merkle_hash env obj = env_digest env (obj_raw obj)"

text \<open>Equality of objects compares the bytes only.\<close>

definition obj_eq :: "'v SMTObject \<Rightarrow> 'v SMTObject \<Rightarrow> bool" where
  "obj_eq a b \<longleftrightarrow> obj_raw a = obj_raw b"

section \<open>Well-formed objects\<close>

text \<open>
  An object is well formed when its bytes encode its origin; the codec hypotheses state that BCS
  decodes what it encodes. Both hold of every object that the constructors above return.
\<close>

definition value_codec :: "('k, 'v) smt_env \<Rightarrow> bool" where
  "value_codec env \<longleftrightarrow>
     (\<forall>v raw. bcs_to_bytes env v = Inr raw \<longrightarrow> bcs_from_bytes env raw = Inr v)"

definition kv_codec :: "('k, 'v) smt_env \<Rightarrow> bool" where
  "kv_codec env \<longleftrightarrow>
     (\<forall>kv raw. raw_kv_to_bytes env kv = Inr raw \<longrightarrow> raw_kv_from_bytes env raw = Inr kv)"

definition key_codec :: "('k, 'v) smt_env \<Rightarrow> bool" where
  "key_codec env \<longleftrightarrow> (\<forall>k. key_from env (key_into env k) = k \<and> hash_value (key_into env k))"

definition obj_ok :: "('k, 'v) smt_env \<Rightarrow> 'v SMTObject \<Rightarrow> bool" where
  "obj_ok env obj \<longleftrightarrow> bcs_to_bytes env (obj_origin obj) = Inr (obj_raw obj)"

lemma obj_from_origin_ok: "obj_from_origin env v = Inr obj \<Longrightarrow> obj_ok env obj \<and> obj_origin obj = v"
  by (auto simp: obj_from_origin_def obj_ok_def and_then_eq_Inr)

lemma obj_from_raw_of_ok:
  assumes "value_codec env" and "obj_ok env obj"
  shows "obj_from_raw env (obj_raw obj) = Inr obj"
  using assms by (simp add: obj_from_raw_def value_codec_def obj_ok_def)

end
