(* ===== verification/Smt_Node.thy ===== *)
theory Smt_Node
  imports Nibble_Path Smt_Object
begin

text \<open>
  The nodes of the Jellyfish Merkle tree (\<^verbatim>\<open>jellyfish_merkle/node_type/mod.rs\<close>): internal
  nodes with up to sixteen children, leaves and the null node, their hashes, the sibling hashes on
  the way to a child, and the byte encoding. The children of an internal node, a \<^verbatim>\<open>HashMap\<close>
  from nibbles, are a partial function on nibbles; iteration over them is in index order, which no
  result but the order of \<^verbatim>\<open>all_child\<close> depends on. The \<^verbatim>\<open>u8\<close> parameters \<^verbatim>\<open>start\<close> and
  \<^verbatim>\<open>width\<close>, which never exceed 16, are natural numbers. The memo cells \<^verbatim>\<open>cached_hash\<close> are
  left out.
\<close>

section \<open>Internal nodes\<close>

type_synonym NodeKey = HashValue

record Child =
  ch_hash :: HashValue
  ch_is_leaf :: bool

type_synonym Children = "Nibble \<rightharpoonup> Child"

record SmtInternalNode =
  in_children :: Children

definition nibble_values :: "Nibble list" where
  "nibble_values = map word_of_nat [0..<16]"

definition children_iter :: "Children \<Rightarrow> (Nibble \<times> Child) list" where
  "children_iter c = List.map_filter (\<lambda>n. map_option (Pair n) (c n)) nibble_values"

definition smt_internal_new :: "Children \<Rightarrow> SmtInternalNode result" where
  "smt_internal_new c =
     (let cs = children_iter c in
      and_then (assert_that (cs \<noteq> []) ''assertion failed: !children.is_empty()'') (\<lambda>_.
      and_then
        (if length cs = 1
         then and_then (expect (map_option snd (List.find (\<lambda>_. True) cs)) ''Must have 1 element'') (\<lambda>ch.
              assert_that (\<not> ch_is_leaf ch) ''assertion failed: !children.values().next().is_leaf'')
         else Inr ()) (\<lambda>_.
      Inr \<lparr>in_children = c\<rparr>)))"

definition in_child :: "SmtInternalNode \<Rightarrow> Nibble \<Rightarrow> Child option" where
  "in_child node n = in_children node n"

definition num_children :: "SmtInternalNode \<Rightarrow> nat" where
  "num_children node = length (children_iter (in_children node))"

definition bitmap_step :: "u16 \<times> u16 \<Rightarrow> Nibble \<times> Child \<Rightarrow> u16 \<times> u16" where
  "bitmap_step = (\<lambda>(existence_bitmap, leaf_bitmap) (nibble, child).
     (existence_bitmap OR push_bit (unat nibble) 1,
      leaf_bitmap OR push_bit (unat nibble) (if ch_is_leaf child then 1 else 0)))"

definition generate_bitmaps :: "SmtInternalNode \<Rightarrow> (u16 \<times> u16) result" where
  "generate_bitmaps node =
     (let (existence_bitmap, leaf_bitmap) = foldl bitmap_step (0, 0) (children_iter (in_children node)) in
      and_then (assert_that (existence_bitmap OR leaf_bitmap = existence_bitmap)
        ''assertion failed: existence_bitmap | leaf_bitmap == existence_bitmap'') (\<lambda>_.
      Inr (existence_bitmap, leaf_bitmap)))"

definition range_bitmaps :: "nat \<Rightarrow> nat \<Rightarrow> u16 \<times> u16 \<Rightarrow> (u16 \<times> u16) result" where
  "range_bitmaps start width bitmaps =
     and_then (assert_that (start < 16 \<and> count_ones (word_of_nat width :: u8) = 1 \<and> start mod width = 0)
       ''assertion failed: start < 16 && width.count_ones() == 1 && start % width == 0'') (\<lambda>_.
     and_then
       (if width = 16 then Inr 65535
        else and_then (assert_that (width \<le> 16) ''assertion failed: width <= 16'') (\<lambda>_.
             Inr (push_bit width 1 - 1))) (\<lambda>m.
     let mask = push_bit start m in
     Inr (fst bitmaps AND mask, snd bitmaps AND mask)))"

definition only_child :: "SmtInternalNode \<Rightarrow> u16 \<Rightarrow> HashValue result" where
  "only_child node range_existence_bitmap =
     and_then (nibble_from (word_of_nat (trailing_zeros range_existence_bitmap))) (\<lambda>only_child_index.
     and_then (expect (in_child node only_child_index) ''Corrupted internal node'') (\<lambda>child.
     Inr (ch_hash child)))"

lemma range_bitmaps_width_pos: "range_bitmaps start width bm = Inr r \<Longrightarrow> 0 < width"
  by (cases "width = 0") (simp_all add: range_bitmaps_def assert_that_def count_ones_def)

function make_hash ::
    "digest \<Rightarrow> SmtInternalNode \<Rightarrow> nat \<Rightarrow> nat \<Rightarrow> u16 \<times> u16 \<Rightarrow> HashValue result" where
  "make_hash digest node start width bitmaps =
     and_then (range_bitmaps start width bitmaps) (\<lambda>(range_existence_bitmap, range_leaf_bitmap).
     if range_existence_bitmap = 0 then Inr SPARSE_MERKLE_PLACEHOLDER_HASH
     else if count_ones range_existence_bitmap = 1 \<and> (range_leaf_bitmap \<noteq> 0 \<or> width = 1)
     then only_child node range_existence_bitmap
     else
       and_then (make_hash digest node start (width div 2) bitmaps) (\<lambda>left_child.
       and_then (make_hash digest node (start + width div 2) (width div 2) bitmaps) (\<lambda>right_child.
       Inr (smt_merkle_hash digest left_child right_child))))"
  by pat_completeness auto
termination
  by (relation "measure (\<lambda>(_, _, _, width, _). width)") (auto dest: range_bitmaps_width_pos)

declare make_hash.simps [simp del]

definition smt_internal_hash :: "digest \<Rightarrow> SmtInternalNode \<Rightarrow> HashValue result" where
  "smt_internal_hash digest node =
     and_then (generate_bitmaps node) (\<lambda>bitmaps. make_hash digest node 0 16 bitmaps)"

definition get_child_and_sibling_half_start :: "Nibble \<Rightarrow> nat \<Rightarrow> u8 \<times> u8" where
  "get_child_and_sibling_half_start n height =
     (let child_half_start = push_bit height 255 AND n;
          sibling_half_start = child_half_start XOR push_bit height 1
      in (child_half_start, sibling_half_start))"

fun child_with_siblings_loop ::
    "digest \<Rightarrow> SmtInternalNode \<Rightarrow> Nibble \<Rightarrow> u16 \<times> u16 \<Rightarrow> nat list \<Rightarrow> HashValue list \<Rightarrow>
     (NodeKey option \<times> HashValue list) result" where
  "child_with_siblings_loop digest node n bitmaps [] siblings =
     Inl (Panic ''Impossible to get here without returning even at the lowest level.'')"
| "child_with_siblings_loop digest node n bitmaps (h # hs) siblings =
     (let width = 2 ^ h;
          (child_half_start, sibling_half_start) = get_child_and_sibling_half_start n h
      in
      and_then (make_hash digest node (unat sibling_half_start) width bitmaps) (\<lambda>s.
      let siblings' = siblings @ [s] in
      and_then (range_bitmaps (unat child_half_start) width bitmaps)
        (\<lambda>(range_existence_bitmap, range_leaf_bitmap).
      if range_existence_bitmap = 0 then Inr (None, siblings')
      else if count_ones range_existence_bitmap = 1 \<and> (count_ones range_leaf_bitmap = 1 \<or> width = 1)
      then and_then (only_child node range_existence_bitmap) (\<lambda>hash. Inr (Some hash, siblings'))
      else child_with_siblings_loop digest node n bitmaps hs siblings')))"

definition get_child_with_siblings ::
    "digest \<Rightarrow> SmtInternalNode \<Rightarrow> Nibble \<Rightarrow> (NodeKey option \<times> HashValue list) result" where
  "get_child_with_siblings digest node n =
     and_then (generate_bitmaps node) (\<lambda>bitmaps.
     child_with_siblings_loop digest node n bitmaps [3, 2, 1, 0] [])"

definition all_child :: "SmtInternalNode \<Rightarrow> HashValue list" where
  "all_child node = map (ch_hash \<circ> snd) (children_iter (in_children node))"

text \<open>The byte encoding: two little-endian bitmaps, then the hashes in index order.\<close>

definition u16_le :: "u16 \<Rightarrow> bytes" where
  "u16_le w = [ucast w, ucast (drop_bit 8 w)]"

definition read_u16_le :: "bytes \<Rightarrow> nat \<Rightarrow> u16 result" where
  "read_u16_le data pos =
     (if pos + 2 \<le> length data
      then Inr (ucast (data ! pos) OR push_bit 8 (ucast (data ! (pos + 1))))
      else Inl (Fail ''failed to fill whole buffer''))"

fun serialize_children :: "SmtInternalNode \<Rightarrow> nat \<Rightarrow> u16 \<Rightarrow> bytes result" where
  "serialize_children node 0 existence_bitmap = Inr []"
| "serialize_children node (Suc k) existence_bitmap =
     (let next_child = trailing_zeros existence_bitmap in
      and_then (nibble_from (word_of_nat next_child)) (\<lambda>n.
      and_then (expect (in_child node n) ''no entry found for key'') (\<lambda>child.
      and_then (serialize_children node k (existence_bitmap AND NOT (push_bit next_child 1))) (\<lambda>rest.
      Inr (ch_hash child @ rest)))))"

definition serialize_internal :: "SmtInternalNode \<Rightarrow> bytes result" where
  "serialize_internal node =
     and_then (generate_bitmaps node) (\<lambda>(existence_bitmap, leaf_bitmap).
     and_then (serialize_children node (count_ones existence_bitmap) existence_bitmap) (\<lambda>rest.
     Inr (u16_le existence_bitmap @ u16_le leaf_bitmap @ rest)))"

fun deserialize_children ::
    "bytes \<Rightarrow> u16 \<Rightarrow> nat \<Rightarrow> u16 \<Rightarrow> nat \<Rightarrow> Children \<Rightarrow> (Children \<times> u16) result" where
  "deserialize_children data leaf_bitmap 0 existence_bitmap pos children = Inr (children, existence_bitmap)"
| "deserialize_children data leaf_bitmap (Suc k) existence_bitmap pos children =
     (let next_child = trailing_zeros existence_bitmap;
          remaining = length data - pos
      in
      and_then (ensure_that (remaining \<ge> LENGTH_BYTES) ''not enough bytes left'') (\<lambda>_.
      let child_bit = push_bit next_child 1 in
      and_then (nibble_from (word_of_nat next_child)) (\<lambda>n.
      and_then (hv_from_slice (take LENGTH_BYTES (drop pos data))) (\<lambda>hash.
      deserialize_children data leaf_bitmap k (existence_bitmap AND NOT child_bit) (pos + LENGTH_BYTES)
        (children(n \<mapsto> \<lparr>ch_hash = hash, ch_is_leaf = (leaf_bitmap AND child_bit) \<noteq> 0\<rparr>))))))"

definition deserialize_internal :: "bytes \<Rightarrow> SmtInternalNode result" where
  "deserialize_internal data =
     and_then (read_u16_le data 0) (\<lambda>existence_bitmap.
     and_then (read_u16_le data 2) (\<lambda>leaf_bitmap.
     if existence_bitmap = 0 then Inl (Fail ''No children found in internal node'')
     else if existence_bitmap AND leaf_bitmap \<noteq> leaf_bitmap then Inl (Fail ''Non-existent leaf bits set'')
     else
       and_then (deserialize_children data leaf_bitmap (count_ones existence_bitmap) existence_bitmap 4 Map.empty)
         (\<lambda>(children, rest).
       and_then (assert_that (rest = 0) ''assertion failed: existence_bitmap == 0'') (\<lambda>_.
       smt_internal_new children))))"

section \<open>Leaves\<close>

record ('k, 'v) SmtLeafNode =
  ln_key :: 'k
  ln_value :: "'v SMTObject"

definition smt_leaf_new :: "'k \<Rightarrow> 'v SMTObject \<Rightarrow> ('k, 'v) SmtLeafNode" where
  "smt_leaf_new key value = \<lparr>ln_key = key, ln_value = value\<rparr>"

definition ln_key_hash :: "('k, 'v) smt_env \<Rightarrow> ('k, 'v) SmtLeafNode \<Rightarrow> HashValue" where
  "ln_key_hash env leaf = key_merkle_hash env (ln_key leaf)"

definition ln_value_hash :: "('k, 'v) smt_env \<Rightarrow> ('k, 'v) SmtLeafNode \<Rightarrow> HashValue" where
  "ln_value_hash env leaf = obj_merkle_hash env (ln_value leaf)"

definition smt_leaf_hash :: "('k, 'v) smt_env \<Rightarrow> ('k, 'v) SmtLeafNode \<Rightarrow> HashValue" where
  "smt_leaf_hash env leaf = smt_merkle_hash (env_digest env) (ln_key_hash env leaf) (ln_value_hash env leaf)"

definition serialize_leaf :: "('k, 'v) smt_env \<Rightarrow> ('k, 'v) SmtLeafNode \<Rightarrow> bytes result" where
  "serialize_leaf env leaf = raw_kv_to_bytes env (key_into env (ln_key leaf), obj_raw (ln_value leaf))"

definition deserialize_leaf :: "('k, 'v) smt_env \<Rightarrow> bytes \<Rightarrow> ('k, 'v) SmtLeafNode result" where
  "deserialize_leaf env data =
     and_then (raw_kv_from_bytes env data) (\<lambda>(key, raw).
     and_then (obj_from_raw env raw) (\<lambda>value.
     Inr (smt_leaf_new (key_from env key) value)))"

section \<open>Nodes\<close>

datatype ('k, 'v) SmtNode =
    Null
  | Internal_Node SmtInternalNode
  | Leaf_Node "('k, 'v) SmtLeafNode"

definition new_null :: "('k, 'v) SmtNode" where
  "new_null = Null"

definition smt_new_internal :: "Children \<Rightarrow> ('k, 'v) SmtNode result" where
  "smt_new_internal c = and_then (smt_internal_new c) (\<lambda>node. Inr (Internal_Node node))"

definition smt_new_leaf :: "'k \<Rightarrow> 'v SMTObject \<Rightarrow> ('k, 'v) SmtNode" where
  "smt_new_leaf key value = Leaf_Node (smt_leaf_new key value)"

fun node_is_leaf :: "('k, 'v) SmtNode \<Rightarrow> bool" where
  "node_is_leaf (Leaf_Node _) = True"
| "node_is_leaf _ = False"

fun node_merkle_hash :: "('k, 'v) smt_env \<Rightarrow> ('k, 'v) SmtNode \<Rightarrow> HashValue result" where
  "node_merkle_hash env Null = Inr SPARSE_MERKLE_PLACEHOLDER_HASH"
| "node_merkle_hash env (Internal_Node node) = smt_internal_hash (env_digest env) node"
| "node_merkle_hash env (Leaf_Node leaf) = Inr (smt_leaf_hash env leaf)"

fun node_encode :: "('k, 'v) smt_env \<Rightarrow> ('k, 'v) SmtNode \<Rightarrow> bytes result" where
  "node_encode env Null = Inr [0]"
| "node_encode env (Internal_Node node) =
     and_then (serialize_internal node) (\<lambda>bs. Inr (1 # bs))"
| "node_encode env (Leaf_Node leaf) = and_then (serialize_leaf env leaf) (\<lambda>bs. Inr (2 # bs))"

definition node_decode :: "('k, 'v) smt_env \<Rightarrow> bytes \<Rightarrow> ('k, 'v) SmtNode result" where
  "node_decode env val =
     (case val of
        [] \<Rightarrow> Inl (Fail ''Missing tag due to empty input'')
      | tag # rest \<Rightarrow>
          if tag = 0 then Inr Null
          else if tag = 1 then and_then (deserialize_internal rest) (\<lambda>node. Inr (Internal_Node node))
          else if tag = 2 then and_then (deserialize_leaf env rest) (\<lambda>leaf. Inr (Leaf_Node leaf))
          else Inl (Fail ''lead tag byte is unknown''))"

section \<open>Variable-length integers\<close>

fun varint_loop :: "nat \<Rightarrow> u64 \<Rightarrow> bytes result" where
  "varint_loop 0 num =
     and_then (assert_that (num \<noteq> 0) ''assertion failed: num != 0'') (\<lambda>_.
     and_then (assert_that (num \<le> 255) ''assertion failed: num <= 0xff'') (\<lambda>_.
     Inr [ucast num]))"
| "varint_loop (Suc k) num =
     (let low_bits = (ucast num :: u8) AND 127;
          num' = drop_bit 7 num;
          more = (if num' > 0 then 1 else 0);
          byte = low_bits OR push_bit 7 more
      in if more = 0 then Inr [byte]
         else and_then (varint_loop k num') (\<lambda>rest. Inr (byte # rest)))"

definition serialize_u64_varint :: "u64 \<Rightarrow> bytes \<Rightarrow> bytes result" where
  "serialize_u64_varint num binary = and_then (varint_loop 8 num) (\<lambda>bs. Inr (binary @ bs))"

definition read_u8 :: "bytes \<Rightarrow> (u8 \<times> bytes) result" where
  "read_u8 reader = (case reader of [] \<Rightarrow> Inl (Fail ''failed to fill whole buffer'') | b # r \<Rightarrow> Inr (b, r))"

fun read_varint_loop :: "nat list \<Rightarrow> u64 \<Rightarrow> bytes \<Rightarrow> (u64 \<times> bytes) result" where
  "read_varint_loop [] num reader =
     and_then (read_u8 reader) (\<lambda>(byte, reader'). Inr (num OR push_bit 56 (ucast byte), reader'))"
| "read_varint_loop (i # is) num reader =
     and_then (read_u8 reader) (\<lambda>(byte, reader').
     let more = (byte AND 128) \<noteq> 0;
         num' = num OR push_bit (i * 7) (ucast (byte AND 127))
     in if \<not> more then Inr (num', reader') else read_varint_loop is num' reader')"

definition deserialize_u64_varint :: "bytes \<Rightarrow> (u64 \<times> bytes) result" where
  "deserialize_u64_varint reader = read_varint_loop [0..<8] 0 reader"

end
