(* ===== verification/Tree_Cache.thy ===== *)
theory Tree_Cache
  imports Smt_Node "HOL-Library.AList"
begin

text \<open>
  The write cache of the Jellyfish Merkle tree (\<^verbatim>\<open>jellyfish_merkle/tree_cache/mod.rs\<close>) over a
  node reader (\<^verbatim>\<open>TreeReader\<close>). The maps from node keys to nodes are association lists with
  distinct keys; the counters, \<^verbatim>\<open>usize\<close> in the source, are natural numbers with the checked
  subtraction written out.
\<close>

type_synonym ('k, 'v) node_reader = "NodeKey \<Rightarrow> ('k, 'v) SmtNode option result"
type_synonym ('k, 'v) node_map = "(NodeKey \<times> ('k, 'v) SmtNode) list"

definition reader_get_node :: "('k, 'v) node_reader \<Rightarrow> NodeKey \<Rightarrow> ('k, 'v) SmtNode result" where
  "reader_get_node reader node_key = and_then (reader node_key) (\<lambda>node. ok_or node ''Missing node'')"

record StaleNodeIndex =
  stale_since_version :: HashValue
  stale_node_key :: NodeKey

record ('k, 'v) TreeUpdateBatch =
  node_batch :: "('k, 'v) node_map"
  stale_node_index_batch :: "StaleNodeIndex set"
  batch_num_new_leaves :: nat
  batch_num_stale_leaves :: nat

record ('k, 'v) FrozenTreeCache =
  fz_node_cache :: "('k, 'v) node_map"
  fz_num_new_leaves :: nat
  fz_stale_node_index_cache :: "StaleNodeIndex set"
  fz_num_stale_leaves :: nat
  fz_root_hashes :: "HashValue list"

definition frozen_cache_default :: "('k, 'v) FrozenTreeCache" where
  "frozen_cache_default =
     \<lparr>fz_node_cache = [], fz_num_new_leaves = 0, fz_stale_node_index_cache = {},
      fz_num_stale_leaves = 0, fz_root_hashes = []\<rparr>"

record ('k, 'v) TreeCache =
  tc_root_node_key :: HashValue
  tc_node_cache :: "('k, 'v) node_map"
  tc_num_new_leaves :: nat
  tc_stale_node_index_cache :: "NodeKey set"
  tc_num_stale_leaves :: nat
  tc_frozen_cache :: "('k, 'v) FrozenTreeCache"

definition tree_cache_new :: "HashValue option \<Rightarrow> ('k, 'v) TreeCache" where
  "tree_cache_new state_root_hash =
     \<lparr>tc_root_node_key =
        (case state_root_hash of None \<Rightarrow> SPARSE_MERKLE_PLACEHOLDER_HASH | Some root \<Rightarrow> root),
      tc_node_cache =
        (case state_root_hash of None \<Rightarrow> [(SPARSE_MERKLE_PLACEHOLDER_HASH, new_null)] | Some root \<Rightarrow> []),
      tc_num_new_leaves = 0, tc_stale_node_index_cache = {}, tc_num_stale_leaves = 0,
      tc_frozen_cache = frozen_cache_default\<rparr>"

definition cache_get_node ::
    "('k, 'v) node_reader \<Rightarrow> ('k, 'v) TreeCache \<Rightarrow> NodeKey \<Rightarrow> ('k, 'v) SmtNode result" where
  "cache_get_node reader c node_key =
     (if node_key = SPARSE_MERKLE_PLACEHOLDER_HASH then Inr Null
      else
        case map_of (tc_node_cache c) node_key of
          Some node \<Rightarrow> Inr node
        | None \<Rightarrow>
            (case map_of (fz_node_cache (tc_frozen_cache c)) node_key of
               Some node \<Rightarrow> Inr node
             | None \<Rightarrow> reader_get_node reader node_key))"

definition set_root_node_key :: "NodeKey \<Rightarrow> (('k, 'v) TreeCache, unit) action" where
  "set_root_node_key root = modify_act (\<lambda>c. c\<lparr>tc_root_node_key := root\<rparr>)"

definition put_node :: "NodeKey \<Rightarrow> ('k, 'v) SmtNode \<Rightarrow> (('k, 'v) TreeCache, unit) action" where
  "put_node node_key new_node c =
     (case map_of (tc_node_cache c) node_key of
        None \<Rightarrow>
          (Inr (), c\<lparr>tc_num_new_leaves := tc_num_new_leaves c + (if node_is_leaf new_node then 1 else 0),
                     tc_node_cache := AList.update node_key new_node (tc_node_cache c)\<rparr>)
      | Some _ \<Rightarrow> (Inl (Fail ''Node already exists in NodeBatch''), c))"

definition delete_node :: "NodeKey \<Rightarrow> bool \<Rightarrow> (('k, 'v) TreeCache, unit) action" where
  "delete_node old_node_key is_leaf c =
     (case map_of (tc_node_cache c) old_node_key of
        None \<Rightarrow>
          if old_node_key \<in> tc_stale_node_index_cache c
          then (Inl (Panic ''Node gets stale twice unexpectedly.''), c)
          else
            (Inr (), c\<lparr>tc_stale_node_index_cache := insert old_node_key (tc_stale_node_index_cache c),
                       tc_num_stale_leaves := tc_num_stale_leaves c + (if is_leaf then 1 else 0)\<rparr>)
      | Some _ \<Rightarrow>
          (let c' = c\<lparr>tc_node_cache := AList.delete old_node_key (tc_node_cache c)\<rparr> in
           if is_leaf then
             if tc_num_new_leaves c = 0 then (Inl (Panic ''attempt to subtract with overflow''), c')
             else (Inr (), c'\<lparr>tc_num_new_leaves := tc_num_new_leaves c - 1\<rparr>)
           else (Inr (), c')))"

definition cache_freeze :: "('k, 'v) smt_env \<Rightarrow> ('k, 'v) node_reader \<Rightarrow> (('k, 'v) TreeCache, unit) action" where
  "cache_freeze env reader c =
     (case cache_get_node reader c (tc_root_node_key c) of
        Inl _ \<Rightarrow> (Inl (Panic ''Root node must exist''), c)
      | Inr node \<Rightarrow>
          (case node_merkle_hash env node of
             Inl e \<Rightarrow> (Inl e, c)
           | Inr root_hash \<Rightarrow>
               (let f = tc_frozen_cache c;
                    f' = f\<lparr>fz_root_hashes := fz_root_hashes f @ [root_hash],
                           fz_node_cache := AList.merge (fz_node_cache f) (tc_node_cache c),
                           fz_stale_node_index_cache := fz_stale_node_index_cache f \<union>
                             (\<lambda>k. \<lparr>stale_since_version = root_hash, stale_node_key = k\<rparr>) `
                               tc_stale_node_index_cache c,
                           fz_num_stale_leaves := fz_num_stale_leaves f + tc_num_stale_leaves c,
                           fz_num_new_leaves := fz_num_new_leaves f + tc_num_new_leaves c\<rparr>
                in (Inr (), c\<lparr>tc_frozen_cache := f', tc_node_cache := [], tc_stale_node_index_cache := {},
                              tc_num_stale_leaves := 0, tc_num_new_leaves := 0\<rparr>))))"

definition cache_into :: "('k, 'v) TreeCache \<Rightarrow> HashValue list \<times> ('k, 'v) TreeUpdateBatch" where
  "cache_into c =
     (let f = tc_frozen_cache c in
      (fz_root_hashes f,
       \<lparr>node_batch = fz_node_cache f, stale_node_index_batch = fz_stale_node_index_cache f,
        batch_num_new_leaves = fz_num_new_leaves f, batch_num_stale_leaves = fz_num_stale_leaves f\<rparr>))"

end
