(* ===== verification/Smt_Hashing.thy ===== *)
theory Smt_Hashing
  imports Smt_Node
begin

text \<open>
  What the bitmap arithmetic of internal nodes computes. The reference \<open>range_hash\<close> hashes an
  aligned range of children by recursion on its height; \<^verbatim>\<open>make_hash\<close> computes it on bitmaps, and
  \<^verbatim>\<open>get_child_with_siblings\<close> returns the sibling hashes that fold back to it.
\<close>

section \<open>Bitmaps as lists of set positions\<close>

definition bits_in :: "'a::len word \<Rightarrow> nat list" where
  "bits_in w = filter (bit w) [0..<LENGTH('a)]"

lemma count_ones_bits_in: "count_ones w = length (bits_in w)"
  by (simp add: count_ones_def bits_in_def)

lemma bits_in_Nil_iff: "bits_in w = [] \<longleftrightarrow> w = 0"
proof
  assume "bits_in w = []"
  then show "w = 0" by (intro bit_word_eqI) (auto simp: bits_in_def filter_empty_conv)
qed (simp add: bits_in_def)

lemma length_takeWhile_hd_filter:
  assumes "filter P xs \<noteq> []"
  shows "length (takeWhile (Not \<circ> P) xs) < length xs" and "xs ! length (takeWhile (Not \<circ> P) xs) = hd (filter P xs)"
  using assms by (induction xs) auto

lemma trailing_zeros_bits_in:
  fixes w :: "'a::len word"
  assumes "w \<noteq> 0"
  shows "trailing_zeros w = hd (bits_in w)"
proof -
  have ne: "filter (bit w) [0..<LENGTH('a)] \<noteq> []" using assms bits_in_Nil_iff [of w] by (simp add: bits_in_def)
  have "trailing_zeros w = length (takeWhile (Not \<circ> bit w) [0..<LENGTH('a)])"
    by (simp add: trailing_zeros_def takeWhile_map)
  with length_takeWhile_hd_filter [OF ne] show ?thesis by (simp add: bits_in_def)
qed

section \<open>The children in a range\<close>

definition child_at :: "Children \<Rightarrow> nat \<Rightarrow> Child option" where
  "child_at c i = c (word_of_nat i)"

definition range_children :: "Children \<Rightarrow> nat \<Rightarrow> nat \<Rightarrow> nat list" where
  "range_children c start width = filter (\<lambda>i. child_at c i \<noteq> None) [start..<start + width]"

definition leaf_at :: "Children \<Rightarrow> nat \<Rightarrow> bool" where
  "leaf_at c i = (case child_at c i of None \<Rightarrow> False | Some ch \<Rightarrow> ch_is_leaf ch)"

definition hash_at :: "Children \<Rightarrow> nat \<Rightarrow> HashValue" where
  "hash_at c i = (case child_at c i of None \<Rightarrow> SPARSE_MERKLE_PLACEHOLDER_HASH | Some ch \<Rightarrow> ch_hash ch)"

text \<open>Only sixteen children: the map is empty outside the nibbles.\<close>

definition children_ok :: "Children \<Rightarrow> bool" where
  "children_ok c \<longleftrightarrow> (\<forall>n. c n \<noteq> None \<longrightarrow> n < 16)"

lemma unat_nibble_of_nat: "i < 16 \<Longrightarrow> unat (word_of_nat i :: Nibble) = i"
  by (simp add: unsigned_of_nat take_bit_nat_eq_self)

lemma set_nibble_values: "set nibble_values = {n. n < 16}"
proof -
  have "n \<in> word_of_nat ` {0..<16}" if "n < 16" for n :: Nibble
    using that by (intro image_eqI [of _ _ "unat n"]) (auto simp: word_less_nat_alt)
  moreover have "(word_of_nat i :: Nibble) < 16" if "i < 16" for i
    using that by (simp add: word_less_nat_alt unat_nibble_of_nat)
  ultimately show ?thesis by (auto simp: nibble_values_def)
qed

lemma set_children_iter: "set (children_iter c) = {(n, ch). n < 16 \<and> c n = Some ch}"
  by (force simp: children_iter_def List.map_filter_def set_nibble_values)

lemma bitmap_foldl:
  assumes "i < 16" and "\<forall>(n, ch) \<in> set xs. n < 16"
  shows "bit (fst (foldl bitmap_step (a, b) xs)) i \<longleftrightarrow> bit a i \<or> (\<exists>(n, ch) \<in> set xs. unat n = i)"
    and "bit (snd (foldl bitmap_step (a, b) xs)) i \<longleftrightarrow> bit b i \<or> (\<exists>(n, ch) \<in> set xs. unat n = i \<and> ch_is_leaf ch)"
  using assms(2)
proof (induction xs arbitrary: a b)
  case Nil
  { case 1 show ?case by simp next case 2 show ?case by simp }
next
  case (Cons x xs)
  obtain n ch where x: "x = (n, ch)" by (cases x)
  { case 1
    with Cons.IH(1) show ?case
      using assms(1) by (auto simp: x bitmap_step_def bit_or_iff bit_push_bit_iff bit_1_iff bit_exp_iff)
  next
    case 2
    with Cons.IH(2) show ?case
      using assms(1) by (auto simp: x bitmap_step_def bit_or_iff bit_push_bit_iff bit_1_iff bit_exp_iff split: if_splits) }
qed

definition bitmaps_of :: "Children \<Rightarrow> u16 \<times> u16" where
  "bitmaps_of c = foldl bitmap_step (0, 0) (children_iter c)"

lemma unat_nibble_eq_iff: "i < 16 \<Longrightarrow> unat n = i \<longleftrightarrow> n = word_of_nat i" for n :: Nibble
  by (auto simp: unat_nibble_of_nat)

lemma bit_bitmaps_of:
  assumes "i < 16"
  shows "bit (fst (bitmaps_of c)) i \<longleftrightarrow> child_at c i \<noteq> None"
    and "bit (snd (bitmaps_of c)) i \<longleftrightarrow> leaf_at c i"
proof -
  have i: "(word_of_nat i :: Nibble) < 16" using assms by (simp add: word_less_nat_alt unat_nibble_of_nat)
  have s: "\<forall>(n, ch) \<in> set (children_iter c). n < 16" by (auto simp: set_children_iter)
  show "bit (fst (bitmaps_of c)) i \<longleftrightarrow> child_at c i \<noteq> None"
    unfolding bitmaps_of_def bitmap_foldl [OF assms s]
    using i assms by (auto simp: set_children_iter child_at_def unat_nibble_eq_iff)
  show "bit (snd (bitmaps_of c)) i \<longleftrightarrow> leaf_at c i"
    unfolding bitmaps_of_def bitmap_foldl [OF assms s]
    using i assms by (auto simp: set_children_iter child_at_def leaf_at_def unat_nibble_eq_iff split: option.splits)
qed

lemma generate_bitmaps_eq: "generate_bitmaps node = Inr (bitmaps_of (in_children node))"
proof -
  obtain e l where el: "bitmaps_of (in_children node) = (e, l)" by fastforce
  have "e OR l = e"
  proof (rule bit_word_eqI)
    fix i
    assume "i < LENGTH(16)"
    then show "bit (e OR l) i \<longleftrightarrow> bit e i"
      using bit_bitmaps_of [of i "in_children node"] el
      by (auto simp: bit_or_iff leaf_at_def split: option.splits)
  qed
  with el show ?thesis by (simp add: generate_bitmaps_def bitmaps_of_def)
qed

section \<open>Masked ranges\<close>

lemma mask_bits: "h \<le> 4 \<Longrightarrow> i < 16 \<Longrightarrow>
  bit (push_bit s (if (2::nat) ^ h = 16 then 65535 else push_bit (2 ^ h) 1 - 1) :: u16) i \<longleftrightarrow> s \<le> i \<and> i < s + 2 ^ h"
proof -
  assume h: "h \<le> 4" and i: "i < 16"
  have "(if (2::nat) ^ h = 16 then 65535 else push_bit (2 ^ h) 1 - 1 :: u16) = mask (2 ^ h)"
    by (simp add: mask_eq_exp_minus_1 push_bit_of_1)
  then show ?thesis using i by (auto simp: bit_push_bit_iff bit_mask_iff)
qed

lemma count_ones_power_two: "h \<le> 4 \<Longrightarrow> count_ones (word_of_nat (2 ^ h) :: u8) = 1"
proof -
  assume h: "h \<le> 4"
  have "bits_in (word_of_nat (2 ^ h) :: u8) = [h]"
  proof -
    have "(word_of_nat (2 ^ h) :: u8) = push_bit h 1" by (simp add: push_bit_of_1)
    then have "bit (word_of_nat (2 ^ h) :: u8) i \<longleftrightarrow> i = h" if "i < 8" for i
      using that by (auto simp: bit_push_bit_iff bit_1_iff bit_exp_iff)
    then have "bits_in (word_of_nat (2 ^ h) :: u8) = filter (\<lambda>i. i = h) [0..<8]"
      by (auto simp: bits_in_def intro: filter_cong)
    also have "\<dots> = [h]" using h by (auto simp: upt_rec numeral_eq_Suc le_Suc_eq)
    finally show ?thesis .
  qed
  then show ?thesis by (simp add: count_ones_bits_in)
qed

lemma filter_upt_restrict:
  assumes "s + w \<le> n"
  shows "filter (\<lambda>i. P i \<and> s \<le> i \<and> i < s + w) [0..<n] = filter P [s..<s + w]"
proof -
  have "[0..<n] = [0..<s] @ [s..<s + w] @ [s + w..<n]"
    using assms upt_add_eq_append [of 0 s w] upt_add_eq_append [of 0 "s + w" "n - (s + w)"] by simp
  then have "filter (\<lambda>i. P i \<and> s \<le> i \<and> i < s + w) [0..<n] =
      filter (\<lambda>i. P i \<and> s \<le> i \<and> i < s + w) [0..<s] @
      filter (\<lambda>i. P i \<and> s \<le> i \<and> i < s + w) [s..<s + w] @
      filter (\<lambda>i. P i \<and> s \<le> i \<and> i < s + w) [s + w..<n]" by simp
  moreover have "filter (\<lambda>i. P i \<and> s \<le> i \<and> i < s + w) [0..<s] = []"
    "filter (\<lambda>i. P i \<and> s \<le> i \<and> i < s + w) [s + w..<n] = []" by (auto simp: filter_empty_conv)
  moreover have "filter (\<lambda>i. P i \<and> s \<le> i \<and> i < s + w) [s..<s + w] = filter P [s..<s + w]"
    by (rule filter_cong) auto
  ultimately show ?thesis by simp
qed

definition aligned :: "nat \<Rightarrow> nat \<Rightarrow> bool" where
  "aligned s h \<longleftrightarrow> h \<le> 4 \<and> s < 16 \<and> s mod 2 ^ h = 0"

lemma aligned_bound: "aligned s h \<Longrightarrow> s + 2 ^ h \<le> 16"
proof -
  assume a: "aligned s h"
  have e: "(16::nat) = 2 ^ h * 2 ^ (4 - h)" using a by (simp add: aligned_def flip: power_add)
  obtain q where q: "s = 2 ^ h * q" using a by (auto simp: aligned_def)
  have "2 ^ h * q < 2 ^ h * 2 ^ (4 - h)" using a unfolding aligned_def q e [symmetric] by blast
  then have "Suc q \<le> 2 ^ (4 - h)" by simp
  then have "2 ^ h * Suc q \<le> 2 ^ h * 2 ^ (4 - h)" by (rule mult_le_mono2)
  then show ?thesis using q e by simp
qed

lemma aligned_halves:
  assumes "aligned s (Suc h)"
  shows "aligned s h" and "aligned (s + 2 ^ h) h"
proof -
  have b: "s + 2 ^ Suc h \<le> 16" by (rule aligned_bound [OF assms])
  obtain q where "s = 2 ^ Suc h * q" using assms by (auto simp: aligned_def)
  then have "s mod 2 ^ h = 0" by simp
  with assms b show "aligned s h" and "aligned (s + 2 ^ h) h" by (auto simp: aligned_def)
qed

lemma range_bitmaps_eq:
  assumes "aligned s h"
  shows "\<exists>e l. range_bitmaps s (2 ^ h) (bitmaps_of c) = Inr (e, l) \<and>
    bits_in e = range_children c s (2 ^ h) \<and> bits_in l = filter (leaf_at c) [s..<s + 2 ^ h]"
proof -
  define m :: u16 where "m = push_bit s (if (2::nat) ^ h = 16 then 65535 else push_bit (2 ^ h) 1 - 1)"
  have h: "h \<le> 4" "(2::nat) ^ h \<le> 16" using assms aligned_bound [OF assms] by (auto simp: aligned_def)
  have eq: "range_bitmaps s (2 ^ h) (bitmaps_of c) = Inr (fst (bitmaps_of c) AND m, snd (bitmaps_of c) AND m)"
    using assms h count_ones_power_two [OF h(1)]
    by (simp add: range_bitmaps_def aligned_def m_def Let_def del: of_nat_power)
  have m: "bit m i \<longleftrightarrow> s \<le> i \<and> i < s + 2 ^ h" if "i < 16" for i
    unfolding m_def by (rule mask_bits [OF h(1) that])
  have "bits_in (fst (bitmaps_of c) AND m) = filter (\<lambda>i. child_at c i \<noteq> None \<and> s \<le> i \<and> i < s + 2 ^ h) [0..<16]"
    unfolding bits_in_def by (rule filter_cong) (auto simp: bit_and_iff m bit_bitmaps_of)
  moreover have "bits_in (snd (bitmaps_of c) AND m) = filter (\<lambda>i. leaf_at c i \<and> s \<le> i \<and> i < s + 2 ^ h) [0..<16]"
    unfolding bits_in_def by (rule filter_cong) (auto simp: bit_and_iff m bit_bitmaps_of)
  ultimately show ?thesis
    using eq filter_upt_restrict [OF aligned_bound [OF assms]] by (simp add: range_children_def)
qed

section \<open>The reference hash of a range\<close>

fun range_hash :: "digest \<Rightarrow> Children \<Rightarrow> nat \<Rightarrow> nat \<Rightarrow> HashValue" where
  "range_hash digest c s 0 = hash_at c s"
| "range_hash digest c s (Suc h) =
     (case range_children c s (2 ^ Suc h) of
        [] \<Rightarrow> SPARSE_MERKLE_PLACEHOLDER_HASH
      | i # is \<Rightarrow>
          if is = [] \<and> leaf_at c i then hash_at c i
          else smt_merkle_hash digest (range_hash digest c s h) (range_hash digest c (s + 2 ^ h) h))"

lemma range_children_bound: "i \<in> set (range_children c s w) \<Longrightarrow> s \<le> i \<and> i < s + w \<and> child_at c i \<noteq> None"
  by (auto simp: range_children_def)

lemma only_child_eq:
  assumes "w \<noteq> 0" and "hd (bits_in w) = i" and "i < 16" and "child_at (in_children node) i \<noteq> None"
  shows "only_child node w = Inr (hash_at (in_children node) i)"
proof -
  have i: "(word_of_nat i :: Nibble) < 16" using assms(3) by (simp add: word_less_nat_alt unat_nibble_of_nat)
  from assms(4) obtain ch where "in_children node (word_of_nat i) = Some ch" by (auto simp: child_at_def)
  with assms i show ?thesis
    by (simp add: only_child_def trailing_zeros_bits_in in_child_def hash_at_def child_at_def expect_def)
qed

lemma filter_leaf_at:
  "filter (leaf_at c) [s..<s + w] = filter (leaf_at c) (range_children c s w)"
  unfolding range_children_def filter_filter by (rule filter_cong) (auto simp: leaf_at_def split: option.splits)

text \<open>The bitmap computation of \<^verbatim>\<open>make_hash\<close> is the reference hash.\<close>

lemma make_hash_eq:
  "aligned s h \<Longrightarrow>
   make_hash digest node s (2 ^ h) (bitmaps_of (in_children node)) = Inr (range_hash digest (in_children node) s h)"
proof (induction h arbitrary: s)
  case 0
  let ?c = "in_children node"
  obtain e l where r: "range_bitmaps s 1 (bitmaps_of ?c) = Inr (e, l)" "bits_in e = range_children ?c s 1"
    using range_bitmaps_eq [OF 0, of ?c] by auto
  have s: "s < 16" using 0 by (simp add: aligned_def)
  show ?case
  proof (cases "child_at ?c s")
    case None
    then have "bits_in e = []" using r by (simp add: range_children_def)
    with None r(1) show ?thesis by (simp add: make_hash.simps bits_in_Nil_iff hash_at_def)
  next
    case (Some ch)
    then have b: "bits_in e = [s]" using r by (simp add: range_children_def)
    then have e: "e \<noteq> 0" using bits_in_Nil_iff [of e] by simp
    with b s Some have "only_child node e = Inr (hash_at ?c s)" by (intro only_child_eq) auto
    with r(1) e b show ?thesis by (simp add: make_hash.simps count_ones_bits_in)
  qed
next
  case (Suc h)
  let ?c = "in_children node"
  define rc where "rc = range_children ?c s (2 ^ Suc h)"
  obtain e l where r: "range_bitmaps s (2 ^ Suc h) (bitmaps_of ?c) = Inr (e, l)" "bits_in e = rc"
      "bits_in l = filter (leaf_at ?c) rc"
    using range_bitmaps_eq [OF Suc.prems, of ?c] unfolding rc_def filter_leaf_at by blast
  note IH = Suc.IH [OF aligned_halves(1) [OF Suc.prems]] Suc.IH [OF aligned_halves(2) [OF Suc.prems]]
  have w: "(2::nat) ^ Suc h div 2 = 2 ^ h" "(2::nat) ^ Suc h \<noteq> 1" by simp_all
  show ?case
  proof (cases rc)
    case Nil
    then show ?thesis using r(1,2) by (simp add: make_hash.simps bits_in_Nil_iff rc_def [symmetric] del: power_Suc)
  next
    case (Cons i js)
    have e: "e \<noteq> 0" "hd (bits_in e) = i" "count_ones e = 1 \<longleftrightarrow> js = []"
      using r(2) Cons bits_in_Nil_iff [of e] by (simp_all add: count_ones_bits_in)
    have i: "child_at ?c i \<noteq> None" "i < 16"
      using range_children_bound [of i ?c s "2 ^ Suc h"] Cons aligned_bound [OF Suc.prems] by (auto simp: rc_def)
    have l: "js = [] \<Longrightarrow> l \<noteq> 0 \<longleftrightarrow> leaf_at ?c i"
      using r(3) Cons bits_in_Nil_iff [of l] by (auto split: if_splits)
    show ?thesis
    proof (cases "js = [] \<and> leaf_at ?c i")
      case True
      then show ?thesis
        using r(1) e l only_child_eq [OF e(1,2) i(2,1)] Cons
        by (simp add: make_hash.simps rc_def [symmetric] del: power_Suc)
    next
      case False
      then have "\<not> (count_ones e = 1 \<and> (l \<noteq> 0 \<or> (2::nat) ^ Suc h = 1))" using e l by auto
      then have "make_hash digest node s (2 ^ Suc h) (bitmaps_of ?c) =
          Inr (smt_merkle_hash digest (range_hash digest ?c s h) (range_hash digest ?c (s + 2 ^ h) h))"
        using r(1) e(1) IH w by (subst make_hash.simps) (auto simp del: power_Suc)
      then show ?thesis using False Cons by (auto simp: rc_def [symmetric] simp del: power_Suc)
    qed
  qed
qed

lemma smt_internal_hash_eq:
  "smt_internal_hash digest node = Inr (range_hash digest (in_children node) 0 4)"
proof -
  have "aligned 0 4" by (simp add: aligned_def)
  from make_hash_eq [OF this, of digest node] show ?thesis
    by (simp add: smt_internal_hash_def generate_bitmaps_eq)
qed

section \<open>The siblings on the way to a child\<close>

definition block :: "nat \<Rightarrow> nat \<Rightarrow> nat" where
  "block n h = n div 2 ^ h * 2 ^ h"

definition sibling_block :: "nat \<Rightarrow> nat \<Rightarrow> nat" where
  "sibling_block n h = (if odd (n div 2 ^ h) then block n h - 2 ^ h else block n h + 2 ^ h)"

lemma half_start_table:
  "\<forall>n \<in> set nibble_values. \<forall>h \<in> set [0..<4].
     map_prod unat unat (get_child_and_sibling_half_start n h) = (block (unat n) h, sibling_block (unat n) h)"
  by code_simp

lemma get_child_and_sibling_half_start_eq:
  assumes "n < 16" and "h < 4"
  shows "\<exists>c s. get_child_and_sibling_half_start n h = (c, s) \<and> unat c = block (unat n) h \<and>
    unat s = sibling_block (unat n) h"
proof -
  have "map_prod unat unat (get_child_and_sibling_half_start n h) = (block (unat n) h, sibling_block (unat n) h)"
    using half_start_table assms unfolding set_nibble_values by simp
  then show ?thesis by (cases "get_child_and_sibling_half_start n h") auto
qed

lemma blocks:
  assumes "n < 16" and "h < 4"
  shows "aligned (block n h) h" and "aligned (sibling_block n h) h"
    and "odd (n div 2 ^ h) \<Longrightarrow> block n h = block n (Suc h) + 2 ^ h \<and> sibling_block n h = block n (Suc h)"
    and "even (n div 2 ^ h) \<Longrightarrow> block n h = block n (Suc h) \<and> sibling_block n h = block n (Suc h) + 2 ^ h"
    and "block n h \<le> n" and "n < block n h + 2 ^ h"
proof -
  have table: "\<forall>n \<in> set [0..<16]. \<forall>h \<in> set [0..<4].
      aligned (block n h) h \<and> aligned (sibling_block n h) h \<and>
      (if odd (n div 2 ^ h) then block n h = block n (Suc h) + 2 ^ h \<and> sibling_block n h = block n (Suc h)
       else block n h = block n (Suc h) \<and> sibling_block n h = block n (Suc h) + 2 ^ h) \<and>
      block n h \<le> n \<and> n < block n h + 2 ^ h"
    unfolding aligned_def by code_simp
  then have r: "aligned (block n h) h \<and> aligned (sibling_block n h) h \<and>
      (if odd (n div 2 ^ h) then block n h = block n (Suc h) + 2 ^ h \<and> sibling_block n h = block n (Suc h)
       else block n h = block n (Suc h) \<and> sibling_block n h = block n (Suc h) + 2 ^ h) \<and>
      block n h \<le> n \<and> n < block n h + 2 ^ h"
    using assms by simp
  then show "aligned (block n h) h" and "aligned (sibling_block n h) h"
    and "block n h \<le> n" and "n < block n h + 2 ^ h" by simp_all
  from r show "odd (n div 2 ^ h) \<Longrightarrow> block n h = block n (Suc h) + 2 ^ h \<and> sibling_block n h = block n (Suc h)"
    by (simp del: power_Suc)
  from r show "even (n div 2 ^ h) \<Longrightarrow> block n h = block n (Suc h) \<and> sibling_block n h = block n (Suc h) + 2 ^ h"
    by (simp del: power_Suc)
qed

fun descend :: "digest \<Rightarrow> Children \<Rightarrow> nat \<Rightarrow> nat \<Rightarrow> HashValue option \<times> HashValue list" where
  "descend digest c n 0 = (None, [])"
| "descend digest c n (Suc h) =
     (let s = range_hash digest c (sibling_block n h) h in
      case range_children c (block n h) (2 ^ h) of
        [] \<Rightarrow> (None, [s])
      | i # is \<Rightarrow>
          if is = [] \<and> (leaf_at c i \<or> h = 0) then (Some (hash_at c i), [s])
          else let (r, ss) = descend digest c n h in (r, s # ss))"

lemma range_children_one: "range_children c s 1 = (if child_at c s = None then [] else [s])"
  by (simp add: range_children_def)

lemma child_with_siblings_loop_step:
  assumes "n < 16" and "h < 4"
  shows "child_with_siblings_loop digest node n (bitmaps_of (in_children node)) (h # hs) siblings =
    (let s = range_hash digest (in_children node) (sibling_block (unat n) h) h in
     case range_children (in_children node) (block (unat n) h) (2 ^ h) of
       [] \<Rightarrow> Inr (None, siblings @ [s])
     | i # is \<Rightarrow>
         if is = [] \<and> (leaf_at (in_children node) i \<or> h = 0)
         then Inr (Some (hash_at (in_children node) i), siblings @ [s])
         else child_with_siblings_loop digest node n (bitmaps_of (in_children node)) hs (siblings @ [s]))"
proof -
  let ?c = "in_children node" and ?n = "unat n"
  have n16: "?n < 16" using assms(1) by (simp add: word_less_nat_alt)
  note b = blocks [OF n16 assms(2)]
  obtain cs ss where hs: "get_child_and_sibling_half_start n h = (cs, ss)" "unat cs = block ?n h"
      "unat ss = sibling_block ?n h"
    using get_child_and_sibling_half_start_eq [OF assms] by blast
  note mh = make_hash_eq [OF b(2), of digest node]
  define rc where "rc = range_children ?c (block ?n h) (2 ^ h)"
  obtain e l where r: "range_bitmaps (block ?n h) (2 ^ h) (bitmaps_of ?c) = Inr (e, l)" "bits_in e = rc"
      "bits_in l = filter (leaf_at ?c) rc"
    using range_bitmaps_eq [OF b(1), of ?c] unfolding rc_def filter_leaf_at by blast
  have h0: "(2::nat) ^ h = 1 \<longleftrightarrow> h = 0" by simp
  show ?thesis
  proof (cases rc)
    case Nil
    then have "e = 0" using r(2) bits_in_Nil_iff [of e] by simp
    then show ?thesis using hs mh r(1) Nil by (simp add: Let_def rc_def [symmetric])
  next
    case (Cons i js)
    have e: "e \<noteq> 0" "hd (bits_in e) = i" "count_ones e = 1 \<longleftrightarrow> js = []"
      using r(2) Cons bits_in_Nil_iff [of e] by (simp_all add: count_ones_bits_in)
    have i: "child_at ?c i \<noteq> None" "i < 16"
      using range_children_bound [of i ?c "block ?n h" "2 ^ h"] Cons aligned_bound [OF b(1)] by (auto simp: rc_def)
    have l: "js = [] \<Longrightarrow> count_ones l = 1 \<longleftrightarrow> leaf_at ?c i"
      using r(3) Cons by (auto simp: count_ones_bits_in)
    then have cond: "count_ones e = 1 \<and> (count_ones l = 1 \<or> (2::nat) ^ h = 1) \<longleftrightarrow> js = [] \<and> (leaf_at ?c i \<or> h = 0)"
      using e(3) h0 by auto
    show ?thesis
      unfolding child_with_siblings_loop.simps Let_def hs(1) prod.case hs(2,3) mh r(1) and_then_Inr cond
        rc_def [symmetric] Cons list.case
      using e(1) only_child_eq [OF e(1,2) i(2,1)] by auto
  qed
qed

lemma child_with_siblings_loop_eq:
  assumes "n < 16" and "h < 4"
  shows "child_with_siblings_loop digest node n (bitmaps_of (in_children node)) (rev [0..<Suc h]) siblings =
    (let (r, ss) = descend digest (in_children node) (unat n) (Suc h) in Inr (r, siblings @ ss))"
  using assms(2)
proof (induction h arbitrary: siblings)
  case (0 siblings)
  have e: "rev [0..<Suc 0] = [0]" by simp
  show ?case
    unfolding e child_with_siblings_loop_step [OF assms(1) 0] by (simp add: range_children_def Let_def)
next
  case (Suc h)
  have "rev [0..<Suc (Suc h)] = Suc h # rev [0..<Suc h]" by simp
  then show ?case
    using Suc.IH Suc.prems child_with_siblings_loop_step [OF assms(1) Suc.prems]
    by (simp add: Let_def split: list.split prod.split del: upt_Suc power_Suc)
qed

lemma get_child_with_siblings_eq:
  assumes "n < 16"
  shows "get_child_with_siblings digest node n = Inr (descend digest (in_children node) (unat n) 4)"
proof -
  have "[3, 2, 1, 0] = rev [0..<Suc 3]" by (simp add: upt_rec)
  then show ?thesis
    using child_with_siblings_loop_eq [OF assms, of 3 digest node "[]"]
    by (simp add: get_child_with_siblings_def generate_bitmaps_eq numeral_eq_Suc split: prod.splits)
qed

text \<open>
  A path of siblings folds up to the hash of its top: the bits and siblings are listed from the
  top down.
\<close>

fun climb :: "digest \<Rightarrow> bool list \<Rightarrow> HashValue list \<Rightarrow> HashValue \<Rightarrow> HashValue" where
  "climb digest (b # bs) (s # ss) x =
     (let y = climb digest bs ss x in
      if b then smt_merkle_hash digest s y else smt_merkle_hash digest y s)"
| "climb digest _ _ x = x"

definition low_bits :: "nat \<Rightarrow> nat \<Rightarrow> bool list" where
  "low_bits n h = map (\<lambda>i. odd (n div 2 ^ i)) (rev [0..<h])"

lemma low_bits_Suc: "low_bits n (Suc h) = odd (n div 2 ^ h) # low_bits n h"
  by (simp add: low_bits_def)

lemma length_low_bits [simp]: "length (low_bits n h) = h"
  by (simp add: low_bits_def)

definition start_hash :: "HashValue option \<Rightarrow> HashValue" where
  "start_hash r = (case r of None \<Rightarrow> SPARSE_MERKLE_PLACEHOLDER_HASH | Some x \<Rightarrow> x)"

text \<open>The range branches: it is neither empty nor a single leaf.\<close>

definition branching :: "Children \<Rightarrow> nat \<Rightarrow> nat \<Rightarrow> bool" where
  "branching c s h =
     (case range_children c s (2 ^ h) of [] \<Rightarrow> False | i # is \<Rightarrow> \<not> (is = [] \<and> leaf_at c i))"

lemma range_hash_branching:
  assumes "branching c s (Suc h)"
  shows "range_hash digest c s (Suc h) =
    smt_merkle_hash digest (range_hash digest c s h) (range_hash digest c (s + 2 ^ h) h)"
  using assms by (auto simp: branching_def split: list.splits simp del: power_Suc)

lemma range_hash_empty: "range_children c s (2 ^ h) = [] \<Longrightarrow> range_hash digest c s h = SPARSE_MERKLE_PLACEHOLDER_HASH"
  by (cases h) (auto simp: range_children_def hash_at_def split: if_splits simp del: power_Suc)

lemma range_hash_single:
  assumes "range_children c s (2 ^ h) = [i]" and "leaf_at c i \<or> h = 0"
  shows "range_hash digest c s h = hash_at c i"
  using assms by (cases h) (auto simp: range_children_def split: if_splits simp del: power_Suc)

lemma branching_below:
  assumes "range_children c s (2 ^ h) = i # js" and "\<not> (js = [] \<and> (leaf_at c i \<or> h = 0))"
  shows "branching c s h" and "0 < h"
  using assms by (auto simp: branching_def range_children_def split: if_splits intro: gr0I)

lemma descend_deeper:
  assumes "range_children c (block n h) (2 ^ h) = i # js" and "\<not> (js = [] \<and> (leaf_at c i \<or> h = 0))"
  shows "descend digest c n (Suc h) =
    (fst (descend digest c n h), range_hash digest c (sibling_block n h) h # snd (descend digest c n h))"
  unfolding descend.simps(2) Let_def assms(1) list.case if_not_P [OF assms(2)] by (simp add: case_prod_beta)

lemma descend_climb:
  assumes "n < 16"
  shows "h < 4 \<Longrightarrow> branching c (block n (Suc h)) (Suc h) \<Longrightarrow>
    climb digest (low_bits n (Suc h)) (snd (descend digest c n (Suc h))) (start_hash (fst (descend digest c n (Suc h)))) =
    range_hash digest c (block n (Suc h)) (Suc h)"
proof (induction h rule: less_induct)
  case (less h)
  define s where "s = range_hash digest c (sibling_block n h) h"
  define x where "x = range_hash digest c (block n h) h"
  obtain r ss where d: "descend digest c n (Suc h) = (r, s # ss)"
      and below: "climb digest (low_bits n h) ss (start_hash r) = x"
  proof (cases "range_children c (block n h) (2 ^ h)")
    case Nil
    then show thesis
      using that [of None "[]"] by (simp add: s_def x_def range_hash_empty start_hash_def)
  next
    case (Cons i js)
    show thesis
    proof (cases "js = [] \<and> (leaf_at c i \<or> h = 0)")
      case True
      then show thesis
        using that [of "Some (hash_at c i)" "[]"] Cons range_hash_single [of c "block n h" h i digest]
        by (simp add: s_def x_def start_hash_def Let_def)
    next
      case False
      note b = branching_below [OF Cons False]
      then obtain k where k: "h = Suc k" by (cases h) auto
      have "descend digest c n (Suc h) = (fst (descend digest c n h), s # snd (descend digest c n h))"
        unfolding s_def by (rule descend_deeper [OF Cons False])
      moreover have "climb digest (low_bits n h) (snd (descend digest c n h)) (start_hash (fst (descend digest c n h))) = x"
        using less.IH [of k] less.prems b(1) by (simp add: k x_def del: power_Suc descend.simps range_hash.simps)
      ultimately show thesis by (rule that)
    qed
  qed
  have "range_hash digest c (block n (Suc h)) (Suc h) =
      (if odd (n div 2 ^ h) then smt_merkle_hash digest s x else smt_merkle_hash digest x s)"
    using range_hash_branching [OF less.prems(2), of digest] blocks(3,4) [OF assms less.prems(1)]
    by (auto simp: s_def x_def simp del: power_Suc range_hash.simps)
  then show ?case using d below by (simp add: low_bits_Suc Let_def del: power_Suc range_hash.simps descend.simps)
qed

text \<open>What the returned child is.\<close>

lemma descend_child:
  assumes "n < 16"
  shows "h < 4 \<Longrightarrow> descend digest c n (Suc h) = (r, ss) \<Longrightarrow>
    0 < length ss \<and> length ss \<le> Suc h \<and>
    (case r of
       None \<Rightarrow> child_at c n = None
     | Some x \<Rightarrow> \<exists>i < 16. child_at c i \<noteq> None \<and> x = hash_at c i \<and>
         i div 2 ^ (Suc h - length ss) = n div 2 ^ (Suc h - length ss) \<and>
         (child_at c n \<noteq> None \<longrightarrow> i = n) \<and> (leaf_at c i \<or> i = n \<and> length ss = Suc h))"
proof (induction h arbitrary: r ss)
  case (0 r ss)
  have "block n 0 = n" by (simp add: block_def)
  with 0 assms show ?case
    by (auto simp: range_children_one [unfolded One_nat_def] leaf_at_def Let_def split: if_splits)
next
  case (Suc h r ss)
  define s where "s = range_hash digest c (sibling_block n (Suc h)) (Suc h)"
  define B where "B = block n (Suc h)"
  note b = blocks [OF assms Suc.prems(1), folded B_def]
  have inB: "n \<in> set (range_children c B (2 ^ Suc h))" if "child_at c n \<noteq> None"
    using b(5,6) that by (simp add: range_children_def)
  show ?case
  proof (cases "range_children c B (2 ^ Suc h)")
    case Nil
    then have "r = None" "ss = [s]" using Suc.prems(2) by (simp_all add: B_def s_def Let_def del: power_Suc)
    moreover have "child_at c n = None" using inB Nil by (cases "child_at c n") auto
    ultimately show ?thesis by simp
  next
    case (Cons i js)
    show ?thesis
    proof (cases "js = [] \<and> leaf_at c i")
      case True
      then have r: "r = Some (hash_at c i)" "ss = [s]"
        using Suc.prems(2) Cons by (simp_all add: B_def s_def Let_def del: power_Suc)
      have i: "B \<le> i" "i < B + 2 ^ Suc h" "child_at c i \<noteq> None"
        using range_children_bound [of i c B "2 ^ Suc h"] Cons by simp_all
      have "i < 16" using i(2) aligned_bound [OF b(1)] by linarith
      moreover have "i div 2 ^ Suc h = n div 2 ^ Suc h"
      proof -
        have "i = (i - B) + n div 2 ^ Suc h * 2 ^ Suc h" "i - B < 2 ^ Suc h" using i by (simp_all add: B_def block_def)
        then show ?thesis by (metis div_mult_self3 div_less add_0 power_not_zero zero_neq_numeral add.commute)
      qed
      moreover have "child_at c n \<noteq> None \<longrightarrow> i = n" using inB Cons True by auto
      ultimately show ?thesis using r True i by auto
    next
      case False
      define r' ss' where "r' = fst (descend digest c n (Suc h))" and "ss' = snd (descend digest c n (Suc h))"
      have "\<not> (js = [] \<and> (leaf_at c i \<or> Suc h = 0))" using False by simp
      then have e: "r = r'" "ss = s # ss'"
        using descend_deeper [OF Cons [unfolded B_def], of digest] Suc.prems(2)
        by (simp_all add: s_def r'_def ss'_def del: descend.simps range_hash.simps)
      have "descend digest c n (Suc h) = (r', ss')" by (simp add: r'_def ss'_def)
      from Suc.IH [OF _ this] Suc.prems(1) show ?thesis unfolding e by (cases r') (simp_all del: power_Suc)
    qed
  qed
qed

end
