(* ===== verification/Smt_Proof.thy ===== *)
theory Smt_Proof
  imports Smt_Hashing
begin

text \<open>
  Proofs of the sparse Merkle tree (\<^verbatim>\<open>jellyfish_merkle/proof.rs\<close>): verification of inclusion
  and non-inclusion, and the stateless update of a non-inclusion proof.
\<close>

record SparseMerkleProof =
  sp_leaf :: "(HashValue \<times> HashValue) option"
  sp_siblings :: "HashValue list"

definition sparse_proof_new :: "(HashValue \<times> HashValue) option \<Rightarrow> HashValue list \<Rightarrow> SparseMerkleProof" where
  "sparse_proof_new leaf siblings = \<lparr>sp_leaf = leaf, sp_siblings = siblings\<rparr>"

record SparseMerkleRangeProof =
  rp_right_siblings :: "HashValue list"

text \<open>The fold over the siblings that \<^verbatim>\<open>verify\<close> and \<^verbatim>\<open>update_leaf\<close> share.\<close>

definition fold_siblings :: "digest \<Rightarrow> HashValue \<Rightarrow> HashValue list \<Rightarrow> HashValue \<Rightarrow> HashValue" where
  "fold_siblings digest key siblings current_hash =
     foldl (\<lambda>hash (sibling_hash, bit).
         if bit then smt_merkle_hash digest sibling_hash hash else smt_merkle_hash digest hash sibling_hash)
       current_hash (zip siblings (drop (LENGTH_IN_BITS - length siblings) (rev (iter_bits key))))"

definition sparse_leaf_hash :: "digest \<Rightarrow> (HashValue \<times> HashValue) option \<Rightarrow> HashValue" where
  "sparse_leaf_hash digest leaf =
     (case leaf of None \<Rightarrow> SPARSE_MERKLE_PLACEHOLDER_HASH
      | Some (key, value_hash) \<Rightarrow> smt_merkle_hash digest key value_hash)"

definition sparse_verify ::
    "('k, 'v) smt_env \<Rightarrow> SparseMerkleProof \<Rightarrow> HashValue \<Rightarrow> 'k \<Rightarrow> 'v option \<Rightarrow> unit result" where
  "sparse_verify env prf expected_root_hash element_key element_blob =
     and_then (ensure_that (length (sp_siblings prf) \<le> LENGTH_IN_BITS)
       ''Sparse Merkle Tree proof has too many siblings.'') (\<lambda>_.
     let element_key_hash = key_merkle_hash env element_key in
     and_then
       (case (element_blob, sp_leaf prf) of
          (Some blob, Some (proof_key, proof_value_hash)) \<Rightarrow>
            and_then (ensure_that (element_key_hash = proof_key) ''Keys do not match.'') (\<lambda>_.
            and_then (into_object env blob) (\<lambda>obj.
            ensure_that (obj_merkle_hash env obj = proof_value_hash) ''Value hashes do not match.''))
        | (Some _, None) \<Rightarrow> Inl (Fail ''Expected inclusion proof. Found non-inclusion proof.'')
        | (None, Some (proof_key, _)) \<Rightarrow>
            and_then (ensure_that (element_key_hash \<noteq> proof_key)
              ''Expected non-inclusion proof, but key exists in proof.'') (\<lambda>_.
            ensure_that (common_prefix_bits_len element_key_hash proof_key \<ge> length (sp_siblings prf))
              ''Key would not have ended up in the subtree where the provided key in proof is the only existing key'')
        | (None, None) \<Rightarrow> Inr ()) (\<lambda>_.
     let current_hash = sparse_leaf_hash (env_digest env) (sp_leaf prf);
         actual_root_hash = fold_siblings (env_digest env) element_key_hash (sp_siblings prf) current_hash
     in ensure_that (actual_root_hash = expected_root_hash) ''Root hashes do not match.''))"

definition update_leaf ::
    "('k, 'v) smt_env \<Rightarrow> 'k \<Rightarrow> 'v \<Rightarrow> SparseMerkleProof \<Rightarrow> (HashValue \<times> SparseMerkleProof) result" where
  "update_leaf env element_key element_blob prf =
     (let element_key_hash = key_merkle_hash env element_key in
      and_then (into_object env element_blob) (\<lambda>obj.
      let element_hash = obj_merkle_hash env obj;
          is_non_exists_proof = (case sp_leaf prf of None \<Rightarrow> True | Some (leaf_key, _) \<Rightarrow> element_key_hash \<noteq> leaf_key)
      in
      and_then (ensure_that is_non_exists_proof ''Only non existence proof support update leaf'') (\<lambda>_.
      let current_hash = smt_merkle_hash (env_digest env) element_key_hash element_hash in
      and_then
        (case sp_leaf prf of
           None \<Rightarrow> Inr (sp_siblings prf)
         | Some (leaf_key, leaf_value) \<Rightarrow>
             let prefix_len = common_prefix_bits_len leaf_key element_key_hash in
             if prefix_len < length (sp_siblings prf) then Inl (Panic ''attempt to subtract with overflow'')
             else
               let place_holder_len = (prefix_len - length (sp_siblings prf)) + 1 in
               Inr ([smt_merkle_hash (env_digest env) leaf_key leaf_value] @
                    replicate (place_holder_len - 1) SPARSE_MERKLE_PLACEHOLDER_HASH @ sp_siblings prf)) (\<lambda>siblings.
      if LENGTH_IN_BITS < length siblings then Inl (Panic ''attempt to subtract with overflow'')
      else
        Inr (fold_siblings (env_digest env) element_key_hash siblings current_hash,
             \<lparr>sp_leaf = Some (element_key_hash, element_hash), sp_siblings = siblings\<rparr>)))))"

section \<open>Folding is climbing\<close>

lemma climb_append:
  assumes "length bs = length ss"
  shows "climb digest (bs @ cs) (ss @ ts) x = climb digest bs ss (climb digest cs ts x)"
  using assms by (induction bs ss rule: list_induct2) simp_all

lemma climb_take: "length ss \<le> n \<Longrightarrow> climb digest (take n bs) ss x = climb digest bs ss x"
proof (induction ss arbitrary: bs n)
  case Nil
  then show ?case by simp
next
  case (Cons s ss)
  then obtain k where k: "n = Suc k" by (cases n) auto
  with Cons show ?case by (cases bs) simp_all
qed

lemma foldl_climb:
  assumes "length bs = length ss"
  shows "foldl (\<lambda>hash (s, b). if b then smt_merkle_hash digest s hash else smt_merkle_hash digest hash s) x
      (zip (rev ss) (rev bs)) = climb digest bs ss x"
  using assms
proof (induction bs ss rule: list_induct2)
  case (Cons b bs s ss)
  then show ?case by (simp add: zip_append Let_def)
qed simp

lemma fold_siblings_climb:
  assumes "length siblings \<le> 256"
  shows "fold_siblings digest key siblings x = climb digest (iter_bits key) (rev siblings) x"
proof -
  let ?n = "length siblings" and ?bs = "iter_bits key"
  have "drop (256 - ?n) (rev ?bs) = rev (take ?n ?bs)" using assms by (simp add: rev_take)
  then have "fold_siblings digest key siblings x = climb digest (take ?n ?bs) (rev siblings) x"
    using foldl_climb [of "take ?n ?bs" "rev siblings" digest x] assms by (simp add: fold_siblings_def)
  then show ?thesis by (simp add: climb_take)
qed

section \<open>What verification decides\<close>

lemma sparse_verify_inclusion_iff:
  "sparse_verify env prf root key (Some v) = Inr () \<longleftrightarrow>
     length (sp_siblings prf) \<le> 256 \<and>
     (\<exists>obj. into_object env v = Inr obj \<and>
        sp_leaf prf = Some (key_merkle_hash env key, obj_merkle_hash env obj)) \<and>
     climb (env_digest env) (iter_bits (key_merkle_hash env key)) (rev (sp_siblings prf))
       (sparse_leaf_hash (env_digest env) (sp_leaf prf)) = root"
  by (auto simp: sparse_verify_def ensure_that_def Let_def fold_siblings_climb split: option.splits if_splits)

lemma sparse_verify_non_inclusion_iff:
  "sparse_verify env prf root key None = Inr () \<longleftrightarrow>
     length (sp_siblings prf) \<le> 256 \<and>
     (\<forall>k vh. sp_leaf prf = Some (k, vh) \<longrightarrow>
        k \<noteq> key_merkle_hash env key \<and>
        length (sp_siblings prf) \<le> common_prefix_bits_len (key_merkle_hash env key) k) \<and>
     climb (env_digest env) (iter_bits (key_merkle_hash env key)) (rev (sp_siblings prf))
       (sparse_leaf_hash (env_digest env) (sp_leaf prf)) = root"
  by (auto simp: sparse_verify_def ensure_that_def Let_def fold_siblings_climb split: option.splits if_splits)

section \<open>Updating a non-inclusion proof\<close>

lemma common_prefix_bits_len_commute: "common_prefix_bits_len g h = common_prefix_bits_len h g"
proof -
  have "n \<le> common_prefix_bits_len g h \<longleftrightarrow> n \<le> common_prefix_bits_len h g" if "n \<le> 256" for n
    using that by (auto simp: common_prefix_bits_len_iff)
  then show ?thesis using common_prefix_bits_len_le by (meson le_antisym le_refl)
qed

lemma common_prefix_bits_len_less:
  assumes "hash_value g" and "hash_value h" and "g \<noteq> h"
  shows "common_prefix_bits_len g h < 256"
    and "hv_get_bit g (common_prefix_bits_len g h) \<noteq> hv_get_bit h (common_prefix_bits_len g h)"
proof -
  let ?n = "common_prefix_bits_len g h"
  show n: "?n < 256"
  proof (rule ccontr)
    assume "\<not> ?n < 256"
    then have "iter_bits g = iter_bits h" using common_prefix_bits_len_iff [of 256 g h] by simp
    with assms iter_bits_inject show False by blast
  qed
  show "hv_get_bit g ?n \<noteq> hv_get_bit h ?n"
  proof
    assume eq: "hv_get_bit g ?n = hv_get_bit h ?n"
    have "take ?n (iter_bits g) = take ?n (iter_bits h)" using common_prefix_bits_len_iff [of ?n g h] n by simp
    then have "take (Suc ?n) (iter_bits g) = take (Suc ?n) (iter_bits h)"
      using n eq by (simp add: take_Suc_conv_app_nth nth_iter_bits)
    then have "Suc ?n \<le> ?n" using common_prefix_bits_len_iff [of "Suc ?n" g h] n by simp
    then show False by simp
  qed
qed

text \<open>The last sibling below a common prefix: the two subtrees are combined in the same order.\<close>

lemma climb_fork:
  assumes "hash_value g" and "hash_value h" and "g \<noteq> h" and "length ss = common_prefix_bits_len g h"
  shows "climb digest (iter_bits g) (ss @ [y]) x = climb digest (iter_bits h) (ss @ [x]) y"
proof -
  let ?n = "common_prefix_bits_len g h"
  note d = common_prefix_bits_len_less [OF assms(1-3)]
  have split: "iter_bits f = take ?n (iter_bits f) @ hv_get_bit f ?n # drop (Suc ?n) (iter_bits f)" for f
    using d(1) by (simp add: nth_iter_bits id_take_nth_drop [of ?n "iter_bits f", symmetric]
        flip: nth_iter_bits)
  have top: "climb digest (iter_bits f) (ss @ [b]) a =
      climb digest (take ?n (iter_bits f)) ss
        (if hv_get_bit f ?n then smt_merkle_hash digest b a else smt_merkle_hash digest a b)" for f a b
    by (subst split, subst climb_append) (use d(1) assms(4) in \<open>simp_all add: Let_def\<close>)
  have "take ?n (iter_bits g) = take ?n (iter_bits h)" using common_prefix_bits_len_iff [of ?n g h] d(1) by simp
  then show ?thesis unfolding top using d(2) by auto
qed

definition sparse_proof_ok :: "SparseMerkleProof \<Rightarrow> bool" where
  "sparse_proof_ok prf \<longleftrightarrow>
     (\<forall>k vh. sp_leaf prf = Some (k, vh) \<longrightarrow> hash_value k \<and> hash_value vh) \<and>
     (\<forall>s \<in> set (sp_siblings prf). hash_value s)"

lemma update_leaf_eq:
  assumes "sparse_verify env prf root key None = Inr ()" and "into_object env v = Inr obj"
    and "sparse_proof_ok prf" and "hash_value (key_merkle_hash env key)"
  shows "\<exists>root' siblings. update_leaf env key v prf =
      Inr (root', \<lparr>sp_leaf = Some (key_merkle_hash env key, obj_merkle_hash env obj), sp_siblings = siblings\<rparr>) \<and>
    length siblings \<le> 256 \<and>
    root' = climb (env_digest env) (iter_bits (key_merkle_hash env key)) (rev siblings)
      (smt_merkle_hash (env_digest env) (key_merkle_hash env key) (obj_merkle_hash env obj)) \<and>
    (case sp_leaf prf of
       None \<Rightarrow> siblings = sp_siblings prf
     | Some (k, vh) \<Rightarrow>
         siblings = smt_merkle_hash (env_digest env) k vh #
           replicate (common_prefix_bits_len (key_merkle_hash env key) k - length (sp_siblings prf))
             SPARSE_MERKLE_PLACEHOLDER_HASH @ sp_siblings prf)"
proof -
  let ?k = "key_merkle_hash env key"
  note v = assms(1) [unfolded sparse_verify_non_inclusion_iff]
  show ?thesis
  proof (cases "sp_leaf prf")
    case None
    then show ?thesis
      using v assms(2) by (auto simp: update_leaf_def Let_def ensure_that_def fold_siblings_climb)
  next
    case (Some kv)
    obtain k vh where kv: "kv = (k, vh)" by (cases kv)
    have k: "k \<noteq> ?k" "length (sp_siblings prf) \<le> common_prefix_bits_len ?k k" "hash_value k"
      using v Some kv assms(3) by (auto simp: sparse_proof_ok_def)
    define siblings where "siblings = smt_merkle_hash (env_digest env) k vh #
      replicate (common_prefix_bits_len ?k k - length (sp_siblings prf)) SPARSE_MERKLE_PLACEHOLDER_HASH @ sp_siblings prf"
    have "length siblings = Suc (common_prefix_bits_len ?k k)" using k(2) by (simp add: siblings_def)
    then have len: "length siblings \<le> 256"
      using common_prefix_bits_len_less(1) [OF assms(4) k(3)] k(1) by simp
    have "update_leaf env key v prf =
        Inr (fold_siblings (env_digest env) ?k siblings
              (smt_merkle_hash (env_digest env) ?k (obj_merkle_hash env obj)),
             \<lparr>sp_leaf = Some (?k, obj_merkle_hash env obj), sp_siblings = siblings\<rparr>)"
      using Some kv k assms(2) len
      by (simp add: update_leaf_def Let_def ensure_that_def common_prefix_bits_len_commute [of k] siblings_def)
    then show ?thesis using len Some kv by (simp add: fold_siblings_climb siblings_def)
  qed
qed

section \<open>Collisions\<close>

text \<open>The byte strings hashed while climbing.\<close>

fun climb_inputs :: "digest \<Rightarrow> bool list \<Rightarrow> HashValue list \<Rightarrow> HashValue \<Rightarrow> bytes list" where
  "climb_inputs digest (b # bs) (s # ss) x =
     (let y = climb digest bs ss x in
      (if b then s @ y else y @ s) # climb_inputs digest bs ss x)"
| "climb_inputs digest _ _ x = []"

definition collision_in :: "digest \<Rightarrow> bytes list \<Rightarrow> bytes list \<Rightarrow> bool" where
  "collision_in digest xs ys \<longleftrightarrow> (\<exists>a \<in> set xs. \<exists>b \<in> set ys. a \<noteq> b \<and> digest a = digest b)"

lemma hash_value_climb:
  assumes "\<And>bs. hash_value (digest bs)" and "hash_value x"
  shows "hash_value (climb digest bs ss x)"
  using assms by (induction digest bs ss x rule: climb.induct) (auto simp: Let_def smt_merkle_hash_def)

lemma climb_inject:
  assumes "\<And>bs. hash_value (digest bs)" and "hash_value x" and "hash_value y"
    and "length ss = length ts" and "length ss \<le> length bs"
    and "climb digest bs ss x = climb digest bs ts y" and "\<forall>s \<in> set ss \<union> set ts. hash_value s"
  shows "x = y \<or> collision_in digest (climb_inputs digest bs ss x) (climb_inputs digest bs ts y)"
  using assms(4-)
proof (induction ss ts arbitrary: bs rule: list_induct2)
  case Nil
  then show ?case by simp
next
  case (Cons s ss t ts)
  then obtain b cs where bs: "bs = b # cs" by (cases bs) auto
  define u where "u = climb digest cs ss x"
  define w where "w = climb digest cs ts y"
  have len: "length s = length t" "length u = length w"
    using Cons.prems(3) hash_value_climb [OF assms(1)] assms(2,3) by (auto simp: u_def w_def hash_value_length)
  have eq: "digest (if b then s @ u else u @ s) = digest (if b then t @ w else w @ t)"
    using Cons.prems(2) by (simp add: bs u_def w_def smt_merkle_hash_def Let_def split: if_splits)
  show ?case
  proof (cases "(if b then s @ u else u @ s) = (if b then t @ w else w @ t)")
    case True
    then have "u = w" using len by (simp split: if_splits)
    then have "x = y \<or> collision_in digest (climb_inputs digest cs ss x) (climb_inputs digest cs ts y)"
      using Cons.IH [of cs] Cons.prems by (simp add: bs u_def w_def)
    then show ?thesis by (auto simp: bs collision_in_def Let_def)
  next
    case False
    with eq have "collision_in digest (climb_inputs digest bs (s # ss) x) (climb_inputs digest bs (t # ts) y)"
      unfolding collision_in_def bs climb_inputs.simps Let_def u_def [symmetric] w_def [symmetric] by auto
    then show ?thesis ..
  qed
qed

definition sparse_inputs :: "('k, 'v) smt_env \<Rightarrow> SparseMerkleProof \<Rightarrow> 'k \<Rightarrow> bytes list" where
  "sparse_inputs env prf key =
     (case sp_leaf prf of None \<Rightarrow> [] | Some (k, vh) \<Rightarrow> [k @ vh]) @
     climb_inputs (env_digest env) (iter_bits (key_merkle_hash env key)) (rev (sp_siblings prf))
       (sparse_leaf_hash (env_digest env) (sp_leaf prf))"

lemma hash_value_sparse_leaf:
  "(\<And>bs. hash_value (env_digest env bs)) \<Longrightarrow> hash_value (sparse_leaf_hash (env_digest env) leaf)"
  by (auto simp: sparse_leaf_hash_def smt_merkle_hash_def split: option.splits)

text \<open>Two accepted proofs of the same depth for one key agree on the hash they start from.\<close>

lemma same_start_or_collision:
  assumes "\<And>bs. hash_value (env_digest env bs)"
    and "sparse_verify env p root key a = Inr ()" and "sparse_verify env q root key b = Inr ()"
    and "sparse_proof_ok p" and "sparse_proof_ok q" and "length (sp_siblings p) = length (sp_siblings q)"
  shows "sparse_leaf_hash (env_digest env) (sp_leaf p) = sparse_leaf_hash (env_digest env) (sp_leaf q) \<or>
    collision_in (env_digest env) (sparse_inputs env p key) (sparse_inputs env q key)"
proof -
  let ?D = "env_digest env" and ?bits = "iter_bits (key_merkle_hash env key)"
  have c: "climb ?D ?bits (rev (sp_siblings p)) (sparse_leaf_hash ?D (sp_leaf p)) = root \<and> length (sp_siblings p) \<le> 256"
    if "sparse_verify env p root key a = Inr ()" for p a
    using that by (cases a) (auto simp: sparse_verify_inclusion_iff sparse_verify_non_inclusion_iff)
  have "sparse_leaf_hash ?D (sp_leaf p) = sparse_leaf_hash ?D (sp_leaf q) \<or>
      collision_in ?D (climb_inputs ?D ?bits (rev (sp_siblings p)) (sparse_leaf_hash ?D (sp_leaf p)))
        (climb_inputs ?D ?bits (rev (sp_siblings q)) (sparse_leaf_hash ?D (sp_leaf q)))"
    using c [OF assms(2)] c [OF assms(3)] assms(4-6)
    by (intro climb_inject) (auto simp: assms(1) hash_value_sparse_leaf sparse_proof_ok_def)
  then show ?thesis by (auto simp: collision_in_def sparse_inputs_def)
qed

end
