(* ===== verification/Jellyfish_Merkle.thy ===== *)
theory Jellyfish_Merkle
  imports Tree_Cache Smt_Proof
begin

text \<open>
  The Jellyfish Merkle tree (\<^verbatim>\<open>jellyfish_merkle/mod.rs\<close>): insertion, update and deletion along
  the nibbles of a key through the write cache, and lookup with proof through a node reader. The
  nibble iterator, passed by mutable reference, is not used by a caller after the call, so it is an
  argument only. The recursion of \<^verbatim>\<open>insert_at\<close> ends because each internal node consumes a nibble.
\<close>

section \<open>The write path\<close>

definition create_leaf_node ::
    "('k, 'v) smt_env \<Rightarrow> 'k \<Rightarrow> 'v SMTObject \<Rightarrow> (('k, 'v) TreeCache, NodeKey \<times> ('k, 'v) SmtNode) action" where
  "create_leaf_node env key blob =
     (let new_leaf_node = smt_new_leaf key blob in
      bind_act (lift_act (node_merkle_hash env new_leaf_node)) (\<lambda>node_key.
      bind_act (put_node node_key new_leaf_node) (\<lambda>_.
      return_act (node_key, new_leaf_node))))"

text \<open>The series of single-child nodes above a fork: each takes the last nibble of the common path.\<close>

fun wrap_internal_nodes ::
    "('k, 'v) smt_env \<Rightarrow> nat \<Rightarrow> NibblePath \<Rightarrow> SmtInternalNode \<Rightarrow> (('k, 'v) TreeCache, SmtInternalNode) action" where
  "wrap_internal_nodes env 0 common_nibble_path next_internal_node = return_act next_internal_node"
| "wrap_internal_nodes env (Suc k) common_nibble_path next_internal_node =
     bind_act (lift_act (np_pop common_nibble_path)) (\<lambda>(popped, common_nibble_path').
     bind_act (lift_act (expect popped ''Common nibble_path below internal node ran out of nibble'')) (\<lambda>nibble.
     bind_act (lift_act (smt_internal_hash (env_digest env) next_internal_node)) (\<lambda>hash.
     bind_act (lift_act (smt_internal_new [nibble \<mapsto> \<lparr>ch_hash = hash, ch_is_leaf = False\<rparr>])) (\<lambda>internal_node.
     bind_act (lift_act (smt_internal_hash (env_digest env) internal_node)) (\<lambda>node_key.
     bind_act (put_node node_key (Internal_Node internal_node)) (\<lambda>_.
     wrap_internal_nodes env k common_nibble_path' internal_node))))))"

definition insert_at_leaf_node ::
    "('k, 'v) smt_env \<Rightarrow> NodeKey \<Rightarrow> ('k, 'v) SmtLeafNode \<Rightarrow> NibbleIterator \<Rightarrow> 'k \<Rightarrow> 'v SMTObject option \<Rightarrow>
     (('k, 'v) TreeCache, NodeKey \<times> ('k, 'v) SmtNode) action" where
  "insert_at_leaf_node env node_key existing_leaf_node nibble_iter key blob =
     bind_act (lift_act (visited_nibbles nibble_iter)) (\<lambda>visited_nibble_iter.
     bind_act (lift_act (and_then (np_new (ln_key_hash env existing_leaf_node)) np_nibbles)) (\<lambda>existing_leaf_nibble_iter.
     bind_act (lift_act (skip_common_prefix visited_nibble_iter existing_leaf_nibble_iter))
       (\<lambda>(_, visited_nibble_iter', existing_leaf_nibble_iter').
     bind_act (lift_act (ni_is_finished visited_nibble_iter')) (\<lambda>finished.
     bind_act (lift_act (assert_that finished ''Leaf nodes failed to share the same visited nibbles'')) (\<lambda>_.
     bind_act (lift_act (remaining_nibbles existing_leaf_nibble_iter')) (\<lambda>below.
     bind_act (lift_act (skip_common_prefix nibble_iter below)) (\<lambda>(num_common, nibble_iter', below').
     bind_act (lift_act (and_then (visited_nibbles nibble_iter') (\<lambda>v. and_then (ni_collect v) np_from_iter)))
       (\<lambda>common_nibble_path.
     bind_act (lift_act (ni_is_finished nibble_iter')) (\<lambda>iter_finished.
     if iter_finished then
       bind_act (lift_act (ni_is_finished below')) (\<lambda>below_finished.
       bind_act (lift_act (assert_that below_finished
         ''assertion failed: existing_leaf_nibble_iter_below_internal.is_finished()'')) (\<lambda>_.
       case blob of
         None \<Rightarrow>
           bind_act (delete_node node_key True) (\<lambda>_.
           bind_act (lift_act (node_merkle_hash env (new_null :: ('k, 'v) SmtNode))) (\<lambda>hash.
           return_act (hash, new_null)))
       | Some blob' \<Rightarrow>
           if obj_merkle_hash env blob' = ln_value_hash env existing_leaf_node
           then return_act (node_key, Leaf_Node existing_leaf_node)
           else bind_act (delete_node node_key True) (\<lambda>_. create_leaf_node env key blob')))
     else
       bind_act (lift_act (and_then (ni_next below') (\<lambda>(n, _). expect n ''Ran out of nibbles''))) (\<lambda>existing_leaf_index.
       bind_act (lift_act (and_then (ni_next nibble_iter') (\<lambda>(n, _). expect n ''Ran out of nibbles''))) (\<lambda>new_leaf_index.
       bind_act (lift_act (assert_that (existing_leaf_index \<noteq> new_leaf_index)
         ''assertion failed: existing_leaf_index != new_leaf_index'')) (\<lambda>_.
       case blob of
         None \<Rightarrow> return_act (node_key, Leaf_Node existing_leaf_node)
       | Some blob' \<Rightarrow>
           bind_act (create_leaf_node env key blob') (\<lambda>(_, new_leaf_node).
           bind_act (lift_act (node_merkle_hash env new_leaf_node)) (\<lambda>new_leaf_hash.
           bind_act (lift_act (smt_internal_new
               [existing_leaf_index \<mapsto> \<lparr>ch_hash = smt_leaf_hash env existing_leaf_node, ch_is_leaf = True\<rparr>,
                new_leaf_index \<mapsto> \<lparr>ch_hash = new_leaf_hash, ch_is_leaf = True\<rparr>])) (\<lambda>internal_node.
           bind_act (lift_act (smt_internal_hash (env_digest env) internal_node)) (\<lambda>internal_key.
           bind_act (put_node internal_key (Internal_Node internal_node)) (\<lambda>_.
           bind_act (wrap_internal_nodes env num_common common_nibble_path internal_node) (\<lambda>next_internal_node.
           bind_act (lift_act (smt_internal_hash (env_digest env) next_internal_node)) (\<lambda>next_key.
           return_act (next_key, Internal_Node next_internal_node))))))))))))))))))))"

text \<open>The internal case, over the recursive call as an argument.\<close>

definition insert_at_internal_node ::
    "('k, 'v) smt_env \<Rightarrow> ('k, 'v) node_reader \<Rightarrow>
     (NodeKey \<Rightarrow> NibbleIterator \<Rightarrow> (('k, 'v) TreeCache, NodeKey \<times> ('k, 'v) SmtNode) action) \<Rightarrow>
     NodeKey \<Rightarrow> SmtInternalNode \<Rightarrow> NibbleIterator \<Rightarrow> 'k \<Rightarrow> 'v SMTObject option \<Rightarrow>
     (('k, 'v) TreeCache, NodeKey \<times> ('k, 'v) SmtNode) action" where
  "insert_at_internal_node env reader insert_at node_key internal_node nibble_iter key blob =
     bind_act (lift_act (ni_next nibble_iter)) (\<lambda>(popped, nibble_iter').
     bind_act (lift_act (expect popped ''Ran out of nibbles'')) (\<lambda>child_index.
     bind_act
       (case in_child internal_node child_index of
          Some child \<Rightarrow> bind_act (insert_at (ch_hash child) nibble_iter') (\<lambda>r. return_act (Some r))
        | None \<Rightarrow>
            (case blob of
               Some blob' \<Rightarrow> bind_act (create_leaf_node env key blob') (\<lambda>r. return_act (Some r))
             | None \<Rightarrow> return_act None)) (\<lambda>new_child.
     case new_child of
       None \<Rightarrow> return_act (node_key, Internal_Node internal_node)
     | Some (new_child_key, new_child_node) \<Rightarrow>
         if (case in_child internal_node child_index of
               None \<Rightarrow> False
             | Some old \<Rightarrow> ch_hash old = new_child_key \<and> ch_is_leaf old = node_is_leaf new_child_node)
         then return_act (node_key, Internal_Node internal_node)
         else
           bind_act (delete_node node_key False) (\<lambda>_.
           let removed = (in_children internal_node)(child_index := None);
               children =
                 (case new_child_node of
                    Null \<Rightarrow> removed
                  | _ \<Rightarrow> removed(child_index \<mapsto>
                      \<lparr>ch_hash = new_child_key, ch_is_leaf = node_is_leaf new_child_node\<rparr>))
           in case children_iter children of
                [] \<Rightarrow>
                  bind_act (lift_act (node_merkle_hash env (new_null :: ('k, 'v) SmtNode))) (\<lambda>hash.
                  return_act (hash, new_null))
              | (_, first) # others \<Rightarrow>
                  if others = [] \<and> ch_is_leaf first then
                    bind_act (\<lambda>c. (cache_get_node reader c (ch_hash first), c)) (\<lambda>leaf_node.
                    return_act (ch_hash first, leaf_node))
                  else
                    bind_act (lift_act (smt_internal_new children)) (\<lambda>new_internal_node.
                    bind_act (lift_act (smt_internal_hash (env_digest env) new_internal_node)) (\<lambda>new_key.
                    bind_act (put_node new_key (Internal_Node new_internal_node)) (\<lambda>_.
                    return_act (new_key, Internal_Node new_internal_node))))))))"

lemma bind_act_cong:
  assumes "m s = m' s" and "\<And>x s'. m' s = (Inr x, s') \<Longrightarrow> f x s' = f' x s'"
  shows "bind_act m f s = bind_act m' f' s"
  using assms by (auto simp: bind_act_def split: prod.splits sum.splits)

lemma insert_at_internal_node_cong [fundef_cong]:
  assumes "env = env'" "reader = reader'" "node_key = node_key'" "internal_node = internal_node'"
    "nibble_iter = nibble_iter'" "key = key'" "blob = blob'" "c = c'"
    and "\<And>n it k. ni_next nibble_iter' = Inr (Some n, it) \<Longrightarrow> rec k it c' = rec' k it c'"
  shows "insert_at_internal_node env reader rec node_key internal_node nibble_iter key blob c =
    insert_at_internal_node env' reader' rec' node_key' internal_node' nibble_iter' key' blob' c'"
  unfolding assms(1-8) insert_at_internal_node_def
  by (intro bind_act_cong) (auto simp: assms(9) expect_def bind_act_def split: prod.splits option.splits sum.splits)

function insert_at ::
    "('k, 'v) smt_env \<Rightarrow> ('k, 'v) node_reader \<Rightarrow> 'k \<Rightarrow> 'v SMTObject option \<Rightarrow> NodeKey \<Rightarrow> NibbleIterator \<Rightarrow>
     (('k, 'v) TreeCache, NodeKey \<times> ('k, 'v) SmtNode) action" where
  "insert_at env reader key blob node_key nibble_iter c =
     (case cache_get_node reader c node_key of
        Inl e \<Rightarrow> (Inl e, c)
      | Inr (Internal_Node internal_node) \<Rightarrow>
          insert_at_internal_node env reader (insert_at env reader key blob) node_key internal_node nibble_iter key blob c
      | Inr (Leaf_Node leaf_node) \<Rightarrow> insert_at_leaf_node env node_key leaf_node nibble_iter key blob c
      | Inr Null \<Rightarrow>
          (case blob of
             None \<Rightarrow> (Inr (node_key, Null), c)
           | Some blob' \<Rightarrow> bind_act (delete_node node_key False) (\<lambda>_. create_leaf_node env key blob') c))"
  by pat_completeness auto
termination
  by (relation "measure (\<lambda>(_, _, _, _, _, it, _). ni_end it - ni_pos it)")
    (auto simp: ni_next_def split: if_splits)

declare insert_at.simps [simp del]

definition jm_put ::
    "('k, 'v) smt_env \<Rightarrow> ('k, 'v) node_reader \<Rightarrow> 'k \<Rightarrow> 'v SMTObject option \<Rightarrow> (('k, 'v) TreeCache, unit) action" where
  "jm_put env reader key blob =
     (let key_hash = key_merkle_hash env key in
      bind_act (lift_act (np_new key_hash)) (\<lambda>nibble_path.
      bind_act (get_act tc_root_node_key) (\<lambda>root_node_key.
      bind_act (lift_act (np_nibbles nibble_path)) (\<lambda>nibble_iter.
      bind_act (insert_at env reader key blob root_node_key nibble_iter) (\<lambda>(new_root_node_key, _).
      set_root_node_key new_root_node_key)))))"

fun put_all ::
    "('k, 'v) smt_env \<Rightarrow> ('k, 'v) node_reader \<Rightarrow> ('k \<times> 'v SMTObject option) list \<Rightarrow> (('k, 'v) TreeCache, unit) action" where
  "put_all env reader [] = return_act ()"
| "put_all env reader ((key, blob) # kvs) = bind_act (jm_put env reader key blob) (\<lambda>_. put_all env reader kvs)"

fun put_blob_sets ::
    "('k, 'v) smt_env \<Rightarrow> ('k, 'v) node_reader \<Rightarrow> ('k \<times> 'v SMTObject option) list list \<Rightarrow>
     (('k, 'v) TreeCache, unit) action" where
  "put_blob_sets env reader [] = return_act ()"
| "put_blob_sets env reader (blob_set # blob_sets) =
     bind_act (lift_act (assert_that (blob_set \<noteq> [])
       ''Transactions that output empty write set should not be included.'')) (\<lambda>_.
     bind_act (put_all env reader blob_set) (\<lambda>_.
     bind_act (cache_freeze env reader) (\<lambda>_.
     put_blob_sets env reader blob_sets)))"

definition jm_puts ::
    "('k, 'v) smt_env \<Rightarrow> ('k, 'v) node_reader \<Rightarrow> HashValue option \<Rightarrow> ('k \<times> 'v SMTObject option) list list \<Rightarrow>
     (HashValue list \<times> ('k, 'v) TreeUpdateBatch) result" where
  "jm_puts env reader state_root_hash blob_sets =
     (case put_blob_sets env reader blob_sets (tree_cache_new state_root_hash) of
        (Inl e, _) \<Rightarrow> Inl e
      | (Inr _, tree_cache) \<Rightarrow> Inr (cache_into tree_cache))"

definition jm_updates ::
    "('k, 'v) smt_env \<Rightarrow> ('k, 'v) node_reader \<Rightarrow> HashValue option \<Rightarrow> ('k \<times> 'v SMTObject option) list \<Rightarrow>
     (HashValue \<times> ('k, 'v) TreeUpdateBatch) result" where
  "jm_updates env reader state_root_hash blob_set =
     and_then (jm_puts env reader state_root_hash [blob_set]) (\<lambda>(root_hashes, tree_update_batch).
     and_then (assert_that (length root_hashes = 1) ''root_hashes must consist of a single value.'') (\<lambda>_.
     Inr (root_hashes ! 0, tree_update_batch)))"

definition jm_insert_all ::
    "('k, 'v) smt_env \<Rightarrow> ('k, 'v) node_reader \<Rightarrow> HashValue option \<Rightarrow> ('k \<times> 'v SMTObject) list \<Rightarrow>
     (HashValue \<times> ('k, 'v) TreeUpdateBatch) result" where
  "jm_insert_all env reader state_root_hash blob_set =
     jm_updates env reader state_root_hash (map (\<lambda>(k, v). (k, Some v)) blob_set)"

section \<open>The read path\<close>

text \<open>The loop over the depths \<^verbatim>\<open>0..=ROOT_NIBBLE_HEIGHT\<close>.\<close>

fun get_with_proof_loop ::
    "('k, 'v) smt_env \<Rightarrow> ('k, 'v) node_reader \<Rightarrow> 'k \<Rightarrow> nat list \<Rightarrow> NodeKey \<Rightarrow> NibbleIterator \<Rightarrow> HashValue list \<Rightarrow>
     ('v SMTObject option \<times> SparseMerkleProof) result" where
  "get_with_proof_loop env reader key [] next_node_key nibble_iter siblings =
     Inl (Fail ''Jellyfish Merkle tree has cyclic graph inside.'')"
| "get_with_proof_loop env reader key (nibble_depth # depths) next_node_key nibble_iter siblings =
     and_then (reader_get_node reader next_node_key) (\<lambda>next_node.
     case next_node of
       Internal_Node internal_node \<Rightarrow>
         and_then (ni_next nibble_iter) (\<lambda>(n, nibble_iter').
         and_then (ok_or n ''ran out of nibbles'') (\<lambda>queried_child_index.
         and_then (get_child_with_siblings (env_digest env) internal_node queried_child_index)
           (\<lambda>(child_node_key, siblings_in_internal).
         let siblings' = siblings @ siblings_in_internal in
         case child_node_key of
           Some node_key \<Rightarrow> get_with_proof_loop env reader key depths node_key nibble_iter' siblings'
         | None \<Rightarrow> Inr (None, sparse_proof_new None (rev siblings')))))
     | Leaf_Node leaf_node \<Rightarrow>
         Inr (if ln_key_hash env leaf_node = key_merkle_hash env key then Some (ln_value leaf_node) else None,
              sparse_proof_new (Some (ln_key_hash env leaf_node, ln_value_hash env leaf_node)) (rev siblings))
     | Null \<Rightarrow>
         if nibble_depth = 0 then Inr (None, sparse_proof_new None [])
         else Inl (Fail ''Non-root null node exists''))"

definition jm_get_with_proof ::
    "('k, 'v) smt_env \<Rightarrow> ('k, 'v) node_reader \<Rightarrow> HashValue \<Rightarrow> 'k \<Rightarrow> ('v SMTObject option \<times> SparseMerkleProof) result" where
  "jm_get_with_proof env reader state_root_hash key =
     and_then (np_new (key_merkle_hash env key)) (\<lambda>nibble_path.
     and_then (np_nibbles nibble_path) (\<lambda>nibble_iter.
     get_with_proof_loop env reader key [0..<ROOT_NIBBLE_HEIGHT + 1] state_root_hash nibble_iter []))"

definition jm_get_range_proof ::
    "('k, 'v) smt_env \<Rightarrow> ('k, 'v) node_reader \<Rightarrow> HashValue \<Rightarrow> 'k \<Rightarrow> SparseMerkleRangeProof result" where
  "jm_get_range_proof env reader state_root_hash rightmost_key_to_prove =
     (let key_hash = key_merkle_hash env rightmost_key_to_prove in
      and_then (jm_get_with_proof env reader state_root_hash rightmost_key_to_prove) (\<lambda>(account, prf).
      and_then (ensure_that (account \<noteq> None) ''rightmost_key_to_prove must exist.'') (\<lambda>_.
      Inr \<lparr>rp_right_siblings =
        rev (List.map_filter (\<lambda>(sibling, bit). if \<not> bit then Some sibling else None)
              (zip (rev (sp_siblings prf)) (iter_bits key_hash)))\<rparr>)))"

end
