(* ===== verification/Smt_Iterator.thy ===== *)
theory Smt_Iterator
  imports Jellyfish_Merkle
begin

text \<open>
  The depth-first iterator over the leaves of a tree (\<^verbatim>\<open>jellyfish_merkle/iterator/mod.rs\<close>). The
  stack of visited internal nodes, a \<^verbatim>\<open>Vec\<close> whose last element is the top, is a list with the top
  first. The search for the next existing child shifts a 16-bit word that is 0 after 16 steps, from
  where on the loop of the source does not end; the descent to the next leaf follows nodes of the
  store, so its length is bounded by fuel.
\<close>

section \<open>The visit of an internal node\<close>

record NodeVisitInfo =
  vi_node_key :: NodeKey
  vi_node :: SmtInternalNode
  vi_children_bitmap :: u16
  vi_next_child_to_visit :: u16

fun seek_child :: "nat \<Rightarrow> u16 \<Rightarrow> u16 \<Rightarrow> u16 result" where
  "seek_child fuel children_bitmap next_child_to_visit =
     (if next_child_to_visit AND children_bitmap \<noteq> 0 then Inr next_child_to_visit
      else case fuel of
        0 \<Rightarrow> Inl Diverge
      | Suc f \<Rightarrow> seek_child f children_bitmap (push_bit 1 next_child_to_visit))"

declare seek_child.simps [simp del]

definition visit_info_new :: "NodeKey \<Rightarrow> SmtInternalNode \<Rightarrow> NodeVisitInfo result" where
  "visit_info_new node_key node =
     and_then (generate_bitmaps node) (\<lambda>(children_bitmap, _).
     and_then (checked_shl 1 (trailing_zeros children_bitmap)) (\<lambda>next_child_to_visit.
     Inr \<lparr>vi_node_key = node_key, vi_node = node, vi_children_bitmap = children_bitmap,
          vi_next_child_to_visit = next_child_to_visit\<rparr>))"

definition new_next_child_to_visit :: "NodeKey \<Rightarrow> SmtInternalNode \<Rightarrow> Nibble \<Rightarrow> NodeVisitInfo result" where
  "new_next_child_to_visit node_key node next_child =
     and_then (generate_bitmaps node) (\<lambda>(children_bitmap, _).
     and_then (checked_shl 1 (unat next_child)) (\<lambda>start.
     and_then (seek_child 16 children_bitmap start) (\<lambda>next_child_to_visit.
     Inr \<lparr>vi_node_key = node_key, vi_node = node, vi_children_bitmap = children_bitmap,
          vi_next_child_to_visit = next_child_to_visit\<rparr>)))"

definition is_rightmost :: "NodeVisitInfo \<Rightarrow> bool result" where
  "is_rightmost info =
     and_then (assert_that (leading_zeros (vi_children_bitmap info) \<le> leading_zeros (vi_next_child_to_visit info))
       ''assertion failed: next_child_to_visit.leading_zeros() >= children_bitmap.leading_zeros()'') (\<lambda>_.
     Inr (leading_zeros (vi_next_child_to_visit info) = leading_zeros (vi_children_bitmap info)))"

definition visit_advance :: "NodeVisitInfo \<Rightarrow> NodeVisitInfo result" where
  "visit_advance info =
     and_then (is_rightmost info) (\<lambda>rightmost.
     and_then (assert_that (\<not> rightmost) ''Advancing past rightmost child.'') (\<lambda>_.
     and_then (seek_child 16 (vi_children_bitmap info) (push_bit 1 (vi_next_child_to_visit info))) (\<lambda>next_child_to_visit.
     Inr (info\<lparr>vi_next_child_to_visit := next_child_to_visit\<rparr>))))"

fun cleanup_stack :: "NodeVisitInfo list \<Rightarrow> NodeVisitInfo list result" where
  "cleanup_stack [] = Inr []"
| "cleanup_stack (info # parent_stack) =
     and_then (is_rightmost info) (\<lambda>rightmost.
     if rightmost then cleanup_stack parent_stack
     else and_then (visit_advance info) (\<lambda>info'. Inr (info' # parent_stack)))"

section \<open>The iterator\<close>

record JellyfishMerkleIterator =
  it_state_root_hash :: HashValue
  it_parent_stack :: "NodeVisitInfo list"
  it_done :: bool

text \<open>\<^verbatim>\<open>HashValue\<close> derives its order from its bytes.\<close>

fun lex_less :: "'a::linorder list \<Rightarrow> 'a list \<Rightarrow> bool" where
  "lex_less (x # xs) (y # ys) \<longleftrightarrow> x < y \<or> x = y \<and> lex_less xs ys"
| "lex_less [] (_ # _) \<longleftrightarrow> True"
| "lex_less _ [] \<longleftrightarrow> False"

text \<open>
  The loop of \<^verbatim>\<open>new\<close> down to the starting key, with the cases after the loop; each internal node
  consumes a nibble of the starting key.
\<close>

function iter_new_loop ::
    "('k, 'v) smt_env \<Rightarrow> ('k, 'v) node_reader \<Rightarrow> HashValue \<Rightarrow> HashValue \<Rightarrow> NodeKey \<Rightarrow> NibbleIterator \<Rightarrow>
     NodeVisitInfo list \<Rightarrow> JellyfishMerkleIterator result" where
  "iter_new_loop env reader state_root_hash starting_key_hash current_node_key nibble_iter parent_stack =
     and_then (reader_get_node reader current_node_key) (\<lambda>node.
     case node of
       Internal_Node internal_node \<Rightarrow>
         and_then (ni_next nibble_iter) (\<lambda>(n, nibble_iter').
         and_then (expect n ''Should have enough nibbles.'') (\<lambda>child_index.
         case in_child internal_node child_index of
           Some child \<Rightarrow>
             and_then (new_next_child_to_visit current_node_key internal_node child_index) (\<lambda>info.
             iter_new_loop env reader state_root_hash starting_key_hash (ch_hash child) nibble_iter' (info # parent_stack))
         | None \<Rightarrow>
             and_then (generate_bitmaps internal_node) (\<lambda>(bitmap, _).
             and_then (assert_that (leading_zeros bitmap \<le> 15) ''attempt to subtract with overflow'') (\<lambda>_.
             and_then
               (if unat child_index < 15 - leading_zeros bitmap
                then and_then (new_next_child_to_visit current_node_key internal_node child_index) (\<lambda>info.
                  Inr (info # parent_stack))
                else cleanup_stack parent_stack) (\<lambda>parent_stack'.
             Inr \<lparr>it_state_root_hash = state_root_hash, it_parent_stack = parent_stack', it_done = False\<rparr>)))))
     | Leaf_Node leaf_node \<Rightarrow>
         if lex_less (key_merkle_hash env (ln_key leaf_node)) starting_key_hash then
           and_then (cleanup_stack parent_stack) (\<lambda>parent_stack'.
           Inr \<lparr>it_state_root_hash = state_root_hash, it_parent_stack = parent_stack', it_done = (parent_stack' = [])\<rparr>)
         else Inr \<lparr>it_state_root_hash = state_root_hash, it_parent_stack = parent_stack, it_done = False\<rparr>
     | Null \<Rightarrow> Inr \<lparr>it_state_root_hash = state_root_hash, it_parent_stack = parent_stack, it_done = True\<rparr>)"
  by pat_completeness auto
termination
  by (relation "measure (\<lambda>(_, _, _, _, _, it, _). ni_end it - ni_pos it)")
    (auto simp: ni_next_def expect_def split: if_splits option.splits)

declare iter_new_loop.simps [simp del]

definition into_iterator_new ::
    "('k, 'v) smt_env \<Rightarrow> ('k, 'v) node_reader \<Rightarrow> HashValue \<Rightarrow> HashValue \<Rightarrow> JellyfishMerkleIterator result" where
  "into_iterator_new env reader state_root_hash starting_key =
     and_then (np_new starting_key) (\<lambda>nibble_path.
     and_then (np_nibbles nibble_path) (\<lambda>nibble_iter.
     iter_new_loop env reader state_root_hash starting_key state_root_hash nibble_iter []))"

definition jm_iterator_new ::
    "('k, 'v) smt_env \<Rightarrow> ('k, 'v) node_reader \<Rightarrow> HashValue \<Rightarrow> 'k option \<Rightarrow> JellyfishMerkleIterator result" where
  "jm_iterator_new env reader state_root_hash starting_key =
     (let starting_key_hash = (case starting_key of None \<Rightarrow> hv_zero | Some k \<Rightarrow> key_merkle_hash env k) in
      and_then (np_new starting_key_hash) (\<lambda>nibble_path.
      and_then (np_nibbles nibble_path) (\<lambda>nibble_iter.
      iter_new_loop env reader state_root_hash starting_key_hash state_root_hash nibble_iter [])))"

text \<open>
  An item is an \<^verbatim>\<open>Option\<close> of a \<^verbatim>\<open>Result\<close>: an error of the reader is handed to the caller and leaves
  the iterator where it is, a panic of the reader is one of \<^verbatim>\<open>next\<close>.
\<close>

type_synonym ('k, 'v) iter_item = "('k \<times> 'v SMTObject) result option"

fun iter_next_loop ::
    "nat \<Rightarrow> ('k, 'v) node_reader \<Rightarrow> NodeVisitInfo list \<Rightarrow> (('k, 'v) iter_item \<times> NodeVisitInfo list) result" where
  "iter_next_loop 0 reader parent_stack = Inl Diverge"
| "iter_next_loop (Suc fuel) reader [] = Inl (Panic ''We have checked that self.parent_stack is not empty.'')"
| "iter_next_loop (Suc fuel) reader (info # parent_stack) =
     and_then (nibble_from (word_of_nat (trailing_zeros (vi_next_child_to_visit info)))) (\<lambda>child_index.
     and_then (expect (in_child (vi_node info) child_index) ''Child should exist.'') (\<lambda>child.
     let node_key = ch_hash child in
     case reader_get_node reader node_key of
       Inr (Internal_Node internal_node) \<Rightarrow>
         and_then (visit_info_new node_key internal_node) (\<lambda>visit_info.
         iter_next_loop fuel reader (visit_info # info # parent_stack))
     | Inr (Leaf_Node leaf_node) \<Rightarrow>
         and_then (cleanup_stack (info # parent_stack)) (\<lambda>parent_stack'.
         Inr (Some (Inr (ln_key leaf_node, ln_value leaf_node)), parent_stack'))
     | Inr Null \<Rightarrow> Inr (Some (Inl (Fail ''Should not reach a null node.'')), info # parent_stack)
     | Inl (Fail msg) \<Rightarrow> Inr (Some (Inl (Fail msg)), info # parent_stack)
     | Inl err \<Rightarrow> Inl err))"

definition iter_next ::
    "nat \<Rightarrow> ('k, 'v) node_reader \<Rightarrow> JellyfishMerkleIterator \<Rightarrow> (('k, 'v) iter_item \<times> JellyfishMerkleIterator) result" where
  "iter_next fuel reader it =
     (if it_done it then Inr (None, it)
      else if it_parent_stack it = [] then
        (case reader_get_node reader (it_state_root_hash it) of
           Inr (Leaf_Node leaf_node) \<Rightarrow> Inr (Some (Inr (ln_key leaf_node, ln_value leaf_node)), it\<lparr>it_done := True\<rparr>)
         | Inr (Internal_Node _) \<Rightarrow> Inr (None, it)
         | Inr Null \<Rightarrow> Inl (Panic ''We would have set done to true in new.'')
         | Inl (Fail msg) \<Rightarrow> Inr (Some (Inl (Fail msg)), it)
         | Inl err \<Rightarrow> Inl err)
      else
        and_then (iter_next_loop fuel reader (it_parent_stack it)) (\<lambda>(item, parent_stack).
        Inr (item, it\<lparr>it_parent_stack := parent_stack\<rparr>)))"

end
