(* ===== verification/Smt_Tree.thy ===== *)
theory Smt_Tree
  imports Smt_Iterator
begin

text \<open>
  The public interface of the sparse Merkle tree crate (\<^verbatim>\<open>lib.rs\<close>, \<^verbatim>\<open>update_set.rs\<close>): the set of
  updates, a \<^verbatim>\<open>BTreeMap\<close> as an association list sorted by key, the node store and the tree over a
  node reader. The latency and size metrics are left out; \<^verbatim>\<open>H256\<close> is the 32-byte string that
  \<^verbatim>\<open>HashValue\<close> is. The operations that iterate take fuel for the loops of the iterator.
\<close>

section \<open>Update sets\<close>

fun bt_insert :: "'k::linorder \<Rightarrow> 'a \<Rightarrow> ('k \<times> 'a) list \<Rightarrow> ('k \<times> 'a) list" where
  "bt_insert k v [] = [(k, v)]"
| "bt_insert k v ((k', v') # xs) =
     (if k < k' then (k, v) # (k', v') # xs
      else if k = k' then (k, v) # xs
      else (k', v') # bt_insert k v xs)"

record ('k, 'v) UpdateSet =
  us_updates :: "('k \<times> 'v option) list"

definition us_new :: "('k, 'v) UpdateSet" where
  "us_new = \<lparr>us_updates = []\<rparr>"

definition new_with_value :: "'k::linorder \<Rightarrow> 'v option \<Rightarrow> ('k, 'v) UpdateSet" where
  "new_with_value key value = \<lparr>us_updates = bt_insert key value []\<rparr>"

definition us_get :: "('k, 'v) UpdateSet \<Rightarrow> 'k \<Rightarrow> 'v option" where
  "us_get us key = (case map_of (us_updates us) key of None \<Rightarrow> None | Some v \<Rightarrow> v)"

definition us_put :: "'k::linorder \<Rightarrow> 'v \<Rightarrow> ('k, 'v) UpdateSet \<Rightarrow> ('k, 'v) UpdateSet" where
  "us_put key value us = us\<lparr>us_updates := bt_insert key (Some value) (us_updates us)\<rparr>"

definition us_puts :: "('k::linorder \<times> 'v option) list \<Rightarrow> ('k, 'v) UpdateSet \<Rightarrow> ('k, 'v) UpdateSet" where
  "us_puts updates us = us\<lparr>us_updates := foldl (\<lambda>m (key, value). bt_insert key value m) (us_updates us) updates\<rparr>"

definition us_remove :: "'k::linorder \<Rightarrow> ('k, 'v) UpdateSet \<Rightarrow> ('k, 'v) UpdateSet" where
  "us_remove key us = us\<lparr>us_updates := bt_insert key None (us_updates us)\<rparr>"

definition us_is_empty :: "('k, 'v) UpdateSet \<Rightarrow> bool" where
  "us_is_empty us \<longleftrightarrow> us_updates us = []"

definition us_len :: "('k, 'v) UpdateSet \<Rightarrow> nat" where
  "us_len us = length (us_updates us)"

definition us_clear :: "('k, 'v) UpdateSet \<Rightarrow> ('k, 'v) UpdateSet" where
  "us_clear us = us\<lparr>us_updates := []\<rparr>"

definition into_updates ::
    "('k, 'v) smt_env \<Rightarrow> ('k, 'v) UpdateSet \<Rightarrow> ('k \<times> 'v SMTObject option) list result" where
  "into_updates env us =
     try_map (\<lambda>(k, v_opt).
       case v_opt of
         Some v \<Rightarrow> and_then (into_object env v) (\<lambda>obj. Inr (k, Some obj))
       | None \<Rightarrow> Inr (k, None)) (us_updates us)"

definition us_from_pair :: "'k::linorder \<times> 'v option \<Rightarrow> ('k, 'v) UpdateSet" where
  "us_from_pair = (\<lambda>(key, value). new_with_value key value)"

definition us_from_kv :: "'k::linorder \<times> 'v \<Rightarrow> ('k, 'v) UpdateSet" where
  "us_from_kv = (\<lambda>(key, value). new_with_value key (Some value))"

definition us_default :: "('k, 'v) UpdateSet" where
  "us_default = us_new"

definition us_from_vec :: "('k::linorder \<times> 'v option) list \<Rightarrow> ('k, 'v) UpdateSet" where
  "us_from_vec updates = us_puts updates us_new"

section \<open>Node stores\<close>

type_synonym node_bytes_reader = "HashValue \<Rightarrow> bytes option result"

definition get_node_option :: "('k, 'v) smt_env \<Rightarrow> node_bytes_reader \<Rightarrow> ('k, 'v) node_reader" where
  "get_node_option env get node_key =
     (if node_key = SPARSE_MERKLE_PLACEHOLDER_HASH then Inr (Some new_null)
      else
        and_then (get node_key) (\<lambda>found.
        case found of
          None \<Rightarrow> Inr None
        | Some v \<Rightarrow> and_then (node_decode env v) (\<lambda>node. Inr (Some node))))"

record InMemoryNodeStore =
  ns_inner :: "HashValue \<rightharpoonup> bytes"

definition in_memory_from :: "(HashValue \<rightharpoonup> bytes) \<Rightarrow> InMemoryNodeStore" where
  "in_memory_from m = \<lparr>ns_inner = m\<rparr>"

definition in_memory_put :: "HashValue \<Rightarrow> bytes \<Rightarrow> (InMemoryNodeStore, unit) action" where
  "in_memory_put key node = modify_act (\<lambda>s. s\<lparr>ns_inner := (ns_inner s)(key \<mapsto> node)\<rparr>)"

definition in_memory_write_nodes :: "(HashValue \<times> bytes) list \<Rightarrow> (InMemoryNodeStore, unit) action" where
  "in_memory_write_nodes nodes =
     modify_act (\<lambda>s. s\<lparr>ns_inner := foldl (\<lambda>m (key, node). m(key \<mapsto> node)) (ns_inner s) nodes\<rparr>)"

definition in_memory_get :: "InMemoryNodeStore \<Rightarrow> node_bytes_reader" where
  "in_memory_get s hash = Inr (ns_inner s hash)"

section \<open>The tree\<close>

record TreeChangeSet =
  cs_state_root :: HashValue
  cs_nodes :: "(HashValue \<times> bytes) list"

definition change_set_new :: "HashValue \<Rightarrow> (HashValue \<times> bytes) list \<Rightarrow> TreeChangeSet" where
  "change_set_new state_root nodes = \<lparr>cs_state_root = state_root, cs_nodes = nodes\<rparr>"

text \<open>The loop over \<^verbatim>\<open>node_batch\<close> that encodes the nodes.\<close>

definition encode_nodes :: "('k, 'v) smt_env \<Rightarrow> ('k, 'v) node_map \<Rightarrow> (HashValue \<times> bytes) list result" where
  "encode_nodes env batch =
     try_fold (\<lambda>node_map (nk, n). and_then (node_encode env n) (\<lambda>bs. Inr (AList.update nk bs node_map))) [] batch"

definition smt_updates ::
    "('k::linorder, 'v) smt_env \<Rightarrow> node_bytes_reader \<Rightarrow> HashValue \<Rightarrow> ('k, 'v) UpdateSet \<Rightarrow> TreeChangeSet result" where
  "smt_updates env get state_root updates =
     (if us_is_empty updates then Inr \<lparr>cs_state_root = state_root, cs_nodes = []\<rparr>
      else
        and_then (into_updates env updates) (\<lambda>kvs.
        and_then (jm_updates env (get_node_option env get) (Some state_root) kvs) (\<lambda>(new_state_root, change_set).
        and_then (encode_nodes env (node_batch change_set)) (\<lambda>node_map.
        Inr \<lparr>cs_state_root = new_state_root, cs_nodes = node_map\<rparr>))))"

definition smt_puts ::
    "('k::linorder, 'v) smt_env \<Rightarrow> node_bytes_reader \<Rightarrow> HashValue \<Rightarrow> ('k, 'v) UpdateSet \<Rightarrow> TreeChangeSet result" where
  "smt_puts env get state_root update_set = smt_updates env get state_root update_set"

definition smt_put ::
    "('k::linorder, 'v) smt_env \<Rightarrow> node_bytes_reader \<Rightarrow> HashValue \<Rightarrow> 'k \<Rightarrow> 'v \<Rightarrow> TreeChangeSet result" where
  "smt_put env get state_root key value = smt_puts env get state_root (us_from_pair (key, Some value))"

definition smt_remove ::
    "('k::linorder, 'v) smt_env \<Rightarrow> node_bytes_reader \<Rightarrow> HashValue \<Rightarrow> 'k \<Rightarrow> TreeChangeSet result" where
  "smt_remove env get state_root key = smt_puts env get state_root (us_from_pair (key, None))"

definition smt_get_with_proof ::
    "('k, 'v) smt_env \<Rightarrow> node_bytes_reader \<Rightarrow> HashValue \<Rightarrow> 'k \<Rightarrow> ('v option \<times> SparseMerkleProof) result" where
  "smt_get_with_proof env get state_root key =
     and_then (jm_get_with_proof env (get_node_option env get) state_root key) (\<lambda>(data, prf).
     case data of
       Some b \<Rightarrow> Inr (Some (obj_origin b), prf)
     | None \<Rightarrow> Inr (None, prf))"

definition smt_get :: "('k, 'v) smt_env \<Rightarrow> node_bytes_reader \<Rightarrow> HashValue \<Rightarrow> 'k \<Rightarrow> 'v option result" where
  "smt_get env get state_root key = and_then (smt_get_with_proof env get state_root key) (\<lambda>(v, _). Inr v)"

definition smt_contains :: "('k, 'v) smt_env \<Rightarrow> node_bytes_reader \<Rightarrow> HashValue \<Rightarrow> 'k \<Rightarrow> bool result" where
  "smt_contains env get state_root key = and_then (smt_get env get state_root key) (\<lambda>v. Inr (v \<noteq> None))"

definition smt_iter ::
    "('k, 'v) smt_env \<Rightarrow> node_bytes_reader \<Rightarrow> HashValue \<Rightarrow> 'k option \<Rightarrow> JellyfishMerkleIterator result" where
  "smt_iter env get state_root starting_key = jm_iterator_new env (get_node_option env get) state_root starting_key"

definition smt_iter_next ::
    "nat \<Rightarrow> ('k, 'v) smt_env \<Rightarrow> node_bytes_reader \<Rightarrow> JellyfishMerkleIterator \<Rightarrow>
     (('k \<times> 'v) result option \<times> JellyfishMerkleIterator) result" where
  "smt_iter_next fuel env get it =
     and_then (iter_next fuel (get_node_option env get) it) (\<lambda>(item, it').
     Inr (map_option (\<lambda>result. and_then result (\<lambda>(k, v). Inr (k, obj_origin v))) item, it'))"

fun list_loop ::
    "nat \<Rightarrow> nat \<Rightarrow> ('k, 'v) smt_env \<Rightarrow> node_bytes_reader \<Rightarrow> nat \<Rightarrow> nat \<Rightarrow> JellyfishMerkleIterator \<Rightarrow> ('k \<times> 'v) list \<Rightarrow>
     ('k \<times> 'v) list result" where
  "list_loop 0 fuel env get limit data_idx iter data = Inl Diverge"
| "list_loop (Suc n) fuel env get limit data_idx iter data =
     and_then (smt_iter_next fuel env get iter) (\<lambda>(item, iter').
     case item of
       None \<Rightarrow> Inr data
     | Some result \<Rightarrow>
         if limit \<le> data_idx then Inr data
         else
           and_then result (\<lambda>(k, v).
           list_loop n fuel env get limit (data_idx + 1) iter' (data @ [(k, v)])))"

definition smt_list ::
    "nat \<Rightarrow> ('k, 'v) smt_env \<Rightarrow> node_bytes_reader \<Rightarrow> HashValue \<Rightarrow> 'k option \<Rightarrow> nat \<Rightarrow> ('k \<times> 'v) list result" where
  "smt_list fuel env get state_root starting_key limit =
     and_then (smt_iter env get state_root starting_key) (\<lambda>iter.
     and_then
       (case starting_key of
          Some _ \<Rightarrow> and_then (smt_iter_next fuel env get iter) (\<lambda>(_, iter'). Inr iter')
        | None \<Rightarrow> Inr iter) (\<lambda>iter'.
     list_loop fuel fuel env get limit 0 iter' []))"

fun dump_loop ::
    "nat \<Rightarrow> nat \<Rightarrow> ('k, 'v) smt_env \<Rightarrow> node_bytes_reader \<Rightarrow> JellyfishMerkleIterator \<Rightarrow> ('k \<times> 'v) list \<Rightarrow> ('k \<times> 'v) list result" where
  "dump_loop 0 fuel env get iter data = Inl Diverge"
| "dump_loop (Suc n) fuel env get iter data =
     and_then (smt_iter_next fuel env get iter) (\<lambda>(item, iter').
     case item of
       None \<Rightarrow> Inr data
     | Some result \<Rightarrow> and_then result (\<lambda>(k, v). dump_loop n fuel env get iter' (data @ [(k, v)])))"

definition smt_dump ::
    "nat \<Rightarrow> ('k, 'v) smt_env \<Rightarrow> node_bytes_reader \<Rightarrow> HashValue \<Rightarrow> ('k \<times> 'v) list result" where
  "smt_dump fuel env get state_root =
     and_then (smt_iter env get state_root None) (\<lambda>iter. dump_loop fuel fuel env get iter [])"

end
