(* ===== verification/Smt_Codec.thy ===== *)
theory Smt_Codec
  imports Smt_Hashing
begin

text \<open>
  The byte encodings of \<^verbatim>\<open>node_type/mod.rs\<close> decode what they encode: internal nodes, leaves
  (given the codec laws of the environment), tagged nodes and variable-length integers.
\<close>

section \<open>Valid internal nodes\<close>

text \<open>
  The constructor of internal nodes accepts exactly the children maps that branch: at least one
  child, and not a single leaf.
\<close>

lemma children_iter_range:
  "children_iter c = map (\<lambda>i. (word_of_nat i, the (child_at c i))) (range_children c 0 16)"
proof -
  have "List.map_filter (\<lambda>n. map_option (Pair n) (c n)) (map word_of_nat xs) =
      map (\<lambda>i. (word_of_nat i, the (child_at c i))) (filter (\<lambda>i. child_at c i \<noteq> None) xs)" for xs
    by (induction xs) (auto simp: List.map_filter_simps child_at_def split: option.splits)
  then show ?thesis by (simp add: children_iter_def nibble_values_def range_children_def)
qed

lemma smt_internal_new_eq:
  "(\<exists>node. smt_internal_new c = Inr node) \<longleftrightarrow> branching c 0 4"
  "branching c 0 4 \<Longrightarrow> smt_internal_new c = Inr \<lparr>in_children = c\<rparr>"
proof -
  have l: "leaf_at c i \<longleftrightarrow> ch_is_leaf (the (child_at c i))" if "i \<in> set (range_children c 0 16)" for i
    using range_children_bound [OF that] by (auto simp: leaf_at_def split: option.splits)
  have "smt_internal_new c = (if branching c 0 4 then Inr \<lparr>in_children = c\<rparr> else smt_internal_new c) \<and>
      (\<not> branching c 0 4 \<longrightarrow> (\<forall>node. smt_internal_new c \<noteq> Inr node))"
  proof (cases "range_children c 0 16")
    case Nil
    then show ?thesis by (simp add: smt_internal_new_def children_iter_range branching_def assert_that_def)
  next
    case (Cons i js)
    with l [of i] show ?thesis
      by (cases js) (simp_all add: smt_internal_new_def children_iter_range branching_def assert_that_def
          expect_def Let_def)
  qed
  then show "(\<exists>node. smt_internal_new c = Inr node) \<longleftrightarrow> branching c 0 4"
    and "branching c 0 4 \<Longrightarrow> smt_internal_new c = Inr \<lparr>in_children = c\<rparr>" by (auto split: if_splits)
qed

definition internal_ok :: "SmtInternalNode \<Rightarrow> bool" where
  "internal_ok node \<longleftrightarrow>
     children_ok (in_children node) \<and> branching (in_children node) 0 4 \<and>
     (\<forall>n ch. in_children node n = Some ch \<longrightarrow> hash_value (ch_hash ch))"

section \<open>Internal nodes\<close>

lemma u16_le_round_trip: "ucast (ucast w :: u8) OR push_bit 8 (ucast (ucast (drop_bit 8 w) :: u8)) = w" for w :: u16
  by (rule bit_word_eqI) (auto simp: bit_or_iff bit_push_bit_iff bit_ucast_iff bit_drop_bit_eq)

lemma read_u16_le_at:
  assumes "drop pos data = u16_le w @ rest"
  shows "read_u16_le data pos = Inr w"
proof -
  have l: "pos + 2 \<le> length data" using arg_cong [OF assms, of length] by (simp add: u16_le_def)
  have "data ! pos = (drop pos data) ! 0" "data ! (pos + 1) = (drop pos data) ! 1" using l by simp_all
  then show ?thesis using l u16_le_round_trip [of w] unfolding assms by (simp add: read_u16_le_def u16_le_def)
qed

lemma clear_lowest:
  fixes w :: "'a::len word"
  assumes "bits_in w = i # js"
  shows "bits_in (w AND NOT (push_bit i 1)) = js"
proof -
  have d: "distinct (i # js)" unfolding assms [symmetric] by (simp add: bits_in_def)
  have i: "i < LENGTH('a)" using arg_cong [OF assms, of set] by (auto simp: bits_in_def)
  have "bits_in (w AND NOT (push_bit i 1)) = filter (\<lambda>j. j \<noteq> i) (bits_in w)"
    unfolding bits_in_def filter_filter
    by (rule filter_cong) (use i in \<open>auto simp: bit_and_iff bit_not_iff bit_push_bit_iff bit_1_iff bit_exp_iff\<close>)
  also have "\<dots> = js" using d by (auto simp: assms intro: filter_True)
  finally show ?thesis .
qed

lemma and_single_bit:
  fixes w :: "'a::len word"
  assumes "i < LENGTH('a)"
  shows "w AND push_bit i 1 \<noteq> 0 \<longleftrightarrow> bit w i"
proof -
  have and_bit: "bit (w AND push_bit i 1) j \<longleftrightarrow> j = i \<and> bit w i" if "j < LENGTH('a)" for j
    using that by (auto simp: bit_and_iff bit_push_bit_iff bit_1_iff bit_exp_iff)
  have "w AND push_bit i 1 = 0" if "\<not> bit w i"
    using that and_bit by (intro bit_word_eqI) auto
  moreover have "w AND push_bit i 1 \<noteq> 0" if "bit w i"
    using that and_bit [OF assms] by (metis bit_0_eq bot_apply bot_bool_def)
  ultimately show ?thesis by blast
qed

lemma bits_in_less: "i \<in> set (bits_in w) \<Longrightarrow> i < LENGTH('a)" for w :: "'a::len word"
  by (simp add: bits_in_def)

lemma nibble_from_of_nat: "i < 16 \<Longrightarrow> nibble_from (word_of_nat i) = Inr (word_of_nat i)"
  by (simp add: word_less_nat_alt unat_nibble_of_nat)

lemma serialize_children_eq:
  assumes "bits_in e = is" and "\<forall>i \<in> set is. child_at (in_children node) i \<noteq> None"
  shows "serialize_children node (length is) e = Inr (concat (map (hash_at (in_children node)) is))"
  using assms
proof (induction "is" arbitrary: e)
  case Nil
  then show ?case by simp
next
  case (Cons i js)
  have e: "trailing_zeros e = i" using Cons.prems(1) bits_in_Nil_iff [of e] by (simp add: trailing_zeros_bits_in)
  have i: "i < 16" using bits_in_less [of i e] Cons.prems(1) by simp
  obtain ch where "in_children node (word_of_nat i) = Some ch" using Cons.prems(2) by (auto simp: child_at_def)
  with Cons.IH [OF clear_lowest [OF Cons.prems(1)]] Cons.prems(2) i show ?case
    by (simp add: e nibble_from_of_nat in_child_def expect_def hash_at_def child_at_def)
qed

lemma deserialize_children_eq:
  assumes "bits_in e = is" and "drop pos data = concat (map (hash_at c) is) @ rest"
    and "\<forall>i \<in> set is. child_at c i \<noteq> None \<and> hash_value (hash_at c i)" and "bits_in l = filter (leaf_at c) (range_children c 0 16)"
  shows "deserialize_children data l (length is) e pos acc =
    Inr (\<lambda>n. if n \<in> word_of_nat ` set is then c n else acc n, 0)"
  using assms(1-3)
proof (induction "is" arbitrary: e pos acc)
  case Nil
  then show ?case using bits_in_Nil_iff [of e] by simp
next
  case (Cons i js)
  have e: "trailing_zeros e = i" using Cons.prems(1) bits_in_Nil_iff [of e] by (simp add: trailing_zeros_bits_in)
  have i: "i < 16" using bits_in_less [of i e] Cons.prems(1) by simp
  obtain ch where ch: "c (word_of_nat i) = Some ch" using Cons.prems(3) by (auto simp: child_at_def)
  have h: "hash_at c i = ch_hash ch" "length (ch_hash ch) = 32"
    using Cons.prems(3) ch by (auto simp: hash_at_def child_at_def hash_value_length)
  have d: "drop pos data = ch_hash ch @ concat (map (hash_at c) js) @ rest" using Cons.prems(2) h by simp
  have len: "32 \<le> length data - pos" using arg_cong [OF d, of length] h by simp
  have tk: "take 32 (drop pos data) = ch_hash ch" using d h by simp
  have dr: "drop (pos + 32) data = concat (map (hash_at c) js) @ rest"
    using arg_cong [OF d, of "drop 32"] h by (simp add: add.commute)
  have lf: "(l AND push_bit i 1 \<noteq> 0) = ch_is_leaf ch"
  proof -
    have "bit l i \<longleftrightarrow> i \<in> set (bits_in l)" using i by (auto simp: bits_in_def)
    also have "\<dots> \<longleftrightarrow> ch_is_leaf ch" unfolding assms(4)
      using ch i by (auto simp: range_children_def leaf_at_def child_at_def)
    finally have b: "bit l i \<longleftrightarrow> ch_is_leaf ch" .
    have "l AND push_bit i 1 \<noteq> 0 \<longleftrightarrow> bit l i" by (rule and_single_bit) (use i in simp)
    with b show ?thesis by simp
  qed
  have chi: "\<lparr>ch_hash = ch_hash ch, ch_is_leaf = (l AND push_bit i 1) \<noteq> 0\<rparr> = ch" unfolding lf by simp
  have js: "\<forall>i \<in> set js. child_at c i \<noteq> None \<and> hash_value (hash_at c i)" using Cons.prems(3) by simp
  have upd: "(\<lambda>n. if n \<in> word_of_nat ` set js then c n else (acc(word_of_nat i \<mapsto> ch)) n) =
      (\<lambda>n. if n \<in> word_of_nat ` set (i # js) then c n else acc n)" using ch by auto
  have "deserialize_children data l (length (i # js)) e pos acc =
      deserialize_children data l (length js) (e AND NOT (push_bit i 1)) (pos + 32) (acc(word_of_nat i \<mapsto> ch))"
    unfolding list.size add.commute [of _ "Suc 0"] plus_1_eq_Suc One_nat_def [symmetric]
    using len h(2) by (simp add: deserialize_children.simps(2) e Let_def LENGTH_BYTES_def nibble_from_of_nat i
        hv_from_slice_def ensure_that_def tk chi del: push_bit_of_1)
  also have "\<dots> = Inr (\<lambda>n. if n \<in> word_of_nat ` set (i # js) then c n else acc n, 0)"
    unfolding Cons.IH [OF clear_lowest [OF Cons.prems(1)] dr js] upd ..
  finally show ?case .
qed

lemma internal_round_trip:
  assumes "internal_ok node"
  shows "and_then (serialize_internal node) deserialize_internal = Inr node"
proof -
  let ?c = "in_children node"
  have ok: "children_ok ?c" "branching ?c 0 4" using assms by (simp_all add: internal_ok_def)
  obtain e l where bm: "bitmaps_of ?c = (e, l)" by fastforce
  have e: "bits_in e = range_children ?c 0 16"
    unfolding bits_in_def range_children_def using bit_bitmaps_of(1) [of _ ?c] bm by (auto intro!: filter_cong)
  have l: "bits_in l = filter (leaf_at ?c) (range_children ?c 0 16)"
    unfolding filter_leaf_at [of ?c 0 16, symmetric] bits_in_def
    using bit_bitmaps_of(2) [of _ ?c] bm by (auto intro!: filter_cong)
  define body where "body = concat (map (hash_at ?c) (range_children ?c 0 16))"
  define data where "data = u16_le e @ u16_le l @ body"
  have some: "\<forall>i \<in> set (range_children ?c 0 16). child_at ?c i \<noteq> None \<and> hash_value (hash_at ?c i)"
    using assms by (auto simp: range_children_def internal_ok_def hash_at_def child_at_def)
  have ser: "serialize_internal node = Inr data"
    using serialize_children_eq [OF e, of node] some
    by (simp add: serialize_internal_def generate_bitmaps_eq bm count_ones_bits_in e data_def body_def)
  have r0: "read_u16_le data 0 = Inr e" by (rule read_u16_le_at) (simp add: data_def)
  have r2: "read_u16_le data 2 = Inr l" by (rule read_u16_le_at) (simp add: data_def u16_le_def)
  have ne: "e \<noteq> 0" using ok(2) e bits_in_Nil_iff [of e] by (auto simp: branching_def)
  have sub: "e AND l = l"
  proof (rule bit_word_eqI)
    fix i
    assume "i < LENGTH(16)"
    then show "bit (e AND l) i \<longleftrightarrow> bit l i"
      using bit_bitmaps_of [of i ?c] bm by (auto simp: bit_and_iff leaf_at_def split: option.splits)
  qed
  have "drop 4 data = concat (map (hash_at ?c) (range_children ?c 0 16)) @ []"
    by (simp add: data_def u16_le_def body_def)
  note des = deserialize_children_eq [OF e this some l, of Map.empty]
  have all: "(\<lambda>n. if n \<in> word_of_nat ` set (range_children ?c 0 16) then ?c n else None) = ?c"
  proof (rule ext)
    fix n
    show "(if n \<in> word_of_nat ` set (range_children ?c 0 16) then ?c n else None) = ?c n"
    proof (cases "?c n")
      case (Some ch)
      then have "n < 16" using ok(1) by (auto simp: children_ok_def)
      then have "unat n \<in> set (range_children ?c 0 16)"
        using Some by (simp add: range_children_def child_at_def word_less_nat_alt)
      then have "n \<in> word_of_nat ` set (range_children ?c 0 16)" by (intro image_eqI [of _ _ "unat n"]) simp_all
      then show ?thesis by simp
    qed simp
  qed
  have "deserialize_internal data = smt_internal_new ?c"
    using r0 r2 ne sub des by (simp add: deserialize_internal_def count_ones_bits_in e all)
  also have "\<dots> = Inr node" using smt_internal_new_eq(2) [OF ok(2)] by simp
  finally show ?thesis by (simp add: ser)
qed

section \<open>Leaves and tagged nodes\<close>

definition smt_codecs :: "('k, 'v) smt_env \<Rightarrow> bool" where
  "smt_codecs env \<longleftrightarrow> key_codec env \<and> value_codec env \<and> kv_codec env"

fun node_ok :: "('k, 'v) smt_env \<Rightarrow> ('k, 'v) SmtNode \<Rightarrow> bool" where
  "node_ok env Null = True"
| "node_ok env (Internal_Node node) = internal_ok node"
| "node_ok env (Leaf_Node leaf) = obj_ok env (ln_value leaf)"

lemma leaf_round_trip:
  assumes "smt_codecs env" and "obj_ok env (ln_value leaf)" and "serialize_leaf env leaf = Inr bs"
  shows "deserialize_leaf env bs = Inr leaf"
proof -
  have "raw_kv_from_bytes env bs = Inr (key_into env (ln_key leaf), obj_raw (ln_value leaf))"
    using assms(1,3) by (simp add: smt_codecs_def kv_codec_def serialize_leaf_def)
  moreover have "obj_from_raw env (obj_raw (ln_value leaf)) = Inr (ln_value leaf)"
    using assms(1,2) by (simp add: smt_codecs_def obj_from_raw_of_ok)
  moreover have "key_from env (key_into env (ln_key leaf)) = ln_key leaf"
    using assms(1) by (simp add: smt_codecs_def key_codec_def)
  ultimately show ?thesis by (simp add: deserialize_leaf_def smt_leaf_new_def)
qed

lemma node_decode_encode:
  assumes "smt_codecs env" and "node_ok env node" and "node_encode env node = Inr bs"
  shows "node_decode env bs = Inr node"
proof (cases node)
  case Null
  with assms show ?thesis by (auto simp: node_decode_def)
next
  case (Internal_Node i)
  with assms internal_round_trip [of i] show ?thesis by (auto simp: node_decode_def)
next
  case (Leaf_Node l)
  with assms leaf_round_trip [of env l] show ?thesis by (auto simp: node_decode_def)
qed

text \<open>
  The error paths of the decoder. An encoding whose only child is a leaf is not rejected with an
  error: it reaches the assertions of the constructor.
\<close>

lemma node_decode_errors:
  "node_decode env [] = Inl (Fail ''Missing tag due to empty input'')"
  "2 < tag \<Longrightarrow> node_decode env (tag # bs) = Inl (Fail ''lead tag byte is unknown'')"
  "node_decode env (1 # 0 # 0 # a # b # bs) = Inl (Fail ''No children found in internal node'')"
proof -
  show "node_decode env [] = Inl (Fail ''Missing tag due to empty input'')" by (simp add: node_decode_def)
  assume "2 < tag"
  then have "tag \<noteq> 0" "tag \<noteq> 1" "tag \<noteq> 2" by (auto simp: word_less_nat_alt)
  then show "node_decode env (tag # bs) = Inl (Fail ''lead tag byte is unknown'')" by (simp add: node_decode_def)
next
  show "node_decode env (1 # 0 # 0 # a # b # bs) = Inl (Fail ''No children found in internal node'')"
    by (simp add: node_decode_def deserialize_internal_def read_u16_le_def)
qed

lemma deserialize_single_leaf:
  assumes "hash_value h"
  shows "deserialize_internal (1 # 0 # 1 # 0 # h) =
    Inl (Panic ''assertion failed: !children.values().next().is_leaf'')"
proof -
  define c :: Children where "c = [0 \<mapsto> \<lparr>ch_hash = h, ch_is_leaf = True\<rparr>]"
  define data where "data = 1 # 0 # 1 # 0 # h"
  have r: "read_u16_le data 0 = Inr 1" "read_u16_le data 2 = Inr 1" by (simp_all add: data_def read_u16_le_def)
  have b1: "bits_in (1 :: u16) = [0]" by code_simp
  have rc: "range_children c 0 16 = [0]" by (simp add: range_children_def c_def child_at_def upt_rec)
  have "\<forall>i \<in> set [0]. child_at c i \<noteq> None \<and> hash_value (hash_at c i)"
    using assms by (simp add: c_def child_at_def hash_at_def)
  moreover have "drop 4 data = concat (map (hash_at c) [0]) @ []"
    by (simp add: data_def c_def child_at_def hash_at_def)
  moreover have "bits_in (1 :: u16) = filter (leaf_at c) (range_children c 0 16)"
    unfolding rc b1 by (simp add: leaf_at_def child_at_def c_def)
  ultimately have des: "deserialize_children data 1 1 1 4 Map.empty =
      Inr (\<lambda>n. if n \<in> word_of_nat ` set [0] then c n else None, 0)"
    using deserialize_children_eq [OF b1, of 4 data c "[]" 1 Map.empty] by simp
  have "(\<lambda>n. if n \<in> word_of_nat ` set [0] then c n else None) = c" by (auto simp: c_def)
  with des r have "deserialize_internal data = smt_internal_new c"
    by (simp add: deserialize_internal_def count_ones_bits_in b1)
  also have "\<dots> = Inl (Panic ''assertion failed: !children.values().next().is_leaf'')"
    unfolding smt_internal_new_def children_iter_range rc
    by (simp add: expect_def assert_that_def child_at_def) (simp add: c_def)
  finally show ?thesis by (simp add: data_def)
qed

section \<open>Variable-length integers\<close>

lemma and_127: "b AND 127 = take_bit 7 b" for b :: "'a::len word"
proof -
  have m: "(127 :: 'a word) = mask 7" by (simp add: mask_eq_exp_minus_1)
  show ?thesis unfolding m by (simp add: take_bit_eq_mask)
qed

lemma varint_byte:
  fixes num :: u64
  defines "low \<equiv> (ucast num :: u8) AND 127"
  shows "(low OR push_bit 7 1) AND 127 = low" and "low AND 127 = low"
    and "(low OR push_bit 7 1) AND 128 \<noteq> 0" and "low AND 128 = 0" and "ucast low = take_bit 7 num"
proof -
  have b: "bit low i \<longleftrightarrow> i < 7 \<and> bit num i" for i
    by (auto simp: low_def and_127 bit_take_bit_iff bit_ucast_iff)
  have m: "(128 :: u8) = push_bit 7 1" by simp
  show "(low OR push_bit 7 1) AND 127 = low"
    unfolding and_127 by (rule bit_word_eqI) (auto simp: b bit_take_bit_iff bit_or_iff bit_push_bit_iff)
  show "low AND 127 = low" unfolding and_127 by (rule bit_word_eqI) (auto simp: b bit_take_bit_iff)
  show "(low OR push_bit 7 1) AND 128 \<noteq> 0"
    unfolding m by (subst and_single_bit) (simp_all add: bit_or_iff bit_push_bit_iff del: push_bit_of_1)
  show "low AND 128 = 0" using and_single_bit [of 7 low] b [of 7] unfolding m by simp
  show "ucast low = take_bit 7 num"
    by (rule bit_word_eqI) (auto simp: b bit_ucast_iff bit_take_bit_iff)
qed

lemma split_low_bits: "push_bit n m = push_bit n (take_bit 7 m) OR push_bit (n + 7) (drop_bit 7 m)" for m :: u64
proof (rule bit_word_eqI)
  fix i
  assume i: "i < LENGTH(64)"
  show "bit (push_bit n m) i \<longleftrightarrow> bit (push_bit n (take_bit 7 m) OR push_bit (n + 7) (drop_bit 7 m)) i"
  proof (cases "n + 7 \<le> i")
    case True
    then have "7 + (i - (n + 7)) = i - n" by simp
    with True i show ?thesis by (auto simp: bit_or_iff bit_push_bit_iff bit_take_bit_iff bit_drop_bit_eq)
  next
    case False
    with i show ?thesis by (auto simp: bit_or_iff bit_push_bit_iff bit_take_bit_iff)
  qed
qed

lemma ucast_byte: "unat m < 256 \<Longrightarrow> ucast (ucast m :: u8) = m" for m :: u64
proof -
  assume "unat m < 256"
  then have "take_bit 8 m = m" by (simp add: word_eq_iff_unat unsigned_take_bit_eq take_bit_nat_eq_self)
  then have "bit m i \<Longrightarrow> i < 8" for i by (metis bit_take_bit_iff)
  then show ?thesis by (intro bit_word_eqI) (auto simp: bit_ucast_iff)
qed

lemma varint_loop_eq:
  assumes "k \<le> 8" and "unat m < 2 ^ (8 + 7 * k)" and "k = 0 \<Longrightarrow> m \<noteq> 0"
  shows "\<exists>bs. varint_loop k m = Inr bs \<and>
    (\<forall>acc rest. read_varint_loop [8 - k..<8] acc (bs @ rest) = Inr (acc OR push_bit ((8 - k) * 7) m, rest))"
  using assms
proof (induction k arbitrary: m)
  case 0
  then have m: "m \<noteq> 0" "unat m < 256" by simp_all
  then have "m \<le> 255" by (simp add: word_le_nat_alt)
  with m show ?case by (simp add: assert_that_def read_u8_def ucast_byte)
next
  case (Suc k)
  define low where "low = (ucast m :: u8) AND 127"
  define m' where "m' = drop_bit 7 m"
  define n where "n = (8 - Suc k) * 7"
  note vb = varint_byte [of m, folded low_def]
  have up: "[8 - Suc k..<8] = (8 - Suc k) # [8 - k..<8]" "n + 7 = (8 - k) * 7"
    using Suc.prems(1) upt_conv_Cons [of "8 - Suc k" 8] by (simp_all add: n_def flip: Suc_diff_le)
  have sp: "push_bit n m = push_bit n (take_bit 7 m) OR push_bit ((8 - k) * 7) m'"
    using split_low_bits [of n m] by (simp add: up m'_def)
  show ?case
  proof (cases "m' = 0")
    case True
    then have "varint_loop (Suc k) m = Inr [low]" by (simp add: Let_def flip: low_def m'_def)
    moreover have "read_varint_loop [8 - Suc k..<8] acc ([low] @ rest) = Inr (acc OR push_bit n m, rest)" for acc rest
      unfolding up(1) using sp True by (simp add: read_u8_def vb Let_def n_def)
    ultimately show ?thesis unfolding n_def by blast
  next
    case False
    define byte where "byte = low OR push_bit 7 1"
    have "unat m' = unat m div 2 ^ 7" by (simp add: m'_def unat_drop_bit_eq) (simp add: drop_bit_eq_div)
    moreover have "unat m < 2 ^ (8 + 7 * k) * 2 ^ 7" using Suc.prems(2) by (simp add: power_add)
    ultimately have "unat m' < 2 ^ (8 + 7 * k)" by (simp only: less_mult_imp_div_less)
    with False Suc.IH [of m'] Suc.prems(1) obtain bs where bs: "varint_loop k m' = Inr bs"
      "\<And>acc rest. read_varint_loop [8 - k..<8] acc (bs @ rest) = Inr (acc OR push_bit ((8 - k) * 7) m', rest)"
      by auto
    have "0 < m'" using False by (simp add: word_gt_0)
    then have "varint_loop (Suc k) m = Inr (byte # bs)"
      using bs(1) by (simp add: Let_def byte_def flip: low_def m'_def)
    moreover have "read_varint_loop [8 - Suc k..<8] acc ((byte # bs) @ rest) = Inr (acc OR push_bit n m, rest)" for acc rest
    proof -
      have "read_varint_loop [8 - Suc k..<8] acc ((byte # bs) @ rest) =
          read_varint_loop [8 - k..<8] (acc OR push_bit n (take_bit 7 m)) (bs @ rest)"
        using vb(3) unfolding up(1) by (simp add: read_u8_def vb byte_def Let_def n_def del: push_bit_of_1)
      then show ?thesis by (simp add: bs(2) sp or.assoc)
    qed
    ultimately show ?thesis unfolding n_def by blast
  qed
qed

lemma varint_round_trip_eq:
  "\<exists>bs. serialize_u64_varint num binary = Inr (binary @ bs) \<and>
     deserialize_u64_varint (bs @ rest) = Inr (num, rest)"
  using varint_loop_eq [of 8 num] unsigned_less [of num]
  by (fastforce simp: serialize_u64_varint_def deserialize_u64_varint_def)

end
