(* ===== verification/Smt_Canonical.thy ===== *)
theory Smt_Canonical
  imports Smt_Codec Smt_Proof
begin

text \<open>
  The abstract state of a sparse Merkle tree is a finite map from key hashes to leaves. The tree of
  such a map is unique: \<open>canon\<close> is its node at a position with a number of nibbles left, \<open>nodes\<close>
  the set of all nodes below it. The lemmas show that internal nodes of canonical trees are valid,
  and that, where no two of the nodes share a hash, a node determines its map and its position.
\<close>

section \<open>Maps of leaves\<close>

type_synonym ('k, 'v) entries = "HashValue \<rightharpoonup> ('k, 'v) SmtLeafNode"

definition entries_ok :: "('k, 'v) smt_env \<Rightarrow> ('k, 'v) entries \<Rightarrow> bool" where
  "entries_ok env m \<longleftrightarrow> finite (dom m) \<and> (\<forall>h l. m h = Some l \<longrightarrow> hash_value h \<and> ln_key_hash env l = h)"

text \<open>The entries whose nibble at a depth is given.\<close>

definition sub :: "nat \<Rightarrow> Nibble \<Rightarrow> ('k, 'v) entries \<Rightarrow> ('k, 'v) entries" where
  "sub d n m = m |` {h. hash_nibbles h ! d = n}"

definition single :: "('k, 'v) entries \<Rightarrow> bool" where
  "single m \<longleftrightarrow> (\<exists>h l. m = [h \<mapsto> l])"

definition the_leaf :: "('k, 'v) entries \<Rightarrow> ('k, 'v) SmtLeafNode" where
  "the_leaf m = the (m (the_elem (dom m)))"

lemma the_leaf_single [simp]: "the_leaf [h \<mapsto> l] = l"
  by (simp add: the_leaf_def)

lemma single_upd [simp]: "single [h \<mapsto> l]"
  by (auto simp: single_def)

lemma not_single_empty [simp]: "\<not> single Map.empty"
  by (auto simp: single_def fun_eq_iff)

text \<open>
  A position with \<open>r\<close> nibbles left: the keys agree on the first \<open>64 - r\<close> nibbles.
\<close>

definition position_ok :: "('k, 'v) smt_env \<Rightarrow> nat \<Rightarrow> ('k, 'v) entries \<Rightarrow> bool" where
  "position_ok env r m \<longleftrightarrow> entries_ok env m \<and> r \<le> 64 \<and>
     (\<forall>g \<in> dom m. \<forall>h \<in> dom m. take (64 - r) (hash_nibbles g) = take (64 - r) (hash_nibbles h))"

lemma sub_apply: "sub d n m h = (if hash_nibbles h ! d = n then m h else None)"
  by (simp add: sub_def restrict_map_def)

lemma dom_sub: "dom (sub d n m) = {h \<in> dom m. hash_nibbles h ! d = n}"
  by (auto simp: sub_def)

lemma sub_le: "sub d n m \<subseteq>\<^sub>m m"
  by (auto simp: map_le_def sub_def restrict_map_def)

lemma sub_empty [simp]: "sub d n Map.empty = Map.empty"
  by (simp add: sub_def)

lemma sub_empty_iff: "sub d n m = Map.empty \<longleftrightarrow> (\<forall>h \<in> dom m. hash_nibbles h ! d \<noteq> n)"
  by (auto simp: fun_eq_iff sub_apply)

lemma sub_id: "(\<And>h. h \<in> dom m \<Longrightarrow> hash_nibbles h ! d = n) \<Longrightarrow> sub d n m = m"
  by (rule ext, case_tac "m x") (simp_all add: sub_apply domI)

lemma entries_ok_sub: "entries_ok env m \<Longrightarrow> entries_ok env (sub d n m)"
  by (auto simp: entries_ok_def dom_sub sub_apply split: if_splits)

lemma entries_ok_hash: "entries_ok env m \<Longrightarrow> h \<in> dom m \<Longrightarrow> hash_value h"
  by (auto simp: entries_ok_def)

lemma position_ok_entries: "position_ok env r m \<Longrightarrow> entries_ok env m"
  by (simp add: position_ok_def)

lemma position_ok_take:
  "position_ok env r m \<Longrightarrow> g \<in> dom m \<Longrightarrow> h \<in> dom m \<Longrightarrow>
   take (64 - r) (hash_nibbles g) = take (64 - r) (hash_nibbles h)"
  unfolding position_ok_def by blast

lemma position_ok_length: "position_ok env r m \<Longrightarrow> h \<in> dom m \<Longrightarrow> length (hash_nibbles h) = 64"
  by (rule length_hash_nibbles) (rule entries_ok_hash [OF position_ok_entries])

lemma position_ok_sub:
  assumes "position_ok env (Suc r) m"
  shows "position_ok env r (sub (63 - r) n m)"
proof -
  have r: "64 - r = Suc (63 - r)" "64 - Suc r = 63 - r" "63 - r < 64" using assms by (auto simp: position_ok_def)
  have "take (64 - r) (hash_nibbles g) = take (64 - r) (hash_nibbles h)"
    if "g \<in> dom (sub (63 - r) n m)" "h \<in> dom (sub (63 - r) n m)" for g h
  proof -
    from that have gh: "g \<in> dom m" "h \<in> dom m" "hash_nibbles g ! (63 - r) = hash_nibbles h ! (63 - r)"
      by (auto simp: dom_sub)
    have t: "take (63 - r) (hash_nibbles g) = take (63 - r) (hash_nibbles h)"
      using position_ok_take [OF assms gh(1,2)] unfolding r(2) .
    show ?thesis
      unfolding r(1) using t gh(3) r(3) position_ok_length [OF assms gh(1)] position_ok_length [OF assms gh(2)]
      by (simp add: take_Suc_conv_app_nth)
  qed
  moreover have "entries_ok env (sub (63 - r) n m)" "r \<le> 64"
    using assms by (simp_all add: position_ok_def entries_ok_sub)
  ultimately show ?thesis unfolding position_ok_def by blast
qed

lemma single_iff:
  assumes "h \<in> dom m"
  shows "single m \<longleftrightarrow> (\<forall>g \<in> dom m. g = h)"
proof
  assume "single m"
  with assms show "\<forall>g \<in> dom m. g = h" by (auto simp: single_def split: if_splits)
next
  assume all: "\<forall>g \<in> dom m. g = h"
  from assms obtain l where "m h = Some l" by blast
  with all have "m = [h \<mapsto> l]" by (auto simp: fun_eq_iff dom_def)
  then show "single m" by simp
qed

lemma position_ok_0_single:
  assumes "position_ok env 0 m" and "m \<noteq> Map.empty"
  shows "single m"
proof -
  from assms(2) obtain h where h: "h \<in> dom m" by fastforce
  have "g = h" if g: "g \<in> dom m" for g
  proof (rule hash_nibbles_inject)
    show "hash_value g" "hash_value h" using entries_ok_hash [OF position_ok_entries [OF assms(1)]] g h by blast+
    show "hash_nibbles g = hash_nibbles h"
      using position_ok_take [OF assms(1) g h] position_ok_length [OF assms(1) g] position_ok_length [OF assms(1) h] by simp
  qed
  with h show ?thesis by (simp add: single_iff)
qed

lemma single_leaf:
  assumes "entries_ok env m" and "single m"
  shows "m = [ln_key_hash env (the_leaf m) \<mapsto> the_leaf m]"
proof -
  from assms(2) obtain h l where m: "m = [h \<mapsto> l]" by (auto simp: single_def)
  with assms(1) have "ln_key_hash env l = h" by (simp add: entries_ok_def)
  with m show ?thesis by simp
qed

section \<open>The canonical tree\<close>

fun nhash :: "('k, 'v) smt_env \<Rightarrow> ('k, 'v) SmtNode \<Rightarrow> HashValue" where
  "nhash env Null = SPARSE_MERKLE_PLACEHOLDER_HASH"
| "nhash env (Internal_Node node) = range_hash (env_digest env) (in_children node) 0 4"
| "nhash env (Leaf_Node leaf) = smt_leaf_hash env leaf"

lemma node_merkle_hash_eq [simp]: "node_merkle_hash env node = Inr (nhash env node)"
  by (cases node) (simp_all add: smt_internal_hash_eq)

primrec canon :: "('k, 'v) smt_env \<Rightarrow> nat \<Rightarrow> ('k, 'v) entries \<Rightarrow> ('k, 'v) SmtNode" where
  "canon env 0 m = (if m = Map.empty then Null else Leaf_Node (the_leaf m))"
| "canon env (Suc r) m =
     (if m = Map.empty then Null
      else if single m then Leaf_Node (the_leaf m)
      else Internal_Node \<lparr>in_children = (\<lambda>n.
        let s = sub (63 - r) n m in
        if s = Map.empty then None
        else Some \<lparr>ch_hash = nhash env (canon env r s), ch_is_leaf = single s\<rparr>)\<rparr>)"

definition canon_children :: "('k, 'v) smt_env \<Rightarrow> nat \<Rightarrow> ('k, 'v) entries \<Rightarrow> Children" where
  "canon_children env r m = (\<lambda>n.
     let s = sub (63 - r) n m in
     if s = Map.empty then None
     else Some \<lparr>ch_hash = nhash env (canon env r s), ch_is_leaf = single s\<rparr>)"

lemma canon_Suc:
  "canon env (Suc r) m =
     (if m = Map.empty then Null
      else if single m then Leaf_Node (the_leaf m)
      else Internal_Node \<lparr>in_children = canon_children env r m\<rparr>)"
  by (simp add: canon_children_def)

declare canon.simps(2) [simp del]

lemma canon_empty [simp]: "canon env r Map.empty = Null"
  by (cases r) (simp_all add: canon_Suc)

lemma canon_single [simp]: "single m \<Longrightarrow> canon env r m = Leaf_Node (the_leaf m)"
  by (cases r) (auto simp: canon_Suc)

lemma canon_branch:
  "m \<noteq> Map.empty \<Longrightarrow> \<not> single m \<Longrightarrow> canon env (Suc r) m = Internal_Node \<lparr>in_children = canon_children env r m\<rparr>"
  by (simp add: canon_Suc)

lemma canon_Null_iff: "canon env r m = Null \<longleftrightarrow> m = Map.empty"
  by (cases r) (auto simp: canon_Suc)

lemma node_is_leaf_canon: "position_ok env r m \<Longrightarrow> node_is_leaf (canon env r m) \<longleftrightarrow> single m"
  by (cases r) (auto simp: canon_Suc dest: position_ok_0_single)

lemma canon_children_apply:
  "canon_children env r m n =
     (if sub (63 - r) n m = Map.empty then None
      else Some \<lparr>ch_hash = nhash env (canon env r (sub (63 - r) n m)), ch_is_leaf = single (sub (63 - r) n m)\<rparr>)"
  by (simp add: canon_children_def Let_def)

lemma canon_children_ok:
  assumes "position_ok env (Suc r) m"
  shows "children_ok (canon_children env r m)"
  unfolding children_ok_def
proof (intro allI impI)
  fix n
  assume "canon_children env r m n \<noteq> None"
  then obtain h where h: "h \<in> dom m" "hash_nibbles h ! (63 - r) = n"
    by (auto simp: canon_children_apply sub_empty_iff split: if_splits)
  have "length (hash_nibbles h) = 64"
    using entries_ok_hash [OF position_ok_entries [OF assms] h(1)] by (rule length_hash_nibbles)
  then have "n \<in> set (hash_nibbles h)" using h(2) nth_mem [of "63 - r" "hash_nibbles h"] by simp
  then show "n < 16" by (rule hash_nibbles_less)
qed

text \<open>Where the map has two keys, its children branch.\<close>

lemma range_children_16: "i \<in> set (range_children c 0 16) \<longleftrightarrow> i < 16 \<and> child_at c i \<noteq> None"
  by (auto simp: range_children_def)

lemma canon_branching:
  assumes "position_ok env (Suc r) m" and "m \<noteq> Map.empty" and "\<not> single m"
  shows "branching (canon_children env r m) 0 4"
proof -
  let ?c = "canon_children env r m" and ?d = "63 - r"
  have nib: "unat (hash_nibbles h ! ?d) < 16 \<and> child_at ?c (unat (hash_nibbles h ! ?d)) \<noteq> None" if "h \<in> dom m" for h
  proof -
    have "?c (hash_nibbles h ! ?d) \<noteq> None" using that by (auto simp: canon_children_apply sub_empty_iff)
    moreover from this have "hash_nibbles h ! ?d < 16" using canon_children_ok [OF assms(1)] by (auto simp: children_ok_def)
    ultimately show ?thesis by (simp add: child_at_def word_less_nat_alt)
  qed
  obtain h where h: "h \<in> dom m" using assms(2) by fastforce
  show ?thesis
  proof (cases "range_children ?c 0 16")
    case Nil
    then show ?thesis using nib [OF h] range_children_16 [of "unat (hash_nibbles h ! ?d)" ?c] by simp
  next
    case (Cons i js)
    show ?thesis
    proof (cases "js = []")
      case True
      have "sub ?d (hash_nibbles h ! ?d) m = m"
      proof (rule sub_id)
        fix g
        assume "g \<in> dom m"
        then have "unat (hash_nibbles g ! ?d) = i" "unat (hash_nibbles h ! ?d) = i"
          using nib h Cons True range_children_16 [of _ ?c] by auto
        then show "hash_nibbles g ! ?d = hash_nibbles h ! ?d" by (simp add: word_eq_iff_unat)
      qed
      moreover have "unat (hash_nibbles h ! ?d) = i" using nib [OF h] Cons True range_children_16 [of _ ?c] by auto
      ultimately have "\<not> leaf_at ?c i"
        using assms(3) by (auto simp: leaf_at_def child_at_def canon_children_apply split: option.splits)
      with Cons show ?thesis by (simp add: branching_def)
    next
      case False
      with Cons show ?thesis by (simp add: branching_def)
    qed
  qed
qed

section \<open>The nodes of a canonical tree\<close>

primrec nodes :: "('k, 'v) smt_env \<Rightarrow> nat \<Rightarrow> ('k, 'v) entries \<Rightarrow> ('k, 'v) SmtNode set" where
  "nodes env 0 m = (if m = Map.empty then {} else {canon env 0 m})"
| "nodes env (Suc r) m =
     (if m = Map.empty then {}
      else insert (canon env (Suc r) m) (if single m then {} else (\<Union>n. nodes env r (sub (63 - r) n m))))"

lemma nodes_empty [simp]: "nodes env r Map.empty = {}"
  by (cases r) simp_all

lemma nodes_single [simp]: "single m \<Longrightarrow> nodes env r m = {Leaf_Node (the_leaf m)}"
  by (cases r) (auto split: if_splits)

lemma nodes_branch:
  "m \<noteq> Map.empty \<Longrightarrow> \<not> single m \<Longrightarrow>
   nodes env (Suc r) m = insert (canon env (Suc r) m) (\<Union>n. nodes env r (sub (63 - r) n m))"
  by simp

declare nodes.simps(2) [simp del]

lemma canon_in_nodes: "m \<noteq> Map.empty \<Longrightarrow> canon env r m \<in> nodes env r m"
  by (cases r) (simp_all add: nodes.simps)

lemma Null_notin_nodes: "Null \<notin> nodes env r m"
proof (induction r arbitrary: m)
  case (Suc r)
  then show ?case by (auto simp: nodes.simps canon_Suc)
qed auto

lemma nodes_sub: "\<not> single m \<Longrightarrow> nodes env r (sub (63 - r) n m) \<subseteq> nodes env (Suc r) m"
  by (cases "m = Map.empty") (auto simp: nodes.simps)

text \<open>Every node of a tree is the canonical node of a part of the map at a lower position.\<close>

lemma nodes_canon:
  assumes "position_ok env r m" and "N \<in> nodes env r m"
  shows "\<exists>q s. q \<le> r \<and> position_ok env q s \<and> s \<noteq> Map.empty \<and> s \<subseteq>\<^sub>m m \<and> N = canon env q s \<and>
    nodes env q s \<subseteq> nodes env r m \<and> (q = r \<longrightarrow> s = m)"
  using assms
proof (induction r arbitrary: m)
  case 0
  then show ?case by (intro exI [of _ 0] exI [of _ m]) (auto split: if_splits)
next
  case (Suc r)
  have ne: "m \<noteq> Map.empty" using Suc.prems(2) by auto
  show ?case
  proof (cases "N = canon env (Suc r) m")
    case True
    with Suc.prems ne show ?thesis by (intro exI [of _ "Suc r"] exI [of _ m]) auto
  next
    case False
    with Suc.prems(2) ne have ns: "\<not> single m" and "\<exists>n. N \<in> nodes env r (sub (63 - r) n m)"
      by (auto simp: nodes.simps split: if_splits)
    then obtain n where n: "N \<in> nodes env r (sub (63 - r) n m)" by blast
    obtain q s where q: "q \<le> r" "position_ok env q s" "s \<noteq> Map.empty" "s \<subseteq>\<^sub>m sub (63 - r) n m" "N = canon env q s"
        "nodes env q s \<subseteq> nodes env r (sub (63 - r) n m)"
      using Suc.IH [OF position_ok_sub [OF Suc.prems(1)] n] by blast
    have "s \<subseteq>\<^sub>m m" using q(4) sub_le by (rule map_le_trans)
    moreover have "nodes env q s \<subseteq> nodes env (Suc r) m" using q(6) nodes_sub [OF ns] by blast
    ultimately show ?thesis using q by (intro exI [of _ q] exI [of _ s]) auto
  qed
qed

section \<open>Nodes without hash collisions\<close>

text \<open>No two of these nodes share a hash, and none has the placeholder hash.\<close>

definition hash_free :: "('k, 'v) smt_env \<Rightarrow> ('k, 'v) SmtNode set \<Rightarrow> bool" where
  "hash_free env Ns \<longleftrightarrow> inj_on (nhash env) Ns \<and> SPARSE_MERKLE_PLACEHOLDER_HASH \<notin> nhash env ` Ns"

lemma hash_free_subset: "hash_free env Ns \<Longrightarrow> Ms \<subseteq> Ns \<Longrightarrow> hash_free env Ms"
  by (auto simp: hash_free_def intro: inj_on_subset)

lemma hash_free_eq: "hash_free env Ns \<Longrightarrow> N \<in> Ns \<Longrightarrow> M \<in> Ns \<Longrightarrow> nhash env N = nhash env M \<longleftrightarrow> N = M"
  by (auto simp: hash_free_def inj_on_def)

lemma sub_all_eqI:
  assumes "\<And>n. sub d n s = sub e n t"
  shows "s = t"
proof (rule ext)
  fix h
  have "s h = None \<or> s h = t h"
    using fun_cong [OF assms [of "hash_nibbles h ! d"], of h] by (simp add: sub_apply split: if_splits)
  moreover have "t h = None \<or> s h = t h"
    using fun_cong [OF assms [of "hash_nibbles h ! e"], of h] by (simp add: sub_apply split: if_splits)
  ultimately show "s h = t h" by auto
qed

lemma sub_shared:
  assumes "position_ok env (Suc r) m" and "h \<in> dom m" and "d < 63 - r"
  shows "sub d (hash_nibbles h ! d) m = m"
proof (rule sub_id)
  fix g
  assume "g \<in> dom m"
  then have "take (64 - Suc r) (hash_nibbles g) = take (64 - Suc r) (hash_nibbles h)"
    using assms(1,2) by (blast intro: position_ok_take)
  then have "take (63 - r) (hash_nibbles g) ! d = take (63 - r) (hash_nibbles h) ! d" by simp
  then show "hash_nibbles g ! d = hash_nibbles h ! d" using assms(3) by simp
qed

lemma canon_inject:
  assumes "hash_free env Ns"
  shows "position_ok env r s \<Longrightarrow> position_ok env q t \<Longrightarrow> nodes env r s \<subseteq> Ns \<Longrightarrow> nodes env q t \<subseteq> Ns \<Longrightarrow>
    s \<noteq> Map.empty \<Longrightarrow> t \<noteq> Map.empty \<Longrightarrow> canon env r s = canon env q t \<Longrightarrow> s = t \<and> (r = q \<or> single s)"
proof (induction r arbitrary: q s t rule: less_induct)
  case (less r)
  have ls: "node_is_leaf (canon env r s) = single s" and lt: "node_is_leaf (canon env q t) = single t"
    using less.prems(1,2) by (simp_all add: node_is_leaf_canon)
  show ?case
  proof (cases "single s")
    case True
    then have "single t" using ls lt less.prems(7) by simp
    then have "the_leaf s = the_leaf t" using True less.prems(7) by simp
    with True \<open>single t\<close> show ?thesis
      using single_leaf [of env s] single_leaf [of env t] less.prems(1,2) by (simp add: position_ok_entries)
  next
    case False
    then have "\<not> single t" using ls lt less.prems(7) by simp
    obtain a where r: "r = Suc a" using False less.prems(1,5) by (cases r) (auto dest: position_ok_0_single)
    obtain b where q: "q = Suc b" using \<open>\<not> single t\<close> less.prems(2,6) by (cases q) (auto dest: position_ok_0_single)
    have ch: "canon_children env a s = canon_children env b t"
      using less.prems(5-7) False \<open>\<not> single t\<close> by (simp add: r q canon_branch)
    have eq: "sub (63 - a) n s = sub (63 - b) n t \<and> (sub (63 - a) n s \<noteq> Map.empty \<longrightarrow> a = b \<or> single (sub (63 - a) n s))" for n
    proof (cases "sub (63 - a) n s = Map.empty")
      case True
      then show ?thesis using fun_cong [OF ch, of n] by (auto simp: canon_children_apply split: if_splits)
    next
      case ne: False
      then have nt: "sub (63 - b) n t \<noteq> Map.empty"
        and h: "nhash env (canon env a (sub (63 - a) n s)) = nhash env (canon env b (sub (63 - b) n t))"
        using fun_cong [OF ch, of n] by (auto simp: canon_children_apply split: if_splits)
      have sub: "nodes env a (sub (63 - a) n s) \<subseteq> Ns" "nodes env b (sub (63 - b) n t) \<subseteq> Ns"
        using nodes_sub [OF False, of env a n] nodes_sub [OF \<open>\<not> single t\<close>, of env b n] less.prems(3,4) r q by auto
      then have "canon env a (sub (63 - a) n s) = canon env b (sub (63 - b) n t)"
        using hash_free_eq [OF assms] h canon_in_nodes [OF ne, of env a] canon_in_nodes [OF nt, of env b] by blast
      with less.IH [OF _ _ _ sub ne nt] position_ok_sub [of env a s n] position_ok_sub [of env b t n] less.prems(1,2) r q
      show ?thesis by auto
    qed
    note parts = conjunct1 [OF eq]
    have st: "s = t" by (rule sub_all_eqI) (rule parts)
    obtain h where h: "h \<in> dom s" using less.prems(5) by fastforce
    have "a = b"
    proof (rule ccontr)
      assume "a \<noteq> b"
      moreover have "a \<le> 63" "b \<le> 63" using less.prems(1,2) r q by (auto simp: position_ok_def)
      ultimately consider "63 - a < 63 - b" | "63 - b < 63 - a" by linarith
      then show False
      proof cases
        case 1
        then have "sub (63 - a) (hash_nibbles h ! (63 - a)) s = s"
          using sub_shared [of env b t h] less.prems(2) q h st by simp
        with eq [of "hash_nibbles h ! (63 - a)"] \<open>a \<noteq> b\<close> False less.prems(5) show False by simp
      next
        case 2
        then have "sub (63 - b) (hash_nibbles h ! (63 - b)) t = t"
          using sub_shared [of env a s h] less.prems(1) r h st by simp
        moreover have "sub (63 - a) (hash_nibbles h ! (63 - b)) s = sub (63 - b) (hash_nibbles h ! (63 - b)) t"
          by (rule parts)
        ultimately have e: "sub (63 - a) (hash_nibbles h ! (63 - b)) s = s" using st by simp
        show False using conjunct2 [OF eq [of "hash_nibbles h ! (63 - b)"]] \<open>a \<noteq> b\<close> False less.prems(5) unfolding e by blast
      qed
    qed
    with st r q show ?thesis by simp
  qed
qed

end
