(* ===== verification/Jellyfish_Read.thy ===== *)
theory Jellyfish_Read
  imports Jellyfish_Merkle Smt_Canonical
begin

text \<open>
  The read path on a reader that holds the canonical tree of a map: \<^verbatim>\<open>get_with_proof\<close> returns
  the entry of the key and a proof that \<^verbatim>\<open>verify\<close> accepts against the root hash.
\<close>

definition stored ::
    "('k, 'v) smt_env \<Rightarrow> (NodeKey \<Rightarrow> ('k, 'v) SmtNode result) \<Rightarrow> nat \<Rightarrow> ('k, 'v) entries \<Rightarrow> bool" where
  "stored env get r m \<longleftrightarrow> (\<forall>N \<in> nodes env r m. get (nhash env N) = Inr N)"

lemma stored_node: "stored env get r m \<Longrightarrow> m \<noteq> Map.empty \<Longrightarrow> get (nhash env (canon env r m)) = Inr (canon env r m)"
  by (simp add: stored_def canon_in_nodes)

lemma stored_sub: "stored env get (Suc r) m \<Longrightarrow> \<not> single m \<Longrightarrow> stored env get r (sub (63 - r) n m)"
  using nodes_sub [of m env r n] by (auto simp: stored_def)

text \<open>The bits of a nibble of the key are a segment of the bits of the key.\<close>

lemma nibble_low_bits:
  assumes "hash_value h" and "d < 64"
  shows "drop (4 * d) (iter_bits h) = low_bits (unat (hash_nibbles h ! d)) 4 @ drop (4 * Suc d) (iter_bits h)"
proof (rule nth_equalityI)
  have d: "4 * d + 4 \<le> 256" using assms(2) by simp
  then show "length (drop (4 * d) (iter_bits h)) =
      length (low_bits (unat (hash_nibbles h ! d)) 4 @ drop (4 * Suc d) (iter_bits h))" by simp
  fix i
  assume i: "i < length (drop (4 * d) (iter_bits h))"
  show "drop (4 * d) (iter_bits h) ! i = (low_bits (unat (hash_nibbles h ! d)) 4 @ drop (4 * Suc d) (iter_bits h)) ! i"
  proof (cases "i < 4")
    case True
    have "low_bits (unat (hash_nibbles h ! d)) 4 ! i = bit (hash_nibbles h ! d) (3 - i)"
    proof -
      have "low_bits (unat (hash_nibbles h ! d)) 4 ! i = odd (unat (hash_nibbles h ! d) div 2 ^ (3 - i))"
        using True by (simp add: low_bits_def rev_nth)
      also have "\<dots> = bit (unat (hash_nibbles h ! d)) (3 - i)" by (simp add: bit_iff_odd)
      finally show ?thesis by (simp add: bit_unsigned_iff)
    qed
    with True i assms d show ?thesis by (simp add: nth_append nth_iter_bits bit_hash_nibbles)
  next
    case False
    with i d show ?thesis by (simp add: nth_append nth_iter_bits)
  qed
qed

lemma take_bits_nibbles:
  assumes "hash_value g" and "hash_value h" and "d \<le> 64" and "take d (hash_nibbles g) = take d (hash_nibbles h)"
  shows "take (4 * d) (iter_bits g) = take (4 * d) (iter_bits h)"
proof (rule nth_equalityI)
  fix i
  assume "i < length (take (4 * d) (iter_bits g))"
  then have i: "i < 4 * d" "i < 256" "i div 4 < d" "i div 4 < 64" using assms(3) by auto
  have j: "3 - (3 - i mod 4) = i mod 4" "i mod 4 < 4" "4 * (i div 4) + i mod 4 = i" by simp_all
  have "hash_nibbles g ! (i div 4) = hash_nibbles h ! (i div 4)"
    using arg_cong [OF assms(4), of "\<lambda>xs. xs ! (i div 4)"] i(3) by simp
  then have "hv_get_bit g i = hv_get_bit h i"
    using bit_hash_nibbles [OF assms(1) i(4) j(2)] bit_hash_nibbles [OF assms(2) i(4) j(2)] unfolding j(3) by simp
  with i show "take (4 * d) (iter_bits g) ! i = take (4 * d) (iter_bits h) ! i" by (simp add: nth_iter_bits)
qed simp

lemma low_bits_prefix:
  assumes "k \<le> 4" and "i div 2 ^ (4 - k) = n div 2 ^ (4 - k)"
  shows "take k (low_bits i 4) = take k (low_bits n 4)"
proof (rule nth_equalityI)
  fix j
  assume "j < length (take k (low_bits i 4))"
  then have j: "j < k" using assms(1) by simp
  have "x div 2 ^ (3 - j) = x div 2 ^ (4 - k) div 2 ^ (k - 1 - j)" for x :: nat
  proof -
    have "3 - j = (4 - k) + (k - 1 - j)" using j assms(1) by simp
    then show ?thesis by (simp add: power_add div_mult2_eq)
  qed
  then have "i div 2 ^ (3 - j) = n div 2 ^ (3 - j)" using assms(2) by simp
  with j assms(1) show "take k (low_bits i 4) ! j = take k (low_bits n 4) ! j"
    by (simp add: low_bits_def rev_nth)
qed simp

lemma take_bits_fork:
  assumes "hash_value g" and "hash_value h" and "d < 64" and "take d (hash_nibbles g) = take d (hash_nibbles h)"
    and "k \<le> 4" and "unat (hash_nibbles g ! d) div 2 ^ (4 - k) = unat (hash_nibbles h ! d) div 2 ^ (4 - k)"
  shows "take (4 * d + k) (iter_bits g) = take (4 * d + k) (iter_bits h)"
proof -
  have t: "take (4 * d + k) (iter_bits f) = take (4 * d) (iter_bits f) @ take k (low_bits (unat (hash_nibbles f ! d)) 4)"
    if "hash_value f" for f
    unfolding take_add nibble_low_bits [OF that assms(3)] using assms(5) by simp
  show ?thesis
    unfolding t [OF assms(1)] t [OF assms(2)]
    using take_bits_nibbles [OF assms(1,2) _ assms(4)] low_bits_prefix [OF assms(5,6)] assms(3) by simp
qed

text \<open>Descending from the top of an internal node.\<close>

lemma Suc_3: "Suc 3 = 4"
  by simp

lemmas descend_child_4 = descend_child [of _ 3, unfolded Suc_3]

lemma descend_climb_4:
  assumes "n < 16" and "branching c 0 4"
  shows "climb digest (low_bits n 4) (snd (descend digest c n 4)) (start_hash (fst (descend digest c n 4))) =
    range_hash digest c 0 4"
proof -
  have "block n 4 = 0" using assms(1) by (simp add: block_def)
  with descend_climb [of n 3 c digest, unfolded Suc_3] assms show ?thesis by simp
qed

text \<open>The iterator of a key after some nibbles.\<close>

lemma key_iter_advance:
  assumes "hash_value h" and "d \<le> 64"
  shows "ni_wf (ni_advance d (key_iter h))" and "ni_rest (ni_advance d (key_iter h)) = drop d (hash_nibbles h)"
    and "ni_seen (ni_advance d (key_iter h)) = take d (hash_nibbles h)"
  using ni_advance_wf [OF key_iter_eq(2) [OF assms(1)], of d] assms
  by (simp_all add: key_iter_eq length_hash_nibbles)

lemma key_iter_next:
  assumes "hash_value h" and "d < 64"
  shows "ni_next (ni_advance d (key_iter h)) = Inr (Some (hash_nibbles h ! d), ni_advance (Suc d) (key_iter h))"
proof -
  have "drop d (hash_nibbles h) = hash_nibbles h ! d # drop (Suc d) (hash_nibbles h)"
    using assms by (simp add: Cons_nth_drop_Suc length_hash_nibbles)
  then have "ni_next (ni_advance d (key_iter h)) =
      Inr (Some (hash_nibbles h ! d), (ni_advance d (key_iter h))\<lparr>ni_pos := ni_pos (ni_advance d (key_iter h)) + 1\<rparr>)"
    using assms by (simp add: ni_next_eq key_iter_advance)
  then show ?thesis by (simp add: ni_advance_def)
qed

section \<open>The loop of \<^verbatim>\<open>get_with_proof\<close>\<close>

definition read_result ::
    "('k, 'v) smt_env \<Rightarrow> HashValue \<Rightarrow> nat \<Rightarrow> ('k, 'v) entries \<Rightarrow> (HashValue \<times> HashValue) option \<Rightarrow> HashValue list \<Rightarrow> HashValue \<Rightarrow> bool" where
  "read_result env kh d m leaf new root \<longleftrightarrow>
     4 * d + length new \<le> 256 \<and>
     climb (env_digest env) (drop (4 * d) (iter_bits kh)) new (sparse_leaf_hash (env_digest env) leaf) = root \<and>
     (case m kh of
        Some l \<Rightarrow> leaf = Some (kh, ln_value_hash env l)
      | None \<Rightarrow> (\<forall>k vh. leaf = Some (k, vh) \<longrightarrow>
          hash_value k \<and> k \<noteq> kh \<and> take (4 * d + length new) (iter_bits k) = take (4 * d + length new) (iter_bits kh)))"

lemma read_leaf:
  assumes "reader_get_node reader node_key = Inr (Leaf_Node l)"
  shows "get_with_proof_loop env reader key (d # ds) node_key it sibs =
    Inr (if ln_key_hash env l = key_merkle_hash env key then Some (ln_value l) else None,
         sparse_proof_new (Some (ln_key_hash env l, ln_value_hash env l)) (rev sibs))"
  using assms by simp

lemma hash_at_canon:
  "i < 16 \<Longrightarrow> child_at (canon_children env r m) i \<noteq> None \<Longrightarrow>
   sub (63 - r) (word_of_nat i) m \<noteq> Map.empty \<and>
   hash_at (canon_children env r m) i = nhash env (canon env r (sub (63 - r) (word_of_nat i) m)) \<and>
   leaf_at (canon_children env r m) i = single (sub (63 - r) (word_of_nat i) m)"
  by (auto simp: child_at_def hash_at_def leaf_at_def canon_children_apply split: if_splits option.splits)

lemma get_with_proof_loop_eq:
  assumes "hash_value (key_merkle_hash env key)"
  shows "position_ok env r m \<Longrightarrow> m \<noteq> Map.empty \<Longrightarrow> stored env (reader_get_node reader) r m \<Longrightarrow>
    \<forall>h \<in> dom m. take (64 - r) (hash_nibbles h) = take (64 - r) (hash_nibbles (key_merkle_hash env key)) \<Longrightarrow>
    \<exists>leaf new. get_with_proof_loop env reader key [64 - r..<65] (nhash env (canon env r m))
        (ni_advance (64 - r) (key_iter (key_merkle_hash env key))) sibs =
      Inr (map_option ln_value (m (key_merkle_hash env key)), sparse_proof_new leaf (rev (sibs @ new))) \<and>
      read_result env (key_merkle_hash env key) (64 - r) m leaf new (nhash env (canon env r m))"
proof (induction r arbitrary: m sibs rule: less_induct)
  case (less r)
  let ?kh = "key_merkle_hash env key" and ?D = "env_digest env"
  note hv = assms
  note sn = stored_node [OF less.prems(3,2)]
  have r64: "r \<le> 64" using less.prems(1) by (simp add: position_ok_def)
  then have ds: "[64 - r..<65] = (64 - r) # [Suc (64 - r)..<65]" by (simp add: upt_conv_Cons)
  show ?case
  proof (cases "single m")
    case True
    let ?l = "the_leaf m" and ?k = "ln_key_hash env (the_leaf m)"
    have m: "m = [?k \<mapsto> ?l]" using single_leaf True less.prems(1) position_ok_entries by blast
    have k: "hash_value ?k" "take (64 - r) (hash_nibbles ?k) = take (64 - r) (hash_nibbles ?kh)"
      using m less.prems(1,4) entries_ok_hash [OF position_ok_entries [OF less.prems(1)], of ?k] by (metis domI fun_upd_same)+
    have mk: "m ?kh = (if ?k = ?kh then Some ?l else None)" by (subst m) simp
    have "get_with_proof_loop env reader key [64 - r..<65] (nhash env (canon env r m))
        (ni_advance (64 - r) (key_iter ?kh)) sibs =
      Inr (map_option ln_value (m ?kh), sparse_proof_new (Some (?k, ln_value_hash env ?l)) (rev (sibs @ [])))"
      unfolding ds using read_leaf [of reader "nhash env (canon env r m)" ?l] sn True mk by simp
    moreover have "read_result env ?kh (64 - r) m (Some (?k, ln_value_hash env ?l)) [] (nhash env (canon env r m))"
      using True k hv r64 take_bits_nibbles [OF k(1) hv _ k(2)] mk
      by (auto simp: read_result_def sparse_leaf_hash_def smt_leaf_hash_def)
    ultimately show ?thesis by blast
  next
    case False
    then obtain q where r: "r = Suc q" using less.prems(1,2) by (cases r) (auto dest: position_ok_0_single)
    define d where "d = 63 - q"
    have d: "64 - r = d" "64 - q = Suc d" "d < 64" "4 * d + 4 * r = 256" using r64 by (auto simp: r d_def)
    let ?n = "hash_nibbles ?kh ! d" and ?c = "canon_children env q m"
    have n16: "?n < 16" using hash_nibbles_less nth_mem d(3) length_hash_nibbles [OF hv] by metis
    obtain res ss where ds4: "descend ?D ?c (unat ?n) 4 = (res, ss)" by fastforce
    have can: "canon env r m = Internal_Node \<lparr>in_children = ?c\<rparr>" unfolding r by (rule canon_branch [OF less.prems(2) False])
    have step: "get_with_proof_loop env reader key [64 - r..<65] (nhash env (canon env r m)) (ni_advance d (key_iter ?kh)) sibs =
        (case res of
           Some node_key \<Rightarrow> get_with_proof_loop env reader key [Suc d..<65] node_key (ni_advance (Suc d) (key_iter ?kh)) (sibs @ ss)
         | None \<Rightarrow> Inr (None, sparse_proof_new None (rev (sibs @ ss))))"
      unfolding ds unfolding d(1) using sn can key_iter_next [OF hv d(3)] get_child_with_siblings_eq [OF n16] ds4
      by (simp add: ok_or_def Let_def split: option.split)
    have n16': "unat ?n < 16" using n16 by (simp add: word_less_nat_alt)
    have br: "branching ?c 0 4" using canon_branching less.prems(1,2) False r by blast
    have cl: "climb ?D (low_bits (unat ?n) 4) ss (start_hash res) = nhash env (canon env r m)"
      using descend_climb_4 [OF n16' br, of ?D] ds4 can by simp
    have dc: "0 < length ss \<and> length ss \<le> 4 \<and>
      (case res of
         None \<Rightarrow> child_at ?c (unat ?n) = None
       | Some x \<Rightarrow> \<exists>i < 16. child_at ?c i \<noteq> None \<and> x = hash_at ?c i \<and>
         i div 2 ^ (4 - length ss) = unat ?n div 2 ^ (4 - length ss) \<and>
         (child_at ?c (unat ?n) \<noteq> None \<longrightarrow> i = unat ?n) \<and> (leaf_at ?c i \<or> i = unat ?n \<and> length ss = 4))"
      using descend_child_4 [OF n16' _ ds4] by simp
    have bits: "drop (4 * d) (iter_bits ?kh) = low_bits (unat ?n) 4 @ drop (4 * Suc d) (iter_bits ?kh)"
      by (rule nibble_low_bits [OF hv d(3)])
    have cl': "climb ?D (drop (4 * d) (iter_bits ?kh)) ss (start_hash res) = nhash env (canon env r m)"
      using climb_take [of ss 4 ?D "drop (4 * d) (iter_bits ?kh)"] dc cl bits by simp
    have none: "m ?kh = None" if "child_at ?c (unat ?n) = None"
    proof -
      have "sub d ?n m = Map.empty" using that by (auto simp: child_at_def canon_children_apply d_def split: if_splits)
      then show ?thesis by (auto simp: sub_empty_iff)
    qed
    show ?thesis
    proof (cases res)
      case None
      then have "m ?kh = None" using dc none by simp
      moreover from this have "read_result env ?kh d m None ss (nhash env (canon env r m))"
        using cl' None dc d(3) by (simp add: read_result_def sparse_leaf_hash_def start_hash_def)
      ultimately show ?thesis using step None unfolding d(1) by auto
    next
      case (Some x)
      obtain i where i: "i < 16" "child_at ?c i \<noteq> None" "x = hash_at ?c i"
          "i div 2 ^ (4 - length ss) = unat ?n div 2 ^ (4 - length ss)"
          "child_at ?c (unat ?n) \<noteq> None \<longrightarrow> i = unat ?n" "leaf_at ?c i \<or> i = unat ?n \<and> length ss = 4"
        using dc Some by auto
      define s where "s = sub d (word_of_nat i) m"
      have s: "s \<noteq> Map.empty" "x = nhash env (canon env q s)" "leaf_at ?c i = single s"
        using hash_at_canon [OF i(1,2)] i(3) by (simp_all add: s_def d_def)
      have ps: "position_ok env q s" "stored env (reader_get_node reader) q s"
        using position_ok_sub [of env q m] stored_sub [of env _ q m] less.prems(1,3) r False by (simp_all add: s_def d_def)
      show ?thesis
      proof (cases "single s")
        case True
        let ?l = "the_leaf s" and ?k = "ln_key_hash env (the_leaf s)"
        have sl: "s = [?k \<mapsto> ?l]" using single_leaf True ps(1) position_ok_entries by blast
        then have ks: "?k \<in> dom s" "s ?k = Some ?l" by (metis domI fun_upd_same)+
        then have kd: "m ?k = Some ?l" "hash_nibbles ?k ! d = word_of_nat i"
          unfolding s_def by (auto simp: sub_apply split: if_splits)
        have hk: "hash_value ?k" using entries_ok_hash [OF position_ok_entries [OF less.prems(1)]] kd(1) by blast
        have pre: "take d (hash_nibbles ?k) = take d (hash_nibbles ?kh)" using less.prems(4) kd(1) d(1) by auto
        have un: "unat (hash_nibbles ?k ! d) = i" unfolding kd(2) by (rule unat_nibble_of_nat [OF i(1)])
        have pre4: "take (4 * d + length ss) (iter_bits ?k) = take (4 * d + length ss) (iter_bits ?kh)"
          using take_bits_fork [OF hk hv d(3) pre, of "length ss"] dc i(4) un by simp
        have mk: "m ?kh = (if ?k = ?kh then Some ?l else None)"
        proof (cases "?k = ?kh")
          case neq: False
          show ?thesis
          proof (cases "child_at ?c (unat ?n) = None")
            case True
            then show ?thesis using none neq by simp
          next
            case ex: False
            then have "hash_nibbles ?kh ! d = word_of_nat i" using i(5) by simp
            then have "m ?kh = s ?kh" by (simp add: s_def sub_apply)
            also have "\<dots> = None" by (subst sl) (use neq in simp)
            finally show ?thesis using neq by simp
          qed
        qed (use kd(1) in simp)
        have ds': "[Suc d..<65] = Suc d # [Suc (Suc d)..<65]" using d(3) by (simp add: upt_conv_Cons)
        have xl: "reader_get_node reader x = Inr (Leaf_Node ?l)" "x = smt_merkle_hash ?D ?k (ln_value_hash env ?l)"
          using stored_node [OF ps(2) s(1)] s(2) True by (simp_all add: smt_leaf_hash_def)
        have "get_with_proof_loop env reader key [64 - r..<65] (nhash env (canon env r m)) (ni_advance d (key_iter ?kh)) sibs =
            Inr (map_option ln_value (m ?kh), sparse_proof_new (Some (?k, ln_value_hash env ?l)) (rev (sibs @ ss)))"
          unfolding step Some option.case ds' read_leaf [OF xl(1)] mk by simp
        moreover have "read_result env ?kh d m (Some (?k, ln_value_hash env ?l)) ss (nhash env (canon env r m))"
          using cl' Some xl(2) mk pre4 hk dc d(3)
          by (auto simp: read_result_def sparse_leaf_hash_def start_hash_def)
        ultimately show ?thesis unfolding d(1) by blast
      next
        case ns: False
        then have i4: "i = unat ?n" "length ss = 4" using i(6) s(3) by auto
        then have wn: "word_of_nat i = ?n" by simp
        have pre: "\<forall>h \<in> dom s. take (64 - q) (hash_nibbles h) = take (64 - q) (hash_nibbles ?kh)"
        proof
          fix h
          assume "h \<in> dom s"
          then have h: "h \<in> dom m" "hash_nibbles h ! d = ?n" by (auto simp: s_def dom_sub wn)
          have "take d (hash_nibbles h) = take d (hash_nibbles ?kh)" using less.prems(4) h(1) d(1) by simp
          then show "take (64 - q) (hash_nibbles h) = take (64 - q) (hash_nibbles ?kh)"
            unfolding d(2) using h d(3) length_hash_nibbles [OF hv] position_ok_length [OF less.prems(1) h(1)]
            by (simp add: take_Suc_conv_app_nth)
        qed
        obtain leaf new where IH: "get_with_proof_loop env reader key [64 - q..<65] (nhash env (canon env q s))
            (ni_advance (64 - q) (key_iter ?kh)) (sibs @ ss) =
          Inr (map_option ln_value (s ?kh), sparse_proof_new leaf (rev ((sibs @ ss) @ new)))"
          "read_result env ?kh (64 - q) s leaf new (nhash env (canon env q s))"
          using less.IH [OF _ ps(1) s(1) ps(2) pre, of "sibs @ ss"] r by auto
        have sk: "s ?kh = m ?kh" by (simp add: s_def sub_apply wn)
        have "get_with_proof_loop env reader key [64 - r..<65] (nhash env (canon env r m)) (ni_advance d (key_iter ?kh)) sibs =
            Inr (map_option ln_value (m ?kh), sparse_proof_new leaf (rev (sibs @ (ss @ new))))"
          unfolding step Some option.case using IH(1) s(2) sk d(2) by simp
        moreover have "read_result env ?kh d m leaf (ss @ new) (nhash env (canon env r m))"
        proof -
          have "climb ?D (drop (4 * d) (iter_bits ?kh)) (ss @ new) (sparse_leaf_hash ?D leaf) =
              climb ?D (low_bits (unat ?n) 4) ss (nhash env (canon env q s))"
            unfolding bits using climb_append [of "low_bits (unat ?n) 4" ss ?D] i4(2) IH(2)
            by (simp add: read_result_def d(2))
          then have "climb ?D (drop (4 * d) (iter_bits ?kh)) (ss @ new) (sparse_leaf_hash ?D leaf) = nhash env (canon env r m)"
            using cl Some s(2) by (simp add: start_hash_def)
          moreover have e: "4 * d + length (ss @ new) = 4 * Suc d + length new" using i4(2) by simp
          ultimately show ?thesis using IH(2) sk unfolding read_result_def d(2) e by simp
        qed
        ultimately show ?thesis unfolding d(1) by blast
      qed
    qed
  qed
qed

section \<open>Lookup with proof\<close>

text \<open>A reader represents a map under a root hash.\<close>

definition represents ::
    "('k, 'v) smt_env \<Rightarrow> ('k, 'v) node_reader \<Rightarrow> HashValue \<Rightarrow> ('k, 'v) entries \<Rightarrow> bool" where
  "represents env reader root m \<longleftrightarrow>
     entries_ok env m \<and> root = nhash env (canon env 64 m) \<and>
     stored env (reader_get_node reader) 64 m \<and>
     reader_get_node reader SPARSE_MERKLE_PLACEHOLDER_HASH = Inr Null"

lemma position_ok_root: "entries_ok env m \<Longrightarrow> position_ok env 64 m"
  by (simp add: position_ok_def)

lemma jm_get_with_proof_eq:
  assumes "represents env reader root m" and "hash_value (key_merkle_hash env key)"
  shows "\<exists>leaf siblings. jm_get_with_proof env reader root key =
      Inr (map_option ln_value (m (key_merkle_hash env key)), sparse_proof_new leaf (rev siblings)) \<and>
    read_result env (key_merkle_hash env key) 0 m leaf siblings root"
proof -
  let ?kh = "key_merkle_hash env key"
  have start: "jm_get_with_proof env reader root key =
      get_with_proof_loop env reader key [0..<65] root (key_iter ?kh) []"
    using key_iter_eq(1) [OF assms(2)] by (auto simp: jm_get_with_proof_def)
  have adv: "ni_advance 0 (key_iter ?kh) = key_iter ?kh" by (simp add: ni_advance_def)
  show ?thesis
  proof (cases "m = Map.empty")
    case True
    then have "jm_get_with_proof env reader root key = Inr (None, sparse_proof_new None (rev []))"
      using assms(1) start by (simp add: represents_def upt_rec)
    moreover have "read_result env ?kh 0 m None [] root"
      using assms(1) True by (simp add: read_result_def represents_def sparse_leaf_hash_def)
    ultimately show ?thesis using True by (intro exI [of _ None] exI [of _ "[]"]) simp
  next
    case False
    with get_with_proof_loop_eq [OF assms(2) position_ok_root False, of reader "[]"] assms(1) start adv
    show ?thesis by (simp add: represents_def)
  qed
qed

lemma read_result_verifies:
  assumes "read_result env (key_merkle_hash env key) 0 m leaf siblings root"
  shows "m (key_merkle_hash env key) = None \<Longrightarrow>
      sparse_verify env (sparse_proof_new leaf (rev siblings)) root key None = Inr ()"
    and "m (key_merkle_hash env key) = Some l \<Longrightarrow> into_object env v = Inr (ln_value l) \<Longrightarrow>
      sparse_verify env (sparse_proof_new leaf (rev siblings)) root key (Some v) = Inr ()"
proof -
  show "sparse_verify env (sparse_proof_new leaf (rev siblings)) root key None = Inr ()"
    if "m (key_merkle_hash env key) = None"
    using assms that common_prefix_bits_len_iff [of "length siblings" "key_merkle_hash env key"]
    unfolding sparse_verify_non_inclusion_iff by (auto simp: read_result_def sparse_proof_new_def)
  show "sparse_verify env (sparse_proof_new leaf (rev siblings)) root key (Some v) = Inr ()"
    if "m (key_merkle_hash env key) = Some l" "into_object env v = Inr (ln_value l)"
    using assms that
    unfolding sparse_verify_inclusion_iff by (auto simp: read_result_def sparse_proof_new_def ln_value_hash_def)
qed

end
