(* ===== verification/Jellyfish_Delta.thy ===== *)
theory Jellyfish_Delta
  imports Jellyfish_Read
begin

text \<open>
  What a write changes, stated on sets of nodes: the effect of adding and removing nodes on the
  cache, the update of the map of leaves, and the nodes by which the canonical trees before and after
  an update differ.
\<close>

section \<open>Effects on the cache\<close>

definition cached :: "('k, 'v) TreeCache \<Rightarrow> NodeKey \<rightharpoonup> ('k, 'v) SmtNode" where
  "cached c = map_of (tc_node_cache c)"

text \<open>The leaf counter counts the cached leaves.\<close>

definition cache_wf :: "('k, 'v) TreeCache \<Rightarrow> bool" where
  "cache_wf c \<longleftrightarrow> distinct (map fst (tc_node_cache c)) \<and>
     tc_num_new_leaves c = length (filter (node_is_leaf \<circ> snd) (tc_node_cache c))"

definition same_base :: "('k, 'v) TreeCache \<Rightarrow> ('k, 'v) TreeCache \<Rightarrow> bool" where
  "same_base c c' \<longleftrightarrow> tc_frozen_cache c' = tc_frozen_cache c \<and> tc_root_node_key c' = tc_root_node_key c"

lemma update_absent: "map_of xs k = None \<Longrightarrow> AList.update k v xs = xs @ [(k, v)]"
  by (induction xs) (auto split: if_splits)

lemma put_node_ok:
  assumes "cached c k = None" and "cache_wf c"
  shows "\<exists>c'. put_node k N c = (Inr (), c') \<and> cached c' = (cached c)(k \<mapsto> N) \<and> cache_wf c' \<and> same_base c c' \<and>
    tc_stale_node_index_cache c' = tc_stale_node_index_cache c"
proof -
  have a: "map_of (tc_node_cache c) k = None" using assms(1) by (simp add: cached_def)
  then have "k \<notin> fst ` set (tc_node_cache c)" by (simp add: map_of_eq_None_iff)
  with a assms show ?thesis
    by (auto simp: put_node_def cached_def cache_wf_def same_base_def update_absent map_of_append fun_eq_iff
        map_add_def split: option.splits)
qed

lemma length_filter_delete:
  assumes "distinct (map fst xs)" and "map_of xs k = Some v"
  shows "length (filter (P \<circ> snd) xs) = length (filter (P \<circ> snd) (AList.delete k xs)) + (if P v then 1 else 0)"
  using assms
proof (induction xs)
  case (Cons x xs)
  show ?case
  proof (cases "fst x = k")
    case True
    then have "k \<notin> set (map fst xs)" "snd x = v" using Cons.prems by (auto split: if_splits)
    then have "AList.delete k (x # xs) = xs" using True by (cases x) (simp add: delete_id)
    with \<open>snd x = v\<close> show ?thesis by simp
  next
    case False
    with Cons show ?thesis by (cases x) (auto split: if_splits)
  qed
qed simp

lemma delete_node_ok:
  assumes "cache_wf c" and "\<And>N. cached c k = Some N \<Longrightarrow> node_is_leaf N = lf"
    and "cached c k = None \<Longrightarrow> k \<notin> tc_stale_node_index_cache c"
  shows "\<exists>c'. delete_node k lf c = (Inr (), c') \<and> cached c' = (cached c)(k := None) \<and> cache_wf c' \<and> same_base c c' \<and>
    tc_stale_node_index_cache c' = (if cached c k = None then insert k (tc_stale_node_index_cache c) else tc_stale_node_index_cache c)"
proof (cases "cached c k")
  case None
  then have "map_of (tc_node_cache c) k = None" by (simp add: cached_def)
  with assms None show ?thesis
    by (auto simp: delete_node_def cached_def cache_wf_def same_base_def fun_eq_iff)
next
  case (Some N)
  then have m: "map_of (tc_node_cache c) k = Some N" by (simp add: cached_def)
  have d: "distinct (map fst (tc_node_cache c))" using assms(1) by (simp add: cache_wf_def)
  note len = length_filter_delete [OF d m, of node_is_leaf]
  have "distinct (map fst (AList.delete k (tc_node_cache c)))" using d by (rule distinct_delete)
  moreover have "map_of (AList.delete k (tc_node_cache c)) = (map_of (tc_node_cache c))(k := None)"
    by (rule delete_conv')
  ultimately show ?thesis
    using assms(1,2) Some m len by (auto simp: delete_node_def cached_def cache_wf_def same_base_def Let_def)
qed

definition effect ::
    "('k, 'v) smt_env \<Rightarrow> ('k, 'v) SmtNode set \<Rightarrow> ('k, 'v) SmtNode set \<Rightarrow> ('k, 'v) TreeCache \<Rightarrow> ('k, 'v) TreeCache \<Rightarrow> bool" where
  "effect env added removed c c' \<longleftrightarrow>
     (\<forall>N \<in> added. cached c' (nhash env N) = Some N) \<and>
     (\<forall>N \<in> removed. cached c' (nhash env N) = None) \<and>
     (\<forall>k. k \<notin> nhash env ` (added \<union> removed) \<longrightarrow> cached c' k = cached c k) \<and>
     tc_stale_node_index_cache c' = tc_stale_node_index_cache c \<union> {k \<in> nhash env ` removed. cached c k = None} \<and>
     same_base c c' \<and> cache_wf c'"

lemma effect_refl: "cache_wf c \<Longrightarrow> effect env {} {} c c"
  by (simp add: effect_def same_base_def)

lemma effect_put:
  assumes "cached c (nhash env N) = None" and "cache_wf c"
  shows "\<exists>c'. put_node (nhash env N) N c = (Inr (), c') \<and> effect env {N} {} c c'"
  using put_node_ok [OF assms, of N] by (auto simp: effect_def)

lemma effect_delete:
  assumes "cache_wf c" and "\<And>M. cached c (nhash env N) = Some M \<Longrightarrow> node_is_leaf M = lf"
    and "cached c (nhash env N) = None \<Longrightarrow> nhash env N \<notin> tc_stale_node_index_cache c"
  shows "\<exists>c'. delete_node (nhash env N) lf c = (Inr (), c') \<and> effect env {} {N} c c'"
  using delete_node_ok [OF assms] by (auto simp: effect_def)

lemma effect_trans:
  assumes "effect env A D c c1" and "effect env B E c1 c2"
    and "nhash env ` (A \<union> D) \<inter> nhash env ` (B \<union> E) = {}"
  shows "effect env (A \<union> B) (D \<union> E) c c2"
proof -
  have d: "\<And>N. N \<in> B \<union> E \<Longrightarrow> nhash env N \<notin> nhash env ` (A \<union> D)"
    and d': "\<And>N. N \<in> A \<union> D \<Longrightarrow> nhash env N \<notin> nhash env ` (B \<union> E)" using assms(3) by blast+
  have c1: "cached c1 k = cached c k" if "k \<notin> nhash env ` (A \<union> D)" for k
    using assms(1) that by (simp add: effect_def)
  have c2: "cached c2 k = cached c1 k" if "k \<notin> nhash env ` (B \<union> E)" for k
    using assms(2) that by (simp add: effect_def)
  have "\<forall>N \<in> A \<union> B. cached c2 (nhash env N) = Some N"
    using assms(1,2) c2 d' unfolding effect_def by (metis Un_iff)
  moreover have "\<forall>N \<in> D \<union> E. cached c2 (nhash env N) = None"
    using assms(1,2) c2 d' unfolding effect_def by (metis Un_iff)
  moreover have "\<forall>k. k \<notin> nhash env ` ((A \<union> B) \<union> (D \<union> E)) \<longrightarrow> cached c2 k = cached c k"
    using c1 c2 by (metis (no_types, lifting) image_Un Un_iff)
  moreover have "{k \<in> nhash env ` E. cached c1 k = None} = {k \<in> nhash env ` E. cached c k = None}"
    using c1 d by (metis (mono_tags, lifting) Collect_cong Un_iff image_iff)
  ultimately show ?thesis using assms(1,2) unfolding effect_def same_base_def by auto
qed

lemma hash_free_ph: "hash_free env Ns \<Longrightarrow> N \<in> Ns \<Longrightarrow> nhash env N \<noteq> SPARSE_MERKLE_PLACEHOLDER_HASH"
  unfolding hash_free_def by (metis image_eqI)

lemma effect_get:
  assumes "effect env A D c c'" and "hash_free env Ns" and "insert N (A \<union> D) \<subseteq> Ns" and "N \<notin> D"
    and "cache_get_node reader c (nhash env N) = Inr N"
  shows "cache_get_node reader c' (nhash env N) = Inr N"
proof -
  have ph: "nhash env N \<noteq> SPARSE_MERKLE_PLACEHOLDER_HASH" using hash_free_ph [OF assms(2)] assms(3) by blast
  show ?thesis
  proof (cases "N \<in> A")
    case True
    with assms(1) ph show ?thesis by (simp add: effect_def cache_get_node_def cached_def)
  next
    case False
    then have "nhash env N \<notin> nhash env ` (A \<union> D)" using hash_free_eq [OF assms(2)] assms(3,4) by blast
    then have "cached c' (nhash env N) = cached c (nhash env N)" using assms(1) by (simp add: effect_def)
    moreover have "tc_frozen_cache c' = tc_frozen_cache c" using assms(1) by (simp add: effect_def same_base_def)
    ultimately show ?thesis using assms(5) by (auto simp: cache_get_node_def cached_def split: option.splits if_splits)
  qed
qed

lemma effect_get_added:
  assumes "effect env A D c c'" and "hash_free env Ns" and "A \<subseteq> Ns" and "N \<in> A"
  shows "cache_get_node reader c' (nhash env N) = Inr N"
  using assms(1,4) hash_free_ph [OF assms(2), of N] assms(3) by (auto simp: effect_def cache_get_node_def cached_def)

text \<open>Where hashes are free of collisions, the keys of disjoint sets of nodes are disjoint.\<close>

lemma hash_free_disjoint:
  "hash_free env Ns \<Longrightarrow> A \<subseteq> Ns \<Longrightarrow> B \<subseteq> Ns \<Longrightarrow> A \<inter> B = {} \<Longrightarrow> nhash env ` A \<inter> nhash env ` B = {}"
  using hash_free_eq by (auto simp: hash_free_def inj_on_def) blast

lemma effect_cached:
  assumes "effect env A D c c'" and "hash_free env Ns" and "insert N (A \<union> D) \<subseteq> Ns" and "N \<notin> A \<union> D"
  shows "cached c' (nhash env N) = cached c (nhash env N)"
proof -
  have "nhash env N \<notin> nhash env ` (A \<union> D)" using hash_free_eq [OF assms(2)] assms(3,4) by blast
  with assms(1) show ?thesis by (simp add: effect_def)
qed

lemma effect_join:
  assumes "effect env A D c c1" and "effect env B E c1 c2" and "hash_free env Ns"
    and "A \<union> D \<subseteq> Ns" and "B \<union> E \<subseteq> Ns" and "(A \<union> D) \<inter> (B \<union> E) = {}"
  shows "effect env (A \<union> B) (D \<union> E) c c2"
  by (rule effect_trans [OF assms(1,2) hash_free_disjoint [OF assms(3-6)]])

section \<open>The update of the map\<close>

text \<open>Putting a value with the hash of the present one leaves the leaf as it is.\<close>

definition upd :: "('k, 'v) smt_env \<Rightarrow> 'k \<Rightarrow> 'v SMTObject option \<Rightarrow> ('k, 'v) entries \<Rightarrow> ('k, 'v) entries" where
  "upd env key blob m =
     (let kh = key_merkle_hash env key in
      case blob of
        None \<Rightarrow> m(kh := None)
      | Some b \<Rightarrow>
          (case m kh of
             Some l \<Rightarrow> if ln_value_hash env l = obj_merkle_hash env b then m else m(kh \<mapsto> smt_leaf_new key b)
           | None \<Rightarrow> m(kh \<mapsto> smt_leaf_new key b)))"

lemma upd_other: "h \<noteq> key_merkle_hash env key \<Longrightarrow> upd env key blob m h = m h"
  by (auto simp: upd_def Let_def split: option.splits)

lemma upd_entries_ok:
  assumes "entries_ok env m" and "hash_value (key_merkle_hash env key)"
  shows "entries_ok env (upd env key blob m)"
proof -
  have "finite (dom (upd env key blob m))"
    by (rule finite_subset [of _ "insert (key_merkle_hash env key) (dom m)"])
      (use assms in \<open>auto simp: upd_def Let_def entries_ok_def split: option.splits if_splits\<close>)
  moreover have "hash_value h \<and> ln_key_hash env l = h" if "upd env key blob m h = Some l" for h l
    using that assms by (auto simp: upd_def Let_def entries_ok_def ln_key_hash_def smt_leaf_new_def split: option.splits if_splits)
  ultimately show ?thesis by (simp add: entries_ok_def)
qed

lemma upd_sub_same:
  assumes "hash_nibbles (key_merkle_hash env key) ! d = n"
  shows "sub d n (upd env key blob m) = upd env key blob (sub d n m)"
  using assms by (auto simp: fun_eq_iff sub_apply upd_def Let_def split: option.splits)

lemma upd_sub_other:
  assumes "hash_nibbles (key_merkle_hash env key) ! d \<noteq> n"
  shows "sub d n (upd env key blob m) = sub d n m"
  using assms by (auto simp: fun_eq_iff sub_apply) (metis upd_other)

text \<open>The keys of a position agree with the key on the nibbles above it.\<close>

definition on_path :: "nat \<Rightarrow> HashValue \<Rightarrow> ('k, 'v) entries \<Rightarrow> bool" where
  "on_path r kh m \<longleftrightarrow> (\<forall>h \<in> dom m. take (64 - r) (hash_nibbles h) = take (64 - r) (hash_nibbles kh))"

lemma on_path_sub:
  assumes "on_path (Suc r) kh m" and "position_ok env (Suc r) m" and "hash_value kh" and "hash_nibbles kh ! (63 - r) = n"
  shows "on_path r kh (sub (63 - r) n m)"
  unfolding on_path_def
proof
  fix h
  assume "h \<in> dom (sub (63 - r) n m)"
  then have h: "h \<in> dom m" "hash_nibbles h ! (63 - r) = n" by (auto simp: dom_sub)
  have r: "64 - r = Suc (63 - r)" "64 - Suc r = 63 - r" "63 - r < 64" using assms(2) by (auto simp: position_ok_def)
  have "take (63 - r) (hash_nibbles h) = take (63 - r) (hash_nibbles kh)"
    using assms(1) h(1) unfolding on_path_def r(2) by blast
  then show "take (64 - r) (hash_nibbles h) = take (64 - r) (hash_nibbles kh)"
    unfolding r(1) using h(2) r(3) assms(4) length_hash_nibbles [OF assms(3)] position_ok_length [OF assms(2) h(1)]
    by (simp add: take_Suc_conv_app_nth)
qed

lemma on_path_upd: "on_path r (key_merkle_hash env key) m \<Longrightarrow> on_path r (key_merkle_hash env key) (upd env key blob m)"
  unfolding on_path_def using upd_other [of _ env key blob m] by (metis domIff)

lemma position_ok_upd:
  assumes "position_ok env r m" and "on_path r (key_merkle_hash env key) m" and "hash_value (key_merkle_hash env key)"
  shows "position_ok env r (upd env key blob m)"
proof -
  have p: "on_path r (key_merkle_hash env key) (upd env key blob m)" by (rule on_path_upd [OF assms(2)])
  then have "take (64 - r) (hash_nibbles g) = take (64 - r) (hash_nibbles h)"
    if "g \<in> dom (upd env key blob m)" "h \<in> dom (upd env key blob m)" for g h
    using that unfolding on_path_def by metis
  moreover have "entries_ok env (upd env key blob m)" "r \<le> 64"
    using assms upd_entries_ok by (auto simp: position_ok_def)
  ultimately show ?thesis unfolding position_ok_def by blast
qed

section \<open>Parts of a tree are disjoint\<close>

lemma leaf_in_nodes:
  assumes "position_ok env r m" and "m h = Some l"
  shows "Leaf_Node l \<in> nodes env r m"
  using assms
proof (induction r arbitrary: m)
  case 0
  then have "single m" by (auto intro: position_ok_0_single)
  then show ?case using 0 by (auto simp: single_def split: if_splits)
next
  case (Suc r)
  show ?case
  proof (cases "single m")
    case True
    then show ?thesis using Suc.prems by (auto simp: single_def split: if_splits)
  next
    case False
    have "sub (63 - r) (hash_nibbles h ! (63 - r)) m h = Some l" using Suc.prems(2) by (simp add: sub_apply)
    with Suc.IH [OF position_ok_sub [OF Suc.prems(1)]] nodes_sub [OF False] show ?thesis by blast
  qed
qed

text \<open>The top of a branching tree is not a node of a part of it, nor of a part of another tree.\<close>

lemma top_notin_part:
  assumes "hash_free env Ns" and "position_ok env (Suc r) m" and "position_ok env r s"
    and "nodes env (Suc r) m \<subseteq> Ns" and "nodes env r s \<subseteq> Ns" and "m \<noteq> Map.empty" and "\<not> single m"
  shows "canon env (Suc r) m \<notin> nodes env r s"
proof
  assume "canon env (Suc r) m \<in> nodes env r s"
  then obtain q t where q: "q \<le> r" "position_ok env q t" "t \<noteq> Map.empty" "canon env (Suc r) m = canon env q t"
      "nodes env q t \<subseteq> nodes env r s"
    using nodes_canon [OF assms(3)] by blast
  have "nodes env q t \<subseteq> Ns" using q(5) assms(5) by blast
  with canon_inject [OF assms(1,2) q(2) assms(4)] q assms(6,7) show False by auto
qed

lemma parts_disjoint:
  assumes "hash_free env Ns" and "position_ok env r s" and "position_ok env r t"
    and "nodes env r s \<subseteq> Ns" and "nodes env r t \<subseteq> Ns" and "dom s \<inter> dom t = {}"
  shows "nodes env r s \<inter> nodes env r t = {}"
proof (rule ccontr)
  assume "nodes env r s \<inter> nodes env r t \<noteq> {}"
  then obtain N where N: "N \<in> nodes env r s" "N \<in> nodes env r t" by blast
  obtain q s' where s': "position_ok env q s'" "s' \<noteq> Map.empty" "s' \<subseteq>\<^sub>m s" "N = canon env q s'" "nodes env q s' \<subseteq> nodes env r s"
    using nodes_canon [OF assms(2) N(1)] by blast
  obtain p t' where t': "position_ok env p t'" "t' \<noteq> Map.empty" "t' \<subseteq>\<^sub>m t" "N = canon env p t'" "nodes env p t' \<subseteq> nodes env r t"
    using nodes_canon [OF assms(3) N(2)] by blast
  have "s' = t'" using canon_inject [OF assms(1) s'(1) t'(1)] s' t' assms(4,5) by auto
  moreover have "dom s' \<subseteq> dom s" "dom t' \<subseteq> dom t" using s'(3) t'(3) by (auto simp: map_le_implies_dom_le)
  ultimately have "dom s' = {}" using assms(6) by blast
  with s'(2) show False by simp
qed

lemma changed_top:
  assumes "hash_free env Ns" and "position_ok env r m" and "position_ok env r m'"
    and "nodes env r m \<subseteq> Ns" and "nodes env r m' \<subseteq> Ns" and "m' \<noteq> Map.empty" and "\<not> single m'" and "m' \<noteq> m"
  shows "canon env r m' \<notin> nodes env r m"
proof
  assume "canon env r m' \<in> nodes env r m"
  then obtain q t where q: "position_ok env q t" "t \<noteq> Map.empty" "canon env r m' = canon env q t"
      "nodes env q t \<subseteq> nodes env r m" "q = r \<longrightarrow> t = m"
    using nodes_canon [OF assms(2)] by blast
  have "nodes env q t \<subseteq> Ns" using q(4) assms(4) by blast
  with canon_inject [OF assms(1,3) q(1) assms(5)] q assms(6-8) show False by auto
qed

section \<open>The nodes that an update of a branching tree changes\<close>

lemma branch_two:
  assumes "m \<noteq> Map.empty" and "\<not> single m"
  obtains g h where "g \<in> dom m" "h \<in> dom m" "g \<noteq> h"
  using assms single_iff [of _ m] by fastforce

lemma upd_branch_nonempty:
  assumes "m \<noteq> Map.empty" and "\<not> single m"
  shows "upd env key blob m \<noteq> Map.empty"
proof -
  obtain g h where gh: "g \<in> dom m" "h \<in> dom m" "g \<noteq> h" using branch_two [OF assms] .
  then obtain k where "k \<in> dom m" "k \<noteq> key_merkle_hash env key" by blast
  then have "upd env key blob m k \<noteq> None" by (auto simp: upd_other)
  then show ?thesis by auto
qed

text \<open>
  Below a branching map only one part changes: the one of the key. The nodes added and removed are
  those of that part and, unless the map collapses to a single leaf, the tops.
\<close>

lemma branch_delta:
  fixes m :: "('k, 'v) entries"
  assumes "hash_free env Ns" and "position_ok env (Suc r) m" and "m \<noteq> Map.empty" and "\<not> single m"
    and "on_path (Suc r) (key_merkle_hash env key) m" and "hash_value (key_merkle_hash env key)"
    and "m' = upd env key blob m" and "m' \<noteq> m"
    and "nodes env (Suc r) m \<subseteq> Ns" and "nodes env (Suc r) m' \<subseteq> Ns"
    and "n = hash_nibbles (key_merkle_hash env key) ! (63 - r)"
    and "old = nodes env r (sub (63 - r) n m)" and "new = nodes env r (sub (63 - r) n m')"
  shows "nodes env (Suc r) m' - nodes env (Suc r) m = (new - old) \<union> (if single m' then {} else {canon env (Suc r) m'})"
    and "nodes env (Suc r) m - nodes env (Suc r) m' = insert (canon env (Suc r) m) (old - new)"
    and "new \<subseteq> nodes env (Suc r) m \<union> nodes env (Suc r) m'"
proof -
  have pm': "position_ok env (Suc r) m'" unfolding assms(7) by (rule position_ok_upd [OF assms(2,5,6)])
  have ne': "m' \<noteq> Map.empty" unfolding assms(7) by (rule upd_branch_nonempty [OF assms(3,4)])
  have other: "sub (63 - r) j m' = sub (63 - r) j m" if "j \<noteq> n" for j
    unfolding assms(7) by (rule upd_sub_other) (use that assms(11) in simp)
  define oth where "oth = (\<Union>j \<in> - {n}. nodes env r (sub (63 - r) j m))"
  define T where "T = canon env (Suc r) m"
  define T' where "T' = canon env (Suc r) m'"
  have om: "(\<Union>j. nodes env r (sub (63 - r) j m)) = old \<union> oth" unfolding oth_def assms(12) by blast
  have "(\<Union>j. nodes env r (sub (63 - r) j m')) = new \<union> (\<Union>j \<in> - {n}. nodes env r (sub (63 - r) j m'))"
    unfolding assms(13) by blast
  also have "\<dots> = new \<union> oth" unfolding oth_def using other by simp
  finally have om': "(\<Union>j. nodes env r (sub (63 - r) j m')) = new \<union> oth" .
  have nm: "nodes env (Suc r) m = insert T (old \<union> oth)" unfolding nodes_branch [OF assms(3,4)] om T_def ..
  have ps: "position_ok env r (sub (63 - r) j m)" "position_ok env r (sub (63 - r) j m')" for j
    by (rule position_ok_sub [OF assms(2)], rule position_ok_sub [OF pm'])
  have oNs: "insert T (old \<union> oth) \<subseteq> Ns" using nm assms(9) by simp
  have "nodes env (Suc r) m' - nodes env (Suc r) m = (new - old) \<union> (if single m' then {} else {T'}) \<and>
      nodes env (Suc r) m - nodes env (Suc r) m' = insert T (old - new) \<and>
      new \<subseteq> nodes env (Suc r) m \<union> nodes env (Suc r) m'"
  proof (cases "single m'")
    case False
    have nm': "nodes env (Suc r) m' = insert T' (new \<union> oth)" unfolding nodes_branch [OF ne' False] om' T'_def ..
    have nNs: "insert T' (new \<union> oth) \<subseteq> Ns" using nm' assms(10) by simp
    have "T \<notin> nodes env (Suc r) m'"
      unfolding T_def by (rule changed_top [OF assms(1) pm' assms(2) assms(10,9,3,4)]) (use assms(8) in simp)
    moreover have "T' \<notin> nodes env (Suc r) m"
      unfolding T'_def by (rule changed_top [OF assms(1,2) pm' assms(9,10) ne' False assms(8)])
    moreover have "new \<inter> oth = {}" "old \<inter> oth = {}"
    proof -
      have "nodes env r (sub (63 - r) n m') \<inter> nodes env r (sub (63 - r) j m) = {}" if "j \<noteq> n" for j
        by (rule parts_disjoint [OF assms(1) ps(2) ps(1)])
          (use that nNs oNs in \<open>auto simp: assms(12,13) oth_def dom_sub\<close>)
      then show "new \<inter> oth = {}" unfolding oth_def assms(13) by auto
      have "nodes env r (sub (63 - r) n m) \<inter> nodes env r (sub (63 - r) j m) = {}" if "j \<noteq> n" for j
        by (rule parts_disjoint [OF assms(1) ps(1) ps(1)])
          (use that oNs in \<open>auto simp: assms(12,13) oth_def dom_sub\<close>)
      then show "old \<inter> oth = {}" unfolding oth_def assms(12) by auto
    qed
    ultimately show ?thesis using False unfolding nm nm' by auto
  next
    case True
    let ?kh = "key_merkle_hash env key"
    define l where "l = the_leaf m'"
    define k where "k = ln_key_hash env l"
    have m': "m' = [k \<mapsto> l]" unfolding k_def l_def by (rule single_leaf [OF position_ok_entries [OF pm'] True])
    have keep: "m h = m' h" if "h \<noteq> ?kh" for h unfolding assms(7) using that by (simp add: upd_other)
    obtain g h where gh: "g \<in> dom m" "h \<in> dom m" "g \<noteq> h" using branch_two [OF assms(3,4)] .
    then obtain x where x: "x \<in> dom m" "x \<noteq> ?kh" by blast
    then have "x = k" using keep [of x] m' by (auto split: if_splits)
    then have k: "k \<noteq> ?kh" "m k = Some l" using x keep [of x] m' by auto
    have khm: "?kh \<in> dom m"
    proof (rule ccontr)
      assume "?kh \<notin> dom m"
      then have "g \<noteq> ?kh" "h \<noteq> ?kh" using gh by auto
      then have "g = k" "h = k" using keep m' gh by (auto split: if_splits)
      with gh show False by simp
    qed
    have dm: "dom m = {k, ?kh}" using keep m' k khm by (auto split: if_splits) (metis domI fun_upd_other option.distinct(1))
    have nm': "nodes env (Suc r) m' = {Leaf_Node l}" using True by (simp add: l_def)
    have lm: "Leaf_Node l \<in> nodes env (Suc r) m" by (rule leaf_in_nodes [where h = k, OF assms(2) k(2)])
    have T: "T \<noteq> Leaf_Node l" unfolding T_def canon_branch [OF assms(3,4)] by simp
    show ?thesis
    proof (cases "hash_nibbles k ! (63 - r) = n")
      case nk: True
      have "sub (63 - r) n m' = m'" by (rule sub_id) (use m' nk in \<open>auto split: if_splits\<close>)
      then have new: "new = {Leaf_Node l}" using True by (simp add: assms(13) l_def)
      have "Leaf_Node l \<in> old" unfolding assms(12)
        by (rule leaf_in_nodes [where h = k, OF ps(1)]) (use nk k(2) in \<open>simp add: sub_apply\<close>)
      moreover have "oth = {}"
      proof -
        have "sub (63 - r) j m = Map.empty" if "j \<noteq> n" for j
          using that nk dm assms(11) by (auto simp: sub_empty_iff)
        then show ?thesis by (auto simp: oth_def)
      qed
      ultimately show ?thesis using True T new lm unfolding nm nm' by auto
    next
      case nk: False
      have "sub (63 - r) n m' = Map.empty" using nk m' by (auto simp: sub_empty_iff split: if_splits)
      then have new: "new = {}" by (simp add: assms(13))
      obtain l2 where l2: "m ?kh = Some l2" using khm by blast
      have "sub (63 - r) n m = [?kh \<mapsto> l2]"
      proof (rule ext)
        fix h
        show "sub (63 - r) n m h = [?kh \<mapsto> l2] h"
          using nk dm l2 assms(11) by (cases "h \<in> dom m") (auto simp: sub_apply)
      qed
      then have old: "old = {Leaf_Node l2}" by (simp add: assms(12))
      have "ln_key_hash env l2 = ?kh" using position_ok_entries [OF assms(2)] l2 by (auto simp: entries_ok_def)
      then have "l2 \<noteq> l" using k(1) k_def by auto
      moreover have "oth \<subseteq> {Leaf_Node l}"
      proof
        fix N
        assume "N \<in> oth"
        then obtain j where j: "j \<noteq> n" "N \<in> nodes env r (sub (63 - r) j m)" by (auto simp: oth_def)
        have "sub (63 - r) j m = [k \<mapsto> l]"
        proof (rule ext)
          fix h
          have "sub (63 - r) j m \<noteq> Map.empty" using j(2) by auto
          then have "hash_nibbles k ! (63 - r) = j" using j(1) dm assms(11) by (auto simp: sub_empty_iff)
          then show "sub (63 - r) j m h = [k \<mapsto> l] h"
            using j(1) dm k assms(11) by (cases "h \<in> dom m") (auto simp: sub_apply)
        qed
        with j(2) show "N \<in> {Leaf_Node l}" by simp
      qed
      ultimately show ?thesis using True T new old lm unfolding nm nm' by auto
    qed
  qed
  then show "nodes env (Suc r) m' - nodes env (Suc r) m = (new - old) \<union> (if single m' then {} else {canon env (Suc r) m'})"
    and "nodes env (Suc r) m - nodes env (Suc r) m' = insert (canon env (Suc r) m) (old - new)"
    and "new \<subseteq> nodes env (Suc r) m \<union> nodes env (Suc r) m'"
    unfolding T_def T'_def by blast+
qed

end
