(* ===== verification/Smt_Iteration.thy ===== *)
theory Smt_Iteration
  imports Smt_Iterator Jellyfish_Delta
begin

text \<open>
  The iterator refines a list: the leaves of the canonical tree in the order of their key hashes.
  \<open>leaves\<close> is that list; a stack of visited nodes stands for the leaves that are still to come, so
  that \<^verbatim>\<open>next\<close> returns the first of them and \<^verbatim>\<open>new\<close> starts at the first leaf that is not before the
  starting key.
\<close>

section \<open>Searching the bitmap\<close>

lemma bit_one_bit16: "bit (push_bit k 1 :: u16) i \<longleftrightarrow> i = k \<and> k < 16"
  by (auto simp: bit_push_bit_iff bit_1_iff possible_bit_def simp del: push_bit_of_1)

lemma push_push: "push_bit 1 (push_bit k 1) = (push_bit (Suc k) 1 :: u16)"
  by (simp add: push_bit_push_bit)

lemma seek_child_eq:
  assumes "child_at c j \<noteq> None" and "j < 16"
  shows "k \<le> j \<Longrightarrow> \<forall>i \<in> {k..<j}. child_at c i = None \<Longrightarrow> j - k \<le> fuel \<Longrightarrow>
    seek_child fuel (fst (bitmaps_of c)) (push_bit k 1) = Inr (push_bit j 1)"
proof (induction fuel arbitrary: k)
  case 0
  then have "k = j" by simp
  then show ?case
    using assms bit_bitmaps_of(1) [OF assms(2), of c] and_single_bit [of j "fst (bitmaps_of c)"]
    by (simp add: seek_child.simps and.commute del: push_bit_of_1)
next
  case (Suc fuel)
  show ?case
  proof (cases "k = j")
    case True
    then show ?thesis
      using assms bit_bitmaps_of(1) [OF assms(2), of c] and_single_bit [of j "fst (bitmaps_of c)"]
      by (simp add: seek_child.simps and.commute del: push_bit_of_1)
  next
    case False
    with Suc.prems have k: "k < j" "k < 16" using assms(2) by auto
    then have "child_at c k = None" using Suc.prems(2) by simp
    then have "push_bit k 1 AND fst (bitmaps_of c) = 0"
      using bit_bitmaps_of(1) [OF k(2), of c] and_single_bit [of k "fst (bitmaps_of c)"] k(2)
      by (simp add: and.commute del: push_bit_of_1)
    then show ?thesis
      using Suc.IH [of "Suc k"] Suc.prems k push_push [of k]
      by (subst seek_child.simps) (auto simp del: push_bit_of_1)
  qed
qed

text \<open>The next existing child at or after a position, where there is one.\<close>

lemma next_child_exists:
  assumes "child_at c j \<noteq> None" and "k \<le> j"
  obtains i where "k \<le> i" "i \<le> j" "child_at c i \<noteq> None" "\<forall>x \<in> {k..<i}. child_at c x = None"
proof -
  define i where "i = (LEAST i. k \<le> i \<and> child_at c i \<noteq> None)"
  have e: "k \<le> j \<and> child_at c j \<noteq> None" using assms by simp
  have "k \<le> i \<and> child_at c i \<noteq> None" unfolding i_def using e by (rule LeastI)
  moreover have "i \<le> j" unfolding i_def using e by (rule Least_le)
  moreover have "child_at c x = None" if "x \<in> {k..<i}" for x
    using not_less_Least [of x "\<lambda>i. k \<le> i \<and> child_at c i \<noteq> None"] that by (auto simp: i_def)
  ultimately show ?thesis using that by blast
qed

lemma trailing_zeros_one_bit: "k < 16 \<Longrightarrow> trailing_zeros (push_bit k 1 :: u16) = k"
  by (rule trailing_zeros_eqI) (simp_all add: bit_one_bit16 del: push_bit_of_1)

lemma leading_zeros_one_bit: "k < 16 \<Longrightarrow> leading_zeros (push_bit k 1 :: u16) = 15 - k"
  using leading_zeros_eqI [of "push_bit k 1 :: u16" k] by (simp add: bit_one_bit16 del: push_bit_of_1)

lemma bitmap_bit: "bit (fst (bitmaps_of c)) i \<longleftrightarrow> i < 16 \<and> child_at c i \<noteq> None"
  using bit_bitmaps_of(1) [of i c] bit_imp_le_length [of "fst (bitmaps_of c)" i] by auto

lemma leading_zeros_bitmap:
  assumes "child_at c j \<noteq> None" and "j < 16" and "\<And>i. i < 16 \<Longrightarrow> j < i \<Longrightarrow> child_at c i = None"
  shows "leading_zeros (fst (bitmaps_of c)) = 15 - j"
  using leading_zeros_eqI [of "fst (bitmaps_of c)" j] assms by (auto simp: bitmap_bit)

lemma trailing_zeros_bitmap:
  assumes "child_at c j \<noteq> None" and "j < 16" and "\<And>i. i < j \<Longrightarrow> child_at c i = None"
  shows "trailing_zeros (fst (bitmaps_of c)) = j"
  using trailing_zeros_eqI [of "fst (bitmaps_of c)" j] assms by (auto simp: bitmap_bit)

lemma last_child_exists:
  assumes "child_at c k \<noteq> None" and "k < 16"
  obtains j where "k \<le> j" "j < 16" "child_at c j \<noteq> None" "\<And>i. i < 16 \<Longrightarrow> j < i \<Longrightarrow> child_at c i = None"
proof -
  let ?S = "{i. i < 16 \<and> child_at c i \<noteq> None}"
  have f: "finite ?S" "?S \<noteq> {}" using assms by auto
  define j where "j = Max ?S"
  have j: "j \<in> ?S" unfolding j_def by (rule Max_in [OF f])
  have ge: "i \<le> j" if "i \<in> ?S" for i unfolding j_def by (rule Max_ge [OF f(1) that])
  show ?thesis
  proof (rule that [of j])
    show "k \<le> j" using ge assms by simp
    show "child_at c i = None" if "i < 16" "j < i" for i using ge [of i] that by (cases "child_at c i") auto
  qed (use j in auto)
qed

section \<open>The leaves in order\<close>

primrec leaves :: "nat \<Rightarrow> ('k, 'v) entries \<Rightarrow> ('k, 'v) SmtLeafNode list" where
  "leaves 0 m = (if m = Map.empty then [] else [the_leaf m])"
| "leaves (Suc r) m =
     (if m = Map.empty then [] else if single m then [the_leaf m]
      else concat (map (\<lambda>i. leaves r (sub (63 - r) (word_of_nat i) m)) [0..<16]))"

definition leaves_from :: "nat \<Rightarrow> ('k, 'v) entries \<Rightarrow> nat \<Rightarrow> ('k, 'v) SmtLeafNode list" where
  "leaves_from r m k = concat (map (\<lambda>i. leaves r (sub (63 - r) (word_of_nat i) m)) [k..<16])"

lemma leaves_empty [simp]: "leaves r Map.empty = []"
  by (cases r) simp_all

lemma leaves_single [simp]: "single m \<Longrightarrow> leaves r m = [the_leaf m]"
  by (cases r) auto

lemma leaves_branch: "m \<noteq> Map.empty \<Longrightarrow> \<not> single m \<Longrightarrow> leaves (Suc r) m = leaves_from r m 0"
  by (simp add: leaves_from_def)

declare leaves.simps(2) [simp del]

lemma leaves_from_step: "k < 16 \<Longrightarrow> leaves_from r m k = leaves r (sub (63 - r) (word_of_nat k) m) @ leaves_from r m (Suc k)"
  by (simp add: leaves_from_def upt_conv_Cons)

lemma child_at_canon: "child_at (canon_children env r m) i = None \<longleftrightarrow> sub (63 - r) (word_of_nat i) m = Map.empty"
  by (simp add: child_at_def canon_children_apply)

lemma leaves_from_skip:
  assumes "k \<le> j" and "j \<le> 16" and "\<forall>i \<in> {k..<j}. child_at (canon_children env r m) i = None"
  shows "leaves_from r m k = leaves_from r m j"
proof -
  have "[k..<16] = [k..<j] @ [j..<16]" using assms(1,2) upt_add_eq_append [of k j "16 - j"] by simp
  moreover have "concat (map (\<lambda>i. leaves r (sub (63 - r) (word_of_nat i) m)) [k..<j]) = []"
    using assms(3) by (auto simp: child_at_canon concat_eq_Nil_conv)
  ultimately show ?thesis by (simp add: leaves_from_def)
qed

lemma leaves_nonempty: "position_ok env r m \<Longrightarrow> m \<noteq> Map.empty \<Longrightarrow> leaves r m \<noteq> []"
proof (induction r arbitrary: m)
  case (Suc r)
  show ?case
  proof (cases "single m")
    case False
    obtain h where h: "h \<in> dom m" using Suc.prems(2) by fastforce
    define n where "n = hash_nibbles h ! (63 - r)"
    have n16: "unat n < 16"
    proof -
      have "n \<in> set (hash_nibbles h)" using position_ok_length [OF Suc.prems(1) h] by (simp add: n_def)
      then show ?thesis using hash_nibbles_less [of n h] by (simp add: word_less_nat_alt)
    qed
    have "sub (63 - r) n m \<noteq> Map.empty" using h by (auto simp: sub_empty_iff n_def)
    then have "leaves r (sub (63 - r) n m) \<noteq> []" using Suc.IH position_ok_sub [OF Suc.prems(1)] by blast
    then show ?thesis
      using n16 leaves_branch [OF Suc.prems(2) False, of r] by (auto simp: leaves_from_def intro!: bexI [of _ "unat n"])
  qed simp
qed simp

section \<open>The stack\<close>

text \<open>
  A frame describes an entry of the stack: a branching map, the number of nibbles left below it and
  the child that is visited next.
\<close>

type_synonym ('k, 'v) frame = "nat \<times> ('k, 'v) entries \<times> nat"

definition frame_ok ::
    "('k, 'v) smt_env \<Rightarrow> ('k, 'v) node_reader \<Rightarrow> ('k, 'v) frame \<Rightarrow> NodeVisitInfo \<Rightarrow> bool" where
  "frame_ok env reader = (\<lambda>(r, m, k) info.
     position_ok env (Suc r) m \<and> m \<noteq> Map.empty \<and> \<not> single m \<and> stored env (reader_get_node reader) (Suc r) m \<and>
     vi_node info = \<lparr>in_children = canon_children env r m\<rparr> \<and>
     vi_children_bitmap info = fst (bitmaps_of (canon_children env r m)) \<and>
     vi_next_child_to_visit info = push_bit k 1 \<and> k < 16 \<and> child_at (canon_children env r m) k \<noteq> None)"

text \<open>The leaves to come: below the top frame from its next child on, below the others after it.\<close>

definition later :: "('k, 'v) frame list \<Rightarrow> ('k, 'v) SmtLeafNode list" where
  "later frames = concat (map (\<lambda>(r, m, k). leaves_from r m (Suc k)) frames)"

fun pending :: "('k, 'v) frame list \<Rightarrow> ('k, 'v) SmtLeafNode list" where
  "pending [] = []"
| "pending ((r, m, k) # frames) = leaves_from r m k @ later frames"

lemma later_simps [simp]: "later [] = []" "later ((r, m, k) # frames) = leaves_from r m (Suc k) @ later frames"
  by (simp_all add: later_def)

lemma branch_child:
  assumes "position_ok env (Suc r) m" and "m \<noteq> Map.empty"
  obtains k where "k < 16" "child_at (canon_children env r m) k \<noteq> None"
proof -
  obtain h where h: "h \<in> dom m" using assms(2) by fastforce
  define n where "n = hash_nibbles h ! (63 - r)"
  have "n \<in> set (hash_nibbles h)" using position_ok_length [OF assms(1) h] by (simp add: n_def)
  then have "unat n < 16" using hash_nibbles_less [of n h] by (simp add: word_less_nat_alt)
  moreover have "sub (63 - r) n m \<noteq> Map.empty" using h by (auto simp: sub_empty_iff n_def)
  ultimately show ?thesis using that [of "unat n"] by (simp add: child_at_canon)
qed

lemma is_rightmost_eq:
  assumes "frame_ok env reader (r, m, k) info"
  shows "is_rightmost info = Inr (\<forall>i \<in> {Suc k..<16}. child_at (canon_children env r m) i = None)"
proof -
  let ?c = "canon_children env r m"
  have k: "k < 16" "child_at ?c k \<noteq> None" using assms by (auto simp: frame_ok_def)
  obtain j where j: "k \<le> j" "j < 16" "child_at ?c j \<noteq> None" "\<And>i. i < 16 \<Longrightarrow> j < i \<Longrightarrow> child_at ?c i = None"
    using last_child_exists [OF k(2,1)] by blast
  have "leading_zeros (vi_children_bitmap info) = 15 - j" "leading_zeros (vi_next_child_to_visit info) = 15 - k"
    using assms leading_zeros_bitmap [OF j(3,2,4)] leading_zeros_one_bit [OF k(1)] by (auto simp: frame_ok_def)
  moreover have "(\<forall>i \<in> {Suc k..<16}. child_at ?c i = None) \<longleftrightarrow> j = k"
    using j by (metis Suc_leI atLeastLessThan_iff le_neq_implies_less Suc_le_eq)
  ultimately show ?thesis using j(1,2) by (simp add: is_rightmost_def assert_that_def) linarith
qed

lemma visit_advance_eq:
  assumes "frame_ok env reader (r, m, k) info" and "\<not> (\<forall>i \<in> {Suc k..<16}. child_at (canon_children env r m) i = None)"
  obtains j where "visit_advance info = Inr (info\<lparr>vi_next_child_to_visit := push_bit j 1\<rparr>)"
    and "frame_ok env reader (r, m, j) (info\<lparr>vi_next_child_to_visit := push_bit j 1\<rparr>)"
    and "leaves_from r m (Suc k) = leaves_from r m j"
proof -
  let ?c = "canon_children env r m"
  from assms(2) obtain i where i: "Suc k \<le> i" "i < 16" "child_at ?c i \<noteq> None" by auto
  obtain j where j: "Suc k \<le> j" "j \<le> i" "child_at ?c j \<noteq> None" "\<forall>x \<in> {Suc k..<j}. child_at ?c x = None"
    using next_child_exists [OF i(3,1)] by blast
  have f: "vi_children_bitmap info = fst (bitmaps_of ?c)" "vi_next_child_to_visit info = push_bit k 1"
    using assms(1) by (auto simp: frame_ok_def)
  have "seek_child 16 (vi_children_bitmap info) (push_bit 1 (vi_next_child_to_visit info)) = Inr (push_bit j 1)"
    unfolding f push_push by (rule seek_child_eq [OF j(3) _ j(1,4)]) (use i(2) j(2) in auto)
  then have "visit_advance info = Inr (info\<lparr>vi_next_child_to_visit := push_bit j 1\<rparr>)"
    unfolding visit_advance_def is_rightmost_eq [OF assms(1)] using assms(2)
    by (simp add: assert_that_def del: push_bit_of_1)
  moreover have "frame_ok env reader (r, m, j) (info\<lparr>vi_next_child_to_visit := push_bit j 1\<rparr>)"
    using assms(1) j(2,3) i(2) by (simp add: frame_ok_def del: push_bit_of_1)
  moreover have "leaves_from r m (Suc k) = leaves_from r m j"
    by (rule leaves_from_skip [OF j(1) _ j(4)]) (use i(2) j(2) in simp)
  ultimately show ?thesis using that by blast
qed

lemma cleanup_stack_eq:
  assumes "list_all2 (frame_ok env reader) frames stack"
  shows "\<exists>frames' stack'. cleanup_stack stack = Inr stack' \<and> list_all2 (frame_ok env reader) frames' stack' \<and>
    pending frames' = later frames"
  using assms
proof (induction frames stack rule: list_all2_induct)
  case Nil
  then show ?case by (intro exI [of _ "[]"]) simp
next
  case (Cons frame frames info stack)
  obtain r m k where fr: "frame = (r, m, k)" by (metis prod_cases3)
  note ok = Cons(1) [unfolded fr]
  show ?case
  proof (cases "\<forall>i \<in> {Suc k..<16}. child_at (canon_children env r m) i = None")
    case True
    have "leaves_from r m (Suc k) = leaves_from r m 16"
      by (rule leaves_from_skip [OF _ _ True]) (use ok in \<open>auto simp: frame_ok_def\<close>)
    then have "leaves_from r m (Suc k) = []" by (simp add: leaves_from_def)
    with Cons.IH True show ?thesis by (simp add: is_rightmost_eq [OF ok] fr)
  next
    case False
    obtain j where j: "visit_advance info = Inr (info\<lparr>vi_next_child_to_visit := push_bit j 1\<rparr>)"
      "frame_ok env reader (r, m, j) (info\<lparr>vi_next_child_to_visit := push_bit j 1\<rparr>)"
      "leaves_from r m (Suc k) = leaves_from r m j"
      using visit_advance_eq [OF ok False] by blast
    have "cleanup_stack (info # stack) = Inr (info\<lparr>vi_next_child_to_visit := push_bit j 1\<rparr> # stack)"
      unfolding cleanup_stack.simps is_rightmost_eq [OF ok] and_then_Inr if_not_P [OF False] j(1) ..
    then show ?thesis using j(2,3) Cons(2) fr
      by (intro exI [of _ "(r, m, j) # frames"] exI [of _ "info\<lparr>vi_next_child_to_visit := push_bit j 1\<rparr> # stack"])
        (simp del: push_bit_of_1)
  qed
qed

section \<open>The next leaf\<close>

lemma visit_info_new_eq:
  assumes "position_ok env (Suc r) m" and "m \<noteq> Map.empty" and "\<not> single m" and "stored env (reader_get_node reader) (Suc r) m"
  shows "\<exists>info k. visit_info_new key \<lparr>in_children = canon_children env r m\<rparr> = Inr info \<and>
    frame_ok env reader (r, m, k) info \<and> leaves (Suc r) m = leaves_from r m k"
proof -
  let ?c = "canon_children env r m"
  obtain i where i: "i < 16" "child_at ?c i \<noteq> None" using branch_child [OF assms(1,2)] by blast
  obtain k where k: "0 \<le> k" "k \<le> i" "child_at ?c k \<noteq> None" "\<forall>x \<in> {0..<k}. child_at ?c x = None"
    using next_child_exists [OF i(2), of 0] by blast
  have k16: "k < 16" using k(2) i(1) by simp
  have tz: "trailing_zeros (fst (bitmaps_of ?c)) = k" by (rule trailing_zeros_bitmap [OF k(3) k16]) (use k(4) in auto)
  have "leaves (Suc r) m = leaves_from r m k"
    unfolding leaves_branch [OF assms(2,3)] by (rule leaves_from_skip [OF k(1) _ k(4)]) (use k16 in simp)
  moreover have "visit_info_new key \<lparr>in_children = ?c\<rparr> = Inr \<lparr>vi_node_key = key, vi_node = \<lparr>in_children = ?c\<rparr>,
      vi_children_bitmap = fst (bitmaps_of ?c), vi_next_child_to_visit = push_bit k 1\<rparr>"
    unfolding visit_info_new_def generate_bitmaps_eq using tz k16
    by (simp add: checked_shl_def split_beta del: push_bit_of_1)
  ultimately show ?thesis using assms k(3) k16 by (auto simp: frame_ok_def simp del: push_bit_of_1)
qed

lemma iter_next_loop_eq:
  assumes "frame_ok env reader (r, m, k) info" and "list_all2 (frame_ok env reader) frames stack" and "r < fuel"
  shows "\<exists>l rest frames' stack'. iter_next_loop fuel reader (info # stack) = Inr (Some (Inr (ln_key l, ln_value l)), stack') \<and>
    pending ((r, m, k) # frames) = l # rest \<and> list_all2 (frame_ok env reader) frames' stack' \<and> pending frames' = rest"
  using assms
proof (induction fuel arbitrary: r m k info frames stack)
  case (Suc fuel)
  let ?c = "canon_children env r m"
  define s where "s = sub (63 - r) (word_of_nat k) m"
  have f: "position_ok env (Suc r) m" "\<not> single m" "stored env (reader_get_node reader) (Suc r) m"
    "vi_node info = \<lparr>in_children = ?c\<rparr>" "vi_next_child_to_visit info = push_bit k 1" "k < 16" "child_at ?c k \<noteq> None"
    using Suc.prems(1) by (auto simp: frame_ok_def)
  have s: "s \<noteq> Map.empty" using f(7) by (simp add: child_at_canon s_def)
  have ps: "position_ok env r s" unfolding s_def by (rule position_ok_sub [OF f(1)])
  have sts: "stored env (reader_get_node reader) r s" unfolding s_def by (rule stored_sub [OF f(3,2)])
  define ch where "ch = \<lparr>ch_hash = nhash env (canon env r s), ch_is_leaf = single s\<rparr>"
  have ck: "in_child (vi_node info) (word_of_nat k) = Some ch"
    using s by (simp add: f(4) in_child_def canon_children_apply s_def ch_def)
  have nb: "nibble_from (word_of_nat (trailing_zeros (vi_next_child_to_visit info))) = Inr (word_of_nat k)"
    unfolding f(5) trailing_zeros_one_bit [OF f(6)] by (rule nibble_from_of_nat [OF f(6)])
  have get: "reader_get_node reader (ch_hash ch) = Inr (canon env r s)" using stored_node [OF sts s] by (simp add: ch_def)
  have pend: "pending ((r, m, k) # frames) = leaves r s @ later ((r, m, k) # frames)"
    using leaves_from_step [OF f(6), of r m] by (simp add: s_def)
  show ?case
  proof (cases "single s")
    case True
    then have cs: "canon env r s = Leaf_Node (the_leaf s)" by simp
    obtain frames' stack' where c: "cleanup_stack (info # stack) = Inr stack'" "list_all2 (frame_ok env reader) frames' stack'"
        "pending frames' = later ((r, m, k) # frames)"
      using cleanup_stack_eq [of env reader "(r, m, k) # frames" "info # stack"] Suc.prems(1,2) by auto
    have "iter_next_loop (Suc fuel) reader (info # stack) = Inr (Some (Inr (ln_key (the_leaf s), ln_value (the_leaf s))), stack')"
      unfolding iter_next_loop.simps nb and_then_Inr ck expect_simps Let_def get cs using c(1) by (simp del: cleanup_stack.simps)
    then show ?thesis using pend c(2,3) True by auto
  next
    case False
    then obtain q where r: "r = Suc q" using s ps by (cases r) (auto dest: position_ok_0_single)
    have cs: "canon env r s = Internal_Node \<lparr>in_children = canon_children env q s\<rparr>" unfolding r by (rule canon_branch [OF s False])
    obtain info' k' where v: "visit_info_new (ch_hash ch) \<lparr>in_children = canon_children env q s\<rparr> = Inr info'"
        "frame_ok env reader (q, s, k') info'" "leaves r s = leaves_from q s k'"
      using visit_info_new_eq [of env q s reader] ps s False sts r by blast
    have "iter_next_loop (Suc fuel) reader (info # stack) = iter_next_loop fuel reader (info' # info # stack)"
      unfolding iter_next_loop.simps nb and_then_Inr ck expect_simps Let_def get cs using v(1) by simp
    moreover have "pending ((r, m, k) # frames) = pending ((q, s, k') # (r, m, k) # frames)" using pend v(3) by simp
    ultimately show ?thesis
      using Suc.IH [OF v(2), of "(r, m, k) # frames" "info # stack"] Suc.prems r by auto
  qed
qed simp

text \<open>
  What an iterator over the tree of a map stands for: the leaves it has still to return.
\<close>

definition iter_inv ::
    "('k, 'v) smt_env \<Rightarrow> ('k, 'v) node_reader \<Rightarrow> HashValue \<Rightarrow> ('k, 'v) entries \<Rightarrow> JellyfishMerkleIterator \<Rightarrow>
     ('k, 'v) SmtLeafNode list \<Rightarrow> bool" where
  "iter_inv env reader root m it rest \<longleftrightarrow>
     it_state_root_hash it = root \<and>
     (if it_done it then rest = []
      else if single m then it_parent_stack it = [] \<and> rest = [the_leaf m]
      else m \<noteq> Map.empty \<and>
        (\<exists>frames. list_all2 (frame_ok env reader) frames (it_parent_stack it) \<and> pending frames = rest))"

lemma pending_Nil:
  assumes "list_all2 (frame_ok env reader) frames stack" and "pending frames = []"
  shows "frames = []"
proof (rule ccontr)
  assume "frames \<noteq> []"
  then obtain r m k fs info st where f: "frames = (r, m, k) # fs" "frame_ok env reader (r, m, k) info"
    using assms(1) by (cases frames; cases stack) auto
  then have "leaves r (sub (63 - r) (word_of_nat k) m) \<noteq> []" "k < 16"
    using leaves_nonempty [OF position_ok_sub, of env r m "word_of_nat k"] by (auto simp: frame_ok_def child_at_canon)
  then show False using assms(2) f(1) leaves_from_step [of k r m] by simp
qed

lemma iter_next_eq:
  assumes "iter_inv env reader root m it rest" and "represents env reader root m" and "64 \<le> fuel"
  shows "rest = [] \<Longrightarrow> iter_next fuel reader it = Inr (None, it)"
    and "rest = l # ls \<Longrightarrow> \<exists>it'. iter_next fuel reader it = Inr (Some (Inr (ln_key l, ln_value l)), it') \<and> iter_inv env reader root m it' ls"
proof -
  have root: "m \<noteq> Map.empty \<Longrightarrow> reader_get_node reader root = Inr (canon env 64 m)"
    using assms(2) stored_node by (auto simp: represents_def)
  have it: "it_state_root_hash it = root" using assms(1) by (simp add: iter_inv_def)
  have branch: "\<exists>node. canon env 64 m = Internal_Node node" if "m \<noteq> Map.empty" "\<not> single m"
    using canon_branch [OF that, of env 63] by simp
  show "iter_next fuel reader it = Inr (None, it)" if r: "rest = []"
  proof (cases "it_done it")
    case False
    with assms(1) r have m: "\<not> single m" "m \<noteq> Map.empty" "\<exists>frames. list_all2 (frame_ok env reader) frames (it_parent_stack it) \<and> pending frames = []"
      by (auto simp: iter_inv_def split: if_splits)
    then have "it_parent_stack it = []" using pending_Nil by fastforce
    with False root [OF m(2)] branch [OF m(2,1)] it show ?thesis by (auto simp: iter_next_def)
  qed (simp add: iter_next_def)
  show "\<exists>it'. iter_next fuel reader it = Inr (Some (Inr (ln_key l, ln_value l)), it') \<and> iter_inv env reader root m it' ls" if r: "rest = l # ls"
  proof -
    have nd: "\<not> it_done it" using assms(1) r by (auto simp: iter_inv_def)
    show ?thesis
    proof (cases "single m")
      case True
      then have "it_parent_stack it = []" "l = the_leaf m" "ls = []" using assms(1) nd r by (auto simp: iter_inv_def)
      moreover have "m \<noteq> Map.empty" using True by auto
      ultimately show ?thesis using nd root it True by (auto simp: iter_next_def iter_inv_def)
    next
      case False
      then obtain frames where fr: "m \<noteq> Map.empty" "list_all2 (frame_ok env reader) frames (it_parent_stack it)" "pending frames = l # ls"
        using assms(1) nd r by (auto simp: iter_inv_def)
      then obtain q t k fs info st where f: "frames = (q, t, k) # fs" "it_parent_stack it = info # st"
          "frame_ok env reader (q, t, k) info" "list_all2 (frame_ok env reader) fs st"
        by (cases frames; cases "it_parent_stack it") auto
      have "q < fuel" using f(3) assms(3) by (auto simp: frame_ok_def position_ok_def)
      from iter_next_loop_eq [OF f(3,4) this] fr(3) f(1)
      obtain frames' stack' where "iter_next_loop fuel reader (info # st) = Inr (Some (Inr (ln_key l, ln_value l)), stack')"
          "list_all2 (frame_ok env reader) frames' stack'" "pending frames' = ls" by auto
      then show ?thesis using nd f(2) False fr(1) it by (auto simp: iter_next_def iter_inv_def)
    qed
  qed
qed

section \<open>The order of the key hashes\<close>

lemma lex_less_irrefl: "\<not> lex_less xs xs"
  by (induction xs) auto

lemma lex_less_asym: "lex_less xs ys \<Longrightarrow> \<not> lex_less ys xs"
  by (induction xs ys rule: lex_less.induct) auto

lemma lex_less_trans: "lex_less xs ys \<Longrightarrow> lex_less ys zs \<Longrightarrow> lex_less xs zs"
proof (induction xs ys arbitrary: zs rule: lex_less.induct)
  case (1 x xs y ys)
  then show ?case by (cases zs) auto
next
  case (2 y ys)
  then show ?case by (cases zs) auto
qed simp

lemma lex_lessI:
  assumes "i < length xs" and "i < length ys" and "take i xs = take i ys" and "xs ! i < ys ! i"
  shows "lex_less xs ys"
  using assms
proof (induction i arbitrary: xs ys)
  case 0
  then show ?case by (cases xs; cases ys) auto
next
  case (Suc i)
  then show ?case by (cases xs; cases ys) auto
qed

lemma byte_split: "unat b = 16 * unat (drop_bit 4 b) + unat (b AND 15)" for b :: u8
proof -
  have "b AND 15 = take_bit 4 b" by (simp add: take_bit_eq_mask mask_eq_exp_minus_1)
  then have "unat (b AND 15) = unat b mod 16" by (simp add: take_bit_eq_mod unat_mod)
  moreover have "unat (drop_bit 4 b) = unat b div 16" by (simp add: unat_drop_bit)
  ultimately show ?thesis by simp
qed

lemma nibble_order:
  assumes "hash_value g" and "hash_value h" and "d < 64"
    and "take d (hash_nibbles g) = take d (hash_nibbles h)" and "hash_nibbles g ! d < hash_nibbles h ! d"
  shows "lex_less g h"
proof -
  have len: "length g = 32" "length h = 32" using assms(1,2) by (simp_all add: hash_value_length)
  have nth: "hash_nibbles x ! i = nib (x ! (i div 2)) i" if "length x = 32" "i < 64" for x i
    using that by (simp add: hash_nibbles_def nth_nibbles_of)
  define i where "i = d div 2"
  have same: "hash_nibbles g ! x = hash_nibbles h ! x" if "x < d" for x
    using arg_cong [OF assms(4), of "\<lambda>xs. xs ! x"] that by simp
  have hi: "drop_bit 4 (g ! x) = drop_bit 4 (h ! x)" if "2 * x < d" for x
    using same [OF that] nth [OF len(1), of "2 * x"] nth [OF len(2), of "2 * x"] that assms(3) by (simp add: nib_even)
  have lo: "g ! x AND 15 = h ! x AND 15" if "Suc (2 * x) < d" for x
    using same [OF that] nth [OF len(1), of "Suc (2 * x)"] nth [OF len(2), of "Suc (2 * x)"] that assms(3) by (simp add: nib_odd)
  have "take i g = take i h"
  proof (rule nth_equalityI)
    fix x
    assume "x < length (take i g)"
    then have x: "x < i" "2 * x < d" "Suc (2 * x) < d" by (auto simp: i_def)
    show "take i g ! x = take i h ! x" using byte_from_nibs [OF hi [OF x(2)] lo [OF x(3)]] x(1) by simp
  qed (use len in simp)
  moreover have "g ! i < h ! i"
  proof (cases "even d")
    case True
    then have "drop_bit 4 (g ! i) < drop_bit 4 (h ! i)"
      using assms(5) nth [OF len(1) assms(3)] nth [OF len(2) assms(3)] by (simp add: nib_even i_def)
    then have "unat (drop_bit 4 (g ! i)) < unat (drop_bit 4 (h ! i))" by (simp add: word_less_nat_alt)
    moreover have "unat (g ! i AND 15) < 16" using and_15_less_16 [of "g ! i"] by (simp add: word_less_nat_alt)
    ultimately show ?thesis using byte_split [of "g ! i"] byte_split [of "h ! i"] by (simp add: word_less_nat_alt)
  next
    case False
    then have d: "2 * i < d" by (auto simp: i_def elim!: oddE)
    have "g ! i AND 15 < h ! i AND 15"
      using assms(5) nth [OF len(1) assms(3)] nth [OF len(2) assms(3)] False by (simp add: nib_odd i_def)
    then show ?thesis
      using hi [OF d] byte_split [of "g ! i"] byte_split [of "h ! i"] by (simp add: word_less_nat_alt)
  qed
  moreover have "i < 32" using assms(3) by (simp add: i_def)
  ultimately show ?thesis using lex_lessI [of i g h] len by simp
qed

lemma ran_sub: "l \<in> ran (sub d n m) \<longleftrightarrow> (\<exists>h. m h = Some l \<and> hash_nibbles h ! d = n)"
  by (auto simp: ran_def sub_apply)

lemma ran_single: "single m \<Longrightarrow> ran m = {the_leaf m}"
  by (auto simp: single_def ran_def split: if_splits)

lemma nibble_16:
  assumes "hash_value h" and "d < 64"
  shows "unat (hash_nibbles h ! d) < 16"
proof -
  have "hash_nibbles h ! d \<in> set (hash_nibbles h)" using assms by (simp add: length_hash_nibbles)
  then show ?thesis using hash_nibbles_less by (simp add: word_less_nat_alt)
qed

lemma set_leaves: "position_ok env r m \<Longrightarrow> set (leaves r m) = ran m"
proof (induction r arbitrary: m)
  case 0
  then show ?case by (cases "m = Map.empty") (simp_all add: position_ok_0_single ran_single)
next
  case (Suc r)
  show ?case
  proof (cases "m = Map.empty \<or> single m")
    case True
    then show ?thesis by (auto simp: ran_single)
  next
    case False
    have "set (leaves (Suc r) m) = (\<Union>i \<in> {0..<16}. ran (sub (63 - r) (word_of_nat i) m))"
      using leaves_branch [of m r] False Suc.IH [OF position_ok_sub [OF Suc.prems]] by (simp add: leaves_from_def)
    also have "\<dots> = ran m"
    proof
      show "ran m \<subseteq> (\<Union>i \<in> {0..<16}. ran (sub (63 - r) (word_of_nat i) m))"
      proof
        fix l
        assume "l \<in> ran m"
        then obtain h where h: "m h = Some l" by (auto simp: ran_def)
        then have "hash_value h" using entries_ok_hash [OF position_ok_entries [OF Suc.prems]] by blast
        then have "unat (hash_nibbles h ! (63 - r)) \<in> {0..<16}" by (simp add: nibble_16)
        moreover have "l \<in> ran (sub (63 - r) (word_of_nat (unat (hash_nibbles h ! (63 - r)))) m)"
          using h by (auto simp: ran_sub)
        ultimately show "l \<in> (\<Union>i \<in> {0..<16}. ran (sub (63 - r) (word_of_nat i) m))" by blast
      qed
    qed (auto simp: ran_def sub_apply split: if_splits)
    finally show ?thesis .
  qed
qed

lemma part_keys:
  assumes "position_ok env (Suc r) m" and "i < 16" and "l \<in> set (leaves r (sub (63 - r) (word_of_nat i) m))"
  shows "ln_key_hash env l \<in> dom m" and "unat (hash_nibbles (ln_key_hash env l) ! (63 - r)) = i" and "hash_value (ln_key_hash env l)"
proof -
  have "l \<in> ran (sub (63 - r) (word_of_nat i) m)" using assms(3) set_leaves [OF position_ok_sub [OF assms(1)]] by blast
  then obtain h where h: "m h = Some l" "hash_nibbles h ! (63 - r) = word_of_nat i" by (auto simp: ran_sub)
  moreover have "ln_key_hash env l = h" "hash_value h"
    using position_ok_entries [OF assms(1)] h(1) by (auto simp: entries_ok_def)
  ultimately show "ln_key_hash env l \<in> dom m" "unat (hash_nibbles (ln_key_hash env l) ! (63 - r)) = i" "hash_value (ln_key_hash env l)"
    using unat_nibble_of_nat [OF assms(2)] by auto
qed

abbreviation key_order :: "('k, 'v) smt_env \<Rightarrow> ('k, 'v) SmtLeafNode \<Rightarrow> ('k, 'v) SmtLeafNode \<Rightarrow> bool" where
  "key_order env a b \<equiv> lex_less (ln_key_hash env a) (ln_key_hash env b)"

lemma sorted_concat:
  assumes "\<And>i. i \<in> set xs \<Longrightarrow> sorted_wrt P (f i)" and "sorted_wrt (<) xs"
    and "\<And>i j a b. i \<in> set xs \<Longrightarrow> j \<in> set xs \<Longrightarrow> i < j \<Longrightarrow> a \<in> set (f i) \<Longrightarrow> b \<in> set (f j) \<Longrightarrow> P a b"
  shows "sorted_wrt P (concat (map f (xs :: nat list)))"
  using assms
proof (induction xs)
  case (Cons x xs)
  have "sorted_wrt P (concat (map f xs))"
  proof (rule Cons.IH)
    show "sorted_wrt P (f i)" if "i \<in> set xs" for i using Cons.prems(1) that by simp
    show "sorted_wrt (<) xs" using Cons.prems(2) by simp
    show "P a b" if "i \<in> set xs" "j \<in> set xs" "i < j" "a \<in> set (f i)" "b \<in> set (f j)" for i j a b
      using Cons.prems(3) [of i j a b] that by simp
  qed
  moreover have "P a b" if "a \<in> set (f x)" "j \<in> set xs" "b \<in> set (f j)" for a b j
    using Cons.prems(3) [of x j a b] Cons.prems(2) that by simp
  ultimately show ?case using Cons.prems(1) [of x] by (auto simp: sorted_wrt_append)
qed simp

lemma sorted_leaves:
  "position_ok env r m \<Longrightarrow> sorted_wrt (key_order env) (leaves r m)"
proof (induction r arbitrary: m)
  case (Suc r)
  show ?case
  proof (cases "m = Map.empty \<or> single m")
    case False
    have "sorted_wrt (key_order env) (concat (map (\<lambda>i. leaves r (sub (63 - r) (word_of_nat i) m)) [0..<16]))"
    proof (rule sorted_concat)
      show "sorted_wrt (key_order env) (leaves r (sub (63 - r) (word_of_nat i) m))" for i
        by (rule Suc.IH [OF position_ok_sub [OF Suc.prems]])
      fix i j a b
      assume ij: "i \<in> set [0..<16]" "j \<in> set [0..<16]" "i < (j :: nat)"
        and ab: "a \<in> set (leaves r (sub (63 - r) (word_of_nat i) m))" "b \<in> set (leaves r (sub (63 - r) (word_of_nat j) m))"
      have i16: "i < 16" "j < 16" using ij by auto
      note a = part_keys [OF Suc.prems i16(1) ab(1)] and b = part_keys [OF Suc.prems i16(2) ab(2)]
      have "take (64 - Suc r) (hash_nibbles (ln_key_hash env a)) = take (64 - Suc r) (hash_nibbles (ln_key_hash env b))"
        by (rule position_ok_take [OF Suc.prems a(1) b(1)])
      then show "key_order env a b"
        using nibble_order [OF a(3) b(3), of "63 - r"] a(2) b(2) ij(3) by (simp add: word_less_nat_alt)
    qed simp
    then show ?thesis using False leaves_branch [of m r] by (simp add: leaves_from_def)
  qed auto
qed simp

section \<open>The start of the iteration\<close>

lemma filter_start:
  assumes "position_ok env (Suc r) m" and "hash_value start" and "n = unat (hash_nibbles start ! (63 - r))"
    and "\<forall>h \<in> dom m. take (63 - r) (hash_nibbles h) = take (63 - r) (hash_nibbles start)" and "m \<noteq> Map.empty" and "\<not> single m"
  shows "filter (\<lambda>l. \<not> lex_less (ln_key_hash env l) start) (leaves (Suc r) m) =
    filter (\<lambda>l. \<not> lex_less (ln_key_hash env l) start) (leaves r (sub (63 - r) (word_of_nat n) m)) @ leaves_from r m (Suc n)"
proof -
  let ?P = "\<lambda>l. \<not> lex_less (ln_key_hash env l) start" and ?L = "\<lambda>i. leaves r (sub (63 - r) (word_of_nat i) m)"
  have n: "n < 16" using assms(2,3) by (simp add: nibble_16)
  have pre: "take (63 - r) (hash_nibbles (ln_key_hash env l)) = take (63 - r) (hash_nibbles start)"
    if "l \<in> set (?L i)" "i < 16" for l i
    using assms(4) part_keys(1) [OF assms(1) that(2,1)] by blast
  have low: "filter ?P (?L i) = []" if i: "i < n" for i
  proof -
    have "lex_less (ln_key_hash env l) start" if l: "l \<in> set (?L i)" for l
      using nibble_order [OF part_keys(3) [OF assms(1) _ l] assms(2) _ pre [OF l]] part_keys(2) [OF assms(1) _ l] i n assms(3)
      by (simp add: word_less_nat_alt)
    then show ?thesis by (simp add: filter_empty_conv)
  qed
  have high: "filter ?P (?L i) = ?L i" if i: "n < i" "i < 16" for i
  proof -
    have "lex_less start (ln_key_hash env l)" if l: "l \<in> set (?L i)" for l
      using nibble_order [OF assms(2) part_keys(3) [OF assms(1) _ l] _ pre [OF l, symmetric]] part_keys(2) [OF assms(1) _ l] i assms(3)
      by (simp add: word_less_nat_alt)
    then show ?thesis using lex_less_asym by (auto simp: filter_id_conv)
  qed
  have split: "[0..<16] = [0..<n] @ n # [Suc n..<16]"
    using n upt_add_eq_append [of 0 n "16 - n"] upt_conv_Cons [of n 16] by simp
  have "filter ?P (concat (map ?L xs)) = concat (map (\<lambda>i. filter ?P (?L i)) xs)" for xs
    by (induction xs) auto
  note dist = this
  have lo: "concat (map (\<lambda>i. filter ?P (?L i)) [0..<n]) = []" using low by (auto simp: concat_eq_Nil_conv)
  have hi: "map (\<lambda>i. filter ?P (?L i)) [Suc n..<16] = map ?L [Suc n..<16]" by (rule map_cong) (use high in auto)
  show ?thesis
    unfolding leaves_branch [OF assms(5,6)] leaves_from_def split map_append concat_append filter_append
      list.map concat.simps dist lo hi by simp
qed

lemma new_next_child_eq:
  assumes "position_ok env (Suc r) m" and "m \<noteq> Map.empty" and "\<not> single m" and "stored env (reader_get_node reader) (Suc r) m"
    and "unat n < 16" and "\<exists>j \<in> {unat n..<16}. child_at (canon_children env r m) j \<noteq> None"
  shows "\<exists>info k. new_next_child_to_visit key \<lparr>in_children = canon_children env r m\<rparr> n = Inr info \<and>
    frame_ok env reader (r, m, k) info \<and> leaves_from r m (unat n) = leaves_from r m k \<and>
    (child_at (canon_children env r m) (unat n) \<noteq> None \<longrightarrow> k = unat n)"
proof -
  let ?c = "canon_children env r m"
  obtain j where j: "unat n \<le> j" "j < 16" "child_at ?c j \<noteq> None" using assms(6) by auto
  obtain k where k: "unat n \<le> k" "k \<le> j" "child_at ?c k \<noteq> None" "\<forall>x \<in> {unat n..<k}. child_at ?c x = None"
    using next_child_exists [OF j(3,1)] by blast
  have k16: "k < 16" using k(2) j(2) by simp
  have sk: "seek_child 16 (fst (bitmaps_of ?c)) (push_bit (unat n) 1) = Inr (push_bit k 1)"
    by (rule seek_child_eq [OF k(3) k16 k(1,4)]) (use k16 in simp)
  have "new_next_child_to_visit key \<lparr>in_children = ?c\<rparr> n = Inr \<lparr>vi_node_key = key, vi_node = \<lparr>in_children = ?c\<rparr>,
      vi_children_bitmap = fst (bitmaps_of ?c), vi_next_child_to_visit = push_bit k 1\<rparr>"
    unfolding new_next_child_to_visit_def generate_bitmaps_eq using sk assms(5)
    by (simp add: checked_shl_def split_beta del: push_bit_of_1)
  moreover have "leaves_from r m (unat n) = leaves_from r m k" by (rule leaves_from_skip [OF k(1) _ k(4)]) (use k16 in simp)
  moreover have "k = unat n" if "child_at ?c (unat n) \<noteq> None"
    using k(1,4) that by (metis atLeastLessThan_iff le_neq_implies_less order_refl)
  ultimately show ?thesis using assms(1-4) k(3) k16 by (auto simp: frame_ok_def simp del: push_bit_of_1)
qed

text \<open>
  The descent to the starting key: below a stack whose top stands at the present node, the result
  stands for the leaves of the node that are not before the key and the rest of the stack.
\<close>

definition started ::
    "('k, 'v) smt_env \<Rightarrow> ('k, 'v) node_reader \<Rightarrow> HashValue \<Rightarrow> HashValue \<Rightarrow> nat \<Rightarrow> ('k, 'v) entries \<Rightarrow> ('k, 'v) frame list \<Rightarrow>
     JellyfishMerkleIterator result \<Rightarrow> bool" where
  "started env reader root start r m frames res \<longleftrightarrow>
     (\<exists>it. res = Inr it \<and> it_state_root_hash it = root \<and>
       (if frames = [] \<and> single m then it_parent_stack it = [] \<and> it_done it = lex_less (ln_key_hash env (the_leaf m)) start
        else (it_done it \<longrightarrow> it_parent_stack it = []) \<and>
          (\<exists>frames'. list_all2 (frame_ok env reader) frames' (it_parent_stack it) \<and>
            pending frames' = filter (\<lambda>l. \<not> lex_less (ln_key_hash env l) start) (leaves r m) @ later frames)))"

lemma iter_new_leaf:
  assumes "single m" and "stored env (reader_get_node reader) r m" and "list_all2 (frame_ok env reader) frames stack"
    and "frames \<noteq> [] \<Longrightarrow> pending frames = leaves r m @ later frames"
  shows "started env reader root start r m frames (iter_new_loop env reader root start (nhash env (canon env r m)) it stack)"
proof -
  let ?l = "the_leaf m"
  have "m \<noteq> Map.empty" using assms(1) by auto
  from stored_node [OF assms(2) this] have get: "reader_get_node reader (nhash env (canon env r m)) = Inr (Leaf_Node ?l)"
    using assms(1) by simp
  have k: "key_merkle_hash env (ln_key ?l) = ln_key_hash env ?l" by (simp add: ln_key_hash_def)
  show ?thesis
  proof (cases "lex_less (ln_key_hash env ?l) start")
    case True
    obtain frames' stack' where c: "cleanup_stack stack = Inr stack'" "list_all2 (frame_ok env reader) frames' stack'"
        "pending frames' = later frames" using cleanup_stack_eq [OF assms(3)] by blast
    have "iter_new_loop env reader root start (nhash env (canon env r m)) it stack =
        Inr \<lparr>it_state_root_hash = root, it_parent_stack = stack', it_done = (stack' = [])\<rparr>"
      by (subst iter_new_loop.simps) (simp add: get k True c(1))
    moreover have "frames = [] \<Longrightarrow> stack' = []" using assms(3) c(1) by simp
    ultimately show ?thesis using True assms(1) c(2,3) by (auto simp: started_def)
  next
    case False
    have "iter_new_loop env reader root start (nhash env (canon env r m)) it stack =
        Inr \<lparr>it_state_root_hash = root, it_parent_stack = stack, it_done = False\<rparr>"
      by (subst iter_new_loop.simps) (simp add: get k False)
    then show ?thesis using False assms by (auto simp: started_def)
  qed
qed

lemma iter_new_loop_eq:
  assumes "hash_value start"
  shows "position_ok env r m \<Longrightarrow> m \<noteq> Map.empty \<Longrightarrow> stored env (reader_get_node reader) r m \<Longrightarrow> on_path r start m \<Longrightarrow>
    list_all2 (frame_ok env reader) frames stack \<Longrightarrow> (frames \<noteq> [] \<Longrightarrow> pending frames = leaves r m @ later frames) \<Longrightarrow>
    started env reader root start r m frames
      (iter_new_loop env reader root start (nhash env (canon env r m)) (ni_advance (64 - r) (key_iter start)) stack)"
proof (induction r arbitrary: m frames stack)
  case 0
  then show ?case by (intro iter_new_leaf) (auto intro: position_ok_0_single)
next
  case (Suc q)
  show ?case
  proof (cases "single m")
    case True
    then show ?thesis using Suc.prems by (intro iter_new_leaf)
  next
    case False
    define d where "d = 63 - q"
    define n where "n = hash_nibbles start ! d"
    define s where "s = sub d n m"
    let ?c = "canon_children env q m" and ?key = "nhash env (canon env (Suc q) m)"
    let ?P = "\<lambda>l. \<not> lex_less (ln_key_hash env l) start"
    have d: "64 - Suc q = d" "64 - q = Suc d" "d < 64" using Suc.prems(1) by (auto simp: position_ok_def d_def)
    have n16: "unat n < 16" unfolding n_def by (rule nibble_16 [OF assms d(3)])
    have get: "reader_get_node reader ?key = Inr (Internal_Node \<lparr>in_children = ?c\<rparr>)"
      using stored_node [OF Suc.prems(3,2)] canon_branch [OF Suc.prems(2) False, of env q] by simp
    note nx = key_iter_next [OF assms d(3), folded n_def]
    have filt: "filter ?P (leaves (Suc q) m) = filter ?P (leaves q s) @ leaves_from q m (Suc (unat n))"
      using filter_start [OF Suc.prems(1) assms _ _ Suc.prems(2) False, of "unat n"] Suc.prems(4)
      by (simp add: on_path_def d_def n_def s_def)
    have step: "leaves_from q m (unat n) = leaves q s @ leaves_from q m (Suc (unat n))"
      using leaves_from_step [OF n16, of q m] by (simp add: s_def d_def)
    have ch: "in_child \<lparr>in_children = ?c\<rparr> n = (if s = Map.empty then None else Some \<lparr>ch_hash = nhash env (canon env q s), ch_is_leaf = single s\<rparr>)"
      by (simp add: in_child_def canon_children_apply s_def d_def)
    have cn: "child_at ?c (unat n) = None \<longleftrightarrow> s = Map.empty" by (simp add: child_at_canon s_def d_def)
    have "started env reader root start (Suc q) m frames (iter_new_loop env reader root start ?key (ni_advance d (key_iter start)) stack)"
    proof (cases "s = Map.empty")
      case sn: False
      have "\<exists>j \<in> {unat n..<16}. child_at ?c j \<noteq> None" using cn sn n16 by (intro bexI [of _ "unat n"]) auto
      then obtain info where info: "new_next_child_to_visit ?key \<lparr>in_children = ?c\<rparr> n = Inr info" "frame_ok env reader (q, m, unat n) info"
        using new_next_child_eq [OF Suc.prems(1,2) False Suc.prems(3) n16, of ?key] cn sn by auto
      have "iter_new_loop env reader root start ?key (ni_advance d (key_iter start)) stack =
          iter_new_loop env reader root start (nhash env (canon env q s)) (ni_advance (64 - q) (key_iter start)) (info # stack)"
        by (subst iter_new_loop.simps) (simp add: get nx ch sn info(1) d(2))
      moreover have "started env reader root start q s ((q, m, unat n) # frames)
          (iter_new_loop env reader root start (nhash env (canon env q s)) (ni_advance (64 - q) (key_iter start)) (info # stack))"
      proof (rule Suc.IH)
        show "position_ok env q s" "stored env (reader_get_node reader) q s"
          using position_ok_sub [OF Suc.prems(1)] stored_sub [OF Suc.prems(3) False] by (simp_all add: s_def d_def)
        show "on_path q start s"
          unfolding s_def d_def by (rule on_path_sub [OF Suc.prems(4,1) assms]) (simp add: n_def d_def)
      qed (use sn info(2) Suc.prems(5) step in auto)
      ultimately show ?thesis using filt False by (auto simp: started_def)
    next
      case True
      obtain i where i: "i < 16" "child_at ?c i \<noteq> None" using branch_child [OF Suc.prems(1,2)] by blast
      obtain j where j: "i \<le> j" "j < 16" "child_at ?c j \<noteq> None" "\<And>x. x < 16 \<Longrightarrow> j < x \<Longrightarrow> child_at ?c x = None"
        using last_child_exists [OF i(2,1)] by blast
      have lz: "leading_zeros (fst (bitmaps_of ?c)) = 15 - j" by (rule leading_zeros_bitmap [OF j(3,2,4)])
      have jn: "j \<noteq> unat n" using j(3) cn True by auto
      show ?thesis
      proof (cases "unat n < j")
        case lt: True
        have "\<exists>j \<in> {unat n..<16}. child_at ?c j \<noteq> None" using j lt by (intro bexI [of _ j]) auto
        then obtain info k where info: "new_next_child_to_visit ?key \<lparr>in_children = ?c\<rparr> n = Inr info" "frame_ok env reader (q, m, k) info"
            "leaves_from q m (unat n) = leaves_from q m k"
          using new_next_child_eq [OF Suc.prems(1,2) False Suc.prems(3) n16, of ?key] by blast
        have "iter_new_loop env reader root start ?key (ni_advance d (key_iter start)) stack =
            Inr \<lparr>it_state_root_hash = root, it_parent_stack = info # stack, it_done = False\<rparr>"
          using lt j(2) by (subst iter_new_loop.simps)
            (simp add: get nx ch True generate_bitmaps_eq split_beta lz info(1) assert_that_def)
        moreover have "pending ((q, m, k) # frames) = filter ?P (leaves (Suc q) m) @ later frames"
          using filt True step info(3) by simp
        ultimately show ?thesis using False info(2) Suc.prems(5) unfolding started_def
          by (auto intro!: exI [of _ "(q, m, k) # frames"])
      next
        case ge: False
        have "leaves_from q m (Suc (unat n)) = leaves_from q m 16"
          by (rule leaves_from_skip [where env = env]) (use n16 j(4) ge jn in auto)
        then have none: "leaves_from q m (Suc (unat n)) = []" by (simp add: leaves_from_def)
        obtain frames' stack' where c: "cleanup_stack stack = Inr stack'" "list_all2 (frame_ok env reader) frames' stack'"
            "pending frames' = later frames" using cleanup_stack_eq [OF Suc.prems(5)] by blast
        have "iter_new_loop env reader root start ?key (ni_advance d (key_iter start)) stack =
            Inr \<lparr>it_state_root_hash = root, it_parent_stack = stack', it_done = False\<rparr>"
          using ge j(2) by (subst iter_new_loop.simps)
            (simp add: get nx ch True generate_bitmaps_eq split_beta lz c(1) assert_that_def)
        then show ?thesis using filt none True False c(2,3) by (auto simp: started_def)
      qed
    qed
    then show ?thesis unfolding d(1) .
  qed
qed

lemma into_iterator_new_eq:
  assumes "represents env reader root m" and "hash_value start"
  shows "\<exists>it. into_iterator_new env reader root start = Inr it \<and>
    iter_inv env reader root m it (filter (\<lambda>l. \<not> lex_less (ln_key_hash env l) start) (leaves 64 m))"
proof -
  have adv: "ni_advance 0 (key_iter start) = key_iter start" by (simp add: ni_advance_def)
  have st: "into_iterator_new env reader root start = iter_new_loop env reader root start root (key_iter start) []"
    using key_iter_eq(1) [OF assms(2)] by (auto simp: into_iterator_new_def)
  have rp: "entries_ok env m" "root = nhash env (canon env 64 m)" "stored env (reader_get_node reader) 64 m"
    "reader_get_node reader SPARSE_MERKLE_PLACEHOLDER_HASH = Inr Null" using assms(1) by (simp_all add: represents_def)
  show ?thesis
  proof (cases "m = Map.empty")
    case True
    then have "iter_new_loop env reader root start root (key_iter start) [] = Inr \<lparr>it_state_root_hash = root, it_parent_stack = [], it_done = True\<rparr>"
      using rp(2,4) by (subst iter_new_loop.simps) simp
    then show ?thesis using st True by (simp add: iter_inv_def)
  next
    case False
    have "started env reader root start 64 m [] (iter_new_loop env reader root start root (key_iter start) [])"
      using iter_new_loop_eq [OF assms(2) position_ok_root [OF rp(1)] False rp(3), of "[]" "[]" root] adv rp(2) by (simp add: on_path_def)
    then show ?thesis using st False unfolding started_def iter_inv_def
      by (auto split: if_splits)
  qed
qed

lemma hash_value_zero: "hash_value hv_zero"
  by (simp add: hash_value_length hv_zero_def LENGTH_BYTES_def)

lemma jm_iterator_new_into:
  "jm_iterator_new env reader root starting_key =
   into_iterator_new env reader root (case starting_key of None \<Rightarrow> hv_zero | Some k \<Rightarrow> key_merkle_hash env k)"
  by (simp add: jm_iterator_new_def into_iterator_new_def Let_def)

lemma not_less_zero: "hash_value h \<Longrightarrow> \<not> lex_less h hv_zero"
proof -
  have "\<not> lex_less h (replicate (length h) (0 :: u8))" by (induction h) auto
  then show "hash_value h \<Longrightarrow> \<not> lex_less h hv_zero" by (simp add: hv_zero_def hash_value_def)
qed

end
