(* ===== verification/Jellyfish_Write.thy ===== *)
theory Jellyfish_Write
  imports Jellyfish_Delta
begin

text \<open>
  The write path refines the update of the map of leaves: \<^verbatim>\<open>insert_at\<close> turns the canonical
  tree of a map into the canonical tree of the updated map, puts into the cache exactly the nodes
  that are new and takes out, or marks stale, exactly the nodes that are gone.
\<close>

section \<open>Leaves\<close>

lemma create_leaf_node_eq:
  assumes "cached c (nhash env (Leaf_Node (smt_leaf_new key b))) = None" and "cache_wf c"
  shows "\<exists>c'. create_leaf_node env key b c =
      (Inr (nhash env (Leaf_Node (smt_leaf_new key b)), Leaf_Node (smt_leaf_new key b)), c') \<and>
    effect env {Leaf_Node (smt_leaf_new key b)} {} c c'"
  using effect_put [OF assms] by (auto simp: create_leaf_node_def smt_new_leaf_def Let_def)

text \<open>The iterators at a leaf, after the key's first \<open>d\<close> nibbles.\<close>

lemma common_len_take:
  assumes "take d xs = take d ys" and "d \<le> length xs" and "d \<le> length ys"
  shows "common_len (take d xs) ys = d"
proof -
  have "common_len (take d ys @ []) (take d ys @ drop d ys) = length (take d ys) + common_len [] (drop d ys)"
    by (rule common_len_append)
  then show ?thesis using assms by simp
qed

lemma leaf_iterators:
  fixes k kh :: HashValue
  assumes "hash_value kh" and "hash_value k" and "d \<le> 64" and "take d (hash_nibbles k) = take d (hash_nibbles kh)"
  defines "e \<equiv> common_len (drop d (hash_nibbles kh)) (drop d (hash_nibbles k))"
  shows "\<exists>v v' b b' p.
    visited_nibbles (ni_advance d (key_iter kh)) = Inr v \<and>
    skip_common_prefix v (key_iter k) = Inr (d, v', ni_advance d (key_iter k)) \<and>
    ni_is_finished v' = Inr True \<and>
    remaining_nibbles (ni_advance d (key_iter k)) = Inr b \<and>
    skip_common_prefix (ni_advance d (key_iter kh)) b = Inr (e, ni_advance (d + e) (key_iter kh), b') \<and>
    ni_wf b' \<and> ni_rest b' = drop (d + e) (hash_nibbles k) \<and>
    and_then (visited_nibbles (ni_advance (d + e) (key_iter kh))) (\<lambda>v. and_then (ni_collect v) np_from_iter) = Inr p \<and>
    np_wf p \<and> nibbles_of p = take (d + e) (hash_nibbles kh) \<and> d + e \<le> 64"
proof -
  note adv = key_iter_advance [OF assms(1,3)] key_iter_advance [OF assms(2,3)]
  have len: "length (hash_nibbles kh) = 64" "length (hash_nibbles k) = 64" using assms(1,2) by (simp_all add: length_hash_nibbles)
  have e: "d + e \<le> 64" using common_len_le(1) [of "drop d (hash_nibbles kh)" "drop d (hash_nibbles k)"] assms(3) len by (simp add: e_def)
  obtain v where v: "visited_nibbles (ni_advance d (key_iter kh)) = Inr v" "ni_wf v" "ni_rest v = take d (hash_nibbles kh)"
    using visited_nibbles_eq [OF adv(1)] adv(3) by auto
  have cl: "common_len (take d (hash_nibbles kh)) (hash_nibbles k) = d"
    using common_len_take [of d "hash_nibbles kh" "hash_nibbles k"] assms(3,4) len by simp
  have s1: "skip_common_prefix v (key_iter k) = Inr (d, ni_advance d v, ni_advance d (key_iter k))"
    using skip_common_prefix_eq [OF v(2) key_iter_eq(2) [OF assms(2)]] v(3) cl by (simp add: key_iter_eq assms(2))
  have "ni_rest (ni_advance d v) = []" "ni_wf (ni_advance d v)"
    using ni_advance_wf [OF v(2), of d] v(3) assms(3) len by simp_all
  then have fin: "ni_is_finished (ni_advance d v) = Inr True" by (simp add: ni_is_finished_eq)
  obtain b where b: "remaining_nibbles (ni_advance d (key_iter k)) = Inr b" "ni_wf b" "ni_rest b = drop d (hash_nibbles k)"
    using remaining_nibbles_eq [OF adv(4)] adv(5) by auto
  have s2: "skip_common_prefix (ni_advance d (key_iter kh)) b = Inr (e, ni_advance e (ni_advance d (key_iter kh)), ni_advance e b)"
    using skip_common_prefix_eq [OF adv(1) b(2)] adv(2) b(3) by (simp add: e_def)
  have aa: "ni_advance e (ni_advance d (key_iter kh)) = ni_advance (d + e) (key_iter kh)" by (simp add: ni_advance_def add.assoc)
  have b': "ni_wf (ni_advance e b)" "ni_rest (ni_advance e b) = drop (d + e) (hash_nibbles k)"
    using ni_advance_wf [OF b(2), of e] b(3) e len by (simp_all add: add.commute)
  obtain w where w: "visited_nibbles (ni_advance (d + e) (key_iter kh)) = Inr w" "ni_wf w" "ni_rest w = take (d + e) (hash_nibbles kh)"
    using visited_nibbles_eq [OF key_iter_advance(1) [OF assms(1) e]] key_iter_advance(3) [OF assms(1) e] by auto
  have "\<forall>n \<in> set (take (d + e) (hash_nibbles kh)). n < 16" by (meson in_set_takeD hash_nibbles_less)
  then obtain p where p: "np_from_iter (take (d + e) (hash_nibbles kh)) = Inr p" "np_wf p" "nibbles_of p = take (d + e) (hash_nibbles kh)"
    using np_from_iter_eq [of "take (d + e) (hash_nibbles kh)"] len e by auto
  have c: "and_then (visited_nibbles (ni_advance (d + e) (key_iter kh))) (\<lambda>v. and_then (ni_collect v) np_from_iter) = Inr p"
    using w p by (simp add: ni_collect_eq)
  show ?thesis using v(1) s1 fin b(1) s2 aa b' c p(2,3) e by auto
qed

lemma common_len_full:
  assumes "length xs = length ys" and "common_len xs ys = length xs"
  shows "xs = ys"
  using common_len_prefix [of xs ys] assms by simp

lemma lift_act_then: "bind_act (lift_act (Inr x)) f = f x"
  by (rule ext) simp

lemma return_act_Pair: "return_act x = Pair (Inr x)"
  by (rule ext) simp

text \<open>The key of the leaf is the key that is put.\<close>

lemma insert_at_same_leaf:
  assumes "hash_value kh" and "kh = key_merkle_hash env key" and "ln_key_hash env l = kh" and "d \<le> 64"
  shows "insert_at_leaf_node env node_key l (ni_advance d (key_iter kh)) key blob c =
    (case blob of
       None \<Rightarrow> bind_act (delete_node node_key True) (\<lambda>_. return_act (SPARSE_MERKLE_PLACEHOLDER_HASH, Null)) c
     | Some b \<Rightarrow>
         if obj_merkle_hash env b = ln_value_hash env l then (Inr (node_key, Leaf_Node l), c)
         else bind_act (delete_node node_key True) (\<lambda>_. create_leaf_node env key b) c)"
proof -
  have e: "common_len xs xs = length xs" for xs :: "Nibble list" by (induction xs) auto
  obtain v v' b b' p where it: "visited_nibbles (ni_advance d (key_iter kh)) = Inr v"
    "skip_common_prefix v (key_iter kh) = Inr (d, v', ni_advance d (key_iter kh))" "ni_is_finished v' = Inr True"
    "remaining_nibbles (ni_advance d (key_iter kh)) = Inr b"
    "skip_common_prefix (ni_advance d (key_iter kh)) b = Inr (64 - d, ni_advance 64 (key_iter kh), b')"
    "ni_wf b'" "ni_rest b' = []"
    "and_then (visited_nibbles (ni_advance 64 (key_iter kh))) (\<lambda>v. and_then (ni_collect v) np_from_iter) = Inr p"
    using leaf_iterators [OF assms(1,1,4) refl] assms(4) by (auto simp: e length_hash_nibbles assms(1))
  have f: "ni_is_finished (ni_advance 64 (key_iter kh)) = Inr True" "ni_is_finished b' = Inr True"
    using key_iter_advance [OF assms(1), of 64] it(6,7) length_hash_nibbles [OF assms(1)] by (simp_all add: ni_is_finished_eq)
  have k: "and_then (np_new (ln_key_hash env l)) np_nibbles = Inr (key_iter kh)"
    using key_iter_eq(1) [OF assms(1)] assms(3) by simp
  show ?thesis
    unfolding insert_at_leaf_node_def it(1) k lift_act_bind it(2) prod.case it(3) assert_that_def if_True it(4) it(5) it(8) f
    by (simp add: new_null_def lift_act_then return_act_Pair split: option.split)
qed

section \<open>Forks\<close>

text \<open>The tree of two leaves: single-child nodes along the common nibbles, then a fork.\<close>

lemma pair_sub_same:
  assumes "hash_nibbles k ! x = n" and "hash_nibbles g ! x = n"
  shows "sub x n [k \<mapsto> l, g \<mapsto> l'] = [k \<mapsto> l, g \<mapsto> l']" and "j \<noteq> n \<Longrightarrow> sub x j [k \<mapsto> l, g \<mapsto> l'] = Map.empty"
  using assms by (auto simp: fun_eq_iff sub_apply)

lemma pair_sub_fork:
  assumes "hash_nibbles k ! x \<noteq> hash_nibbles g ! x"
  shows "sub x (hash_nibbles k ! x) [k \<mapsto> l, g \<mapsto> l'] = [k \<mapsto> l]"
    and "sub x (hash_nibbles g ! x) [k \<mapsto> l, g \<mapsto> l'] = [g \<mapsto> l']"
    and "j \<noteq> hash_nibbles k ! x \<Longrightarrow> j \<noteq> hash_nibbles g ! x \<Longrightarrow> sub x j [k \<mapsto> l, g \<mapsto> l'] = Map.empty"
  using assms by (auto simp: fun_eq_iff sub_apply)

lemma pair_not_single: "k \<noteq> g \<Longrightarrow> \<not> single [k \<mapsto> l, g \<mapsto> l']" and pair_not_empty: "[k \<mapsto> l, g \<mapsto> l'] \<noteq> Map.empty"
proof -
  show "\<not> single [k \<mapsto> l, g \<mapsto> l']" if "k \<noteq> g" using that single_iff [of k "[k \<mapsto> l, g \<mapsto> l']"] by auto
  show "[k \<mapsto> l, g \<mapsto> l'] \<noteq> Map.empty" by (auto simp: fun_eq_iff)
qed

lemma pair_chain_step:
  assumes "k \<noteq> g" and "x < 64" and "hash_nibbles k ! x = n" and "hash_nibbles g ! x = n"
  shows "canon env (64 - x) [k \<mapsto> l, g \<mapsto> l'] =
      Internal_Node \<lparr>in_children = [n \<mapsto> \<lparr>ch_hash = nhash env (canon env (64 - Suc x) [k \<mapsto> l, g \<mapsto> l']), ch_is_leaf = False\<rparr>]\<rparr>"
    and "nodes env (64 - x) [k \<mapsto> l, g \<mapsto> l'] =
      insert (canon env (64 - x) [k \<mapsto> l, g \<mapsto> l']) (nodes env (64 - Suc x) [k \<mapsto> l, g \<mapsto> l'])"
proof -
  let ?P = "[k \<mapsto> l, g \<mapsto> l']"
  define q where "q = 63 - x"
  have q: "64 - x = Suc q" "64 - Suc x = q" "63 - q = x" using assms(2) by (simp_all add: q_def)
  note b = pair_not_empty [where k = k and g = g and l = l and l' = l'] pair_not_single [where l = l and l' = l', OF assms(1)]
  note p = pair_sub_same [where l = l and l' = l', OF assms(3,4)]
  have "canon_children env q ?P = [n \<mapsto> \<lparr>ch_hash = nhash env (canon env q ?P), ch_is_leaf = False\<rparr>]"
  proof (rule ext)
    fix j
    show "canon_children env q ?P j = [n \<mapsto> \<lparr>ch_hash = nhash env (canon env q ?P), ch_is_leaf = False\<rparr>] j"
      using p b by (cases "j = n") (simp_all add: canon_children_apply q(3))
  qed
  then show "canon env (64 - x) ?P = Internal_Node \<lparr>in_children = [n \<mapsto> \<lparr>ch_hash = nhash env (canon env (64 - Suc x) ?P), ch_is_leaf = False\<rparr>]\<rparr>"
    unfolding q(1,2) canon_branch [OF b] by simp
  have "(\<Union>j. nodes env q (sub x j ?P)) = nodes env q ?P"
  proof -
    have "nodes env q (sub x j ?P) = (if j = n then nodes env q ?P else {})" for j using p by auto
    then show ?thesis by auto
  qed
  then show "nodes env (64 - x) ?P = insert (canon env (64 - x) ?P) (nodes env (64 - Suc x) ?P)"
    unfolding q(1,2) nodes_branch [OF b] q(3) by simp
qed

lemma pair_fork_step:
  assumes "k \<noteq> g" and "x < 64" and "hash_nibbles k ! x \<noteq> hash_nibbles g ! x"
  shows "canon env (64 - x) [k \<mapsto> l, g \<mapsto> l'] =
      Internal_Node \<lparr>in_children = [hash_nibbles k ! x \<mapsto> \<lparr>ch_hash = smt_leaf_hash env l, ch_is_leaf = True\<rparr>,
        hash_nibbles g ! x \<mapsto> \<lparr>ch_hash = smt_leaf_hash env l', ch_is_leaf = True\<rparr>]\<rparr>"
    and "nodes env (64 - x) [k \<mapsto> l, g \<mapsto> l'] =
      {canon env (64 - x) [k \<mapsto> l, g \<mapsto> l'], Leaf_Node l, Leaf_Node l'}"
proof -
  let ?P = "[k \<mapsto> l, g \<mapsto> l']" and ?a = "hash_nibbles k ! x" and ?b = "hash_nibbles g ! x"
  define q where "q = 63 - x"
  have q: "64 - x = Suc q" "63 - q = x" using assms(2) by (simp_all add: q_def)
  note b = pair_not_empty [where k = k and g = g and l = l and l' = l'] pair_not_single [where l = l and l' = l', OF assms(1)]
  note p = pair_sub_fork [where l = l and l' = l', OF assms(3)]
  have "canon_children env q ?P = [?a \<mapsto> \<lparr>ch_hash = smt_leaf_hash env l, ch_is_leaf = True\<rparr>,
      ?b \<mapsto> \<lparr>ch_hash = smt_leaf_hash env l', ch_is_leaf = True\<rparr>]"
  proof (rule ext)
    fix j
    consider "j = ?a" | "j = ?b" | "j \<noteq> ?a" "j \<noteq> ?b" by blast
    then show "canon_children env q ?P j = [?a \<mapsto> \<lparr>ch_hash = smt_leaf_hash env l, ch_is_leaf = True\<rparr>,
        ?b \<mapsto> \<lparr>ch_hash = smt_leaf_hash env l', ch_is_leaf = True\<rparr>] j"
      using p assms(3) by cases (simp_all add: canon_children_apply q(2))
  qed
  then show "canon env (64 - x) ?P = Internal_Node \<lparr>in_children = [?a \<mapsto> \<lparr>ch_hash = smt_leaf_hash env l, ch_is_leaf = True\<rparr>,
        ?b \<mapsto> \<lparr>ch_hash = smt_leaf_hash env l', ch_is_leaf = True\<rparr>]\<rparr>"
    unfolding q(1) canon_branch [OF b] by simp
  have "nodes env q (sub x j ?P) = (if j = ?a then {Leaf_Node l} else if j = ?b then {Leaf_Node l'} else {})" for j
    using p by auto
  then have "(\<Union>j. nodes env q (sub x j ?P)) = {Leaf_Node l, Leaf_Node l'}" using assms(3) by (auto split: if_splits)
  then show "nodes env (64 - x) ?P = {canon env (64 - x) ?P, Leaf_Node l, Leaf_Node l'}"
    unfolding q(1) nodes_branch [OF b] q(2) by simp
qed

lemma position_ok_mono:
  assumes "position_ok env r m" and "r \<le> q" and "q \<le> 64"
  shows "position_ok env q m"
proof -
  have "take (64 - q) (hash_nibbles g) = take (64 - q) (hash_nibbles h)" if "g \<in> dom m" "h \<in> dom m" for g h
  proof -
    have "take (64 - q) (take (64 - r) (hash_nibbles g)) = take (64 - q) (take (64 - r) (hash_nibbles h))"
      using position_ok_take [OF assms(1) that] by simp
    with assms(2) show ?thesis by (simp add: take_take)
  qed
  with assms show ?thesis unfolding position_ok_def by blast
qed

lemma range_children_pick:
  assumes n: "n < 16"
  shows "range_children [n \<mapsto> ch] 0 16 = [unat n]"
proof -
  have "range_children [n \<mapsto> ch] 0 16 = filter (\<lambda>i. i = unat n) [0..<16]"
    unfolding range_children_def by (rule filter_cong) (auto simp: child_at_def unat_nibble_of_nat)
  also have "\<dots> = [unat n]"
  proof -
    have "unat n < 16" using n by (simp add: word_less_nat_alt)
    then have "[0..<16] = [0..<unat n] @ unat n # [Suc (unat n)..<16]"
      using upt_add_eq_append [of 0 "unat n" "16 - unat n"] upt_conv_Cons [of "unat n" 16] by simp
    then show ?thesis by (simp add: filter_empty_conv)
  qed
  finally show ?thesis .
qed

lemma single_child_branching:
  "n < 16 \<Longrightarrow> branching [n \<mapsto> \<lparr>ch_hash = h, ch_is_leaf = False\<rparr>] 0 4"
  by (simp add: branching_def leaf_at_def child_at_def range_children_pick)

lemma pair_chain:
  assumes "k \<noteq> g" and "P = [k \<mapsto> l, g \<mapsto> l']"
  shows "d + j \<le> 64 \<Longrightarrow> \<forall>x \<in> {d..<d + j}. hash_nibbles k ! x = hash_nibbles g ! x \<Longrightarrow>
    nodes env (64 - d) P = (\<lambda>x. canon env (64 - x) P) ` {d..<d + j} \<union> nodes env (64 - (d + j)) P"
proof (induction j)
  case (Suc j)
  have "nodes env (64 - (d + j)) P = insert (canon env (64 - (d + j)) P) (nodes env (64 - Suc (d + j)) P)"
    unfolding assms(2) by (rule pair_chain_step(2) [OF assms(1) _ refl]) (use Suc.prems in auto)
  with Suc show ?case by (simp add: atLeastLessThanSuc)
qed simp

lemma pair_chain_distinct:
  assumes "hash_free env Ns" and "k \<noteq> g" and "position_ok env (64 - y) [k \<mapsto> l, g \<mapsto> l']" and "x < y" and "y \<le> 64"
    and "nodes env (64 - x) [k \<mapsto> l, g \<mapsto> l'] \<subseteq> Ns" and "nodes env (64 - y) [k \<mapsto> l, g \<mapsto> l'] \<subseteq> Ns"
  shows "nhash env (canon env (64 - x) [k \<mapsto> l, g \<mapsto> l']) \<noteq> nhash env (canon env (64 - y) [k \<mapsto> l, g \<mapsto> l'])"
proof
  let ?P = "[k \<mapsto> l, g \<mapsto> l']"
  assume e: "nhash env (canon env (64 - x) ?P) = nhash env (canon env (64 - y) ?P)"
  have ne: "?P \<noteq> Map.empty" by simp
  have "canon env (64 - x) ?P = canon env (64 - y) ?P"
    using e hash_free_eq [OF assms(1)] canon_in_nodes [OF ne] assms(6,7) by blast
  moreover have "position_ok env (64 - x) ?P" by (rule position_ok_mono [OF assms(3)]) (use assms(4) in auto)
  ultimately have "64 - x = 64 - y \<or> single ?P"
    using canon_inject [OF assms(1) _ assms(3,6,7) ne ne] by blast
  then show False using pair_not_single [OF assms(2)] assms(4,5) by auto
qed

lemma pair_wrap:
  assumes "hash_free env Ns" and "k \<noteq> g" and "hash_value g" and "P = [k \<mapsto> l, g \<mapsto> l']"
    and "nodes env (64 - d) P \<subseteq> Ns"
  shows "position_ok env (64 - (d + j)) P \<Longrightarrow> d + j < 64 \<Longrightarrow>
    take (d + j) (hash_nibbles k) = take (d + j) (hash_nibbles g) \<Longrightarrow>
    np_wf p \<Longrightarrow> nibbles_of p = take (d + j) (hash_nibbles g) \<Longrightarrow>
    canon env (64 - (d + j)) P = Internal_Node node \<Longrightarrow> cache_wf c \<Longrightarrow>
    \<forall>x \<in> {d..<d + j}. cached c (nhash env (canon env (64 - x) P)) = None \<Longrightarrow>
    \<exists>node' c'. wrap_internal_nodes env j p node c = (Inr node', c') \<and>
      canon env (64 - d) P = Internal_Node node' \<and>
      effect env ((\<lambda>x. canon env (64 - x) P) ` {d..<d + j}) {} c c'"
proof (induction j arbitrary: p node c)
  case 0
  then show ?case by (auto simp: effect_refl)
next
  case (Suc j)
  let ?x = "d + j" and ?cn = "\<lambda>x. canon env (64 - x) P"
  define n where "n = hash_nibbles g ! ?x"
  have len: "length (hash_nibbles g) = 64" by (rule length_hash_nibbles [OF assms(3)])
  have tk: "take (d + Suc j) (hash_nibbles g) = take ?x (hash_nibbles g) @ [n]"
    using Suc.prems(2) len by (simp add: n_def take_Suc_conv_app_nth)
  have kn: "hash_nibbles k ! x = hash_nibbles g ! x" if "x < d + Suc j" for x
  proof -
    have "take (d + Suc j) (hash_nibbles k) ! x = take (d + Suc j) (hash_nibbles g) ! x" using Suc.prems(3) by simp
    with that show ?thesis by simp
  qed
  have tx: "take ?x (hash_nibbles k) = take ?x (hash_nibbles g)"
  proof -
    have "take ?x (take (d + Suc j) (hash_nibbles k)) = take ?x (take (d + Suc j) (hash_nibbles g))" using Suc.prems(3) by simp
    then show ?thesis by (simp add: take_take)
  qed
  have n16: "n < 16" unfolding n_def by (rule hash_nibbles_less [of _ g]) (use Suc.prems(2) len in simp)
  have cx: "?cn ?x = Internal_Node \<lparr>in_children = [n \<mapsto> \<lparr>ch_hash = nhash env (?cn (Suc ?x)), ch_is_leaf = False\<rparr>]\<rparr>"
    unfolding assms(4) by (rule pair_chain_step(1) [OF assms(2)]) (use Suc.prems(2) kn in \<open>simp_all add: n_def\<close>)
  obtain p' where p': "np_pop p = Inr (Some n, p')" "np_wf p'" "nibbles_of p' = take ?x (hash_nibbles g)"
  proof -
    have "np_num_nibbles p = d + Suc j"
      using arg_cong [OF Suc.prems(5), of length] Suc.prems(2) len by simp
    then show ?thesis using np_pop_eq [OF Suc.prems(4)] Suc.prems(5) tk that by auto
  qed
  have h: "smt_internal_hash (env_digest env) node = Inr (nhash env (?cn (Suc ?x)))"
    using Suc.prems(6) by (simp add: smt_internal_hash_eq)
  obtain node1 where n1: "?cn ?x = Internal_Node node1"
      "smt_internal_new [n \<mapsto> \<lparr>ch_hash = nhash env (?cn (Suc ?x)), ch_is_leaf = False\<rparr>] = Inr node1"
      "smt_internal_hash (env_digest env) node1 = Inr (nhash env (?cn ?x))"
    using cx smt_internal_new_eq(2) [OF single_child_branching [OF n16]] by (simp add: smt_internal_hash_eq)
  obtain c1 where c1: "put_node (nhash env (Internal_Node node1)) (Internal_Node node1) c = (Inr (), c1)" "effect env {Internal_Node node1} {} c c1"
  proof -
    have "cached c (nhash env (?cn ?x)) = None" using Suc.prems(8) by simp
    from effect_put [OF this Suc.prems(7)] show ?thesis unfolding n1(1) using that by blast
  qed
  have w: "wrap_internal_nodes env (Suc j) p node c = wrap_internal_nodes env j p' node1 c1"
    using p'(1) h n1 c1(1) by (simp add: expect_def)
  have sub: "nodes env (64 - x) P \<subseteq> Ns" if "x \<in> {d..d + j}" for x
  proof -
    have "nodes env (64 - d) P = ?cn ` {d..<d + (x - d)} \<union> nodes env (64 - (d + (x - d))) P"
      by (rule pair_chain [OF assms(2,4)]) (use that kn Suc.prems(2) in auto)
    with that assms(5) show ?thesis by auto
  qed
  have px: "position_ok env (64 - ?x) P" by (rule position_ok_mono [OF Suc.prems(1)]) auto
  have dis: "nhash env (?cn x) \<noteq> nhash env (?cn ?x)" if "x \<in> {d..<d + j}" for x
    unfolding assms(4)
    by (rule pair_chain_distinct [OF assms(1,2)])
      (use that px Suc.prems(2) sub [of x] sub [of ?x] in \<open>auto simp: assms(4)\<close>)
  have "\<forall>x \<in> {d..<d + j}. cached c1 (nhash env (?cn x)) = None"
    using Suc.prems(8) c1(2) dis unfolding n1(1) [symmetric] by (simp add: effect_def)
  note none = this
  have "cache_wf c1" "d + j < 64" using c1(2) Suc.prems(2) by (simp_all add: effect_def)
  from Suc.IH [OF px this(2) tx p'(2,3) n1(1) this(1) none] obtain node' c' where r: "wrap_internal_nodes env j p' node1 c1 = (Inr node', c')"
      "?cn d = Internal_Node node'" "effect env (?cn ` {d..<d + j}) {} c1 c'"
    by blast
  have "nhash env (?cn ?x) \<notin> nhash env ` ?cn ` {d..<d + j}" using dis by (metis (no_types, lifting) image_iff)
  then have "effect env ({?cn ?x} \<union> ?cn ` {d..<d + j}) ({} \<union> {}) c c'"
    by (intro effect_trans [OF c1(2) [folded n1(1)] r(3)]) simp
  then have "effect env (?cn ` {d..<d + Suc j}) {} c c'" by (simp add: atLeastLessThanSuc)
  with w r show ?case by auto
qed

text \<open>The key of the leaf is another one: a put forks, a removal changes nothing.\<close>

lemma insert_at_other_leaf:
  assumes "hash_value kh" and "hash_value k" and "kh \<noteq> k" and "ln_key_hash env l = k"
    and "d \<le> 64" and "take d (hash_nibbles k) = take d (hash_nibbles kh)"
  shows "\<exists>e p. d + e < 64 \<and> take (d + e) (hash_nibbles k) = take (d + e) (hash_nibbles kh) \<and>
    hash_nibbles k ! (d + e) \<noteq> hash_nibbles kh ! (d + e) \<and> np_wf p \<and> nibbles_of p = take (d + e) (hash_nibbles kh) \<and>
    (\<forall>c. insert_at_leaf_node env node_key l (ni_advance d (key_iter kh)) key blob c =
    (case blob of
       None \<Rightarrow> (Inr (node_key, Leaf_Node l), c)
     | Some b \<Rightarrow>
         bind_act (create_leaf_node env key b) (\<lambda>(_, new_leaf_node).
         bind_act (lift_act (smt_internal_new
             [hash_nibbles k ! (d + e) \<mapsto> \<lparr>ch_hash = smt_leaf_hash env l, ch_is_leaf = True\<rparr>,
              hash_nibbles kh ! (d + e) \<mapsto> \<lparr>ch_hash = nhash env new_leaf_node, ch_is_leaf = True\<rparr>])) (\<lambda>internal_node.
         bind_act (put_node (nhash env (Internal_Node internal_node :: ('k, 'v) SmtNode)) (Internal_Node internal_node)) (\<lambda>_.
         bind_act (wrap_internal_nodes env e p internal_node) (\<lambda>next_internal_node.
         return_act (nhash env (Internal_Node next_internal_node :: ('k, 'v) SmtNode), Internal_Node next_internal_node))))) c))"
proof -
  define e where "e = common_len (drop d (hash_nibbles kh)) (drop d (hash_nibbles k))"
  have len: "length (hash_nibbles kh) = 64" "length (hash_nibbles k) = 64" using assms(1,2) by (simp_all add: length_hash_nibbles)
  obtain v v' b b' p where it: "visited_nibbles (ni_advance d (key_iter kh)) = Inr v"
    "skip_common_prefix v (key_iter k) = Inr (d, v', ni_advance d (key_iter k))" "ni_is_finished v' = Inr True"
    "remaining_nibbles (ni_advance d (key_iter k)) = Inr b"
    "skip_common_prefix (ni_advance d (key_iter kh)) b = Inr (e, ni_advance (d + e) (key_iter kh), b')"
    "ni_wf b'" "ni_rest b' = drop (d + e) (hash_nibbles k)"
    "and_then (visited_nibbles (ni_advance (d + e) (key_iter kh))) (\<lambda>v. and_then (ni_collect v) np_from_iter) = Inr p"
    "np_wf p" "nibbles_of p = take (d + e) (hash_nibbles kh)" "d + e \<le> 64"
    using leaf_iterators [OF assms(1,2,5,6)] unfolding e_def by blast
  have te: "take (d + e) (hash_nibbles k) = take (d + e) (hash_nibbles kh)"
    using common_len_prefix [of "drop d (hash_nibbles kh)" "drop d (hash_nibbles k)"] assms(6) by (simp add: e_def take_add)
  have lt: "d + e < 64"
  proof (rule ccontr)
    assume "\<not> d + e < 64"
    then have "hash_nibbles k = hash_nibbles kh" using te len by simp
    then show False using hash_nibbles_inject [OF assms(2,1)] assms(3) by simp
  qed
  have ne: "hash_nibbles k ! (d + e) \<noteq> hash_nibbles kh ! (d + e)"
    using common_len_diff [of "drop d (hash_nibbles kh)" "drop d (hash_nibbles k)", folded e_def] lt len
    by (auto simp: less_diff_conv add.commute)
  have f: "ni_is_finished (ni_advance (d + e) (key_iter kh)) = Inr False"
    using key_iter_advance [OF assms(1) it(11)] lt len by (simp add: ni_is_finished_eq)
  have nx: "ni_next b' = Inr (Some (hash_nibbles k ! (d + e)), b'\<lparr>ni_pos := ni_pos b' + 1\<rparr>)"
    using ni_next_eq [OF it(6)] it(7) lt len by (simp add: Cons_nth_drop_Suc [symmetric])
  have k: "and_then (np_new (ln_key_hash env l)) np_nibbles = Inr (key_iter k)"
    using key_iter_eq(1) [OF assms(2)] assms(4) by simp
  have h: "smt_internal_hash (env_digest env) node = Inr (nhash env (Internal_Node node :: ('k, 'v) SmtNode))" for node
    by (simp add: smt_internal_hash_eq)
  have "insert_at_leaf_node env node_key l (ni_advance d (key_iter kh)) key blob c =
    (case blob of
       None \<Rightarrow> (Inr (node_key, Leaf_Node l), c)
     | Some b \<Rightarrow>
         bind_act (create_leaf_node env key b) (\<lambda>(_, new_leaf_node).
         bind_act (lift_act (smt_internal_new
             [hash_nibbles k ! (d + e) \<mapsto> \<lparr>ch_hash = smt_leaf_hash env l, ch_is_leaf = True\<rparr>,
              hash_nibbles kh ! (d + e) \<mapsto> \<lparr>ch_hash = nhash env new_leaf_node, ch_is_leaf = True\<rparr>])) (\<lambda>internal_node.
         bind_act (put_node (nhash env (Internal_Node internal_node :: ('k, 'v) SmtNode)) (Internal_Node internal_node)) (\<lambda>_.
         bind_act (wrap_internal_nodes env e p internal_node) (\<lambda>next_internal_node.
         return_act (nhash env (Internal_Node next_internal_node :: ('k, 'v) SmtNode), Internal_Node next_internal_node))))) c)" for c
    unfolding insert_at_leaf_node_def it(1) k lift_act_bind it(2) prod.case it(3) assert_that_def if_True it(4) it(5) it(8) f if_False
      nx key_iter_next [OF assms(1) lt] and_then_Inr expect_def option.case node_merkle_hash_eq h
    using ne by (simp add: lift_act_then split: option.split)
  with lt te ne it(9,10) show ?thesis by blast
qed

lemma insert_at_fork:
  fixes env :: "('k, 'v) smt_env"
  assumes "hash_free env Ns" and "hash_value kh" and "kh = key_merkle_hash env key" and "hash_value k" and "kh \<noteq> k"
    and "ln_key_hash env l = k" and "d \<le> 64" and "take d (hash_nibbles k) = take d (hash_nibbles kh)"
    and "P = [k \<mapsto> l, kh \<mapsto> smt_leaf_new key b]" and "nodes env (64 - d) P \<subseteq> Ns" and "cache_wf c"
    and "\<forall>N \<in> nodes env (64 - d) P - {Leaf_Node l}. cached c (nhash env N) = None"
  shows "\<exists>c'. insert_at_leaf_node env node_key l (ni_advance d (key_iter kh)) key (Some b) c =
      (Inr (nhash env (canon env (64 - d) P), canon env (64 - d) P), c') \<and>
    effect env (nodes env (64 - d) P - {Leaf_Node l}) {} c c'"
proof -
  let ?l = "smt_leaf_new key b" and ?cn = "\<lambda>x. canon env (64 - x) P"
  obtain e p where e: "d + e < 64" "take (d + e) (hash_nibbles k) = take (d + e) (hash_nibbles kh)"
    "hash_nibbles k ! (d + e) \<noteq> hash_nibbles kh ! (d + e)" "np_wf p" "nibbles_of p = take (d + e) (hash_nibbles kh)"
    "insert_at_leaf_node env node_key l (ni_advance d (key_iter kh)) key (Some b) c =
         bind_act (create_leaf_node env key b) (\<lambda>(_, new_leaf_node).
         bind_act (lift_act (smt_internal_new
             [hash_nibbles k ! (d + e) \<mapsto> \<lparr>ch_hash = smt_leaf_hash env l, ch_is_leaf = True\<rparr>,
              hash_nibbles kh ! (d + e) \<mapsto> \<lparr>ch_hash = nhash env new_leaf_node, ch_is_leaf = True\<rparr>])) (\<lambda>internal_node.
         bind_act (put_node (nhash env (Internal_Node internal_node :: ('k, 'v) SmtNode)) (Internal_Node internal_node)) (\<lambda>_.
         bind_act (wrap_internal_nodes env e p internal_node) (\<lambda>next_internal_node.
         return_act (nhash env (Internal_Node next_internal_node :: ('k, 'v) SmtNode), Internal_Node next_internal_node))))) c"
    using insert_at_other_leaf [OF assms(2,4,5,6,7,8), of node_key key "Some b"] by auto
  define x where "x = d + e"
  have kl: "ln_key_hash env ?l = kh" by (simp add: assms(3) ln_key_hash_def smt_leaf_new_def)
  have dP: "dom P = {k, kh}" by (auto simp: assms(9))
  have eo: "entries_ok env P" using assms(2,4,5,6) kl by (auto simp: assms(9) entries_ok_def)
  have px: "position_ok env (64 - x) P"
    using eo e(1,2) unfolding position_ok_def dP x_def by auto
  have nibs: "\<forall>y \<in> {d..<d + e}. hash_nibbles k ! y = hash_nibbles kh ! y"
    using e(2) nth_take [of _ "d + e" "hash_nibbles k"] nth_take [of _ "d + e" "hash_nibbles kh"] by auto
  note fork = pair_fork_step [OF assms(5) [symmetric] e(1,3), where env = env and l = l and l' = ?l, folded assms(9)]
  note all = pair_chain [OF assms(5) [symmetric] assms(9) _ nibs, where env = env]
  have nd: "nodes env (64 - d) P = ?cn ` {d..<x} \<union> {?cn x, Leaf_Node l, Leaf_Node ?l}"
    using all e(1) fork(2) by (simp add: x_def)
  define ch where "ch = [hash_nibbles k ! x \<mapsto> \<lparr>ch_hash = smt_leaf_hash env l, ch_is_leaf = True\<rparr>,
      hash_nibbles kh ! x \<mapsto> \<lparr>ch_hash = smt_leaf_hash env ?l, ch_is_leaf = True\<rparr>]"
  have cx: "?cn x = Internal_Node \<lparr>in_children = ch\<rparr>" unfolding ch_def x_def by (rule fork(1))
  have new: "smt_internal_new ch = Inr \<lparr>in_children = ch\<rparr>"
  proof (rule smt_internal_new_eq(2))
    have s: "64 - x = Suc (63 - x)" using e(1) by (simp add: x_def)
    have b: "P \<noteq> Map.empty" "\<not> single P" unfolding assms(9) using pair_not_single [OF assms(5) [symmetric]] by auto
    have "branching (canon_children env (63 - x) P) 0 4" by (rule canon_branching [OF px [unfolded s] b])
    moreover have "canon_children env (63 - x) P = ch" using cx unfolding s canon_branch [OF b] by simp
    ultimately show "branching ch 0 4" by simp
  qed
  have int: "\<exists>node. ?cn y = Internal_Node node" if "y \<le> x" for y
  proof -
    have "position_ok env (64 - y) P" by (rule position_ok_mono [OF px]) (use that in auto)
    moreover have "\<not> single P" unfolding assms(9) using pair_not_single [OF assms(5) [symmetric]] by auto
    moreover have "?cn y \<noteq> Null" unfolding canon_Null_iff assms(9) by simp
    ultimately show ?thesis using node_is_leaf_canon [of env "64 - y" P] by (cases "?cn y") auto
  qed
  then have nl: "?cn y \<noteq> Leaf_Node l''" "Leaf_Node l'' \<noteq> ?cn y" if "y \<le> x" for y l'' using that by force+
  have ll: "?l \<noteq> l" using kl assms(5,6) by auto
  have added: "nodes env (64 - d) P - {Leaf_Node l} = {Leaf_Node ?l} \<union> ({?cn x} \<union> ?cn ` {d..<x})"
    unfolding nd using ll nl by auto
  have Ns: "{Leaf_Node ?l} \<union> ({?cn x} \<union> ?cn ` {d..<x}) \<subseteq> Ns" using assms(10) nd by blast
  have dis: "?cn y \<noteq> ?cn x" if "y \<in> {d..<x}" for y
  proof -
    have "nodes env (64 - z) P \<subseteq> Ns" if "d \<le> z" "z \<le> x" for z
    proof -
      have "nodes env (64 - d) P = ?cn ` {d..<d + (z - d)} \<union> nodes env (64 - (d + (z - d))) P"
        by (rule pair_chain [OF assms(5) [symmetric] assms(9)]) (use that nibs e(1) in \<open>auto simp: x_def\<close>)
      with that assms(10) show ?thesis by auto
    qed
    then have "nhash env (?cn y) \<noteq> nhash env (?cn x)"
      using that px e(1) unfolding assms(9) x_def
      by (intro pair_chain_distinct [OF assms(1) assms(5) [symmetric]]) auto
    then show ?thesis by metis
  qed
  then have dis': "?cn x \<notin> ?cn ` {d..<x}" by (metis (no_types, lifting) imageE)
  have fresh: "cached c (nhash env N) = None" if "N \<in> {Leaf_Node ?l} \<union> ({?cn x} \<union> ?cn ` {d..<x})" for N
    by (rule bspec [OF assms(12) [unfolded added] that])
  obtain c1 where c1: "create_leaf_node env key b c = (Inr (nhash env (Leaf_Node ?l), Leaf_Node ?l), c1)" "effect env {Leaf_Node ?l} {} c c1"
    using create_leaf_node_eq [OF fresh assms(11)] by auto
  have f1: "cached c1 (nhash env N) = None" if "N \<in> {?cn x} \<union> ?cn ` {d..<x}" for N
  proof -
    have "N \<noteq> Leaf_Node ?l" using that nl by auto
    then have "cached c1 (nhash env N) = cached c (nhash env N)"
      by (intro effect_cached [OF c1(2) assms(1)]) (use Ns that in auto)
    with fresh that show ?thesis by auto
  qed
  obtain c2 where c2: "put_node (nhash env (?cn x)) (?cn x) c1 = (Inr (), c2)" "effect env {?cn x} {} c1 c2"
    using effect_put [OF f1, of "?cn x"] c1(2) by (auto simp: effect_def)
  have f2: "cached c2 (nhash env (?cn y)) = None" if "y \<in> {d..<x}" for y
  proof -
    have "cached c2 (nhash env (?cn y)) = cached c1 (nhash env (?cn y))"
      by (intro effect_cached [OF c2(2) assms(1)]) (use Ns that dis in auto)
    with f1 that show ?thesis by auto
  qed
  have wf2: "cache_wf c2" using c2(2) by (simp add: effect_def)
  obtain node' c3 where c3: "wrap_internal_nodes env e p \<lparr>in_children = ch\<rparr> c2 = (Inr node', c3)"
      "?cn d = Internal_Node node'" "effect env (?cn ` {d..<x}) {} c2 c3"
    using pair_wrap [OF assms(1) assms(5) [symmetric] assms(2) assms(9,10) px [unfolded x_def] e(1,2,4,5) cx [unfolded x_def] wf2] f2
    unfolding x_def by blast
  have r: "insert_at_leaf_node env node_key l (ni_advance d (key_iter kh)) key (Some b) c =
      (Inr (nhash env (?cn d), ?cn d), c3)"
    unfolding e(6) [folded x_def] bind_act_simps(2) [where m = "create_leaf_node env key b", OF c1(1)] prod.case nhash.simps(3) ch_def [symmetric] new lift_act_bind
    using c2(1) c3(1,2) cx by simp
  have "effect env ({?cn x} \<union> ?cn ` {d..<x}) ({} \<union> {}) c1 c3"
    by (rule effect_join [OF c2(2) c3(3) assms(1)]) (use Ns dis' in auto)
  then have "effect env ({Leaf_Node ?l} \<union> ({?cn x} \<union> ?cn ` {d..<x})) ({} \<union> {}) c c3"
    by (intro effect_join [OF c1(2) _ assms(1)]) (use Ns nl in auto)
  with r show ?thesis unfolding added by auto
qed

section \<open>Insertion at a leaf\<close>

lemma stored_cached:
  assumes "hash_free env Ns" and "N \<in> Ns" and "cache_get_node reader c (nhash env N) = Inr N" and "cached c (nhash env N) = Some M"
  shows "M = N"
  using assms(3,4) hash_free_ph [OF assms(1,2)] by (simp add: cache_get_node_def cached_def)

text \<open>The statement of the induction: the write at a position.\<close>

definition write_ok ::
    "('k, 'v) smt_env \<Rightarrow> ('k, 'v) node_reader \<Rightarrow> nat \<Rightarrow> ('k, 'v) entries \<Rightarrow> ('k, 'v) entries \<Rightarrow> ('k, 'v) TreeCache \<Rightarrow> bool" where
  "write_ok env reader r m m' c \<longleftrightarrow>
     stored env (cache_get_node reader c) r m \<and> cache_wf c \<and>
     (\<forall>N \<in> nodes env r m' - nodes env r m. cached c (nhash env N) = None) \<and>
     (\<forall>N \<in> nodes env r m - nodes env r m'. cached c (nhash env N) = None \<longrightarrow> nhash env N \<notin> tc_stale_node_index_cache c)"

lemma delete_stored:
  assumes "hash_free env Ns" and "N \<in> Ns" and "cache_wf c" and "cache_get_node reader c (nhash env N) = Inr N"
    and "cached c (nhash env N) = None \<Longrightarrow> nhash env N \<notin> tc_stale_node_index_cache c"
  shows "\<exists>c'. delete_node (nhash env N) (node_is_leaf N) c = (Inr (), c') \<and> effect env {} {N} c c'"
  by (rule effect_delete [OF assms(3)]) (use stored_cached [OF assms(1,2,4)] assms(5) in auto)

lemma insert_at_single:
  fixes env :: "('k, 'v) smt_env"
  assumes "hash_free env Ns" and "hash_value (key_merkle_hash env key)" and "position_ok env r m" and "single m"
    and "on_path r (key_merkle_hash env key) m" and "m' = upd env key blob m"
    and "nodes env r m \<union> nodes env r m' \<subseteq> Ns" and "write_ok env reader r m m' c"
  shows "\<exists>c'. insert_at env reader key blob (nhash env (canon env r m)) (ni_advance (64 - r) (key_iter (key_merkle_hash env key))) c =
      (Inr (nhash env (canon env r m'), canon env r m'), c') \<and>
    effect env (nodes env r m' - nodes env r m) (nodes env r m - nodes env r m') c c'"
proof -
  define kh where "kh = key_merkle_hash env key"
  define l where "l = the_leaf m"
  define k where "k = ln_key_hash env l"
  define node_key where "node_key = nhash env (canon env r m)"
  have m: "m = [k \<mapsto> l]" unfolding k_def l_def by (rule single_leaf [OF position_ok_entries [OF assms(3)] assms(4)])
  have r: "r \<le> 64" "64 - (64 - r) = r" using assms(3) by (auto simp: position_ok_def)
  have km: "k \<in> dom m" by (simp add: m)
  have k: "hash_value k" "take (64 - r) (hash_nibbles k) = take (64 - r) (hash_nibbles kh)"
    using entries_ok_hash [OF position_ok_entries [OF assms(3)] km] assms(5) km by (auto simp: on_path_def kh_def)
  have can: "canon env r m = Leaf_Node l" "nodes env r m = {Leaf_Node l}" using assms(4) by (simp_all add: l_def)
  note w = assms(8) [unfolded write_ok_def can(2)]
  have get: "cache_get_node reader c node_key = Inr (Leaf_Node l)"
    using w unfolding node_key_def can(1) stored_def can(2) by simp
  have lN: "Leaf_Node l \<in> Ns" using assms(7) can(2) by simp
  have st: "insert_at env reader key blob node_key it c = insert_at_leaf_node env node_key l it key blob c" for it
    by (simp add: insert_at.simps [of env reader key blob node_key] get)
  have del: "\<exists>c'. delete_node node_key True c = (Inr (), c') \<and> effect env {} {Leaf_Node l} c c'" if "Leaf_Node l \<notin> nodes env r m'"
    using delete_stored [OF assms(1) lN, of c reader] w get that by (simp add: node_key_def can(1))
  have goal: "\<exists>c'. insert_at_leaf_node env node_key l (ni_advance (64 - r) (key_iter kh)) key blob c =
      (Inr (nhash env (canon env r m'), canon env r m'), c') \<and>
    effect env (nodes env r m' - {Leaf_Node l}) ({Leaf_Node l} - nodes env r m') c c'"
  proof (cases "kh = k")
    case True
    have same: "insert_at_leaf_node env node_key l (ni_advance (64 - r) (key_iter kh)) key blob c =
      (case blob of
         None \<Rightarrow> bind_act (delete_node node_key True) (\<lambda>_. return_act (SPARSE_MERKLE_PLACEHOLDER_HASH, Null)) c
       | Some b \<Rightarrow>
           if obj_merkle_hash env b = ln_value_hash env l then (Inr (node_key, Leaf_Node l), c)
           else bind_act (delete_node node_key True) (\<lambda>_. create_leaf_node env key b) c)"
      by (rule insert_at_same_leaf) (use assms(2) True in \<open>auto simp: kh_def k_def\<close>)
    show ?thesis
    proof (cases blob)
      case None
      then have m': "m' = Map.empty" using True by (auto simp: assms(6) upd_def m kh_def)
      obtain c' where "delete_node node_key True c = (Inr (), c')" "effect env {} {Leaf_Node l} c c'"
        using del m' by auto
      then show ?thesis using same None m' by simp
    next
      case (Some b)
      show ?thesis
      proof (cases "obj_merkle_hash env b = ln_value_hash env l")
        case eq: True
        then have "m' = m" using True Some by (simp add: assms(6) upd_def m kh_def)
        with same Some eq w show ?thesis by (auto simp: can node_key_def effect_refl)
      next
        case neq: False
        let ?l = "smt_leaf_new key b"
        have m': "m' = [k \<mapsto> ?l]" using neq True Some by (auto simp: assms(6) upd_def m kh_def)
        have "ln_value_hash env ?l = obj_merkle_hash env b" by (simp add: ln_value_hash_def smt_leaf_new_def)
        then have ll: "?l \<noteq> l" using neq by auto
        have nm': "nodes env r m' = {Leaf_Node ?l}" "canon env r m' = Leaf_Node ?l" by (simp_all add: m')
        obtain c1 where c1: "delete_node node_key True c = (Inr (), c1)" "effect env {} {Leaf_Node l} c c1"
          using del nm' ll by auto
        have "cached c1 (nhash env (Leaf_Node ?l)) = cached c (nhash env (Leaf_Node ?l))"
          by (rule effect_cached [OF c1(2) assms(1)]) (use assms(7) nm' ll lN in auto)
        then obtain c2 where c2: "create_leaf_node env key b c1 = (Inr (nhash env (Leaf_Node ?l), Leaf_Node ?l), c2)"
            "effect env {Leaf_Node ?l} {} c1 c2"
          using create_leaf_node_eq [of c1 env key b] w nm' ll c1(2) by (auto simp: effect_def)
        have "effect env ({} \<union> {Leaf_Node ?l}) ({Leaf_Node l} \<union> {}) c c2"
          by (rule effect_join [OF c1(2) c2(2) assms(1)]) (use assms(7) nm' lN ll in auto)
        with same Some neq c1(1) c2(1) nm' ll show ?thesis by simp
      qed
    qed
  next
    case False
    show ?thesis
    proof (cases blob)
      case None
      then have "m' = m" using False by (auto simp: assms(6) upd_def m kh_def)
      moreover have "insert_at_leaf_node env node_key l (ni_advance (64 - r) (key_iter kh)) key blob c = (Inr (node_key, Leaf_Node l), c)"
        using insert_at_other_leaf [OF _ k(1) False k_def [symmetric] _ k(2), of node_key key blob] assms(2) None by (auto simp: kh_def)
      ultimately show ?thesis using w by (auto simp: can node_key_def effect_refl)
    next
      case (Some b)
      then have m': "m' = [k \<mapsto> l, kh \<mapsto> smt_leaf_new key b]" using False by (auto simp: assms(6) upd_def m kh_def)
      have "position_ok env r m'" unfolding assms(6) by (rule position_ok_upd [OF assms(3,5,2)])
      then have "Leaf_Node l \<in> nodes env r m'" by (rule leaf_in_nodes [where h = k]) (use False in \<open>auto simp: m'\<close>)
      moreover have "\<exists>c'. insert_at_leaf_node env node_key l (ni_advance (64 - r) (key_iter kh)) key (Some b) c =
          (Inr (nhash env (canon env (64 - (64 - r)) m'), canon env (64 - (64 - r)) m'), c') \<and>
        effect env (nodes env (64 - (64 - r)) m' - {Leaf_Node l}) {} c c'"
        by (rule insert_at_fork [OF assms(1) _ kh_def k(1) False k_def [symmetric] _ k(2) m'])
          (use assms(2,7) w r(2) in \<open>auto simp: kh_def\<close>)
      ultimately show ?thesis using Some r(2) by auto
    qed
  qed
  show ?thesis using goal unfolding st [symmetric] unfolding node_key_def kh_def can(2) .
qed

section \<open>Insertion at an internal node\<close>

text \<open>What \<^verbatim>\<open>insert_at_internal_node\<close> does once the new child is known and differs from the old one.\<close>

definition replace_child ::
    "('k, 'v) smt_env \<Rightarrow> ('k, 'v) node_reader \<Rightarrow> NodeKey \<Rightarrow> Children \<Rightarrow> (('k, 'v) TreeCache, NodeKey \<times> ('k, 'v) SmtNode) action" where
  "replace_child env reader node_key children =
     bind_act (delete_node node_key False) (\<lambda>_.
       case children_iter children of
         [] \<Rightarrow> return_act (SPARSE_MERKLE_PLACEHOLDER_HASH, Null)
       | (_, first) # others \<Rightarrow>
           if others = [] \<and> ch_is_leaf first then
             bind_act (\<lambda>c. (cache_get_node reader c (ch_hash first), c)) (\<lambda>leaf_node. return_act (ch_hash first, leaf_node))
           else
             bind_act (lift_act (smt_internal_new children)) (\<lambda>new_internal_node.
             bind_act (put_node (nhash env (Internal_Node new_internal_node :: ('k, 'v) SmtNode)) (Internal_Node new_internal_node)) (\<lambda>_.
             return_act (nhash env (Internal_Node new_internal_node :: ('k, 'v) SmtNode), Internal_Node new_internal_node))))"

lemma replaced_children:
  assumes "position_ok env (Suc q) m" and "on_path (Suc q) (key_merkle_hash env key) m" and "hash_value (key_merkle_hash env key)"
    and "m' = upd env key blob m" and "n = hash_nibbles (key_merkle_hash env key) ! (63 - q)"
    and "N = canon env q (sub (63 - q) n m')"
  shows "(case N of
       Null \<Rightarrow> (canon_children env q m)(n := None)
     | _ \<Rightarrow> ((canon_children env q m)(n := None))(n \<mapsto> \<lparr>ch_hash = nhash env N, ch_is_leaf = node_is_leaf N\<rparr>)) =
   canon_children env q m'"
proof (rule ext)
  fix j
  have pm': "position_ok env (Suc q) m'" unfolding assms(4) by (rule position_ok_upd [OF assms(1-3)])
  have lf: "node_is_leaf N = single (sub (63 - q) n m')"
    unfolding assms(6) by (rule node_is_leaf_canon [OF position_ok_sub [OF pm']])
  have nn: "N = Null \<longleftrightarrow> sub (63 - q) n m' = Map.empty" unfolding assms(6) by (rule canon_Null_iff)
  have "sub (63 - q) j m' = sub (63 - q) j m" if "j \<noteq> n"
    unfolding assms(4) by (rule upd_sub_other) (use that assms(5) in auto)
  then show "(case N of
       Null \<Rightarrow> (canon_children env q m)(n := None)
     | _ \<Rightarrow> ((canon_children env q m)(n := None))(n \<mapsto> \<lparr>ch_hash = nhash env N, ch_is_leaf = node_is_leaf N\<rparr>)) j =
   canon_children env q m' j"
    using lf nn by (cases "j = n") (auto simp: canon_children_apply assms(6) split: SmtNode.splits)
qed

lemma children_iter_single:
  assumes "position_ok env (Suc q) m" and "m = [k \<mapsto> l]"
  shows "\<exists>n. children_iter (canon_children env q m) = [(n, \<lparr>ch_hash = nhash env (Leaf_Node l), ch_is_leaf = True\<rparr>)]"
proof -
  define n where "n = hash_nibbles k ! (63 - q)"
  have s: "sub (63 - q) n m = m" "\<And>j. j \<noteq> n \<Longrightarrow> sub (63 - q) j m = Map.empty"
    by (auto simp: n_def assms(2) fun_eq_iff sub_apply)
  have c: "canon_children env q m = [n \<mapsto> \<lparr>ch_hash = nhash env (Leaf_Node l), ch_is_leaf = True\<rparr>]"
  proof (rule ext)
    fix j
    show "canon_children env q m j = [n \<mapsto> \<lparr>ch_hash = nhash env (Leaf_Node l), ch_is_leaf = True\<rparr>] j"
      by (cases "j = n") (simp_all add: canon_children_apply s, simp_all add: assms(2))
  qed
  have n16: "n < 16" using canon_children_ok [OF assms(1)] by (auto simp: c children_ok_def split: if_splits)
  show ?thesis
  proof (intro exI)
    show "children_iter (canon_children env q m) = [(n, \<lparr>ch_hash = nhash env (Leaf_Node l), ch_is_leaf = True\<rparr>)]"
      unfolding c children_iter_range range_children_pick [OF n16] by (simp add: child_at_def)
  qed
qed

lemma children_iter_branching:
  assumes "branching c 0 4"
  shows "\<exists>n first others. children_iter c = (n, first) # others \<and> \<not> (others = [] \<and> ch_is_leaf first)"
proof (cases "range_children c 0 16")
  case Nil
  with assms show ?thesis by (simp add: branching_def)
next
  case (Cons i js)
  then have "child_at c i \<noteq> None" using range_children_16 [of i c] by simp
  with Cons assms show ?thesis
    by (auto simp: children_iter_range branching_def leaf_at_def split: option.splits)
qed

lemma replace_child_ok:
  fixes env :: "('k, 'v) smt_env" and m :: "('k, 'v) entries"
  assumes "hash_free env Ns" and "position_ok env (Suc q) m" and "m \<noteq> Map.empty" and "\<not> single m"
    and "on_path (Suc q) (key_merkle_hash env key) m" and "hash_value (key_merkle_hash env key)"
    and "m' = upd env key blob m" and "m' \<noteq> m"
    and "nodes env (Suc q) m \<subseteq> Ns" and "nodes env (Suc q) m' \<subseteq> Ns"
    and "n = hash_nibbles (key_merkle_hash env key) ! (63 - q)"
    and "old = nodes env q (sub (63 - q) n m)" and "new = nodes env q (sub (63 - q) n m')"
    and "write_ok env reader (Suc q) m m' c" and "effect env (new - old) (old - new) c c1"
  shows "\<exists>c'. replace_child env reader (nhash env (canon env (Suc q) m)) (canon_children env q m') c1 =
      (Inr (nhash env (canon env (Suc q) m'), canon env (Suc q) m'), c') \<and>
    effect env (nodes env (Suc q) m' - nodes env (Suc q) m) (nodes env (Suc q) m - nodes env (Suc q) m') c c'"
proof -
  define T where "T = canon env (Suc q) m"
  define T' where "T' = canon env (Suc q) m'"
  note delta = branch_delta [OF assms(1-13)]
  have pm': "position_ok env (Suc q) m'" unfolding assms(7) by (rule position_ok_upd [OF assms(2,5,6)])
  have ne': "m' \<noteq> Map.empty" unfolding assms(7) by (rule upd_branch_nonempty [OF assms(3,4)])
  have TN: "T \<in> nodes env (Suc q) m" "T' \<in> nodes env (Suc q) m'" unfolding T_def T'_def using canon_in_nodes assms(3) ne' by blast+
  have on: "old \<subseteq> Ns" "new \<subseteq> Ns" using nodes_sub [OF assms(4), of env q n] assms(9,10,12) delta(3) by auto
  have Told: "T \<notin> old" "T \<notin> new"
    unfolding T_def assms(12,13)
    by (rule top_notin_part [OF assms(1,2) position_ok_sub [OF assms(2)] assms(9) _ assms(3,4)],
        use on assms(12) in simp,
        rule top_notin_part [OF assms(1,2) position_ok_sub [OF pm'] assms(9) _ assms(3,4)], use on assms(13) in simp)
  have TNs: "T \<in> Ns" "T' \<in> Ns" using TN assms(9,10) by blast+
  have get: "cache_get_node reader c (nhash env T) = Inr T" using assms(14) TN by (simp add: write_ok_def stored_def)
  have get1: "cache_get_node reader c1 (nhash env T) = Inr T"
    by (rule effect_get [OF assms(15,1) _ _ get]) (use on TNs Told in auto)
  have Tk: "nhash env T \<notin> nhash env ` (old \<union> new)"
    using hash_free_disjoint [OF assms(1), of "{T}" "old \<union> new"] on TNs Told by auto
  have ca: "cached c1 (nhash env T) = cached c (nhash env T)"
    by (rule effect_cached [OF assms(15,1)]) (use on TNs Told in auto)
  have "T \<in> nodes env (Suc q) m - nodes env (Suc q) m'" using delta(2) by (auto simp: T_def)
  then have "nhash env T \<notin> tc_stale_node_index_cache c1" if "cached c1 (nhash env T) = None"
    using assms(14,15) that ca Tk by (auto simp: write_ok_def effect_def)
  moreover have wf1: "cache_wf c1" using assms(15) by (simp add: effect_def)
  moreover have "\<not> node_is_leaf T" unfolding T_def by (simp add: canon_branch [OF assms(3,4)])
  ultimately obtain c2 where c2: "delete_node (nhash env T) False c1 = (Inr (), c2)" "effect env {} {T} c1 c2"
    using delete_stored [OF assms(1) TNs(1) _ get1] by auto
  have e2: "effect env ((new - old) \<union> {}) ((old - new) \<union> {T}) c c2"
    by (rule effect_join [OF assms(15) c2(2) assms(1)]) (use on TNs Told in auto)
  have wf2: "cache_wf c2" using c2(2) by (simp add: effect_def)
  show ?thesis
  proof (cases "single m'")
    case True
    define l where "l = the_leaf m'"
    define k where "k = ln_key_hash env l"
    have m': "m' = [k \<mapsto> l]" unfolding k_def l_def by (rule single_leaf [OF position_ok_entries [OF pm'] True])
    obtain j where j: "children_iter (canon_children env q m') = [(j, \<lparr>ch_hash = nhash env (Leaf_Node l), ch_is_leaf = True\<rparr>)]"
      using children_iter_single [OF pm' m'] by blast
    have nm': "nodes env (Suc q) m' = {Leaf_Node l}" "T' = Leaf_Node l" using True by (simp_all add: l_def T'_def)
    have rem: "Leaf_Node l \<notin> insert T (old - new)" using delta(2) nm' by (auto simp: T_def)
    have "cache_get_node reader c2 (nhash env (Leaf_Node l)) = Inr (Leaf_Node l)"
    proof (cases "Leaf_Node l \<in> nodes env (Suc q) m")
      case lm: True
      then have "cache_get_node reader c (nhash env (Leaf_Node l)) = Inr (Leaf_Node l)"
        using assms(14) by (auto simp: write_ok_def stored_def)
      then show ?thesis by (rule effect_get [OF e2 assms(1), rotated 2]) (use on TNs rem nm' in auto)
    next
      case False
      then have "Leaf_Node l \<in> new - old" using delta(1) nm' True by auto
      then show ?thesis by (intro effect_get_added [OF e2 assms(1)]) (use on in auto)
    qed
    then have "replace_child env reader (nhash env T) (canon_children env q m') c1 = (Inr (nhash env T', T'), c2)"
      using c2(1) j nm'(2) by (simp add: replace_child_def)
    with e2 show ?thesis unfolding delta(1,2) T_def [symmetric] T'_def [symmetric] using True by auto
  next
    case False
    have cT: "T' = Internal_Node \<lparr>in_children = canon_children env q m'\<rparr>" unfolding T'_def by (rule canon_branch [OF ne' False])
    have br: "branching (canon_children env q m') 0 4" by (rule canon_branching [OF pm' ne' False])
    obtain j first others where it: "children_iter (canon_children env q m') = (j, first) # others" "\<not> (others = [] \<and> ch_is_leaf first)"
      using children_iter_branching [OF br] by blast
    have T'n: "T' \<notin> new" "T' \<notin> old"
      unfolding T'_def assms(12,13)
      by (rule top_notin_part [OF assms(1) pm' position_ok_sub [OF pm'] assms(10) _ ne' False],
          use on assms(13) in simp,
          rule top_notin_part [OF assms(1) pm' position_ok_sub [OF assms(2)] assms(10) _ ne' False], use on assms(12) in simp)
    have T'm: "T' \<in> nodes env (Suc q) m' - nodes env (Suc q) m" using delta(1) False by (simp add: T'_def)
    then have TT: "T' \<noteq> T" using TN(1) by auto
    have "cached c2 (nhash env T') = cached c (nhash env T')"
      by (rule effect_cached [OF e2 assms(1)]) (use on TNs T'n TT in auto)
    also have "\<dots> = None" using assms(14) T'm by (auto simp: write_ok_def)
    finally obtain c3 where c3: "put_node (nhash env T') T' c2 = (Inr (), c3)" "effect env {T'} {} c2 c3"
      using effect_put [OF _ wf2, of env T'] by auto
    have "replace_child env reader (nhash env T) (canon_children env q m') c1 = (Inr (nhash env T', T'), c3)"
      using c2(1) it c3(1) smt_internal_new_eq(2) [OF br] cT by (auto simp: replace_child_def)
    moreover have "effect env (((new - old) \<union> {}) \<union> {T'}) (((old - new) \<union> {T}) \<union> {}) c c3"
      by (rule effect_join [OF e2 c3(2) assms(1)]) (use on TNs T'n TT in auto)
    ultimately show ?thesis unfolding delta(1,2) T_def [symmetric] T'_def [symmetric] using False by auto
  qed
qed

text \<open>The internal case of \<^verbatim>\<open>insert_at\<close> over a recursive call that returned the new child.\<close>

lemma insert_at_internal_step:
  fixes env :: "('k, 'v) smt_env"
  assumes "ni_next it = Inr (Some n, it')"
    and "position_ok env (Suc q) m" and "on_path (Suc q) (key_merkle_hash env key) m" and "hash_value (key_merkle_hash env key)"
    and "m' = upd env key blob m" and "n = hash_nibbles (key_merkle_hash env key) ! (63 - q)"
    and "N = canon env q (sub (63 - q) n m')"
    and "(case canon_children env q m n of
            Some child \<Rightarrow> bind_act (rec (ch_hash child) it') (\<lambda>r. return_act (Some r))
          | None \<Rightarrow> (case blob of
               Some b \<Rightarrow> bind_act (create_leaf_node env key b) (\<lambda>r. return_act (Some r))
             | None \<Rightarrow> return_act None)) c = (Inr (Some (nhash env N, N)), c1)"
    and "\<not> (case canon_children env q m n of None \<Rightarrow> False
      | Some old \<Rightarrow> ch_hash old = nhash env N \<and> ch_is_leaf old = node_is_leaf N)"
  shows "insert_at_internal_node env reader rec node_key \<lparr>in_children = canon_children env q m\<rparr> it key blob c =
    replace_child env reader node_key (canon_children env q m') c1"
proof -
  define M where "M = (case canon_children env q m n of
      Some child \<Rightarrow> bind_act (rec (ch_hash child) it') (\<lambda>r. return_act (Some r))
    | None \<Rightarrow> (case blob of
         Some b \<Rightarrow> bind_act (create_leaf_node env key b) (\<lambda>r. return_act (Some r))
       | None \<Rightarrow> return_act None))"
  have h: "smt_internal_hash (env_digest env) node = Inr (nhash env (Internal_Node node :: ('k, 'v) SmtNode))" for node
    by (simp add: smt_internal_hash_eq)
  show ?thesis
    unfolding insert_at_internal_node_def replace_child_def assms(1) lift_act_bind prod.case expect_def option.case
      in_child_def SmtInternalNode.simps M_def [symmetric]
      bind_act_simps(2) [where m = M, OF assms(8) [folded M_def]] if_not_P [OF assms(9)] Let_def
      replaced_children [OF assms(2-7)] new_null_def node_merkle_hash_eq nhash.simps(1) h lift_act_then ..
qed

lemma insert_at_eq:
  fixes env :: "('k, 'v) smt_env"
  assumes "hash_free env Ns" and "hash_value (key_merkle_hash env key)"
  shows "position_ok env r m \<Longrightarrow> m \<noteq> Map.empty \<Longrightarrow> on_path r (key_merkle_hash env key) m \<Longrightarrow> m' = upd env key blob m \<Longrightarrow>
    nodes env r m \<union> nodes env r m' \<subseteq> Ns \<Longrightarrow> write_ok env reader r m m' c \<Longrightarrow>
    \<exists>c'. insert_at env reader key blob (nhash env (canon env r m)) (ni_advance (64 - r) (key_iter (key_merkle_hash env key))) c =
      (Inr (nhash env (canon env r m'), canon env r m'), c') \<and>
    effect env (nodes env r m' - nodes env r m) (nodes env r m - nodes env r m') c c'"
proof (induction r arbitrary: m m' c)
  case 0
  then show ?case using insert_at_single [OF assms(1,2)] position_ok_0_single by blast
next
  case (Suc q)
  let ?kh = "key_merkle_hash env key" and ?ins = "insert_at env reader key blob"
  show ?case
  proof (cases "single m")
    case True
    then show ?thesis using insert_at_single [OF assms(1,2) Suc.prems(1) _ Suc.prems(3-6)] by blast
  next
    case False
    define d where "d = 63 - q"
    define n where "n = hash_nibbles ?kh ! d"
    define s where "s = sub d n m"
    define s' where "s' = sub d n m'"
    define old where "old = nodes env q s"
    define new where "new = nodes env q s'"
    define N where "N = canon env q s'"
    define it where "it = ni_advance d (key_iter ?kh)"
    define T where "T = canon env (Suc q) m"
    have d: "64 - Suc q = d" "64 - q = Suc d" "d < 64" using Suc.prems(1) by (auto simp: position_ok_def d_def)
    have upds: "s' = upd env key blob s" unfolding s_def s'_def Suc.prems(4) by (rule upd_sub_same) (simp add: n_def)
    have nx: "ni_next it = Inr (Some n, ni_advance (64 - q) (key_iter ?kh))"
      unfolding it_def d(2) n_def by (rule key_iter_next [OF assms(2) d(3)])
    have ps: "position_ok env q s" unfolding s_def d_def by (rule position_ok_sub [OF Suc.prems(1)])
    have opath: "on_path q ?kh s" unfolding s_def d_def by (rule on_path_sub [OF Suc.prems(3,1) assms(2)]) (simp add: n_def d_def)
    have ns: "nodes env (Suc q) m \<subseteq> Ns" "nodes env (Suc q) m' \<subseteq> Ns" using Suc.prems(5) by auto
    have same: "m' = m \<longleftrightarrow> s' = s"
    proof
      assume "s' = s"
      from fun_cong [OF this, of ?kh] have "m' ?kh = m ?kh" unfolding s_def s'_def sub_apply by (simp add: n_def)
      then show "m' = m" unfolding Suc.prems(4) by (intro ext) (metis upd_other)
    qed (simp add: s_def s'_def)
    have T: "T = Internal_Node \<lparr>in_children = canon_children env q m\<rparr>" unfolding T_def by (rule canon_branch [OF Suc.prems(2) False])
    have "cache_get_node reader c (nhash env T) = Inr T"
      unfolding T_def using Suc.prems(2,6) stored_node by (auto simp: write_ok_def)
    then have st: "insert_at env reader key blob (nhash env T) it c =
        insert_at_internal_node env reader ?ins (nhash env T) \<lparr>in_children = canon_children env q m\<rparr> it key blob c"
      by (subst insert_at.simps) (simp add: T)
    have wf: "cache_wf c" using Suc.prems(6) by (simp add: write_ok_def)
    have child: "canon_children env q m n = (if s = Map.empty then None else Some \<lparr>ch_hash = nhash env (canon env q s), ch_is_leaf = single s\<rparr>)"
      by (simp add: canon_children_apply s_def d_def)
    let ?goal = "\<exists>c'. insert_at env reader key blob (nhash env T) it c =
      (Inr (nhash env (canon env (Suc q) m'), canon env (Suc q) m'), c') \<and>
      effect env (nodes env (Suc q) m' - nodes env (Suc q) m) (nodes env (Suc q) m - nodes env (Suc q) m') c c'"
    have ?goal
    proof (cases "m' = m")
      case True
      then have ss: "s' = s" using same by simp
      have ns0: "nodes env q s \<union> nodes env q s' \<subseteq> Ns" using nodes_sub [OF False, of env q n] ns by (auto simp: ss s_def d_def)
      have w0: "write_ok env reader q s s' c"
        using Suc.prems(6) stored_sub [OF _ False] by (auto simp: write_ok_def ss s_def d_def)
      have "\<exists>c1. insert_at env reader key blob (nhash env T) it c = (Inr (nhash env T, T), c1) \<and> effect env {} {} c c1"
      proof (cases "s = Map.empty")
        case True
        then have "blob = None" using upds ss by (auto simp: upd_def Let_def fun_eq_iff split: option.splits if_splits)
        then show ?thesis
          unfolding st insert_at_internal_node_def nx in_child_def SmtInternalNode.simps lift_act_bind prod.case
          using wf True child by (simp add: expect_def T effect_refl)
      next
        case ne: False
        obtain c1 where "?ins (nhash env (canon env q s)) (ni_advance (64 - q) (key_iter ?kh)) c = (Inr (nhash env (canon env q s), canon env q s), c1)"
            "effect env {} {} c c1"
          using Suc.IH [OF ps ne opath upds ns0 w0] ss by auto
        then show ?thesis
          unfolding st insert_at_internal_node_def nx in_child_def SmtInternalNode.simps lift_act_bind prod.case
          using ne child node_is_leaf_canon [OF ps] by (auto simp add: expect_def T)
      qed
      then show ?thesis using \<open>m' = m\<close> by (auto simp: T_def)
    next
      case changed: False
      note delta = branch_delta [OF assms(1) Suc.prems(1,2) False Suc.prems(3) assms(2) Suc.prems(4) changed ns
          n_def [unfolded d_def] old_def [unfolded s_def d_def] new_def [unfolded s'_def d_def]]
      have oldN: "old \<subseteq> Ns" "new \<subseteq> Ns"
        using nodes_sub [OF False, of env q n] ns delta(3) by (auto simp: old_def s_def d_def)
      have "\<exists>c1. (case canon_children env q m n of
            Some child \<Rightarrow> bind_act (?ins (ch_hash child) (ni_advance (64 - q) (key_iter ?kh))) (\<lambda>r. return_act (Some r))
          | None \<Rightarrow> (case blob of
               Some b \<Rightarrow> bind_act (create_leaf_node env key b) (\<lambda>r. return_act (Some r))
             | None \<Rightarrow> return_act None)) c = (Inr (Some (nhash env N, N)), c1) \<and> effect env (new - old) (old - new) c c1"
      proof (cases "s = Map.empty")
        case True
        then obtain b where b: "blob = Some b" using changed same upds by (cases blob) (auto simp: upd_def)
        have s': "s' = [?kh \<mapsto> smt_leaf_new key b]" using upds True b by (simp add: upd_def)
        have on: "old = {}" "new = {Leaf_Node (smt_leaf_new key b)}" "N = Leaf_Node (smt_leaf_new key b)"
          using True s' by (simp_all add: old_def new_def N_def)
        have "cached c (nhash env (Leaf_Node (smt_leaf_new key b))) = None"
          using Suc.prems(6) delta(1) on unfolding write_ok_def by blast
        from create_leaf_node_eq [OF this wf] show ?thesis using child True b on by auto
      next
        case ne: False
        have "write_ok env reader q s s' c"
          using Suc.prems(6) stored_sub [OF _ False] delta(1,2) wf
          by (auto simp: write_ok_def s_def d_def old_def [symmetric] new_def [symmetric])
            (auto simp: old_def new_def s_def s'_def d_def)
        moreover have "nodes env q s \<union> nodes env q s' \<subseteq> Ns" using oldN by (simp add: old_def new_def)
        ultimately obtain c1 where "?ins (nhash env (canon env q s)) (ni_advance (64 - q) (key_iter ?kh)) c = (Inr (nhash env N, N), c1)"
            "effect env (new - old) (old - new) c c1"
          using Suc.IH [OF ps ne opath upds] unfolding N_def old_def new_def by blast
        then show ?thesis using child ne by simp
      qed
      then obtain c1 where c1: "(case canon_children env q m n of
            Some child \<Rightarrow> bind_act (?ins (ch_hash child) (ni_advance (64 - q) (key_iter ?kh))) (\<lambda>r. return_act (Some r))
          | None \<Rightarrow> (case blob of
               Some b \<Rightarrow> bind_act (create_leaf_node env key b) (\<lambda>r. return_act (Some r))
             | None \<Rightarrow> return_act None)) c = (Inr (Some (nhash env N, N)), c1)" "effect env (new - old) (old - new) c c1" by blast
      have diff: "\<not> (case canon_children env q m n of None \<Rightarrow> False
          | Some old \<Rightarrow> ch_hash old = nhash env N \<and> ch_is_leaf old = node_is_leaf N)"
      proof (cases "s = Map.empty")
        case ne: False
        have cs: "canon env q s \<in> Ns" using canon_in_nodes [OF ne, of env q] oldN(1) by (auto simp: old_def)
        have "nhash env (canon env q s) \<noteq> nhash env N"
        proof (cases "s' = Map.empty")
          case True
          then show ?thesis using hash_free_ph [OF assms(1) cs] by (simp add: N_def)
        next
          case ne': False
          have "N \<in> Ns" using canon_in_nodes [OF ne', of env q] oldN(2) by (auto simp: new_def N_def)
          moreover have "canon env q s \<noteq> N"
            using canon_inject [OF assms(1) ps _ _ _ ne ne', of q] position_ok_upd [OF ps opath assms(2), of blob] changed same oldN
            by (auto simp: N_def upds old_def new_def)
          ultimately show ?thesis using hash_free_eq [OF assms(1) cs] by blast
        qed
        with child ne show ?thesis by simp
      qed (use child in simp)
      have "insert_at env reader key blob (nhash env T) it c = replace_child env reader (nhash env T) (canon_children env q m') c1"
        unfolding st
        by (rule insert_at_internal_step [where rec = "?ins", OF nx Suc.prems(1,3) assms(2) Suc.prems(4) n_def [unfolded d_def] N_def [unfolded s'_def d_def] c1(1) diff])
      moreover have "\<exists>c'. replace_child env reader (nhash env T) (canon_children env q m') c1 =
          (Inr (nhash env (canon env (Suc q) m'), canon env (Suc q) m'), c') \<and>
        effect env (nodes env (Suc q) m' - nodes env (Suc q) m) (nodes env (Suc q) m - nodes env (Suc q) m') c c'"
        unfolding T_def
        by (rule replace_child_ok [OF assms(1) Suc.prems(1,2) False Suc.prems(3) assms(2) Suc.prems(4) changed ns
              n_def [unfolded d_def] old_def [unfolded s_def d_def] new_def [unfolded s'_def d_def] Suc.prems(6) c1(2)])
      ultimately show ?thesis by simp
    qed
    then show ?thesis unfolding T_def it_def d(1) .
  qed
qed

end
