(* ===== verification/Jellyfish_Update.thy ===== *)
theory Jellyfish_Update
  imports Jellyfish_Write
begin

text \<open>
  A batch of updates (\<^verbatim>\<open>put\<close>, \<^verbatim>\<open>puts\<close>, \<^verbatim>\<open>updates\<close>) through one write cache. The invariant of the
  cache relates it to the map before the batch and to the present one; at the end the batch written
  over the old store represents the updated map, and every old root as before.
\<close>

section \<open>The invariant of a batch\<close>

definition batch_inv ::
    "('k, 'v) smt_env \<Rightarrow> ('k, 'v) node_reader \<Rightarrow> ('k, 'v) entries \<Rightarrow> ('k, 'v) entries \<Rightarrow> ('k, 'v) TreeCache \<Rightarrow> bool" where
  "batch_inv env reader m0 m c \<longleftrightarrow>
     cache_wf c \<and> tc_root_node_key c = nhash env (canon env 64 m) \<and>
     tc_frozen_cache c = frozen_cache_default \<and>
     (\<forall>k N. cached c k = Some N \<longrightarrow> k = nhash env N \<and> (N = Null \<or> N \<in> nodes env 64 m)) \<and>
     (\<forall>N \<in> nodes env 64 m. cached c (nhash env N) = None \<longrightarrow> N \<in> nodes env 64 m0) \<and>
     tc_stale_node_index_cache c \<subseteq> insert SPARSE_MERKLE_PLACEHOLDER_HASH (nhash env ` nodes env 64 m0) \<and>
     (\<forall>N \<in> nodes env 64 m0. nhash env N \<in> tc_stale_node_index_cache c \<longleftrightarrow>
        N \<notin> nodes env 64 m \<or> cached c (nhash env N) \<noteq> None)"

lemma batch_inv_stored:
  assumes "batch_inv env reader m0 m c" and "stored env (reader_get_node reader) 64 m0"
    and "hash_free env Ns" and "nodes env 64 m \<subseteq> Ns"
  shows "stored env (cache_get_node reader c) 64 m"
  unfolding stored_def
proof
  fix N
  assume N: "N \<in> nodes env 64 m"
  then have ph: "nhash env N \<noteq> SPARSE_MERKLE_PLACEHOLDER_HASH" using hash_free_ph [OF assms(3)] assms(4) by blast
  have fz: "fz_node_cache (tc_frozen_cache c) = []" using assms(1) by (simp add: batch_inv_def frozen_cache_default_def)
  show "cache_get_node reader c (nhash env N) = Inr N"
  proof (cases "cached c (nhash env N)")
    case None
    then have "N \<in> nodes env 64 m0" using assms(1) N by (auto simp: batch_inv_def)
    then show ?thesis using None ph fz assms(2) by (simp add: cache_get_node_def cached_def stored_def)
  next
    case (Some M)
    then have "nhash env N = nhash env M" "M = Null \<or> M \<in> nodes env 64 m" using assms(1) by (auto simp: batch_inv_def)
    then have "M = N" using ph N hash_free_eq [OF assms(3), of M N] assms(4) by auto
    then show ?thesis using Some ph by (simp add: cache_get_node_def cached_def)
  qed
qed

lemma batch_inv_write_ok:
  assumes "batch_inv env reader m0 m c" and "stored env (reader_get_node reader) 64 m0"
    and "hash_free env Ns" and "nodes env 64 m0 \<subseteq> Ns" and "nodes env 64 m \<subseteq> Ns" and "nodes env 64 m' \<subseteq> Ns"
  shows "write_ok env reader 64 m m' c"
proof -
  have "cached c (nhash env N) = None" if N: "N \<in> nodes env 64 m' - nodes env 64 m" for N
  proof (rule ccontr)
    assume "cached c (nhash env N) \<noteq> None"
    then obtain M where "nhash env N = nhash env M" "M = Null \<or> M \<in> nodes env 64 m"
      using assms(1) by (auto simp: batch_inv_def)
    then have "M = N" using N hash_free_ph [OF assms(3), of N] hash_free_eq [OF assms(3), of M N] assms(5,6) by auto
    with \<open>M = Null \<or> _\<close> N Null_notin_nodes show False by auto
  qed
  moreover have "nhash env N \<notin> tc_stale_node_index_cache c" if "N \<in> nodes env 64 m" "cached c (nhash env N) = None" for N
    using that assms(1) by (auto simp: batch_inv_def)
  ultimately show ?thesis
    using batch_inv_stored [OF assms(1,2,3,5)] assms(1) by (auto simp: write_ok_def batch_inv_def)
qed

lemma effect_wf: "effect env A D c c' \<Longrightarrow> cache_wf c'"
  by (simp add: effect_def)

text \<open>The empty node is never added.\<close>

lemma effect_no_null:
  assumes "effect env A D c c'" and "Null \<notin> A" and "cached c' k = Some Null"
  shows "cached c k = Some Null"
proof (cases "k \<in> nhash env ` (A \<union> D)")
  case True
  then obtain N where N: "N \<in> A \<union> D" "k = nhash env N" by blast
  then have "cached c' k = Some N \<or> cached c' k = None" using assms(1) by (auto simp: effect_def)
  then show ?thesis using assms N by (auto simp: effect_def)
qed (use assms in \<open>simp add: effect_def\<close>)

text \<open>The placeholder node counts as removed where an empty tree gets its first leaf.\<close>

lemma batch_inv_effect:
  assumes "batch_inv env reader m0 m c" and "hash_free env Ns"
    and "nodes env 64 m0 \<subseteq> Ns" and "nodes env 64 m \<subseteq> Ns" and "nodes env 64 m' \<subseteq> Ns"
    and "effect env (nodes env 64 m' - nodes env 64 m) ((nodes env 64 m - nodes env 64 m') \<union> R) c c'"
    and "R \<subseteq> {Null}"
  shows "batch_inv env reader m0 m' (c'\<lparr>tc_root_node_key := nhash env (canon env 64 m')\<rparr>)"
proof -
  let ?A = "nodes env 64 m' - nodes env 64 m" and ?D = "nodes env 64 m - nodes env 64 m'"
  have e: "\<And>N. N \<in> ?A \<Longrightarrow> cached c' (nhash env N) = Some N" "\<And>N. N \<in> ?D \<union> R \<Longrightarrow> cached c' (nhash env N) = None"
    "\<And>k. k \<notin> nhash env ` (?A \<union> (?D \<union> R)) \<Longrightarrow> cached c' k = cached c k"
    "tc_stale_node_index_cache c' = tc_stale_node_index_cache c \<union> {k \<in> nhash env ` (?D \<union> R). cached c k = None}"
    "tc_frozen_cache c' = tc_frozen_cache c" "cache_wf c'"
    using assms(6) by (auto simp: effect_def same_base_def)
  have out: "nhash env N \<notin> nhash env ` (?A \<union> (?D \<union> R))" if "N \<in> Ns" "N \<notin> ?A" "N \<notin> ?D" for N
  proof
    assume "nhash env N \<in> nhash env ` (?A \<union> (?D \<union> R))"
    then obtain M where M: "M \<in> ?A \<union> (?D \<union> R)" "nhash env N = nhash env M" by blast
    with hash_free_ph [OF assms(2) that(1)] assms(7) have "M \<in> ?A \<union> ?D" by auto
    then have "N = M" using hash_free_eq [OF assms(2) that(1), of M] M(2) assms(4,5) by auto
    with \<open>M \<in> ?A \<union> ?D\<close> that show False by blast
  qed
  have cm: "\<And>k N. cached c k = Some N \<Longrightarrow> k = nhash env N \<and> (N = Null \<or> N \<in> nodes env 64 m)"
    and rm: "\<And>N. N \<in> nodes env 64 m \<Longrightarrow> cached c (nhash env N) = None \<Longrightarrow> N \<in> nodes env 64 m0"
    and sub: "tc_stale_node_index_cache c \<subseteq> insert SPARSE_MERKLE_PLACEHOLDER_HASH (nhash env ` nodes env 64 m0)"
    and st: "\<And>N. N \<in> nodes env 64 m0 \<Longrightarrow> nhash env N \<in> tc_stale_node_index_cache c \<longleftrightarrow>
        N \<notin> nodes env 64 m \<or> cached c (nhash env N) \<noteq> None"
    using assms(1) by (simp_all add: batch_inv_def)
  have "k = nhash env N \<and> (N = Null \<or> N \<in> nodes env 64 m')" if k: "cached c' k = Some N" for k N
  proof (cases "k \<in> nhash env ` (?A \<union> (?D \<union> R))")
    case True
    then obtain M where "M \<in> ?A" "k = nhash env M" using e(2) k by auto
    then show ?thesis using e(1) k by auto
  next
    case False
    then have "cached c k = Some N" using e(3) k by simp
    with cm have N: "k = nhash env N" "N = Null \<or> N \<in> nodes env 64 m" by auto
    then have "N \<notin> ?D" using False by blast
    with N show ?thesis by auto
  qed
  moreover have "N \<in> nodes env 64 m0" if "N \<in> nodes env 64 m'" "cached c' (nhash env N) = None" for N
  proof -
    have "N \<notin> ?A" using e(1) that(2) by (metis option.distinct(1))
    moreover from this have "cached c (nhash env N) = None" using e(3) [OF out] that assms(5) by auto
    ultimately show ?thesis using rm that by blast
  qed
  moreover have "tc_stale_node_index_cache c' \<subseteq> insert SPARSE_MERKLE_PLACEHOLDER_HASH (nhash env ` nodes env 64 m0)"
    unfolding e(4) using sub rm assms(7) by auto
  moreover have "nhash env N \<in> tc_stale_node_index_cache c' \<longleftrightarrow> N \<notin> nodes env 64 m' \<or> cached c' (nhash env N) \<noteq> None"
    if N: "N \<in> nodes env 64 m0" for N
  proof -
    consider "N \<in> ?A" | "N \<in> ?D" | "N \<notin> ?A" "N \<notin> ?D" by blast
    then show ?thesis
    proof cases
      case 1
      then show ?thesis using e(1,4) st N by auto
    next
      case 2
      then show ?thesis using e(2,4) st N by auto
    next
      case 3
      note o = out [OF _ 3] 
      have "nhash env N \<notin> nhash env ` (?A \<union> (?D \<union> R))" by (rule o) (use N assms(3) in blast)
      moreover from this have "cached c' (nhash env N) = cached c (nhash env N)" by (rule e(3))
      ultimately show ?thesis using e(4) st [OF N] 3 by auto
    qed
  qed
  moreover have "cache_wf (c'\<lparr>tc_root_node_key := nhash env (canon env 64 m')\<rparr>)" using e(6) by (simp add: cache_wf_def)
  ultimately show ?thesis using assms(1) e(5) by (simp add: batch_inv_def cached_def)
qed

section \<open>One update\<close>

lemma jm_put_eq:
  assumes "batch_inv env reader m0 m c" and "stored env (reader_get_node reader) 64 m0" and "entries_ok env m"
    and "hash_free env Ns" and "nodes env 64 m0 \<subseteq> Ns" and "nodes env 64 m \<subseteq> Ns"
    and "m' = upd env key blob m" and "nodes env 64 m' \<subseteq> Ns" and "hash_value (key_merkle_hash env key)"
    and "m = Map.empty \<and> blob \<noteq> None \<Longrightarrow> SPARSE_MERKLE_PLACEHOLDER_HASH \<notin> tc_stale_node_index_cache c"
  shows "\<exists>c'. jm_put env reader key blob c = (Inr (), c') \<and> batch_inv env reader m0 m' c' \<and>
    (SPARSE_MERKLE_PLACEHOLDER_HASH \<in> tc_stale_node_index_cache c' \<longrightarrow>
     SPARSE_MERKLE_PLACEHOLDER_HASH \<in> tc_stale_node_index_cache c \<or> m = Map.empty \<and> blob \<noteq> None) \<and>
    (\<forall>k. cached c' k = Some Null \<longrightarrow> cached c k = Some Null)"
proof -
  let ?kh = "key_merkle_hash env key" and ?PH = SPARSE_MERKLE_PLACEHOLDER_HASH
  define root' where "root' = nhash env (canon env 64 m)"
  have wf: "cache_wf c" and rk: "tc_root_node_key c = root'" using assms(1) by (simp_all add: batch_inv_def root'_def)
  have w: "write_ok env reader 64 m m' c" by (rule batch_inv_write_ok [OF assms(1,2,4,5,6,8)])
  have adv: "ni_advance 0 (key_iter ?kh) = key_iter ?kh" by (simp add: ni_advance_def)
  have start: "jm_put env reader key blob c =
      bind_act (insert_at env reader key blob root' (key_iter ?kh)) (\<lambda>(new_root_node_key, _). set_root_node_key new_root_node_key) c"
    using key_iter_eq(1) [OF assms(9)] rk by (auto simp: jm_put_def Let_def)
  have "\<exists>c' R. insert_at env reader key blob root' (key_iter ?kh) c = (Inr (nhash env (canon env 64 m'), canon env 64 m'), c') \<and>
      effect env (nodes env 64 m' - nodes env 64 m) ((nodes env 64 m - nodes env 64 m') \<union> R) c c' \<and>
      R \<subseteq> (if m = Map.empty \<and> blob \<noteq> None then {Null} else {})"
  proof (cases "m = Map.empty")
    case False
    have "on_path 64 ?kh m" by (simp add: on_path_def)
    with insert_at_eq [OF assms(4,9) position_ok_root [OF assms(3)] False _ assms(7) _ w] assms(6,8)
    obtain c' where "insert_at env reader key blob root' (ni_advance (64 - 64) (key_iter ?kh)) c = (Inr (nhash env (canon env 64 m'), canon env 64 m'), c')"
        "effect env (nodes env 64 m' - nodes env 64 m) (nodes env 64 m - nodes env 64 m') c c'"
      unfolding root'_def by blast
    then show ?thesis using adv by (intro exI [of _ c'] exI [of _ "{}"]) simp
  next
    case True
    then have root': "root' = ?PH" by (simp add: root'_def)
    have get: "cache_get_node reader c ?PH = Inr Null" by (simp add: cache_get_node_def)
    show ?thesis
    proof (cases blob)
      case None
      then have "m' = Map.empty" using True by (simp add: assms(7) upd_def)
      with None True get root' wf show ?thesis
        by (intro exI [of _ c] exI [of _ "{}"]) (simp add: insert_at.simps [of env reader key _ "?PH"] effect_refl)
    next
      case (Some b)
      let ?L = "Leaf_Node (smt_leaf_new key b)"
      have m': "m' = [?kh \<mapsto> smt_leaf_new key b]" using True Some by (simp add: assms(7) upd_def)
      have nm': "nodes env 64 m' = {?L}" "canon env 64 m' = ?L" by (simp_all add: m')
      have LN: "?L \<in> Ns" using assms(8) nm' by simp
      have "\<not> node_is_leaf N" if "cached c ?PH = Some N" for N
      proof -
        have "?PH = nhash env N" "N = Null \<or> N \<in> nodes env 64 m" using assms(1) that by (auto simp: batch_inv_def)
        then show ?thesis using True by auto
      qed
      then obtain c1 where c1: "delete_node ?PH False c = (Inr (), c1)" "effect env {} {Null} c c1"
        using effect_delete [OF wf, of env Null False] assms(10) True Some by auto
      have ph: "nhash env ?L \<noteq> ?PH" by (rule hash_free_ph [OF assms(4) LN])
      have "cached c (nhash env ?L) = None" using w nm' True by (auto simp: write_ok_def)
      then have "cached c1 (nhash env ?L) = None" using c1(2) ph by (simp add: effect_def)
      then obtain c2 where c2: "create_leaf_node env key b c1 = (Inr (nhash env ?L, ?L), c2)" "effect env {?L} {} c1 c2"
        using create_leaf_node_eq [OF _ effect_wf [OF c1(2)]] by blast
      have "effect env ({} \<union> {?L}) ({Null} \<union> {}) c c2" by (rule effect_trans [OF c1(2) c2(2)]) (use ph in auto)
      moreover have "insert_at env reader key blob root' (key_iter ?kh) c = (Inr (nhash env ?L, ?L), c2)"
        using c1(1) c2(1) get Some root' by (simp add: insert_at.simps [of env reader key _ "?PH"])
      ultimately show ?thesis using nm' True Some by (intro exI [of _ c2] exI [of _ "{Null}"]) simp
    qed
  qed
  then obtain c' R where c': "insert_at env reader key blob root' (key_iter ?kh) c = (Inr (nhash env (canon env 64 m'), canon env 64 m'), c')"
      and eff: "effect env (nodes env 64 m' - nodes env 64 m) ((nodes env 64 m - nodes env 64 m') \<union> R) c c'"
      and R: "R \<subseteq> (if m = Map.empty \<and> blob \<noteq> None then {Null} else {})" by blast
  have "jm_put env reader key blob c = (Inr (), c'\<lparr>tc_root_node_key := nhash env (canon env 64 m')\<rparr>)"
    unfolding start using c' by (simp add: set_root_node_key_def)
  moreover have "batch_inv env reader m0 m' (c'\<lparr>tc_root_node_key := nhash env (canon env 64 m')\<rparr>)"
    by (rule batch_inv_effect [OF assms(1,4,5,6,8) eff]) (use R in \<open>auto split: if_splits\<close>)
  moreover have "?PH \<in> tc_stale_node_index_cache c \<or> m = Map.empty \<and> blob \<noteq> None" if "?PH \<in> tc_stale_node_index_cache c'"
  proof -
    have "?PH \<notin> nhash env ` (nodes env 64 m - nodes env 64 m')" using assms(4,6) by (auto simp: hash_free_def)
    with that eff R show ?thesis by (auto simp: effect_def split: if_splits)
  qed
  moreover have "cached c k = Some Null" if "cached (c'\<lparr>tc_root_node_key := nhash env (canon env 64 m')\<rparr>) k = Some Null" for k
    using that effect_no_null [OF eff] Null_notin_nodes [of env 64 m'] by (simp add: cached_def)
  ultimately show ?thesis by auto
qed

section \<open>A batch of updates\<close>

type_synonym ('k, 'v) blob_set = "('k \<times> 'v SMTObject option) list"

fun upds :: "('k, 'v) smt_env \<Rightarrow> ('k, 'v) blob_set \<Rightarrow> ('k, 'v) entries \<Rightarrow> ('k, 'v) entries" where
  "upds env [] m = m"
| "upds env ((key, blob) # kvs) m = upds env kvs (upd env key blob m)"

text \<open>All nodes that occur in a tree before, between or after the updates.\<close>

fun batch_nodes :: "('k, 'v) smt_env \<Rightarrow> ('k, 'v) blob_set \<Rightarrow> ('k, 'v) entries \<Rightarrow> ('k, 'v) SmtNode set" where
  "batch_nodes env [] m = nodes env 64 m"
| "batch_nodes env ((key, blob) # kvs) m = nodes env 64 m \<union> batch_nodes env kvs (upd env key blob m)"

definition key_hashes :: "('k, 'v) smt_env \<Rightarrow> ('k, 'v) blob_set \<Rightarrow> HashValue list" where
  "key_hashes env kvs = map (key_merkle_hash env \<circ> fst) kvs"

definition batch_ok :: "('k, 'v) smt_env \<Rightarrow> ('k, 'v) blob_set \<Rightarrow> bool" where
  "batch_ok env kvs \<longleftrightarrow> distinct (key_hashes env kvs) \<and> (\<forall>h \<in> set (key_hashes env kvs). hash_value h)"

lemma batch_nodes_first: "nodes env 64 m \<subseteq> batch_nodes env kvs m"
  by (cases kvs) auto

lemma batch_nodes_last: "nodes env 64 (upds env kvs m) \<subseteq> batch_nodes env kvs m"
  by (induction env kvs m rule: upds.induct) auto

lemma upds_other: "h \<notin> set (key_hashes env kvs) \<Longrightarrow> upds env kvs m h = m h"
  by (induction kvs arbitrary: m) (auto simp: key_hashes_def upd_other)

lemma put_all_eq:
  assumes "stored env (reader_get_node reader) 64 m0" and "hash_free env Ns" and "nodes env 64 m0 \<subseteq> Ns"
  shows "batch_inv env reader m0 m c \<Longrightarrow> entries_ok env m \<Longrightarrow> batch_nodes env kvs m \<subseteq> Ns \<Longrightarrow> batch_ok env kvs \<Longrightarrow>
    (SPARSE_MERKLE_PLACEHOLDER_HASH \<in> tc_stale_node_index_cache c \<longrightarrow> (\<exists>h \<in> dom m. h \<notin> set (key_hashes env kvs))) \<Longrightarrow>
    \<exists>c'. put_all env reader kvs c = (Inr (), c') \<and> batch_inv env reader m0 (upds env kvs m) c' \<and> entries_ok env (upds env kvs m) \<and>
      (SPARSE_MERKLE_PLACEHOLDER_HASH \<in> tc_stale_node_index_cache c' \<longrightarrow>
       SPARSE_MERKLE_PLACEHOLDER_HASH \<in> tc_stale_node_index_cache c \<or> (\<exists>i < length kvs. upds env (take i kvs) m = Map.empty)) \<and>
      (\<forall>k. cached c' k = Some Null \<longrightarrow> cached c k = Some Null)"
proof (induction kvs arbitrary: m c)
  case Nil
  then show ?case by simp
next
  case (Cons kv kvs)
  obtain key blob where kv: "kv = (key, blob)" by fastforce
  let ?kh = "key_merkle_hash env key" and ?PH = SPARSE_MERKLE_PLACEHOLDER_HASH and ?m = "upd env key blob m"
  have hv: "hash_value ?kh" and fresh: "?kh \<notin> set (key_hashes env kvs)" and ok: "batch_ok env kvs"
    using Cons.prems(4) by (auto simp: batch_ok_def key_hashes_def kv)
  have ns: "nodes env 64 m \<subseteq> Ns" "nodes env 64 ?m \<subseteq> Ns" "batch_nodes env kvs ?m \<subseteq> Ns"
    using Cons.prems(3) batch_nodes_first [of env ?m kvs] by (auto simp: kv)
  have "?PH \<notin> tc_stale_node_index_cache c" if "m = Map.empty \<and> blob \<noteq> None"
    using Cons.prems(5) that by auto
  then obtain c1 where c1: "jm_put env reader key blob c = (Inr (), c1)" "batch_inv env reader m0 ?m c1"
      "?PH \<in> tc_stale_node_index_cache c1 \<longrightarrow> ?PH \<in> tc_stale_node_index_cache c \<or> m = Map.empty \<and> blob \<noteq> None"
      "\<And>k. cached c1 k = Some Null \<Longrightarrow> cached c k = Some Null"
    using jm_put_eq [OF Cons.prems(1) assms(1) Cons.prems(2) assms(2,3) ns(1) refl ns(2) hv] by blast
  have "\<exists>h \<in> dom ?m. h \<notin> set (key_hashes env kvs)" if "?PH \<in> tc_stale_node_index_cache c1"
  proof -
    from c1(3) that consider "?PH \<in> tc_stale_node_index_cache c" | "m = Map.empty" "blob \<noteq> None" by blast
    then show ?thesis
    proof cases
      case 1
      then obtain h where "h \<in> dom m" "h \<notin> set (key_hashes env kvs)" "h \<noteq> ?kh"
        using Cons.prems(5) by (auto simp: key_hashes_def kv)
      moreover from this have "h \<in> dom ?m" by (auto simp: upd_other)
      ultimately show ?thesis by blast
    next
      case 2
      then have "?kh \<in> dom ?m" by (auto simp: upd_def)
      with fresh show ?thesis by blast
    qed
  qed
  with Cons.IH [OF c1(2) upd_entries_ok [OF Cons.prems(2) hv] ns(3) ok] obtain c'
    where c': "put_all env reader kvs c1 = (Inr (), c')" "batch_inv env reader m0 (upds env kvs ?m) c'" "entries_ok env (upds env kvs ?m)"
      "?PH \<in> tc_stale_node_index_cache c' \<longrightarrow> ?PH \<in> tc_stale_node_index_cache c1 \<or> (\<exists>i < length kvs. upds env (take i kvs) ?m = Map.empty)"
      "\<And>k. cached c' k = Some Null \<Longrightarrow> cached c1 k = Some Null" by blast
  have "\<exists>i < length (kv # kvs). upds env (take i (kv # kvs)) m = Map.empty"
    if ph: "?PH \<in> tc_stale_node_index_cache c'" "?PH \<notin> tc_stale_node_index_cache c"
  proof (cases "m = Map.empty")
    case True
    then show ?thesis by (intro exI [of _ 0]) simp
  next
    case False
    then obtain i where "i < length kvs" "upds env (take i kvs) ?m = Map.empty" using c1(3) c'(4) ph by blast
    then show ?thesis by (intro exI [of _ "Suc i"]) (simp add: kv)
  qed
  with c1(1,4) c' show ?case by (auto simp: kv)
qed

lemma batch_inv_new:
  assumes "root_opt = Some (nhash env (canon env 64 m)) \<or> root_opt = None \<and> m = Map.empty"
  shows "batch_inv env reader m m (tree_cache_new root_opt)"
  using assms
proof
  assume "root_opt = Some (nhash env (canon env 64 m))"
  then show ?thesis by (auto simp: batch_inv_def tree_cache_new_def cache_wf_def cached_def)
next
  assume "root_opt = None \<and> m = Map.empty"
  then show ?thesis
    by (auto simp: batch_inv_def tree_cache_new_def cache_wf_def cached_def new_null_def split: if_splits)
qed

text \<open>What the batch returned for an update from one map to another holds.\<close>

definition batch_from_to ::
    "('k, 'v) smt_env \<Rightarrow> ('k, 'v) entries \<Rightarrow> ('k, 'v) entries \<Rightarrow> ('k, 'v) TreeUpdateBatch \<Rightarrow> bool" where
  "batch_from_to env m m' batch \<longleftrightarrow>
     distinct (map fst (node_batch batch)) \<and>
     (\<forall>k N. map_of (node_batch batch) k = Some N \<longrightarrow> k = nhash env N \<and> (N = Null \<or> N \<in> nodes env 64 m')) \<and>
     (\<forall>N \<in> nodes env 64 m'. map_of (node_batch batch) (nhash env N) = None \<longrightarrow> N \<in> nodes env 64 m) \<and>
     batch_num_new_leaves batch = length (filter (node_is_leaf \<circ> snd) (node_batch batch)) \<and>
     stale_node_index_batch batch - {\<lparr>stale_since_version = nhash env (canon env 64 m'), stale_node_key = SPARSE_MERKLE_PLACEHOLDER_HASH\<rparr>} =
       {\<lparr>stale_since_version = nhash env (canon env 64 m'), stale_node_key = nhash env N\<rparr> | N.
         N \<in> nodes env 64 m \<and> (N \<notin> nodes env 64 m' \<or> map_of (node_batch batch) (nhash env N) \<noteq> None)}"

lemma merge_empty_batch:
  assumes "distinct (map fst xs)"
  shows "AList.merge [] xs = rev xs"
  using assms
proof (induction xs)
  case (Cons x xs)
  have "map_of (AList.merge [] xs) (fst x) = None"
    using Cons.prems by (simp add: AList.merge_conv' map_of_eq_None_iff)
  then have "AList.update (fst x) (snd x) (AList.merge [] xs) = AList.merge [] xs @ [x]" by (simp add: update_absent)
  moreover have "AList.merge [] (x # xs) = AList.update (fst x) (snd x) (AList.merge [] xs)"
    by (simp add: AList.merge_def split_beta)
  ultimately show ?case using Cons by simp
qed (simp add: AList.merge_def)

lemma jm_updates_eq:
  fixes env :: "('k, 'v) smt_env"
  assumes "stored env (reader_get_node reader) 64 m" and "entries_ok env m"
    and "root_opt = Some (nhash env (canon env 64 m)) \<or> root_opt = None \<and> m = Map.empty"
    and "batch_ok env kvs" and "kvs \<noteq> []" and "hash_free env (batch_nodes env kvs m)"
  shows "\<exists>batch. jm_updates env reader root_opt kvs = Inr (nhash env (canon env 64 (upds env kvs m)), batch) \<and>
    entries_ok env (upds env kvs m) \<and> batch_from_to env m (upds env kvs m) batch \<and>
    (\<lparr>stale_since_version = nhash env (canon env 64 (upds env kvs m)), stale_node_key = SPARSE_MERKLE_PLACEHOLDER_HASH\<rparr> \<in> stale_node_index_batch batch \<longrightarrow>
       (\<exists>i < length kvs. upds env (take i kvs) m = Map.empty)) \<and>
    (root_opt \<noteq> None \<longrightarrow> Null \<notin> snd ` set (node_batch batch))"
proof -
  let ?c0 = "tree_cache_new root_opt :: ('k, 'v) TreeCache" and ?m = "upds env kvs m"
  define root' where "root' = nhash env (canon env 64 ?m)"
  have "SPARSE_MERKLE_PLACEHOLDER_HASH \<in> tc_stale_node_index_cache ?c0 \<longrightarrow> (\<exists>h \<in> dom m. h \<notin> set (key_hashes env kvs))"
    by (simp add: tree_cache_new_def)
  from put_all_eq [OF assms(1,6) batch_nodes_first batch_inv_new [OF assms(3)] assms(2) subset_refl assms(4) this]
  obtain c where c: "put_all env reader kvs ?c0 = (Inr (), c)" "batch_inv env reader m ?m c" "entries_ok env ?m"
      "SPARSE_MERKLE_PLACEHOLDER_HASH \<in> tc_stale_node_index_cache c \<longrightarrow>
        SPARSE_MERKLE_PLACEHOLDER_HASH \<in> tc_stale_node_index_cache ?c0 \<or> (\<exists>i < length kvs. upds env (take i kvs) m = Map.empty)"
      "\<And>k. cached c k = Some Null \<Longrightarrow> cached ?c0 k = Some Null" by blast
  have wf: "cache_wf c" and rk: "tc_root_node_key c = root'" and fz: "tc_frozen_cache c = frozen_cache_default"
    using c(2) by (simp_all add: batch_inv_def root'_def)
  have get: "cache_get_node reader c root' = Inr (canon env 64 ?m)"
  proof (cases "?m = Map.empty")
    case True
    then show ?thesis by (simp add: root'_def cache_get_node_def)
  next
    case False
    have "stored env (cache_get_node reader c) 64 ?m"
      by (rule batch_inv_stored [OF c(2) assms(1,6) batch_nodes_last])
    from stored_node [OF this False] show ?thesis by (simp add: root'_def)
  qed
  define batch where "batch = \<lparr>node_batch = AList.merge [] (tc_node_cache c),
     stale_node_index_batch = (\<lambda>k. \<lparr>stale_since_version = root', stale_node_key = k\<rparr>) ` tc_stale_node_index_cache c,
     batch_num_new_leaves = tc_num_new_leaves c, batch_num_stale_leaves = tc_num_stale_leaves c\<rparr>"
  have "jm_updates env reader root_opt kvs = Inr (root', batch)"
    using c(1) rk get fz assms(5)
    by (simp add: jm_updates_def jm_puts_def assert_that_def cache_freeze_def cache_into_def frozen_cache_default_def Let_def
        batch_def root'_def)
  moreover have d: "distinct (map fst (tc_node_cache c))" using wf by (simp add: cache_wf_def)
  moreover have nb: "node_batch batch = rev (tc_node_cache c)" using merge_empty_batch [OF d] by (simp add: batch_def)
  moreover have mo: "map_of (node_batch batch) = cached c" by (simp add: batch_def cached_def AList.merge_conv')
  moreover have "batch_from_to env m ?m batch"
  proof -
    have ph: "nhash env N \<noteq> SPARSE_MERKLE_PLACEHOLDER_HASH" if "N \<in> nodes env 64 m" for N
      using hash_free_ph [OF assms(6)] batch_nodes_first that by blast
    have st: "tc_stale_node_index_cache c - {SPARSE_MERKLE_PLACEHOLDER_HASH} =
        {nhash env N | N. N \<in> nodes env 64 m \<and> (N \<notin> nodes env 64 ?m \<or> cached c (nhash env N) \<noteq> None)}"
    proof -
      have sub: "tc_stale_node_index_cache c \<subseteq> insert SPARSE_MERKLE_PLACEHOLDER_HASH (nhash env ` nodes env 64 m)"
        and iff: "\<And>N. N \<in> nodes env 64 m \<Longrightarrow> nhash env N \<in> tc_stale_node_index_cache c \<longleftrightarrow> N \<notin> nodes env 64 ?m \<or> cached c (nhash env N) \<noteq> None"
        using c(2) by (simp_all add: batch_inv_def)
      show ?thesis
      proof (intro equalityI subsetI)
        fix k
        assume k: "k \<in> tc_stale_node_index_cache c - {SPARSE_MERKLE_PLACEHOLDER_HASH}"
        then obtain N where "k = nhash env N" "N \<in> nodes env 64 m" using sub by blast
        then show "k \<in> {nhash env N | N. N \<in> nodes env 64 m \<and> (N \<notin> nodes env 64 ?m \<or> cached c (nhash env N) \<noteq> None)}"
          using k iff [of N] by blast
      next
        fix k
        assume "k \<in> {nhash env N | N. N \<in> nodes env 64 m \<and> (N \<notin> nodes env 64 ?m \<or> cached c (nhash env N) \<noteq> None)}"
        then obtain N where N: "k = nhash env N" "N \<in> nodes env 64 m" "N \<notin> nodes env 64 ?m \<or> cached c (nhash env N) \<noteq> None" by blast
        then show "k \<in> tc_stale_node_index_cache c - {SPARSE_MERKLE_PLACEHOLDER_HASH}" using iff [OF N(2)] ph [OF N(2)] by simp
      qed
    qed
    have "stale_node_index_batch batch - {\<lparr>stale_since_version = root', stale_node_key = SPARSE_MERKLE_PLACEHOLDER_HASH\<rparr>} =
        (\<lambda>k. \<lparr>stale_since_version = root', stale_node_key = k\<rparr>) ` (tc_stale_node_index_cache c - {SPARSE_MERKLE_PLACEHOLDER_HASH})"
      by (auto simp: batch_def)
    then have "stale_node_index_batch batch - {\<lparr>stale_since_version = root', stale_node_key = SPARSE_MERKLE_PLACEHOLDER_HASH\<rparr>} =
        {\<lparr>stale_since_version = root', stale_node_key = nhash env N\<rparr> | N.
          N \<in> nodes env 64 m \<and> (N \<notin> nodes env 64 ?m \<or> cached c (nhash env N) \<noteq> None)}"
      unfolding st by blast
    moreover have "distinct (map fst (node_batch batch))" "batch_num_new_leaves batch = length (filter (node_is_leaf \<circ> snd) (node_batch batch))"
      using d wf by (simp_all add: merge_empty_batch cache_wf_def rev_map [symmetric] rev_filter [symmetric] batch_def)
    ultimately show ?thesis
      using c(2) unfolding batch_from_to_def mo root'_def by (simp add: batch_inv_def)
  qed
  moreover have "\<exists>i < length kvs. upds env (take i kvs) m = Map.empty"
    if "\<lparr>stale_since_version = root', stale_node_key = SPARSE_MERKLE_PLACEHOLDER_HASH\<rparr> \<in> stale_node_index_batch batch"
    using that c(4) by (auto simp: batch_def tree_cache_new_def)
  moreover have "Null \<notin> snd ` set (node_batch batch)" if "root_opt \<noteq> None"
  proof
    assume "Null \<in> snd ` set (node_batch batch)"
    then obtain k where "(k, Null) \<in> set (tc_node_cache c)" by (auto simp: nb)
    then have "cached c k = Some Null" using d by (simp add: cached_def)
    then have "cached ?c0 k = Some Null" by (rule c(5))
    then show False using that by (auto simp: cached_def tree_cache_new_def)
  qed
  ultimately show ?thesis using c(3) by (auto simp: root'_def)
qed

end
