(* ===== verification/Smt_Tree_Refinement.thy ===== *)
theory Smt_Tree_Refinement
  imports Smt_Tree Smt_Iteration Jellyfish_Update
begin

text \<open>
  The tree over a node store refines a map from keys to values. The interfaces are the ordered map
  behind \<^verbatim>\<open>UpdateSet\<close> and the node store (\<^verbatim>\<open>NodeReader\<close> and \<^verbatim>\<open>NodeWriter\<close>); both are interpreted on the
  definitions of the crate.
\<close>

section \<open>Ordered maps\<close>

locale ordered_map =
  fixes insert :: "'k::linorder \<Rightarrow> 'a \<Rightarrow> 'm \<Rightarrow> 'm" and entries :: "'m \<Rightarrow> ('k \<times> 'a) list"
  assumes insert_sorted:
      "sorted_wrt (<) (map fst (entries m)) \<Longrightarrow> sorted_wrt (<) (map fst (entries (insert k v m)))"
    and insert_lookup:
      "sorted_wrt (<) (map fst (entries m)) \<Longrightarrow> map_of (entries (insert k v m)) = (map_of (entries m))(k \<mapsto> v)"
begin

lemma insert_all:
  assumes "sorted_wrt (<) (map fst (entries m))"
  shows "sorted_wrt (<) (map fst (entries (foldl (\<lambda>m (k, v). insert k v m) m kvs)))"
    and "map_of (entries (foldl (\<lambda>m (k, v). insert k v m) m kvs)) = map_of (entries m) ++ map_of (rev kvs)"
proof -
  have "sorted_wrt (<) (map fst (entries (foldl (\<lambda>m (k, v). insert k v m) m kvs))) \<and>
      map_of (entries (foldl (\<lambda>m (k, v). insert k v m) m kvs)) = map_of (entries m) ++ map_of (rev kvs)"
    using assms
  proof (induction kvs arbitrary: m)
    case (Cons kv kvs)
    obtain k v where "kv = (k, v)" by fastforce
    then show ?case using Cons.IH [OF insert_sorted [OF Cons.prems, of k v]] insert_lookup [OF Cons.prems, of k v]
      by (auto simp: fun_eq_iff map_add_def split: option.splits)
  qed simp
  then show "sorted_wrt (<) (map fst (entries (foldl (\<lambda>m (k, v). insert k v m) m kvs)))"
    and "map_of (entries (foldl (\<lambda>m (k, v). insert k v m) m kvs)) = map_of (entries m) ++ map_of (rev kvs)" by blast+
qed

lemma distinct_keys: "sorted_wrt (<) (map fst (entries m)) \<Longrightarrow> distinct (map fst (entries m))"
  by (simp add: strict_sorted_iff)

end

lemma set_bt_insert: "fst ` set (bt_insert k v xs) = insert k (fst ` set xs)"
  by (induction k v xs rule: bt_insert.induct) (simp_all add: insert_commute)

lemma bt_insert_sorted: "sorted_wrt (<) (map fst xs) \<Longrightarrow> sorted_wrt (<) (map fst (bt_insert k v xs))"
proof (induction xs)
  case (Cons x xs)
  obtain k' v' where x: "x = (k', v')" by fastforce
  have "\<forall>y \<in> set (map fst (bt_insert k v xs)). k' < y" if "k' < k"
    using Cons.prems that set_bt_insert [of k v xs] by (auto simp: x)
  with Cons show ?case by (auto simp: x dest: less_trans)
qed simp

lemma bt_insert_lookup:
  "sorted_wrt (<) (map fst xs) \<Longrightarrow> map_of (bt_insert k v xs) = (map_of xs)(k \<mapsto> v)"
  by (induction xs) (auto simp: fun_eq_iff)

interpretation bt: ordered_map bt_insert "\<lambda>m. m"
  by unfold_locales (rule bt_insert_sorted, assumption, rule bt_insert_lookup)

definition us_wf :: "('k::linorder, 'v) UpdateSet \<Rightarrow> bool" where
  "us_wf us \<longleftrightarrow> sorted_wrt (<) (map fst (us_updates us))"

lemma us_wf_ops:
  "us_wf us_new" "us_wf (new_with_value k v)" "us_wf us \<Longrightarrow> us_wf (us_put k w us)" "us_wf us \<Longrightarrow> us_wf (us_puts kvs us)"
  "us_wf us \<Longrightarrow> us_wf (us_remove k us)" "us_wf (us_clear us)" "us_wf (us_from_vec kvs)"
  by (simp_all add: us_wf_def us_new_def new_with_value_def us_put_def us_puts_def us_remove_def us_clear_def us_from_vec_def
      bt_insert_sorted bt.insert_all)

section \<open>Well-formed nodes\<close>

definition digest_ok :: "('k, 'v) smt_env \<Rightarrow> bool" where
  "digest_ok env \<longleftrightarrow> (\<forall>x. hash_value (env_digest env x))"

definition kv_total :: "('k, 'v) smt_env \<Rightarrow> bool" where
  "kv_total env \<longleftrightarrow> (\<forall>key raw. hash_value key \<longrightarrow> (\<exists>bs. raw_kv_to_bytes env (key, raw) = Inr bs))"

definition values_ok :: "('k, 'v) smt_env \<Rightarrow> ('k, 'v) entries \<Rightarrow> bool" where
  "values_ok env m \<longleftrightarrow> (\<forall>l \<in> ran m. obj_ok env (ln_value l))"

lemma hash_value_smt_merkle: "digest_ok env \<Longrightarrow> hash_value (smt_merkle_hash (env_digest env) a b)"
  by (simp add: digest_ok_def smt_merkle_hash_def)

lemma hash_value_nhash:
  assumes "digest_ok env" and "position_ok env r m"
  shows "hash_value (nhash env (canon env r m))"
proof (cases "m = Map.empty \<or> single m")
  case True
  then show ?thesis
    using hash_value_smt_merkle [OF assms(1)] placeholder_hash_value by (auto simp: smt_leaf_hash_def)
next
  case False
  then obtain q where r: "r = Suc q" using assms(2) by (cases r) (auto dest: position_ok_0_single)
  have c: "canon env r m = Internal_Node \<lparr>in_children = canon_children env q m\<rparr>"
    unfolding r using canon_branch False by blast
  have "branching (canon_children env q m) 0 (Suc 3)"
    using canon_branching [of env q m] assms(2) False r by simp
  from range_hash_branching [OF this] hash_value_smt_merkle [OF assms(1)] show ?thesis
    unfolding c by simp
qed

lemma node_ok_canon:
  assumes "digest_ok env" and "position_ok env r m" and "values_ok env m"
  shows "node_ok env (canon env r m)"
proof (cases "m = Map.empty \<or> single m")
  case True
  then show ?thesis using assms(3) by (auto simp: values_ok_def ran_single)
next
  case False
  then obtain q where r: "r = Suc q" using assms(2) by (cases r) (auto dest: position_ok_0_single)
  have c: "canon env r m = Internal_Node \<lparr>in_children = canon_children env q m\<rparr>"
    unfolding r using canon_branch False by blast
  have "hash_value (ch_hash ch)" if "canon_children env q m n = Some ch" for n ch
    using that hash_value_nhash [OF assms(1) position_ok_sub] assms(2) r by (auto simp: canon_children_apply split: if_splits)
  then show ?thesis
    unfolding c node_ok.simps internal_ok_def SmtInternalNode.simps
    using canon_children_ok [of env q m] canon_branching [of env q m] assms(2) r False by auto
qed

lemma node_ok_nodes:
  assumes "digest_ok env" and "entries_ok env m" and "values_ok env m" and "N \<in> nodes env 64 m"
  shows "node_ok env N"
proof -
  obtain q s where q: "position_ok env q s" "s \<subseteq>\<^sub>m m" "N = canon env q s"
    using nodes_canon [OF position_ok_root [OF assms(2)] assms(4)] by blast
  have "ran s \<subseteq> ran m" using q(2) by (auto simp: ran_def map_le_def) (metis domI)
  then have "values_ok env s" using assms(3) by (auto simp: values_ok_def)
  with q(1,3) node_ok_canon [OF assms(1)] show ?thesis by simp
qed

lemma node_encode_ok:
  assumes "smt_codecs env" and "kv_total env" and "node_ok env N"
  shows "\<exists>bs. node_encode env N = Inr bs"
proof (cases N)
  case (Internal_Node i)
  then have "and_then (serialize_internal i) deserialize_internal = Inr i" using assms(3) by (simp add: internal_round_trip)
  then show ?thesis using Internal_Node by auto
next
  case (Leaf_Node l)
  obtain bs where "raw_kv_to_bytes env (key_into env (ln_key l), obj_raw (ln_value l)) = Inr bs"
    using assms(1,2) unfolding kv_total_def smt_codecs_def key_codec_def by blast
  then show ?thesis using Leaf_Node by (simp add: serialize_leaf_def)
qed simp

section \<open>Encoding a batch\<close>

definition enc :: "('k, 'v) smt_env \<Rightarrow> ('k, 'v) SmtNode \<Rightarrow> bytes" where
  "enc env N = (case node_encode env N of Inr bs \<Rightarrow> bs | Inl _ \<Rightarrow> [])"

lemma encode_nodes_fold:
  assumes "\<And>k N. (k, N) \<in> set batch \<Longrightarrow> \<exists>bs. node_encode env N = Inr bs" and "distinct (map fst batch)"
    and "distinct (map fst acc)"
  shows "\<exists>res. try_fold (\<lambda>node_map (nk, n). and_then (node_encode env n) (\<lambda>bs. Inr (AList.update nk bs node_map))) acc batch = Inr res \<and>
    distinct (map fst res) \<and> map_of res = (\<lambda>k. case map_of batch k of Some N \<Rightarrow> Some (enc env N) | None \<Rightarrow> map_of acc k)"
  using assms
proof (induction batch arbitrary: acc)
  case (Cons x batch)
  obtain k N where x: "x = (k, N)" by fastforce
  obtain bs where bs: "node_encode env N = Inr bs" using Cons.prems(1) [of k N] x by auto
  have "distinct (map fst (AList.update k bs acc))" using Cons.prems(3) by (rule distinct_update)
  with Cons.IH [of "AList.update k bs acc"] Cons.prems(1,2) x
  obtain res where res: "try_fold (\<lambda>node_map (nk, n). and_then (node_encode env n) (\<lambda>bs. Inr (AList.update nk bs node_map)))
        (AList.update k bs acc) batch = Inr res" "distinct (map fst res)"
      "map_of res = (\<lambda>j. case map_of batch j of Some N \<Rightarrow> Some (enc env N) | None \<Rightarrow> map_of (AList.update k bs acc) j)" by auto
  have "map_of batch k = None" using Cons.prems(2) by (simp add: x map_of_eq_None_iff)
  then have "map_of res = (\<lambda>j. case map_of (x # batch) j of Some N \<Rightarrow> Some (enc env N) | None \<Rightarrow> map_of acc j)"
    unfolding res(3) by (auto simp: fun_eq_iff x update_conv' enc_def bs split: option.splits)
  with res(1,2) show ?case by (simp add: x bs)
qed simp

lemma encode_nodes_eq:
  assumes "\<And>k N. (k, N) \<in> set batch \<Longrightarrow> \<exists>bs. node_encode env N = Inr bs" and "distinct (map fst batch)"
  shows "\<exists>res. encode_nodes env batch = Inr res \<and> distinct (map fst res) \<and> map_of res = map_option (enc env) \<circ> map_of batch"
proof -
  obtain res where "encode_nodes env batch = Inr res" "distinct (map fst res)"
      "map_of res = (\<lambda>k. case map_of batch k of Some N \<Rightarrow> Some (enc env N) | None \<Rightarrow> map_of [] k)"
    using encode_nodes_fold [of batch env "[]"] assms unfolding encode_nodes_def by fastforce
  then show ?thesis by (auto simp: fun_eq_iff split: option.splits)
qed

section \<open>Update sets as batches\<close>

lemma into_updates_keys:
  assumes "into_updates env us = Inr kvs"
  shows "map fst kvs = map fst (us_updates us)"
    and "list_all2 (\<lambda>(k, v) (k', b). k = k' \<and>
      (case v of None \<Rightarrow> b = None | Some x \<Rightarrow> \<exists>obj. b = Some obj \<and> into_object env x = Inr obj)) (us_updates us) kvs"
proof -
  define f where "f = (\<lambda>(k :: 'a, v_opt). case v_opt of
         Some v \<Rightarrow> and_then (into_object env v) (\<lambda>obj. Inr (k, Some obj))
       | None \<Rightarrow> Inr (k, None))"
  let ?R = "\<lambda>(k, v) (k', b). k = k' \<and> (case v of None \<Rightarrow> b = None | Some x \<Rightarrow> \<exists>obj. b = Some obj \<and> into_object env x = Inr obj)"
  have one: "?R x y" if "f x = Inr y" for x y
    using that by (cases x) (auto simp: f_def split: option.splits)
  have "try_map f xs = Inr ys \<Longrightarrow> list_all2 ?R xs ys" for xs ys
  proof (induction xs arbitrary: ys)
    case (Cons x xs)
    then obtain y zs where "f x = Inr y" "try_map f xs = Inr zs" "ys = y # zs" by auto
    with Cons.IH [of zs] one [of x y] show ?case by simp
  qed simp
  then show l: "list_all2 ?R (us_updates us) kvs" using assms by (simp add: into_updates_def f_def)
  from l show "map fst kvs = map fst (us_updates us)"
    by (induction rule: list_all2_induct) auto
qed

lemma into_updates_ok:
  assumes "smt_codecs env" and "us_wf us" and "into_updates env us = Inr kvs"
  shows "batch_ok env kvs" and "\<not> us_is_empty us \<Longrightarrow> kvs \<noteq> []" and "(k, Some b) \<in> set kvs \<Longrightarrow> obj_ok env b"
proof -
  note keys = into_updates_keys [OF assms(3)]
  have inj: "inj (key_merkle_hash env)" and hv: "\<And>k. hash_value (key_merkle_hash env k)"
    using assms(1) by (auto simp: smt_codecs_def key_codec_def key_merkle_hash_def inj_def) (metis)
  have "distinct (map fst kvs)" using assms(2) keys(1) by (simp add: us_wf_def strict_sorted_iff)
  then have "distinct (map (key_merkle_hash env) (map fst kvs))"
    using inj by (simp only: distinct_map) (auto intro: inj_on_subset)
  then show "batch_ok env kvs" using hv by (auto simp: batch_ok_def key_hashes_def)
  show "kvs \<noteq> []" if "\<not> us_is_empty us" using that keys(1) by (auto simp: us_is_empty_def)
  show "obj_ok env b" if kb: "(k, Some b) \<in> set kvs"
  proof -
    obtain i where i: "i < length kvs" "kvs ! i = (k, Some b)" using kb by (auto simp: in_set_conv_nth)
    obtain x where "into_object env x = Inr b"
      using list_all2_nthD2 [OF keys(2) i(1)] i(2) by (cases "us_updates us ! i") (auto split: option.splits)
    then show ?thesis using obj_from_origin_ok [of env x b] by (simp add: into_object_def)
  qed
qed

lemma upds_values_ok:
  assumes "values_ok env m" and "\<And>k b. (k, Some b) \<in> set kvs \<Longrightarrow> obj_ok env b"
  shows "values_ok env (upds env kvs m)"
  using assms
proof (induction env kvs m rule: upds.induct)
  case (2 env key blob kvs m)
  have "obj_ok env b" if "blob = Some b" for b using 2(3) [of key b] that by simp
  then have "values_ok env (upd env key blob m)"
    using 2(2) by (auto simp: values_ok_def upd_def Let_def smt_leaf_new_def ran_def split: option.splits if_splits)
  moreover have "obj_ok env b" if "(k, Some b) \<in> set kvs" for k b using 2(3) [of k b] that by simp
  ultimately have "values_ok env (upds env kvs (upd env key blob m))" by (rule 2(1))
  then show ?case by simp
qed simp

section \<open>The nodes of an update\<close>

text \<open>A reader of bytes holds a node when it finds it under the hash of the node.\<close>

definition holds :: "('k, 'v) smt_env \<Rightarrow> node_bytes_reader \<Rightarrow> ('k, 'v) SmtNode \<Rightarrow> bool" where
  "holds env get N \<longleftrightarrow> reader_get_node (get_node_option env get) (nhash env N) = Inr N"

lemma represents_holds:
  "represents env (get_node_option env get) root m \<longleftrightarrow>
     entries_ok env m \<and> root = nhash env (canon env 64 m) \<and> (\<forall>N \<in> nodes env 64 m. holds env get N)"
  by (auto simp: represents_def stored_def holds_def reader_get_node_def get_node_option_def new_null_def ok_or_def)

text \<open>Encoded nodes, each under its hash and all from a set.\<close>

definition sound_nodes :: "('k, 'v) smt_env \<Rightarrow> ('k, 'v) SmtNode set \<Rightarrow> (HashValue \<times> bytes) list \<Rightarrow> bool" where
  "sound_nodes env Ns ns \<longleftrightarrow> distinct (map fst ns) \<and>
     (\<forall>(k, bs) \<in> set ns. \<exists>N. k = nhash env N \<and> bs = enc env N \<and> node_ok env N \<and> (N = Null \<or> N \<in> Ns))"

lemma sound_nodes_mono: "sound_nodes env Ms ns \<Longrightarrow> Ms \<subseteq> Ns \<Longrightarrow> sound_nodes env Ns ns"
  unfolding sound_nodes_def by fast

lemma smt_updates_eq:
  fixes env :: "('k::linorder, 'v) smt_env"
  assumes "smt_codecs env" and "kv_total env" and "digest_ok env"
    and "represents env (get_node_option env get) root m" and "values_ok env m"
    and "us_wf us" and "into_updates env us = Inr kvs" and "hash_free env (batch_nodes env kvs m)"
  shows "\<exists>cs. smt_updates env get root us = Inr cs \<and> cs_state_root cs = nhash env (canon env 64 (upds env kvs m)) \<and>
    entries_ok env (upds env kvs m) \<and> values_ok env (upds env kvs m) \<and>
    sound_nodes env (nodes env 64 (upds env kvs m)) (cs_nodes cs) \<and>
    (\<forall>N \<in> nodes env 64 (upds env kvs m). nhash env N \<in> fst ` set (cs_nodes cs) \<or> N \<in> nodes env 64 m)"
proof (cases "us_is_empty us")
  case True
  then have "kvs = []" using assms(7) by (simp add: us_is_empty_def into_updates_def)
  with True assms(4,5) show ?thesis by (auto simp: smt_updates_def represents_def sound_nodes_def)
next
  case False
  let ?reader = "get_node_option env get" and ?m = "upds env kvs m"
  have rp: "entries_ok env m" "root = nhash env (canon env 64 m)" "stored env (reader_get_node ?reader) 64 m"
    using assms(4) by (simp_all add: represents_def)
  have ok: "batch_ok env kvs" "kvs \<noteq> []" and vals: "\<And>k b. (k, Some b) \<in> set kvs \<Longrightarrow> obj_ok env b"
    using into_updates_ok [OF assms(1,6,7)] False by auto
  obtain batch where b: "jm_updates env ?reader (Some root) kvs = Inr (nhash env (canon env 64 ?m), batch)"
      "entries_ok env ?m" "batch_from_to env m ?m batch"
    using jm_updates_eq [OF rp(3,1) _ ok assms(8), of "Some root"] rp(2) by auto
  have vm: "values_ok env ?m" by (rule upds_values_ok [OF assms(5) vals])
  have d: "distinct (map fst (node_batch batch))" using b(3) by (simp add: batch_from_to_def)
  have nok: "k = nhash env N \<and> (N = Null \<or> N \<in> nodes env 64 ?m) \<and> node_ok env N \<and> (\<exists>bs. node_encode env N = Inr bs)"
    if "map_of (node_batch batch) k = Some N" for k N
  proof -
    have N: "k = nhash env N" "N = Null \<or> N \<in> nodes env 64 ?m" using b(3) that by (auto simp: batch_from_to_def)
    then have "node_ok env N" using node_ok_nodes [OF assms(3) b(2) vm, of N] by auto
    with N node_encode_ok [OF assms(1,2), of N] show ?thesis by blast
  qed
  obtain nm where nm: "encode_nodes env (node_batch batch) = Inr nm" "distinct (map fst nm)"
      "map_of nm = map_option (enc env) \<circ> map_of (node_batch batch)"
    using encode_nodes_eq [of "node_batch batch" env, OF _ d] nok map_of_is_SomeI [OF d] by blast
  have "sound_nodes env (nodes env 64 ?m) nm"
    unfolding sound_nodes_def
  proof (intro conjI ballI, rule nm(2), clarify)
    fix k bs
    assume "(k, bs) \<in> set nm"
    then have "map_of nm k = Some bs" by (rule map_of_is_SomeI [OF nm(2)])
    then obtain N where "map_of (node_batch batch) k = Some N" "bs = enc env N" using nm(3) by auto
    with nok show "\<exists>N. k = nhash env N \<and> bs = enc env N \<and> node_ok env N \<and> (N = Null \<or> N \<in> nodes env 64 ?m)" by blast
  qed
  moreover have "nhash env N \<in> fst ` set nm \<or> N \<in> nodes env 64 m" if "N \<in> nodes env 64 ?m" for N
  proof (cases "map_of (node_batch batch) (nhash env N)")
    case None
    then show ?thesis using b(3) that by (auto simp: batch_from_to_def)
  next
    case (Some M)
    then have "map_of nm (nhash env N) = Some (enc env M)" using nm(3) by simp
    from map_of_SomeD [OF this] show ?thesis by (metis fst_conv image_eqI)
  qed
  ultimately show ?thesis using False assms(7) b(1,2) nm(1) vm by (simp add: smt_updates_def)
qed

section \<open>Node stores\<close>

text \<open>
  What the tree relies on of a store: a write succeeds, and a read returns the bytes written last.
\<close>

locale node_store =
  fixes get :: "'s \<Rightarrow> node_bytes_reader" and write_nodes :: "(HashValue \<times> bytes) list \<Rightarrow> ('s, unit) action"
  assumes write_succeeds: "\<exists>s'. write_nodes ns s = (Inr (), s')"
    and get_written: "distinct (map fst ns) \<Longrightarrow> write_nodes ns s = (Inr (), s') \<Longrightarrow>
      get s' h = (case map_of ns h of Some bs \<Rightarrow> Inr (Some bs) | None \<Rightarrow> get s h)"
begin

text \<open>Writing sound nodes adds them and keeps every other node of the set.\<close>

lemma holds_written:
  assumes "smt_codecs env" and "kv_total env" and "hash_free env Ns" and "sound_nodes env Ns ns"
    and "write_nodes ns s = (Inr (), s')" and "N \<in> Ns" and "holds env (get s) N \<or> nhash env N \<in> fst ` set ns"
  shows "holds env (get s') N"
proof -
  have ph: "nhash env N \<noteq> SPARSE_MERKLE_PLACEHOLDER_HASH" by (rule hash_free_ph [OF assms(3,6)])
  have d: "distinct (map fst ns)" using assms(4) by (simp add: sound_nodes_def)
  note got = get_written [OF d assms(5), of "nhash env N"]
  show ?thesis
  proof (cases "map_of ns (nhash env N)")
    case None
    then have "nhash env N \<notin> fst ` set ns" by (simp add: map_of_eq_None_iff)
    with assms(7) got None ph show ?thesis by (simp add: holds_def reader_get_node_def get_node_option_def)
  next
    case (Some bs)
    then obtain M where M: "nhash env N = nhash env M" "bs = enc env M" "node_ok env M" "M = Null \<or> M \<in> Ns"
      using assms(4) map_of_SomeD [OF Some] unfolding sound_nodes_def by fast
    then have "M = N" using ph hash_free_eq [OF assms(3), of M N] assms(6) by auto
    moreover obtain bs' where bs': "node_encode env N = Inr bs'" using node_encode_ok [OF assms(1,2), of N] M(3) \<open>M = N\<close> by blast
    ultimately have "node_decode env bs = Inr N"
      using node_decode_encode [OF assms(1)] M(2,3) by (simp add: enc_def)
    with got Some ph show ?thesis by (simp add: holds_def reader_get_node_def get_node_option_def ok_or_def)
  qed
qed

text \<open>Update, write the change set, read: the store represents the updated map, and the old ones as before.\<close>

lemma updates_written:
  fixes env :: "('k::linorder, 'v) smt_env"
  assumes "smt_codecs env" and "kv_total env" and "digest_ok env"
    and "represents env (get_node_option env (get s)) root m" and "values_ok env m"
    and "us_wf us" and "into_updates env us = Inr kvs" and "hash_free env (batch_nodes env kvs m)"
  shows "\<exists>cs s'. smt_updates env (get s) root us = Inr cs \<and> write_nodes (cs_nodes cs) s = (Inr (), s') \<and>
    represents env (get_node_option env (get s')) (cs_state_root cs) (upds env kvs m) \<and>
    cs_state_root cs = nhash env (canon env 64 (upds env kvs m)) \<and> values_ok env (upds env kvs m) \<and>
    (\<forall>r t. represents env (get_node_option env (get s)) r t \<and> hash_free env (nodes env 64 (upds env kvs m) \<union> nodes env 64 t) \<longrightarrow>
       represents env (get_node_option env (get s')) r t)"
proof -
  let ?m = "upds env kvs m"
  obtain cs where cs: "smt_updates env (get s) root us = Inr cs" "cs_state_root cs = nhash env (canon env 64 ?m)"
      "entries_ok env ?m" "values_ok env ?m" "sound_nodes env (nodes env 64 ?m) (cs_nodes cs)"
      "\<forall>N \<in> nodes env 64 ?m. nhash env N \<in> fst ` set (cs_nodes cs) \<or> N \<in> nodes env 64 m"
    using smt_updates_eq [OF assms] by blast
  obtain s' where w: "write_nodes (cs_nodes cs) s = (Inr (), s')" using write_succeeds by blast
  have kept: "holds env (get s') N"
    if "hash_free env (nodes env 64 ?m \<union> Ms)" "N \<in> nodes env 64 ?m \<union> Ms" "holds env (get s) N \<or> nhash env N \<in> fst ` set (cs_nodes cs)" for Ms N
    by (rule holds_written [OF assms(1,2) that(1) sound_nodes_mono [OF cs(5)] w that(2,3)]) blast
  have hf: "hash_free env (nodes env 64 ?m)" by (rule hash_free_subset [OF assms(8) batch_nodes_last])
  have "represents env (get_node_option env (get s')) (cs_state_root cs) ?m"
    unfolding represents_holds
  proof (intro conjI ballI)
    fix N
    assume N: "N \<in> nodes env 64 ?m"
    have "holds env (get s) N \<or> nhash env N \<in> fst ` set (cs_nodes cs)"
      using cs(6) N assms(4) unfolding represents_holds by blast
    with kept [of "{}" N] hf N show "holds env (get s') N" by simp
  qed (simp_all add: cs(2,3))
  moreover have "represents env (get_node_option env (get s')) r t"
    if "represents env (get_node_option env (get s)) r t" "hash_free env (nodes env 64 ?m \<union> nodes env 64 t)" for r t
    using kept [OF that(2)] that(1) unfolding represents_holds by blast
  ultimately show ?thesis using cs(1,2,4) w by blast
qed

end

interpretation mem: node_store in_memory_get in_memory_write_nodes
proof unfold_locales
  show "\<exists>s'. in_memory_write_nodes ns s = (Inr (), s')" for ns s by (simp add: in_memory_write_nodes_def)
  fix ns s s' h
  assume d: "distinct (map fst ns)" and w: "in_memory_write_nodes ns s = (Inr (), s')"
  have "foldl (\<lambda>m (key, node). m(key \<mapsto> node)) f ns h = (case map_of ns h of Some bs \<Rightarrow> Some bs | None \<Rightarrow> f h)" for f
    using d
  proof (induction ns arbitrary: f)
    case (Cons x ns)
    obtain k b where x: "x = (k, b)" by fastforce
    have "map_of ns k = None" using Cons.prems by (simp add: x map_of_eq_None_iff)
    then show ?case using Cons.IH [of "f(k \<mapsto> b)"] Cons.prems by (cases "h = k") (simp_all add: x split: option.split)
  qed simp
  then show "in_memory_get s' h = (case map_of ns h of Some bs \<Rightarrow> Inr (Some bs) | None \<Rightarrow> in_memory_get s h)"
    using w by (auto simp: in_memory_get_def in_memory_write_nodes_def split: option.splits)
qed

section \<open>The map of a tree\<close>

text \<open>The abstract state of a tree: the value of every key.\<close>

definition view :: "('k, 'v) smt_env \<Rightarrow> ('k, 'v) entries \<Rightarrow> 'k \<Rightarrow> 'v option" where
  "view env m k = map_option (obj_origin \<circ> ln_value) (m (key_merkle_hash env k))"

text \<open>A new value whose bytes have the hash of the present value has the bytes of the present value.\<close>

definition values_free :: "('k, 'v) smt_env \<Rightarrow> ('k \<times> 'v SMTObject option) list \<Rightarrow> ('k, 'v) entries \<Rightarrow> bool" where
  "values_free env kvs m \<longleftrightarrow>
     (\<forall>k b l. (k, Some b) \<in> set kvs \<and> m (key_merkle_hash env k) = Some l \<and> obj_merkle_hash env b = ln_value_hash env l \<longrightarrow>
        obj_raw b = obj_raw (ln_value l))"

lemma obj_ok_origin:
  assumes "smt_codecs env" and "obj_ok env a" and "obj_ok env b" and "obj_raw a = obj_raw b"
  shows "obj_origin a = obj_origin b"
  using assms by (auto simp: smt_codecs_def value_codec_def obj_ok_def) (metis sum.inject(2))

lemma upds_at:
  assumes "distinct (key_hashes env kvs)" and "(key, blob) \<in> set kvs"
  shows "upds env kvs m (key_merkle_hash env key) = upd env key blob m (key_merkle_hash env key)"
  using assms
proof (induction kvs arbitrary: m)
  case (Cons kv kvs)
  obtain k b where kv: "kv = (k, b)" by fastforce
  have d: "key_merkle_hash env k \<notin> set (key_hashes env kvs)" "distinct (key_hashes env kvs)"
    using Cons.prems(1) by (auto simp: key_hashes_def kv)
  show ?case
  proof (cases "(key, blob) \<in> set kvs")
    case True
    then have ne: "key_merkle_hash env key \<noteq> key_merkle_hash env k" using d(1) by (force simp: key_hashes_def)
    have "upds env kvs (upd env k b m) (key_merkle_hash env key) = upd env key blob (upd env k b m) (key_merkle_hash env key)"
      by (rule Cons.IH [OF d(2) True])
    also have "\<dots> = upd env key blob m (key_merkle_hash env key)"
      using upd_other [OF ne, of b m] by (auto simp: upd_def Let_def split: option.splits)
    finally show ?thesis by (simp add: kv)
  next
    case False
    then have "key = k" "blob = b" using Cons.prems(2) kv by auto
    then show ?thesis using upds_other [OF d(1)] by (simp add: kv)
  qed
qed simp

lemma view_updates:
  assumes "smt_codecs env" and "us_wf us" and "into_updates env us = Inr kvs" and "values_ok env m" and "values_free env kvs m"
  shows "view env (upds env kvs m) k = (case map_of (us_updates us) k of None \<Rightarrow> view env m k | Some v \<Rightarrow> v)"
proof -
  note keys = into_updates_keys [OF assms(3)] and ok = into_updates_ok [OF assms(1-3)]
  have d: "distinct (key_hashes env kvs)" using ok(1) by (simp add: batch_ok_def)
  have inj: "key_merkle_hash env a = key_merkle_hash env b \<longleftrightarrow> a = b" for a b
    using assms(1) by (auto simp: smt_codecs_def key_codec_def key_merkle_hash_def) (metis)
  show ?thesis
  proof (cases "map_of (us_updates us) k")
    case None
    then have "k \<notin> set (map fst kvs)" unfolding keys(1) by (simp add: map_of_eq_None_iff)
    then have "key_merkle_hash env k \<notin> set (key_hashes env kvs)" using inj by (auto simp: key_hashes_def)
    then show ?thesis using None by (simp add: view_def upds_other)
  next
    case (Some v)
    then obtain i where i: "i < length (us_updates us)" "us_updates us ! i = (k, v)"
      using map_of_SomeD [OF Some] by (auto simp: in_set_conv_nth)
    obtain b where b: "kvs ! i = (k, b)" "case v of None \<Rightarrow> b = None | Some x \<Rightarrow> \<exists>obj. b = Some obj \<and> into_object env x = Inr obj"
      using list_all2_nthD [OF keys(2) i(1)] i(2) by (cases "kvs ! i") auto
    have kb: "(k, b) \<in> set kvs" using b(1) i(1) list_all2_lengthD [OF keys(2)] by (metis nth_mem)
    have at: "upds env kvs m (key_merkle_hash env k) = upd env k b m (key_merkle_hash env k)" by (rule upds_at [OF d kb])
    show ?thesis
    proof (cases v)
      case None
      then show ?thesis using Some at b(2) by (simp add: view_def upd_def)
    next
      case (Some x)
      then obtain obj where obj: "b = Some obj" "into_object env x = Inr obj" using b(2) by auto
      then have o: "obj_ok env obj" "obj_origin obj = x" using obj_from_origin_ok [of env x obj] by (simp_all add: into_object_def)
      have "obj_origin (ln_value l) = x" if "m (key_merkle_hash env k) = Some l" "ln_value_hash env l = obj_merkle_hash env obj" for l
      proof -
        have "obj_raw obj = obj_raw (ln_value l)" using assms(5) kb that obj(1) unfolding values_free_def by metis
        moreover have "obj_ok env (ln_value l)" using assms(4) that(1) by (auto simp: values_ok_def ran_def)
        ultimately show ?thesis using obj_ok_origin [OF assms(1) o(1)] o(2) by simp
      qed
      then show ?thesis using \<open>map_of (us_updates us) k = Some v\<close> Some at obj(1) o(2)
        by (auto simp: view_def upd_def Let_def smt_leaf_new_def split: option.splits)
    qed
  qed
qed

section \<open>Reading\<close>

lemma smt_get_with_proof_eq:
  assumes "represents env (get_node_option env get) root m" and "hash_value (key_merkle_hash env key)" and "values_ok env m"
  shows "\<exists>prf. smt_get_with_proof env get root key = Inr (view env m key, prf) \<and>
    sparse_verify env prf root key (view env m key) = Inr ()"
proof -
  let ?kh = "key_merkle_hash env key"
  obtain leaf siblings where g: "jm_get_with_proof env (get_node_option env get) root key =
      Inr (map_option ln_value (m ?kh), sparse_proof_new leaf (rev siblings))" "read_result env ?kh 0 m leaf siblings root"
    using jm_get_with_proof_eq [OF assms(1,2)] by blast
  note v = read_result_verifies [OF g(2)]
  show ?thesis
  proof (cases "m ?kh")
    case None
    then show ?thesis using g(1) v(1) by (simp add: smt_get_with_proof_def view_def)
  next
    case (Some l)
    then have "obj_ok env (ln_value l)" using assms(3) by (auto simp: values_ok_def ran_def)
    then have "into_object env (obj_origin (ln_value l)) = Inr (ln_value l)"
      by (simp add: into_object_def obj_from_origin_def obj_ok_def)
    then show ?thesis using g(1) v(2) [OF Some] Some by (simp add: smt_get_with_proof_def view_def)
  qed
qed

lemma smt_get_eq:
  assumes "represents env (get_node_option env get) root m" and "hash_value (key_merkle_hash env key)" and "values_ok env m"
  shows "smt_get env get root key = Inr (view env m key)"
  using smt_get_with_proof_eq [OF assms] by (auto simp: smt_get_def)

section \<open>Iterating\<close>

definition leaf_item :: "('k, 'v) SmtLeafNode \<Rightarrow> 'k \<times> 'v" where
  "leaf_item l = (ln_key l, obj_origin (ln_value l))"

lemma smt_iter_next_eq:
  assumes "iter_inv env (get_node_option env get) root m it rest" and "represents env (get_node_option env get) root m" and "64 \<le> fuel"
  shows "rest = [] \<Longrightarrow> smt_iter_next fuel env get it = Inr (None, it)"
    and "rest = l # ls \<Longrightarrow> \<exists>it'. smt_iter_next fuel env get it = Inr (Some (Inr (leaf_item l)), it') \<and>
      iter_inv env (get_node_option env get) root m it' ls"
  using iter_next_eq [OF assms] by (auto simp: smt_iter_next_def leaf_item_def)

lemma dump_loop_eq:
  assumes "represents env (get_node_option env get) root m" and "64 \<le> fuel"
  shows "iter_inv env (get_node_option env get) root m it rest \<Longrightarrow> length rest < n \<Longrightarrow>
    dump_loop n fuel env get it data = Inr (data @ map leaf_item rest)"
proof (induction n arbitrary: it rest data)
  case (Suc n)
  show ?case
  proof (cases rest)
    case Nil
    then show ?thesis using smt_iter_next_eq(1) [OF Suc.prems(1) assms] by simp
  next
    case (Cons l ls)
    then obtain it' where "smt_iter_next fuel env get it = Inr (Some (Inr (leaf_item l)), it')"
        "iter_inv env (get_node_option env get) root m it' ls"
      using smt_iter_next_eq(2) [OF Suc.prems(1) assms] by blast
    then show ?thesis using Suc.IH [of it' ls] Suc.prems(2) Cons by (simp add: leaf_item_def)
  qed
qed simp

lemma list_loop_eq:
  assumes "represents env (get_node_option env get) root m" and "64 \<le> fuel"
  shows "iter_inv env (get_node_option env get) root m it rest \<Longrightarrow> length rest < n \<Longrightarrow>
    list_loop n fuel env get limit idx it data = Inr (data @ take (limit - idx) (map leaf_item rest))"
proof (induction n arbitrary: it rest data idx)
  case (Suc n)
  show ?case
  proof (cases rest)
    case Nil
    then show ?thesis using smt_iter_next_eq(1) [OF Suc.prems(1) assms] by simp
  next
    case (Cons l ls)
    then obtain it' where it': "smt_iter_next fuel env get it = Inr (Some (Inr (leaf_item l)), it')"
        "iter_inv env (get_node_option env get) root m it' ls"
      using smt_iter_next_eq(2) [OF Suc.prems(1) assms] by blast
    show ?thesis
    proof (cases "limit \<le> idx")
      case False
      then have "limit - idx = Suc (limit - Suc idx)" by simp
      with False it' show ?thesis using Suc.IH [of it' ls "idx + 1"] Suc.prems(2) Cons by (simp add: leaf_item_def)
    qed (use it' Cons in simp)
  qed
qed simp

lemma smt_iter_eq:
  assumes "represents env (get_node_option env get) root m" and "\<And>k. starting_key = Some k \<Longrightarrow> hash_value (key_merkle_hash env k)"
  shows "\<exists>it. smt_iter env get root starting_key = Inr it \<and> iter_inv env (get_node_option env get) root m it
    (case starting_key of None \<Rightarrow> leaves 64 m
     | Some k \<Rightarrow> filter (\<lambda>l. \<not> lex_less (ln_key_hash env l) (key_merkle_hash env k)) (leaves 64 m))"
proof (cases starting_key)
  case None
  have "filter (\<lambda>l. \<not> lex_less (ln_key_hash env l) hv_zero) (leaves 64 m) = leaves 64 m"
  proof (rule filter_True, rule ballI, rule not_less_zero)
    fix l
    assume "l \<in> set (leaves 64 m)"
    then have "l \<in> ran m" using assms(1) set_leaves [OF position_ok_root] by (auto simp: represents_def)
    then show "hash_value (ln_key_hash env l)" using assms(1) by (auto simp: represents_def entries_ok_def ran_def)
  qed
  then show ?thesis using into_iterator_new_eq [OF assms(1) hash_value_zero] None by (simp add: smt_iter_def jm_iterator_new_into)
next
  case (Some k)
  then show ?thesis using into_iterator_new_eq [OF assms(1) assms(2)] by (simp add: smt_iter_def jm_iterator_new_into)
qed

lemma leaves_keys:
  assumes "entries_ok env m"
  shows "distinct (map (ln_key_hash env) (leaves 64 m))" and "set (map (ln_key_hash env) (leaves 64 m)) = dom m"
    and "length (leaves 64 m) = card (dom m)"
proof -
  have p: "position_ok env 64 m" by (rule position_ok_root [OF assms])
  have "sorted_wrt lex_less (map (ln_key_hash env) (leaves 64 m))" using sorted_leaves [OF p] by (simp add: sorted_wrt_map)
  moreover have "sorted_wrt lex_less hs \<Longrightarrow> distinct hs" for hs :: "HashValue list"
    by (induction hs) (auto simp: lex_less_irrefl)
  ultimately show d: "distinct (map (ln_key_hash env) (leaves 64 m))" by blast
  show st: "set (map (ln_key_hash env) (leaves 64 m)) = dom m"
    using set_leaves [OF p] assms by (force simp: ran_def entries_ok_def)
  show "length (leaves 64 m) = card (dom m)" using distinct_card [OF d] st by simp
qed

lemma leaves_sorted_items:
  assumes "entries_ok env m"
  shows "sorted_wrt (\<lambda>(k, _) (k', _). lex_less (key_merkle_hash env k) (key_merkle_hash env k')) (map leaf_item (leaves 64 m))"
  using sorted_leaves [OF position_ok_root [OF assms]] by (simp add: sorted_wrt_map leaf_item_def ln_key_hash_def)

lemma leaf_items_view:
  assumes "smt_codecs env" and "entries_ok env m"
  shows "(k, v) \<in> set (map leaf_item (leaves 64 m)) \<longleftrightarrow> view env m k = Some v"
proof -
  have st: "set (leaves 64 m) = ran m" by (rule set_leaves [OF position_ok_root [OF assms(2)]])
  have inj: "key_merkle_hash env a = key_merkle_hash env b \<longleftrightarrow> a = b" for a b
    using assms(1) by (auto simp: smt_codecs_def key_codec_def key_merkle_hash_def) (metis)
  show ?thesis
  proof
    assume "(k, v) \<in> set (map leaf_item (leaves 64 m))"
    then obtain l where l: "l \<in> ran m" "k = ln_key l" "v = obj_origin (ln_value l)" using st by (auto simp: leaf_item_def)
    then obtain h where "m h = Some l" by (auto simp: ran_def)
    moreover from this have "h = key_merkle_hash env k" using assms(2) l(2) by (auto simp: entries_ok_def ln_key_hash_def)
    ultimately show "view env m k = Some v" using l(3) by (simp add: view_def)
  next
    assume "view env m k = Some v"
    then obtain l where l: "m (key_merkle_hash env k) = Some l" "v = obj_origin (ln_value l)" by (auto simp: view_def)
    then have "key_merkle_hash env (ln_key l) = key_merkle_hash env k" using assms(2) by (auto simp: entries_ok_def ln_key_hash_def)
    then have "ln_key l = k" using inj by blast
    moreover have "l \<in> set (leaves 64 m)" using l(1) st by (auto simp: ran_def)
    ultimately show "(k, v) \<in> set (map leaf_item (leaves 64 m))" using l(2) by (force simp: leaf_item_def)
  qed
qed

lemma later_leaves:
  assumes "entries_ok env m" and "leaves 64 m = xs @ l # ys"
  shows "a \<in> set (xs @ l # ys) \<Longrightarrow> a \<in> set ys \<longleftrightarrow> key_order env l a"
proof -
  have "sorted_wrt (key_order env) (xs @ l # ys)" using sorted_leaves [OF position_ok_root [OF assms(1)]] assms(2) by simp
  then have "\<forall>a \<in> set xs. key_order env a l" "\<forall>a \<in> set ys. key_order env l a" by (simp_all add: sorted_wrt_append)
  then show "a \<in> set (xs @ l # ys) \<Longrightarrow> a \<in> set ys \<longleftrightarrow> key_order env l a"
    using lex_less_asym lex_less_irrefl by fastforce
qed

lemma leaves_at_key:
  assumes "entries_ok env m" and "h \<in> dom m"
  obtains xs l ys where "leaves 64 m = xs @ l # ys" "ln_key_hash env l = h"
    "filter (\<lambda>l. \<not> lex_less (ln_key_hash env l) h) (leaves 64 m) = l # ys"
proof -
  have "h \<in> set (map (ln_key_hash env) (leaves 64 m))" unfolding leaves_keys(2) [OF assms(1)] by (rule assms(2))
  then obtain l where "l \<in> set (leaves 64 m)" and h: "ln_key_hash env l = h" by auto
  then obtain xs ys where s: "leaves 64 m = xs @ l # ys" by (auto simp: in_set_conv_decomp)
  have "sorted_wrt (key_order env) (xs @ l # ys)" using sorted_leaves [OF position_ok_root [OF assms(1)]] s by simp
  then have o: "\<forall>a \<in> set xs. key_order env a l" "\<forall>a \<in> set ys. key_order env l a" by (simp_all add: sorted_wrt_append)
  have "filter (\<lambda>l. \<not> lex_less (ln_key_hash env l) h) xs = []" using o(1) h by (simp add: filter_empty_conv)
  moreover have "filter (\<lambda>l. \<not> lex_less (ln_key_hash env l) h) ys = ys" using o(2) h lex_less_asym by (auto simp: filter_id_conv)
  ultimately have "filter (\<lambda>l. \<not> lex_less (ln_key_hash env l) h) (leaves 64 m) = l # ys" using h lex_less_irrefl by (simp add: s)
  with s h show ?thesis by (rule that)
qed

lemma smt_dump_eq:
  assumes "represents env (get_node_option env get) root m" and "64 \<le> fuel" and "card (dom m) < fuel"
  shows "smt_dump fuel env get root = Inr (map leaf_item (leaves 64 m))"
proof -
  obtain it where it: "smt_iter env get root None = Inr it" "iter_inv env (get_node_option env get) root m it (leaves 64 m)"
    using smt_iter_eq [OF assms(1), of None] by auto
  have "entries_ok env m" using assms(1) by (simp add: represents_def)
  then show ?thesis using it(1) dump_loop_eq [OF assms(1,2) it(2), of fuel "[]"] assms(3) by (simp add: smt_dump_def leaves_keys(3))
qed

lemma smt_list_eq:
  assumes "represents env (get_node_option env get) root m" and "64 \<le> fuel" and "card (dom m) < fuel"
    and "\<And>k. starting_key = Some k \<Longrightarrow> hash_value (key_merkle_hash env k)"
  shows "smt_list fuel env get root starting_key limit = Inr (take limit (map leaf_item
    (case starting_key of None \<Rightarrow> leaves 64 m
     | Some k \<Rightarrow> tl (filter (\<lambda>l. \<not> lex_less (ln_key_hash env l) (key_merkle_hash env k)) (leaves 64 m)))))"
proof -
  let ?reader = "get_node_option env get"
  define rest where "rest = (case starting_key of None \<Rightarrow> leaves 64 m
     | Some k \<Rightarrow> filter (\<lambda>l. \<not> lex_less (ln_key_hash env l) (key_merkle_hash env k)) (leaves 64 m))"
  obtain it where it: "smt_iter env get root starting_key = Inr it" "iter_inv env ?reader root m it rest"
    using smt_iter_eq [OF assms(1,4)] by (auto simp: rest_def)
  have "entries_ok env m" using assms(1) by (simp add: represents_def)
  moreover have "length rest \<le> length (leaves 64 m)" by (auto simp: rest_def split: option.splits)
  ultimately have len: "length rest < fuel" using assms(3) leaves_keys(3) by fastforce
  have skip: "\<exists>it'. smt_iter_next fuel env get it = Inr (item, it') \<and> iter_inv env ?reader root m it' (tl rest)"
    if "item = map_option (\<lambda>l. Inr (leaf_item l)) (case rest of [] \<Rightarrow> None | l # _ \<Rightarrow> Some l)" for item
    using smt_iter_next_eq [OF it(2) assms(1,2)] it(2) that by (cases rest) auto
  have loop: "list_loop fuel fuel env get limit 0 it' [] = Inr (take limit (map leaf_item r))"
    if "iter_inv env ?reader root m it' r" "length r < fuel" for it' r
    using list_loop_eq [OF assms(1,2) that, of limit 0 "[]"] by simp
  show ?thesis
  proof (cases starting_key)
    case None
    then show ?thesis using it(1) loop [OF it(2) len] by (simp add: smt_list_def rest_def)
  next
    case (Some k)
    obtain item it' where "smt_iter_next fuel env get it = Inr (item, it')" "iter_inv env ?reader root m it' (tl rest)"
      using skip by blast
    then show ?thesis using it(1) loop [of it' "tl rest"] len Some by (simp add: smt_list_def rest_def)
  qed
qed

end
