(* ===== verification/Le_Bytes.thy ===== *)
theory Le_Bytes
  imports Rooch_Prelude
begin

text \<open>
  Fixed-width integers as little-endian bytes (\<^verbatim>\<open>to_le_bytes\<close> and \<^verbatim>\<open>from_le_bytes\<close> of \<^verbatim>\<open>core\<close>), for the
  signed witness of the sequencer and the segments of the data-availability layer. The first argument
  of \<open>to_le_bytes\<close> is the number of bytes.
\<close>

primrec to_le_bytes :: "nat \<Rightarrow> 'a::len word \<Rightarrow> bytes" where
  "to_le_bytes 0 w = []"
| "to_le_bytes (Suc n) w = ucast w # to_le_bytes n (drop_bit 8 w)"

fun from_le_bytes :: "bytes \<Rightarrow> 'a::len word" where
  "from_le_bytes [] = 0"
| "from_le_bytes (b # bs) = ucast b OR push_bit 8 (from_le_bytes bs)"

lemma length_to_le_bytes [simp]: "length (to_le_bytes n w) = n"
  by (induction n arbitrary: w) simp_all

lemma from_to_le_bytes: "from_le_bytes (to_le_bytes n w) = take_bit (8 * n) w"
proof (induction n arbitrary: w)
  case (Suc n)
  show ?case
    by (rule bit_word_eqI)
      (auto simp: Suc.IH bit_take_bit_iff bit_or_iff bit_push_bit_iff bit_ucast_iff bit_drop_bit_eq
        dest: bit_imp_le_length)
qed simp

lemma from_to_le_bytes_u64 [simp]: "from_le_bytes (to_le_bytes 8 w) = (w :: 64 word)"
  by (simp add: from_to_le_bytes take_bit_word_eq_self)

lemma from_to_le_bytes_u128 [simp]: "from_le_bytes (to_le_bytes 16 w) = (w :: 128 word)"
  by (simp add: from_to_le_bytes take_bit_word_eq_self)

lemma bit_from_le_bytes: "bit (from_le_bytes bs :: 'a::len word) i \<Longrightarrow> i < 8 * length bs"
proof (induction bs arbitrary: i)
  case (Cons b bs)
  then consider "bit b i" | "8 \<le> i" "bit (from_le_bytes bs :: 'a word) (i - 8)"
    by (auto simp: bit_or_iff bit_push_bit_iff bit_ucast_iff)
  then show ?case
  proof cases
    case 1
    then show ?thesis using bit_imp_le_length [of b i] by simp
  next
    case 2
    then show ?thesis using Cons.IH [of "i - 8"] by simp
  qed
qed simp

lemma to_from_le_bytes:
  assumes "length bs = n" and "8 * n \<le> LENGTH('a)"
  shows "to_le_bytes n (from_le_bytes bs :: 'a::len word) = bs"
  using assms
proof (induction bs arbitrary: n)
  case (Cons b bs)
  then obtain k where n: "n = Suc k" by (cases n) auto
  let ?w = "from_le_bytes bs :: 'a word"
  have "ucast (ucast b OR push_bit 8 ?w) = b"
    by (rule bit_word_eqI)
      (use Cons.prems n in \<open>auto simp: bit_ucast_iff bit_or_iff bit_push_bit_iff dest: bit_imp_le_length\<close>)
  moreover have "drop_bit 8 (ucast b OR push_bit 8 ?w) = ?w"
  proof (rule bit_word_eqI)
    fix i
    have "bit ?w i \<Longrightarrow> 8 + i < LENGTH('a)" using bit_from_le_bytes [of bs i] Cons.prems n by fastforce
    then show "bit (drop_bit 8 (ucast b OR push_bit 8 ?w)) i \<longleftrightarrow> bit ?w i"
      by (auto simp: bit_drop_bit_eq bit_ucast_iff bit_or_iff bit_push_bit_iff dest: bit_imp_le_length)
  qed
  ultimately show ?case using Cons n by simp
qed simp

end
