(* ===== verification/Smt_Properties.thy ===== *)
theory Smt_Properties
  imports Smt_Tree_Refinement Le_Bytes
begin

text \<open>
  The correctness statements of the sparse Merkle tree crate, each with an instance on concrete data:
  byte keys and byte values, a checksum in place of SHA3-256, and the in-memory node store.
\<close>

section \<open>Concrete data for the instances\<close>

definition demo_digest :: digest where
  "demo_digest x = replicate 32 (foldl (\<lambda>a b. 3 * a + b + 1) 1 x)"

definition demo_env :: "(u8, u8) smt_env" where
  "demo_env = \<lparr>env_digest = demo_digest,
     key_into = \<lambda>k. k # replicate 31 0,
     key_from = hd,
     bcs_to_bytes = \<lambda>v. Inr [v],
     bcs_from_bytes = \<lambda>bs. (case bs of [v] \<Rightarrow> Inr v | _ \<Rightarrow> Inl (Fail ''bcs'')),
     raw_kv_to_bytes = \<lambda>(key, raw). (if length key = 32 then Inr (key @ raw) else Inl (Fail ''bcs'')),
     raw_kv_from_bytes = \<lambda>bs. (if 32 \<le> length bs then Inr (take 32 bs, drop 32 bs) else Inl (Fail ''bcs''))\<rparr>"

definition demo_leaf :: "u8 \<Rightarrow> u8 \<Rightarrow> (u8, u8) SmtLeafNode" where
  "demo_leaf k v = \<lparr>ln_key = k, ln_value = \<lparr>obj_origin = v, obj_raw = [v]\<rparr>\<rparr>"

lemma demo_env_sel [simp]:
  "env_digest demo_env = demo_digest" "key_into demo_env k = k # replicate 31 0" "key_merkle_hash demo_env k = k # replicate 31 0"
  "ln_key_hash demo_env (demo_leaf k v) = k # replicate 31 0"
  by (simp_all add: demo_env_def key_merkle_hash_def ln_key_hash_def demo_leaf_def)

lemma demo_codecs: "smt_codecs demo_env" "kv_total demo_env" "digest_ok demo_env"
  by (auto simp: smt_codecs_def key_codec_def value_codec_def kv_codec_def kv_total_def digest_ok_def demo_env_def demo_digest_def
      hash_value_def LENGTH_BYTES_def split: if_splits)

definition demo_fork :: "(u8, u8) SmtNode" where
  "demo_fork = Internal_Node \<lparr>in_children =
     [1 \<mapsto> \<lparr>ch_hash = smt_leaf_hash demo_env (demo_leaf 16 7), ch_is_leaf = True\<rparr>,
      2 \<mapsto> \<lparr>ch_hash = smt_leaf_hash demo_env (demo_leaf 32 9), ch_is_leaf = True\<rparr>]\<rparr>"

lemma demo_hash_free: "hash_free demo_env {demo_fork, Leaf_Node (demo_leaf 16 7), Leaf_Node (demo_leaf 32 9)}"
proof -
  have "distinct [nhash demo_env demo_fork, nhash demo_env (Leaf_Node (demo_leaf 16 7)), nhash demo_env (Leaf_Node (demo_leaf 32 9)),
      SPARSE_MERKLE_PLACEHOLDER_HASH]" by code_simp
  then show ?thesis by (auto simp: hash_free_def)
qed

definition demo_map :: "(u8, u8) entries" where
  "demo_map = [16 # replicate 31 0 \<mapsto> demo_leaf 16 7, 32 # replicate 31 0 \<mapsto> demo_leaf 32 9]"

definition demo_updates :: "(u8, u8) UpdateSet" where
  "demo_updates = us_from_vec [(32, Some 8), (16, Some 7), (32, Some 9)]"

definition demo_kvs :: "(u8 \<times> u8 SMTObject option) list" where
  "demo_kvs = [(16, Some \<lparr>obj_origin = 7, obj_raw = [7]\<rparr>), (32, Some \<lparr>obj_origin = 9, obj_raw = [9]\<rparr>)]"

lemma demo_updates_eq: "us_updates demo_updates = [(16, Some 7), (32, Some 9)]" "us_wf demo_updates" "into_updates demo_env demo_updates = Inr demo_kvs"
  by code_simp+

lemma demo_nibbles: "hash_nibbles (16 # replicate 31 0) ! 0 = 1" "hash_nibbles (32 # replicate 31 0) ! 0 = 2"
  by code_simp+

lemma demo_nodes: "nodes demo_env 64 demo_map = {demo_fork, Leaf_Node (demo_leaf 16 7), Leaf_Node (demo_leaf 32 9)}"
proof -
  let ?k = "(16 :: u8) # replicate 31 0" and ?g = "(32 :: u8) # replicate 31 0"
  have ne: "?k \<noteq> ?g" "hash_nibbles ?k ! 0 \<noteq> hash_nibbles ?g ! 0" unfolding demo_nibbles by simp_all
  show ?thesis
    using pair_fork_step [OF ne(1) _ ne(2), where env = demo_env and l = "demo_leaf 16 7" and l' = "demo_leaf 32 9"]
    unfolding demo_nibbles by (simp add: demo_fork_def demo_map_def)
qed

lemma demo_upds: "upds demo_env demo_kvs Map.empty = demo_map"
  by (simp add: demo_kvs_def upd_def demo_map_def demo_leaf_def smt_leaf_new_def)

lemma demo_batch_nodes: "batch_nodes demo_env demo_kvs Map.empty = {demo_fork, Leaf_Node (demo_leaf 16 7), Leaf_Node (demo_leaf 32 9)}"
proof -
  have "batch_nodes demo_env demo_kvs Map.empty = nodes demo_env 64 [16 # replicate 31 0 \<mapsto> demo_leaf 16 7] \<union> nodes demo_env 64 demo_map"
    by (simp add: demo_kvs_def upd_def demo_map_def demo_leaf_def smt_leaf_new_def)
  then show ?thesis by (auto simp: demo_nodes)
qed

abbreviation empty_store :: InMemoryNodeStore where
  "empty_store \<equiv> \<lparr>ns_inner = Map.empty\<rparr>"

lemma empty_store_represents:
  "represents env (get_node_option env (in_memory_get empty_store)) SPARSE_MERKLE_PLACEHOLDER_HASH Map.empty"
  by (simp add: represents_def entries_ok_def stored_def reader_get_node_def get_node_option_def new_null_def ok_or_def)

lemma empty_values: "values_ok env Map.empty" "values_free env kvs Map.empty"
  by (simp_all add: values_ok_def values_free_def)

lemma demo_keys_hash: "hash_value ((k :: u8) # replicate 31 0)"
  by (simp add: hash_value_length)

section \<open>Updates and lookups\<close>

text \<open>
  C3. Writing an update set and reading it back, over the in-memory node store: \<^verbatim>\<open>puts\<close> returns a
  change set, and after its nodes are written every key reads under the new root as the update set
  says, or as before where the set does not mention it, and under the old root as before. The
  hypotheses on the environment state the codec laws of BCS and the length of a SHA3-256 hash; the
  nodes of the trees before, during and after the update must have distinct hashes.
\<close>

theorem puts_then_get:
  fixes env :: "('k::linorder, 'v) smt_env"
  assumes "smt_codecs env" and "kv_total env" and "digest_ok env"
    and "represents env (get_node_option env (in_memory_get s)) root m" and "values_ok env m"
    and "us_wf us" and "into_updates env us = Inr kvs"
    and "hash_free env (batch_nodes env kvs m)" and "values_free env kvs m"
  shows "\<exists>cs s'. smt_puts env (in_memory_get s) root us = Inr cs \<and>
    in_memory_write_nodes (cs_nodes cs) s = (Inr (), s') \<and>
    represents env (get_node_option env (in_memory_get s')) (cs_state_root cs) (upds env kvs m) \<and>
    (\<forall>k. smt_get env (in_memory_get s') (cs_state_root cs) k =
       Inr (case map_of (us_updates us) k of None \<Rightarrow> view env m k | Some v \<Rightarrow> v)) \<and>
    (\<forall>k. smt_get env (in_memory_get s') root k = Inr (view env m k))"
proof -
  have hv: "hash_value (key_merkle_hash env k)" for k using assms(1) by (simp add: smt_codecs_def key_codec_def key_merkle_hash_def)
  obtain cs s' where w: "smt_updates env (in_memory_get s) root us = Inr cs" "in_memory_write_nodes (cs_nodes cs) s = (Inr (), s')"
    "represents env (get_node_option env (in_memory_get s')) (cs_state_root cs) (upds env kvs m)" "values_ok env (upds env kvs m)"
    "\<forall>r t. represents env (get_node_option env (in_memory_get s)) r t \<and> hash_free env (nodes env 64 (upds env kvs m) \<union> nodes env 64 t) \<longrightarrow>
       represents env (get_node_option env (in_memory_get s')) r t"
    using mem.updates_written [OF assms(1-8)] by blast
  have "hash_free env (nodes env 64 (upds env kvs m) \<union> nodes env 64 m)"
    by (rule hash_free_subset [OF assms(8)]) (use batch_nodes_first batch_nodes_last in blast)
  with w(5) assms(4) have old: "represents env (get_node_option env (in_memory_get s')) root m" by blast
  have "smt_get env (in_memory_get s') (cs_state_root cs) k = Inr (case map_of (us_updates us) k of None \<Rightarrow> view env m k | Some v \<Rightarrow> v)" for k
    using smt_get_eq [OF w(3) hv w(4)] view_updates [OF assms(1,6,7,5,9)] by simp
  moreover have "smt_get env (in_memory_get s') root k = Inr (view env m k)" for k by (rule smt_get_eq [OF old hv assms(5)])
  ultimately show ?thesis using w(1-3) unfolding smt_puts_def by blast
qed

theorem puts_then_get_witness:
  "\<exists>cs s'. smt_puts demo_env (in_memory_get empty_store) SPARSE_MERKLE_PLACEHOLDER_HASH demo_updates = Inr cs \<and>
    in_memory_write_nodes (cs_nodes cs) empty_store = (Inr (), s') \<and>
    smt_get demo_env (in_memory_get s') (cs_state_root cs) 32 = Inr (Some 9) \<and>
    smt_get demo_env (in_memory_get s') (cs_state_root cs) 33 = Inr None \<and>
    smt_get demo_env (in_memory_get s') SPARSE_MERKLE_PLACEHOLDER_HASH 32 = Inr None"
proof -
  have "hash_free demo_env (batch_nodes demo_env demo_kvs Map.empty)" unfolding demo_batch_nodes by (rule demo_hash_free)
  from puts_then_get [OF demo_codecs empty_store_represents empty_values(1) demo_updates_eq(2,3) this empty_values(2)]
  show ?thesis unfolding demo_updates_eq(1) by (force simp: view_def)
qed

text \<open>
  C15. \<^verbatim>\<open>get_with_proof\<close> returns the value of the key in the represented map together with a proof
  that \<^verbatim>\<open>verify\<close> accepts for exactly this answer: an inclusion proof where the key is present, a
  non-inclusion proof where it is absent.
\<close>

theorem get_with_proof_verifies:
  assumes "represents env (get_node_option env get) root m" and "values_ok env m" and "hash_value (key_merkle_hash env key)"
  shows "\<exists>prf. smt_get_with_proof env get root key = Inr (view env m key, prf) \<and>
    sparse_verify env prf root key (view env m key) = Inr ()"
  by (rule smt_get_with_proof_eq [OF assms(1,3,2)])

lemma demo_store:
  obtains cs s' where "smt_puts demo_env (in_memory_get empty_store) SPARSE_MERKLE_PLACEHOLDER_HASH demo_updates = Inr cs"
    and "in_memory_write_nodes (cs_nodes cs) empty_store = (Inr (), s')"
    and "represents demo_env (get_node_option demo_env (in_memory_get s')) (cs_state_root cs) demo_map"
proof -
  have "hash_free demo_env (batch_nodes demo_env demo_kvs Map.empty)" unfolding demo_batch_nodes by (rule demo_hash_free)
  from mem.updates_written [OF demo_codecs empty_store_represents empty_values(1) demo_updates_eq(2,3) this] that
  show ?thesis unfolding demo_upds smt_puts_def by blast
qed

lemma demo_values: "values_ok demo_env demo_map"
  by (auto simp: values_ok_def ran_def demo_map_def obj_ok_def demo_leaf_def demo_env_def split: if_splits)

theorem get_with_proof_verifies_witness:
  "\<exists>cs s' prf prf'. smt_puts demo_env (in_memory_get empty_store) SPARSE_MERKLE_PLACEHOLDER_HASH demo_updates = Inr cs \<and>
    in_memory_write_nodes (cs_nodes cs) empty_store = (Inr (), s') \<and>
    smt_get_with_proof demo_env (in_memory_get s') (cs_state_root cs) 16 = Inr (Some 7, prf) \<and>
    sparse_verify demo_env prf (cs_state_root cs) 16 (Some 7) = Inr () \<and>
    smt_get_with_proof demo_env (in_memory_get s') (cs_state_root cs) 48 = Inr (None, prf') \<and>
    sparse_verify demo_env prf' (cs_state_root cs) 48 None = Inr ()"
proof -
  obtain cs s' where s: "smt_puts demo_env (in_memory_get empty_store) SPARSE_MERKLE_PLACEHOLDER_HASH demo_updates = Inr cs"
      "in_memory_write_nodes (cs_nodes cs) empty_store = (Inr (), s')"
      "represents demo_env (get_node_option demo_env (in_memory_get s')) (cs_state_root cs) demo_map" by (rule demo_store)
  have "view demo_env demo_map 16 = Some 7" "view demo_env demo_map 48 = None"
    by (simp_all add: view_def demo_map_def demo_leaf_def)
  with s get_with_proof_verifies [OF s(3) demo_values, of 16] get_with_proof_verifies [OF s(3) demo_values, of 48] demo_keys_hash
  show ?thesis by fastforce
qed

text \<open>
  C16. The batch returned for an update holds every node of the new tree that the old tree does not
  have and only nodes of the new tree, each under its own hash, and its counter of new leaves is the
  number of leaves in it. It marks stale, since the new root, exactly the nodes of the old tree that are
  gone or were written again; the placeholder of an empty tree can be marked too, but only when the tree
  is empty before one of the updates.
\<close>

theorem update_batch_exact:
  assumes "stored env (reader_get_node reader) 64 m" and "entries_ok env m"
    and "batch_ok env kvs" and "kvs \<noteq> []" and "hash_free env (batch_nodes env kvs m)" and "m' = upds env kvs m"
  shows "\<exists>batch. jm_updates env reader (Some (nhash env (canon env 64 m))) kvs = Inr (nhash env (canon env 64 m'), batch) \<and>
    (\<forall>k N. map_of (node_batch batch) k = Some N \<longrightarrow> k = nhash env N \<and> N \<in> nodes env 64 m') \<and>
    (\<forall>N \<in> nodes env 64 m' - nodes env 64 m. map_of (node_batch batch) (nhash env N) = Some N) \<and>
    batch_num_new_leaves batch = length (filter (node_is_leaf \<circ> snd) (node_batch batch)) \<and>
    stale_node_index_batch batch - {\<lparr>stale_since_version = nhash env (canon env 64 m'), stale_node_key = SPARSE_MERKLE_PLACEHOLDER_HASH\<rparr>} =
      {\<lparr>stale_since_version = nhash env (canon env 64 m'), stale_node_key = nhash env N\<rparr> | N.
        N \<in> nodes env 64 m \<and> (N \<notin> nodes env 64 m' \<or> map_of (node_batch batch) (nhash env N) \<noteq> None)} \<and>
    (\<lparr>stale_since_version = nhash env (canon env 64 m'), stale_node_key = SPARSE_MERKLE_PLACEHOLDER_HASH\<rparr> \<in> stale_node_index_batch batch \<longrightarrow>
      (\<exists>i < length kvs. upds env (take i kvs) m = Map.empty))"
proof -
  obtain batch where b: "jm_updates env reader (Some (nhash env (canon env 64 m))) kvs = Inr (nhash env (canon env 64 m'), batch)"
      "batch_from_to env m m' batch" "Null \<notin> snd ` set (node_batch batch)"
      "\<lparr>stale_since_version = nhash env (canon env 64 m'), stale_node_key = SPARSE_MERKLE_PLACEHOLDER_HASH\<rparr> \<in> stale_node_index_batch batch \<longrightarrow>
        (\<exists>i < length kvs. upds env (take i kvs) m = Map.empty)"
    using jm_updates_eq [OF assms(1,2) _ assms(3-5), of "Some (nhash env (canon env 64 m))"] unfolding assms(6) by blast
  have parts: "\<And>k N. map_of (node_batch batch) k = Some N \<Longrightarrow> k = nhash env N \<and> (N = Null \<or> N \<in> nodes env 64 m')"
      "\<And>N. N \<in> nodes env 64 m' \<Longrightarrow> map_of (node_batch batch) (nhash env N) = None \<Longrightarrow> N \<in> nodes env 64 m"
      "batch_num_new_leaves batch = length (filter (node_is_leaf \<circ> snd) (node_batch batch))"
      "stale_node_index_batch batch - {\<lparr>stale_since_version = nhash env (canon env 64 m'), stale_node_key = SPARSE_MERKLE_PLACEHOLDER_HASH\<rparr>} =
        {\<lparr>stale_since_version = nhash env (canon env 64 m'), stale_node_key = nhash env N\<rparr> | N.
          N \<in> nodes env 64 m \<and> (N \<notin> nodes env 64 m' \<or> map_of (node_batch batch) (nhash env N) \<noteq> None)}"
    using b(2) by (simp_all add: batch_from_to_def)
  have held: "k = nhash env N \<and> N \<in> nodes env 64 m'" if "map_of (node_batch batch) k = Some N" for k N
  proof -
    have "N \<noteq> Null" using map_of_SomeD [OF that] b(3) by force
    then show ?thesis using parts(1) [OF that] by simp
  qed
  have "map_of (node_batch batch) (nhash env N) = Some N" if N: "N \<in> nodes env 64 m' - nodes env 64 m" for N
  proof (cases "map_of (node_batch batch) (nhash env N)")
    case None
    then show ?thesis using parts(2) [of N] N by simp
  next
    case (Some M)
    then have "nhash env N = nhash env M" "M \<in> nodes env 64 m'" using held by blast+
    then show ?thesis using Some hash_free_eq [OF assms(5), of N M] batch_nodes_last [of env kvs m] N unfolding assms(6) by auto
  qed
  with b(1,4) held parts(3) show ?thesis by (intro exI [of _ batch] conjI parts(4)) simp_all
qed

theorem update_batch_exact_witness:
  "\<exists>batch. jm_updates demo_env (\<lambda>_. Inr None) (Some SPARSE_MERKLE_PLACEHOLDER_HASH) demo_kvs =
      Inr (nhash demo_env (canon demo_env 64 demo_map), batch) \<and>
    map_of (node_batch batch) (nhash demo_env demo_fork) = Some demo_fork \<and>
    stale_node_index_batch batch \<subseteq> {\<lparr>stale_since_version = nhash demo_env demo_fork, stale_node_key = SPARSE_MERKLE_PLACEHOLDER_HASH\<rparr>}"
proof -
  have "batch_ok demo_env demo_kvs" by code_simp
  moreover have "hash_free demo_env (batch_nodes demo_env demo_kvs Map.empty)" unfolding demo_batch_nodes by (rule demo_hash_free)
  moreover have "demo_kvs \<noteq> []" by (simp add: demo_kvs_def)
  moreover have c: "canon demo_env 64 demo_map = demo_fork"
    using pair_fork_step(1) [of "16 # replicate 31 0" "32 # replicate 31 0" 0 demo_env "demo_leaf 16 7" "demo_leaf 32 9"]
    unfolding demo_nibbles by (simp add: demo_fork_def demo_map_def)
  ultimately show ?thesis
    using update_batch_exact [of demo_env "\<lambda>_. Inr None" Map.empty demo_kvs demo_map]
    by (simp add: demo_upds demo_nodes stored_def entries_ok_def c) blast
qed

section \<open>Proofs\<close>

text \<open>
  C17. Proofs bind: two accepted proofs of the same depth for one key and root answer alike. Either
  both claim absence, or both claim presence of values with the same hash, or two different inputs
  of the hash function with the same hash, or an input that hashes to the placeholder, appear among
  the strings hashed by the two verifications.
\<close>

theorem verify_binds_answer:
  assumes "digest_ok env"
    and "sparse_verify env p root key a = Inr ()" and "sparse_verify env q root key b = Inr ()"
    and "sparse_proof_ok p" and "sparse_proof_ok q" and "length (sp_siblings p) = length (sp_siblings q)"
  shows "(a = None \<and> b = None) \<or>
    (\<exists>v w x y. a = Some v \<and> b = Some w \<and> into_object env v = Inr x \<and> into_object env w = Inr y \<and>
       obj_merkle_hash env x = obj_merkle_hash env y) \<or>
    collision_in (env_digest env) (sparse_inputs env p key) (sparse_inputs env q key) \<or>
    (\<exists>x \<in> set (sparse_inputs env p key @ sparse_inputs env q key). env_digest env x = SPARSE_MERKLE_PLACEHOLDER_HASH)"
proof -
  let ?D = "env_digest env" and ?k = "key_merkle_hash env key"
  have hv: "\<And>bs. hash_value (?D bs)" using assms(1) by (simp add: digest_ok_def)
  have incl: "\<exists>x. into_object env v = Inr x \<and> sp_leaf p = Some (?k, obj_merkle_hash env x)"
    if "sparse_verify env p root key (Some v) = Inr ()" for p v
    using that by (auto simp: sparse_verify_inclusion_iff)
  have leaf: "g @ vh = h @ wh \<or> collision_in ?D (sparse_inputs env p key) (sparse_inputs env q key)"
    if "sp_leaf p = Some (g, vh)" "sp_leaf q = Some (h, wh)" "sparse_leaf_hash ?D (sp_leaf p) = sparse_leaf_hash ?D (sp_leaf q)" for g vh h wh
    using that by (auto simp: sparse_leaf_hash_def smt_merkle_hash_def collision_in_def sparse_inputs_def)
  have mixed: "collision_in ?D (sparse_inputs env p key) (sparse_inputs env q key) \<or>
      (\<exists>x \<in> set (sparse_inputs env p key @ sparse_inputs env q key). ?D x = SPARSE_MERKLE_PLACEHOLDER_HASH)"
    if "sparse_leaf_hash ?D (sp_leaf p) = sparse_leaf_hash ?D (sp_leaf q)" and "(a = None) \<noteq> (b = None)"
  proof -
    have "\<exists>g vh. sp_leaf p = Some (g, vh) \<or> sp_leaf q = Some (g, vh)"
      using that(2) assms(2,3) incl by (cases a; cases b) blast+
    then show ?thesis
    proof (cases "sp_leaf p = None \<or> sp_leaf q = None")
      case True
      with \<open>\<exists>g vh. _\<close> that(1) show ?thesis by (auto simp: sparse_leaf_hash_def smt_merkle_hash_def sparse_inputs_def)
    next
      case False
      then obtain g vh h wh where pq: "sp_leaf p = Some (g, vh)" "sp_leaf q = Some (h, wh)" by auto
      have "g \<noteq> h"
        using that(2) assms(2,3) incl pq by (cases a; cases b) (fastforce simp: sparse_verify_non_inclusion_iff sparse_verify_inclusion_iff)+
      moreover have "length g = length h" using assms(4,5) pq by (auto simp: sparse_proof_ok_def hash_value_length)
      ultimately show ?thesis using leaf [OF pq that(1)] by auto
    qed
  qed
  have both: "obj_merkle_hash env x = obj_merkle_hash env y \<or> collision_in ?D (sparse_inputs env p key) (sparse_inputs env q key)"
    if "sparse_leaf_hash ?D (sp_leaf p) = sparse_leaf_hash ?D (sp_leaf q)"
      "sp_leaf p = Some (?k, obj_merkle_hash env x)" "sp_leaf q = Some (?k, obj_merkle_hash env y)" for x y
    using leaf [OF that(2,3,1)] by auto
  show ?thesis
    using same_start_or_collision [OF hv assms(2-6)]
  proof
    assume st: "sparse_leaf_hash ?D (sp_leaf p) = sparse_leaf_hash ?D (sp_leaf q)"
    consider "a = None" "b = None" | "(a = None) \<noteq> (b = None)" | v w where "a = Some v" "b = Some w" by (cases a; cases b) auto
    then show ?thesis
    proof cases
      case 2
      then show ?thesis using mixed [OF st] by blast
    next
      case 3
      then show ?thesis using incl [of p v] incl [of q w] assms(2,3) both [OF st] by blast
    qed blast
  qed blast
qed

definition demo_vh :: "u8 \<Rightarrow> HashValue" where
  "demo_vh v = demo_digest [v]"

text \<open>The proof of the only leaf of a tree, and its root.\<close>

definition demo_proof :: SparseMerkleProof where
  "demo_proof = \<lparr>sp_leaf = Some (16 # replicate 31 0, demo_vh 7), sp_siblings = []\<rparr>"

definition demo_root :: HashValue where
  "demo_root = smt_leaf_hash demo_env (demo_leaf 16 7)"

lemma demo_proof_ok: "sparse_proof_ok demo_proof"
  by (simp add: sparse_proof_ok_def demo_proof_def hash_value_length demo_vh_def demo_digest_def)

lemma demo_proof_verifies:
  "sparse_verify demo_env demo_proof demo_root 16 (Some 7) = Inr ()" "sparse_verify demo_env demo_proof demo_root 32 None = Inr ()"
  by code_simp+

theorem verify_binds_answer_witness:
  "sparse_verify demo_env demo_proof demo_root 16 (Some 7) = Inr () \<and>
   (\<exists>v w x y. Some (7 :: u8) = Some v \<and> Some (7 :: u8) = Some w \<and> into_object demo_env v = Inr x \<and> into_object demo_env w = Inr y \<and>
      obj_merkle_hash demo_env x = obj_merkle_hash demo_env y \<or>
    collision_in demo_digest (sparse_inputs demo_env demo_proof 16) (sparse_inputs demo_env demo_proof 16) \<or>
    (\<exists>x \<in> set (sparse_inputs demo_env demo_proof 16 @ sparse_inputs demo_env demo_proof 16). demo_digest x = SPARSE_MERKLE_PLACEHOLDER_HASH))"
  using verify_binds_answer [OF demo_codecs(3) demo_proof_verifies(1) demo_proof_verifies(1) demo_proof_ok demo_proof_ok refl] demo_proof_verifies(1)
  unfolding demo_env_sel by blast

text \<open>
  The subtree of two leaves below a position: placeholders beside the common path, the two leaves at the
  first bit that differs.
\<close>

fun fork_hash :: "digest \<Rightarrow> bool list \<Rightarrow> bool list \<Rightarrow> HashValue \<Rightarrow> HashValue \<Rightarrow> HashValue" where
  "fork_hash digest (b # bs) (c # cs) x y =
     (if b \<noteq> c then if b then smt_merkle_hash digest y x else smt_merkle_hash digest x y
      else if b then smt_merkle_hash digest SPARSE_MERKLE_PLACEHOLDER_HASH (fork_hash digest bs cs x y)
      else smt_merkle_hash digest (fork_hash digest bs cs x y) SPARSE_MERKLE_PLACEHOLDER_HASH)"
| "fork_hash digest _ _ x y = x"

lemma climb_fork_hash:
  assumes "n < length bs" and "n < length cs" and "take n bs = take n cs" and "bs ! n \<noteq> cs ! n"
  shows "climb digest bs (replicate n SPARSE_MERKLE_PLACEHOLDER_HASH @ [y]) x = fork_hash digest bs cs x y"
  using assms
proof (induction n arbitrary: bs cs)
  case 0
  then obtain b bs' c cs' where "bs = b # bs'" "cs = c # cs'" by (cases bs; cases cs) auto
  with 0 show ?case by (cases bs') auto
next
  case (Suc n)
  then obtain b bs' c cs' where bc: "bs = b # bs'" "cs = c # cs'" by (cases bs; cases cs) auto
  with Suc.prems Suc.IH [of bs' cs'] show ?case by (simp add: Let_def)
qed

lemma update_leaf_root:
  assumes "length ss \<le> n" and "n = common_prefix_bits_len k g" and "hash_value k" and "hash_value g" and "k \<noteq> g"
  shows "climb digest (iter_bits k) (rev (y # replicate (n - length ss) SPARSE_MERKLE_PLACEHOLDER_HASH @ ss)) x =
    fold_siblings digest k ss (fork_hash digest (drop (length ss) (iter_bits k)) (drop (length ss) (iter_bits g)) x y)"
proof -
  let ?m = "length ss" and ?bs = "iter_bits k" and ?cs = "iter_bits g"
  have d: "n < 256" "hv_get_bit k n \<noteq> hv_get_bit g n" using common_prefix_bits_len_less [OF assms(3-5)] by (simp_all add: assms(2))
  have "take n ?bs = take n ?cs" using common_prefix_bits_len_iff [of n k g] d(1) assms(2) by simp
  then have "drop ?m (take n ?bs) = drop ?m (take n ?cs)" by simp
  then have below: "climb digest (drop ?m ?bs) (replicate (n - ?m) SPARSE_MERKLE_PLACEHOLDER_HASH @ [y]) x =
      fork_hash digest (drop ?m ?bs) (drop ?m ?cs) x y"
    using d assms(1) by (intro climb_fork_hash) (simp_all add: drop_take nth_iter_bits)
  have "rev (y # replicate (n - ?m) SPARSE_MERKLE_PLACEHOLDER_HASH @ ss) = rev ss @ (replicate (n - ?m) SPARSE_MERKLE_PLACEHOLDER_HASH @ [y])"
    by simp
  moreover have "climb digest (take ?m ?bs @ drop ?m ?bs) (rev ss @ ts) x = climb digest (take ?m ?bs) (rev ss) (climb digest (drop ?m ?bs) ts x)" for ts
    using d(1) assms(1) by (intro climb_append) simp
  ultimately show ?thesis using below d(1) assms(1) by (simp add: climb_take fold_siblings_climb)
qed

text \<open>
  C18. \<^verbatim>\<open>update_leaf\<close> on an accepted non-inclusion proof replaces the end of the path and nothing else:
  under the siblings that lead to the old root, the new root has the new leaf where the path was empty,
  and the fork of the old and the new leaf where the path ended in another leaf. The proof it returns
  verifies for the new leaf, and the leaf that was there is still included, at the same depth.
\<close>

theorem update_leaf_correct:
  assumes "sparse_verify env prf root key None = Inr ()" and "into_object env v = Inr obj"
    and "sparse_proof_ok prf" and "hash_value (key_merkle_hash env key)"
    and "D = env_digest env" and "kh = key_merkle_hash env key" and "n = length (sp_siblings prf)"
    and "new_leaf = smt_merkle_hash D kh (obj_merkle_hash env obj)"
  shows "\<exists>root' prf'. update_leaf env key v prf = Inr (root', prf') \<and>
    root = fold_siblings D kh (sp_siblings prf) (sparse_leaf_hash D (sp_leaf prf)) \<and>
    root' = fold_siblings D kh (sp_siblings prf)
      (case sp_leaf prf of None \<Rightarrow> new_leaf
       | Some (k, vh) \<Rightarrow> fork_hash D (drop n (iter_bits kh)) (drop n (iter_bits k)) new_leaf (smt_merkle_hash D k vh)) \<and>
    sparse_verify env prf' root' key (Some v) = Inr () \<and>
    (\<forall>key2 w obj2. into_object env w = Inr obj2 \<and> sp_leaf prf = Some (key_merkle_hash env key2, obj_merkle_hash env obj2) \<longrightarrow>
       (\<exists>prf2. sparse_verify env prf2 root' key2 (Some w) = Inr () \<and> length (sp_siblings prf2) = length (sp_siblings prf')))"
proof -
  let ?k = "key_merkle_hash env key" and ?D = "env_digest env"
  obtain root' siblings where u: "update_leaf env key v prf = Inr (root', \<lparr>sp_leaf = Some (?k, obj_merkle_hash env obj), sp_siblings = siblings\<rparr>)"
    "length siblings \<le> 256" "root' = climb ?D (iter_bits ?k) (rev siblings) (smt_merkle_hash ?D ?k (obj_merkle_hash env obj))"
    "case sp_leaf prf of None \<Rightarrow> siblings = sp_siblings prf
     | Some (k, vh) \<Rightarrow> siblings = smt_merkle_hash ?D k vh #
         replicate (common_prefix_bits_len ?k k - length (sp_siblings prf)) SPARSE_MERKLE_PLACEHOLDER_HASH @ sp_siblings prf"
    using update_leaf_eq [OF assms(1-4)] by blast
  note acc = assms(1) [unfolded sparse_verify_non_inclusion_iff]
  have old_root: "root = fold_siblings D kh (sp_siblings prf) (sparse_leaf_hash D (sp_leaf prf))"
    using acc by (simp add: assms(5,6) fold_siblings_climb)
  have new_root: "root' = fold_siblings D kh (sp_siblings prf)
      (case sp_leaf prf of None \<Rightarrow> new_leaf
       | Some (k, vh) \<Rightarrow> fork_hash D (drop n (iter_bits kh)) (drop n (iter_bits k)) new_leaf (smt_merkle_hash D k vh))"
  proof (cases "sp_leaf prf")
    case None
    then show ?thesis using u(2-4) by (simp add: assms(5,6,8) fold_siblings_climb)
  next
    case (Some l)
    obtain k vh where l: "l = (k, vh)" by (cases l)
    have "k \<noteq> kh" "n \<le> common_prefix_bits_len kh k" "hash_value k"
      using acc assms(3) Some l by (auto simp: assms(6,7) sparse_proof_ok_def)
    then show ?thesis
      using u(3,4) Some update_leaf_root [of "sp_siblings prf" "common_prefix_bits_len kh k" kh k] assms(4)
      by (auto simp: l assms(5-8))
  qed
  have new: "sparse_verify env \<lparr>sp_leaf = Some (?k, obj_merkle_hash env obj), sp_siblings = siblings\<rparr> root' key (Some v) = Inr ()"
    unfolding sparse_verify_inclusion_iff using u(2,3) assms(2) by (simp add: sparse_leaf_hash_def)
  have "\<exists>prf2. sparse_verify env prf2 root' key2 (Some w) = Inr () \<and> length (sp_siblings prf2) = length siblings"
    if w: "into_object env w = Inr obj2" and l: "sp_leaf prf = Some (key_merkle_hash env key2, obj_merkle_hash env obj2)" for key2 w obj2
  proof -
    let ?g = "key_merkle_hash env key2" and ?x = "smt_merkle_hash ?D ?k (obj_merkle_hash env obj)"
      and ?y = "smt_merkle_hash ?D (key_merkle_hash env key2) (obj_merkle_hash env obj2)"
    have v: "?g \<noteq> ?k" "length (sp_siblings prf) \<le> common_prefix_bits_len ?k ?g" "hash_value ?g"
      using assms(1,3) l by (auto simp: sparse_verify_non_inclusion_iff sparse_proof_ok_def)
    define tops where "tops = replicate (common_prefix_bits_len ?k ?g - length (sp_siblings prf)) SPARSE_MERKLE_PLACEHOLDER_HASH @ sp_siblings prf"
    have s: "siblings = ?y # tops" using u(4) l by (simp add: tops_def)
    have len: "length (rev tops) = common_prefix_bits_len ?k ?g" using v(2) by (simp add: tops_def)
    have "climb ?D (iter_bits ?k) (rev tops @ [?y]) ?x = climb ?D (iter_bits ?g) (rev tops @ [?x]) ?y"
      by (rule climb_fork [OF assms(4) v(3) _ len]) (use v(1) in auto)
    then have "sparse_verify env \<lparr>sp_leaf = Some (?g, obj_merkle_hash env obj2), sp_siblings = ?x # tops\<rparr> root' key2 (Some w) = Inr ()"
      unfolding sparse_verify_inclusion_iff using u(2,3) w s by (simp add: sparse_leaf_hash_def)
    then show ?thesis using s by (intro exI [of _ "\<lparr>sp_leaf = Some (?g, obj_merkle_hash env obj2), sp_siblings = ?x # tops\<rparr>"]) simp
  qed
  with u(1) new show ?thesis unfolding old_root [symmetric] new_root [symmetric] by auto
qed

theorem update_leaf_correct_witness:
  "\<exists>root' prf' prf2. update_leaf demo_env 32 9 demo_proof = Inr (root', prf') \<and>
    sparse_verify demo_env prf' root' 32 (Some 9) = Inr () \<and>
    sparse_verify demo_env prf2 root' 16 (Some 7) = Inr () \<and> length (sp_siblings prf2) = length (sp_siblings prf')"
proof -
  have o: "into_object demo_env v = Inr \<lparr>obj_origin = v, obj_raw = [v]\<rparr>" for v
    by (simp add: into_object_def obj_from_origin_def demo_env_def)
  have l: "sp_leaf demo_proof = Some (key_merkle_hash demo_env 16, obj_merkle_hash demo_env \<lparr>obj_origin = 7, obj_raw = [7]\<rparr>)"
    by (simp add: demo_proof_def obj_merkle_hash_def demo_vh_def)
  have "hash_value (key_merkle_hash demo_env 32)" by (simp add: demo_keys_hash)
  from update_leaf_correct [OF demo_proof_verifies(2) o demo_proof_ok this refl refl refl refl] o [of 7] l show ?thesis by blast
qed

text \<open>The root of a tree with one leaf in each half.\<close>

lemma filter_upt_single:
  assumes "s \<le> i" and "i < s + w" and "\<And>j. s \<le> j \<Longrightarrow> j < s + w \<Longrightarrow> P j \<longleftrightarrow> j = i"
  shows "filter P [s..<s + w] = [i]"
proof -
  have "[s..<s + w] = [s..<i] @ i # [Suc i..<s + w]" using assms(1,2) by (metis le_add_diff_inverse less_imp_le upt_add_eq_append upt_conv_Cons)
  moreover have "filter P [s..<i] = []" "filter P [Suc i..<s + w] = []" using assms by (auto simp: filter_empty_conv)
  ultimately show ?thesis using assms by simp
qed

lemma two_leaf_root:
  assumes "hash_nibbles k ! 0 < 8" and "8 \<le> hash_nibbles g ! 0" and "hash_nibbles g ! 0 < 16"
  shows "nhash env (canon env 64 [k \<mapsto> l, g \<mapsto> l']) = smt_merkle_hash (env_digest env) (smt_leaf_hash env l) (smt_leaf_hash env l')"
proof -
  let ?a = "hash_nibbles k ! 0" and ?b = "hash_nibbles g ! 0"
  let ?c = "[?a \<mapsto> \<lparr>ch_hash = smt_leaf_hash env l, ch_is_leaf = True\<rparr>, ?b \<mapsto> \<lparr>ch_hash = smt_leaf_hash env l', ch_is_leaf = True\<rparr>]"
  have ab: "?a \<noteq> ?b" "k \<noteq> g" using assms(1,2) by auto
  have u: "unat ?a < 8" "8 \<le> unat ?b" "unat ?b < 16" using assms by (simp_all add: word_less_nat_alt word_le_nat_alt)
  have at: "child_at ?c j \<noteq> None \<longleftrightarrow> j = unat ?a \<or> j = unat ?b" if "j < 16" for j
  proof -
    have "word_of_nat j = ?a \<longleftrightarrow> j = unat ?a" "word_of_nat j = ?b \<longleftrightarrow> j = unat ?b"
      using unat_nibble_eq_iff [OF that, of ?a] unat_nibble_eq_iff [OF that, of ?b] by metis+
    then show ?thesis by (simp add: child_at_def)
  qed
  have halves: "range_children ?c 0 8 = [unat ?a]" "range_children ?c 8 8 = [unat ?b]"
    unfolding range_children_def using u at by (intro filter_upt_single; auto)+
  have "unat ?a \<in> set (range_children ?c 0 16)" "unat ?b \<in> set (range_children ?c 0 16)" "unat ?a \<noteq> unat ?b"
    using u at [of "unat ?a"] at [of "unat ?b"] by (auto simp: range_children_16)
  then have "branching ?c 0 4" by (auto simp: branching_def split: list.split)
  then have "range_hash (env_digest env) ?c 0 4 = smt_merkle_hash (env_digest env) (range_hash (env_digest env) ?c 0 3) (range_hash (env_digest env) ?c 8 3)"
    using range_hash_branching [of ?c 0 3 "env_digest env"] by (simp add: numeral_eq_Suc)
  moreover have "range_hash (env_digest env) ?c 0 3 = hash_at ?c (unat ?a)" "range_hash (env_digest env) ?c 8 3 = hash_at ?c (unat ?b)"
    using halves u ab by (intro range_hash_single; simp add: leaf_at_def child_at_def)+
  moreover have "hash_at ?c (unat ?a) = smt_leaf_hash env l" "hash_at ?c (unat ?b) = smt_leaf_hash env l'"
    using u ab by (simp_all add: hash_at_def child_at_def)
  ultimately show ?thesis using pair_fork_step(1) [OF ab(2) _ ab(1), where env = env and l = l and l' = l'] by simp
qed

text \<open>
  C19. Leaf and inner hashes share one format, so depth is not bound. In a tree with one leaf in each
  half, a key equal to the hash of the first leaf and a value whose bytes are the key and value hash of
  the second pass verification with no siblings, although the tree does not contain the key.
\<close>

theorem inclusion_without_domain_separation:
  assumes "represents env (get_node_option env get) root [k1 \<mapsto> l1, k2 \<mapsto> l2]" and "values_ok env [k1 \<mapsto> l1, k2 \<mapsto> l2]"
    and "hash_nibbles k1 ! 0 < 8" and "8 \<le> hash_nibbles k2 ! 0"
    and "key_merkle_hash env fake_key = smt_leaf_hash env l1" and "hash_value (smt_leaf_hash env l1)" and "smt_leaf_hash env l1 \<notin> {k1, k2}"
    and "into_object env fake_value = Inr obj" and "obj_raw obj = ln_key_hash env l2 @ ln_value_hash env l2"
  shows "smt_get env get root fake_key = Inr None \<and>
    sparse_verify env (sparse_proof_new (Some (key_merkle_hash env fake_key, obj_merkle_hash env obj)) []) root fake_key (Some fake_value) = Inr ()"
proof -
  have ok: "entries_ok env [k1 \<mapsto> l1, k2 \<mapsto> l2]" and root: "root = nhash env (canon env 64 [k1 \<mapsto> l1, k2 \<mapsto> l2])"
    using assms(1) by (simp_all add: represents_def)
  have "length (hash_nibbles k2) = 64" using entries_ok_hash [OF ok, of k2] length_hash_nibbles by auto
  then have "hash_nibbles k2 ! 0 \<in> set (hash_nibbles k2)" by (intro nth_mem) simp
  then have "hash_nibbles k2 ! 0 < 16" by (rule hash_nibbles_less)
  note root' = root [unfolded two_leaf_root [OF assms(3,4) this]]
  have "view env [k1 \<mapsto> l1, k2 \<mapsto> l2] fake_key = None" using assms(5,7) by (simp add: view_def)
  then have "smt_get env get root fake_key = Inr None"
    using smt_get_eq [OF assms(1) _ assms(2), of fake_key] assms(5,6) by simp
  moreover have "sparse_verify env (sparse_proof_new (Some (key_merkle_hash env fake_key, obj_merkle_hash env obj)) []) root fake_key (Some fake_value) = Inr ()"
    using assms(5,8,9) unfolding sparse_verify_inclusion_iff root'
    by (simp add: sparse_proof_new_def sparse_leaf_hash_def obj_merkle_hash_def smt_leaf_hash_def smt_merkle_hash_def)
  ultimately show ?thesis ..
qed

text \<open>Keys of 32 bytes that are their own hash, as the keys of fields are, and values that are byte strings.\<close>

definition bytes_env :: "(256 word, bytes) smt_env" where
  "bytes_env = \<lparr>env_digest = demo_digest, key_into = to_le_bytes 32, key_from = from_le_bytes, bcs_to_bytes = Inr, bcs_from_bytes = Inr,
     raw_kv_to_bytes = \<lambda>(key, raw). (if length key = 32 then Inr (key @ raw) else Inl (Fail ''bcs'')),
     raw_kv_from_bytes = \<lambda>bs. (if 32 \<le> length bs then Inr (take 32 bs, drop 32 bs) else Inl (Fail ''bcs''))\<rparr>"

lemma bytes_codecs: "smt_codecs bytes_env" "kv_total bytes_env" "digest_ok bytes_env"
  by (auto simp: smt_codecs_def key_codec_def value_codec_def kv_codec_def kv_total_def digest_ok_def bytes_env_def demo_digest_def
      hash_value_def LENGTH_BYTES_def from_to_le_bytes take_bit_word_eq_self split: if_splits)

abbreviation bytes_hash :: "u8 \<Rightarrow> HashValue" where
  "bytes_hash b \<equiv> b # replicate 31 0"

definition bytes_key :: "HashValue \<Rightarrow> 256 word" where
  "bytes_key h = from_le_bytes h"

lemma bytes_key_hash: "length h = 32 \<Longrightarrow> key_merkle_hash bytes_env (bytes_key h) = h"
  by (simp add: key_merkle_hash_def bytes_env_def bytes_key_def to_from_le_bytes)

lemma small_key_hash: "key_merkle_hash bytes_env 16 = bytes_hash 16" "key_merkle_hash bytes_env 200 = bytes_hash 200"
  by code_simp+

definition bytes_leaf :: "256 word \<Rightarrow> u8 \<Rightarrow> (256 word, bytes) SmtLeafNode" where
  "bytes_leaf k v = \<lparr>ln_key = k, ln_value = \<lparr>obj_origin = [v], obj_raw = [v]\<rparr>\<rparr>"

definition bytes_map :: "(256 word, bytes) entries" where
  "bytes_map = [bytes_hash 16 \<mapsto> bytes_leaf 16 7, bytes_hash 200 \<mapsto> bytes_leaf 200 9]"

definition bytes_updates :: "(256 word, bytes) UpdateSet" where
  "bytes_updates = us_from_vec [(16, Some [7]), (200, Some [9])]"

definition bytes_kvs :: "(256 word \<times> bytes SMTObject option) list" where
  "bytes_kvs = [(16, Some \<lparr>obj_origin = [7], obj_raw = [7]\<rparr>), (200, Some \<lparr>obj_origin = [9], obj_raw = [9]\<rparr>)]"

lemma bytes_updates_eq: "us_wf bytes_updates" "into_updates bytes_env bytes_updates = Inr bytes_kvs"
  by code_simp+

lemma bytes_upds: "upds bytes_env bytes_kvs Map.empty = bytes_map"
  by (simp add: bytes_kvs_def upd_def bytes_map_def bytes_leaf_def smt_leaf_new_def small_key_hash)

lemma bytes_nibbles: "hash_nibbles (bytes_hash 16) ! 0 = 1" "hash_nibbles (bytes_hash 200) ! 0 = 12"
  by code_simp+

definition bytes_fork :: "(256 word, bytes) SmtNode" where
  "bytes_fork = Internal_Node \<lparr>in_children =
     [1 \<mapsto> \<lparr>ch_hash = smt_leaf_hash bytes_env (bytes_leaf 16 7), ch_is_leaf = True\<rparr>,
      12 \<mapsto> \<lparr>ch_hash = smt_leaf_hash bytes_env (bytes_leaf 200 9), ch_is_leaf = True\<rparr>]\<rparr>"

lemma bytes_hash_free: "hash_free bytes_env (batch_nodes bytes_env bytes_kvs Map.empty)"
proof -
  have ne: "bytes_hash 16 \<noteq> bytes_hash 200" "hash_nibbles (bytes_hash 16) ! 0 \<noteq> hash_nibbles (bytes_hash 200) ! 0"
    unfolding bytes_nibbles by simp_all
  have "nodes bytes_env 64 bytes_map = {bytes_fork, Leaf_Node (bytes_leaf 16 7), Leaf_Node (bytes_leaf 200 9)}"
    using pair_fork_step [OF ne(1) _ ne(2), where env = bytes_env and l = "bytes_leaf 16 7" and l' = "bytes_leaf 200 9"]
    unfolding bytes_nibbles by (simp add: bytes_fork_def bytes_map_def)
  moreover have "batch_nodes bytes_env bytes_kvs Map.empty = nodes bytes_env 64 [bytes_hash 16 \<mapsto> bytes_leaf 16 7] \<union> nodes bytes_env 64 bytes_map"
    by (simp add: bytes_kvs_def upd_def bytes_map_def bytes_leaf_def smt_leaf_new_def small_key_hash)
  ultimately have "batch_nodes bytes_env bytes_kvs Map.empty = {bytes_fork, Leaf_Node (bytes_leaf 16 7), Leaf_Node (bytes_leaf 200 9)}" by auto
  moreover have "distinct [nhash bytes_env bytes_fork, nhash bytes_env (Leaf_Node (bytes_leaf 16 7)), nhash bytes_env (Leaf_Node (bytes_leaf 200 9)),
      SPARSE_MERKLE_PLACEHOLDER_HASH]" by code_simp
  ultimately show ?thesis by (auto simp: hash_free_def)
qed

definition fake_key :: "256 word" where
  "fake_key = bytes_key (smt_leaf_hash bytes_env (bytes_leaf 16 7))"

definition fake_value :: bytes where
  "fake_value = ln_key_hash bytes_env (bytes_leaf 200 9) @ ln_value_hash bytes_env (bytes_leaf 200 9)"

theorem inclusion_without_domain_separation_witness:
  "\<exists>cs s' prf. smt_puts bytes_env (in_memory_get empty_store) SPARSE_MERKLE_PLACEHOLDER_HASH bytes_updates = Inr cs \<and>
    in_memory_write_nodes (cs_nodes cs) empty_store = (Inr (), s') \<and>
    smt_get bytes_env (in_memory_get s') (cs_state_root cs) fake_key = Inr None \<and>
    sparse_verify bytes_env prf (cs_state_root cs) fake_key (Some fake_value) = Inr ()"
proof -
  obtain cs s' where s: "smt_puts bytes_env (in_memory_get empty_store) SPARSE_MERKLE_PLACEHOLDER_HASH bytes_updates = Inr cs"
      "in_memory_write_nodes (cs_nodes cs) empty_store = (Inr (), s')"
      "represents bytes_env (get_node_option bytes_env (in_memory_get s')) (cs_state_root cs) bytes_map" "values_ok bytes_env bytes_map"
    using mem.updates_written [OF bytes_codecs empty_store_represents empty_values(1) bytes_updates_eq bytes_hash_free]
    unfolding bytes_upds smt_puts_def by blast
  have l: "length (smt_leaf_hash bytes_env (bytes_leaf 16 7)) = 32" "smt_leaf_hash bytes_env (bytes_leaf 16 7) \<notin> {bytes_hash 16, bytes_hash 200}"
    by code_simp+
  have o: "into_object bytes_env fake_value = Inr \<lparr>obj_origin = fake_value, obj_raw = fake_value\<rparr>"
    by (simp add: into_object_def obj_from_origin_def bytes_env_def)
  have k: "key_merkle_hash bytes_env fake_key = smt_leaf_hash bytes_env (bytes_leaf 16 7)" using bytes_key_hash [OF l(1)] by (simp add: fake_key_def)
  have hv: "hash_value (smt_leaf_hash bytes_env (bytes_leaf 16 7))" using l(1) by (simp add: hash_value_length)
  have n: "hash_nibbles (bytes_hash 16) ! 0 < 8" "8 \<le> hash_nibbles (bytes_hash 200) ! 0" unfolding bytes_nibbles by simp_all
  from inclusion_without_domain_separation [OF s(3,4) [unfolded bytes_map_def] n k hv l(2) o] s(1,2)
  show ?thesis by (simp add: fake_value_def) blast
qed

section \<open>Iteration\<close>

text \<open>The answers of \<open>n\<close> calls of \<^verbatim>\<open>next\<close> in a row.\<close>

primrec next_calls ::
    "nat \<Rightarrow> nat \<Rightarrow> ('k, 'v) smt_env \<Rightarrow> node_bytes_reader \<Rightarrow> JellyfishMerkleIterator \<Rightarrow>
     (('k \<times> 'v) result option list \<times> JellyfishMerkleIterator) result" where
  "next_calls 0 fuel env get it = Inr ([], it)"
| "next_calls (Suc n) fuel env get it =
     and_then (smt_iter_next fuel env get it) (\<lambda>(item, it').
     and_then (next_calls n fuel env get it') (\<lambda>(items, it''). Inr (item # items, it'')))"

lemma next_calls_eq:
  assumes "represents env (get_node_option env get) root m" and "64 \<le> fuel"
  shows "iter_inv env (get_node_option env get) root m it rest \<Longrightarrow>
    \<exists>it'. next_calls n fuel env get it =
      Inr (map (Some \<circ> Inr \<circ> leaf_item) (take n rest) @ replicate (n - length rest) None, it')"
proof (induction n arbitrary: it rest)
  case (Suc n)
  show ?case
  proof (cases rest)
    case Nil
    then show ?thesis using smt_iter_next_eq(1) [OF Suc.prems assms] Suc.IH [OF Suc.prems] by auto
  next
    case (Cons l ls)
    then obtain it' where "smt_iter_next fuel env get it = Inr (Some (Inr (leaf_item l)), it')"
        "iter_inv env (get_node_option env get) root m it' ls"
      using smt_iter_next_eq(2) [OF Suc.prems assms] by blast
    then show ?thesis using Suc.IH Cons by fastforce
  qed
qed simp

lemma lex_less_linear: "lex_less xs ys \<or> xs = ys \<or> lex_less ys xs"
  by (induction xs ys rule: lex_less.induct) (auto simp: neq_iff, metis lex_less.simps(2) list.exhaust)

text \<open>
  C20. \<^verbatim>\<open>dump\<close> returns exactly the pairs of the represented map, in ascending order of their key
  hashes. Fuel beyond the depth of a tree and the number of its leaves is enough, so the iteration
  ends.
\<close>

theorem dump_sorted_and_complete:
  assumes "represents env (get_node_option env get) root m" and "smt_codecs env" and "64 \<le> fuel" and "card (dom m) < fuel"
  shows "\<exists>items. smt_dump fuel env get root = Inr items \<and>
    sorted_wrt (\<lambda>(k, _) (k', _). lex_less (key_merkle_hash env k) (key_merkle_hash env k')) items \<and>
    length items = card (dom m) \<and>
    (\<forall>k v. (k, v) \<in> set items \<longleftrightarrow> view env m k = Some v)"
proof -
  have ok: "entries_ok env m" using assms(1) by (simp add: represents_def)
  show ?thesis
    using smt_dump_eq [OF assms(1,3,4)] leaves_sorted_items [OF ok] leaves_keys(3) [OF ok] leaf_items_view [OF assms(2) ok]
    by (intro exI [of _ "map leaf_item (leaves 64 m)"]) auto
qed

lemma demo_card: "card (dom demo_map) = 2"
  by (simp add: demo_map_def)

lemma demo_view: "view demo_env demo_map 16 = Some 7" "view demo_env demo_map 32 = Some 9" "view demo_env demo_map 17 = None"
  by (simp_all add: view_def demo_map_def demo_leaf_def)

theorem dump_sorted_and_complete_witness:
  "\<exists>cs s' items. smt_puts demo_env (in_memory_get empty_store) SPARSE_MERKLE_PLACEHOLDER_HASH demo_updates = Inr cs \<and>
    in_memory_write_nodes (cs_nodes cs) empty_store = (Inr (), s') \<and>
    smt_dump 64 demo_env (in_memory_get s') (cs_state_root cs) = Inr items \<and>
    length items = 2 \<and> (16, 7) \<in> set items \<and> (32, 9) \<in> set items"
proof -
  obtain cs s' where s: "smt_puts demo_env (in_memory_get empty_store) SPARSE_MERKLE_PLACEHOLDER_HASH demo_updates = Inr cs"
      "in_memory_write_nodes (cs_nodes cs) empty_store = (Inr (), s')"
      "represents demo_env (get_node_option demo_env (in_memory_get s')) (cs_state_root cs) demo_map" by (rule demo_store)
  obtain items where "smt_dump 64 demo_env (in_memory_get s') (cs_state_root cs) = Inr items" "length items = card (dom demo_map)"
      "\<forall>k v. (k, v) \<in> set items \<longleftrightarrow> view demo_env demo_map k = Some v"
    using dump_sorted_and_complete [OF s(3) demo_codecs(1), of 64] demo_card by auto
  with s(1,2) demo_card demo_view(1,2) show ?thesis by auto
qed

text \<open>
  C21. Paging with \<^verbatim>\<open>list\<close>: from a starting key that is in the tree it returns the first \<open>limit\<close>
  pairs, in hash order, among exactly those whose key hash is greater.
\<close>

theorem list_after_key:
  assumes "represents env (get_node_option env get) root m" and "smt_codecs env" and "64 \<le> fuel" and "card (dom m) < fuel"
    and "view env m key \<noteq> None"
  shows "\<exists>rest. smt_list fuel env get root (Some key) limit = Inr (take limit rest) \<and>
    sorted_wrt (\<lambda>(k, _) (k', _). lex_less (key_merkle_hash env k) (key_merkle_hash env k')) rest \<and>
    (\<forall>k v. (k, v) \<in> set rest \<longleftrightarrow> view env m k = Some v \<and> lex_less (key_merkle_hash env key) (key_merkle_hash env k))"
proof -
  have ok: "entries_ok env m" using assms(1) by (simp add: represents_def)
  have hv: "hash_value (key_merkle_hash env key)" using assms(2) by (simp add: smt_codecs_def key_codec_def key_merkle_hash_def)
  obtain xs l ys where s: "leaves 64 m = xs @ l # ys" "ln_key_hash env l = key_merkle_hash env key"
      "filter (\<lambda>l. \<not> lex_less (ln_key_hash env l) (key_merkle_hash env key)) (leaves 64 m) = l # ys"
    by (rule leaves_at_key [OF ok, of "key_merkle_hash env key"]) (use assms(5) in \<open>auto simp: view_def\<close>)
  have "smt_list fuel env get root (Some key) limit = Inr (take limit (map leaf_item ys))"
    using smt_list_eq [OF assms(1,3,4), of "Some key"] hv s(3) by simp
  moreover have "sorted_wrt (\<lambda>(k, _) (k', _). lex_less (key_merkle_hash env k) (key_merkle_hash env k')) (map leaf_item ys)"
    using leaves_sorted_items [OF ok] by (simp add: s(1) sorted_wrt_append)
  moreover have "(k, v) \<in> set (map leaf_item ys) \<longleftrightarrow> view env m k = Some v \<and> lex_less (key_merkle_hash env key) (key_merkle_hash env k)" for k v
  proof -
    have "(k, v) \<in> set (map leaf_item ys) \<longleftrightarrow> (\<exists>a \<in> set (xs @ l # ys). leaf_item a = (k, v) \<and> a \<in> set ys)" by force
    also have "\<dots> \<longleftrightarrow> (\<exists>a \<in> set (xs @ l # ys). leaf_item a = (k, v) \<and> lex_less (ln_key_hash env l) (ln_key_hash env a))"
      using later_leaves [OF ok s(1)] by blast
    also have "\<dots> \<longleftrightarrow> (k, v) \<in> set (map leaf_item (xs @ l # ys)) \<and> lex_less (key_merkle_hash env key) (key_merkle_hash env k)"
      unfolding s(2) by (auto simp: leaf_item_def ln_key_hash_def)
    also have "\<dots> \<longleftrightarrow> view env m k = Some v \<and> lex_less (key_merkle_hash env key) (key_merkle_hash env k)"
      using leaf_items_view [OF assms(2) ok, of k v] s(1) by simp
    finally show ?thesis .
  qed
  ultimately show ?thesis by blast
qed

theorem list_after_key_witness:
  "\<exists>cs s' rest. smt_puts demo_env (in_memory_get empty_store) SPARSE_MERKLE_PLACEHOLDER_HASH demo_updates = Inr cs \<and>
    in_memory_write_nodes (cs_nodes cs) empty_store = (Inr (), s') \<and>
    smt_list 64 demo_env (in_memory_get s') (cs_state_root cs) (Some 16) 5 = Inr (take 5 rest) \<and>
    (32, 9) \<in> set rest \<and> (16, 7) \<notin> set rest"
proof -
  obtain cs s' where s: "smt_puts demo_env (in_memory_get empty_store) SPARSE_MERKLE_PLACEHOLDER_HASH demo_updates = Inr cs"
      "in_memory_write_nodes (cs_nodes cs) empty_store = (Inr (), s')"
      "represents demo_env (get_node_option demo_env (in_memory_get s')) (cs_state_root cs) demo_map" by (rule demo_store)
  obtain rest where "smt_list 64 demo_env (in_memory_get s') (cs_state_root cs) (Some 16) 5 = Inr (take 5 rest)"
      "\<forall>k v. (k, v) \<in> set rest \<longleftrightarrow> view demo_env demo_map k = Some v \<and> lex_less (key_merkle_hash demo_env 16) (key_merkle_hash demo_env k)"
    using list_after_key [OF s(3) demo_codecs(1), of 64 16 5] demo_card demo_view(1) by auto
  moreover have "lex_less (key_merkle_hash demo_env 16) (key_merkle_hash demo_env 32)" by simp
  ultimately show ?thesis using s(1,2) demo_view(1,2) lex_less_irrefl by metis
qed

text \<open>
  C22. From a starting key that is not in the tree, \<^verbatim>\<open>list\<close> loses an entry: it drops the first pair
  after the key as if that were the key itself, and returns the pairs from the second on.
\<close>

theorem list_absent_key_skips:
  assumes "represents env (get_node_option env get) root m" and "smt_codecs env" and "64 \<le> fuel" and "card (dom m) < fuel"
    and "view env m key = None"
  shows "\<exists>after. smt_list fuel env get root (Some key) limit = Inr (take limit (tl after)) \<and>
    sorted_wrt (\<lambda>(k, _) (k', _). lex_less (key_merkle_hash env k) (key_merkle_hash env k')) after \<and>
    (\<forall>k v. (k, v) \<in> set after \<longleftrightarrow> view env m k = Some v \<and> lex_less (key_merkle_hash env key) (key_merkle_hash env k))"
proof -
  let ?h = "key_merkle_hash env key"
  have ok: "entries_ok env m" using assms(1) by (simp add: represents_def)
  have hv: "hash_value (key_merkle_hash env k)" for k using assms(2) by (simp add: smt_codecs_def key_codec_def key_merkle_hash_def)
  define after where "after = map leaf_item (filter (\<lambda>l. \<not> lex_less (ln_key_hash env l) ?h) (leaves 64 m))"
  have "smt_list fuel env get root (Some key) limit = Inr (take limit (tl after))"
    using smt_list_eq [OF assms(1,3,4), of "Some key"] hv by (simp add: after_def map_tl)
  moreover have "sorted_wrt (\<lambda>(k, _) (k', _). lex_less (key_merkle_hash env k) (key_merkle_hash env k')) after"
    using leaves_sorted_items [OF ok] by (simp add: after_def sorted_wrt_map sorted_wrt_filter)
  moreover have "(k, v) \<in> set after \<longleftrightarrow> view env m k = Some v \<and> lex_less ?h (key_merkle_hash env k)" for k v
  proof -
    have "view env m k = Some v \<Longrightarrow> \<not> lex_less (key_merkle_hash env k) ?h \<longleftrightarrow> lex_less ?h (key_merkle_hash env k)"
      using assms(5) lex_less_linear [of "key_merkle_hash env k" "key_merkle_hash env key"] lex_less_asym by (auto simp: view_def)
    moreover have "(k, v) \<in> set after \<longleftrightarrow> (k, v) \<in> set (map leaf_item (leaves 64 m)) \<and> \<not> lex_less (key_merkle_hash env k) ?h"
      by (auto simp: after_def leaf_item_def ln_key_hash_def image_iff)
    ultimately show ?thesis using leaf_items_view [OF assms(2) ok, of k v] by blast
  qed
  ultimately show ?thesis by blast
qed

theorem list_absent_key_skips_witness:
  "\<exists>cs s' after. smt_puts demo_env (in_memory_get empty_store) SPARSE_MERKLE_PLACEHOLDER_HASH demo_updates = Inr cs \<and>
    in_memory_write_nodes (cs_nodes cs) empty_store = (Inr (), s') \<and>
    smt_list 64 demo_env (in_memory_get s') (cs_state_root cs) (Some 17) 5 = Inr (take 5 (tl after)) \<and> (32, 9) \<in> set after"
proof -
  obtain cs s' where s: "smt_puts demo_env (in_memory_get empty_store) SPARSE_MERKLE_PLACEHOLDER_HASH demo_updates = Inr cs"
      "in_memory_write_nodes (cs_nodes cs) empty_store = (Inr (), s')"
      "represents demo_env (get_node_option demo_env (in_memory_get s')) (cs_state_root cs) demo_map" by (rule demo_store)
  obtain after where "smt_list 64 demo_env (in_memory_get s') (cs_state_root cs) (Some 17) 5 = Inr (take 5 (tl after))"
      "\<forall>k v. (k, v) \<in> set after \<longleftrightarrow> view demo_env demo_map k = Some v \<and> lex_less (key_merkle_hash demo_env 17) (key_merkle_hash demo_env k)"
    using list_absent_key_skips [OF s(3) demo_codecs(1), of 64 17 5] demo_card demo_view(3) by auto
  with s(1,2) demo_view(2) show ?thesis by (intro exI [of _ cs] exI [of _ s'] exI [of _ after]) simp
qed

text \<open>
  C23. Every entry is eventually delivered: on a fresh iterator over a tree of \<open>n\<close> entries each entry
  is the result of one of the first \<open>n\<close> calls of \<^verbatim>\<open>next\<close>, none of which fails, and every later call
  answers that the iteration is over.
\<close>

theorem iterator_delivers_all:
  assumes "represents env (get_node_option env get) root m" and "smt_codecs env" and "64 \<le> fuel"
  shows "\<exists>it. smt_iter env get root None = Inr it \<and>
    (\<forall>k v. view env m k = Some v \<longrightarrow>
       (\<exists>n < card (dom m). \<exists>rs it'. next_calls (Suc n) fuel env get it = Inr (rs, it') \<and> last rs = Some (Inr (k, v)))) \<and>
    (\<forall>n. \<exists>rs it'. next_calls (card (dom m) + n) fuel env get it = Inr (rs, it') \<and> drop (card (dom m)) rs = replicate n None)"
proof -
  have ok: "entries_ok env m" using assms(1) by (simp add: represents_def)
  obtain it where it: "smt_iter env get root None = Inr it" "iter_inv env (get_node_option env get) root m it (leaves 64 m)"
    using smt_iter_eq [OF assms(1), of None] by auto
  note calls = next_calls_eq [OF assms(1,3) it(2)]
  have "\<exists>n < card (dom m). \<exists>rs it'. next_calls (Suc n) fuel env get it = Inr (rs, it') \<and> last rs = Some (Inr (k, v))"
    if "view env m k = Some v" for k v
  proof -
    have "(k, v) \<in> set (map leaf_item (leaves 64 m))" using that leaf_items_view [OF assms(2) ok, of k v] by blast
    then obtain n where n: "n < length (leaves 64 m)" "leaf_item (leaves 64 m ! n) = (k, v)"
      unfolding in_set_conv_nth by auto
    obtain it' where "next_calls (Suc n) fuel env get it = Inr (map (Some \<circ> Inr \<circ> leaf_item) (take (Suc n) (leaves 64 m)) @ replicate (Suc n - length (leaves 64 m)) None, it')"
      using calls by blast
    moreover have "last (map (Some \<circ> Inr \<circ> leaf_item) (take (Suc n) (leaves 64 m)) @ replicate (Suc n - length (leaves 64 m)) None) = Some (Inr (k, v))"
      using n by (simp add: take_Suc_conv_app_nth)
    ultimately show ?thesis using n(1) leaves_keys(3) [OF ok] by metis
  qed
  moreover have "\<exists>rs it'. next_calls (card (dom m) + n) fuel env get it = Inr (rs, it') \<and> drop (card (dom m)) rs = replicate n None" for n
    using calls [of "card (dom m) + n"] leaves_keys(3) [OF ok] by fastforce
  ultimately show ?thesis using it(1) by blast
qed

theorem iterator_delivers_all_witness:
  "\<exists>cs s' it n rs it'. smt_puts demo_env (in_memory_get empty_store) SPARSE_MERKLE_PLACEHOLDER_HASH demo_updates = Inr cs \<and>
    in_memory_write_nodes (cs_nodes cs) empty_store = (Inr (), s') \<and>
    smt_iter demo_env (in_memory_get s') (cs_state_root cs) None = Inr it \<and> n < 2 \<and>
    next_calls (Suc n) 64 demo_env (in_memory_get s') it = Inr (rs, it') \<and> last rs = Some (Inr (32, 9))"
proof -
  obtain cs s' where s: "smt_puts demo_env (in_memory_get empty_store) SPARSE_MERKLE_PLACEHOLDER_HASH demo_updates = Inr cs"
      "in_memory_write_nodes (cs_nodes cs) empty_store = (Inr (), s')"
      "represents demo_env (get_node_option demo_env (in_memory_get s')) (cs_state_root cs) demo_map" by (rule demo_store)
  from iterator_delivers_all [OF s(3) demo_codecs(1), of 64] obtain it where
    it: "smt_iter demo_env (in_memory_get s') (cs_state_root cs) None = Inr it"
      "\<forall>k v. view demo_env demo_map k = Some v \<longrightarrow> (\<exists>n < card (dom demo_map). \<exists>rs it'.
         next_calls (Suc n) 64 demo_env (in_memory_get s') it = Inr (rs, it') \<and> last rs = Some (Inr (k, v)))" by auto
  from it(2) demo_view(2) obtain n rs it' where "n < 2" "next_calls (Suc n) 64 demo_env (in_memory_get s') it = Inr (rs, it')"
      "last rs = Some (Inr (32, 9))" unfolding demo_card by blast
  with s(1,2) it(1) show ?thesis by blast
qed

end
