(* ===== verification/Smt_Codec_Properties.thy ===== *)
theory Smt_Codec_Properties
  imports Smt_Properties
begin

text \<open>
  The correctness statements of the pieces below the sparse Merkle tree: the node format, the hash of
  an internal node, nibble paths, hash values as bits and as text, and update sets.
\<close>

section \<open>Nodes\<close>

text \<open>
  C24. Every well-formed node has an encoding, and decoding it gives the node back: the null node,
  internal nodes with their bitmaps and child hashes, and leaves with their key and raw value.
\<close>

theorem node_codec_round_trip:
  assumes "smt_codecs env" and "kv_total env" and "node_ok env node"
  shows "\<exists>bs. node_encode env node = Inr bs \<and> node_decode env bs = Inr node"
  using node_encode_ok [OF assms] node_decode_encode [OF assms(1,3)] by blast

theorem node_codec_round_trip_witness:
  "\<exists>bs. node_encode demo_env (Leaf_Node (demo_leaf 16 7)) = Inr bs \<and> node_decode demo_env bs = Inr (Leaf_Node (demo_leaf 16 7))"
  by (rule node_codec_round_trip [OF demo_codecs(1,2)]) (simp add: obj_ok_def demo_leaf_def demo_env_def)

text \<open>
  C25. The hash of an internal node, which the code computes on bitmaps of existing children and of
  leaves, is the root of the binary Merkle tree over the sixteen child positions in which an empty
  range hashes to the placeholder and a range whose only child is a leaf to that leaf's hash.
\<close>

theorem internal_hash_is_merkle_root:
  "smt_internal_hash digest node = Inr (range_hash digest (in_children node) 0 4)"
  by (rule smt_internal_hash_eq)

text \<open>
  C26. The decoder rejects an empty input, an unknown tag and an internal node with no children with
  an error, but an internal node whose only child is a leaf reaches an assertion: the bytes of a
  stored node can abort the process.
\<close>

theorem node_decode_rejects:
  assumes "2 < tag" and "hash_value h"
  shows "node_decode env [] = Inl (Fail ''Missing tag due to empty input'') \<and>
    node_decode env (tag # bs) = Inl (Fail ''lead tag byte is unknown'') \<and>
    node_decode env (1 # 0 # 0 # a # b # bs) = Inl (Fail ''No children found in internal node'') \<and>
    node_decode env (1 # 1 # 0 # 1 # 0 # h) = Inl (Panic ''assertion failed: !children.values().next().is_leaf'')"
  using node_decode_errors [where env = env] assms(1) deserialize_single_leaf [OF assms(2)] by (simp add: node_decode_def)

theorem node_decode_rejects_witness:
  "node_decode demo_env (7 # [1]) = Inl (Fail ''lead tag byte is unknown'') \<and>
   node_decode demo_env (1 # 1 # 0 # 1 # 0 # replicate 32 5) = Inl (Panic ''assertion failed: !children.values().next().is_leaf'')"
  using node_decode_rejects [of 7 "replicate 32 5" demo_env "[1]"] by (simp add: hash_value_length)

section \<open>Paths and hash values\<close>

text \<open>
  C27. Nibble paths are stacks of at most 64 nibbles packed in bytes: the representation invariant is
  kept, \<^verbatim>\<open>push\<close> appends its nibble, \<^verbatim>\<open>last\<close> reads it and \<^verbatim>\<open>pop\<close> takes it off again, restoring the path
  bit for bit. Pushing on a full path panics, popping an empty one answers none.
\<close>

theorem nibble_path_stack:
  assumes "np_wf p" and "n < 16"
  shows "(if np_num_nibbles p < 64
    then \<exists>q. np_push p n = Inr q \<and> np_wf q \<and> nibbles_of q = nibbles_of p @ [n] \<and>
      np_last q = Inr (Some n) \<and> np_pop q = Inr (Some n, p)
    else np_push p n = Inl (Panic ''assertion failed: ROOT_NIBBLE_HEIGHT > self.num_nibbles'')) \<and>
    (np_num_nibbles p = 0 \<longrightarrow> np_pop p = Inr (None, p))"
proof -
  have "\<exists>q. np_push p n = Inr q \<and> np_wf q \<and> nibbles_of q = nibbles_of p @ [n] \<and> np_last q = Inr (Some n) \<and> np_pop q = Inr (Some n, p)"
    if room: "np_num_nibbles p < 64"
  proof -
    obtain q where q: "np_push p n = Inr q" "np_wf q" "nibbles_of q = nibbles_of p @ [n]"
      using np_push_eq [OF assms(1) room assms(2)] by blast
    then have pos: "0 < np_num_nibbles q" using length_nibbles_of [of q] by simp
    obtain r where r: "np_pop q = Inr (Some (last (nibbles_of q)), r)" "np_wf r" "nibbles_of r = butlast (nibbles_of q)"
      using np_pop_eq [OF q(2) pos] by blast
    then have "r = p" using nibbles_of_inject [OF r(2) assms(1)] q(3) by simp
    then show ?thesis using q r(1) np_last_eq [OF q(2) pos] by simp
  qed
  then show ?thesis using np_pop_empty [OF assms(1)] by (simp add: np_push_def assert_that_def)
qed

theorem nibble_path_stack_witness:
  "\<exists>q. np_push \<lparr>np_num_nibbles = 1, np_bytes = [0xA0]\<rparr> 11 = Inr q \<and> np_pop q = Inr (Some 11, \<lparr>np_num_nibbles = 1, np_bytes = [0xA0]\<rparr>)"
proof -
  have "np_wf \<lparr>np_num_nibbles = 1, np_bytes = [0xA0]\<rparr>" by (simp add: np_wf_def)
  from nibble_path_stack [OF this, of 11] show ?thesis by auto
qed

text \<open>
  The bits of a hash determine it: collecting them with \<^verbatim>\<open>from_bit_iter\<close> rebuilds the hash, and
  the two texts of a hash, with and without prefix, parse back to it, for any hexadecimal decoder
  that inverts the two-digit encoding of bytes.
\<close>

lemma hash_value_round_trips:
  assumes "hash_value h" and "\<And>bs. length bs = 32 \<Longrightarrow> decode_hex (concat (map hex_byte bs)) = Some bs"
  shows "from_bit_iter (iter_bits h) = Inr h \<and>
    from_hex_literal decode_hex (as_hex_literal h) = Inr h \<and> from_hex_literal decode_hex (as_hex h) = Inr h"
  using from_bit_iter_iter_bits [OF assms(1)] hex_literal_round_trip [OF assms] by blast

text \<open>A decoder of that kind, two digits at a time.\<close>

fun hex_decode :: "string \<Rightarrow> bytes option" where
  "hex_decode [] = Some []"
| "hex_decode (a # b # cs) =
     (case (find (\<lambda>n. hex_digit n = a) [0..<16], find (\<lambda>n. hex_digit n = b) [0..<16], hex_decode cs) of
        (Some i, Some j, Some bs) \<Rightarrow> Some (word_of_nat (16 * i + j) # bs)
      | _ \<Rightarrow> None)"
| "hex_decode _ = None"

lemma find_hex_digit: "i < 16 \<Longrightarrow> find (\<lambda>n. hex_digit n = hex_digit i) [0..<16] = Some i"
proof -
  have "\<forall>i \<in> set [0..<16]. find (\<lambda>n. hex_digit n = hex_digit i) [0..<16] = Some i" by code_simp
  then show "i < 16 \<Longrightarrow> find (\<lambda>n. hex_digit n = hex_digit i) [0..<16] = Some i" by simp
qed

lemma hex_decode_bytes: "hex_decode (concat (map hex_byte bs)) = Some bs"
proof (induction bs)
  case (Cons b bs)
  have "unat b < 256" using unsigned_less [of b] by simp
  then have "unat b div 16 < 16" "unat b mod 16 < 16" by simp_all
  with Cons show ?case by (simp add: hex_byte_def find_hex_digit)
qed simp

section \<open>Update sets\<close>

text \<open>
  C28. An update set is an ordered map: every operation keeps its keys strictly ascending, a later
  write to a key replaces an earlier one, a removal is recorded as an explicit deletion, and the list
  handed to the tree has the keys of the set in ascending order, each once.
\<close>

theorem update_set_ordered_map:
  assumes "us_wf us" and "into_updates env (us_puts kvs us) = Inr out"
  shows "us_wf (us_put k v us) \<and> us_wf (us_remove k us) \<and> us_wf (us_puts kvs us) \<and> us_wf (us_clear us) \<and>
    map_of (us_updates (us_put k v us)) = (map_of (us_updates us))(k \<mapsto> Some v) \<and>
    map_of (us_updates (us_remove k us)) = (map_of (us_updates us))(k \<mapsto> None) \<and>
    map_of (us_updates (us_puts kvs us)) = map_of (us_updates us) ++ map_of (rev kvs) \<and>
    map fst out = map fst (us_updates (us_puts kvs us)) \<and> sorted_wrt (<) (map fst out)"
proof -
  have s: "sorted_wrt (<) (map fst (us_updates us))" using assms(1) by (simp add: us_wf_def)
  have wf: "us_wf (us_puts kvs us)" by (rule us_wf_ops(4) [OF assms(1)])
  have keys: "map fst out = map fst (us_updates (us_puts kvs us))" by (rule into_updates_keys(1) [OF assms(2)])
  show ?thesis
    using us_wf_ops(3) [OF assms(1)] us_wf_ops(5) [OF assms(1)] us_wf_ops(6) wf keys bt_insert_lookup [OF s] bt.insert_all(2) [OF s]
    by (simp add: us_put_def us_remove_def us_puts_def us_wf_def)
qed

theorem update_set_ordered_map_witness:
  "sorted_wrt (<) (map fst demo_kvs) \<and>
   map_of (us_updates (us_puts [(32, Some 8), (16, Some 7), (32, Some 9)] us_new)) (32 :: u8) = Some (Some (9 :: u8))"
proof -
  have "into_updates demo_env (us_puts [(32, Some 8), (16, Some 7), (32, Some 9)] us_new) = Inr demo_kvs"
    using demo_updates_eq(3) by (simp add: demo_updates_def us_from_vec_def)
  from update_set_ordered_map [OF us_wf_ops(1) this, of 0 0] show ?thesis by (simp add: us_new_def us_wf_def)
qed

end
