(* ===== verification/Raw_Store.thy ===== *)
theory Raw_Store
  imports Rooch_Prelude
begin

text \<open>
  The key-value stores (\<^verbatim>\<open>moveos/raw-store\<close>): write batches, the column families of a RocksDB
  instance, and the typed stores that encode keys and values with BCS on the way in and out. The
  crate \<^verbatim>\<open>rocksdb\<close> is the parameter \<open>rocks_ops\<close>; \<open>rocks_contract\<close> states what the code relies on.
  Timers and counters of \<^verbatim>\<open>DBMetrics\<close> have no effect on results and are left out.
\<close>

section \<open>Batches\<close>

datatype 'v WriteOp = Value 'v | Deletion

record WriteBatch =
  wb_rows :: "(bytes \<times> bytes WriteOp) list"

definition batch_new :: WriteBatch where
  "batch_new = \<lparr>wb_rows = []\<rparr>"

definition new_with_rows :: "(bytes \<times> bytes WriteOp) list \<Rightarrow> WriteBatch" where
  "new_with_rows rows = \<lparr>wb_rows = rows\<rparr>"

definition batch_put :: "bytes \<Rightarrow> bytes \<Rightarrow> (WriteBatch, unit) action" where
  "batch_put key value = modify_act (\<lambda>b. b\<lparr>wb_rows := wb_rows b @ [(key, Value value)]\<rparr>)"

definition batch_delete :: "bytes \<Rightarrow> (WriteBatch, unit) action" where
  "batch_delete key = modify_act (\<lambda>b. b\<lparr>wb_rows := wb_rows b @ [(key, Deletion)]\<rparr>)"

definition batch_clear :: "(WriteBatch, unit) action" where
  "batch_clear = modify_act (\<lambda>b. b\<lparr>wb_rows := []\<rparr>)"

definition size_in_bytes :: "WriteBatch \<Rightarrow> nat" where
  "size_in_bytes b =
     foldl (\<lambda>n (k, op). n + length k + (case op of Value v \<Rightarrow> length v | Deletion \<Rightarrow> 0)) 0 (wb_rows b)"

record ('k, 'v) CodecWriteBatch =
  cb_rows :: "('k \<times> 'v WriteOp) list"

definition codec_batch_new :: "('k, 'v) CodecWriteBatch" where
  "codec_batch_new = \<lparr>cb_rows = []\<rparr>"

definition new_puts :: "('k \<times> 'v) list \<Rightarrow> ('k, 'v) CodecWriteBatch" where
  "new_puts kvs = \<lparr>cb_rows = map (\<lambda>(k, v). (k, Value v)) kvs\<rparr>"

definition new_deletes :: "'k list \<Rightarrow> ('k, 'v) CodecWriteBatch" where
  "new_deletes ks = \<lparr>cb_rows = map (\<lambda>k. (k, Deletion)) ks\<rparr>"

definition codec_batch_put :: "'k \<Rightarrow> 'v \<Rightarrow> (('k, 'v) CodecWriteBatch, unit) action" where
  "codec_batch_put key value = modify_act (\<lambda>b. b\<lparr>cb_rows := cb_rows b @ [(key, Value value)]\<rparr>)"

definition codec_batch_delete :: "'k \<Rightarrow> (('k, 'v) CodecWriteBatch, unit) action" where
  "codec_batch_delete key = modify_act (\<lambda>b. b\<lparr>cb_rows := cb_rows b @ [(key, Deletion)]\<rparr>)"

definition codec_batch_clear :: "(('k, 'v) CodecWriteBatch, unit) action" where
  "codec_batch_clear = modify_act (\<lambda>b. b\<lparr>cb_rows := []\<rparr>)"

section \<open>The database\<close>

type_synonym ColumnFamilyName = string

text \<open>
  The operations of \<^verbatim>\<open>rocksdb::DB\<close> that the code calls. The flag of the write operations is the
  \<^verbatim>\<open>sync\<close> option; a batch is the list of its operations, each with its column family.
\<close>

record 'db rocks_ops =
  rk_cf_handle :: "'db \<Rightarrow> ColumnFamilyName \<Rightarrow> bool"
  rk_get_cf :: "'db \<Rightarrow> ColumnFamilyName \<Rightarrow> bytes \<Rightarrow> bytes option result"
  rk_put_cf_opt :: "bool \<Rightarrow> ColumnFamilyName \<Rightarrow> bytes \<Rightarrow> bytes \<Rightarrow> ('db, unit) action"
  rk_delete_cf :: "ColumnFamilyName \<Rightarrow> bytes \<Rightarrow> ('db, unit) action"
  rk_write_opt :: "bool \<Rightarrow> (ColumnFamilyName \<times> bytes \<times> bytes WriteOp) list \<Rightarrow> ('db, unit) action"
  rk_multi_get_cf :: "'db \<Rightarrow> (ColumnFamilyName \<times> bytes) list \<Rightarrow> bytes option result list"

definition get_cf_handle :: "'db rocks_ops \<Rightarrow> 'db \<Rightarrow> ColumnFamilyName \<Rightarrow> unit result" where
  "get_cf_handle rk db cf_name =
     assert_that (rk_cf_handle rk db cf_name) ''DB::cf_handle not found for column family name''"

definition rocks_get :: "'db rocks_ops \<Rightarrow> 'db \<Rightarrow> ColumnFamilyName \<Rightarrow> bytes \<Rightarrow> bytes option result" where
  "rocks_get rk db cf_name key = and_then (get_cf_handle rk db cf_name) (\<lambda>_. rk_get_cf rk db cf_name key)"

definition rocks_put :: "'db rocks_ops \<Rightarrow> ColumnFamilyName \<Rightarrow> bytes \<Rightarrow> bytes \<Rightarrow> ('db, unit) action" where
  "rocks_put rk cf_name key value db =
     bind_act (lift_act (get_cf_handle rk db cf_name)) (\<lambda>_. rk_put_cf_opt rk False cf_name key value) db"

definition rocks_put_sync :: "'db rocks_ops \<Rightarrow> ColumnFamilyName \<Rightarrow> bytes \<Rightarrow> bytes \<Rightarrow> ('db, unit) action" where
  "rocks_put_sync rk cf_name key value db =
     bind_act (lift_act (get_cf_handle rk db cf_name)) (\<lambda>_. rk_put_cf_opt rk True cf_name key value) db"

text \<open>Every error of the lookup counts as absence; a panic is a panic.\<close>

definition rocks_contains_key :: "'db rocks_ops \<Rightarrow> 'db \<Rightarrow> ColumnFamilyName \<Rightarrow> bytes \<Rightarrow> bool result" where
  "rocks_contains_key rk db cf_name key =
     (case rocks_get rk db cf_name key of
        Inr (Some _) \<Rightarrow> Inr True
      | Inr None \<Rightarrow> Inr False
      | Inl (Fail _) \<Rightarrow> Inr False
      | Inl e \<Rightarrow> Inl e)"

definition rocks_remove :: "'db rocks_ops \<Rightarrow> ColumnFamilyName \<Rightarrow> bytes \<Rightarrow> ('db, unit) action" where
  "rocks_remove rk cf_name key db =
     bind_act (lift_act (get_cf_handle rk db cf_name)) (\<lambda>_. rk_delete_cf rk cf_name key) db"

definition rocks_write_batch :: "'db rocks_ops \<Rightarrow> ColumnFamilyName \<Rightarrow> WriteBatch \<Rightarrow> ('db, unit) action" where
  "rocks_write_batch rk cf_name batch db =
     bind_act (lift_act (get_cf_handle rk db cf_name)) (\<lambda>_.
     rk_write_opt rk False (map (\<lambda>(key, op). (cf_name, key, op)) (wb_rows batch))) db"

definition rocks_write_batch_sync :: "'db rocks_ops \<Rightarrow> ColumnFamilyName \<Rightarrow> WriteBatch \<Rightarrow> ('db, unit) action" where
  "rocks_write_batch_sync rk cf_name batch db =
     bind_act (lift_act (get_cf_handle rk db cf_name)) (\<lambda>_.
     rk_write_opt rk True (map (\<lambda>(key, op). (cf_name, key, op)) (wb_rows batch))) db"

definition rocks_multi_get ::
    "'db rocks_ops \<Rightarrow> 'db \<Rightarrow> ColumnFamilyName \<Rightarrow> bytes list \<Rightarrow> bytes option list result" where
  "rocks_multi_get rk db cf_name keys =
     and_then (get_cf_handle rk db cf_name) (\<lambda>_.
     try_map (\<lambda>item. item) (rk_multi_get_cf rk db (map (Pair cf_name) keys)))"

section \<open>Typed stores\<close>

text \<open>
  A store made by \<^verbatim>\<open>derive_store!\<close>: the name of its column family and the BCS encodings of its key
  and value types.
\<close>

record ('k, 'v) schema =
  sc_cf_name :: ColumnFamilyName
  sc_key_to_bytes :: "'k \<Rightarrow> bytes result"
  sc_key_from_bytes :: "bytes \<Rightarrow> 'k result"
  sc_value_to_bytes :: "'v \<Rightarrow> bytes result"
  sc_value_from_bytes :: "bytes \<Rightarrow> 'v result"

text \<open>BCS for the key and value types of a store, and the store \<^verbatim>\<open>derive_store!\<close> makes of them.\<close>

record ('k, 'v) bcs_codec =
  bc_key_to_bytes :: "'k \<Rightarrow> bytes result"
  bc_key_from_bytes :: "bytes \<Rightarrow> 'k result"
  bc_value_to_bytes :: "'v \<Rightarrow> bytes result"
  bc_value_from_bytes :: "bytes \<Rightarrow> 'v result"

definition derive_store :: "ColumnFamilyName \<Rightarrow> ('k, 'v) bcs_codec \<Rightarrow> ('k, 'v) schema" where
  "derive_store cf_name bc =
     \<lparr>sc_cf_name = cf_name, sc_key_to_bytes = bc_key_to_bytes bc, sc_key_from_bytes = bc_key_from_bytes bc,
      sc_value_to_bytes = bc_value_to_bytes bc, sc_value_from_bytes = bc_value_from_bytes bc\<rparr>"

definition kv_decode :: "('k, 'v) schema \<Rightarrow> bytes option \<Rightarrow> 'v option result" where
  "kv_decode sc value =
     (case value of
        Some bs \<Rightarrow> and_then (sc_value_from_bytes sc bs) (\<lambda>v. Inr (Some v))
      | None \<Rightarrow> Inr None)"

definition kv_get :: "'db rocks_ops \<Rightarrow> ('k, 'v) schema \<Rightarrow> 'db \<Rightarrow> 'k \<Rightarrow> 'v option result" where
  "kv_get rk sc db key =
     and_then (sc_key_to_bytes sc key) (\<lambda>kb.
     and_then (rocks_get rk db (sc_cf_name sc) kb) (kv_decode sc))"

definition kv_multiple_get :: "'db rocks_ops \<Rightarrow> ('k, 'v) schema \<Rightarrow> 'db \<Rightarrow> 'k list \<Rightarrow> 'v option list result" where
  "kv_multiple_get rk sc db keys =
     and_then (try_map (sc_key_to_bytes sc) keys) (\<lambda>encoded_keys.
     and_then (rocks_multi_get rk db (sc_cf_name sc) encoded_keys) (try_map (kv_decode sc)))"

definition kv_multiple_get_raw :: "'db rocks_ops \<Rightarrow> ('k, 'v) schema \<Rightarrow> 'db \<Rightarrow> 'k list \<Rightarrow> bytes option list result" where
  "kv_multiple_get_raw rk sc db keys =
     and_then (try_map (sc_key_to_bytes sc) keys) (rocks_multi_get rk db (sc_cf_name sc))"

definition kv_put :: "'db rocks_ops \<Rightarrow> ('k, 'v) schema \<Rightarrow> 'k \<Rightarrow> 'v \<Rightarrow> ('db, unit) action" where
  "kv_put rk sc key value =
     bind_act (lift_act (sc_key_to_bytes sc key)) (\<lambda>kb.
     bind_act (lift_act (sc_value_to_bytes sc value)) (\<lambda>vb.
     rocks_put rk (sc_cf_name sc) kb vb))"

definition kv_put_sync :: "'db rocks_ops \<Rightarrow> ('k, 'v) schema \<Rightarrow> 'k \<Rightarrow> 'v \<Rightarrow> ('db, unit) action" where
  "kv_put_sync rk sc key value =
     bind_act (lift_act (sc_key_to_bytes sc key)) (\<lambda>kb.
     bind_act (lift_act (sc_value_to_bytes sc value)) (\<lambda>vb.
     rocks_put_sync rk (sc_cf_name sc) kb vb))"

definition kv_contains_key :: "'db rocks_ops \<Rightarrow> ('k, 'v) schema \<Rightarrow> 'db \<Rightarrow> 'k \<Rightarrow> bool result" where
  "kv_contains_key rk sc db key =
     and_then (sc_key_to_bytes sc key) (rocks_contains_key rk db (sc_cf_name sc))"

definition kv_remove :: "'db rocks_ops \<Rightarrow> ('k, 'v) schema \<Rightarrow> 'k \<Rightarrow> ('db, unit) action" where
  "kv_remove rk sc key =
     bind_act (lift_act (sc_key_to_bytes sc key)) (\<lambda>kb. rocks_remove rk (sc_cf_name sc) kb)"

definition into_raw_op :: "('k, 'v) schema \<Rightarrow> 'v WriteOp \<Rightarrow> bytes WriteOp result" where
  "into_raw_op sc op =
     (case op of Value v \<Rightarrow> and_then (sc_value_to_bytes sc v) (\<lambda>b. Inr (Value b)) | Deletion \<Rightarrow> Inr Deletion)"

text \<open>\<^verbatim>\<open>unwrap\<close>: an error becomes a panic.\<close>

definition unwrap :: "'a result \<Rightarrow> 'a result" where
  "unwrap r =
     (case r of Inl (Fail msg) \<Rightarrow> Inl (Panic ''called Result::unwrap() on an Err value'') | _ \<Rightarrow> r)"

definition batch_try_from :: "('k, 'v) schema \<Rightarrow> ('k, 'v) CodecWriteBatch \<Rightarrow> WriteBatch result" where
  "batch_try_from sc batch =
     and_then
       (try_map (\<lambda>(key, op).
          and_then (unwrap (sc_key_to_bytes sc key)) (\<lambda>kb.
          and_then (unwrap (into_raw_op sc op)) (\<lambda>ob. Inr (kb, ob)))) (cb_rows batch)) (\<lambda>rows.
     Inr (new_with_rows rows))"

definition kv_write_batch :: "'db rocks_ops \<Rightarrow> ('k, 'v) schema \<Rightarrow> ('k, 'v) CodecWriteBatch \<Rightarrow> ('db, unit) action" where
  "kv_write_batch rk sc batch =
     bind_act (lift_act (batch_try_from sc batch)) (\<lambda>b. rocks_write_batch rk (sc_cf_name sc) b)"

definition kv_write_batch_sync :: "'db rocks_ops \<Rightarrow> ('k, 'v) schema \<Rightarrow> ('k, 'v) CodecWriteBatch \<Rightarrow> ('db, unit) action" where
  "kv_write_batch_sync rk sc batch =
     bind_act (lift_act (batch_try_from sc batch)) (\<lambda>b. rocks_write_batch_sync rk (sc_cf_name sc) b)"

definition kv_write_batch_raw :: "'db rocks_ops \<Rightarrow> ('k, 'v) schema \<Rightarrow> WriteBatch \<Rightarrow> ('db, unit) action" where
  "kv_write_batch_raw rk sc batch = rocks_write_batch rk (sc_cf_name sc) batch"

definition kv_put_all :: "'db rocks_ops \<Rightarrow> ('k, 'v) schema \<Rightarrow> ('k \<times> 'v) list \<Rightarrow> ('db, unit) action" where
  "kv_put_all rk sc kvs = kv_write_batch rk sc (new_puts kvs)"

definition kv_delete_all :: "'db rocks_ops \<Rightarrow> ('k, 'v) schema \<Rightarrow> 'k list \<Rightarrow> ('db, unit) action" where
  "kv_delete_all rk sc ks = kv_write_batch rk sc (new_deletes ks)"

definition kv_put_raw :: "'db rocks_ops \<Rightarrow> ('k, 'v) schema \<Rightarrow> bytes \<Rightarrow> bytes \<Rightarrow> ('db, unit) action" where
  "kv_put_raw rk sc key value = rocks_put rk (sc_cf_name sc) key value"

definition kv_get_raw :: "'db rocks_ops \<Rightarrow> ('k, 'v) schema \<Rightarrow> 'db \<Rightarrow> bytes \<Rightarrow> bytes option result" where
  "kv_get_raw rk sc db key = rocks_get rk db (sc_cf_name sc) key"

definition kv_get_len :: "u64 result" where
  "kv_get_len = Inl (Fail ''DB instance not support get length method!'')"

definition kv_keys :: "'k list result" where
  "kv_keys = Inl (Fail ''DB instance not support keys method!'')"

section \<open>What the code relies on\<close>

type_synonym db_contents = "ColumnFamilyName \<Rightarrow> bytes \<rightharpoonup> bytes"

fun apply_write :: "db_contents \<Rightarrow> ColumnFamilyName \<times> bytes \<times> bytes WriteOp \<Rightarrow> db_contents" where
  "apply_write m (cf, k, Value v) = m(cf := (m cf)(k \<mapsto> v))"
| "apply_write m (cf, k, Deletion) = m(cf := (m cf)(k := None))"

text \<open>
  The database holds a map per column family; on the column families it was opened with, reads see
  what was written last, and a batch is applied in order.
\<close>

definition rocks_contract :: "'db rocks_ops \<Rightarrow> ColumnFamilyName set \<Rightarrow> ('db \<Rightarrow> db_contents) \<Rightarrow> bool" where
  "rocks_contract rk cfs contents \<longleftrightarrow>
     (\<forall>db. \<forall>cf \<in> cfs. rk_cf_handle rk db cf) \<and>
     (\<forall>db k. \<forall>cf \<in> cfs. rk_get_cf rk db cf k = Inr (contents db cf k)) \<and>
     (\<forall>db s k v. \<forall>cf \<in> cfs. \<exists>db'. rk_put_cf_opt rk s cf k v db = (Inr (), db') \<and>
        contents db' = apply_write (contents db) (cf, k, Value v)) \<and>
     (\<forall>db k. \<forall>cf \<in> cfs. \<exists>db'. rk_delete_cf rk cf k db = (Inr (), db') \<and>
        contents db' = apply_write (contents db) (cf, k, Deletion)) \<and>
     (\<forall>db s ws. fst ` set ws \<subseteq> cfs \<longrightarrow> (\<exists>db'. rk_write_opt rk s ws db = (Inr (), db') \<and>
        contents db' = foldl apply_write (contents db) ws)) \<and>
     (\<forall>db ks. fst ` set ks \<subseteq> cfs \<longrightarrow>
        rk_multi_get_cf rk db ks = map (\<lambda>(cf, k). Inr (contents db cf k)) ks)"

text \<open>
  BCS encodes keys injectively and decodes what it encoded, up to the fields \<open>norm\<close> resets because
  serde skips them.
\<close>

definition schema_ok :: "('k, 'v) schema \<Rightarrow> ('v \<Rightarrow> 'v) \<Rightarrow> bool" where
  "schema_ok sc norm \<longleftrightarrow>
     (\<forall>k. \<exists>b. sc_key_to_bytes sc k = Inr b) \<and>
     (\<forall>k k' b. sc_key_to_bytes sc k = Inr b \<and> sc_key_to_bytes sc k' = Inr b \<longrightarrow> k = k') \<and>
     (\<forall>v. \<exists>b. sc_value_to_bytes sc v = Inr b \<and> sc_value_from_bytes sc b = Inr (norm v))"

text \<open>The typed view of a column family.\<close>

definition kv_view :: "('k, 'v) schema \<Rightarrow> db_contents \<Rightarrow> 'k \<rightharpoonup> 'v" where
  "kv_view sc m k =
     (case sc_key_to_bytes sc k of
        Inl _ \<Rightarrow> None
      | Inr b \<Rightarrow>
          (case m (sc_cf_name sc) b of
             None \<Rightarrow> None
           | Some bs \<Rightarrow> (case sc_value_from_bytes sc bs of Inr v \<Rightarrow> Some v | Inl _ \<Rightarrow> None)))"

text \<open>Every value of the column family decodes.\<close>

definition kv_clean :: "('k, 'v) schema \<Rightarrow> db_contents \<Rightarrow> bool" where
  "kv_clean sc m \<longleftrightarrow> (\<forall>b bs. m (sc_cf_name sc) b = Some bs \<longrightarrow> (\<exists>v. sc_value_from_bytes sc bs = Inr v))"

section \<open>Reads and writes on the typed view\<close>

lemma schema_key:
  assumes "schema_ok sc norm"
  obtains kb where "sc_key_to_bytes sc k = Inr kb"
    and "\<And>k'. sc_key_to_bytes sc k' = Inr kb \<longleftrightarrow> k' = k"
  using assms unfolding schema_ok_def by metis

lemma schema_value:
  assumes "schema_ok sc norm"
  obtains vb where "sc_value_to_bytes sc v = Inr vb" and "sc_value_from_bytes sc vb = Inr (norm v)"
  using assms unfolding schema_ok_def by blast

lemma kv_get_eq:
  assumes "rocks_contract rk cfs contents" and "schema_ok sc norm" and "sc_cf_name sc \<in> cfs"
    and "kv_clean sc (contents db)"
  shows "kv_get rk sc db k = Inr (kv_view sc (contents db) k)"
proof -
  obtain kb where kb: "sc_key_to_bytes sc k = Inr kb" by (rule schema_key [OF assms(2)])
  have g: "rocks_get rk db (sc_cf_name sc) kb = Inr (contents db (sc_cf_name sc) kb)"
    using assms(1,3) by (simp add: rocks_get_def get_cf_handle_def rocks_contract_def)
  show ?thesis
  proof (cases "contents db (sc_cf_name sc) kb")
    case None
    with kb g show ?thesis by (simp add: kv_get_def kv_decode_def kv_view_def)
  next
    case (Some bs)
    with assms(4) obtain v where "sc_value_from_bytes sc bs = Inr v" by (auto simp: kv_clean_def)
    with Some kb g show ?thesis by (simp add: kv_get_def kv_decode_def kv_view_def)
  qed
qed

text \<open>A write to one column family, seen through the schemas.\<close>

lemma kv_view_write:
  assumes "schema_ok sc norm" and "sc_key_to_bytes sc k = Inr kb"
    and "sc_value_to_bytes sc v = Inr vb" and "sc_value_from_bytes sc vb = Inr (norm v)"
  shows "kv_view sc (apply_write m (sc_cf_name sc, kb, Value vb)) = (kv_view sc m)(k \<mapsto> norm v)"
    and "kv_view sc (apply_write m (sc_cf_name sc, kb, Deletion)) = (kv_view sc m)(k := None)"
    and "kv_clean sc m \<Longrightarrow> kv_clean sc (apply_write m (sc_cf_name sc, kb, Value vb))"
    and "kv_clean sc m \<Longrightarrow> kv_clean sc (apply_write m (sc_cf_name sc, kb, Deletion))"
proof -
  have key: "\<exists>b. sc_key_to_bytes sc k' = Inr b \<and> (b = kb \<longleftrightarrow> k' = k)" for k'
    using assms(1,2) unfolding schema_ok_def by metis
  show "kv_view sc (apply_write m (sc_cf_name sc, kb, Value vb)) = (kv_view sc m)(k \<mapsto> norm v)"
  proof
    fix k'
    obtain b where "sc_key_to_bytes sc k' = Inr b" "b = kb \<longleftrightarrow> k' = k" using key by blast
    then show "kv_view sc (apply_write m (sc_cf_name sc, kb, Value vb)) k' = ((kv_view sc m)(k \<mapsto> norm v)) k'"
      using assms(4) by (simp add: kv_view_def)
  qed
  show "kv_view sc (apply_write m (sc_cf_name sc, kb, Deletion)) = (kv_view sc m)(k := None)"
  proof
    fix k'
    obtain b where "sc_key_to_bytes sc k' = Inr b" "b = kb \<longleftrightarrow> k' = k" using key by blast
    then show "kv_view sc (apply_write m (sc_cf_name sc, kb, Deletion)) k' = ((kv_view sc m)(k := None)) k'"
      by (simp add: kv_view_def)
  qed
  show "kv_clean sc m \<Longrightarrow> kv_clean sc (apply_write m (sc_cf_name sc, kb, Value vb))"
    and "kv_clean sc m \<Longrightarrow> kv_clean sc (apply_write m (sc_cf_name sc, kb, Deletion))"
    using assms(4) by (auto simp: kv_clean_def)
qed

text \<open>What a write to the column family of \<open>sc\<close> leaves as it was.\<close>

definition same_except :: "ColumnFamilyName \<Rightarrow> db_contents \<Rightarrow> db_contents \<Rightarrow> bool" where
  "same_except cf m m' \<longleftrightarrow> (\<forall>cf'. cf' \<noteq> cf \<longrightarrow> m' cf' = m cf')"

lemma same_except_view:
  assumes "same_except cf m m'" and "sc_cf_name sc \<noteq> cf"
  shows "kv_view sc m' = kv_view sc m" and "kv_clean sc m' \<longleftrightarrow> kv_clean sc m"
proof -
  have "m' (sc_cf_name sc) = m (sc_cf_name sc)" using assms by (simp add: same_except_def)
  then show "kv_view sc m' = kv_view sc m" and "kv_clean sc m' \<longleftrightarrow> kv_clean sc m"
    by (auto simp: kv_view_def kv_clean_def fun_eq_iff split: sum.split)
qed

definition same_outside :: "ColumnFamilyName set \<Rightarrow> db_contents \<Rightarrow> db_contents \<Rightarrow> bool" where
  "same_outside cfs m m' \<longleftrightarrow> (\<forall>cf. cf \<notin> cfs \<longrightarrow> m' cf = m cf)"

lemma same_outside_refl [simp]: "same_outside cfs m m"
  by (simp add: same_outside_def)

lemma same_outside_trans: "same_outside cfs m m' \<Longrightarrow> same_outside cfs m' m'' \<Longrightarrow> same_outside cfs m m''"
  by (simp add: same_outside_def)

lemma same_except_outside: "same_except cf m m' \<Longrightarrow> cf \<in> cfs \<Longrightarrow> same_outside cfs m m'"
  by (auto simp: same_except_def same_outside_def)

lemma same_outside_view:
  assumes "same_outside cfs m m'" and "sc_cf_name sc \<notin> cfs"
  shows "kv_view sc m' = kv_view sc m" and "kv_clean sc m' \<longleftrightarrow> kv_clean sc m"
  using assms by (auto simp: same_outside_def kv_view_def kv_clean_def fun_eq_iff split: sum.split)

lemma kv_put_both:
  assumes "rocks_contract rk cfs contents" and "schema_ok sc norm" and "sc_cf_name sc \<in> cfs"
    and "put = kv_put rk sc k v \<or> put = kv_put_sync rk sc k v"
  shows "\<exists>db'. put db = (Inr (), db') \<and>
    kv_view sc (contents db') = (kv_view sc (contents db))(k \<mapsto> norm v) \<and>
    (kv_clean sc (contents db) \<longrightarrow> kv_clean sc (contents db')) \<and>
    same_except (sc_cf_name sc) (contents db) (contents db')"
proof -
  obtain kb where kb: "sc_key_to_bytes sc k = Inr kb" by (rule schema_key [OF assms(2)])
  obtain vb where vb: "sc_value_to_bytes sc v = Inr vb" "sc_value_from_bytes sc vb = Inr (norm v)"
    by (rule schema_value [OF assms(2)])
  have h: "get_cf_handle rk db (sc_cf_name sc) = Inr ()"
    using assms(1,3) by (simp add: get_cf_handle_def rocks_contract_def)
  have w: "\<exists>db'. rk_put_cf_opt rk s (sc_cf_name sc) kb vb db = (Inr (), db') \<and>
      contents db' = apply_write (contents db) (sc_cf_name sc, kb, Value vb)" for s
    using assms(1,3) unfolding rocks_contract_def by blast
  obtain db' where "put db = (Inr (), db')" and c: "contents db' = apply_write (contents db) (sc_cf_name sc, kb, Value vb)"
    using assms(4) w [of False] w [of True] kb vb(1) h
    by (auto simp: kv_put_def kv_put_sync_def rocks_put_def rocks_put_sync_def)
  moreover have "same_except (sc_cf_name sc) (contents db) (contents db')" by (simp add: c same_except_def)
  ultimately show ?thesis using kv_view_write(1,3) [OF assms(2) kb vb] by (simp add: c)
qed

lemmas kv_put_eq = kv_put_both [OF _ _ _ disjI1 [OF refl]]
lemmas kv_put_sync_eq = kv_put_both [OF _ _ _ disjI2 [OF refl]]

lemma kv_remove_eq:
  assumes "rocks_contract rk cfs contents" and "schema_ok sc norm" and "sc_cf_name sc \<in> cfs"
  shows "\<exists>db'. kv_remove rk sc k db = (Inr (), db') \<and>
    kv_view sc (contents db') = (kv_view sc (contents db))(k := None) \<and>
    (kv_clean sc (contents db) \<longrightarrow> kv_clean sc (contents db')) \<and>
    same_except (sc_cf_name sc) (contents db) (contents db')"
proof -
  obtain kb where kb: "sc_key_to_bytes sc k = Inr kb" by (rule schema_key [OF assms(2)])
  obtain v vb where vb: "sc_value_to_bytes sc v = Inr vb" "sc_value_from_bytes sc vb = Inr (norm v)"
    using schema_value [OF assms(2)] by blast
  have h: "get_cf_handle rk db (sc_cf_name sc) = Inr ()"
    using assms(1,3) by (simp add: get_cf_handle_def rocks_contract_def)
  obtain db' where "rk_delete_cf rk (sc_cf_name sc) kb db = (Inr (), db')"
    and c: "contents db' = apply_write (contents db) (sc_cf_name sc, kb, Deletion)"
    using assms(1,3) unfolding rocks_contract_def by blast
  moreover have "same_except (sc_cf_name sc) (contents db) (contents db')" by (simp add: c same_except_def)
  ultimately show ?thesis
    using kv_view_write(2,4) [OF assms(2) kb vb] kb h by (auto simp: kv_remove_def rocks_remove_def c)
qed

section \<open>Batches on the typed view\<close>

fun apply_op :: "('v \<Rightarrow> 'v) \<Rightarrow> ('k \<rightharpoonup> 'v) \<Rightarrow> 'k \<times> 'v WriteOp \<Rightarrow> 'k \<rightharpoonup> 'v" where
  "apply_op norm m (k, Value v) = m(k \<mapsto> norm v)"
| "apply_op norm m (k, Deletion) = m(k := None)"

lemma batch_encode:
  assumes "schema_ok sc norm"
  shows "\<exists>out. try_map (\<lambda>(key, op).
        and_then (unwrap (sc_key_to_bytes sc key)) (\<lambda>kb.
        and_then (unwrap (into_raw_op sc op)) (\<lambda>ob. Inr (kb, ob)))) rows = Inr out \<and>
    (\<forall>m. let m' = foldl apply_write m (map (\<lambda>(key, op). (sc_cf_name sc, key, op)) out) in
       kv_view sc m' = foldl (apply_op norm) (kv_view sc m) rows \<and>
       (kv_clean sc m \<longrightarrow> kv_clean sc m') \<and> same_except (sc_cf_name sc) m m')"
proof (induction rows)
  case Nil
  then show ?case by (simp add: same_except_def)
next
  case (Cons r rows)
  obtain k op where r: "r = (k, op)" by fastforce
  obtain kb where kb: "sc_key_to_bytes sc k = Inr kb" by (rule schema_key [OF assms])
  have "\<exists>ob. into_raw_op sc op = Inr ob \<and> (\<forall>m. let m1 = apply_write m (sc_cf_name sc, kb, ob) in
      kv_view sc m1 = apply_op norm (kv_view sc m) (k, op) \<and> (kv_clean sc m \<longrightarrow> kv_clean sc m1) \<and>
      same_except (sc_cf_name sc) m m1)"
  proof (cases op)
    case (Value v)
    obtain vb where "sc_value_to_bytes sc v = Inr vb" "sc_value_from_bytes sc vb = Inr (norm v)"
      by (rule schema_value [OF assms])
    then show ?thesis using kv_view_write(1,3) [OF assms kb] Value
      by (simp add: into_raw_op_def Let_def) (simp add: same_except_def)
  next
    case Deletion
    obtain v vb where "sc_value_to_bytes sc v = Inr vb" "sc_value_from_bytes sc vb = Inr (norm v)"
      using schema_value [OF assms] by blast
    then show ?thesis using kv_view_write(2,4) [OF assms kb] Deletion
      by (simp add: into_raw_op_def Let_def) (simp add: same_except_def)
  qed
  then obtain ob where ob: "into_raw_op sc op = Inr ob"
    "\<And>m. kv_view sc (apply_write m (sc_cf_name sc, kb, ob)) = apply_op norm (kv_view sc m) (k, op)"
    "\<And>m. kv_clean sc m \<Longrightarrow> kv_clean sc (apply_write m (sc_cf_name sc, kb, ob))"
    "\<And>m. same_except (sc_cf_name sc) m (apply_write m (sc_cf_name sc, kb, ob))" by (auto simp: Let_def)
  obtain out where out: "try_map (\<lambda>(key, op).
        and_then (unwrap (sc_key_to_bytes sc key)) (\<lambda>kb.
        and_then (unwrap (into_raw_op sc op)) (\<lambda>ob. Inr (kb, ob)))) rows = Inr out"
    "\<And>m. kv_view sc (foldl apply_write m (map (\<lambda>(key, op). (sc_cf_name sc, key, op)) out)) = foldl (apply_op norm) (kv_view sc m) rows"
    "\<And>m. kv_clean sc m \<Longrightarrow> kv_clean sc (foldl apply_write m (map (\<lambda>(key, op). (sc_cf_name sc, key, op)) out))"
    "\<And>m. same_except (sc_cf_name sc) m (foldl apply_write m (map (\<lambda>(key, op). (sc_cf_name sc, key, op)) out))"
    using Cons.IH by (auto simp: Let_def)
  have "same_except (sc_cf_name sc) m (foldl apply_write (apply_write m (sc_cf_name sc, kb, ob)) (map (\<lambda>(key, op). (sc_cf_name sc, key, op)) out))" for m
    using ob(4) [of m] out(4) [of "apply_write m (sc_cf_name sc, kb, ob)"] by (simp add: same_except_def)
  with r kb ob out show ?case by (simp add: unwrap_def Let_def)
qed

lemma kv_write_batch_eq:
  assumes "rocks_contract rk cfs contents" and "schema_ok sc norm" and "sc_cf_name sc \<in> cfs"
  shows "\<exists>db'. kv_write_batch rk sc batch db = (Inr (), db') \<and>
    kv_view sc (contents db') = foldl (apply_op norm) (kv_view sc (contents db)) (cb_rows batch) \<and>
    (kv_clean sc (contents db) \<longrightarrow> kv_clean sc (contents db')) \<and>
    same_except (sc_cf_name sc) (contents db) (contents db')"
proof -
  obtain out where out: "try_map (\<lambda>(key, op).
        and_then (unwrap (sc_key_to_bytes sc key)) (\<lambda>kb.
        and_then (unwrap (into_raw_op sc op)) (\<lambda>ob. Inr (kb, ob)))) (cb_rows batch) = Inr out"
    and sem: "\<And>m. let m' = foldl apply_write m (map (\<lambda>(key, op). (sc_cf_name sc, key, op)) out) in
       kv_view sc m' = foldl (apply_op norm) (kv_view sc m) (cb_rows batch) \<and>
       (kv_clean sc m \<longrightarrow> kv_clean sc m') \<and> same_except (sc_cf_name sc) m m'"
    using batch_encode [OF assms(2)] by blast
  have h: "get_cf_handle rk db (sc_cf_name sc) = Inr ()"
    using assms(1,3) by (simp add: get_cf_handle_def rocks_contract_def)
  let ?ws = "map (\<lambda>(key, op). (sc_cf_name sc, key, op)) out"
  have "fst ` set ?ws \<subseteq> cfs" using assms(3) by auto
  then obtain db' where "rk_write_opt rk False ?ws db = (Inr (), db')" and c: "contents db' = foldl apply_write (contents db) ?ws"
    using assms(1) unfolding rocks_contract_def by blast
  then have "kv_write_batch rk sc batch db = (Inr (), db')"
    using out h by (simp add: kv_write_batch_def batch_try_from_def rocks_write_batch_def new_with_rows_def)
  then show ?thesis using sem [of "contents db"] by (simp add: c Let_def)
qed

lemma foldl_puts: "foldl (apply_op norm) m (map (\<lambda>(k, v). (k, Value v)) kvs) = foldl (\<lambda>m (k, v). m(k \<mapsto> norm v)) m kvs"
  by (induction kvs arbitrary: m) auto

lemma foldl_deletes: "foldl (apply_op norm) m (map (\<lambda>k. (k, Deletion)) ks) = (\<lambda>k. if k \<in> set ks then None else m k)"
  by (induction ks arbitrary: m) auto

lemma multiple_get_eq:
  assumes "rocks_contract rk cfs contents" and "schema_ok sc norm" and "sc_cf_name sc \<in> cfs"
    and "kv_clean sc (contents db)"
  shows "kv_multiple_get rk sc db ks = Inr (map (kv_view sc (contents db)) ks)"
proof -
  define f where "f k = (case sc_key_to_bytes sc k of Inr b \<Rightarrow> b | Inl _ \<Rightarrow> [])" for k
  have enc: "sc_key_to_bytes sc k = Inr (f k)" for k using schema_key [OF assms(2), of k] by (metis f_def sum.case(2))
  have "try_map (sc_key_to_bytes sc) ks = Inr (map f ks)" by (rule try_map_eq_map) (rule enc)
  moreover have "rocks_multi_get rk db (sc_cf_name sc) (map f ks) = Inr (map (contents db (sc_cf_name sc)) (map f ks))"
  proof -
    have "rk_multi_get_cf rk db (map (Pair (sc_cf_name sc)) (map f ks)) = map (\<lambda>(cf, k). Inr (contents db cf k)) (map (Pair (sc_cf_name sc)) (map f ks))"
    proof -
      have "fst ` set (map (Pair (sc_cf_name sc)) (map f ks)) \<subseteq> cfs" using assms(3) by auto
      then show ?thesis using assms(1) unfolding rocks_contract_def by blast
    qed
    moreover have "try_map (\<lambda>item. item) (map (\<lambda>k. Inr (contents db (sc_cf_name sc) (f k))) ks) = Inr (map (\<lambda>k. contents db (sc_cf_name sc) (f k)) ks)"
      by (induction ks) auto
    ultimately show ?thesis using assms(1,3) by (simp add: rocks_multi_get_def get_cf_handle_def rocks_contract_def comp_def)
  qed
  moreover have "kv_decode sc (contents db (sc_cf_name sc) (f k)) = Inr (kv_view sc (contents db) k)" for k
    using assms(4) enc [of k] by (cases "contents db (sc_cf_name sc) (f k)") (force simp: kv_decode_def kv_view_def kv_clean_def)+
  then have "try_map (kv_decode sc) (map (contents db (sc_cf_name sc)) (map f ks)) = Inr (map (kv_view sc (contents db)) ks)"
    by (induction ks) auto
  ultimately show ?thesis by (simp add: kv_multiple_get_def)
qed

section \<open>A database that satisfies the contract\<close>

definition map_rocks :: "db_contents rocks_ops" where
  "map_rocks =
     \<lparr>rk_cf_handle = \<lambda>_ _. True, rk_get_cf = \<lambda>db cf k. Inr (db cf k),
      rk_put_cf_opt = \<lambda>_ cf k v. modify_act (\<lambda>db. apply_write db (cf, k, Value v)),
      rk_delete_cf = \<lambda>cf k. modify_act (\<lambda>db. apply_write db (cf, k, Deletion)),
      rk_write_opt = \<lambda>_ ws. modify_act (\<lambda>db. foldl apply_write db ws),
      rk_multi_get_cf = \<lambda>db. map (\<lambda>(cf, k). Inr (db cf k))\<rparr>"

lemma map_rocks_contract: "rocks_contract map_rocks cfs (\<lambda>db. db)"
  by (simp add: rocks_contract_def map_rocks_def modify_act_def)

end
