(* ===== verification/Rooch_Store.thy ===== *)
theory Rooch_Store
  imports Raw_Store Accumulator_Refinement
begin

text \<open>
  The ledger's data and its database: the transactions the sequencer orders
  (\<^verbatim>\<open>rooch-types/src/transaction\<close>), the summary it keeps (\<^verbatim>\<open>sequencer.rs\<close>), and the stores of
  \<^verbatim>\<open>rooch-store\<close> over one shared database: sequencer info, transactions by hash, hashes by order,
  and the nodes of the transaction accumulator. Move actions and authenticators are type parameters,
  BCS encodings are arguments.
\<close>

section \<open>Ledger transactions\<close>

record MultiChainID =
  mc_id :: u64

type_synonym RoochAddress = H256

record L1Block =
  lb_chain_id :: MultiChainID
  lb_block_height :: u64
  lb_block_hash :: bytes

record L1Transaction =
  lt_chain_id :: MultiChainID
  lt_block_hash :: bytes
  lt_txid :: bytes

record 'act RoochTransactionData =
  td_sender :: RoochAddress
  td_sequence_number :: u64
  td_chain_id :: u64
  td_max_gas_amount :: u64
  td_action :: 'act

record ('act, 'auth) RoochTransaction =
  rt_data :: "'act RoochTransactionData"
  rt_authenticator :: 'auth
  rt_data_hash :: "H256 option"

datatype ('act, 'auth) LedgerTxData =
    LedgerL1Block L1Block
  | LedgerL1Tx L1Transaction
  | LedgerL2Tx "('act, 'auth) RoochTransaction"

text \<open>The hash function and the encodings of the hashed structures.\<close>

record 'act tx_env =
  te_sha3 :: hasher
  te_encode_l1_block :: "L1Block \<Rightarrow> bytes result"
  te_encode_l1_tx :: "L1Transaction \<Rightarrow> bytes result"
  te_encode_tx_data :: "'act RoochTransactionData \<Rightarrow> bytes result"

text \<open>\<^verbatim>\<open>Result::expect\<close>.\<close>

definition expect_ok :: "'a result \<Rightarrow> string \<Rightarrow> 'a result" where
  "expect_ok r msg = (case r of Inl (Fail _) \<Rightarrow> Inl (Panic msg) | _ \<Rightarrow> r)"

definition l1_block_tx_hash :: "('act, 'x) tx_env_scheme \<Rightarrow> L1Block \<Rightarrow> H256 result" where
  "l1_block_tx_hash env block =
     and_then (expect_ok (te_encode_l1_block env block) ''encode transaction should success'') (\<lambda>bs. Inr (te_sha3 env bs))"

definition l1_tx_hash :: "('act, 'x) tx_env_scheme \<Rightarrow> L1Transaction \<Rightarrow> H256 result" where
  "l1_tx_hash env tx =
     and_then (expect_ok (te_encode_l1_tx env tx) ''encode transaction should success'') (\<lambda>bs. Inr (te_sha3 env bs))"

definition tx_data_hash :: "('act, 'x) tx_env_scheme \<Rightarrow> 'act RoochTransactionData \<Rightarrow> H256 result" where
  "tx_data_hash env d =
     and_then (expect_ok (te_encode_tx_data env d) ''encode transaction should success'') (\<lambda>bs. Inr (te_sha3 env bs))"

text \<open>The hash of an L2 transaction is computed once and kept in the transaction.\<close>

definition rooch_tx_hash :: "('act, 'x) tx_env_scheme \<Rightarrow> (('act, 'auth) RoochTransaction, H256) action" where
  "rooch_tx_hash env tx =
     (case rt_data_hash tx of
        Some hash \<Rightarrow> (Inr hash, tx)
      | None \<Rightarrow>
          (case tx_data_hash env (rt_data tx) of
             Inl e \<Rightarrow> (Inl e, tx)
           | Inr hash \<Rightarrow> (Inr hash, tx\<lparr>rt_data_hash := Some hash\<rparr>)))"

fun ledger_tx_hash :: "('act, 'x) tx_env_scheme \<Rightarrow> (('act, 'auth) LedgerTxData, H256) action" where
  "ledger_tx_hash env (LedgerL1Block block) = (l1_block_tx_hash env block, LedgerL1Block block)"
| "ledger_tx_hash env (LedgerL2Tx tx) = map_prod id LedgerL2Tx (rooch_tx_hash env tx)"
| "ledger_tx_hash env (LedgerL1Tx tx) = (l1_tx_hash env tx, LedgerL1Tx tx)"

fun ledger_sender :: "('act, 'auth) LedgerTxData \<Rightarrow> RoochAddress option" where
  "ledger_sender (LedgerL1Block _) = None"
| "ledger_sender (LedgerL2Tx tx) = Some (td_sender (rt_data tx))"
| "ledger_sender (LedgerL1Tx _) = None"

fun is_l1_block :: "('act, 'auth) LedgerTxData \<Rightarrow> bool" where
  "is_l1_block (LedgerL1Block _) = True"
| "is_l1_block _ = False"

fun is_l1_tx :: "('act, 'auth) LedgerTxData \<Rightarrow> bool" where
  "is_l1_tx (LedgerL1Tx _) = True"
| "is_l1_tx _ = False"

fun is_l2_tx :: "('act, 'auth) LedgerTxData \<Rightarrow> bool" where
  "is_l2_tx (LedgerL2Tx _) = True"
| "is_l2_tx _ = False"

record TransactionSequenceInfo =
  si_tx_order :: u64
  si_tx_order_signature :: bytes
  si_tx_accumulator_root :: H256
  si_tx_timestamp :: u64
  si_tx_accumulator_frozen_subtree_roots :: "H256 list"
  si_tx_accumulator_num_leaves :: u64
  si_tx_accumulator_num_nodes :: u64

definition sequence_info_new :: "u64 \<Rightarrow> bytes \<Rightarrow> AccumulatorInfo \<Rightarrow> u64 \<Rightarrow> TransactionSequenceInfo" where
  "sequence_info_new tx_order tx_order_signature tx_accumulator_info tx_timestamp =
     \<lparr>si_tx_order = tx_order, si_tx_order_signature = tx_order_signature,
      si_tx_accumulator_root = ai_accumulator_root tx_accumulator_info,
      si_tx_timestamp = tx_timestamp,
      si_tx_accumulator_frozen_subtree_roots = ai_frozen_subtree_roots tx_accumulator_info,
      si_tx_accumulator_num_leaves = ai_num_leaves tx_accumulator_info,
      si_tx_accumulator_num_nodes = ai_num_nodes tx_accumulator_info\<rparr>"

definition tx_accumulator_info :: "TransactionSequenceInfo \<Rightarrow> AccumulatorInfo" where
  "tx_accumulator_info si =
     \<lparr>ai_accumulator_root = si_tx_accumulator_root si,
      ai_frozen_subtree_roots = si_tx_accumulator_frozen_subtree_roots si,
      ai_num_leaves = si_tx_accumulator_num_leaves si, ai_num_nodes = si_tx_accumulator_num_nodes si\<rparr>"

record ('act, 'auth) LedgerTransaction =
  ltx_data :: "('act, 'auth) LedgerTxData"
  ltx_sequence_info :: TransactionSequenceInfo

definition ledger_transaction_new ::
    "('act, 'auth) LedgerTxData \<Rightarrow> TransactionSequenceInfo \<Rightarrow> ('act, 'auth) LedgerTransaction" where
  "ledger_transaction_new data sequence_info = \<lparr>ltx_data = data, ltx_sequence_info = sequence_info\<rparr>"

definition ledger_transaction_hash ::
    "('act, 'x) tx_env_scheme \<Rightarrow> (('act, 'auth) LedgerTransaction, H256) action" where
  "ledger_transaction_hash env tx =
     (case ledger_tx_hash env (ltx_data tx) of (r, d) \<Rightarrow> (r, tx\<lparr>ltx_data := d\<rparr>))"

definition build_ledger_transaction ::
    "('act, 'auth) LedgerTxData \<Rightarrow> u64 \<Rightarrow> u64 \<Rightarrow> bytes \<Rightarrow> AccumulatorInfo \<Rightarrow> ('act, 'auth) LedgerTransaction" where
  "build_ledger_transaction tx_data tx_timestamp tx_order tx_order_signature info =
     ledger_transaction_new tx_data (sequence_info_new tx_order tx_order_signature info tx_timestamp)"

record SequencerInfo =
  sqi_last_order :: u64
  sqi_last_accumulator_info :: AccumulatorInfo

definition sequencer_info_new :: "u64 \<Rightarrow> AccumulatorInfo \<Rightarrow> SequencerInfo" where
  "sequencer_info_new last_order last_accumulator_info =
     \<lparr>sqi_last_order = last_order, sqi_last_accumulator_info = last_accumulator_info\<rparr>"

section \<open>The stores\<close>

definition TRANSACTION_COLUMN_FAMILY_NAME :: ColumnFamilyName where
  "TRANSACTION_COLUMN_FAMILY_NAME = ''transaction''"

definition TX_SEQUENCE_INFO_MAPPING_COLUMN_FAMILY_NAME :: ColumnFamilyName where
  "TX_SEQUENCE_INFO_MAPPING_COLUMN_FAMILY_NAME = ''tx_sequence_info_mapping''"

definition META_SEQUENCER_INFO_COLUMN_FAMILY_NAME :: ColumnFamilyName where
  "META_SEQUENCER_INFO_COLUMN_FAMILY_NAME = ''meta_sequencer_info''"

definition TX_ACCUMULATOR_NODE_COLUMN_FAMILY_NAME :: ColumnFamilyName where
  "TX_ACCUMULATOR_NODE_COLUMN_FAMILY_NAME = ''transaction_acc_node''"

definition VEC_COLUMN_FAMILY_NAME :: "ColumnFamilyName list" where
  "VEC_COLUMN_FAMILY_NAME =
     [TRANSACTION_COLUMN_FAMILY_NAME, TX_SEQUENCE_INFO_MAPPING_COLUMN_FAMILY_NAME,
      META_SEQUENCER_INFO_COLUMN_FAMILY_NAME, TX_ACCUMULATOR_NODE_COLUMN_FAMILY_NAME]"

definition SEQUENCER_INFO_KEY :: string where
  "SEQUENCER_INFO_KEY = ''sequencer_info''"

record ('db, 'act, 'auth) store_env = "'act tx_env" +
  st_rocks :: "'db rocks_ops"
  st_sequencer_info_codec :: "(string, SequencerInfo) bcs_codec"
  st_tx_codec :: "(H256, ('act, 'auth) LedgerTransaction) bcs_codec"
  st_mapping_codec :: "(u64, H256) bcs_codec"
  st_node_codec :: "(H256, AccumulatorNode) bcs_codec"

definition SequencerInfoStore :: "('db, 'act, 'auth, 'x) store_env_scheme \<Rightarrow> (string, SequencerInfo) schema" where
  "SequencerInfoStore env = derive_store META_SEQUENCER_INFO_COLUMN_FAMILY_NAME (st_sequencer_info_codec env)"

definition LedgerTransactionStore ::
    "('db, 'act, 'auth, 'x) store_env_scheme \<Rightarrow> (H256, ('act, 'auth) LedgerTransaction) schema" where
  "LedgerTransactionStore env = derive_store TRANSACTION_COLUMN_FAMILY_NAME (st_tx_codec env)"

definition TxSequenceInfoMappingStore :: "('db, 'act, 'auth, 'x) store_env_scheme \<Rightarrow> (u64, H256) schema" where
  "TxSequenceInfoMappingStore env = derive_store TX_SEQUENCE_INFO_MAPPING_COLUMN_FAMILY_NAME (st_mapping_codec env)"

definition TransactionAccumulatorStore :: "('db, 'act, 'auth, 'x) store_env_scheme \<Rightarrow> (H256, AccumulatorNode) schema" where
  "TransactionAccumulatorStore env = derive_store TX_ACCUMULATOR_NODE_COLUMN_FAMILY_NAME (st_node_codec env)"

text \<open>\<^verbatim>\<open>MetaDBStore\<close>.\<close>

definition get_sequencer_info :: "('db, 'act, 'auth, 'x) store_env_scheme \<Rightarrow> 'db \<Rightarrow> SequencerInfo option result" where
  "get_sequencer_info env db = kv_get (st_rocks env) (SequencerInfoStore env) db SEQUENCER_INFO_KEY"

definition inner_save_sequencer_info ::
    "('db, 'act, 'auth, 'x) store_env_scheme \<Rightarrow> SequencerInfo \<Rightarrow> bool \<Rightarrow> ('db, unit) action" where
  "inner_save_sequencer_info env sequencer_info need_check db =
     bind_act
       (lift_act
         (if need_check then
            and_then (get_sequencer_info env db) (\<lambda>pre.
            case pre of
              None \<Rightarrow> Inr ()
            | Some pre_sequencer_info \<Rightarrow>
                and_then (checked_add (sqi_last_order pre_sequencer_info) 1) (\<lambda>next.
                ensure_that (sqi_last_order sequencer_info = next) ''Sequencer order is not continuous''))
          else Inr ())) (\<lambda>_.
     kv_put_sync (st_rocks env) (SequencerInfoStore env) SEQUENCER_INFO_KEY sequencer_info) db"

definition save_sequencer_info :: "('db, 'act, 'auth, 'x) store_env_scheme \<Rightarrow> SequencerInfo \<Rightarrow> ('db, unit) action" where
  "save_sequencer_info env sequencer_info = inner_save_sequencer_info env sequencer_info True"

definition save_sequencer_info_ignore_check ::
    "('db, 'act, 'auth, 'x) store_env_scheme \<Rightarrow> SequencerInfo \<Rightarrow> ('db, unit) action" where
  "save_sequencer_info_ignore_check env sequencer_info = inner_save_sequencer_info env sequencer_info False"

text \<open>\<^verbatim>\<open>TransactionDBStore\<close>.\<close>

definition save_transaction ::
    "('db, 'act, 'auth, 'x) store_env_scheme \<Rightarrow> ('act, 'auth) LedgerTransaction \<Rightarrow> ('db, unit) action" where
  "save_transaction env transaction =
     (case ledger_transaction_hash env transaction of
        (r, transaction') \<Rightarrow>
          bind_act (lift_act r) (\<lambda>tx_hash.
          let tx_order = si_tx_order (ltx_sequence_info transaction') in
          bind_act (kv_put (st_rocks env) (LedgerTransactionStore env) tx_hash transaction') (\<lambda>_.
          kv_put (st_rocks env) (TxSequenceInfoMappingStore env) tx_order tx_hash)))"

definition remove_transaction :: "('db, 'act, 'auth, 'x) store_env_scheme \<Rightarrow> H256 \<Rightarrow> u64 \<Rightarrow> ('db, unit) action" where
  "remove_transaction env tx_hash tx_order =
     bind_act (kv_remove (st_rocks env) (LedgerTransactionStore env) tx_hash) (\<lambda>_.
     kv_remove (st_rocks env) (TxSequenceInfoMappingStore env) tx_order)"

definition get_transaction_by_hash ::
    "('db, 'act, 'auth, 'x) store_env_scheme \<Rightarrow> 'db \<Rightarrow> H256 \<Rightarrow> ('act, 'auth) LedgerTransaction option result" where
  "get_transaction_by_hash env db hash = kv_get (st_rocks env) (LedgerTransactionStore env) db hash"

definition get_transactions ::
    "('db, 'act, 'auth, 'x) store_env_scheme \<Rightarrow> 'db \<Rightarrow> H256 list \<Rightarrow> ('act, 'auth) LedgerTransaction option list result" where
  "get_transactions env db tx_hashes = kv_multiple_get (st_rocks env) (LedgerTransactionStore env) db tx_hashes"

definition get_tx_hashs :: "('db, 'act, 'auth, 'x) store_env_scheme \<Rightarrow> 'db \<Rightarrow> u64 list \<Rightarrow> H256 option list result" where
  "get_tx_hashs env db tx_orders = kv_multiple_get (st_rocks env) (TxSequenceInfoMappingStore env) db tx_orders"

text \<open>The end of the range is computed first, on checked arithmetic.\<close>

definition get_tx_hashs_by_order ::
    "('db, 'act, 'auth, 'x) store_env_scheme \<Rightarrow> 'db \<Rightarrow> u64 option \<Rightarrow> u64 \<Rightarrow> H256 option list result" where
  "get_tx_hashs_by_order env db cursor limit =
     (let start = (case cursor of None \<Rightarrow> 0 | Some c \<Rightarrow> c) in
      and_then (checked_add start limit) (\<lambda>past.
      and_then
        (if cursor \<noteq> None
         then and_then (checked_add start 1) (\<lambda>first. Inr (map word_of_nat [unat first..<Suc (unat past)]))
         else Inr (map word_of_nat [unat start..<unat past])) (\<lambda>tx_orders.
      get_tx_hashs env db tx_orders)))"

text \<open>\<^verbatim>\<open>AccumulatorStore\<close>: the node store of the transaction accumulator.\<close>

definition accumulator_db_store :: "('db, 'act, 'auth, 'x) store_env_scheme \<Rightarrow> 'db AccumulatorTreeStore" where
  "accumulator_db_store env =
     \<lparr>ts_get_node = kv_get (st_rocks env) (TransactionAccumulatorStore env),
      ts_save_node = (\<lambda>node. kv_put (st_rocks env) (TransactionAccumulatorStore env) (node_hash (te_sha3 env) node) node),
      ts_save_nodes = (\<lambda>nodes. kv_put_all (st_rocks env) (TransactionAccumulatorStore env)
         (map (\<lambda>node. (node_hash (te_sha3 env) node, node)) nodes)),
      ts_delete_nodes = kv_delete_all (st_rocks env) (TransactionAccumulatorStore env)\<rparr>"

section \<open>What the code relies on\<close>

text \<open>The hash cached in an L2 transaction is not serialized.\<close>

fun forget_hash :: "('act, 'auth) LedgerTxData \<Rightarrow> ('act, 'auth) LedgerTxData" where
  "forget_hash (LedgerL2Tx tx) = LedgerL2Tx (tx\<lparr>rt_data_hash := None\<rparr>)"
| "forget_hash d = d"

definition stored_tx :: "('act, 'auth) LedgerTransaction \<Rightarrow> ('act, 'auth) LedgerTransaction" where
  "stored_tx tx = tx\<lparr>ltx_data := forget_hash (ltx_data tx)\<rparr>"

definition codecs_ok :: "('db, 'act, 'auth, 'x) store_env_scheme \<Rightarrow> bool" where
  "codecs_ok env \<longleftrightarrow>
     schema_ok (SequencerInfoStore env) id \<and> schema_ok (LedgerTransactionStore env) stored_tx \<and>
     schema_ok (TxSequenceInfoMappingStore env) id \<and> schema_ok (TransactionAccumulatorStore env) id"

definition store_ok :: "('db, 'act, 'auth, 'x) store_env_scheme \<Rightarrow> ('db \<Rightarrow> db_contents) \<Rightarrow> bool" where
  "store_ok env contents \<longleftrightarrow> rocks_contract (st_rocks env) (set VEC_COLUMN_FAMILY_NAME) contents \<and> codecs_ok env"

lemma store_cf_names [simp]:
  "sc_cf_name (SequencerInfoStore env) = META_SEQUENCER_INFO_COLUMN_FAMILY_NAME"
  "sc_cf_name (LedgerTransactionStore env) = TRANSACTION_COLUMN_FAMILY_NAME"
  "sc_cf_name (TxSequenceInfoMappingStore env) = TX_SEQUENCE_INFO_MAPPING_COLUMN_FAMILY_NAME"
  "sc_cf_name (TransactionAccumulatorStore env) = TX_ACCUMULATOR_NODE_COLUMN_FAMILY_NAME"
  by (simp_all add: SequencerInfoStore_def LedgerTransactionStore_def TxSequenceInfoMappingStore_def
      TransactionAccumulatorStore_def derive_store_def)

lemma cf_members [simp]:
  "META_SEQUENCER_INFO_COLUMN_FAMILY_NAME \<in> set VEC_COLUMN_FAMILY_NAME"
  "TRANSACTION_COLUMN_FAMILY_NAME \<in> set VEC_COLUMN_FAMILY_NAME"
  "TX_SEQUENCE_INFO_MAPPING_COLUMN_FAMILY_NAME \<in> set VEC_COLUMN_FAMILY_NAME"
  "TX_ACCUMULATOR_NODE_COLUMN_FAMILY_NAME \<in> set VEC_COLUMN_FAMILY_NAME"
  by (simp_all add: VEC_COLUMN_FAMILY_NAME_def)

lemma cf_distinct [simp]: "distinct VEC_COLUMN_FAMILY_NAME"
  by code_simp

lemma cf_different [simp]:
  "META_SEQUENCER_INFO_COLUMN_FAMILY_NAME \<noteq> TRANSACTION_COLUMN_FAMILY_NAME"
  "META_SEQUENCER_INFO_COLUMN_FAMILY_NAME \<noteq> TX_SEQUENCE_INFO_MAPPING_COLUMN_FAMILY_NAME"
  "META_SEQUENCER_INFO_COLUMN_FAMILY_NAME \<noteq> TX_ACCUMULATOR_NODE_COLUMN_FAMILY_NAME"
  "TRANSACTION_COLUMN_FAMILY_NAME \<noteq> TX_SEQUENCE_INFO_MAPPING_COLUMN_FAMILY_NAME"
  "TRANSACTION_COLUMN_FAMILY_NAME \<noteq> TX_ACCUMULATOR_NODE_COLUMN_FAMILY_NAME"
  "TX_SEQUENCE_INFO_MAPPING_COLUMN_FAMILY_NAME \<noteq> TX_ACCUMULATOR_NODE_COLUMN_FAMILY_NAME"
  "TRANSACTION_COLUMN_FAMILY_NAME \<noteq> META_SEQUENCER_INFO_COLUMN_FAMILY_NAME"
  "TX_SEQUENCE_INFO_MAPPING_COLUMN_FAMILY_NAME \<noteq> META_SEQUENCER_INFO_COLUMN_FAMILY_NAME"
  "TX_ACCUMULATOR_NODE_COLUMN_FAMILY_NAME \<noteq> META_SEQUENCER_INFO_COLUMN_FAMILY_NAME"
  "TX_SEQUENCE_INFO_MAPPING_COLUMN_FAMILY_NAME \<noteq> TRANSACTION_COLUMN_FAMILY_NAME"
  "TX_ACCUMULATOR_NODE_COLUMN_FAMILY_NAME \<noteq> TRANSACTION_COLUMN_FAMILY_NAME"
  "TX_ACCUMULATOR_NODE_COLUMN_FAMILY_NAME \<noteq> TX_SEQUENCE_INFO_MAPPING_COLUMN_FAMILY_NAME"
  using cf_distinct unfolding VEC_COLUMN_FAMILY_NAME_def by auto

lemma store_okD:
  assumes "store_ok env contents"
  shows "rocks_contract (st_rocks env) (set VEC_COLUMN_FAMILY_NAME) contents"
    and "schema_ok (SequencerInfoStore env) id" and "schema_ok (LedgerTransactionStore env) stored_tx"
    and "schema_ok (TxSequenceInfoMappingStore env) id" and "schema_ok (TransactionAccumulatorStore env) id"
  using assms by (simp_all add: store_ok_def codecs_ok_def)

section \<open>The node store keeps the contract of the accumulator\<close>

text \<open>Saving nodes also leaves the other column families as they are.\<close>

lemma save_nodes_db:
  assumes "store_ok env contents"
  shows "\<exists>db'. ts_save_nodes (accumulator_db_store env) ns db = (Inr (), db') \<and>
    kv_view (TransactionAccumulatorStore env) (contents db') =
      insert_nodes (te_sha3 env) (kv_view (TransactionAccumulatorStore env) (contents db)) ns \<and>
    (kv_clean (TransactionAccumulatorStore env) (contents db) \<longrightarrow> kv_clean (TransactionAccumulatorStore env) (contents db')) \<and>
    same_except TX_ACCUMULATOR_NODE_COLUMN_FAMILY_NAME (contents db) (contents db')"
proof -
  note w = kv_write_batch_eq [OF store_okD(1,5) [OF assms], simplified]
  have "foldl (apply_op id) m (map (\<lambda>(k, v). (k, Value v)) (map (\<lambda>node. (node_hash (te_sha3 env) node, node)) ns)) =
      insert_nodes (te_sha3 env) m ns" for m
    unfolding foldl_puts by (induction ns arbitrary: m) simp_all
  then show ?thesis
    using w [of "new_puts (map (\<lambda>node. (node_hash (te_sha3 env) node, node)) ns)" db]
    by (simp add: accumulator_db_store_def kv_put_all_def new_puts_def)
qed

lemma db_accumulator_store:
  assumes "store_ok env contents"
  shows "accumulator_store (te_sha3 env) (accumulator_db_store env) (\<lambda>db. kv_view (TransactionAccumulatorStore env) (contents db))"
proof
  let ?sc = "TransactionAccumulatorStore env"
  note ok = store_okD [OF assms]
  show "ts_get_node (accumulator_db_store env) s h = Inr (Some n)" if v: "kv_view ?sc (contents s) h = Some n" for s h n
  proof -
    obtain kb where kb: "sc_key_to_bytes ?sc h = Inr kb" by (rule schema_key [OF ok(5)])
    then obtain bs where bs: "contents s (sc_cf_name ?sc) kb = Some bs"
      using v by (cases "contents s (sc_cf_name ?sc) kb") (simp_all add: kv_view_def)
    then have "sc_value_from_bytes ?sc bs = Inr n"
      using v kb by (cases "sc_value_from_bytes ?sc bs") (simp_all add: kv_view_def)
    with kb bs show ?thesis using ok(1)
      by (simp add: accumulator_db_store_def kv_get_def rocks_get_def get_cf_handle_def rocks_contract_def kv_decode_def)
  qed
  show "\<exists>s'. ts_save_node (accumulator_db_store env) n s = (Inr (), s') \<and>
      kv_view ?sc (contents s') = insert_nodes (te_sha3 env) (kv_view ?sc (contents s)) [n]" for n s
    using kv_put_eq [OF ok(1,5), of "node_hash (te_sha3 env) n" n s] by (auto simp: accumulator_db_store_def)
  show "\<exists>s'. ts_save_nodes (accumulator_db_store env) ns s = (Inr (), s') \<and>
      kv_view ?sc (contents s') = insert_nodes (te_sha3 env) (kv_view ?sc (contents s)) ns" for ns s
    using save_nodes_db [OF assms, of ns s] by blast
  show "\<exists>s'. ts_delete_nodes (accumulator_db_store env) hs s = (Inr (), s') \<and>
      kv_view ?sc (contents s') = (\<lambda>h. if h \<in> set hs then None else kv_view ?sc (contents s) h)" for hs s
    using kv_write_batch_eq [OF ok(1,5), of "new_deletes hs" s] foldl_deletes [of id]
    by (auto simp: accumulator_db_store_def kv_delete_all_def new_deletes_def)
qed

end
