(* ===== verification/Rooch_Sequencer.thy ===== *)
theory Rooch_Sequencer
  imports Rooch_Store Le_Bytes
begin

text \<open>
  The sequencer (\<^verbatim>\<open>rooch-sequencer\<close>): the actor that gives each transaction its order, appends its
  hash to the transaction accumulator and stores it; the first transaction, which genesis writes
  (\<^verbatim>\<open>rooch-genesis\<close>), and the command that takes the last transaction back (\<^verbatim>\<open>revert_tx.rs\<close>). The
  accumulator and the stores of the actor work on one database, the field \<open>at_store\<close> of the
  accumulator. Timers and log lines have no effect on results and are left out.
\<close>

section \<open>State\<close>

datatype ServiceStatus = Active | Maintenance | ReadOnlyMode | DateImportMode

record ('c, 'db) SequencerActor =
  sq_last_sequencer_info :: SequencerInfo
  sq_tx_accumulator :: "('c, 'db) AccumulatorTree"
  sq_service_status :: ServiceStatus

text \<open>The sequencer's key is the pair of its signing function and its address.\<close>

record ('c, 'db, 'act, 'auth) seq_env = "('db, 'act, 'auth) store_env" +
  se_lru :: "'c lru_ops"
  se_sign :: "bytes \<Rightarrow> bytes"
  se_rooch_address :: "RoochAddress result"

definition acc_env :: "('c, 'db, 'act, 'auth, 'x) seq_env_scheme \<Rightarrow> ('c, 'db) env" where
  "acc_env env = \<lparr>env_sha3 = te_sha3 env, env_lru = se_lru env, env_store = accumulator_db_store env\<rparr>"

text \<open>The database behind the accumulator and the stores.\<close>

definition sq_db :: "('c, 'db) SequencerActor \<Rightarrow> 'db" where
  "sq_db s = at_store (sq_tx_accumulator s)"

definition on_store :: "('db, 'a) action \<Rightarrow> (('c, 'db) AccumulatorTree, 'a) action" where
  "on_store m t = (case m (at_store t) of (r, db') \<Rightarrow> (r, t\<lparr>at_store := db'\<rparr>))"

definition on_acc :: "(('c, 'db) AccumulatorTree, 'a) action \<Rightarrow> (('c, 'db) SequencerActor, 'a) action" where
  "on_acc m s = (case m (sq_tx_accumulator s) of (r, t') \<Rightarrow> (r, s\<lparr>sq_tx_accumulator := t'\<rparr>))"

definition on_db :: "('db, 'a) action \<Rightarrow> (('c, 'db) SequencerActor, 'a) action" where
  "on_db m = on_acc (on_store m)"

section \<open>The actor\<close>

definition sequencer_new ::
    "('c, 'db, 'act, 'auth, 'x) seq_env_scheme \<Rightarrow> ServiceStatus \<Rightarrow> 'db \<Rightarrow> ('c, 'db) SequencerActor result" where
  "sequencer_new env service_status db =
     and_then (get_sequencer_info env db) (\<lambda>info.
     and_then (ok_or info ''Load sequencer info failed'') (\<lambda>last_sequencer_info.
     and_then (accumulator_new_with_info (acc_env env) (sqi_last_accumulator_info last_sequencer_info) db) (\<lambda>tx_accumulator.
     Inr \<lparr>sq_last_sequencer_info = last_sequencer_info, sq_tx_accumulator = tx_accumulator,
          sq_service_status = service_status\<rparr>)))"

definition last_order :: "('c, 'db) SequencerActor \<Rightarrow> u64" where
  "last_order s = sqi_last_order (sq_last_sequencer_info s)"

text \<open>The guard at the head of \<^verbatim>\<open>sequence\<close>.\<close>

definition check_status ::
    "('c, 'db, 'act, 'auth, 'x) seq_env_scheme \<Rightarrow> ServiceStatus \<Rightarrow> ('act, 'auth) LedgerTxData \<Rightarrow> unit result" where
  "check_status env service_status tx_data =
     (case service_status of
        ReadOnlyMode \<Rightarrow> Inl (Fail ''The service is in read-only mode'')
      | DateImportMode \<Rightarrow>
          if \<not> is_l1_block tx_data \<and> \<not> is_l1_tx tx_data
          then Inl (Fail ''The service is in date import mode, only allow l1 block and l1 tx'')
          else Inr ()
      | Maintenance \<Rightarrow>
          (case ledger_sender tx_data of
             Some sender \<Rightarrow>
               and_then (se_rooch_address env) (\<lambda>addr.
               if sender \<noteq> addr then Inl (Fail ''The service is in maintenance mode'') else Inr ())
           | None \<Rightarrow> Inl (Fail ''The service is in maintenance mode''))
      | Active \<Rightarrow> Inr ())"

text \<open>
  \<open>now\<close> is the clock in milliseconds since the epoch, \<open>None\<close> when it is before the epoch; the cast
  to \<^verbatim>\<open>u64\<close> truncates.
\<close>

definition millis_now :: "nat option \<Rightarrow> u64 result" where
  "millis_now now =
     (case now of Some ms \<Rightarrow> Inr (word_of_nat ms) | None \<Rightarrow> Inl (Fail ''second time provided was later than self''))"

definition sequence ::
    "('c, 'db, 'act, 'auth, 'x) seq_env_scheme \<Rightarrow> nat option \<Rightarrow> ('act, 'auth) LedgerTxData \<Rightarrow>
     (('c, 'db) SequencerActor, ('act, 'auth) LedgerTransaction) action" where
  "sequence env now tx_data =
     bind_act (get_act sq_service_status) (\<lambda>service_status.
     bind_act (lift_act (check_status env service_status tx_data)) (\<lambda>_.
     bind_act (lift_act (millis_now now)) (\<lambda>tx_timestamp.
     bind_act (get_act last_order) (\<lambda>order.
     bind_act (lift_act (checked_add order 1)) (\<lambda>tx_order.
     case ledger_tx_hash env tx_data of (hashed, tx_data') \<Rightarrow>
     bind_act (lift_act hashed) (\<lambda>hash.
     let witness_hash = te_sha3 env (hash @ to_le_bytes 8 tx_order);
         tx_order_signature = se_sign env witness_hash in
     bind_act (on_acc (tree_append (acc_env env) [hash])) (\<lambda>_.
     bind_act (on_acc (tree_flush (acc_env env))) (\<lambda>_.
     bind_act (get_act (\<lambda>s. accumulator_get_info (sq_tx_accumulator s))) (\<lambda>info.
     let tx = build_ledger_transaction tx_data' tx_timestamp tx_order tx_order_signature info;
         sequencer_info = sequencer_info_new (si_tx_order (ltx_sequence_info tx)) info in
     bind_act (on_db (save_sequencer_info env sequencer_info)) (\<lambda>_.
     bind_act (on_db (save_transaction env tx)) (\<lambda>_.
     bind_act (modify_act (\<lambda>s. s\<lparr>sq_last_sequencer_info := sequencer_info\<rparr>)) (\<lambda>_.
     return_act tx))))))))))))"

text \<open>The handlers that only read.\<close>

definition handle_get_transaction_by_hash ::
    "('c, 'db, 'act, 'auth, 'x) seq_env_scheme \<Rightarrow> ('c, 'db) SequencerActor \<Rightarrow> H256 \<Rightarrow>
     ('act, 'auth) LedgerTransaction option result" where
  "handle_get_transaction_by_hash env s hash = get_transaction_by_hash env (sq_db s) hash"

definition handle_get_transactions_by_hash ::
    "('c, 'db, 'act, 'auth, 'x) seq_env_scheme \<Rightarrow> ('c, 'db) SequencerActor \<Rightarrow> H256 list \<Rightarrow>
     ('act, 'auth) LedgerTransaction option list result" where
  "handle_get_transactions_by_hash env s tx_hashes = get_transactions env (sq_db s) tx_hashes"

definition handle_get_tx_hashs ::
    "('c, 'db, 'act, 'auth, 'x) seq_env_scheme \<Rightarrow> ('c, 'db) SequencerActor \<Rightarrow> u64 list \<Rightarrow> H256 option list result" where
  "handle_get_tx_hashs env s tx_orders = get_tx_hashs env (sq_db s) tx_orders"

definition handle_get_sequencer_order :: "('c, 'db) SequencerActor \<Rightarrow> u64 result" where
  "handle_get_sequencer_order s = Inr (last_order s)"

section \<open>The first and the last transaction\<close>

text \<open>The part of genesis that writes the first transaction to the ledger.\<close>

definition genesis_sequence ::
    "('c, 'db, 'act, 'auth, 'x) seq_env_scheme \<Rightarrow> u64 \<Rightarrow> ('act, 'auth) RoochTransaction \<Rightarrow> 'db \<Rightarrow>
     ('act, 'auth) LedgerTransaction result \<times> 'db" where
  "genesis_sequence env timestamp genesis_tx db =
     (let tx_ledger_data = LedgerL2Tx genesis_tx in
      case accumulator_new_with_info (acc_env env) accumulator_info_default db of
        Inl e \<Rightarrow> (Inl e, db)
      | Inr acc \<Rightarrow>
          map_prod id at_store
            (bind_act (lift_act (fst (ledger_tx_hash env tx_ledger_data))) (\<lambda>hash.
             bind_act (tree_append (acc_env env) [hash]) (\<lambda>_.
             bind_act (tree_flush (acc_env env)) (\<lambda>_.
             bind_act (get_act accumulator_get_info) (\<lambda>info.
             let ledger_tx = build_ledger_transaction tx_ledger_data timestamp 0 [] info in
             bind_act (on_store (save_sequencer_info env (sequencer_info_new 0 info))) (\<lambda>_.
             bind_act (on_store (save_transaction env ledger_tx)) (\<lambda>_.
             return_act ledger_tx)))))) acc))"

text \<open>
  The outcome of \<^verbatim>\<open>revert_tx\<close> is \<open>False\<close> when it returns early because the transaction is missing.
  \<open>execution_info\<close> is the lookup of the transaction's execution info in the MoveOS store.
\<close>

definition first_some :: "'a option list \<Rightarrow> string \<Rightarrow> 'a result" where
  "first_some xs msg = (case xs of Some x # _ \<Rightarrow> Inr x | _ \<Rightarrow> Inl (Fail msg))"

definition revert_tx ::
    "('c, 'db, 'act, 'auth, 'x) seq_env_scheme \<Rightarrow> (H256 \<Rightarrow> 'info option result) \<Rightarrow> u64 \<Rightarrow> ('db, bool) action" where
  "revert_tx env execution_info tx_order db =
     bind_act (lift_act (and_then (get_sequencer_info env db) (\<lambda>i. ok_or i ''Load sequencer info failed''))) (\<lambda>last_info.
     bind_act (lift_act (and_then (get_tx_hashs env db [tx_order])
        (\<lambda>hs. first_some hs ''tx hash not exist via tx order''))) (\<lambda>tx_hash.
     bind_act (lift_act (get_transaction_by_hash env db tx_hash)) (\<lambda>ledger_tx_opt.
     case ledger_tx_opt of
       None \<Rightarrow> return_act False
     | Some ledger_tx \<Rightarrow>
         let order = si_tx_order (ltx_sequence_info ledger_tx) in
         bind_act (lift_act (ensure_that (order = sqi_last_order last_info)
           ''the last order not match current sequencer info tx order'')) (\<lambda>_.
         bind_act (lift_act (execution_info tx_hash)) (\<lambda>info.
         bind_act (lift_act (ensure_that (info = None) ''the tx execution info already exist via tx_hash'')) (\<lambda>_.
         bind_act (lift_act (checked_sub (sqi_last_order last_info) 1)) (\<lambda>previous_tx_order.
         bind_act (lift_act (and_then (get_tx_hashs env db [previous_tx_order])
            (\<lambda>hs. first_some hs ''the previous tx hash not exist''))) (\<lambda>previous_tx_hash.
         bind_act (lift_act (and_then (get_transaction_by_hash env db previous_tx_hash)
            (\<lambda>tx. ok_or tx ''the previous ledger tx not exist via tx_hash''))) (\<lambda>previous_ledger_tx.
         bind_act (save_sequencer_info_ignore_check env
            (sequencer_info_new previous_tx_order (tx_accumulator_info (ltx_sequence_info previous_ledger_tx)))) (\<lambda>_.
         bind_act (remove_transaction env tx_hash order) (\<lambda>_.
         return_act True))))))))))) db"

end
