(* ===== verification/Sequencer_Refinement.thy ===== *)
theory Sequencer_Refinement
  imports Rooch_Sequencer
begin

text \<open>
  The sequencer implements an append-only log of transactions: \<open>db_repr\<close> relates a database to the
  log it stores, \<open>seq_inv\<close> the running actor. Sequencing appends to the log, restarting and reverting
  act on it as they should, and a transaction is found by order and by hash.
\<close>

section \<open>The log behind the database\<close>

type_synonym ('act, 'auth) ledger_log = "(H256 \<times> ('act, 'auth) LedgerTransaction) list"

definition summary :: "hasher \<Rightarrow> H256 list \<Rightarrow> AccumulatorInfo" where
  "summary sha3 ls =
     \<lparr>ai_accumulator_root = merkle_root sha3 ls, ai_frozen_subtree_roots = frozen_roots sha3 ls,
      ai_num_leaves = word_of_nat (length ls), ai_num_nodes = word_of_nat (node_count (length ls))\<rparr>"

definition last_info :: "hasher \<Rightarrow> ('act, 'auth) ledger_log \<Rightarrow> SequencerInfo" where
  "last_info sha3 log = sequencer_info_new (word_of_nat (length log - 1)) (summary sha3 (map fst log))"

definition entry_ok :: "hasher \<Rightarrow> ('act, 'auth) ledger_log \<Rightarrow> nat \<Rightarrow> bool" where
  "entry_ok sha3 log i \<longleftrightarrow>
     si_tx_order (ltx_sequence_info (snd (log ! i))) = word_of_nat i \<and>
     tx_accumulator_info (ltx_sequence_info (snd (log ! i))) = summary sha3 (take (Suc i) (map fst log))"

definition stores_clean :: "('db, 'act, 'auth, 'x) store_env_scheme \<Rightarrow> db_contents \<Rightarrow> bool" where
  "stores_clean env m \<longleftrightarrow>
     kv_clean (SequencerInfoStore env) m \<and> kv_clean (LedgerTransactionStore env) m \<and>
     kv_clean (TxSequenceInfoMappingStore env) m \<and> kv_clean (TransactionAccumulatorStore env) m"

definition order_view :: "('act, 'auth) ledger_log \<Rightarrow> u64 \<rightharpoonup> H256" where
  "order_view log k = (if unat k < length log then Some (fst (log ! unat k)) else None)"

definition db_repr ::
    "('db, 'act, 'auth, 'x) store_env_scheme \<Rightarrow> ('db \<Rightarrow> db_contents) \<Rightarrow> 'db \<Rightarrow> ('act, 'auth) ledger_log \<Rightarrow> bool" where
  "db_repr env contents db log \<longleftrightarrow>
     log \<noteq> [] \<and> length log \<le> 2 ^ 63 \<and> collision_free (te_sha3 env) (map fst log) \<and>
     (\<forall>i < length log. entry_ok (te_sha3 env) log i) \<and>
     stores_clean env (contents db) \<and>
     kv_view (SequencerInfoStore env) (contents db) SEQUENCER_INFO_KEY = Some (last_info (te_sha3 env) log) \<and>
     kv_view (LedgerTransactionStore env) (contents db) = map_of log \<and>
     kv_view (TxSequenceInfoMappingStore env) (contents db) = order_view log \<and>
     nodes_ok (te_sha3 env) (map fst log) (kv_view (TransactionAccumulatorStore env) (contents db))"

abbreviation node_view :: "('db, 'act, 'auth, 'x) store_env_scheme \<Rightarrow> ('db \<Rightarrow> db_contents) \<Rightarrow> 'db \<Rightarrow> H256 \<rightharpoonup> AccumulatorNode" where
  "node_view env contents db \<equiv> kv_view (TransactionAccumulatorStore env) (contents db)"

definition seq_inv ::
    "('c, 'db, 'act, 'auth, 'x) seq_env_scheme \<Rightarrow> ('db \<Rightarrow> db_contents) \<Rightarrow> ('c, 'db) SequencerActor \<Rightarrow>
     ('act, 'auth) ledger_log \<Rightarrow> bool" where
  "seq_inv env contents s log \<longleftrightarrow>
     db_repr env contents (sq_db s) log \<and>
     acc_inv (te_sha3 env) (se_lru env) (node_view env contents) (sq_tx_accumulator s) (map fst log) \<and>
     at_update_nodes (sq_tx_accumulator s) = [] \<and>
     sq_last_sequencer_info s = last_info (te_sha3 env) log"

lemma acc_env_sel [simp]:
  "env_sha3 (acc_env env) = te_sha3 env" "env_lru (acc_env env) = se_lru env"
  "env_store (acc_env env) = accumulator_db_store env"
  by (simp_all add: acc_env_def)

lemma get_info_summary: "tree_core sha3 t ls \<Longrightarrow> accumulator_get_info t = summary sha3 ls"
  by (simp add: accumulator_get_info_def summary_def tree_core_def)

lemma ledger_tx_hash_again:
  "ledger_tx_hash env d = (Inr h, d') \<Longrightarrow> ledger_tx_hash env d' = (Inr h, d')"
  by (cases d) (auto simp: rooch_tx_hash_def split: option.splits sum.splits)

lemma tx_info_build:
  "ltx_sequence_info (build_ledger_transaction d ts ord sg info) = sequence_info_new ord sg info ts"
  "tx_accumulator_info (sequence_info_new ord sg info ts) = info"
  "si_tx_order (sequence_info_new ord sg info ts) = ord"
  by (simp_all add: build_ledger_transaction_def ledger_transaction_new_def sequence_info_new_def tx_accumulator_info_def)

lemma stored_tx_info [simp]: "ltx_sequence_info (stored_tx tx) = ltx_sequence_info tx"
  by (simp add: stored_tx_def)

lemma subtree_hash_leaf: "p < length ls \<Longrightarrow> subtree_hash sha3 ls 0 p = ls ! p"
  by simp

lemma collision_free_distinct:
  assumes "collision_free sha3 ls"
  shows "distinct ls"
  unfolding distinct_conv_nth
proof (intro allI impI notI)
  fix i j assume ij: "i < length ls" "j < length ls" "i \<noteq> j" "ls ! i = ls ! j"
  then have "in_tree (length ls) 0 i" "in_tree (length ls) 0 j" by (simp_all add: in_tree_def)
  from collision_freeD(2) [OF assms this] ij show False by (simp add: subtree_hash_leaf)
qed

section \<open>Appending to the accumulator in the database\<close>

lemma append_flush_db:
  assumes ok: "store_ok env contents" and lru: "lru_contract (se_lru env)"
    and inv: "acc_inv (te_sha3 env) (se_lru env) (node_view env contents) t ls" and upd: "at_update_nodes t = []"
    and len: "length ls < 2 ^ 63" and cf: "collision_free (te_sha3 env) (ls @ [h])"
    and cl: "kv_clean (TransactionAccumulatorStore env) (contents (at_store t))"
  shows "\<exists>t1 t2 nodes. tree_append (acc_env env) [h] t = (Inr (merkle_root (te_sha3 env) (ls @ [h])), t1) \<and>
    tree_flush (acc_env env) t1 = (Inr (), t2) \<and>
    acc_inv (te_sha3 env) (se_lru env) (node_view env contents) t2 (ls @ [h]) \<and> at_update_nodes t2 = [] \<and>
    same_except TX_ACCUMULATOR_NODE_COLUMN_FAMILY_NAME (contents (at_store t)) (contents (at_store t2)) \<and>
    kv_clean (TransactionAccumulatorStore env) (contents (at_store t2)) \<and>
    set nodes = fresh_nodes (te_sha3 env) (ls @ [h]) (length ls) \<and>
    node_view env contents (at_store t2) = insert_nodes (te_sha3 env) (node_view env contents (at_store t)) nodes"
proof -
  note acc = db_accumulator_store [OF ok]
  let ?e = "acc_env env" and ?sha3 = "te_sha3 env"
  have core: "tree_core (env_sha3 ?e) t ls" using inv by (simp add: acc_inv_def)
  obtain t1 nodes where ap: "tree_append ?e [h] t = (Inr (merkle_root ?sha3 (ls @ [h])), t1)"
    and nodes: "set nodes = fresh_nodes ?sha3 (ls @ [h]) (length ls)" and st: "at_store t1 = at_store t"
    and up1: "at_update_nodes t1 = at_update_nodes (snd (update_temp_nodes ?sha3 nodes t))"
    using tree_append_eq [OF core, of "[h]"] len by auto
  have inv1: "acc_inv ?sha3 (se_lru env) (node_view env contents) t1 (ls @ [h])"
    using accumulator_store.append_keeps [OF acc, of ?e t ls "[h]"] inv lru len cf ap by auto
  have found: "found_nodes (node_view env contents) t1 = insert_nodes ?sha3 (node_view env contents (at_store t)) nodes"
    using accumulator_store.update_fold [OF acc, of "[]" nodes]
      accumulator_store.insert_nodes_map_add [OF acc, of "node_view env contents (at_store t)" Map.empty nodes]
    by (simp add: found_nodes_def st up1 update_temp_nodes_def upd)
  obtain t2 where fl: "tree_flush ?e t1 = (Inr (), t2)"
    and inv2: "acc_inv ?sha3 (se_lru env) (node_view env contents) t2 (ls @ [h])" "at_update_nodes t2 = []"
    and v2: "node_view env contents (at_store t2) = found_nodes (node_view env contents) t1"
    using accumulator_store.flush_keeps [OF acc inv1, of ?e] by auto
  have "same_except TX_ACCUMULATOR_NODE_COLUMN_FAMILY_NAME (contents (at_store t)) (contents (at_store t2)) \<and>
      kv_clean (TransactionAccumulatorStore env) (contents (at_store t2))"
  proof (cases "at_update_nodes t1 = []")
    case True
    with fl have "t2 = t1" by (simp add: tree_flush_def)
    with cl show ?thesis by (simp add: st same_except_def)
  next
    case False
    then show ?thesis
      using fl save_nodes_db [OF ok, of "map snd (at_update_nodes t1)" "at_store t1"] cl st
      by (auto simp: tree_flush_def)
  qed
  with ap fl inv2 nodes v2 found show ?thesis by metis
qed

section \<open>The stores of the ledger\<close>

lemma save_sequencer_info_eq:
  assumes ok: "store_ok env contents" and clean: "kv_clean (SequencerInfoStore env) (contents db)"
    and chk: "chk \<Longrightarrow> (\<forall>pre. kv_view (SequencerInfoStore env) (contents db) SEQUENCER_INFO_KEY = Some pre \<longrightarrow>
      checked_add (sqi_last_order pre) 1 = Inr (sqi_last_order info))"
  shows "\<exists>db'. inner_save_sequencer_info env info chk db = (Inr (), db') \<and>
    kv_view (SequencerInfoStore env) (contents db') = (kv_view (SequencerInfoStore env) (contents db))(SEQUENCER_INFO_KEY \<mapsto> info) \<and>
    kv_clean (SequencerInfoStore env) (contents db') \<and>
    same_except META_SEQUENCER_INFO_COLUMN_FAMILY_NAME (contents db) (contents db')"
proof -
  note okd = store_okD [OF ok]
  have get: "get_sequencer_info env db = Inr (kv_view (SequencerInfoStore env) (contents db) SEQUENCER_INFO_KEY)"
    unfolding get_sequencer_info_def by (rule kv_get_eq [OF okd(1,2) _ clean]) simp
  have "inner_save_sequencer_info env info chk db = kv_put_sync (st_rocks env) (SequencerInfoStore env) SEQUENCER_INFO_KEY info db"
    using chk get by (auto simp: inner_save_sequencer_info_def split: option.split)
  then show ?thesis using kv_put_sync_eq [OF okd(1,2), of SEQUENCER_INFO_KEY info db] clean by auto
qed

lemma forget_hash_hashed: "ledger_tx_hash env d = (r, d') \<Longrightarrow> forget_hash d' = forget_hash d"
  by (cases d) (auto simp: rooch_tx_hash_def split: option.splits sum.splits)

lemma save_transaction_eq:
  assumes ok: "store_ok env contents" and hash: "fst (ledger_tx_hash env (ltx_data tx)) = Inr h"
    and clean: "stores_clean env (contents db)"
  shows "\<exists>db'. save_transaction env tx db = (Inr (), db') \<and> stores_clean env (contents db') \<and>
    kv_view (LedgerTransactionStore env) (contents db') = (kv_view (LedgerTransactionStore env) (contents db))(h \<mapsto> stored_tx tx) \<and>
    kv_view (TxSequenceInfoMappingStore env) (contents db') =
      (kv_view (TxSequenceInfoMappingStore env) (contents db))(si_tx_order (ltx_sequence_info tx) \<mapsto> h) \<and>
    kv_view (SequencerInfoStore env) (contents db') = kv_view (SequencerInfoStore env) (contents db) \<and>
    node_view env contents db' = node_view env contents db"
proof -
  note okd = store_okD [OF ok]
  obtain d' where d': "ledger_tx_hash env (ltx_data tx) = (Inr h, d')" using hash by (metis prod.collapse)
  let ?tx = "tx\<lparr>ltx_data := d'\<rparr>"
  have stored: "stored_tx ?tx = stored_tx tx" using forget_hash_hashed [OF d'] by (simp add: stored_tx_def)
  obtain db1 where p1: "kv_put (st_rocks env) (LedgerTransactionStore env) h ?tx db = (Inr (), db1)"
    and v1: "kv_view (LedgerTransactionStore env) (contents db1) = (kv_view (LedgerTransactionStore env) (contents db))(h \<mapsto> stored_tx tx)"
    and c1: "kv_clean (LedgerTransactionStore env) (contents db1)"
    and s1: "same_except TRANSACTION_COLUMN_FAMILY_NAME (contents db) (contents db1)"
    using kv_put_eq [OF okd(1,3), of h ?tx db] clean by (auto simp: stores_clean_def stored)
  note f1 = same_except_view [OF s1]
  obtain db2 where p2: "kv_put (st_rocks env) (TxSequenceInfoMappingStore env) (si_tx_order (ltx_sequence_info tx)) h db1 = (Inr (), db2)"
    and v2: "kv_view (TxSequenceInfoMappingStore env) (contents db2) =
      (kv_view (TxSequenceInfoMappingStore env) (contents db1))(si_tx_order (ltx_sequence_info tx) \<mapsto> h)"
    and c2: "kv_clean (TxSequenceInfoMappingStore env) (contents db2)"
    and s2: "same_except TX_SEQUENCE_INFO_MAPPING_COLUMN_FAMILY_NAME (contents db1) (contents db2)"
    using kv_put_eq [OF okd(1,4), of "si_tx_order (ltx_sequence_info tx)" h db1] clean
    by (auto simp: stores_clean_def f1)
  note f2 = same_except_view [OF s2]
  have "save_transaction env tx db = (Inr (), db2)"
    using d' p1 p2 by (simp add: save_transaction_def ledger_transaction_hash_def Let_def)
  then show ?thesis using v1 v2 c1 c2 clean by (simp add: stores_clean_def f1 f2)
qed

section \<open>Extending the log\<close>

text \<open>The transaction \<^verbatim>\<open>sequence\<close> builds after the log \<open>log\<close>.\<close>

definition sequenced_tx ::
    "('c, 'db, 'act, 'auth, 'x) seq_env_scheme \<Rightarrow> nat \<Rightarrow> ('act, 'auth) LedgerTxData \<Rightarrow> H256 \<Rightarrow>
     ('act, 'auth) ledger_log \<Rightarrow> ('act, 'auth) LedgerTransaction" where
  "sequenced_tx env ms d h log =
     (let order = word_of_nat (length log) :: u64 in
      build_ledger_transaction d (word_of_nat ms) order
        (se_sign env (te_sha3 env (h @ to_le_bytes 8 order))) (summary (te_sha3 env) (map fst log @ [h])))"

lemma entry_ok_append:
  assumes "i < length log"
  shows "entry_ok sha3 (log @ [x]) i \<longleftrightarrow> entry_ok sha3 log i"
  using assms by (simp add: entry_ok_def nth_append)

lemma entry_ok_last:
  "entry_ok (te_sha3 env) (log @ [(h, stored_tx (sequenced_tx env ms d h log))]) (length log)"
  by (simp add: entry_ok_def nth_append sequenced_tx_def Let_def tx_info_build)

lemma order_view_append:
  assumes "length log < 2 ^ 63"
  shows "order_view (log @ [(h, tx)]) = (order_view log)(word_of_nat (length log) \<mapsto> h)"
proof
  fix k :: u64
  have lenw: "unat (word_of_nat (length log) :: u64) = length log" using assms by (simp add: unat_of_nat)
  have "unat k = length log \<longleftrightarrow> k = word_of_nat (length log)"
    using lenw by (auto simp: word_unat_eq_iff)
  then show "order_view (log @ [(h, tx)]) k = ((order_view log)(word_of_nat (length log) \<mapsto> h)) k"
    by (auto simp: order_view_def nth_append)
qed

lemma map_of_snoc: "k \<notin> fst ` set kvs \<Longrightarrow> map_of (kvs @ [(k, v)]) = (map_of kvs)(k \<mapsto> v)"
  by (induction kvs) (auto simp: fun_eq_iff)

lemma order_succ:
  assumes "length log < 2 ^ 63" and "log \<noteq> []"
  shows "checked_add (word_of_nat (length log - 1) :: u64) 1 = Inr (word_of_nat (length log))"
proof -
  have "unat (word_of_nat (length log - 1) :: u64) = length log - 1"
    using assms by (simp add: unat_of_nat)
  moreover have "(word_of_nat (length log - 1) :: u64) + 1 = word_of_nat (length log)"
    using assms(2) by (cases "length log") simp_all
  ultimately show ?thesis using assms by (simp add: checked_add_def)
qed

lemma acc_inv_store:
  assumes "acc_inv sha3 lru view t ls" and "view db = view (at_store t)"
  shows "acc_inv sha3 lru view (t\<lparr>at_store := db\<rparr>) ls"
  using assms by (simp add: acc_inv_def tree_core_def keyed_nodes_def found_nodes_def)

text \<open>
  A run of \<^verbatim>\<open>sequence\<close> from any accumulator over the leaves \<open>ls\<close> and the order \<open>order\<close>.
\<close>

definition ran_tx ::
    "('c, 'db, 'act, 'auth, 'x) seq_env_scheme \<Rightarrow> nat \<Rightarrow> ('act, 'auth) LedgerTxData \<Rightarrow> H256 \<Rightarrow> u64 \<Rightarrow> H256 list \<Rightarrow>
     ('act, 'auth) LedgerTransaction" where
  "ran_tx env ms d h order ls =
     build_ledger_transaction d (word_of_nat ms) order (se_sign env (te_sha3 env (h @ to_le_bytes 8 order))) (summary (te_sha3 env) (ls @ [h]))"

lemma ran_tx_sequenced: "ran_tx env ms d h (word_of_nat (length log)) (map fst log) = sequenced_tx env ms d h log"
  by (simp add: ran_tx_def sequenced_tx_def Let_def)

lemma ran_tx_sel:
  "ltx_data (ran_tx env ms d h order ls) = d" "si_tx_order (ltx_sequence_info (ran_tx env ms d h order ls)) = order"
  "tx_accumulator_info (ltx_sequence_info (ran_tx env ms d h order ls)) = summary (te_sha3 env) (ls @ [h])"
  by (simp_all add: ran_tx_def tx_info_build build_ledger_transaction_def ledger_transaction_new_def)

lemma sequence_run:
  assumes ok: "store_ok env contents" and lru: "lru_contract (se_lru env)"
    and acc: "acc_inv (te_sha3 env) (se_lru env) (node_view env contents) (sq_tx_accumulator s) ls" "at_update_nodes (sq_tx_accumulator s) = []"
    and clean: "stores_clean env (contents (sq_db s))"
    and pre: "kv_view (SequencerInfoStore env) (contents (sq_db s)) SEQUENCER_INFO_KEY = Some pre" "sqi_last_order pre = last_order s"
    and order: "checked_add (last_order s) 1 = Inr order"
    and chk: "check_status env (sq_service_status s) d = Inr ()" and hash: "ledger_tx_hash env d = (Inr h, d')"
    and len: "length ls < 2 ^ 63" and cf: "collision_free (te_sha3 env) (ls @ [h])"
    and tx: "tx = ran_tx env ms d' h order ls"
  shows "\<exists>s'. sequence env (Some ms) d s = (Inr tx, s') \<and> sq_service_status s' = sq_service_status s \<and>
    acc_inv (te_sha3 env) (se_lru env) (node_view env contents) (sq_tx_accumulator s') (ls @ [h]) \<and>
    at_update_nodes (sq_tx_accumulator s') = [] \<and> stores_clean env (contents (sq_db s')) \<and>
    sq_last_sequencer_info s' = sequencer_info_new order (summary (te_sha3 env) (ls @ [h])) \<and>
    kv_view (SequencerInfoStore env) (contents (sq_db s')) SEQUENCER_INFO_KEY = Some (sq_last_sequencer_info s') \<and>
    kv_view (LedgerTransactionStore env) (contents (sq_db s')) =
      (kv_view (LedgerTransactionStore env) (contents (sq_db s)))(h \<mapsto> stored_tx tx) \<and>
    kv_view (TxSequenceInfoMappingStore env) (contents (sq_db s')) =
      (kv_view (TxSequenceInfoMappingStore env) (contents (sq_db s)))(order \<mapsto> h) \<and>
    (\<exists>nodes. set nodes = fresh_nodes (te_sha3 env) (ls @ [h]) (length ls) \<and>
       node_view env contents (sq_db s') = insert_nodes (te_sha3 env) (node_view env contents (sq_db s)) nodes)"
proof -
  let ?sha3 = "te_sha3 env" and ?info = "sequencer_info_new order (summary (te_sha3 env) (ls @ [h]))"
  obtain t1 t2 nodes where ap: "tree_append (acc_env env) [h] (sq_tx_accumulator s) = (Inr (merkle_root ?sha3 (ls @ [h])), t1)"
    and fl: "tree_flush (acc_env env) t1 = (Inr (), t2)"
    and acc2: "acc_inv ?sha3 (se_lru env) (node_view env contents) t2 (ls @ [h])" and upd: "at_update_nodes t2 = []"
    and same: "same_except TX_ACCUMULATOR_NODE_COLUMN_FAMILY_NAME (contents (sq_db s)) (contents (at_store t2))"
    and clean2: "kv_clean (TransactionAccumulatorStore env) (contents (at_store t2))"
    and nodes: "set nodes = fresh_nodes ?sha3 (ls @ [h]) (length ls)"
      "node_view env contents (at_store t2) = insert_nodes ?sha3 (node_view env contents (sq_db s)) nodes"
    using append_flush_db [OF ok lru acc len cf] clean by (auto simp: stores_clean_def sq_db_def)
  note f0 = same_except_view [OF same]
  have info: "accumulator_get_info t2 = summary ?sha3 (ls @ [h])" using acc2 by (simp add: acc_inv_def get_info_summary)
  have clean1: "stores_clean env (contents (at_store t2))" using clean clean2 by (simp add: stores_clean_def f0)
  obtain db3 where sv: "save_sequencer_info env ?info (at_store t2) = (Inr (), db3)"
    and v3: "kv_view (SequencerInfoStore env) (contents db3) = (kv_view (SequencerInfoStore env) (contents (at_store t2)))(SEQUENCER_INFO_KEY \<mapsto> ?info)"
    and c3: "kv_clean (SequencerInfoStore env) (contents db3)"
    and s3: "same_except META_SEQUENCER_INFO_COLUMN_FAMILY_NAME (contents (at_store t2)) (contents db3)"
    using save_sequencer_info_eq [OF ok, of "at_store t2" True ?info] clean1 pre order
    by (auto simp: stores_clean_def f0 save_sequencer_info_def sequencer_info_new_def)
  note f3 = same_except_view [OF s3]
  have clean3: "stores_clean env (contents db3)" using clean1 c3 by (simp add: stores_clean_def f3)
  obtain db4 where st: "save_transaction env tx db3 = (Inr (), db4)" and clean4: "stores_clean env (contents db4)"
    and v4: "kv_view (LedgerTransactionStore env) (contents db4) = (kv_view (LedgerTransactionStore env) (contents db3))(h \<mapsto> stored_tx tx)"
      "kv_view (TxSequenceInfoMappingStore env) (contents db4) = (kv_view (TxSequenceInfoMappingStore env) (contents db3))(order \<mapsto> h)"
      "kv_view (SequencerInfoStore env) (contents db4) = kv_view (SequencerInfoStore env) (contents db3)"
      "node_view env contents db4 = node_view env contents db3"
    using save_transaction_eq [OF ok _ clean3, of tx h] ledger_tx_hash_again [OF hash] by (auto simp: tx ran_tx_sel)
  define s' where "s' = s\<lparr>sq_tx_accumulator := t2\<lparr>at_store := db4\<rparr>, sq_last_sequencer_info := ?info\<rparr>"
  have built: "build_ledger_transaction d' (word_of_nat ms) order (se_sign env (?sha3 (h @ to_le_bytes 8 order))) (accumulator_get_info t2) = tx"
    by (simp add: tx ran_tx_def info)
  have "sequencer_info_new (si_tx_order (ltx_sequence_info tx)) (accumulator_get_info t2) = ?info" by (simp add: tx ran_tx_sel info)
  with built have run: "sequence env (Some ms) d s = (Inr tx, s')"
    using ap fl sv st
    by (simp add: sequence_def chk millis_now_def order hash on_acc_def on_db_def on_store_def Let_def s'_def return_act_def)
  have nv: "node_view env contents db4 = node_view env contents (at_store t2)" by (simp add: v4 f3)
  have "acc_inv ?sha3 (se_lru env) (node_view env contents) (t2\<lparr>at_store := db4\<rparr>) (ls @ [h])" by (rule acc_inv_store [OF acc2 nv])
  then show ?thesis
    using run upd clean4 nodes(1) nodes(2) [folded nv] v3
    by (intro exI [of _ s'] conjI exI [of _ nodes]) (simp_all add: s'_def sq_db_def v4(1-3) f3 f0)
qed

lemma sequence_steps:
  assumes ok: "store_ok env contents" and lru: "lru_contract (se_lru env)"
    and inv: "seq_inv env contents s log"
    and chk: "check_status env (sq_service_status s) d = Inr ()"
    and hash: "ledger_tx_hash env d = (Inr h, d')"
    and len: "length log < 2 ^ 63" and cf: "collision_free (te_sha3 env) (map fst log @ [h])"
  shows "\<exists>s'. sequence env (Some ms) d s = (Inr (sequenced_tx env ms d' h log), s') \<and>
    seq_inv env contents s' (log @ [(h, stored_tx (sequenced_tx env ms d' h log))]) \<and>
    sq_service_status s' = sq_service_status s \<and>
    (\<exists>nodes. set nodes = fresh_nodes (te_sha3 env) (map fst log @ [h]) (length log) \<and>
       node_view env contents (sq_db s') = insert_nodes (te_sha3 env) (node_view env contents (sq_db s)) nodes)"
proof -
  let ?sha3 = "te_sha3 env" and ?tx = "sequenced_tx env ms d' h log" and ?log = "log @ [(h, stored_tx (sequenced_tx env ms d' h log))]"
  note inv' = inv [unfolded seq_inv_def db_repr_def]
  have acc: "acc_inv ?sha3 (se_lru env) (node_view env contents) (sq_tx_accumulator s) (map fst log)" "at_update_nodes (sq_tx_accumulator s) = []"
    and ne: "log \<noteq> []" and clean: "stores_clean env (contents (sq_db s))"
    and pre: "kv_view (SequencerInfoStore env) (contents (sq_db s)) SEQUENCER_INFO_KEY = Some (last_info ?sha3 log)"
      "sqi_last_order (last_info ?sha3 log) = last_order s"
    using inv' by (auto simp: last_order_def)
  have order: "checked_add (last_order s) 1 = Inr (word_of_nat (length log))"
    using inv' order_succ [OF len ne] by (simp add: last_order_def last_info_def sequencer_info_new_def)
  have len': "length (map fst log) < 2 ^ 63" using len by simp
  from sequence_run [OF ok lru acc clean pre order chk hash len' cf refl, of ms, unfolded ran_tx_sequenced length_map]
  obtain s' where s': "sequence env (Some ms) d s = (Inr ?tx, s')" "sq_service_status s' = sq_service_status s"
      "acc_inv ?sha3 (se_lru env) (node_view env contents) (sq_tx_accumulator s') (map fst log @ [h])"
      "at_update_nodes (sq_tx_accumulator s') = []" "stores_clean env (contents (sq_db s'))"
      "sq_last_sequencer_info s' = sequencer_info_new (word_of_nat (length log)) (summary ?sha3 (map fst log @ [h]))"
      "kv_view (SequencerInfoStore env) (contents (sq_db s')) SEQUENCER_INFO_KEY = Some (sq_last_sequencer_info s')"
      "kv_view (LedgerTransactionStore env) (contents (sq_db s')) = (kv_view (LedgerTransactionStore env) (contents (sq_db s)))(h \<mapsto> stored_tx ?tx)"
      "kv_view (TxSequenceInfoMappingStore env) (contents (sq_db s')) =
        (kv_view (TxSequenceInfoMappingStore env) (contents (sq_db s)))(word_of_nat (length log) \<mapsto> h)"
      "\<exists>nodes. set nodes = fresh_nodes ?sha3 (map fst log @ [h]) (length log) \<and>
         node_view env contents (sq_db s') = insert_nodes ?sha3 (node_view env contents (sq_db s)) nodes" by blast
  have last: "last_info ?sha3 ?log = sq_last_sequencer_info s'" by (simp add: last_info_def s'(6))
  have notin: "h \<notin> fst ` set log" using collision_free_distinct [OF cf] by simp
  have "db_repr env contents (sq_db s') ?log"
    unfolding db_repr_def
  proof (intro conjI allI impI)
    show "entry_ok ?sha3 ?log i" if "i < length ?log" for i
    proof (cases "i = length log")
      case True
      then show ?thesis using entry_ok_last by metis
    next
      case False
      with that inv' show ?thesis by (simp add: entry_ok_append)
    qed
    show "kv_view (LedgerTransactionStore env) (contents (sq_db s')) = map_of ?log"
      unfolding map_of_snoc [OF notin] using inv' by (simp add: s'(8))
    show "kv_view (TxSequenceInfoMappingStore env) (contents (sq_db s')) = order_view ?log"
      unfolding order_view_append [OF len] using inv' by (simp add: s'(9))
    show "nodes_ok ?sha3 (map fst ?log) (kv_view (TransactionAccumulatorStore env) (contents (sq_db s')))"
      using s'(3,4) by (simp add: acc_inv_def found_nodes_def sq_db_def)
  qed (use len cf s'(5,7) last in simp_all)
  then have "seq_inv env contents s' ?log" using s'(3,4) last by (simp add: seq_inv_def)
  with s'(1,2,10) show ?thesis by blast
qed

section \<open>Restarting\<close>

lemma tree_exists:
  assumes "length ls \<le> 2 ^ 63"
  shows "\<exists>t. accumulator_new_with_info env (summary (env_sha3 env) ls) db = Inr t \<and> tree_core (env_sha3 env) t ls \<and>
    at_store t = db \<and> at_update_nodes t = [] \<and> at_index_cache t = lru_new (env_lru env) MAX_CACHE_SIZE"
proof -
  let ?sha3 = "env_sha3 env"
  define pairs where "pairs =
      zip (map (\<lambda>b. node_at b (frozen_pos (length ls) b)) (set_bits_down 64 (length ls))) (frozen_roots ?sha3 ls)"
  have zip: "(if frozen_roots ?sha3 ls \<noteq> []
      then zip_frozen 65 (frozen_iter_new (word_of_nat (length ls))) (frozen_roots ?sha3 ls) else Inr []) = Inr pairs"
    unfolding pairs_def by (simp add: zip_frozen_collect [OF frozen_positions [OF assms]])
  have "frozen_index_ok ?sha3 ls (length ls) (collect_map pairs)"
    unfolding pairs_def by (rule frozen_index_rebuilt [OF assms])
  with zip assms show ?thesis
    by (simp add: accumulator_new_with_info_def summary_def tree_new_def tree_core_def)
qed

lemma sequencer_new_eq:
  assumes ok: "store_ok env contents" and lru: "lru_contract (se_lru env)"
    and repr: "db_repr env contents db log"
  shows "\<exists>s. sequencer_new env st db = Inr s \<and> seq_inv env contents s log \<and> sq_db s = db \<and> sq_service_status s = st"
proof -
  note okd = store_okD [OF ok]
  note repr' = repr [unfolded db_repr_def stores_clean_def]
  have get: "get_sequencer_info env db = Inr (Some (last_info (te_sha3 env) log))"
    unfolding get_sequencer_info_def using repr' kv_get_eq [OF okd(1,2), of db SEQUENCER_INFO_KEY] by simp
  obtain t where t: "accumulator_new_with_info (acc_env env) (summary (te_sha3 env) (map fst log)) db = Inr t"
    "tree_core (te_sha3 env) t (map fst log)" "at_store t = db" "at_update_nodes t = []"
    "at_index_cache t = lru_new (se_lru env) MAX_CACHE_SIZE"
    using tree_exists [of "map fst log" "acc_env env" db] repr' by auto
  have "lru_view (se_lru env) (lru_new (se_lru env) MAX_CACHE_SIZE) x = None" for x
    using lru by (simp add: lru_contract_def)
  with t repr' have "acc_inv (te_sha3 env) (se_lru env) (node_view env contents) t (map fst log)"
    by (simp add: acc_inv_def keyed_nodes_def found_nodes_def cache_ok_def)
  with t get repr show ?thesis
    by (simp add: sequencer_new_def seq_inv_def sq_db_def last_info_def sequencer_info_new_def)
qed

section \<open>Reading the ledger\<close>

lemma ledger_reads:
  assumes ok: "store_ok env contents" and repr: "db_repr env contents db log"
  shows "get_tx_hashs env db ks = Inr (map (order_view log) ks)"
    and "get_transaction_by_hash env db h = Inr (map_of log h)"
    and "get_sequencer_info env db = Inr (Some (last_info (te_sha3 env) log))"
proof -
  note okd = store_okD [OF ok]
  note repr' = repr [unfolded db_repr_def stores_clean_def]
  show "get_tx_hashs env db ks = Inr (map (order_view log) ks)"
    unfolding get_tx_hashs_def using repr' multiple_get_eq [OF okd(1,4), of db ks] by simp
  show "get_transaction_by_hash env db h = Inr (map_of log h)"
    unfolding get_transaction_by_hash_def using repr' kv_get_eq [OF okd(1,3), of db h] by simp
  show "get_sequencer_info env db = Inr (Some (last_info (te_sha3 env) log))"
    unfolding get_sequencer_info_def using repr' kv_get_eq [OF okd(1,2), of db SEQUENCER_INFO_KEY] by simp
qed

lemma log_lookup:
  assumes "db_repr env contents db log" and "i < length log"
  shows "map_of log (fst (log ! i)) = Some (snd (log ! i))" and "order_view log (word_of_nat i) = Some (fst (log ! i))"
proof -
  have "distinct (map fst log)" using assms(1) by (auto simp: db_repr_def intro: collision_free_distinct)
  moreover have "(fst (log ! i), snd (log ! i)) \<in> set log" using assms(2) by simp
  ultimately show "map_of log (fst (log ! i)) = Some (snd (log ! i))" by (rule map_of_is_SomeI)
  have "i < 2 ^ 64" using assms by (simp add: db_repr_def)
  then show "order_view log (word_of_nat i) = Some (fst (log ! i))" using assms(2) by (simp add: order_view_def unat_of_nat)
qed

section \<open>Reverting\<close>

text \<open>
  No node of the tree over \<open>ls\<close> shares its hash with a different node of the tree over one more leaf.
\<close>

definition append_safe :: "hasher \<Rightarrow> H256 list \<Rightarrow> H256 \<Rightarrow> bool" where
  "append_safe sha3 ls h \<longleftrightarrow>
     (\<forall>(l, p) \<in> set (tree_coords (length ls)). \<forall>(l', p') \<in> set (tree_coords (Suc (length ls))).
        subtree_hash sha3 ls l p = subtree_hash sha3 (ls @ [h]) l' p' \<longrightarrow>
        tree_node sha3 ls l p = tree_node sha3 (ls @ [h]) l' p')"

lemma insert_nodes_keep:
  assumes "m k = Some n" and "\<forall>n' \<in> set nodes. node_hash sha3 n' = k \<longrightarrow> n' = n"
  shows "insert_nodes sha3 m nodes k = Some n"
  using assms by (induction nodes arbitrary: m) auto

lemma nodes_ok_prefix:
  assumes "nodes_ok sha3 ls m" and nodes: "set nodes = fresh_nodes sha3 (ls @ [h]) (length ls)"
    and "append_safe sha3 ls h"
  shows "nodes_ok sha3 ls (insert_nodes sha3 m nodes)"
  unfolding nodes_ok_def
proof (intro allI impI)
  fix l p assume lp: "in_tree (length ls) l p"
  show "insert_nodes sha3 m nodes (subtree_hash sha3 ls l p) = Some (tree_node sha3 ls l p)"
  proof (rule insert_nodes_keep)
    show "m (subtree_hash sha3 ls l p) = Some (tree_node sha3 ls l p)" using assms(1) lp by (simp add: nodes_ok_def)
    show "\<forall>n' \<in> set nodes. node_hash sha3 n' = subtree_hash sha3 ls l p \<longrightarrow> n' = tree_node sha3 ls l p"
    proof (intro ballI impI)
      fix n' assume "n' \<in> set nodes" and eq: "node_hash sha3 n' = subtree_hash sha3 ls l p"
      then obtain l' p' where n': "n' = tree_node sha3 (ls @ [h]) l' p'" "in_tree (Suc (length ls)) l' p'"
        by (auto simp: nodes fresh_nodes_def in_tree_def)
      have "subtree_hash sha3 (ls @ [h]) l' p' = subtree_hash sha3 ls l p"
        using eq n' tree_node_hash [of p' l' "ls @ [h]" sha3] by (simp add: in_tree_def)
      with n' lp assms(3) show "n' = tree_node sha3 ls l p"
        by (auto simp: append_safe_def set_tree_coords)
    qed
  qed
qed

lemma revert_tx_eq:
  assumes ok: "store_ok env contents" and repr: "db_repr env contents db (log @ [(h, tx)])" and ne: "log \<noteq> []"
    and ei: "ei h = Inr None" and cf: "collision_free (te_sha3 env) (map fst log)"
    and nodes: "nodes_ok (te_sha3 env) (map fst log) (node_view env contents db)"
  shows "\<exists>db'. revert_tx env ei (word_of_nat (length log)) db = (Inr True, db') \<and> db_repr env contents db' log"
proof -
  let ?log = "log @ [(h, tx)]" and ?n = "length log" and ?sha3 = "te_sha3 env"
  note okd = store_okD [OF ok]
  note repr' = repr [unfolded db_repr_def stores_clean_def]
  note reads = ledger_reads [OF ok repr]
  have look: "order_view ?log (word_of_nat ?n) = Some h" "map_of ?log h = Some tx"
    using log_lookup [OF repr, of ?n] by (simp_all add: nth_append)
  have ent: "entry_ok ?sha3 ?log i" if "i < Suc ?n" for i using repr' that by simp
  obtain n' where n': "?n = Suc n'" using ne by (cases ?n) auto
  have prev: "order_view ?log (word_of_nat n') = Some (fst (log ! n'))" "map_of ?log (fst (log ! n')) = Some (snd (log ! n'))"
    using log_lookup [OF repr, of n'] by (simp_all add: nth_append n')
  have ord: "si_tx_order (ltx_sequence_info tx) = word_of_nat ?n" using ent [of ?n] by (simp add: entry_ok_def nth_append)
  have pinfo: "tx_accumulator_info (ltx_sequence_info (snd (log ! n'))) = summary ?sha3 (map fst log)"
    using ent [of n'] by (simp add: entry_ok_def nth_append n')
  have sub: "checked_sub (word_of_nat ?n :: u64) 1 = Inr (word_of_nat n')"
    using repr' by (simp add: checked_sub_def n' word_le_nat_alt unat_of_nat unat_word_ariths)
  let ?info = "sequencer_info_new (word_of_nat n') (summary ?sha3 (map fst log))"
  obtain db1 where sv: "save_sequencer_info_ignore_check env ?info db = (Inr (), db1)"
    and v1: "kv_view (SequencerInfoStore env) (contents db1) = (kv_view (SequencerInfoStore env) (contents db))(SEQUENCER_INFO_KEY \<mapsto> ?info)"
    and c1: "kv_clean (SequencerInfoStore env) (contents db1)"
    and s1: "same_except META_SEQUENCER_INFO_COLUMN_FAMILY_NAME (contents db) (contents db1)"
    using save_sequencer_info_eq [OF ok, of db False ?info] repr' by (auto simp: save_sequencer_info_ignore_check_def)
  note f1 = same_except_view [OF s1]
  obtain db2 where r2: "kv_remove (st_rocks env) (LedgerTransactionStore env) h db1 = (Inr (), db2)"
    and v2: "kv_view (LedgerTransactionStore env) (contents db2) = (kv_view (LedgerTransactionStore env) (contents db1))(h := None)"
    and c2: "kv_clean (LedgerTransactionStore env) (contents db1) \<longrightarrow> kv_clean (LedgerTransactionStore env) (contents db2)"
    and s2: "same_except TRANSACTION_COLUMN_FAMILY_NAME (contents db1) (contents db2)"
    using kv_remove_eq [OF okd(1,3), of h db1] by auto
  note f2 = same_except_view [OF s2]
  obtain db3 where r3: "kv_remove (st_rocks env) (TxSequenceInfoMappingStore env) (word_of_nat ?n) db2 = (Inr (), db3)"
    and v3: "kv_view (TxSequenceInfoMappingStore env) (contents db3) = (kv_view (TxSequenceInfoMappingStore env) (contents db2))(word_of_nat ?n := None)"
    and c3: "kv_clean (TxSequenceInfoMappingStore env) (contents db2) \<longrightarrow> kv_clean (TxSequenceInfoMappingStore env) (contents db3)"
    and s3: "same_except TX_SEQUENCE_INFO_MAPPING_COLUMN_FAMILY_NAME (contents db2) (contents db3)"
    using kv_remove_eq [OF okd(1,4), of "word_of_nat ?n" db2] by auto
  note f3 = same_except_view [OF s3]
  have run: "revert_tx env ei (word_of_nat ?n) db = (Inr True, db3)"
    using reads look prev ord pinfo sub sv r2 r3 ei
    by (simp add: revert_tx_def first_some_def Let_def last_info_def sequencer_info_new_def remove_transaction_def return_act_def)
  have len: "?n < 2 ^ 63" using repr' by simp
  have notin: "h \<notin> fst ` set log" using repr' collision_free_distinct [of ?sha3 "map fst ?log"] by auto
  have "(map_of ?log)(h := None) = map_of log"
    unfolding map_of_snoc [OF notin] using notin by (auto simp: fun_eq_iff map_of_eq_None_iff [THEN iffD2])
  moreover have "(order_view ?log)(word_of_nat ?n := None) = order_view log"
    unfolding order_view_append [OF len] using len by (auto simp: order_view_def unat_of_nat)
  moreover have "entry_ok ?sha3 log i" if "i < ?n" for i using ent [of i] that by (simp add: entry_ok_append)
  ultimately have "db_repr env contents db3 log"
    using repr' ne cf nodes c1 c2 c3
    by (auto simp: db_repr_def stores_clean_def f1 f2 f3 v1 v2 v3 last_info_def n')
  with run show ?thesis by blast
qed

section \<open>Genesis\<close>

text \<open>A database whose column families decode and that holds no ledger yet.\<close>

definition db_empty :: "('db, 'act, 'auth, 'x) store_env_scheme \<Rightarrow> ('db \<Rightarrow> db_contents) \<Rightarrow> 'db \<Rightarrow> bool" where
  "db_empty env contents db \<longleftrightarrow>
     stores_clean env (contents db) \<and> kv_view (SequencerInfoStore env) (contents db) SEQUENCER_INFO_KEY = None \<and>
     kv_view (LedgerTransactionStore env) (contents db) = Map.empty \<and>
     kv_view (TxSequenceInfoMappingStore env) (contents db) = Map.empty"

lemma genesis_steps:
  assumes ok: "store_ok env contents" and lru: "lru_contract (se_lru env)" and empty: "db_empty env contents db"
    and hash: "fst (ledger_tx_hash env (LedgerL2Tx tx)) = Inr h" and cf: "collision_free (te_sha3 env) [h]"
  shows "\<exists>ltx db'. genesis_sequence env ts tx db = (Inr ltx, db') \<and> db_repr env contents db' [(h, stored_tx ltx)]"
proof -
  let ?sha3 = "te_sha3 env" and ?d = "LedgerL2Tx tx"
  note clean0 = empty [unfolded db_empty_def]
  have sum0: "accumulator_info_default = summary ?sha3 []"
    by (simp add: accumulator_info_default_def summary_def merkle_root_def tree_height_def frozen_roots_def)
  obtain t where t: "accumulator_new_with_info (acc_env env) accumulator_info_default db = Inr t"
    "tree_core ?sha3 t []" "at_store t = db" "at_update_nodes t = []" "at_index_cache t = lru_new (se_lru env) MAX_CACHE_SIZE"
    using tree_exists [of "[]" "acc_env env" db] by (auto simp: sum0)
  have "lru_view (se_lru env) (lru_new (se_lru env) MAX_CACHE_SIZE) x = None" for x
    using lru by (simp add: lru_contract_def)
  with t have acc: "acc_inv ?sha3 (se_lru env) (node_view env contents) t []"
    by (simp add: acc_inv_def keyed_nodes_def found_nodes_def cache_ok_def nodes_ok_def in_tree_def
        collision_free_def tree_coords_def tree_height_def)
  obtain t1 t2 where ap: "tree_append (acc_env env) [h] t = (Inr (merkle_root ?sha3 [h]), t1)"
    and fl: "tree_flush (acc_env env) t1 = (Inr (), t2)"
    and acc2: "acc_inv ?sha3 (se_lru env) (node_view env contents) t2 [h]" and upd: "at_update_nodes t2 = []"
    and same: "same_except TX_ACCUMULATOR_NODE_COLUMN_FAMILY_NAME (contents db) (contents (at_store t2))"
    and clean2: "kv_clean (TransactionAccumulatorStore env) (contents (at_store t2))"
    using append_flush_db [OF ok lru acc t(4), of h] cf clean0 by (auto simp: stores_clean_def t(3))
  note f0 = same_except_view [OF same]
  have info: "accumulator_get_info t2 = summary ?sha3 [h]" using acc2 by (simp add: acc_inv_def get_info_summary)
  have clean1: "stores_clean env (contents (at_store t2))" using clean0 clean2 by (simp add: stores_clean_def f0)
  let ?info = "sequencer_info_new 0 (summary ?sha3 [h])"
  obtain db3 where sv: "save_sequencer_info env ?info (at_store t2) = (Inr (), db3)"
    and v3: "kv_view (SequencerInfoStore env) (contents db3) = (kv_view (SequencerInfoStore env) (contents (at_store t2)))(SEQUENCER_INFO_KEY \<mapsto> ?info)"
    and c3: "kv_clean (SequencerInfoStore env) (contents db3)"
    and s3: "same_except META_SEQUENCER_INFO_COLUMN_FAMILY_NAME (contents (at_store t2)) (contents db3)"
    using save_sequencer_info_eq [OF ok, of "at_store t2" True ?info] clean0 clean1
    by (auto simp: stores_clean_def f0 save_sequencer_info_def)
  note f3 = same_except_view [OF s3]
  have clean3: "stores_clean env (contents db3)" using clean1 c3 by (simp add: stores_clean_def f3)
  let ?ltx = "build_ledger_transaction ?d ts 0 [] (summary ?sha3 [h])"
  have data: "ltx_data ?ltx = ?d" by (simp add: build_ledger_transaction_def ledger_transaction_new_def)
  obtain db4 where st: "save_transaction env ?ltx db3 = (Inr (), db4)" and clean4: "stores_clean env (contents db4)"
    and v4: "kv_view (LedgerTransactionStore env) (contents db4) = [h \<mapsto> stored_tx ?ltx]"
      "kv_view (TxSequenceInfoMappingStore env) (contents db4) = [0 \<mapsto> h]"
      "kv_view (SequencerInfoStore env) (contents db4) = kv_view (SequencerInfoStore env) (contents db3)"
      "node_view env contents db4 = node_view env contents db3"
    using save_transaction_eq [OF ok _ clean3, of ?ltx h] hash clean0 data by (auto simp: f0 f3 tx_info_build)
  have "genesis_sequence env ts tx db = (Inr ?ltx, db4)"
    using hash t(1) ap fl sv st by (simp add: genesis_sequence_def on_store_def info return_act_def Let_def)
  moreover have "entry_ok ?sha3 [(h, stored_tx ?ltx)] 0" by (simp add: entry_ok_def tx_info_build)
  moreover have "order_view [(h, stored_tx ?ltx)] = [0 \<mapsto> h]" by (auto simp: order_view_def fun_eq_iff unat_eq_0)
  moreover have "nodes_ok ?sha3 [h] (node_view env contents db4)"
    using acc2 upd by (simp add: v4 f3 acc_inv_def found_nodes_def)
  ultimately show ?thesis
    using cf clean4 v3 v4 by (auto simp: db_repr_def last_info_def)
qed

section \<open>Proofs of leaves\<close>

lemma proof_of_leaf:
  assumes "store_ok env contents" and "lru_contract (se_lru env)"
    and "acc_inv (te_sha3 env) (se_lru env) (node_view env contents) t ls" and "i < length ls" and "64 \<le> fuel"
  shows "\<exists>prf t'. get_proof (acc_env env) fuel (word_of_nat i) t = (Inr (Some prf), t') \<and>
    accumulator_verify (te_sha3 env) prf (merkle_root (te_sha3 env) ls) (ls ! i) (word_of_nat i) = Inr ()"
proof -
  let ?sha3 = "te_sha3 env"
  have len: "length ls \<le> 2 ^ 63" and num: "at_num_leaves t = word_of_nat (length ls)" using assms(3) by (simp_all add: acc_inv_def tree_core_def)
  obtain t' where sib: "get_siblings (acc_env env) fuel (word_of_nat i) (\<lambda>_. True) t = (Inr (merkle_path ?sha3 ls (tree_height (length ls)) i), t')"
    using accumulator_store.get_siblings_eq [OF db_accumulator_store [OF assms(1)], of "acc_env env" t ls i fuel] assms(2-5) by auto
  have "\<not> (word_of_nat (length ls) :: u64) < word_of_nat i" using assms(4) len by (simp add: word_less_nat_alt unat_of_nat)
  with sib have "get_proof (acc_env env) fuel (word_of_nat i) t = (Inr (Some \<lparr>siblings = merkle_path ?sha3 ls (tree_height (length ls)) i\<rparr>), t')"
    by (simp add: get_proof_def num)
  then show ?thesis using verify_merkle_path [OF assms(4) len, of ?sha3] by blast
qed

section \<open>A failing store\<close>

text \<open>The accumulator has taken the leaf when the summary of the sequencer cannot be stored.\<close>

lemma save_sequencer_info_fails:
  assumes "\<And>cf k v db. \<exists>e. rk_put_cf_opt (st_rocks env) True cf k v db = (Inl e, db)"
  shows "\<exists>e. save_sequencer_info env info db = (Inl e, db)"
proof -
  have put: "\<exists>e. kv_put_sync (st_rocks env) (SequencerInfoStore env) k v db = (Inl e, db)" for k v
  proof (cases "sc_key_to_bytes (SequencerInfoStore env) k")
    case key: (Inr kb)
    show ?thesis
    proof (cases "sc_value_to_bytes (SequencerInfoStore env) v")
      case (Inr vb)
      obtain e where "rk_put_cf_opt (st_rocks env) True (sc_cf_name (SequencerInfoStore env)) kb vb db = (Inl e, db)"
        using assms by blast
      with key Inr show ?thesis
        by (cases "get_cf_handle (st_rocks env) db (sc_cf_name (SequencerInfoStore env))")
          (auto simp: kv_put_sync_def rocks_put_sync_def)
    qed (simp add: kv_put_sync_def key)
  qed (simp add: kv_put_sync_def)
  define r where "r = and_then (get_sequencer_info env db) (\<lambda>pre. case pre of None \<Rightarrow> Inr ()
      | Some p \<Rightarrow> and_then (checked_add (sqi_last_order p) 1)
          (\<lambda>n. ensure_that (sqi_last_order info = n) ''Sequencer order is not continuous''))"
  have "save_sequencer_info env info db =
      bind_act (lift_act r) (\<lambda>_. kv_put_sync (st_rocks env) (SequencerInfoStore env) SEQUENCER_INFO_KEY info) db"
    by (simp add: save_sequencer_info_def inner_save_sequencer_info_def r_def)
  with put show ?thesis by (cases r) auto
qed

text \<open>The environment whose synchronous writes fail; batches are written as before.\<close>

definition sync_fails :: "string \<Rightarrow> ('c, 'db, 'act, 'auth, 'x) seq_env_scheme \<Rightarrow> ('c, 'db, 'act, 'auth, 'x) seq_env_scheme" where
  "sync_fails err env = env\<lparr>st_rocks := (st_rocks env)\<lparr>rk_put_cf_opt :=
     \<lambda>sync cf k v db. if sync then (Inl (Fail err), db) else rk_put_cf_opt (st_rocks env) False cf k v db\<rparr>\<rparr>"

lemma sync_fails_sel [simp]:
  "te_sha3 (sync_fails err env) = te_sha3 env" "se_lru (sync_fails err env) = se_lru env" "se_sign (sync_fails err env) = se_sign env"
  "se_rooch_address (sync_fails err env) = se_rooch_address env"
  by (simp_all add: sync_fails_def)

lemma sync_fails_kv:
  "kv_put (st_rocks (sync_fails err env)) = kv_put (st_rocks env)" "kv_put_all (st_rocks (sync_fails err env)) = kv_put_all (st_rocks env)"
  "kv_delete_all (st_rocks (sync_fails err env)) = kv_delete_all (st_rocks env)" "kv_get (st_rocks (sync_fails err env)) = kv_get (st_rocks env)"
proof -
  have "rocks_put (st_rocks (sync_fails err env)) = rocks_put (st_rocks env)"
      "rocks_write_batch (st_rocks (sync_fails err env)) = rocks_write_batch (st_rocks env)"
      "rocks_get (st_rocks (sync_fails err env)) = rocks_get (st_rocks env)"
    by (intro ext; simp add: sync_fails_def rocks_put_def rocks_write_batch_def rocks_get_def get_cf_handle_def bind_act_def)+
  then show "kv_put (st_rocks (sync_fails err env)) = kv_put (st_rocks env)" "kv_put_all (st_rocks (sync_fails err env)) = kv_put_all (st_rocks env)"
      "kv_delete_all (st_rocks (sync_fails err env)) = kv_delete_all (st_rocks env)" "kv_get (st_rocks (sync_fails err env)) = kv_get (st_rocks env)"
    by (intro ext; simp add: kv_put_def kv_put_all_def kv_delete_all_def kv_write_batch_def kv_get_def)+
qed

lemma sync_fails_same:
  "acc_env (sync_fails err env) = acc_env env" "ledger_tx_hash (sync_fails err env) d = ledger_tx_hash env d"
  "check_status (sync_fails err env) st d = check_status env st d"
proof -
  have "TransactionAccumulatorStore (sync_fails err env) = TransactionAccumulatorStore env"
    by (simp add: sync_fails_def TransactionAccumulatorStore_def)
  then show "acc_env (sync_fails err env) = acc_env env" by (simp add: acc_env_def accumulator_db_store_def sync_fails_kv)
  show "ledger_tx_hash (sync_fails err env) d = ledger_tx_hash env d"
    by (cases d) (simp_all add: sync_fails_def rooch_tx_hash_def tx_data_hash_def l1_tx_hash_def l1_block_tx_hash_def split: option.split)
  show "check_status (sync_fails err env) st d = check_status env st d"
    unfolding check_status_def sync_fails_sel ..
qed

lemma failed_save:
  assumes ok: "store_ok env contents" and lru: "lru_contract (se_lru env)"
    and inv: "seq_inv env contents s log"
    and chk: "check_status env (sq_service_status s) d = Inr ()" and hash: "ledger_tx_hash env d = (Inr h, d')"
    and len: "length log < 2 ^ 63" and cf: "collision_free (te_sha3 env) (map fst log @ [h])"
  shows "\<exists>e s'. sequence (sync_fails err env) (Some ms) d s = (Inl e, s') \<and>
    sq_last_sequencer_info s' = sq_last_sequencer_info s \<and> sq_service_status s' = sq_service_status s \<and>
    acc_inv (te_sha3 env) (se_lru env) (node_view env contents) (sq_tx_accumulator s') (map fst log @ [h]) \<and>
    at_update_nodes (sq_tx_accumulator s') = [] \<and> stores_clean env (contents (sq_db s')) \<and>
    same_except TX_ACCUMULATOR_NODE_COLUMN_FAMILY_NAME (contents (sq_db s)) (contents (sq_db s'))"
proof -
  let ?bad = "sync_fails err env" and ?ls = "map fst log"
  note inv' = inv [unfolded seq_inv_def db_repr_def]
  have acc: "acc_inv (te_sha3 env) (se_lru env) (node_view env contents) (sq_tx_accumulator s) ?ls" "at_update_nodes (sq_tx_accumulator s) = []"
    and ne: "log \<noteq> []" and clean: "stores_clean env (contents (sq_db s))" using inv' by auto
  have order: "checked_add (last_order s) 1 = Inr (word_of_nat (length log))"
    using inv' order_succ [OF len ne] by (simp add: last_order_def last_info_def sequencer_info_new_def)
  have len': "length ?ls < 2 ^ 63" using len by simp
  obtain t1 t2 where t: "tree_append (acc_env env) [h] (sq_tx_accumulator s) = (Inr (merkle_root (te_sha3 env) (?ls @ [h])), t1)"
      "tree_flush (acc_env env) t1 = (Inr (), t2)" "acc_inv (te_sha3 env) (se_lru env) (node_view env contents) t2 (?ls @ [h])"
      "at_update_nodes t2 = []" "same_except TX_ACCUMULATOR_NODE_COLUMN_FAMILY_NAME (contents (sq_db s)) (contents (at_store t2))"
      "kv_clean (TransactionAccumulatorStore env) (contents (at_store t2))"
    using append_flush_db [OF ok lru acc len' cf] clean by (auto simp: stores_clean_def sq_db_def)
  have clean2: "stores_clean env (contents (at_store t2))"
    using clean t(6) by (simp add: stores_clean_def same_except_view [OF t(5)])
  have fails: "\<exists>e. rk_put_cf_opt (st_rocks ?bad) True cf k v db = (Inl e, db)" for cf k v db by (simp add: sync_fails_def)
  obtain e where "save_sequencer_info ?bad (sequencer_info_new (word_of_nat (length log)) (accumulator_get_info t2)) (at_store t2) = (Inl e, at_store t2)"
    using save_sequencer_info_fails [OF fails] by blast
  with t(1,2) have "sequence ?bad (Some ms) d s = (Inl e, s\<lparr>sq_tx_accumulator := t2\<rparr>)"
    by (simp add: sequence_def sync_fails_same chk millis_now_def order hash on_acc_def on_db_def on_store_def Let_def tx_info_build)
  with t clean2 show ?thesis by (intro exI [of _ e] exI [of _ "s\<lparr>sq_tx_accumulator := t2\<rparr>"]) (simp add: sq_db_def)
qed

text \<open>The next transaction takes the order that failed, but not the leaf with that index.\<close>

lemma sequence_after_failed_save:
  assumes ok: "store_ok env contents" and lru: "lru_contract (se_lru env)"
    and inv: "seq_inv env contents s log"
    and chk: "check_status env (sq_service_status s) d = Inr ()" "check_status env (sq_service_status s) d2 = Inr ()"
    and hash: "ledger_tx_hash env d = (Inr h, d')" "ledger_tx_hash env d2 = (Inr h2, d2')"
    and len: "Suc (length log) < 2 ^ 63" and cf: "collision_free (te_sha3 env) (map fst log @ [h])" "collision_free (te_sha3 env) (map fst log @ [h, h2])"
  shows "\<exists>e s1 tx s2. sequence (sync_fails err env) (Some ms) d s = (Inl e, s1) \<and> last_order s1 = last_order s \<and>
    sequence env (Some ms2) d2 s1 = (Inr tx, s2) \<and> si_tx_order (ltx_sequence_info tx) = word_of_nat (length log) \<and>
    tx_accumulator_info (ltx_sequence_info tx) = summary (te_sha3 env) (map fst log @ [h, h2]) \<and>
    acc_inv (te_sha3 env) (se_lru env) (node_view env contents) (sq_tx_accumulator s2) (map fst log @ [h, h2]) \<and>
    stores_clean env (contents (sq_db s2)) \<and>
    kv_view (TxSequenceInfoMappingStore env) (contents (sq_db s2)) (word_of_nat (length log)) = Some h2"
proof -
  have len1: "length log < 2 ^ 63" using len by simp
  obtain e s1 where s1: "sequence (sync_fails err env) (Some ms) d s = (Inl e, s1)"
      "sq_last_sequencer_info s1 = sq_last_sequencer_info s" "sq_service_status s1 = sq_service_status s"
      "acc_inv (te_sha3 env) (se_lru env) (node_view env contents) (sq_tx_accumulator s1) (map fst log @ [h])"
      "at_update_nodes (sq_tx_accumulator s1) = []" "stores_clean env (contents (sq_db s1))"
      "same_except TX_ACCUMULATOR_NODE_COLUMN_FAMILY_NAME (contents (sq_db s)) (contents (sq_db s1))"
    using failed_save [OF ok lru inv chk(1) hash(1) len1 cf(1)] by blast
  have ne: "log \<noteq> []" and info: "sq_last_sequencer_info s = last_info (te_sha3 env) log"
    and stored: "kv_view (SequencerInfoStore env) (contents (sq_db s)) SEQUENCER_INFO_KEY = Some (last_info (te_sha3 env) log)"
    using inv by (auto simp: seq_inv_def db_repr_def)
  have order: "checked_add (last_order s1) 1 = Inr (word_of_nat (length log))"
    using order_succ [OF len1 ne] by (simp add: last_order_def s1(2) info last_info_def sequencer_info_new_def)
  have pre: "kv_view (SequencerInfoStore env) (contents (sq_db s1)) SEQUENCER_INFO_KEY = Some (last_info (te_sha3 env) log)"
      "sqi_last_order (last_info (te_sha3 env) log) = last_order s1"
    using stored by (simp_all add: same_except_view [OF s1(7)] last_order_def s1(2) info)
  have chk2: "check_status env (sq_service_status s1) d2 = Inr ()" using chk(2) by (simp add: s1(3))
  have len2: "length (map fst log @ [h]) < 2 ^ 63" using len by simp
  have cf2: "collision_free (te_sha3 env) ((map fst log @ [h]) @ [h2])" using cf(2) by simp
  define tx where "tx = ran_tx env ms2 d2' h2 (word_of_nat (length log)) (map fst log @ [h])"
  obtain s2 where "sequence env (Some ms2) d2 s1 = (Inr tx, s2)"
      "acc_inv (te_sha3 env) (se_lru env) (node_view env contents) (sq_tx_accumulator s2) ((map fst log @ [h]) @ [h2])"
      "stores_clean env (contents (sq_db s2))"
      "kv_view (TxSequenceInfoMappingStore env) (contents (sq_db s2)) =
        (kv_view (TxSequenceInfoMappingStore env) (contents (sq_db s1)))(word_of_nat (length log) \<mapsto> h2)"
    using sequence_run [OF ok lru s1(4,5,6) pre order chk2 hash(2) len2 cf2 tx_def] by blast
  then show ?thesis
    using s1(1,2) by (intro exI [of _ e] exI [of _ s1] exI [of _ tx] exI [of _ s2]) (simp add: tx_def ran_tx_sel last_order_def)
qed

end
