(* ===== verification/Ledger_Instance.thy ===== *)
theory Ledger_Instance
  imports Sequencer_Refinement Accumulator_Properties
begin

text \<open>
  A concrete instance of what the ledger takes as parameters: a self-delimiting binary codec for keys
  and values, beside the database that is a map per column family (\<open>map_rocks\<close>). It shows that the contracts of
  \<^verbatim>\<open>rocksdb\<close> and \<^verbatim>\<open>bcs\<close> on which the statements about the sequencer rest can be met, and carries
  their concrete instances.
\<close>

section \<open>Codecs\<close>

type_synonym 'a codec = "('a \<Rightarrow> bytes) \<times> (bytes \<Rightarrow> ('a \<times> bytes) option)"

definition good_codec :: "'a codec \<Rightarrow> ('a \<Rightarrow> 'a) \<Rightarrow> bool" where
  "good_codec c norm \<longleftrightarrow> (\<forall>x r. snd c (fst c x @ r) = Some (norm x, r))"

named_theorems codec_intros

definition unit_codec :: "unit codec" where
  "unit_codec = (\<lambda>_. [], \<lambda>bs. Some ((), bs))"

definition byte_codec :: "u8 codec" where
  "byte_codec = (\<lambda>b. [b], \<lambda>bs. case bs of b # r \<Rightarrow> Some (b, r) | [] \<Rightarrow> None)"

definition u64_codec :: "u64 codec" where
  "u64_codec = (to_le_bytes 8, \<lambda>bs. if length bs < 8 then None else Some (from_le_bytes (take 8 bs), drop 8 bs))"

fun dec_list :: "(bytes \<Rightarrow> ('a \<times> bytes) option) \<Rightarrow> nat \<Rightarrow> bytes \<Rightarrow> ('a list \<times> bytes) option" where
  "dec_list d (Suc n) (b # bs) =
     (if b = 0 then Some ([], bs)
      else case d bs of None \<Rightarrow> None | Some (x, r) \<Rightarrow> map_option (map_prod (Cons x) id) (dec_list d n r))"
| "dec_list d _ _ = None"

fun enc_list :: "('a \<Rightarrow> bytes) \<Rightarrow> 'a list \<Rightarrow> bytes" where
  "enc_list e [] = [0]"
| "enc_list e (x # xs) = 1 # e x @ enc_list e xs"

definition list_codec :: "'a codec \<Rightarrow> 'a list codec" where
  "list_codec c = (enc_list (fst c), \<lambda>bs. dec_list (snd c) (length bs) bs)"

definition pair_codec :: "'a codec \<Rightarrow> 'b codec \<Rightarrow> ('a \<times> 'b) codec" where
  "pair_codec c d =
     (\<lambda>(x, y). fst c x @ fst d y,
      \<lambda>bs. case snd c bs of None \<Rightarrow> None | Some (x, r) \<Rightarrow> map_option (map_prod (Pair x) id) (snd d r))"

definition sum_codec :: "'a codec \<Rightarrow> 'b codec \<Rightarrow> ('a + 'b) codec" where
  "sum_codec c d =
     (\<lambda>z. case z of Inl x \<Rightarrow> 0 # fst c x | Inr y \<Rightarrow> 1 # fst d y,
      \<lambda>bs. case bs of
         [] \<Rightarrow> None
       | b # r \<Rightarrow> if b = 0 then map_option (map_prod Inl id) (snd c r) else map_option (map_prod Inr id) (snd d r))"

definition iso_codec :: "('b \<Rightarrow> 'a) \<Rightarrow> ('a \<Rightarrow> 'b) \<Rightarrow> 'a codec \<Rightarrow> 'b codec" where
  "iso_codec f g c = (\<lambda>x. fst c (f x), \<lambda>bs. map_option (map_prod g id) (snd c bs))"

lemma unit_good [codec_intros]: "good_codec unit_codec id"
  by (simp add: good_codec_def unit_codec_def)

lemma byte_good [codec_intros]: "good_codec byte_codec id"
  by (simp add: good_codec_def byte_codec_def)

lemma u64_good [codec_intros]: "good_codec u64_codec id"
  by (simp add: good_codec_def u64_codec_def)

lemma list_good [codec_intros]:
  assumes "good_codec c id"
  shows "good_codec (list_codec c) id"
proof -
  have "dec_list (snd c) n (enc_list (fst c) xs @ r) = Some (xs, r)" if "length xs < n" for xs n r
    using that assms
  proof (induction xs arbitrary: n)
    case Nil
    then show ?case by (cases n) simp_all
  next
    case (Cons x xs)
    then show ?case by (cases n) (simp_all add: good_codec_def)
  qed
  moreover have "length xs < length (enc_list (fst c) xs)" for xs by (induction xs) simp_all
  ultimately show ?thesis by (simp add: good_codec_def list_codec_def less_le_trans trans_less_add1)
qed

lemma pair_good [codec_intros]: "good_codec c id \<Longrightarrow> good_codec d id \<Longrightarrow> good_codec (pair_codec c d) id"
  by (simp add: good_codec_def pair_codec_def)

lemma sum_good [codec_intros]: "good_codec c id \<Longrightarrow> good_codec d id \<Longrightarrow> good_codec (sum_codec c d) id"
  by (simp add: good_codec_def sum_codec_def split: sum.split)

lemma iso_good: "good_codec c id \<Longrightarrow> (\<And>x. g (f x) = norm x) \<Longrightarrow> good_codec (iso_codec f g c) norm"
  by (simp add: good_codec_def iso_codec_def)

abbreviation "bytes_codec \<equiv> list_codec byte_codec"

definition bool_codec :: "bool codec" where
  "bool_codec = iso_codec (\<lambda>b. if b then 1 else 0) (\<lambda>b. b \<noteq> 0) byte_codec"

definition string_codec :: "string codec" where
  "string_codec = iso_codec (map (\<lambda>c. word_of_nat (of_char c))) (map (\<lambda>b. char_of (unat b))) bytes_codec"

definition info_codec :: "AccumulatorInfo codec" where
  "info_codec = iso_codec (\<lambda>i. (ai_accumulator_root i, ai_frozen_subtree_roots i, ai_num_leaves i, ai_num_nodes i))
     (\<lambda>(r, f, l, n). \<lparr>ai_accumulator_root = r, ai_frozen_subtree_roots = f, ai_num_leaves = l, ai_num_nodes = n\<rparr>)
     (pair_codec bytes_codec (pair_codec (list_codec bytes_codec) (pair_codec u64_codec u64_codec)))"

definition sequencer_info_codec :: "SequencerInfo codec" where
  "sequencer_info_codec = iso_codec (\<lambda>i. (sqi_last_order i, sqi_last_accumulator_info i))
     (\<lambda>(l, i). \<lparr>sqi_last_order = l, sqi_last_accumulator_info = i\<rparr>) (pair_codec u64_codec info_codec)"

definition node_codec :: "AccumulatorNode codec" where
  "node_codec =
     iso_codec
       (\<lambda>n. case n of Internal i \<Rightarrow> Inl (in_index i, in_left i, in_right i, in_is_frozen i)
                    | Leaf l \<Rightarrow> Inr (Inl (ln_index l, ln_hash l)) | Empty \<Rightarrow> Inr (Inr ()))
       (\<lambda>z. case z of Inl (i, l, r, f) \<Rightarrow> Internal \<lparr>in_index = i, in_left = l, in_right = r, in_is_frozen = f\<rparr>
                    | Inr (Inl (i, h)) \<Rightarrow> Leaf \<lparr>ln_index = i, ln_hash = h\<rparr> | Inr (Inr _) \<Rightarrow> Empty)
       (sum_codec (pair_codec u64_codec (pair_codec bytes_codec (pair_codec bytes_codec bool_codec)))
         (sum_codec (pair_codec u64_codec bytes_codec) unit_codec))"

definition data_codec :: "(unit, unit) LedgerTxData codec" where
  "data_codec =
     iso_codec
       (\<lambda>d. case d of LedgerL1Block b \<Rightarrow> Inl (mc_id (lb_chain_id b), lb_block_height b, lb_block_hash b)
          | LedgerL1Tx t \<Rightarrow> Inr (Inl (mc_id (lt_chain_id t), lt_block_hash t, lt_txid t))
          | LedgerL2Tx t \<Rightarrow> Inr (Inr (td_sender (rt_data t), td_sequence_number (rt_data t), td_chain_id (rt_data t),
              td_max_gas_amount (rt_data t))))
       (\<lambda>z. case z of
            Inl (c, h, b) \<Rightarrow> LedgerL1Block \<lparr>lb_chain_id = \<lparr>mc_id = c\<rparr>, lb_block_height = h, lb_block_hash = b\<rparr>
          | Inr (Inl (c, b, t)) \<Rightarrow> LedgerL1Tx \<lparr>lt_chain_id = \<lparr>mc_id = c\<rparr>, lt_block_hash = b, lt_txid = t\<rparr>
          | Inr (Inr (s, n, c, g)) \<Rightarrow> LedgerL2Tx
              \<lparr>rt_data = \<lparr>td_sender = s, td_sequence_number = n, td_chain_id = c, td_max_gas_amount = g, td_action = ()\<rparr>,
               rt_authenticator = (), rt_data_hash = None\<rparr>)
       (sum_codec (pair_codec u64_codec (pair_codec u64_codec bytes_codec))
         (sum_codec (pair_codec u64_codec (pair_codec bytes_codec bytes_codec))
           (pair_codec bytes_codec (pair_codec u64_codec (pair_codec u64_codec u64_codec)))))"

definition seq_info_codec :: "TransactionSequenceInfo codec" where
  "seq_info_codec =
     iso_codec
       (\<lambda>i. (si_tx_order i, si_tx_order_signature i, si_tx_accumulator_root i, si_tx_timestamp i,
          si_tx_accumulator_frozen_subtree_roots i, si_tx_accumulator_num_leaves i, si_tx_accumulator_num_nodes i))
       (\<lambda>(ord, sg, rt, ts, fr, nl, nn).
          \<lparr>si_tx_order = ord, si_tx_order_signature = sg, si_tx_accumulator_root = rt, si_tx_timestamp = ts,
           si_tx_accumulator_frozen_subtree_roots = fr, si_tx_accumulator_num_leaves = nl, si_tx_accumulator_num_nodes = nn\<rparr>)
       (pair_codec u64_codec (pair_codec bytes_codec (pair_codec bytes_codec (pair_codec u64_codec
         (pair_codec (list_codec bytes_codec) (pair_codec u64_codec u64_codec))))))"

text \<open>The data part is decoded without the cached hash.\<close>

definition tx_codec :: "(unit, unit) LedgerTransaction codec" where
  "tx_codec =
     (\<lambda>tx. fst data_codec (ltx_data tx) @ fst seq_info_codec (ltx_sequence_info tx),
      \<lambda>bs. case snd data_codec bs of None \<Rightarrow> None
         | Some (d, r) \<Rightarrow> map_option (map_prod (\<lambda>i. \<lparr>ltx_data = d, ltx_sequence_info = i\<rparr>) id) (snd seq_info_codec r))"

lemma bool_good [codec_intros]: "good_codec bool_codec id"
  unfolding bool_codec_def by (rule iso_good [OF byte_good]) simp

lemma string_good [codec_intros]: "good_codec string_codec id"
  unfolding string_codec_def
proof (rule iso_good)
  have "unat (word_of_nat (of_char c) :: u8) = of_char c" for c
    using nat_of_char_less_256 [of c] by (simp add: unat_of_nat)
  then show "map (\<lambda>b. char_of (unat b)) (map (\<lambda>c. word_of_nat (of_char c) :: u8) x) = id x" for x
    by (simp add: comp_def)
qed (intro codec_intros)

lemma info_good [codec_intros]: "good_codec info_codec id"
  unfolding info_codec_def by (rule iso_good) (intro codec_intros, simp)

lemma sequencer_info_good [codec_intros]: "good_codec sequencer_info_codec id"
  unfolding sequencer_info_codec_def by (rule iso_good) (intro codec_intros, simp)

lemma node_good [codec_intros]: "good_codec node_codec id"
  unfolding node_codec_def by (rule iso_good) (intro codec_intros, simp split: AccumulatorNode.split)

lemma seq_info_good [codec_intros]: "good_codec seq_info_codec id"
  unfolding seq_info_codec_def by (rule iso_good) (intro codec_intros, simp)

lemma data_good: "good_codec data_codec forget_hash"
  unfolding data_codec_def by (rule iso_good) (intro codec_intros, simp split: LedgerTxData.split)

lemma tx_good: "good_codec tx_codec stored_tx"
  using data_good seq_info_good by (simp add: good_codec_def tx_codec_def stored_tx_def)

section \<open>The environment\<close>

definition dec_all :: "'a codec \<Rightarrow> bytes \<Rightarrow> 'a result" where
  "dec_all c bs = (case snd c bs of Some (x, []) \<Rightarrow> Inr x | _ \<Rightarrow> Inl (Fail ''cannot decode''))"

definition both_codecs :: "'k codec \<Rightarrow> 'v codec \<Rightarrow> ('k, 'v) bcs_codec" where
  "both_codecs k v =
     \<lparr>bc_key_to_bytes = \<lambda>x. Inr (fst k x), bc_key_from_bytes = dec_all k,
      bc_value_to_bytes = \<lambda>x. Inr (fst v x), bc_value_from_bytes = dec_all v\<rparr>"

lemma both_codecs_ok:
  assumes "good_codec k id" and "good_codec v norm"
  shows "schema_ok (derive_store cf (both_codecs k v)) norm"
proof -
  have inj: "x = x'" if "fst k x = fst k x'" for x x'
  proof -
    have "snd k (fst k x @ []) = Some (x, [])" "snd k (fst k x' @ []) = Some (x', [])"
      using assms(1) by (simp_all only: good_codec_def id_apply)
    with that show ?thesis by simp
  qed
  have "snd v (fst v y @ []) = Some (norm y, [])" for y
    using assms(2) by (simp only: good_codec_def)
  then show ?thesis by (auto simp: schema_ok_def derive_store_def both_codecs_def dec_all_def dest: inj)
qed

definition ledger_env ::
    "hasher \<Rightarrow> 'c lru_ops \<Rightarrow> 'db rocks_ops \<Rightarrow> RoochAddress result \<Rightarrow> ('c, 'db, unit, unit) seq_env" where
  "ledger_env sha3 lru rk addr =
     \<lparr>te_sha3 = sha3,
      te_encode_l1_block = \<lambda>b. Inr (fst data_codec (LedgerL1Block b)),
      te_encode_l1_tx = \<lambda>t. Inr (fst data_codec (LedgerL1Tx t)),
      te_encode_tx_data = \<lambda>d. Inr (fst data_codec (LedgerL2Tx \<lparr>rt_data = d, rt_authenticator = (), rt_data_hash = None\<rparr>)),
      st_rocks = rk,
      st_sequencer_info_codec = both_codecs string_codec sequencer_info_codec,
      st_tx_codec = both_codecs bytes_codec tx_codec,
      st_mapping_codec = both_codecs u64_codec bytes_codec,
      st_node_codec = both_codecs bytes_codec node_codec,
      se_lru = lru, se_sign = \<lambda>bs. bs, se_rooch_address = addr\<rparr>"

lemma ledger_env_sel [simp]:
  "te_sha3 (ledger_env sha3 lru rk addr) = sha3" "se_lru (ledger_env sha3 lru rk addr) = lru"
  "st_rocks (ledger_env sha3 lru rk addr) = rk" "se_rooch_address (ledger_env sha3 lru rk addr) = addr"
  by (simp_all add: ledger_env_def)

lemma ledger_env_codecs: "codecs_ok (ledger_env sha3 lru rk addr)"
  by (simp add: codecs_ok_def SequencerInfoStore_def LedgerTransactionStore_def TxSequenceInfoMappingStore_def
      TransactionAccumulatorStore_def ledger_env_def both_codecs_ok string_good sequencer_info_good u64_good
      byte_good list_good node_good tx_good)

lemma ledger_env_ok: "store_ok (ledger_env sha3 lru map_rocks addr) (\<lambda>db. db)"
  by (simp add: store_ok_def map_rocks_contract ledger_env_codecs)

section \<open>A ledger of two transactions\<close>

definition demo_ledger :: "(NodeIndex \<rightharpoonup> H256, db_contents, unit, unit) seq_env" where
  "demo_ledger = ledger_env demo_sha3 demo_lru map_rocks (Inr [7])"

definition demo_l2 :: "u64 \<Rightarrow> (unit, unit) RoochTransaction" where
  "demo_l2 n =
     \<lparr>rt_data = \<lparr>td_sender = [7], td_sequence_number = n, td_chain_id = 4, td_max_gas_amount = 100, td_action = ()\<rparr>,
      rt_authenticator = (), rt_data_hash = None\<rparr>"

definition demo_hash :: "u64 \<Rightarrow> H256" where
  "demo_hash n = demo_sha3 (fst data_codec (LedgerL2Tx (demo_l2 n)))"

lemma demo_ledger_ok: "store_ok demo_ledger (\<lambda>db. db)" and demo_ledger_lru: "lru_contract (se_lru demo_ledger)"
  by (simp_all add: demo_ledger_def ledger_env_ok demo_lru_contract)

lemma demo_ledger_sel [simp]: "te_sha3 demo_ledger = demo_sha3" "se_lru demo_ledger = demo_lru" "se_rooch_address demo_ledger = Inr [7]"
  by (simp_all add: demo_ledger_def)

lemma demo_l2_hash:
  "ledger_tx_hash demo_ledger (LedgerL2Tx (demo_l2 n)) = (Inr (demo_hash n), LedgerL2Tx (demo_l2 n\<lparr>rt_data_hash := Some (demo_hash n)\<rparr>))"
  by (simp add: rooch_tx_hash_def tx_data_hash_def expect_ok_def demo_ledger_def ledger_env_def demo_l2_def demo_hash_def)

lemma demo_hashes_free: "collision_free demo_sha3 [demo_hash 0]" "collision_free demo_sha3 [demo_hash 0, demo_hash 1]"
  "append_safe demo_sha3 [demo_hash 0] (demo_hash 1)"
  by code_simp+

definition demo_genesis :: "(unit, unit) LedgerTransaction result \<times> db_contents" where
  "demo_genesis = genesis_sequence demo_ledger 0 (demo_l2 0) (\<lambda>_ _. None)"

definition demo_log :: "(unit, unit) ledger_log" where
  "demo_log = [(demo_hash 0, stored_tx (projr (fst demo_genesis)))]"

lemma demo_db: "db_repr demo_ledger (\<lambda>db. db) (snd demo_genesis) demo_log"
proof -
  have "db_empty demo_ledger (\<lambda>db. db) (\<lambda>_ _. None)"
    by (simp add: db_empty_def stores_clean_def kv_clean_def kv_view_def fun_eq_iff split: sum.split)
  moreover have "fst (ledger_tx_hash demo_ledger (LedgerL2Tx (demo_l2 0))) = Inr (demo_hash 0)"
    by (simp only: demo_l2_hash fst_conv)
  ultimately
  obtain ltx db' where "genesis_sequence demo_ledger 0 (demo_l2 0) (\<lambda>_ _. None) = (Inr ltx, db')"
    and "db_repr demo_ledger (\<lambda>db. db) db' [(demo_hash 0, stored_tx ltx)]"
    using genesis_steps [OF demo_ledger_ok demo_ledger_lru, of "\<lambda>_ _. None" "demo_l2 0" "demo_hash 0" 0] demo_hashes_free(1) by auto
  then show ?thesis by (simp add: demo_genesis_def demo_log_def)
qed

definition demo_actor :: "(NodeIndex \<rightharpoonup> H256, db_contents) SequencerActor" where
  "demo_actor = projr (sequencer_new demo_ledger Active (snd demo_genesis))"

lemma demo_actor_inv: "seq_inv demo_ledger (\<lambda>db. db) demo_actor demo_log" "sq_service_status demo_actor = Active"
  using sequencer_new_eq [OF demo_ledger_ok demo_ledger_lru demo_db, of Active] by (auto simp: demo_actor_def)

definition demo_actor2 :: "(NodeIndex \<rightharpoonup> H256, db_contents) SequencerActor" where
  "demo_actor2 = snd (sequence demo_ledger (Some 5) (LedgerL2Tx (demo_l2 1)) demo_actor)"

definition demo_log2 :: "(unit, unit) ledger_log" where
  "demo_log2 = demo_log @ [(demo_hash 1, stored_tx (sequenced_tx demo_ledger 5
     (LedgerL2Tx (demo_l2 1\<lparr>rt_data_hash := Some (demo_hash 1)\<rparr>)) (demo_hash 1) demo_log))]"

lemma demo_actor2_inv: "seq_inv demo_ledger (\<lambda>db. db) demo_actor2 demo_log2"
proof -
  have "check_status demo_ledger (sq_service_status demo_actor) (LedgerL2Tx (demo_l2 1)) = Inr ()"
    by (simp add: demo_actor_inv(2) check_status_def)
  moreover have "collision_free (te_sha3 demo_ledger) (map fst demo_log @ [demo_hash 1])"
    using demo_hashes_free(2) by (simp add: demo_log_def)
  moreover have "length demo_log < 2 ^ 63" by (simp add: demo_log_def)
  ultimately show ?thesis
    using sequence_steps [OF demo_ledger_ok demo_ledger_lru demo_actor_inv(1) _ demo_l2_hash, of 1 5]
    by (auto simp: demo_actor2_def demo_log2_def)
qed

end
