(* ===== verification/Sequencer_Properties.thy ===== *)
theory Sequencer_Properties
  imports Ledger_Instance
begin

text \<open>
  The correctness statements of the sequencer and the ledger stores, each with an instance on the
  database and the codecs of \<^verbatim>\<open>Ledger_Instance\<close>.
\<close>

section \<open>The ledger\<close>

text \<open>
  C5. The sequencer refines an append-only log: when the status of the service admits the
  transaction, \<^verbatim>\<open>sequence\<close> on an actor that represents \<open>log\<close> returns the transaction with the next
  order, the signature of its hash and order, and the summary of the accumulator after it, and leaves
  an actor whose database, accumulator and cached summary represent \<open>log\<close> with that transaction at
  its end. The database keeps its contract, the accumulator is below its capacity, and the nodes of
  the longer accumulator have different hashes.
\<close>

theorem sequence_appends:
  assumes "store_ok env contents" and "lru_contract (se_lru env)" and "seq_inv env contents s log"
    and "check_status env (sq_service_status s) d = Inr ()" and "ledger_tx_hash env d = (Inr h, d')"
    and "length log < 2 ^ 63" and "collision_free (te_sha3 env) (map fst log @ [h])"
  shows "\<exists>s'. sequence env (Some ms) d s = (Inr (sequenced_tx env ms d' h log), s') \<and>
    seq_inv env contents s' (log @ [(h, stored_tx (sequenced_tx env ms d' h log))])"
  using sequence_steps [OF assms] by blast

theorem sequence_appends_witness:
  "\<exists>s'. sequence demo_ledger (Some 5) (LedgerL2Tx (demo_l2 1)) demo_actor =
      (Inr (sequenced_tx demo_ledger 5 (LedgerL2Tx (demo_l2 1\<lparr>rt_data_hash := Some (demo_hash 1)\<rparr>)) (demo_hash 1) demo_log), s') \<and>
    seq_inv demo_ledger (\<lambda>db. db) s' (demo_log @ [(demo_hash 1,
      stored_tx (sequenced_tx demo_ledger 5 (LedgerL2Tx (demo_l2 1\<lparr>rt_data_hash := Some (demo_hash 1)\<rparr>)) (demo_hash 1) demo_log))])"
proof (rule sequence_appends [OF demo_ledger_ok demo_ledger_lru demo_actor_inv(1) _ demo_l2_hash])
  show "check_status demo_ledger (sq_service_status demo_actor) (LedgerL2Tx (demo_l2 1)) = Inr ()"
    by (simp add: demo_actor_inv(2) check_status_def)
qed (use demo_hashes_free(2) in \<open>simp_all add: demo_log_def\<close>)

definition admits :: "ServiceStatus \<Rightarrow> RoochAddress result \<Rightarrow> ('act, 'auth) LedgerTxData \<Rightarrow> bool" where
  "admits status addr d =
     (case status of Active \<Rightarrow> True | ReadOnlyMode \<Rightarrow> False | DateImportMode \<Rightarrow> \<not> is_l2_tx d
      | Maintenance \<Rightarrow> (case (ledger_sender d, addr) of (Some a, Inr b) \<Rightarrow> a = b | _ \<Rightarrow> False))"

lemma check_status_admits: "check_status env st d = Inr () \<longleftrightarrow> admits st (se_rooch_address env) d"
  by (cases d; cases st; cases "se_rooch_address env") (simp_all add: check_status_def admits_def)

text \<open>
  C29. The status of the service decides what is sequenced: nothing in read-only mode, only L1 data
  during data import, and only the sequencer's own transactions during maintenance. Anything else is
  refused with an error before the actor or its database change.
\<close>

theorem status_guard:
  assumes "\<not> admits (sq_service_status s) (se_rooch_address env) d"
  shows "\<exists>e. sequence env now d s = (Inl e, s)"
proof -
  obtain e where "check_status env (sq_service_status s) d = Inl e"
    using assms check_status_admits [of env "sq_service_status s" d]
    by (cases "check_status env (sq_service_status s) d") auto
  then show ?thesis by (simp add: sequence_def)
qed

theorem status_guard_witness:
  "\<exists>e. sequence demo_ledger (Some 5) (LedgerL2Tx (demo_l2 1)) (demo_actor\<lparr>sq_service_status := DateImportMode\<rparr>) =
     (Inl e, demo_actor\<lparr>sq_service_status := DateImportMode\<rparr>)"
  by (rule status_guard) (simp add: admits_def)

text \<open>
  C30. Taking a transaction back: after \<^verbatim>\<open>sequence\<close>, the command \<^verbatim>\<open>revert_tx\<close> on the order of the new
  transaction, which has not been executed, succeeds, and a sequencer started on the resulting
  database represents the log as it was before. The nodes of the longer accumulator must not
  overwrite those of the shorter one.
\<close>

theorem revert_undoes_sequence:
  assumes "store_ok env contents" and "lru_contract (se_lru env)" and "seq_inv env contents s log"
    and "check_status env (sq_service_status s) d = Inr ()" and "ledger_tx_hash env d = (Inr h, d')"
    and "length log < 2 ^ 63" and "collision_free (te_sha3 env) (map fst log @ [h])"
    and "append_safe (te_sha3 env) (map fst log) h" and "execution_info h = Inr None"
  shows "\<exists>tx s' db' s''. sequence env (Some ms) d s = (Inr tx, s') \<and>
    revert_tx env execution_info (si_tx_order (ltx_sequence_info tx)) (sq_db s') = (Inr True, db') \<and>
    sequencer_new env st db' = Inr s'' \<and> seq_inv env contents s'' log"
proof -
  let ?tx = "sequenced_tx env ms d' h log" and ?sha3 = "te_sha3 env"
  obtain s' nodes where run: "sequence env (Some ms) d s = (Inr ?tx, s')"
    and inv: "seq_inv env contents s' (log @ [(h, stored_tx ?tx)])"
    and nodes: "set nodes = fresh_nodes ?sha3 (map fst log @ [h]) (length log)"
      "node_view env contents (sq_db s') = insert_nodes ?sha3 (node_view env contents (sq_db s)) nodes"
    using sequence_steps [OF assms(1-7)] by blast
  have old: "log \<noteq> []" "collision_free ?sha3 (map fst log)" "nodes_ok ?sha3 (map fst log) (node_view env contents (sq_db s))"
    using assms(3) by (simp_all add: seq_inv_def db_repr_def)
  have "nodes_ok ?sha3 (map fst log) (node_view env contents (sq_db s'))"
    unfolding nodes(2) by (rule nodes_ok_prefix [OF old(3)]) (use nodes(1) assms(8) in simp_all)
  then obtain db' where "revert_tx env execution_info (word_of_nat (length log)) (sq_db s') = (Inr True, db')"
    and "db_repr env contents db' log"
    using revert_tx_eq [where ei = execution_info, OF assms(1) _ old(1) assms(9) old(2)] inv by (auto simp: seq_inv_def)
  moreover have "si_tx_order (ltx_sequence_info ?tx) = word_of_nat (length log)"
    by (simp add: sequenced_tx_def Let_def tx_info_build)
  ultimately show ?thesis
    using run sequencer_new_eq [OF assms(1,2), of db' log st] by metis
qed

theorem revert_undoes_sequence_witness:
  "\<exists>tx s' db' s''. sequence demo_ledger (Some 5) (LedgerL2Tx (demo_l2 1)) demo_actor = (Inr tx, s') \<and>
    revert_tx demo_ledger (\<lambda>_. Inr (None :: unit option)) (si_tx_order (ltx_sequence_info tx)) (sq_db s') = (Inr True, db') \<and>
    sequencer_new demo_ledger Active db' = Inr s'' \<and> seq_inv demo_ledger (\<lambda>db. db) s'' demo_log"
proof (rule revert_undoes_sequence [OF demo_ledger_ok demo_ledger_lru demo_actor_inv(1) _ demo_l2_hash])
  show "check_status demo_ledger (sq_service_status demo_actor) (LedgerL2Tx (demo_l2 1)) = Inr ()"
    by (simp add: demo_actor_inv(2) check_status_def)
qed (use demo_hashes_free in \<open>simp_all add: demo_log_def\<close>)

text \<open>
  C31. Every sequenced transaction can be found and proved: its order leads to its hash, its hash to
  the transaction, and the accumulator gives a proof for the leaf at its order that verifies against
  the root in the summary the sequencer keeps.
\<close>

theorem sequenced_tx_proved:
  assumes "store_ok env contents" and "lru_contract (se_lru env)" and "seq_inv env contents s log"
    and "i < length log" and "64 \<le> fuel"
  shows "\<exists>prf t'. handle_get_tx_hashs env s [word_of_nat i] = Inr [Some (fst (log ! i))] \<and>
    handle_get_transaction_by_hash env s (fst (log ! i)) = Inr (Some (snd (log ! i))) \<and>
    get_proof (acc_env env) fuel (word_of_nat i) (sq_tx_accumulator s) = (Inr (Some prf), t') \<and>
    accumulator_verify (te_sha3 env) prf (ai_accumulator_root (sqi_last_accumulator_info (sq_last_sequencer_info s)))
      (fst (log ! i)) (word_of_nat i) = Inr ()"
proof -
  let ?ls = "map fst log" and ?sha3 = "te_sha3 env"
  note inv = assms(3) [unfolded seq_inv_def]
  have repr: "db_repr env contents (sq_db s) log" and acc: "acc_inv ?sha3 (se_lru env) (node_view env contents) (sq_tx_accumulator s) ?ls"
    using inv by auto
  have i: "i < length ?ls" using assms(4) by simp
  obtain pf t' where "get_proof (acc_env env) fuel (word_of_nat i) (sq_tx_accumulator s) = (Inr (Some pf), t')"
      "accumulator_verify ?sha3 pf (merkle_root ?sha3 ?ls) (?ls ! i) (word_of_nat i) = Inr ()"
    using proof_of_leaf [OF assms(1,2) acc i assms(5)] by blast
  moreover have "sqi_last_accumulator_info (sq_last_sequencer_info s) = summary ?sha3 ?ls"
    using inv by (simp add: last_info_def sequencer_info_new_def)
  ultimately show ?thesis
    using ledger_reads [OF assms(1) repr] log_lookup [OF repr assms(4)] assms(4)
    by (auto simp: handle_get_tx_hashs_def handle_get_transaction_by_hash_def summary_def)
qed

theorem sequenced_tx_proved_witness:
  "\<exists>prf t'. handle_get_tx_hashs demo_ledger demo_actor [word_of_nat 0] = Inr [Some (fst (demo_log ! 0))] \<and>
    handle_get_transaction_by_hash demo_ledger demo_actor (fst (demo_log ! 0)) = Inr (Some (snd (demo_log ! 0))) \<and>
    get_proof (acc_env demo_ledger) 64 (word_of_nat 0) (sq_tx_accumulator demo_actor) = (Inr (Some prf), t') \<and>
    accumulator_verify (te_sha3 demo_ledger) prf
      (ai_accumulator_root (sqi_last_accumulator_info (sq_last_sequencer_info demo_actor)))
      (fst (demo_log ! 0)) (word_of_nat 0) = Inr ()"
  by (rule sequenced_tx_proved [OF demo_ledger_ok demo_ledger_lru demo_actor_inv(1)]) (simp_all add: demo_log_def)

section \<open>A store that fails\<close>

text \<open>
  C32. When the summary of the sequencer cannot be written, \<^verbatim>\<open>sequence\<close> returns an error and the order
  stays, but the leaf stays in the accumulator. The next transaction, with another hash, gets that order
  while its leaf is one further: the order leads to its hash, the summary it carries counts one leaf more,
  and the proof of the accumulator for the order proves the transaction that failed.
\<close>

theorem failed_save_leaves_leaf:
  assumes "store_ok env contents" and "lru_contract (se_lru env)" and "seq_inv env contents s log"
    and "check_status env (sq_service_status s) d = Inr ()" and "check_status env (sq_service_status s) d2 = Inr ()"
    and "ledger_tx_hash env d = (Inr h, d')" and "ledger_tx_hash env d2 = (Inr h2, d2')"
    and "Suc (length log) < 2 ^ 63" and "collision_free (te_sha3 env) (map fst log @ [h])"
    and "collision_free (te_sha3 env) (map fst log @ [h, h2])" and "64 \<le> fuel"
  shows "\<exists>e s1 tx s2 prf t'. sequence (sync_fails err env) (Some ms) d s = (Inl e, s1) \<and> last_order s1 = last_order s \<and>
    sequence env (Some ms2) d2 s1 = (Inr tx, s2) \<and> si_tx_order (ltx_sequence_info tx) = word_of_nat (length log) \<and>
    handle_get_tx_hashs env s2 [si_tx_order (ltx_sequence_info tx)] = Inr [Some h2] \<and>
    ai_num_leaves (tx_accumulator_info (ltx_sequence_info tx)) = si_tx_order (ltx_sequence_info tx) + 2 \<and>
    get_proof (acc_env env) fuel (si_tx_order (ltx_sequence_info tx)) (sq_tx_accumulator s2) = (Inr (Some prf), t') \<and>
    accumulator_verify (te_sha3 env) prf (ai_accumulator_root (tx_accumulator_info (ltx_sequence_info tx))) h
      (si_tx_order (ltx_sequence_info tx)) = Inr () \<and> h \<noteq> h2"
proof -
  let ?ls = "map fst log @ [h, h2]" and ?sha3 = "te_sha3 env"
  obtain e s1 tx s2 where r: "sequence (sync_fails err env) (Some ms) d s = (Inl e, s1)" "last_order s1 = last_order s"
      "sequence env (Some ms2) d2 s1 = (Inr tx, s2)" "si_tx_order (ltx_sequence_info tx) = word_of_nat (length log)"
      "tx_accumulator_info (ltx_sequence_info tx) = summary ?sha3 ?ls"
      "acc_inv ?sha3 (se_lru env) (node_view env contents) (sq_tx_accumulator s2) ?ls" "stores_clean env (contents (sq_db s2))"
      "kv_view (TxSequenceInfoMappingStore env) (contents (sq_db s2)) (word_of_nat (length log)) = Some h2"
    using sequence_after_failed_save [OF assms(1-10)] by blast
  have i: "length log < length ?ls" by simp
  obtain pf t' where p: "get_proof (acc_env env) fuel (word_of_nat (length log)) (sq_tx_accumulator s2) = (Inr (Some pf), t')"
      "accumulator_verify ?sha3 pf (merkle_root ?sha3 ?ls) (?ls ! length log) (word_of_nat (length log)) = Inr ()"
    using proof_of_leaf [OF assms(1,2) r(6) i assms(11)] by blast
  have "handle_get_tx_hashs env s2 [word_of_nat (length log)] = Inr [Some h2]"
    using multiple_get_eq [OF store_okD(1,4) [OF assms(1)], of "sq_db s2"] r(7,8)
    by (simp add: handle_get_tx_hashs_def get_tx_hashs_def stores_clean_def)
  moreover have "h \<noteq> h2" using collision_free_distinct [OF assms(10)] by simp
  moreover have "?ls ! length log = h" by (simp add: nth_append)
  ultimately show ?thesis
    using r p by (intro exI [of _ e] exI [of _ s1] exI [of _ tx] exI [of _ s2] exI [of _ pf] exI [of _ t']) (simp add: summary_def)
qed

lemma demo_third_free: "collision_free demo_sha3 [demo_hash 0, demo_hash 1, demo_hash 2]"
  by code_simp

theorem failed_save_leaves_leaf_witness:
  "\<exists>e s1 tx s2 prf t'. sequence (sync_fails ''IO error'' demo_ledger) (Some 5) (LedgerL2Tx (demo_l2 1)) demo_actor = (Inl e, s1) \<and>
    sequence demo_ledger (Some 6) (LedgerL2Tx (demo_l2 2)) s1 = (Inr tx, s2) \<and> si_tx_order (ltx_sequence_info tx) = 1 \<and>
    handle_get_tx_hashs demo_ledger s2 [1] = Inr [Some (demo_hash 2)] \<and>
    get_proof (acc_env demo_ledger) 64 1 (sq_tx_accumulator s2) = (Inr (Some prf), t') \<and>
    accumulator_verify (te_sha3 demo_ledger) prf (ai_accumulator_root (tx_accumulator_info (ltx_sequence_info tx))) (demo_hash 1) 1 = Inr ()"
proof -
  have c: "check_status demo_ledger (sq_service_status demo_actor) (LedgerL2Tx (demo_l2 n)) = Inr ()" for n
    by (simp add: demo_actor_inv(2) check_status_def)
  have cf: "collision_free (te_sha3 demo_ledger) (map fst demo_log @ [demo_hash 1])"
      "collision_free (te_sha3 demo_ledger) (map fst demo_log @ [demo_hash 1, demo_hash 2])"
    using demo_hashes_free demo_third_free by (simp_all add: demo_log_def)
  have "Suc (length demo_log) < 2 ^ 63" by (simp add: demo_log_def)
  then obtain e s1 tx s2 pf t' where r: "sequence (sync_fails ''IO error'' demo_ledger) (Some 5) (LedgerL2Tx (demo_l2 1)) demo_actor = (Inl e, s1)"
      "sequence demo_ledger (Some 6) (LedgerL2Tx (demo_l2 2)) s1 = (Inr tx, s2)" "si_tx_order (ltx_sequence_info tx) = word_of_nat (length demo_log)"
      "handle_get_tx_hashs demo_ledger s2 [si_tx_order (ltx_sequence_info tx)] = Inr [Some (demo_hash 2)]"
      "get_proof (acc_env demo_ledger) 64 (si_tx_order (ltx_sequence_info tx)) (sq_tx_accumulator s2) = (Inr (Some pf), t')"
      "accumulator_verify (te_sha3 demo_ledger) pf (ai_accumulator_root (tx_accumulator_info (ltx_sequence_info tx))) (demo_hash 1)
        (si_tx_order (ltx_sequence_info tx)) = Inr ()"
    using failed_save_leaves_leaf [where err = "''IO error''" and ms = 5 and ?ms2.0 = 6,
        OF demo_ledger_ok demo_ledger_lru demo_actor_inv(1) c c demo_l2_hash demo_l2_hash _ cf order_refl] by blast
  have "si_tx_order (ltx_sequence_info tx) = 1" using r(3) by (simp add: demo_log_def)
  with r show ?thesis by auto
qed

end
