(* ===== verification/Da_Segment.thy ===== *)
theory Da_Segment
  imports Le_Bytes Text_Format Accumulator_Node
begin

text \<open>
  The data-availability layer (\<^verbatim>\<open>rooch-da\<close>): segments with their checksums and identifiers
  (\<^verbatim>\<open>segment.rs\<close>), the split of a batch into segments by the OpenDA server, and the submission of a
  batch to several servers (\<^verbatim>\<open>actor/da.rs\<close>, \<^verbatim>\<open>da_config.rs\<close>). The checksum \<^verbatim>\<open>xxh3_64\<close>, BCS and the
  object store (\<^verbatim>\<open>opendal\<close>) are arguments.
\<close>

section \<open>Segments\<close>

type_synonym u128 = "128 word"

datatype SegmentVersion = V0 | Unknown u8

definition version_from_u8 :: "u8 \<Rightarrow> SegmentVersion" where
  "version_from_u8 num = (if num = 0 then V0 else Unknown num)"

fun version_to_u8 :: "SegmentVersion \<Rightarrow> u8" where
  "version_to_u8 V0 = 0"
| "version_to_u8 (Unknown num) = num"

definition SEGMENT_V0_DATA_OFFSET :: nat where
  "SEGMENT_V0_DATA_OFFSET = 42"

definition SEGMENT_V0_CHECKSUM_OFFSET :: nat where
  "SEGMENT_V0_CHECKSUM_OFFSET = 34"

record SegmentID =
  sid_chunk_id :: u128
  sid_segment_number :: u64

definition segment_id_to_string :: "SegmentID \<Rightarrow> string" where
  "segment_id_to_string sid = show_nat (unat (sid_chunk_id sid)) @ CHR ''_'' # show_nat (unat (sid_segment_number sid))"

definition segment_id_from_str :: "string \<Rightarrow> SegmentID result" where
  "segment_id_from_str s =
     (case split_on CHR ''_'' s of
        [a, b] \<Rightarrow>
          and_then (ok_or (parse_uint 128 a) ''invalid chunk_id'') (\<lambda>chunk_id.
          and_then (ok_or (parse_uint 64 b) ''invalid segment_id'') (\<lambda>segment_id.
          Inr \<lparr>sid_chunk_id = word_of_nat chunk_id, sid_segment_number = word_of_nat segment_id\<rparr>))
      | _ \<Rightarrow> Inl (Fail ''invalid string format for segment_id''))"

record SegmentV0 =
  sg_id :: SegmentID
  sg_is_last :: bool
  sg_data_checksum :: u64
  sg_checksum :: u64
  sg_data :: bytes

type_synonym xxh3 = "bytes \<Rightarrow> u64"

text \<open>The checksum fields of the value are ignored: both checksums are computed.\<close>

definition segment_to_bytes :: "xxh3 \<Rightarrow> SegmentV0 \<Rightarrow> bytes" where
  "segment_to_bytes xxh3_64 seg =
     (let data_checksum = xxh3_64 (sg_data seg);
          head = version_to_u8 V0 # to_le_bytes 16 (sid_chunk_id (sg_id seg)) @
                 to_le_bytes 8 (sid_segment_number (sg_id seg)) @ [if sg_is_last seg then 1 else 0] @
                 to_le_bytes 8 data_checksum;
          checksum = xxh3_64 (take SEGMENT_V0_CHECKSUM_OFFSET head)
      in head @ to_le_bytes 8 checksum @ sg_data seg)"

text \<open>\<^verbatim>\<open>bytes[a..b]\<close>, with \<^verbatim>\<open>b\<close> within the bytes.\<close>

definition byte_range :: "nat \<Rightarrow> nat \<Rightarrow> bytes \<Rightarrow> bytes" where
  "byte_range a b bs = take (b - a) (drop a bs)"

definition segment_v0_from_bytes :: "xxh3 \<Rightarrow> bytes \<Rightarrow> SegmentV0 result" where
  "segment_v0_from_bytes xxh3_64 bs =
     and_then (ensure_that (\<not> length bs < SEGMENT_V0_DATA_OFFSET) ''segment_v0: bytes less than 42'') (\<lambda>_.
     let chunk_id = from_le_bytes (byte_range 1 17 bs);
         segment_number = from_le_bytes (byte_range 17 25 bs);
         is_last = bs ! 25 \<noteq> 0;
         data_checksum = from_le_bytes (byte_range 26 34 bs);
         checksum = from_le_bytes (byte_range 34 SEGMENT_V0_DATA_OFFSET bs);
         data = drop SEGMENT_V0_DATA_OFFSET bs
     in and_then (ensure_that (xxh3_64 (take SEGMENT_V0_CHECKSUM_OFFSET bs) = checksum) ''segment_v0: checksum mismatch'') (\<lambda>_.
        and_then (ensure_that (xxh3_64 data = data_checksum) ''segment_v0: data checksum mismatch'') (\<lambda>_.
        Inr \<lparr>sg_id = \<lparr>sid_chunk_id = chunk_id, sid_segment_number = segment_number\<rparr>, sg_is_last = is_last,
             sg_data_checksum = data_checksum, sg_checksum = checksum, sg_data = data\<rparr>)))"

definition get_version :: "SegmentV0 \<Rightarrow> SegmentVersion" where
  "get_version seg = V0"

definition get_id :: "SegmentV0 \<Rightarrow> SegmentID" where
  "get_id seg = sg_id seg"

fun get_data_offset :: "SegmentVersion \<Rightarrow> nat result" where
  "get_data_offset V0 = Inr SEGMENT_V0_DATA_OFFSET"
| "get_data_offset (Unknown _) = Inl (Panic ''unsupported segment version'')"

definition segment_from_bytes :: "xxh3 \<Rightarrow> bytes \<Rightarrow> SegmentV0 result" where
  "segment_from_bytes xxh3_64 bs =
     (case bs of
        [] \<Rightarrow> Inl (Panic ''index out of bounds'')
      | version # _ \<Rightarrow>
          (case version_from_u8 version of
             V0 \<Rightarrow> segment_v0_from_bytes xxh3_64 bs
           | Unknown _ \<Rightarrow> Inl (Fail ''unsupported segment version'')))"

section \<open>Publishing a batch\<close>

record Batch =
  ba_block_number :: u128
  ba_batch_hash :: H256
  ba_data :: bytes

record DABatchV0 =
  db_version :: u8
  db_block_number :: u128
  db_batch_hash :: H256
  db_data :: bytes

text \<open>\<^verbatim>\<open>slice::chunks\<close>; a chunk size of zero panics.\<close>

function chunks_of :: "nat \<Rightarrow> 'a list \<Rightarrow> 'a list list" where
  "chunks_of n xs = (if n = 0 \<or> xs = [] then [] else take n xs # chunks_of n (drop n xs))"
  by pat_completeness auto
termination by (relation "measure (\<lambda>(n, xs). length xs)") auto

declare chunks_of.simps [simp del]

definition chunks :: "nat \<Rightarrow> 'a list \<Rightarrow> 'a list list result" where
  "chunks n xs = and_then (assert_that (n \<noteq> 0) ''chunk size must be non-zero'') (\<lambda>_. Inr (chunks_of n xs))"

record 'op da_env =
  da_xxh3 :: xxh3
  da_encode :: "DABatchV0 \<Rightarrow> bytes result"
  da_write :: "string \<Rightarrow> bytes \<Rightarrow> ('op, unit) action"

definition chunk_segment :: "u128 \<Rightarrow> nat \<Rightarrow> nat \<times> bytes \<Rightarrow> SegmentV0" where
  "chunk_segment chunk_id num_segs = (\<lambda>(i, data).
     \<lparr>sg_id = \<lparr>sid_chunk_id = chunk_id, sid_segment_number = word_of_nat i\<rparr>, sg_is_last = (i = num_segs - 1),
      sg_data_checksum = 0, sg_checksum = 0, sg_data = data\<rparr>)"

fun write_segments :: "'op da_env \<Rightarrow> SegmentV0 list \<Rightarrow> ('op, unit) action" where
  "write_segments env [] = return_act ()"
| "write_segments env (seg # segs) =
     bind_act (da_write env (segment_id_to_string (sg_id seg)) (segment_to_bytes (da_xxh3 env) seg)) (\<lambda>_.
     write_segments env segs)"

definition pub_batch :: "'op da_env \<Rightarrow> nat \<Rightarrow> Batch \<Rightarrow> ('op, unit) action" where
  "pub_batch env max_segment_size batch =
     (let chunk = \<lparr>db_version = 0, db_block_number = ba_block_number batch, db_batch_hash = ba_batch_hash batch,
                   db_data = ba_data batch\<rparr> in
      bind_act (lift_act (case da_encode env chunk of Inl (Fail _) \<Rightarrow> Inl (Panic ''called Result::unwrap() on an Err value'')
                          | r \<Rightarrow> r)) (\<lambda>chunk_bytes.
      bind_act (lift_act (chunks max_segment_size chunk_bytes)) (\<lambda>segs.
      write_segments env (map (chunk_segment (ba_block_number batch) (length segs)) (enumerate 0 segs)))))"

section \<open>Submitting to several servers\<close>

datatype DAServerSubmitStrategy = All | Quorum | Number nat

record 'cfg InternalDAServerConfig =
  ic_submit_strategy :: "DAServerSubmitStrategy option"
  ic_servers :: "'cfg list"

definition adjust_submit_strategy :: "'cfg InternalDAServerConfig \<Rightarrow> 'cfg InternalDAServerConfig" where
  "adjust_submit_strategy c =
     (let strategy = (case ic_submit_strategy c of None \<Rightarrow> All | Some s \<Rightarrow> s) in
      c\<lparr>ic_submit_strategy := Some (case strategy of Number num \<Rightarrow> Number (max 1 (min num (length (ic_servers c)))) | _ \<Rightarrow> strategy)\<rparr>)"

definition calculate_submit_threshold :: "'cfg InternalDAServerConfig \<Rightarrow> nat" where
  "calculate_submit_threshold c0 =
     (let c = adjust_submit_strategy c0; servers_count = length (ic_servers c) in
      case ic_submit_strategy c of
        Some All \<Rightarrow> servers_count
      | Some Quorum \<Rightarrow> servers_count div 2 + 1
      | Some (Number number) \<Rightarrow> number
      | None \<Rightarrow> servers_count)"

text \<open>
  The servers a configuration starts; \<open>start\<close> makes the actor of one server, or fails. Without a
  configuration the one server accepts everything.
\<close>

record 'srv DAActor =
  dc_servers :: "'srv list"
  dc_submit_threshold :: nat

definition da_actor_new :: "('cfg \<Rightarrow> 'srv result) \<Rightarrow> 'srv \<Rightarrow> 'cfg InternalDAServerConfig option \<Rightarrow> 'srv DAActor result" where
  "da_actor_new start nop cfg =
     and_then
       (case cfg of
          Some c \<Rightarrow> and_then (try_map start (ic_servers c)) (\<lambda>servers. Inr (servers, calculate_submit_threshold c))
        | None \<Rightarrow> Inr ([nop], 1)) (\<lambda>(servers, submit_threshold).
     and_then (ensure_that (\<not> length servers < submit_threshold)
       ''failed to start da: not enough servers for future submissions'') (\<lambda>_.
     Inr \<lparr>dc_servers = servers, dc_submit_threshold = submit_threshold\<rparr>))"

text \<open>
  The servers answer in any order; \<open>outcomes\<close> lists their answers as they arrive. The loop stops at
  the answer that reaches the threshold.
\<close>

fun submit_loop :: "nat \<Rightarrow> nat \<Rightarrow> unit result list \<Rightarrow> unit result" where
  "submit_loop submit_threshold success_count [] =
     (if success_count < submit_threshold then Inl (Fail ''not enough successful submissions'') else Inr ())"
| "submit_loop submit_threshold success_count (Inr _ # rs) =
     (if submit_threshold \<le> Suc success_count then Inr () else submit_loop submit_threshold (Suc success_count) rs)"
| "submit_loop submit_threshold success_count (Inl _ # rs) = submit_loop submit_threshold success_count rs"

definition submit_batch :: "'srv DAActor \<Rightarrow> unit result list \<Rightarrow> unit result" where
  "submit_batch da outcomes = submit_loop (dc_submit_threshold da) 0 outcomes"

section \<open>Round trips\<close>

lemma segment_id_round_trip: "segment_id_from_str (segment_id_to_string sid) = Inr sid"
proof -
  have no: "CHR ''_'' \<notin> set (show_nat n)" for n using show_nat_chars by blast
  have "unat w < 2 ^ LENGTH('a)" for w :: "'a::len word" by (rule unsigned_less)
  from this [of "sid_chunk_id sid"] this [of "sid_segment_number sid"]
  show ?thesis
    by (simp add: segment_id_from_str_def segment_id_to_string_def split_on_append no split_on_none parse_uint_show)
qed

lemma segment_id_to_string_inj: "segment_id_to_string a = segment_id_to_string b \<longleftrightarrow> a = b"
  using segment_id_round_trip by (metis sum.inject(2))

text \<open>What comes back is the segment with its checksums filled in.\<close>

definition with_checksums :: "xxh3 \<Rightarrow> SegmentV0 \<Rightarrow> SegmentV0" where
  "with_checksums xxh3_64 seg =
     seg\<lparr>sg_data_checksum := xxh3_64 (sg_data seg),
         sg_checksum := from_le_bytes (byte_range 34 42 (segment_to_bytes xxh3_64 seg))\<rparr>"

lemma byte_range_append: "length xs = a \<Longrightarrow> length ys = b - a \<Longrightarrow> byte_range a b (xs @ ys @ zs) = ys"
  by (simp add: byte_range_def)

lemma segment_round_trip: "segment_from_bytes xxh3_64 (segment_to_bytes xxh3_64 seg) = Inr (with_checksums xxh3_64 seg)"
proof -
  define cs where "cs = to_le_bytes 16 (sid_chunk_id (sg_id seg))"
  define sn where "sn = to_le_bytes 8 (sid_segment_number (sg_id seg))"
  define il :: u8 where "il = (if sg_is_last seg then 1 else 0)"
  define dc where "dc = to_le_bytes 8 (xxh3_64 (sg_data seg))"
  define head where "head = 0 # cs @ sn @ [il] @ dc"
  define ck where "ck = xxh3_64 head"
  have len: "length cs = 16" "length sn = 8" "length dc = 8" "length head = 34"
    by (simp_all add: cs_def sn_def dc_def head_def)
  have bs: "segment_to_bytes xxh3_64 seg = head @ to_le_bytes 8 ck @ sg_data seg"
    using len(4) by (simp add: segment_to_bytes_def Let_def SEGMENT_V0_CHECKSUM_OFFSET_def head_def ck_def cs_def sn_def il_def dc_def)
  let ?bs = "segment_to_bytes xxh3_64 seg"
  have "byte_range 1 17 ?bs = cs" "byte_range 17 25 ?bs = sn" "byte_range 26 34 ?bs = dc" "?bs ! 25 = il"
    using len(1-3) by (simp_all add: bs head_def byte_range_def nth_append)
  moreover have "byte_range 34 42 ?bs = to_le_bytes 8 ck" "take 34 ?bs = head" "drop 42 ?bs = sg_data seg" "\<not> length ?bs < 42"
    using len(4) by (simp_all add: bs byte_range_def)
  moreover have "il \<noteq> 0 \<longleftrightarrow> sg_is_last seg" by (simp add: il_def)
  ultimately have "segment_v0_from_bytes xxh3_64 ?bs = Inr (with_checksums xxh3_64 seg)"
    by (simp add: segment_v0_from_bytes_def SEGMENT_V0_DATA_OFFSET_def SEGMENT_V0_CHECKSUM_OFFSET_def with_checksums_def
        ck_def cs_def sn_def dc_def Let_def)
  moreover have "\<exists>r. ?bs = 0 # r" by (simp add: bs head_def)
  ultimately show ?thesis by (auto simp: segment_from_bytes_def version_from_u8_def)
qed

section \<open>The segments of a batch\<close>

lemma concat_chunks_of: "n \<noteq> 0 \<Longrightarrow> concat (chunks_of n xs) = xs"
  by (induction n xs rule: chunks_of.induct) (subst chunks_of.simps, simp)

lemma chunks_of_sizes: "c \<in> set (chunks_of n xs) \<Longrightarrow> c \<noteq> [] \<and> length c \<le> n"
  by (induction n xs rule: chunks_of.induct) (subst (asm) (2) chunks_of.simps, auto split: if_splits)

lemma length_chunks_of: "length (chunks_of n xs) \<le> length xs"
proof (induction n xs rule: chunks_of.induct)
  case (1 n xs)
  show ?case
  proof (cases "n = 0 \<or> xs = []")
    case True
    then show ?thesis by (subst chunks_of.simps) simp
  next
    case False
    then have "length (drop n xs) < length xs" by simp
    with 1 [OF False] have "length (chunks_of n (drop n xs)) < length xs" by linarith
    with False show ?thesis by (subst chunks_of.simps) simp
  qed
qed

text \<open>The object store keeps what is written under a name.\<close>

definition write_contract :: "'op da_env \<Rightarrow> ('op \<Rightarrow> string \<rightharpoonup> bytes) \<Rightarrow> bool" where
  "write_contract env view \<longleftrightarrow>
     (\<forall>name bs op. \<exists>op'. da_write env name bs op = (Inr (), op') \<and> view op' = (view op)(name \<mapsto> bs))"

lemma write_segments_eq:
  assumes "write_contract env view"
  shows "\<exists>op'. write_segments env segs op = (Inr (), op') \<and>
    view op' = foldl (\<lambda>m seg. m(segment_id_to_string (sg_id seg) \<mapsto> segment_to_bytes (da_xxh3 env) seg)) (view op) segs"
proof (induction segs arbitrary: op)
  case Nil
  then show ?case by (simp add: return_act_def)
next
  case (Cons seg segs)
  obtain op1 where "da_write env (segment_id_to_string (sg_id seg)) (segment_to_bytes (da_xxh3 env) seg) op = (Inr (), op1)"
    and "view op1 = (view op)(segment_id_to_string (sg_id seg) \<mapsto> segment_to_bytes (da_xxh3 env) seg)"
    using assms unfolding write_contract_def by blast
  with Cons [of op1] show ?case by simp
qed

lemma foldl_updates_distinct:
  assumes "distinct (map k xs)" and "x \<in> set xs"
  shows "foldl (\<lambda>m x. m(k x \<mapsto> v x)) m xs (k x) = Some (v x)"
  using assms
proof (induction xs arbitrary: m)
  case (Cons y ys)
  have other: "foldl (\<lambda>m x. m(k x \<mapsto> v x)) m ys (k y) = m (k y)" if "k y \<notin> set (map k ys)" for m
    using that by (induction ys arbitrary: m) auto
  show ?case
  proof (cases "x \<in> set ys")
    case False
    with Cons.prems have "x = y" by simp
    with Cons.prems other [of "m(k y \<mapsto> v y)"] show ?thesis by (simp del: fun_upd_apply) simp
  qed (use Cons in simp)
qed simp

definition batch_chunk :: "Batch \<Rightarrow> DABatchV0" where
  "batch_chunk batch =
     \<lparr>db_version = 0, db_block_number = ba_block_number batch, db_batch_hash = ba_batch_hash batch, db_data = ba_data batch\<rparr>"

definition batch_segments :: "u128 \<Rightarrow> nat \<Rightarrow> bytes \<Rightarrow> SegmentV0 list" where
  "batch_segments chunk_id n bs = map (chunk_segment chunk_id (length (chunks_of n bs))) (enumerate 0 (chunks_of n bs))"

lemma length_batch_segments: "length (batch_segments chunk_id n bs) = length (chunks_of n bs)"
  by (simp add: batch_segments_def)

lemma nth_batch_segments:
  assumes "i < length (chunks_of n bs)"
  shows "batch_segments chunk_id n bs ! i = chunk_segment chunk_id (length (chunks_of n bs)) (i, chunks_of n bs ! i)"
  using assms by (simp add: batch_segments_def nth_enumerate_eq)

lemma concat_batch_segments: "n \<noteq> 0 \<Longrightarrow> concat (map sg_data (batch_segments chunk_id n bs)) = bs"
proof -
  have "map sg_data (batch_segments chunk_id n bs) = chunks_of n bs"
    by (rule nth_equalityI) (simp_all add: length_batch_segments nth_batch_segments chunk_segment_def)
  then show "n \<noteq> 0 \<Longrightarrow> ?thesis" by (simp add: concat_chunks_of)
qed

lemma batch_segment_names_distinct:
  assumes "length bs < 2 ^ 64"
  shows "distinct (map (\<lambda>seg. segment_id_to_string (sg_id seg)) (batch_segments chunk_id n bs))"
proof -
  have len: "length (chunks_of n bs) < 2 ^ 64" using length_chunks_of [of n bs] assms by simp
  have "map (\<lambda>seg. segment_id_to_string (sg_id seg)) (batch_segments chunk_id n bs) =
      map (\<lambda>i. segment_id_to_string \<lparr>sid_chunk_id = chunk_id, sid_segment_number = word_of_nat i\<rparr>) [0..<length (chunks_of n bs)]"
    by (rule nth_equalityI) (simp_all add: length_batch_segments nth_batch_segments chunk_segment_def)
  moreover have "i = j" if "i < length (chunks_of n bs)" "j < length (chunks_of n bs)"
      "(word_of_nat i :: u64) = word_of_nat j" for i j
  proof -
    have "unat (word_of_nat i :: u64) = i" "unat (word_of_nat j :: u64) = j"
      using that(1,2) len by (simp_all add: unat_of_nat)
    with that(3) show ?thesis by metis
  qed
  ultimately show ?thesis by (auto simp: distinct_map inj_on_def segment_id_to_string_inj)
qed

lemma pub_batch_eq:
  assumes "write_contract env view" and "n \<noteq> 0" and "da_encode env (batch_chunk batch) = Inr bs" and "length bs < 2 ^ 64"
  defines "segs \<equiv> batch_segments (ba_block_number batch) n bs"
  shows "\<exists>op'. pub_batch env n batch op = (Inr (), op') \<and>
    (\<forall>seg \<in> set segs. view op' (segment_id_to_string (sg_id seg)) = Some (segment_to_bytes (da_xxh3 env) seg))"
proof -
  obtain op' where "write_segments env segs op = (Inr (), op')"
    and v: "view op' = foldl (\<lambda>m seg. m(segment_id_to_string (sg_id seg) \<mapsto> segment_to_bytes (da_xxh3 env) seg)) (view op) segs"
    using write_segments_eq [OF assms(1)] by blast
  then have "pub_batch env n batch op = (Inr (), op')"
    using assms(2,3) by (simp add: pub_batch_def batch_chunk_def chunks_def segs_def batch_segments_def Let_def)
  moreover have "view op' (segment_id_to_string (sg_id seg)) = Some (segment_to_bytes (da_xxh3 env) seg)" if "seg \<in> set segs" for seg
    unfolding v by (rule foldl_updates_distinct [OF _ that]) (simp add: segs_def batch_segment_names_distinct [OF assms(4)])
  ultimately show ?thesis by blast
qed

section \<open>Counting the answers\<close>

lemma submit_loop_eq:
  "c < t \<Longrightarrow> submit_loop t c rs = Inr () \<longleftrightarrow> t \<le> c + length (filter (\<lambda>r. \<not> isl r) rs)"
proof (induction t c rs rule: submit_loop.induct)
  case (2 t c u rs)
  show ?case
  proof (cases "t \<le> Suc c")
    case False
    then show ?thesis using 2 by simp
  qed (use 2 in auto)
qed auto

lemma threshold_within:
  assumes "ic_servers c \<noteq> []"
  shows "0 < calculate_submit_threshold c \<and> calculate_submit_threshold c \<le> length (ic_servers c)"
proof -
  have "0 < length (ic_servers c)" using assms by simp
  then have "Suc (length (ic_servers c) div 2) \<le> length (ic_servers c)" "1 \<le> length (ic_servers c)" by linarith+
  then show ?thesis
    by (auto simp: calculate_submit_threshold_def adjust_submit_strategy_def Let_def split: option.split DAServerSubmitStrategy.split)
qed

end
