(* ===== verification/Btree_Map.thy ===== *)
theory Btree_Map
  imports Rooch_Prelude
begin

text \<open>
  A \<^verbatim>\<open>BTreeMap\<close> as the list of its entries in ascending order of their keys.
\<close>

fun btree_insert :: "'k::linorder \<Rightarrow> 'v \<Rightarrow> ('k \<times> 'v) list \<Rightarrow> ('k \<times> 'v) list" where
  "btree_insert k v [] = [(k, v)]"
| "btree_insert k v ((k', v') # kvs) =
     (if k < k' then (k, v) # (k', v') # kvs
      else if k = k' then (k, v) # kvs
      else (k', v') # btree_insert k v kvs)"

text \<open>Collecting pairs: the last pair of a key wins.\<close>

definition btree_of_list :: "('k::linorder \<times> 'v) list \<Rightarrow> ('k \<times> 'v) list" where
  "btree_of_list kvs = foldl (\<lambda>m (k, v). btree_insert k v m) [] kvs"

lemma btree_insert_keys: "fst ` set (btree_insert k v kvs) = insert k (fst ` set kvs)"
  by (induction k v kvs rule: btree_insert.induct) auto

lemma btree_insert_sorted:
  "sorted_wrt (<) (map fst kvs) \<Longrightarrow> sorted_wrt (<) (map fst (btree_insert k v kvs))"
proof (induction k v kvs rule: btree_insert.induct)
  case (2 k v k' v' kvs)
  have keys: "set (map fst (btree_insert k v kvs)) = insert k (set (map fst kvs))" using btree_insert_keys [of k v kvs] by simp
  show ?case
  proof (cases "k < k'")
    case True
    with 2 show ?thesis by fastforce
  next
    case False
    with 2 keys show ?thesis by (auto simp: not_less)
  qed
qed simp

lemma btree_insert_lookup:
  "sorted_wrt (<) (map fst kvs) \<Longrightarrow> map_of (btree_insert k v kvs) = (map_of kvs)(k \<mapsto> v)"
proof (induction k v kvs rule: btree_insert.induct)
  case (2 k v k' v' kvs)
  have "k \<notin> fst ` set kvs" if "k < k'" using 2(2) that by auto
  with 2 show ?case by (auto simp: fun_eq_iff)
qed simp

lemma btree_of_list_sorted: "sorted_wrt (<) (map fst (btree_of_list kvs))"
proof -
  have "sorted_wrt (<) (map fst m) \<Longrightarrow> sorted_wrt (<) (map fst (foldl (\<lambda>m (k, v). btree_insert k v m) m kvs))" for m :: "('a \<times> 'b) list"
    by (induction kvs arbitrary: m) (auto simp: btree_insert_sorted)
  from this [of "[]"] show ?thesis by (simp add: btree_of_list_def)
qed

lemma btree_insert_last: "(\<And>k' v'. (k', v') \<in> set kvs \<Longrightarrow> k' < k) \<Longrightarrow> btree_insert k v kvs = kvs @ [(k, v)]"
proof (induction kvs)
  case (Cons kv kvs)
  obtain k' v' where kv: "kv = (k', v')" by fastforce
  with Cons.prems have "k' < k" by auto
  then have "\<not> k < k'" "k \<noteq> k'" by auto
  with Cons show ?case by (auto simp: kv)
qed simp

lemma sorted_last_max:
  "sorted_wrt (<) (map fst kvs) \<Longrightarrow> (k, v) \<in> set kvs \<Longrightarrow> k \<le> fst (last kvs)" for k :: "'k::linorder"
  by (induction kvs rule: rev_induct) (auto simp: sorted_wrt_append intro: less_imp_le)

end
