(* ===== verification/Execution_Info.thy ===== *)
theory Execution_Info
  imports Accumulator_Node
begin

text \<open>
  The record kept of an executed transaction (\<^verbatim>\<open>moveos-types/src/transaction.rs\<close>), which the executor writes and
  the proposer reads. The status is a type of the Move VM and a parameter.
\<close>

record 'st TransactionExecutionInfo =
  xi_tx_hash :: H256
  xi_state_root :: H256
  xi_size :: u64
  xi_event_root :: H256
  xi_gas_used :: u64
  xi_status :: 'st

definition execution_info_new :: "H256 \<Rightarrow> H256 \<Rightarrow> u64 \<Rightarrow> H256 \<Rightarrow> u64 \<Rightarrow> 'st \<Rightarrow> 'st TransactionExecutionInfo" where
  "execution_info_new tx_hash state_root sz event_root gas_used status =
     \<lparr>xi_tx_hash = tx_hash, xi_state_root = state_root, xi_size = sz, xi_event_root = event_root, xi_gas_used = gas_used,
      xi_status = status\<rparr>"

text \<open>The BCS encoding, which the source unwraps, is an argument.\<close>

definition execution_info_id :: "hasher \<Rightarrow> ('st TransactionExecutionInfo \<Rightarrow> bytes option) \<Rightarrow> 'st TransactionExecutionInfo \<Rightarrow> H256 result" where
  "execution_info_id sha3 bcs info =
     and_then (expect (bcs info) ''called Result::unwrap() on an Err value'') (\<lambda>bs. Inr (sha3 bs))"

end
