(* ===== verification/Rooch_Proposer.thy ===== *)
theory Rooch_Proposer
  imports Da_Segment Rooch_Sequencer Btree_Map Execution_Info
begin

text \<open>
  The proposer (\<^verbatim>\<open>rooch-proposer\<close>): executed transactions are buffered and, on a timer tick, cut into
  a block of the state commitment chain, after the encoded batch was accepted by the
  data-availability layer. The encoding of a ledger transaction and the submission are arguments; the
  submission acts on the state \<open>'w\<close> of the servers.
\<close>

section \<open>The state commitment chain\<close>

record ('act, 'auth, 'st) TransactionProposeMessage =
  pm_tx :: "('act, 'auth) LedgerTransaction"
  pm_tx_execution_info :: "'st TransactionExecutionInfo"

record Block =
  bl_block_number :: u128
  bl_batch_size :: u64
  bl_prev_tx_accumulator_root :: H256
  bl_tx_accumulator_root :: H256
  bl_state_roots :: "H256 list"

text \<open>A \<^verbatim>\<open>BTreeMap\<close> is the list of its entries in the order of their keys.\<close>

record ('act, 'auth, 'st) StateCommitmentChain =
  scc_blocks :: "(u128 \<times> Block) list"
  scc_buffer :: "('act, 'auth, 'st) TransactionProposeMessage list"

record ('act, 'auth, 'w) propose_env =
  pe_sha3 :: hasher
  pe_encode :: "('act, 'auth) LedgerTransaction \<Rightarrow> bytes result"
  pe_submit_batch :: "Batch \<Rightarrow> ('w, unit) action"

definition scc_new :: "('act, 'auth, 'st) StateCommitmentChain" where
  "scc_new = \<lparr>scc_blocks = [], scc_buffer = []\<rparr>"

definition append_transaction ::
    "('act, 'auth, 'st) TransactionProposeMessage \<Rightarrow> ('act, 'auth, 'st) StateCommitmentChain \<Rightarrow>
     ('act, 'auth, 'st) StateCommitmentChain" where
  "append_transaction tx c = c\<lparr>scc_buffer := scc_buffer c @ [tx]\<rparr>"

definition append_block ::
    "Block \<Rightarrow> ('act, 'auth, 'st) StateCommitmentChain \<Rightarrow> ('act, 'auth, 'st) StateCommitmentChain" where
  "append_block block c = c\<lparr>scc_blocks := btree_insert (bl_block_number block) block (scc_blocks c)\<rparr>"

definition last_block :: "('act, 'auth, 'st) StateCommitmentChain \<Rightarrow> Block option" where
  "last_block c = (if scc_blocks c = [] then None else Some (snd (last (scc_blocks c))))"

definition last_block_number :: "('act, 'auth, 'st) StateCommitmentChain \<Rightarrow> u128 option" where
  "last_block_number c = (if scc_blocks c = [] then None else Some (fst (last (scc_blocks c))))"

definition H256_zero :: H256 where
  "H256_zero = replicate 32 0"

text \<open>The number of the next block and the root it builds on.\<close>

definition next_block :: "('act, 'auth, 'st) StateCommitmentChain \<Rightarrow> (u128 \<times> H256) result" where
  "next_block c =
     (case last_block c of
        Some block \<Rightarrow> and_then (checked_add (bl_block_number block) 1) (\<lambda>n. Inr (n, bl_tx_accumulator_root block))
      | None \<Rightarrow> Inr (0, H256_zero))"

text \<open>
  A refused submission is logged, and no block is made.
\<close>

definition propose_block ::
    "('act, 'auth, 'w) propose_env \<Rightarrow> (('act, 'auth, 'st) StateCommitmentChain \<times> 'w, Block option) action" where
  "propose_block env st =
     (case st of (c, w) \<Rightarrow>
        if scc_buffer c = [] then (Inr None, (c, w))
        else
          let tx_accumulator_root = si_tx_accumulator_root (ltx_sequence_info (pm_tx (last (scc_buffer c))));
              state_roots = map (\<lambda>tx. xi_state_root (pm_tx_execution_info tx)) (scc_buffer c);
              batch_size = word_of_nat (length (scc_buffer c)) in
          case next_block c of
            Inl e \<Rightarrow> (Inl e, (c, w))
          | Inr (block_number, prev_tx_accumulator_root) \<Rightarrow>
              (case expect_ok (try_map (\<lambda>tx. pe_encode env (pm_tx tx)) (scc_buffer c)) ''encode transaction should success'' of
                 Inl e \<Rightarrow> (Inl e, (c, w))
               | Inr encoded \<Rightarrow>
                   let batch_data = concat encoded;
                       batch = \<lparr>ba_block_number = block_number, ba_batch_hash = pe_sha3 env batch_data, ba_data = batch_data\<rparr> in
                   (case pe_submit_batch env batch w of
                      (Inl (Fail _), w') \<Rightarrow> (Inr None, (c, w'))
                    | (Inl e, w') \<Rightarrow> (Inl e, (c, w'))
                    | (Inr _, w') \<Rightarrow>
                        let new_block = \<lparr>bl_block_number = block_number, bl_batch_size = batch_size,
                              bl_prev_tx_accumulator_root = prev_tx_accumulator_root,
                              bl_tx_accumulator_root = tx_accumulator_root, bl_state_roots = state_roots\<rparr>;
                            c' = (append_block new_block c)\<lparr>scc_buffer := []\<rparr> in
                        (Inr (last_block c'), (c', w')))))"

section \<open>Runs of the proposer\<close>

text \<open>
  The actor handles one message at a time: a transaction to propose, or the tick that proposes a
  block. A run is indexed by the transactions received so far; the servers may do anything.
\<close>

inductive scc_run ::
    "('act, 'auth, 'w) propose_env \<Rightarrow> ('act, 'auth, 'st) TransactionProposeMessage list \<Rightarrow>
     ('act, 'auth, 'st) StateCommitmentChain \<Rightarrow> 'w \<Rightarrow> bool" for env where
  scc_start: "scc_run env [] scc_new w"
| scc_append: "scc_run env ms c w \<Longrightarrow> scc_run env (ms @ [m]) (append_transaction m c) w"
| scc_propose: "scc_run env ms c w \<Longrightarrow> propose_block env (c, w) = (r, (c', w')) \<Longrightarrow> scc_run env ms c' w'"
| scc_servers: "scc_run env ms c w \<Longrightarrow> scc_run env ms c w'"

inductive_cases scc_runE: "scc_run env ms c w"

text \<open>The block made of one batch, on top of the block that ends with the root \<open>prev\<close>.\<close>

definition batch_root :: "('act, 'auth, 'st) TransactionProposeMessage list \<Rightarrow> H256" where
  "batch_root ms = si_tx_accumulator_root (ltx_sequence_info (pm_tx (last ms)))"

definition block_of :: "nat \<Rightarrow> H256 \<Rightarrow> ('act, 'auth, 'st) TransactionProposeMessage list \<Rightarrow> Block" where
  "block_of n prev ms =
     \<lparr>bl_block_number = word_of_nat n, bl_batch_size = word_of_nat (length ms), bl_prev_tx_accumulator_root = prev,
      bl_tx_accumulator_root = batch_root ms, bl_state_roots = map (\<lambda>tx. xi_state_root (pm_tx_execution_info tx)) ms\<rparr>"

definition prev_root :: "('act, 'auth, 'st) TransactionProposeMessage list list \<Rightarrow> nat \<Rightarrow> H256" where
  "prev_root batches n = (if n = 0 then H256_zero else batch_root (batches ! (n - 1)))"

definition chain_of :: "('act, 'auth, 'st) TransactionProposeMessage list list \<Rightarrow> (u128 \<times> Block) list" where
  "chain_of batches = map (\<lambda>n. (word_of_nat n, block_of n (prev_root batches n) (batches ! n))) [0..<length batches]"

lemma chain_of_snoc:
  "chain_of (bs @ [b]) = chain_of bs @ [(word_of_nat (length bs), block_of (length bs) (prev_root bs (length bs)) b)]"
  by (auto simp: chain_of_def prev_root_def nth_append)

lemma last_chain_of:
  assumes "bs \<noteq> []"
  shows "last (chain_of bs) = (word_of_nat (length bs - 1), block_of (length bs - 1) (prev_root bs (length bs - 1)) (last bs))"
  using assms by (cases "length bs") (simp_all add: chain_of_def last_conv_nth)

text \<open>The invariant: the blocks are the chain of batches that cut the received transactions.\<close>

definition scc_inv ::
    "('act, 'auth, 'st) TransactionProposeMessage list \<Rightarrow> ('act, 'auth, 'st) StateCommitmentChain \<Rightarrow> bool" where
  "scc_inv ms c \<longleftrightarrow>
     (\<exists>batches. scc_blocks c = chain_of batches \<and> concat batches @ scc_buffer c = ms \<and>
        (\<forall>b \<in> set batches. b \<noteq> []) \<and> length batches \<le> 2 ^ 128)"

lemma next_block_chain:
  assumes "scc_blocks c = chain_of batches" and "length batches \<le> 2 ^ 128" and "next_block c = Inr (n, prev)"
  shows "n = word_of_nat (length batches) \<and> prev = prev_root batches (length batches) \<and> length batches < 2 ^ 128"
proof (cases batches rule: rev_cases)
  case Nil
  with assms show ?thesis by (simp add: next_block_def last_block_def chain_of_def prev_root_def)
next
  case (snoc bs b)
  have blocks: "scc_blocks c \<noteq> []" using assms(1) by (simp add: snoc chain_of_snoc)
  have lb: "last_block c = Some (block_of (length bs) (prev_root bs (length bs)) b)"
    using assms(1) blocks by (simp add: last_block_def snoc chain_of_snoc)
  have len: "length bs < 2 ^ 128" using assms(2) snoc by simp
  then have un: "unat (word_of_nat (length bs) :: u128) = length bs" by (simp add: unat_of_nat)
  have "checked_add (word_of_nat (length bs) :: u128) 1 = Inr n" and prev: "prev = batch_root b"
    using assms(3) lb by (simp_all add: next_block_def block_of_def)
  then have "n = word_of_nat (length bs) + 1" and lt: "unat (word_of_nat (length bs) :: u128) + unat (1 :: u128) < 2 ^ LENGTH(128)"
    by (auto simp only: checked_add_def sum.inject sum.distinct split: if_splits)
  then have "n = word_of_nat (length batches)" using snoc by (simp only: length_append list.size of_nat_add) simp
  moreover have "length batches < 2 ^ 128" using lt un snoc by simp
  ultimately show ?thesis using prev by (simp add: snoc prev_root_def)
qed

lemma propose_block_cases:
  assumes "propose_block env (c, w) = (r, (c', w'))"
  shows "c' = c \<or> (\<exists>n prev. scc_buffer c \<noteq> [] \<and> next_block c = Inr (n, prev) \<and>
    c' = \<lparr>scc_blocks = btree_insert n \<lparr>bl_block_number = n, bl_batch_size = word_of_nat (length (scc_buffer c)),
        bl_prev_tx_accumulator_root = prev, bl_tx_accumulator_root = batch_root (scc_buffer c),
        bl_state_roots = map (\<lambda>tx. xi_state_root (pm_tx_execution_info tx)) (scc_buffer c)\<rparr> (scc_blocks c),
      scc_buffer = []\<rparr>)"
  using assms
  by (auto simp: propose_block_def Let_def append_block_def batch_root_def split: if_splits sum.splits prod.splits rust_error.splits)

lemma scc_inv_propose:
  assumes "scc_inv ms c" and "propose_block env (c, w) = (r, (c', w'))"
  shows "scc_inv ms c'"
  using propose_block_cases [OF assms(2)]
proof
  assume "\<exists>n prev. scc_buffer c \<noteq> [] \<and> next_block c = Inr (n, prev) \<and>
    c' = \<lparr>scc_blocks = btree_insert n \<lparr>bl_block_number = n, bl_batch_size = word_of_nat (length (scc_buffer c)),
        bl_prev_tx_accumulator_root = prev, bl_tx_accumulator_root = batch_root (scc_buffer c),
        bl_state_roots = map (\<lambda>tx. xi_state_root (pm_tx_execution_info tx)) (scc_buffer c)\<rparr> (scc_blocks c),
      scc_buffer = []\<rparr>"
  then obtain n prev where ne: "scc_buffer c \<noteq> []" and nb: "next_block c = Inr (n, prev)"
    and c': "c' = \<lparr>scc_blocks = btree_insert n \<lparr>bl_block_number = n, bl_batch_size = word_of_nat (length (scc_buffer c)),
        bl_prev_tx_accumulator_root = prev, bl_tx_accumulator_root = batch_root (scc_buffer c),
        bl_state_roots = map (\<lambda>tx. xi_state_root (pm_tx_execution_info tx)) (scc_buffer c)\<rparr> (scc_blocks c),
      scc_buffer = []\<rparr>" by blast
  obtain batches where inv: "scc_blocks c = chain_of batches" "concat batches @ scc_buffer c = ms"
    "\<forall>b \<in> set batches. b \<noteq> []" "length batches \<le> 2 ^ 128" using assms(1) by (auto simp: scc_inv_def)
  note nx = next_block_chain [OF inv(1,4) nb]
  have "k' < n" if kv: "(k', v') \<in> set (chain_of batches)" for k' v'
  proof -
    obtain i where i: "i < length batches" "k' = word_of_nat i" using kv by (auto simp: chain_of_def)
    with nx show ?thesis by (simp add: word_less_nat_alt unat_of_nat)
  qed
  then have "scc_blocks c' = chain_of (batches @ [scc_buffer c])"
    using nx by (simp add: c' inv(1) chain_of_snoc block_of_def btree_insert_last)
  moreover have "length (batches @ [scc_buffer c]) \<le> 2 ^ 128" using nx by simp
  ultimately show ?thesis
    unfolding scc_inv_def using inv ne by (intro exI [of _ "batches @ [scc_buffer c]"]) (simp add: c')
qed (use assms(1) in simp)

lemma scc_run_inv: "scc_run env ms c w \<Longrightarrow> scc_inv ms c"
proof (induction rule: scc_run.induct)
  case (scc_start w)
  show ?case by (auto simp: scc_inv_def scc_new_def chain_of_def intro!: exI [of _ "[]"])
next
  case (scc_append ms c w m)
  then obtain batches where "scc_blocks c = chain_of batches" "concat batches @ scc_buffer c = ms"
    "\<forall>b \<in> set batches. b \<noteq> []" "length batches \<le> 2 ^ 128" by (auto simp: scc_inv_def)
  then show ?case unfolding scc_inv_def by (intro exI [of _ batches]) (auto simp: append_transaction_def)
next
  case (scc_propose ms c w r c' w')
  show ?case by (rule scc_inv_propose [OF scc_propose.IH scc_propose.hyps(2)])
qed simp

end
