(* ===== verification/Rooch_Pipeline.thy ===== *)
theory Rooch_Pipeline
  imports Rooch_Proposer Sequencer_Refinement
begin

text \<open>
  The pipeline (\<^verbatim>\<open>rooch-pipeline-processor\<close>): it validates a transaction with the executor, has it
  sequenced, executes it, hands it to the proposer and tells the indexer; on startup it executes
  transactions that were sequenced but not executed. The executor and the indexer are interfaces
  (the record \<open>pipeline_env\<close>); the sequencer and the proposer are the models of their theories.
\<close>

section \<open>The actor\<close>

record TransactionSequenceInfoV1 =
  v1_tx_order :: u64
  v1_tx_order_signature :: bytes
  v1_tx_accumulator_root :: H256
  v1_tx_timestamp :: u64

definition sequence_info_v1 :: "TransactionSequenceInfo \<Rightarrow> TransactionSequenceInfoV1" where
  "sequence_info_v1 i =
     \<lparr>v1_tx_order = si_tx_order i, v1_tx_order_signature = si_tx_order_signature i,
      v1_tx_accumulator_root = si_tx_accumulator_root i, v1_tx_timestamp = si_tx_timestamp i\<rparr>"

record L1BlockWithBody =
  lw_block :: L1Block
  lw_block_body :: bytes

text \<open>
  The calls to the executor (state \<open>'ex\<close>, transactions \<open>'mtx\<close>, outputs \<open>'out\<close>) and to the indexer
  (state \<open>'ix\<close>), and the two values added to the context of a transaction.
\<close>

record ('ex, 'ix, 'mtx, 'out, 'st, 'act, 'auth) pipeline_env =
  px_validate_l1_block :: "'ex \<Rightarrow> L1BlockWithBody \<Rightarrow> 'mtx result"
  px_validate_l1_tx :: "'ex \<Rightarrow> L1Transaction \<Rightarrow> 'mtx result"
  px_validate_l2_tx :: "'ex \<Rightarrow> ('act, 'auth) RoochTransaction \<Rightarrow> 'mtx result"
  px_ctx_add_info :: "TransactionSequenceInfo \<Rightarrow> 'mtx \<Rightarrow> 'mtx result"
  px_ctx_add_info_v1 :: "TransactionSequenceInfoV1 \<Rightarrow> 'mtx \<Rightarrow> 'mtx result"
  px_execute_transaction :: "'mtx \<Rightarrow> ('ex, 'out \<times> 'st TransactionExecutionInfo) action"
  px_refresh_state :: "'st TransactionExecutionInfo \<Rightarrow> 'out \<Rightarrow> ('ex, unit) action"
  px_execution_infos :: "'ex \<Rightarrow> H256 list \<Rightarrow> 'st TransactionExecutionInfo option list result"
  px_update_indexer :: "('act, 'auth) LedgerTransaction \<Rightarrow> 'st TransactionExecutionInfo \<Rightarrow> 'mtx \<Rightarrow> 'out \<Rightarrow> ('ix, unit) action"

record ('c, 'db, 'ex, 'ix, 'act, 'auth, 'st) PipelineProcessorActor =
  pp_executor :: 'ex
  pp_sequencer :: "('c, 'db) SequencerActor"
  pp_proposer :: "('act, 'auth, 'st) StateCommitmentChain"
  pp_indexer :: 'ix
  pp_service_status :: ServiceStatus

definition on_executor ::
    "('ex, 'a) action \<Rightarrow> (('c, 'db, 'ex, 'ix, 'act, 'auth, 'st) PipelineProcessorActor, 'a) action" where
  "on_executor m p = (case m (pp_executor p) of (r, ex') \<Rightarrow> (r, p\<lparr>pp_executor := ex'\<rparr>))"

definition on_sequencer ::
    "(('c, 'db) SequencerActor, 'a) action \<Rightarrow> (('c, 'db, 'ex, 'ix, 'act, 'auth, 'st) PipelineProcessorActor, 'a) action" where
  "on_sequencer m p = (case m (pp_sequencer p) of (r, s') \<Rightarrow> (r, p\<lparr>pp_sequencer := s'\<rparr>))"

record ('out, 'st) ExecuteTransactionResponse =
  er_sequence_info :: TransactionSequenceInfo
  er_execution_info :: "'st TransactionExecutionInfo"
  er_output :: 'out

definition is_date_import_mode :: "ServiceStatus \<Rightarrow> bool" where
  "is_date_import_mode status \<longleftrightarrow> status = DateImportMode"

text \<open>An error of the indexer is logged and dropped.\<close>

definition execute_tx ::
    "('ex, 'ix, 'mtx, 'out, 'st, 'act, 'auth) pipeline_env \<Rightarrow> ('act, 'auth) LedgerTransaction \<Rightarrow> 'mtx \<Rightarrow>
     (('c, 'db, 'ex, 'ix, 'act, 'auth, 'st) PipelineProcessorActor, ('out, 'st) ExecuteTransactionResponse) action" where
  "execute_tx px tx moveos_tx0 =
     bind_act (lift_act (px_ctx_add_info px (ltx_sequence_info tx) moveos_tx0)) (\<lambda>moveos_tx1.
     bind_act (lift_act (px_ctx_add_info_v1 px (sequence_info_v1 (ltx_sequence_info tx)) moveos_tx1)) (\<lambda>moveos_tx.
     bind_act (on_executor (px_execute_transaction px moveos_tx)) (\<lambda>(output, execution_info).
     bind_act (modify_act (\<lambda>p. p\<lparr>pp_proposer := append_transaction
        \<lparr>pm_tx = tx, pm_tx_execution_info = execution_info\<rparr> (pp_proposer p)\<rparr>)) (\<lambda>_.
     bind_act (on_executor (px_refresh_state px execution_info output)) (\<lambda>_.
     bind_act (modify_act (\<lambda>p.
        if \<not> is_date_import_mode (pp_service_status p)
        then p\<lparr>pp_indexer := snd (px_update_indexer px tx execution_info moveos_tx output (pp_indexer p))\<rparr>
        else p)) (\<lambda>_.
     return_act \<lparr>er_sequence_info = ltx_sequence_info tx, er_execution_info = execution_info, er_output = output\<rparr>))))))"

definition execute_l1_block ::
    "('c, 'db, 'act, 'auth, 'x) seq_env_scheme \<Rightarrow> ('ex, 'ix, 'mtx, 'out, 'st, 'act, 'auth) pipeline_env \<Rightarrow> nat option \<Rightarrow>
     L1BlockWithBody \<Rightarrow>
     (('c, 'db, 'ex, 'ix, 'act, 'auth, 'st) PipelineProcessorActor, ('out, 'st) ExecuteTransactionResponse) action" where
  "execute_l1_block env px now l1_block p =
     bind_act (lift_act (px_validate_l1_block px (pp_executor p) l1_block)) (\<lambda>moveos_tx.
     bind_act (on_sequencer (sequence env now (LedgerL1Block (lw_block l1_block)))) (\<lambda>ledger_tx.
     execute_tx px ledger_tx moveos_tx)) p"

definition execute_l1_tx ::
    "('c, 'db, 'act, 'auth, 'x) seq_env_scheme \<Rightarrow> ('ex, 'ix, 'mtx, 'out, 'st, 'act, 'auth) pipeline_env \<Rightarrow> nat option \<Rightarrow>
     L1Transaction \<Rightarrow>
     (('c, 'db, 'ex, 'ix, 'act, 'auth, 'st) PipelineProcessorActor, ('out, 'st) ExecuteTransactionResponse) action" where
  "execute_l1_tx env px now l1_tx p =
     bind_act (lift_act (px_validate_l1_tx px (pp_executor p) l1_tx)) (\<lambda>moveos_tx.
     bind_act (on_sequencer (sequence env now (LedgerL1Tx l1_tx))) (\<lambda>ledger_tx.
     execute_tx px ledger_tx moveos_tx)) p"

text \<open>The log line at the start computes the hash of the transaction, which is then cached in it.\<close>

definition execute_l2_tx ::
    "('c, 'db, 'act, 'auth, 'x) seq_env_scheme \<Rightarrow> ('ex, 'ix, 'mtx, 'out, 'st, 'act, 'auth) pipeline_env \<Rightarrow> nat option \<Rightarrow>
     ('act, 'auth) RoochTransaction \<Rightarrow>
     (('c, 'db, 'ex, 'ix, 'act, 'auth, 'st) PipelineProcessorActor, ('out, 'st) ExecuteTransactionResponse) action" where
  "execute_l2_tx env px now tx0 p =
     (case rooch_tx_hash env tx0 of (hashed, tx) \<Rightarrow>
        bind_act (lift_act hashed) (\<lambda>_.
        bind_act (lift_act (px_validate_l2_tx px (pp_executor p) tx)) (\<lambda>moveos_tx.
        bind_act (on_sequencer (sequence env now (LedgerL2Tx tx))) (\<lambda>ledger_tx.
        execute_tx px ledger_tx moveos_tx))) p)"

section \<open>Startup\<close>

text \<open>\<^verbatim>\<open>pop().flatten()\<close> on the answer to a request for one item.\<close>

definition pop_flatten :: "'a option list \<Rightarrow> 'a option" where
  "pop_flatten xs = (if xs = [] then None else last xs)"

text \<open>
  The scan from the last order down; \<open>txs\<close> collects the hashes of transactions without execution
  info and the scan ends at the first one that has it.
\<close>

fun scan_unexecuted ::
    "('c, 'db, 'act, 'auth, 'x) seq_env_scheme \<Rightarrow> ('ex, 'ix, 'mtx, 'out, 'st, 'act, 'auth) pipeline_env \<Rightarrow>
     ('c, 'db) SequencerActor \<Rightarrow> 'ex \<Rightarrow> u64 list \<Rightarrow> H256 list \<Rightarrow> H256 list result" where
  "scan_unexecuted env px s ex [] txs = Inr txs"
| "scan_unexecuted env px s ex (order # orders) txs =
     and_then (handle_get_tx_hashs env s [order]) (\<lambda>hs.
     and_then (ok_or (pop_flatten hs) ''The tx with order should exists'') (\<lambda>tx_hash.
     and_then (px_execution_infos px ex [tx_hash]) (\<lambda>infos.
     if pop_flatten infos = None then scan_unexecuted env px s ex orders (txs @ [tx_hash]) else Inr txs)))"

definition execute_sequenced ::
    "('c, 'db, 'act, 'auth, 'x) seq_env_scheme \<Rightarrow> ('ex, 'ix, 'mtx, 'out, 'st, 'act, 'auth) pipeline_env \<Rightarrow> H256 \<Rightarrow>
     (('c, 'db, 'ex, 'ix, 'act, 'auth, 'st) PipelineProcessorActor, ('out, 'st) ExecuteTransactionResponse) action" where
  "execute_sequenced env px tx_hash p =
     bind_act (lift_act (and_then (handle_get_transaction_by_hash env (pp_sequencer p) tx_hash)
        (\<lambda>tx. ok_or tx ''The tx with hash should exists''))) (\<lambda>ledger_tx.
     case ltx_data ledger_tx of
       LedgerL1Block _ \<Rightarrow> lift_act (Inl (Panic ''not implemented: L1Block tx not support''))
     | LedgerL1Tx l1_tx \<Rightarrow>
         bind_act (lift_act (px_validate_l1_tx px (pp_executor p) l1_tx)) (\<lambda>moveos_tx. execute_tx px ledger_tx moveos_tx)
     | LedgerL2Tx l2_tx \<Rightarrow>
         bind_act (lift_act (px_validate_l2_tx px (pp_executor p) l2_tx)) (\<lambda>moveos_tx. execute_tx px ledger_tx moveos_tx)) p"

definition process_sequenced_tx_on_startup ::
    "('c, 'db, 'act, 'auth, 'x) seq_env_scheme \<Rightarrow> ('ex, 'ix, 'mtx, 'out, 'st, 'act, 'auth) pipeline_env \<Rightarrow>
     (('c, 'db, 'ex, 'ix, 'act, 'auth, 'st) PipelineProcessorActor, unit) action" where
  "process_sequenced_tx_on_startup env px p =
     (let last_order = (case handle_get_sequencer_order (pp_sequencer p) of Inr n \<Rightarrow> n | Inl _ \<Rightarrow> 0) in
      if last_order = 0 then (Inr (), p)
      else
        bind_act (lift_act (scan_unexecuted env px (pp_sequencer p) (pp_executor p)
           (rev (map word_of_nat [1..<Suc (unat last_order)])) [])) (\<lambda>txs.
        if txs = [] then return_act ()
        else bind_act (try_map_act (execute_sequenced env px) txs) (\<lambda>_. return_act ())) p)"

section \<open>The order of the scan\<close>

text \<open>
  The executor knows the transactions up to order \<open>m\<close> and none after it; then the scan returns the
  hashes of the others, the newest first.
\<close>

lemma scan_unexecuted_eq:
  assumes ok: "store_ok env contents" and repr: "db_repr env contents (sq_db s) log"
    and n: "n < length log" and m: "m \<le> n"
    and infos: "\<And>i. 0 < i \<Longrightarrow> i < length log \<Longrightarrow>
      px_execution_infos px ex [fst (log ! i)] = Inr [if i \<le> m then Some (f i) else None]"
  shows "scan_unexecuted env px s ex (rev (map word_of_nat [1..<Suc n])) txs =
    Inr (txs @ map (\<lambda>i. fst (log ! i)) (rev [Suc m..<Suc n]))"
  using n m
proof (induction n arbitrary: txs)
  case (Suc n)
  have h: "handle_get_tx_hashs env s [word_of_nat (Suc n)] = Inr [Some (fst (log ! Suc n))]"
    using ledger_reads(1) [OF ok repr] log_lookup(2) [OF repr Suc.prems(1)] by (simp add: handle_get_tx_hashs_def del: of_nat_Suc)
  show ?case
  proof (cases "Suc n = m")
    case True
    with h infos [of "Suc n"] Suc.prems show ?thesis by (simp add: pop_flatten_def del: of_nat_Suc)
  next
    case False
    with Suc.prems have "m \<le> n" by simp
    with Suc.IH [of "txs @ [fst (log ! Suc n)]"] h infos [of "Suc n"] Suc.prems False show ?thesis
      by (simp add: pop_flatten_def del: of_nat_Suc)
  qed
qed simp

end
