(* ===== verification/Pipeline_Properties.thy ===== *)
theory Pipeline_Properties
  imports Rooch_Pipeline Ledger_Instance
begin

text \<open>
  The correctness statements of the proposer, the data-availability layer and the pipeline, with
  their instances.
\<close>

section \<open>Blocks\<close>

text \<open>
  C33. In every run of the proposer, whatever the servers answer, the blocks are numbered from 0
  without gaps and cut the received transactions, in order and without loss, into non-empty batches
  followed by the buffer: block \<open>n\<close> has the size and the state roots of batch \<open>n\<close>, ends with the
  accumulator root of its last transaction and starts from the root of block \<open>n - 1\<close>.
\<close>

theorem blocks_partition_transactions:
  assumes "scc_run env ms c w"
  shows "\<exists>batches. scc_blocks c = chain_of batches \<and> concat batches @ scc_buffer c = ms \<and> [] \<notin> set batches"
  using scc_run_inv [OF assms] by (auto simp: scc_inv_def)

definition demo_message :: "u64 \<Rightarrow> (unit, unit, unit) TransactionProposeMessage" where
  "demo_message n =
     \<lparr>pm_tx = build_ledger_transaction (LedgerL2Tx (demo_l2 n)) 1 n [] (summary demo_sha3 [demo_hash 0]),
      pm_tx_execution_info = \<lparr>xi_tx_hash = demo_hash n, xi_state_root = [1], xi_size = 0, xi_event_root = [], xi_gas_used = 0, xi_status = ()\<rparr>\<rparr>"

definition demo_propose_env :: "(unit, unit, Batch list) propose_env" where
  "demo_propose_env = \<lparr>pe_sha3 = demo_sha3, pe_encode = \<lambda>tx. Inr (fst tx_codec tx), pe_submit_batch = \<lambda>b. modify_act (\<lambda>w. w @ [b])\<rparr>"

definition demo_proposed :: "Block option result \<times> (unit, unit, unit) StateCommitmentChain \<times> Batch list" where
  "demo_proposed = propose_block demo_propose_env (append_transaction (demo_message 1) (append_transaction (demo_message 0) scc_new), [])"

lemma demo_run:
  "scc_run demo_propose_env [demo_message 0, demo_message 1] (fst (snd demo_proposed)) (snd (snd demo_proposed))"
proof (rule scc_propose)
  show "propose_block demo_propose_env (append_transaction (demo_message 1) (append_transaction (demo_message 0) scc_new), []) =
      (fst demo_proposed, (fst (snd demo_proposed), snd (snd demo_proposed)))" by (simp add: demo_proposed_def)
  show "scc_run demo_propose_env [demo_message 0, demo_message 1]
      (append_transaction (demo_message 1) (append_transaction (demo_message 0) scc_new)) []"
    using scc_append [OF scc_append [OF scc_start, of _ "demo_message 0"], of _ "demo_message 1"] by simp
qed

theorem blocks_partition_transactions_witness:
  "\<exists>batches. scc_blocks (fst (snd demo_proposed)) = chain_of batches \<and>
    concat batches @ scc_buffer (fst (snd demo_proposed)) = [demo_message 0, demo_message 1] \<and> [] \<notin> set batches"
  by (rule blocks_partition_transactions [OF demo_run])

section \<open>Segments\<close>

text \<open>
  C34. A published batch can be read back: for a non-zero segment size \<^verbatim>\<open>pub_batch\<close> stores segments
  whose data concatenate to the encoded batch; the \<open>i\<close>-th is found under the text of the block number
  and \<open>i\<close>, parses without an error to a segment with this identifier and matching checksums, holds
  at least one and at most the configured number of bytes, and only the last one is marked as last.
\<close>

theorem pub_batch_readable:
  assumes "write_contract env view" and "max_segment_size \<noteq> 0"
    and "da_encode env (batch_chunk batch) = Inr bs" and "length bs < 2 ^ 64"
  shows "\<exists>op' (segs :: SegmentV0 list). pub_batch env max_segment_size batch op = (Inr (), op') \<and> concat (map sg_data segs) = bs \<and>
    (\<forall>i < length segs. \<exists>b seg.
       view op' (segment_id_to_string \<lparr>sid_chunk_id = ba_block_number batch, sid_segment_number = word_of_nat i\<rparr>) = Some b \<and>
       segment_from_bytes (da_xxh3 env) b = Inr seg \<and> sg_data seg = sg_data (segs ! i) \<and>
       sg_id seg = \<lparr>sid_chunk_id = ba_block_number batch, sid_segment_number = word_of_nat i\<rparr> \<and>
       (sg_is_last seg \<longleftrightarrow> i = length segs - 1) \<and>
       sg_data seg \<noteq> [] \<and> length (sg_data seg) \<le> max_segment_size)"
proof -
  let ?n = max_segment_size
  let ?segs = "batch_segments (ba_block_number batch) ?n bs"
  obtain op' where pub: "pub_batch env ?n batch op = (Inr (), op')"
    and found: "\<And>seg. seg \<in> set ?segs \<Longrightarrow> view op' (segment_id_to_string (sg_id seg)) = Some (segment_to_bytes (da_xxh3 env) seg)"
    using pub_batch_eq [OF assms] by blast
  have each: "\<exists>b seg.
       view op' (segment_id_to_string \<lparr>sid_chunk_id = ba_block_number batch, sid_segment_number = word_of_nat i\<rparr>) = Some b \<and>
       segment_from_bytes (da_xxh3 env) b = Inr seg \<and> sg_data seg = sg_data (?segs ! i) \<and>
       sg_id seg = \<lparr>sid_chunk_id = ba_block_number batch, sid_segment_number = word_of_nat i\<rparr> \<and>
       (sg_is_last seg \<longleftrightarrow> i = length ?segs - 1) \<and> sg_data seg \<noteq> [] \<and> length (sg_data seg) \<le> ?n" if i: "i < length ?segs" for i
  proof -
    have i': "i < length (chunks_of ?n bs)" using i by (simp add: length_batch_segments)
    note seg = nth_batch_segments [OF i', of "ba_block_number batch"]
    have "sg_id (?segs ! i) = \<lparr>sid_chunk_id = ba_block_number batch, sid_segment_number = word_of_nat i\<rparr>"
      by (simp add: seg chunk_segment_def)
    moreover have "sg_is_last (?segs ! i) \<longleftrightarrow> i = length ?segs - 1" by (simp add: seg chunk_segment_def length_batch_segments)
    moreover have "sg_data (?segs ! i) \<noteq> [] \<and> length (sg_data (?segs ! i)) \<le> ?n"
      using chunks_of_sizes [OF nth_mem [OF i']] by (simp add: seg chunk_segment_def)
    ultimately show ?thesis
      using found [OF nth_mem [OF i]] segment_round_trip [of "da_xxh3 env" "?segs ! i"] by (auto simp: with_checksums_def)
  qed
  show ?thesis
    by (rule exI [of _ op'], rule exI [of _ ?segs]) (use pub concat_batch_segments [OF assms(2)] each in simp)
qed

definition demo_da_env :: "(string \<rightharpoonup> bytes) da_env" where
  "demo_da_env = \<lparr>da_xxh3 = \<lambda>bs. word_of_nat (length bs), da_encode = \<lambda>b. Inr (db_version b # db_data b),
     da_write = \<lambda>name bs. modify_act (\<lambda>m. m(name \<mapsto> bs))\<rparr>"

definition demo_batch :: Batch where
  "demo_batch = \<lparr>ba_block_number = 3, ba_batch_hash = [1], ba_data = [10, 20, 30]\<rparr>"

theorem pub_batch_readable_witness:
  "\<exists>op' b seg. pub_batch demo_da_env 3 demo_batch Map.empty = (Inr (), op') \<and>
    op' (segment_id_to_string \<lparr>sid_chunk_id = 3, sid_segment_number = 0\<rparr>) = Some b \<and>
    segment_from_bytes (da_xxh3 demo_da_env) b = Inr seg \<and> sg_data seg \<noteq> [] \<and> length (sg_data seg) \<le> 3"
proof -
  have c: "write_contract demo_da_env (\<lambda>op. op)" by (simp add: write_contract_def demo_da_env_def modify_act_def)
  have e: "da_encode demo_da_env (batch_chunk demo_batch) = Inr [0, 10, 20, 30]"
    by (simp add: demo_da_env_def batch_chunk_def demo_batch_def)
  from pub_batch_readable [OF c _ e, of 3 Map.empty]
  obtain op' and segs :: "SegmentV0 list" where pub: "pub_batch demo_da_env 3 demo_batch Map.empty = (Inr (), op')"
    and data: "concat (map sg_data segs) = [0, 10, 20, 30]"
    and each: "\<forall>i < length segs. \<exists>b seg.
       op' (segment_id_to_string \<lparr>sid_chunk_id = ba_block_number demo_batch, sid_segment_number = word_of_nat i\<rparr>) = Some b \<and>
       segment_from_bytes (da_xxh3 demo_da_env) b = Inr seg \<and> sg_data seg = sg_data (segs ! i) \<and>
       sg_id seg = \<lparr>sid_chunk_id = ba_block_number demo_batch, sid_segment_number = word_of_nat i\<rparr> \<and>
       (sg_is_last seg \<longleftrightarrow> i = length segs - 1) \<and> sg_data seg \<noteq> [] \<and> length (sg_data seg) \<le> 3" by auto
  have "0 < length segs" using data by (cases segs) auto
  with pub each show ?thesis by (fastforce simp: demo_batch_def)
qed

section \<open>Startup\<close>

text \<open>
  C35. On startup the pipeline finds exactly the transactions that were sequenced after the last
  executed one, but executes them from the newest to the oldest: with the log executed up to order
  \<open>m\<close>, it runs the transactions of orders \<open>n, n - 1, ..., m + 1\<close> in this sequence, the reverse of
  the order in which they were sequenced.
\<close>

theorem startup_executes_newest_first:
  assumes "store_ok env contents" and "seq_inv env contents (pp_sequencer p) log" and "m < length log - 1"
    and "\<And>i. 0 < i \<Longrightarrow> i < length log \<Longrightarrow>
      px_execution_infos px (pp_executor p) [fst (log ! i)] = Inr [if i \<le> m then Some (info i) else None]"
  shows "process_sequenced_tx_on_startup env px p =
    bind_act (try_map_act (execute_sequenced env px) (map (\<lambda>i. fst (log ! i)) (rev [Suc m..<length log])))
      (\<lambda>_. return_act ()) p"
proof -
  have repr: "db_repr env contents (sq_db (pp_sequencer p)) log" using assms(2) by (simp add: seq_inv_def)
  obtain n where n: "length log = Suc n" using repr by (cases "length log") (auto simp: db_repr_def)
  have len: "n < 2 ^ 64" using repr n by (simp add: db_repr_def)
  have ord: "last_order (pp_sequencer p) = word_of_nat n"
    using assms(2) n by (simp add: seq_inv_def last_order_def last_info_def sequencer_info_new_def)
  have un: "unat (last_order (pp_sequencer p)) = n" using len by (simp add: ord unat_of_nat)
  then have "last_order (pp_sequencer p) \<noteq> 0" using assms(3) n by auto
  moreover have "scan_unexecuted env px (pp_sequencer p) (pp_executor p) (rev (map word_of_nat [1..<Suc n])) [] =
      Inr (map (\<lambda>i. fst (log ! i)) (rev [Suc m..<Suc n]))"
    using scan_unexecuted_eq [OF assms(1) repr _ _ assms(4), of n "[]"] assms(3) n by simp
  moreover have "rev [Suc m..<Suc n] \<noteq> []" using assms(3) n by simp
  ultimately show ?thesis
    by (simp only: process_sequenced_tx_on_startup_def Let_def handle_get_sequencer_order_def sum.case if_False un n
        lift_act_bind map_is_Nil_conv)
qed

definition demo_pipeline_env :: "(unit, unit, unit, unit, unit, unit, unit) pipeline_env" where
  "demo_pipeline_env =
     \<lparr>px_validate_l1_block = \<lambda>_ _. Inr (), px_validate_l1_tx = \<lambda>_ _. Inr (), px_validate_l2_tx = \<lambda>_ _. Inr (),
      px_ctx_add_info = \<lambda>_ _. Inr (), px_ctx_add_info_v1 = \<lambda>_ _. Inr (),
      px_execute_transaction = \<lambda>_. return_act ((), pm_tx_execution_info (demo_message 0)),
      px_refresh_state = \<lambda>_ _. return_act (), px_execution_infos = \<lambda>_ hs. Inr (map (\<lambda>_. None) hs),
      px_update_indexer = \<lambda>_ _ _ _. return_act ()\<rparr>"

definition demo_pipeline :: "(NodeIndex \<rightharpoonup> H256, db_contents, unit, unit, unit, unit, unit) PipelineProcessorActor" where
  "demo_pipeline = \<lparr>pp_executor = (), pp_sequencer = demo_actor2, pp_proposer = scc_new, pp_indexer = (), pp_service_status = Active\<rparr>"

theorem startup_executes_newest_first_witness:
  "process_sequenced_tx_on_startup demo_ledger demo_pipeline_env demo_pipeline =
    bind_act (try_map_act (execute_sequenced demo_ledger demo_pipeline_env) (map (\<lambda>i. fst (demo_log2 ! i)) (rev [Suc 0..<length demo_log2])))
      (\<lambda>_. return_act ()) demo_pipeline"
  by (rule startup_executes_newest_first [OF demo_ledger_ok])
    (use demo_actor2_inv in \<open>simp_all add: demo_pipeline_def demo_pipeline_env_def\<close>, simp_all add: demo_log2_def demo_log_def)

end
