(* ===== verification/Gas_Schedule.thy ===== *)
theory Gas_Schedule
  imports Btree_Map
begin

text \<open>
  The gas schedule of MoveOS (\<^verbatim>\<open>moveos/src/gas\<close>): the three groups of prices, the conversion to and
  from the entries of the on-chain schedule that the macro \<^verbatim>\<open>define_gas_parameters_for_natives\<close>
  generates for each group, and the cost table with its tiers. Every price is a \<^verbatim>\<open>GasQuantity\<close>, a
  wrapper of \<^verbatim>\<open>u64\<close>.
\<close>

section \<open>Prices\<close>

record StorageGasParameter =
  sp_io_read_price :: u64
  sp_storage_fee_per_transaction_byte :: u64
  sp_storage_fee_per_event_byte :: u64
  sp_storage_fee_per_op_new_byte :: u64
  sp_storage_fee_per_op_modify_byte :: u64
  sp_storage_fee_per_op_delete :: u64

definition storage_zeros :: StorageGasParameter where
  "storage_zeros =
     \<lparr>sp_io_read_price = 0,
      sp_storage_fee_per_transaction_byte = 0,
      sp_storage_fee_per_event_byte = 0,
      sp_storage_fee_per_op_new_byte = 0,
      sp_storage_fee_per_op_modify_byte = 0,
      sp_storage_fee_per_op_delete = 0\<rparr>"

record AbstractValueSizeGasParameter =
  av_u8 :: u64
  av_u16 :: u64
  av_u32 :: u64
  av_u64 :: u64
  av_u128 :: u64
  av_u256 :: u64
  av_bool :: u64
  av_address :: u64
  av_struct :: u64
  av_vector :: u64
  av_reference :: u64
  av_per_u8_packed :: u64
  av_per_u16_packed :: u64
  av_per_u32_packed :: u64
  av_per_u64_packed :: u64
  av_per_u128_packed :: u64
  av_per_u256_packed :: u64
  av_per_bool_packed :: u64
  av_per_address_packed :: u64

definition abstract_value_zeros :: AbstractValueSizeGasParameter where
  "abstract_value_zeros =
     \<lparr>av_u8 = 0,
      av_u16 = 0,
      av_u32 = 0,
      av_u64 = 0,
      av_u128 = 0,
      av_u256 = 0,
      av_bool = 0,
      av_address = 0,
      av_struct = 0,
      av_vector = 0,
      av_reference = 0,
      av_per_u8_packed = 0,
      av_per_u16_packed = 0,
      av_per_u32_packed = 0,
      av_per_u64_packed = 0,
      av_per_u128_packed = 0,
      av_per_u256_packed = 0,
      av_per_bool_packed = 0,
      av_per_address_packed = 0\<rparr>"

record InstructionParameter =
  ig_nop :: u64
  ig_ret :: u64
  ig_abort :: u64
  ig_br_true :: u64
  ig_br_false :: u64
  ig_branch :: u64
  ig_pop :: u64
  ig_ld_u8 :: u64
  ig_ld_u16 :: u64
  ig_ld_u32 :: u64
  ig_ld_u64 :: u64
  ig_ld_u128 :: u64
  ig_ld_u256 :: u64
  ig_ld_true :: u64
  ig_ld_false :: u64
  ig_ld_const_base :: u64
  ig_ld_const_per_byte :: u64
  ig_imm_borrow_loc :: u64
  ig_mut_borrow_loc :: u64
  ig_imm_borrow_field :: u64
  ig_mut_borrow_field :: u64
  ig_imm_borrow_field_generic :: u64
  ig_mut_borrow_field_generic :: u64
  ig_copy_loc_base :: u64
  ig_copy_loc_per_abs_val_unit :: u64
  ig_move_loc_base :: u64
  ig_st_loc_base :: u64
  ig_call_base :: u64
  ig_call_per_arg :: u64
  ig_call_per_local :: u64
  ig_call_generic_base :: u64
  ig_call_generic_per_ty_arg :: u64
  ig_call_generic_per_arg :: u64
  ig_call_generic_per_local :: u64
  ig_pack_base :: u64
  ig_pack_per_field :: u64
  ig_pack_generic_base :: u64
  ig_pack_generic_per_field :: u64
  ig_unpack_base :: u64
  ig_unpack_per_field :: u64
  ig_unpack_generic_base :: u64
  ig_unpack_generic_per_field :: u64
  ig_read_ref_base :: u64
  ig_read_ref_per_abs_val_unit :: u64
  ig_write_ref_base :: u64
  ig_freeze_ref :: u64
  ig_cast_u8 :: u64
  ig_cast_u16 :: u64
  ig_cast_u32 :: u64
  ig_cast_u64 :: u64
  ig_cast_u128 :: u64
  ig_cast_u256 :: u64
  ig_add :: u64
  ig_sub :: u64
  ig_mul :: u64
  ig_mod :: u64
  ig_div :: u64
  ig_bit_or :: u64
  ig_bit_and :: u64
  ig_xor :: u64
  ig_shl :: u64
  ig_shr :: u64
  ig_or :: u64
  ig_and :: u64
  ig_not :: u64
  ig_lt :: u64
  ig_gt :: u64
  ig_le :: u64
  ig_ge :: u64
  ig_eq_base :: u64
  ig_eq_per_abs_val_unit :: u64
  ig_neq_base :: u64
  ig_neq_per_abs_val_unit :: u64
  ig_imm_borrow_global_base :: u64
  ig_imm_borrow_global_generic_base :: u64
  ig_mut_borrow_global_base :: u64
  ig_mut_borrow_global_generic_base :: u64
  ig_exists_base :: u64
  ig_exists_generic_base :: u64
  ig_move_from_base :: u64
  ig_move_from_generic_base :: u64
  ig_move_to_base :: u64
  ig_move_to_generic_base :: u64
  ig_vec_len_base :: u64
  ig_vec_imm_borrow_base :: u64
  ig_vec_mut_borrow_base :: u64
  ig_vec_push_back_base :: u64
  ig_vec_pop_back_base :: u64
  ig_vec_swap_base :: u64
  ig_vec_pack_base :: u64
  ig_vec_pack_per_elem :: u64
  ig_vec_unpack_base :: u64
  ig_vec_unpack_per_expected_elem :: u64

definition instruction_zeros :: InstructionParameter where
  "instruction_zeros =
     \<lparr>ig_nop = 0,
      ig_ret = 0,
      ig_abort = 0,
      ig_br_true = 0,
      ig_br_false = 0,
      ig_branch = 0,
      ig_pop = 0,
      ig_ld_u8 = 0,
      ig_ld_u16 = 0,
      ig_ld_u32 = 0,
      ig_ld_u64 = 0,
      ig_ld_u128 = 0,
      ig_ld_u256 = 0,
      ig_ld_true = 0,
      ig_ld_false = 0,
      ig_ld_const_base = 0,
      ig_ld_const_per_byte = 0,
      ig_imm_borrow_loc = 0,
      ig_mut_borrow_loc = 0,
      ig_imm_borrow_field = 0,
      ig_mut_borrow_field = 0,
      ig_imm_borrow_field_generic = 0,
      ig_mut_borrow_field_generic = 0,
      ig_copy_loc_base = 0,
      ig_copy_loc_per_abs_val_unit = 0,
      ig_move_loc_base = 0,
      ig_st_loc_base = 0,
      ig_call_base = 0,
      ig_call_per_arg = 0,
      ig_call_per_local = 0,
      ig_call_generic_base = 0,
      ig_call_generic_per_ty_arg = 0,
      ig_call_generic_per_arg = 0,
      ig_call_generic_per_local = 0,
      ig_pack_base = 0,
      ig_pack_per_field = 0,
      ig_pack_generic_base = 0,
      ig_pack_generic_per_field = 0,
      ig_unpack_base = 0,
      ig_unpack_per_field = 0,
      ig_unpack_generic_base = 0,
      ig_unpack_generic_per_field = 0,
      ig_read_ref_base = 0,
      ig_read_ref_per_abs_val_unit = 0,
      ig_write_ref_base = 0,
      ig_freeze_ref = 0,
      ig_cast_u8 = 0,
      ig_cast_u16 = 0,
      ig_cast_u32 = 0,
      ig_cast_u64 = 0,
      ig_cast_u128 = 0,
      ig_cast_u256 = 0,
      ig_add = 0,
      ig_sub = 0,
      ig_mul = 0,
      ig_mod = 0,
      ig_div = 0,
      ig_bit_or = 0,
      ig_bit_and = 0,
      ig_xor = 0,
      ig_shl = 0,
      ig_shr = 0,
      ig_or = 0,
      ig_and = 0,
      ig_not = 0,
      ig_lt = 0,
      ig_gt = 0,
      ig_le = 0,
      ig_ge = 0,
      ig_eq_base = 0,
      ig_eq_per_abs_val_unit = 0,
      ig_neq_base = 0,
      ig_neq_per_abs_val_unit = 0,
      ig_imm_borrow_global_base = 0,
      ig_imm_borrow_global_generic_base = 0,
      ig_mut_borrow_global_base = 0,
      ig_mut_borrow_global_generic_base = 0,
      ig_exists_base = 0,
      ig_exists_generic_base = 0,
      ig_move_from_base = 0,
      ig_move_from_generic_base = 0,
      ig_move_to_base = 0,
      ig_move_to_generic_base = 0,
      ig_vec_len_base = 0,
      ig_vec_imm_borrow_base = 0,
      ig_vec_mut_borrow_base = 0,
      ig_vec_push_back_base = 0,
      ig_vec_pop_back_base = 0,
      ig_vec_swap_base = 0,
      ig_vec_pack_base = 0,
      ig_vec_pack_per_elem = 0,
      ig_vec_unpack_base = 0,
      ig_vec_unpack_per_expected_elem = 0\<rparr>"

section \<open>The generated conversions\<close>

text \<open>
  A row of the macro: the key of the entry, the field (how it is read and assigned) and its value in
  the genesis schedule.
\<close>

type_synonym 'p gas_field = "string \<times> ('p \<Rightarrow> u64) \<times> (u64 \<Rightarrow> 'p \<Rightarrow> 'p) \<times> u64"

definition schedule_key :: "string \<Rightarrow> string \<Rightarrow> string" where
  "schedule_key package_name key = package_name @ ''.'' @ key"

fun assign_fields :: "string \<Rightarrow> (string \<rightharpoonup> u64) \<Rightarrow> 'p gas_field list \<Rightarrow> 'p \<Rightarrow> 'p option" where
  "assign_fields package_name gas_schedule [] params = Some params"
| "assign_fields package_name gas_schedule ((key, _, assign, _) # flds) params =
     (case gas_schedule (schedule_key package_name key) of
        None \<Rightarrow> None
      | Some val \<Rightarrow> assign_fields package_name gas_schedule flds (assign val params))"

definition fields_to_schedule :: "string \<Rightarrow> 'p gas_field list \<Rightarrow> 'p \<Rightarrow> (string \<times> u64) list" where
  "fields_to_schedule package_name flds params =
     map (\<lambda>(key, read, _, _). (schedule_key package_name key, read params)) flds"

definition fields_initial :: "'p gas_field list \<Rightarrow> 'p \<Rightarrow> 'p" where
  "fields_initial flds zeros = foldl (\<lambda>params (_, _, assign, initial). assign initial params) zeros flds"

definition instruction_fields :: "InstructionParameter gas_field list" where
  "instruction_fields =
     [(''nop'', ig_nop, \<lambda>v. ig_nop_update (\<lambda>_. v), 36),
      (''ret'', ig_ret, \<lambda>v. ig_ret_update (\<lambda>_. v), 220),
      (''abort'', ig_abort, \<lambda>v. ig_abort_update (\<lambda>_. v), 220),
      (''br_true'', ig_br_true, \<lambda>v. ig_br_true_update (\<lambda>_. v), 441),
      (''br_false'', ig_br_false, \<lambda>v. ig_br_false_update (\<lambda>_. v), 441),
      (''branch'', ig_branch, \<lambda>v. ig_branch_update (\<lambda>_. v), 294),
      (''pop'', ig_pop, \<lambda>v. ig_pop_update (\<lambda>_. v), 147),
      (''ld_u8'', ig_ld_u8, \<lambda>v. ig_ld_u8_update (\<lambda>_. v), 220),
      (''ld_u16'', ig_ld_u16, \<lambda>v. ig_ld_u16_update (\<lambda>_. v), 220),
      (''ld_u32'', ig_ld_u32, \<lambda>v. ig_ld_u32_update (\<lambda>_. v), 220),
      (''ld_u64'', ig_ld_u64, \<lambda>v. ig_ld_u64_update (\<lambda>_. v), 220),
      (''ld_u128'', ig_ld_u128, \<lambda>v. ig_ld_u128_update (\<lambda>_. v), 294),
      (''ld_u256'', ig_ld_u256, \<lambda>v. ig_ld_u256_update (\<lambda>_. v), 294),
      (''ld_true'', ig_ld_true, \<lambda>v. ig_ld_true_update (\<lambda>_. v), 220),
      (''ld_false'', ig_ld_false, \<lambda>v. ig_ld_false_update (\<lambda>_. v), 220),
      (''ld_const_base'', ig_ld_const_base, \<lambda>v. ig_ld_const_base_update (\<lambda>_. v), 2389),
      (''ld_const_per_byte'', ig_ld_const_per_byte, \<lambda>v. ig_ld_const_per_byte_update (\<lambda>_. v), 128),
      (''imm_borrow_loc'', ig_imm_borrow_loc, \<lambda>v. ig_imm_borrow_loc_update (\<lambda>_. v), 220),
      (''mut_borrow_loc'', ig_mut_borrow_loc, \<lambda>v. ig_mut_borrow_loc_update (\<lambda>_. v), 220),
      (''imm_borrow_field'', ig_imm_borrow_field, \<lambda>v. ig_imm_borrow_field_update (\<lambda>_. v), 735),
      (''mut_borrow_field'', ig_mut_borrow_field, \<lambda>v. ig_mut_borrow_field_update (\<lambda>_. v), 735),
      (''imm_borrow_field_generic'', ig_imm_borrow_field_generic, \<lambda>v. ig_imm_borrow_field_generic_update (\<lambda>_. v), 735),
      (''mut_borrow_field_generic'', ig_mut_borrow_field_generic, \<lambda>v. ig_mut_borrow_field_generic_update (\<lambda>_. v), 735),
      (''copy_loc_base'', ig_copy_loc_base, \<lambda>v. ig_copy_loc_base_update (\<lambda>_. v), 294),
      (''copy_loc_per_abs_val_unit'', ig_copy_loc_per_abs_val_unit, \<lambda>v. ig_copy_loc_per_abs_val_unit_update (\<lambda>_. v), 14),
      (''move_loc_base'', ig_move_loc_base, \<lambda>v. ig_move_loc_base_update (\<lambda>_. v), 441),
      (''st_loc_base'', ig_st_loc_base, \<lambda>v. ig_st_loc_base_update (\<lambda>_. v), 441),
      (''call_base'', ig_call_base, \<lambda>v. ig_call_base_update (\<lambda>_. v), 3676),
      (''call_per_arg'', ig_call_per_arg, \<lambda>v. ig_call_per_arg_update (\<lambda>_. v), 367),
      (''call_per_local'', ig_call_per_local, \<lambda>v. ig_call_per_local_update (\<lambda>_. v), 367),
      (''call_generic_base'', ig_call_generic_base, \<lambda>v. ig_call_generic_base_update (\<lambda>_. v), 3676),
      (''call_generic_per_ty_arg'', ig_call_generic_per_ty_arg, \<lambda>v. ig_call_generic_per_ty_arg_update (\<lambda>_. v), 367),
      (''call_generic_per_arg'', ig_call_generic_per_arg, \<lambda>v. ig_call_generic_per_arg_update (\<lambda>_. v), 367),
      (''call_generic_per_local'', ig_call_generic_per_local, \<lambda>v. ig_call_generic_per_local_update (\<lambda>_. v), 367),
      (''pack_base'', ig_pack_base, \<lambda>v. ig_pack_base_update (\<lambda>_. v), 808),
      (''pack_per_field'', ig_pack_per_field, \<lambda>v. ig_pack_per_field_update (\<lambda>_. v), 147),
      (''pack_generic_base'', ig_pack_generic_base, \<lambda>v. ig_pack_generic_base_update (\<lambda>_. v), 808),
      (''pack_generic_per_field'', ig_pack_generic_per_field, \<lambda>v. ig_pack_generic_per_field_update (\<lambda>_. v), 147),
      (''unpack_base'', ig_unpack_base, \<lambda>v. ig_unpack_base_update (\<lambda>_. v), 808),
      (''unpack_per_field'', ig_unpack_per_field, \<lambda>v. ig_unpack_per_field_update (\<lambda>_. v), 147),
      (''unpack_generic_base'', ig_unpack_generic_base, \<lambda>v. ig_unpack_generic_base_update (\<lambda>_. v), 808),
      (''unpack_generic_per_field'', ig_unpack_generic_per_field, \<lambda>v. ig_unpack_generic_per_field_update (\<lambda>_. v), 147),
      (''read_ref_base'', ig_read_ref_base, \<lambda>v. ig_read_ref_base_update (\<lambda>_. v), 735),
      (''read_ref_per_abs_val_unit'', ig_read_ref_per_abs_val_unit, \<lambda>v. ig_read_ref_per_abs_val_unit_update (\<lambda>_. v), 14),
      (''write_ref_base'', ig_write_ref_base, \<lambda>v. ig_write_ref_base_update (\<lambda>_. v), 735),
      (''freeze_ref'', ig_freeze_ref, \<lambda>v. ig_freeze_ref_update (\<lambda>_. v), 36),
      (''cast_u8'', ig_cast_u8, \<lambda>v. ig_cast_u8_update (\<lambda>_. v), 441),
      (''cast_u16'', ig_cast_u16, \<lambda>v. ig_cast_u16_update (\<lambda>_. v), 441),
      (''cast_u32'', ig_cast_u32, \<lambda>v. ig_cast_u32_update (\<lambda>_. v), 441),
      (''cast_u64'', ig_cast_u64, \<lambda>v. ig_cast_u64_update (\<lambda>_. v), 441),
      (''cast_u128'', ig_cast_u128, \<lambda>v. ig_cast_u128_update (\<lambda>_. v), 441),
      (''cast_u256'', ig_cast_u256, \<lambda>v. ig_cast_u256_update (\<lambda>_. v), 441),
      (''add'', ig_add, \<lambda>v. ig_add_update (\<lambda>_. v), 588),
      (''sub'', ig_sub, \<lambda>v. ig_sub_update (\<lambda>_. v), 588),
      (''mul'', ig_mul, \<lambda>v. ig_mul_update (\<lambda>_. v), 588),
      (''mod_'', ig_mod, \<lambda>v. ig_mod_update (\<lambda>_. v), 588),
      (''div'', ig_div, \<lambda>v. ig_div_update (\<lambda>_. v), 588),
      (''bit_or'', ig_bit_or, \<lambda>v. ig_bit_or_update (\<lambda>_. v), 588),
      (''bit_and'', ig_bit_and, \<lambda>v. ig_bit_and_update (\<lambda>_. v), 588),
      (''xor'', ig_xor, \<lambda>v. ig_xor_update (\<lambda>_. v), 588),
      (''shl'', ig_shl, \<lambda>v. ig_shl_update (\<lambda>_. v), 588),
      (''shr'', ig_shr, \<lambda>v. ig_shr_update (\<lambda>_. v), 588),
      (''or'', ig_or, \<lambda>v. ig_or_update (\<lambda>_. v), 588),
      (''and'', ig_and, \<lambda>v. ig_and_update (\<lambda>_. v), 588),
      (''not'', ig_not, \<lambda>v. ig_not_update (\<lambda>_. v), 588),
      (''lt'', ig_lt, \<lambda>v. ig_lt_update (\<lambda>_. v), 588),
      (''gt'', ig_gt, \<lambda>v. ig_gt_update (\<lambda>_. v), 588),
      (''le'', ig_le, \<lambda>v. ig_le_update (\<lambda>_. v), 588),
      (''ge'', ig_ge, \<lambda>v. ig_ge_update (\<lambda>_. v), 588),
      (''eq_base'', ig_eq_base, \<lambda>v. ig_eq_base_update (\<lambda>_. v), 367),
      (''eq_per_abs_val_unit'', ig_eq_per_abs_val_unit, \<lambda>v. ig_eq_per_abs_val_unit_update (\<lambda>_. v), 14),
      (''neq_base'', ig_neq_base, \<lambda>v. ig_neq_base_update (\<lambda>_. v), 367),
      (''neq_per_abs_val_unit'', ig_neq_per_abs_val_unit, \<lambda>v. ig_neq_per_abs_val_unit_update (\<lambda>_. v), 14),
      (''imm_borrow_global_base'', ig_imm_borrow_global_base, \<lambda>v. ig_imm_borrow_global_base_update (\<lambda>_. v), 1838),
      (''imm_borrow_global_generic_base'', ig_imm_borrow_global_generic_base, \<lambda>v. ig_imm_borrow_global_generic_base_update (\<lambda>_. v), 1838),
      (''mut_borrow_global_base'', ig_mut_borrow_global_base, \<lambda>v. ig_mut_borrow_global_base_update (\<lambda>_. v), 1838),
      (''mut_borrow_global_generic_base'', ig_mut_borrow_global_generic_base, \<lambda>v. ig_mut_borrow_global_generic_base_update (\<lambda>_. v), 1838),
      (''exists_base'', ig_exists_base, \<lambda>v. ig_exists_base_update (\<lambda>_. v), 919),
      (''exists_generic_base'', ig_exists_generic_base, \<lambda>v. ig_exists_generic_base_update (\<lambda>_. v), 919),
      (''move_from_base'', ig_move_from_base, \<lambda>v. ig_move_from_base_update (\<lambda>_. v), 1286),
      (''move_from_generic_base'', ig_move_from_generic_base, \<lambda>v. ig_move_from_generic_base_update (\<lambda>_. v), 1286),
      (''move_to_base'', ig_move_to_base, \<lambda>v. ig_move_to_base_update (\<lambda>_. v), 1838),
      (''move_to_generic_base'', ig_move_to_generic_base, \<lambda>v. ig_move_to_generic_base_update (\<lambda>_. v), 1838),
      (''vec_len_base'', ig_vec_len_base, \<lambda>v. ig_vec_len_base_update (\<lambda>_. v), 808),
      (''vec_imm_borrow_base'', ig_vec_imm_borrow_base, \<lambda>v. ig_vec_imm_borrow_base_update (\<lambda>_. v), 1213),
      (''vec_mut_borrow_base'', ig_vec_mut_borrow_base, \<lambda>v. ig_vec_mut_borrow_base_update (\<lambda>_. v), 1213),
      (''vec_push_back_base'', ig_vec_push_back_base, \<lambda>v. ig_vec_push_back_base_update (\<lambda>_. v), 1396),
      (''vec_pop_back_base'', ig_vec_pop_back_base, \<lambda>v. ig_vec_pop_back_base_update (\<lambda>_. v), 955),
      (''vec_swap_base'', ig_vec_swap_base, \<lambda>v. ig_vec_swap_base_update (\<lambda>_. v), 1102),
      (''vec_pack_base'', ig_vec_pack_base, \<lambda>v. ig_vec_pack_base_update (\<lambda>_. v), 2205),
      (''vec_pack_per_elem'', ig_vec_pack_per_elem, \<lambda>v. ig_vec_pack_per_elem_update (\<lambda>_. v), 147),
      (''vec_unpack_base'', ig_vec_unpack_base, \<lambda>v. ig_vec_unpack_base_update (\<lambda>_. v), 1838),
      (''vec_unpack_per_expected_elem'', ig_vec_unpack_per_expected_elem, \<lambda>v. ig_vec_unpack_per_expected_elem_update (\<lambda>_. v), 147)]"

definition instruction_from_on_chain :: "(string \<rightharpoonup> u64) \<Rightarrow> InstructionParameter option" where
  "instruction_from_on_chain gas_schedule = assign_fields ''instruction'' gas_schedule instruction_fields instruction_zeros"

definition instruction_to_on_chain :: "InstructionParameter \<Rightarrow> (string \<times> u64) list" where
  "instruction_to_on_chain params = fields_to_schedule ''instruction'' instruction_fields params"

definition instruction_initial :: InstructionParameter where
  "instruction_initial = fields_initial instruction_fields instruction_zeros"

definition storage_fields :: "StorageGasParameter gas_field list" where
  "storage_fields =
     [(''io_read_price'', sp_io_read_price, \<lambda>v. sp_io_read_price_update (\<lambda>_. v), 6),
      (''storage_fee_per_event_byte'', sp_storage_fee_per_event_byte, \<lambda>v. sp_storage_fee_per_event_byte_update (\<lambda>_. v), 6),
      (''storage_fee_per_op_new_byte'', sp_storage_fee_per_op_new_byte, \<lambda>v. sp_storage_fee_per_op_new_byte_update (\<lambda>_. v), 6),
      (''storage_fee_per_op_modify_byte'', sp_storage_fee_per_op_modify_byte, \<lambda>v. sp_storage_fee_per_op_modify_byte_update (\<lambda>_. v), 6),
      (''storage_fee_per_op_delete'', sp_storage_fee_per_op_delete, \<lambda>v. sp_storage_fee_per_op_delete_update (\<lambda>_. v), 6),
      (''storage_fee_per_transaction_byte'', sp_storage_fee_per_transaction_byte, \<lambda>v. sp_storage_fee_per_transaction_byte_update (\<lambda>_. v), 20)]"

definition storage_from_on_chain :: "(string \<rightharpoonup> u64) \<Rightarrow> StorageGasParameter option" where
  "storage_from_on_chain gas_schedule = assign_fields ''storage'' gas_schedule storage_fields storage_zeros"

definition storage_to_on_chain :: "StorageGasParameter \<Rightarrow> (string \<times> u64) list" where
  "storage_to_on_chain params = fields_to_schedule ''storage'' storage_fields params"

definition storage_initial :: StorageGasParameter where
  "storage_initial = fields_initial storage_fields storage_zeros"

definition abstract_value_fields :: "AbstractValueSizeGasParameter gas_field list" where
  "abstract_value_fields =
     [(''u8'', av_u8, \<lambda>v. av_u8_update (\<lambda>_. v), 40),
      (''u16'', av_u16, \<lambda>v. av_u16_update (\<lambda>_. v), 40),
      (''u32'', av_u32, \<lambda>v. av_u32_update (\<lambda>_. v), 40),
      (''u64'', av_u64, \<lambda>v. av_u64_update (\<lambda>_. v), 40),
      (''u128'', av_u128, \<lambda>v. av_u128_update (\<lambda>_. v), 40),
      (''u256'', av_u256, \<lambda>v. av_u256_update (\<lambda>_. v), 40),
      (''bool'', av_bool, \<lambda>v. av_bool_update (\<lambda>_. v), 40),
      (''address'', av_address, \<lambda>v. av_address_update (\<lambda>_. v), 40),
      (''struct'', av_struct, \<lambda>v. av_struct_update (\<lambda>_. v), 40),
      (''vector'', av_vector, \<lambda>v. av_vector_update (\<lambda>_. v), 40),
      (''reference'', av_reference, \<lambda>v. av_reference_update (\<lambda>_. v), 40),
      (''per_u8_packed'', av_per_u8_packed, \<lambda>v. av_per_u8_packed_update (\<lambda>_. v), 1),
      (''per_u16_packed'', av_per_u16_packed, \<lambda>v. av_per_u16_packed_update (\<lambda>_. v), 2),
      (''per_u32_packed'', av_per_u32_packed, \<lambda>v. av_per_u32_packed_update (\<lambda>_. v), 4),
      (''per_u64_packed'', av_per_u64_packed, \<lambda>v. av_per_u64_packed_update (\<lambda>_. v), 8),
      (''per_u128_packed'', av_per_u128_packed, \<lambda>v. av_per_u128_packed_update (\<lambda>_. v), 16),
      (''per_u256_packed'', av_per_u256_packed, \<lambda>v. av_per_u256_packed_update (\<lambda>_. v), 32),
      (''per_bool_packed'', av_per_bool_packed, \<lambda>v. av_per_bool_packed_update (\<lambda>_. v), 1),
      (''per_address_packed'', av_per_address_packed, \<lambda>v. av_per_address_packed_update (\<lambda>_. v), 32)]"

definition abstract_value_from_on_chain :: "(string \<rightharpoonup> u64) \<Rightarrow> AbstractValueSizeGasParameter option" where
  "abstract_value_from_on_chain gas_schedule = assign_fields ''storage'' gas_schedule abstract_value_fields abstract_value_zeros"

definition abstract_value_to_on_chain :: "AbstractValueSizeGasParameter \<Rightarrow> (string \<times> u64) list" where
  "abstract_value_to_on_chain params = fields_to_schedule ''storage'' abstract_value_fields params"

definition abstract_value_initial :: AbstractValueSizeGasParameter where
  "abstract_value_initial = fields_initial abstract_value_fields abstract_value_zeros"

section \<open>The parameters of the VM\<close>

record VMGasParameters =
  vg_instruction_gas_parameter :: InstructionParameter
  vg_storage_gas_parameter :: StorageGasParameter
  vg_abstract_value_parameter :: AbstractValueSizeGasParameter

definition vm_initial :: VMGasParameters where
  "vm_initial =
     \<lparr>vg_instruction_gas_parameter = instruction_initial, vg_storage_gas_parameter = storage_initial,
      vg_abstract_value_parameter = abstract_value_initial\<rparr>"

definition vm_from_on_chain :: "(string \<rightharpoonup> u64) \<Rightarrow> VMGasParameters result" where
  "vm_from_on_chain gas_schedule =
     and_then (expect (instruction_from_on_chain gas_schedule) ''restore InstructionParameter from entries failed'') (\<lambda>i.
     and_then (expect (storage_from_on_chain gas_schedule) ''restore StorageGasParameter from entries failed'') (\<lambda>s.
     and_then (expect (abstract_value_from_on_chain gas_schedule) ''restore AbstractValueSizeGasParameter from entries failed'') (\<lambda>a.
     Inr \<lparr>vg_instruction_gas_parameter = i, vg_storage_gas_parameter = s, vg_abstract_value_parameter = a\<rparr>)))"

definition vm_to_on_chain :: "VMGasParameters \<Rightarrow> (string \<times> u64) list" where
  "vm_to_on_chain p =
     instruction_to_on_chain (vg_instruction_gas_parameter p) @ storage_to_on_chain (vg_storage_gas_parameter p) @
     abstract_value_to_on_chain (vg_abstract_value_parameter p)"

text \<open>Collecting the entries of the on-chain schedule: a later entry of a key wins.\<close>

definition collect_entries :: "(string \<times> u64) list \<Rightarrow> string \<rightharpoonup> u64" where
  "collect_entries entries = map_of (rev entries)"

section \<open>The cost table\<close>

record CostTable =
  ct_instruction_tiers :: "(u64 \<times> u64) list"
  ct_stack_height_tiers :: "(u64 \<times> u64) list"
  ct_stack_size_tiers :: "(u64 \<times> u64) list"
  ct_storage_gas_parameter :: StorageGasParameter
  ct_instruction_gas_parameter :: InstructionParameter
  ct_abstract_value_parameter :: AbstractValueSizeGasParameter

definition get_current_and_future_tier :: "(u64 \<times> u64) list \<Rightarrow> u64 \<Rightarrow> u64 \<Rightarrow> u64 \<times> u64 option" where
  "get_current_and_future_tier tiers current default_cost =
     (let below = filter (\<lambda>(k, _). k < current) tiers;
          above = filter (\<lambda>(k, _). current < k) tiers;
          current_cost = (case map_of tiers current of
              Some v \<Rightarrow> v
            | None \<Rightarrow> (if below = [] then default_cost else snd (last below)))
      in (current_cost, if above = [] then None else Some (fst (hd above))))"

definition INSTRUCTION_TIER_DEFAULT :: u64 where "INSTRUCTION_TIER_DEFAULT = 1"
definition STACK_HEIGHT_TIER_DEFAULT :: u64 where "STACK_HEIGHT_TIER_DEFAULT = 1"
definition STACK_SIZE_TIER_DEFAULT :: u64 where "STACK_SIZE_TIER_DEFAULT = 1"

definition instruction_tier :: "CostTable \<Rightarrow> u64 \<Rightarrow> u64 \<times> u64 option" where
  "instruction_tier t instr_count = get_current_and_future_tier (ct_instruction_tiers t) instr_count INSTRUCTION_TIER_DEFAULT"

definition stack_height_tier :: "CostTable \<Rightarrow> u64 \<Rightarrow> u64 \<times> u64 option" where
  "stack_height_tier t stack_height = get_current_and_future_tier (ct_stack_height_tiers t) stack_height STACK_HEIGHT_TIER_DEFAULT"

definition stack_size_tier :: "CostTable \<Rightarrow> u64 \<Rightarrow> u64 \<times> u64 option" where
  "stack_size_tier t stack_size = get_current_and_future_tier (ct_stack_size_tiers t) stack_size STACK_SIZE_TIER_DEFAULT"

record GasCost =
  gc_instruction_gas :: u64
  gc_memory_gas :: u64
  gc_stack_height_gas :: u64

definition gas_cost_new :: "u64 \<Rightarrow> u64 \<Rightarrow> u64 \<Rightarrow> GasCost" where
  "gas_cost_new instruction_gas memory_gas stack_height_gas =
     \<lparr>gc_instruction_gas = instruction_gas, gc_memory_gas = memory_gas, gc_stack_height_gas = stack_height_gas\<rparr>"

definition gas_cost_total :: "GasCost \<Rightarrow> u64 result" where
  "gas_cost_total c =
     and_then (checked_add (gc_instruction_gas c) (gc_memory_gas c)) (\<lambda>s. checked_add s (gc_stack_height_gas c))"

definition gas_cost_total_internal :: "GasCost \<Rightarrow> u64 result" where
  "gas_cost_total_internal c =
     and_then (checked_add (gc_instruction_gas c) (gc_memory_gas c)) (\<lambda>s. checked_add s (gc_stack_height_gas c))"

definition initial_cost_schedule :: "(string \<rightharpoonup> u64) option \<Rightarrow> CostTable result" where
  "initial_cost_schedule gas_entries =
     (let instruction_tiers = btree_of_list [(0, 1), (3000, 2), (6000, 3), (8000, 5), (9000, 9), (9500, 16), (10000, 29), (10500, 50), (15000, 100)];
          stack_height_tiers = btree_of_list [(0, 1), (400, 2), (800, 3), (1200, 5), (1500, 9), (1800, 16), (2000, 29), (2200, 50), (5000, 100)];
          stack_size_tiers = btree_of_list [(0, 1), (2000, 2), (5000, 3), (8000, 5), (10000, 9), (11000, 16), (11500, 29), (11500, 50), (20000, 100)] in
      and_then
        (case gas_entries of
           Some entries \<Rightarrow>
             and_then (expect (storage_from_on_chain entries) ''restore StorageGasParameter from entries failed'') (\<lambda>s.
             and_then (expect (instruction_from_on_chain entries) ''restore InstructionParameter from entries failed'') (\<lambda>i.
             and_then (expect (abstract_value_from_on_chain entries) ''restore AbstractValueSizeGasParameter from entries failed'') (\<lambda>a.
             Inr (s, i, a))))
         | None \<Rightarrow> Inr (storage_initial, instruction_initial, abstract_value_initial)) (\<lambda>(s, i, a).
      Inr \<lparr>ct_instruction_tiers = instruction_tiers, ct_stack_height_tiers = stack_height_tiers,
           ct_stack_size_tiers = stack_size_tiers, ct_storage_gas_parameter = s, ct_instruction_gas_parameter = i,
           ct_abstract_value_parameter = a\<rparr>))"

definition zero_cost_schedule :: CostTable where
  "zero_cost_schedule =
     (let zero_tier = [(0, 0)] in
      \<lparr>ct_instruction_tiers = zero_tier, ct_stack_height_tiers = zero_tier, ct_stack_size_tiers = zero_tier,
       ct_storage_gas_parameter = storage_zeros, ct_instruction_gas_parameter = instruction_zeros,
       ct_abstract_value_parameter = abstract_value_zeros\<rparr>)"

section \<open>Round trip\<close>

text \<open>Assigning what a schedule holds, when it holds the fields of \<open>q\<close>.\<close>

lemma assign_fields_eq:
  assumes "\<forall>(key, read, assign, i) \<in> set flds. sched (schedule_key pkg key) = Some (read q)"
  shows "assign_fields pkg sched flds p = Some (foldl (\<lambda>p (_, read, assign, _). assign (read q) p) p flds)"
  using assms by (induction flds arbitrary: p) auto

lemma collect_entries_hit:
  assumes "distinct (map fst entries)" and "(k, v) \<in> set entries"
  shows "collect_entries (older @ entries) k = Some v"
proof -
  have "map_of (rev entries) k = Some v"
    using assms by (intro map_of_is_SomeI) (simp_all add: rev_map [symmetric])
  then show ?thesis by (simp add: collect_entries_def)
qed

lemma instruction_rebuild: "foldl (\<lambda>p (_, read, assign, _). assign (read q) p) instruction_zeros instruction_fields = q"
  by (simp add: instruction_fields_def instruction_zeros_def)

lemma storage_rebuild: "foldl (\<lambda>p (_, read, assign, _). assign (read q) p) storage_zeros storage_fields = q"
  by (simp add: storage_fields_def storage_zeros_def)

lemma abstract_value_rebuild: "foldl (\<lambda>p (_, read, assign, _). assign (read q) p) abstract_value_zeros abstract_value_fields = q"
  by (simp add: abstract_value_fields_def abstract_value_zeros_def)

lemma instruction_keys: "distinct (map fst instruction_fields)"
  by (simp add: instruction_fields_def)

lemma storage_keys: "distinct (map fst storage_fields @ map fst abstract_value_fields)"
  by (simp add: storage_fields_def abstract_value_fields_def)

lemma schedule_key_inj [simp]: "schedule_key pkg k = schedule_key pkg k' \<longleftrightarrow> k = k'"
  by (simp add: schedule_key_def)

lemma schedule_key_packages [simp]: "schedule_key ''instruction'' k \<noteq> schedule_key ''storage'' k'"
  by (simp add: schedule_key_def)

lemma schedule_keys_distinct: "distinct (map fst (vm_to_on_chain p))"
proof -
  have "map fst (vm_to_on_chain p) = map (schedule_key ''instruction'') (map fst instruction_fields) @
      map (schedule_key ''storage'') (map fst storage_fields @ map fst abstract_value_fields)"
    by (auto simp: vm_to_on_chain_def instruction_to_on_chain_def storage_to_on_chain_def abstract_value_to_on_chain_def fields_to_schedule_def)
  moreover have "distinct (map (schedule_key pkg) ks) \<longleftrightarrow> distinct ks" for pkg ks
    by (simp add: distinct_map inj_on_def)
  ultimately show ?thesis
    using instruction_keys storage_keys by (auto simp only: distinct_append set_map schedule_key_packages)
qed

lemma vm_round_trip: "vm_from_on_chain (collect_entries (older @ vm_to_on_chain p)) = Inr p"
proof -
  let ?s = "collect_entries (older @ vm_to_on_chain p)"
  have hit: "?s k = Some v" if "(k, v) \<in> set (vm_to_on_chain p)" for k v
    by (rule collect_entries_hit [OF schedule_keys_distinct that])
  have "instruction_from_on_chain ?s = Some (vg_instruction_gas_parameter p)"
    unfolding instruction_from_on_chain_def
    by (subst assign_fields_eq [where q = "vg_instruction_gas_parameter p"], simp_all add: instruction_rebuild)
      (force simp: vm_to_on_chain_def instruction_to_on_chain_def fields_to_schedule_def intro!: hit)
  moreover have "storage_from_on_chain ?s = Some (vg_storage_gas_parameter p)"
    unfolding storage_from_on_chain_def
    by (subst assign_fields_eq [where q = "vg_storage_gas_parameter p"], simp_all add: storage_rebuild)
      (force simp: vm_to_on_chain_def storage_to_on_chain_def fields_to_schedule_def intro!: hit)
  moreover have "abstract_value_from_on_chain ?s = Some (vg_abstract_value_parameter p)"
    unfolding abstract_value_from_on_chain_def
    by (subst assign_fields_eq [where q = "vg_abstract_value_parameter p"], simp_all add: abstract_value_rebuild)
      (force simp: vm_to_on_chain_def abstract_value_to_on_chain_def fields_to_schedule_def intro!: hit)
  ultimately show ?thesis by (simp add: vm_from_on_chain_def)
qed

section \<open>Tiers\<close>

text \<open>
  On a table in key order, the tier of \<open>n\<close> is the one with the greatest start that is not above \<open>n\<close>,
  and the next tier starts at the least start above \<open>n\<close>.
\<close>

lemma tier_spec:
  assumes "sorted_wrt (<) (map fst tiers)" and "(k, v) \<in> set tiers" and "k \<le> n" and "\<And>k' v'. (k', v') \<in> set tiers \<Longrightarrow> k' \<le> n \<Longrightarrow> k' \<le> k"
  shows "fst (get_current_and_future_tier tiers n d) = v"
proof -
  have dist: "distinct (map fst tiers)" using assms(1) by (simp add: strict_sorted_iff)
  show ?thesis
  proof (cases "k = n")
    case True
    with assms(2) dist show ?thesis by (simp add: get_current_and_future_tier_def Let_def)
  next
    case False
    with assms(3) have kn: "k < n" by simp
    have none: "map_of tiers n = None"
      using assms(4) kn by (force simp: map_of_eq_None_iff)
    let ?below = "filter (\<lambda>(k, _). k < n) tiers"
    have mem: "(k, v) \<in> set ?below" using assms(2) kn by simp
    then have ne: "?below \<noteq> []" by (metis empty_iff list.set(1))
    obtain k1 v1 where l: "last ?below = (k1, v1)" by fastforce
    then have in1: "(k1, v1) \<in> set tiers" "k1 < n" using last_in_set [OF ne] by auto
    have "sorted_wrt (<) (map fst ?below)" using assms(1) by (simp add: sorted_wrt_map sorted_wrt_filter)
    then have "k \<le> k1" using sorted_last_max [OF _ mem] l by simp
    with assms(4) [OF in1(1)] in1(2) have "k1 = k" by simp
    with in1(1) assms(2) dist have "v1 = v" by (simp add: eq_key_imp_eq_value)
    with none ne l show ?thesis by (simp add: get_current_and_future_tier_def Let_def)
  qed
qed

end
