(* ===== verification/Gas_Meter.thy ===== *)
theory Gas_Meter
  imports Gas_Schedule
begin

text \<open>
  The gas meter of MoveOS: the abstract size of values (\<^verbatim>\<open>gas/abstract.rs\<close>) and \<^verbatim>\<open>MoveOSGasMeter\<close>
  (\<^verbatim>\<open>gas/table.rs\<close>) with one operation per call of the interface \<^verbatim>\<open>GasMeter\<close>. The arithmetic of
  \<^verbatim>\<open>GasQuantity\<close> belongs to \<^verbatim>\<open>move-core-types\<close> and is the parameter \<open>gas_algebra\<close>. Lengths (\<^verbatim>\<open>usize\<close>, cast to \<^verbatim>\<open>u64\<close>) are
  64-bit words. The two cells of
  used gas are plain fields, so the sharing between clones of a meter is not modelled.
\<close>

section \<open>Gas quantities and values\<close>

text \<open>
  \<open>gq_default_vec\<close> is the visit of a vector of \<^verbatim>\<open>u16\<close>, \<^verbatim>\<open>u32\<close> or \<^verbatim>\<open>u256\<close> by a visitor that does not
  override it: from the size of the vector, of an element, the length and the size so far.
\<close>

record gas_algebra =
  gq_add :: "u64 \<Rightarrow> u64 \<Rightarrow> u64"
  gq_mul :: "u64 \<Rightarrow> u64 \<Rightarrow> u64"
  gq_checked_sub :: "u64 \<Rightarrow> u64 \<Rightarrow> u64 option"
  gq_default_vec :: "u64 \<Rightarrow> u64 \<Rightarrow> u64 \<Rightarrow> u64 \<Rightarrow> u64"

text \<open>
  A value is the tree of visits it makes: primitive values, structs and vectors with the visits of
  their parts, packed vectors with their length, and references.
\<close>

datatype ValueView =
    View_u8 | View_u16 | View_u32 | View_u64 | View_u128 | View_u256 | View_bool | View_address
  | View_struct "ValueView list" | View_vec "ValueView list"
  | View_vec_u8 u64 | View_vec_u16 u64 | View_vec_u32 u64 | View_vec_u64 u64 | View_vec_u128 u64 | View_vec_u256 u64
  | View_vec_bool u64 | View_vec_address u64 | View_ref ValueView

definition packed :: "gas_algebra \<Rightarrow> AbstractValueSizeGasParameter \<Rightarrow> (AbstractValueSizeGasParameter \<Rightarrow> u64) \<Rightarrow> u64 \<Rightarrow> u64" where
  "packed ga params per len = gq_add ga (gq_mul ga (per params) len) (av_vector params)"

definition packed_after :: "gas_algebra \<Rightarrow> AbstractValueSizeGasParameter \<Rightarrow> (AbstractValueSizeGasParameter \<Rightarrow> u64) \<Rightarrow> u64 \<Rightarrow> u64" where
  "packed_after ga params per len = gq_add ga (av_vector params) (gq_mul ga (per params) len)"

text \<open>\<^verbatim>\<open>AbstractValueSizeVisitor\<close>: the size is accumulated; a reference is not followed.\<close>

fun visit_size :: "gas_algebra \<Rightarrow> AbstractValueSizeGasParameter \<Rightarrow> ValueView \<Rightarrow> u64 \<Rightarrow> u64"
  and visit_sizes :: "gas_algebra \<Rightarrow> AbstractValueSizeGasParameter \<Rightarrow> ValueView list \<Rightarrow> u64 \<Rightarrow> u64" where
  "visit_size ga params View_u8 sz = gq_add ga sz (av_u8 params)"
| "visit_size ga params View_u16 sz = gq_add ga sz (av_u16 params)"
| "visit_size ga params View_u32 sz = gq_add ga sz (av_u32 params)"
| "visit_size ga params View_u64 sz = gq_add ga sz (av_u64 params)"
| "visit_size ga params View_u128 sz = gq_add ga sz (av_u128 params)"
| "visit_size ga params View_u256 sz = gq_add ga sz (av_u256 params)"
| "visit_size ga params View_bool sz = gq_add ga sz (av_bool params)"
| "visit_size ga params View_address sz = gq_add ga sz (av_address params)"
| "visit_size ga params (View_struct vs) sz = visit_sizes ga params vs (gq_add ga sz (av_struct params))"
| "visit_size ga params (View_vec vs) sz = visit_sizes ga params vs (gq_add ga sz (av_vector params))"
| "visit_size ga params (View_vec_u8 n) sz = gq_add ga sz (packed ga params av_per_u8_packed n)"
| "visit_size ga params (View_vec_u16 n) sz = gq_add ga sz (packed_after ga params av_per_u16_packed n)"
| "visit_size ga params (View_vec_u32 n) sz = gq_add ga sz (packed_after ga params av_per_u32_packed n)"
| "visit_size ga params (View_vec_u64 n) sz = gq_add ga sz (packed ga params av_per_u64_packed n)"
| "visit_size ga params (View_vec_u128 n) sz = gq_add ga sz (packed ga params av_per_u128_packed n)"
| "visit_size ga params (View_vec_u256 n) sz = gq_add ga sz (packed_after ga params av_per_u256_packed n)"
| "visit_size ga params (View_vec_bool n) sz = gq_add ga sz (packed ga params av_per_bool_packed n)"
| "visit_size ga params (View_vec_address n) sz = gq_add ga sz (packed ga params av_per_address_packed n)"
| "visit_size ga params (View_ref v) sz = gq_add ga sz (av_reference params)"
| "visit_sizes ga params [] sz = sz"
| "visit_sizes ga params (v # vs) sz = visit_sizes ga params vs (visit_size ga params v sz)"

text \<open>
  \<^verbatim>\<open>DerefVisitor\<close> around it: a reference at the top is followed, a reference below it is an assertion
  failure. It does not override the visits of \<^verbatim>\<open>u16\<close>, \<^verbatim>\<open>u32\<close> and \<^verbatim>\<open>u256\<close> vectors.
\<close>

fun deref_visit :: "gas_algebra \<Rightarrow> AbstractValueSizeGasParameter \<Rightarrow> nat \<Rightarrow> ValueView \<Rightarrow> u64 \<Rightarrow> u64 result"
  and deref_visits :: "gas_algebra \<Rightarrow> AbstractValueSizeGasParameter \<Rightarrow> nat \<Rightarrow> ValueView list \<Rightarrow> u64 \<Rightarrow> u64 result" where
  "deref_visit ga params depth (View_struct vs) sz = deref_visits ga params (Suc depth) vs (gq_add ga sz (av_struct params))"
| "deref_visit ga params depth (View_vec vs) sz = deref_visits ga params (Suc depth) vs (gq_add ga sz (av_vector params))"
| "deref_visit ga params depth (View_vec_u16 n) sz = Inr (gq_default_vec ga (av_vector params) (av_u16 params) n sz)"
| "deref_visit ga params depth (View_vec_u32 n) sz = Inr (gq_default_vec ga (av_vector params) (av_u32 params) n sz)"
| "deref_visit ga params depth (View_vec_u256 n) sz = Inr (gq_default_vec ga (av_vector params) (av_u256 params) n sz)"
| "deref_visit ga params depth (View_ref v) sz =
     and_then (assert_that (depth = 0) ''There shouldn't be inner refs'') (\<lambda>_. deref_visit ga params (Suc depth) v sz)"
| "deref_visit ga params depth v sz = Inr (visit_size ga params v sz)"
| "deref_visits ga params depth [] sz = Inr sz"
| "deref_visits ga params depth (v # vs) sz =
     and_then (deref_visit ga params depth v sz) (deref_visits ga params depth vs)"

definition abstract_value_size :: "gas_algebra \<Rightarrow> AbstractValueSizeGasParameter \<Rightarrow> ValueView \<Rightarrow> u64" where
  "abstract_value_size ga params v = visit_size ga params v 0"

definition abstract_value_size_dereferenced :: "gas_algebra \<Rightarrow> AbstractValueSizeGasParameter \<Rightarrow> ValueView \<Rightarrow> u64 result" where
  "abstract_value_size_dereferenced ga params v = deref_visit ga params 0 v 0"

fun abstract_stack_size :: "AbstractValueSizeGasParameter \<Rightarrow> ValueView \<Rightarrow> u64" where
  "abstract_stack_size params View_u8 = av_u8 params"
| "abstract_stack_size params View_u16 = av_u16 params"
| "abstract_stack_size params View_u32 = av_u32 params"
| "abstract_stack_size params View_u64 = av_u64 params"
| "abstract_stack_size params View_u128 = av_u128 params"
| "abstract_stack_size params View_u256 = av_u256 params"
| "abstract_stack_size params View_bool = av_bool params"
| "abstract_stack_size params View_address = av_address params"
| "abstract_stack_size params (View_struct _) = av_struct params"
| "abstract_stack_size params (View_ref _) = av_reference params"
| "abstract_stack_size params _ = av_vector params"

fun abstract_packed_size :: "gas_algebra \<Rightarrow> AbstractValueSizeGasParameter \<Rightarrow> ValueView \<Rightarrow> u64" where
  "abstract_packed_size ga params View_u8 = gq_mul ga (av_per_u8_packed params) 1"
| "abstract_packed_size ga params View_u16 = gq_mul ga (av_per_u16_packed params) 1"
| "abstract_packed_size ga params View_u32 = gq_mul ga (av_per_u32_packed params) 1"
| "abstract_packed_size ga params View_u64 = gq_mul ga (av_per_u64_packed params) 1"
| "abstract_packed_size ga params View_u128 = gq_mul ga (av_per_u128_packed params) 1"
| "abstract_packed_size ga params View_u256 = gq_mul ga (av_per_u256_packed params) 1"
| "abstract_packed_size ga params View_bool = gq_mul ga (av_per_bool_packed params) 1"
| "abstract_packed_size ga params View_address = gq_mul ga (av_per_address_packed params) 1"
| "abstract_packed_size ga params (View_struct _) = av_struct params"
| "abstract_packed_size ga params (View_ref _) = av_reference params"
| "abstract_packed_size ga params _ = av_vector params"

definition abstract_heap_size :: "gas_algebra \<Rightarrow> AbstractValueSizeGasParameter \<Rightarrow> ValueView \<Rightarrow> u64" where
  "abstract_heap_size ga params v =
     (case gq_checked_sub ga (abstract_value_size ga params v) (abstract_stack_size params v) of Some n \<Rightarrow> n | None \<Rightarrow> 0)"

definition abstract_value_size_stack_and_heap :: "gas_algebra \<Rightarrow> AbstractValueSizeGasParameter \<Rightarrow> ValueView \<Rightarrow> u64 \<times> u64" where
  "abstract_value_size_stack_and_heap ga params v =
     (let stack_size = abstract_stack_size params v; abs_size = abstract_value_size ga params v in
      (stack_size, case gq_checked_sub ga abs_size stack_size of Some n \<Rightarrow> n | None \<Rightarrow> 0))"

section \<open>The meter\<close>

record MoveOSGasMeter =
  gm_cost_table :: CostTable
  gm_gas_left :: u64
  gm_charge :: bool
  gm_execution_gas_used :: u64
  gm_storage_gas_used :: u64
  gm_stack_height_high_water_mark :: u64
  gm_stack_height_current :: u64
  gm_stack_height_next_tier_start :: "u64 option"
  gm_stack_height_current_tier_mult :: u64
  gm_stack_size_high_water_mark :: u64
  gm_stack_size_current :: u64
  gm_stack_size_next_tier_start :: "u64 option"
  gm_stack_size_current_tier_mult :: u64
  gm_instructions_executed :: u64
  gm_instructions_next_tier_start :: "u64 option"
  gm_instructions_current_tier_mult :: u64

definition meter_new :: "CostTable \<Rightarrow> u64 \<Rightarrow> MoveOSGasMeter" where
  "meter_new cost_table budget =
     (case stack_height_tier cost_table 0 of (height_mult, height_next) \<Rightarrow>
      case stack_size_tier cost_table 0 of (size_mult, size_next) \<Rightarrow>
      case instruction_tier cost_table 0 of (instr_mult, instr_next) \<Rightarrow>
      \<lparr>gm_cost_table = cost_table, gm_gas_left = budget, gm_charge = True, gm_execution_gas_used = 0, gm_storage_gas_used = 0,
       gm_stack_height_high_water_mark = 0, gm_stack_height_current = 0, gm_stack_height_next_tier_start = height_next,
       gm_stack_height_current_tier_mult = height_mult, gm_stack_size_high_water_mark = 0, gm_stack_size_current = 0,
       gm_stack_size_next_tier_start = size_next, gm_stack_size_current_tier_mult = size_mult, gm_instructions_executed = 0,
       gm_instructions_next_tier_start = instr_next, gm_instructions_current_tier_mult = instr_mult\<rparr>)"

definition new_unmetered :: MoveOSGasMeter where
  "new_unmetered =
     \<lparr>gm_cost_table = zero_cost_schedule, gm_gas_left = 0, gm_charge = False, gm_execution_gas_used = 0, gm_storage_gas_used = 0,
      gm_stack_height_high_water_mark = 0, gm_stack_height_current = 0, gm_stack_height_next_tier_start = None,
      gm_stack_height_current_tier_mult = 0, gm_stack_size_high_water_mark = 0, gm_stack_size_current = 0,
      gm_stack_size_next_tier_start = None, gm_stack_size_current_tier_mult = 0, gm_instructions_executed = 0,
      gm_instructions_next_tier_start = None, gm_instructions_current_tier_mult = 0\<rparr>"

text \<open>\<^verbatim>\<open>u64::checked_add\<close> as an error of the VM.\<close>

definition vm_add :: "u64 \<Rightarrow> u64 \<Rightarrow> u64 result" where
  "vm_add a b = (if unat a + unat b < 2 ^ 64 then Inr (a + b) else Inl (Fail ''ARITHMETIC_ERROR''))"

definition push_stack :: "u64 \<Rightarrow> (MoveOSGasMeter, unit) action" where
  "push_stack pushes m0 =
     bind_act (lift_act (vm_add (gm_stack_height_current m0) pushes)) (\<lambda>new_height.
     bind_act (modify_act (\<lambda>m. m\<lparr>gm_stack_height_high_water_mark := max (gm_stack_height_high_water_mark m) new_height,
        gm_stack_height_current := new_height\<rparr>)) (\<lambda>_.
     modify_act (\<lambda>m.
       case gm_stack_height_next_tier_start m of
         Some nxt \<Rightarrow>
           if nxt < gm_stack_height_current m then
             (case stack_height_tier (gm_cost_table m) (gm_stack_height_current m) of (next_mul, next_tier) \<Rightarrow>
                m\<lparr>gm_stack_height_current_tier_mult := next_mul, gm_stack_height_next_tier_start := next_tier\<rparr>)
           else m
       | None \<Rightarrow> m))) m0"

definition increase_instruction_count :: "u64 \<Rightarrow> (MoveOSGasMeter, unit) action" where
  "increase_instruction_count amount m0 =
     bind_act (lift_act (vm_add (gm_instructions_executed m0) amount)) (\<lambda>new_pc.
     bind_act (modify_act (\<lambda>m. m\<lparr>gm_instructions_executed := new_pc\<rparr>)) (\<lambda>_.
     modify_act (\<lambda>m.
       case gm_instructions_next_tier_start m of
         Some nxt \<Rightarrow>
           if nxt < gm_instructions_executed m then
             (case instruction_tier (gm_cost_table m) (gm_instructions_executed m) of (instr_cost, next_tier) \<Rightarrow>
                m\<lparr>gm_instructions_current_tier_mult := instr_cost, gm_instructions_next_tier_start := next_tier\<rparr>)
           else m
       | None \<Rightarrow> m))) m0"

definition increase_stack_size :: "u64 \<Rightarrow> (MoveOSGasMeter, unit) action" where
  "increase_stack_size size_amount m0 =
     bind_act (lift_act (vm_add (gm_stack_size_current m0) size_amount)) (\<lambda>new_size.
     bind_act (modify_act (\<lambda>m. m\<lparr>gm_stack_size_high_water_mark := max (gm_stack_size_high_water_mark m) new_size,
        gm_stack_size_current := new_size\<rparr>)) (\<lambda>_.
     modify_act (\<lambda>m.
       case gm_stack_size_next_tier_start m of
         Some nxt \<Rightarrow>
           if nxt < gm_stack_size_current m then
             (case stack_size_tier (gm_cost_table m) (gm_stack_size_current m) of (next_mul, next_tier) \<Rightarrow>
                m\<lparr>gm_stack_size_current_tier_mult := next_mul, gm_stack_size_next_tier_start := next_tier\<rparr>)
           else m
       | None \<Rightarrow> m))) m0"

definition pop_stack :: "u64 \<Rightarrow> (MoveOSGasMeter, unit) action" where
  "pop_stack pops = modify_act (\<lambda>m. m\<lparr>gm_stack_height_current :=
     (if pops \<le> gm_stack_height_current m then gm_stack_height_current m - pops else 0)\<rparr>)"

definition deduct_gas :: "gas_algebra \<Rightarrow> u64 \<Rightarrow> (MoveOSGasMeter, unit) action" where
  "deduct_gas ga cost m =
     (if \<not> gm_charge m then (Inr (), m)
      else case gq_checked_sub ga (gm_gas_left m) cost of
             None \<Rightarrow> (Inl (Fail ''OUT_OF_GAS''), m\<lparr>gm_gas_left := 0\<rparr>)
           | Some gas_left \<Rightarrow> (Inr (), m\<lparr>gm_gas_left := gas_left\<rparr>))"

definition charge_v1 :: "gas_algebra \<Rightarrow> u64 \<Rightarrow> (MoveOSGasMeter, unit) action" where
  "charge_v1 ga cost = deduct_gas ga cost"

definition set_metering :: "bool \<Rightarrow> (MoveOSGasMeter, unit) action" where
  "set_metering enabled = modify_act (\<lambda>m. m\<lparr>gm_charge := enabled\<rparr>)"

definition stop_metering :: "(MoveOSGasMeter, unit) action" where
  "stop_metering = modify_act (\<lambda>m. m\<lparr>gm_charge := False\<rparr>)"

definition start_metering :: "(MoveOSGasMeter, unit) action" where
  "start_metering = modify_act (\<lambda>m. m\<lparr>gm_charge := True\<rparr>)"

definition is_metering :: "MoveOSGasMeter \<Rightarrow> bool" where
  "is_metering m = gm_charge m"

text \<open>\<^verbatim>\<open>ClassifiedGasMeter\<close>.\<close>

definition charge_execution :: "gas_algebra \<Rightarrow> u64 \<Rightarrow> (MoveOSGasMeter, unit) action" where
  "charge_execution ga gas_cost m =
     (if \<not> gm_charge m then (Inr (), m)
      else (Inr (), m\<lparr>gm_execution_gas_used := gq_add ga (gm_execution_gas_used m) gas_cost\<rparr>))"

definition charge_io_write :: "gas_algebra \<Rightarrow> u64 \<Rightarrow> (MoveOSGasMeter, unit) action" where
  "charge_io_write ga tx_size m =
     (if \<not> gm_charge m then (Inr (), m)
      else
        let tx_gas_parameter = sp_storage_fee_per_transaction_byte (ct_storage_gas_parameter (gm_cost_table m)) in
        if unat tx_size * unat tx_gas_parameter < 2 ^ 64
        then charge_v1 ga (tx_size * tx_gas_parameter) m
        else (Inl (Fail ''OUT_OF_GAS''), m\<lparr>gm_gas_left := 0\<rparr>))"

definition check_constrains :: "gas_algebra \<Rightarrow> MoveOSGasMeter \<Rightarrow> u64 \<Rightarrow> unit result" where
  "check_constrains ga m max_gas_amount =
     and_then (assert_that (gm_gas_left m \<le> max_gas_amount) ''gas_left should always be less than or equal to max gas amount'') (\<lambda>_.
     let gas_used = max_gas_amount - gm_gas_left m in
     if gas_used = 0 then Inr ()
     else ensure_that (gas_used = gq_add ga (gm_execution_gas_used m) (gm_storage_gas_used m))
       ''Failed to check the constraints of the gas_used.'')"

record GasStatement =
  gs_execution_gas_used :: u64
  gs_storage_gas_used :: u64

definition gas_statement :: "MoveOSGasMeter \<Rightarrow> GasStatement" where
  "gas_statement m = \<lparr>gs_execution_gas_used = gm_execution_gas_used m, gs_storage_gas_used = gm_storage_gas_used m\<rparr>"

definition balance_internal :: "MoveOSGasMeter \<Rightarrow> u64" where
  "balance_internal m = gm_gas_left m"

section \<open>The calls of the VM\<close>

datatype SimpleInstruction =
    I_Nop | I_Abort | I_Ret | I_LdU8 | I_LdU16 | I_LdU32 | I_LdU64 | I_LdU128 | I_LdU256 | I_LdTrue | I_LdFalse
  | I_ImmBorrowLoc | I_MutBorrowLoc | I_ImmBorrowField | I_MutBorrowField | I_ImmBorrowFieldGeneric | I_MutBorrowFieldGeneric
  | I_FreezeRef | I_CastU8 | I_CastU16 | I_CastU32 | I_CastU64 | I_CastU128 | I_CastU256 | I_Add | I_Sub
  | I_Mul | I_Mod | I_Div | I_BitOr | I_BitAnd | I_Xor | I_Shl | I_Shr | I_Or | I_And | I_Not | I_Lt | I_Gt
  | I_Le | I_Ge

definition simple_instr_cost :: "InstructionParameter \<Rightarrow> SimpleInstruction \<Rightarrow> u64" where
  "simple_instr_cost p instr =
     (case instr of
        I_Nop \<Rightarrow> ig_nop p
      | I_Abort \<Rightarrow> ig_abort p
      | I_Ret \<Rightarrow> ig_abort p
      | I_LdU8 \<Rightarrow> ig_ld_u8 p
      | I_LdU16 \<Rightarrow> ig_ld_u16 p
      | I_LdU32 \<Rightarrow> ig_ld_u32 p
      | I_LdU64 \<Rightarrow> ig_ld_u64 p
      | I_LdU128 \<Rightarrow> ig_ld_u128 p
      | I_LdU256 \<Rightarrow> ig_ld_u256 p
      | I_LdTrue \<Rightarrow> ig_ld_true p
      | I_LdFalse \<Rightarrow> ig_ld_false p
      | I_ImmBorrowLoc \<Rightarrow> ig_imm_borrow_loc p
      | I_MutBorrowLoc \<Rightarrow> ig_mut_borrow_loc p
      | I_ImmBorrowField \<Rightarrow> ig_imm_borrow_field p
      | I_MutBorrowField \<Rightarrow> ig_mut_borrow_field p
      | I_ImmBorrowFieldGeneric \<Rightarrow> ig_imm_borrow_field_generic p
      | I_MutBorrowFieldGeneric \<Rightarrow> ig_mut_borrow_field_generic p
      | I_FreezeRef \<Rightarrow> ig_freeze_ref p
      | I_CastU8 \<Rightarrow> ig_cast_u8 p
      | I_CastU16 \<Rightarrow> ig_cast_u16 p
      | I_CastU32 \<Rightarrow> ig_cast_u32 p
      | I_CastU64 \<Rightarrow> ig_cast_u64 p
      | I_CastU128 \<Rightarrow> ig_cast_u128 p
      | I_CastU256 \<Rightarrow> ig_cast_u256 p
      | I_Add \<Rightarrow> ig_add p
      | I_Sub \<Rightarrow> ig_sub p
      | I_Mul \<Rightarrow> ig_mul p
      | I_Mod \<Rightarrow> ig_mod p
      | I_Div \<Rightarrow> ig_div p
      | I_BitOr \<Rightarrow> ig_bit_or p
      | I_BitAnd \<Rightarrow> ig_bit_and p
      | I_Xor \<Rightarrow> ig_xor p
      | I_Shl \<Rightarrow> ig_shl p
      | I_Shr \<Rightarrow> ig_shr p
      | I_Or \<Rightarrow> ig_or p
      | I_And \<Rightarrow> ig_and p
      | I_Not \<Rightarrow> ig_not p
      | I_Lt \<Rightarrow> ig_lt p
      | I_Gt \<Rightarrow> ig_gt p
      | I_Le \<Rightarrow> ig_le p
      | I_Ge \<Rightarrow> ig_ge p)"

abbreviation prices :: "MoveOSGasMeter \<Rightarrow> InstructionParameter" where
  "prices m \<equiv> ct_instruction_gas_parameter (gm_cost_table m)"

definition charge_simple_instr :: "gas_algebra \<Rightarrow> SimpleInstruction \<Rightarrow> (MoveOSGasMeter, unit) action" where
  "charge_simple_instr ga instr m = deduct_gas ga (simple_instr_cost (prices m) instr) m"

definition charge_br_true :: "gas_algebra \<Rightarrow> (MoveOSGasMeter, unit) action" where
  "charge_br_true ga m = charge_v1 ga (ig_br_true (prices m)) m"

definition charge_br_false :: "gas_algebra \<Rightarrow> (MoveOSGasMeter, unit) action" where
  "charge_br_false ga m = charge_v1 ga (ig_br_false (prices m)) m"

definition charge_branch :: "gas_algebra \<Rightarrow> (MoveOSGasMeter, unit) action" where
  "charge_branch ga m = charge_v1 ga (ig_branch (prices m)) m"

definition charge_pop :: "gas_algebra \<Rightarrow> (MoveOSGasMeter, unit) action" where
  "charge_pop ga m = charge_v1 ga (ig_pop (prices m)) m"

definition charge_call :: "gas_algebra \<Rightarrow> u64 \<Rightarrow> u64 \<Rightarrow> (MoveOSGasMeter, unit) action" where
  "charge_call ga num_args num_locals m =
     (let cost = gq_add ga (ig_call_base (prices m)) (gq_mul ga (ig_call_per_arg (prices m)) num_args) in
      charge_v1 ga (gq_add ga cost (gq_mul ga (ig_call_per_local (prices m)) num_locals)) m)"

definition charge_call_generic :: "gas_algebra \<Rightarrow> u64 \<Rightarrow> u64 \<Rightarrow> u64 \<Rightarrow> (MoveOSGasMeter, unit) action" where
  "charge_call_generic ga num_ty_args num_args num_locals m =
     (let cost = gq_add ga (gq_add ga (ig_call_generic_base (prices m))
                   (gq_mul ga (ig_call_generic_per_ty_arg (prices m)) num_ty_args))
                 (gq_mul ga (ig_call_generic_per_arg (prices m)) num_args) in
      charge_v1 ga (gq_add ga cost (gq_mul ga (ig_call_generic_per_local (prices m)) num_locals)) m)"

definition charge_ld_const :: "gas_algebra \<Rightarrow> u64 \<Rightarrow> (MoveOSGasMeter, unit) action" where
  "charge_ld_const ga sz m =
     charge_v1 ga (gq_add ga (ig_ld_const_base (prices m)) (gq_mul ga (ig_ld_const_per_byte (prices m)) sz)) m"

definition charge_copy_loc :: "gas_algebra \<Rightarrow> ValueView \<Rightarrow> (MoveOSGasMeter, unit) action" where
  "charge_copy_loc ga val m =
     (case abstract_value_size_stack_and_heap ga (ct_abstract_value_parameter (gm_cost_table m)) val of (stack_size, heap_size) \<Rightarrow>
      charge_v1 ga (gq_add ga (ig_copy_loc_base (prices m))
        (gq_mul ga (ig_copy_loc_per_abs_val_unit (prices m)) (gq_add ga stack_size heap_size))) m)"

definition charge_move_loc :: "gas_algebra \<Rightarrow> (MoveOSGasMeter, unit) action" where
  "charge_move_loc ga m = charge_v1 ga (ig_move_loc_base (prices m)) m"

definition charge_store_loc :: "gas_algebra \<Rightarrow> (MoveOSGasMeter, unit) action" where
  "charge_store_loc ga m = charge_v1 ga (ig_st_loc_base (prices m)) m"

definition charge_write_ref :: "gas_algebra \<Rightarrow> (MoveOSGasMeter, unit) action" where
  "charge_write_ref ga m = charge_v1 ga (ig_write_ref_base (prices m)) m"

definition charge_vec_len :: "gas_algebra \<Rightarrow> (MoveOSGasMeter, unit) action" where
  "charge_vec_len ga m = charge_v1 ga (ig_vec_len_base (prices m)) m"

definition charge_vec_push_back :: "gas_algebra \<Rightarrow> (MoveOSGasMeter, unit) action" where
  "charge_vec_push_back ga m = charge_v1 ga (ig_vec_push_back_base (prices m)) m"

definition charge_vec_pop_back :: "gas_algebra \<Rightarrow> (MoveOSGasMeter, unit) action" where
  "charge_vec_pop_back ga m = charge_v1 ga (ig_vec_pop_back_base (prices m)) m"

definition charge_vec_swap :: "gas_algebra \<Rightarrow> (MoveOSGasMeter, unit) action" where
  "charge_vec_swap ga m = charge_v1 ga (ig_vec_swap_base (prices m)) m"

definition charge_pack :: "gas_algebra \<Rightarrow> bool \<Rightarrow> u64 \<Rightarrow> (MoveOSGasMeter, unit) action" where
  "charge_pack ga is_generic num_args m =
     (if \<not> is_generic
      then charge_v1 ga (gq_add ga (ig_pack_base (prices m)) (gq_mul ga (ig_pack_per_field (prices m)) num_args)) m
      else charge_v1 ga (gq_add ga (ig_pack_generic_base (prices m)) (gq_mul ga (ig_pack_generic_per_field (prices m)) num_args)) m)"

definition charge_unpack :: "gas_algebra \<Rightarrow> bool \<Rightarrow> u64 \<Rightarrow> (MoveOSGasMeter, unit) action" where
  "charge_unpack ga is_generic num_args m =
     (if \<not> is_generic
      then charge_v1 ga (gq_add ga (ig_unpack_base (prices m)) (gq_mul ga (ig_unpack_per_field (prices m)) num_args)) m
      else charge_v1 ga (gq_add ga (ig_unpack_generic_base (prices m)) (gq_mul ga (ig_unpack_generic_per_field (prices m)) num_args)) m)"

definition charge_read_ref :: "gas_algebra \<Rightarrow> ValueView \<Rightarrow> (MoveOSGasMeter, unit) action" where
  "charge_read_ref ga ref_val m =
     (case abstract_value_size_stack_and_heap ga (ct_abstract_value_parameter (gm_cost_table m)) ref_val of (stack_size, heap_size) \<Rightarrow>
      charge_v1 ga (gq_add ga (ig_read_ref_base (prices m))
        (gq_mul ga (ig_read_ref_per_abs_val_unit (prices m)) (gq_add ga stack_size heap_size))) m)"

definition charge_eq :: "gas_algebra \<Rightarrow> ValueView \<Rightarrow> ValueView \<Rightarrow> (MoveOSGasMeter, unit) action" where
  "charge_eq ga lhs rhs m =
     bind_act (lift_act (abstract_value_size_dereferenced ga (ct_abstract_value_parameter (gm_cost_table m)) lhs)) (\<lambda>lhs_size.
     bind_act (lift_act (abstract_value_size_dereferenced ga (ct_abstract_value_parameter (gm_cost_table m)) rhs)) (\<lambda>rhs_size.
     charge_v1 ga (gq_add ga (ig_eq_base (prices m))
       (gq_mul ga (ig_eq_per_abs_val_unit (prices m)) (gq_add ga lhs_size rhs_size))))) m"

text \<open>The base price is that of equality.\<close>

definition charge_neq :: "gas_algebra \<Rightarrow> ValueView \<Rightarrow> ValueView \<Rightarrow> (MoveOSGasMeter, unit) action" where
  "charge_neq ga lhs rhs m =
     bind_act (lift_act (abstract_value_size_dereferenced ga (ct_abstract_value_parameter (gm_cost_table m)) lhs)) (\<lambda>lhs_size.
     bind_act (lift_act (abstract_value_size_dereferenced ga (ct_abstract_value_parameter (gm_cost_table m)) rhs)) (\<lambda>rhs_size.
     charge_v1 ga (gq_add ga (ig_eq_base (prices m))
       (gq_mul ga (ig_neq_per_abs_val_unit (prices m)) (gq_add ga lhs_size rhs_size))))) m"

definition charge_borrow_global :: "gas_algebra \<Rightarrow> bool \<Rightarrow> bool \<Rightarrow> (MoveOSGasMeter, unit) action" where
  "charge_borrow_global ga is_mut is_generic m =
     charge_v1 ga
       (case (is_mut, is_generic) of
          (False, False) \<Rightarrow> ig_imm_borrow_global_base (prices m)
        | (False, True) \<Rightarrow> ig_imm_borrow_global_generic_base (prices m)
        | (True, False) \<Rightarrow> ig_mut_borrow_global_base (prices m)
        | (True, True) \<Rightarrow> ig_mut_borrow_global_generic_base (prices m)) m"

definition charge_exists :: "gas_algebra \<Rightarrow> bool \<Rightarrow> (MoveOSGasMeter, unit) action" where
  "charge_exists ga is_generic m =
     charge_v1 ga (if \<not> is_generic then ig_exists_base (prices m) else ig_exists_generic_base (prices m)) m"

definition charge_move_from :: "gas_algebra \<Rightarrow> bool \<Rightarrow> (MoveOSGasMeter, unit) action" where
  "charge_move_from ga is_generic m =
     charge_v1 ga (if \<not> is_generic then ig_move_from_base (prices m) else ig_move_from_generic_base (prices m)) m"

text \<open>The prices are those of \<^verbatim>\<open>move_from\<close>.\<close>

definition charge_move_to :: "gas_algebra \<Rightarrow> bool \<Rightarrow> (MoveOSGasMeter, unit) action" where
  "charge_move_to ga is_generic m =
     charge_v1 ga (if \<not> is_generic then ig_move_from_base (prices m) else ig_move_from_generic_base (prices m)) m"

definition charge_vec_pack :: "gas_algebra \<Rightarrow> u64 \<Rightarrow> (MoveOSGasMeter, unit) action" where
  "charge_vec_pack ga num_args m =
     charge_v1 ga (gq_add ga (ig_vec_pack_base (prices m)) (gq_mul ga (ig_vec_pack_per_elem (prices m)) num_args)) m"

definition charge_vec_borrow :: "gas_algebra \<Rightarrow> bool \<Rightarrow> (MoveOSGasMeter, unit) action" where
  "charge_vec_borrow ga is_mut m =
     charge_v1 ga (if \<not> is_mut then ig_vec_imm_borrow_base (prices m) else ig_vec_mut_borrow_base (prices m)) m"

definition charge_vec_unpack :: "gas_algebra \<Rightarrow> u64 \<Rightarrow> (MoveOSGasMeter, unit) action" where
  "charge_vec_unpack ga expect_num_elements m =
     charge_v1 ga (gq_add ga (ig_vec_unpack_base (prices m)) (gq_mul ga (ig_vec_unpack_per_expected_elem (prices m)) expect_num_elements)) m"

definition charge_native_function :: "gas_algebra \<Rightarrow> u64 \<Rightarrow> (MoveOSGasMeter, unit) action" where
  "charge_native_function ga amount m = charge_v1 ga amount m"

text \<open>The calls that cost nothing.\<close>

definition charge_ld_const_after_deserialization :: "ValueView \<Rightarrow> (MoveOSGasMeter, unit) action" where
  "charge_ld_const_after_deserialization val = return_act ()"

definition charge_load_resource :: "ValueView option \<Rightarrow> u64 \<Rightarrow> (MoveOSGasMeter, unit) action" where
  "charge_load_resource val bytes_loaded = return_act ()"

definition charge_native_function_before_execution :: "ValueView list \<Rightarrow> (MoveOSGasMeter, unit) action" where
  "charge_native_function_before_execution args = return_act ()"

definition charge_drop_frame :: "ValueView list \<Rightarrow> (MoveOSGasMeter, unit) action" where
  "charge_drop_frame locals = return_act ()"

end
