(* ===== verification/Gas_Properties.thy ===== *)
theory Gas_Properties
  imports Gas_Meter
begin

text \<open>
  Accounting of the gas meter. The reference is exact: the weight of a value and the price of a call
  are natural numbers, sums of price times count. The arithmetic of \<^verbatim>\<open>GasQuantity\<close> saturates at the
  largest 64-bit word; the locale \<open>gas_arithmetic\<close> states that, and inside it the abstract sizes and
  the charges of the meter are shown to be the saturated exact values.
\<close>

section \<open>The exact reference\<close>

fun view_weight :: "AbstractValueSizeGasParameter \<Rightarrow> ValueView \<Rightarrow> nat" where
  "view_weight p View_u8 = unat (av_u8 p)"
| "view_weight p View_u16 = unat (av_u16 p)"
| "view_weight p View_u32 = unat (av_u32 p)"
| "view_weight p View_u64 = unat (av_u64 p)"
| "view_weight p View_u128 = unat (av_u128 p)"
| "view_weight p View_u256 = unat (av_u256 p)"
| "view_weight p View_bool = unat (av_bool p)"
| "view_weight p View_address = unat (av_address p)"
| "view_weight p (View_struct vs) = unat (av_struct p) + sum_list (map (view_weight p) vs)"
| "view_weight p (View_vec vs) = unat (av_vector p) + sum_list (map (view_weight p) vs)"
| "view_weight p (View_vec_u8 n) = unat (av_vector p) + unat n * unat (av_per_u8_packed p)"
| "view_weight p (View_vec_u16 n) = unat (av_vector p) + unat n * unat (av_per_u16_packed p)"
| "view_weight p (View_vec_u32 n) = unat (av_vector p) + unat n * unat (av_per_u32_packed p)"
| "view_weight p (View_vec_u64 n) = unat (av_vector p) + unat n * unat (av_per_u64_packed p)"
| "view_weight p (View_vec_u128 n) = unat (av_vector p) + unat n * unat (av_per_u128_packed p)"
| "view_weight p (View_vec_u256 n) = unat (av_vector p) + unat n * unat (av_per_u256_packed p)"
| "view_weight p (View_vec_bool n) = unat (av_vector p) + unat n * unat (av_per_bool_packed p)"
| "view_weight p (View_vec_address n) = unat (av_vector p) + unat n * unat (av_per_address_packed p)"
| "view_weight p (View_ref v) = unat (av_reference p)"

text \<open>
  The weight an equality sees: a vector of \<^verbatim>\<open>u16\<close>, \<^verbatim>\<open>u32\<close> or \<^verbatim>\<open>u256\<close> counts element by element.
\<close>

fun body_weight :: "AbstractValueSizeGasParameter \<Rightarrow> ValueView \<Rightarrow> nat" where
  "body_weight p (View_struct vs) = unat (av_struct p) + sum_list (map (body_weight p) vs)"
| "body_weight p (View_vec vs) = unat (av_vector p) + sum_list (map (body_weight p) vs)"
| "body_weight p (View_vec_u16 n) = unat (av_vector p) + unat n * unat (av_u16 p)"
| "body_weight p (View_vec_u32 n) = unat (av_vector p) + unat n * unat (av_u32 p)"
| "body_weight p (View_vec_u256 n) = unat (av_vector p) + unat n * unat (av_u256 p)"
| "body_weight p v = view_weight p v"

fun deref_weight :: "AbstractValueSizeGasParameter \<Rightarrow> ValueView \<Rightarrow> nat" where
  "deref_weight p (View_ref v) = body_weight p v"
| "deref_weight p v = body_weight p v"

fun ref_free :: "ValueView \<Rightarrow> bool" where
  "ref_free (View_struct vs) \<longleftrightarrow> list_all ref_free vs"
| "ref_free (View_vec vs) \<longleftrightarrow> list_all ref_free vs"
| "ref_free (View_ref v) \<longleftrightarrow> False"
| "ref_free v \<longleftrightarrow> True"

fun inner_ref_free :: "ValueView \<Rightarrow> bool" where
  "inner_ref_free (View_ref v) \<longleftrightarrow> ref_free v"
| "inner_ref_free v \<longleftrightarrow> ref_free v"

text \<open>The calls the VM makes on a meter and what each dispatches to.\<close>

datatype gas_call =
    Call_simple SimpleInstruction | Call_br_true | Call_br_false | Call_branch | Call_pop
  | Call_call u64 u64 | Call_call_generic u64 u64 u64 | Call_ld_const u64
  | Call_copy_loc ValueView | Call_move_loc | Call_store_loc
  | Call_pack bool u64 | Call_unpack bool u64 | Call_read_ref ValueView | Call_write_ref
  | Call_eq ValueView ValueView | Call_neq ValueView ValueView
  | Call_borrow_global bool bool | Call_exists bool | Call_move_from bool | Call_move_to bool
  | Call_vec_pack u64 | Call_vec_len | Call_vec_borrow bool | Call_vec_push_back | Call_vec_pop_back
  | Call_vec_unpack u64 | Call_vec_swap | Call_native u64 | Call_io_write u64
  | Call_drop_frame "ValueView list"

fun make_call :: "gas_algebra \<Rightarrow> gas_call \<Rightarrow> (MoveOSGasMeter, unit) action" where
  "make_call ga (Call_simple i) = charge_simple_instr ga i"
| "make_call ga Call_br_true = charge_br_true ga"
| "make_call ga Call_br_false = charge_br_false ga"
| "make_call ga Call_branch = charge_branch ga"
| "make_call ga Call_pop = charge_pop ga"
| "make_call ga (Call_call args locals) = charge_call ga args locals"
| "make_call ga (Call_call_generic tys args locals) = charge_call_generic ga tys args locals"
| "make_call ga (Call_ld_const n) = charge_ld_const ga n"
| "make_call ga (Call_copy_loc v) = charge_copy_loc ga v"
| "make_call ga Call_move_loc = charge_move_loc ga"
| "make_call ga Call_store_loc = charge_store_loc ga"
| "make_call ga (Call_pack g n) = charge_pack ga g n"
| "make_call ga (Call_unpack g n) = charge_unpack ga g n"
| "make_call ga (Call_read_ref v) = charge_read_ref ga v"
| "make_call ga Call_write_ref = charge_write_ref ga"
| "make_call ga (Call_eq a b) = charge_eq ga a b"
| "make_call ga (Call_neq a b) = charge_neq ga a b"
| "make_call ga (Call_borrow_global mutable g) = charge_borrow_global ga mutable g"
| "make_call ga (Call_exists g) = charge_exists ga g"
| "make_call ga (Call_move_from g) = charge_move_from ga g"
| "make_call ga (Call_move_to g) = charge_move_to ga g"
| "make_call ga (Call_vec_pack n) = charge_vec_pack ga n"
| "make_call ga Call_vec_len = charge_vec_len ga"
| "make_call ga (Call_vec_borrow mutable) = charge_vec_borrow ga mutable"
| "make_call ga Call_vec_push_back = charge_vec_push_back ga"
| "make_call ga Call_vec_pop_back = charge_vec_pop_back ga"
| "make_call ga (Call_vec_unpack n) = charge_vec_unpack ga n"
| "make_call ga Call_vec_swap = charge_vec_swap ga"
| "make_call ga (Call_native n) = charge_native_function ga n"
| "make_call ga (Call_io_write n) = charge_io_write ga n"
| "make_call ga (Call_drop_frame vs) = charge_drop_frame vs"

text \<open>A run stops at the first error, as the interpreter does.\<close>

fun run_calls :: "gas_algebra \<Rightarrow> gas_call list \<Rightarrow> (MoveOSGasMeter, unit) action" where
  "run_calls ga [] = return_act ()"
| "run_calls ga (c # cs) = bind_act (make_call ga c) (\<lambda>_. run_calls ga cs)"

text \<open>\<open>linear base per n\<close> is the exact price of a call with \<open>n\<close> units.\<close>

definition linear :: "u64 \<Rightarrow> u64 \<Rightarrow> nat \<Rightarrow> nat" where
  "linear base per n = unat base + unat per * n"

fun call_cost :: "CostTable \<Rightarrow> gas_call \<Rightarrow> nat" where
  "call_cost t (Call_simple i) = unat (simple_instr_cost (ct_instruction_gas_parameter t) i)"
| "call_cost t Call_br_true = unat (ig_br_true (ct_instruction_gas_parameter t))"
| "call_cost t Call_br_false = unat (ig_br_false (ct_instruction_gas_parameter t))"
| "call_cost t Call_branch = unat (ig_branch (ct_instruction_gas_parameter t))"
| "call_cost t Call_pop = unat (ig_pop (ct_instruction_gas_parameter t))"
| "call_cost t (Call_call args locals) =
     (let p = ct_instruction_gas_parameter t in
      linear (ig_call_base p) (ig_call_per_arg p) (unat args) + unat (ig_call_per_local p) * unat locals)"
| "call_cost t (Call_call_generic tys args locals) =
     (let p = ct_instruction_gas_parameter t in
      linear (ig_call_generic_base p) (ig_call_generic_per_ty_arg p) (unat tys)
      + unat (ig_call_generic_per_arg p) * unat args + unat (ig_call_generic_per_local p) * unat locals)"
| "call_cost t (Call_ld_const n) =
     (let p = ct_instruction_gas_parameter t in linear (ig_ld_const_base p) (ig_ld_const_per_byte p) (unat n))"
| "call_cost t (Call_copy_loc v) =
     (let p = ct_instruction_gas_parameter t in
      linear (ig_copy_loc_base p) (ig_copy_loc_per_abs_val_unit p) (view_weight (ct_abstract_value_parameter t) v))"
| "call_cost t Call_move_loc = unat (ig_move_loc_base (ct_instruction_gas_parameter t))"
| "call_cost t Call_store_loc = unat (ig_st_loc_base (ct_instruction_gas_parameter t))"
| "call_cost t (Call_pack g n) =
     (let p = ct_instruction_gas_parameter t in
      if g then linear (ig_pack_generic_base p) (ig_pack_generic_per_field p) (unat n)
      else linear (ig_pack_base p) (ig_pack_per_field p) (unat n))"
| "call_cost t (Call_unpack g n) =
     (let p = ct_instruction_gas_parameter t in
      if g then linear (ig_unpack_generic_base p) (ig_unpack_generic_per_field p) (unat n)
      else linear (ig_unpack_base p) (ig_unpack_per_field p) (unat n))"
| "call_cost t (Call_read_ref v) =
     (let p = ct_instruction_gas_parameter t in
      linear (ig_read_ref_base p) (ig_read_ref_per_abs_val_unit p) (view_weight (ct_abstract_value_parameter t) v))"
| "call_cost t Call_write_ref = unat (ig_write_ref_base (ct_instruction_gas_parameter t))"
| "call_cost t (Call_eq a b) =
     (let p = ct_instruction_gas_parameter t; q = ct_abstract_value_parameter t in
      linear (ig_eq_base p) (ig_eq_per_abs_val_unit p) (deref_weight q a + deref_weight q b))"
| "call_cost t (Call_neq a b) =
     (let p = ct_instruction_gas_parameter t; q = ct_abstract_value_parameter t in
      linear (ig_eq_base p) (ig_neq_per_abs_val_unit p) (deref_weight q a + deref_weight q b))"
| "call_cost t (Call_borrow_global mutable g) =
     (let p = ct_instruction_gas_parameter t in
      unat (if mutable then if g then ig_mut_borrow_global_generic_base p else ig_mut_borrow_global_base p
            else if g then ig_imm_borrow_global_generic_base p else ig_imm_borrow_global_base p))"
| "call_cost t (Call_exists g) =
     (let p = ct_instruction_gas_parameter t in unat (if g then ig_exists_generic_base p else ig_exists_base p))"
| "call_cost t (Call_move_from g) =
     (let p = ct_instruction_gas_parameter t in unat (if g then ig_move_from_generic_base p else ig_move_from_base p))"
| "call_cost t (Call_move_to g) =
     (let p = ct_instruction_gas_parameter t in unat (if g then ig_move_from_generic_base p else ig_move_from_base p))"
| "call_cost t (Call_vec_pack n) =
     (let p = ct_instruction_gas_parameter t in linear (ig_vec_pack_base p) (ig_vec_pack_per_elem p) (unat n))"
| "call_cost t Call_vec_len = unat (ig_vec_len_base (ct_instruction_gas_parameter t))"
| "call_cost t (Call_vec_borrow mutable) =
     (let p = ct_instruction_gas_parameter t in unat (if mutable then ig_vec_mut_borrow_base p else ig_vec_imm_borrow_base p))"
| "call_cost t Call_vec_push_back = unat (ig_vec_push_back_base (ct_instruction_gas_parameter t))"
| "call_cost t Call_vec_pop_back = unat (ig_vec_pop_back_base (ct_instruction_gas_parameter t))"
| "call_cost t (Call_vec_unpack n) =
     (let p = ct_instruction_gas_parameter t in linear (ig_vec_unpack_base p) (ig_vec_unpack_per_expected_elem p) (unat n))"
| "call_cost t Call_vec_swap = unat (ig_vec_swap_base (ct_instruction_gas_parameter t))"
| "call_cost t (Call_native n) = unat n"
| "call_cost t (Call_io_write n) = unat n * unat (sp_storage_fee_per_transaction_byte (ct_storage_gas_parameter t))"
| "call_cost t (Call_drop_frame vs) = 0"

fun call_ok :: "gas_call \<Rightarrow> bool" where
  "call_ok (Call_eq a b) \<longleftrightarrow> inner_ref_free a \<and> inner_ref_free b"
| "call_ok (Call_neq a b) \<longleftrightarrow> inner_ref_free a \<and> inner_ref_free b"
| "call_ok c \<longleftrightarrow> True"

lemma deref_weight_no_ref: "\<nexists>w. v = View_ref w \<Longrightarrow> deref_weight p v = body_weight p v"
  by (cases v) simp_all

lemma inner_ref_free_no_ref: "\<nexists>w. v = View_ref w \<Longrightarrow> inner_ref_free v = ref_free v"
  by (cases v) simp_all

text \<open>What a metered charge of \<open>n\<close> does.\<close>

definition exact_deduct :: "nat \<Rightarrow> (MoveOSGasMeter, unit) action" where
  "exact_deduct n m =
     (if \<not> gm_charge m then (Inr (), m)
      else if n \<le> unat (gm_gas_left m) then (Inr (), m\<lparr>gm_gas_left := gm_gas_left m - word_of_nat n\<rparr>)
      else (Inl (Fail ''OUT_OF_GAS''), m\<lparr>gm_gas_left := 0\<rparr>))"

section \<open>Saturation\<close>

lemma visit_sizes_fold: "visit_sizes ga p vs s = fold (visit_size ga p) vs s"
  by (induction vs arbitrary: s) simp_all

definition max_gas :: nat where
  "max_gas = 2 ^ 64 - 1"

definition sat :: "nat \<Rightarrow> u64" where
  "sat n = word_of_nat (min n max_gas)"

lemma unat_sat [simp]: "unat (sat n) = min n max_gas"
proof -
  have "min n max_gas < 2 ^ 64" by (simp add: max_gas_def)
  then show ?thesis by (simp add: sat_def unat_of_nat take_bit_nat_eq_self)
qed

lemma unat_le_max_gas [simp]: "unat (x :: u64) \<le> max_gas"
  using unsigned_less [of x, where ?'a = nat] by (simp add: max_gas_def)

lemma sat_unat [simp]: "sat (unat x) = x"
  by (simp add: sat_def min_absorb1)

lemma unat_minus_of_nat:
  assumes "n \<le> unat (x :: u64)"
  shows "unat (x - word_of_nat n) = unat x - n"
proof -
  have "n < 2 ^ 64" using assms unat_le_max_gas [of x] by (simp add: max_gas_def)
  then have "unat (word_of_nat n :: u64) = n" by (simp add: unat_of_nat take_bit_nat_eq_self)
  then show ?thesis using assms by (simp add: unat_sub word_le_nat_alt)
qed

lemma sat_eqI: "min a max_gas = min b max_gas \<Longrightarrow> sat a = sat b"
  by (simp add: sat_def)

lemma sat_add_min [simp]:
  "sat (min a max_gas + b) = sat (a + b)" "sat (b + min a max_gas) = sat (b + a)"
  "sat (min max_gas a + b) = sat (a + b)" "sat (b + min max_gas a) = sat (b + a)"
  by (auto intro!: sat_eqI simp: min_def)

lemma sat_mul_min [simp]: "sat (c * min a max_gas) = sat (c * a)"
proof (cases "c = 0 \<or> a \<le> max_gas")
  case False
  then have "max_gas \<le> c * max_gas" "max_gas \<le> c * a"
    by (auto intro: order_trans [of _ a] simp: Suc_leI)
  then show ?thesis using False by (auto intro!: sat_eqI simp: min_def)
qed auto

text \<open>The documented arithmetic of \<^verbatim>\<open>GasQuantity\<close> and the default visit of a packed vector.\<close>

locale gas_arithmetic =
  fixes ga :: gas_algebra
  assumes add_saturates: "gq_add ga a b = sat (unat a + unat b)"
    and mul_saturates: "gq_mul ga a b = sat (unat a * unat b)"
    and sub_checked: "gq_checked_sub ga a b = (if b \<le> a then Some (a - b) else None)"
    and default_vec: "gq_default_vec ga v e n s = sat (unat s + (unat v + unat n * unat e))"
begin

lemmas arith = add_saturates mul_saturates sub_checked default_vec

lemma fold_sat:
  assumes "\<And>v s. v \<in> set vs \<Longrightarrow> f v s = sat (unat s + w v)"
  shows "fold f vs s = sat (unat s + sum_list (map w vs))"
  using assms by (induction vs arbitrary: s) (simp_all add: ac_simps)

lemma visit_size_sat: "visit_size ga p v s = sat (unat s + view_weight p v)"
  by (induction v arbitrary: s)
    (simp_all add: arith packed_def packed_after_def visit_sizes_fold fold_sat [where w = "view_weight p"] ac_simps)

lemma deref_visits_sat:
  assumes "\<And>v s. v \<in> set vs \<Longrightarrow> deref_visit ga p d v s = Inr (sat (unat s + w v))"
  shows "deref_visits ga p d vs s = Inr (sat (unat s + sum_list (map w vs)))"
  using assms by (induction vs arbitrary: s) (simp_all add: ac_simps)

lemma deref_visit_sat:
  "ref_free v \<Longrightarrow> deref_visit ga p d v s = Inr (sat (unat s + body_weight p v))"
proof (induction v arbitrary: d s)
  case (View_struct vs)
  then show ?case
    by (simp add: list_all_iff deref_visits_sat [where w = "body_weight p"] arith ac_simps)
next
  case (View_vec vs)
  then show ?case
    by (simp add: list_all_iff deref_visits_sat [where w = "body_weight p"] arith ac_simps)
qed (simp_all add: packed_def visit_size_sat arith ac_simps)

lemma abstract_value_size_exact: "abstract_value_size ga p v = sat (view_weight p v)"
  by (simp add: abstract_value_size_def visit_size_sat)

lemma dereferenced_exact:
  "inner_ref_free v \<Longrightarrow> abstract_value_size_dereferenced ga p v = Inr (sat (deref_weight p v))"
  unfolding abstract_value_size_dereferenced_def
  by (cases "\<exists>w. v = View_ref w")
    (auto simp: assert_that_def deref_visit_sat deref_weight_no_ref inner_ref_free_no_ref)

lemma stack_within_size: "unat (abstract_stack_size p v) \<le> view_weight p v"
  by (cases v) simp_all

lemma stack_and_heap:
  "abstract_value_size_stack_and_heap ga p v = (stack, heap) \<Longrightarrow> gq_add ga stack heap = sat (view_weight p v)"
  using stack_within_size [of p v]
  by (auto simp: abstract_value_size_stack_and_heap_def Let_def abstract_value_size_exact arith word_le_nat_alt
      unat_sub intro!: sat_eqI)

lemma deduct_sat:
  assumes "unat (gm_gas_left m) < max_gas"
  shows "deduct_gas ga (sat n) m = exact_deduct n m"
proof -
  have "sat n \<le> gm_gas_left m \<longleftrightarrow> n \<le> unat (gm_gas_left m)"
    using assms by (auto simp: word_le_nat_alt min_def)
  moreover have "n \<le> unat (gm_gas_left m) \<Longrightarrow> sat n = word_of_nat n"
    using assms by (simp add: sat_def)
  ultimately show ?thesis by (simp add: deduct_gas_def exact_deduct_def sub_checked)
qed

lemma deduct_exact:
  assumes "unat (gm_gas_left m) < max_gas" and "c = sat n"
  shows "deduct_gas ga c m = exact_deduct n m"
  using assms deduct_sat by simp

lemma gas_sum: "gq_add ga (sat a) (sat b) = sat (a + b)"
  by (simp add: arith)

lemma linear_sat:
  "gq_add ga b (gq_mul ga per n) = sat (linear b per (unat n))"
  "gq_add ga b (gq_mul ga per (sat k)) = sat (linear b per k)"
  "gq_add ga (sat j) (gq_mul ga per n) = sat (j + unat per * unat n)"
  by (simp_all add: arith linear_def)

lemma call_sat:
  "gq_add ga (gq_add ga b (gq_mul ga x i)) (gq_mul ga y j) = sat (linear b x (unat i) + unat y * unat j)"
  "gq_add ga (gq_add ga (gq_add ga b (gq_mul ga x i)) (gq_mul ga y j)) (gq_mul ga z k)
     = sat (linear b x (unat i) + unat y * unat j + unat z * unat k)"
  by (simp_all only: linear_sat(1) [of b x i] linear_sat(3))

lemma io_write_exact:
  assumes "unat (gm_gas_left m) < max_gas"
  shows "charge_io_write ga n m =
    exact_deduct (unat n * unat (sp_storage_fee_per_transaction_byte (ct_storage_gas_parameter (gm_cost_table m)))) m"
    (is "_ = exact_deduct (unat n * unat ?fee) m")
proof (cases "unat n * unat ?fee < 2 ^ 64")
  case True
  then have "n * ?fee = sat (unat n * unat ?fee)"
    by (simp add: sat_def max_gas_def min_absorb1)
  then show ?thesis
    using True deduct_exact [OF assms] by (simp add: charge_io_write_def Let_def charge_v1_def exact_deduct_def)
next
  case False
  then have "\<not> unat n * unat ?fee \<le> unat (gm_gas_left m)"
    using assms by (simp add: max_gas_def)
  then show ?thesis using False by (simp add: charge_io_write_def Let_def exact_deduct_def)
qed

lemmas call_defs = charge_simple_instr_def charge_br_true_def charge_br_false_def charge_branch_def charge_pop_def
  charge_call_def charge_call_generic_def charge_ld_const_def charge_copy_loc_def charge_move_loc_def
  charge_store_loc_def charge_pack_def charge_unpack_def charge_read_ref_def charge_write_ref_def charge_eq_def
  charge_neq_def charge_borrow_global_def charge_exists_def charge_move_from_def charge_move_to_def
  charge_vec_pack_def charge_vec_len_def charge_vec_borrow_def charge_vec_push_back_def charge_vec_pop_back_def
  charge_vec_unpack_def charge_vec_swap_def charge_native_function_def charge_drop_frame_def charge_v1_def Let_def

lemma deduct_word:
  assumes "unat (gm_gas_left m) < max_gas"
  shows "deduct_gas ga c m = exact_deduct (unat c) m"
  using deduct_sat [OF assms, of "unat c"] by simp

lemma exact_deduct_min:
  assumes "unat (gm_gas_left m) < max_gas"
  shows "exact_deduct (min n max_gas) m = exact_deduct n m"
  using assms deduct_word [OF assms, of "sat n"] deduct_sat [OF assms, of n] by simp

lemma make_call_exact:
  assumes "call_ok c" and small: "unat (gm_gas_left m) < max_gas"
  shows "make_call ga c m = exact_deduct (call_cost (gm_cost_table m) c) m"
proof (cases c)
  case (Call_copy_loc v)
  then show ?thesis
    by (cases "abstract_value_size_stack_and_heap ga (ct_abstract_value_parameter (gm_cost_table m)) v")
      (simp add: call_defs stack_and_heap linear_sat(2) deduct_sat [OF small])
next
  case (Call_read_ref v)
  then show ?thesis
    by (cases "abstract_value_size_stack_and_heap ga (ct_abstract_value_parameter (gm_cost_table m)) v")
      (simp add: call_defs stack_and_heap linear_sat(2) deduct_sat [OF small])
next
  case (Call_eq a b)
  then show ?thesis using assms(1)
    by (simp add: call_defs dereferenced_exact gas_sum linear_sat(2) deduct_sat [OF small])
next
  case (Call_neq a b)
  then show ?thesis using assms(1)
    by (simp add: call_defs dereferenced_exact gas_sum linear_sat(2) deduct_sat [OF small])
next
  case (Call_io_write n)
  then show ?thesis by (simp add: io_write_exact [OF small])
next
  case (Call_drop_frame vs)
  then show ?thesis by (simp add: call_defs exact_deduct_def return_act_def)
next
  case (Call_call args locals)
  then show ?thesis by (simp add: call_defs call_sat linear_sat(3) deduct_sat [OF small])
next
  case (Call_call_generic tys args locals)
  then show ?thesis by (simp add: call_defs call_sat linear_sat(3) deduct_sat [OF small])
qed (simp_all add: call_defs linear_sat deduct_sat [OF small] deduct_word [OF small] exact_deduct_min [OF small])

lemma run_calls_exact:
  assumes "list_all call_ok cs" and "unat (gm_gas_left m) < max_gas"
  shows "run_calls ga cs m = exact_deduct (\<Sum>c\<leftarrow>cs. call_cost (gm_cost_table m) c) m"
  using assms
proof (induction cs arbitrary: m)
  case Nil
  then show ?case by (simp add: return_act_def exact_deduct_def)
next
  case (Cons c cs)
  let ?n = "call_cost (gm_cost_table m) c"
  have call: "make_call ga c m = exact_deduct ?n m"
    using Cons.prems make_call_exact by simp
  show ?case
  proof (cases "gm_charge m \<and> ?n \<le> unat (gm_gas_left m)")
    case True
    let ?m = "m\<lparr>gm_gas_left := gm_gas_left m - word_of_nat ?n\<rparr>"
    have left: "unat (gm_gas_left ?m) = unat (gm_gas_left m) - ?n"
      using True unat_le_max_gas [of "gm_gas_left m"] by (simp add: unat_minus_of_nat)
    have "run_calls ga (c # cs) m = run_calls ga cs ?m"
      using True call by (simp add: bind_act_def exact_deduct_def)
    also have "\<dots> = exact_deduct (\<Sum>c\<leftarrow>cs. call_cost (gm_cost_table m) c) ?m"
      using Cons left by simp
    finally show ?thesis using True left by (auto simp: exact_deduct_def)
  next
    case False
    then show ?thesis using Cons call by (auto simp: bind_act_def exact_deduct_def)
  qed
qed

end

section \<open>Saturating 64-bit words\<close>

definition saturating :: gas_algebra where
  "saturating = \<lparr>gq_add = (\<lambda>a b. sat (unat a + unat b)), gq_mul = (\<lambda>a b. sat (unat a * unat b)),
     gq_checked_sub = (\<lambda>a b. if b \<le> a then Some (a - b) else None),
     gq_default_vec = (\<lambda>v e n s. sat (unat s + (unat v + unat n * unat e)))\<rparr>"

interpretation sat64: gas_arithmetic saturating
  by unfold_locales (simp_all add: saturating_def)

section \<open>The properties\<close>

text \<open>
  C36. The meter accounts exactly. With metering on and less than the largest 64-bit amount of gas left,
  a sequence of calls of the VM in which no equality compares values with inner references succeeds
  exactly when the sum of the exact prices is within the gas left, which it lowers by that sum and
  changes nothing else; otherwise the sequence ends in \<^verbatim>\<open>OUT_OF_GAS\<close> with no gas left. Saturation of the
  arithmetic never undercharges.
\<close>
theorem meter_accounting:
  assumes "gas_arithmetic ga" and "gm_charge m" and "unat (gm_gas_left m) < max_gas" and "list_all call_ok cs"
  shows "run_calls ga cs m =
    (if (\<Sum>c\<leftarrow>cs. call_cost (gm_cost_table m) c) \<le> unat (gm_gas_left m)
     then (Inr (), m\<lparr>gm_gas_left := gm_gas_left m - word_of_nat (\<Sum>c\<leftarrow>cs. call_cost (gm_cost_table m) c)\<rparr>)
     else (Inl (Fail ''OUT_OF_GAS''), m\<lparr>gm_gas_left := 0\<rparr>))"
  using gas_arithmetic.run_calls_exact [OF assms(1,4,3)] assms(2) by (simp add: exact_deduct_def)

text \<open>A meter with prices for copying a local, and one call each way past its budget.\<close>

definition demo_table :: CostTable where
  "demo_table = zero_cost_schedule
     \<lparr>ct_instruction_gas_parameter := instruction_zeros\<lparr>ig_copy_loc_base := 2, ig_copy_loc_per_abs_val_unit := 3\<rparr>,
      ct_abstract_value_parameter := abstract_value_zeros\<lparr>av_vector := 1, av_per_u8_packed := 1\<rparr>\<rparr>"

definition demo_meter :: MoveOSGasMeter where
  "demo_meter = meter_new demo_table 30"

theorem meter_accounting_witness:
  "run_calls saturating [Call_native 5, Call_copy_loc (View_vec_u8 4)] demo_meter = (Inr (), demo_meter\<lparr>gm_gas_left := 8\<rparr>) \<and>
   run_calls saturating [Call_native 5, Call_copy_loc (View_vec_u8 9)] demo_meter =
     (Inl (Fail ''OUT_OF_GAS''), demo_meter\<lparr>gm_gas_left := 0\<rparr>)"
proof -
  have table: "gm_cost_table demo_meter = demo_table" "gm_gas_left demo_meter = 30" "gm_charge demo_meter"
    by (simp_all add: demo_meter_def meter_new_def split: prod.splits)
  have cost: "call_cost demo_table (Call_native 5) = 5" "call_cost demo_table (Call_copy_loc (View_vec_u8 n)) = 2 + 3 * (1 + unat n)" for n
    by (simp_all add: demo_table_def linear_def Let_def instruction_zeros_def abstract_value_zeros_def)
  show ?thesis
    using meter_accounting [OF sat64.gas_arithmetic_axioms table(3), of "[Call_native 5, Call_copy_loc (View_vec_u8 4)]"]
      meter_accounting [OF sat64.gas_arithmetic_axioms table(3), of "[Call_native 5, Call_copy_loc (View_vec_u8 9)]"]
    by (simp add: table cost max_gas_def del: call_cost.simps)
qed

text \<open>
  C12. Publishing the VM's gas parameters as schedule entries, after any older entries, and reading the
  collected schedule back gives the same parameters: no two of the 118 parameters share a key and none
  is dropped.
\<close>
theorem gas_schedule_round_trip:
  "vm_from_on_chain (collect_entries (older @ vm_to_on_chain p)) = Inr p"
  by (rule vm_round_trip)

end
