(* ===== verification/Move_Object.thy ===== *)
theory Move_Object
  imports Hash_Value Le_Bytes Text_Format Btree_Map
begin

text \<open>
  The objects of MoveOS (\<^verbatim>\<open>moveos-types/src/moveos_std/object.rs\<close>, \<^verbatim>\<open>object/dynamic_field.rs\<close>, \<^verbatim>\<open>state.rs\<close> and
  \<^verbatim>\<open>addresses.rs\<close>): object identifiers as paths of field keys, the metadata of an object, its state, and
  change sets. An address and a field key are 32 bytes; they are kept as the 256-bit word the bytes
  spell big-endian, whose order is the order of the arrays. Type and struct tags are the data type of
  \<^verbatim>\<open>move-core-types\<close>; their text form, SHA3-256, BCS and the hex decoder are arguments.
\<close>

section \<open>Addresses and tags\<close>

type_synonym AccountAddress = "256 word"
type_synonym FieldKey = "256 word"

definition address_bytes :: "256 word \<Rightarrow> bytes" where
  "address_bytes a = rev (to_le_bytes 32 a)"

definition address_of_bytes :: "bytes \<Rightarrow> 256 word" where
  "address_of_bytes bs = from_le_bytes (rev bs)"

datatype TypeTag =
    TagBool | TagU8 | TagU16 | TagU32 | TagU64 | TagU128 | TagU256 | TagAddress | TagSigner
  | TagVector TypeTag | TagStruct StructTag
and StructTag =
    StructTag (st_address: AccountAddress) (st_module: string) (st_name: string) (st_type_params: "TypeTag list")

definition MOVE_STD_ADDRESS :: AccountAddress where "MOVE_STD_ADDRESS = 1"
definition MOVEOS_STD_ADDRESS :: AccountAddress where "MOVEOS_STD_ADDRESS = 2"

definition is_system_reserved_address :: "AccountAddress \<Rightarrow> bool" where
  "is_system_reserved_address addr =
     (let bs = address_bytes addr in list_all (\<lambda>u. u = 0) (take 31 bs) \<and> 0 < bs ! 31 \<and> bs ! 31 \<le> 10)"

definition is_vm_or_system_reserved_address :: "AccountAddress \<Rightarrow> bool" where
  "is_vm_or_system_reserved_address addr \<longleftrightarrow> addr = 0 \<or> is_system_reserved_address addr"

definition move_string_tag :: TypeTag where
  "move_string_tag = TagStruct (StructTag MOVE_STD_ADDRESS ''string'' ''String'' [])"

text \<open>What the code takes from other crates: the hash, the text of tags and its parser, hex decoding.\<close>

record object_env =
  en_sha3 :: "bytes \<Rightarrow> HashValue"
  en_type_string :: "TypeTag \<Rightarrow> string"
  en_struct_string :: "StructTag \<Rightarrow> string"
  en_parse_struct :: "string \<Rightarrow> StructTag option"
  en_decode_hex :: "string \<Rightarrow> bytes option"
  en_parse_address :: "string \<Rightarrow> AccountAddress result"

section \<open>Field keys\<close>

text \<open>The BCS bytes of the key are the first argument after the environment.\<close>

definition field_key_derive :: "object_env \<Rightarrow> bytes result \<Rightarrow> TypeTag \<Rightarrow> FieldKey result" where
  "field_key_derive env key_bcs key_type_tag =
     and_then key_bcs (\<lambda>buffer.
     Inr (address_of_bytes (en_sha3 env (buffer @ bytes_of_string (en_type_string env key_type_tag)))))"

text \<open>\<^verbatim>\<open>derive_from_string\<close>, \<^verbatim>\<open>derive_module_key\<close> and \<^verbatim>\<open>derive_resource_key\<close> hash a \<^verbatim>\<open>MoveString\<close>.\<close>

definition derive_from_string :: "object_env \<Rightarrow> (string \<Rightarrow> bytes result) \<Rightarrow> string \<Rightarrow> FieldKey result" where
  "derive_from_string env bcs_string s =
     (case field_key_derive env (bcs_string s) move_string_tag of
        Inl (Fail _) \<Rightarrow> Inl (Panic ''Derive dynamic field key with MoveString should not fail'')
      | r \<Rightarrow> r)"

definition derive_module_key :: "object_env \<Rightarrow> (string \<Rightarrow> bytes result) \<Rightarrow> string \<Rightarrow> FieldKey result" where
  "derive_module_key env bcs_string module_name = derive_from_string env bcs_string module_name"

definition derive_resource_key :: "object_env \<Rightarrow> (string \<Rightarrow> bytes result) \<Rightarrow> StructTag \<Rightarrow> FieldKey result" where
  "derive_resource_key env bcs_string struct_tag = derive_from_string env bcs_string (en_struct_string env struct_tag)"

definition derive_from_address :: "object_env \<Rightarrow> (AccountAddress \<Rightarrow> bytes result) \<Rightarrow> AccountAddress \<Rightarrow> FieldKey result" where
  "derive_from_address env bcs_address address =
     (case field_key_derive env (bcs_address address) TagAddress of
        Inl (Fail _) \<Rightarrow> Inl (Panic ''Derive dynamic field key with AccountAddress should not fail'')
      | r \<Rightarrow> r)"

definition field_key_from_hex :: "object_env \<Rightarrow> string \<Rightarrow> FieldKey result" where
  "field_key_from_hex env hex =
     and_then (ok_or (en_decode_hex env hex) ''hex'') (\<lambda>bs.
     if length bs = 32 then Inr (address_of_bytes bs) else Inl (Fail ''hex''))"

definition field_key_from_hex_literal :: "object_env \<Rightarrow> string \<Rightarrow> FieldKey result" where
  "field_key_from_hex_literal env hex = en_parse_address env hex"

text \<open>\<^verbatim>\<open>LowerHex\<close> and \<^verbatim>\<open>UpperHex\<close>; the flag is the alternate form.\<close>

definition field_key_lower_hex :: "bool \<Rightarrow> FieldKey \<Rightarrow> string" where
  "field_key_lower_hex alternate k = (if alternate then ''0x'' else []) @ concat (map hex_byte (address_bytes k))"

definition upper_hex_byte :: "u8 \<Rightarrow> string" where
  "upper_hex_byte b = [''0123456789ABCDEF'' ! (unat b div 16), ''0123456789ABCDEF'' ! (unat b mod 16)]"

definition field_key_upper_hex :: "bool \<Rightarrow> FieldKey \<Rightarrow> string" where
  "field_key_upper_hex alternate k = (if alternate then ''0x'' else []) @ concat (map upper_hex_byte (address_bytes k))"

definition field_key_to_hex :: "FieldKey \<Rightarrow> string" where
  "field_key_to_hex k = field_key_lower_hex False k"

definition field_key_to_hex_literal :: "FieldKey \<Rightarrow> string" where
  "field_key_to_hex_literal k = field_key_lower_hex True k"

section \<open>Object identifiers\<close>

text \<open>The path from the root object.\<close>

type_synonym ObjectID = "AccountAddress list"

definition object_id_new :: "bytes \<Rightarrow> ObjectID" where
  "object_id_new obj_id = [address_of_bytes obj_id]"

definition object_id_root :: ObjectID where
  "object_id_root = []"

definition child_id :: "ObjectID \<Rightarrow> FieldKey \<Rightarrow> ObjectID" where
  "child_id oid child_key = oid @ [child_key]"

definition derive_id :: "object_env \<Rightarrow> bytes \<Rightarrow> u64 \<Rightarrow> ObjectID" where
  "derive_id env tx_hash creation_num = object_id_new (en_sha3 env (tx_hash @ to_le_bytes 8 creation_num))"

definition object_id_parent :: "ObjectID \<Rightarrow> ObjectID option" where
  "object_id_parent oid = (if oid = [] then None else Some (butlast oid))"

definition is_root :: "ObjectID \<Rightarrow> bool" where
  "is_root oid \<longleftrightarrow> oid = []"

definition has_parent :: "ObjectID \<Rightarrow> bool" where
  "has_parent oid \<longleftrightarrow> \<not> is_root oid"

definition has_child :: "ObjectID \<Rightarrow> bool" where
  "has_child oid \<longleftrightarrow> is_root oid \<or> object_id_parent oid \<noteq> None"

definition is_child :: "ObjectID \<Rightarrow> ObjectID \<Rightarrow> bool" where
  "is_child oid parent_id = (case object_id_parent oid of Some obj_id \<Rightarrow> obj_id = parent_id | None \<Rightarrow> False)"

definition field_key :: "ObjectID \<Rightarrow> FieldKey result" where
  "field_key oid =
     expect (if oid = [] then None else Some (last oid)) ''Cannot get the field key of root object''"

definition object_id_to_hex :: "ObjectID \<Rightarrow> string" where
  "object_id_to_hex oid = concat (map hex_byte (concat (map address_bytes oid)))"

text \<open>\<^verbatim>\<open>chunks_exact\<close> leaves out a shorter last chunk.\<close>

function chunks_exact :: "nat \<Rightarrow> 'a list \<Rightarrow> 'a list list" where
  "chunks_exact n xs = (if n = 0 \<or> length xs < n then [] else take n xs # chunks_exact n (drop n xs))"
  by auto
termination
  by (relation "measure (\<lambda>(_, xs). length xs)") auto

declare chunks_exact.simps [simp del]

definition object_id_from_hex :: "object_env \<Rightarrow> string \<Rightarrow> ObjectID result" where
  "object_id_from_hex env hex =
     and_then (ok_or (en_decode_hex env hex) ''hex'') (\<lambda>bs. Inr (map address_of_bytes (chunks_exact 32 bs)))"

text \<open>\<open>strip_prefix (''0x'')\<close> is \<^verbatim>\<open>str::strip_prefix\<close> with \<^verbatim>\<open>unwrap_or\<close> the string itself.\<close>

definition strip_hex_prefix :: "string \<Rightarrow> string" where
  "strip_hex_prefix s = (if take 2 s = ''0x'' then drop 2 s else s)"

definition object_id_from_hex_literal :: "object_env \<Rightarrow> string \<Rightarrow> ObjectID result" where
  "object_id_from_hex_literal env literal =
     (let literal' = strip_hex_prefix literal; hex_len = length literal' in
      if hex_len = 0 then Inr object_id_root
      else if hex_len < 32 * 2
      then object_id_from_hex env (replicate (32 * 2 - hex_len) CHR ''0'' @ literal')
      else object_id_from_hex env literal')"

definition object_id_display :: "ObjectID \<Rightarrow> string" where
  "object_id_display oid = ''0x'' @ object_id_to_hex oid"

definition named_object_id :: "object_env \<Rightarrow> StructTag \<Rightarrow> ObjectID" where
  "named_object_id env struct_tag = [address_of_bytes (en_sha3 env (bytes_of_string (en_struct_string env struct_tag)))]"

fun contains_double_colon :: "string \<Rightarrow> bool" where
  "contains_double_colon (a # b # s) \<longleftrightarrow> (a = CHR '':'' \<and> b = CHR '':'') \<or> contains_double_colon (b # s)"
| "contains_double_colon _ \<longleftrightarrow> False"

definition object_id_from_str :: "object_env \<Rightarrow> string \<Rightarrow> ObjectID result" where
  "object_id_from_str env s =
     (if contains_double_colon s
      then and_then (ok_or (en_parse_struct env s) ''Named ObjectID must be a valid struct tag'') (\<lambda>struct_tag.
        Inr (named_object_id env struct_tag))
      else object_id_from_hex_literal env s)"

definition account_named_object_id :: "object_env \<Rightarrow> AccountAddress \<Rightarrow> StructTag \<Rightarrow> ObjectID" where
  "account_named_object_id env account struct_tag =
     [address_of_bytes (en_sha3 env (address_bytes account @ bytes_of_string (en_struct_string env struct_tag)))]"

text \<open>The first argument after the environment is the BCS encoding of the identifier.\<close>

definition custom_object_id :: "object_env \<Rightarrow> bytes option \<Rightarrow> StructTag \<Rightarrow> ObjectID result" where
  "custom_object_id env id_bcs value_struct_tag =
     and_then (expect id_bcs ''ID to bcs should success'') (\<lambda>buffer.
     Inr [address_of_bytes (en_sha3 env (buffer @ bytes_of_string (en_struct_string env value_struct_tag)))])"

definition custom_object_id_with_parent_and_struct_tag ::
    "object_env \<Rightarrow> ObjectID \<Rightarrow> bytes option \<Rightarrow> StructTag \<Rightarrow> ObjectID result" where
  "custom_object_id_with_parent_and_struct_tag env parent_id id_bcs value_struct_tag =
     and_then (custom_object_id env id_bcs value_struct_tag) (\<lambda>oid.
     and_then (field_key oid) (\<lambda>child_part.
     Inr (parent_id @ [child_part])))"

definition account_object_id :: "AccountAddress \<Rightarrow> ObjectID" where
  "account_object_id account = [account]"

definition module_store_tag :: StructTag where
  "module_store_tag = StructTag MOVEOS_STD_ADDRESS ''module_store'' ''ModuleStore'' []"

definition package_id :: "object_env \<Rightarrow> AccountAddress \<Rightarrow> ObjectID" where
  "package_id env module_address = child_id (named_object_id env module_store_tag) module_address"

section \<open>Dynamic fields\<close>

definition OBJECT_MODULE_NAME :: string where "OBJECT_MODULE_NAME = ''object''"
definition DYNAMIC_FIELD_STRUCT_NAME :: string where "DYNAMIC_FIELD_STRUCT_NAME = ''DynamicField''"

definition is_field_struct_tag :: "StructTag \<Rightarrow> bool" where
  "is_field_struct_tag tag \<longleftrightarrow>
     st_address tag = MOVEOS_STD_ADDRESS \<and> st_module tag = OBJECT_MODULE_NAME \<and> st_name tag = DYNAMIC_FIELD_STRUCT_NAME"

definition is_dynamic_field_type :: "TypeTag \<Rightarrow> bool" where
  "is_dynamic_field_type tag = (case tag of TagStruct t \<Rightarrow> is_field_struct_tag t | _ \<Rightarrow> False)"

definition construct_dynamic_field_struct_tag :: "TypeTag \<Rightarrow> TypeTag \<Rightarrow> StructTag" where
  "construct_dynamic_field_struct_tag name_tag value_tag =
     StructTag MOVEOS_STD_ADDRESS OBJECT_MODULE_NAME DYNAMIC_FIELD_STRUCT_NAME [name_tag, value_tag]"

record RawField =
  rf_name :: bytes
  rf_name_type :: TypeTag
  rf_value :: bytes
  rf_value_type :: TypeTag

text \<open>
  The loop of \<^verbatim>\<open>parse_length\<close> over the shifts 0, 7, 14, 21 and 28. The result is the number of bytes used and
  the length.
\<close>

fun parse_length_loop :: "nat list \<Rightarrow> bytes \<Rightarrow> u64 \<Rightarrow> nat \<Rightarrow> (nat \<times> nat) result" where
  "parse_length_loop [] bs value used_bytes = Inl (Fail ''Invalid bytes, IntegerOverflowDuringUleb128Decoding'')"
| "parse_length_loop (shift # shifts) [] value used_bytes = Inl (Fail ''Invalid bytes, NonCanonicalUleb128Encoding'')"
| "parse_length_loop (shift # shifts) (byte # bs) value used_bytes =
     (let digit = byte AND 0x7f; value' = value OR push_bit shift (ucast digit) in
      if digit = byte then
        if 0 < shift \<and> digit = 0 then Inl (Fail ''Invalid bytes, NonCanonicalUleb128Encoding'')
        else if unat value' < 2 ^ 32 then Inr (used_bytes + 1, unat value')
        else Inl (Fail ''Invalid bytes, IntegerOverflowDuringUleb128Decoding'')
      else parse_length_loop shifts bs value' (used_bytes + 1))"

definition parse_length :: "bytes \<Rightarrow> (nat \<times> nat) result" where
  "parse_length bs = parse_length_loop [0, 7, 14, 21, 28] bs 0 0"

text \<open>The slices panic when the announced name is longer than the input.\<close>

definition parse_resource_field :: "bytes \<Rightarrow> TypeTag \<Rightarrow> RawField result" where
  "parse_resource_field bs value_type =
     and_then (parse_length bs) (\<lambda>(used_bytes, name_length).
     let name_bytes_length = used_bytes + name_length in
     and_then (assert_that (name_bytes_length \<le> length bs) ''range end index out of range for slice'') (\<lambda>_.
     Inr \<lparr>rf_name = take name_bytes_length bs, rf_name_type = move_string_tag,
          rf_value = drop name_bytes_length bs, rf_value_type = value_type\<rparr>))"

section \<open>Metadata\<close>

definition SYSTEM_OWNER_ADDRESS :: AccountAddress where "SYSTEM_OWNER_ADDRESS = 0"
definition SHARED_OBJECT_FLAG_MASK :: u8 where "SHARED_OBJECT_FLAG_MASK = 1"
definition FROZEN_OBJECT_FLAG_MASK :: u8 where "FROZEN_OBJECT_FLAG_MASK = 2"

definition GENESIS_STATE_ROOT :: HashValue where
  "GENESIS_STATE_ROOT = SPARSE_MERKLE_PLACEHOLDER_HASH"

definition human_readable_flag :: "u8 \<Rightarrow> string" where
  "human_readable_flag flag =
     (if flag = 0 then ''UserOwned''
      else
        let shared = (flag AND SHARED_OBJECT_FLAG_MASK = SHARED_OBJECT_FLAG_MASK);
            frozen = (flag AND FROZEN_OBJECT_FLAG_MASK = FROZEN_OBJECT_FLAG_MASK) in
        (if shared then ''Shared'' else []) @ (if shared \<and> frozen then '','' else []) @ (if frozen then ''Frozen'' else []))"

record ObjectMeta =
  om_id :: ObjectID
  om_owner :: AccountAddress
  om_flag :: u8
  om_state_root :: "HashValue option"
  om_size :: u64
  om_created_at :: u64
  om_updated_at :: u64
  om_object_type :: TypeTag

definition root_struct_tag :: StructTag where
  "root_struct_tag = StructTag MOVEOS_STD_ADDRESS OBJECT_MODULE_NAME ''Root'' []"

definition genesis_root :: ObjectMeta where
  "genesis_root = \<lparr>om_id = object_id_root, om_owner = MOVEOS_STD_ADDRESS, om_flag = SHARED_OBJECT_FLAG_MASK,
     om_state_root = None, om_size = 0, om_created_at = 0, om_updated_at = 0, om_object_type = TagStruct root_struct_tag\<rparr>"

definition genesis_meta :: "ObjectID \<Rightarrow> TypeTag \<Rightarrow> ObjectMeta" where
  "genesis_meta oid object_type = \<lparr>om_id = oid, om_owner = SYSTEM_OWNER_ADDRESS, om_flag = 0, om_state_root = None,
     om_size = 0, om_created_at = 0, om_updated_at = 0, om_object_type = object_type\<rparr>"

definition root_metadata :: "HashValue \<Rightarrow> u64 \<Rightarrow> ObjectMeta" where
  "root_metadata state_root sz = \<lparr>om_id = object_id_root, om_owner = MOVEOS_STD_ADDRESS, om_flag = SHARED_OBJECT_FLAG_MASK,
     om_state_root = Some state_root, om_size = sz, om_created_at = 0, om_updated_at = 0, om_object_type = TagStruct root_struct_tag\<rparr>"

definition is_shared :: "ObjectMeta \<Rightarrow> bool" where
  "is_shared m \<longleftrightarrow> om_flag m AND SHARED_OBJECT_FLAG_MASK = SHARED_OBJECT_FLAG_MASK"

definition to_shared :: "ObjectMeta \<Rightarrow> ObjectMeta" where
  "to_shared m = m\<lparr>om_flag := om_flag m OR SHARED_OBJECT_FLAG_MASK, om_owner := SYSTEM_OWNER_ADDRESS\<rparr>"

definition is_frozen :: "ObjectMeta \<Rightarrow> bool" where
  "is_frozen m \<longleftrightarrow> om_flag m AND FROZEN_OBJECT_FLAG_MASK = FROZEN_OBJECT_FLAG_MASK"

definition to_frozen :: "ObjectMeta \<Rightarrow> ObjectMeta" where
  "to_frozen m = m\<lparr>om_flag := om_flag m OR FROZEN_OBJECT_FLAG_MASK, om_owner := SYSTEM_OWNER_ADDRESS\<rparr>"

definition is_genesis :: "ObjectMeta \<Rightarrow> bool" where
  "is_genesis m = (case om_state_root m of Some state_root \<Rightarrow> state_root = GENESIS_STATE_ROOT | None \<Rightarrow> True)"

definition meta_state_root :: "ObjectMeta \<Rightarrow> HashValue" where
  "meta_state_root m = (case om_state_root m of Some r \<Rightarrow> r | None \<Rightarrow> GENESIS_STATE_ROOT)"

definition is_system_owned :: "ObjectMeta \<Rightarrow> bool" where
  "is_system_owned m \<longleftrightarrow> om_owner m = SYSTEM_OWNER_ADDRESS"

definition is_embeded :: "ObjectMeta \<Rightarrow> bool" where
  "is_embeded m \<longleftrightarrow> is_system_owned m \<and> \<not> (is_frozen m \<or> is_shared m)"

text \<open>The \<^verbatim>\<open>debug_assert!\<close> of the source is not compiled in a release build.\<close>

definition has_fields :: "ObjectMeta \<Rightarrow> bool" where
  "has_fields m \<longleftrightarrow> 0 < om_size m"

definition meta_update_state_root :: "HashValue \<Rightarrow> ObjectMeta \<Rightarrow> ObjectMeta" where
  "meta_update_state_root new_state_root m = m\<lparr>om_state_root := Some new_state_root\<rparr>"

definition is_dynamic_field :: "ObjectMeta \<Rightarrow> bool" where
  "is_dynamic_field m = is_dynamic_field_type (om_object_type m)"

definition is_object :: "ObjectMeta \<Rightarrow> bool" where
  "is_object m \<longleftrightarrow> \<not> is_dynamic_field m"

definition object_struct_tag :: "ObjectMeta \<Rightarrow> StructTag result" where
  "object_struct_tag m =
     (case om_object_type m of TagStruct t \<Rightarrow> Inr t | _ \<Rightarrow> Inl (Panic ''The ObjectState must be Struct''))"

definition match_type :: "ObjectMeta \<Rightarrow> TypeTag \<Rightarrow> bool" where
  "match_type m type_tag \<longleftrightarrow> om_object_type m = type_tag"

definition match_struct_type :: "ObjectMeta \<Rightarrow> StructTag \<Rightarrow> bool" where
  "match_struct_type m type_tag = (case om_object_type m of TagStruct t \<Rightarrow> t = type_tag | _ \<Rightarrow> False)"

definition match_dynamic_field_type :: "ObjectMeta \<Rightarrow> TypeTag \<Rightarrow> TypeTag \<Rightarrow> bool" where
  "match_dynamic_field_type m name_type value_type =
     (if is_dynamic_field m then match_struct_type m (construct_dynamic_field_struct_tag name_type value_type) else False)"

section \<open>States and entities\<close>

record ObjectState =
  os_metadata :: ObjectMeta
  os_value :: bytes

definition object_state_new :: "ObjectMeta \<Rightarrow> bytes \<Rightarrow> ObjectState" where
  "object_state_new metadata value = \<lparr>os_metadata = metadata, os_value = value\<rparr>"

text \<open>The Rust value enters by its struct tag and its BCS bytes.\<close>

definition new_with_struct :: "ObjectMeta \<Rightarrow> StructTag \<Rightarrow> bytes \<Rightarrow> ObjectState result" where
  "new_with_struct metadata struct_tag value_bytes =
     (if match_struct_type metadata struct_tag then Inr (object_state_new metadata value_bytes)
      else and_then (object_struct_tag metadata) (\<lambda>_. Inl (Fail ''Expect type but the state type'')))"

text \<open>\<^verbatim>\<open>Root::default()\<close> is one false byte in BCS.\<close>

definition new_root :: "ObjectMeta \<Rightarrow> ObjectState result" where
  "new_root root_meta =
     (case new_with_struct root_meta root_struct_tag [0] of
        Inl (Fail _) \<Rightarrow> Inl (Panic ''Create Root Object should success'')
      | r \<Rightarrow> r)"

definition state_state_root :: "ObjectState \<Rightarrow> HashValue" where
  "state_state_root s = meta_state_root (os_metadata s)"

definition state_update_state_root :: "HashValue \<Rightarrow> ObjectState \<Rightarrow> ObjectState" where
  "state_update_state_root new_state_root s = s\<lparr>os_metadata := meta_update_state_root new_state_root (os_metadata s)\<rparr>"

text \<open>\<^verbatim>\<open>value_as\<close>: the tag of the wanted type and its decoder are arguments.\<close>

definition value_as :: "StructTag \<Rightarrow> (bytes \<Rightarrow> 'a result) \<Rightarrow> ObjectState \<Rightarrow> 'a result" where
  "value_as tag decode s =
     (case om_object_type (os_metadata s) of
        TagStruct t \<Rightarrow> and_then (ensure_that (t = tag) ''Expect type but the state type'') (\<lambda>_. decode (os_value s))
      | _ \<Rightarrow> Inl (Fail ''Expect type Object but the state type''))"

record 'a ObjectEntity =
  ent_id :: ObjectID
  ent_owner :: AccountAddress
  ent_flag :: u8
  ent_state_root :: "HashValue option"
  ent_size :: u64
  ent_created_at :: u64
  ent_updated_at :: u64
  ent_value :: 'a

definition new_with_object_meta :: "ObjectMeta \<Rightarrow> 'a \<Rightarrow> 'a ObjectEntity" where
  "new_with_object_meta m value =
     \<lparr>ent_id = om_id m, ent_owner = om_owner m, ent_flag = om_flag m, ent_state_root = om_state_root m, ent_size = om_size m,
      ent_created_at = om_created_at m, ent_updated_at = om_updated_at m, ent_value = value\<rparr>"

definition state_into_object :: "StructTag \<Rightarrow> (bytes \<Rightarrow> 'a result) \<Rightarrow> ObjectState \<Rightarrow> 'a ObjectEntity result" where
  "state_into_object tag decode s = and_then (value_as tag decode s) (\<lambda>value. Inr (new_with_object_meta (os_metadata s) value))"

definition entity_metadata :: "StructTag \<Rightarrow> 'a ObjectEntity \<Rightarrow> ObjectMeta" where
  "entity_metadata tag e =
     \<lparr>om_id = ent_id e, om_owner = ent_owner e, om_flag = ent_flag e, om_state_root = ent_state_root e, om_size = ent_size e,
      om_created_at = ent_created_at e, om_updated_at = ent_updated_at e, om_object_type = TagStruct tag\<rparr>"

definition into_state :: "StructTag \<Rightarrow> ('a \<Rightarrow> bytes option) \<Rightarrow> 'a ObjectEntity \<Rightarrow> ObjectState result" where
  "into_state tag encode e =
     and_then (expect (encode (ent_value e)) ''MoveState to bcs should success'') (\<lambda>bs.
     Inr (object_state_new (entity_metadata tag e) bs))"

text \<open>An entity keeps its owner when it becomes shared or frozen, unlike the metadata.\<close>

definition entity_to_shared :: "'a ObjectEntity \<Rightarrow> 'a ObjectEntity" where
  "entity_to_shared e = e\<lparr>ent_flag := ent_flag e OR SHARED_OBJECT_FLAG_MASK\<rparr>"

definition entity_to_frozen :: "'a ObjectEntity \<Rightarrow> 'a ObjectEntity" where
  "entity_to_frozen e = e\<lparr>ent_flag := ent_flag e OR FROZEN_OBJECT_FLAG_MASK\<rparr>"

record RawData =
  rd_struct_tag :: StructTag
  rd_value :: bytes

definition into_raw_object :: "ObjectState \<Rightarrow> RawData ObjectEntity result" where
  "into_raw_object s =
     and_then (object_struct_tag (os_metadata s)) (\<lambda>tag.
     Inr (new_with_object_meta (os_metadata s) \<lparr>rd_struct_tag = tag, rd_value = os_value s\<rparr>))"

definition raw_struct_tag :: "RawData ObjectEntity \<Rightarrow> StructTag" where
  "raw_struct_tag e = StructTag MOVEOS_STD_ADDRESS OBJECT_MODULE_NAME ''ObjectEntity'' [TagStruct (rd_struct_tag (ent_value e))]"

definition raw_into_state :: "RawData ObjectEntity \<Rightarrow> ObjectState" where
  "raw_into_state e = object_state_new (entity_metadata (raw_struct_tag e) e) (rd_value (ent_value e))"

definition raw_into_object :: "StructTag \<Rightarrow> (bytes \<Rightarrow> 'a result) \<Rightarrow> RawData ObjectEntity \<Rightarrow> 'a ObjectEntity result" where
  "raw_into_object struct_tag decode e =
     and_then (ensure_that (rd_struct_tag (ent_value e) = struct_tag) ''RawObjectEntity value type should be'') (\<lambda>_.
     and_then (decode (rd_value (ent_value e))) (\<lambda>value.
     Inr \<lparr>ent_id = ent_id e, ent_owner = ent_owner e, ent_flag = ent_flag e, ent_state_root = ent_state_root e,
          ent_size = ent_size e, ent_created_at = ent_created_at e, ent_updated_at = ent_updated_at e, ent_value = value\<rparr>))"

section \<open>Change sets\<close>

datatype 'v Op = New 'v | Modify 'v | Delete

text \<open>A \<^verbatim>\<open>BTreeMap\<close> of changes is the list of its entries in ascending order.\<close>

datatype ObjectChange =
  ObjectChange (oc_metadata: ObjectMeta) (oc_value: "bytes Op option") (oc_fields: "(FieldKey \<times> ObjectChange) list")

definition object_change_new :: "ObjectMeta \<Rightarrow> bytes Op \<Rightarrow> ObjectChange" where
  "object_change_new metadata value = ObjectChange metadata (Some value) []"

definition object_change_meta :: "ObjectMeta \<Rightarrow> ObjectChange" where
  "object_change_meta metadata = ObjectChange metadata None []"

definition add_field_change :: "FieldKey \<Rightarrow> ObjectChange \<Rightarrow> ObjectChange \<Rightarrow> ObjectChange" where
  "add_field_change key field_change c =
     ObjectChange (oc_metadata c) (oc_value c) (btree_insert key field_change (oc_fields c))"

definition change_update_state_root :: "HashValue \<Rightarrow> ObjectChange \<Rightarrow> ObjectChange" where
  "change_update_state_root new_state_root c =
     ObjectChange (meta_update_state_root new_state_root (oc_metadata c)) (oc_value c) (oc_fields c)"

record StateChangeSet =
  sc_state_root :: HashValue
  sc_global_size :: u64
  sc_changes :: "(FieldKey \<times> ObjectChange) list"

definition change_set_root_metadata :: "StateChangeSet \<Rightarrow> ObjectMeta" where
  "change_set_root_metadata cs = root_metadata (sc_state_root cs) (sc_global_size cs)"

definition change_set_update_state_root :: "HashValue \<Rightarrow> StateChangeSet \<Rightarrow> StateChangeSet" where
  "change_set_update_state_root new_state_root cs = cs\<lparr>sc_state_root := new_state_root\<rparr>"

definition change_set_default :: StateChangeSet where
  "change_set_default = \<lparr>sc_state_root = GENESIS_STATE_ROOT, sc_global_size = 0, sc_changes = []\<rparr>"

section \<open>Laws\<close>

lemma length_address_bytes [simp]: "length (address_bytes a) = 32"
  by (simp add: address_bytes_def)

lemma address_of_bytes_inverse [simp]: "address_of_bytes (address_bytes a) = a"
  by (simp add: address_bytes_def address_of_bytes_def from_to_le_bytes take_bit_word_eq_self)

lemma address_bytes_inject [simp]: "address_bytes a = address_bytes b \<longleftrightarrow> a = b"
  by (metis address_of_bytes_inverse)

lemma address_bytes_inverse: "length bs = 32 \<Longrightarrow> address_bytes (address_of_bytes bs) = bs"
  using to_from_le_bytes [of "rev bs" 32, where 'a = 256]
  by (simp add: address_bytes_def address_of_bytes_def)

text \<open>Identifiers form a tree: the parent of a child is the parent, its key the key.\<close>

lemma child_id_laws:
  "object_id_parent (child_id oid k) = Some oid" "field_key (child_id oid k) = Inr k"
  "is_child (child_id oid k) oid" "\<not> is_root (child_id oid k)"
  by (simp_all add: child_id_def object_id_parent_def field_key_def is_child_def is_root_def expect_def)

lemma parent_child_id:
  assumes "object_id_parent oid = Some p" and "field_key oid = Inr k"
  shows "child_id p k = oid"
  using assms by (cases oid rule: rev_cases)
    (auto simp: child_id_def object_id_parent_def field_key_def expect_def split: if_splits)

lemma chunks_exact_concat:
  assumes "0 < n" and "\<forall>x \<in> set xs. length x = n"
  shows "chunks_exact n (concat xs) = xs"
  using assms
proof (induction xs)
  case Nil
  then show ?case by (subst chunks_exact.simps) simp
next
  case (Cons x xs)
  then show ?case by (subst chunks_exact.simps) simp
qed

text \<open>\<^verbatim>\<open>hex::decode\<close> inverts the text of any bytes.\<close>

definition hex_ok :: "object_env \<Rightarrow> bool" where
  "hex_ok env \<longleftrightarrow> (\<forall>bs. en_decode_hex env (concat (map hex_byte bs)) = Some bs)"

lemma length_hex: "length (concat (map hex_byte bs)) = 2 * length bs"
  by (induction bs) (simp_all add: hex_byte_def)

lemma object_id_hex_round_trip: "hex_ok env \<Longrightarrow> object_id_from_hex env (object_id_to_hex oid) = Inr oid"
  by (simp add: object_id_from_hex_def object_id_to_hex_def hex_ok_def ok_or_def chunks_exact_concat comp_def)

lemma length_object_id_hex: "length (object_id_to_hex oid) = 64 * length oid"
  unfolding object_id_to_hex_def length_hex by (induction oid) simp_all

lemma object_id_literal_round_trip:
  assumes "hex_ok env"
  shows "object_id_from_hex_literal env (object_id_display oid) = Inr oid"
proof (cases oid)
  case Nil
  then show ?thesis
    by (simp add: object_id_from_hex_literal_def object_id_display_def object_id_to_hex_def strip_hex_prefix_def object_id_root_def)
next
  case (Cons a as)
  then have "64 \<le> length (object_id_to_hex oid)" by (simp add: length_object_id_hex)
  then show ?thesis
    using object_id_hex_round_trip [OF assms, of oid]
    by (auto simp: object_id_from_hex_literal_def object_id_display_def strip_hex_prefix_def Let_def)
qed

text \<open>
  A trailing piece of fewer than 32 bytes is dropped without an error, so texts of different length
  denote one identifier.
\<close>

lemma object_id_from_hex_drops_tail:
  assumes "hex_ok env" and "length extra < 32"
  shows "object_id_from_hex env (object_id_to_hex oid @ concat (map hex_byte extra)) = Inr oid"
proof -
  have tail: "chunks_exact 32 (concat xs @ extra) = xs" if "\<forall>x \<in> set xs. length x = 32" for xs :: "bytes list"
    using that
  proof (induction xs)
    case Nil
    then show ?case using assms(2) by (subst chunks_exact.simps) simp
  next
    case (Cons x xs)
    then show ?case by (subst chunks_exact.simps) simp
  qed
  have "object_id_to_hex oid @ concat (map hex_byte extra) = concat (map hex_byte (concat (map address_bytes oid) @ extra))"
    by (simp add: object_id_to_hex_def)
  then show ?thesis
    using assms(1) tail [of "map address_bytes oid"]
    by (simp add: object_id_from_hex_def hex_ok_def ok_or_def comp_def del: map_append concat_append map_concat)
qed

text \<open>A raw object does not turn back into the state it came from: its type is wrapped.\<close>

lemma raw_object_changes_type:
  assumes "into_raw_object s = Inr raw"
  shows "om_object_type (os_metadata (raw_into_state raw)) \<noteq> om_object_type (os_metadata s)"
    and "raw_into_state raw = s\<lparr>os_metadata := (os_metadata s)\<lparr>om_object_type := TagStruct (raw_struct_tag raw)\<rparr>\<rparr>"
proof -
  obtain tag where tag: "om_object_type (os_metadata s) = TagStruct tag"
      "raw = new_with_object_meta (os_metadata s) \<lparr>rd_struct_tag = tag, rd_value = os_value s\<rparr>"
    using assms by (cases "om_object_type (os_metadata s)") (auto simp: into_raw_object_def object_struct_tag_def)
  have "size tag < size (raw_struct_tag raw)"
    by (simp add: tag(2) raw_struct_tag_def new_with_object_meta_def)
  then have "tag \<noteq> raw_struct_tag raw" by auto
  then show "om_object_type (os_metadata (raw_into_state raw)) \<noteq> om_object_type (os_metadata s)"
    by (simp add: tag(1) raw_into_state_def object_state_new_def entity_metadata_def)
  show "raw_into_state raw = s\<lparr>os_metadata := (os_metadata s)\<lparr>om_object_type := TagStruct (raw_struct_tag raw)\<rparr>\<rparr>"
    by (cases s, cases "os_metadata s")
      (simp add: tag(2) raw_into_state_def object_state_new_def entity_metadata_def new_with_object_meta_def)
qed

text \<open>\<open>uleb128\<close> is the length prefix of BCS.\<close>

fun uleb128 :: "nat \<Rightarrow> bytes" where
  "uleb128 n = (if n < 128 then [word_of_nat n] else word_of_nat (128 + n mod 128) # uleb128 (n div 128))"

declare uleb128.simps [simp del]

lemma or_push_bit:
  fixes v d :: u64
  assumes "unat v < 2 ^ s" and "unat v + unat d * 2 ^ s < 2 ^ 64"
  shows "unat (v OR push_bit s d) = unat v + unat d * 2 ^ s"
proof -
  have v: "bit v i \<Longrightarrow> i < s" for i
    using bit_less_exp_nat [OF assms(1), of i] by (simp add: bit_unat_iff)
  have "v OR push_bit s d = v + push_bit s d"
    by (rule disjunctive_add [symmetric]) (auto simp: bit_push_bit_iff dest: v)
  moreover have "unat (push_bit s d) = take_bit 64 (push_bit s (unat d))"
    by (simp add: unsigned_push_bit_eq)
  then have "unat (push_bit s d) = unat d * 2 ^ s"
    using assms(2) by (simp add: push_bit_eq_mult take_bit_nat_eq_self)
  ultimately show ?thesis using assms(2) by (simp add: unat_word_ariths)
qed

lemma low_seven_bits:
  fixes b :: u8
  assumes "b = word_of_nat m" and "m < 256"
  shows "unat (b AND 0x7f) = m mod 128" and "b AND 0x7f = b \<longleftrightarrow> m < 128"
proof -
  have "(0x7f :: u8) = mask 7" by (simp add: mask_eq_exp_minus_1)
  then have "b AND 0x7f = take_bit 7 b" by (simp add: take_bit_eq_mask)
  moreover have u: "unat b = m" using assms by (simp add: unat_of_nat take_bit_nat_eq_self)
  ultimately show low: "unat (b AND 0x7f) = m mod 128" by (simp add: unsigned_take_bit_eq take_bit_nat_def)
  show "b AND 0x7f = b \<longleftrightarrow> m < 128" unfolding word_eq_iff_unat low u by auto
qed

lemma parse_uleb128:
  assumes "unat v < 2 ^ (7 * j)" and "n * 2 ^ (7 * j) + unat v < 2 ^ 32" and "j < 5" and "0 < j \<longrightarrow> 0 < n"
  shows "parse_length_loop (map ((*) 7) [j..<5]) (uleb128 n @ rest) v used =
    Inr (used + length (uleb128 n), n * 2 ^ (7 * j) + unat v)"
  using assms
proof (induction n arbitrary: j v used rule: uleb128.induct)
  case (1 n)
  let ?m = "if n < 128 then n else 128 + n mod 128"
  define b :: u8 where "b = word_of_nat ?m"
  have m: "?m < 256" by simp
  note low = low_seven_bits [OF b_def m]
  have js: "[j..<5] = j # [Suc j..<5]" using 1(4) by (rule upt_conv_Cons)
  have d: "unat (ucast (b AND 0x7f) :: u64) = n mod 128" using low(1) by (simp add: unsigned_ucast_eq take_bit_nat_eq_self)
  have le: "n mod 128 * 2 ^ (7 * j) \<le> n * 2 ^ (7 * j)" by simp
  have val: "unat (v OR push_bit (7 * j) (ucast (b AND 0x7f))) = unat v + n mod 128 * 2 ^ (7 * j)"
  proof -
    have "unat v + n mod 128 * 2 ^ (7 * j) < 2 ^ 64"
      by (rule less_trans [of _ "2 ^ 32"], rule le_less_trans [OF _ 1(3)]) (use le in simp_all)
    then show ?thesis using or_push_bit [OF 1(2), of "ucast (b AND 0x7f)"] unfolding d by simp
  qed
  show ?case
  proof (cases "n < 128")
    case True
    then have u: "uleb128 n = [b]" by (subst uleb128.simps) (simp add: b_def)
    have nz: "b AND 0x7f = 0 \<longleftrightarrow> n = 0" using low(1) True by (simp add: word_eq_iff_unat)
    have eq: "b AND 0x7f = b" using low(2) True by simp
    have "j = 0 \<or> 0 < n" using 1(5) by blast
    then show ?thesis using 1(3) True val nz unfolding js u by (simp add: Let_def eq)
  next
    case False
    then have u: "uleb128 n = b # uleb128 (n div 128)" by (subst uleb128.simps) (simp add: b_def)
    have "(2 :: nat) ^ (7 * j + 7) = 128 * 2 ^ (7 * j)" by (simp add: power_add)
    also have "\<dots> \<le> n * 2 ^ (7 * j)" using False by simp
    also have "\<dots> < 2 ^ 32" using 1(3) by simp
    finally have "7 * j + 7 < 32" by (rule power_less_imp_less_exp [rotated]) simp
    then have j: "Suc j < 5" by simp
    have e: "n div 128 * 2 ^ (7 * Suc j) + (unat v + n mod 128 * 2 ^ (7 * j)) = n * 2 ^ (7 * j) + unat v"
    proof -
      have "n * 2 ^ (7 * j) = (128 * (n div 128) + n mod 128) * 2 ^ (7 * j)" by simp
      then show ?thesis by (simp only: add_mult_distrib mult_Suc_right power_add) simp
    qed
    have "n mod 128 * 2 ^ (7 * j) \<le> 127 * 2 ^ (7 * j)"
      by (rule mult_le_mono1) (simp add: less_Suc_eq_le [symmetric])
    moreover have "(2 :: nat) ^ (7 * Suc j) = 127 * 2 ^ (7 * j) + 2 ^ (7 * j)" by (simp add: power_add)
    ultimately have "unat v + n mod 128 * 2 ^ (7 * j) < 2 ^ (7 * Suc j)" using 1(2) by linarith
    then have "parse_length_loop (map ((*) 7) [Suc j..<5]) (uleb128 (n div 128) @ rest)
        (v OR push_bit (7 * j) (ucast (b AND 0x7f))) (Suc used) =
      Inr (Suc used + length (uleb128 (n div 128)), n * 2 ^ (7 * j) + unat v)"
      using 1(1) [OF False _ _ j, of "v OR push_bit (7 * j) (ucast (b AND 0x7f))" "Suc used"] 1(3) False
      unfolding val e by (simp add: div_greater_zero_iff)
    then show ?thesis using low(2) False unfolding js u by (simp add: Let_def)
  qed
qed

lemma parse_resource_field_round_trip:
  assumes "length name < 2 ^ 32"
  shows "parse_resource_field (uleb128 (length name) @ name @ value) ty =
    Inr \<lparr>rf_name = uleb128 (length name) @ name, rf_name_type = move_string_tag, rf_value = value, rf_value_type = ty\<rparr>"
proof -
  have "map ((*) 7) [0..<5] = [0, 7, 14, 21, 28 :: nat]" by (simp add: upt_rec)
  then have "parse_length (uleb128 (length name) @ name @ value) = Inr (length (uleb128 (length name)), length name)"
    using parse_uleb128 [of 0 0 "length name" "name @ value" 0] assms by (simp add: parse_length_def)
  then show ?thesis by (simp add: parse_resource_field_def Let_def assert_that_def)
qed

lemma parse_resource_field_panics:
  assumes "n < 2 ^ 32" and "length rest < n"
  shows "parse_resource_field (uleb128 n @ rest) ty = Inl (Panic ''range end index out of range for slice'')"
proof -
  have "map ((*) 7) [0..<5] = [0, 7, 14, 21, 28 :: nat]" by (simp add: upt_rec)
  then have "parse_length (uleb128 n @ rest) = Inr (length (uleb128 n), n)"
    using parse_uleb128 [of 0 0 n rest 0] assms(1) by (simp add: parse_length_def)
  then show ?thesis using assms(2) by (simp add: parse_resource_field_def Let_def assert_that_def)
qed

end
