(* ===== verification/Event_Store.thy ===== *)
theory Event_Store
  imports Move_Object Raw_Store "HOL-Library.AList"
begin

text \<open>
  The events (\<^verbatim>\<open>moveos-types/src/moveos_std/event.rs\<close>, \<^verbatim>\<open>moveos-store/src/event_store\<close>): each event type has a
  handle that counts its events, and an event is stored under its handle and its number. The order in
  which a \<^verbatim>\<open>HashSet\<close> or a \<^verbatim>\<open>HashMap\<close> is walked is not specified: it is a field of the environment, as are BCS
  and the database.
\<close>

section \<open>Events\<close>

record EventID =
  ei_event_handle_id :: ObjectID
  ei_event_seq :: u64

definition event_id_new :: "ObjectID \<Rightarrow> u64 \<Rightarrow> EventID" where
  "event_id_new event_handle_id event_seq = \<lparr>ei_event_handle_id = event_handle_id, ei_event_seq = event_seq\<rparr>"

text \<open>\<^verbatim>\<open>Display\<close>; \<^verbatim>\<open>From<EventID> for String\<close> uses the debug form of the identifier, which is the same text.\<close>

definition event_id_to_string :: "EventID \<Rightarrow> string" where
  "event_id_to_string eid = object_id_display (ei_event_handle_id eid) @ '':'' @ show_nat (unat (ei_event_seq eid))"

definition event_id_from_string :: "object_env \<Rightarrow> string \<Rightarrow> EventID result" where
  "event_id_from_string env s =
     (case split_on (CHR '':'') s of
        [a, b] \<Rightarrow>
          and_then (object_id_from_str env a) (\<lambda>handle_id.
          and_then (ok_or (parse_uint 64 b) ''invalid digit found in string'') (\<lambda>event_seq.
          Inr (event_id_new handle_id (word_of_nat event_seq))))
      | _ \<Rightarrow> Inl (Fail ''Malformed EventID''))"

record TransactionEvent =
  te_event_type :: StructTag
  te_event_data :: bytes
  te_event_index :: u64

record Event =
  ev_event_id :: EventID
  ev_event_type :: StructTag
  ev_event_data :: bytes
  ev_event_index :: u64

definition event_new :: "EventID \<Rightarrow> StructTag \<Rightarrow> bytes \<Rightarrow> u64 \<Rightarrow> Event" where
  "event_new event_id event_type event_data event_index =
     \<lparr>ev_event_id = event_id, ev_event_type = event_type, ev_event_data = event_data, ev_event_index = event_index\<rparr>"

definition new_with_event_id :: "EventID \<Rightarrow> TransactionEvent \<Rightarrow> Event" where
  "new_with_event_id event_id e =
     \<lparr>ev_event_id = event_id, ev_event_type = te_event_type e, ev_event_data = te_event_data e, ev_event_index = te_event_index e\<rparr>"

definition event_hash :: "object_env \<Rightarrow> Event \<Rightarrow> HashValue" where
  "event_hash env e = en_sha3 env (ev_event_data e)"

record EventHandle =
  eh_id :: ObjectID
  eh_count :: u64

definition event_handle_new :: "ObjectID \<Rightarrow> u64 \<Rightarrow> EventHandle" where
  "event_handle_new oid count = \<lparr>eh_id = oid, eh_count = count\<rparr>"

definition derive_event_handle_id :: "object_env \<Rightarrow> StructTag \<Rightarrow> ObjectID" where
  "derive_event_handle_id env event_handle_type = named_object_id env event_handle_type"

section \<open>The store\<close>

definition EVENT_COLUMN_FAMILY_NAME :: ColumnFamilyName where
  "EVENT_COLUMN_FAMILY_NAME = ''event''"

definition EVENT_HANDLE_COLUMN_FAMILY_NAME :: ColumnFamilyName where
  "EVENT_HANDLE_COLUMN_FAMILY_NAME = ''event_handle''"

record 'db event_env =
  ee_rocks :: "'db rocks_ops"
  ee_object :: object_env
  ee_event_codec :: "(ObjectID \<times> u64, Event) bcs_codec"
  ee_handle_codec :: "(ObjectID, EventHandle) bcs_codec"
  ee_type_order :: "StructTag list \<Rightarrow> StructTag list"
  ee_handle_order :: "(StructTag \<times> EventHandle) list \<Rightarrow> (StructTag \<times> EventHandle) list"

definition EventDBBaseStore :: "'db event_env \<Rightarrow> (ObjectID \<times> u64, Event) schema" where
  "EventDBBaseStore env = derive_store EVENT_COLUMN_FAMILY_NAME (ee_event_codec env)"

definition EventHandleDBStore :: "'db event_env \<Rightarrow> (ObjectID, EventHandle) schema" where
  "EventHandleDBStore env = derive_store EVENT_HANDLE_COLUMN_FAMILY_NAME (ee_handle_codec env)"

definition get_event_handle :: "'db event_env \<Rightarrow> 'db \<Rightarrow> ObjectID \<Rightarrow> EventHandle option result" where
  "get_event_handle env db event_handle_id = kv_get (ee_rocks env) (EventHandleDBStore env) db event_handle_id"

definition save_event_handle :: "'db event_env \<Rightarrow> EventHandle \<Rightarrow> ('db, unit) action" where
  "save_event_handle env event_handle = kv_put_all (ee_rocks env) (EventHandleDBStore env) [(eh_id event_handle, event_handle)]"

definition get_or_create_event_handle :: "'db event_env \<Rightarrow> StructTag \<Rightarrow> ('db, EventHandle) action" where
  "get_or_create_event_handle env event_handle_type db =
     (let event_handle_id = derive_event_handle_id (ee_object env) event_handle_type in
      bind_act (lift_act (get_event_handle env db event_handle_id)) (\<lambda>event_handle.
      case event_handle of
        Some h \<Rightarrow> return_act h
      | None \<Rightarrow>
          let h = event_handle_new event_handle_id 0 in
          bind_act (save_event_handle env h) (\<lambda>_. return_act h)) db)"

text \<open>
  The closure that numbers the events: the handle of the type is read and counted up in the map. The
  result is the entries to store and the map.
\<close>

fun number_events ::
    "(StructTag \<times> EventHandle) list \<Rightarrow> TransactionEvent list \<Rightarrow>
     (((ObjectID \<times> u64) \<times> Event) list \<times> (StructTag \<times> EventHandle) list) result" where
  "number_events event_handles [] = Inr ([], event_handles)"
| "number_events event_handles (tx_event # tx_events) =
     and_then (expect (map_of event_handles (te_event_type tx_event)) ''Event handle must exist'') (\<lambda>handle.
     let event_id = event_id_new (eh_id handle) (eh_count handle);
         event = event_new event_id (te_event_type tx_event) (te_event_data tx_event) (te_event_index tx_event) in
     and_then (checked_add (eh_count handle) 1) (\<lambda>count.
     and_then (number_events (AList.update (te_event_type tx_event) (handle\<lparr>eh_count := count\<rparr>) event_handles) tx_events)
       (\<lambda>(events, event_handles').
     Inr (((ei_event_handle_id event_id, ei_event_seq event_id), event) # events, event_handles'))))"

definition save_events :: "'db event_env \<Rightarrow> TransactionEvent list \<Rightarrow> ('db, EventID list) action" where
  "save_events env tx_events =
     (let event_types = ee_type_order env (remdups (map te_event_type tx_events)) in
      bind_act (try_map_act (\<lambda>event_type.
        bind_act (get_or_create_event_handle env event_type) (\<lambda>handle. return_act (event_type, handle))) event_types) (\<lambda>event_handles.
      bind_act (lift_act (number_events event_handles tx_events)) (\<lambda>(events, event_handles').
      bind_act (kv_put_all (ee_rocks env) (EventDBBaseStore env) events) (\<lambda>_.
      bind_act (kv_put_all (ee_rocks env) (EventHandleDBStore env)
        (map (\<lambda>(_, handle). (eh_id handle, handle)) (ee_handle_order env event_handles'))) (\<lambda>_.
      return_act (map (ev_event_id \<circ> snd) events))))))"

definition get_event :: "'db event_env \<Rightarrow> 'db \<Rightarrow> EventID \<Rightarrow> Event option result" where
  "get_event env db event_id =
     kv_get (ee_rocks env) (EventDBBaseStore env) db (ei_event_handle_id event_id, ei_event_seq event_id)"

definition multi_get_events :: "'db event_env \<Rightarrow> 'db \<Rightarrow> EventID list \<Rightarrow> Event option list result" where
  "multi_get_events env db event_ids =
     kv_multiple_get (ee_rocks env) (EventDBBaseStore env) db (map (\<lambda>v. (ei_event_handle_id v, ei_event_seq v)) event_ids)"

text \<open>A range of sequence numbers \<^verbatim>\<open>start..end\<close>.\<close>

definition seq_range :: "u64 \<Rightarrow> u64 \<Rightarrow> u64 list" where
  "seq_range start end' = map word_of_nat [unat start..<unat end']"

definition event_seqs :: "u64 \<Rightarrow> u64 option \<Rightarrow> u64 \<Rightarrow> bool \<Rightarrow> u64 list result" where
  "event_seqs last_seq cursor limit descending_order =
     (if descending_order then
        and_then (checked_add last_seq 1) (\<lambda>next_seq.
        let start = (case cursor of Some c \<Rightarrow> c | None \<Rightarrow> next_seq);
            end' = (if limit \<le> start then start - limit else 0) in
        Inr (rev (seq_range end' start)))
      else
        and_then (case cursor of
            Some c \<Rightarrow> if unat c + 1 < 2 ^ 64 then Inr (c + 1) else Inl (Fail ''start + limit is overflow'')
          | None \<Rightarrow> Inr 0) (\<lambda>start.
        and_then (if unat start + unat limit < 2 ^ 64 then Inr (start + limit) else Inl (Fail ''start + limit is overflow'')) (\<lambda>value.
        and_then (checked_add last_seq 1) (\<lambda>next_seq.
        Inr (seq_range start (min value next_seq))))))"

definition get_events_by_event_handle_id ::
    "'db event_env \<Rightarrow> 'db \<Rightarrow> ObjectID \<Rightarrow> u64 option \<Rightarrow> u64 \<Rightarrow> bool \<Rightarrow> Event list result" where
  "get_events_by_event_handle_id env db event_handle_id cursor limit descending_order =
     and_then (get_event_handle env db event_handle_id) (\<lambda>res.
     and_then (ok_or res ''Can not find event handle by id'') (\<lambda>event_handle.
     and_then (event_seqs (eh_count event_handle) cursor limit descending_order) (\<lambda>ids.
     and_then (multi_get_events env db (map (event_id_new event_handle_id) ids)) (\<lambda>events.
     Inr (List.map_filter (\<lambda>e. e) events)))))"

definition get_events_by_event_handle_type ::
    "'db event_env \<Rightarrow> 'db \<Rightarrow> StructTag \<Rightarrow> u64 option \<Rightarrow> u64 \<Rightarrow> bool \<Rightarrow> Event list result" where
  "get_events_by_event_handle_type env db event_handle_type cursor limit descending_order =
     get_events_by_event_handle_id env db (derive_event_handle_id (ee_object env) event_handle_type) cursor limit descending_order"

end
