(* ===== verification/Move_Transaction.thy ===== *)
theory Move_Transaction
  imports Event_Store
begin

text \<open>
  Transactions of MoveOS (\<^verbatim>\<open>moveos-types/src/transaction.rs\<close>, \<^verbatim>\<open>moveos_std/tx_context.rs\<close>, \<^verbatim>\<open>simple_map.rs\<close>,
  \<^verbatim>\<open>any.rs\<close>, \<^verbatim>\<open>tx_meta.rs\<close>, \<^verbatim>\<open>tx_result.rs\<close>): actions, the context a transaction runs in, and outputs. A Rust value
  that is packed into the context enters by the name of its type and its BCS bytes.
\<close>

section \<open>Actions\<close>

record ModuleId =
  mi_address :: AccountAddress
  mi_name :: string

record FunctionId =
  fi_module_id :: ModuleId
  fi_function_name :: string

record ScriptCall =
  sl_code :: bytes
  sl_ty_args :: "TypeTag list"
  sl_args :: "bytes list"

record FunctionCall =
  fc_function_id :: FunctionId
  fc_ty_args :: "TypeTag list"
  fc_args :: "bytes list"

definition function_call_new :: "FunctionId \<Rightarrow> TypeTag list \<Rightarrow> bytes list \<Rightarrow> FunctionCall" where
  "function_call_new function_id ty_args args = \<lparr>fc_function_id = function_id, fc_ty_args = ty_args, fc_args = args\<rparr>"

datatype MoveAction = Script ScriptCall | Function FunctionCall | ModuleBundle "bytes list"

definition action_type :: "MoveAction \<Rightarrow> u8" where
  "action_type action = (case action of Script _ \<Rightarrow> 0 | Function _ \<Rightarrow> 1 | ModuleBundle _ \<Rightarrow> 2)"

definition action_name :: "MoveAction \<Rightarrow> string" where
  "action_name action =
     (case action of Script _ \<Rightarrow> ''Script'' | Function _ \<Rightarrow> ''Function'' | ModuleBundle _ \<Rightarrow> ''ModuleBundle'')"

definition new_module_bundle :: "bytes list \<Rightarrow> MoveAction" where
  "new_module_bundle modules = ModuleBundle modules"

definition new_function_call :: "FunctionId \<Rightarrow> TypeTag list \<Rightarrow> bytes list \<Rightarrow> MoveAction" where
  "new_function_call function_id ty_args args = Function \<lparr>fc_function_id = function_id, fc_ty_args = ty_args, fc_args = args\<rparr>"

definition new_script_call :: "bytes \<Rightarrow> TypeTag list \<Rightarrow> bytes list \<Rightarrow> MoveAction" where
  "new_script_call code ty_args args = Script \<lparr>sl_code = code, sl_ty_args = ty_args, sl_args = args\<rparr>"

datatype VerifiedMoveAction =
    VerifiedScript (vs_call: ScriptCall)
  | VerifiedFunction (vf_call: FunctionCall) (vf_bypass_visibility: bool)
  | VerifiedModuleBundle (vb_module_bundle: "bytes list") (vb_init_function_modules: "ModuleId list")

definition action_from_verified :: "VerifiedMoveAction \<Rightarrow> MoveAction" where
  "action_from_verified verified_action =
     (case verified_action of
        VerifiedScript call \<Rightarrow> Script call
      | VerifiedFunction call _ \<Rightarrow> Function call
      | VerifiedModuleBundle module_bundle _ \<Rightarrow> ModuleBundle module_bundle)"

section \<open>Maps and packed values\<close>

type_synonym ('k, 'v) SimpleMap = "('k \<times> 'v) list"

definition simple_map_create :: "('k, 'v) SimpleMap" where
  "simple_map_create = []"

fun simple_map_contains :: "'k \<Rightarrow> ('k, 'v) SimpleMap \<Rightarrow> bool" where
  "simple_map_contains key [] \<longleftrightarrow> False"
| "simple_map_contains key ((k, v) # data) \<longleftrightarrow> (if k = key then True else simple_map_contains key data)"

fun simple_map_borrow :: "'k \<Rightarrow> ('k, 'v) SimpleMap \<Rightarrow> 'v option" where
  "simple_map_borrow key [] = None"
| "simple_map_borrow key ((k, v) # data) = (if k = key then Some v else simple_map_borrow key data)"

definition simple_map_add :: "'k \<Rightarrow> 'v \<Rightarrow> ('k, 'v) SimpleMap \<Rightarrow> ('k, 'v) SimpleMap result" where
  "simple_map_add key value data =
     (if simple_map_contains key data then Inl (Panic ''Key already exists'') else Inr (data @ [(key, value)]))"

record Any =
  any_type_name :: string
  any_data :: bytes

definition any_new :: "string \<Rightarrow> bytes \<Rightarrow> Any" where
  "any_new type_name data = \<lparr>any_type_name = type_name, any_data = data\<rparr>"

definition any_pack :: "string \<Rightarrow> bytes \<Rightarrow> Any" where
  "any_pack type_name value_bytes = any_new type_name value_bytes"

definition any_unpack :: "string \<Rightarrow> (bytes \<Rightarrow> 'a result) \<Rightarrow> Any \<Rightarrow> 'a result" where
  "any_unpack type_name from_bytes a =
     (if any_type_name a \<noteq> type_name then Inl (Fail ''Invalid type'') else from_bytes (any_data a))"

section \<open>The context\<close>

definition INITIAL_MAX_GAS_AMOUNT :: u64 where "INITIAL_MAX_GAS_AMOUNT = 1000000000"
definition READONLY_MAX_GAS_AMOUNT :: u64 where "READONLY_MAX_GAS_AMOUNT = 5000000000"

record TxContext =
  tx_sender :: AccountAddress
  tx_sequence_number :: u64
  tx_max_gas_amount :: u64
  tx_hash_bytes :: bytes
  tx_tx_size :: u64
  tx_ids_created :: u64
  tx_map :: "(string, Any) SimpleMap"

definition tx_context_new :: "AccountAddress \<Rightarrow> u64 \<Rightarrow> u64 \<Rightarrow> HashValue \<Rightarrow> u64 \<Rightarrow> TxContext" where
  "tx_context_new sender sequence_number max_gas_amount tx_hash tx_size =
     \<lparr>tx_sender = sender, tx_sequence_number = sequence_number, tx_max_gas_amount = max_gas_amount, tx_hash_bytes = tx_hash,
      tx_tx_size = tx_size, tx_ids_created = 0, tx_map = simple_map_create\<rparr>"

definition new_system_call_ctx :: "HashValue \<Rightarrow> u64 \<Rightarrow> TxContext" where
  "new_system_call_ctx tx_hash tx_size = tx_context_new 0 0 (- 1) tx_hash tx_size"

definition new_readonly_ctx :: "AccountAddress \<Rightarrow> TxContext" where
  "new_readonly_ctx sender = tx_context_new sender 0 READONLY_MAX_GAS_AMOUNT (replicate 32 0) 0"

definition is_system_call :: "TxContext \<Rightarrow> bool" where
  "is_system_call ctx \<longleftrightarrow> tx_sender ctx = 0"

definition ctx_spawn :: "(string, Any) SimpleMap \<Rightarrow> TxContext \<Rightarrow> TxContext" where
  "ctx_spawn env ctx = ctx\<lparr>tx_ids_created := 0, tx_map := env\<rparr>"

definition ctx_zero :: TxContext where
  "ctx_zero =
     \<lparr>tx_sender = 0, tx_sequence_number = 0, tx_max_gas_amount = INITIAL_MAX_GAS_AMOUNT, tx_hash_bytes = replicate 32 0,
      tx_tx_size = 0, tx_ids_created = 0, tx_map = simple_map_create\<rparr>"

definition fresh_id :: "object_env \<Rightarrow> (TxContext, ObjectID) action" where
  "fresh_id env ctx =
     (let oid = derive_id env (tx_hash_bytes ctx) (tx_ids_created ctx) in
      case checked_add (tx_ids_created ctx) 1 of
        Inl e \<Rightarrow> (Inl e, ctx)
      | Inr n \<Rightarrow> (Inr oid, ctx\<lparr>tx_ids_created := n\<rparr>))"

text \<open>\<^verbatim>\<open>H256::from_slice\<close> panics on another length.\<close>

definition ctx_tx_hash :: "TxContext \<Rightarrow> HashValue result" where
  "ctx_tx_hash ctx =
     and_then (assert_that (length (tx_hash_bytes ctx) = 32) ''assertion failed: src.len() == 32'') (\<lambda>_. Inr (tx_hash_bytes ctx))"

definition ctx_add :: "string \<Rightarrow> bytes \<Rightarrow> TxContext \<Rightarrow> TxContext result" where
  "ctx_add type_name value_bytes ctx =
     and_then (simple_map_add type_name (any_pack type_name value_bytes) (tx_map ctx)) (\<lambda>m. Inr (ctx\<lparr>tx_map := m\<rparr>))"

definition ctx_get :: "string \<Rightarrow> (bytes \<Rightarrow> 'a result) \<Rightarrow> TxContext \<Rightarrow> 'a option result" where
  "ctx_get type_name from_bytes ctx =
     (case simple_map_borrow type_name (tx_map ctx) of
        Some a \<Rightarrow> and_then (any_unpack type_name from_bytes a) (\<lambda>value. Inr (Some value))
      | None \<Rightarrow> Inr None)"

record TxResult =
  tr_executed :: bool
  tr_gas_used :: u64

text \<open>The first argument is the status \<^verbatim>\<open>Executed\<close>.\<close>

definition tx_result_new :: "'st \<Rightarrow> 'st \<Rightarrow> u64 \<Rightarrow> TxResult" where
  "tx_result_new executed status gas_used = \<lparr>tr_executed = (status = executed), tr_gas_used = gas_used\<rparr>"

record FunctionCallMeta =
  cm_module_address :: AccountAddress
  cm_module_name :: string
  cm_function_name :: string

record TxMeta =
  tm_action_type :: u8
  tm_function_meta :: "FunctionCallMeta option"

text \<open>\<^verbatim>\<open>MoveString::from_str\<close> never fails, so that the branch for its error is not reached.\<close>

definition new_from_move_action :: "MoveAction \<Rightarrow> TxMeta" where
  "new_from_move_action move_action =
     \<lparr>tm_action_type = action_type move_action,
      tm_function_meta =
        (case move_action of
           Function call \<Rightarrow>
             Some \<lparr>cm_module_address = mi_address (fi_module_id (fc_function_id call)),
                   cm_module_name = mi_name (fi_module_id (fc_function_id call)),
                   cm_function_name = fi_function_name (fc_function_id call)\<rparr>
         | _ \<Rightarrow> None)\<rparr>"

section \<open>Transactions and outputs\<close>

record MoveOSTransaction =
  mt_root :: ObjectMeta
  mt_ctx :: TxContext
  mt_action :: MoveAction

text \<open>The name and the encoding of \<^verbatim>\<open>TxMeta\<close> come from the type and from BCS.\<close>

definition moveos_transaction_new ::
    "string \<Rightarrow> (TxMeta \<Rightarrow> bytes) \<Rightarrow> ObjectMeta \<Rightarrow> TxContext \<Rightarrow> MoveAction \<Rightarrow> MoveOSTransaction result" where
  "moveos_transaction_new meta_name encode root ctx action =
     and_then (ctx_add meta_name (encode (new_from_move_action action)) ctx) (\<lambda>ctx'.
     Inr \<lparr>mt_root = root, mt_ctx = ctx', mt_action = action\<rparr>)"

record VerifiedMoveOSTransaction =
  vt_root :: ObjectMeta
  vt_ctx :: TxContext
  vt_action :: VerifiedMoveAction

record 'st RawTransactionOutput =
  ro_status :: 'st
  ro_changeset :: StateChangeSet
  ro_events :: "TransactionEvent list"
  ro_gas_used :: u64
  ro_is_upgrade :: bool

record 'st TransactionOutput =
  to_status :: 'st
  to_changeset :: StateChangeSet
  to_events :: "Event list"
  to_gas_used :: u64
  to_is_upgrade :: bool

definition transaction_output_new :: "'st \<Rightarrow> StateChangeSet \<Rightarrow> Event list \<Rightarrow> u64 \<Rightarrow> bool \<Rightarrow> 'st TransactionOutput" where
  "transaction_output_new status changeset events gas_used is_upgrade =
     \<lparr>to_status = status, to_changeset = changeset, to_events = events, to_gas_used = gas_used, to_is_upgrade = is_upgrade\<rparr>"

section \<open>Laws\<close>

lemma simple_map_borrow_eq: "simple_map_borrow key data = map_of data key"
  by (induction key data rule: simple_map_borrow.induct) auto

lemma simple_map_contains_eq: "simple_map_contains key data \<longleftrightarrow> key \<in> dom (map_of data)"
  by (induction key data rule: simple_map_contains.induct) auto

lemma simple_map_add_eq:
  assumes "simple_map_add key value data = Inr data'"
  shows "map_of data' = (map_of data)(key \<mapsto> value)"
  using assms by (auto simp: simple_map_add_def simple_map_contains_eq fun_eq_iff map_add_def domIff split: if_splits option.split)

text \<open>A value added to the context is read back; a second value of the type makes \<^verbatim>\<open>add\<close> panic.\<close>

lemma ctx_get_add:
  assumes "ctx_add name bs ctx = Inr ctx'"
  shows "ctx_get name dec ctx' = and_then (dec bs) (\<lambda>v. Inr (Some v))"
    and "name' \<noteq> name \<Longrightarrow> ctx_get name' dec' ctx' = ctx_get name' dec' ctx"
    and "ctx_add name bs' ctx' = Inl (Panic ''Key already exists'')"
proof -
  obtain m where m: "simple_map_add name (any_pack name bs) (tx_map ctx) = Inr m" "ctx' = ctx\<lparr>tx_map := m\<rparr>"
    using assms by (auto simp: ctx_add_def)
  note eq = simple_map_add_eq [OF m(1)]
  show "ctx_get name dec ctx' = and_then (dec bs) (\<lambda>v. Inr (Some v))"
    by (simp add: ctx_get_def simple_map_borrow_eq m(2) eq any_pack_def any_new_def any_unpack_def)
  show "name' \<noteq> name \<Longrightarrow> ctx_get name' dec' ctx' = ctx_get name' dec' ctx"
    by (simp add: ctx_get_def simple_map_borrow_eq m(2) eq)
  show "ctx_add name bs' ctx' = Inl (Panic ''Key already exists'')"
    by (simp add: ctx_add_def simple_map_add_def simple_map_contains_eq m(2) eq)
qed

end
