(* ===== verification/State_Store.thy ===== *)
theory State_Store
  imports Move_Object Smt_Tree Raw_Store
begin

text \<open>
  The state of MoveOS (\<^verbatim>\<open>moveos-store/src/state_store\<close>, \<^verbatim>\<open>moveos-types/src/state_resolver.rs\<close>): objects form a
  tree, and the fields of each object are the entries of a sparse Merkle tree whose root is in the
  metadata of the object. The nodes of all these trees are in one column family. A change set is
  applied bottom up, and its nodes are written in one batch. BCS and SHA3-256 are the fields of the
  environment; timers and counters of \<^verbatim>\<open>StateDBMetrics\<close> have no effect on results and are left out.
\<close>

section \<open>The node store\<close>

definition STATE_NODE_COLUMN_FAMILY_NAME :: ColumnFamilyName where
  "STATE_NODE_COLUMN_FAMILY_NAME = ''state_node''"

text \<open>The field key converts to the hash that is its 32 bytes (\<^verbatim>\<open>From\<close> in \<^verbatim>\<open>state.rs\<close>).\<close>

record 'db state_env =
  se_rocks :: "'db rocks_ops"
  se_node_codec :: "(HashValue, bytes) bcs_codec"
  se_digest :: digest
  se_state_to_bytes :: "ObjectState \<Rightarrow> bytes result"
  se_state_from_bytes :: "bytes \<Rightarrow> ObjectState result"
  se_kv_to_bytes :: "HashValue \<times> bytes \<Rightarrow> bytes result"
  se_kv_from_bytes :: "bytes \<Rightarrow> (HashValue \<times> bytes) result"

definition state_smt :: "'db state_env \<Rightarrow> (FieldKey, ObjectState) smt_env" where
  "state_smt env =
     \<lparr>env_digest = se_digest env, key_into = address_bytes, key_from = address_of_bytes,
      bcs_to_bytes = se_state_to_bytes env, bcs_from_bytes = se_state_from_bytes env,
      raw_kv_to_bytes = se_kv_to_bytes env, raw_kv_from_bytes = se_kv_from_bytes env\<rparr>"

definition NodeDBStore :: "'db state_env \<Rightarrow> (HashValue, bytes) schema" where
  "NodeDBStore env = derive_store STATE_NODE_COLUMN_FAMILY_NAME (se_node_codec env)"

definition node_put :: "'db state_env \<Rightarrow> HashValue \<Rightarrow> bytes \<Rightarrow> ('db, unit) action" where
  "node_put env key node = kv_put_raw (se_rocks env) (NodeDBStore env) key node"

definition node_write_nodes :: "'db state_env \<Rightarrow> (HashValue \<times> bytes) list \<Rightarrow> ('db, unit) action" where
  "node_write_nodes env nodes =
     kv_write_batch_raw (se_rocks env) (NodeDBStore env) (new_with_rows (map (\<lambda>(k, v). (k, Value v)) nodes))"

definition node_get :: "'db state_env \<Rightarrow> 'db \<Rightarrow> node_bytes_reader" where
  "node_get env db hash = kv_get_raw (se_rocks env) (NodeDBStore env) db hash"

section \<open>The state database\<close>

definition update_fields :: "'db state_env \<Rightarrow> 'db \<Rightarrow> HashValue \<Rightarrow> (FieldKey, ObjectState) UpdateSet \<Rightarrow> TreeChangeSet result" where
  "update_fields env db pre_state_root update_set = smt_puts (state_smt env) (node_get env db) pre_state_root update_set"

definition update_nodes :: "'db state_env \<Rightarrow> (HashValue \<times> bytes) list \<Rightarrow> ('db, unit) action" where
  "update_nodes env nodes = node_write_nodes env nodes"

definition get_field_at :: "'db state_env \<Rightarrow> 'db \<Rightarrow> HashValue \<Rightarrow> FieldKey \<Rightarrow> ObjectState option result" where
  "get_field_at env db state_root key =
     (if state_root = GENESIS_STATE_ROOT then Inr None else smt_get (state_smt env) (node_get env db) state_root key)"

text \<open>The fuel bounds the loops of the iterator, as in \<^verbatim>\<open>Smt_Tree\<close>.\<close>

definition list_fields_at ::
    "nat \<Rightarrow> 'db state_env \<Rightarrow> 'db \<Rightarrow> HashValue \<Rightarrow> FieldKey option \<Rightarrow> nat \<Rightarrow> (FieldKey \<times> ObjectState) list result" where
  "list_fields_at fuel env db state_root cursor limit =
     smt_list fuel (state_smt env) (node_get env db) state_root cursor limit"

definition statedb_iter :: "'db state_env \<Rightarrow> 'db \<Rightarrow> HashValue \<Rightarrow> FieldKey option \<Rightarrow> JellyfishMerkleIterator result" where
  "statedb_iter env db state_root starting_key = smt_iter (state_smt env) (node_get env db) state_root starting_key"

section \<open>The resolver over a root object\<close>

text \<open>\<^verbatim>\<open>RootObjectResolver\<close> is the root metadata with the database.\<close>

function get_object :: "'db state_env \<Rightarrow> 'db \<Rightarrow> ObjectMeta \<Rightarrow> ObjectID \<Rightarrow> ObjectState option result" where
  "get_object env db root oid =
     (if is_root oid then and_then (new_root root) (\<lambda>s. Inr (Some s))
      else
        and_then (field_key oid) (\<lambda>key.
        case object_id_parent oid of
          None \<Rightarrow> Inl (Panic ''ObjectID parent should not be None'')
        | Some parent_id \<Rightarrow>
            and_then (get_object env db root parent_id) (\<lambda>parent.
            case parent of
              Some p \<Rightarrow> get_field_at env db (state_state_root p) key
            | None \<Rightarrow> Inr None)))"
  by pat_completeness auto
termination
  by (relation "measure (\<lambda>(_, _, _, oid). length oid)") (auto simp: object_id_parent_def split: if_splits)

declare get_object.simps [simp del]

definition get_field :: "'db state_env \<Rightarrow> 'db \<Rightarrow> ObjectMeta \<Rightarrow> ObjectID \<Rightarrow> FieldKey \<Rightarrow> ObjectState option result" where
  "get_field env db root oid key =
     and_then (get_object env db root oid) (\<lambda>res.
     case res of
       Some obj \<Rightarrow> get_field_at env db (state_state_root obj) key
     | None \<Rightarrow> Inr None)"

definition list_fields ::
    "nat \<Rightarrow> 'db state_env \<Rightarrow> 'db \<Rightarrow> ObjectMeta \<Rightarrow> ObjectID \<Rightarrow> FieldKey option \<Rightarrow> nat \<Rightarrow> (FieldKey \<times> ObjectState) list result" where
  "list_fields fuel env db root oid cursor limit =
     and_then (get_object env db root oid) (\<lambda>res.
     and_then (ok_or res ''Object not found'') (\<lambda>obj.
     list_fields_at fuel env db (state_state_root obj) cursor limit))"

text \<open>Resources and modules are dynamic fields of the account object and of the package object.\<close>

definition get_resource ::
    "'db state_env \<Rightarrow> object_env \<Rightarrow> (string \<Rightarrow> bytes result) \<Rightarrow> 'db \<Rightarrow> ObjectMeta \<Rightarrow> AccountAddress \<Rightarrow> StructTag \<Rightarrow> bytes option result" where
  "get_resource env oenv bcs_string db root address resource_tag =
     and_then (derive_resource_key oenv bcs_string resource_tag) (\<lambda>key.
     and_then (get_field env db root (account_object_id address) key) (\<lambda>res.
     case res of
       None \<Rightarrow> Inr None
     | Some s \<Rightarrow>
         and_then (ensure_that (match_dynamic_field_type (os_metadata s) move_string_tag (TagStruct resource_tag))
           ''Resource type mismatch'') (\<lambda>_.
         and_then (parse_resource_field (os_value s) (TagStruct resource_tag)) (\<lambda>fld.
         Inr (Some (rf_value fld))))))"

definition move_module_tag :: TypeTag where
  "move_module_tag = TagStruct (StructTag MOVEOS_STD_ADDRESS ''move_module'' ''MoveModule'' [])"

text \<open>The decoder of \<^verbatim>\<open>DynamicField<MoveString, MoveModule>\<close> returns the byte codes.\<close>

definition get_module ::
    "'db state_env \<Rightarrow> object_env \<Rightarrow> (string \<Rightarrow> bytes result) \<Rightarrow> (bytes \<Rightarrow> bytes result) \<Rightarrow> 'db \<Rightarrow> ObjectMeta \<Rightarrow>
     AccountAddress \<Rightarrow> string \<Rightarrow> bytes option result" where
  "get_module env oenv bcs_string decode db root module_address module_name =
     and_then (derive_module_key oenv bcs_string module_name) (\<lambda>key.
     and_then (get_field env db root (package_id oenv module_address) key) (\<lambda>res.
     case res of
       None \<Rightarrow> Inr None
     | Some s \<Rightarrow>
         and_then (value_as (construct_dynamic_field_struct_tag move_string_tag move_module_tag) decode s) (\<lambda>code.
         Inr (Some code))))"

section \<open>Applying a change set\<close>

text \<open>\<^verbatim>\<open>BTreeMap::append\<close>: an entry of the second map replaces one of the first.\<close>

definition append_nodes :: "(HashValue \<times> bytes) list \<Rightarrow> (HashValue \<times> bytes) list \<Rightarrow> (HashValue \<times> bytes) list" where
  "append_nodes nodes other = foldl (\<lambda>m (k, v). AList.update k v m) nodes other"

text \<open>
  The object a change starts from: the new value with the metadata of the change, the present value
  with that metadata when the change has no value, or nothing for a deletion.
\<close>

definition changed_object :: "'db state_env \<Rightarrow> 'db \<Rightarrow> ObjectMeta \<Rightarrow> ObjectMeta \<Rightarrow> bytes Op option \<Rightarrow> ObjectState option result" where
  "changed_object env db root metadata value =
     (case value of
        Some (New state) \<Rightarrow> Inr (Some (object_state_new metadata state))
      | Some (Modify state) \<Rightarrow> Inr (Some (object_state_new metadata state))
      | Some Delete \<Rightarrow> Inr None
      | None \<Rightarrow>
          and_then (get_object env db root (om_id metadata)) (\<lambda>res.
          and_then (ok_or res ''Object not found'') (\<lambda>obj_state.
          Inr (Some (obj_state\<lparr>os_metadata := metadata\<rparr>)))))"

type_synonym node_list = "(HashValue \<times> bytes) list"
type_synonym field_updates = "(FieldKey, ObjectState) UpdateSet"

text \<open>
  The mutable arguments, the nodes collected so far, the update set of the parent and the change itself,
  are returned. The children are visited in the order of their keys, before their parent's tree.
\<close>

fun apply_object_change ::
    "'db state_env \<Rightarrow> 'db \<Rightarrow> ObjectMeta \<Rightarrow> node_list \<Rightarrow> field_updates \<Rightarrow> FieldKey \<Rightarrow> ObjectChange \<Rightarrow>
     (node_list \<times> field_updates \<times> ObjectChange) result"
  and apply_field_changes ::
    "'db state_env \<Rightarrow> 'db \<Rightarrow> ObjectMeta \<Rightarrow> node_list \<Rightarrow> field_updates \<Rightarrow> (FieldKey \<times> ObjectChange) list \<Rightarrow>
     (node_list \<times> field_updates \<times> (FieldKey \<times> ObjectChange) list) result" where
  "apply_object_change env db root nodes update_set fkey (ObjectChange metadata value flds) =
     and_then (changed_object env db root metadata value) (\<lambda>changed.
     case changed of
       None \<Rightarrow> Inr (nodes, us_remove fkey update_set, ObjectChange metadata value flds)
     | Some obj \<Rightarrow>
         and_then (apply_field_changes env db root nodes us_new flds) (\<lambda>(nodes', field_update_set, flds').
         and_then (update_fields env db (state_state_root obj) field_update_set) (\<lambda>tree_change_set.
         let new_state_root = cs_state_root tree_change_set in
         Inr (append_nodes nodes' (cs_nodes tree_change_set),
              us_put fkey (state_update_state_root new_state_root obj) update_set,
              change_update_state_root new_state_root (ObjectChange metadata value flds')))))"
| "apply_field_changes env db root nodes update_set [] = Inr (nodes, update_set, [])"
| "apply_field_changes env db root nodes update_set ((key, change) # flds) =
     and_then (apply_object_change env db root nodes update_set key change) (\<lambda>(nodes', update_set', change').
     and_then (apply_field_changes env db root nodes' update_set' flds) (\<lambda>(nodes'', update_set'', flds').
     Inr (nodes'', update_set'', (key, change') # flds')))"

text \<open>On success the change set, which the source updates in place, is returned.\<close>

definition apply_change_set :: "'db state_env \<Rightarrow> StateChangeSet \<Rightarrow> ('db, StateChangeSet) action" where
  "apply_change_set env cs db =
     (let root = change_set_root_metadata cs; pre_state_root = meta_state_root root in
      bind_act (lift_act (apply_field_changes env db root [] us_new (sc_changes cs))) (\<lambda>(nodes, update_set, changes).
      bind_act (lift_act (update_fields env db pre_state_root update_set)) (\<lambda>tree_change_set.
      bind_act (node_write_nodes env (append_nodes nodes (cs_nodes tree_change_set))) (\<lambda>_.
      return_act (change_set_update_state_root (cs_state_root tree_change_set) (cs\<lparr>sc_changes := changes\<rparr>))))) db)"

end
