(* ===== verification/MoveOS_Store.thy ===== *)
theory MoveOS_Store
  imports Move_Transaction State_Store InMemory_Accumulator Execution_Info
begin

text \<open>
  The stores of MoveOS beside the state and the events (\<^verbatim>\<open>moveos-store/src/transaction_store\<close>, \<^verbatim>\<open>config_store\<close>,
  \<^verbatim>\<open>lib.rs\<close>, and \<^verbatim>\<open>startup_info.rs\<close> and \<^verbatim>\<open>genesis_info.rs\<close> of \<^verbatim>\<open>moveos-types\<close>): execution infos by transaction
  hash, the startup info that names the latest root, and the genesis info. All stores share one
  database.
\<close>

section \<open>Startup and genesis infos\<close>

record StartupInfo =
  si_state_root :: HashValue
  si_size :: u64

definition startup_info_new :: "HashValue \<Rightarrow> u64 \<Rightarrow> StartupInfo" where
  "startup_info_new state_root sz = \<lparr>si_state_root = state_root, si_size = sz\<rparr>"

definition startup_update_state_root :: "HashValue \<Rightarrow> u64 \<Rightarrow> StartupInfo \<Rightarrow> StartupInfo" where
  "startup_update_state_root new_state_root_hash sz i = i\<lparr>si_state_root := new_state_root_hash, si_size := sz\<rparr>"

definition into_root_metadata :: "StartupInfo \<Rightarrow> ObjectMeta" where
  "into_root_metadata i = root_metadata (si_state_root i) (si_size i)"

record GenesisInfo =
  gi_genesis_package_hash :: HashValue
  gi_root :: ObjectMeta
  gi_genesis_bin :: bytes

definition genesis_info_new :: "HashValue \<Rightarrow> ObjectMeta \<Rightarrow> bytes \<Rightarrow> GenesisInfo" where
  "genesis_info_new genesis_package_hash root genesis_bin =
     \<lparr>gi_genesis_package_hash = genesis_package_hash, gi_root = root, gi_genesis_bin = genesis_bin\<rparr>"

definition execution_root_metadata :: "'st TransactionExecutionInfo \<Rightarrow> ObjectMeta" where
  "execution_root_metadata info = root_metadata (xi_state_root info) (xi_size info)"

section \<open>The store\<close>

definition TRANSACTION_EXECUTION_INFO_COLUMN_FAMILY_NAME :: ColumnFamilyName where
  "TRANSACTION_EXECUTION_INFO_COLUMN_FAMILY_NAME = ''transaction_execution_info''"

definition CONFIG_STARTUP_INFO_COLUMN_FAMILY_NAME :: ColumnFamilyName where
  "CONFIG_STARTUP_INFO_COLUMN_FAMILY_NAME = ''config_startup_info''"

definition CONFIG_GENESIS_COLUMN_FAMILY_NAME :: ColumnFamilyName where
  "CONFIG_GENESIS_COLUMN_FAMILY_NAME = ''config_genesis''"

definition VEC_COLUMN_FAMILY_NAME :: "ColumnFamilyName list" where
  "VEC_COLUMN_FAMILY_NAME =
     [STATE_NODE_COLUMN_FAMILY_NAME, TRANSACTION_EXECUTION_INFO_COLUMN_FAMILY_NAME, EVENT_COLUMN_FAMILY_NAME,
      EVENT_HANDLE_COLUMN_FAMILY_NAME, CONFIG_STARTUP_INFO_COLUMN_FAMILY_NAME, CONFIG_GENESIS_COLUMN_FAMILY_NAME]"

definition STARTUP_INFO_KEY :: string where "STARTUP_INFO_KEY = ''startup_info''"
definition GENESIS_KEY :: string where "GENESIS_KEY = ''genesis''"

text \<open>\<^verbatim>\<open>MoveOSStore\<close>: its stores are made from one instance, so that they have one database.\<close>

record ('db, 'st) moveos_env =
  mo_state :: "'db state_env"
  mo_event :: "'db event_env"
  mo_rocks :: "'db rocks_ops"
  mo_sha3 :: hasher
  mo_info_codec :: "(HashValue, 'st TransactionExecutionInfo) bcs_codec"
  mo_startup_codec :: "(string, StartupInfo) bcs_codec"
  mo_genesis_codec :: "(string, GenesisInfo) bcs_codec"

definition TransactionDBStore :: "('db, 'st) moveos_env \<Rightarrow> (HashValue, 'st TransactionExecutionInfo) schema" where
  "TransactionDBStore env = derive_store TRANSACTION_EXECUTION_INFO_COLUMN_FAMILY_NAME (mo_info_codec env)"

definition StartupInfoStore :: "('db, 'st) moveos_env \<Rightarrow> (string, StartupInfo) schema" where
  "StartupInfoStore env = derive_store CONFIG_STARTUP_INFO_COLUMN_FAMILY_NAME (mo_startup_codec env)"

definition GenesisStore :: "('db, 'st) moveos_env \<Rightarrow> (string, GenesisInfo) schema" where
  "GenesisStore env = derive_store CONFIG_GENESIS_COLUMN_FAMILY_NAME (mo_genesis_codec env)"

definition save_tx_execution_info :: "('db, 'st) moveos_env \<Rightarrow> 'st TransactionExecutionInfo \<Rightarrow> ('db, unit) action" where
  "save_tx_execution_info env info = kv_put (mo_rocks env) (TransactionDBStore env) (xi_tx_hash info) info"

definition get_tx_execution_info :: "('db, 'st) moveos_env \<Rightarrow> 'db \<Rightarrow> HashValue \<Rightarrow> 'st TransactionExecutionInfo option result" where
  "get_tx_execution_info env db tx_hash = kv_get (mo_rocks env) (TransactionDBStore env) db tx_hash"

definition multi_get_tx_execution_infos ::
    "('db, 'st) moveos_env \<Rightarrow> 'db \<Rightarrow> HashValue list \<Rightarrow> 'st TransactionExecutionInfo option list result" where
  "multi_get_tx_execution_infos env db tx_hashes = kv_multiple_get (mo_rocks env) (TransactionDBStore env) db tx_hashes"

definition get_startup_info :: "('db, 'st) moveos_env \<Rightarrow> 'db \<Rightarrow> StartupInfo option result" where
  "get_startup_info env db = kv_get (mo_rocks env) (StartupInfoStore env) db STARTUP_INFO_KEY"

definition save_startup_info :: "('db, 'st) moveos_env \<Rightarrow> StartupInfo \<Rightarrow> ('db, unit) action" where
  "save_startup_info env startup_info = kv_put_sync (mo_rocks env) (StartupInfoStore env) STARTUP_INFO_KEY startup_info"

definition get_genesis :: "('db, 'st) moveos_env \<Rightarrow> 'db \<Rightarrow> GenesisInfo option result" where
  "get_genesis env db = kv_get (mo_rocks env) (GenesisStore env) db GENESIS_KEY"

definition save_genesis :: "('db, 'st) moveos_env \<Rightarrow> GenesisInfo \<Rightarrow> ('db, unit) action" where
  "save_genesis env genesis_info = kv_put_sync (mo_rocks env) (GenesisStore env) GENESIS_KEY genesis_info"

section \<open>Outputs\<close>

text \<open>\<^verbatim>\<open>map_err\<close> gives an error a new text.\<close>

definition map_err :: "string \<Rightarrow> ('s, 'a) action \<Rightarrow> ('s, 'a) action" where
  "map_err msg m s = (case m s of (Inl (Fail _), s') \<Rightarrow> (Inl (Fail msg), s') | r \<Rightarrow> r)"

definition handle_tx_output :: "('db, 'st) moveos_env \<Rightarrow> HashValue \<Rightarrow> 'st TransactionOutput \<Rightarrow> ('db, 'st TransactionExecutionInfo) action" where
  "handle_tx_output env tx_hash output =
     (let state_root = sc_state_root (to_changeset output); sz = sc_global_size (to_changeset output);
          event_hashes = map (event_hash (ee_object (mo_event env))) (to_events output) in
      bind_act (lift_act (from_leaves (mo_sha3 env) event_hashes)) (\<lambda>acc.
      let transaction_info = execution_info_new tx_hash state_root sz (im_root_hash acc) (to_gas_used output) (to_status output) in
      bind_act (map_err ''ExecuteTransactionMessage handler save tx info failed'' (save_tx_execution_info env transaction_info)) (\<lambda>_.
      return_act transaction_info)))"

text \<open>\<^verbatim>\<open>MoveOS::apply_transaction_output\<close>: the state, then the events, then the startup info.\<close>

definition apply_transaction_output :: "('db, 'st) moveos_env \<Rightarrow> 'st RawTransactionOutput \<Rightarrow> ('db, 'st TransactionOutput) action" where
  "apply_transaction_output env output =
     bind_act (map_err ''STORAGE_ERROR'' (apply_change_set (mo_state env) (ro_changeset output))) (\<lambda>changeset.
     bind_act (map_err ''STORAGE_ERROR'' (save_events (mo_event env) (ro_events output))) (\<lambda>event_ids.
     let events = map (\<lambda>(event, event_id). new_with_event_id event_id event) (zip (ro_events output) event_ids);
         new_state_root = sc_state_root changeset; sz = sc_global_size changeset in
     bind_act (map_err ''STORAGE_ERROR'' (save_startup_info env (startup_info_new new_state_root sz))) (\<lambda>_.
     return_act (transaction_output_new (ro_status output) changeset events (ro_gas_used output) (ro_is_upgrade output)))))"

end
