(* ===== verification/MoveOS_Executor.thy ===== *)
theory MoveOS_Executor
  imports MoveOS_Store Gas_Meter
begin

text \<open>
  The execution of transactions (\<^verbatim>\<open>moveos/src/moveos.rs\<close>, \<^verbatim>\<open>rooch-executor/src/actor/executor.rs\<close>): a transaction
  runs in a session of the Move VM between the system functions, its output is applied to the stores,
  and the actor moves to the new root. The sessions (\<^verbatim>\<open>vm/moveos_vm.rs\<close>), which are written against the Move
  VM, are a parameter: \<open>vm_ops\<close> holds the calls that are made. The lock of the cost table is free when it
  is tried, and metrics and logs are left out.
\<close>

section \<open>What is taken from the VM\<close>

record VMErrorInfo =
  ve_error_message :: string
  ve_execution_state :: "string list"

text \<open>
  \<open>'np\<close> are the native functions with their gas parameters, \<open>'s\<close> a session, \<open>'vs\<close> and \<open>'st\<close> the VM status
  before and after \<^verbatim>\<open>keep_or_discard\<close>, \<open>'ve\<close> a VM error, \<open>'rv\<close> the values a function returns.
\<close>

record ('db, 's, 'st, 'vs, 've, 'np, 'rv) vm_ops =
  vo_vm_new :: "'np \<Rightarrow> unit result"
  vo_new_session :: "'np \<Rightarrow> 'db \<Rightarrow> ObjectMeta \<Rightarrow> TxContext \<Rightarrow> MoveOSGasMeter \<Rightarrow> 's"
  vo_new_readonly_session :: "'np \<Rightarrow> 'db \<Rightarrow> ObjectMeta \<Rightarrow> TxContext \<Rightarrow> MoveOSGasMeter \<Rightarrow> 's"
  vo_verify_move_action :: "MoveAction \<Rightarrow> 's \<Rightarrow> VerifiedMoveAction result"
  vo_execute_function_call :: "FunctionCall list \<Rightarrow> bool \<Rightarrow> 's \<Rightarrow> 've option \<times> 's"
  vo_execute_function_bypass_visibility :: "FunctionCall \<Rightarrow> 's \<Rightarrow> ('ve + 'rv) \<times> 's"
  vo_execute_move_action :: "VerifiedMoveAction \<Rightarrow> 's \<Rightarrow> 've option \<times> 's"
  vo_status_of_result :: "'ve option \<Rightarrow> 'vs"
  vo_into_vm_status :: "'ve \<Rightarrow> 'vs"
  vo_keep_or_discard :: "'vs \<Rightarrow> 'st option"
  vo_executed :: 'st
  vo_error_info :: "'ve \<Rightarrow> 's \<Rightarrow> VMErrorInfo result"
  vo_respawn :: "(string, Any) SimpleMap \<Rightarrow> 's \<Rightarrow> 's"
  vo_query_gas_used :: "'s \<Rightarrow> u64"
  vo_add_to_tx_context :: "TxResult \<Rightarrow> 's \<Rightarrow> 's option"
  vo_release_arguments :: "'s \<Rightarrow> 's option"
  vo_gas_schedule_updated :: "'s \<Rightarrow> bool result"
  vo_finish_with_extensions :: "'st \<Rightarrow> 's \<Rightarrow> 'st RawTransactionOutput result"
  vo_gas_algebra :: gas_algebra
  vo_load_from_chain :: "'db \<Rightarrow> ObjectMeta \<Rightarrow> 'np result"
  vo_gas_entries :: "bytes \<Rightarrow> (string \<times> u64) list result"

section \<open>MoveOS\<close>

record 'np MoveOS =
  mv_natives :: 'np
  mv_cost_table :: "CostTable option"
  mv_system_pre_execute_functions :: "FunctionCall list"
  mv_system_post_execute_functions :: "FunctionCall list"

definition moveos_new ::
    "('db, 's, 'st, 'vs, 've, 'np, 'rv) vm_ops \<Rightarrow> 'np \<Rightarrow> FunctionCall list \<Rightarrow> FunctionCall list \<Rightarrow> 'np MoveOS result" where
  "moveos_new vm natives pre post =
     and_then (vo_vm_new vm natives) (\<lambda>_.
     Inr \<lparr>mv_natives = natives, mv_cost_table = None, mv_system_pre_execute_functions = pre, mv_system_post_execute_functions = post\<rparr>)"

definition gas_schedule_tag :: StructTag where
  "gas_schedule_tag = StructTag MOVEOS_STD_ADDRESS ''gas_schedule'' ''GasSchedule'' []"

definition get_gas_schedule_entries ::
    "('db, 'st) moveos_env \<Rightarrow> (bytes \<Rightarrow> (string \<times> u64) list result) \<Rightarrow> 'db \<Rightarrow> ObjectMeta \<Rightarrow> (string \<rightharpoonup> u64) option result" where
  "get_gas_schedule_entries env decode db root =
     and_then (get_object (mo_state env) db root (named_object_id (ee_object (mo_event env)) gas_schedule_tag)) (\<lambda>res.
     case res of
       None \<Rightarrow> Inr None
     | Some gas_schedule_state \<Rightarrow>
         and_then (state_into_object gas_schedule_tag decode gas_schedule_state) (\<lambda>gas_schedule.
         Inr (Some (collect_entries (ent_value gas_schedule)))))"

definition load_cost_table ::
    "('db, 'st) moveos_env \<Rightarrow> ('db, 's, 'st, 'vs, 've, 'np, 'rv) vm_ops \<Rightarrow> 'db \<Rightarrow> ObjectMeta \<Rightarrow> ('np MoveOS, CostTable) action" where
  "load_cost_table env vm db root mv =
     (case mv_cost_table mv of
        Some cost_table \<Rightarrow> (Inr cost_table, mv)
      | None \<Rightarrow>
          bind_act (map_err ''STORAGE_ERROR'' (lift_act (get_gas_schedule_entries env (vo_gas_entries vm) db root))) (\<lambda>gas_entries.
          bind_act (lift_act (initial_cost_schedule gas_entries)) (\<lambda>cost_table.
          bind_act (modify_act (\<lambda>m. m\<lparr>mv_cost_table := Some cost_table\<rparr>)) (\<lambda>_.
          return_act cost_table))) mv)"

text \<open>A failed verification is an error; the session is only finished to see that nothing changed.\<close>

definition moveos_verify ::
    "('db, 'st) moveos_env \<Rightarrow> ('db, 's, 'st, 'vs, 've, 'np, 'rv) vm_ops \<Rightarrow> 'db \<Rightarrow> MoveOSTransaction \<Rightarrow>
     ('np MoveOS, VerifiedMoveOSTransaction) action" where
  "moveos_verify env vm db tx =
     bind_act (load_cost_table env vm db (mt_root tx)) (\<lambda>cost_table.
     bind_act (get_act mv_natives) (\<lambda>natives.
     let gas_meter = (meter_new cost_table (tx_max_gas_amount (mt_ctx tx)))\<lparr>gm_charge := False\<rparr>;
         session = vo_new_readonly_session vm natives db (mt_root tx) (mt_ctx tx) gas_meter in
     bind_act (lift_act (vo_verify_move_action vm (mt_action tx) session)) (\<lambda>verified_action.
     bind_act (lift_act (vo_finish_with_extensions vm (vo_executed vm) session)) (\<lambda>_.
     return_act \<lparr>vt_root = mt_root tx, vt_ctx = mt_ctx tx, vt_action = verified_action\<rparr>))))"

text \<open>\<open>Inl\<close> is a VM error of the action, after which the session must be respawned.\<close>

definition execute_action ::
    "('db, 's, 'st, 'vs, 've, 'np, 'rv) vm_ops \<Rightarrow> VerifiedMoveAction \<Rightarrow> ('s, 've + 'vs) action" where
  "execute_action vm action session =
     (case vo_execute_move_action vm action session of (execute_result, session') \<Rightarrow>
      let vm_status = vo_status_of_result vm execute_result in
      (case vo_keep_or_discard vm vm_status of
         None \<Rightarrow> Inl (Panic ''Discard status'')
       | Some status \<Rightarrow>
           if status \<noteq> vo_executed vm then
             (case execute_result of
                Some vm_err \<Rightarrow> Inr (Inl vm_err)
              | None \<Rightarrow> Inl (Panic ''called Result::unwrap_err() on an Ok value''))
           else Inr (Inr vm_status), session'))"

text \<open>A failure of the system functions panics.\<close>

definition system_functions ::
    "('db, 's, 'st, 'vs, 've, 'np, 'rv) vm_ops \<Rightarrow> string \<Rightarrow> FunctionCall list \<Rightarrow> 's \<Rightarrow> 's result" where
  "system_functions vm msg calls session =
     (case vo_execute_function_call vm calls False session of
        (None, session') \<Rightarrow> Inr session'
      | (Some _, _) \<Rightarrow> Inl (Panic msg))"

definition execution_cleanup ::
    "('db, 's, 'st, 'vs, 've, 'np, 'rv) vm_ops \<Rightarrow> bool \<Rightarrow> 's \<Rightarrow> 'vs \<Rightarrow> VMErrorInfo option \<Rightarrow>
     ('np MoveOS, 'st RawTransactionOutput \<times> VMErrorInfo option) action" where
  "execution_cleanup vm is_system session status vm_error_info =
     bind_act (lift_act (expect (vo_keep_or_discard vm status) ''Discard status'')) (\<lambda>kept_status.
     bind_act (lift_act (assert_that (\<not> (is_system \<and> kept_status \<noteq> vo_executed vm)) ''System call failed'')) (\<lambda>_.
     let tx_result = tx_result_new (vo_executed vm) kept_status (vo_query_gas_used vm session) in
     bind_act (lift_act (expect (vo_add_to_tx_context vm tx_result session) ''Add tx_result to TxContext should always success'')) (\<lambda>s1.
     bind_act (lift_act (expect (vo_release_arguments vm s1) ''release_arguments should always success'')) (\<lambda>s2.
     bind_act (get_act mv_system_post_execute_functions) (\<lambda>post.
     bind_act (lift_act (if is_system then Inr s2
       else system_functions vm ''system_post_execute should not fail.'' post s2)) (\<lambda>s3.
     bind_act (lift_act (vo_gas_schedule_updated vm s3)) (\<lambda>updated.
     bind_act (modify_act (\<lambda>m. if updated then m\<lparr>mv_cost_table := None\<rparr> else m)) (\<lambda>_.
     bind_act (lift_act (vo_finish_with_extensions vm kept_status s3)) (\<lambda>output.
     return_act (output, vm_error_info))))))))))"

definition moveos_execute ::
    "('db, 'st) moveos_env \<Rightarrow> ('db, 's, 'st, 'vs, 've, 'np, 'rv) vm_ops \<Rightarrow> 'db \<Rightarrow> VerifiedMoveOSTransaction \<Rightarrow>
     ('np MoveOS, 'st RawTransactionOutput \<times> VMErrorInfo option) action" where
  "moveos_execute env vm db tx =
     (let ctx = vt_ctx tx; is_system = is_system_call ctx; system_env = tx_map ctx in
      bind_act (lift_act (ctx_tx_hash ctx)) (\<lambda>_.
      bind_act (load_cost_table env vm db (vt_root tx)) (\<lambda>cost_table.
      bind_act (lift_act (case charge_io_write (vo_gas_algebra vm) (tx_tx_size ctx) (meter_new cost_table (tx_max_gas_amount ctx)) of
        (r, meter) \<Rightarrow> and_then r (\<lambda>_. Inr meter))) (\<lambda>gas_meter.
      bind_act (get_act mv_natives) (\<lambda>natives.
      bind_act (get_act mv_system_pre_execute_functions) (\<lambda>pre.
      let session = vo_new_session vm natives db (vt_root tx) ctx gas_meter in
      bind_act (lift_act (if is_system then Inr session
        else system_functions vm ''system_pre_execute should not fail.'' pre session)) (\<lambda>s1.
      (case execute_action vm (vt_action tx) s1 of (r, s2) \<Rightarrow>
       bind_act (lift_act r) (\<lambda>res.
       case res of
         Inr status \<Rightarrow> execution_cleanup vm is_system s2 status None
       | Inl vm_err \<Rightarrow>
           bind_act (lift_act (vo_error_info vm vm_err s2)) (\<lambda>vm_error_info.
           bind_act (lift_act (if is_system then Inr s2
             else system_functions vm ''system_pre_execute should not fail.'' pre (vo_respawn vm system_env s2))) (\<lambda>s3.
           execution_cleanup vm is_system s3 (vo_into_vm_status vm vm_err) (Some vm_error_info))))))))))))"

definition execute_only ::
    "('db, 'st) moveos_env \<Rightarrow> ('db, 's, 'st, 'vs, 've, 'np, 'rv) vm_ops \<Rightarrow> 'db \<Rightarrow> VerifiedMoveOSTransaction \<Rightarrow>
     ('np MoveOS, 'st RawTransactionOutput \<times> VMErrorInfo option) action" where
  "execute_only env vm db tx = moveos_execute env vm db tx"

text \<open>\<^verbatim>\<open>FunctionResult\<close>: the values, or the text of an error (here the kind of error).\<close>

datatype ('ve, 'rv) FunctionResult = FunctionOk 'rv | FunctionErr 've | FunctionVmErr rust_error | FunctionGasBound

definition execute_readonly_function ::
    "('db, 'st) moveos_env \<Rightarrow> ('db, 's, 'st, 'vs, 've, 'np, 'rv) vm_ops \<Rightarrow> 'db \<Rightarrow> ObjectMeta \<Rightarrow> TxContext \<Rightarrow> FunctionCall \<Rightarrow>
     'np MoveOS \<Rightarrow> ('ve, 'rv) FunctionResult \<times> 'np MoveOS" where
  "execute_readonly_function env vm db root tx_context function_call mv =
     (if READONLY_MAX_GAS_AMOUNT < tx_max_gas_amount tx_context then (FunctionGasBound, mv)
      else
        (case load_cost_table env vm db root mv of
           (Inl e, mv') \<Rightarrow> (FunctionVmErr e, mv')
         | (Inr cost_table, mv') \<Rightarrow>
             let gas_meter = (meter_new cost_table (tx_max_gas_amount tx_context))\<lparr>gm_charge := True\<rparr>;
                 session = vo_new_readonly_session vm (mv_natives mv') db root tx_context gas_meter in
             (case vo_execute_function_bypass_visibility vm function_call session of
                (Inr return_values, session') \<Rightarrow>
                  (case vo_finish_with_extensions vm (vo_executed vm) session' of
                     Inr _ \<Rightarrow> FunctionOk return_values
                   | Inl e \<Rightarrow> FunctionVmErr e)
              | (Inl e, _) \<Rightarrow> FunctionErr e, mv')))"

definition execute_view_function ::
    "('db, 'st) moveos_env \<Rightarrow> ('db, 's, 'st, 'vs, 've, 'np, 'rv) vm_ops \<Rightarrow> 'db \<Rightarrow> ObjectMeta \<Rightarrow> FunctionCall \<Rightarrow>
     'np MoveOS \<Rightarrow> ('ve, 'rv) FunctionResult \<times> 'np MoveOS" where
  "execute_view_function env vm db root function_call = execute_readonly_function env vm db root (new_readonly_ctx 0) function_call"

section \<open>The executor\<close>

record 'np ExecutorActor =
  ex_root :: ObjectMeta
  ex_moveos :: "'np MoveOS"

text \<open>The state of the actor is its fields and the database.\<close>

definition on_moveos :: "('db \<Rightarrow> ('np MoveOS, 'a) action) \<Rightarrow> ('np ExecutorActor \<times> 'db, 'a) action" where
  "on_moveos f = (\<lambda>(ex, db). case f db (ex_moveos ex) of (r, mv) \<Rightarrow> (r, ex\<lparr>ex_moveos := mv\<rparr>, db))"

definition on_db :: "('db, 'a) action \<Rightarrow> ('np ExecutorActor \<times> 'db, 'a) action" where
  "on_db f = (\<lambda>(ex, db). case f db of (r, db') \<Rightarrow> (r, ex, db'))"

definition executor_new ::
    "('db, 's, 'st, 'vs, 've, 'np, 'rv) vm_ops \<Rightarrow> FunctionCall list \<Rightarrow> FunctionCall list \<Rightarrow> ObjectMeta \<Rightarrow> 'db \<Rightarrow> 'np ExecutorActor result" where
  "executor_new vm pre post root db =
     and_then (vo_load_from_chain vm db root) (\<lambda>gas_parameters.
     and_then (moveos_new vm gas_parameters pre post) (\<lambda>moveos.
     Inr \<lparr>ex_root = root, ex_moveos = moveos\<rparr>))"

definition executor_dry_run ::
    "('db, 'st) moveos_env \<Rightarrow> ('db, 's, 'st, 'vs, 've, 'np, 'rv) vm_ops \<Rightarrow> VerifiedMoveOSTransaction \<Rightarrow>
     ('np ExecutorActor \<times> 'db, 'st RawTransactionOutput \<times> VMErrorInfo option) action" where
  "executor_dry_run env vm tx = on_moveos (\<lambda>db. execute_only env vm db tx)"

text \<open>When the cost table was dropped, the native functions are made anew.\<close>

definition executor_reload ::
    "('db, 's, 'st, 'vs, 've, 'np, 'rv) vm_ops \<Rightarrow> FunctionCall list \<Rightarrow> FunctionCall list \<Rightarrow> ('np ExecutorActor \<times> 'db, unit) action" where
  "executor_reload vm pre post = (\<lambda>(ex, db).
     if mv_cost_table (ex_moveos ex) = None then
       (case and_then (vo_load_from_chain vm db (ex_root ex)) (\<lambda>gas_parameters. moveos_new vm gas_parameters pre post) of
          Inr moveos \<Rightarrow> (Inr (), ex\<lparr>ex_moveos := moveos\<rparr>, db)
        | Inl e \<Rightarrow> (Inl e, ex, db))
     else (Inr (), ex, db))"

definition executor_execute ::
    "('db, 'st) moveos_env \<Rightarrow> ('db, 's, 'st, 'vs, 've, 'np, 'rv) vm_ops \<Rightarrow> FunctionCall list \<Rightarrow> FunctionCall list \<Rightarrow>
     VerifiedMoveOSTransaction \<Rightarrow> ('np ExecutorActor \<times> 'db, 'st TransactionOutput \<times> 'st TransactionExecutionInfo) action" where
  "executor_execute env vm pre post tx =
     bind_act (lift_act (ctx_tx_hash (vt_ctx tx))) (\<lambda>tx_hash.
     bind_act (on_moveos (\<lambda>db. execute_only env vm db tx)) (\<lambda>(raw_output, _).
     bind_act (on_db (apply_transaction_output env raw_output)) (\<lambda>output.
     bind_act (on_db (handle_tx_output env tx_hash output)) (\<lambda>execution_info.
     bind_act (executor_reload vm pre post) (\<lambda>_.
     bind_act (modify_act (\<lambda>(ex, db). (ex\<lparr>ex_root := execution_root_metadata execution_info\<rparr>, db))) (\<lambda>_.
     return_act (output, execution_info)))))))"

definition executor_call_function ::
    "('db, 'st) moveos_env \<Rightarrow> ('db, 's, 'st, 'vs, 've, 'np, 'rv) vm_ops \<Rightarrow> TxContext \<Rightarrow> FunctionCall \<Rightarrow>
     'np ExecutorActor \<times> 'db \<Rightarrow> ('ve, 'rv) FunctionResult \<times> 'np ExecutorActor \<times> 'db" where
  "executor_call_function env vm ctx call = (\<lambda>(ex, db).
     case execute_readonly_function env vm db (ex_root ex) ctx call (ex_moveos ex) of
       (r, mv) \<Rightarrow> (r, ex\<lparr>ex_moveos := mv\<rparr>, db))"

definition executor_get_root :: "'np ExecutorActor \<Rightarrow> ObjectState result" where
  "executor_get_root ex = new_root (ex_root ex)"

end
