(* ===== verification/State_Refinement.thy ===== *)
theory State_Refinement
  imports State_Store Smt_Tree_Refinement
begin

text \<open>
  The state database implements a tree of objects. \<open>obj_tree\<close> is that tree, without the hashes that the
  metadata keeps; \<open>state_repr\<close> relates a stored object to it. Applying a change set acts on the tree as the
  reference \<open>apply_trees\<close> does, and every object that was stored before stays readable.
\<close>

section \<open>Trees of objects\<close>

datatype obj_tree = Obj_Tree (tree_meta: ObjectMeta) (tree_value: bytes) (tree_fields: "FieldKey \<Rightarrow> obj_tree option")

text \<open>Metadata without the hash of the fields.\<close>

definition plain :: "ObjectMeta \<Rightarrow> ObjectMeta" where
  "plain m = m\<lparr>om_state_root := None\<rparr>"

fun tree_at :: "obj_tree \<Rightarrow> ObjectID \<Rightarrow> obj_tree option" where
  "tree_at t [] = Some t"
| "tree_at t (k # ks) = (case tree_fields t k of None \<Rightarrow> None | Some t' \<Rightarrow> tree_at t' ks)"

text \<open>
  What a change does: a deletion removes the object, a value replaces the value, and the changes of the
  fields apply to the fields of the object, or to none when the metadata has the root of an empty tree.
\<close>

fun apply_tree :: "ObjectChange \<Rightarrow> obj_tree option \<Rightarrow> obj_tree option"
  and apply_trees :: "(FieldKey \<times> ObjectChange) list \<Rightarrow> (FieldKey \<Rightarrow> obj_tree option) \<Rightarrow> FieldKey \<Rightarrow> obj_tree option" where
  "apply_tree (ObjectChange metadata value flds) old =
     (let base = (if is_genesis metadata then Map.empty else case old of None \<Rightarrow> Map.empty | Some t \<Rightarrow> tree_fields t);
          fs = apply_trees flds base in
      case value of
        Some Delete \<Rightarrow> None
      | Some (New v) \<Rightarrow> Some (Obj_Tree (plain metadata) v fs)
      | Some (Modify v) \<Rightarrow> Some (Obj_Tree (plain metadata) v fs)
      | None \<Rightarrow> (case old of None \<Rightarrow> None | Some t \<Rightarrow> Some (Obj_Tree (plain metadata) (tree_value t) fs)))"
| "apply_trees [] base = base"
| "apply_trees ((k, c) # flds) base = (apply_trees flds base)(k := apply_tree c (base k))"

lemma apply_trees_at:
  "apply_trees flds base k = (case map_of flds k of None \<Rightarrow> base k | Some c \<Rightarrow> apply_tree c (base k))"
  by (induction flds) auto

section \<open>Stored objects\<close>

text \<open>
  An object of the database stands for a tree: its state root represents a map whose nodes are in \<open>Ns\<close>,
  and the objects of that map stand for the fields.
\<close>

inductive state_repr ::
    "(FieldKey, ObjectState) smt_env \<Rightarrow> (FieldKey, ObjectState) SmtNode set \<Rightarrow> node_bytes_reader \<Rightarrow> ObjectState \<Rightarrow> obj_tree \<Rightarrow> bool"
  for E Ns get where
  state_reprI: "represents E (get_node_option E get) (state_state_root s) m \<Longrightarrow> values_ok E m \<Longrightarrow> nodes E 64 m \<subseteq> Ns \<Longrightarrow>
    (\<forall>k. view E m k = None \<longrightarrow> f k = None) \<Longrightarrow>
    (\<forall>k s'. view E m k = Some s' \<longrightarrow> (\<exists>t. f k = Some t \<and> state_repr E Ns get s' t)) \<Longrightarrow>
    state_repr E Ns get s (Obj_Tree (plain (os_metadata s)) (os_value s) f)"

inductive_cases state_reprE: "state_repr E Ns get s t"

text \<open>The same, with the fields related as options.\<close>

lemma state_repr_iff:
  "state_repr E Ns get s t \<longleftrightarrow>
     tree_meta t = plain (os_metadata s) \<and> tree_value t = os_value s \<and>
     (\<exists>m. represents E (get_node_option E get) (state_state_root s) m \<and> values_ok E m \<and> nodes E 64 m \<subseteq> Ns \<and>
        (\<forall>k. rel_option (state_repr E Ns get) (view E m k) (tree_fields t k)))"
  (is "?L \<longleftrightarrow> ?R")
proof
  assume ?L
  then show ?R
  proof (rule state_reprE)
    fix m f
    assume t: "t = Obj_Tree (plain (os_metadata s)) (os_value s) f"
      and m: "represents E (get_node_option E get) (state_state_root s) m" "values_ok E m" "nodes E 64 m \<subseteq> Ns"
        "\<forall>k. view E m k = None \<longrightarrow> f k = None"
        "\<forall>k s'. view E m k = Some s' \<longrightarrow> (\<exists>t. f k = Some t \<and> state_repr E Ns get s' t)"
    have "rel_option (state_repr E Ns get) (view E m k) (f k)" for k
      using m(4,5) by (cases "view E m k") (simp, metis option.rel_inject(2))
    with t m(1-3) show ?R by auto
  qed
next
  assume ?R
  then obtain m where t: "tree_meta t = plain (os_metadata s)" "tree_value t = os_value s"
      and m: "represents E (get_node_option E get) (state_state_root s) m" "values_ok E m" "nodes E 64 m \<subseteq> Ns"
        "\<And>k. rel_option (state_repr E Ns get) (view E m k) (tree_fields t k)" by blast
  have "state_repr E Ns get s (Obj_Tree (plain (os_metadata s)) (os_value s) (tree_fields t))"
  proof (rule state_reprI [OF m(1-3)]; intro allI impI)
    show "tree_fields t k = None" if "view E m k = None" for k using m(4) [of k] that by simp
    show "\<exists>t'. tree_fields t k = Some t' \<and> state_repr E Ns get s' t'" if "view E m k = Some s'" for k s'
      using m(4) [of k] that by (cases "tree_fields t k") auto
  qed
  then show ?L using t by (cases t) simp
qed

text \<open>The fields of an object depend on its state root only.\<close>

lemma state_repr_moved:
  assumes "state_repr E Ns get s t" and "state_state_root s' = state_state_root s"
  shows "state_repr E Ns get s' (Obj_Tree (plain (os_metadata s')) (os_value s') (tree_fields t))"
  using assms unfolding state_repr_iff [of _ _ _ s] state_repr_iff [of _ _ _ s'] by auto

text \<open>A reader that holds at least the same nodes.\<close>

definition extends ::
    "(FieldKey, ObjectState) smt_env \<Rightarrow> (FieldKey, ObjectState) SmtNode set \<Rightarrow> HashValue set \<Rightarrow> node_bytes_reader \<Rightarrow> node_bytes_reader \<Rightarrow> bool" where
  "extends E Ns ks get get' \<longleftrightarrow> (\<forall>N \<in> Ns. holds E get N \<or> nhash E N \<in> ks \<longrightarrow> holds E get' N)"

lemma extends_mono: "extends E Ns ks get get' \<Longrightarrow> ks' \<subseteq> ks \<Longrightarrow> extends E Ns ks' get get'"
  by (auto simp: extends_def)

lemma represents_extends:
  assumes "represents E (get_node_option E get) r m" and "nodes E 64 m \<subseteq> Ns" and "extends E Ns ks get get'"
  shows "represents E (get_node_option E get') r m"
  using assms unfolding represents_holds extends_def by blast

lemma state_repr_extends:
  assumes "state_repr E Ns get s t" and "extends E Ns ks get get'"
  shows "state_repr E Ns get' s t"
  using assms(1)
proof (induction rule: state_repr.induct)
  case (state_reprI s m f)
  show ?case
    by (rule state_repr.state_reprI [OF represents_extends [OF state_reprI(1,3) assms(2)] state_reprI(2,3)])
      (use state_reprI(4,5) in blast)+
qed

text \<open>A root has one map among the nodes of \<open>Ns\<close>.\<close>

lemma represents_unique:
  assumes "hash_free E Ns" and "represents E rd r m" and "represents E rd' r m'" and "nodes E 64 m \<subseteq> Ns" and "nodes E 64 m' \<subseteq> Ns"
  shows "m = m'"
proof -
  have ok: "entries_ok E m" "entries_ok E m'" and h: "nhash E (canon E 64 m) = nhash E (canon E 64 m')"
    using assms(2,3) by (auto simp: represents_def)
  have ph: "nhash E (canon E 64 s) \<noteq> SPARSE_MERKLE_PLACEHOLDER_HASH" if "s \<noteq> Map.empty" "nodes E 64 s \<subseteq> Ns" for s
    using hash_free_ph [OF assms(1)] canon_in_nodes [OF that(1)] that(2) by blast
  show ?thesis
  proof (cases "m = Map.empty \<or> m' = Map.empty")
    case True
    then show ?thesis using h ph [of m] ph [of m'] assms(4,5) by (cases "m = Map.empty"; cases "m' = Map.empty") auto
  next
    case False
    then have "canon E 64 m = canon E 64 m'"
      using hash_free_eq [OF assms(1)] h canon_in_nodes assms(4,5) by blast
    then show ?thesis
      using canon_inject [OF assms(1) position_ok_root [OF ok(1)] position_ok_root [OF ok(2)] assms(4,5)] False by blast
  qed
qed

lemma genesis_empty:
  assumes "hash_free E Ns" and "represents E rd GENESIS_STATE_ROOT m" and "nodes E 64 m \<subseteq> Ns"
  shows "m = Map.empty"
proof (rule ccontr)
  assume "m \<noteq> Map.empty"
  then have "nhash E (canon E 64 m) \<noteq> SPARSE_MERKLE_PLACEHOLDER_HASH"
    using hash_free_ph [OF assms(1)] canon_in_nodes [of m] assms(3) by blast
  with assms(2) show False by (simp add: represents_def GENESIS_STATE_ROOT_def)
qed

lemma genesis_represents: "represents E (get_node_option E get) GENESIS_STATE_ROOT Map.empty"
  by (simp add: represents_holds GENESIS_STATE_ROOT_def entries_ok_def)

section \<open>What the database relies on\<close>

text \<open>
  RocksDB keeps its contract on the column family of the nodes; BCS round-trips and does not fail on
  pairs of a hash and bytes; a hash has 32 bytes.
\<close>

definition state_env_ok :: "'db state_env \<Rightarrow> ('db \<Rightarrow> db_contents) \<Rightarrow> bool" where
  "state_env_ok env contents \<longleftrightarrow>
     rocks_contract (se_rocks env) {STATE_NODE_COLUMN_FAMILY_NAME} contents \<and>
     value_codec (state_smt env) \<and> kv_codec (state_smt env) \<and> kv_total (state_smt env) \<and> digest_ok (state_smt env)"

locale state_db =
  fixes env :: "'db state_env" and contents :: "'db \<Rightarrow> db_contents"
  assumes env_ok: "state_env_ok env contents"
begin

lemma smt_ok: "smt_codecs (state_smt env)" "kv_total (state_smt env)" "digest_ok (state_smt env)"
  using env_ok by (simp_all add: state_env_ok_def smt_codecs_def key_codec_def state_smt_def hash_value_length)

lemma node_get_eq: "node_get env db h = Inr (contents db STATE_NODE_COLUMN_FAMILY_NAME h)"
  using env_ok
  by (simp add: state_env_ok_def rocks_contract_def node_get_def kv_get_raw_def rocks_get_def get_cf_handle_def assert_that_def
      NodeDBStore_def derive_store_def)

lemma node_write_eq:
  "\<exists>db'. node_write_nodes env ns db = (Inr (), db') \<and>
    contents db' = foldl apply_write (contents db) (map (\<lambda>(k, v). (STATE_NODE_COLUMN_FAMILY_NAME, k, Value v)) ns)"
proof -
  let ?ws = "map (\<lambda>(k, v). (STATE_NODE_COLUMN_FAMILY_NAME, k, Value v)) ns"
  have "fst ` set ?ws \<subseteq> {STATE_NODE_COLUMN_FAMILY_NAME}" by auto
  then obtain db' where "rk_write_opt (se_rocks env) False ?ws db = (Inr (), db')" "contents db' = foldl apply_write (contents db) ?ws"
    using env_ok unfolding state_env_ok_def rocks_contract_def by blast
  moreover have "rk_cf_handle (se_rocks env) db STATE_NODE_COLUMN_FAMILY_NAME"
    using env_ok by (simp add: state_env_ok_def rocks_contract_def)
  ultimately show ?thesis
    by (auto simp: node_write_nodes_def kv_write_batch_raw_def rocks_write_batch_def get_cf_handle_def assert_that_def
        NodeDBStore_def derive_store_def new_with_rows_def comp_def split_def)
qed

end

lemma foldl_writes:
  assumes "distinct (map fst ns)"
  shows "foldl apply_write m (map (\<lambda>(k, v). (cf, k, Value v)) ns) cf h = (case map_of ns h of Some v \<Rightarrow> Some v | None \<Rightarrow> m cf h)"
  using assms
proof (induction ns arbitrary: m)
  case (Cons x ns)
  obtain k v where x: "x = (k, v)" by fastforce
  let ?m = "apply_write m (cf, k, Value v)"
  have k: "map_of ns k = None" using Cons.prems by (simp add: x map_of_eq_None_iff)
  have w: "?m cf h = (if h = k then Some v else m cf h)" by simp
  have "foldl apply_write ?m (map (\<lambda>(k, v). (cf, k, Value v)) ns) cf h = (case map_of ns h of Some v \<Rightarrow> Some v | None \<Rightarrow> ?m cf h)"
    using Cons.IH [of ?m] Cons.prems by (simp only: list.map distinct.simps simp_thms)
  then show ?case unfolding w using k by (simp only: x list.map foldl.simps prod.case) (simp split: option.split)
qed simp

sublocale state_db \<subseteq> state_nodes: node_store "node_get env" "node_write_nodes env"
proof unfold_locales
  show "\<exists>s'. node_write_nodes env ns s = (Inr (), s')" for ns s using node_write_eq by blast
  fix ns s s' h
  assume d: "distinct (map fst ns)" and w: "node_write_nodes env ns s = (Inr (), s')"
  then have "contents s' = foldl apply_write (contents s) (map (\<lambda>(k, v). (STATE_NODE_COLUMN_FAMILY_NAME, k, Value v)) ns)"
    using node_write_eq [of ns s] by auto
  then show "node_get env s' h = (case map_of ns h of Some bs \<Rightarrow> Inr (Some bs) | None \<Rightarrow> node_get env s h)"
    using foldl_writes [OF d] by (simp add: node_get_eq split: option.splits)
qed

section \<open>Applying changes\<close>

text \<open>The field of a stored object; an object that is not there has no fields.\<close>

definition field_of :: "'db state_env \<Rightarrow> 'db \<Rightarrow> ObjectState option \<Rightarrow> FieldKey \<Rightarrow> ObjectState option" where
  "field_of env db base k =
     (case base of None \<Rightarrow> None | Some s \<Rightarrow> (case get_field_at env db (state_state_root s) k of Inr r \<Rightarrow> r | Inl _ \<Rightarrow> None))"

text \<open>
  What the VM promises of a change: metadata without a value is of an object that is there and found
  by its identifier, and its state root is the one that is stored, or that of an object with no fields.
\<close>

fun change_ok :: "'db state_env \<Rightarrow> 'db \<Rightarrow> ObjectMeta \<Rightarrow> ObjectState option \<Rightarrow> ObjectChange \<Rightarrow> bool"
  and changes_ok :: "'db state_env \<Rightarrow> 'db \<Rightarrow> ObjectMeta \<Rightarrow> ObjectState option \<Rightarrow> (FieldKey \<times> ObjectChange) list \<Rightarrow> bool" where
  "change_ok env db root old (ObjectChange metadata value flds) \<longleftrightarrow>
     (value = None \<longrightarrow> old \<noteq> None \<and> get_object env db root (om_id metadata) = Inr old) \<and>
     (value = Some Delete \<or>
        (is_genesis metadata \<or> map_option state_state_root old = Some (meta_state_root metadata)) \<and>
        distinct (map fst flds) \<and> changes_ok env db root (if is_genesis metadata then None else old) flds)"
| "changes_ok env db root base [] \<longleftrightarrow> True"
| "changes_ok env db root base ((k, c) # flds) \<longleftrightarrow>
     change_ok env db root (field_of env db base k) c \<and> changes_ok env db root base flds"

text \<open>The updates of field trees that a change makes, in order.\<close>

definition field_updates_of :: "'db state_env \<Rightarrow> 'db \<Rightarrow> ObjectMeta \<Rightarrow> HashValue \<Rightarrow> (FieldKey \<times> ObjectChange) list \<Rightarrow> (HashValue \<times> field_updates) list" where
  "field_updates_of env db root r flds =
     (case apply_field_changes env db root [] us_new flds of Inr (_, us, _) \<Rightarrow> [(r, us)] | Inl _ \<Rightarrow> [])"

fun change_updates :: "'db state_env \<Rightarrow> 'db \<Rightarrow> ObjectMeta \<Rightarrow> ObjectChange \<Rightarrow> (HashValue \<times> field_updates) list"
  and changes_updates :: "'db state_env \<Rightarrow> 'db \<Rightarrow> ObjectMeta \<Rightarrow> (FieldKey \<times> ObjectChange) list \<Rightarrow> (HashValue \<times> field_updates) list" where
  "change_updates env db root (ObjectChange metadata value flds) =
     (if value = Some Delete then []
      else changes_updates env db root flds @ field_updates_of env db root (meta_state_root metadata) flds)"
| "changes_updates env db root [] = []"
| "changes_updates env db root ((k, c) # flds) = change_updates env db root c @ changes_updates env db root flds"

text \<open>
  The states of an update can be encoded; the update of a represented tree stays within the nodes of
  \<open>Ns\<close>, and no value has the hash of another one.
\<close>

definition update_covered ::
    "(FieldKey, ObjectState) smt_env \<Rightarrow> (FieldKey, ObjectState) SmtNode set \<Rightarrow> node_bytes_reader \<Rightarrow> HashValue \<times> field_updates \<Rightarrow> bool" where
  "update_covered E Ns get = (\<lambda>(r, us). \<exists>kvs. into_updates E us = Inr kvs \<and> (\<forall>m.
     represents E (get_node_option E get) r m \<and> nodes E 64 m \<subseteq> Ns \<and> values_ok E m \<longrightarrow>
     batch_nodes E kvs m \<subseteq> Ns \<and> values_free E kvs m))"

text \<open>The nodes that are collected have no effect on the update set.\<close>

lemma apply_collects:
  "apply_object_change env db root ns0 us key c = Inr (ns, us', c') \<Longrightarrow>
     \<exists>ns'. apply_object_change env db root nodes' us key c = Inr (ns', us', c')"
  "apply_field_changes env db root ns0 us flds = Inr (ns, us', flds') \<Longrightarrow>
     \<exists>ns'. apply_field_changes env db root nodes' us flds = Inr (ns', us', flds')"
proof (induction env db root ns0 us key c and env db root ns0 us flds arbitrary: ns us' c' nodes' and ns us' flds' nodes'
    rule: apply_object_change_apply_field_changes.induct)
  case (1 env db root ns0 update_set fkey metadata val flds)
  obtain changed where ch: "changed_object env db root metadata val = Inr changed" using 1(2) by auto
  show ?case
  proof (cases changed)
    case None
    then show ?thesis using 1(2) ch by auto
  next
    case (Some obj)
    then obtain ns1 us1 flds1 where f: "apply_field_changes env db root ns0 us_new flds = Inr (ns1, us1, flds1)"
      using 1(2) ch by auto
    obtain ns2 where "apply_field_changes env db root nodes' us_new flds = Inr (ns2, us1, flds1)"
      using 1(1) [OF ch Some f] by blast
    then show ?thesis using 1(2) ch Some f by (auto simp: Let_def)
  qed
next
  case (2 env db root ns0 update_set)
  then show ?case by simp
next
  case (3 env db root ns0 update_set key change flds)
  obtain ns1 us1 c1 ns2 flds2 where a: "apply_object_change env db root ns0 update_set key change = Inr (ns1, us1, c1)"
      "apply_field_changes env db root ns1 us1 flds = Inr (ns2, us', flds2)" "flds' = (key, c1) # flds2"
    using 3(3) by auto
  obtain ns1' where b: "apply_object_change env db root nodes' update_set key change = Inr (ns1', us1, c1)"
    using 3(1) [OF a(1)] by blast
  obtain ns2' where "apply_field_changes env db root ns1' us1 flds = Inr (ns2', us', flds2)"
    using 3(2) [OF a(1) refl refl a(2)] by blast
  with a(3) b show ?case by simp
qed

text \<open>Appending sound nodes.\<close>

lemma set_update_subset: "set (AList.update k v al) \<subseteq> insert (k, v) (set al)"
  by (induction al) auto

lemma append_nodes_sound:
  assumes "sound_nodes E Ns ns" and "sound_nodes E Ns ns'"
  shows "sound_nodes E Ns (append_nodes ns ns')" and "fst ` set (append_nodes ns ns') = fst ` set ns \<union> fst ` set ns'"
proof -
  let ?ok = "\<lambda>(k, bs). \<exists>N. k = nhash E N \<and> bs = enc E N \<and> node_ok E N \<and> (N = Null \<or> N \<in> Ns)"
  have "distinct (map fst (append_nodes ns ns')) \<and> Ball (set (append_nodes ns ns')) ?ok \<and>
      fst ` set (append_nodes ns ns') = fst ` set ns \<union> fst ` set ns'"
    if "distinct (map fst ns)" "Ball (set ns) ?ok" "Ball (set ns') ?ok"
    using that
  proof (induction ns' arbitrary: ns)
    case (Cons x ns')
    obtain k v where x: "x = (k, v)" by fastforce
    have "Ball (set (AList.update k v ns)) ?ok" using Cons.prems(2,3) set_update_subset [of k v ns] by (auto simp: x)
    then show ?case
      using Cons.IH [OF distinct_update [OF Cons.prems(1), of k v]] Cons.prems(3) by (auto simp: x append_nodes_def dom_update)
  qed (simp add: append_nodes_def)
  then show "sound_nodes E Ns (append_nodes ns ns')" and "fst ` set (append_nodes ns ns') = fst ` set ns \<union> fst ` set ns'"
    using assms by (simp_all add: sound_nodes_def)
qed

lemma map_of_rev_distinct: "distinct (map fst xs) \<Longrightarrow> map_of (rev xs) = map_of xs"
proof (induction xs)
  case (Cons x xs)
  then have "map_of xs (fst x) = None" by (simp add: map_of_eq_None_iff)
  with Cons show ?case by (auto simp: fun_eq_iff map_add_def split: option.split)
qed simp

text \<open>The update set of the fields, key by key, agrees with the reference.\<close>

lemma puts_related:
  assumes "distinct (map fst flds)" and "list_all2 (\<lambda>(k, c) r. R r (apply_tree c (baseT k))) flds rs" and "\<And>k. R (old k) (baseT k)"
  shows "R (case map_of (us_updates (us_puts (zip (map fst flds) rs) us_new)) k of None \<Rightarrow> old k | Some v \<Rightarrow> v) (apply_trees flds baseT k)"
proof -
  have len: "length rs = length flds" using list_all2_lengthD [OF assms(2)] by simp
  have "map_of (us_updates (us_puts (zip (map fst flds) rs) us_new)) = map_of (rev (zip (map fst flds) rs))"
    using bt.insert_all(2) [of "[]" "zip (map fst flds) rs"] by (simp add: us_puts_def us_new_def)
  also have "\<dots> = map_of (zip (map fst flds) rs)"
    using assms(1) len by (intro map_of_rev_distinct) simp
  finally have m: "map_of (us_updates (us_puts (zip (map fst flds) rs) us_new)) = map_of (zip (map fst flds) rs)" .
  show ?thesis unfolding m apply_trees_at using assms(2)
  proof (induction rule: list_all2_induct)
    case (Cons x xs y ys)
    then show ?case by (cases x) auto
  qed (simp add: assms(3))
qed

section \<open>Reading objects\<close>

lemma tree_at_append: "tree_at t (ks @ [k]) = (case tree_at t ks of None \<Rightarrow> None | Some t' \<Rightarrow> tree_fields t' k)"
  by (induction t ks rule: tree_at.induct) (auto split: option.splits)

context state_db begin

abbreviation smt :: "(FieldKey, ObjectState) smt_env" where
  "smt \<equiv> state_smt env"

lemma get_field_at_view:
  assumes "hash_free smt Ns" and "represents smt (get_node_option smt (node_get env db)) r m" and "values_ok smt m" and "nodes smt 64 m \<subseteq> Ns"
  shows "get_field_at env db r k = Inr (view smt m k)"
proof (cases "r = GENESIS_STATE_ROOT")
  case True
  then have "m = Map.empty" using genesis_empty [OF assms(1)] assms(2,4) by simp
  with True show ?thesis by (simp add: get_field_at_def view_def)
next
  case False
  have "hash_value (key_merkle_hash smt k)"
    by (simp add: key_merkle_hash_def state_smt_def hash_value_length)
  with False show ?thesis using smt_get_eq [OF assms(2) _ assms(3)] by (simp add: get_field_at_def)
qed

lemma get_field_at_repr:
  assumes "hash_free smt Ns" and "state_repr smt Ns (node_get env db) s t"
  shows "\<exists>r. get_field_at env db (state_state_root s) k = Inr r \<and> rel_option (state_repr smt Ns (node_get env db)) r (tree_fields t k)"
  using assms(2) get_field_at_view [OF assms(1)] unfolding state_repr_iff [of _ _ _ s] by blast

lemma get_object_repr:
  assumes "hash_free smt Ns" and "new_root root = Inr s" and "state_repr smt Ns (node_get env db) s t"
  shows "\<exists>r. get_object env db root oid = Inr r \<and> rel_option (state_repr smt Ns (node_get env db)) r (tree_at t oid)"
proof (induction oid rule: rev_induct)
  case Nil
  then show ?case using assms(2,3) by (subst get_object.simps) (simp add: is_root_def)
next
  case (snoc k ks)
  then obtain r where r: "get_object env db root ks = Inr r" "rel_option (state_repr smt Ns (node_get env db)) r (tree_at t ks)" by blast
  have step: "get_object env db root (ks @ [k]) =
      (case r of Some p \<Rightarrow> get_field_at env db (state_state_root p) k | None \<Rightarrow> Inr None)"
    using r(1) by (subst get_object.simps) (simp add: is_root_def field_key_def object_id_parent_def expect_def)
  show ?case
  proof (cases r)
    case None
    then show ?thesis using r(2) step by (simp add: tree_at_append)
  next
    case (Some p)
    then obtain t' where "tree_at t ks = Some t'" "state_repr smt Ns (node_get env db) p t'" using r(2) by (cases "tree_at t ks") auto
    then show ?thesis using Some step get_field_at_repr [OF assms(1), of db p t' k] by (simp add: tree_at_append)
  qed
qed

lemma update_fields_repr:
  assumes "hash_free smt Ns" and "represents smt (get_node_option smt (node_get env db)) r m" and "values_ok smt m"
    and "nodes smt 64 m \<subseteq> Ns" and "us_wf us" and "update_covered smt Ns (node_get env db) (r, us)"
  shows "\<exists>cs m'. update_fields env db r us = Inr cs \<and> sound_nodes smt Ns (cs_nodes cs) \<and> nodes smt 64 m' \<subseteq> Ns \<and> values_ok smt m' \<and>
    (\<forall>get'. extends smt Ns (fst ` set (cs_nodes cs)) (node_get env db) get' \<longrightarrow>
       represents smt (get_node_option smt get') (cs_state_root cs) m') \<and>
    (\<forall>k. view smt m' k = (case map_of (us_updates us) k of None \<Rightarrow> view smt m k | Some v \<Rightarrow> v))"
proof -
  obtain kvs where kvs: "into_updates smt us = Inr kvs" and cov: "batch_nodes smt kvs m \<subseteq> Ns" "values_free smt kvs m"
    using assms(2-4,6) by (auto simp: update_covered_def)
  let ?m = "upds smt kvs m"
  have last: "nodes smt 64 ?m \<subseteq> Ns" using cov(1) batch_nodes_last by blast
  obtain cs where cs: "smt_updates smt (node_get env db) r us = Inr cs" "cs_state_root cs = nhash smt (canon smt 64 ?m)"
      "entries_ok smt ?m" "values_ok smt ?m" "sound_nodes smt (nodes smt 64 ?m) (cs_nodes cs)"
      "\<forall>N \<in> nodes smt 64 ?m. nhash smt N \<in> fst ` set (cs_nodes cs) \<or> N \<in> nodes smt 64 m"
    using smt_updates_eq [OF smt_ok assms(2,3,5) kvs hash_free_subset [OF assms(1) cov(1)]] by blast
  have "represents smt (get_node_option smt get') (cs_state_root cs) ?m"
    if "extends smt Ns (fst ` set (cs_nodes cs)) (node_get env db) get'" for get'
    using that cs(2,3,6) last assms(2) unfolding represents_holds extends_def by blast
  with cs(1,4) sound_nodes_mono [OF cs(5) last] last view_updates [OF smt_ok(1) assms(5) kvs assms(3) cov(2)]
  show ?thesis unfolding update_fields_def smt_puts_def by blast
qed

text \<open>The fields a change starts from.\<close>

lemma base_fields:
  assumes "hash_free smt Ns" and "rel_option (state_repr smt Ns (node_get env db)) old oldT"
    and "is_genesis metadata \<or> map_option state_state_root old = Some (meta_state_root metadata)"
    and "base = (if is_genesis metadata then None else old)"
    and "baseT = (if is_genesis metadata then Map.empty else case oldT of None \<Rightarrow> Map.empty | Some t \<Rightarrow> tree_fields t)"
  shows "\<exists>m. represents smt (get_node_option smt (node_get env db)) (meta_state_root metadata) m \<and> values_ok smt m \<and> nodes smt 64 m \<subseteq> Ns \<and>
    (\<forall>k. view smt m k = field_of env db base k \<and> rel_option (state_repr smt Ns (node_get env db)) (field_of env db base k) (baseT k))"
proof (cases "is_genesis metadata")
  case True
  then have "meta_state_root metadata = GENESIS_STATE_ROOT" by (auto simp: is_genesis_def meta_state_root_def split: option.splits)
  then show ?thesis
    using True assms(4,5) genesis_represents by (intro exI [of _ Map.empty]) (simp add: values_ok_def view_def field_of_def)
next
  case False
  then obtain s t where s: "old = Some s" "oldT = Some t" "state_state_root s = meta_state_root metadata" "state_repr smt Ns (node_get env db) s t"
    using assms(2,3) by (cases old; cases oldT) auto
  then obtain m where m: "represents smt (get_node_option smt (node_get env db)) (meta_state_root metadata) m" "values_ok smt m" "nodes smt 64 m \<subseteq> Ns"
      "\<And>k. rel_option (state_repr smt Ns (node_get env db)) (view smt m k) (tree_fields t k)"
    unfolding state_repr_iff [of _ _ _ s] by auto
  have "field_of env db base k = view smt m k" for k
    using get_field_at_view [OF assms(1) m(1-3), of k] False s assms(4) by (simp add: field_of_def)
  then show ?thesis using m False s(2) assms(5) by (intro exI [of _ m]) simp
qed

text \<open>The tree of the fields after their changes.\<close>

lemma fields_written:
  assumes "hash_free smt Ns" and "represents smt (get_node_option smt (node_get env db)) r m" and "values_ok smt m" and "nodes smt 64 m \<subseteq> Ns"
    and "\<And>k. view smt m k = field_of env db base k \<and> rel_option (state_repr smt Ns (node_get env db)) (field_of env db base k) (baseT k)"
    and "distinct (map fst flds)" and "us = us_puts (zip (map fst flds) rs) us_new" and "update_covered smt Ns (node_get env db) (r, us)"
    and "\<And>get'. extends smt Ns K (node_get env db) get' \<Longrightarrow>
      list_all2 (\<lambda>(k, c) r. rel_option (state_repr smt Ns get') r (apply_tree c (baseT k))) flds rs"
  shows "\<exists>cs. update_fields env db r us = Inr cs \<and> sound_nodes smt Ns (cs_nodes cs) \<and>
    (\<forall>get' s. extends smt Ns (K \<union> fst ` set (cs_nodes cs)) (node_get env db) get' \<longrightarrow> state_state_root s = cs_state_root cs \<longrightarrow>
       state_repr smt Ns get' s (Obj_Tree (plain (os_metadata s)) (os_value s) (apply_trees flds baseT)))"
proof -
  have "us_wf us" unfolding assms(7) by (intro us_wf_ops)
  from update_fields_repr [OF assms(1-4) this assms(8)]
  obtain cs m' where cs: "update_fields env db r us = Inr cs" "sound_nodes smt Ns (cs_nodes cs)" "nodes smt 64 m' \<subseteq> Ns" "values_ok smt m'"
      "\<And>get'. extends smt Ns (fst ` set (cs_nodes cs)) (node_get env db) get' \<Longrightarrow> represents smt (get_node_option smt get') (cs_state_root cs) m'"
      "\<And>k. view smt m' k = (case map_of (us_updates us) k of None \<Rightarrow> view smt m k | Some v \<Rightarrow> v)" by blast
  have "state_repr smt Ns get' s (Obj_Tree (plain (os_metadata s)) (os_value s) (apply_trees flds baseT))"
    if e: "extends smt Ns (K \<union> fst ` set (cs_nodes cs)) (node_get env db) get'" and s: "state_state_root s = cs_state_root cs" for get' s
  proof -
    have e1: "extends smt Ns K (node_get env db) get'" and e2: "extends smt Ns (fst ` set (cs_nodes cs)) (node_get env db) get'"
      using extends_mono [OF e] by auto
    have old: "rel_option (state_repr smt Ns get') (view smt m k) (baseT k)" for k
      using assms(5) [of k] state_repr_extends [OF _ e1] by (auto elim: option.rel_mono_strong)
    have "rel_option (state_repr smt Ns get') (view smt m' k) (apply_trees flds baseT k)" for k
      using puts_related [of flds "rel_option (state_repr smt Ns get')" baseT rs "view smt m", OF assms(6) assms(9) [OF e1] old]
      by (simp add: cs(6) assms(7))
    with cs(3,4) cs(5) [OF e2] s show ?thesis by (subst state_repr_iff) auto
  qed
  with cs(1,2) show ?thesis by blast
qed

lemma changed_object_eq:
  assumes "change_ok env db root old (ObjectChange metadata val flds)"
  shows "changed_object env db root metadata val =
    Inr (case val of
      Some Delete \<Rightarrow> None
    | Some (New v) \<Rightarrow> Some (object_state_new metadata v)
    | Some (Modify v) \<Rightarrow> Some (object_state_new metadata v)
    | None \<Rightarrow> map_option (\<lambda>s. s\<lparr>os_metadata := metadata\<rparr>) old)"
  using assms by (auto simp: changed_object_def ok_or_def split: option.split Op.split)

text \<open>The simulation: a change of an object and of its fields acts on the trees as the reference does.\<close>

definition simulates :: "(FieldKey, ObjectState) SmtNode set \<Rightarrow> 'db \<Rightarrow> ObjectMeta \<Rightarrow> ObjectChange \<Rightarrow> bool" where
  "simulates Ns db root c \<longleftrightarrow> (\<forall>ns us key old oldT. sound_nodes smt Ns ns \<longrightarrow> change_ok env db root old c \<longrightarrow>
     rel_option (state_repr smt Ns (node_get env db)) old oldT \<longrightarrow>
     (\<forall>u \<in> set (change_updates env db root c). update_covered smt Ns (node_get env db) u) \<longrightarrow>
     (\<exists>ns' r c'. apply_object_change env db root ns us key c = Inr (ns', us\<lparr>us_updates := bt_insert key r (us_updates us)\<rparr>, c') \<and>
       sound_nodes smt Ns ns' \<and> fst ` set ns \<subseteq> fst ` set ns' \<and>
       (\<forall>get'. extends smt Ns (fst ` set ns') (node_get env db) get' \<longrightarrow> rel_option (state_repr smt Ns get') r (apply_tree c oldT))))"

lemma fields_simulated:
  assumes "\<forall>c \<in> snd ` set flds. simulates Ns db root c" and "sound_nodes smt Ns ns" and "changes_ok env db root base flds"
    and "\<And>k. rel_option (state_repr smt Ns (node_get env db)) (field_of env db base k) (baseT k)"
    and "\<forall>u \<in> set (changes_updates env db root flds). update_covered smt Ns (node_get env db) u"
  shows "\<exists>ns' rs flds'. apply_field_changes env db root ns us flds = Inr (ns', us_puts (zip (map fst flds) rs) us, flds') \<and>
    sound_nodes smt Ns ns' \<and> fst ` set ns \<subseteq> fst ` set ns' \<and>
    (\<forall>get'. extends smt Ns (fst ` set ns') (node_get env db) get' \<longrightarrow>
       list_all2 (\<lambda>(k, c) r. rel_option (state_repr smt Ns get') r (apply_tree c (baseT k))) flds rs)"
  using assms(1-3,5)
proof (induction flds arbitrary: ns us)
  case Nil
  then show ?case by (auto simp: us_puts_def)
next
  case (Cons x flds)
  obtain k c where x: "x = (k, c)" by fastforce
  have c: "simulates Ns db root c" using Cons.prems(1) by (simp add: x)
  have ok: "change_ok env db root (field_of env db base k) c" "changes_ok env db root base flds" using Cons.prems(3) by (simp_all add: x)
  have cov: "\<forall>u \<in> set (change_updates env db root c). update_covered smt Ns (node_get env db) u"
      "\<forall>u \<in> set (changes_updates env db root flds). update_covered smt Ns (node_get env db) u"
    using Cons.prems(4) by (simp_all add: x)
  obtain ns1 r c1 where a: "apply_object_change env db root ns us k c = Inr (ns1, us\<lparr>us_updates := bt_insert k r (us_updates us)\<rparr>, c1)"
      "sound_nodes smt Ns ns1" "fst ` set ns \<subseteq> fst ` set ns1"
      "\<And>get'. extends smt Ns (fst ` set ns1) (node_get env db) get' \<Longrightarrow> rel_option (state_repr smt Ns get') r (apply_tree c (baseT k))"
    using c Cons.prems(2) ok(1) assms(4) [of k] cov(1) unfolding simulates_def by meson
  have "\<forall>c \<in> snd ` set flds. simulates Ns db root c" using Cons.prems(1) by simp
  from Cons.IH [OF this a(2) ok(2) cov(2), where us = "us\<lparr>us_updates := bt_insert k r (us_updates us)\<rparr>"]
  obtain ns2 rs flds2 where b: "apply_field_changes env db root ns1 (us\<lparr>us_updates := bt_insert k r (us_updates us)\<rparr>) flds =
        Inr (ns2, us_puts (zip (map fst flds) rs) (us\<lparr>us_updates := bt_insert k r (us_updates us)\<rparr>), flds2)"
      "sound_nodes smt Ns ns2" "fst ` set ns1 \<subseteq> fst ` set ns2"
      "\<And>get'. extends smt Ns (fst ` set ns2) (node_get env db) get' \<Longrightarrow>
         list_all2 (\<lambda>(k, c) r. rel_option (state_repr smt Ns get') r (apply_tree c (baseT k))) flds rs" by blast
  have "apply_field_changes env db root ns us (x # flds) = Inr (ns2, us_puts (zip (map fst (x # flds)) (r # rs)) us, (k, c1) # flds2)"
    using a(1) b(1) by (simp add: x us_puts_def)
  moreover have "list_all2 (\<lambda>(k, c) r. rel_option (state_repr smt Ns get') r (apply_tree c (baseT k))) (x # flds) (r # rs)"
    if "extends smt Ns (fst ` set ns2) (node_get env db) get'" for get'
    using a(4) [OF extends_mono [OF that b(3)]] b(4) [OF that] by (simp add: x)
  ultimately show ?case
    using a(3) b(2,3) by (intro exI [of _ ns2] exI [of _ "r # rs"] exI [of _ "(k, c1) # flds2"] conjI allI impI) auto
qed

lemma simulated:
  assumes "hash_free smt Ns"
  shows "simulates Ns db root c"
proof (induction c)
  case (ObjectChange metadata val flds)
  have flds: "\<forall>c \<in> snd ` set flds. simulates Ns db root c" using ObjectChange by (auto intro: snds.intros)
  show ?case
    unfolding simulates_def
  proof (intro allI impI)
    fix ns us key old oldT
    assume ns: "sound_nodes smt Ns ns" and ok: "change_ok env db root old (ObjectChange metadata val flds)"
      and old: "rel_option (state_repr smt Ns (node_get env db)) old oldT"
      and cov: "\<forall>u \<in> set (change_updates env db root (ObjectChange metadata val flds)). update_covered smt Ns (node_get env db) u"
    note ch = changed_object_eq [OF ok]
    show "\<exists>ns' r c'. apply_object_change env db root ns us key (ObjectChange metadata val flds) =
          Inr (ns', us\<lparr>us_updates := bt_insert key r (us_updates us)\<rparr>, c') \<and>
        sound_nodes smt Ns ns' \<and> fst ` set ns \<subseteq> fst ` set ns' \<and>
        (\<forall>get'. extends smt Ns (fst ` set ns') (node_get env db) get' \<longrightarrow>
           rel_option (state_repr smt Ns get') r (apply_tree (ObjectChange metadata val flds) oldT))"
    proof (cases "val = Some Delete")
      case True
      then show ?thesis using ch ns by (auto simp: us_remove_def)
    next
      case False
      define obj where "obj = (case val of Some (New v) \<Rightarrow> object_state_new metadata v | Some (Modify v) \<Rightarrow> object_state_new metadata v
        | _ \<Rightarrow> (the old)\<lparr>os_metadata := metadata\<rparr>)"
      have obj: "changed_object env db root metadata val = Inr (Some obj)" "os_metadata obj = metadata"
        using ch False ok by (auto simp: obj_def object_state_new_def split: option.splits Op.splits)
      define base where "base = (if is_genesis metadata then None else old)"
      define baseT where "baseT = (if is_genesis metadata then Map.empty else case oldT of None \<Rightarrow> Map.empty | Some t \<Rightarrow> tree_fields t)"
      have tree: "apply_tree (ObjectChange metadata val flds) oldT = Some (Obj_Tree (plain metadata) (os_value obj) (apply_trees flds baseT))"
        using False old ok by (cases val; cases old; cases oldT)
          (auto simp: obj_def object_state_new_def baseT_def Let_def state_repr_iff split: Op.splits)
      have ok': "is_genesis metadata \<or> map_option state_state_root old = Some (meta_state_root metadata)" "distinct (map fst flds)"
          "changes_ok env db root base flds"
        using ok False by (auto simp: base_def)
      obtain m where m: "represents smt (get_node_option smt (node_get env db)) (meta_state_root metadata) m" "values_ok smt m" "nodes smt 64 m \<subseteq> Ns"
          "\<And>k. view smt m k = field_of env db base k \<and> rel_option (state_repr smt Ns (node_get env db)) (field_of env db base k) (baseT k)"
        using base_fields [OF assms old ok'(1) base_def baseT_def] by blast
      have cov': "\<forall>u \<in> set (changes_updates env db root flds). update_covered smt Ns (node_get env db) u" using cov False by simp
      obtain ns1 rs flds1 where f: "apply_field_changes env db root ns us_new flds = Inr (ns1, us_puts (zip (map fst flds) rs) us_new, flds1)"
          "sound_nodes smt Ns ns1" "fst ` set ns \<subseteq> fst ` set ns1"
          "\<And>get'. extends smt Ns (fst ` set ns1) (node_get env db) get' \<Longrightarrow>
            list_all2 (\<lambda>(k, c) r. rel_option (state_repr smt Ns get') r (apply_tree c (baseT k))) flds rs"
        using fields_simulated [where us = us_new and baseT = baseT, OF flds ns ok'(3) _ cov'] m(4) by blast
      have "update_covered smt Ns (node_get env db) (meta_state_root metadata, us_puts (zip (map fst flds) rs) us_new)"
        using cov False apply_collects(2) [OF f(1), of "[]"] by (auto simp: field_updates_of_def)
      from fields_written [OF assms m ok'(2) refl this f(4)]
      obtain cs where cs: "update_fields env db (meta_state_root metadata) (us_puts (zip (map fst flds) rs) us_new) = Inr cs" "sound_nodes smt Ns (cs_nodes cs)"
          "\<And>get' s. extends smt Ns (fst ` set ns1 \<union> fst ` set (cs_nodes cs)) (node_get env db) get' \<Longrightarrow> state_state_root s = cs_state_root cs \<Longrightarrow>
            state_repr smt Ns get' s (Obj_Tree (plain (os_metadata s)) (os_value s) (apply_trees flds baseT))" by blast
      let ?obj = "state_update_state_root (cs_state_root cs) obj"
      note app = append_nodes_sound [OF f(2) cs(2)]
      have new: "plain (os_metadata ?obj) = plain metadata" "os_value ?obj = os_value obj" "state_state_root ?obj = cs_state_root cs"
        by (simp_all add: state_update_state_root_def meta_update_state_root_def plain_def obj(2) state_state_root_def meta_state_root_def)
      have "apply_object_change env db root ns us key (ObjectChange metadata val flds) =
          Inr (append_nodes ns1 (cs_nodes cs), us\<lparr>us_updates := bt_insert key (Some ?obj) (us_updates us)\<rparr>,
            change_update_state_root (cs_state_root cs) (ObjectChange metadata val flds1))"
        using obj f(1) cs(1) by (simp add: us_put_def Let_def state_state_root_def)
      moreover have "rel_option (state_repr smt Ns get') (Some ?obj) (apply_tree (ObjectChange metadata val flds) oldT)"
        if "extends smt Ns (fst ` set (append_nodes ns1 (cs_nodes cs))) (node_get env db) get'" for get'
        using cs(3) [OF that [unfolded app(2)] new(3)] unfolding tree new(1,2) by simp
      ultimately show ?thesis
        using app f(3) by (intro exI [of _ "append_nodes ns1 (cs_nodes cs)"] exI [of _ "Some ?obj"] exI conjI allI impI) auto
    qed
  qed
qed

text \<open>A change set as a whole.\<close>

lemma apply_change_set_repr:
  assumes "hash_free smt Ns" and "new_root (change_set_root_metadata cs) = Inr s" and "state_repr smt Ns (node_get env db) s t"
    and "distinct (map fst (sc_changes cs))" and "changes_ok env db (change_set_root_metadata cs) (Some s) (sc_changes cs)"
    and "\<forall>u \<in> set (changes_updates env db (change_set_root_metadata cs) (sc_changes cs) @
      field_updates_of env db (change_set_root_metadata cs) (sc_state_root cs) (sc_changes cs)). update_covered smt Ns (node_get env db) u"
  shows "\<exists>cs' db' s'. apply_change_set env cs db = (Inr cs', db') \<and> sc_global_size cs' = sc_global_size cs \<and>
    new_root (change_set_root_metadata cs') = Inr s' \<and>
    state_repr smt Ns (node_get env db') s' (Obj_Tree (tree_meta t) (tree_value t) (apply_trees (sc_changes cs) (tree_fields t))) \<and>
    extends smt Ns {} (node_get env db) (node_get env db')"
proof -
  let ?root = "change_set_root_metadata cs" and ?get = "node_get env db" and ?base = "tree_fields t"
  have s: "s = object_state_new ?root [0]" "state_state_root s = sc_state_root cs" "meta_state_root ?root = sc_state_root cs"
    using assms(2) by (auto simp: new_root_def new_with_struct_def match_struct_type_def change_set_root_metadata_def root_metadata_def
        state_state_root_def meta_state_root_def object_state_new_def)
  obtain m where m: "represents smt (get_node_option smt ?get) (sc_state_root cs) m" "values_ok smt m" "nodes smt 64 m \<subseteq> Ns"
      "\<And>k. rel_option (state_repr smt Ns ?get) (view smt m k) (tree_fields t k)"
    and t: "tree_meta t = plain ?root" "tree_value t = [0]"
    using assms(3) s unfolding state_repr_iff [of _ _ _ s] by (auto simp: object_state_new_def)
  have view: "view smt m k = field_of env db (Some s) k \<and> rel_option (state_repr smt Ns ?get) (field_of env db (Some s) k) (?base k)" for k
    using get_field_at_view [OF assms(1) m(1-3), of k] m(4) [of k] by (simp add: field_of_def s(2))
  have cov: "\<forall>u \<in> set (changes_updates env db ?root (sc_changes cs)). update_covered smt Ns ?get u" using assms(6) by simp
  obtain ns rs flds where f: "apply_field_changes env db ?root [] us_new (sc_changes cs) = Inr (ns, us_puts (zip (map fst (sc_changes cs)) rs) us_new, flds)"
      "sound_nodes smt Ns ns"
      "\<And>get'. extends smt Ns (fst ` set ns) ?get get' \<Longrightarrow>
        list_all2 (\<lambda>(k, c) r. rel_option (state_repr smt Ns get') r (apply_tree c (?base k))) (sc_changes cs) rs"
    using fields_simulated [where us = us_new and baseT = ?base and ns = "[]", OF _ _ assms(5) _ cov] simulated [OF assms(1)] view
    by (auto simp: sound_nodes_def)
  have "update_covered smt Ns ?get (sc_state_root cs, us_puts (zip (map fst (sc_changes cs)) rs) us_new)"
    using assms(6) f(1) by (auto simp: field_updates_of_def)
  from fields_written [OF assms(1) m(1-3) view assms(4) refl this f(3)]
  obtain tcs where tcs: "update_fields env db (sc_state_root cs) (us_puts (zip (map fst (sc_changes cs)) rs) us_new) = Inr tcs" "sound_nodes smt Ns (cs_nodes tcs)"
      "\<And>get' s. extends smt Ns (fst ` set ns \<union> fst ` set (cs_nodes tcs)) ?get get' \<Longrightarrow> state_state_root s = cs_state_root tcs \<Longrightarrow>
        state_repr smt Ns get' s (Obj_Tree (plain (os_metadata s)) (os_value s) (apply_trees (sc_changes cs) ?base))" by blast
  note app = append_nodes_sound [OF f(2) tcs(2)]
  obtain db' where db': "node_write_nodes env (append_nodes ns (cs_nodes tcs)) db = (Inr (), db')" using node_write_eq by blast
  have ext: "extends smt Ns (fst ` set ns \<union> fst ` set (cs_nodes tcs)) ?get (node_get env db')"
    using state_nodes.holds_written [OF smt_ok(1,2) assms(1) app(1) db'] unfolding extends_def app(2) by blast
  let ?cs = "change_set_update_state_root (cs_state_root tcs) (cs\<lparr>sc_changes := flds\<rparr>)"
  let ?s = "object_state_new (change_set_root_metadata ?cs) [0]"
  have "apply_change_set env cs db = (Inr ?cs, db')"
    using f(1) tcs(1) db' by (simp add: apply_change_set_def Let_def s(3) bind_act_def lift_act_def return_act_def)
  moreover have "new_root (change_set_root_metadata ?cs) = Inr ?s"
    by (simp add: new_root_def new_with_struct_def match_struct_type_def change_set_root_metadata_def root_metadata_def)
  moreover have "plain (os_metadata ?s) = tree_meta t" "os_value ?s = tree_value t" "state_state_root ?s = cs_state_root tcs"
    "sc_global_size ?cs = sc_global_size cs"
    by (simp_all add: t plain_def object_state_new_def change_set_root_metadata_def root_metadata_def change_set_update_state_root_def
        state_state_root_def meta_state_root_def)
  ultimately show ?thesis using tcs(3) [OF ext, of ?s] extends_mono [OF ext, of "{}"] by auto
qed

text \<open>An object that stands for a tree is read as before from every database that keeps its nodes.\<close>

lemma get_object_extends:
  assumes "hash_free smt Ns" and "new_root root = Inr s" and "state_repr smt Ns (node_get env db) s t"
    and "extends smt Ns K (node_get env db) (node_get env db')"
  shows "get_object env db' root oid = get_object env db root oid"
proof (induction oid rule: rev_induct)
  case Nil
  show ?case by (subst (1 2) get_object.simps) (simp add: is_root_def)
next
  case (snoc k ks)
  obtain r where r: "get_object env db root ks = Inr r" "rel_option (state_repr smt Ns (node_get env db)) r (tree_at t ks)"
    using get_object_repr [OF assms(1-3)] by blast
  have "get_field_at env db' (state_state_root p) k = get_field_at env db (state_state_root p) k" if p: "r = Some p" for p
  proof -
    obtain t' where "state_repr smt Ns (node_get env db) p t'" using r(2) p by (cases "tree_at t ks") auto
    then obtain m where m: "represents smt (get_node_option smt (node_get env db)) (state_state_root p) m" "values_ok smt m" "nodes smt 64 m \<subseteq> Ns"
      unfolding state_repr_iff [of _ _ _ p] by blast
    from get_field_at_view [OF assms(1) this] get_field_at_view [OF assms(1) represents_extends [OF m(1,3) assms(4)] m(2,3)]
    show ?thesis by simp
  qed
  then show ?case
    using snoc.IH r(1) by (subst (1 2) get_object.simps) (auto simp: is_root_def field_key_def object_id_parent_def expect_def split: option.split)
qed

end

text \<open>What a reader sees of an object: metadata but for the hash of the fields, and value.\<close>

definition shown :: "ObjectState \<Rightarrow> ObjectMeta \<times> bytes" where
  "shown s = (plain (os_metadata s), os_value s)"

definition tree_shown :: "obj_tree \<Rightarrow> ObjectMeta \<times> bytes" where
  "tree_shown t = (tree_meta t, tree_value t)"

definition read_object :: "'db state_env \<Rightarrow> 'db \<Rightarrow> ObjectMeta \<Rightarrow> ObjectID \<Rightarrow> (ObjectMeta \<times> bytes) option result" where
  "read_object env db root oid = and_then (get_object env db root oid) (\<lambda>r. Inr (map_option shown r))"

lemma rel_shown: "rel_option (state_repr E Ns get) r t \<Longrightarrow> map_option shown r = map_option tree_shown t"
  by (cases r; cases t) (auto simp: shown_def tree_shown_def state_repr_iff)

context state_db begin

lemma read_object_repr:
  assumes "hash_free smt Ns" and "new_root root = Inr s" and "state_repr smt Ns (node_get env db) s t"
  shows "read_object env db root oid = Inr (map_option tree_shown (tree_at t oid))"
  using get_object_repr [OF assms, of oid] by (auto simp: read_object_def dest: rel_shown)

end

end
