(* ===== verification/Event_Properties.thy ===== *)
theory Event_Properties
  imports Event_Store "HOL-Library.Countable"
begin

text \<open>
  The event store implements a log per handle: saving the events of a transaction appends them in
  order, and a page of events is a slice of the log.
\<close>

section \<open>Logs\<close>

type_synonym event_log = "ObjectID \<Rightarrow> Event list option"

definition log_of :: "event_log \<Rightarrow> ObjectID \<Rightarrow> Event list" where
  "log_of L h = (case L h of None \<Rightarrow> [] | Some es \<Rightarrow> es)"

text \<open>The reference: an event goes to the end of the log of its type, numbered by its place.\<close>

definition logged :: "object_env \<Rightarrow> event_log \<Rightarrow> TransactionEvent \<Rightarrow> Event" where
  "logged oe L e =
     (let h = derive_event_handle_id oe (te_event_type e) in new_with_event_id (event_id_new h (word_of_nat (length (log_of L h)))) e)"

definition append_event :: "object_env \<Rightarrow> event_log \<Rightarrow> TransactionEvent \<Rightarrow> event_log" where
  "append_event oe L e =
     (let h = derive_event_handle_id oe (te_event_type e) in L(h \<mapsto> log_of L h @ [logged oe L e]))"

fun append_events :: "object_env \<Rightarrow> event_log \<Rightarrow> TransactionEvent list \<Rightarrow> event_log" where
  "append_events oe L [] = L"
| "append_events oe L (e # es) = append_events oe (append_event oe L e) es"

fun logged_events :: "object_env \<Rightarrow> event_log \<Rightarrow> TransactionEvent list \<Rightarrow> Event list" where
  "logged_events oe L [] = []"
| "logged_events oe L (e # es) = logged oe L e # logged_events oe (append_event oe L e) es"

text \<open>The log of a type after a transaction: the old log, then the events of that type in order.\<close>

lemma log_of_append_event:
  "log_of (append_event oe L e) h =
     log_of L h @ (if derive_event_handle_id oe (te_event_type e) = h then [logged oe L e] else [])"
  by (simp add: append_event_def log_of_def Let_def)

lemma log_of_append_events:
  "log_of (append_events oe L es) h = log_of L h @ filter (\<lambda>e. ei_event_handle_id (ev_event_id e) = h) (logged_events oe L es)"
  by (induction oe L es rule: append_events.induct)
    (auto simp: log_of_append_event logged_def new_with_event_id_def event_id_new_def Let_def)

lemma append_events_mono: "length (log_of L h) \<le> length (log_of (append_events oe L es) h)"
  by (simp add: log_of_append_events)

section \<open>What the store keeps of a log\<close>

definition handles_view :: "event_log \<Rightarrow> ObjectID \<rightharpoonup> EventHandle" where
  "handles_view L h = map_option (\<lambda>es. event_handle_new h (word_of_nat (length es))) (L h)"

definition events_view :: "event_log \<Rightarrow> ObjectID \<times> u64 \<rightharpoonup> Event" where
  "events_view L = (\<lambda>(h, q). if unat q < length (log_of L h) then Some (log_of L h ! unat q) else None)"

definition log_bounded :: "event_log \<Rightarrow> bool" where
  "log_bounded L \<longleftrightarrow> (\<forall>h. length (log_of L h) < 2 ^ 64)"

definition log_repr :: "'db event_env \<Rightarrow> db_contents \<Rightarrow> event_log \<Rightarrow> bool" where
  "log_repr env m L \<longleftrightarrow>
     kv_clean (EventDBBaseStore env) m \<and> kv_clean (EventHandleDBStore env) m \<and> log_bounded L \<and>
     kv_view (EventHandleDBStore env) m = handles_view L \<and> kv_view (EventDBBaseStore env) m = events_view L"

text \<open>
  What the store relies on: the contract of the database on its two column families, BCS, and that the
  iterators of the hash containers visit each element once.
\<close>

definition event_families :: "ColumnFamilyName set" where
  "event_families = {EVENT_COLUMN_FAMILY_NAME, EVENT_HANDLE_COLUMN_FAMILY_NAME}"

definition event_env_ok :: "'db event_env \<Rightarrow> ('db \<Rightarrow> db_contents) \<Rightarrow> bool" where
  "event_env_ok env contents \<longleftrightarrow>
     rocks_contract (ee_rocks env) event_families contents \<and>
     schema_ok (EventDBBaseStore env) (\<lambda>v. v) \<and> schema_ok (EventHandleDBStore env) (\<lambda>v. v) \<and>
     (\<forall>xs. distinct xs \<longrightarrow> distinct (ee_type_order env xs) \<and> set (ee_type_order env xs) = set xs) \<and>
     (\<forall>xs. distinct xs \<longrightarrow> distinct (ee_handle_order env xs) \<and> set (ee_handle_order env xs) = set xs)"

text \<open>Opening the logs of some handles.\<close>

definition opened :: "event_log \<Rightarrow> ObjectID set \<Rightarrow> event_log" where
  "opened L hs h = (if h \<in> hs then Some (log_of L h) else L h)"

lemma log_of_opened [simp]: "log_of (opened L hs) h = log_of L h"
  by (auto simp: opened_def log_of_def split: option.split)

lemma opened_views [simp]: "events_view (opened L hs) = events_view L" "log_bounded (opened L hs) \<longleftrightarrow> log_bounded L"
  by (auto simp: events_view_def log_bounded_def fun_eq_iff)

lemma opened_insert: "opened (opened L hs) {h} = opened L (insert h hs)"
  by (auto simp: fun_eq_iff opened_def)

lemma opened_append_event: "append_event oe (opened L hs) e = opened (append_event oe L e) hs"
  by (auto simp: fun_eq_iff append_event_def opened_def logged_def Let_def log_of_def)

lemma opened_append_events: "append_events oe (opened L hs) es = opened (append_events oe L es) hs"
  by (induction oe L es rule: append_events.induct) (simp_all add: opened_append_event)

lemma opened_logged_events: "logged_events oe (opened L hs) es = logged_events oe L es"
  by (induction oe L es rule: append_events.induct) (simp_all add: opened_append_event logged_def)

lemma append_events_dom:
  "h \<in> derive_event_handle_id oe ` te_event_type ` set es \<or> L h \<noteq> None \<Longrightarrow> append_events oe L es h \<noteq> None"
proof (induction oe L es rule: append_events.induct)
  case (2 oe L e es)
  then have "h \<in> derive_event_handle_id oe ` te_event_type ` set es \<or> append_event oe L e h \<noteq> None"
    by (auto simp: append_event_def Let_def)
  then show ?case using 2(1) by simp
qed simp

lemma opened_all: "opened (append_events oe L es) (derive_event_handle_id oe ` te_event_type ` set es) = append_events oe L es"
proof
  fix h
  show "opened (append_events oe L es) (derive_event_handle_id oe ` te_event_type ` set es) h = append_events oe L es h"
    using append_events_dom [of h oe es L] by (auto simp: opened_def log_of_def)
qed

section \<open>Numbering\<close>

lemma unat_u64: "n < 2 ^ 64 \<Longrightarrow> unat (word_of_nat n :: u64) = n"
  by (simp add: unat_of_nat take_bit_nat_eq_self)

lemma count_up: "n + 1 < 2 ^ 64 \<Longrightarrow> checked_add (word_of_nat n :: u64) 1 = Inr (word_of_nat (n + 1))"
  by (simp add: checked_add_def unat_of_nat take_bit_nat_eq_self)

text \<open>The handles in memory agree with a log on some types.\<close>

definition handles_at :: "object_env \<Rightarrow> event_log \<Rightarrow> StructTag list \<Rightarrow> (StructTag \<times> EventHandle) list \<Rightarrow> bool" where
  "handles_at oe L tys hs \<longleftrightarrow> map fst hs = tys \<and>
     (\<forall>ty \<in> set tys. map_of hs ty = Some (event_handle_new (derive_event_handle_id oe ty) (word_of_nat (length (log_of L (derive_event_handle_id oe ty))))))"

lemma number_events_eq:
  assumes "handles_at oe L tys hs" and "te_event_type ` set es \<subseteq> set tys" and "inj_on (derive_event_handle_id oe) (set tys)"
    and "log_bounded (append_events oe L es)"
  shows "\<exists>hs'. number_events hs es = Inr (map (\<lambda>e. ((ei_event_handle_id (ev_event_id e), ei_event_seq (ev_event_id e)), e)) (logged_events oe L es), hs') \<and>
    handles_at oe (append_events oe L es) tys hs'"
  using assms
proof (induction oe L es arbitrary: hs rule: append_events.induct)
  case (2 oe L e es)
  let ?ty = "te_event_type e" and ?h = "derive_event_handle_id oe (te_event_type e)"
  let ?n = "length (log_of L ?h)"
  have ty: "?ty \<in> set tys" using "2.prems"(2) by simp
  have m: "map_of hs ?ty = Some (event_handle_new ?h (word_of_nat ?n))" using "2.prems"(1) ty by (simp add: handles_at_def)
  have "?n + 1 \<le> length (log_of (append_events oe (append_event oe L e) es) ?h)"
    using append_events_mono [of "append_event oe L e" ?h oe es] by (simp add: log_of_append_event)
  also have "\<dots> < 2 ^ 64" using "2.prems"(4) by (simp add: log_bounded_def)
  finally have n: "?n + 1 < 2 ^ 64" .
  then have c: "checked_add (word_of_nat ?n :: u64) 1 = Inr (word_of_nat (?n + 1))" by (rule count_up)
  let ?hs = "AList.update ?ty (event_handle_new ?h (word_of_nat (?n + 1))) hs"
  have "handles_at oe (append_event oe L e) tys ?hs"
    unfolding handles_at_def
  proof (intro conjI ballI)
    show "map fst ?hs = tys" using "2.prems"(1) ty by (auto simp: handles_at_def update_keys)
    fix ty assume t: "ty \<in> set tys"
    show "map_of ?hs ty = Some (event_handle_new (derive_event_handle_id oe ty)
        (word_of_nat (length (log_of (append_event oe L e) (derive_event_handle_id oe ty)))))"
    proof (cases "ty = ?ty")
      case True
      then show ?thesis by (simp add: update_conv' log_of_append_event)
    next
      case False
      then have "?h \<noteq> derive_event_handle_id oe ty" using inj_onD [OF "2.prems"(3)] t ty by metis
      then show ?thesis using False t "2.prems"(1) by (simp add: update_conv' log_of_append_event handles_at_def)
    qed
  qed
  from "2.IH" [OF this _ "2.prems"(3)] "2.prems"(2,4)
  obtain hs' where "number_events ?hs es = Inr (map (\<lambda>e. ((ei_event_handle_id (ev_event_id e), ei_event_seq (ev_event_id e)), e))
        (logged_events oe (append_event oe L e) es), hs')" "handles_at oe (append_events oe (append_event oe L e) es) tys hs'" by auto
  then show ?case
    using m c by (simp add: expect_def Let_def event_handle_new_def logged_def new_with_event_id_def event_new_def event_id_new_def)
qed (simp add: handles_at_def)

section \<open>Saving\<close>

lemma event_schemas [simp]:
  "sc_cf_name (EventDBBaseStore env) = EVENT_COLUMN_FAMILY_NAME" "sc_cf_name (EventHandleDBStore env) = EVENT_HANDLE_COLUMN_FAMILY_NAME"
  "EVENT_COLUMN_FAMILY_NAME \<in> event_families" "EVENT_HANDLE_COLUMN_FAMILY_NAME \<in> event_families"
  "EVENT_COLUMN_FAMILY_NAME \<noteq> EVENT_HANDLE_COLUMN_FAMILY_NAME" "EVENT_HANDLE_COLUMN_FAMILY_NAME \<noteq> EVENT_COLUMN_FAMILY_NAME"
  by (simp_all add: EventDBBaseStore_def EventHandleDBStore_def derive_store_def event_families_def EVENT_COLUMN_FAMILY_NAME_def EVENT_HANDLE_COLUMN_FAMILY_NAME_def)

lemma foldl_map_puts: "foldl (\<lambda>m (k, v). m(k \<mapsto> v)) m kvs = m ++ map_of (rev kvs)"
  by (induction kvs arbitrary: m) (auto simp: fun_eq_iff map_add_def split: option.splits)

lemma event_env_okD:
  assumes "event_env_ok env contents"
  shows "rocks_contract (ee_rocks env) event_families contents"
    and "schema_ok (EventDBBaseStore env) (\<lambda>v. v)" and "schema_ok (EventHandleDBStore env) (\<lambda>v. v)"
  using assms by (simp_all add: event_env_ok_def)

text \<open>A batch of one of the two stores leaves the view of the other.\<close>

lemma put_handles:
  assumes "event_env_ok env contents"
  shows "\<exists>db'. kv_put_all (ee_rocks env) (EventHandleDBStore env) kvs db = (Inr (), db') \<and>
    kv_view (EventHandleDBStore env) (contents db') = kv_view (EventHandleDBStore env) (contents db) ++ map_of (rev kvs) \<and>
    kv_view (EventDBBaseStore env) (contents db') = kv_view (EventDBBaseStore env) (contents db) \<and>
    (kv_clean (EventHandleDBStore env) (contents db) \<longrightarrow> kv_clean (EventHandleDBStore env) (contents db')) \<and>
    (kv_clean (EventDBBaseStore env) (contents db') \<longleftrightarrow> kv_clean (EventDBBaseStore env) (contents db)) \<and>
    same_outside event_families (contents db) (contents db')"
proof -
  note ok = event_env_okD [OF assms]
  obtain db' where "kv_write_batch (ee_rocks env) (EventHandleDBStore env) (new_puts kvs) db = (Inr (), db')"
      "kv_view (EventHandleDBStore env) (contents db') = foldl (apply_op (\<lambda>v. v)) (kv_view (EventHandleDBStore env) (contents db)) (cb_rows (new_puts kvs))"
      "kv_clean (EventHandleDBStore env) (contents db) \<longrightarrow> kv_clean (EventHandleDBStore env) (contents db')"
      "same_except EVENT_HANDLE_COLUMN_FAMILY_NAME (contents db) (contents db')"
    using kv_write_batch_eq [OF ok(1) ok(3), of "new_puts kvs" db] by auto
  with same_except_view [of EVENT_HANDLE_COLUMN_FAMILY_NAME "contents db" "contents db'" "EventDBBaseStore env"]
    same_except_outside [of EVENT_HANDLE_COLUMN_FAMILY_NAME "contents db" "contents db'" event_families]
  show ?thesis by (simp add: kv_put_all_def new_puts_def foldl_puts foldl_map_puts event_families_def)
qed

lemma put_events:
  assumes "event_env_ok env contents"
  shows "\<exists>db'. kv_put_all (ee_rocks env) (EventDBBaseStore env) kvs db = (Inr (), db') \<and>
    kv_view (EventDBBaseStore env) (contents db') = kv_view (EventDBBaseStore env) (contents db) ++ map_of (rev kvs) \<and>
    kv_view (EventHandleDBStore env) (contents db') = kv_view (EventHandleDBStore env) (contents db) \<and>
    (kv_clean (EventDBBaseStore env) (contents db) \<longrightarrow> kv_clean (EventDBBaseStore env) (contents db')) \<and>
    (kv_clean (EventHandleDBStore env) (contents db') \<longleftrightarrow> kv_clean (EventHandleDBStore env) (contents db)) \<and>
    same_outside event_families (contents db) (contents db')"
proof -
  note ok = event_env_okD [OF assms]
  obtain db' where "kv_write_batch (ee_rocks env) (EventDBBaseStore env) (new_puts kvs) db = (Inr (), db')"
      "kv_view (EventDBBaseStore env) (contents db') = foldl (apply_op (\<lambda>v. v)) (kv_view (EventDBBaseStore env) (contents db)) (cb_rows (new_puts kvs))"
      "kv_clean (EventDBBaseStore env) (contents db) \<longrightarrow> kv_clean (EventDBBaseStore env) (contents db')"
      "same_except EVENT_COLUMN_FAMILY_NAME (contents db) (contents db')"
    using kv_write_batch_eq [OF ok(1) ok(2), of "new_puts kvs" db] by auto
  with same_except_view [of EVENT_COLUMN_FAMILY_NAME "contents db" "contents db'" "EventHandleDBStore env"]
    same_except_outside [of EVENT_COLUMN_FAMILY_NAME "contents db" "contents db'" event_families]
  show ?thesis by (simp add: kv_put_all_def new_puts_def foldl_puts foldl_map_puts event_families_def)
qed

lemma get_event_handle_eq:
  assumes "event_env_ok env contents" and "log_repr env (contents db) L"
  shows "get_event_handle env db h = Inr (handles_view L h)"
  using kv_get_eq [OF event_env_okD(1,3) [OF assms(1)], of db h] assms(2) by (simp add: get_event_handle_def log_repr_def)

lemma get_or_create_eq:
  assumes "event_env_ok env contents" and "log_repr env (contents db) L" and "h = derive_event_handle_id (ee_object env) ty"
  shows "\<exists>db'. get_or_create_event_handle env ty db = (Inr (event_handle_new h (word_of_nat (length (log_of L h)))), db') \<and>
    log_repr env (contents db') (opened L {h}) \<and> same_outside event_families (contents db) (contents db')"
proof (cases "L h")
  case None
  obtain db' where db': "save_event_handle env (event_handle_new h 0) db = (Inr (), db')"
      "kv_view (EventHandleDBStore env) (contents db') = (handles_view L)(h \<mapsto> event_handle_new h 0)"
      "kv_view (EventDBBaseStore env) (contents db') = events_view L"
      "kv_clean (EventHandleDBStore env) (contents db')" "kv_clean (EventDBBaseStore env) (contents db')"
      "same_outside event_families (contents db) (contents db')"
    using put_handles [OF assms(1), of "[(h, event_handle_new h 0)]" db] assms(2)
    by (auto simp: save_event_handle_def log_repr_def event_handle_new_def)
  have "(handles_view L)(h \<mapsto> event_handle_new h 0) = handles_view (opened L {h})"
    using None by (auto simp: fun_eq_iff handles_view_def opened_def log_of_def)
  then have "log_repr env (contents db') (opened L {h})" using db' assms(2) by (simp add: log_repr_def)
  moreover have "get_or_create_event_handle env ty db = (Inr (event_handle_new h 0), db')"
    using get_event_handle_eq [OF assms(1,2), of h] None db'(1) unfolding get_or_create_event_handle_def assms(3) [symmetric]
    by (simp add: Let_def handles_view_def)
  ultimately show ?thesis using None db'(6) by (auto simp: log_of_def)
next
  case (Some es)
  then have "opened L {h} = L" by (auto simp: fun_eq_iff opened_def log_of_def)
  moreover have "get_or_create_event_handle env ty db = (Inr (event_handle_new h (word_of_nat (length es))), db)"
    using get_event_handle_eq [OF assms(1,2), of h] Some unfolding get_or_create_event_handle_def assms(3) [symmetric]
    by (simp add: Let_def handles_view_def)
  ultimately show ?thesis using Some assms(2) by (auto simp: log_of_def)
qed

lemma open_handles:
  assumes "event_env_ok env contents" and "log_repr env (contents db) L"
  shows "\<exists>db'. try_map_act (\<lambda>ty. bind_act (get_or_create_event_handle env ty) (\<lambda>handle. return_act (ty, handle))) tys db =
      (Inr (map (\<lambda>ty. (ty, event_handle_new (derive_event_handle_id (ee_object env) ty)
        (word_of_nat (length (log_of L (derive_event_handle_id (ee_object env) ty)))))) tys), db') \<and>
    log_repr env (contents db') (opened L (derive_event_handle_id (ee_object env) ` set tys)) \<and>
    same_outside event_families (contents db) (contents db')"
  using assms(2)
proof (induction tys arbitrary: L db)
  case Nil
  then show ?case by (simp add: opened_def [abs_def])
next
  case (Cons ty tys)
  let ?h = "derive_event_handle_id (ee_object env) ty"
  obtain db1 where db1: "get_or_create_event_handle env ty db = (Inr (event_handle_new ?h (word_of_nat (length (log_of L ?h)))), db1)"
      "log_repr env (contents db1) (opened L {?h})" "same_outside event_families (contents db) (contents db1)"
    using get_or_create_eq [OF assms(1) Cons.prems refl] by blast
  have "opened (opened L {?h}) H = opened L (insert ?h H)" for H by (auto simp: fun_eq_iff opened_def log_of_def)
  with Cons.IH [OF db1(2)] db1(1) same_outside_trans [OF db1(3)] show ?case by auto
qed

lemma events_view_append:
  assumes "log_bounded (append_events oe L es)"
  shows "events_view L ++ map_of (rev (map (\<lambda>e. ((ei_event_handle_id (ev_event_id e), ei_event_seq (ev_event_id e)), e)) (logged_events oe L es))) =
    events_view (append_events oe L es)"
  using assms
proof (induction oe L es rule: append_events.induct)
  case (2 oe L e es)
  let ?h = "derive_event_handle_id oe (te_event_type e)"
  let ?n = "length (log_of L ?h)"
  have "?n < length (log_of (append_events oe (append_event oe L e) es) ?h)"
    using append_events_mono [of "append_event oe L e" ?h oe es] by (simp add: log_of_append_event)
  also have "\<dots> < 2 ^ 64" using "2.prems" by (simp add: log_bounded_def)
  finally have n: "unat (word_of_nat ?n :: u64) = ?n" by (simp add: unat_of_nat take_bit_nat_eq_self)
  have one: "(events_view L)((ei_event_handle_id (ev_event_id (logged oe L e)), ei_event_seq (ev_event_id (logged oe L e))) \<mapsto> logged oe L e) =
      events_view (append_event oe L e)"
  proof
    fix x :: "ObjectID \<times> u64"
    obtain h q where x: "x = (h, q)" by fastforce
    have "q = word_of_nat ?n \<longleftrightarrow> unat q = ?n" using n by (metis word_unat_eq_iff)
    then show "((events_view L)((ei_event_handle_id (ev_event_id (logged oe L e)), ei_event_seq (ev_event_id (logged oe L e))) \<mapsto> logged oe L e)) x =
        events_view (append_event oe L e) x"
      by (auto simp: x events_view_def log_of_append_event logged_def new_with_event_id_def event_id_new_def Let_def nth_append)
  qed
  show ?case using "2.IH" "2.prems" unfolding append_events.simps logged_events.simps
    by (simp add: map_add_upd_left one [symmetric] del: fun_upd_apply)
qed simp

lemma append_events_other:
  "h \<notin> derive_event_handle_id oe ` te_event_type ` set es \<Longrightarrow> append_events oe L es h = L h"
  by (induction oe L es rule: append_events.induct) (auto simp: append_event_def Let_def)

lemma map_of_graph: "\<forall>(k, v) \<in> set kvs. v = g k \<Longrightarrow> map_of kvs k = (if k \<in> fst ` set kvs then Some (g k) else None)"
  by (induction kvs) auto

lemma handles_view_append:
  assumes "handles_at oe (append_events oe L es) tys hs" and "set tys = te_event_type ` set es" and "set hs' = set hs" and "distinct tys"
  shows "handles_view (opened L (derive_event_handle_id oe ` set tys)) ++ map_of (rev (map (\<lambda>(_, handle). (eh_id handle, handle)) hs')) =
    handles_view (append_events oe L es)"
proof
  fix h
  let ?kvs = "map (\<lambda>(_, handle). (eh_id handle, handle)) hs'" and ?g = "\<lambda>h. event_handle_new h (word_of_nat (length (log_of (append_events oe L es) h)))"
  have d: "distinct (map fst hs)" using assms(1,4) by (simp add: handles_at_def)
  have hd: "handle = ?g (derive_event_handle_id oe ty) \<and> ty \<in> set tys" if "(ty, handle) \<in> set hs" for ty handle
    using assms(1) that map_of_is_SomeI [OF d that] by (force simp: handles_at_def)
  then have g: "\<forall>(k, v) \<in> set (rev ?kvs). v = ?g k" using assms(3) by (auto dest!: hd simp: event_handle_new_def)
  have keys: "fst ` set (rev ?kvs) = derive_event_handle_id oe ` set tys"
  proof -
    have "fst ` set (rev ?kvs) = (\<lambda>x. eh_id (snd x)) ` set hs" using assms(3) by (auto simp: image_image split_def)
    also have "\<dots> = derive_event_handle_id oe ` fst ` set hs"
      unfolding image_image by (rule image_cong) (auto dest!: hd simp: event_handle_new_def)
    also have "fst ` set hs = set tys" using assms(1) by (metis handles_at_def list.set_map)
    finally show ?thesis .
  qed
  show "(handles_view (opened L (derive_event_handle_id oe ` set tys)) ++ map_of (rev ?kvs)) h = handles_view (append_events oe L es) h"
  proof (cases "h \<in> derive_event_handle_id oe ` set tys")
    case True
    then obtain es' where "append_events oe L es h = Some es'" using append_events_dom [of h oe es L] assms(2) by auto
    then show ?thesis using True map_of_graph [OF g, of h] keys by (simp add: map_add_def handles_view_def log_of_def)
  next
    case False
    then show ?thesis
      using map_of_graph [OF g, of h] keys append_events_other [of h oe es L] assms(2) by (simp add: map_add_def handles_view_def opened_def)
  qed
qed

lemma save_events_repr:
  assumes "event_env_ok env contents" and "log_repr env (contents db) L" and "oe = ee_object env"
    and "inj_on (derive_event_handle_id oe) (te_event_type ` set es)" and "log_bounded (append_events oe L es)"
  shows "\<exists>db'. save_events env es db = (Inr (map ev_event_id (logged_events oe L es)), db') \<and> log_repr env (contents db') (append_events oe L es) \<and>
    same_outside event_families (contents db) (contents db')"
proof -
  define tys where "tys = ee_type_order env (remdups (map te_event_type es))"
  have tys: "distinct tys" "set tys = te_event_type ` set es" using assms(1) by (simp_all add: tys_def event_env_ok_def)
  let ?H = "derive_event_handle_id oe ` set tys"
  let ?hs = "map (\<lambda>ty. (ty, event_handle_new (derive_event_handle_id oe ty) (word_of_nat (length (log_of L (derive_event_handle_id oe ty)))))) tys"
  obtain db1 where db1: "try_map_act (\<lambda>ty. bind_act (get_or_create_event_handle env ty) (\<lambda>handle. return_act (ty, handle))) tys db = (Inr ?hs, db1)"
      "log_repr env (contents db1) (opened L ?H)" "same_outside event_families (contents db) (contents db1)"
    using open_handles [OF assms(1,2), of tys] unfolding assms(3) by blast
  have "handles_at oe L tys ?hs" by (simp add: handles_at_def comp_def map_of_map_restrict)
  from number_events_eq [OF this _ _ assms(5)] tys(2) assms(4)
  obtain hs' where hs': "number_events ?hs es = Inr (map (\<lambda>e. ((ei_event_handle_id (ev_event_id e), ei_event_seq (ev_event_id e)), e)) (logged_events oe L es), hs')"
      "handles_at oe (append_events oe L es) tys hs'" by auto
  let ?evs = "map (\<lambda>e. ((ei_event_handle_id (ev_event_id e), ei_event_seq (ev_event_id e)), e)) (logged_events oe L es)"
  obtain db2 where db2: "kv_put_all (ee_rocks env) (EventDBBaseStore env) ?evs db1 = (Inr (), db2)"
      "kv_view (EventDBBaseStore env) (contents db2) = events_view (append_events oe L es)"
      "kv_view (EventHandleDBStore env) (contents db2) = handles_view (opened L ?H)"
      "kv_clean (EventDBBaseStore env) (contents db2)" "kv_clean (EventHandleDBStore env) (contents db2)"
      "same_outside event_families (contents db1) (contents db2)"
    using put_events [OF assms(1), of ?evs db1] db1(2) events_view_append [OF assms(5)] by (auto simp: log_repr_def)
  have "distinct hs'" using hs'(2) tys(1) by (simp add: handles_at_def distinct_map) (metis distinct_map tys(1))
  then have ord: "set (ee_handle_order env hs') = set hs'" using assms(1) by (simp add: event_env_ok_def)
  obtain db3 where db3: "kv_put_all (ee_rocks env) (EventHandleDBStore env) (map (\<lambda>(_, handle). (eh_id handle, handle)) (ee_handle_order env hs')) db2 = (Inr (), db3)"
      "log_repr env (contents db3) (append_events oe L es)" "same_outside event_families (contents db2) (contents db3)"
    using put_handles [OF assms(1), of "map (\<lambda>(_, handle). (eh_id handle, handle)) (ee_handle_order env hs')" db2] db2
      handles_view_append [OF hs'(2) tys(2) ord tys(1)] assms(5) by (auto simp: log_repr_def)
  have "save_events env es db = (Inr (map ev_event_id (logged_events oe L es)), db3)"
    using db1(1) hs'(1) db2(1) db3(1) by (simp add: save_events_def Let_def comp_def flip: tys_def)
  with db3(2) same_outside_trans [OF same_outside_trans [OF db1(3) db2(6)] db3(3)] show ?thesis by blast
qed

lemma logged_in_view:
  assumes "log_bounded (append_events oe L es)" and "e \<in> set (logged_events oe L es)"
  shows "events_view (append_events oe L es) (ei_event_handle_id (ev_event_id e), ei_event_seq (ev_event_id e)) = Some e"
  using assms
proof (induction oe L es rule: append_events.induct)
  case (2 oe L e' es)
  show ?case
  proof (cases "e \<in> set (logged_events oe (append_event oe L e') es)")
    case True
    then show ?thesis using "2.IH" "2.prems"(1) by simp
  next
    case False
    let ?h = "derive_event_handle_id oe (te_event_type e')"
    let ?n = "length (log_of L ?h)"
    have e: "e = logged oe L e'" using False "2.prems"(2) by simp
    have log: "\<exists>xs. log_of (append_events oe (append_event oe L e') es) ?h = log_of L ?h @ logged oe L e' # xs"
      by (simp add: log_of_append_events log_of_append_event)
    then have "?n < 2 ^ 64" using "2.prems"(1) by (auto simp: log_bounded_def) (metis add_lessD1 length_append)
    then have "unat (word_of_nat ?n :: u64) = ?n" by (rule unat_u64)
    then show ?thesis using log by (auto simp: e events_view_def logged_def new_with_event_id_def event_id_new_def Let_def nth_append)
  qed
qed simp

section \<open>Reading\<close>

lemma slice_events:
  "b < 2 ^ 64 \<Longrightarrow> List.map_filter (\<lambda>q. events_view L (h, q)) (map word_of_nat [a..<b]) = drop a (take b (log_of L h))"
proof (induction b)
  case (Suc b)
  have "unat (word_of_nat b :: u64) = b" using Suc.prems by (simp add: unat_of_nat take_bit_nat_eq_self)
  with Suc show ?case
    by (cases "a \<le> b"; cases "b < length (log_of L h)")
      (auto simp: List.map_filter_def events_view_def take_Suc_conv_app_nth)
qed simp

lemma rev_map_filter: "List.map_filter f (rev xs) = rev (List.map_filter f xs)"
  by (simp add: List.map_filter_def rev_filter rev_map)

lemma map_filter_map: "List.map_filter (\<lambda>e. e) (map f xs) = List.map_filter f xs"
  by (induction xs) (auto split: option.split)

lemma read_seqs:
  assumes "event_env_ok env contents" and "log_repr env (contents db) L" and "L h = Some es"
    and "event_seqs (word_of_nat (length es)) cursor limit descending_order = Inr ids"
  shows "get_events_by_event_handle_id env db h cursor limit descending_order = Inr (List.map_filter (\<lambda>q. events_view L (h, q)) ids)"
proof -
  have "multi_get_events env db (map (event_id_new h) ids) = Inr (map (\<lambda>q. events_view L (h, q)) ids)"
    using multiple_get_eq [OF event_env_okD(1,2) [OF assms(1)], of db "map (Pair h) ids"] assms(2)
    by (simp add: multi_get_events_def log_repr_def event_id_new_def comp_def)
  with get_event_handle_eq [OF assms(1,2), of h] assms(3,4) show ?thesis
    by (simp add: get_events_by_event_handle_id_def handles_view_def event_handle_new_def map_filter_map)
qed

lemma ascending_page:
  assumes "event_env_ok env contents" and "log_repr env (contents db) L" and "L h = Some es" and "length es + 1 < 2 ^ 64"
    and "k = (case cursor of None \<Rightarrow> 0 | Some c \<Rightarrow> unat c + 1)" and "k + unat limit < 2 ^ 64"
  shows "get_events_by_event_handle_id env db h cursor limit False = Inr (take (unat limit) (drop k es))"
proof -
  let ?e = "min (k + unat limit) (length es + 1)"
  have n: "unat (word_of_nat (length es) :: u64) = length es" using assms(4) by (simp add: unat_of_nat take_bit_nat_eq_self)
  have k: "k < 2 ^ 64" "unat (word_of_nat k :: u64) = k" using assms(6) by (simp_all add: unat_of_nat take_bit_nat_eq_self)
  have start: "(case cursor of Some c \<Rightarrow> if unat c + 1 < 2 ^ 64 then Inr (c + 1) else Inl (Fail ''start + limit is overflow'')
      | None \<Rightarrow> Inr 0) = (Inr (word_of_nat k) :: u64 result)"
    using k(1) unfolding assms(5) by (cases cursor) (auto simp: add.commute)
  have v: "word_of_nat k + limit = (word_of_nat (k + unat limit) :: u64)" by simp
  have nx: "checked_add (word_of_nat (length es) :: u64) 1 = Inr (word_of_nat (length es + 1))"
    by (rule count_up [OF assms(4)])
  have mn: "min (word_of_nat (k + unat limit)) (word_of_nat (length es + 1) :: u64) = word_of_nat ?e"
    using unat_u64 [OF assms(4)] unat_u64 [OF assms(6)] by (simp add: min_def word_le_nat_alt del: of_nat_add of_nat_Suc)
  have "unat (word_of_nat ?e :: u64) = ?e" using assms(4) by (simp add: unat_of_nat take_bit_nat_eq_self min_def)
  then have "event_seqs (word_of_nat (length es)) cursor limit False = Inr (map word_of_nat [k..<?e])"
    unfolding event_seqs_def start using assms(6) nx mn k(2) by (simp add: v seq_range_def del: of_nat_add)
  moreover have "drop k (take ?e es) = take (unat limit) (drop k es)" by (simp add: drop_take min_def)
  moreover have "?e < 2 ^ 64" using assms(4) by linarith
  from slice_events [OF this, of L h k]
  have "List.map_filter (\<lambda>q. events_view L (h, q)) (map word_of_nat [k..<?e]) = drop k (take ?e es)" by (simp add: log_of_def assms(3))
  ultimately show ?thesis using read_seqs [OF assms(1-3)] by (simp only:)
qed

lemma descending_page:
  assumes "event_env_ok env contents" and "log_repr env (contents db) L" and "L h = Some es" and "length es + 1 < 2 ^ 64"
    and "k = (case cursor of None \<Rightarrow> length es + 1 | Some c \<Rightarrow> unat c)"
  shows "get_events_by_event_handle_id env db h cursor limit True = Inr (rev (drop (k - unat limit) (take k es)))"
proof -
  have n: "unat (word_of_nat (length es) :: u64) = length es" using assms(4) by (simp add: unat_of_nat take_bit_nat_eq_self)
  have nx: "checked_add (word_of_nat (length es) :: u64) 1 = Inr (word_of_nat (length es + 1))"
    by (rule count_up [OF assms(4)])
  define start :: u64 where "start = (case cursor of Some c \<Rightarrow> c | None \<Rightarrow> word_of_nat (length es + 1))"
  have k: "unat start = k" "k < 2 ^ 64"
    using assms(5) unat_u64 [OF assms(4)] assms(4) unsigned_less [of start, where ?'a = nat]
    by (auto simp: start_def simp del: of_nat_add of_nat_Suc split: option.splits)
  have "unat (if limit \<le> start then start - limit else 0) = k - unat limit"
    using k(1) by (auto simp: word_le_nat_alt unat_sub)
  moreover have "event_seqs (word_of_nat (length es)) cursor limit True = Inr (rev (seq_range (if limit \<le> start then start - limit else 0) start))"
    unfolding event_seqs_def nx start_def by (simp only: if_True and_then_Inr Let_def)
  ultimately have "event_seqs (word_of_nat (length es)) cursor limit True = Inr (rev (map word_of_nat [k - unat limit..<k]))"
    using k(1) by (simp only: seq_range_def)
  then show ?thesis
    using read_seqs [OF assms(1-3)] slice_events [OF k(2), of L h "k - unat limit"] assms(3)
    by (simp only: rev_map_filter) (simp add: log_of_def)
qed

section \<open>Identifiers as text\<close>

lemma hex_no_colon: "CHR '':'' \<notin> set (concat (map hex_byte bs))"
proof -
  have "hex_digit n \<in> set ''0123456789abcdef''" if "n < 16" for n
    unfolding hex_digit_def using that by (intro nth_mem) simp
  then have d: "hex_digit n \<noteq> CHR '':''" if "n < 16" for n using that by fastforce
  have "unat b div 16 < 16" for b :: u8
    using unsigned_less [of b, where ?'a = nat] by (simp add: less_mult_imp_div_less)
  then show ?thesis using d [symmetric] by (auto simp: hex_byte_def)
qed

lemma no_double_colon: "CHR '':'' \<notin> set s \<Longrightarrow> \<not> contains_double_colon s"
  by (induction s rule: contains_double_colon.induct) auto

lemma event_id_round_trip:
  assumes "hex_ok env"
  shows "event_id_from_string env (event_id_to_string eid) = Inr eid"
proof -
  have c: "CHR '':'' \<notin> set (object_id_display (ei_event_handle_id eid))"
    using hex_no_colon by (simp add: object_id_display_def object_id_to_hex_def)
  have n: "CHR '':'' \<notin> set (show_nat (unat (ei_event_seq eid)))" using show_nat_chars by blast
  have "parse_uint 64 (show_nat (unat (ei_event_seq eid))) = Some (unat (ei_event_seq eid))"
    using unsigned_less [of "ei_event_seq eid", where ?'a = nat] by (intro parse_uint_show) simp
  then show ?thesis
    using object_id_literal_round_trip [OF assms, of "ei_event_handle_id eid"] no_double_colon [OF c]
    by (simp add: event_id_from_string_def event_id_to_string_def split_on_append [OF c] split_on_none [OF n] object_id_from_str_def
        ok_or_def event_id_new_def)
qed

section \<open>Concrete data for the instances\<close>

instance TypeTag :: countable by countable_datatype

instance StructTag :: countable by countable_datatype

text \<open>Keys and values as a number of zero bytes.\<close>

definition unary :: "('a \<Rightarrow> 'b::countable) \<Rightarrow> 'a \<Rightarrow> bytes result" where
  "unary f x = Inr (replicate (to_nat (f x)) 0)"

definition of_unary :: "('b::countable \<Rightarrow> 'a) \<Rightarrow> bytes \<Rightarrow> 'a result" where
  "of_unary g bs = Inr (g (from_nat (length bs)))"

definition event_parts :: "Event \<Rightarrow> ObjectID \<times> u64 \<times> StructTag \<times> bytes \<times> u64" where
  "event_parts e = (ei_event_handle_id (ev_event_id e), ei_event_seq (ev_event_id e), ev_event_type e, ev_event_data e, ev_event_index e)"

definition part_event :: "ObjectID \<times> u64 \<times> StructTag \<times> bytes \<times> u64 \<Rightarrow> Event" where
  "part_event = (\<lambda>(h, q, ty, data, i). event_new (event_id_new h q) ty data i)"

definition note_objects :: object_env where
  "note_objects =
     \<lparr>en_sha3 = \<lambda>x. take 32 (x @ replicate 32 0), en_type_string = \<lambda>_. ''type'', en_struct_string = st_name,
      en_parse_struct = \<lambda>_. None, en_decode_hex = \<lambda>_. None, en_parse_address = \<lambda>_. Inl (Fail ''hex'')\<rparr>"

definition note_env :: "db_contents event_env" where
  "note_env =
     \<lparr>ee_rocks = map_rocks, ee_object = note_objects,
      ee_event_codec = \<lparr>bc_key_to_bytes = unary (\<lambda>k. k), bc_key_from_bytes = of_unary (\<lambda>k. k),
        bc_value_to_bytes = unary event_parts, bc_value_from_bytes = of_unary part_event\<rparr>,
      ee_handle_codec = \<lparr>bc_key_to_bytes = unary (\<lambda>k. k), bc_key_from_bytes = of_unary (\<lambda>k. k),
        bc_value_to_bytes = unary (\<lambda>h. (eh_id h, eh_count h)), bc_value_from_bytes = of_unary (\<lambda>(h, n). event_handle_new h n)\<rparr>,
      ee_type_order = rev, ee_handle_order = rev\<rparr>"

definition note_type :: "string \<Rightarrow> StructTag" where
  "note_type name = StructTag 3 ''notes'' name []"

definition note_events :: "TransactionEvent list" where
  "note_events =
     [\<lparr>te_event_type = note_type ''A'', te_event_data = [1], te_event_index = 0\<rparr>,
      \<lparr>te_event_type = note_type ''B'', te_event_data = [2], te_event_index = 1\<rparr>,
      \<lparr>te_event_type = note_type ''A'', te_event_data = [3], te_event_index = 2\<rparr>]"

lemma note_env_ok: "event_env_ok note_env (\<lambda>db. db)"
  by (auto simp: event_env_ok_def note_env_def map_rocks_contract schema_ok_def EventDBBaseStore_def EventHandleDBStore_def derive_store_def
      unary_def of_unary_def event_parts_def part_event_def event_new_def event_id_new_def event_handle_new_def)

lemma note_start: "log_repr note_env (\<lambda>_ _. None) Map.empty"
  by (auto simp: log_repr_def kv_clean_def log_bounded_def kv_view_def handles_view_def events_view_def log_of_def fun_eq_iff
      note_env_def EventDBBaseStore_def EventHandleDBStore_def derive_store_def unary_def)

definition note_handle :: "string \<Rightarrow> ObjectID" where
  "note_handle name = derive_event_handle_id note_objects (note_type name)"

lemma note_handles: "note_handle ''A'' \<noteq> note_handle ''B''"
proof
  let ?bs = "\<lambda>name. take 32 (bytes_of_string name @ replicate 32 0)"
  assume "note_handle ''A'' = note_handle ''B''"
  then have "address_of_bytes (?bs ''A'') = address_of_bytes (?bs ''B'')"
    by (simp add: note_handle_def derive_event_handle_id_def named_object_id_def note_objects_def note_type_def)
  then have "?bs ''A'' = ?bs ''B''" using address_bytes_inverse [of "?bs ''A''"] address_bytes_inverse [of "?bs ''B''"] by simp
  then show False by (simp add: bytes_of_string_def)
qed

lemma note_logged:
  "logged_events note_objects Map.empty note_events =
     [event_new (event_id_new (note_handle ''A'') 0) (note_type ''A'') [1] 0,
      event_new (event_id_new (note_handle ''B'') 0) (note_type ''B'') [2] 1,
      event_new (event_id_new (note_handle ''A'') 1) (note_type ''A'') [3] 2]"
  using note_handles by (simp add: note_events_def logged_def append_event_def log_of_def Let_def event_new_def new_with_event_id_def
      flip: note_handle_def)

lemma note_bounded: "log_bounded (append_events note_objects Map.empty note_events)"
  unfolding log_bounded_def
proof
  fix h
  have "log_of (append_events note_objects Map.empty note_events) h =
      filter (\<lambda>e. ei_event_handle_id (ev_event_id e) = h) (logged_events note_objects Map.empty note_events)"
    unfolding log_of_append_events by (simp add: log_of_def)
  also have "length \<dots> \<le> length (logged_events note_objects Map.empty note_events)" by (rule length_filter_le)
  finally show "length (log_of (append_events note_objects Map.empty note_events) h) < 2 ^ 64" by (simp add: note_logged)
qed

lemma note_inj: "inj_on (derive_event_handle_id note_objects) (te_event_type ` set note_events)"
  using note_handles by (auto simp: inj_on_def note_events_def note_handle_def)

section \<open>Properties\<close>

text \<open>
  C6. The event store refines a log per event handle: saving the events of a transaction returns the
  identifiers the reference gives them and leaves the store with every event at the end of the log of
  its type, the logs of other types as they were; every saved event is read back by its identifier.
  Two types of one transaction have different handles, and no log reaches \<open>2 ^ 64\<close> events.
\<close>

theorem save_events_refines:
  assumes "event_env_ok env contents" and "log_repr env (contents db) L" and "oe = ee_object env"
    and "inj_on (derive_event_handle_id oe) (te_event_type ` set es)" and "log_bounded (append_events oe L es)"
  shows "\<exists>db'. save_events env es db = (Inr (map ev_event_id (logged_events oe L es)), db') \<and>
    log_repr env (contents db') (append_events oe L es) \<and>
    (\<forall>h. log_of (append_events oe L es) h = log_of L h @ filter (\<lambda>e. ei_event_handle_id (ev_event_id e) = h) (logged_events oe L es)) \<and>
    list_all (\<lambda>e. get_event env db' (ev_event_id e) = Inr (Some e)) (logged_events oe L es)"
proof -
  obtain db' where db': "save_events env es db = (Inr (map ev_event_id (logged_events oe L es)), db')" "log_repr env (contents db') (append_events oe L es)"
    using save_events_repr [OF assms] by blast
  have get: "get_event env db' i = Inr (events_view (append_events oe L es) (ei_event_handle_id i, ei_event_seq i))" for i
    using kv_get_eq [OF event_env_okD(1,2) [OF assms(1)], of db'] db'(2) by (simp add: get_event_def log_repr_def)
  have "list_all (\<lambda>e. get_event env db' (ev_event_id e) = Inr (Some e)) (logged_events oe L es)"
    unfolding get list_all_iff using logged_in_view [OF assms(5)] by simp
  with db' log_of_append_events show ?thesis by blast
qed

theorem save_events_refines_witness:
  "\<exists>db'. save_events note_env note_events (\<lambda>_ _. None) =
       (Inr [event_id_new (note_handle ''A'') 0, event_id_new (note_handle ''B'') 0, event_id_new (note_handle ''A'') 1], db') \<and>
     get_event note_env db' (event_id_new (note_handle ''A'') 1) =
       Inr (Some (event_new (event_id_new (note_handle ''A'') 1) (note_type ''A'') [3] 2))"
proof -
  have o: "note_objects = ee_object note_env" by (simp add: note_env_def)
  from save_events_refines [OF note_env_ok note_start o note_inj note_bounded] show ?thesis
    unfolding note_logged by (simp add: event_new_def) blast
qed

text \<open>
  C37. Pages of events: in ascending order a page is the next \<open>limit\<close> events after the cursor, in
  descending order the \<open>limit\<close> events before it; a descending page without a cursor starts behind
  the place after the last event, so it has the last \<open>limit - 1\<close> events only.
\<close>

theorem event_pages:
  assumes "event_env_ok env contents" and "log_repr env (contents db) L" and "L h = Some es" and "length es + 1 < 2 ^ 64"
    and "unat c + 1 + unat limit < 2 ^ 64"
  shows "get_events_by_event_handle_id env db h None limit False = Inr (take (unat limit) es) \<and>
    get_events_by_event_handle_id env db h (Some c) limit False = Inr (take (unat limit) (drop (unat c + 1) es)) \<and>
    get_events_by_event_handle_id env db h (Some c) limit True = Inr (rev (drop (unat c - unat limit) (take (unat c) es))) \<and>
    get_events_by_event_handle_id env db h None limit True = Inr (rev (drop (length es - (unat limit - 1)) es))"
proof -
  have "get_events_by_event_handle_id env db h None limit True = Inr (rev (drop (length es + 1 - unat limit) (take (length es + 1) es)))"
    by (rule descending_page [OF assms(1-4)]) simp
  also have "drop (length es + 1 - unat limit) (take (length es + 1) es) = drop (length es - (unat limit - 1)) es"
    by (cases "unat limit") simp_all
  finally have d: "get_events_by_event_handle_id env db h None limit True = Inr (rev (drop (length es - (unat limit - 1)) es))" .
  show ?thesis
    using ascending_page [OF assms(1-4), of 0 None limit] ascending_page [OF assms(1-4), of "unat c + 1" "Some c" limit]
      descending_page [OF assms(1-4), of "unat c" "Some c" limit] d assms(5) by simp
qed

definition note_log :: event_log where
  "note_log = [note_handle ''A'' \<mapsto> [event_new (event_id_new (note_handle ''A'') 0) (note_type ''A'') [1] 0,
     event_new (event_id_new (note_handle ''A'') 1) (note_type ''A'') [3] 2]]"

theorem event_pages_witness:
  "\<exists>db. get_events_by_event_handle_id note_env db (note_handle ''A'') None 2 False = Inr (the (note_log (note_handle ''A''))) \<and>
     get_events_by_event_handle_id note_env db (note_handle ''A'') (Some 0) 2 False = Inr [event_new (event_id_new (note_handle ''A'') 1) (note_type ''A'') [3] 2] \<and>
     get_events_by_event_handle_id note_env db (note_handle ''A'') None 2 True = Inr [event_new (event_id_new (note_handle ''A'') 1) (note_type ''A'') [3] 2]"
proof -
  have o: "note_objects = ee_object note_env" by (simp add: note_env_def)
  obtain db where db: "log_repr note_env db (append_events note_objects Map.empty note_events)"
    using save_events_repr [OF note_env_ok note_start o note_inj note_bounded] by blast
  have l: "append_events note_objects Map.empty note_events (note_handle ''A'') = note_log (note_handle ''A'')"
    using note_handles by (simp add: note_log_def note_events_def logged_def append_event_def log_of_def Let_def event_new_def new_with_event_id_def
        flip: note_handle_def)
  let ?es = "the (note_log (note_handle ''A''))"
  have es: "append_events note_objects Map.empty note_events (note_handle ''A'') = Some ?es" "length ?es = 2"
    by (simp_all add: l note_log_def)
  from event_pages [OF note_env_ok db es(1), of 0 2] es(2) show ?thesis by (intro exI [of _ db]) (simp add: note_log_def)
qed

end
