(* ===== verification/Executor_Refinement.thy ===== *)
theory Executor_Refinement
  imports MoveOS_Executor State_Refinement Event_Properties
begin

text \<open>
  A node of MoveOS implements a tree of objects, a log per event type, and a table of execution infos.
  Executing a transaction acts on the three as the references of the components do; the components do
  not disturb each other because they keep to their column families.
\<close>

section \<open>What the node relies on\<close>

definition info_families :: "ColumnFamilyName set" where
  "info_families = {TRANSACTION_EXECUTION_INFO_COLUMN_FAMILY_NAME, CONFIG_STARTUP_INFO_COLUMN_FAMILY_NAME}"

definition moveos_env_ok :: "('db, 'st) moveos_env \<Rightarrow> ('db \<Rightarrow> db_contents) \<Rightarrow> bool" where
  "moveos_env_ok env contents \<longleftrightarrow>
     state_env_ok (mo_state env) contents \<and> event_env_ok (mo_event env) contents \<and>
     rocks_contract (mo_rocks env) info_families contents \<and>
     schema_ok (TransactionDBStore env) (\<lambda>v. v) \<and> schema_ok (StartupInfoStore env) (\<lambda>v. v)"

lemma families [simp]:
  "sc_cf_name (TransactionDBStore env) = TRANSACTION_EXECUTION_INFO_COLUMN_FAMILY_NAME"
  "sc_cf_name (StartupInfoStore env) = CONFIG_STARTUP_INFO_COLUMN_FAMILY_NAME"
  "TRANSACTION_EXECUTION_INFO_COLUMN_FAMILY_NAME \<in> info_families" "CONFIG_STARTUP_INFO_COLUMN_FAMILY_NAME \<in> info_families"
  "TRANSACTION_EXECUTION_INFO_COLUMN_FAMILY_NAME \<noteq> CONFIG_STARTUP_INFO_COLUMN_FAMILY_NAME"
  "STATE_NODE_COLUMN_FAMILY_NAME \<notin> info_families" "STATE_NODE_COLUMN_FAMILY_NAME \<notin> event_families"
  "EVENT_COLUMN_FAMILY_NAME \<notin> info_families" "EVENT_HANDLE_COLUMN_FAMILY_NAME \<notin> info_families"
  "EVENT_COLUMN_FAMILY_NAME \<noteq> STATE_NODE_COLUMN_FAMILY_NAME" "EVENT_HANDLE_COLUMN_FAMILY_NAME \<noteq> STATE_NODE_COLUMN_FAMILY_NAME"
  "TRANSACTION_EXECUTION_INFO_COLUMN_FAMILY_NAME \<notin> event_families" "CONFIG_STARTUP_INFO_COLUMN_FAMILY_NAME \<notin> event_families"
  "TRANSACTION_EXECUTION_INFO_COLUMN_FAMILY_NAME \<noteq> STATE_NODE_COLUMN_FAMILY_NAME"
  "CONFIG_STARTUP_INFO_COLUMN_FAMILY_NAME \<noteq> STATE_NODE_COLUMN_FAMILY_NAME"
  "STATE_NODE_COLUMN_FAMILY_NAME \<noteq> TRANSACTION_EXECUTION_INFO_COLUMN_FAMILY_NAME" "STATE_NODE_COLUMN_FAMILY_NAME \<noteq> CONFIG_STARTUP_INFO_COLUMN_FAMILY_NAME"
  "EVENT_COLUMN_FAMILY_NAME \<noteq> TRANSACTION_EXECUTION_INFO_COLUMN_FAMILY_NAME" "EVENT_HANDLE_COLUMN_FAMILY_NAME \<noteq> TRANSACTION_EXECUTION_INFO_COLUMN_FAMILY_NAME"
  "EVENT_COLUMN_FAMILY_NAME \<noteq> CONFIG_STARTUP_INFO_COLUMN_FAMILY_NAME" "EVENT_HANDLE_COLUMN_FAMILY_NAME \<noteq> CONFIG_STARTUP_INFO_COLUMN_FAMILY_NAME"
  "CONFIG_STARTUP_INFO_COLUMN_FAMILY_NAME \<noteq> TRANSACTION_EXECUTION_INFO_COLUMN_FAMILY_NAME"
  by (simp_all add: TransactionDBStore_def StartupInfoStore_def derive_store_def info_families_def event_families_def
      STATE_NODE_COLUMN_FAMILY_NAME_def TRANSACTION_EXECUTION_INFO_COLUMN_FAMILY_NAME_def CONFIG_STARTUP_INFO_COLUMN_FAMILY_NAME_def
      EVENT_COLUMN_FAMILY_NAME_def EVENT_HANDLE_COLUMN_FAMILY_NAME_def)

section \<open>Frames\<close>

context state_db begin

lemma node_get_outside:
  assumes "same_outside cfs (contents db) (contents db')" and "STATE_NODE_COLUMN_FAMILY_NAME \<notin> cfs"
  shows "node_get env db' = node_get env db"
  using assms by (auto simp: fun_eq_iff node_get_eq same_outside_def)

lemma foldl_writes_outside:
  "same_outside {cf} m (foldl apply_write m (map (\<lambda>(k, v). (cf, k, Value v)) ns))"
proof (induction ns arbitrary: m)
  case (Cons x ns)
  obtain k v where x: "x = (k, v)" by fastforce
  have "same_outside {cf} m (apply_write m (cf, k, Value v))" by (simp add: same_outside_def)
  from same_outside_trans [OF this Cons.IH] show ?case by (simp only: x list.map foldl.simps prod.case)
qed simp

lemma apply_change_set_outside:
  assumes "apply_change_set env cs db = (r, db')"
  shows "same_outside {STATE_NODE_COLUMN_FAMILY_NAME} (contents db) (contents db')"
proof -
  have w: "same_outside {STATE_NODE_COLUMN_FAMILY_NAME} (contents db) (contents (snd (node_write_nodes env ns db)))" for ns
    using node_write_eq [of ns db] foldl_writes_outside by fastforce
  have "db' = db \<or> (\<exists>ns. db' = snd (node_write_nodes env ns db))"
    using assms by (auto simp: apply_change_set_def Let_def bind_act_def lift_act_def return_act_def split: sum.splits prod.splits)
      (metis snd_conv)+
  with w show ?thesis by auto
qed

end

section \<open>The tables of infos\<close>

lemma map_err_ok: "m s = (Inr x, s') \<Longrightarrow> map_err msg m s = (Inr x, s')"
  by (simp add: map_err_def)

lemma save_startup_info_eq:
  assumes "moveos_env_ok env contents"
  shows "\<exists>db'. save_startup_info env si db = (Inr (), db') \<and>
    kv_view (StartupInfoStore env) (contents db') STARTUP_INFO_KEY = Some si \<and>
    (kv_clean (StartupInfoStore env) (contents db) \<longrightarrow> kv_clean (StartupInfoStore env) (contents db')) \<and>
    same_except CONFIG_STARTUP_INFO_COLUMN_FAMILY_NAME (contents db) (contents db')"
  using kv_put_sync_eq [of "mo_rocks env" info_families contents "StartupInfoStore env" "\<lambda>v. v" STARTUP_INFO_KEY si db] assms
  by (auto simp: moveos_env_ok_def save_startup_info_def)

lemma save_tx_execution_info_eq:
  assumes "moveos_env_ok env contents"
  shows "\<exists>db'. save_tx_execution_info env info db = (Inr (), db') \<and>
    kv_view (TransactionDBStore env) (contents db') = (kv_view (TransactionDBStore env) (contents db))(xi_tx_hash info \<mapsto> info) \<and>
    (kv_clean (TransactionDBStore env) (contents db) \<longrightarrow> kv_clean (TransactionDBStore env) (contents db')) \<and>
    same_except TRANSACTION_EXECUTION_INFO_COLUMN_FAMILY_NAME (contents db) (contents db')"
  using kv_put_eq [of "mo_rocks env" info_families contents "TransactionDBStore env" "\<lambda>v. v" "xi_tx_hash info" info db] assms
  by (auto simp: moveos_env_ok_def save_tx_execution_info_def)

lemma get_infos_eq:
  assumes "moveos_env_ok env contents"
  shows "kv_clean (TransactionDBStore env) (contents db) \<Longrightarrow> get_tx_execution_info env db h = Inr (kv_view (TransactionDBStore env) (contents db) h)"
    and "kv_clean (StartupInfoStore env) (contents db) \<Longrightarrow> get_startup_info env db = Inr (kv_view (StartupInfoStore env) (contents db) STARTUP_INFO_KEY)"
  using kv_get_eq [of "mo_rocks env" info_families contents "TransactionDBStore env" "\<lambda>v. v" db h]
    kv_get_eq [of "mo_rocks env" info_families contents "StartupInfoStore env" "\<lambda>v. v" db STARTUP_INFO_KEY] assms
  by (simp_all add: moveos_env_ok_def get_tx_execution_info_def get_startup_info_def)

section \<open>The node\<close>

text \<open>The tree, the logs and the infos that a database holds for a root.\<close>

definition node_repr ::
    "('db, 'st) moveos_env \<Rightarrow> ('db \<Rightarrow> db_contents) \<Rightarrow> (FieldKey, ObjectState) SmtNode set \<Rightarrow> 'db \<Rightarrow> ObjectMeta \<Rightarrow>
     obj_tree \<Rightarrow> event_log \<Rightarrow> (HashValue \<rightharpoonup> 'st TransactionExecutionInfo) \<Rightarrow> bool" where
  "node_repr env contents Ns db root t L infos \<longleftrightarrow>
     state_repr (state_smt (mo_state env)) Ns (node_get (mo_state env) db) (object_state_new root [0]) t \<and>
     log_repr (mo_event env) (contents db) L \<and>
     kv_view (TransactionDBStore env) (contents db) = infos \<and>
     kv_clean (TransactionDBStore env) (contents db) \<and> kv_clean (StartupInfoStore env) (contents db)"

lemma log_repr_outside:
  assumes "log_repr env (contents db) L" and "same_outside cfs (contents db) (contents db')"
    and "EVENT_COLUMN_FAMILY_NAME \<notin> cfs" and "EVENT_HANDLE_COLUMN_FAMILY_NAME \<notin> cfs"
  shows "log_repr env (contents db') L"
  using assms same_outside_view [OF assms(2), of "EventDBBaseStore env"] same_outside_view [OF assms(2), of "EventHandleDBStore env"]
  by (simp add: log_repr_def)

text \<open>
  What the output of the VM must satisfy: its change set starts from the state root of the actor and
  carries the size after the transaction; the rest are the hypotheses of the components on a change set
  and on events.
\<close>

definition output_ok ::
    "('db, 'st) moveos_env \<Rightarrow> (FieldKey, ObjectState) SmtNode set \<Rightarrow> 'db \<Rightarrow> ObjectMeta \<Rightarrow> event_log \<Rightarrow> 'st RawTransactionOutput \<Rightarrow> bool" where
  "output_ok env Ns db root L raw \<longleftrightarrow>
     (let cs = ro_changeset raw; oe = ee_object (mo_event env); root' = change_set_root_metadata cs in
      sc_state_root cs = meta_state_root root \<and> distinct (map fst (sc_changes cs)) \<and>
      changes_ok (mo_state env) db root' (Some (object_state_new root' [0])) (sc_changes cs) \<and>
      (\<forall>u \<in> set (changes_updates (mo_state env) db root' (sc_changes cs) @
         field_updates_of (mo_state env) db root' (sc_state_root cs) (sc_changes cs)).
         update_covered (state_smt (mo_state env)) Ns (node_get (mo_state env) db) u) \<and>
      inj_on (derive_event_handle_id oe) (te_event_type ` set (ro_events raw)) \<and>
      log_bounded (append_events oe L (ro_events raw)) \<and> length (ro_events raw) \<le> 2 ^ 63)"

text \<open>The tree after the change set, its root with the new size.\<close>

definition tree_after :: "'st RawTransactionOutput \<Rightarrow> obj_tree \<Rightarrow> obj_tree" where
  "tree_after raw t =
     Obj_Tree (plain (change_set_root_metadata (ro_changeset raw))) (tree_value t) (apply_trees (sc_changes (ro_changeset raw)) (tree_fields t))"

lemma length_logged_events [simp]: "length (logged_events oe L es) = length es"
  by (induction oe L es rule: append_events.induct) simp_all

lemma zip_logged: "map (\<lambda>(e, i). new_with_event_id i e) (zip es (map ev_event_id (logged_events oe L es))) = logged_events oe L es"
  by (induction oe L es rule: append_events.induct) (simp_all add: logged_def Let_def new_with_event_id_def)

lemma apply_output_repr:
  assumes "moveos_env_ok env contents" and "hash_free (state_smt (mo_state env)) Ns"
    and "node_repr env contents Ns db root t L infos" and "output_ok env Ns db root L raw" and "oe = ee_object (mo_event env)"
  shows "\<exists>out db'. apply_transaction_output env raw db = (Inr out, db') \<and>
    node_repr env contents Ns db' (change_set_root_metadata (to_changeset out)) (tree_after raw t) (append_events oe L (ro_events raw)) infos \<and>
    to_events out = logged_events oe L (ro_events raw) \<and> to_status out = ro_status raw \<and> to_gas_used out = ro_gas_used raw \<and>
    sc_global_size (to_changeset out) = sc_global_size (ro_changeset raw) \<and>
    extends (state_smt (mo_state env)) Ns {} (node_get (mo_state env) db) (node_get (mo_state env) db') \<and>
    kv_view (StartupInfoStore env) (contents db') STARTUP_INFO_KEY =
      Some (startup_info_new (sc_state_root (to_changeset out)) (sc_global_size (to_changeset out)))"
proof -
  let ?se = "mo_state env" and ?ee = "mo_event env" and ?cs = "ro_changeset raw"
  have ok: "state_env_ok ?se contents" "event_env_ok ?ee contents" using assms(1) by (simp_all add: moveos_env_ok_def)
  have db: "state_db ?se contents" by (rule state_db.intro [OF ok(1)])
  let ?s = "object_state_new (change_set_root_metadata ?cs) [0]" and ?t = "Obj_Tree (plain (change_set_root_metadata ?cs)) [0] (tree_fields t)"
  have o: "sc_state_root ?cs = meta_state_root root" "distinct (map fst (sc_changes ?cs))"
      "changes_ok ?se db (change_set_root_metadata ?cs) (Some (object_state_new (change_set_root_metadata ?cs) [0])) (sc_changes ?cs)"
      "\<forall>u \<in> set (changes_updates ?se db (change_set_root_metadata ?cs) (sc_changes ?cs) @
         field_updates_of ?se db (change_set_root_metadata ?cs) (sc_state_root ?cs) (sc_changes ?cs)).
         update_covered (state_smt ?se) Ns (node_get ?se db) u"
      "inj_on (derive_event_handle_id oe) (te_event_type ` set (ro_events raw))" "log_bounded (append_events oe L (ro_events raw))"
    using assms(4) unfolding output_ok_def Let_def assms(5) by auto
  have r: "state_repr (state_smt ?se) Ns (node_get ?se db) (object_state_new root [0]) t"
      "log_repr ?ee (contents db) L" "kv_view (TransactionDBStore env) (contents db) = infos"
      "kv_clean (TransactionDBStore env) (contents db)" "kv_clean (StartupInfoStore env) (contents db)"
    using assms(3) by (simp_all add: node_repr_def)
  have "state_state_root ?s = state_state_root (object_state_new root [0])"
    using o(1) by (simp add: state_state_root_def meta_state_root_def object_state_new_def change_set_root_metadata_def root_metadata_def)
  then have s: "state_repr (state_smt ?se) Ns (node_get ?se db) ?s ?t"
    using state_repr_moved [OF r(1), of ?s] by (simp add: object_state_new_def)
  have t: "tree_value t = [0]"
    using iffD1 [OF state_repr_iff r(1)] by (auto simp: object_state_new_def)
  have root: "new_root (change_set_root_metadata c) = Inr (object_state_new (change_set_root_metadata c) [0])" for c
    by (simp add: new_root_def new_with_struct_def match_struct_type_def change_set_root_metadata_def root_metadata_def)
  obtain cs1 db1 where a: "apply_change_set ?se ?cs db = (Inr cs1, db1)"
      "state_repr (state_smt ?se) Ns (node_get ?se db1) (object_state_new (change_set_root_metadata cs1) [0]) (tree_after raw t)"
      "sc_global_size cs1 = sc_global_size ?cs" "extends (state_smt ?se) Ns {} (node_get ?se db) (node_get ?se db1)"
    using state_db.apply_change_set_repr [OF db assms(2) root s o(2-4)] root unfolding tree_after_def t by auto
  note out1 = state_db.apply_change_set_outside [OF db a(1)]
  have "log_repr ?ee (contents db1) L" by (rule log_repr_outside [OF r(2) out1]) simp_all
  from save_events_repr [OF ok(2) this assms(5) o(5,6)]
  obtain db2 where b: "save_events ?ee (ro_events raw) db1 = (Inr (map ev_event_id (logged_events oe L (ro_events raw))), db2)"
      "log_repr ?ee (contents db2) (append_events oe L (ro_events raw))" "same_outside event_families (contents db1) (contents db2)" by blast
  let ?si = "startup_info_new (sc_state_root cs1) (sc_global_size cs1)"
  obtain db3 where c: "save_startup_info env ?si db2 = (Inr (), db3)"
      "kv_view (StartupInfoStore env) (contents db3) STARTUP_INFO_KEY = Some ?si"
      "kv_clean (StartupInfoStore env) (contents db2) \<longrightarrow> kv_clean (StartupInfoStore env) (contents db3)"
      "same_except CONFIG_STARTUP_INFO_COLUMN_FAMILY_NAME (contents db2) (contents db3)"
    using save_startup_info_eq [OF assms(1)] by blast
  have out3: "same_outside {CONFIG_STARTUP_INFO_COLUMN_FAMILY_NAME} (contents db2) (contents db3)"
    by (rule same_except_outside [OF c(4)]) simp
  let ?out = "transaction_output_new (ro_status raw) cs1 (logged_events oe L (ro_events raw)) (ro_gas_used raw) (ro_is_upgrade raw)"
  have run: "apply_transaction_output env raw db = (Inr ?out, db3)"
    using a(1) b(1) c(1) by (simp add: apply_transaction_output_def zip_logged Let_def map_err_ok)
  have get: "node_get ?se db3 = node_get ?se db1"
    using state_db.node_get_outside [OF db b(3)] state_db.node_get_outside [OF db out3] by simp
  have log: "log_repr ?ee (contents db3) (append_events oe L (ro_events raw))" by (rule log_repr_outside [OF b(2) out3]) simp_all
  have tx: "kv_view (TransactionDBStore env) (contents db3) = infos" "kv_clean (TransactionDBStore env) (contents db3)"
    using same_outside_view [OF out1, of "TransactionDBStore env"] same_outside_view [OF b(3), of "TransactionDBStore env"]
      same_outside_view [OF out3, of "TransactionDBStore env"] r(3,4) by simp_all
  have st: "kv_clean (StartupInfoStore env) (contents db3)"
    using same_outside_view [OF out1, of "StartupInfoStore env"] same_outside_view [OF b(3), of "StartupInfoStore env"] r(5) c(3) by simp
  have "node_repr env contents Ns db3 (change_set_root_metadata cs1) (tree_after raw t) (append_events oe L (ro_events raw)) infos"
    using a(2) log tx st by (simp add: node_repr_def get)
  with run c(2) a(3,4) show ?thesis by (intro exI [of _ ?out] exI [of _ db3]) (simp add: transaction_output_new_def get)
qed

lemma handle_output_repr:
  assumes "moveos_env_ok env contents" and "node_repr env contents Ns db root t L infos" and "length (to_events out) \<le> 2 ^ 63"
    and "info = execution_info_new h (sc_state_root (to_changeset out)) (sc_global_size (to_changeset out))
      (merkle_root (mo_sha3 env) (map (event_hash (ee_object (mo_event env))) (to_events out))) (to_gas_used out) (to_status out)"
  shows "\<exists>db'. handle_tx_output env h out db = (Inr info, db') \<and> node_repr env contents Ns db' root t L (infos(h \<mapsto> info)) \<and>
    node_get (mo_state env) db' = node_get (mo_state env) db \<and>
    same_except TRANSACTION_EXECUTION_INFO_COLUMN_FAMILY_NAME (contents db) (contents db')"
proof -
  have db: "state_db (mo_state env) contents" using assms(1) by (intro state_db.intro) (simp add: moveos_env_ok_def)
  obtain acc where acc: "from_leaves (mo_sha3 env) (map (event_hash (ee_object (mo_event env))) (to_events out)) = Inr acc"
      "im_root_hash acc = merkle_root (mo_sha3 env) (map (event_hash (ee_object (mo_event env))) (to_events out))"
    using from_leaves_repr [of "map (event_hash (ee_object (mo_event env))) (to_events out)" "mo_sha3 env"] assms(3)
    by (auto simp: im_repr_def)
  obtain db' where s: "save_tx_execution_info env info db = (Inr (), db')"
      "kv_view (TransactionDBStore env) (contents db') = (kv_view (TransactionDBStore env) (contents db))(xi_tx_hash info \<mapsto> info)"
      "kv_clean (TransactionDBStore env) (contents db) \<longrightarrow> kv_clean (TransactionDBStore env) (contents db')"
      "same_except TRANSACTION_EXECUTION_INFO_COLUMN_FAMILY_NAME (contents db) (contents db')"
    using save_tx_execution_info_eq [OF assms(1)] by blast
  have out: "same_outside {TRANSACTION_EXECUTION_INFO_COLUMN_FAMILY_NAME} (contents db) (contents db')"
    by (rule same_except_outside [OF s(4)]) simp
  have h: "xi_tx_hash info = h" by (simp add: assms(4) execution_info_new_def)
  have "handle_tx_output env h out db = (Inr info, db')"
    using acc s(1) by (simp add: handle_tx_output_def Let_def map_err_ok flip: assms(4))
  moreover have "node_repr env contents Ns db' root t L (infos(h \<mapsto> info))"
    using assms(2) s(2,3) state_db.node_get_outside [OF db out] log_repr_outside [OF _ out, of "mo_event env" L]
      same_outside_view [OF out, of "StartupInfoStore env"] by (simp add: node_repr_def h)
  ultimately show ?thesis using s(4) state_db.node_get_outside [OF db out] by auto
qed

section \<open>The executor\<close>

text \<open>Running a transaction in the VM changes no native function.\<close>

lemma load_cost_table_natives: "mv_natives (snd (load_cost_table env vm db root mv)) = mv_natives mv"
  by (simp add: load_cost_table_def bind_act_def map_err_def lift_act_def modify_act_def return_act_def
      split: option.split sum.split prod.split rust_error.split)

lemma cleanup_natives: "mv_natives (snd (execution_cleanup vm b s st info mv)) = mv_natives mv"
  by (simp add: execution_cleanup_def bind_act_def lift_act_def get_act_def modify_act_def return_act_def Let_def
      split: option.split sum.split prod.split)

lemma executor_execute_eq:
  assumes "ctx_tx_hash (vt_ctx tx) = Inr h" and "execute_only env vm db tx (ex_moveos ex) = (Inr (raw, err), mv)"
    and "apply_transaction_output env raw db = (Inr out, db1)" and "handle_tx_output env h out db1 = (Inr info, db2)"
  shows "executor_execute env vm pre post tx (ex, db) =
    (if mv_cost_table mv = None then
       (case and_then (vo_load_from_chain vm db2 (ex_root ex)) (\<lambda>np. moveos_new vm np pre post) of
          Inr mv' \<Rightarrow> (Inr (out, info), \<lparr>ex_root = execution_root_metadata info, ex_moveos = mv'\<rparr>, db2)
        | Inl e \<Rightarrow> (Inl e, ex\<lparr>ex_moveos := mv\<rparr>, db2))
     else (Inr (out, info), \<lparr>ex_root = execution_root_metadata info, ex_moveos = mv\<rparr>, db2))"
  using assms by (cases ex)
    (auto simp: executor_execute_def on_moveos_def on_db_def executor_reload_def bind_act_def lift_act_def modify_act_def return_act_def
      split: sum.splits)

lemma executor_execute_repr:
  assumes "moveos_env_ok env contents" and "hash_free (state_smt (mo_state env)) Ns"
    and "node_repr env contents Ns db (ex_root ex) t L infos" and "oe = ee_object (mo_event env)"
    and "ctx_tx_hash (vt_ctx tx) = Inr h" and "execute_only env vm db tx (ex_moveos ex) = (Inr (raw, err), mv)"
    and "output_ok env Ns db (ex_root ex) L raw"
    and reload: "\<And>db'. mv_cost_table mv = None \<Longrightarrow> \<exists>np. vo_load_from_chain vm db' (ex_root ex) = Inr np \<and> vo_vm_new vm np = Inr ()"
  shows "\<exists>out info ex' db'. executor_execute env vm pre post tx (ex, db) = (Inr (out, info), ex', db') \<and>
    node_repr env contents Ns db' (ex_root ex') (tree_after raw t) (append_events oe L (ro_events raw)) (infos(h \<mapsto> info)) \<and>
    to_events out = logged_events oe L (ro_events raw) \<and> xi_status info = ro_status raw \<and> xi_gas_used info = ro_gas_used raw \<and>
    xi_event_root info = merkle_root (mo_sha3 env) (map (event_hash oe) (to_events out)) \<and>
    execution_root_metadata info = ex_root ex' \<and> om_size (ex_root ex') = sc_global_size (ro_changeset raw) \<and>
    (\<exists>si. get_startup_info env db' = Inr (Some si) \<and> into_root_metadata si = ex_root ex') \<and>
    extends (state_smt (mo_state env)) Ns {} (node_get (mo_state env) db) (node_get (mo_state env) db') \<and>
    (if mv_cost_table mv = None then vo_load_from_chain vm db' (ex_root ex) = Inr (mv_natives (ex_moveos ex')) \<and> mv_cost_table (ex_moveos ex') = None
     else ex_moveos ex' = mv)"
proof -
  obtain out db1 where a: "apply_transaction_output env raw db = (Inr out, db1)"
      "node_repr env contents Ns db1 (change_set_root_metadata (to_changeset out)) (tree_after raw t) (append_events oe L (ro_events raw)) infos"
      "to_events out = logged_events oe L (ro_events raw)" "to_status out = ro_status raw" "to_gas_used out = ro_gas_used raw"
      "sc_global_size (to_changeset out) = sc_global_size (ro_changeset raw)"
      "extends (state_smt (mo_state env)) Ns {} (node_get (mo_state env) db) (node_get (mo_state env) db1)"
      "kv_view (StartupInfoStore env) (contents db1) STARTUP_INFO_KEY =
        Some (startup_info_new (sc_state_root (to_changeset out)) (sc_global_size (to_changeset out)))"
    using apply_output_repr [OF assms(1-3,7,4)] by blast
  have len: "length (to_events out) \<le> 2 ^ 63" using assms(7) by (simp add: a(3) output_ok_def Let_def)
  define info where "info = execution_info_new h (sc_state_root (to_changeset out)) (sc_global_size (to_changeset out))
    (merkle_root (mo_sha3 env) (map (event_hash (ee_object (mo_event env))) (to_events out))) (to_gas_used out) (to_status out)"
  obtain db2 where b: "handle_tx_output env h out db1 = (Inr info, db2)"
      "node_repr env contents Ns db2 (change_set_root_metadata (to_changeset out)) (tree_after raw t) (append_events oe L (ro_events raw)) (infos(h \<mapsto> info))"
      "same_except TRANSACTION_EXECUTION_INFO_COLUMN_FAMILY_NAME (contents db1) (contents db2)"
      "node_get (mo_state env) db2 = node_get (mo_state env) db1"
    using handle_output_repr [OF assms(1) a(2) len info_def] by blast
  have root: "execution_root_metadata info = change_set_root_metadata (to_changeset out)"
    by (simp add: info_def execution_info_new_def execution_root_metadata_def change_set_root_metadata_def)
  have "get_startup_info env db2 = Inr (Some (startup_info_new (sc_state_root (to_changeset out)) (sc_global_size (to_changeset out))))"
    using get_infos_eq(2) [OF assms(1), of db2] b(2) same_except_view [OF b(3), of "StartupInfoStore env"] a(8)
    by (simp add: node_repr_def)
  moreover obtain mv' where "executor_execute env vm pre post tx (ex, db) = (Inr (out, info), \<lparr>ex_root = execution_root_metadata info, ex_moveos = mv'\<rparr>, db2)"
      "if mv_cost_table mv = None then vo_load_from_chain vm db2 (ex_root ex) = Inr (mv_natives mv') \<and> mv_cost_table mv' = None else mv' = mv"
  proof (cases "mv_cost_table mv = None")
    case True
    obtain np where "vo_load_from_chain vm db2 (ex_root ex) = Inr np" "vo_vm_new vm np = Inr ()" using reload [OF True] by blast
    then show ?thesis
      using executor_execute_eq [OF assms(5,6) a(1) b(1), of pre post] True
      by (intro that [of "\<lparr>mv_natives = np, mv_cost_table = None, mv_system_pre_execute_functions = pre, mv_system_post_execute_functions = post\<rparr>"])
        (simp_all add: moveos_new_def)
  next
    case False
    then show ?thesis using executor_execute_eq [OF assms(5,6) a(1) b(1), of pre post] by (intro that [of mv]) (simp_all only: if_False)
  qed
  moreover have "xi_status info = ro_status raw" "xi_gas_used info = ro_gas_used raw"
      "xi_event_root info = merkle_root (mo_sha3 env) (map (event_hash oe) (to_events out))"
    by (simp_all add: info_def execution_info_new_def a(4,5) assms(4))
  moreover have "into_root_metadata (startup_info_new (sc_state_root (to_changeset out)) (sc_global_size (to_changeset out))) = execution_root_metadata info"
    by (simp add: root startup_info_new_def into_root_metadata_def change_set_root_metadata_def)
  ultimately show ?thesis
    using b(2,4) a(3,6,7) root
    by (intro exI [of _ out] exI [of _ info] exI [of _ "\<lparr>ex_root = execution_root_metadata info, ex_moveos = mv'\<rparr>"] exI [of _ db2])
      (simp add: change_set_root_metadata_def root_metadata_def)
qed

end
