(* ===== verification/State_Properties.thy ===== *)
theory State_Properties
  imports State_Refinement
begin

text \<open>
  The correctness of the state database: applying a change set implements the reference on trees of
  objects and keeps every earlier state readable. The instance is a genesis change set on an empty
  database, with a digest that keeps the first 32 bytes and an encoding of the two states it stores.
\<close>

section \<open>Concrete data for the instance\<close>

definition key_digest :: digest where
  "key_digest x = take 32 (x @ replicate 32 0)"

definition room_meta :: ObjectMeta where
  "room_meta = (genesis_meta [5] (TagStruct (StructTag 3 ''room'' ''Room'' [])))\<lparr>om_size := 1\<rparr>"

definition door_meta :: ObjectMeta where
  "door_meta = genesis_meta [5, 6] (TagStruct (StructTag 3 ''room'' ''Door'' []))"

definition door_state :: ObjectState where
  "door_state = object_state_new (meta_update_state_root GENESIS_STATE_ROOT door_meta) [9]"

definition room_state :: ObjectState where
  "room_state = object_state_new (meta_update_state_root (address_bytes 6) room_meta) [7]"

definition room_env :: "db_contents state_env" where
  "room_env =
     \<lparr>se_rocks = map_rocks,
      se_node_codec = \<lparr>bc_key_to_bytes = Inr, bc_key_from_bytes = Inr, bc_value_to_bytes = Inr, bc_value_from_bytes = Inr\<rparr>,
      se_digest = key_digest,
      se_state_to_bytes = \<lambda>s. if s = door_state then Inr [1] else if s = room_state then Inr [2] else Inl (Fail ''bcs''),
      se_state_from_bytes = \<lambda>bs. if bs = [1] then Inr door_state else if bs = [2] then Inr room_state else Inl (Fail ''bcs''),
      se_kv_to_bytes = \<lambda>(key, raw). (if length key = 32 then Inr (key @ raw) else Inl (Fail ''bcs'')),
      se_kv_from_bytes = \<lambda>bs. (if 32 \<le> length bs then Inr (take 32 bs, drop 32 bs) else Inl (Fail ''bcs''))\<rparr>"

definition room_changes :: "(FieldKey \<times> ObjectChange) list" where
  "room_changes = [(5, ObjectChange room_meta (Some (New [7])) [(6, ObjectChange door_meta (Some (New [9])) [])])]"

lemma room_env_ok: "state_env_ok room_env (\<lambda>db. db)"
  by (auto simp: state_env_ok_def room_env_def map_rocks_contract value_codec_def kv_codec_def kv_total_def digest_ok_def state_smt_def
      key_digest_def hash_value_length split: if_splits)

abbreviation empty_db :: db_contents where
  "empty_db \<equiv> \<lambda>_ _. None"

definition room_set :: StateChangeSet where
  "room_set = change_set_default\<lparr>sc_global_size := 1, sc_changes := room_changes\<rparr>"

abbreviation room_leaf :: "FieldKey \<Rightarrow> ObjectState \<Rightarrow> u8 \<Rightarrow> (FieldKey, ObjectState) SmtNode" where
  "room_leaf k s b \<equiv> Leaf_Node \<lparr>ln_key = k, ln_value = \<lparr>obj_origin = s, obj_raw = [b]\<rparr>\<rparr>"

lemma room_updates:
  "changes_updates room_env empty_db (change_set_root_metadata room_set) (sc_changes room_set) @
     field_updates_of room_env empty_db (change_set_root_metadata room_set) (sc_state_root room_set) (sc_changes room_set) =
   [(GENESIS_STATE_ROOT, us_new), (GENESIS_STATE_ROOT, us_put 6 door_state us_new), (GENESIS_STATE_ROOT, us_put 5 room_state us_new)]"
  by code_simp

lemma room_hash_free: "hash_free (state_smt room_env) {room_leaf 6 door_state 1, room_leaf 5 room_state 2}"
proof -
  have "distinct [nhash (state_smt room_env) (room_leaf 6 door_state 1), nhash (state_smt room_env) (room_leaf 5 room_state 2),
      SPARSE_MERKLE_PLACEHOLDER_HASH]" by code_simp
  then show ?thesis by (auto simp: hash_free_def)
qed

lemma genesis_update_covered:
  assumes "hash_free E Ns" and "into_updates E us = Inr kvs" and "batch_nodes E kvs Map.empty \<subseteq> Ns"
  shows "update_covered E Ns get (GENESIS_STATE_ROOT, us)"
  using assms(2,3) genesis_empty [OF assms(1)] by (auto simp: update_covered_def values_free_def)

lemma room_covered:
  assumes "u \<in> {(GENESIS_STATE_ROOT, us_new), (GENESIS_STATE_ROOT, us_put 6 door_state us_new), (GENESIS_STATE_ROOT, us_put 5 room_state us_new)}"
  shows "update_covered (state_smt room_env) {room_leaf 6 door_state 1, room_leaf 5 room_state 2} get u"
proof -
  have kvs: "into_updates (state_smt room_env) us_new = Inr []"
      "into_updates (state_smt room_env) (us_put 6 door_state us_new) = Inr [(6, Some \<lparr>obj_origin = door_state, obj_raw = [1]\<rparr>)]"
      "into_updates (state_smt room_env) (us_put 5 room_state us_new) = Inr [(5, Some \<lparr>obj_origin = room_state, obj_raw = [2]\<rparr>)]"
    by code_simp+
  have "batch_nodes (state_smt room_env) [(k, Some b)] Map.empty = {Leaf_Node \<lparr>ln_key = k, ln_value = b\<rparr>}" for k b
    by (simp add: upd_def Let_def smt_leaf_new_def)
  with assms genesis_update_covered [OF room_hash_free kvs(1)] genesis_update_covered [OF room_hash_free kvs(2)]
    genesis_update_covered [OF room_hash_free kvs(3)]
  show ?thesis by auto
qed

lemma genesis_state_repr:
  "state_repr E Ns get (object_state_new (root_metadata GENESIS_STATE_ROOT n) v) (Obj_Tree (plain (root_metadata GENESIS_STATE_ROOT n)) v Map.empty)"
  by (subst state_repr_iff)
    (auto intro!: exI [of _ Map.empty] genesis_represents
      simp: object_state_new_def values_ok_def view_def state_state_root_def meta_state_root_def root_metadata_def)

lemma room_changes_ok:
  "distinct (map fst (sc_changes room_set))" "changes_ok room_env empty_db (change_set_root_metadata room_set) base (sc_changes room_set)"
  by (simp_all add: room_set_def room_changes_def room_meta_def door_meta_def genesis_meta_def is_genesis_def)

interpretation room: state_db room_env "\<lambda>db. db"
  by unfold_locales (rule room_env_ok)

section \<open>Change sets\<close>

text \<open>
  C4. Applying a change set to a stored state succeeds and implements the reference on trees of objects:
  from the new root, the resolver reads at every identifier the object that the reference has there;
  the new state stands for the new tree, so that further change sets apply to it; every object that was
  stored stands for its tree as before, and the old root is read as before. The database keeps its
  contract, the change set agrees with the stored state, and the nodes involved do not collide.
\<close>

theorem apply_change_set_refines:
  assumes "state_env_ok env contents" and "hash_free (state_smt env) Ns"
    and "state_repr (state_smt env) Ns (node_get env db) (object_state_new (change_set_root_metadata cs) [0]) t"
    and "distinct (map fst (sc_changes cs))"
    and "changes_ok env db (change_set_root_metadata cs) (Some (object_state_new (change_set_root_metadata cs) [0])) (sc_changes cs)"
    and "\<forall>u \<in> set (changes_updates env db (change_set_root_metadata cs) (sc_changes cs) @
      field_updates_of env db (change_set_root_metadata cs) (sc_state_root cs) (sc_changes cs)).
      update_covered (state_smt env) Ns (node_get env db) u"
    and "t' = Obj_Tree (tree_meta t) (tree_value t) (apply_trees (sc_changes cs) (tree_fields t))"
  shows "\<exists>cs' db'. apply_change_set env cs db = (Inr cs', db') \<and>
    (\<forall>oid. read_object env db' (change_set_root_metadata cs') oid = Inr (map_option tree_shown (tree_at t' oid))) \<and>
    state_repr (state_smt env) Ns (node_get env db') (object_state_new (change_set_root_metadata cs') [0]) t' \<and>
    (\<forall>s0 t0. state_repr (state_smt env) Ns (node_get env db) s0 t0 \<longrightarrow> state_repr (state_smt env) Ns (node_get env db') s0 t0) \<and>
    (\<forall>oid. get_object env db' (change_set_root_metadata cs) oid = get_object env db (change_set_root_metadata cs) oid)"
proof -
  have root: "new_root (change_set_root_metadata c) = Inr (object_state_new (change_set_root_metadata c) [0])" for c
    by (simp add: new_root_def new_with_struct_def match_struct_type_def change_set_root_metadata_def root_metadata_def)
  have db: "state_db env contents" by (rule state_db.intro [OF assms(1)])
  obtain cs' db' where a: "apply_change_set env cs db = (Inr cs', db')"
      "state_repr (state_smt env) Ns (node_get env db') (object_state_new (change_set_root_metadata cs') [0]) t'"
      "extends (state_smt env) Ns {} (node_get env db) (node_get env db')"
    using state_db.apply_change_set_repr [OF db assms(2) root assms(3-6)] root unfolding assms(7) by auto
  note new = state_db.read_object_repr [OF db assms(2) root a(2)] and old = state_db.get_object_extends [OF db assms(2) root assms(3) a(3)]
  show ?thesis by (intro exI conjI allI impI, rule a(1), rule new, rule a(2), rule state_repr_extends [OF _ a(3)], assumption, rule old)
qed

theorem apply_change_set_refines_witness:
  "\<exists>cs' db'. apply_change_set room_env room_set empty_db = (Inr cs', db') \<and>
     read_object room_env db' (change_set_root_metadata cs') [5] = Inr (Some (room_meta, [7])) \<and>
     read_object room_env db' (change_set_root_metadata cs') [5, 6] = Inr (Some (door_meta, [9])) \<and>
     read_object room_env db' (change_set_root_metadata cs') [6] = Inr None \<and>
     get_object room_env db' (change_set_root_metadata room_set) [5] = get_object room_env empty_db (change_set_root_metadata room_set) [5]"
proof -
  let ?root = "change_set_root_metadata room_set"
  have g: "state_repr (state_smt room_env) Ns get (object_state_new ?root [0]) (Obj_Tree (plain ?root) [0] Map.empty)" for Ns get
    using genesis_state_repr by (simp add: room_set_def change_set_default_def change_set_root_metadata_def)
  have cov: "\<forall>u \<in> set (changes_updates room_env empty_db ?root (sc_changes room_set) @
      field_updates_of room_env empty_db ?root (sc_state_root room_set) (sc_changes room_set)).
      update_covered (state_smt room_env) {room_leaf 6 door_state 1, room_leaf 5 room_state 2} (node_get room_env empty_db) u"
    unfolding room_updates using room_covered by simp
  have shown: "tree_at (Obj_Tree m v (apply_trees (sc_changes room_set) Map.empty)) [5] =
        Some (Obj_Tree room_meta [7] [6 \<mapsto> Obj_Tree door_meta [9] Map.empty])" for m v
    by (simp add: room_set_def room_changes_def room_meta_def door_meta_def genesis_meta_def plain_def is_genesis_def Let_def)
  have shown': "tree_at (Obj_Tree m v (apply_trees (sc_changes room_set) Map.empty)) [5, 6] = Some (Obj_Tree door_meta [9] Map.empty)"
      "tree_at (Obj_Tree m v (apply_trees (sc_changes room_set) Map.empty)) [6] = None" for m v
    by (simp_all add: room_set_def room_changes_def room_meta_def door_meta_def genesis_meta_def plain_def is_genesis_def Let_def)
  obtain cs' db' where a: "apply_change_set room_env room_set empty_db = (Inr cs', db')"
      "\<And>oid. read_object room_env db' (change_set_root_metadata cs') oid =
        Inr (map_option tree_shown (tree_at (Obj_Tree (plain ?root) [0] (apply_trees (sc_changes room_set) Map.empty)) oid))"
      "\<And>oid. get_object room_env db' ?root oid = get_object room_env empty_db ?root oid"
    using apply_change_set_refines [OF room_env_ok room_hash_free g room_changes_ok cov refl] unfolding obj_tree.sel by blast
  show ?thesis
    by (intro exI [of _ cs'] exI [of _ db']) (simp only: a shown shown' option.map tree_shown_def obj_tree.sel simp_thms)
qed

end
