(* ===== verification/Executor_Properties.thy ===== *)
theory Executor_Properties
  imports Executor_Refinement State_Properties Gas_Properties
begin

text \<open>
  The correctness of executing a transaction, and the root from which the native functions are made
  anew. The instances run the genesis change set and the events of the instances of the components in
  a VM that returns them.
\<close>

section \<open>Concrete data for the instances\<close>

definition node_env :: "(db_contents, bool) moveos_env" where
  "node_env =
     \<lparr>mo_state = room_env, mo_event = note_env, mo_rocks = map_rocks, mo_sha3 = key_digest,
      mo_info_codec = \<lparr>bc_key_to_bytes = unary (\<lambda>k. k), bc_key_from_bytes = of_unary (\<lambda>k. k),
        bc_value_to_bytes = unary (\<lambda>i. (xi_tx_hash i, xi_state_root i, xi_size i, xi_event_root i, xi_gas_used i, xi_status i)),
        bc_value_from_bytes = of_unary (\<lambda>(h, r, n, e, g, st). execution_info_new h r n e g st)\<rparr>,
      mo_startup_codec = \<lparr>bc_key_to_bytes = unary (\<lambda>k. k), bc_key_from_bytes = of_unary (\<lambda>k. k),
        bc_value_to_bytes = unary (\<lambda>i. (si_state_root i, si_size i)), bc_value_from_bytes = of_unary (\<lambda>(r, n). startup_info_new r n)\<rparr>,
      mo_genesis_codec = \<lparr>bc_key_to_bytes = unary (\<lambda>k. k), bc_key_from_bytes = of_unary (\<lambda>k. k),
        bc_value_to_bytes = \<lambda>_. Inl (Fail ''bcs''), bc_value_from_bytes = \<lambda>_. Inl (Fail ''bcs'')\<rparr>\<rparr>"

definition room_output :: "bool RawTransactionOutput" where
  "room_output = \<lparr>ro_status = True, ro_changeset = room_set, ro_events = note_events, ro_gas_used = 0, ro_is_upgrade = False\<rparr>"

text \<open>A VM that returns this output; the native functions are the root they were loaded from.\<close>

definition room_vm :: "bool \<Rightarrow> (db_contents, unit, bool, bool, unit, ObjectMeta, unit) vm_ops" where
  "room_vm updated =
     \<lparr>vo_vm_new = \<lambda>_. Inr (), vo_new_session = \<lambda>_ _ _ _ _. (), vo_new_readonly_session = \<lambda>_ _ _ _ _. (),
      vo_verify_move_action = \<lambda>_ _. Inl (Fail ''verify''), vo_execute_function_call = \<lambda>_ _ s. (None, s),
      vo_execute_function_bypass_visibility = \<lambda>_ s. (Inr (), s), vo_execute_move_action = \<lambda>_ s. (None, s),
      vo_status_of_result = \<lambda>r. r = None, vo_into_vm_status = \<lambda>_. False, vo_keep_or_discard = Some, vo_executed = True,
      vo_error_info = \<lambda>_ _. Inl (Fail ''info''), vo_respawn = \<lambda>_ s. s, vo_query_gas_used = \<lambda>_. 0, vo_add_to_tx_context = \<lambda>_ s. Some s,
      vo_release_arguments = Some, vo_gas_schedule_updated = \<lambda>_. Inr updated, vo_finish_with_extensions = \<lambda>_ _. Inr room_output,
      vo_gas_algebra = saturating,
      vo_load_from_chain = \<lambda>_ root. Inr root, vo_gas_entries = \<lambda>_. Inr []\<rparr>"

definition room_start :: ObjectMeta where
  "room_start = root_metadata GENESIS_STATE_ROOT 0"

definition room_tx :: VerifiedMoveOSTransaction where
  "room_tx = \<lparr>vt_root = room_start, vt_ctx = tx_context_new 7 0 100 (replicate 32 1) 0,
     vt_action = VerifiedScript \<lparr>sl_code = [], sl_ty_args = [], sl_args = []\<rparr>\<rparr>"

definition room_executor :: "ObjectMeta ExecutorActor" where
  "room_executor = \<lparr>ex_root = room_start,
     ex_moveos = \<lparr>mv_natives = genesis_root, mv_cost_table = Some zero_cost_schedule, mv_system_pre_execute_functions = [],
       mv_system_post_execute_functions = []\<rparr>\<rparr>"

lemma node_env_ok: "moveos_env_ok node_env (\<lambda>db. db)"
  using room_env_ok note_env_ok
  by (auto simp: moveos_env_ok_def node_env_def map_rocks_contract schema_ok_def TransactionDBStore_def StartupInfoStore_def derive_store_def
      unary_def of_unary_def execution_info_new_def startup_info_new_def)

lemma node_start:
  "node_repr node_env (\<lambda>db. db) Ns empty_db room_start (Obj_Tree (plain room_start) [0] Map.empty) Map.empty Map.empty"
  using genesis_state_repr note_start
  by (auto simp: node_repr_def node_env_def room_start_def kv_clean_def kv_view_def
      TransactionDBStore_def derive_store_def unary_def fun_eq_iff)

lemma room_state_root: "sc_state_root room_set = meta_state_root room_start"
  by (simp add: room_set_def change_set_default_def room_start_def root_metadata_def meta_state_root_def)

lemma room_output_ok:
  "output_ok node_env {room_leaf 6 door_state 1, room_leaf 5 room_state 2} empty_db room_start Map.empty room_output"
  using room_changes_ok room_covered note_inj note_bounded unfolding output_ok_def Let_def room_updates
  by (simp add: room_output_def node_env_def note_env_def room_updates note_events_def room_state_root [symmetric])

lemma room_charge: "\<exists>m. charge_io_write saturating 0 (meter_new zero_cost_schedule 100) = (Inr (), m)"
  by (auto simp: charge_io_write_def charge_v1_def deduct_gas_def saturating_def meter_new_def split: prod.split)

lemma room_run:
  "execute_only node_env (room_vm updated) empty_db room_tx (ex_moveos room_executor) =
     (Inr (room_output, None), (ex_moveos room_executor)\<lparr>mv_cost_table := if updated then None else Some zero_cost_schedule\<rparr>)"
  using room_charge
  by (auto simp: execute_only_def moveos_execute_def room_tx_def room_executor_def tx_context_new_def ctx_tx_hash_def load_cost_table_def
      is_system_call_def system_functions_def execute_action_def execution_cleanup_def room_vm_def expect_def assert_that_def Let_def)

lemma room_hash: "ctx_tx_hash (vt_ctx room_tx) = Inr (replicate 32 1)"
  by (simp add: room_tx_def tx_context_new_def ctx_tx_hash_def)

lemma node_objects: "note_objects = ee_object (mo_event node_env)" by (simp add: node_env_def note_env_def)

lemma room_hash_free_node: "hash_free (state_smt (mo_state node_env)) {room_leaf 6 door_state 1, room_leaf 5 room_state 2}"
  using room_hash_free by (simp add: node_env_def)

lemma room_node:
  "node_repr node_env (\<lambda>db. db) Ns empty_db (ex_root room_executor) (Obj_Tree (plain room_start) [0] Map.empty) Map.empty Map.empty"
  using node_start by (simp add: room_executor_def)

lemma room_executor_output:
  "output_ok node_env {room_leaf 6 door_state 1, room_leaf 5 room_state 2} empty_db (ex_root room_executor) Map.empty room_output"
  using room_output_ok by (simp add: room_executor_def)

lemma room_door_at: "tree_at (tree_after room_output (Obj_Tree m v Map.empty)) [5, 6] = Some (Obj_Tree door_meta [9] Map.empty)"
  by (simp add: tree_after_def room_output_def room_set_def room_changes_def room_meta_def door_meta_def genesis_meta_def plain_def
      is_genesis_def Let_def)

section \<open>Reading at the new and at the old root\<close>

lemma root_metadata_new: "new_root (root_metadata sr sz) = Inr (object_state_new (root_metadata sr sz) [0])"
  by (simp add: new_root_def new_with_struct_def match_struct_type_def root_metadata_def)

lemma state_reads:
  assumes "moveos_env_ok env contents" and "hash_free (state_smt (mo_state env)) Ns"
    and "state_repr (state_smt (mo_state env)) Ns (node_get (mo_state env) db) (object_state_new (root_metadata sr sz) [0]) t"
  shows "read_object (mo_state env) db (root_metadata sr sz) oid = Inr (map_option tree_shown (tree_at t oid))"
proof -
  have "state_db (mo_state env) contents" using assms(1) by (intro state_db.intro) (simp add: moveos_env_ok_def)
  from state_db.read_object_repr [OF this assms(2) root_metadata_new assms(3)] show ?thesis .
qed

lemma node_reads:
  assumes "moveos_env_ok env contents" and "hash_free (state_smt (mo_state env)) Ns"
    and "node_repr env contents Ns db root t L infos" and "execution_root_metadata info = root"
  shows "read_object (mo_state env) db root oid = Inr (map_option tree_shown (tree_at t oid))"
  using state_reads [OF assms(1,2)] assms(3,4) unfolding node_repr_def execution_root_metadata_def by blast

lemma old_root_reads:
  assumes "moveos_env_ok env contents" and "hash_free (state_smt (mo_state env)) Ns"
    and "node_repr env contents Ns db root t L infos" and "root = root_metadata sr sz"
    and "extends (state_smt (mo_state env)) Ns {} (node_get (mo_state env) db) (node_get (mo_state env) db')"
  shows "read_object (mo_state env) db' root oid = Inr (map_option tree_shown (tree_at t oid))"
  using state_reads [OF assms(1,2) state_repr_extends [OF _ assms(5)]] assms(3,4) unfolding node_repr_def by blast

section \<open>The native functions\<close>

text \<open>Steps that keep the native functions, and their composition.\<close>

definition keeps_natives :: "('np MoveOS, 'a) action \<Rightarrow> bool" where
  "keeps_natives f \<longleftrightarrow> (\<forall>mv. mv_natives (snd (f mv)) = mv_natives mv)"

lemma keeps_natives_bind [intro]: "keeps_natives f \<Longrightarrow> (\<And>x. keeps_natives (g x)) \<Longrightarrow> keeps_natives (bind_act f g)"
proof (unfold keeps_natives_def, rule allI)
  fix mv
  assume f: "\<forall>mv. mv_natives (snd (f mv)) = mv_natives mv" and g: "\<And>x. \<forall>mv. mv_natives (snd (g x mv)) = mv_natives mv"
  obtain r mv' where r: "f mv = (r, mv')" by fastforce
  then have "mv_natives mv' = mv_natives mv" using spec [OF f, of mv] by simp
  then show "mv_natives (snd (bind_act f g mv)) = mv_natives mv" using r g by (simp add: bind_act_def split: sum.split)
qed

lemma keeps_natives_steps [intro]:
  "keeps_natives (lift_act r)" "keeps_natives (get_act h)" "keeps_natives (load_cost_table env vm db root)"
  "keeps_natives (execution_cleanup vm b s st info)"
  by (simp_all add: keeps_natives_def lift_act_def get_act_def load_cost_table_natives cleanup_natives)

lemma keeps_natives_case [intro]:
  "(\<And>a b. keeps_natives (f a b)) \<Longrightarrow> keeps_natives (case p of (a, b) \<Rightarrow> f a b)"
  "(\<And>a. keeps_natives (g a)) \<Longrightarrow> (\<And>b. keeps_natives (h b)) \<Longrightarrow> keeps_natives (case s of Inl a \<Rightarrow> g a | Inr b \<Rightarrow> h b)"
  by (simp_all split: prod.split sum.split)

lemma execute_only_natives: "keeps_natives (execute_only env vm db tx)"
  unfolding execute_only_def moveos_execute_def Let_def
  by (intro keeps_natives_bind keeps_natives_steps keeps_natives_case)

text \<open>
  The calls of the actor after an execution. An execution that updates the gas schedule and returns ends
  such a run: it makes the native functions anew and leaves no cost table.
\<close>

inductive later_run ::
    "('db, 'st) moveos_env \<Rightarrow> ('db, 's, 'st, 'vs, 've, 'np, 'rv) vm_ops \<Rightarrow> FunctionCall list \<Rightarrow> FunctionCall list \<Rightarrow>
     'np ExecutorActor \<times> 'db \<Rightarrow> 'np ExecutorActor \<times> 'db \<Rightarrow> bool"
  for env :: "('db, 'st) moveos_env" and vm :: "('db, 's, 'st, 'vs, 've, 'np, 'rv) vm_ops" and pre post a where
  start: "later_run env vm pre post a a"
| execute: "later_run env vm pre post a b \<Longrightarrow> executor_execute env vm pre post tx b = (r, ex, db) \<Longrightarrow>
    isl r \<or> mv_cost_table (ex_moveos ex) \<noteq> None \<Longrightarrow> later_run env vm pre post a (ex, db)"
| dry_run: "later_run env vm pre post a b \<Longrightarrow> executor_dry_run env vm tx b = (r', c) \<Longrightarrow> later_run env vm pre post a c"
| call: "later_run env vm pre post a b \<Longrightarrow> executor_call_function env vm ctx f b = (r'', c) \<Longrightarrow> later_run env vm pre post a c"

lemma executor_execute_natives:
  assumes "executor_execute env vm pre post tx b = (r, ex, db)" and "isl r \<or> mv_cost_table (ex_moveos ex) \<noteq> None"
  shows "mv_natives (ex_moveos ex) = mv_natives (ex_moveos (fst b))"
proof -
  obtain ex0 db0 r1 mv where b: "b = (ex0, db0)" and mv: "execute_only env vm db0 tx (ex_moveos ex0) = (r1, mv)" by fastforce
  then have n: "mv_natives mv = mv_natives (ex_moveos ex0)"
    using execute_only_natives [of env vm db0 tx] by (auto simp: keeps_natives_def dest: spec [of _ "ex_moveos ex0"])
  from assms show ?thesis unfolding b
    by (auto simp: executor_execute_def on_moveos_def on_db_def executor_reload_def moveos_new_def bind_act_def lift_act_def modify_act_def
        return_act_def and_then_def mv n split: sum.splits prod.splits if_splits)
qed

lemma executor_call_natives:
  "mv_natives (ex_moveos (fst (snd (executor_call_function env vm ctx f b)))) = mv_natives (ex_moveos (fst b))"
  using load_cost_table_natives [of env vm "snd b" "ex_root (fst b)" "ex_moveos (fst b)"]
  by (auto simp: executor_call_function_def execute_readonly_function_def Let_def split: prod.splits sum.splits)

lemma executor_dry_run_natives:
  "mv_natives (ex_moveos (fst (snd (executor_dry_run env vm tx b)))) = mv_natives (ex_moveos (fst b))"
  using execute_only_natives [of env vm "snd b" tx]
  by (auto simp: executor_dry_run_def on_moveos_def keeps_natives_def split: prod.split dest: spec [of _ "ex_moveos (fst b)"])

lemma later_run_natives:
  "later_run env vm pre post a b \<Longrightarrow> mv_natives (ex_moveos (fst b)) = mv_natives (ex_moveos (fst a))"
proof (induction rule: later_run.induct)
  case (execute b tx r ex db)
  then show ?case using executor_execute_natives [OF execute.hyps(2,3)] by simp
next
  case (dry_run b tx r' c)
  then show ?case using executor_dry_run_natives [of env vm tx b] by simp
next
  case (call b ctx f r'' c)
  then show ?case using executor_call_natives [of env vm ctx f b] by simp
qed simp

section \<open>Properties\<close>

text \<open>
  C1. Executing a transaction moves the node as the references of its components do. Let the VM return
  an output whose change set starts from the state root of the actor and carries the size after the
  transaction, and let the native functions load again when the transaction updated the gas schedule.
  Then the actor answers with the events numbered by the log and an execution info that commits to
  their hashes, the status and the gas; its new root has the new size and stands for the tree after the
  change set, and the resolver reads that tree; the logs have the events appended; the info is stored
  under the hash of the transaction and no other info changes; the startup info names the new root.
\<close>

theorem executor_execute_refines:
  assumes "moveos_env_ok env contents" and "hash_free (state_smt (mo_state env)) Ns"
    and "node_repr env contents Ns db (ex_root ex) t L infos" and "oe = ee_object (mo_event env)"
    and "ctx_tx_hash (vt_ctx tx) = Inr h" and "execute_only env vm db tx (ex_moveos ex) = (Inr (raw, err), mv)"
    and "output_ok env Ns db (ex_root ex) L raw"
    and "\<And>db'. mv_cost_table mv = None \<Longrightarrow> \<exists>np. vo_load_from_chain vm db' (ex_root ex) = Inr np \<and> vo_vm_new vm np = Inr ()"
  shows "\<exists>out info ex' db'. executor_execute env vm pre post tx (ex, db) = (Inr (out, info), ex', db') \<and>
    node_repr env contents Ns db' (ex_root ex') (tree_after raw t) (append_events oe L (ro_events raw)) (infos(h \<mapsto> info)) \<and>
    (\<forall>oid. read_object (mo_state env) db' (ex_root ex') oid = Inr (map_option tree_shown (tree_at (tree_after raw t) oid))) \<and>
    om_size (ex_root ex') = sc_global_size (ro_changeset raw) \<and>
    to_events out = logged_events oe L (ro_events raw) \<and> xi_status info = ro_status raw \<and> xi_gas_used info = ro_gas_used raw \<and>
    xi_event_root info = merkle_root (mo_sha3 env) (map (event_hash oe) (to_events out)) \<and>
    execution_root_metadata info = ex_root ex' \<and> get_tx_execution_info env db' h = Inr (Some info) \<and>
    (\<exists>si. get_startup_info env db' = Inr (Some si) \<and> into_root_metadata si = ex_root ex')"
proof -
  obtain out info ex' db' where r: "executor_execute env vm pre post tx (ex, db) = (Inr (out, info), ex', db')"
      "node_repr env contents Ns db' (ex_root ex') (tree_after raw t) (append_events oe L (ro_events raw)) (infos(h \<mapsto> info))"
      "to_events out = logged_events oe L (ro_events raw)" "xi_status info = ro_status raw" "xi_gas_used info = ro_gas_used raw"
      "xi_event_root info = merkle_root (mo_sha3 env) (map (event_hash oe) (to_events out))"
      "execution_root_metadata info = ex_root ex'" "om_size (ex_root ex') = sc_global_size (ro_changeset raw)"
      "\<exists>si. get_startup_info env db' = Inr (Some si) \<and> into_root_metadata si = ex_root ex'"
    using executor_execute_repr [OF assms(1-7), of pre post] assms(8) by blast
  have "read_object (mo_state env) db' (ex_root ex') oid = Inr (map_option tree_shown (tree_at (tree_after raw t) oid))" for oid
    using node_reads [OF assms(1,2) r(2)] r(7) by metis
  moreover have "get_tx_execution_info env db' h = Inr (Some info)"
    using get_infos_eq(1) [OF assms(1), of db' h] r(2) by (simp add: node_repr_def)
  ultimately show ?thesis
    using r by (intro exI [of _ out] exI [of _ info] exI [of _ ex'] exI [of _ db']) simp
qed

theorem executor_execute_refines_witness:
  "\<exists>out info ex' db'. executor_execute node_env (room_vm True) [] [] room_tx (room_executor, empty_db) = (Inr (out, info), ex', db') \<and>
     read_object room_env db' (ex_root ex') [5, 6] = Inr (Some (door_meta, [9])) \<and> om_size (ex_root ex') = 1 \<and>
     length (to_events out) = 3 \<and> get_tx_execution_info node_env db' (replicate 32 1) = Inr (Some info)"
proof -
  have reload: "\<exists>np. vo_load_from_chain (room_vm True) db' (ex_root room_executor) = Inr np \<and> vo_vm_new (room_vm True) np = Inr ()" for db'
    by (simp add: room_vm_def)
  obtain out info ex' db' where r: "executor_execute node_env (room_vm True) [] [] room_tx (room_executor, empty_db) = (Inr (out, info), ex', db')"
      "\<And>oid. read_object (mo_state node_env) db' (ex_root ex') oid =
         Inr (map_option tree_shown (tree_at (tree_after room_output (Obj_Tree (plain room_start) [0] Map.empty)) oid))"
      "om_size (ex_root ex') = sc_global_size (ro_changeset room_output)"
      "to_events out = logged_events note_objects Map.empty (ro_events room_output)" "get_tx_execution_info node_env db' (replicate 32 1) = Inr (Some info)"
    using executor_execute_refines [OF node_env_ok room_hash_free_node room_node node_objects room_hash room_run room_executor_output reload] by blast
  have "read_object room_env db' (ex_root ex') [5, 6] = Inr (Some (door_meta, [9]))"
    using r(2) [of "[5, 6]"] unfolding room_door_at by (simp add: node_env_def tree_shown_def)
  moreover have "length (to_events out) = 3" unfolding r(4) by (simp add: room_output_def note_events_def)
  moreover have "om_size (ex_root ex') = 1" unfolding r(3) by (simp add: room_output_def room_set_def)
  ultimately show ?thesis using r(1,5) by blast
qed

text \<open>
  C38. After a transaction that updated the gas schedule the native functions are made anew, but from
  the state before that transaction: the root handed to the loader is the one the actor had. In the
  database the loader is given, that root still reads the tree before the transaction, while the actor
  moves to the root that reads the tree after it, the new gas schedule included. Every later execution,
  dry run or call of a function keeps these native functions, until an execution updates the schedule
  again.
\<close>

theorem natives_from_old_root:
  assumes "moveos_env_ok env contents" and "hash_free (state_smt (mo_state env)) Ns"
    and "node_repr env contents Ns db (ex_root ex) t L infos" and "ex_root ex = root_metadata sr sz"
    and "ctx_tx_hash (vt_ctx tx) = Inr h" and "execute_only env vm db tx (ex_moveos ex) = (Inr (raw, err), mv)"
    and "output_ok env Ns db (ex_root ex) L raw" and "mv_cost_table mv = None"
    and "\<And>db'. \<exists>np. vo_load_from_chain vm db' (ex_root ex) = Inr np \<and> vo_vm_new vm np = Inr ()"
  shows "\<exists>out info ex' db'. executor_execute env vm pre post tx (ex, db) = (Inr (out, info), ex', db') \<and>
    vo_load_from_chain vm db' (ex_root ex) = Inr (mv_natives (ex_moveos ex')) \<and>
    (\<forall>oid. read_object (mo_state env) db' (ex_root ex) oid = Inr (map_option tree_shown (tree_at t oid)) \<and>
       read_object (mo_state env) db' (ex_root ex') oid = Inr (map_option tree_shown (tree_at (tree_after raw t) oid))) \<and>
    (\<forall>ex'' db''. later_run env vm pre post (ex', db') (ex'', db'') \<longrightarrow> mv_natives (ex_moveos ex'') = mv_natives (ex_moveos ex'))"
proof -
  obtain out info ex' db' where r: "executor_execute env vm pre post tx (ex, db) = (Inr (out, info), ex', db')"
      "node_repr env contents Ns db' (ex_root ex') (tree_after raw t) (append_events (ee_object (mo_event env)) L (ro_events raw)) (infos(h \<mapsto> info))"
      "execution_root_metadata info = ex_root ex'"
      "extends (state_smt (mo_state env)) Ns {} (node_get (mo_state env) db) (node_get (mo_state env) db')"
      "vo_load_from_chain vm db' (ex_root ex) = Inr (mv_natives (ex_moveos ex'))"
    using executor_execute_repr [OF assms(1-3) refl assms(5-7), of pre post] assms(8,9) by auto
  have "read_object (mo_state env) db' (ex_root ex') oid = Inr (map_option tree_shown (tree_at (tree_after raw t) oid))" for oid
    using node_reads [OF assms(1,2) r(2)] r(3) by metis
  moreover have "read_object (mo_state env) db' (ex_root ex) oid = Inr (map_option tree_shown (tree_at t oid))" for oid
    using old_root_reads [OF assms(1-4) r(4)] .
  moreover have "mv_natives (ex_moveos ex'') = mv_natives (ex_moveos ex')" if "later_run env vm pre post (ex', db') (ex'', db'')" for ex'' db''
    using later_run_natives [OF that] by simp
  ultimately show ?thesis using r(1,5) by (intro exI [of _ out] exI [of _ info] exI [of _ ex'] exI [of _ db']) blast
qed

text \<open>The VM here takes the root it loads from for the native functions.\<close>

theorem natives_from_old_root_witness:
  "\<exists>out info ex' db'. executor_execute node_env (room_vm True) [] [] room_tx (room_executor, empty_db) = (Inr (out, info), ex', db') \<and>
     mv_natives (ex_moveos ex') = room_start \<and> read_object room_env db' room_start [5, 6] = Inr None \<and>
     read_object room_env db' (ex_root ex') [5, 6] = Inr (Some (door_meta, [9])) \<and>
     mv_natives (ex_moveos (fst (snd (executor_dry_run node_env (room_vm True) room_tx (ex', db'))))) = room_start"
proof -
  have load: "\<exists>np. vo_load_from_chain (room_vm True) db' (ex_root room_executor) = Inr np \<and> vo_vm_new (room_vm True) np = Inr ()" for db'
    by (simp add: room_vm_def)
  have start: "ex_root room_executor = root_metadata GENESIS_STATE_ROOT 0" by (simp add: room_executor_def room_start_def)
  have none: "mv_cost_table ((ex_moveos room_executor)\<lparr>mv_cost_table := if True then None else Some zero_cost_schedule\<rparr>) = None" by simp
  obtain out info ex' db' where r: "executor_execute node_env (room_vm True) [] [] room_tx (room_executor, empty_db) = (Inr (out, info), ex', db')"
      "vo_load_from_chain (room_vm True) db' (ex_root room_executor) = Inr (mv_natives (ex_moveos ex'))"
      "\<forall>oid. read_object (mo_state node_env) db' (ex_root room_executor) oid =
           Inr (map_option tree_shown (tree_at (Obj_Tree (plain room_start) [0] Map.empty) oid)) \<and>
         read_object (mo_state node_env) db' (ex_root ex') oid =
           Inr (map_option tree_shown (tree_at (tree_after room_output (Obj_Tree (plain room_start) [0] Map.empty)) oid))"
      "\<forall>ex'' db''. later_run node_env (room_vm True) [] [] (ex', db') (ex'', db'') \<longrightarrow> mv_natives (ex_moveos ex'') = mv_natives (ex_moveos ex')"
    using natives_from_old_root [OF node_env_ok room_hash_free_node room_node start room_hash room_run room_executor_output none load] by blast
  have n: "mv_natives (ex_moveos ex') = room_start" using r(2) by (simp add: room_vm_def room_executor_def)
  have "read_object room_env db' room_start [5, 6] = Inr None" "read_object room_env db' (ex_root ex') [5, 6] = Inr (Some (door_meta, [9]))"
    using spec [OF r(3), of "[5, 6]"] unfolding room_door_at by (simp_all add: node_env_def tree_shown_def room_executor_def)
  moreover have "mv_natives (ex_moveos (fst (snd (executor_dry_run node_env (room_vm True) room_tx (ex', db'))))) = room_start"
    using r(4) later_run.dry_run [OF later_run.start surjective_pairing, of node_env "room_vm True" "[]" "[]" "(ex', db')" room_tx] n
    by (metis prod.collapse)
  ultimately show ?thesis using r(1) n by blast
qed

end
