(* ===== verification/Spec2Isabelle.thy ===== *)
theory Spec2Isabelle
  imports Accumulator_Properties Smt_Codec_Properties Sequencer_Properties Pipeline_Properties Gas_Properties Executor_Properties
begin

text \<open>
  A verification library for Rooch, a Move execution layer for Bitcoin (sources under \<^verbatim>\<open>src/\<close>).

  \<^bold>\<open>The program.\<close> A transaction enters the pipeline (\<^verbatim>\<open>crates/rooch-pipeline-processor\<close>), which has it
  validated, sequenced, executed, proposed and indexed. The sequencer (\<^verbatim>\<open>crates/rooch-sequencer\<close>) gives
  it an order, appends its hash to a Merkle accumulator (\<^verbatim>\<open>moveos/moveos-commons/accumulator\<close>) and
  stores both in the ledger database (\<^verbatim>\<open>crates/rooch-store\<close> over \<^verbatim>\<open>moveos/raw-store\<close>). The executor
  (\<^verbatim>\<open>crates/rooch-executor\<close>) runs it in MoveOS (\<^verbatim>\<open>moveos/moveos\<close>), metered by the gas meter, and writes what
  comes out to the stores of MoveOS (\<^verbatim>\<open>moveos/moveos-store\<close>): the objects, which form a tree of sparse
  Merkle trees (\<^verbatim>\<open>moveos/smt\<close>), the events, and an execution info that commits to both. The proposer (\<^verbatim>\<open>crates/rooch-proposer\<close>) cuts executed transactions into
  blocks and hands each batch to the data-availability layer (\<^verbatim>\<open>crates/rooch-da\<close>), which stores it in
  segments.

  \<^bold>\<open>Conventions\<close> (\<^verbatim>\<open>Rooch_Prelude\<close>). Machine integers are words; arithmetic that the release build checks
  (\<^verbatim>\<open>overflow-checks = true\<close>) is a function that may panic. An outcome is \<open>Inr\<close> of a value or \<open>Inl\<close> of a
  \<open>rust_error\<close>: \<open>Panic\<close> or \<open>Fail\<close> (a returned error). State is passed explicitly; a method on
  \<^verbatim>\<open>&mut self\<close> is an \<open>action\<close>, which keeps the state it reached when it fails. Third-party code is a
  parameter: SHA3-256, BCS, hex, the LRU cache, RocksDB, the object store, the Move VM's values and gas
  arithmetic. What the code relies on is a named contract (\<open>lru_contract\<close>, \<open>rocks_contract\<close>, the codec
  laws, \<open>gas_arithmetic\<close>), and every statement under a contract has an instance that meets it.

  \<^bold>\<open>Accumulator.\<close> \<^verbatim>\<open>Node_Index\<close> (\<^verbatim>\<open>node_index.rs\<close>): in-order indices as bit tricks, related to (level,
  position). \<^verbatim>\<open>Accumulator_Node\<close> (\<^verbatim>\<open>node.rs\<close>, \<^verbatim>\<open>accumulator_info.rs\<close>, \<^verbatim>\<open>proof/mod.rs\<close>): nodes, summary, proofs
  and the reference Merkle tree. \<^verbatim>\<open>InMemory_Accumulator\<close> (\<^verbatim>\<open>inmemory/mod.rs\<close>) and \<^verbatim>\<open>Accumulator_Tree\<close>
  (\<^verbatim>\<open>tree.rs\<close>, \<^verbatim>\<open>lib.rs\<close>, \<^verbatim>\<open>tree_store\<close>): the two implementations. \<^verbatim>\<open>Accumulator_Refinement\<close>: the
  representation invariant over the interface \<open>accumulator_store\<close>. \<^verbatim>\<open>Accumulator_Properties\<close>: append computes
  the reference root in both implementations, proofs verify and bind their element, reads return
  slices, flushing and forking keep the tree, and the index arithmetic moves between positions as in the
  tree, with the panic of the child functions on a leaf. Leaf counts
  are bounded by \<open>2 ^ 63\<close>, the largest number of leaves whose indices fit 64 bits.

  \<^bold>\<open>Sparse Merkle tree.\<close> \<^verbatim>\<open>Hash_Value\<close>, \<^verbatim>\<open>Nibble_Path\<close>, \<^verbatim>\<open>Smt_Object\<close>, \<^verbatim>\<open>Smt_Node\<close>, \<^verbatim>\<open>Smt_Proof\<close>, \<^verbatim>\<open>Tree_Cache\<close>,
  \<^verbatim>\<open>Jellyfish_Merkle\<close>, \<^verbatim>\<open>Smt_Iterator\<close> and \<^verbatim>\<open>Smt_Tree\<close> model the files of \<^verbatim>\<open>moveos/smt/src\<close> one by one.
  \<^verbatim>\<open>Smt_Hashing\<close> and \<^verbatim>\<open>Smt_Codec\<close> hold the facts on bitmaps and on the byte format; \<^verbatim>\<open>Smt_Canonical\<close> the
  unique tree of a finite map; \<^verbatim>\<open>Jellyfish_Read\<close>, \<^verbatim>\<open>Jellyfish_Delta\<close>, \<^verbatim>\<open>Jellyfish_Write\<close> and \<^verbatim>\<open>Jellyfish_Update\<close>
  relate reads and writes to that map; \<^verbatim>\<open>Smt_Iteration\<close> the iterator to the sorted list of leaves;
  \<^verbatim>\<open>Smt_Tree_Refinement\<close> the tree over a node store to a map from keys to values. \<^verbatim>\<open>Smt_Properties\<close> and
  \<^verbatim>\<open>Smt_Codec_Properties\<close>: updates then reads, proofs of presence and absence, update
  batches that hold exactly the new nodes and mark exactly the replaced ones stale, the proof after a new
  leaf, dumps and pages, formats. The iterator's fuel needs to exceed the depth of the tree and the
  number of its leaves, and 66 steps (the nibbles of a key and two) suffice to reach one leaf.

  \<^bold>\<open>Ledger.\<close> \<^verbatim>\<open>Raw_Store\<close>: write batches, column families, typed stores. \<^verbatim>\<open>Rooch_Store\<close>: transactions, sequence
  info and the ledger's stores. \<^verbatim>\<open>Rooch_Sequencer\<close>: the actor, its start from the database, genesis and
  the command that takes the last transaction back. \<^verbatim>\<open>Sequencer_Refinement\<close>: the database and the actor
  represent an append-only log. \<^verbatim>\<open>Ledger_Instance\<close>: a concrete database and codec.
  \<^verbatim>\<open>Sequencer_Properties\<close>: sequencing appends, sequenced transactions are found and proved, reverting
  undoes, the service status guards, and what the transaction after a failed write of the summary gets.

  \<^bold>\<open>Proposer, data availability, pipeline.\<close> \<^verbatim>\<open>Da_Segment\<close>, \<^verbatim>\<open>Rooch_Proposer\<close> (an inductive run relation of the
  state commitment chain) and \<^verbatim>\<open>Rooch_Pipeline\<close>; \<^verbatim>\<open>Pipeline_Properties\<close>: blocks partition the received
  transactions, published batches can be read back, and the order of execution after a restart.

  \<^bold>\<open>Gas.\<close> \<^verbatim>\<open>Gas_Schedule\<close>: the price tables and their on-chain form, tiers and cost tables. \<^verbatim>\<open>Gas_Meter\<close>: the
  abstract size of values and every call of the meter. \<^verbatim>\<open>Gas_Properties\<close>: the schedule round-trips and
  the meter accounts exactly.

  \<^bold>\<open>Objects and state.\<close> \<^verbatim>\<open>Move_Object\<close> (\<^verbatim>\<open>moveos_std/object.rs\<close>, \<^verbatim>\<open>state.rs\<close>, \<^verbatim>\<open>dynamic_field.rs\<close>): identifiers, field
  keys, metadata, object states and change sets. \<^verbatim>\<open>State_Store\<close> (\<^verbatim>\<open>moveos-store/src/state_store\<close>,
  \<^verbatim>\<open>state_resolver.rs\<close>): the node store, the state database and the resolver over a root object.
  \<^verbatim>\<open>State_Refinement\<close> (locale \<open>state_db\<close>): a stored root object stands for a tree of objects, each object
  holding its fields in a sparse Merkle tree. \<^verbatim>\<open>State_Properties\<close>: applying a change set implements the
  change of that tree, at every depth, and the resolver reads the result. \<^verbatim>\<open>Text_Format\<close> has the decimal and
  hexadecimal texts.

  \<^bold>\<open>Events.\<close> \<^verbatim>\<open>Event_Store\<close> and \<^verbatim>\<open>Event_Properties\<close>: the event store implements a log per event type, and a
  page of events is a slice of the log.

  \<^bold>\<open>MoveOS and the executor.\<close> \<^verbatim>\<open>Execution_Info\<close> and \<^verbatim>\<open>Move_Transaction\<close>: actions, contexts, transactions and
  outputs. \<^verbatim>\<open>MoveOS_Store\<close>: execution, startup and genesis infos, and how an output is stored.
  \<^verbatim>\<open>MoveOS_Executor\<close>: the cost table, verification, execution between the system functions, read-only calls and
  the actor. \<^verbatim>\<open>Executor_Refinement\<close>: a node represents a tree of objects, event logs and a table of infos, and
  the components keep to their column families. \<^verbatim>\<open>Executor_Properties\<close>: executing a transaction moves the
  node as the references do, the size of the root included, whether or not it updates the gas schedule; and
  which root the native functions are loaded from after such an update (\<open>later_run\<close>, an inductive relation
  of the calls of the actor).

  \<^bold>\<open>Shared.\<close> \<^verbatim>\<open>Rooch_Prelude\<close>, \<^verbatim>\<open>Le_Bytes\<close> (little-endian integers) and \<^verbatim>\<open>Btree_Map\<close> (ordered maps as
  ascending lists).

  \<^bold>\<open>Not modelled.\<close> The sessions of the Move VM (\<^verbatim>\<open>moveos/src/vm\<close>) are written against third-party code
  (\<^verbatim>\<open>move-vm\<close>); the calls that MoveOS makes to them are the parameter \<open>vm_ops\<close>. The Move verifier works on the
  third-party binary format. The natives of the Move frameworks, the RPC server, the indexer's SQL, the
  relayer, the command line and the faucet are glue and input/output. Metrics, timers and log lines
  have no effect on results.
\<close>

end
